(* ===== verification/Prelude.thy ===== *)
theory Prelude
  imports Main "HOL-Library.Word" "HOL-Library.AList" "HOL-Library.Multiset"
begin

text \<open>
  What every component shares: the error values the code throws, the sum type that stands for
  "returns or throws", the state-passing form of it for the classes whose methods mutate fields
  before they throw, JavaScript numbers and JSON values, and the insertion-ordered maps that
  \<^verbatim>\<open>Map\<close>, \<^verbatim>\<open>Set\<close> and plain objects are.

  Strings are lists of code units below 256. A parameter the source types \<^verbatim>\<open>number\<close> is an
  \<^typ>\<open>int\<close> (every such quantity of the modelled code is an integer, and the code's own
  range checks are kept); a value the source types \<^verbatim>\<open>unknown\<close> is a full \<open>jsval\<close>.
\<close>

named_theorems wire_simps \<open>equations of the wire layer\<close>
named_theorems state_simps \<open>equations of the client state layer\<close>
named_theorems server_simps \<open>equations of the server\<close>

section \<open>Errors\<close>

text \<open>The error classes of the source. The text of a message is reduced to what it is about: the
  label of the offending field or the name of the check that failed. \<open>pss_failure\<close> is the failure code a
  \<open>PssError\<close> carries over the wire.\<close>

datatype pss_failure =
    bad_request string
  | unauthorized
  | not_found
  | version_conflict
  | payload_too_large nat
  | rate_limited

datatype pss_error =
    PssProtocolError string
  | PssCryptoError string
  | PssStateError string
  | PssRollbackError string int int
  | PssSchemaError int int
  | PssError pss_failure
  | PlainError string

section \<open>Results: a value or a thrown error\<close>

type_synonym 'a result = "pss_error + 'a"

fun ebind :: "'e + 'a \<Rightarrow> ('a \<Rightarrow> 'e + 'b) \<Rightarrow> 'e + 'b" where
  "ebind (Inl e) f = Inl e"
| "ebind (Inr x) f = f x"

definition require :: "bool \<Rightarrow> 'e \<Rightarrow> 'e + unit" where
  "require b e = (if b then Inr () else Inl e)"

fun emap :: "('a \<Rightarrow> 'e + 'b) \<Rightarrow> 'a list \<Rightarrow> 'e + 'b list" where
  "emap f [] = Inr []"
| "emap f (x # xs) = ebind (f x) (\<lambda>y. ebind (emap f xs) (\<lambda>ys. Inr (y # ys)))"

text \<open>Methods of a mutable object: the state is returned on the throwing path too, because a field
  written before the throw stays written.\<close>

type_synonym ('s, 'e, 'a) action = "'s \<Rightarrow> ('e + 'a) \<times> 's"

definition sret :: "'a \<Rightarrow> ('s, 'e, 'a) action" where
  "sret x s = (Inr x, s)"

definition sthrow :: "'e \<Rightarrow> ('s, 'e, 'a) action" where
  "sthrow e s = (Inl e, s)"

definition sbind :: "('s, 'e, 'a) action \<Rightarrow> ('a \<Rightarrow> ('s, 'e, 'b) action) \<Rightarrow> ('s, 'e, 'b) action" where
  "sbind m f s = (case m s of (Inl e, s') \<Rightarrow> (Inl e, s') | (Inr x, s') \<Rightarrow> f x s')"

definition slift :: "'e + 'a \<Rightarrow> ('s, 'e, 'a) action" where
  "slift r s = (r, s)"

definition sget :: "('s, 'e, 's) action" where
  "sget s = (Inr s, s)"

definition smodify :: "('s \<Rightarrow> 's) \<Rightarrow> ('s, 'e, unit) action" where
  "smodify f s = (Inr (), f s)"

text \<open>\<^verbatim>\<open>try { m } catch (error) { h(error) }\<close>: the handler starts in the state the throw left.\<close>

definition scatch :: "('s, 'e, 'a) action \<Rightarrow> ('e \<Rightarrow> ('s, 'e, 'a) action) \<Rightarrow> ('s, 'e, 'a) action" where
  "scatch m h s = (case m s of (Inl e, s') \<Rightarrow> h e s' | (Inr x, s') \<Rightarrow> (Inr x, s'))"

section \<open>JavaScript numbers and JSON values\<close>

text \<open>A finite non-integer double is \<open>NFrac m e\<close>, standing for \<open>m / 2 ^ e\<close>.\<close>

datatype jnum = NInt int | NNegZero | NFrac int nat | NInf bool | NNaN

datatype jsval =
    JUndefined
  | JNull
  | JBool bool
  | JNum jnum
  | JStr string
  | JArr "jsval list"
  | JObj "(string \<times> jsval) list"

definition MAX_SAFE_INTEGER :: int where
  "MAX_SAFE_INTEGER = 2 ^ 53 - 1"

text \<open>\<^verbatim>\<open>Number.isSafeInteger\<close> on a number the source types \<^verbatim>\<open>number\<close>.\<close>

definition isSafeInteger :: "int \<Rightarrow> bool" where
  "isSafeInteger n \<longleftrightarrow> \<bar>n\<bar> \<le> MAX_SAFE_INTEGER"

text \<open>A count: what every validated version, timestamp, index and high-water mark is.\<close>

definition is_count :: "int \<Rightarrow> bool" where
  "is_count n \<longleftrightarrow> isSafeInteger n \<and> 0 \<le> n"

text \<open>Reading a property: a missing one is \<^verbatim>\<open>undefined\<close>.\<close>

definition get_prop :: "string \<Rightarrow> (string \<times> jsval) list \<Rightarrow> jsval" where
  "get_prop k o1 = (case map_of o1 k of None \<Rightarrow> JUndefined | Some v \<Rightarrow> v)"

text \<open>Assigning a computed property, \<^verbatim>\<open>o[k] = v\<close>: the key \<^verbatim>\<open>__proto__\<close> reaches the accessor of
  \<^verbatim>\<open>Object.prototype\<close> and creates no own property.\<close>

definition js_assign :: "string \<Rightarrow> 'v \<Rightarrow> (string \<times> 'v) list \<Rightarrow> (string \<times> 'v) list" where
  "js_assign k v o1 = (if k = ''__proto__'' then o1 else AList.update k v o1)"

text \<open>Spreading, \<^verbatim>\<open>{...a, ...b}\<close>: a later property replaces an earlier one in its place.\<close>

definition js_spread :: "(string \<times> 'v) list \<Rightarrow> (string \<times> 'v) list \<Rightarrow> (string \<times> 'v) list" where
  "js_spread a b = fold (\<lambda>(k, v) o1. AList.update k v o1) b a"

section \<open>Characters\<close>

definition is_digit :: "char \<Rightarrow> bool" where
  "is_digit c \<longleftrightarrow> c \<in> set ''0123456789''"

definition is_lower_hex :: "char \<Rightarrow> bool" where
  "is_lower_hex c \<longleftrightarrow> c \<in> set ''0123456789abcdef''"

text \<open>\<^verbatim>\<open>/^(0|[1-9][0-9]*)$/\<close>: the canonical spelling of a natural number.\<close>

definition canonical_decimal :: "string \<Rightarrow> bool" where
  "canonical_decimal t \<longleftrightarrow> t = ''0'' \<or> (t \<noteq> [] \<and> hd t \<noteq> CHR ''0'' \<and> list_all is_digit t)"

definition digit_char :: "nat \<Rightarrow> char" where
  "digit_char d = ''0123456789'' ! d"

text \<open>\<^verbatim>\<open>String(n)\<close> on a non-negative integer below \<open>10 ^ 21\<close>.\<close>

fun nat_to_string :: "nat \<Rightarrow> string" where
  "nat_to_string n = (if n < 10 then [digit_char n] else nat_to_string (n div 10) @ [digit_char (n mod 10)])"

declare nat_to_string.simps [simp del]

definition char_digit :: "char \<Rightarrow> nat" where
  "char_digit c = of_char c - 48"

text \<open>\<^verbatim>\<open>Number(t)\<close> and \<^verbatim>\<open>BigInt(t)\<close> on a string of decimal digits.\<close>

definition decimal_value :: "string \<Rightarrow> nat" where
  "decimal_value t = foldl (\<lambda>n c. n * 10 + char_digit c) 0 t"

definition lower_char :: "char \<Rightarrow> char" where
  "lower_char c = (let n = (of_char c :: nat) in if 65 \<le> n \<and> n \<le> 90 then char_of (n + 32) else c)"

text \<open>\<^verbatim>\<open>toLowerCase\<close> on ASCII text.\<close>

definition to_lower :: "string \<Rightarrow> string" where
  "to_lower t = map lower_char t"

section \<open>Lemmas on results and actions\<close>

lemma ebind_Inr_iff [simp]: "ebind m f = Inr y \<longleftrightarrow> (\<exists>x. m = Inr x \<and> f x = Inr y)"
  by (cases m) auto

lemma ebind_Inl_iff: "ebind m f = Inl e \<longleftrightarrow> m = Inl e \<or> (\<exists>x. m = Inr x \<and> f x = Inl e)"
  by (cases m) auto

lemma require_Inr [simp]: "require b e = Inr u \<longleftrightarrow> b"
  by (simp add: require_def)

lemma require_Inl [simp]: "require b e = Inl e' \<longleftrightarrow> \<not> b \<and> e' = e"
  by (auto simp: require_def)

lemma require_True [simp]: "require True e = Inr ()"
  by (simp add: require_def)

lemma require_False [simp]: "require False e = Inl e"
  by (simp add: require_def)

lemma emap_Inr_iff: "emap f xs = Inr ys \<longleftrightarrow> list_all2 (\<lambda>x y. f x = Inr y) xs ys"
proof (induction xs arbitrary: ys)
  case Nil
  then show ?case by auto
next
  case (Cons x xs)
  then show ?case by (cases ys) auto
qed

lemma emap_map_Inr: "(\<And>x. x \<in> set xs \<Longrightarrow> f (g x) = Inr x) \<Longrightarrow> emap f (map g xs) = Inr xs"
  by (induction xs) auto

lemma emap_length: "emap f xs = Inr ys \<Longrightarrow> length ys = length xs"
  by (simp add: emap_Inr_iff list_all2_lengthD)

lemma sbind_sret [simp]: "sbind (sret x) f = f x"
  by (rule ext) (simp add: sbind_def sret_def)

lemma sbind_sthrow [simp]: "sbind (sthrow e) f = sthrow e"
  by (rule ext) (simp add: sbind_def sthrow_def)

lemma sbind_Inr_iff:
  "sbind m f s = (Inr y, t) \<longleftrightarrow> (\<exists>x u. m s = (Inr x, u) \<and> f x u = (Inr y, t))"
  by (auto simp: sbind_def split: prod.splits sum.splits)

lemma sbind_Inl_iff:
  "sbind m f s = (Inl e, t) \<longleftrightarrow>
     m s = (Inl e, t) \<or> (\<exists>x u. m s = (Inr x, u) \<and> f x u = (Inl e, t))"
  by (auto simp: sbind_def split: prod.splits sum.splits)

text \<open>An action keeps a relation to its starting state if each part does: the rule behind every
  invariant and monotonicity proof about methods.\<close>

definition keeps :: "('s \<Rightarrow> 's \<Rightarrow> bool) \<Rightarrow> ('s, 'e, 'a) action \<Rightarrow> bool" where
  "keeps R m \<longleftrightarrow> (\<forall>s. R s (snd (m s)))"

lemma keepsI: "(\<And>s. R s (snd (m s))) \<Longrightarrow> keeps R m"
  by (simp add: keeps_def)

lemma keepsD: "keeps R m \<Longrightarrow> R s (snd (m s))"
  by (simp add: keeps_def)

lemma keeps_sret: "reflp R \<Longrightarrow> keeps R (sret x)"
  by (simp add: keeps_def sret_def reflpD)

lemma keeps_sthrow: "reflp R \<Longrightarrow> keeps R (sthrow e)"
  by (simp add: keeps_def sthrow_def reflpD)

lemma keeps_slift: "reflp R \<Longrightarrow> keeps R (slift r)"
  by (simp add: keeps_def slift_def reflpD)

lemma keeps_sget: "reflp R \<Longrightarrow> keeps R sget"
  by (simp add: keeps_def sget_def reflpD)

lemma keeps_smodify: "(\<And>s. R s (g s)) \<Longrightarrow> keeps R (smodify g)"
  by (simp add: keeps_def smodify_def)

lemma keeps_sbind:
  assumes "transp R" and "keeps R m" and "\<And>x. keeps R (f x)"
  shows "keeps R (sbind m f)"
proof (rule keepsI)
  fix s
  obtain r u where m: "m s = (r, u)" by (cases "m s")
  with assms(2) have su: "R s u" by (metis keepsD snd_conv)
  show "R s (snd (sbind m f s))"
  proof (cases r)
    case (Inl e)
    with m su show ?thesis by (simp add: sbind_def)
  next
    case (Inr x)
    have "R u (snd (f x u))" using assms(3) by (rule keepsD)
    with su have "R s (snd (f x u))" by (rule transpD [OF assms(1)])
    with m Inr show ?thesis by (simp add: sbind_def)
  qed
qed

lemma keeps_scatch:
  assumes "transp R" and "keeps R m" and "\<And>e. keeps R (h e)"
  shows "keeps R (scatch m h)"
proof (rule keepsI)
  fix s
  obtain r u where m: "m s = (r, u)" by (cases "m s")
  with assms(2) have su: "R s u" by (metis keepsD snd_conv)
  show "R s (snd (scatch m h s))"
  proof (cases r)
    case (Inl e)
    have "R u (snd (h e u))" using assms(3) by (rule keepsD)
    with su have "R s (snd (h e u))" by (rule transpD [OF assms(1)])
    with m Inl show ?thesis by (simp add: scatch_def)
  next
    case (Inr x)
    with m su show ?thesis by (simp add: scatch_def)
  qed
qed

lemma keeps_if: "keeps R m \<Longrightarrow> keeps R n \<Longrightarrow> keeps R (if b then m else n)"
  by simp

section \<open>Lemmas on association lists\<close>

lemma map_of_update [simp]: "map_of (AList.update k v al) = (map_of al)(k \<mapsto> v)"
  by (simp add: update_conv')

lemma map_of_fold_update:
  "map_of (fold (\<lambda>(k, v) o1. AList.update k v o1) b a) = map_of a ++ map_of (rev b)"
proof (induction b arbitrary: a)
  case Nil
  then show ?case by simp
next
  case (Cons p b)
  then show ?case by (cases p) (simp add: map_add_def fun_eq_iff split: option.splits)
qed

lemma map_of_js_spread: "map_of (js_spread a b) = map_of a ++ map_of (rev b)"
  by (simp add: js_spread_def map_of_fold_update)

lemma map_of_rev_distinct: "distinct (map fst b) \<Longrightarrow> map_of (rev b) = map_of b"
  by (rule map_of_eqI) (auto simp: rev_map [symmetric] map_of_eq_Some_iff intro: map_of_is_SomeI)

lemma distinct_fst_update: "distinct (map fst al) \<Longrightarrow> distinct (map fst (AList.update k v al))"
  by (rule distinct_update)

lemma update_fresh: "k \<notin> fst ` set al \<Longrightarrow> AList.update k v al = al @ [(k, v)]"
  by (induction al) auto

lemma js_spread_disjoint:
  assumes "distinct (map fst b)" and "fst ` set a \<inter> fst ` set b = {}"
  shows "js_spread a b = a @ b"
  using assms
proof (induction b arbitrary: a)
  case Nil
  then show ?case by (simp add: js_spread_def)
next
  case (Cons p b)
  obtain k v where p: "p = (k, v)" by (cases p)
  have fresh: "k \<notin> fst ` set a" using Cons.prems p by auto
  have "js_spread a (p # b) = js_spread (a @ [p]) b"
    by (simp add: js_spread_def p update_fresh [OF fresh])
  also have "\<dots> = (a @ [p]) @ b"
    by (rule Cons.IH) (use Cons.prems p in \<open>auto simp: image_iff\<close>)
  finally show ?case by simp
qed

section \<open>Lemmas on decimal strings\<close>

lemma decimal_value_snoc: "decimal_value (t @ [c]) = decimal_value t * 10 + char_digit c"
  by (simp add: decimal_value_def)

lemma char_digit_digit_char: "d < 10 \<Longrightarrow> char_digit (digit_char d) = d"
proof -
  assume "d < 10"
  then have "d \<in> {0, 1, 2, 3, 4, 5, 6, 7, 8, 9}" by auto
  then show ?thesis by (auto simp: digit_char_def char_digit_def)
qed

lemma is_digit_digit_char: "d < 10 \<Longrightarrow> is_digit (digit_char d)"
  unfolding is_digit_def digit_char_def by (rule nth_mem) simp

lemma decimal_value_nat_to_string: "decimal_value (nat_to_string n) = n"
proof (induction n rule: nat_to_string.induct)
  case (1 n)
  show ?case
  proof (cases "n < 10")
    case True
    then have "nat_to_string n = [] @ [digit_char n]"
      by (simp add: nat_to_string.simps [of n])
    then show ?thesis
      using True by (simp only: decimal_value_snoc char_digit_digit_char) (simp add: decimal_value_def)
  next
    case False
    then have "nat_to_string n = nat_to_string (n div 10) @ [digit_char (n mod 10)]"
      by (simp add: nat_to_string.simps [of n])
    with False "1.IH" show ?thesis
      by (simp add: decimal_value_snoc char_digit_digit_char)
  qed
qed

lemma nat_to_string_nonempty: "nat_to_string n \<noteq> []"
  by (subst nat_to_string.simps) simp

lemma nat_to_string_digits: "list_all is_digit (nat_to_string n)"
proof (induction n rule: nat_to_string.induct)
  case (1 n)
  then show ?case
    by (cases "n < 10") (simp_all add: nat_to_string.simps [of n] is_digit_digit_char)
qed

lemma digit_char_eq_0: "d < 10 \<Longrightarrow> digit_char d = CHR ''0'' \<longleftrightarrow> d = 0"
proof -
  assume "d < 10"
  then have "d \<in> {0, 1, 2, 3, 4, 5, 6, 7, 8, 9}" by auto
  then show ?thesis by (auto simp: digit_char_def)
qed

lemma nat_to_string_hd: "0 < n \<Longrightarrow> hd (nat_to_string n) \<noteq> CHR ''0''"
proof (induction n rule: nat_to_string.induct)
  case (1 n)
  show ?case
  proof (cases "n < 10")
    case True
    with "1.prems" show ?thesis
      by (simp add: nat_to_string.simps [of n] digit_char_eq_0)
  next
    case False
    with "1.IH" have "hd (nat_to_string (n div 10)) \<noteq> CHR ''0''" by simp
    with False show ?thesis
      by (simp add: nat_to_string.simps [of n] hd_append nat_to_string_nonempty)
  qed
qed

lemma canonical_decimal_nat_to_string: "canonical_decimal (nat_to_string n)"
proof (cases "n = 0")
  case True
  then show ?thesis by (simp add: canonical_decimal_def nat_to_string.simps digit_char_def)
next
  case False
  then show ?thesis
    by (simp add: canonical_decimal_def nat_to_string_nonempty nat_to_string_hd nat_to_string_digits)
qed

lemma to_lower_length [simp]: "length (to_lower t) = length t"
  by (simp add: to_lower_def)

text \<open>Part of a list without repetitions has none.\<close>

lemma distinct_submset: "mset xs \<subseteq># mset ys \<Longrightarrow> distinct (map f ys) \<Longrightarrow> distinct (map f xs)"
proof -
  assume s: "mset xs \<subseteq># mset ys" and d: "distinct (map f ys)"
  obtain zs where "mset zs = mset ys - mset xs" by (metis ex_mset)
  with s have "mset (map f (xs @ zs)) = mset (map f ys)" by (simp flip: image_mset_union)
  with d have "distinct (map f (xs @ zs))" by (metis mset_eq_imp_distinct_iff)
  then show ?thesis by simp
qed

end
