(* ===== verification/Wire_Codec.thy ===== *)
theory Wire_Codec
  imports Prelude
begin

text \<open>
  The byte and text codecs of the PSS wire format (\<^verbatim>\<open>packages/pss-client/src/wire/codec.ts\<close>, with the
  constants and collections beside it): base64 and hex in both directions, the eight-byte
  big-endian counter, the length and count checks, constant-time comparison. Decoding is shown to
  accept exactly one spelling per byte string.
\<close>

unbundle bit_operations_syntax

type_synonym byte = "8 word"
type_synonym bytes = "byte list"

section \<open>Constants and collections\<close>

definition PSS_SCHEMA_VERSION :: int where "PSS_SCHEMA_VERSION = 2"

definition STATE_KEY_BYTES :: nat where "STATE_KEY_BYTES = 32"

definition DERIVED_KEY_BYTES :: nat where "DERIVED_KEY_BYTES = 32"

definition ACCOUNT_ID_BYTES :: nat where "ACCOUNT_ID_BYTES = 32"

definition ED25519_PUBLIC_KEY_BYTES :: nat where "ED25519_PUBLIC_KEY_BYTES = 32"

definition ED25519_SIGNATURE_BYTES :: nat where "ED25519_SIGNATURE_BYTES = 64"

definition SHA256_BYTES :: nat where "SHA256_BYTES = 32"

definition GCM_NONCE_BYTES :: nat where "GCM_NONCE_BYTES = 12"

definition GCM_TAG_BYTES :: nat where "GCM_TAG_BYTES = 16"

definition PREIMAGE_PUT_PREFIX :: string where "PREIMAGE_PUT_PREFIX = ''pss-v1:put''"

definition PREIMAGE_DELETE_PREFIX :: string where "PREIMAGE_DELETE_PREFIX = ''pss-v1:del''"

definition PAD_TIERS :: "nat list" where "PAD_TIERS = [16384, 131072, 1048576]"

definition MAX_PLAINTEXT_BYTES :: nat where "MAX_PLAINTEXT_BYTES = 1048576"

definition MAX_CIPHERTEXT_BYTES :: nat where "MAX_CIPHERTEXT_BYTES = MAX_PLAINTEXT_BYTES + 64"

definition BODY_HEADROOM_BYTES :: nat where "BODY_HEADROOM_BYTES = 4096"

definition TIMESTAMP_SKEW_SECONDS :: int where "TIMESTAMP_SKEW_SECONDS = 300"

definition INSTALL_ID_BYTES :: nat where "INSTALL_ID_BYTES = 16"

definition INVITE_CODE_MAX_CHARS :: nat where "INVITE_CODE_MAX_CHARS = 128"

definition PLATFORM_MAX_CHARS :: nat where "PLATFORM_MAX_CHARS = 64"

lemmas wire_constants [wire_simps] =
  PSS_SCHEMA_VERSION_def STATE_KEY_BYTES_def DERIVED_KEY_BYTES_def ACCOUNT_ID_BYTES_def
  ED25519_PUBLIC_KEY_BYTES_def ED25519_SIGNATURE_BYTES_def SHA256_BYTES_def GCM_NONCE_BYTES_def
  GCM_TAG_BYTES_def PREIMAGE_PUT_PREFIX_def PREIMAGE_DELETE_PREFIX_def PAD_TIERS_def
  MAX_PLAINTEXT_BYTES_def MAX_CIPHERTEXT_BYTES_def BODY_HEADROOM_BYTES_def
  TIMESTAMP_SKEW_SECONDS_def INSTALL_ID_BYTES_def INVITE_CODE_MAX_CHARS_def PLATFORM_MAX_CHARS_def

datatype collection = State | Labels

definition COLLECTIONS :: "collection list" where
  "COLLECTIONS = [State, Labels]"

fun collection_name :: "collection \<Rightarrow> string" where
  "collection_name State = ''state''"
| "collection_name Labels = ''labels''"

text \<open>\<^verbatim>\<open>isCollection\<close>, returning the collection the text names.\<close>

definition isCollection :: "jsval \<Rightarrow> collection option" where
  "isCollection v =
     (case v of JStr t \<Rightarrow> find (\<lambda>c. collection_name c = t) COLLECTIONS | _ \<Rightarrow> None)"

section \<open>Bytes\<close>

text \<open>\<^verbatim>\<open>new TextEncoder().encode\<close> on code units below 256.\<close>

definition utf8_char :: "char \<Rightarrow> bytes" where
  "utf8_char c = (let n = (of_char c :: nat) in
     if n < 128 then [word_of_nat n]
     else [word_of_nat (192 + n div 64), word_of_nat (128 + n mod 64)])"

definition utf8 :: "string \<Rightarrow> bytes" where
  "utf8 t = concat (map utf8_char t)"

definition concatBytes :: "bytes list \<Rightarrow> bytes" where
  "concatBytes parts = concat parts"

definition bytesEqual :: "bytes \<Rightarrow> bytes \<Rightarrow> bool" where
  "bytesEqual a b =
     (if length a \<noteq> length b then False
      else fold (\<lambda>(x, y) diff. diff OR (x XOR y)) (zip a b) 0 = 0)"

section \<open>Base64\<close>

definition BASE64_ALPHABET :: string where
  "BASE64_ALPHABET = ''ABCDEFGHIJKLMNOPQRSTUVWXYZabcdefghijklmnopqrstuvwxyz0123456789+/''"

definition b64_char :: "32 word \<Rightarrow> char" where
  "b64_char i = BASE64_ALPHABET ! unat (i AND 63)"

definition BASE64_INDEX :: "char \<Rightarrow> 32 word option" where
  "BASE64_INDEX c = map_of (zip BASE64_ALPHABET (map word_of_nat [0..<64])) c"

text \<open>The 24-bit group of one, two or three bytes.\<close>

definition b64_pack1 :: "byte \<Rightarrow> 32 word" where
  "b64_pack1 a = push_bit 16 (ucast a)"

definition b64_pack2 :: "byte \<Rightarrow> byte \<Rightarrow> 32 word" where
  "b64_pack2 a b = push_bit 16 (ucast a) OR push_bit 8 (ucast b)"

definition b64_pack3 :: "byte \<Rightarrow> byte \<Rightarrow> byte \<Rightarrow> 32 word" where
  "b64_pack3 a b c = push_bit 16 (ucast a) OR push_bit 8 (ucast b) OR ucast c"

fun toBase64 :: "bytes \<Rightarrow> string" where
  "toBase64 (a # b # c # rest) =
     (let word = b64_pack3 a b c
      in [b64_char (drop_bit 18 word), b64_char (drop_bit 12 word),
          b64_char (drop_bit 6 word), b64_char word] @ toBase64 rest)"
| "toBase64 [a, b] =
     (let word = b64_pack2 a b
      in [b64_char (drop_bit 18 word), b64_char (drop_bit 12 word),
          b64_char (drop_bit 6 word), CHR ''=''])"
| "toBase64 [a] =
     (let word = b64_pack1 a
      in [b64_char (drop_bit 18 word), b64_char (drop_bit 12 word), CHR ''='', CHR ''=''])"
| "toBase64 [] = []"

text \<open>\<^verbatim>\<open>/^[A-Za-z0-9+/]*={0,2}$/\<close>\<close>

definition BASE64_SHAPE :: "string \<Rightarrow> bool" where
  "BASE64_SHAPE t \<longleftrightarrow>
     dropWhile (\<lambda>c. c \<in> set BASE64_ALPHABET) t \<in> {'''', ''='', ''==''}"

definition ends_with :: "string \<Rightarrow> string \<Rightarrow> bool" where
  "ends_with t suf \<longleftrightarrow> length suf \<le> length t \<and> drop (length t - length suf) t = suf"

definition b64_value :: "char \<Rightarrow> 32 word option" where
  "b64_value c = (if c = CHR ''='' then Some 0 else BASE64_INDEX c)"

definition b64_word :: "32 word \<Rightarrow> 32 word \<Rightarrow> 32 word \<Rightarrow> 32 word \<Rightarrow> 32 word" where
  "b64_word v0 v1 v2 v3 =
     push_bit 6 (push_bit 6 (push_bit 6 (push_bit 6 0 OR v0) OR v1) OR v2) OR v3"

definition b64_triple :: "32 word \<Rightarrow> bytes" where
  "b64_triple word = [ucast (drop_bit 16 word AND 255), ucast (drop_bit 8 word AND 255), ucast (word AND 255)]"

text \<open>The decoding loop, four characters at a time; \<open>None\<close> is the throw on a character outside the
  alphabet (a read past the end is such a character too).\<close>

fun b64_groups :: "string \<Rightarrow> bytes option" where
  "b64_groups [] = Some []"
| "b64_groups (a # b # c # d # rest) =
     (case (b64_value a, b64_value b, b64_value c, b64_value d) of
        (Some v0, Some v1, Some v2, Some v3) \<Rightarrow>
          (case b64_groups rest of None \<Rightarrow> None
           | Some out \<Rightarrow> Some (b64_triple (b64_word v0 v1 v2 v3) @ out))
      | _ \<Rightarrow> None)"
| "b64_groups _ = None"

definition fromBase64 :: "string \<Rightarrow> string \<Rightarrow> bytes result" where
  "fromBase64 t label =
     (if length t mod 4 \<noteq> 0 \<or> \<not> BASE64_SHAPE t
      then Inl (PssProtocolError (label @ '' is not base64''))
      else
        let padding = (if ends_with t ''=='' then 2 else if ends_with t ''='' then 1 else 0);
            outlen = (length t div 4) * 3 - padding
        in case b64_groups t of
             None \<Rightarrow> Inl (PssProtocolError (label @ '' is not base64''))
           | Some triples \<Rightarrow>
               let out = take outlen triples
               in if toBase64 out \<noteq> t
                  then Inl (PssProtocolError (label @ '' is not canonical base64''))
                  else Inr out)"

section \<open>Hexadecimal\<close>

definition hex_char :: "nat \<Rightarrow> char" where
  "hex_char d = ''0123456789abcdef'' ! d"

text \<open>\<^verbatim>\<open>byte.toString(16).padStart(2, "0")\<close>\<close>

definition hex_byte :: "byte \<Rightarrow> string" where
  "hex_byte b = (if unat b < 16 then [CHR ''0'', hex_char (unat b)]
                 else [hex_char (unat b div 16), hex_char (unat b mod 16)])"

definition toHexRaw :: "bytes \<Rightarrow> string" where
  "toHexRaw bs = concat (map hex_byte bs)"

definition hex_value :: "char \<Rightarrow> nat" where
  "hex_value c = (if is_digit c then of_char c - 48 else of_char c - 87)"

fun hex_pairs :: "string \<Rightarrow> bytes" where
  "hex_pairs (a # b # rest) = word_of_nat (hex_value a * 16 + hex_value b) # hex_pairs rest"
| "hex_pairs _ = []"

definition fromHexRaw :: "string \<Rightarrow> string \<Rightarrow> bytes result" where
  "fromHexRaw t label =
     (if \<not> list_all is_lower_hex t \<or> length t mod 2 \<noteq> 0
      then Inl (PssProtocolError (label @ '' is not unprefixed lowercase hex''))
      else Inr (hex_pairs t))"

definition toHex :: "bytes \<Rightarrow> string" where
  "toHex bs = ''0x'' @ toHexRaw bs"

text \<open>\<^verbatim>\<open>/^0x[0-9a-f]*$/\<close>\<close>

definition HEX_SHAPE :: "string \<Rightarrow> bool" where
  "HEX_SHAPE t \<longleftrightarrow> take 2 t = ''0x'' \<and> list_all is_lower_hex (drop 2 t)"

definition fromHex :: "string \<Rightarrow> string \<Rightarrow> bytes result" where
  "fromHex t label =
     (if \<not> HEX_SHAPE t \<or> length t mod 2 \<noteq> 0
      then Inl (PssProtocolError (label @ '' is not 0x-prefixed lowercase hex''))
      else fromHexRaw (drop 2 t) label)"

section \<open>Checks and counters\<close>

definition assertLength :: "bytes \<Rightarrow> nat \<Rightarrow> string \<Rightarrow> bytes result" where
  "assertLength bs expected label =
     (if length bs \<noteq> expected then Inl (PssProtocolError (label @ '' has the wrong length''))
      else Inr bs)"

text \<open>A negative zero is refused by \<^verbatim>\<open>Object.is(value, -0)\<close>.\<close>

definition assertCount :: "jsval \<Rightarrow> string \<Rightarrow> int result" where
  "assertCount v label =
     (case v of
        JNum (NInt n) \<Rightarrow>
          (if \<not> isSafeInteger n \<or> n < 0
           then Inl (PssProtocolError (label @ '' must be a non-negative safe integer''))
           else Inr n)
      | _ \<Rightarrow> Inl (PssProtocolError (label @ '' must be a non-negative safe integer'')))"

definition U64_BYTES :: nat where "U64_BYTES = 8"

text \<open>The loop fills the buffer from its last byte to its first.\<close>

fun u64be_loop :: "nat \<Rightarrow> nat \<Rightarrow> bytes \<Rightarrow> bytes" where
  "u64be_loop 0 remaining out = out"
| "u64be_loop (Suc i) remaining out =
     u64be_loop i (drop_bit 8 remaining) (word_of_nat (remaining AND 255) # out)"

definition u64be :: "int \<Rightarrow> string \<Rightarrow> bytes result" where
  "u64be v label =
     ebind (assertCount (JNum (NInt v)) label) (\<lambda>n. Inr (u64be_loop U64_BYTES (nat n) []))"

section \<open>The contract of a canonical codec\<close>

text \<open>An encoder and a decoder that accepts exactly the encoder's own spellings. A signed request is
  verified over decoded bytes, so a second spelling of the same bytes would be a rewritten request
  under the same signature.\<close>

locale canonical_codec =
  fixes enc :: "'a \<Rightarrow> 'b" and dec :: "'b \<Rightarrow> 'e + 'a"
  assumes dec_enc: "dec (enc x) = Inr x"
    and enc_dec: "dec t = Inr x \<Longrightarrow> enc x = t"
begin

lemma dec_iff: "dec t = Inr x \<longleftrightarrow> t = enc x"
  using dec_enc enc_dec by blast

lemma enc_inject: "enc x = enc y \<longleftrightarrow> x = y"
  using dec_enc by (metis Inr_inject)

lemma dec_unique: "dec t = Inr x \<Longrightarrow> dec u = Inr x \<Longrightarrow> t = u"
  by (simp add: dec_iff)

end

section \<open>Lemmas: base64\<close>

lemma and_63: "(w :: 32 word) AND 63 = take_bit 6 w"
  by (simp add: take_bit_eq_mask mask_eq_exp_minus_1)

lemma and_255: "(w :: 32 word) AND 255 = take_bit 8 w"
  by (simp add: take_bit_eq_mask mask_eq_exp_minus_1)

lemma length_BASE64_ALPHABET: "length BASE64_ALPHABET = 64"
  by (simp add: BASE64_ALPHABET_def)

lemma distinct_BASE64_ALPHABET: "distinct BASE64_ALPHABET"
  by (simp add: BASE64_ALPHABET_def)

lemma eq_sign_notin_alphabet: "CHR ''='' \<notin> set BASE64_ALPHABET"
  by (simp add: BASE64_ALPHABET_def)

lemma unat_take_bit_6: "unat (take_bit 6 (w :: 32 word)) < 64"
proof -
  have "unat (take_bit 6 w) = take_bit 6 (unat w)" by (simp add: unsigned_take_bit_eq)
  then show ?thesis by (simp add: take_bit_eq_mod)
qed

lemma b64_char_in: "b64_char w \<in> set BASE64_ALPHABET"
  unfolding b64_char_def and_63
  by (rule nth_mem) (simp add: length_BASE64_ALPHABET unat_take_bit_6)

lemma b64_value_b64_char: "b64_value (b64_char w) = Some (take_bit 6 w)"
proof -
  let ?i = "unat (take_bit 6 w)"
  have i: "?i < 64" by (rule unat_take_bit_6)
  have ne: "b64_char w \<noteq> CHR ''=''" using b64_char_in eq_sign_notin_alphabet by metis
  have "BASE64_INDEX (BASE64_ALPHABET ! ?i) = Some (map word_of_nat [0..<64] ! ?i)"
    unfolding BASE64_INDEX_def
    by (rule map_of_zip_nth) (simp_all add: length_BASE64_ALPHABET distinct_BASE64_ALPHABET i)
  also have "map word_of_nat [0..<64] ! ?i = take_bit 6 w"
    using i by simp
  finally show ?thesis
    using ne by (simp add: b64_value_def b64_char_def and_63)
qed

lemma b64_word_slices:
  fixes w :: "32 word"
  assumes "take_bit 24 w = w"
  shows "b64_word (take_bit 6 (drop_bit 18 w)) (take_bit 6 (drop_bit 12 w))
           (take_bit 6 (drop_bit 6 w)) (take_bit 6 w) = w"
proof (rule bit_word_eqI)
  fix n
  assume n: "n < LENGTH(32)"
  have w24: "bit w n \<Longrightarrow> n < 24"
    by (subst (asm) assms [symmetric]) (simp add: bit_take_bit_iff)
  show "bit (b64_word (take_bit 6 (drop_bit 18 w)) (take_bit 6 (drop_bit 12 w))
           (take_bit 6 (drop_bit 6 w)) (take_bit 6 w)) n = bit w n"
    using n w24
    by (cases "n < 6"; cases "n < 12"; cases "n < 18") (auto simp: b64_word_def bit_simps)
qed

lemma take_bit_24_pack3: "take_bit 24 (b64_pack3 a b c) = b64_pack3 a b c"
  unfolding b64_pack3_def
  by (rule bit_word_eqI) (auto simp: bit_simps dest: bit_imp_le_length)

lemma b64_triple_pack3: "b64_triple (b64_pack3 a b c) = [a, b, c]"
proof -
  have "ucast (take_bit 8 (drop_bit 16 (b64_pack3 a b c))) = a"
    unfolding b64_pack3_def by (rule bit_word_eqI) (auto simp: bit_simps dest: bit_imp_le_length)
  moreover have "ucast (take_bit 8 (drop_bit 8 (b64_pack3 a b c))) = b"
    unfolding b64_pack3_def by (rule bit_word_eqI) (auto simp: bit_simps dest: bit_imp_le_length)
  moreover have "ucast (take_bit 8 (b64_pack3 a b c)) = c"
    unfolding b64_pack3_def by (rule bit_word_eqI) (auto simp: bit_simps dest: bit_imp_le_length)
  ultimately show ?thesis by (simp add: b64_triple_def and_255)
qed

lemma b64_pack2_pack3: "b64_pack2 a b = b64_pack3 a b 0"
  by (simp add: b64_pack2_def b64_pack3_def)

lemma b64_pack1_pack3: "b64_pack1 a = b64_pack3 a 0 0"
  by (simp add: b64_pack1_def b64_pack3_def)

lemma b64_low_bits:
  "take_bit 6 (b64_pack3 a b 0) = 0" "take_bit 6 (drop_bit 6 (b64_pack3 a 0 0)) = 0"
  unfolding b64_pack3_def by (rule bit_word_eqI, auto simp: bit_simps)+

lemma b64_group_word:
  "b64_triple (b64_word (take_bit 6 (drop_bit 18 (b64_pack3 a b c))) (take_bit 6 (drop_bit 12 (b64_pack3 a b c)))
     (take_bit 6 (drop_bit 6 (b64_pack3 a b c))) (take_bit 6 (b64_pack3 a b c))) = [a, b, c]"
  by (simp only: b64_word_slices [OF take_bit_24_pack3] b64_triple_pack3)

lemma b64_groups_pack:
  "b64_groups (b64_char (drop_bit 18 (b64_pack3 a b c)) # b64_char (drop_bit 12 (b64_pack3 a b c)) #
     b64_char (drop_bit 6 (b64_pack3 a b c)) # b64_char (b64_pack3 a b c) # rest) =
   map_option (\<lambda>out. [a, b, c] @ out) (b64_groups rest)"
  by (simp add: b64_value_b64_char b64_group_word split: option.splits)

lemma b64_value_eq_sign: "b64_value (CHR ''='') = Some 0"
  by (simp add: b64_value_def)

lemma b64_groups_two:
  "b64_groups [b64_char (drop_bit 18 (b64_pack2 a b)), b64_char (drop_bit 12 (b64_pack2 a b)),
     b64_char (drop_bit 6 (b64_pack2 a b)), CHR ''=''] = Some [a, b, 0]"
  using b64_group_word [of a b 0]
  by (simp add: b64_pack2_pack3 b64_value_b64_char b64_value_eq_sign b64_low_bits)

lemma b64_groups_one:
  "b64_groups [b64_char (drop_bit 18 (b64_pack1 a)), b64_char (drop_bit 12 (b64_pack1 a)),
     CHR ''='', CHR ''=''] = Some [a, 0, 0]"
  using b64_group_word [of a 0 0]
  by (simp add: b64_pack1_pack3 b64_value_b64_char b64_value_eq_sign b64_low_bits)

text \<open>What the decoding loop yields on an encoding: the bytes, then the zeros the padding stands for.\<close>

definition b64_pad :: "bytes \<Rightarrow> nat" where
  "b64_pad bs = (3 - length bs mod 3) mod 3"

lemma b64_groups_toBase64: "b64_groups (toBase64 bs) = Some (bs @ replicate (b64_pad bs) 0)"
proof (induction bs rule: toBase64.induct)
  case (1 a b c rest)
  have "b64_pad (a # b # c # rest) = b64_pad rest" by (simp add: b64_pad_def)
  with 1 show ?case by (simp add: Let_def b64_groups_pack del: b64_groups.simps(2))
next
  case (2 a b)
  show ?case by (simp add: Let_def b64_groups_two b64_pad_def del: b64_groups.simps(2))
next
  case (3 a)
  show ?case by (simp add: Let_def b64_groups_one b64_pad_def numeral_2_eq_2 del: b64_groups.simps(2))
next
  case 4
  show ?case by (simp add: b64_pad_def)
qed

lemma length_toBase64: "length (toBase64 bs) = 4 * ((length bs + 2) div 3)"
proof (induction bs rule: toBase64.induct)
  case (1 a b c rest)
  have "(length (a # b # c # rest) + 2) div 3 = Suc ((length rest + 2) div 3)" by simp
  with 1 show ?case by (simp add: Let_def del: length_Cons)
qed (simp_all add: Let_def)

lemma BASE64_SHAPE_append:
  "(\<And>c. c \<in> set xs \<Longrightarrow> c \<in> set BASE64_ALPHABET) \<Longrightarrow> BASE64_SHAPE (xs @ t) = BASE64_SHAPE t"
  by (simp add: BASE64_SHAPE_def dropWhile_append2)

lemma BASE64_SHAPE_Cons: "BASE64_SHAPE (b64_char w # t) = BASE64_SHAPE t"
  using BASE64_SHAPE_append [of "[b64_char w]" t] by (simp add: b64_char_in)

lemma BASE64_SHAPE_toBase64: "BASE64_SHAPE (toBase64 bs)"
proof (induction bs rule: toBase64.induct)
  case (1 a b c rest)
  then show ?case by (simp add: Let_def BASE64_SHAPE_Cons)
next
  case (2 a b)
  show ?case
    by (simp add: Let_def BASE64_SHAPE_Cons) (simp add: BASE64_SHAPE_def eq_sign_notin_alphabet)
next
  case (3 a)
  show ?case
    by (simp add: Let_def BASE64_SHAPE_Cons) (simp add: BASE64_SHAPE_def eq_sign_notin_alphabet)
next
  case 4
  show ?case by (simp add: BASE64_SHAPE_def)
qed

lemma ends_with_append: "length suf \<le> length t \<Longrightarrow> ends_with (s @ t) suf = ends_with t suf"
  by (simp add: ends_with_def drop_append Suc_diff_le)

lemma toBase64_Nil_iff: "toBase64 bs = [] \<longleftrightarrow> bs = []"
  by (cases bs rule: toBase64.cases) (simp_all add: Let_def)

lemma ends_with_toBase64:
  "(if ends_with (toBase64 bs) ''=='' then 2 else if ends_with (toBase64 bs) ''='' then 1 else 0) = b64_pad bs"
proof (induction bs rule: toBase64.induct)
  case (1 a b c rest)
  have ne: "b64_char w \<noteq> CHR ''=''" for w using b64_char_in eq_sign_notin_alphabet by metis
  have pad: "b64_pad (a # b # c # rest) = b64_pad rest" by (simp add: b64_pad_def)
  show ?case
  proof (cases "rest = []")
    case True
    then show ?thesis by (simp add: Let_def ends_with_def ne b64_pad_def)
  next
    case False
    then have "4 \<le> length (toBase64 rest)"
      by (cases rest) (simp_all add: length_toBase64)
    then have "2 \<le> length (toBase64 rest)" "1 \<le> length (toBase64 rest)" by simp_all
    then show ?thesis
      using 1 pad by (auto simp: Let_def ends_with_append [of _ _ "[_, _, _, _]", simplified] split: if_splits)
  qed
next
  case (2 a b)
  have ne: "b64_char w \<noteq> CHR ''=''" for w using b64_char_in eq_sign_notin_alphabet by metis
  show ?case by (simp add: Let_def ends_with_def ne b64_pad_def)
next
  case (3 a)
  show ?case by (simp add: Let_def ends_with_def b64_pad_def)
next
  case 4
  show ?case by (simp add: ends_with_def b64_pad_def)
qed

lemma b64_outlen: "(length (toBase64 bs) div 4) * 3 - b64_pad bs = length bs"
proof -
  define q r where "q = length bs div 3" and "r = length bs mod 3"
  then have "length bs = 3 * q + r" and "r = 0 \<or> r = 1 \<or> r = 2" by auto
  then have "(length bs + 2) div 3 * 3 - (3 - length bs mod 3) mod 3 = length bs"
    by auto
  then show ?thesis by (simp add: length_toBase64 b64_pad_def)
qed

lemma fromBase64_toBase64: "fromBase64 (toBase64 bs) label = Inr bs"
proof -
  have "length (toBase64 bs) mod 4 = 0" by (simp add: length_toBase64)
  then show ?thesis
    by (simp add: fromBase64_def Let_def ends_with_toBase64 b64_groups_toBase64 b64_outlen
        BASE64_SHAPE_toBase64 del: take_append) simp
qed

lemma toBase64_fromBase64: "fromBase64 t label = Inr bs \<Longrightarrow> toBase64 bs = t"
  by (auto simp: fromBase64_def Let_def split: if_splits option.splits)

interpretation base64_codec: canonical_codec toBase64 "\<lambda>t. fromBase64 t label" for label
  by unfold_locales (simp_all add: fromBase64_toBase64 toBase64_fromBase64)

section \<open>Lemmas: hexadecimal\<close>

lemma hex_digit_table:
  "list_all (\<lambda>d. hex_value (hex_char d) = d \<and> is_lower_hex (hex_char d)) [0..<16]"
  by (simp add: hex_value_def hex_char_def is_digit_def is_lower_hex_def upt_rec)

lemma hex_char_table:
  "list_all (\<lambda>c. hex_char (hex_value c) = c \<and> hex_value c < 16) ''0123456789abcdef''"
  by (simp add: hex_value_def hex_char_def is_digit_def is_lower_hex_def)

lemma hex_value_hex_char: "d < 16 \<Longrightarrow> hex_value (hex_char d) = d"
  using hex_digit_table by (simp add: list_all_iff)

lemma hex_char_lower: "d < 16 \<Longrightarrow> is_lower_hex (hex_char d)"
  using hex_digit_table by (simp add: list_all_iff)

lemma hex_char_hex_value: "is_lower_hex c \<Longrightarrow> hex_char (hex_value c) = c \<and> hex_value c < 16"
  using hex_char_table by (simp only: list_all_iff is_lower_hex_def)

lemma hex_byte_eq: "hex_byte b = [hex_char (unat b div 16), hex_char (unat b mod 16)]"
  by (simp add: hex_byte_def hex_char_def)

lemma unat_byte_less: "unat (b :: byte) < 256"
  using unsigned_less [of b] by simp

lemma hex_byte_digits: "unat (b :: byte) div 16 < 16"
  using unat_byte_less [of b] by simp

lemma hex_pairs_toHexRaw: "hex_pairs (toHexRaw bs) = bs"
proof (induction bs)
  case Nil
  then show ?case by (simp add: toHexRaw_def)
next
  case (Cons b bs)
  have "word_of_nat (unat b div 16 * 16 + unat b mod 16) = b" by (simp add: div_mult_mod_eq)
  with Cons show ?case
    by (simp add: toHexRaw_def hex_byte_eq hex_value_hex_char hex_byte_digits)
qed

lemma toHexRaw_lower: "list_all is_lower_hex (toHexRaw bs)"
  by (induction bs) (simp_all add: toHexRaw_def hex_byte_eq hex_char_lower hex_byte_digits)

lemma length_toHexRaw: "length (toHexRaw bs) = 2 * length bs"
  by (induction bs) (simp_all add: toHexRaw_def hex_byte_eq)

lemma toHexRaw_hex_pairs:
  "list_all is_lower_hex t \<Longrightarrow> length t mod 2 = 0 \<Longrightarrow> toHexRaw (hex_pairs t) = t"
proof (induction t rule: hex_pairs.induct)
  case (1 a b rest)
  have a: "hex_char (hex_value a) = a" "hex_value a < 16"
    and b: "hex_char (hex_value b) = b" "hex_value b < 16"
    using "1.prems" hex_char_hex_value by simp_all
  have "hex_value a * 16 + hex_value b < 256" using a b by simp
  then have "unat (word_of_nat (hex_value a * 16 + hex_value b) :: byte) = hex_value a * 16 + hex_value b"
    by (subst unat_of_nat) simp
  with a b "1.IH" "1.prems" show ?case
    by (simp add: toHexRaw_def hex_byte_eq)
qed (simp_all add: toHexRaw_def)

lemma fromHexRaw_toHexRaw: "fromHexRaw (toHexRaw bs) label = Inr bs"
  by (simp add: fromHexRaw_def toHexRaw_lower length_toHexRaw hex_pairs_toHexRaw)

lemma toHexRaw_fromHexRaw: "fromHexRaw t label = Inr bs \<Longrightarrow> toHexRaw bs = t"
  by (auto simp: fromHexRaw_def toHexRaw_hex_pairs split: if_splits)

interpretation hexraw_codec: canonical_codec toHexRaw "\<lambda>t. fromHexRaw t label" for label
  by unfold_locales (simp_all add: fromHexRaw_toHexRaw toHexRaw_fromHexRaw)

lemma fromHex_toHex: "fromHex (toHex bs) label = Inr bs"
  by (simp add: fromHex_def toHex_def HEX_SHAPE_def toHexRaw_lower length_toHexRaw fromHexRaw_toHexRaw)

lemma toHex_fromHex:
  assumes "fromHex t label = Inr bs"
  shows "toHex bs = t"
proof -
  from assms have "take 2 t = ''0x''" and "fromHexRaw (drop 2 t) label = Inr bs"
    by (auto simp: fromHex_def HEX_SHAPE_def split: if_splits)
  then have "''0x'' @ toHexRaw bs = take 2 t @ drop 2 t"
    by (metis toHexRaw_fromHexRaw)
  then show ?thesis by (simp add: toHex_def)
qed

interpretation hex_codec: canonical_codec toHex "\<lambda>t. fromHex t label" for label
  by unfold_locales (simp_all add: fromHex_toHex toHex_fromHex)

section \<open>Lemmas: checks, counters, comparison\<close>

lemma assertLength_Inr [simp]: "assertLength bs n label = Inr bs' \<longleftrightarrow> length bs = n \<and> bs' = bs"
  by (auto simp: assertLength_def)

lemma assertCount_Inr: "assertCount v label = Inr n \<longleftrightarrow> v = JNum (NInt n) \<and> is_count n"
  by (auto simp: assertCount_def is_count_def split: jsval.splits jnum.splits if_splits)

lemma assertCount_error:
  "assertCount v label = Inl e \<Longrightarrow> e = PssProtocolError (label @ '' must be a non-negative safe integer'')"
  by (auto simp: assertCount_def split: jsval.splits jnum.splits if_splits)

lemma assertCount_int [simp]: "is_count n \<Longrightarrow> assertCount (JNum (NInt n)) label = Inr n"
  by (simp add: assertCount_Inr)

lemma length_u64be_loop: "length (u64be_loop k n out) = k + length out"
  by (induction k n out rule: u64be_loop.induct) simp_all

text \<open>Reading the buffer back, most significant byte first.\<close>

definition be_value :: "bytes \<Rightarrow> nat" where
  "be_value bs = foldl (\<lambda>n b. n * 256 + unat b) 0 bs"

lemma foldl_be: "foldl (\<lambda>n b. n * 256 + unat (b :: byte)) acc bs = acc * 256 ^ length bs + be_value bs"
proof (induction bs arbitrary: acc)
  case Nil
  then show ?case by (simp add: be_value_def)
next
  case (Cons b bs)
  have "be_value (b # bs) = unat b * 256 ^ length bs + be_value bs"
    using Cons.IH [of "unat b"] by (simp add: be_value_def)
  then show ?case using Cons.IH [of "acc * 256 + unat b"] by (simp add: algebra_simps)
qed

lemma be_value_Nil [simp]: "be_value [] = 0"
  by (simp add: be_value_def)

lemma be_value_Cons: "be_value (b # bs) = unat b * 256 ^ length bs + be_value bs"
  using foldl_be [of "unat b" bs] by (simp add: be_value_def)

lemma nat_and_255: "(n :: nat) AND 255 = n mod 256"
proof -
  have "n AND 255 = n AND mask 8" by (simp add: mask_eq_exp_minus_1)
  also have "\<dots> = take_bit 8 n" by (rule take_bit_eq_mask [symmetric])
  finally show ?thesis by (simp add: take_bit_eq_mod)
qed

lemma unat_low_byte: "unat (word_of_nat (n AND 255) :: byte) = n mod 256"
  by (simp add: nat_and_255 unat_of_nat take_bit_eq_mod)

lemma be_value_u64be_loop:
  "be_value (u64be_loop k n out) = (n mod 256 ^ k) * 256 ^ length out + be_value out"
proof (induction k arbitrary: n out)
  case 0
  then show ?case by simp
next
  case (Suc k)
  have split: "n mod 256 ^ Suc k = (n div 256) mod 256 ^ k * 256 + n mod 256"
    by (simp add: mod_mult2_eq mult.commute)
  have "be_value (u64be_loop (Suc k) n out) =
      (n div 256) mod 256 ^ k * 256 ^ Suc (length out) + (n mod 256 * 256 ^ length out + be_value out)"
    by (simp add: Suc.IH be_value_Cons unat_low_byte drop_bit_eq_div)
  also have "\<dots> = (n mod 256 ^ Suc k) * 256 ^ length out + be_value out"
    by (simp only: split) (simp add: algebra_simps)
  finally show ?case .
qed

lemma u64be_Inr: "u64be v label = Inr bs \<longleftrightarrow> is_count v \<and> bs = u64be_loop 8 (nat v) []"
  by (auto simp: u64be_def assertCount_Inr U64_BYTES_def)

lemma u64be_length: "u64be v label = Inr bs \<Longrightarrow> length bs = 8"
  by (simp add: u64be_Inr length_u64be_loop)

lemma u64be_value:
  assumes "u64be v label = Inr bs"
  shows "int (be_value bs) = v"
proof -
  from assms have v: "0 \<le> v" "v < 2 ^ 53" and bs: "bs = u64be_loop 8 (nat v) []"
    by (auto simp: u64be_Inr is_count_def isSafeInteger_def MAX_SAFE_INTEGER_def)
  have "nat v < 256 ^ 8" using v by simp
  then have "be_value bs = nat v" by (simp add: bs be_value_u64be_loop)
  with v show ?thesis by simp
qed

lemma u64be_inject: "u64be v l = Inr bs \<Longrightarrow> u64be w l' = Inr bs \<Longrightarrow> v = w"
  using u64be_value by metis

lemma fold_or_zero:
  "fold (\<lambda>(x, y) d. d OR (x XOR y)) zs (d :: byte) = 0 \<longleftrightarrow> d = 0 \<and> (\<forall>(x, y) \<in> set zs. x = y)"
proof (induction zs arbitrary: d)
  case Nil
  then show ?case by simp
next
  case (Cons z zs)
  have or0: "(p OR q = 0) = (p = 0 \<and> q = 0)" for p q :: byte
    by (simp add: or_eq_0_iff)
  have xor0: "(x XOR y = 0) = (x = y)" for x y :: byte
    by (auto simp: bit_eq_iff bit_xor_iff)
  show ?case
    by (cases z) (auto simp: Cons.IH or0 xor0)
qed

lemma bytesEqual_iff [simp]: "bytesEqual a b \<longleftrightarrow> a = b"
proof (cases "length a = length b")
  case True
  then show ?thesis
    by (auto simp: bytesEqual_def fold_or_zero list_eq_iff_zip_eq)
next
  case False
  then show ?thesis by (auto simp: bytesEqual_def)
qed

lemma isCollection_Some: "isCollection v = Some c \<longleftrightarrow> v = JStr (collection_name c)"
  by (cases c) (auto simp: isCollection_def COLLECTIONS_def split: jsval.splits)

lemma collection_name_inject [simp]: "collection_name c = collection_name d \<longleftrightarrow> c = d"
  by (cases c; cases d) simp_all

end
