(* ===== verification/Wire_Preimage.thy ===== *)
theory Wire_Preimage
  imports Wire_Codec
begin

text \<open>
  The byte strings that are signed and authenticated (\<^verbatim>\<open>wire/preimage.ts\<close>, \<^verbatim>\<open>wire/aad.ts\<close>): the PUT and
  DELETE signing preimages and the AEAD's associated data. Each is shown to be injective in all its
  fields, and the two preimages to be separated from each other, so a signature or a tag binds one
  request only.
\<close>

record put_preimage_input =
  pi_accountId :: bytes
  pi_collection :: collection
  pi_version :: int
  pi_prevVersion :: int
  pi_ciphertextDigest :: bytes
  pi_timestamp :: int

record delete_preimage_input =
  di_accountId :: bytes
  di_nonce :: bytes
  di_timestamp :: int

definition lengthPrefixedAscii :: "string \<Rightarrow> bytes result" where
  "lengthPrefixedAscii t =
     (let body = utf8 t
      in if length body > 255 then Inl (PssProtocolError ''preimage field longer than 255 bytes'')
         else Inr (concatBytes [[word_of_nat (length body)], body]))"

definition putPreimage :: "put_preimage_input \<Rightarrow> bytes result" where
  "putPreimage i =
     ebind (assertLength (pi_accountId i) ACCOUNT_ID_BYTES ''accountId'') (\<lambda>_.
     ebind (assertLength (pi_ciphertextDigest i) SHA256_BYTES ''ciphertextDigest'') (\<lambda>_.
     ebind (lengthPrefixedAscii (collection_name (pi_collection i))) (\<lambda>coll.
     ebind (u64be (pi_version i) ''version'') (\<lambda>version.
     ebind (u64be (pi_prevVersion i) ''prevVersion'') (\<lambda>prevVersion.
     ebind (u64be (pi_timestamp i) ''timestamp'') (\<lambda>timestamp.
       Inr (concatBytes
         [utf8 PREIMAGE_PUT_PREFIX, pi_accountId i, coll, version, prevVersion,
          pi_ciphertextDigest i, timestamp])))))))"

definition deletePreimage :: "delete_preimage_input \<Rightarrow> bytes result" where
  "deletePreimage i =
     ebind (assertLength (di_accountId i) ACCOUNT_ID_BYTES ''accountId'') (\<lambda>_.
     ebind (assertLength (di_nonce i) GCM_NONCE_BYTES ''nonce'') (\<lambda>_.
     ebind (u64be (di_timestamp i) ''timestamp'') (\<lambda>timestamp.
       Inr (concatBytes [utf8 PREIMAGE_DELETE_PREFIX, di_accountId i, di_nonce i, timestamp]))))"

definition cellAad :: "collection \<Rightarrow> int \<Rightarrow> bytes result" where
  "cellAad c version =
     (let name = utf8 (collection_name c)
      in if length name > 255 then Inl (PssProtocolError ''collection name too long'')
         else ebind (u64be version ''version'') (\<lambda>v.
                Inr (concatBytes [[word_of_nat (length name)], name, v])))"

section \<open>Length-prefixed and fixed-width fields\<close>

lemma utf8_collection:
  "utf8 (collection_name State) = [115, 116, 97, 116, 101]"
  "utf8 (collection_name Labels) = [108, 97, 98, 101, 108, 115]"
  by (simp_all add: utf8_def utf8_char_def Let_def)

lemma lengthPrefixedAscii_collection:
  "lengthPrefixedAscii (collection_name State) = Inr [5, 115, 116, 97, 116, 101]"
  "lengthPrefixedAscii (collection_name Labels) = Inr [6, 108, 97, 98, 101, 108, 115]"
  unfolding lengthPrefixedAscii_def by (simp_all only: utf8_collection) (simp_all add: concatBytes_def)

lemma cellAad_unfold:
  "cellAad c version = ebind (lengthPrefixedAscii (collection_name c)) (\<lambda>p.
     ebind (u64be version ''version'') (\<lambda>v. Inr (p @ v)))"
  by (cases c)
    (simp_all only: cellAad_def lengthPrefixedAscii_def utf8_collection, simp_all add: concatBytes_def)

text \<open>A length-prefixed collection is a prefix code: two of them at the front of equal byte strings
  are the same collection.\<close>

lemma collection_prefix_inject:
  assumes "lengthPrefixedAscii (collection_name c) = Inr p"
    and "lengthPrefixedAscii (collection_name d) = Inr q"
    and "p @ xs = q @ ys"
  shows "c = d \<and> xs = ys"
  using assms by (cases c; cases d) (auto simp: lengthPrefixedAscii_collection simp del: collection_name.simps)

lemma append_fixed_inject: "length a = n \<Longrightarrow> length b = n \<Longrightarrow> a @ xs = b @ ys \<longleftrightarrow> a = b \<and> xs = ys"
  by (simp add: append_eq_append_conv)

lemma u64be_append_inject:
  "u64be v l = Inr a \<Longrightarrow> u64be w l' = Inr b \<Longrightarrow> a @ xs = b @ ys \<longleftrightarrow> v = w \<and> xs = ys"
  by (metis u64be_inject append_fixed_inject u64be_Inr u64be_length)

lemma prefix_bytes:
  "utf8 PREIMAGE_PUT_PREFIX = [112, 115, 115, 45, 118, 49, 58, 112, 117, 116]"
  "utf8 PREIMAGE_DELETE_PREFIX = [112, 115, 115, 45, 118, 49, 58, 100, 101, 108]"
  by (simp_all add: utf8_def utf8_char_def Let_def PREIMAGE_PUT_PREFIX_def PREIMAGE_DELETE_PREFIX_def)

lemma putPreimage_Inr:
  "putPreimage i = Inr bs \<longleftrightarrow>
     length (pi_accountId i) = 32 \<and> length (pi_ciphertextDigest i) = 32 \<and>
     (\<exists>coll version prevVersion timestamp.
        lengthPrefixedAscii (collection_name (pi_collection i)) = Inr coll \<and>
        u64be (pi_version i) ''version'' = Inr version \<and>
        u64be (pi_prevVersion i) ''prevVersion'' = Inr prevVersion \<and>
        u64be (pi_timestamp i) ''timestamp'' = Inr timestamp \<and>
        bs = utf8 PREIMAGE_PUT_PREFIX @ pi_accountId i @ coll @ version @ prevVersion @
             pi_ciphertextDigest i @ timestamp)"
  by (auto simp: putPreimage_def concatBytes_def ACCOUNT_ID_BYTES_def SHA256_BYTES_def)

lemma deletePreimage_Inr:
  "deletePreimage i = Inr bs \<longleftrightarrow>
     length (di_accountId i) = 32 \<and> length (di_nonce i) = 12 \<and>
     (\<exists>timestamp. u64be (di_timestamp i) ''timestamp'' = Inr timestamp \<and>
        bs = utf8 PREIMAGE_DELETE_PREFIX @ di_accountId i @ di_nonce i @ timestamp)"
  by (auto simp: deletePreimage_def concatBytes_def ACCOUNT_ID_BYTES_def GCM_NONCE_BYTES_def)

section \<open>Injectivity\<close>

lemma putPreimage_inject:
  assumes "putPreimage i = Inr bs" and "putPreimage j = Inr bs"
  shows "i = j"
proof -
  from assms(1) obtain c1 v1 p1 t1 where
    i: "length (pi_accountId i) = 32" "length (pi_ciphertextDigest i) = 32"
      "lengthPrefixedAscii (collection_name (pi_collection i)) = Inr c1"
      "u64be (pi_version i) ''version'' = Inr v1" "u64be (pi_prevVersion i) ''prevVersion'' = Inr p1"
      "u64be (pi_timestamp i) ''timestamp'' = Inr t1"
    and bs1: "bs = utf8 PREIMAGE_PUT_PREFIX @ pi_accountId i @ c1 @ v1 @ p1 @ pi_ciphertextDigest i @ t1"
    by (auto simp: putPreimage_Inr)
  from assms(2) obtain c2 v2 p2 t2 where
    j: "length (pi_accountId j) = 32" "length (pi_ciphertextDigest j) = 32"
      "lengthPrefixedAscii (collection_name (pi_collection j)) = Inr c2"
      "u64be (pi_version j) ''version'' = Inr v2" "u64be (pi_prevVersion j) ''prevVersion'' = Inr p2"
      "u64be (pi_timestamp j) ''timestamp'' = Inr t2"
    and bs2: "bs = utf8 PREIMAGE_PUT_PREFIX @ pi_accountId j @ c2 @ v2 @ p2 @ pi_ciphertextDigest j @ t2"
    by (auto simp: putPreimage_Inr)
  from bs1 bs2 have "pi_accountId i @ (c1 @ v1 @ p1 @ pi_ciphertextDigest i @ t1) =
      pi_accountId j @ (c2 @ v2 @ p2 @ pi_ciphertextDigest j @ t2)" by simp
  then have acc: "pi_accountId i = pi_accountId j"
    and rest: "c1 @ v1 @ p1 @ pi_ciphertextDigest i @ t1 = c2 @ v2 @ p2 @ pi_ciphertextDigest j @ t2"
    using append_fixed_inject [OF i(1) j(1)] by simp_all
  from collection_prefix_inject [OF i(3) j(3) rest]
  have coll: "pi_collection i = pi_collection j"
    and rest': "v1 @ p1 @ pi_ciphertextDigest i @ t1 = v2 @ p2 @ pi_ciphertextDigest j @ t2"
    by simp_all
  from rest' have ver: "pi_version i = pi_version j" "pi_prevVersion i = pi_prevVersion j"
    and rest'': "pi_ciphertextDigest i @ t1 = pi_ciphertextDigest j @ t2"
    by (simp_all add: u64be_append_inject [OF i(4) j(4)] u64be_append_inject [OF i(5) j(5)])
  from rest'' have dig: "pi_ciphertextDigest i = pi_ciphertextDigest j" and "t1 = t2"
    using append_fixed_inject [OF i(2) j(2)] by simp_all
  then have "pi_timestamp i = pi_timestamp j" using i(6) j(6) u64be_inject by metis
  with acc coll ver dig show ?thesis by simp
qed

lemma deletePreimage_inject:
  assumes "deletePreimage i = Inr bs" and "deletePreimage j = Inr bs"
  shows "i = j"
proof -
  from assms obtain t1 t2 where
    i: "length (di_accountId i) = 32" "length (di_nonce i) = 12" "u64be (di_timestamp i) ''timestamp'' = Inr t1"
    and j: "length (di_accountId j) = 32" "length (di_nonce j) = 12" "u64be (di_timestamp j) ''timestamp'' = Inr t2"
    and eq: "di_accountId i @ di_nonce i @ t1 = di_accountId j @ di_nonce j @ t2"
    by (auto simp: deletePreimage_Inr)
  from eq have "di_accountId i = di_accountId j" "di_nonce i = di_nonce j" "t1 = t2"
    using append_fixed_inject [OF i(1) j(1)] append_fixed_inject [OF i(2) j(2)] by simp_all
  moreover from this have "di_timestamp i = di_timestamp j" using i(3) j(3) u64be_inject by metis
  ultimately show ?thesis by simp
qed

lemma put_delete_separate:
  assumes "putPreimage i = Inr bs"
  shows "deletePreimage j \<noteq> Inr bs"
  using assms by (auto simp: putPreimage_Inr deletePreimage_Inr prefix_bytes)

lemma cellAad_inject:
  assumes "cellAad c v = Inr bs" and "cellAad d w = Inr bs"
  shows "c = d \<and> v = w"
proof -
  from assms obtain p q a b where
    c: "lengthPrefixedAscii (collection_name c) = Inr p" and d: "lengthPrefixedAscii (collection_name d) = Inr q"
    and u: "u64be v ''version'' = Inr a" "u64be w ''version'' = Inr b" and "bs = p @ a" "bs = q @ b"
    unfolding cellAad_unfold by fastforce
  then have "p @ a = q @ b" by simp
  from collection_prefix_inject [OF c d this] u show ?thesis using u64be_inject by blast
qed

lemma cellAad_total: "is_count v \<Longrightarrow> \<exists>bs. cellAad c v = Inr bs"
  by (cases c)
    (auto simp: cellAad_unfold lengthPrefixedAscii_collection u64be_Inr simp del: collection_name.simps)

lemma putPreimage_total:
  "length (pi_accountId i) = 32 \<Longrightarrow> length (pi_ciphertextDigest i) = 32 \<Longrightarrow> is_count (pi_version i) \<Longrightarrow>
   is_count (pi_prevVersion i) \<Longrightarrow> is_count (pi_timestamp i) \<Longrightarrow> \<exists>bs. putPreimage i = Inr bs"
  by (cases "pi_collection i")
    (auto simp: putPreimage_Inr lengthPrefixedAscii_collection u64be_Inr simp del: collection_name.simps)

end
