(* ===== verification/Json_Text.thy ===== *)
theory Json_Text
  imports Prelude
begin

text \<open>
  The part of the language's library the payload code rests on: \<^verbatim>\<open>JSON.stringify\<close> of a plain value
  (compact form) and \<^verbatim>\<open>JSON.parse\<close>. The printer writes an integer in full decimal and a fraction as its
  exact decimal expansion; both are literals of the number the library would write. The parser rounds
  a literal to the nearest double, takes the last of two equal keys, and is shown to read every plain
  value back.
\<close>

section \<open>Printing\<close>

definition hex_lower :: "nat \<Rightarrow> char" where
  "hex_lower d = ''0123456789abcdef'' ! d"

definition esc_char :: "char \<Rightarrow> string" where
  "esc_char c =
     (let n = (of_char c :: nat) in
      if n = 34 then [CHR 0x5C, CHR 0x22]
      else if n = 92 then [CHR 0x5C, CHR 0x5C]
      else if n = 8 then [CHR 0x5C, CHR ''b'']
      else if n = 12 then [CHR 0x5C, CHR ''f'']
      else if n = 10 then [CHR 0x5C, CHR ''n'']
      else if n = 13 then [CHR 0x5C, CHR ''r'']
      else if n = 9 then [CHR 0x5C, CHR ''t'']
      else if n < 32 then [CHR 0x5C, CHR ''u'', CHR ''0'', CHR ''0'', hex_lower (n div 16), hex_lower (n mod 16)]
      else [c])"

definition json_string :: "string \<Rightarrow> string" where
  "json_string s = CHR 0x22 # concat (map esc_char s) @ [CHR 0x22]"

definition int_to_string :: "int \<Rightarrow> string" where
  "int_to_string n = (if n < 0 then CHR ''-'' # nat_to_string (nat (- n)) else nat_to_string (nat n))"

definition frac_to_string :: "int \<Rightarrow> nat \<Rightarrow> string" where
  "frac_to_string m e =
     (let ds = nat_to_string (nat \<bar>m\<bar> * 5 ^ e);
          padded = replicate (e + 1 - length ds) (CHR ''0'') @ ds;
          k = length padded - e
      in (if m < 0 then [CHR ''-''] else []) @ take k padded @ [CHR ''.''] @ drop k padded)"

fun json_number :: "jnum \<Rightarrow> string" where
  "json_number (NInt n) = int_to_string n"
| "json_number NNegZero = ''0''"
| "json_number (NFrac m e) = frac_to_string m e"
| "json_number (NInf _) = ''null''"
| "json_number NNaN = ''null''"

fun join_comma :: "string list \<Rightarrow> string" where
  "join_comma [] = []"
| "join_comma [x] = x"
| "join_comma (x # xs) = x @ CHR '','' # join_comma xs"

fun json_stringify :: "jsval \<Rightarrow> string"
  and json_elements :: "jsval list \<Rightarrow> string list"
  and json_members :: "(string \<times> jsval) list \<Rightarrow> string list" where
  "json_stringify JUndefined = ''null''"
| "json_stringify JNull = ''null''"
| "json_stringify (JBool b) = (if b then ''true'' else ''false'')"
| "json_stringify (JNum x) = json_number x"
| "json_stringify (JStr s) = json_string s"
| "json_stringify (JArr vs) = CHR ''['' # join_comma (json_elements vs) @ '']''"
| "json_stringify (JObj kvs) = CHR ''{'' # join_comma (json_members kvs) @ ''}''"
| "json_elements [] = []"
| "json_elements (v # vs) = json_stringify v # json_elements vs"
| "json_members [] = []"
| "json_members ((k, v) # kvs) =
     (if v = JUndefined then json_members kvs
      else (json_string k @ CHR '':'' # json_stringify v) # json_members kvs)"

section \<open>Numbers\<close>

fun bitlen :: "nat \<Rightarrow> nat" where
  "bitlen n = (if n = 0 then 0 else Suc (bitlen (n div 2)))"

declare bitlen.simps [simp del]

definition round_half_even :: "nat \<Rightarrow> nat \<Rightarrow> nat" where
  "round_half_even p q =
     (let d = p div q; r = p mod q in if 2 * r < q \<or> (2 * r = q \<and> even d) then d else Suc d)"

definition signed :: "bool \<Rightarrow> nat \<Rightarrow> int" where
  "signed neg n = (if neg then - int n else int n)"

text \<open>The double nearest to an integer; beyond \<open>2 ^ 1024\<close> it is an infinity.\<close>

definition int_double :: "bool \<Rightarrow> nat \<Rightarrow> jnum" where
  "int_double neg n =
     (if n \<le> 2 ^ 53 then (if n = 0 \<and> neg then NNegZero else NInt (signed neg n))
      else let b = bitlen n - 53; r = round_half_even n (2 ^ b) * 2 ^ b
           in if r \<ge> 2 ^ 1024 then NInf neg else NInt (signed neg r))"

text \<open>The double nearest to the fraction \<open>n / d\<close>: scaled to 53 significant bits (to \<open>2 ^ -1074\<close> at
  the smallest), rounded, and reduced.\<close>

fun reduce_frac :: "bool \<Rightarrow> nat \<Rightarrow> nat \<Rightarrow> jnum" where
  "reduce_frac neg m e =
     (if m = 0 then (if neg then NNegZero else NInt 0)
      else if e = 0 then NInt (signed neg m)
      else if even m then reduce_frac neg (m div 2) (e - 1)
      else NFrac (signed neg m) e)"

declare reduce_frac.simps [simp del]

definition frac_double :: "bool \<Rightarrow> nat \<Rightarrow> nat \<Rightarrow> jnum" where
  "frac_double neg n d =
     (let e0 = 53 + bitlen d - bitlen n;
          e1 = (if n * 2 ^ e0 < d * 2 ^ 52 then e0 + 1 else if n * 2 ^ e0 \<ge> d * 2 ^ 53 then e0 - 1 else e0);
          e = min e1 1074
      in reduce_frac neg (round_half_even (n * 2 ^ e) d) e)"

text \<open>The number a literal denotes: its digits as one integer, and the power of ten they are scaled by.\<close>

definition literal_double :: "bool \<Rightarrow> nat \<Rightarrow> int \<Rightarrow> jnum" where
  "literal_double neg n k =
     (if 0 \<le> k then int_double neg (n * 10 ^ nat k)
      else let d = 10 ^ nat (- k) in if d dvd n then int_double neg (n div d) else frac_double neg n d)"

section \<open>Parsing\<close>

definition is_ws :: "char \<Rightarrow> bool" where
  "is_ws c \<longleftrightarrow> (of_char c :: nat) \<in> {32, 9, 10, 13}"

definition skip_ws :: "string \<Rightarrow> string" where
  "skip_ws s = dropWhile is_ws s"

definition starts :: "char \<Rightarrow> string \<Rightarrow> bool" where
  "starts c s \<longleftrightarrow> (case s of [] \<Rightarrow> False | x # _ \<Rightarrow> x = c)"

definition hex_digit :: "char \<Rightarrow> nat option" where
  "hex_digit c =
     (let n = (of_char c :: nat) in
      if 48 \<le> n \<and> n \<le> 57 then Some (n - 48)
      else if 97 \<le> n \<and> n \<le> 102 then Some (n - 87)
      else if 65 \<le> n \<and> n \<le> 70 then Some (n - 55)
      else None)"

definition unescape :: "char \<Rightarrow> char option" where
  "unescape c =
     (let n = (of_char c :: nat) in
      if n = 34 \<or> n = 92 \<or> n = 47 then Some c
      else if c = CHR ''b'' then Some (char_of (8 :: nat))
      else if c = CHR ''f'' then Some (char_of (12 :: nat))
      else if c = CHR ''n'' then Some (char_of (10 :: nat))
      else if c = CHR ''r'' then Some (char_of (13 :: nat))
      else if c = CHR ''t'' then Some (char_of (9 :: nat))
      else None)"

definition hex4 :: "string \<Rightarrow> char option" where
  "hex4 s =
     (case map hex_digit s of
        [Some a, Some b, Some c, Some d] \<Rightarrow>
          (let n = ((a * 16 + b) * 16 + c) * 16 + d in if n < 256 then Some (char_of n) else Some (CHR ''?''))
      | _ \<Rightarrow> None)"

text \<open>The body of a string literal, after its opening quote. A code unit above 255 is outside the
  model's characters and is read as a question mark.\<close>

function p_string :: "string \<Rightarrow> (string \<times> string) option" where
  "p_string s =
     (case s of
        [] \<Rightarrow> None
      | c # r \<Rightarrow>
          if of_char c = (34 :: nat) then Some ([], r)
          else if of_char c = (92 :: nat) then
            (case r of
               [] \<Rightarrow> None
             | e # r1 \<Rightarrow>
                 if e = CHR ''u'' then
                   (case hex4 (take 4 r1) of
                      None \<Rightarrow> None
                    | Some x \<Rightarrow> map_option (\<lambda>(t, rest). (x # t, rest)) (p_string (drop 4 r1)))
                 else
                   (case unescape e of
                      None \<Rightarrow> None
                    | Some x \<Rightarrow> map_option (\<lambda>(t, rest). (x # t, rest)) (p_string r1)))
          else if of_char c < (32 :: nat) then None
          else map_option (\<lambda>(t, rest). (c # t, rest)) (p_string r))"
  by pat_completeness auto
termination
  by (relation "measure length") auto

declare p_string.simps [simp del]

definition p_exponent :: "string \<Rightarrow> (int \<times> string) option" where
  "p_exponent s =
     (if starts (CHR ''e'') s \<or> starts (CHR ''E'') s then
        let r = tl s;
            neg = starts (CHR ''-'') r;
            r1 = (if neg \<or> starts (CHR ''+'') r then tl r else r);
            ds = takeWhile is_digit r1
        in if ds = [] then None else Some (signed neg (decimal_value ds), dropWhile is_digit r1)
      else Some (0, s))"

definition p_number :: "string \<Rightarrow> (jnum \<times> string) option" where
  "p_number s =
     (let neg = starts (CHR ''-'') s;
          s1 = (if neg then tl s else s);
          ds = takeWhile is_digit s1;
          r1 = dropWhile is_digit s1
      in if ds = [] \<or> (length ds > 1 \<and> hd ds = CHR ''0'') then None
         else
           let point = starts (CHR ''.'') r1;
               fs = (if point then takeWhile is_digit (tl r1) else []);
               r2 = (if point then dropWhile is_digit (tl r1) else r1)
           in if point \<and> fs = [] then None
              else map_option (\<lambda>(ex, r3). (literal_double neg (decimal_value (ds @ fs)) (ex - int (length fs)), r3))
                     (p_exponent r2))"

definition p_word :: "string \<Rightarrow> jsval \<Rightarrow> string \<Rightarrow> (jsval \<times> string) option" where
  "p_word w v s = (if take (length w) s = w then Some (v, drop (length w) s) else None)"

text \<open>Values nest at most as deep as the text is long, so the length of the text is fuel enough.\<close>

fun p_value :: "nat \<Rightarrow> string \<Rightarrow> (jsval \<times> string) option"
  and p_elements :: "nat \<Rightarrow> string \<Rightarrow> jsval list \<Rightarrow> (jsval \<times> string) option"
  and p_members :: "nat \<Rightarrow> string \<Rightarrow> (string \<times> jsval) list \<Rightarrow> (jsval \<times> string) option" where
  "p_value 0 s = None"
| "p_value (Suc f) s0 =
     (let s = skip_ws s0 in
      case s of
        [] \<Rightarrow> None
      | c # r \<Rightarrow>
          if c = CHR ''{'' then
            (if starts (CHR ''}'') (skip_ws r) then Some (JObj [], tl (skip_ws r)) else p_members f r [])
          else if c = CHR ''['' then
            (if starts (CHR '']'') (skip_ws r) then Some (JArr [], tl (skip_ws r)) else p_elements f r [])
          else if of_char c = (34 :: nat) then map_option (\<lambda>(t, rest). (JStr t, rest)) (p_string r)
          else if c = CHR ''t'' then p_word ''true'' (JBool True) s
          else if c = CHR ''f'' then p_word ''false'' (JBool False) s
          else if c = CHR ''n'' then p_word ''null'' JNull s
          else map_option (\<lambda>(x, rest). (JNum x, rest)) (p_number s))"
| "p_elements 0 s acc = None"
| "p_elements (Suc f) s acc =
     (case p_value f s of
        None \<Rightarrow> None
      | Some (v, r0) \<Rightarrow>
          let r = skip_ws r0 in
          if starts (CHR '','') r then p_elements f (tl r) (acc @ [v])
          else if starts (CHR '']'') r then Some (JArr (acc @ [v]), tl r)
          else None)"
| "p_members 0 s acc = None"
| "p_members (Suc f) s0 acc =
     (let s = skip_ws s0 in
      if \<not> starts (CHR 0x22) s then None
      else
        (case p_string (tl s) of
           None \<Rightarrow> None
         | Some (k, r1) \<Rightarrow>
             let r2 = skip_ws r1 in
             if \<not> starts (CHR '':'') r2 then None
             else
               (case p_value f (tl r2) of
                  None \<Rightarrow> None
                | Some (v, r3) \<Rightarrow>
                    let r = skip_ws r3; acc' = AList.update k v acc in
                    if starts (CHR '','') r then p_members f (tl r) acc'
                    else if starts (CHR ''}'') r then Some (JObj acc', tl r)
                    else None)))"

definition json_parse :: "string \<Rightarrow> jsval option" where
  "json_parse s =
     (case p_value (Suc (2 * length s)) s of
        None \<Rightarrow> None
      | Some (v, rest) \<Rightarrow> if skip_ws rest = [] then Some v else None)"

section \<open>Plain values\<close>

text \<open>A value that survives the text: no \<^verbatim>\<open>undefined\<close>, every number an integer that a double holds
  exactly, the keys of every object distinct.\<close>

fun json_plain :: "jsval \<Rightarrow> bool" and json_plains :: "jsval list \<Rightarrow> bool"
  and json_plain_members :: "(string \<times> jsval) list \<Rightarrow> bool" where
  "json_plain JUndefined = False"
| "json_plain JNull = True"
| "json_plain (JBool b) = True"
| "json_plain (JNum x) = (case x of NInt n \<Rightarrow> isSafeInteger n | _ \<Rightarrow> False)"
| "json_plain (JStr s) = True"
| "json_plain (JArr vs) = json_plains vs"
| "json_plain (JObj kvs) = (distinct (map fst kvs) \<and> json_plain_members kvs)"
| "json_plains [] = True"
| "json_plains (v # vs) = (json_plain v \<and> json_plains vs)"
| "json_plain_members [] = True"
| "json_plain_members (kv # kvs) = (json_plain (snd kv) \<and> json_plain_members kvs)"

text \<open>What may follow a number in the text: anything that does not extend it.\<close>

definition ends_number :: "string \<Rightarrow> bool" where
  "ends_number rest \<longleftrightarrow> (case rest of [] \<Rightarrow> True | c # _ \<Rightarrow> \<not> is_digit c \<and> c \<notin> set ''.eE'')"

section \<open>Lemmas: strings\<close>

lemma control_escapes:
  "list_all (\<lambda>n. hex4 [CHR ''0'', CHR ''0'', hex_lower (n div 16), hex_lower (n mod 16)] = Some (char_of n)) [0..<32]"
  by (simp add: upt_rec hex4_def hex_digit_def hex_lower_def Let_def)

lemma char_of_34: "char_of (34 :: nat) = CHR 0x22"
  using char_of_char [of "CHR 0x22", where 'a = nat] by simp

lemma char_of_92: "char_of (92 :: nat) = CHR 0x5C"
  using char_of_char [of "CHR 0x5C", where 'a = nat] by simp

lemma p_string_esc_char: "p_string (esc_char c @ t) = map_option (\<lambda>(x, r). (c # x, r)) (p_string t)"
proof -
  define n where "n = (of_char c :: nat)"
  have c: "c = char_of n" by (simp add: n_def)
  have named: "of_char (CHR 0x22) = (34 :: nat)" "of_char (CHR 0x5C) = (92 :: nat)"
    "of_char (CHR ''u'') = (117 :: nat)" by simp_all
  consider "n = 34" | "n = 92" | "n = 8" | "n = 12" | "n = 10" | "n = 13" | "n = 9"
    | (ctl) "n < 32" "n \<notin> {8, 9, 10, 12, 13}" | (other) "32 \<le> n" "n \<noteq> 34" "n \<noteq> 92" by fastforce
  then show ?thesis
  proof cases
    case ctl
    have "hex4 [CHR ''0'', CHR ''0'', hex_lower (n div 16), hex_lower (n mod 16)] = Some c"
      using control_escapes ctl c by (simp add: list_all_iff)
    moreover have "esc_char c = [CHR 0x5C, CHR ''u'', CHR ''0'', CHR ''0'', hex_lower (n div 16), hex_lower (n mod 16)]"
      using ctl by (simp add: esc_char_def Let_def flip: n_def)
    ultimately show ?thesis
      by (simp add: p_string.simps [of "CHR 0x5C # CHR ''u'' # _"])
  next
    case other
    then show ?thesis
      by (simp add: esc_char_def Let_def p_string.simps [of "c # t"] flip: n_def)
  qed (simp_all add: c esc_char_def Let_def p_string.simps [of "CHR 0x5C # _"] unescape_def char_of_34 char_of_92)
qed

lemma p_string_json_string: "p_string (concat (map esc_char s) @ CHR 0x22 # rest) = Some (s, rest)"
  by (induction s) (simp_all add: p_string_esc_char p_string.simps [of "CHR 0x22 # rest"])

section \<open>Lemmas: numbers\<close>

lemma takeWhile_digits:
  "list_all is_digit ds \<Longrightarrow> ends_number rest \<Longrightarrow> takeWhile is_digit (ds @ rest) = ds \<and> dropWhile is_digit (ds @ rest) = rest"
  by (induction ds) (auto simp: ends_number_def split: list.splits)

lemma ends_number_starts:
  "ends_number rest \<Longrightarrow> \<not> starts (CHR ''.'') rest \<and> \<not> starts (CHR ''e'') rest \<and> \<not> starts (CHR ''E'') rest"
  by (auto simp: ends_number_def starts_def split: list.splits)

lemma minus_not_digit: "\<not> is_digit (CHR ''-'')"
  by (simp add: is_digit_def)

lemma not_starts_minus: "list_all is_digit ds \<Longrightarrow> ds \<noteq> [] \<Longrightarrow> \<not> starts (CHR ''-'') (ds @ rest)"
  using minus_not_digit by (cases ds) (auto simp: starts_def)

lemma nat_to_string_leading:
  "\<not> (length (nat_to_string n) > 1 \<and> hd (nat_to_string n) = CHR ''0'')"
  using nat_to_string_hd [of n] by (cases "n = 0") (auto simp: nat_to_string.simps)

lemma p_exponent_none: "ends_number rest \<Longrightarrow> p_exponent rest = Some (0, rest)"
  by (simp add: p_exponent_def ends_number_starts)

lemma p_number_nat:
  assumes "ends_number rest"
  shows "p_number (nat_to_string n @ rest) = Some (literal_double False n 0, rest)"
proof -
  note tw = takeWhile_digits [OF nat_to_string_digits assms]
  show ?thesis
    using tw nat_to_string_leading [of n] assms
    by (simp add: p_number_def Let_def not_starts_minus [OF nat_to_string_digits nat_to_string_nonempty]
        nat_to_string_nonempty ends_number_starts p_exponent_none decimal_value_nat_to_string)
qed

lemma p_number_neg:
  assumes "ends_number rest"
  shows "p_number (CHR ''-'' # nat_to_string n @ rest) = Some (literal_double True n 0, rest)"
proof -
  note tw = takeWhile_digits [OF nat_to_string_digits assms]
  have "starts (CHR ''-'') (CHR ''-'' # nat_to_string n @ rest)" by (simp add: starts_def)
  then show ?thesis
    using tw nat_to_string_leading [of n] assms
    by (simp add: p_number_def Let_def
        nat_to_string_nonempty ends_number_starts p_exponent_none decimal_value_nat_to_string)
qed

lemma p_number_int:
  assumes "isSafeInteger n" and "ends_number rest"
  shows "p_number (int_to_string n @ rest) = Some (NInt n, rest)"
proof (cases "n < 0")
  case True
  have "nat (- n) \<le> 2 ^ 53" and "nat (- n) \<noteq> 0"
    using assms(1) True by (simp_all add: isSafeInteger_def MAX_SAFE_INTEGER_def)
  then show ?thesis
    using True assms(2) p_number_neg [of rest "nat (- n)"]
    by (simp add: int_to_string_def literal_double_def int_double_def signed_def)
next
  case False
  have "nat n \<le> 2 ^ 53" using assms(1) by (simp add: isSafeInteger_def MAX_SAFE_INTEGER_def)
  then show ?thesis
    using False assms(2) p_number_nat [of rest "nat n"]
    by (simp add: int_to_string_def literal_double_def int_double_def signed_def)
qed

section \<open>Lemmas: the text of a value is read back\<close>

text \<open>The first character of a printed value decides the parser's branch.\<close>

lemma digit_not_special:
  "is_digit c \<or> c = CHR ''-'' \<Longrightarrow>
     \<not> is_ws c \<and> c \<notin> set ''{[]}tfn,:'' \<and> of_char c \<noteq> (34 :: nat)"
  by (auto simp: is_digit_def is_ws_def)

lemma int_to_string_first:
  "\<exists>c t. int_to_string n = c # t \<and> (is_digit c \<or> c = CHR ''-'')"
proof (cases "n < 0")
  case True
  then show ?thesis by (simp add: int_to_string_def)
next
  case False
  obtain c t where "nat_to_string (nat n) = c # t" using nat_to_string_nonempty by (cases "nat_to_string (nat n)") auto
  with False show ?thesis using nat_to_string_digits [of "nat n"] by (auto simp: int_to_string_def)
qed

lemma json_plain_first:
  "json_plain v \<Longrightarrow> \<exists>c t. json_stringify v = c # t \<and> \<not> is_ws c \<and> c \<noteq> CHR '']'' \<and> c \<noteq> CHR ''}''"
proof (cases v)
  case (JNum x)
  assume "json_plain v"
  with JNum obtain n where "x = NInt n" by (cases x) auto
  moreover obtain c t where "int_to_string n = c # t" "is_digit c \<or> c = CHR ''-''"
    using int_to_string_first by blast
  ultimately show ?thesis using JNum digit_not_special [of c] by simp
qed (auto simp: is_ws_def json_string_def)

lemma skip_ws_first: "\<not> is_ws c \<Longrightarrow> skip_ws (c # t) = c # t"
  by (simp add: skip_ws_def)

lemma skip_ws_json: "json_plain v \<Longrightarrow> skip_ws (json_stringify v @ rest) = json_stringify v @ rest"
  using json_plain_first [of v] by (auto simp: skip_ws_def)

lemma ws_punct: "\<not> is_ws (CHR '','')" "\<not> is_ws (CHR '']'')" "\<not> is_ws (CHR ''}'')" "\<not> is_ws (CHR '':'')"
    "\<not> is_ws (CHR ''['')" "\<not> is_ws (CHR ''{'')" "\<not> is_ws (CHR 0x22)"
  by (simp_all add: is_ws_def)

lemma ends_number_punct: "ends_number (CHR '','' # r)" "ends_number (CHR '']'' # r)" "ends_number (CHR ''}'' # r)"
  by (simp_all add: ends_number_def is_digit_def)

lemma p_value_number:
  assumes "isSafeInteger n" and "ends_number rest"
  shows "p_value (Suc f) (int_to_string n @ rest) = Some (JNum (NInt n), rest)"
proof -
  obtain c t where c: "int_to_string n = c # t" "is_digit c \<or> c = CHR ''-''"
    using int_to_string_first by blast
  show ?thesis
    using p_number_int [OF assms] digit_not_special [OF c(2)] c(1)
    by (auto simp: skip_ws_first)
qed

lemma p_value_word:
  "p_value (Suc f) (''true'' @ rest) = Some (JBool True, rest)"
  "p_value (Suc f) (''false'' @ rest) = Some (JBool False, rest)"
  "p_value (Suc f) (''null'' @ rest) = Some (JNull, rest)"
  by (simp_all add: skip_ws_def is_ws_def p_word_def)

lemma p_value_string: "p_value (Suc f) (json_string s @ rest) = Some (JStr s, rest)"
  by (simp add: json_string_def skip_ws_first ws_punct p_string_json_string)

lemma join_comma_Cons: "xs \<noteq> [] \<Longrightarrow> join_comma (x # xs) = x @ CHR '','' # join_comma xs"
  by (cases xs) simp_all

lemma json_plain_members_defined: "json_plain_members kvs \<Longrightarrow> (k, v) \<in> set kvs \<Longrightarrow> v \<noteq> JUndefined"
  by (induction kvs) auto

lemma json_members_Cons:
  "json_plain v \<Longrightarrow> json_members ((k, v) # kvs) = (json_string k @ CHR '':'' # json_stringify v) # json_members kvs"
  by auto

lemma json_members_Nil_iff: "json_plain_members kvs \<Longrightarrow> json_members kvs = [] \<longleftrightarrow> kvs = []"
  by (cases kvs) (auto simp: split_paired_all)

lemma json_elements_Nil_iff: "json_elements vs = [] \<longleftrightarrow> vs = []"
  by (cases vs) simp_all

text \<open>One element, then the rest of the array.\<close>

lemma p_elements_step:
  assumes "p_value f (s @ CHR '','' # r) = Some (v, CHR '','' # r)"
  shows "p_elements (Suc f) (s @ CHR '','' # r) acc = p_elements f r (acc @ [v])"
  using assms by (simp add: skip_ws_first ws_punct starts_def)

lemma p_elements_last:
  assumes "p_value f (s @ CHR '']'' # r) = Some (v, CHR '']'' # r)"
  shows "p_elements (Suc f) (s @ CHR '']'' # r) acc = Some (JArr (acc @ [v]), r)"
  using assms by (simp add: skip_ws_first ws_punct starts_def)

lemma p_members_step:
  assumes "p_value f (s @ CHR '','' # r) = Some (v, CHR '','' # r)" and "k \<notin> fst ` set acc"
  shows "p_members (Suc f) (json_string k @ CHR '':'' # s @ CHR '','' # r) acc = p_members f r (acc @ [(k, v)])"
  using assms
  by (simp add: json_string_def skip_ws_first ws_punct starts_def p_string_json_string update_fresh)

lemma p_members_last:
  assumes "p_value f (s @ CHR ''}'' # r) = Some (v, CHR ''}'' # r)" and "k \<notin> fst ` set acc"
  shows "p_members (Suc f) (json_string k @ CHR '':'' # s @ CHR ''}'' # r) acc = Some (JObj (acc @ [(k, v)]), r)"
  using assms
  by (simp add: json_string_def skip_ws_first ws_punct starts_def p_string_json_string update_fresh)

lemma p_value_array:
  assumes "json_plains vs" and "vs \<noteq> []"
    and "p_elements f (join_comma (json_elements vs) @ CHR '']'' # rest) [] = Some (JArr vs, rest)"
  shows "p_value (Suc f) (json_stringify (JArr vs) @ rest) = Some (JArr vs, rest)"
proof -
  obtain v ws where vs: "vs = v # ws" using assms(2) by (cases vs) auto
  with assms(1) obtain c t where c: "json_stringify v = c # t" "\<not> is_ws c" "c \<noteq> CHR '']''"
    using json_plain_first [of v] by auto
  have "\<exists>t'. join_comma (json_elements vs) = c # t'"
    using c(1) vs by (cases ws) simp_all
  then show ?thesis
    using c assms(3) by (auto simp: skip_ws_first ws_punct starts_def)
qed

lemma p_value_object:
  assumes "json_plain_members kvs" and "kvs \<noteq> []"
    and "p_members f (join_comma (json_members kvs) @ CHR ''}'' # rest) [] = Some (JObj kvs, rest)"
  shows "p_value (Suc f) (json_stringify (JObj kvs) @ rest) = Some (JObj kvs, rest)"
proof -
  obtain k v ws where kvs: "kvs = (k, v) # ws" using assms(2) by (cases kvs) auto
  with assms(1) have "json_members kvs = (json_string k @ CHR '':'' # json_stringify v) # json_members ws"
    by (auto simp: json_members_Cons)
  then have "\<exists>t'. join_comma (json_members kvs) = CHR 0x22 # t'"
    by (cases "json_members ws") (simp_all add: json_string_def)
  then show ?thesis
    using assms(3) by (auto simp: skip_ws_first ws_punct starts_def)
qed

lemma p_roundtrip:
  "json_plain v \<Longrightarrow> (\<And>f rest. length (json_stringify v) \<le> f \<Longrightarrow> ends_number rest \<Longrightarrow>
     p_value f (json_stringify v @ rest) = Some (v, rest))"
  "json_plains vs \<Longrightarrow> vs \<noteq> [] \<Longrightarrow> (\<And>f rest acc. length (join_comma (json_elements vs)) < f \<Longrightarrow>
     p_elements f (join_comma (json_elements vs) @ CHR '']'' # rest) acc = Some (JArr (acc @ vs), rest))"
  "json_plain_members kvs \<Longrightarrow> kvs \<noteq> [] \<Longrightarrow> (\<And>f rest acc. length (join_comma (json_members kvs)) < f \<Longrightarrow>
     distinct (map fst acc @ map fst kvs) \<Longrightarrow>
     p_members f (join_comma (json_members kvs) @ CHR ''}'' # rest) acc = Some (JObj (acc @ kvs), rest))"
proof (induction v and vs and kvs rule: json_plain_json_plains_json_plain_members.induct)
  case (3 b)
  then obtain g where "f = Suc g" by (cases f) (auto split: if_splits)
  then show ?case using p_value_word(1,2) by (cases b) simp_all
next
  case 2
  then obtain g where "f = Suc g" by (cases f) auto
  then show ?case using p_value_word(3) by simp
next
  case (4 x)
  then obtain n where x: "x = NInt n" "isSafeInteger n" by (cases x) auto
  obtain g where "f = Suc g"
    using 4 x int_to_string_first [of n] by (cases f) auto
  then show ?case using p_value_number x 4 by simp
next
  case (5 s)
  then obtain g where "f = Suc g" by (cases f) (auto simp: json_string_def)
  then show ?case using p_value_string by simp
next
  case (6 vs)
  then obtain g where f: "f = Suc g" by (cases f) auto
  show ?case
  proof (cases "vs = []")
    case True
    then show ?thesis by (simp add: f skip_ws_first ws_punct starts_def)
  next
    case False
    have "p_elements g (join_comma (json_elements vs) @ CHR '']'' # rest) [] = Some (JArr ([] @ vs), rest)"
      by (rule "6.IH") (use 6 False f in auto)
    then show ?thesis unfolding f using 6 False by (intro p_value_array) auto
  qed
next
  case (7 kvs)
  then obtain g where f: "f = Suc g" by (cases f) auto
  show ?case
  proof (cases "kvs = []")
    case True
    then show ?thesis by (simp add: f skip_ws_first ws_punct starts_def)
  next
    case False
    have "p_members g (join_comma (json_members kvs) @ CHR ''}'' # rest) [] = Some (JObj ([] @ kvs), rest)"
      by (rule "7.IH") (use 7 False f in auto)
    then show ?thesis unfolding f using 7 False by (intro p_value_object) auto
  qed
next
  case (9 v vs)
  then obtain g where f: "f = Suc g" by (cases f) auto
  show ?case
  proof (cases "vs = []")
    case True
    have "p_value g (json_stringify v @ CHR '']'' # rest) = Some (v, CHR '']'' # rest)"
      by (rule "9.IH"(1)) (use 9 True f in \<open>auto simp: ends_number_punct\<close>)
    then show ?thesis using True p_elements_last [of g "json_stringify v"] by (simp add: f del: p_elements.simps)
  next
    case False
    let ?r = "join_comma (json_elements vs) @ CHR '']'' # rest"
    have len: "length (json_stringify v) + length (join_comma (json_elements vs)) < g"
      using 9 f False by (simp add: join_comma_Cons json_elements_Nil_iff)
    have "p_value g (json_stringify v @ CHR '','' # ?r) = Some (v, CHR '','' # ?r)"
      by (rule "9.IH"(1)) (use 9 len in \<open>auto simp: ends_number_punct\<close>)
    from p_elements_step [OF this] have
      "p_elements f (json_stringify v @ CHR '','' # ?r) acc = p_elements g ?r (acc @ [v])"
      by (simp only: f)
    also have "\<dots> = Some (JArr ((acc @ [v]) @ vs), rest)"
      by (rule "9.IH"(2)) (use 9 False len in auto)
    finally show ?thesis
      using False by (simp add: join_comma_Cons json_elements_Nil_iff del: p_elements.simps)
  qed
next
  case (11 kv kvs)
  obtain k v where kv: "kv = (k, v)" by (cases kv)
  from 11 obtain g where f: "f = Suc g" by (cases f) auto
  have v: "json_plain v" and kvs: "json_plain_members kvs" using 11 kv by auto
  have fresh: "k \<notin> fst ` set acc" using "11.prems"(4) kv by auto
  show ?case
  proof (cases "kvs = []")
    case True
    have "p_value g (json_stringify v @ CHR ''}'' # rest) = Some (v, CHR ''}'' # rest)"
      using "11.IH"(1) v "11.prems"(3) True f kv json_members_Cons [OF v, of k kvs]
      by (auto simp: ends_number_punct json_string_def simp del: json_members.simps(2))
    from p_members_last [OF this fresh] show ?thesis
      using True v by (auto simp: f kv simp del: p_members.simps)
  next
    case False
    let ?r = "join_comma (json_members kvs) @ CHR ''}'' # rest"
    have jm: "json_members (kv # kvs) = (json_string k @ CHR '':'' # json_stringify v) # json_members kvs"
      using v kv by (auto simp: json_members_Cons)
    have ne: "json_members kvs \<noteq> []" using False kvs by (simp add: json_members_Nil_iff)
    have len: "length (json_stringify v) + length (join_comma (json_members kvs)) < g"
      using "11.prems"(3) f by (simp add: jm join_comma_Cons [OF ne])
    have "p_value g (json_stringify v @ CHR '','' # ?r) = Some (v, CHR '','' # ?r)"
      using "11.IH"(1) v len kv by (auto simp: ends_number_punct)
    from p_members_step [OF this fresh] have
      "p_members f (json_string k @ CHR '':'' # json_stringify v @ CHR '','' # ?r) acc = p_members g ?r (acc @ [(k, v)])"
      by (simp only: f)
    also have "\<dots> = Some (JObj ((acc @ [(k, v)]) @ kvs), rest)"
      by (rule "11.IH"(2)) (use 11 kvs False len kv in auto)
    finally show ?thesis
      by (simp add: jm join_comma_Cons [OF ne] del: p_members.simps json_members.simps) (simp add: kv)
  qed
qed simp_all

lemma json_parse_stringify:
  assumes "json_plain v"
  shows "json_parse (json_stringify v) = Some v"
proof -
  have "p_value (Suc (2 * length (json_stringify v))) (json_stringify v @ []) = Some (v, [])"
    by (rule p_roundtrip(1) [OF assms]) (simp_all add: ends_number_def)
  then show ?thesis by (simp add: json_parse_def skip_ws_def)
qed

end
