(* ===== verification/Wire_Types.thy ===== *)
theory Wire_Types
  imports Wire_Preimage Json_Text
begin

text \<open>
  The request and response bodies of the PSS wire (\<^verbatim>\<open>wire/types.ts\<close>, \<^verbatim>\<open>wire/errors.ts\<close>): the parsers the
  server runs on attacker-controlled JSON and the client runs on an untrusted answer, the path
  segments, and the failure codes with their HTTP statuses. A body that parses is shown to be
  determined by what it parses to, field by field.
\<close>

section \<open>Failure codes\<close>

definition PSS_STATUS_ok :: nat where "PSS_STATUS_ok = 200"

fun statusOf :: "pss_failure \<Rightarrow> nat" where
  "statusOf (bad_request _) = 400"
| "statusOf unauthorized = 401"
| "statusOf not_found = 404"
| "statusOf version_conflict = 409"
| "statusOf (payload_too_large _) = 413"
| "statusOf rate_limited = 429"

section \<open>Bodies\<close>

record get_blob_response =
  gr_version :: int
  gr_prevVersion :: int
  gr_nonce :: string
  gr_ciphertext :: string
  gr_serverTime :: int

record put_blob_request =
  pr_version :: int
  pr_prevVersion :: int
  pr_nonce :: string
  pr_ciphertext :: string
  pr_authPk :: string
  pr_sig :: string
  pr_timestamp :: int
  pr_invite :: "string option"

record delete_account_request =
  dr_authPk :: string
  dr_sig :: string
  dr_timestamp :: int
  dr_nonce :: string

record decoded_put =
  dp_version :: int
  dp_prevVersion :: int
  dp_nonce :: bytes
  dp_ciphertext :: bytes
  dp_authPk :: bytes
  dp_sig :: bytes
  dp_timestamp :: int
  dp_invite :: "string option"

record decoded_delete =
  dd_authPk :: bytes
  dd_sig :: bytes
  dd_timestamp :: int
  dd_nonce :: bytes

record slot_view =
  sv_version :: int
  sv_prevVersion :: int
  sv_nonce :: bytes
  sv_ciphertext :: bytes
  sv_serverTime :: int

text \<open>\<^verbatim>\<open>/^[A-Za-z0-9_-]+$/\<close>\<close>

definition INVITE_SHAPE :: "string \<Rightarrow> bool" where
  "INVITE_SHAPE t \<longleftrightarrow> t \<noteq> [] \<and>
     list_all (\<lambda>c. c \<in> set ''ABCDEFGHIJKLMNOPQRSTUVWXYZabcdefghijklmnopqrstuvwxyz0123456789_-'') t"

section \<open>Path segments\<close>

definition encodeAccountIdPath :: "bytes \<Rightarrow> string result" where
  "encodeAccountIdPath accountId =
     ebind (assertLength accountId ACCOUNT_ID_BYTES ''accountId'') (\<lambda>b. Inr (toHexRaw b))"

definition decodeAccountIdPath :: "string \<Rightarrow> bytes result" where
  "decodeAccountIdPath segment =
     ebind (fromHexRaw segment ''accountId'') (\<lambda>b. assertLength b ACCOUNT_ID_BYTES ''accountId'')"

definition decodeCollectionPath :: "string \<Rightarrow> collection result" where
  "decodeCollectionPath segment =
     (case isCollection (JStr segment) of
        None \<Rightarrow> Inl (PssProtocolError ''unknown collection'')
      | Some c \<Rightarrow> Inr c)"

section \<open>Field readers\<close>

definition wt_record :: "jsval \<Rightarrow> string \<Rightarrow> (string \<times> jsval) list result" where
  "wt_record v label =
     (case v of JObj kvs \<Rightarrow> Inr kvs | _ \<Rightarrow> Inl (PssProtocolError (label @ '' must be a JSON object'')))"

definition wt_text :: "jsval \<Rightarrow> string \<Rightarrow> string result" where
  "wt_text v label =
     (case v of JStr t \<Rightarrow> Inr t | _ \<Rightarrow> Inl (PssProtocolError (label @ '' must be a string'')))"

definition bytesField :: "jsval \<Rightarrow> nat \<Rightarrow> string \<Rightarrow> bytes result" where
  "bytesField v expected label =
     ebind (wt_text v label) (\<lambda>t.
     ebind (fromBase64 t label) (\<lambda>b. assertLength b expected label))"

definition inviteField :: "jsval \<Rightarrow> string option result" where
  "inviteField v =
     (if v = JUndefined \<or> v = JNull then Inr None
      else ebind (wt_text v ''invite'') (\<lambda>code.
             if length code > INVITE_CODE_MAX_CHARS \<or> \<not> INVITE_SHAPE code
             then Inl (PssProtocolError ''invite is not a valid code'')
             else Inr (Some code)))"

definition checkCiphertextSize :: "bytes \<Rightarrow> unit result" where
  "checkCiphertextSize ciphertext =
     require (\<not> (length ciphertext = 0 \<or> length ciphertext > MAX_CIPHERTEXT_BYTES))
       (PssProtocolError ''ciphertext must be 1..MAX bytes'')"

section \<open>Parsers\<close>

definition parsePutBlobRequest :: "jsval \<Rightarrow> decoded_put result" where
  "parsePutBlobRequest body =
     ebind (wt_record body ''put body'') (\<lambda>raw.
     ebind (wt_text (get_prop ''ciphertext'' raw) ''ciphertext'') (\<lambda>ct.
     ebind (fromBase64 ct ''ciphertext'') (\<lambda>ciphertext.
     ebind (checkCiphertextSize ciphertext) (\<lambda>_.
     ebind (assertCount (get_prop ''version'' raw) ''version'') (\<lambda>version.
     ebind (assertCount (get_prop ''prevVersion'' raw) ''prevVersion'') (\<lambda>prevVersion.
     ebind (bytesField (get_prop ''nonce'' raw) GCM_NONCE_BYTES ''nonce'') (\<lambda>nonce.
     ebind (bytesField (get_prop ''authPk'' raw) ED25519_PUBLIC_KEY_BYTES ''authPk'') (\<lambda>authPk.
     ebind (bytesField (get_prop ''sig'' raw) ED25519_SIGNATURE_BYTES ''sig'') (\<lambda>sig.
     ebind (assertCount (get_prop ''timestamp'' raw) ''timestamp'') (\<lambda>timestamp.
     ebind (inviteField (get_prop ''invite'' raw)) (\<lambda>invite.
       Inr \<lparr>dp_version = version, dp_prevVersion = prevVersion, dp_nonce = nonce,
            dp_ciphertext = ciphertext, dp_authPk = authPk, dp_sig = sig,
            dp_timestamp = timestamp, dp_invite = invite\<rparr>)))))))))))"

definition parseDeleteAccountRequest :: "jsval \<Rightarrow> decoded_delete result" where
  "parseDeleteAccountRequest body =
     ebind (wt_record body ''delete body'') (\<lambda>raw.
     ebind (bytesField (get_prop ''authPk'' raw) ED25519_PUBLIC_KEY_BYTES ''authPk'') (\<lambda>authPk.
     ebind (bytesField (get_prop ''sig'' raw) ED25519_SIGNATURE_BYTES ''sig'') (\<lambda>sig.
     ebind (assertCount (get_prop ''timestamp'' raw) ''timestamp'') (\<lambda>timestamp.
     ebind (bytesField (get_prop ''nonce'' raw) GCM_NONCE_BYTES ''nonce'') (\<lambda>nonce.
       Inr \<lparr>dd_authPk = authPk, dd_sig = sig, dd_timestamp = timestamp, dd_nonce = nonce\<rparr>)))))"

definition parseGetBlobResponse :: "jsval \<Rightarrow> get_blob_response result" where
  "parseGetBlobResponse body =
     ebind (wt_record body ''get response'') (\<lambda>raw.
     ebind (assertCount (get_prop ''version'' raw) ''version'') (\<lambda>version.
     ebind (assertCount (get_prop ''prevVersion'' raw) ''prevVersion'') (\<lambda>prevVersion.
     ebind (wt_text (get_prop ''nonce'' raw) ''nonce'') (\<lambda>nonce.
     ebind (wt_text (get_prop ''ciphertext'' raw) ''ciphertext'') (\<lambda>ct.
     ebind (assertCount (get_prop ''serverTime'' raw) ''serverTime'') (\<lambda>serverTime.
     ebind (fromBase64 nonce ''nonce'') (\<lambda>nb.
     ebind (assertLength nb GCM_NONCE_BYTES ''nonce'') (\<lambda>_.
     ebind (fromBase64 ct ''ciphertext'') (\<lambda>ciphertext.
     ebind (checkCiphertextSize ciphertext) (\<lambda>_.
       Inr \<lparr>gr_version = version, gr_prevVersion = prevVersion, gr_nonce = nonce,
            gr_ciphertext = ct, gr_serverTime = serverTime\<rparr>))))))))))"

definition encodeGetBlobResponse :: "slot_view \<Rightarrow> get_blob_response" where
  "encodeGetBlobResponse slot =
     \<lparr>gr_version = sv_version slot, gr_prevVersion = sv_prevVersion slot,
      gr_nonce = toBase64 (sv_nonce slot), gr_ciphertext = toBase64 (sv_ciphertext slot),
      gr_serverTime = sv_serverTime slot\<rparr>"

text \<open>The bodies as the objects handed to \<^verbatim>\<open>JSON.stringify\<close>; the optional invite is present only
  when there is one.\<close>

definition get_response_json :: "get_blob_response \<Rightarrow> jsval" where
  "get_response_json r = JObj [(''version'', JNum (NInt (gr_version r))),
     (''prevVersion'', JNum (NInt (gr_prevVersion r))), (''nonce'', JStr (gr_nonce r)),
     (''ciphertext'', JStr (gr_ciphertext r)), (''serverTime'', JNum (NInt (gr_serverTime r)))]"

definition put_request_json :: "put_blob_request \<Rightarrow> jsval" where
  "put_request_json r = JObj ([(''version'', JNum (NInt (pr_version r))),
     (''prevVersion'', JNum (NInt (pr_prevVersion r))), (''nonce'', JStr (pr_nonce r)),
     (''ciphertext'', JStr (pr_ciphertext r)), (''authPk'', JStr (pr_authPk r)),
     (''sig'', JStr (pr_sig r)), (''timestamp'', JNum (NInt (pr_timestamp r)))] @
     (case pr_invite r of None \<Rightarrow> [] | Some code \<Rightarrow> [(''invite'', JStr code)]))"

definition delete_request_json :: "delete_account_request \<Rightarrow> jsval" where
  "delete_request_json r = JObj [(''authPk'', JStr (dr_authPk r)), (''sig'', JStr (dr_sig r)),
     (''timestamp'', JNum (NInt (dr_timestamp r))), (''nonce'', JStr (dr_nonce r))]"

text \<open>What the server may store and serve, and what a decoded request satisfies.\<close>

definition slot_view_wf :: "slot_view \<Rightarrow> bool" where
  "slot_view_wf s \<longleftrightarrow> is_count (sv_version s) \<and> is_count (sv_prevVersion s) \<and>
     length (sv_nonce s) = GCM_NONCE_BYTES \<and>
     0 < length (sv_ciphertext s) \<and> length (sv_ciphertext s) \<le> MAX_CIPHERTEXT_BYTES \<and>
     is_count (sv_serverTime s)"

definition invite_wf :: "string option \<Rightarrow> bool" where
  "invite_wf i = (case i of None \<Rightarrow> True | Some c \<Rightarrow> length c \<le> INVITE_CODE_MAX_CHARS \<and> INVITE_SHAPE c)"

definition decoded_put_wf :: "decoded_put \<Rightarrow> bool" where
  "decoded_put_wf d \<longleftrightarrow> is_count (dp_version d) \<and> is_count (dp_prevVersion d) \<and>
     length (dp_nonce d) = GCM_NONCE_BYTES \<and>
     0 < length (dp_ciphertext d) \<and> length (dp_ciphertext d) \<le> MAX_CIPHERTEXT_BYTES \<and>
     length (dp_authPk d) = ED25519_PUBLIC_KEY_BYTES \<and> length (dp_sig d) = ED25519_SIGNATURE_BYTES \<and>
     is_count (dp_timestamp d) \<and> invite_wf (dp_invite d)"

text \<open>The one spelling of a decoded request on the wire.\<close>

definition put_request_of :: "decoded_put \<Rightarrow> put_blob_request" where
  "put_request_of d =
     \<lparr>pr_version = dp_version d, pr_prevVersion = dp_prevVersion d, pr_nonce = toBase64 (dp_nonce d),
      pr_ciphertext = toBase64 (dp_ciphertext d), pr_authPk = toBase64 (dp_authPk d),
      pr_sig = toBase64 (dp_sig d), pr_timestamp = dp_timestamp d, pr_invite = dp_invite d\<rparr>"

section \<open>Lemmas: field readers\<close>

lemma wt_record_Inr [simp]: "wt_record v label = Inr kvs \<longleftrightarrow> v = JObj kvs"
  by (auto simp: wt_record_def split: jsval.splits)

lemma wt_text_Inr [simp]: "wt_text v label = Inr t \<longleftrightarrow> v = JStr t"
  by (auto simp: wt_text_def split: jsval.splits)

lemma checkCiphertextSize_Inr [simp]:
  "checkCiphertextSize ct = Inr u \<longleftrightarrow> 0 < length ct \<and> length ct \<le> MAX_CIPHERTEXT_BYTES"
  by (auto simp: checkCiphertextSize_def)

lemma fromBase64_Inr [simp]: "fromBase64 t label = Inr b \<longleftrightarrow> t = toBase64 b"
  by (rule base64_codec.dec_iff)

lemma bytesField_Inr [simp]:
  "bytesField v n label = Inr b \<longleftrightarrow> v = JStr (toBase64 b) \<and> length b = n"
  by (auto simp: bytesField_def)

lemma inviteField_Inr:
  "inviteField v = Inr i \<longleftrightarrow>
     (case i of None \<Rightarrow> v = JUndefined \<or> v = JNull | Some c \<Rightarrow> v = JStr c) \<and> invite_wf i"
  by (cases v) (auto simp: inviteField_def invite_wf_def wt_text_def split: option.splits if_splits)

section \<open>Lemmas: parsers\<close>

lemma decodeAccountIdPath_Inr:
  "decodeAccountIdPath seg = Inr b \<longleftrightarrow> seg = toHexRaw b \<and> length b = ACCOUNT_ID_BYTES"
  by (auto simp: decodeAccountIdPath_def hexraw_codec.dec_iff)

lemma accountIdPath_roundtrip:
  "encodeAccountIdPath b = Inr seg \<longleftrightarrow> decodeAccountIdPath seg = Inr b"
  by (auto simp: encodeAccountIdPath_def decodeAccountIdPath_Inr)

lemma decodeCollectionPath_Inr: "decodeCollectionPath seg = Inr c \<longleftrightarrow> seg = collection_name c"
  by (cases c) (auto simp: decodeCollectionPath_def isCollection_def COLLECTIONS_def split: if_splits)

lemma parsePutBlobRequest_Inr:
  "parsePutBlobRequest body = Inr d \<longleftrightarrow>
     decoded_put_wf d \<and>
     (\<exists>raw. body = JObj raw \<and>
        get_prop ''ciphertext'' raw = JStr (toBase64 (dp_ciphertext d)) \<and>
        get_prop ''version'' raw = JNum (NInt (dp_version d)) \<and>
        get_prop ''prevVersion'' raw = JNum (NInt (dp_prevVersion d)) \<and>
        get_prop ''nonce'' raw = JStr (toBase64 (dp_nonce d)) \<and>
        get_prop ''authPk'' raw = JStr (toBase64 (dp_authPk d)) \<and>
        get_prop ''sig'' raw = JStr (toBase64 (dp_sig d)) \<and>
        get_prop ''timestamp'' raw = JNum (NInt (dp_timestamp d)) \<and>
        inviteField (get_prop ''invite'' raw) = Inr (dp_invite d))"
  by (cases d) (auto simp: parsePutBlobRequest_def decoded_put_wf_def assertCount_Inr inviteField_Inr)

lemma parsePut_wf: "parsePutBlobRequest body = Inr d \<Longrightarrow> decoded_put_wf d"
  by (simp add: parsePutBlobRequest_Inr)

lemma parsePut_roundtrip:
  "decoded_put_wf d \<Longrightarrow> parsePutBlobRequest (put_request_json (put_request_of d)) = Inr d"
  by (auto simp: parsePutBlobRequest_Inr put_request_json_def put_request_of_def get_prop_def
      inviteField_Inr decoded_put_wf_def split: option.splits)

lemma parseDeleteAccountRequest_Inr:
  "parseDeleteAccountRequest body = Inr d \<longleftrightarrow>
     length (dd_authPk d) = ED25519_PUBLIC_KEY_BYTES \<and> length (dd_sig d) = ED25519_SIGNATURE_BYTES \<and>
     is_count (dd_timestamp d) \<and> length (dd_nonce d) = GCM_NONCE_BYTES \<and>
     (\<exists>raw. body = JObj raw \<and>
        get_prop ''authPk'' raw = JStr (toBase64 (dd_authPk d)) \<and>
        get_prop ''sig'' raw = JStr (toBase64 (dd_sig d)) \<and>
        get_prop ''timestamp'' raw = JNum (NInt (dd_timestamp d)) \<and>
        get_prop ''nonce'' raw = JStr (toBase64 (dd_nonce d)))"
  by (cases d) (auto simp: parseDeleteAccountRequest_def assertCount_Inr)

lemma parseGetBlobResponse_encode:
  "slot_view_wf s \<Longrightarrow>
   parseGetBlobResponse (get_response_json (encodeGetBlobResponse s)) = Inr (encodeGetBlobResponse s)"
  by (auto simp: parseGetBlobResponse_def get_response_json_def encodeGetBlobResponse_def
      slot_view_wf_def get_prop_def wt_record_def wt_text_def fromBase64_toBase64 assertLength_def
      checkCiphertextSize_def)

lemma parseGetBlobResponse_decodes:
  assumes "parseGetBlobResponse body = Inr r"
  shows "\<exists>s. slot_view_wf s \<and> r = encodeGetBlobResponse s"
proof -
  from assms obtain nonce ct where
    "gr_nonce r = toBase64 nonce" "length nonce = GCM_NONCE_BYTES" "gr_ciphertext r = toBase64 ct"
    "0 < length ct" "length ct \<le> MAX_CIPHERTEXT_BYTES"
    and "is_count (gr_version r)" "is_count (gr_prevVersion r)" "is_count (gr_serverTime r)"
    by (auto simp: parseGetBlobResponse_def assertCount_Inr)
  then show ?thesis
    by (intro exI [of _ "\<lparr>sv_version = gr_version r, sv_prevVersion = gr_prevVersion r,
          sv_nonce = nonce, sv_ciphertext = ct, sv_serverTime = gr_serverTime r\<rparr>"])
      (simp add: slot_view_wf_def encodeGetBlobResponse_def)
qed

end
