(* ===== verification/Crypto.thy ===== *)
theory Crypto
  imports Wire_Types
begin

text \<open>
  The client's cryptographic framing (\<^verbatim>\<open>packages/pss-client/src/crypto\<close>): padding to the fixed tiers, the
  HKDF-Expand key schedule, sealing and opening a cell, and the signed requests. The primitives
  themselves (SHA-256, HMAC, AES-GCM, Ed25519) belong to WebCrypto or the noble libraries and are a
  parameter, \<open>crypto_backend\<close>; what the code relies on is named by \<open>aead_ok\<close>, \<open>hash_ok\<close> and
  \<open>sign_ok\<close>. Randomness is an argument of the operation that draws it.
\<close>

definition HKDF_INFO_AUTH :: string where "HKDF_INFO_AUTH = ''auth-v1''"

definition HKDF_INFO_CELL_STATE :: string where "HKDF_INFO_CELL_STATE = ''cell-state-v1''"

definition HKDF_INFO_CELL_LABELS :: string where "HKDF_INFO_CELL_LABELS = ''cell-labels-v1''"

section \<open>The backend\<close>

record crypto_backend =
  be_sha256 :: "bytes \<Rightarrow> bytes"
  be_hmacSha256 :: "bytes \<Rightarrow> bytes \<Rightarrow> bytes"
  be_aesGcmSeal :: "bytes \<Rightarrow> bytes \<Rightarrow> bytes \<Rightarrow> bytes \<Rightarrow> bytes result"
  be_aesGcmOpen :: "bytes \<Rightarrow> bytes \<Rightarrow> bytes \<Rightarrow> bytes \<Rightarrow> bytes result"
  be_ed25519PublicKey :: "bytes \<Rightarrow> bytes result"
  be_ed25519Sign :: "bytes \<Rightarrow> bytes \<Rightarrow> bytes result"
  be_ed25519Verify :: "bytes \<Rightarrow> bytes \<Rightarrow> bytes \<Rightarrow> bool result"

text \<open>AES-256-GCM with a 12-byte nonce: sealing under a 32-byte key succeeds, appends a 16-byte tag, and
  opening under the same key, nonce and associated data returns the plaintext.\<close>

definition aead_ok :: "crypto_backend \<Rightarrow> bool" where
  "aead_ok B \<longleftrightarrow> (\<forall>key nonce aad p.
     length key = DERIVED_KEY_BYTES \<longrightarrow> length nonce = GCM_NONCE_BYTES \<longrightarrow>
     (\<exists>c. be_aesGcmSeal B key nonce aad p = Inr c \<and> length c = length p + GCM_TAG_BYTES \<and>
          be_aesGcmOpen B key nonce aad c = Inr p))"

text \<open>SHA-256 and HMAC-SHA-256 return 32 bytes.\<close>

definition hash_ok :: "crypto_backend \<Rightarrow> bool" where
  "hash_ok B \<longleftrightarrow> (\<forall>m. length (be_sha256 B m) = SHA256_BYTES) \<and>
     (\<forall>k m. length (be_hmacSha256 B k m) = SHA256_BYTES)"

text \<open>Ed25519: a 32-byte seed has a 32-byte public key, signing gives 64 bytes that verify.\<close>

definition sign_ok :: "crypto_backend \<Rightarrow> bool" where
  "sign_ok B \<longleftrightarrow> (\<forall>seed. length seed = 32 \<longrightarrow>
     (\<exists>pk. be_ed25519PublicKey B seed = Inr pk \<and> length pk = ED25519_PUBLIC_KEY_BYTES \<and>
       (\<forall>m. \<exists>s. be_ed25519Sign B seed m = Inr s \<and> length s = ED25519_SIGNATURE_BYTES \<and>
            be_ed25519Verify B pk m s = Inr True)))"

section \<open>Padding\<close>

definition LENGTH_PREFIX_BYTES :: nat where "LENGTH_PREFIX_BYTES = 4"

definition maxPayloadBytes :: nat where
  "maxPayloadBytes = PAD_TIERS ! (length PAD_TIERS - 1) - LENGTH_PREFIX_BYTES"

definition tierFor :: "nat \<Rightarrow> nat result" where
  "tierFor payloadLength =
     (let needed = payloadLength + LENGTH_PREFIX_BYTES
      in case find (\<lambda>tier. needed \<le> tier) PAD_TIERS of
           Some tier \<Rightarrow> Inr tier
         | None \<Rightarrow> Inl (PssCryptoError ''state exceeds the largest tier''))"

text \<open>\<^verbatim>\<open>buffer.set(src, offset)\<close>, for a source that fits.\<close>

definition buf_set :: "bytes \<Rightarrow> bytes \<Rightarrow> nat \<Rightarrow> bytes" where
  "buf_set buf src off = take off buf @ src @ drop (off + length src) buf"

text \<open>\<^verbatim>\<open>DataView.setUint32(0, n, false)\<close> and \<^verbatim>\<open>getUint32(0, false)\<close>\<close>

definition setUint32 :: "bytes \<Rightarrow> nat \<Rightarrow> bytes" where
  "setUint32 buf n = buf_set buf (u64be_loop 4 n []) 0"

definition getUint32 :: "bytes \<Rightarrow> nat" where
  "getUint32 buf = be_value (take 4 buf)"

definition pad :: "bytes \<Rightarrow> bytes result" where
  "pad payload =
     ebind (tierFor (length payload)) (\<lambda>tier.
       let out = replicate tier 0;
           out = setUint32 out (length payload)
       in Inr (buf_set out payload LENGTH_PREFIX_BYTES))"

definition unpad :: "bytes \<Rightarrow> bytes result" where
  "unpad padded =
     (if length padded \<notin> set PAD_TIERS then Inl (PssCryptoError ''not a padding tier'')
      else
        let len = getUint32 padded
        in if len > length padded - LENGTH_PREFIX_BYTES
           then Inl (PssCryptoError ''padded plaintext claims too many bytes'')
           else
             let end1 = LENGTH_PREFIX_BYTES + len
             in if \<not> list_all (\<lambda>b. b = 0) (drop end1 padded)
                then Inl (PssCryptoError ''padding is not zero filled'')
                else Inr (take (end1 - LENGTH_PREFIX_BYTES) (drop LENGTH_PREFIX_BYTES padded)))"

section \<open>HKDF-Expand and the key schedule\<close>

definition HASH_BYTES :: nat where "HASH_BYTES = 32"

definition MAX_BLOCKS :: nat where "MAX_BLOCKS = 255"

text \<open>The loop: \<open>k\<close> iterations remain, \<open>counter\<close> is the next block number.\<close>

fun hkdf_loop :: "crypto_backend \<Rightarrow> bytes \<Rightarrow> bytes \<Rightarrow> nat \<Rightarrow> nat \<Rightarrow> nat \<Rightarrow> bytes \<Rightarrow> bytes \<Rightarrow> nat \<Rightarrow> bytes" where
  "hkdf_loop B prk info len 0 counter out previous written = out"
| "hkdf_loop B prk info len (Suc k) counter out previous written =
     (let input = replicate (length previous + length info + 1) 0;
          input = buf_set input previous 0;
          input = buf_set input info (length previous);
          input = input[length input - 1 := word_of_nat counter];
          previous' = be_hmacSha256 B prk input;
          taken = min (length previous') (len - written)
      in hkdf_loop B prk info len k (counter + 1) (buf_set out (take taken previous') written)
           previous' (written + taken))"

definition hkdfExpand :: "crypto_backend \<Rightarrow> bytes \<Rightarrow> bytes \<Rightarrow> nat \<Rightarrow> bytes result" where
  "hkdfExpand B prk info len =
     (if len = 0 then Inl (PssCryptoError ''HKDF length must be a positive integer'')
      else
        let blocks = (len + HASH_BYTES - 1) div HASH_BYTES
        in if blocks > MAX_BLOCKS then Inl (PssCryptoError ''HKDF cannot expand that far'')
           else Inr (hkdf_loop B prk info len blocks 1 (replicate len 0) [] 0))"

record pss_keys =
  k_authSeed :: bytes
  k_authPublicKey :: bytes
  k_accountId :: bytes
  k_cellKey :: "collection \<Rightarrow> bytes"

fun CELL_INFO :: "collection \<Rightarrow> string" where
  "CELL_INFO State = HKDF_INFO_CELL_STATE"
| "CELL_INFO Labels = HKDF_INFO_CELL_LABELS"

definition deriveKeys :: "crypto_backend \<Rightarrow> bytes \<Rightarrow> pss_keys result" where
  "deriveKeys B stateKey =
     (if length stateKey \<noteq> STATE_KEY_BYTES then Inl (PssCryptoError ''k_state has the wrong length'')
      else
        ebind (hkdfExpand B stateKey (utf8 HKDF_INFO_AUTH) DERIVED_KEY_BYTES) (\<lambda>authSeed.
        ebind (be_ed25519PublicKey B authSeed) (\<lambda>authPublicKey.
        if length authPublicKey \<noteq> ED25519_PUBLIC_KEY_BYTES
        then Inl (PssCryptoError ''Ed25519 public key has the wrong length'')
        else
          let accountId = be_sha256 B authPublicKey
          in if length accountId \<noteq> ACCOUNT_ID_BYTES
             then Inl (PssCryptoError ''accountId has the wrong length'')
             else
               ebind (hkdfExpand B stateKey (utf8 (CELL_INFO State)) DERIVED_KEY_BYTES) (\<lambda>st.
               ebind (hkdfExpand B stateKey (utf8 (CELL_INFO Labels)) DERIVED_KEY_BYTES) (\<lambda>labels.
                 Inr \<lparr>k_authSeed = authSeed, k_authPublicKey = authPublicKey, k_accountId = accountId,
                      k_cellKey = (\<lambda>c. case c of State \<Rightarrow> st | Labels \<Rightarrow> labels)\<rparr>)))))"

section \<open>Sealing and opening a cell\<close>

record sealed_cell =
  cell_nonce :: bytes
  cell_ciphertext :: bytes

record cell_context =
  cc_collection :: collection
  cc_version :: int

definition sealCell ::
  "crypto_backend \<Rightarrow> bytes \<Rightarrow> cell_context \<Rightarrow> bytes \<Rightarrow> bytes \<Rightarrow> sealed_cell result" where
  "sealCell B cellKey context payload nonce =
     (if length nonce \<noteq> GCM_NONCE_BYTES then Inl (PssCryptoError ''nonce has the wrong length'')
      else
        ebind (cellAad (cc_collection context) (cc_version context)) (\<lambda>aad.
        ebind (pad payload) (\<lambda>padded.
        ebind (be_aesGcmSeal B cellKey nonce aad padded) (\<lambda>ciphertext.
          Inr \<lparr>cell_nonce = nonce, cell_ciphertext = ciphertext\<rparr>))))"

definition openCell :: "crypto_backend \<Rightarrow> bytes \<Rightarrow> cell_context \<Rightarrow> sealed_cell \<Rightarrow> bytes result" where
  "openCell B cellKey context cell =
     (if length (cell_nonce cell) \<noteq> GCM_NONCE_BYTES then Inl (PssCryptoError ''nonce has the wrong length'')
      else if length (cell_ciphertext cell) \<le> GCM_TAG_BYTES
      then Inl (PssCryptoError ''ciphertext is shorter than its authentication tag'')
      else
        ebind (cellAad (cc_collection context) (cc_version context)) (\<lambda>aad.
        ebind (be_aesGcmOpen B cellKey (cell_nonce cell) aad (cell_ciphertext cell)) unpad))"

section \<open>Signed requests\<close>

record put_request_input =
  pq_collection :: collection
  pq_version :: int
  pq_prevVersion :: int
  pq_nonce :: bytes
  pq_ciphertext :: bytes
  pq_timestamp :: int
  pq_invite :: "string option"

definition buildPutRequest ::
  "crypto_backend \<Rightarrow> pss_keys \<Rightarrow> put_request_input \<Rightarrow> put_blob_request result" where
  "buildPutRequest B keys i =
     (if pq_version i \<le> pq_prevVersion i then Inl (PssCryptoError ''version must exceed prevVersion'')
      else if length (pq_nonce i) \<noteq> GCM_NONCE_BYTES then Inl (PssCryptoError ''nonce has the wrong length'')
      else if length (pq_ciphertext i) = 0 \<or> length (pq_ciphertext i) > MAX_CIPHERTEXT_BYTES
      then Inl (PssCryptoError ''ciphertext must be 1..MAX bytes'')
      else
        ebind (putPreimage \<lparr>pi_accountId = k_accountId keys, pi_collection = pq_collection i,
                 pi_version = pq_version i, pi_prevVersion = pq_prevVersion i,
                 pi_ciphertextDigest = be_sha256 B (pq_ciphertext i),
                 pi_timestamp = pq_timestamp i\<rparr>) (\<lambda>preimage.
        ebind (be_ed25519Sign B (k_authSeed keys) preimage) (\<lambda>signature.
          Inr \<lparr>pr_version = pq_version i, pr_prevVersion = pq_prevVersion i,
               pr_nonce = toBase64 (pq_nonce i), pr_ciphertext = toBase64 (pq_ciphertext i),
               pr_authPk = toBase64 (k_authPublicKey keys), pr_sig = toBase64 signature,
               pr_timestamp = pq_timestamp i, pr_invite = pq_invite i\<rparr>)))"

definition buildDeleteRequest ::
  "crypto_backend \<Rightarrow> pss_keys \<Rightarrow> bytes \<Rightarrow> int \<Rightarrow> delete_account_request result" where
  "buildDeleteRequest B keys nonce timestamp =
     (if length nonce \<noteq> GCM_NONCE_BYTES then Inl (PssCryptoError ''delete nonce has the wrong length'')
      else
        ebind (deletePreimage \<lparr>di_accountId = k_accountId keys, di_nonce = nonce, di_timestamp = timestamp\<rparr>) (\<lambda>preimage.
        ebind (be_ed25519Sign B (k_authSeed keys) preimage) (\<lambda>signature.
          Inr \<lparr>dr_authPk = toBase64 (k_authPublicKey keys), dr_sig = toBase64 signature,
               dr_timestamp = timestamp, dr_nonce = toBase64 nonce\<rparr>)))"

section \<open>Reference definitions\<close>

text \<open>RFC 5869, section 2.3: \<open>T(0)\<close> is empty, \<open>T(i) = HMAC(PRK, T(i-1) | info | i)\<close>, and the output is
  the first \<open>len\<close> bytes of \<open>T(1) | T(2) | \<dots>\<close>.\<close>

fun hkdf_T :: "crypto_backend \<Rightarrow> bytes \<Rightarrow> bytes \<Rightarrow> nat \<Rightarrow> bytes" where
  "hkdf_T B prk info 0 = []"
| "hkdf_T B prk info (Suc i) = be_hmacSha256 B prk (hkdf_T B prk info i @ info @ [word_of_nat (Suc i)])"

definition hkdf_okm :: "crypto_backend \<Rightarrow> bytes \<Rightarrow> bytes \<Rightarrow> nat \<Rightarrow> bytes" where
  "hkdf_okm B prk info len =
     take len (concat (map (\<lambda>i. hkdf_T B prk info (Suc i)) [0..<(len + 31) div 32]))"

text \<open>A backend for concrete runs: it keeps every law above and hides nothing.\<close>

definition fit :: "nat \<Rightarrow> bytes \<Rightarrow> bytes" where
  "fit n bs = take n (bs @ replicate n 0)"

definition clear_backend :: crypto_backend where
  "clear_backend = \<lparr>
     be_sha256 = fit 32,
     be_hmacSha256 = (\<lambda>k m. fit 32 (rev m @ k)),
     be_aesGcmSeal = (\<lambda>key nonce aad p. Inr (p @ fit 16 (rev aad))),
     be_aesGcmOpen = (\<lambda>key nonce aad c.
        if length c \<ge> 16 \<and> drop (length c - 16) c = fit 16 (rev aad) then Inr (take (length c - 16) c)
        else Inl (PssCryptoError ''AES-GCM authentication failed'')),
     be_ed25519PublicKey = (\<lambda>seed. Inr (fit 32 seed)),
     be_ed25519Sign = (\<lambda>seed m. Inr (fit 32 seed @ fit 32 (rev m))),
     be_ed25519Verify = (\<lambda>pk m s. Inr (s = pk @ fit 32 (rev m)))\<rparr>"

section \<open>Lemmas: padding\<close>

lemma length_buf_set: "off + length src \<le> length buf \<Longrightarrow> length (buf_set buf src off) = length buf"
  by (simp add: buf_set_def)

lemma tierFor_Inr:
  "tierFor n = Inr t \<longleftrightarrow>
     t = (if n + 4 \<le> 16384 then 16384 else if n + 4 \<le> 131072 then 131072 else 1048576) \<and> n + 4 \<le> 1048576"
  by (auto simp: tierFor_def Let_def PAD_TIERS_def LENGTH_PREFIX_BYTES_def)

lemma maxPayloadBytes_eq: "maxPayloadBytes = 1048572"
  by (simp add: maxPayloadBytes_def PAD_TIERS_def LENGTH_PREFIX_BYTES_def)

lemma tierFor_total: "n \<le> maxPayloadBytes \<longleftrightarrow> (\<exists>t. tierFor n = Inr t)"
  by (simp add: maxPayloadBytes_eq tierFor_Inr)

lemma tierFor_in_tiers: "tierFor n = Inr t \<Longrightarrow> t \<in> set PAD_TIERS \<and> n + 4 \<le> t"
  by (auto simp: tierFor_Inr PAD_TIERS_def)

lemma tierFor_least: "tierFor n = Inr t \<Longrightarrow> t' \<in> set PAD_TIERS \<Longrightarrow> n + 4 \<le> t' \<Longrightarrow> t \<le> t'"
  by (auto simp: tierFor_Inr PAD_TIERS_def split: if_splits)

lemma pad_eq:
  "pad p = ebind (tierFor (length p)) (\<lambda>t. Inr (u64be_loop 4 (length p) [] @ p @ replicate (t - 4 - length p) 0))"
proof (cases "tierFor (length p)")
  case (Inl e)
  then show ?thesis by (simp add: pad_def)
next
  case (Inr t)
  then have "length p + 4 \<le> t" using tierFor_in_tiers by blast
  then show ?thesis
    by (simp add: pad_def Inr Let_def setUint32_def buf_set_def length_u64be_loop LENGTH_PREFIX_BYTES_def)
qed

lemma pad_length: "pad p = Inr b \<Longrightarrow> tierFor (length p) = Inr (length b)"
proof -
  assume "pad p = Inr b"
  then obtain t where t: "tierFor (length p) = Inr t"
    and b: "b = u64be_loop 4 (length p) [] @ p @ replicate (t - 4 - length p) 0"
    by (auto simp: pad_eq)
  from tierFor_in_tiers [OF t] have "length b = t" by (simp add: b length_u64be_loop)
  with t show ?thesis by simp
qed

lemma getUint32_prefix: "n < 2 ^ 32 \<Longrightarrow> getUint32 (u64be_loop 4 n [] @ rest) = n"
  by (simp add: getUint32_def length_u64be_loop be_value_u64be_loop)

lemma unpad_pad: "pad p = Inr b \<Longrightarrow> unpad b = Inr p"
proof -
  assume pad: "pad p = Inr b"
  then obtain t where t: "tierFor (length p) = Inr t"
    and b: "b = u64be_loop 4 (length p) [] @ p @ replicate (t - 4 - length p) 0"
    by (auto simp: pad_eq)
  have len: "length b = t" using pad_length [OF pad] t by simp
  have small: "length p < 2 ^ 32" using t by (simp add: tierFor_Inr)
  have "getUint32 b = length p" unfolding b by (rule getUint32_prefix [OF small])
  then show ?thesis
    using tierFor_in_tiers [OF t]
    by (simp add: unpad_def len Let_def LENGTH_PREFIX_BYTES_def)
      (auto simp: b length_u64be_loop list_all_iff)
qed

lemma pad_total: "length p \<le> maxPayloadBytes \<Longrightarrow> \<exists>b. pad p = Inr b"
  by (auto simp: tierFor_total pad_eq)

lemma pad_too_long: "length p > maxPayloadBytes \<Longrightarrow> \<exists>e. pad p = Inl (PssCryptoError e)"
  by (auto simp: pad_eq maxPayloadBytes_eq tierFor_def Let_def PAD_TIERS_def LENGTH_PREFIX_BYTES_def)

section \<open>Lemmas: HKDF\<close>

lemma hkdf_input:
  "(buf_set (buf_set (replicate (length p + length i + 1) 0) p 0) i (length p))[length p + length i := c] =
   p @ i @ [c]"
proof -
  have zeros: "replicate (length p + length i + 1) 0 = replicate (length p) 0 @ replicate (length i) 0 @ [0]"
    by (simp only: replicate_add) simp
  have "buf_set (buf_set (replicate (length p + length i + 1) 0) p 0) i (length p) = (p @ i) @ [0]"
    unfolding zeros by (simp add: buf_set_def)
  then show ?thesis
    using list_update_length [of "p @ i" 0 "[]" c] by simp
qed

lemma hkdf_loop_step:
  "hkdf_loop B prk info len (Suc k) counter out previous written =
     (let T = be_hmacSha256 B prk (previous @ info @ [word_of_nat counter]);
          taken = min (length T) (len - written)
      in hkdf_loop B prk info len k (counter + 1) (buf_set out (take taken T) written) T (written + taken))"
proof -
  have "length (buf_set (buf_set (replicate (length previous + length info + 1) 0) previous 0) info
          (length previous)) - 1 = length previous + length info"
    by (simp add: buf_set_def)
  then show ?thesis by (simp only: hkdf_loop.simps Let_def hkdf_input)
qed

declare hkdf_loop.simps(2) [simp del] hkdf_T.simps(2) [simp del]

lemma hkdf_loop_concat:
  assumes "hash_ok B" and "length out = len" and "written = min len (32 * n)"
    and "k = (len + 31) div 32 - n" and "n \<le> (len + 31) div 32"
    and "previous = hkdf_T B prk info n"
    and "take written out = take len (concat (map (\<lambda>i. hkdf_T B prk info (Suc i)) [0..<n]))"
  shows "hkdf_loop B prk info len k (Suc n) out previous written =
     take len (concat (map (\<lambda>i. hkdf_T B prk info (Suc i)) [0..<(len + 31) div 32]))"
  using assms
proof (induction k arbitrary: n out previous written)
  case 0
  then have n: "n = (len + 31) div 32" by simp
  then have "written = len" using 0 by (simp add: min_def)
  with 0 n show ?case by simp
next
  case (Suc k)
  let ?T = "hkdf_T B prk info (Suc n)"
  let ?cat = "\<lambda>n. concat (map (\<lambda>i. hkdf_T B prk info (Suc i)) [0..<n])"
  define taken where "taken = min 32 (len - written)"
  have lH: "length (be_hmacSha256 B prk m) = 32" for m using Suc.prems(1) by (simp add: hash_ok_def SHA256_BYTES_def)
  then have lT: "length ?T = 32" by (simp add: hkdf_T.simps)
  have lcat: "length (?cat n) = 32 * n" for n
    using Suc.prems(1) by (induction n) (simp_all add: hkdf_T.simps hash_ok_def SHA256_BYTES_def)
  have n: "32 * n < len" and wr: "written = 32 * n" using Suc.prems(3,4) by linarith+
  have w': "written + taken = min len (32 * Suc n)" using n wr by (simp add: taken_def)
  have out': "take (written + taken) (buf_set out (take taken ?T) written) = take len (?cat (Suc n))"
  proof -
    have "length (take taken ?T) = taken" by (simp add: lT taken_def)
    moreover have "length (take written out) = written" using Suc.prems(2) n wr by simp
    ultimately have "take (written + taken) (buf_set out (take taken ?T) written) = take written out @ take taken ?T"
      by (simp add: buf_set_def)
    also have "\<dots> = take len (?cat n @ ?T)"
      using Suc.prems(7) n wr by (simp add: lcat taken_def lT min_def)
    finally show ?thesis by simp
  qed
  have len': "length (buf_set out (take taken ?T) written) = len"
    using Suc.prems(2) n wr by (simp add: length_buf_set lT taken_def)
  have "hkdf_loop B prk info len (Suc k) (Suc n) out previous written =
      hkdf_loop B prk info len k (Suc (Suc n)) (buf_set out (take taken ?T) written) ?T (written + taken)"
    using lH by (simp add: hkdf_loop_step Suc.prems(6) Let_def taken_def hkdf_T.simps)
  also have "\<dots> = take len (?cat ((len + 31) div 32))"
    by (rule Suc.IH [OF Suc.prems(1) len' w' _ _ refl out']) (use Suc.prems(4) n in linarith)+
  finally show ?case .
qed

lemma hkdfExpand_rfc5869:
  assumes "hash_ok B" and "0 < len" and "len \<le> 255 * 32"
  shows "hkdfExpand B prk info len = Inr (hkdf_okm B prk info len)"
proof -
  have "(len + 31) div 32 \<le> MAX_BLOCKS" using assms(3) by (simp add: MAX_BLOCKS_def)
  moreover have "hkdf_loop B prk info len ((len + 31) div 32) (Suc 0) (replicate len 0) [] 0 =
      hkdf_okm B prk info len"
    unfolding hkdf_okm_def by (rule hkdf_loop_concat) (use assms in simp_all)
  ultimately show ?thesis using assms(2) by (simp add: hkdfExpand_def HASH_BYTES_def Let_def add.commute)
qed

lemma length_hkdf_okm:
  assumes "hash_ok B"
  shows "length (hkdf_okm B prk info len) = len"
proof -
  have "length (concat (map (\<lambda>i. hkdf_T B prk info (Suc i)) [0..<n])) = 32 * n" for n
    using assms by (induction n) (simp_all add: hkdf_T.simps hash_ok_def SHA256_BYTES_def)
  moreover have "len \<le> 32 * ((len + 31) div 32)" by presburger
  ultimately show ?thesis by (simp add: hkdf_okm_def)
qed

definition keys_ok :: "crypto_backend \<Rightarrow> pss_keys \<Rightarrow> bool" where
  "keys_ok B k \<longleftrightarrow> length (k_authSeed k) = 32 \<and> be_ed25519PublicKey B (k_authSeed k) = Inr (k_authPublicKey k) \<and>
     k_accountId k = be_sha256 B (k_authPublicKey k) \<and> length (k_accountId k) = 32 \<and>
     length (k_authPublicKey k) = 32 \<and> (\<forall>c. length (k_cellKey k c) = 32)"

lemma deriveKeys_ok:
  assumes "hash_ok B" and "sign_ok B" and "length stateKey = 32"
  shows "\<exists>k. deriveKeys B stateKey = Inr k \<and> keys_ok B k"
proof -
  have h: "hkdfExpand B stateKey info 32 = Inr (hkdf_okm B stateKey info 32)" for info
    by (rule hkdfExpand_rfc5869 [OF assms(1)]) simp_all
  obtain pk where pk: "be_ed25519PublicKey B (hkdf_okm B stateKey (utf8 HKDF_INFO_AUTH) 32) = Inr pk"
    "length pk = 32"
    using assms(2) length_hkdf_okm [OF assms(1)]
    unfolding sign_ok_def ED25519_PUBLIC_KEY_BYTES_def by blast
  have sha: "length (be_sha256 B m) = 32" for m using assms(1) by (simp add: hash_ok_def SHA256_BYTES_def)
  show ?thesis
    using pk sha assms(3)
    by (simp add: deriveKeys_def h STATE_KEY_BYTES_def DERIVED_KEY_BYTES_def ED25519_PUBLIC_KEY_BYTES_def
        ACCOUNT_ID_BYTES_def keys_ok_def length_hkdf_okm [OF assms(1)] split: collection.split)
qed

section \<open>Lemmas: cells\<close>

lemma sealCell_total:
  assumes "aead_ok B" and "length key = 32" and "length nonce = 12"
    and "is_count (cc_version ctx)" and "length p \<le> maxPayloadBytes"
  shows "\<exists>cell. sealCell B key ctx p nonce = Inr cell \<and> openCell B key ctx cell = Inr p \<and>
     cell_nonce cell = nonce \<and> tierFor (length p) = Inr (length (cell_ciphertext cell) - 16) \<and>
     16 < length (cell_ciphertext cell) \<and> length (cell_ciphertext cell) \<le> MAX_CIPHERTEXT_BYTES"
proof -
  obtain aad where aad: "cellAad (cc_collection ctx) (cc_version ctx) = Inr aad"
    using cellAad_total [OF assms(4)] by blast
  obtain b where b: "pad p = Inr b" using pad_total [OF assms(5)] by blast
  obtain c where c: "be_aesGcmSeal B key nonce aad b = Inr c" "length c = length b + 16"
    "be_aesGcmOpen B key nonce aad c = Inr b"
    using assms(1-3) unfolding aead_ok_def DERIVED_KEY_BYTES_def GCM_NONCE_BYTES_def GCM_TAG_BYTES_def by blast
  have tier: "tierFor (length p) = Inr (length b)" by (rule pad_length [OF b])
  have "16 < length c" "length c \<le> MAX_CIPHERTEXT_BYTES"
    using tier c(2) by (auto simp: tierFor_Inr MAX_CIPHERTEXT_BYTES_def MAX_PLAINTEXT_BYTES_def split: if_splits)
  then show ?thesis
    using assms(3) aad b c tier
    by (simp add: sealCell_def openCell_def GCM_NONCE_BYTES_def GCM_TAG_BYTES_def unpad_pad [OF b])
qed

lemma openCell_wrong_version:
  assumes "openCell B key ctx cell = Inr p"
  shows "\<exists>aad b. cellAad (cc_collection ctx) (cc_version ctx) = Inr aad \<and>
     be_aesGcmOpen B key (cell_nonce cell) aad (cell_ciphertext cell) = Inr b \<and> unpad b = Inr p"
  using assms by (auto simp: openCell_def split: if_splits)

section \<open>Lemmas: requests\<close>

lemma buildPutRequest_Inr:
  "buildPutRequest B keys i = Inr r \<longleftrightarrow>
     pq_prevVersion i < pq_version i \<and> length (pq_nonce i) = 12 \<and>
     0 < length (pq_ciphertext i) \<and> length (pq_ciphertext i) \<le> MAX_CIPHERTEXT_BYTES \<and>
     (\<exists>preimage signature.
        putPreimage \<lparr>pi_accountId = k_accountId keys, pi_collection = pq_collection i,
                 pi_version = pq_version i, pi_prevVersion = pq_prevVersion i,
                 pi_ciphertextDigest = be_sha256 B (pq_ciphertext i),
                 pi_timestamp = pq_timestamp i\<rparr> = Inr preimage \<and>
        be_ed25519Sign B (k_authSeed keys) preimage = Inr signature \<and>
        r = \<lparr>pr_version = pq_version i, pr_prevVersion = pq_prevVersion i,
               pr_nonce = toBase64 (pq_nonce i), pr_ciphertext = toBase64 (pq_ciphertext i),
               pr_authPk = toBase64 (k_authPublicKey keys), pr_sig = toBase64 signature,
               pr_timestamp = pq_timestamp i, pr_invite = pq_invite i\<rparr>)"
  by (auto simp: buildPutRequest_def GCM_NONCE_BYTES_def)

section \<open>The concrete backend keeps the laws\<close>

lemma length_fit [simp]: "length (fit n bs) = n"
  by (simp add: fit_def)

lemma fit_id [simp]: "length bs = n \<Longrightarrow> fit n bs = bs"
  by (simp add: fit_def)

lemma clear_backend_laws: "aead_ok clear_backend" "hash_ok clear_backend" "sign_ok clear_backend"
  by (simp_all add: aead_ok_def hash_ok_def sign_ok_def clear_backend_def GCM_TAG_BYTES_def SHA256_BYTES_def
      ED25519_PUBLIC_KEY_BYTES_def ED25519_SIGNATURE_BYTES_def)

end
