(* ===== verification/State_Payload.thy ===== *)
theory State_Payload
  imports Wire_Codec Json_Text
begin

text \<open>
  The wallet state that is sealed and uploaded (\<^verbatim>\<open>wire/payload.ts\<close>, \<^verbatim>\<open>state/payload.ts\<close>, \<^verbatim>\<open>state/store.ts\<close>): its
  fields, the validation of attacker-controlled JSON, serialisation, and the keys under which it is
  cached. Parsing is shown to yield validated payloads only, and to invert serialisation.
\<close>

section \<open>The payload\<close>

record issued_address =
  ia_index :: int

record unspent_note =
  un_leafIndex :: int
  un_assetId :: string
  un_amount :: string
  un_nullifier :: string

record sync_cursor =
  sc_block :: int
  sc_logIndex :: int

record nullifier_checkpoint =
  nc_block :: int

record pss_state_payload =
  sp_schema :: int
  sp_installId :: string
  sp_platform :: string
  sp_updatedAt :: int
  sp_selfEphHighwater :: int
  sp_incomingIssueHighwater :: int
  sp_issuedAddresses :: "issued_address list"
  sp_unspentNotes :: "unspent_note list"
  sp_syncCursor :: sync_cursor
  sp_nullifierCheckedAt :: nullifier_checkpoint
  sp_ephemeralCounters :: "(string \<times> int) list"

record parsed_state_payload =
  known :: pss_state_payload
  extra :: "(string \<times> jsval) list"

definition STATE_PAYLOAD_KNOWN_KEYS :: "string list" where
  "STATE_PAYLOAD_KNOWN_KEYS =
     [''schema'', ''installId'', ''platform'', ''updatedAt'', ''selfEphHighwater'',
      ''incomingIssueHighwater'', ''issuedAddresses'', ''unspentNotes'', ''syncCursor'',
      ''nullifierCheckedAt'', ''ephemeralCounters'']"

definition MAX_COUNTER_SCOPES :: nat where "MAX_COUNTER_SCOPES = 64"

definition MAX_NOTE_AMOUNT :: nat where "MAX_NOTE_AMOUNT = 2 ^ 128 - 1"

text \<open>\<^verbatim>\<open>/^0x[0-9a-f]{n}$/\<close>\<close>

definition hex_shape :: "nat \<Rightarrow> string \<Rightarrow> bool" where
  "hex_shape n t \<longleftrightarrow> take 2 t = ''0x'' \<and> length t = n + 2 \<and> list_all is_lower_hex (drop 2 t)"

definition ASSET_ID_SHAPE :: "string \<Rightarrow> bool" where "ASSET_ID_SHAPE = hex_shape 40"

definition NULLIFIER_SHAPE :: "string \<Rightarrow> bool" where "NULLIFIER_SHAPE = hex_shape 64"

definition INSTALL_ID_SHAPE :: "string \<Rightarrow> bool" where "INSTALL_ID_SHAPE = hex_shape 32"

definition AMOUNT_SHAPE :: "string \<Rightarrow> bool" where "AMOUNT_SHAPE = canonical_decimal"

text \<open>\<^verbatim>\<open>/^(self|msSelf:0x[0-9a-f]{64}:(0|[1-9][0-9]*))$/\<close>\<close>

definition COUNTER_SCOPE_SHAPE :: "string \<Rightarrow> bool" where
  "COUNTER_SCOPE_SHAPE t \<longleftrightarrow>
     t = ''self'' \<or>
     (take 7 t = ''msSelf:'' \<and> hex_shape 64 (take 66 (drop 7 t)) \<and>
      take 1 (drop 73 t) = '':'' \<and> canonical_decimal (drop 74 t))"

section \<open>Store keys\<close>

definition NAMESPACE :: string where "NAMESPACE = ''hisoka.pss.v1''"

definition floorKey :: "string \<Rightarrow> collection \<Rightarrow> string" where
  "floorKey accountId c = NAMESPACE @ ''.floor.'' @ accountId @ ''.'' @ collection_name c"

definition payloadKey :: "string \<Rightarrow> collection \<Rightarrow> string" where
  "payloadKey accountId c = NAMESPACE @ ''.payload.'' @ accountId @ ''.'' @ collection_name c"

definition installKey :: "string \<Rightarrow> string" where
  "installKey accountId = NAMESPACE @ ''.install.'' @ accountId"

section \<open>Field validators\<close>

definition pl_record :: "jsval \<Rightarrow> string \<Rightarrow> (string \<times> jsval) list result" where
  "pl_record v label =
     (case v of JObj kvs \<Rightarrow> Inr kvs | _ \<Rightarrow> Inl (PssStateError (label @ '' must be a JSON object'')))"

text \<open>Unlike the wire's \<^verbatim>\<open>assertCount\<close> this lets a negative zero through; it is then the number 0.\<close>

definition pl_count :: "jsval \<Rightarrow> string \<Rightarrow> int result" where
  "pl_count v label =
     (let bad = Inl (PssStateError (label @ '' must be a non-negative safe integer'')) in
      case v of
        JNum (NInt n) \<Rightarrow> (if \<not> isSafeInteger n \<or> n < 0 then bad else Inr n)
      | JNum NNegZero \<Rightarrow> Inr 0
      | _ \<Rightarrow> bad)"

definition shaped :: "jsval \<Rightarrow> (string \<Rightarrow> bool) \<Rightarrow> string \<Rightarrow> string result" where
  "shaped v shape label =
     (case v of
        JStr t \<Rightarrow> (if shape t then Inr t else Inl (PssStateError (label @ '' is malformed'')))
      | _ \<Rightarrow> Inl (PssStateError (label @ '' is malformed'')))"

definition pl_array :: "jsval \<Rightarrow> string \<Rightarrow> jsval list result" where
  "pl_array v label =
     (case v of JArr vs \<Rightarrow> Inr vs | _ \<Rightarrow> Inl (PssStateError (label @ '' must be an array'')))"

definition parseIssuedAddress :: "jsval \<Rightarrow> issued_address result" where
  "parseIssuedAddress v =
     ebind (pl_record v ''issuedAddresses entry'') (\<lambda>raw.
     ebind (pl_count (get_prop ''index'' raw) ''issuedAddresses[].index'') (\<lambda>i.
       Inr \<lparr>ia_index = i\<rparr>))"

definition parseUnspentNote :: "jsval \<Rightarrow> unspent_note result" where
  "parseUnspentNote v =
     ebind (pl_record v ''unspentNotes entry'') (\<lambda>raw.
     ebind (shaped (get_prop ''amount'' raw) AMOUNT_SHAPE ''unspentNotes[].amount'') (\<lambda>amount.
     if decimal_value amount > MAX_NOTE_AMOUNT
     then Inl (PssStateError ''unspentNotes[].amount exceeds the u128 range'')
     else
     ebind (pl_count (get_prop ''leafIndex'' raw) ''unspentNotes[].leafIndex'') (\<lambda>leafIndex.
     ebind (shaped (get_prop ''assetId'' raw) ASSET_ID_SHAPE ''unspentNotes[].assetId'') (\<lambda>assetId.
     ebind (shaped (get_prop ''nullifier'' raw) NULLIFIER_SHAPE ''unspentNotes[].nullifier'') (\<lambda>nullifier.
       Inr \<lparr>un_leafIndex = leafIndex, un_assetId = assetId, un_amount = amount, un_nullifier = nullifier\<rparr>)))))"

definition parseSyncCursor :: "jsval \<Rightarrow> sync_cursor result" where
  "parseSyncCursor v =
     ebind (pl_record v ''syncCursor'') (\<lambda>raw.
     ebind (pl_count (get_prop ''block'' raw) ''syncCursor.block'') (\<lambda>b.
     ebind (pl_count (get_prop ''logIndex'' raw) ''syncCursor.logIndex'') (\<lambda>l.
       Inr \<lparr>sc_block = b, sc_logIndex = l\<rparr>)))"

definition parseCheckpoint :: "jsval \<Rightarrow> nullifier_checkpoint result" where
  "parseCheckpoint v =
     ebind (pl_record v ''nullifierCheckedAt'') (\<lambda>raw.
     ebind (pl_count (get_prop ''block'' raw) ''nullifierCheckedAt.block'') (\<lambda>b.
       Inr \<lparr>nc_block = b\<rparr>))"

definition pl_platform :: "jsval \<Rightarrow> string result" where
  "pl_platform v =
     (case v of
        JStr t \<Rightarrow> (if length t > PLATFORM_MAX_CHARS then Inl (PssStateError ''platform is too long'') else Inr t)
      | _ \<Rightarrow> Inl (PssStateError ''platform must be a string''))"

fun parse_counter_entries ::
  "(string \<times> jsval) list \<Rightarrow> (string \<times> int) list \<Rightarrow> (string \<times> int) list result" where
  "parse_counter_entries [] counters = Inr counters"
| "parse_counter_entries ((scope, high) # entries) counters =
     (if \<not> COUNTER_SCOPE_SHAPE scope then Inl (PssStateError ''ephemeralCounters scope is malformed'')
      else ebind (pl_count high ''ephemeralCounters[]'') (\<lambda>n.
             parse_counter_entries entries (js_assign scope n counters)))"

definition parseEphemeralCounters :: "jsval \<Rightarrow> (string \<times> int) list result" where
  "parseEphemeralCounters v =
     (if v = JUndefined \<or> v = JNull then Inr []
      else ebind (pl_record v ''ephemeralCounters'') (\<lambda>entries.
             if length entries > MAX_COUNTER_SCOPES
             then Inl (PssStateError ''ephemeralCounters carries too many scopes'')
             else parse_counter_entries entries []))"

section \<open>The whole payload\<close>

definition extra_of :: "(string \<times> jsval) list \<Rightarrow> (string \<times> jsval) list" where
  "extra_of raw =
     fold (\<lambda>(key, entry) ex. if key \<in> set STATE_PAYLOAD_KNOWN_KEYS then ex else js_assign key entry ex) raw []"

definition parseStatePayload :: "jsval \<Rightarrow> parsed_state_payload result" where
  "parseStatePayload v =
     ebind (pl_record v ''payload'') (\<lambda>raw.
     ebind (pl_count (get_prop ''schema'' raw) ''schema'') (\<lambda>schema.
     if schema > PSS_SCHEMA_VERSION then Inl (PssSchemaError schema PSS_SCHEMA_VERSION)
     else
     ebind (shaped (get_prop ''installId'' raw) INSTALL_ID_SHAPE ''installId'') (\<lambda>installId.
     ebind (pl_platform (get_prop ''platform'' raw)) (\<lambda>platform.
     ebind (pl_count (get_prop ''updatedAt'' raw) ''updatedAt'') (\<lambda>updatedAt.
     ebind (pl_count (get_prop ''selfEphHighwater'' raw) ''selfEphHighwater'') (\<lambda>selfHw.
     ebind (pl_count (get_prop ''incomingIssueHighwater'' raw) ''incomingIssueHighwater'') (\<lambda>inHw.
     ebind (pl_array (get_prop ''issuedAddresses'' raw) ''issuedAddresses'') (\<lambda>issuedRaw.
     ebind (emap parseIssuedAddress issuedRaw) (\<lambda>issued.
     ebind (pl_array (get_prop ''unspentNotes'' raw) ''unspentNotes'') (\<lambda>notesRaw.
     ebind (emap parseUnspentNote notesRaw) (\<lambda>notes.
     ebind (parseSyncCursor (get_prop ''syncCursor'' raw)) (\<lambda>cursor.
     ebind (parseCheckpoint (get_prop ''nullifierCheckedAt'' raw)) (\<lambda>checked.
     ebind (parseEphemeralCounters (get_prop ''ephemeralCounters'' raw)) (\<lambda>counters.
       Inr \<lparr>known = \<lparr>sp_schema = schema, sp_installId = installId, sp_platform = platform,
                sp_updatedAt = updatedAt, sp_selfEphHighwater = selfHw,
                sp_incomingIssueHighwater = inHw, sp_issuedAddresses = issued,
                sp_unspentNotes = notes, sp_syncCursor = cursor,
                sp_nullifierCheckedAt = checked, sp_ephemeralCounters = counters\<rparr>,
            extra = extra_of raw\<rparr>))))))))))))))"

section \<open>Serialisation\<close>

definition num :: "int \<Rightarrow> jsval" where "num n = JNum (NInt n)"

definition address_json :: "issued_address \<Rightarrow> jsval" where
  "address_json a = JObj [(''index'', num (ia_index a))]"

definition note_json :: "unspent_note \<Rightarrow> jsval" where
  "note_json n = JObj [(''leafIndex'', num (un_leafIndex n)), (''assetId'', JStr (un_assetId n)),
                       (''amount'', JStr (un_amount n)), (''nullifier'', JStr (un_nullifier n))]"

definition cursor_json :: "sync_cursor \<Rightarrow> jsval" where
  "cursor_json c = JObj [(''block'', num (sc_block c)), (''logIndex'', num (sc_logIndex c))]"

definition checkpoint_json :: "nullifier_checkpoint \<Rightarrow> jsval" where
  "checkpoint_json c = JObj [(''block'', num (nc_block c))]"

definition counters_json :: "(string \<times> int) list \<Rightarrow> jsval" where
  "counters_json cs = JObj (map (\<lambda>(k, n). (k, num n)) cs)"

definition known_json :: "pss_state_payload \<Rightarrow> (string \<times> jsval) list" where
  "known_json p =
     [(''schema'', num (sp_schema p)), (''installId'', JStr (sp_installId p)),
      (''platform'', JStr (sp_platform p)), (''updatedAt'', num (sp_updatedAt p)),
      (''selfEphHighwater'', num (sp_selfEphHighwater p)),
      (''incomingIssueHighwater'', num (sp_incomingIssueHighwater p)),
      (''issuedAddresses'', JArr (map address_json (sp_issuedAddresses p))),
      (''unspentNotes'', JArr (map note_json (sp_unspentNotes p))),
      (''syncCursor'', cursor_json (sp_syncCursor p)),
      (''nullifierCheckedAt'', checkpoint_json (sp_nullifierCheckedAt p)),
      (''ephemeralCounters'', counters_json (sp_ephemeralCounters p))]"

definition payload_json :: "parsed_state_payload \<Rightarrow> jsval" where
  "payload_json p = JObj (js_spread (extra p) (known_json (known p)))"

definition serializeStatePayload :: "parsed_state_payload \<Rightarrow> string" where
  "serializeStatePayload p = json_stringify (payload_json p)"

definition decodeStatePayload :: "string \<Rightarrow> parsed_state_payload result" where
  "decodeStatePayload json =
     (case json_parse json of
        None \<Rightarrow> Inl (PssStateError ''payload is not valid JSON'')
      | Some v \<Rightarrow> parseStatePayload v)"

definition emptyStatePayload :: "string \<Rightarrow> string \<Rightarrow> int \<Rightarrow> parsed_state_payload result" where
  "emptyStatePayload installId platformName updatedAt =
     ebind (shaped (JStr installId) INSTALL_ID_SHAPE ''installId'') (\<lambda>iid.
     ebind (pl_platform (JStr platformName)) (\<lambda>platform.
       Inr \<lparr>known = \<lparr>sp_schema = PSS_SCHEMA_VERSION, sp_installId = iid, sp_platform = platform,
                sp_updatedAt = updatedAt, sp_selfEphHighwater = 0, sp_incomingIssueHighwater = 0,
                sp_issuedAddresses = [], sp_unspentNotes = [],
                sp_syncCursor = \<lparr>sc_block = 0, sc_logIndex = 0\<rparr>,
                sp_nullifierCheckedAt = \<lparr>nc_block = 0\<rparr>, sp_ephemeralCounters = []\<rparr>,
            extra = []\<rparr>))"

section \<open>Well-formed payloads\<close>

definition note_wf :: "unspent_note \<Rightarrow> bool" where
  "note_wf n \<longleftrightarrow> is_count (un_leafIndex n) \<and> ASSET_ID_SHAPE (un_assetId n) \<and> AMOUNT_SHAPE (un_amount n) \<and>
     decimal_value (un_amount n) \<le> MAX_NOTE_AMOUNT \<and> NULLIFIER_SHAPE (un_nullifier n)"

definition counters_wf :: "(string \<times> int) list \<Rightarrow> bool" where
  "counters_wf cs \<longleftrightarrow> distinct (map fst cs) \<and> length cs \<le> MAX_COUNTER_SCOPES \<and>
     list_all (\<lambda>(k, n). COUNTER_SCOPE_SHAPE k \<and> is_count n) cs"

definition known_wf :: "pss_state_payload \<Rightarrow> bool" where
  "known_wf p \<longleftrightarrow>
     is_count (sp_schema p) \<and> sp_schema p \<le> PSS_SCHEMA_VERSION \<and>
     INSTALL_ID_SHAPE (sp_installId p) \<and> length (sp_platform p) \<le> PLATFORM_MAX_CHARS \<and>
     is_count (sp_updatedAt p) \<and> is_count (sp_selfEphHighwater p) \<and>
     is_count (sp_incomingIssueHighwater p) \<and>
     list_all (\<lambda>a. is_count (ia_index a)) (sp_issuedAddresses p) \<and>
     list_all note_wf (sp_unspentNotes p) \<and>
     is_count (sc_block (sp_syncCursor p)) \<and> is_count (sc_logIndex (sp_syncCursor p)) \<and>
     is_count (nc_block (sp_nullifierCheckedAt p)) \<and> counters_wf (sp_ephemeralCounters p)"

definition extra_wf :: "(string \<times> jsval) list \<Rightarrow> bool" where
  "extra_wf ex \<longleftrightarrow> distinct (map fst ex) \<and> ''__proto__'' \<notin> fst ` set ex \<and>
     fst ` set ex \<inter> set STATE_PAYLOAD_KNOWN_KEYS = {}"

text \<open>A payload whose text reads back as itself: validated known fields, unknown fields that are plain.\<close>

definition payload_wf :: "parsed_state_payload \<Rightarrow> bool" where
  "payload_wf p \<longleftrightarrow> known_wf (known p) \<and> extra_wf (extra p) \<and> json_plain_members (extra p)"

section \<open>Lemmas: what the validators accept\<close>

lemma pl_record_Inr [simp]: "pl_record v label = Inr kvs \<longleftrightarrow> v = JObj kvs"
  by (auto simp: pl_record_def split: jsval.splits)

lemma pl_array_Inr [simp]: "pl_array v label = Inr vs \<longleftrightarrow> v = JArr vs"
  by (auto simp: pl_array_def split: jsval.splits)

lemma pl_count_Inr: "pl_count v label = Inr n \<longleftrightarrow> is_count n \<and> (v = JNum (NInt n) \<or> v = JNum NNegZero \<and> n = 0)"
  by (auto simp: pl_count_def Let_def is_count_def isSafeInteger_def MAX_SAFE_INTEGER_def
      split: jsval.splits jnum.splits if_splits)

lemma pl_count_num [simp]: "is_count n \<Longrightarrow> pl_count (num n) label = Inr n"
  by (simp add: pl_count_Inr num_def)

lemma shaped_Inr: "shaped v shape label = Inr t \<longleftrightarrow> v = JStr t \<and> shape t"
  by (auto simp: shaped_def split: jsval.splits if_splits)

lemma pl_platform_Inr: "pl_platform v = Inr t \<longleftrightarrow> v = JStr t \<and> length t \<le> PLATFORM_MAX_CHARS"
  by (auto simp: pl_platform_def split: jsval.splits if_splits)

lemma parseIssuedAddress_wf: "parseIssuedAddress v = Inr a \<Longrightarrow> is_count (ia_index a)"
  by (auto simp: parseIssuedAddress_def pl_count_Inr)

lemma parseUnspentNote_wf: "parseUnspentNote v = Inr n \<Longrightarrow> note_wf n"
  by (auto simp: parseUnspentNote_def pl_count_Inr shaped_Inr note_wf_def split: if_splits)

lemma parseSyncCursor_wf: "parseSyncCursor v = Inr c \<Longrightarrow> is_count (sc_block c) \<and> is_count (sc_logIndex c)"
  by (auto simp: parseSyncCursor_def pl_count_Inr)

lemma parseCheckpoint_wf: "parseCheckpoint v = Inr c \<Longrightarrow> is_count (nc_block c)"
  by (auto simp: parseCheckpoint_def pl_count_Inr)

lemma emap_all: "emap f xs = Inr ys \<Longrightarrow> (\<And>x y. f x = Inr y \<Longrightarrow> P y) \<Longrightarrow> list_all P ys"
  by (induction xs arbitrary: ys) auto

lemma emap_issued_wf: "emap parseIssuedAddress vs = Inr ys \<Longrightarrow> list_all (\<lambda>a. is_count (ia_index a)) ys"
  by (erule emap_all) (rule parseIssuedAddress_wf)

lemma emap_notes_wf: "emap parseUnspentNote vs = Inr ys \<Longrightarrow> list_all note_wf ys"
  by (erule emap_all) (rule parseUnspentNote_wf)

lemma COUNTER_SCOPE_SHAPE_proto: "\<not> COUNTER_SCOPE_SHAPE ''__proto__''"
  by (simp add: COUNTER_SCOPE_SHAPE_def)

lemma length_update_le: "length (AList.update k v al) \<le> Suc (length al)"
  by (induction al) auto

lemma set_update_subset: "set (AList.update k v al) \<subseteq> insert (k, v) (set al)"
  by (induction al) auto

lemma parse_counter_entries_wf:
  assumes "parse_counter_entries entries cs = Inr cs'" and "distinct (map fst cs)"
    and "list_all (\<lambda>(k, n). COUNTER_SCOPE_SHAPE k \<and> is_count n) cs"
  shows "distinct (map fst cs') \<and> length cs' \<le> length cs + length entries \<and>
         list_all (\<lambda>(k, n). COUNTER_SCOPE_SHAPE k \<and> is_count n) cs'"
  using assms
proof (induction entries cs rule: parse_counter_entries.induct)
  case (1 cs)
  then show ?case by simp
next
  case (2 scope high entries cs)
  then obtain n where n: "COUNTER_SCOPE_SHAPE scope" "is_count n" "pl_count high ''ephemeralCounters[]'' = Inr n"
    and rest: "parse_counter_entries entries (js_assign scope n cs) = Inr cs'"
    by (auto simp: pl_count_Inr split: if_splits)
  have assign: "js_assign scope n cs = AList.update scope n cs"
    using n(1) COUNTER_SCOPE_SHAPE_proto by (auto simp: js_assign_def)
  have "distinct (map fst (AList.update scope n cs))" using 2 by (simp add: distinct_fst_update)
  moreover have "list_all (\<lambda>(k, n). COUNTER_SCOPE_SHAPE k \<and> is_count n) (AList.update scope n cs)"
    using 2(4) n set_update_subset [of scope n cs] by (auto simp: list_all_iff)
  ultimately have "distinct (map fst cs') \<and> length cs' \<le> length (AList.update scope n cs) + length entries \<and>
      list_all (\<lambda>(k, n). COUNTER_SCOPE_SHAPE k \<and> is_count n) cs'"
    using "2.IH" [of n] n rest assign by simp
  then show ?case using length_update_le [of scope n cs] by simp
qed

lemma parseEphemeralCounters_wf: "parseEphemeralCounters v = Inr cs \<Longrightarrow> counters_wf cs"
  by (auto simp: parseEphemeralCounters_def counters_wf_def MAX_COUNTER_SCOPES_def split: if_splits
      dest: parse_counter_entries_wf)

lemma extra_of_wf: "extra_wf (extra_of raw)"
proof -
  have "extra_wf (fold (\<lambda>(key, entry) ex. if key \<in> set STATE_PAYLOAD_KNOWN_KEYS then ex else js_assign key entry ex) raw ex)"
    if "extra_wf ex" for ex :: "(string \<times> jsval) list"
    using that
  proof (induction raw arbitrary: ex)
    case (Cons kv raw)
    obtain k v where kv: "kv = (k, v)" by (cases kv)
    have "extra_wf (if k \<in> set STATE_PAYLOAD_KNOWN_KEYS then ex else js_assign k v ex)"
      using Cons.prems by (auto simp: extra_wf_def js_assign_def distinct_fst_update dom_update)
    then show ?case using Cons.IH by (simp add: kv)
  qed simp
  then show ?thesis by (simp add: extra_of_def extra_wf_def)
qed

lemma pl_count_is_count: "pl_count v label = Inr n \<Longrightarrow> is_count n"
  by (simp add: pl_count_Inr)

lemma shaped_shape: "shaped v shape label = Inr t \<Longrightarrow> shape t"
  by (simp add: shaped_Inr)

lemma pl_platform_length: "pl_platform v = Inr t \<Longrightarrow> length t \<le> PLATFORM_MAX_CHARS"
  by (simp add: pl_platform_Inr)

lemmas validator_dests =
  pl_count_is_count shaped_shape pl_platform_length parseSyncCursor_wf parseCheckpoint_wf
  parseEphemeralCounters_wf emap_issued_wf emap_notes_wf

lemma parseStatePayload_wf:
  assumes "parseStatePayload v = Inr p"
  shows "known_wf (known p) \<and> extra_wf (extra p)"
  using assms
  by (auto simp: parseStatePayload_def known_wf_def extra_of_wf split: if_splits dest: validator_dests)

section \<open>Lemmas: serialisation is read back\<close>

lemma map_fst_known_json: "map fst (known_json p) = STATE_PAYLOAD_KNOWN_KEYS"
  by (simp add: known_json_def STATE_PAYLOAD_KNOWN_KEYS_def)

lemma distinct_known_keys: "distinct STATE_PAYLOAD_KNOWN_KEYS"
  by (simp add: STATE_PAYLOAD_KNOWN_KEYS_def)

lemma fst_known_json: "fst ` set (known_json p) = set STATE_PAYLOAD_KNOWN_KEYS"
  by (metis map_fst_known_json set_map)

lemma payload_json_append: "extra_wf (extra p) \<Longrightarrow> payload_json p = JObj (extra p @ known_json (known p))"
  unfolding payload_json_def
  by (subst js_spread_disjoint)
    (simp_all add: map_fst_known_json distinct_known_keys fst_known_json extra_wf_def)

lemma get_prop_known:
  assumes "extra_wf ex" and "k \<in> set STATE_PAYLOAD_KNOWN_KEYS"
  shows "get_prop k (ex @ known_json p) = get_prop k (known_json p)"
proof -
  have "map_of ex k = None" using assms by (auto simp: extra_wf_def map_of_eq_None_iff)
  then show ?thesis by (simp add: get_prop_def map_add_def)
qed

lemma parseIssuedAddress_json: "is_count (ia_index a) \<Longrightarrow> parseIssuedAddress (address_json a) = Inr a"
  by (simp add: parseIssuedAddress_def address_json_def pl_record_def get_prop_def)

lemma parseUnspentNote_json: "note_wf n \<Longrightarrow> parseUnspentNote (note_json n) = Inr n"
  by (simp add: parseUnspentNote_def note_json_def pl_record_def get_prop_def note_wf_def shaped_def)

lemma parseSyncCursor_json:
  "is_count (sc_block c) \<Longrightarrow> is_count (sc_logIndex c) \<Longrightarrow> parseSyncCursor (cursor_json c) = Inr c"
  by (simp add: parseSyncCursor_def cursor_json_def pl_record_def get_prop_def)

lemma parseCheckpoint_json: "is_count (nc_block c) \<Longrightarrow> parseCheckpoint (checkpoint_json c) = Inr c"
  by (simp add: parseCheckpoint_def checkpoint_json_def pl_record_def get_prop_def)

lemma parse_counter_entries_json:
  assumes "distinct (map fst (acc @ cs))" and "list_all (\<lambda>(k, n). COUNTER_SCOPE_SHAPE k \<and> is_count n) cs"
  shows "parse_counter_entries (map (\<lambda>(k, n). (k, num n)) cs) acc = Inr (acc @ cs)"
  using assms
proof (induction cs arbitrary: acc)
  case Nil
  then show ?case by simp
next
  case (Cons c cs)
  obtain k n where c: "c = (k, n)" by (cases c)
  have "k \<noteq> ''__proto__''" using Cons.prems c COUNTER_SCOPE_SHAPE_proto by auto
  moreover have "k \<notin> fst ` set acc" using Cons.prems c by auto
  ultimately have "js_assign k n acc = acc @ [(k, n)]" by (simp add: js_assign_def update_fresh)
  with Cons c show ?case by simp
qed

lemma parseEphemeralCounters_json: "counters_wf cs \<Longrightarrow> parseEphemeralCounters (counters_json cs) = Inr cs"
  using parse_counter_entries_json [of "[]" cs]
  by (simp add: parseEphemeralCounters_def counters_json_def counters_wf_def pl_record_def)

lemma extra_of_append:
  assumes "extra_wf ex"
  shows "extra_of (ex @ known_json p) = ex"
proof -
  let ?step = "\<lambda>(key, entry) ex. if key \<in> set STATE_PAYLOAD_KNOWN_KEYS then ex else js_assign key entry (ex :: (string \<times> jsval) list)"
  have "fold ?step ex acc = acc @ ex" if "distinct (map fst (acc @ ex))" for acc
    using that assms
  proof (induction ex arbitrary: acc)
    case Nil
    then show ?case by simp
  next
    case (Cons kv ex)
    obtain k v where kv: "kv = (k, v)" by (cases kv)
    have "?step kv acc = acc @ [kv]"
      using Cons.prems kv by (auto simp: extra_wf_def js_assign_def update_fresh)
    moreover have "extra_wf ex" using Cons.prems by (auto simp: extra_wf_def)
    ultimately show ?case using Cons by simp
  qed
  moreover have "fold ?step kvs acc = acc" if "fst ` set kvs \<subseteq> set STATE_PAYLOAD_KNOWN_KEYS" for kvs acc
    using that by (induction kvs arbitrary: acc) auto
  ultimately show ?thesis
    using assms by (simp add: extra_of_def fst_known_json extra_wf_def)
qed

lemma get_prop_known_json:
  "get_prop ''schema'' (known_json p) = num (sp_schema p)"
  "get_prop ''installId'' (known_json p) = JStr (sp_installId p)"
  "get_prop ''platform'' (known_json p) = JStr (sp_platform p)"
  "get_prop ''updatedAt'' (known_json p) = num (sp_updatedAt p)"
  "get_prop ''selfEphHighwater'' (known_json p) = num (sp_selfEphHighwater p)"
  "get_prop ''incomingIssueHighwater'' (known_json p) = num (sp_incomingIssueHighwater p)"
  "get_prop ''issuedAddresses'' (known_json p) = JArr (map address_json (sp_issuedAddresses p))"
  "get_prop ''unspentNotes'' (known_json p) = JArr (map note_json (sp_unspentNotes p))"
  "get_prop ''syncCursor'' (known_json p) = cursor_json (sp_syncCursor p)"
  "get_prop ''nullifierCheckedAt'' (known_json p) = checkpoint_json (sp_nullifierCheckedAt p)"
  "get_prop ''ephemeralCounters'' (known_json p) = counters_json (sp_ephemeralCounters p)"
  by (simp_all add: get_prop_def known_json_def)

lemma get_prop_payload:
  assumes "extra_wf ex"
  shows "get_prop ''schema'' (ex @ known_json p) = num (sp_schema p)"
    "get_prop ''installId'' (ex @ known_json p) = JStr (sp_installId p)"
    "get_prop ''platform'' (ex @ known_json p) = JStr (sp_platform p)"
    "get_prop ''updatedAt'' (ex @ known_json p) = num (sp_updatedAt p)"
    "get_prop ''selfEphHighwater'' (ex @ known_json p) = num (sp_selfEphHighwater p)"
    "get_prop ''incomingIssueHighwater'' (ex @ known_json p) = num (sp_incomingIssueHighwater p)"
    "get_prop ''issuedAddresses'' (ex @ known_json p) = JArr (map address_json (sp_issuedAddresses p))"
    "get_prop ''unspentNotes'' (ex @ known_json p) = JArr (map note_json (sp_unspentNotes p))"
    "get_prop ''syncCursor'' (ex @ known_json p) = cursor_json (sp_syncCursor p)"
    "get_prop ''nullifierCheckedAt'' (ex @ known_json p) = checkpoint_json (sp_nullifierCheckedAt p)"
    "get_prop ''ephemeralCounters'' (ex @ known_json p) = counters_json (sp_ephemeralCounters p)"
  by (subst get_prop_known [OF assms], simp add: STATE_PAYLOAD_KNOWN_KEYS_def, rule get_prop_known_json)+

lemma parseStatePayload_json:
  assumes "known_wf (known p)" and "extra_wf (extra p)"
  shows "parseStatePayload (payload_json p) = Inr p"
proof -
  have issued: "emap parseIssuedAddress (map address_json (sp_issuedAddresses (known p))) = Inr (sp_issuedAddresses (known p))"
    by (rule emap_map_Inr) (use assms in \<open>auto simp: known_wf_def list_all_iff parseIssuedAddress_json\<close>)
  have unspent: "emap parseUnspentNote (map note_json (sp_unspentNotes (known p))) = Inr (sp_unspentNotes (known p))"
    by (rule emap_map_Inr) (use assms in \<open>auto simp: known_wf_def list_all_iff parseUnspentNote_json\<close>)
  show ?thesis
    using assms(1) issued unspent
    by (simp add: parseStatePayload_def payload_json_append [OF assms(2)] pl_record_def pl_array_def
        get_prop_payload [OF assms(2)] known_wf_def shaped_def pl_platform_def parseSyncCursor_json
        parseCheckpoint_json parseEphemeralCounters_json extra_of_append [OF assms(2)])
qed

lemma json_plain_num: "json_plain (num n) \<longleftrightarrow> isSafeInteger n"
  by (simp add: num_def)

lemma is_count_safe: "is_count n \<Longrightarrow> isSafeInteger n"
  by (simp add: is_count_def)

lemma json_plains_map: "json_plains (map f xs) \<longleftrightarrow> (\<forall>x \<in> set xs. json_plain (f x))"
  by (induction xs) auto

lemma json_plain_members_append:
  "json_plain_members (xs @ ys) \<longleftrightarrow> json_plain_members xs \<and> json_plain_members ys"
  by (induction xs) auto

lemma json_plain_members_map:
  "json_plain_members (map (\<lambda>p. (fst p, num (snd p))) cs) \<longleftrightarrow> (\<forall>p \<in> set cs. isSafeInteger (snd p))"
  by (induction cs) (auto simp: json_plain_num)

lemma json_plain_counters: "counters_wf cs \<Longrightarrow> json_plain (counters_json cs)"
  by (auto simp: counters_wf_def counters_json_def json_plain_members_map list_all_iff comp_def
      case_prod_unfold is_count_safe)

lemma json_plain_known: "known_wf p \<Longrightarrow> json_plain_members (known_json p)"
  by (simp add: known_wf_def known_json_def json_plain_num is_count_safe json_plains_map list_all_iff
      address_json_def note_json_def note_wf_def cursor_json_def checkpoint_json_def json_plain_counters)

lemma json_plain_payload:
  assumes "payload_wf p"
  shows "json_plain (payload_json p)"
proof -
  have wf: "known_wf (known p)" "extra_wf (extra p)" "json_plain_members (extra p)"
    using assms by (simp_all add: payload_wf_def)
  moreover have "distinct (map fst (extra p @ known_json (known p)))"
    using wf(2) by (simp add: map_fst_known_json distinct_known_keys extra_wf_def fst_known_json)
  ultimately show ?thesis
    by (simp add: payload_json_append json_plain_members_append json_plain_known)
qed

lemma decode_serialize:
  assumes "payload_wf p"
  shows "decodeStatePayload (serializeStatePayload p) = Inr p"
  using assms
  by (simp add: decodeStatePayload_def serializeStatePayload_def json_parse_stringify json_plain_payload
      parseStatePayload_json payload_wf_def)

lemma emptyStatePayload_wf:
  "emptyStatePayload iid plat t = Inr p \<Longrightarrow> is_count t \<Longrightarrow> payload_wf p"
  by (auto simp: emptyStatePayload_def shaped_Inr pl_platform_Inr payload_wf_def known_wf_def extra_wf_def
      counters_wf_def PSS_SCHEMA_VERSION_def is_count_def isSafeInteger_def MAX_SAFE_INTEGER_def)

end
