(* ===== verification/Merge.thy ===== *)
theory Merge
  imports State_Payload "HOL-Library.Multiset"
begin

text \<open>
  Merging wallet states from several devices (\<^verbatim>\<open>state/merge.ts\<close>). High-water marks are shown never to
  regress and to take the union of the counter scopes, notes to be the conflict-free union, the cursor
  to come from complete note lists only, and the result to depend on the order of the inputs in no
  field that guards against reuse.
\<close>

record merge_input =
  mi_payload :: parsed_state_payload
  mi_noteListComplete :: bool

abbreviation mi_known :: "merge_input \<Rightarrow> pss_state_payload" where
  "mi_known i \<equiv> known (mi_payload i)"

definition cursorAtLeast :: "sync_cursor \<Rightarrow> sync_cursor \<Rightarrow> sync_cursor" where
  "cursorAtLeast a b =
     (if sc_block a \<noteq> sc_block b then (if sc_block a > sc_block b then a else b)
      else if sc_logIndex a \<ge> sc_logIndex b then a else b)"

definition mergeIssuedAddresses :: "merge_input list \<Rightarrow> issued_address list" where
  "mergeIssuedAddresses inputs =
     (let byIndex = fold (\<lambda>input m. fold (\<lambda>address. AList.update (ia_index address) address)
            (sp_issuedAddresses (mi_known input)) m) inputs []
      in sort_key ia_index (map snd byIndex))"

fun merge_notes :: "unspent_note list \<Rightarrow> (int \<times> unspent_note) list \<Rightarrow> (int \<times> unspent_note) list result" where
  "merge_notes [] byLeaf = Inr byLeaf"
| "merge_notes (note # rest) byLeaf =
     (case map_of byLeaf (un_leafIndex note) of
        None \<Rightarrow> merge_notes rest (AList.update (un_leafIndex note) note byLeaf)
      | Some seen \<Rightarrow>
          if un_assetId seen \<noteq> un_assetId note \<or> un_amount seen \<noteq> un_amount note \<or>
             un_nullifier seen \<noteq> un_nullifier note
          then Inl (PssStateError ''two payloads disagree about a leaf'')
          else merge_notes rest byLeaf)"

fun merge_note_inputs :: "merge_input list \<Rightarrow> (int \<times> unspent_note) list \<Rightarrow> (int \<times> unspent_note) list result" where
  "merge_note_inputs [] byLeaf = Inr byLeaf"
| "merge_note_inputs (input # rest) byLeaf =
     ebind (merge_notes (sp_unspentNotes (mi_known input)) byLeaf) (merge_note_inputs rest)"

definition mergeUnspentNotes :: "merge_input list \<Rightarrow> unspent_note list result" where
  "mergeUnspentNotes inputs =
     ebind (merge_note_inputs inputs []) (\<lambda>byLeaf. Inr (sort_key un_leafIndex (map snd byLeaf)))"

text \<open>\<^verbatim>\<open>merged[scope] ?? 0\<close>\<close>

definition counter_of :: "(string \<times> int) list \<Rightarrow> string \<Rightarrow> int" where
  "counter_of cs scope = (case map_of cs scope of None \<Rightarrow> 0 | Some n \<Rightarrow> n)"

definition merge_snapshot :: "(string \<times> int) list \<Rightarrow> (string \<times> int) list \<Rightarrow> (string \<times> int) list" where
  "merge_snapshot snapshot merged =
     fold (\<lambda>(scope, high) m. js_assign scope (max (counter_of m scope) high) m) snapshot merged"

definition mergeEphemeralCounterSnapshots :: "(string \<times> int) list list \<Rightarrow> (string \<times> int) list" where
  "mergeEphemeralCounterSnapshots snapshots = fold merge_snapshot snapshots []"

text \<open>\<^verbatim>\<open>reduce\<close> without an initial value; the list is not empty.\<close>

fun newest :: "merge_input list \<Rightarrow> merge_input" where
  "newest inputs =
     foldl (\<lambda>best input. if sp_updatedAt (mi_known input) > sp_updatedAt (mi_known best) then input else best)
       (hd inputs) (tl inputs)"

text \<open>\<^verbatim>\<open>Math.max(...xs)\<close> on a list that is not empty.\<close>

definition js_max :: "int list \<Rightarrow> int" where
  "js_max xs = fold max (tl xs) (hd xs)"

definition mergeStatePayloads :: "merge_input list \<Rightarrow> parsed_state_payload result" where
  "mergeStatePayloads inputs =
     (if inputs = [] then Inl (PssStateError ''merge needs at least one payload'')
      else
        let complete = filter mi_noteListComplete inputs;
            latest = newest inputs;
            cursor = fold (\<lambda>input c. cursorAtLeast c (sp_syncCursor (mi_known input))) complete
                       \<lparr>sc_block = 0, sc_logIndex = 0\<rparr>;
            checkedAt = fold (\<lambda>input b. max b (nc_block (sp_nullifierCheckedAt (mi_known input)))) complete 0;
            ext = fold (\<lambda>input ex. fold (\<lambda>(k, v). js_assign k v) (extra (mi_payload input)) ex)
                    (sort_key (\<lambda>input. sp_updatedAt (mi_known input)) inputs) []
        in ebind (mergeUnspentNotes inputs) (\<lambda>unspent.
             Inr \<lparr>known = \<lparr>
                    sp_schema = PSS_SCHEMA_VERSION,
                    sp_installId = sp_installId (mi_known latest),
                    sp_platform = sp_platform (mi_known latest),
                    sp_updatedAt = js_max (map (\<lambda>i. sp_updatedAt (mi_known i)) inputs),
                    sp_selfEphHighwater = js_max (map (\<lambda>i. sp_selfEphHighwater (mi_known i)) inputs),
                    sp_incomingIssueHighwater = js_max (map (\<lambda>i. sp_incomingIssueHighwater (mi_known i)) inputs),
                    sp_issuedAddresses = mergeIssuedAddresses inputs,
                    sp_unspentNotes = unspent,
                    sp_syncCursor = cursor,
                    sp_nullifierCheckedAt = \<lparr>nc_block = checkedAt\<rparr>,
                    sp_ephemeralCounters =
                      mergeEphemeralCounterSnapshots (map (\<lambda>i. sp_ephemeralCounters (mi_known i)) inputs)\<rparr>,
                  extra = ext\<rparr>))"

section \<open>Lemmas: counters\<close>

text \<open>Scopes that are ordinary property names.\<close>

definition scopes_plain :: "(string \<times> int) list \<Rightarrow> bool" where
  "scopes_plain cs \<longleftrightarrow> distinct (map fst cs) \<and> ''__proto__'' \<notin> fst ` set cs"

text \<open>What every snapshot the client holds satisfies, whatever its size: distinct well-shaped scopes, counts
  for marks.\<close>

definition counters_ok :: "(string \<times> int) list \<Rightarrow> bool" where
  "counters_ok cs \<longleftrightarrow> distinct (map fst cs) \<and> list_all (\<lambda>(k, n). COUNTER_SCOPE_SHAPE k \<and> is_count n) cs"

lemma counters_wf_iff: "counters_wf cs \<longleftrightarrow> counters_ok cs \<and> length cs \<le> MAX_COUNTER_SCOPES"
  by (auto simp: counters_wf_def counters_ok_def)

lemma counters_wf_ok: "counters_wf cs \<Longrightarrow> counters_ok cs"
  by (simp add: counters_wf_iff)

lemma counters_ok_plain: "counters_ok cs \<Longrightarrow> scopes_plain cs"
  using COUNTER_SCOPE_SHAPE_proto by (fastforce simp: counters_ok_def scopes_plain_def list_all_iff)

lemma merge_snapshot_map:
  assumes "scopes_plain snapshot"
  shows "map_of (merge_snapshot snapshot merged) k =
     (case map_of snapshot k of None \<Rightarrow> map_of merged k | Some h \<Rightarrow> Some (max (counter_of merged k) h))"
  using assms
proof (induction snapshot arbitrary: merged)
  case Nil
  then show ?case by (simp add: merge_snapshot_def)
next
  case (Cons p snapshot)
  obtain s h where p: "p = (s, h)" by (cases p)
  have plain: "scopes_plain snapshot" and s: "s \<noteq> ''__proto__''" and fresh: "map_of snapshot s = None"
    using Cons.prems by (auto simp: scopes_plain_def p map_of_eq_None_iff)
  have step: "merge_snapshot (p # snapshot) merged =
      merge_snapshot snapshot (AList.update s (max (counter_of merged s) h) merged)"
    using s by (simp add: merge_snapshot_def p js_assign_def)
  show ?case
    unfolding step Cons.IH [OF plain]
    using fresh by (auto simp: p counter_of_def split: option.splits)
qed

lemma counter_of_merge_snapshot:
  assumes "scopes_plain snapshot"
  shows "counter_of (merge_snapshot snapshot merged) k =
     (if k \<in> fst ` set snapshot then max (counter_of merged k) (counter_of snapshot k) else counter_of merged k)"
proof (cases "map_of snapshot k")
  case None
  then have "k \<notin> fst ` set snapshot" by (simp add: map_of_eq_None_iff)
  with None merge_snapshot_map [OF assms, of merged k] show ?thesis by (simp add: counter_of_def)
next
  case (Some h)
  then have "k \<in> fst ` set snapshot" by (force dest: map_of_SomeD)
  with Some merge_snapshot_map [OF assms, of merged k] show ?thesis by (simp add: counter_of_def [of _ k])
qed

lemma keys_merge_snapshot:
  assumes "scopes_plain snapshot"
  shows "fst ` set (merge_snapshot snapshot merged) = fst ` set merged \<union> fst ` set snapshot"
proof -
  have "k \<in> fst ` set (merge_snapshot snapshot merged) \<longleftrightarrow> k \<in> fst ` set merged \<or> k \<in> fst ` set snapshot" for k
    using merge_snapshot_map [OF assms, of merged k] map_of_eq_None_iff [of merged k]
      map_of_eq_None_iff [of snapshot k] map_of_eq_None_iff [of "merge_snapshot snapshot merged" k]
    by (auto split: option.splits)
  then show ?thesis by blast
qed

lemma distinct_merge_snapshot: "distinct (map fst merged) \<Longrightarrow> distinct (map fst (merge_snapshot snapshot merged))"
proof (induction snapshot arbitrary: merged)
  case Nil
  then show ?case by (simp add: merge_snapshot_def)
next
  case (Cons p snapshot)
  obtain s h where p: "p = (s, h)" by (cases p)
  have "merge_snapshot (p # snapshot) merged =
      merge_snapshot snapshot (js_assign s (max (counter_of merged s) h) merged)"
    by (simp add: merge_snapshot_def p)
  moreover have "distinct (map fst (js_assign s (max (counter_of merged s) h) merged))"
    using Cons.prems by (simp add: js_assign_def distinct_update)
  ultimately show ?case using Cons.IH by simp
qed

lemma merge_snapshots_fold:
  assumes "list_all scopes_plain ss" and "distinct (map fst m)"
  shows "fst ` set (fold merge_snapshot ss m) = fst ` set m \<union> (\<Union>s\<in>set ss. fst ` set s)"
    and "distinct (map fst (fold merge_snapshot ss m))"
  using assms
  by (induction ss arbitrary: m) (auto simp: keys_merge_snapshot distinct_merge_snapshot)

lemma merge_snapshots_ge:
  assumes "list_all scopes_plain ss"
  shows "counter_of m k \<le> counter_of (fold merge_snapshot ss m) k"
    and "s \<in> set ss \<Longrightarrow> k \<in> fst ` set s \<Longrightarrow> counter_of s k \<le> counter_of (fold merge_snapshot ss m) k"
  using assms
proof (induction ss arbitrary: m)
  case (Cons t ss)
  { case 1
    with Cons.IH(1) [of "merge_snapshot t m"] show ?case
      by (fastforce simp: counter_of_merge_snapshot split: if_splits)
  next
    case 2
    then have plain: "scopes_plain t" and rest: "list_all scopes_plain ss" by simp_all
    show ?case
    proof (cases "s = t")
      case True
      then have "counter_of s k \<le> counter_of (merge_snapshot t m) k"
        using 2(2) plain by (simp add: counter_of_merge_snapshot)
      also have "\<dots> \<le> counter_of (fold merge_snapshot ss (merge_snapshot t m)) k"
        by (rule Cons.IH(1) [OF rest])
      finally show ?thesis by simp
    next
      case False
      then show ?thesis using 2 Cons.IH(2) [OF _ _ rest] by simp
    qed }
qed simp_all

lemma merge_snapshots_attained:
  assumes "list_all scopes_plain ss"
  shows "counter_of (fold merge_snapshot ss m) k = counter_of m k \<or>
     (\<exists>s \<in> set ss. k \<in> fst ` set s \<and> counter_of (fold merge_snapshot ss m) k = counter_of s k)"
  using assms
proof (induction ss arbitrary: m)
  case (Cons t ss)
  then have plain: "scopes_plain t" and rest: "list_all scopes_plain ss" by simp_all
  from Cons.IH [OF rest, of "merge_snapshot t m"] plain show ?case
    by (auto simp: counter_of_merge_snapshot max_def split: if_splits)
qed simp

lemma counter_of_nonneg: "list_all (\<lambda>(k, n). 0 \<le> n) cs \<Longrightarrow> 0 \<le> counter_of cs k"
  by (auto simp: counter_of_def list_all_iff split: option.splits dest: map_of_SomeD)

lemma counters_ok_nonneg: "counters_ok cs \<Longrightarrow> 0 \<le> counter_of cs k"
  by (rule counter_of_nonneg) (auto simp: counters_ok_def list_all_iff is_count_def)

lemma counter_of_missing: "k \<notin> fst ` set cs \<Longrightarrow> counter_of cs k = 0"
  by (simp add: counter_of_def map_of_eq_None_iff [THEN iffD2])

lemma counters_ok_count: "counters_ok cs \<Longrightarrow> is_count (counter_of cs k)"
  by (fastforce simp: counter_of_def counters_ok_def list_all_iff is_count_def isSafeInteger_def MAX_SAFE_INTEGER_def
      split: option.splits dest!: map_of_SomeD)

text \<open>The merged high-water mark of every scope is the greatest of the inputs'.\<close>

lemma mergeCounters_ge:
  assumes "list_all counters_ok ss" and "s \<in> set ss"
  shows "counter_of s k \<le> counter_of (mergeEphemeralCounterSnapshots ss) k"
proof (cases "k \<in> fst ` set s")
  case True
  have "list_all scopes_plain ss" using assms(1) counters_ok_plain by (auto simp: list_all_iff)
  from merge_snapshots_ge(2) [OF this assms(2) True] show ?thesis
    by (simp add: mergeEphemeralCounterSnapshots_def)
next
  case False
  have plain: "list_all scopes_plain ss" using assms(1) counters_ok_plain by (auto simp: list_all_iff)
  have "counter_of ([] :: (string \<times> int) list) k = 0" by (simp add: counter_of_def)
  then have "0 \<le> counter_of (mergeEphemeralCounterSnapshots ss) k"
    using merge_snapshots_ge(1) [OF plain, of "[]" k] by (simp add: mergeEphemeralCounterSnapshots_def)
  with False show ?thesis by (simp add: counter_of_missing)
qed

lemma mergeCounters_attained:
  assumes "list_all counters_ok ss" and "ss \<noteq> []"
  shows "\<exists>s \<in> set ss. counter_of (mergeEphemeralCounterSnapshots ss) k = counter_of s k"
proof -
  have plain: "list_all scopes_plain ss" using assms(1) counters_ok_plain by (auto simp: list_all_iff)
  let ?m = "counter_of (mergeEphemeralCounterSnapshots ss) k"
  consider "?m = 0" | s where "s \<in> set ss" "?m = counter_of s k"
    using merge_snapshots_attained [OF plain, of "[]" k]
    by (auto simp: mergeEphemeralCounterSnapshots_def counter_of_def)
  then show ?thesis
  proof cases
    case 1
    obtain s where s: "s \<in> set ss" using assms(2) by (meson last_in_set)
    then have "counter_of s k \<le> 0" using mergeCounters_ge [OF assms(1) s, of k] 1 by simp
    moreover have "0 \<le> counter_of s k" using s assms(1) counters_ok_nonneg by (auto simp: list_all_iff)
    ultimately show ?thesis using 1 s by force
  qed auto
qed

lemma mergeCounters_keys:
  assumes "list_all counters_ok ss"
  shows "fst ` set (mergeEphemeralCounterSnapshots ss) = (\<Union>s\<in>set ss. fst ` set s)"
    and "distinct (map fst (mergeEphemeralCounterSnapshots ss))"
proof -
  have plain: "list_all scopes_plain ss" using assms(1) counters_ok_plain by (auto simp: list_all_iff)
  show "fst ` set (mergeEphemeralCounterSnapshots ss) = (\<Union>s\<in>set ss. fst ` set s)"
    and "distinct (map fst (mergeEphemeralCounterSnapshots ss))"
    using merge_snapshots_fold [OF plain, of "[]"] by (simp_all add: mergeEphemeralCounterSnapshots_def)
qed

lemma counter_of_in: "distinct (map fst cs) \<Longrightarrow> (k, n) \<in> set cs \<Longrightarrow> counter_of cs k = n"
  by (simp add: counter_of_def)

lemma mergeCounters_ok:
  assumes ok: "list_all counters_ok ss"
  shows "counters_ok (mergeEphemeralCounterSnapshots ss)"
proof -
  let ?m = "mergeEphemeralCounterSnapshots ss"
  note keys = mergeCounters_keys [OF ok]
  have "COUNTER_SCOPE_SHAPE k \<and> is_count n" if kn: "(k, n) \<in> set ?m" for k n
  proof -
    from kn keys(1) obtain s where s: "s \<in> set ss" "k \<in> fst ` set s" by force
    then have shape: "COUNTER_SCOPE_SHAPE k"
      using ok by (fastforce simp: list_all_iff counters_ok_def)
    from s(1) have "ss \<noteq> []" by auto
    from mergeCounters_attained [OF ok this, of k] obtain t where
      "t \<in> set ss" "counter_of ?m k = counter_of t k" by blast
    then have "is_count (counter_of ?m k)" using ok counters_ok_count by (simp add: list_all_iff)
    with shape counter_of_in [OF keys(2) kn] show ?thesis by simp
  qed
  then show ?thesis using keys(2) by (auto simp: counters_ok_def list_all_iff)
qed

text \<open>The merge is well formed exactly when the union of the scopes still fits.\<close>

lemma mergeCounters_wf:
  assumes ok: "list_all counters_ok ss"
  shows "counters_wf (mergeEphemeralCounterSnapshots ss) \<longleftrightarrow>
     card (\<Union>s\<in>set ss. fst ` set s) \<le> MAX_COUNTER_SCOPES"
proof -
  let ?m = "mergeEphemeralCounterSnapshots ss"
  note keys = mergeCounters_keys [OF ok]
  have "length ?m = card (\<Union>s\<in>set ss. fst ` set s)"
    using keys distinct_card [of "map fst ?m"] by simp
  then show ?thesis using mergeCounters_ok [OF ok] by (simp add: counters_wf_iff)
qed

section \<open>Lemmas: notes\<close>

definition note_map_ok :: "(int \<times> unspent_note) list \<Rightarrow> bool" where
  "note_map_ok m \<longleftrightarrow> distinct (map fst m) \<and> (\<forall>(l, n) \<in> set m. un_leafIndex n = l)"

lemma note_eqI:
  "un_leafIndex (a :: unspent_note) = un_leafIndex b \<Longrightarrow> un_assetId a = un_assetId b \<Longrightarrow>
   un_amount a = un_amount b \<Longrightarrow> un_nullifier a = un_nullifier b \<Longrightarrow> a = b"
  by (rule unspent_note.equality) simp_all

lemma merge_notes_step:
  assumes "note_map_ok m" and "merge_notes (note # rest) m = r"
  obtains "r = merge_notes rest m" and "note \<in> snd ` set m"
  | "un_leafIndex note \<notin> fst ` set m" and "r = merge_notes rest (m @ [(un_leafIndex note, note)])"
  | seen where "seen \<in> snd ` set m" and "un_leafIndex seen = un_leafIndex note" and "seen \<noteq> note"
      and "r = Inl (PssStateError ''two payloads disagree about a leaf'')"
proof (cases "map_of m (un_leafIndex note)")
  case None
  then have fresh: "un_leafIndex note \<notin> fst ` set m" by (simp add: map_of_eq_None_iff)
  show thesis by (rule that(2)) (use assms(2) None fresh in \<open>simp_all add: update_fresh\<close>)
next
  case (Some seen)
  then have mem: "(un_leafIndex note, seen) \<in> set m" by (rule map_of_SomeD)
  then have leaf: "un_leafIndex seen = un_leafIndex note" and seen: "seen \<in> snd ` set m"
    using assms(1) by (force simp: note_map_ok_def)+
  show thesis
  proof (cases "seen = note")
    case True
    then show ?thesis using that(1) assms(2) Some seen by simp
  next
    case False
    then have "un_assetId seen \<noteq> un_assetId note \<or> un_amount seen \<noteq> un_amount note \<or> un_nullifier seen \<noteq> un_nullifier note"
      using note_eqI [OF leaf] by blast
    then show ?thesis using that(3) assms(2) Some leaf False seen by simp
  qed
qed

lemma merge_notes_Inr:
  "note_map_ok m \<Longrightarrow> merge_notes ns m = Inr m' \<Longrightarrow>
   note_map_ok m' \<and> snd ` set m' = snd ` set m \<union> set ns"
proof (induction ns arbitrary: m)
  case (Cons n ns)
  from Cons.prems(1,2) show ?case
  proof (cases rule: merge_notes_step)
    case 1
    with Cons.IH [OF Cons.prems(1)] show ?thesis by auto
  next
    case 2
    have "note_map_ok (m @ [(un_leafIndex n, n)])" using Cons.prems(1) 2(1) by (auto simp: note_map_ok_def)
    from Cons.IH [OF this 2(2) [symmetric]] show ?thesis by auto
  qed simp
qed simp

text \<open>Two notes clash when they claim one leaf and differ.\<close>

definition clash_free :: "unspent_note set \<Rightarrow> bool" where
  "clash_free N \<longleftrightarrow> (\<forall>a \<in> N. \<forall>b \<in> N. un_leafIndex a = un_leafIndex b \<longrightarrow> a = b)"

lemma note_map_ok_clash_free: "note_map_ok m \<Longrightarrow> clash_free (snd ` set m)"
  unfolding note_map_ok_def clash_free_def by (fastforce dest: eq_key_imp_eq_value)

lemma merge_notes_Inl:
  "note_map_ok m \<Longrightarrow> merge_notes ns m = Inl e \<Longrightarrow> \<not> clash_free (snd ` set m \<union> set ns)"
proof (induction ns arbitrary: m)
  case (Cons n ns)
  from Cons.prems(1,2) show ?case
  proof (cases rule: merge_notes_step)
    case 1
    with Cons.IH [OF Cons.prems(1)] show ?thesis by (auto simp: clash_free_def)
  next
    case 2
    have "note_map_ok (m @ [(un_leafIndex n, n)])" using Cons.prems(1) 2(1) by (auto simp: note_map_ok_def)
    from Cons.IH [OF this 2(2) [symmetric]] show ?thesis by (simp add: clash_free_def)
  next
    case (3 seen)
    then show ?thesis by (auto simp: clash_free_def)
  qed
qed simp

abbreviation all_notes :: "merge_input list \<Rightarrow> unspent_note set" where
  "all_notes inputs \<equiv> (\<Union>i\<in>set inputs. set (sp_unspentNotes (mi_known i)))"

lemma merge_note_inputs_Inr:
  "note_map_ok m \<Longrightarrow> merge_note_inputs inputs m = Inr m' \<Longrightarrow>
   note_map_ok m' \<and> snd ` set m' = snd ` set m \<union> all_notes inputs"
proof (induction inputs arbitrary: m)
  case (Cons i inputs)
  then obtain m1 where m1: "merge_notes (sp_unspentNotes (mi_known i)) m = Inr m1"
    "merge_note_inputs inputs m1 = Inr m'" by auto
  from merge_notes_Inr [OF Cons.prems(1) m1(1)] Cons.IH [OF _ m1(2)] show ?case by auto
qed simp

lemma clash_free_mono: "clash_free N \<Longrightarrow> M \<subseteq> N \<Longrightarrow> clash_free M"
  unfolding clash_free_def by blast

lemma merge_note_inputs_Inl:
  "note_map_ok m \<Longrightarrow> merge_note_inputs inputs m = Inl e \<Longrightarrow> \<not> clash_free (snd ` set m \<union> all_notes inputs)"
proof (induction inputs arbitrary: m)
  case (Cons i inputs)
  show ?case
  proof (cases "merge_notes (sp_unspentNotes (mi_known i)) m")
    case (Inl e1)
    from merge_notes_Inl [OF Cons.prems(1) this] show ?thesis
      by (rule contrapos_nn) (erule clash_free_mono, auto)
  next
    case (Inr m1)
    with Cons.prems(2) have "merge_note_inputs inputs m1 = Inl e" by simp
    moreover note ok = merge_notes_Inr [OF Cons.prems(1) Inr]
    ultimately have "\<not> clash_free (snd ` set m1 \<union> all_notes inputs)" using Cons.IH by blast
    then show ?thesis by (rule contrapos_nn) (erule clash_free_mono, use ok in auto)
  qed
qed simp

lemma mergeUnspentNotes_Inr:
  assumes "mergeUnspentNotes inputs = Inr ns"
  shows "set ns = all_notes inputs" and "distinct (map un_leafIndex ns)" and "sorted (map un_leafIndex ns)"
    and "clash_free (all_notes inputs)"
proof -
  from assms obtain m where m: "merge_note_inputs inputs [] = Inr m"
    and ns: "ns = sort_key un_leafIndex (map snd m)" by (auto simp: mergeUnspentNotes_def)
  have "note_map_ok []" by (simp add: note_map_ok_def)
  from merge_note_inputs_Inr [OF this m] have ok: "note_map_ok m" and set: "snd ` set m = all_notes inputs"
    by simp_all
  show "set ns = all_notes inputs" using set by (simp add: ns)
  have keys: "map un_leafIndex (map snd m) = map fst m"
    using ok by (auto simp: note_map_ok_def)
  have "distinct (map un_leafIndex (map snd m))" unfolding keys using ok by (simp add: note_map_ok_def)
  then show "distinct (map un_leafIndex ns)"
    unfolding ns by (metis mset_map mset_sort mset_eq_imp_distinct_iff)
  show "sorted (map un_leafIndex ns)" by (simp add: ns)
  show "clash_free (all_notes inputs)" using note_map_ok_clash_free [OF ok] set by simp
qed

lemma mergeUnspentNotes_total: "(\<exists>ns. mergeUnspentNotes inputs = Inr ns) \<longleftrightarrow> clash_free (all_notes inputs)"
proof
  show "clash_free (all_notes inputs)" if "\<exists>ns. mergeUnspentNotes inputs = Inr ns"
    using that mergeUnspentNotes_Inr(4) by blast
  assume cf: "clash_free (all_notes inputs)"
  have "note_map_ok []" by (simp add: note_map_ok_def)
  from merge_note_inputs_Inl [OF this] cf have "merge_note_inputs inputs [] \<noteq> Inl e" for e by auto
  then show "\<exists>ns. mergeUnspentNotes inputs = Inr ns"
    by (cases "merge_note_inputs inputs []") (auto simp: mergeUnspentNotes_def)
qed

text \<open>A list sorted by an injective key is determined by its set.\<close>

lemma sorted_key_unique:
  assumes "sorted (map f xs)" "distinct (map f xs)" "sorted (map f ys)" "distinct (map f ys)" "set xs = set ys"
    and "inj_on f (set xs)"
  shows "xs = ys"
proof -
  have "map f xs = map f ys"
    by (rule sorted_distinct_set_unique [OF assms(1-4)]) (simp add: assms(5))
  then show ?thesis by (rule map_inj_on) (use assms(5,6) in simp)
qed

lemma mergeUnspentNotes_perm:
  assumes "mset inputs = mset inputs'"
  shows "mergeUnspentNotes inputs = mergeUnspentNotes inputs' \<or>
     (\<exists>e e'. mergeUnspentNotes inputs = Inl e \<and> mergeUnspentNotes inputs' = Inl e')"
proof -
  have set: "all_notes inputs = all_notes inputs'" using assms by (metis set_mset_mset)
  show ?thesis
  proof (cases "clash_free (all_notes inputs)")
    case True
    then obtain ns ns' where n: "mergeUnspentNotes inputs = Inr ns" and n': "mergeUnspentNotes inputs' = Inr ns'"
      using set mergeUnspentNotes_total by metis
    note A = mergeUnspentNotes_Inr [OF n] and B = mergeUnspentNotes_Inr [OF n']
    have "ns = ns'"
      by (rule sorted_key_unique [OF A(3,2) B(3,2)]) (use A(1,2) B(1) set in \<open>auto simp: distinct_map\<close>)
    with n n' show ?thesis by simp
  next
    case False
    then show ?thesis using mergeUnspentNotes_total set by (metis old.sum.exhaust)
  qed
qed

section \<open>Lemmas: addresses, cursor, high-water marks\<close>

lemma fold_addresses:
  fixes m :: "(int \<times> issued_address) list"
  shows "(\<forall>(i, a) \<in> set m. ia_index a = i) \<Longrightarrow> distinct (map fst m) \<Longrightarrow>
   (let m' = fold (\<lambda>address. AList.update (ia_index address) address) as m
    in (\<forall>(i, a) \<in> set m'. ia_index a = i) \<and> distinct (map fst m') \<and>
       snd ` set m' = snd ` set m \<union> set as)"
proof (induction as arbitrary: m)
  case (Cons a as)
  let ?m = "AList.update (ia_index a) a m"
  have ids: "\<And>x y :: issued_address. ia_index x = ia_index y \<Longrightarrow> x = y"
    by (rule issued_address.equality) simp_all
  have d: "distinct (map fst ?m)" using Cons.prems(2) by (rule distinct_update)
  have mem: "set ?m = insert (ia_index a, a) (set m)"
  proof (cases "ia_index a \<in> fst ` set m")
    case False
    then show ?thesis by (auto simp: update_fresh)
  next
    case True
    then obtain b where "(ia_index a, b) \<in> set m" by auto
    moreover from this have "b = a" using Cons.prems(1) ids [of b a] by fastforce
    ultimately have "(ia_index a, a) \<in> set m" by simp
    then have "AList.update (ia_index a) a m = m" using Cons.prems(2)
      by (induction m) (auto simp: image_iff)
    with \<open>(ia_index a, a) \<in> set m\<close> show ?thesis by auto
  qed
  have i: "\<forall>(i, x) \<in> set ?m. ia_index x = i" using Cons.prems(1) by (simp add: mem)
  show ?case using Cons.IH [OF i d] by (auto simp: mem Let_def)
qed (simp add: Let_def)

lemma cursorAtLeast_le:
  "sc_block a < sc_block (cursorAtLeast a b) \<or> sc_block a = sc_block (cursorAtLeast a b) \<and> sc_logIndex a \<le> sc_logIndex (cursorAtLeast a b)"
  "sc_block b < sc_block (cursorAtLeast a b) \<or> sc_block b = sc_block (cursorAtLeast a b) \<and> sc_logIndex b \<le> sc_logIndex (cursorAtLeast a b)"
  by (auto simp: cursorAtLeast_def)

definition cursor_le :: "sync_cursor \<Rightarrow> sync_cursor \<Rightarrow> bool" where
  "cursor_le a b \<longleftrightarrow> sc_block a < sc_block b \<or> sc_block a = sc_block b \<and> sc_logIndex a \<le> sc_logIndex b"

lemma cursor_le_refl: "cursor_le a a"
  by (simp add: cursor_le_def)

lemma cursor_le_trans: "cursor_le a b \<Longrightarrow> cursor_le b c \<Longrightarrow> cursor_le a c"
  by (auto simp: cursor_le_def)

lemma cursor_fold_ge:
  fixes "is" :: "merge_input list" and c0 :: sync_cursor
  shows "cursor_le c0 (fold (\<lambda>input c. cursorAtLeast c (sp_syncCursor (mi_known input))) is c0)"
  "i \<in> set is \<Longrightarrow> cursor_le (sp_syncCursor (mi_known i)) (fold (\<lambda>input c. cursorAtLeast c (sp_syncCursor (mi_known input))) is c0)"
proof (induction "is" arbitrary: c0)
  case (Cons j js)
  have up: "cursor_le c (cursorAtLeast c d)" "cursor_le d (cursorAtLeast c d)" for c d
    by (auto simp: cursor_le_def cursorAtLeast_def)
  { case 1
    show ?case unfolding fold.simps o_def by (rule cursor_le_trans [OF up(1) Cons.IH(1)])
  next
    case 2
    then show ?case using cursor_le_trans [OF up(2) Cons.IH(1)] Cons.IH(2) by auto }
qed (simp_all add: cursor_le_refl)

lemma cursor_fold_mem:
  "fold (\<lambda>input c. cursorAtLeast c (sp_syncCursor (mi_known input))) is c0 \<in> insert c0 ((\<lambda>i. sp_syncCursor (mi_known i)) ` set is)"
proof (induction "is" arbitrary: c0)
  case (Cons j js)
  have "cursorAtLeast c0 (sp_syncCursor (mi_known j)) \<in> {c0, sp_syncCursor (mi_known j)}"
    by (simp add: cursorAtLeast_def)
  then show ?case using Cons.IH [of "cursorAtLeast c0 (sp_syncCursor (mi_known j))"] by auto
qed simp

lemma fold_max_eq: "fold max xs (x :: int) = Max (insert x (set xs))"
proof (induction xs arbitrary: x)
  case (Cons a xs)
  have "Max (insert (max a x) (set xs)) = Max (insert x (insert a (set xs)))"
    by (cases "set xs = {}") (simp_all add: max.assoc max.commute max.left_commute)
  with Cons show ?case by simp
qed simp

lemma js_max_eq: "xs \<noteq> [] \<Longrightarrow> js_max xs = Max (set xs)"
  by (cases xs) (simp_all add: js_max_def fold_max_eq)

lemma js_max_ge: "x \<in> set xs \<Longrightarrow> x \<le> js_max xs"
  using js_max_eq [of xs] by (cases xs) auto

lemma js_max_in: "xs \<noteq> [] \<Longrightarrow> js_max xs \<in> set xs"
  by (simp add: js_max_eq)

lemma newest_in: "inputs \<noteq> [] \<Longrightarrow> newest inputs \<in> set inputs"
proof -
  have "foldl (\<lambda>best input. if sp_updatedAt (mi_known input) > sp_updatedAt (mi_known best) then input else best) b xs \<in> insert b (set xs)"
    for b xs by (induction xs arbitrary: b) auto
  then show "inputs \<noteq> [] \<Longrightarrow> newest inputs \<in> set inputs"
    by (cases inputs) auto
qed

lemma mergeStatePayloads_Inr:
  assumes "mergeStatePayloads inputs = Inr p"
  shows "inputs \<noteq> []" and "mergeUnspentNotes inputs = Inr (sp_unspentNotes (known p))"
    and "sp_ephemeralCounters (known p) =
           mergeEphemeralCounterSnapshots (map (\<lambda>i. sp_ephemeralCounters (mi_known i)) inputs)"
    and "sp_selfEphHighwater (known p) = js_max (map (\<lambda>i. sp_selfEphHighwater (mi_known i)) inputs)"
    and "sp_incomingIssueHighwater (known p) = js_max (map (\<lambda>i. sp_incomingIssueHighwater (mi_known i)) inputs)"
    and "sp_updatedAt (known p) = js_max (map (\<lambda>i. sp_updatedAt (mi_known i)) inputs)"
    and "sp_issuedAddresses (known p) = mergeIssuedAddresses inputs"
    and "sp_syncCursor (known p) = fold (\<lambda>input c. cursorAtLeast c (sp_syncCursor (mi_known input)))
           (filter mi_noteListComplete inputs) \<lparr>sc_block = 0, sc_logIndex = 0\<rparr>"
    and "sp_schema (known p) = PSS_SCHEMA_VERSION"
    and "sp_installId (known p) = sp_installId (mi_known (newest inputs))"
    and "sp_platform (known p) = sp_platform (mi_known (newest inputs))"
    and "nc_block (sp_nullifierCheckedAt (known p)) =
           fold (\<lambda>input b. max b (nc_block (sp_nullifierCheckedAt (mi_known input)))) (filter mi_noteListComplete inputs) 0"
  using assms by (auto simp: mergeStatePayloads_def Let_def simp del: newest.simps split: if_splits)

section \<open>Lemmas: the merge of well-formed payloads\<close>

lemma json_plain_members_iff: "json_plain_members kvs \<longleftrightarrow> (\<forall>kv \<in> set kvs. json_plain (snd kv))"
  by (induction kvs) auto

definition ext_ok :: "(string \<times> jsval) list \<Rightarrow> bool" where
  "ext_ok ex \<longleftrightarrow> extra_wf ex \<and> json_plain_members ex"

lemma ext_ok_assign:
  assumes "ext_ok ex" and "k \<notin> set STATE_PAYLOAD_KNOWN_KEYS" and "json_plain v"
  shows "ext_ok (js_assign k v ex)"
proof (cases "k = ''__proto__''")
  case True
  with assms show ?thesis by (simp add: js_assign_def)
next
  case False
  have "fst ` set (AList.update k v ex) = insert k (fst ` set ex)"
    by (simp add: dom_update)
  moreover have "json_plain_members (AList.update k v ex)"
    using assms set_update_subset [of k v ex] by (auto simp: ext_ok_def json_plain_members_iff)
  ultimately show ?thesis
    using assms False by (auto simp: ext_ok_def extra_wf_def js_assign_def distinct_update)
qed

lemma ext_ok_fold_assign: "ext_ok ex \<Longrightarrow> ext_ok add \<Longrightarrow> ext_ok (fold (\<lambda>(k, v). js_assign k v) add ex)"
proof -
  have "ext_ok ex \<Longrightarrow> \<forall>(k, v) \<in> set add. k \<notin> set STATE_PAYLOAD_KNOWN_KEYS \<and> json_plain v \<Longrightarrow>
      ext_ok (fold (\<lambda>(k, v). js_assign k v) add ex)" for add
    by (induction add arbitrary: ex) (auto intro: ext_ok_assign)
  moreover assume "ext_ok ex" and add: "ext_ok add"
  moreover have "\<forall>(k, v) \<in> set add. k \<notin> set STATE_PAYLOAD_KNOWN_KEYS \<and> json_plain v"
    using add by (force simp: ext_ok_def extra_wf_def json_plain_members_iff)
  ultimately show ?thesis by blast
qed

lemma ext_ok_merge:
  "ext_ok ex \<Longrightarrow> \<forall>i \<in> set is. ext_ok (extra (mi_payload i)) \<Longrightarrow>
   ext_ok (fold (\<lambda>input ex. fold (\<lambda>(k, v). js_assign k v) (extra (mi_payload input)) ex) is ex)"
  by (induction "is" arbitrary: ex) (auto intro: ext_ok_fold_assign)

lemma js_max_map_count: "inputs \<noteq> [] \<Longrightarrow> (\<And>i. i \<in> set inputs \<Longrightarrow> is_count (f i)) \<Longrightarrow> is_count (js_max (map f inputs))"
  using js_max_in [of "map f inputs"] by auto

lemma checked_fold_count:
  "is_count b \<Longrightarrow> (\<And>i. i \<in> set is \<Longrightarrow> is_count (nc_block (sp_nullifierCheckedAt (mi_known i)))) \<Longrightarrow>
   is_count (fold (\<lambda>input b. max b (nc_block (sp_nullifierCheckedAt (mi_known input)))) is b)"
  by (induction "is" arbitrary: b) (auto simp: max_def)

lemma mergeIssuedAddresses_set: "set (mergeIssuedAddresses inputs) = (\<Union>i\<in>set inputs. set (sp_issuedAddresses (mi_known i)))"
proof -
  let ?ok = "\<lambda>m :: (int \<times> issued_address) list. (\<forall>(i, a) \<in> set m. ia_index a = i) \<and> distinct (map fst m)"
  let ?F = "fold (\<lambda>input. fold (\<lambda>address. AList.update (ia_index address) address) (sp_issuedAddresses (mi_known input)))"
  have "snd ` set (?F inputs m) = snd ` set m \<union> (\<Union>i\<in>set inputs. set (sp_issuedAddresses (mi_known i)))"
    if "?ok m" for m
    using that
  proof (induction inputs arbitrary: m)
    case (Cons i inputs)
    from fold_addresses [of m "sp_issuedAddresses (mi_known i)"] Cons show ?case by (auto simp: Let_def)
  qed simp
  from this [of "[]"] show ?thesis by (simp add: mergeIssuedAddresses_def Let_def)
qed

lemma zero_count: "is_count 0"
  by (simp add: is_count_def isSafeInteger_def MAX_SAFE_INTEGER_def)

lemma schema_count: "is_count PSS_SCHEMA_VERSION"
  by (simp add: PSS_SCHEMA_VERSION_def is_count_def isSafeInteger_def MAX_SAFE_INTEGER_def)

text \<open>Merging well-formed payloads fails only on clashing notes, and what it returns is again well formed
  exactly when the union of the counter scopes is no larger than one payload may carry.\<close>

definition without_counters :: "parsed_state_payload \<Rightarrow> parsed_state_payload" where
  "without_counters p = p\<lparr>known := (known p)\<lparr>sp_ephemeralCounters := []\<rparr>\<rparr>"

lemma payload_wf_split: "payload_wf p \<longleftrightarrow> payload_wf (without_counters p) \<and> counters_wf (sp_ephemeralCounters (known p))"
  by (auto simp: payload_wf_def known_wf_def without_counters_def counters_wf_def)

lemma payload_wf_without: "payload_wf p \<Longrightarrow> payload_wf (without_counters p)"
  using payload_wf_split by blast

lemma mergeStatePayloads_rest:
  assumes wf: "\<And>i. i \<in> set inputs \<Longrightarrow> payload_wf (without_counters (mi_payload i))" and m: "mergeStatePayloads inputs = Inr p"
  shows "payload_wf (without_counters p)"
proof -
  note D = mergeStatePayloads_Inr [OF m]
  have kw: "known_wf ((mi_known i)\<lparr>sp_ephemeralCounters := []\<rparr>)" and xw: "ext_ok (extra (mi_payload i))"
    if "i \<in> set inputs" for i
    using wf [OF that] by (simp_all add: payload_wf_def ext_ok_def without_counters_def)
  have "ext_ok []" by (simp add: ext_ok_def extra_wf_def)
  then have "ext_ok (fold (\<lambda>input ex. fold (\<lambda>(k, v). js_assign k v) (extra (mi_payload input)) ex)
      (sort_key (\<lambda>input. sp_updatedAt (mi_known input)) inputs) [])"
    by (rule ext_ok_merge) (simp add: xw)
  moreover have "extra p = fold (\<lambda>input ex. fold (\<lambda>(k, v). js_assign k v) (extra (mi_payload input)) ex)
      (sort_key (\<lambda>input. sp_updatedAt (mi_known input)) inputs) []"
    using m by (auto simp: mergeStatePayloads_def Let_def split: if_splits)
  ultimately have ext: "extra_wf (extra p) \<and> json_plain_members (extra p)" by (simp add: ext_ok_def)
  have newest: "known_wf ((mi_known (newest inputs))\<lparr>sp_ephemeralCounters := []\<rparr>)" by (rule kw [OF newest_in [OF D(1)]])
  have hw: "is_count (sp_updatedAt (known p))" "is_count (sp_selfEphHighwater (known p))"
    "is_count (sp_incomingIssueHighwater (known p))"
    unfolding D(4-6) by (rule js_max_map_count [OF D(1)], use kw in \<open>simp add: known_wf_def\<close>)+
  have cur: "is_count (sc_block (sp_syncCursor (known p))) \<and> is_count (sc_logIndex (sp_syncCursor (known p)))"
    using cursor_fold_mem [of "filter mi_noteListComplete inputs" "\<lparr>sc_block = 0, sc_logIndex = 0\<rparr>"] kw
    unfolding D(8) by (auto simp: known_wf_def zero_count)
  have chk: "is_count (nc_block (sp_nullifierCheckedAt (known p)))"
    unfolding D(12) by (rule checked_fold_count [OF zero_count]) (use kw in \<open>simp add: known_wf_def\<close>)
  have ns: "list_all note_wf (sp_unspentNotes (known p))"
    using mergeUnspentNotes_Inr(1) [OF D(2)] kw by (auto simp: list_all_iff known_wf_def)
  have as: "list_all (\<lambda>a. is_count (ia_index a)) (sp_issuedAddresses (known p))"
    unfolding D(7) list_all_iff mergeIssuedAddresses_set using kw by (auto simp: list_all_iff known_wf_def)
  show ?thesis
    using ext hw cur chk ns as newest
    by (simp add: without_counters_def payload_wf_def known_wf_def D(9-11) schema_count counters_wf_def del: newest.simps)
qed

lemma mergeStatePayloads_wf:
  assumes wf: "\<And>i. i \<in> set inputs \<Longrightarrow> payload_wf (mi_payload i)" and m: "mergeStatePayloads inputs = Inr p"
  shows "payload_wf p \<longleftrightarrow> card (\<Union>i\<in>set inputs. fst ` set (sp_ephemeralCounters (mi_known i))) \<le> MAX_COUNTER_SCOPES"
proof -
  have "list_all counters_ok (map (\<lambda>i. sp_ephemeralCounters (mi_known i)) inputs)"
    using wf by (auto simp: list_all_iff payload_wf_def known_wf_def intro: counters_wf_ok)
  moreover have "payload_wf (without_counters p)"
    by (rule mergeStatePayloads_rest [OF _ m]) (use wf payload_wf_split in blast)
  ultimately show ?thesis
    unfolding payload_wf_split [of p] using mergeCounters_wf mergeStatePayloads_Inr(3) [OF m] by simp
qed

text \<open>A payload with too many scopes prints a text that does not decode.\<close>

lemma json_plain_counters_ok: "counters_ok cs \<Longrightarrow> json_plain (counters_json cs)"
  by (auto simp: counters_ok_def counters_json_def json_plain_members_map list_all_iff comp_def
      case_prod_unfold is_count_safe)

lemma decode_overflow:
  assumes "payload_wf (without_counters p)" and "counters_ok (sp_ephemeralCounters (known p))"
    and "length (sp_ephemeralCounters (known p)) > MAX_COUNTER_SCOPES"
  shows "\<exists>e. decodeStatePayload (serializeStatePayload p) = Inl e"
proof -
  have ex: "extra_wf (extra p)" "json_plain_members (extra p)" and kn: "known_wf (known (without_counters p))"
    using assms(1) by (simp_all add: payload_wf_def without_counters_def)
  have "json_plain_members (known_json (known p))"
    using json_plain_known [OF kn] json_plain_counters_ok [OF assms(2)]
    by (simp add: known_json_def without_counters_def)
  moreover have "distinct (map fst (extra p @ known_json (known p)))"
    using ex(1) by (simp add: map_fst_known_json distinct_known_keys extra_wf_def fst_known_json)
  ultimately have plain: "json_plain (payload_json p)"
    using ex by (simp add: payload_json_append json_plain_members_append)
  have "parseEphemeralCounters (counters_json (sp_ephemeralCounters (known p))) =
      Inl (PssStateError ''ephemeralCounters carries too many scopes'')"
    using assms(3) by (simp add: parseEphemeralCounters_def counters_json_def pl_record_def)
  then have "parseStatePayload (payload_json p) \<noteq> Inr q" for q
    by (auto simp: parseStatePayload_def payload_json_append [OF ex(1)] get_prop_payload [OF ex(1)] split: if_splits)
  then have "decodeStatePayload (serializeStatePayload p) \<noteq> Inr q" for q
    using plain by (simp add: decodeStatePayload_def serializeStatePayload_def json_parse_stringify)
  then show ?thesis by (metis old.sum.exhaust)
qed

end
