(* ===== verification/Floor.thy ===== *)
theory Floor
  imports State_Payload
begin

text \<open>
  The rollback floor (\<^verbatim>\<open>state/floor.ts\<close>): the highest version of each collection this install has
  accepted, kept as a decimal string in the embedder's key-value store. Reads fail closed on a corrupt
  entry, and no operation lowers a floor. The store is a map from keys to strings with the documented
  get-after-set behaviour; the promise lock is the sequencing of the operations, each of which runs to
  its end before the next starts.
\<close>

type_synonym pss_store = "string \<Rightarrow> string option"

definition store_set :: "string \<Rightarrow> string \<Rightarrow> pss_store \<Rightarrow> pss_store" where
  "store_set k v st = st(k := Some v)"

definition CANONICAL_DECIMAL :: "string \<Rightarrow> bool" where
  "CANONICAL_DECIMAL = canonical_decimal"

definition fl_validate :: "int \<Rightarrow> string \<Rightarrow> int result" where
  "fl_validate v label =
     (if \<not> isSafeInteger v \<or> v < 0 then Inl (PssStateError (label @ '' must be a non-negative safe integer''))
      else Inr v)"

definition fl_read :: "string \<Rightarrow> collection \<Rightarrow> pss_store \<Rightarrow> int result" where
  "fl_read acct c st =
     (case st (floorKey acct c) of
        None \<Rightarrow> Inr 0
      | Some raw \<Rightarrow>
          if \<not> CANONICAL_DECIMAL raw then Inl (PssStateError ''stored version floor is corrupt'')
          else
            let parsed = int (decimal_value raw)
            in if \<not> isSafeInteger parsed \<or> parsed < 0
               then Inl (PssStateError ''stored version floor is corrupt'')
               else Inr parsed)"

definition fl_write :: "string \<Rightarrow> collection \<Rightarrow> int \<Rightarrow> (pss_store, pss_error, unit) action" where
  "fl_write acct c version =
     sbind (slift (fl_validate version ''version'')) (\<lambda>v.
       smodify (store_set (floorKey acct c) (nat_to_string (nat v))))"

definition fl_current :: "string \<Rightarrow> collection \<Rightarrow> (pss_store, pss_error, int) action" where
  "fl_current acct c = sbind sget (\<lambda>st. slift (fl_read acct c st))"

definition fl_accept :: "string \<Rightarrow> collection \<Rightarrow> int \<Rightarrow> (pss_store, pss_error, int) action" where
  "fl_accept acct c version =
     sbind sget (\<lambda>st.
     sbind (slift (fl_read acct c st)) (\<lambda>floor.
     if version < floor then sthrow (PssRollbackError (collection_name c) floor version)
     else sbind (if version > floor then fl_write acct c version else sret ()) (\<lambda>_. sret version)))"

definition fl_bootstrap :: "string \<Rightarrow> collection \<Rightarrow> int \<Rightarrow> (pss_store, pss_error, int) action" where
  "fl_bootstrap acct c chainFloor =
     sbind sget (\<lambda>st.
     sbind (slift (fl_read acct c st)) (\<lambda>floor.
     sbind (slift (fl_validate chainFloor ''chainFloor'')) (\<lambda>cf.
       let raised = max floor cf
       in sbind (if raised > floor then fl_write acct c raised else sret ()) (\<lambda>_. sret raised))))"

section \<open>The contract of a version floor\<close>

text \<open>What the sync engine relies on: accepting raises the floor to the accepted version or refuses and
  leaves it, no operation lowers the floor of any collection.\<close>

datatype floor_op = Accept collection int | Bootstrap collection int

locale version_floor =
  fixes cur :: "collection \<Rightarrow> 's \<Rightarrow> int result"
    and acc :: "collection \<Rightarrow> int \<Rightarrow> ('s, pss_error, int) action"
    and boot :: "collection \<Rightarrow> int \<Rightarrow> ('s, pss_error, int) action"
  assumes acc_frame: "c \<noteq> d \<Longrightarrow> cur d (snd (acc c v s)) = cur d s"
    and boot_frame: "c \<noteq> d \<Longrightarrow> cur d (snd (boot c v s)) = cur d s"
    and acc_effect: "cur c s = Inr f \<Longrightarrow> is_count v \<Longrightarrow> f \<le> v \<Longrightarrow>
          fst (acc c v s) = Inr v \<and> cur c (snd (acc c v s)) = Inr v"
    and acc_stale: "cur c s = Inr f \<Longrightarrow> v < f \<Longrightarrow> acc c v s = (Inl (PssRollbackError (collection_name c) f v), s)"
    and acc_bad: "cur c s = Inr f \<Longrightarrow> \<not> is_count v \<Longrightarrow> snd (acc c v s) = s \<and> (\<exists>e. fst (acc c v s) = Inl e)"
    and boot_effect: "cur c s = Inr f \<Longrightarrow> is_count v \<Longrightarrow>
          fst (boot c v s) = Inr (max f v) \<and> cur c (snd (boot c v s)) = Inr (max f v)"
    and boot_bad: "cur c s = Inr f \<Longrightarrow> \<not> is_count v \<Longrightarrow> snd (boot c v s) = s"
begin

lemma acc_floor: "cur c s = Inr f \<Longrightarrow> \<exists>f'. cur c (snd (acc c v s)) = Inr f' \<and> f \<le> f'"
  by (metis acc_bad acc_effect acc_stale not_le order_refl snd_conv)

lemma boot_floor: "cur c s = Inr f \<Longrightarrow> \<exists>f'. cur c (snd (boot c v s)) = Inr f' \<and> f \<le> f'"
  by (metis boot_bad boot_effect max.cobounded1 order_refl)

lemma acc_mono: "cur c s = Inr f \<Longrightarrow> \<exists>f'. cur c (snd (acc d v s)) = Inr f' \<and> f \<le> f'"
  by (cases "c = d") (use acc_floor acc_frame in auto)

lemma boot_mono: "cur c s = Inr f \<Longrightarrow> \<exists>f'. cur c (snd (boot d v s)) = Inr f' \<and> f \<le> f'"
  by (cases "c = d") (use boot_floor boot_frame in auto)

lemma acc_returns: "cur c s = Inr f \<Longrightarrow> acc c v s = (Inr w, t) \<Longrightarrow> w = v \<and> f \<le> v \<and> is_count v \<and> cur c t = Inr v"
  by (metis acc_bad acc_effect acc_stale Inl_Inr_False Inr_inject fst_conv not_le snd_conv)

definition run_op :: "floor_op \<Rightarrow> 's \<Rightarrow> 's" where
  "run_op p s = (case p of Accept c v \<Rightarrow> snd (acc c v s) | Bootstrap c v \<Rightarrow> snd (boot c v s))"

lemma run_mono: "cur c s = Inr f \<Longrightarrow> \<exists>f'. cur c (fold run_op ops s) = Inr f' \<and> f \<le> f'"
proof (induction ops arbitrary: s f)
  case Nil
  then show ?case by simp
next
  case (Cons p ops)
  have "\<exists>f1. cur c (run_op p s) = Inr f1 \<and> f \<le> f1"
    using Cons.prems by (cases p) (simp_all add: run_op_def acc_mono boot_mono)
  then obtain f1 where f1: "cur c (run_op p s) = Inr f1" "f \<le> f1" by blast
  obtain f2 where "cur c (fold run_op ops (run_op p s)) = Inr f2" "f1 \<le> f2"
    using Cons.IH [OF f1(1)] by blast
  with f1(2) show ?case by auto
qed

end

section \<open>Lemmas\<close>

lemma collection_name_append_inject: "acct @ ''.'' @ collection_name c = acct @ ''.'' @ collection_name d \<longleftrightarrow> c = d"
  by simp

lemma floorKey_inject [simp]: "floorKey acct c = floorKey acct d \<longleftrightarrow> c = d"
  by (simp add: floorKey_def)

lemma fl_validate_Inr [simp]: "fl_validate v label = Inr w \<longleftrightarrow> is_count v \<and> w = v"
  by (auto simp: fl_validate_def is_count_def)

lemma fl_validate_count: "is_count v \<Longrightarrow> fl_validate v label = Inr v"
  by simp

lemma fl_validate_if:
  "fl_validate v label =
     (if is_count v then Inr v else Inl (PssStateError (label @ '' must be a non-negative safe integer'')))"
  by (auto simp: fl_validate_def is_count_def)

lemma fl_validate_bad: "\<not> is_count v \<Longrightarrow> \<exists>e. fl_validate v label = Inl e"
  by (auto simp: fl_validate_def is_count_def)

lemma fl_read_count: "fl_read acct c st = Inr f \<Longrightarrow> is_count f"
  by (auto simp: fl_read_def Let_def is_count_def isSafeInteger_def MAX_SAFE_INTEGER_def
      split: option.splits if_splits)

lemma fl_read_set:
  "is_count v \<Longrightarrow> fl_read acct c (store_set (floorKey acct d) (nat_to_string (nat v)) st) =
     (if c = d then Inr v else fl_read acct c st)"
  by (auto simp: fl_read_def store_set_def Let_def CANONICAL_DECIMAL_def canonical_decimal_nat_to_string
      decimal_value_nat_to_string is_count_def)

lemma fl_accept_run:
  "fl_accept acct c v st =
     (case fl_read acct c st of
        Inl e \<Rightarrow> (Inl e, st)
      | Inr f \<Rightarrow>
          if v < f then (Inl (PssRollbackError (collection_name c) f v), st)
          else if v = f then (Inr v, st)
          else case fl_validate v ''version'' of
                 Inl e \<Rightarrow> (Inl e, st)
               | Inr w \<Rightarrow> (Inr v, store_set (floorKey acct c) (nat_to_string (nat v)) st))"
  by (auto simp: fl_accept_def fl_write_def sbind_def sget_def slift_def sthrow_def sret_def smodify_def
      fl_validate_if split: sum.splits)

lemma fl_bootstrap_run:
  "fl_bootstrap acct c v st =
     (case fl_read acct c st of
        Inl e \<Rightarrow> (Inl e, st)
      | Inr f \<Rightarrow>
          (case fl_validate v ''chainFloor'' of
             Inl e \<Rightarrow> (Inl e, st)
           | Inr w \<Rightarrow>
               if v > f then (Inr v, store_set (floorKey acct c) (nat_to_string (nat v)) st)
               else (Inr f, st)))"
  by (auto simp: fl_bootstrap_def fl_write_def sbind_def sget_def slift_def sthrow_def sret_def smodify_def
      Let_def max_def fl_validate_if split: sum.splits)

lemma fl_accept_frame: "c \<noteq> d \<Longrightarrow> fl_read acct d (snd (fl_accept acct c v st)) = fl_read acct d st"
  by (auto simp: fl_accept_run fl_read_set split: sum.splits)

lemma fl_bootstrap_frame: "c \<noteq> d \<Longrightarrow> fl_read acct d (snd (fl_bootstrap acct c v st)) = fl_read acct d st"
  by (auto simp: fl_bootstrap_run fl_read_set split: sum.splits)

interpretation vf: version_floor "fl_read acct" "fl_accept acct" "fl_bootstrap acct" for acct
proof unfold_locales
  fix c d :: collection and v f :: int and s :: pss_store
  show "fl_read acct d (snd (fl_accept acct c v s)) = fl_read acct d s" if "c \<noteq> d"
    using that by (rule fl_accept_frame)
  show "fl_read acct d (snd (fl_bootstrap acct c v s)) = fl_read acct d s" if "c \<noteq> d"
    using that by (rule fl_bootstrap_frame)
  show "fst (fl_accept acct c v s) = Inr v \<and> fl_read acct c (snd (fl_accept acct c v s)) = Inr v"
    if "fl_read acct c s = Inr f" "is_count v" "f \<le> v"
    using that by (simp add: fl_accept_run fl_validate_count fl_read_set)
  show "fl_accept acct c v s = (Inl (PssRollbackError (collection_name c) f v), s)"
    if "fl_read acct c s = Inr f" "v < f"
    using that by (simp add: fl_accept_run)
  show "snd (fl_accept acct c v s) = s \<and> (\<exists>e. fst (fl_accept acct c v s) = Inl e)"
    if "fl_read acct c s = Inr f" "\<not> is_count v"
    using that fl_validate_bad [OF that(2), of "''version''"] fl_read_count [OF that(1)]
    by (auto simp: fl_accept_run)
  show "fst (fl_bootstrap acct c v s) = Inr (max f v) \<and> fl_read acct c (snd (fl_bootstrap acct c v s)) = Inr (max f v)"
    if "fl_read acct c s = Inr f" "is_count v"
    using that by (simp add: fl_bootstrap_run fl_validate_count fl_read_set max_def)
  show "snd (fl_bootstrap acct c v s) = s" if "fl_read acct c s = Inr f" "\<not> is_count v"
    using that fl_validate_bad [OF that(2), of "''chainFloor''"] by (auto simp: fl_bootstrap_run)
qed

text \<open>A corrupt entry fails closed: nothing is read from it and no operation overwrites it.\<close>

lemma fl_corrupt:
  assumes "fl_read acct c st = Inl e"
  shows "fl_accept acct c v st = (Inl e, st)" and "fl_bootstrap acct c v st = (Inl e, st)"
  using assms by (simp_all add: fl_accept_run fl_bootstrap_run)

end
