(* ===== verification/Takeover.thy ===== *)
theory Takeover
  imports Floor
begin

text \<open>
  One writer per account, by takeover rather than by lock (\<^verbatim>\<open>state/takeover.ts\<close>). The guard is shown to
  promote this install over another holder only on a confirmation recorded for that very holder, to
  drop the grant as soon as the blob names anyone else, and to stamp nothing while demoted.
\<close>

datatype write_mode = writer | readonly

record install_identity =
  id_installId :: string
  id_platform :: string

record takeover_decision =
  td_mode :: write_mode
  td_heldBy :: "install_identity option"

record install_guard =
  ig_identity :: install_identity
  ig_confirmedAgainst :: "string option"

definition newInstallId :: "bytes \<Rightarrow> string" where
  "newInstallId randomBytes = toHex randomBytes"

definition new_InstallGuard :: "install_identity \<Rightarrow> install_guard result" where
  "new_InstallGuard identity =
     (if \<not> INSTALL_ID_SHAPE (id_installId identity)
      then Inl (PssStateError ''installId must be 0x-prefixed lowercase hex'')
      else if length (id_platform identity) > PLATFORM_MAX_CHARS
      then Inl (PssStateError ''platform is too long'')
      else Inr \<lparr>ig_identity = identity, ig_confirmedAgainst = None\<rparr>)"

definition evaluate :: "pss_state_payload option \<Rightarrow> install_guard \<Rightarrow> takeover_decision \<times> install_guard" where
  "evaluate remote g =
     (case remote of
        None \<Rightarrow> (\<lparr>td_mode = writer, td_heldBy = None\<rparr>, g)
      | Some r \<Rightarrow>
          if sp_installId r = id_installId (ig_identity g)
          then (\<lparr>td_mode = writer, td_heldBy = None\<rparr>, g\<lparr>ig_confirmedAgainst := None\<rparr>)
          else if Some (sp_installId r) = ig_confirmedAgainst g
          then (\<lparr>td_mode = writer, td_heldBy = None\<rparr>, g)
          else (\<lparr>td_mode = readonly,
                 td_heldBy = Some \<lparr>id_installId = sp_installId r, id_platform = sp_platform r\<rparr>\<rparr>,
                g\<lparr>ig_confirmedAgainst := None\<rparr>))"

text \<open>The floors of every collection are raised before the grant is recorded; a throw on the way leaves
  the grant as it was.\<close>

fun bootstrap_all ::
  "string \<Rightarrow> collection list \<Rightarrow> (collection \<Rightarrow> int) \<Rightarrow> (pss_store, pss_error, unit) action" where
  "bootstrap_all acct [] chainFloors = sret ()"
| "bootstrap_all acct (c # cs) chainFloors =
     sbind (fl_bootstrap acct c (chainFloors c)) (\<lambda>_. bootstrap_all acct cs chainFloors)"

definition guard_confirmTakeover ::
  "string \<Rightarrow> pss_state_payload \<Rightarrow> (collection \<Rightarrow> int) \<Rightarrow> install_guard \<Rightarrow> pss_store \<Rightarrow>
   (pss_error + unit) \<times> install_guard \<times> pss_store" where
  "guard_confirmTakeover acct remote chainFloors g st =
     (case bootstrap_all acct COLLECTIONS chainFloors st of
        (Inl e, st') \<Rightarrow> (Inl e, g, st')
      | (Inr _, st') \<Rightarrow> (Inr (), g\<lparr>ig_confirmedAgainst := Some (sp_installId remote)\<rparr>, st'))"

definition stamp ::
  "parsed_state_payload \<Rightarrow> pss_state_payload option \<Rightarrow> int \<Rightarrow> install_guard \<Rightarrow>
   parsed_state_payload result \<times> install_guard" where
  "stamp payload remote updatedAt g =
     (let (decision, g') = evaluate remote g
      in if td_mode decision \<noteq> writer then (Inl (PssStateError ''this install is read-only''), g')
         else (Inr \<lparr>known = (known payload)\<lparr>sp_installId := id_installId (ig_identity g),
                      sp_platform := id_platform (ig_identity g), sp_updatedAt := updatedAt\<rparr>,
                    extra = extra payload\<rparr>, g'))"

section \<open>The guard as a state machine\<close>

text \<open>What is done with a guard, most recent first: it was shown a remote payload (by \<open>evaluate\<close> or by
  \<open>stamp\<close>), or the user's confirmation of a takeover was carried out, or it failed on the way.\<close>

datatype guard_entry = Shown "pss_state_payload option" | Confirmed pss_state_payload | Failed pss_state_payload

text \<open>The guards that calls of its methods reach from its construction. The store belongs to the whole engine, so
  between two calls it may be any other.\<close>

inductive guard_reach :: "string \<Rightarrow> install_identity \<Rightarrow> guard_entry list \<Rightarrow> install_guard \<Rightarrow> pss_store \<Rightarrow> bool"
  for acct identity where
  start: "new_InstallGuard identity = Inr g \<Longrightarrow> guard_reach acct identity [] g st"
| store: "guard_reach acct identity es g st \<Longrightarrow> guard_reach acct identity es g st'"
| evaluated: "guard_reach acct identity es g st \<Longrightarrow> evaluate remote g = (decision, g') \<Longrightarrow>
    guard_reach acct identity (Shown remote # es) g' st"
| stamped: "guard_reach acct identity es g st \<Longrightarrow> stamp p remote t g = (res, g') \<Longrightarrow>
    guard_reach acct identity (Shown remote # es) g' st"
| confirmed: "guard_reach acct identity es g st \<Longrightarrow> guard_confirmTakeover acct remote floors g st = (Inr (), g', st') \<Longrightarrow>
    guard_reach acct identity (Confirmed remote # es) g' st'"
| failed: "guard_reach acct identity es g st \<Longrightarrow> guard_confirmTakeover acct remote floors g st = (Inl e, g', st') \<Longrightarrow>
    guard_reach acct identity (Failed remote # es) g' st'"

text \<open>The last takeover carried out was against \<open>h\<close>, and nothing but \<open>h\<close>'s own payloads (or none) was shown
  since.\<close>

fun granted :: "string \<Rightarrow> guard_entry list \<Rightarrow> bool" where
  "granted h [] = False"
| "granted h (Confirmed r # es) = (sp_installId r = h)"
| "granted h (Failed r # es) = granted h es"
| "granted h (Shown None # es) = granted h es"
| "granted h (Shown (Some r) # es) = (sp_installId r = h \<and> granted h es)"

section \<open>Lemmas\<close>

lemma evaluate_identity [simp]: "ig_identity (snd (evaluate remote g)) = ig_identity g"
  by (simp add: evaluate_def split: option.splits)

lemma stamp_guard: "snd (stamp p remote t g) = snd (evaluate remote g)"
  by (cases "evaluate remote g") (simp add: stamp_def)

lemma guard_confirmTakeover_guard:
  "guard_confirmTakeover acct remote floors g st = (res, g', st') \<Longrightarrow>
    g' = (if res = Inr () then g\<lparr>ig_confirmedAgainst := Some (sp_installId remote)\<rparr> else g)"
  by (auto simp: guard_confirmTakeover_def split: prod.splits sum.splits)

lemma evaluate_writer_iff:
  "td_mode (fst (evaluate remote g)) = writer \<longleftrightarrow>
     (case remote of None \<Rightarrow> True
      | Some r \<Rightarrow> sp_installId r = id_installId (ig_identity g) \<or> ig_confirmedAgainst g = Some (sp_installId r))"
  by (auto simp: evaluate_def split: option.splits)

lemma guard_reach_identity: "guard_reach acct identity es g st \<Longrightarrow> ig_identity g = identity"
proof (induction rule: guard_reach.induct)
  case (evaluated es g st remote decision g')
  then show ?case using evaluate_identity[of remote g] by simp
next
  case (stamped es g st p remote t res g')
  then show ?case using stamp_guard[of p remote t g] evaluate_identity[of remote g] by simp
next
  case (confirmed es g st remote floors g' st')
  then show ?case using guard_confirmTakeover_guard[OF confirmed.hyps(2)] by simp
next
  case (failed es g st remote floors e g' st')
  then show ?case using guard_confirmTakeover_guard[OF failed.hyps(2)] by simp
qed (auto simp: new_InstallGuard_def split: if_splits)

text \<open>The grant against another install stands exactly when it was given and not lost.\<close>

lemma evaluate_grant:
  "h \<noteq> id_installId (ig_identity g) \<Longrightarrow> ig_confirmedAgainst (snd (evaluate remote g)) = Some h \<longleftrightarrow>
    (case remote of None \<Rightarrow> True | Some r \<Rightarrow> sp_installId r = h) \<and> ig_confirmedAgainst g = Some h"
  by (auto simp: evaluate_def split: option.splits)

lemma granted_Shown:
  "granted h (Shown remote # es) \<longleftrightarrow> (case remote of None \<Rightarrow> True | Some r \<Rightarrow> sp_installId r = h) \<and> granted h es"
  by (cases remote) simp_all

lemma guard_reach_grant:
  "guard_reach acct identity es g st \<Longrightarrow> h \<noteq> id_installId identity \<Longrightarrow> ig_confirmedAgainst g = Some h \<longleftrightarrow> granted h es"
proof (induction rule: guard_reach.induct)
  case (evaluated es g st remote decision g')
  then show ?case
    using evaluate_grant[of h g remote] guard_reach_identity[OF evaluated.hyps(1)] by (simp add: granted_Shown)
next
  case (stamped es g st p remote t res g')
  then show ?case
    using evaluate_grant[of h g remote] guard_reach_identity[OF stamped.hyps(1)] stamp_guard[of p remote t g]
    by (simp add: granted_Shown)
next
  case (confirmed es g st remote floors g' st')
  then show ?case using guard_confirmTakeover_guard[OF confirmed.hyps(2)] by simp
next
  case (failed es g st remote floors e g' st')
  then show ?case using guard_confirmTakeover_guard[OF failed.hyps(2)] by simp
qed (auto simp: new_InstallGuard_def split: if_splits)

lemma stamp_Inr:
  "stamp p remote t g = (Inr q, g') \<longleftrightarrow>
     td_mode (fst (evaluate remote g)) = writer \<and> g' = snd (evaluate remote g) \<and>
     q = \<lparr>known = (known p)\<lparr>sp_installId := id_installId (ig_identity g),
            sp_platform := id_platform (ig_identity g), sp_updatedAt := t\<rparr>, extra = extra p\<rparr>"
  by (auto simp: stamp_def Let_def split: prod.splits)

lemma stamp_Inl:
  "td_mode (fst (evaluate remote g)) = readonly \<Longrightarrow>
   stamp p remote t g = (Inl (PssStateError ''this install is read-only''), snd (evaluate remote g))"
  by (cases "evaluate remote g") (simp add: stamp_def)

lemma write_mode_cases: "m \<noteq> writer \<longleftrightarrow> m = readonly"
  by (cases m) simp_all

lemma stamp_wf: "payload_wf p \<Longrightarrow> INSTALL_ID_SHAPE (id_installId (ig_identity g)) \<Longrightarrow>
    length (id_platform (ig_identity g)) \<le> PLATFORM_MAX_CHARS \<Longrightarrow> is_count t \<Longrightarrow>
    stamp p remote t g = (Inr q, g') \<Longrightarrow> payload_wf q"
  by (auto simp: stamp_Inr payload_wf_def known_wf_def)

lemma bootstrap_all_mono:
  "fl_read acct c st = Inr f \<Longrightarrow> \<exists>f'. fl_read acct c (snd (bootstrap_all acct cs chainFloors st)) = Inr f' \<and> f \<le> f'"
proof (induction cs arbitrary: st f)
  case Nil
  then show ?case by (simp add: sret_def)
next
  case (Cons d cs)
  obtain f1 where f1: "fl_read acct c (snd (fl_bootstrap acct d (chainFloors d) st)) = Inr f1" "f \<le> f1"
    using vf.boot_mono [OF Cons.prems] by blast
  show ?case
  proof (cases "fl_bootstrap acct d (chainFloors d) st")
    case (Pair r st')
    then show ?thesis
      using f1 Cons.IH [of st' f1] by (cases r) (auto simp: sbind_def intro: order_trans)
  qed
qed

lemma confirmTakeover_floors:
  assumes "guard_confirmTakeover acct remote chainFloors g st = (Inr (), g', st')" and "fl_read acct c st = Inr f"
  shows "fl_read acct c st' = Inr (max f (chainFloors c))"
    and "ig_confirmedAgainst g' = Some (sp_installId remote)"
proof -
  from assms(1) have b: "bootstrap_all acct COLLECTIONS chainFloors st = (Inr (), st')"
    and g: "g' = g\<lparr>ig_confirmedAgainst := Some (sp_installId remote)\<rparr>"
    by (auto simp: guard_confirmTakeover_def split: prod.splits sum.splits)
  show "ig_confirmedAgainst g' = Some (sp_installId remote)" using g by simp
  have one: "fl_bootstrap acct d v s = (Inr w, s') \<Longrightarrow> fl_read acct c s = Inr f \<Longrightarrow>
      fl_read acct c s' = Inr (if c = d then max f v else f)" for d v s s' w f
    by (auto simp: fl_bootstrap_run fl_read_set max_def split: sum.splits if_splits)
  from b obtain s1 w1 w2 where
    s1: "fl_bootstrap acct State (chainFloors State) st = (Inr w1, s1)"
    and s2: "fl_bootstrap acct Labels (chainFloors Labels) s1 = (Inr w2, st')"
    by (auto simp: COLLECTIONS_def sbind_Inr_iff sret_def)
  show "fl_read acct c st' = Inr (max f (chainFloors c))"
    using one [OF s2 one [OF s1 assms(2)]] by (cases c) simp_all
qed

end
