(* ===== verification/Spent_Oracle.thy ===== *)
theory Spent_Oracle
  imports State_Payload
begin

text \<open>
  Dropping notes the chain shows spent (\<^verbatim>\<open>sync/spentOracle.ts\<close>). The chunked log sweep is shown to ask for
  every block of its range exactly once and to return what one query of the whole range would, pruning
  to keep exactly the unspent notes, never to lower the checkpoint, and to refuse a range that would
  certify blocks it never asked about. The log source is the embedder's; it is an argument.
\<close>

record nullifier_log =
  nl_nullifier :: string
  nl_blockNumber :: int

type_synonym log_source = "int \<Rightarrow> int \<Rightarrow> nullifier_log list"

text \<open>The sweep loop; the set of nullifiers grows by the lower-cased entries of each chunk.\<close>

function sweep :: "log_source \<Rightarrow> int \<Rightarrow> int \<Rightarrow> int \<Rightarrow> string set \<Rightarrow> string set" where
  "sweep source chunk start toBlock spent =
     (if start \<le> toBlock \<and> chunk \<ge> 1 then
        let end1 = min (start + chunk - 1) toBlock
        in sweep source chunk (start + chunk) toBlock
             (spent \<union> set (map (\<lambda>log. to_lower (nl_nullifier log)) (source start end1)))
      else spent)"
  by auto
termination by (relation "measure (\<lambda>(source, chunk, start, toBlock, spent). nat (toBlock - start + 1))") auto

declare sweep.simps [simp del]

text \<open>\<^verbatim>\<open>createLogSweepOracle(options).spentBetween\<close>; the constructor's check on the chunk comes first.\<close>

definition createLogSweepOracle :: "log_source \<Rightarrow> int \<Rightarrow> (int \<Rightarrow> int \<Rightarrow> string set) result" where
  "createLogSweepOracle source chunkBlocks =
     (if chunkBlocks < 1 then Inl (PssStateError ''spent scan chunk must be a positive integer'')
      else Inr (\<lambda>fromBlock toBlock. sweep source chunkBlocks fromBlock toBlock {}))"

definition assertBlock :: "int \<Rightarrow> string \<Rightarrow> int result" where
  "assertBlock v label =
     (if v < 0 then Inl (PssStateError (label @ '' must be a non-negative integer block number'')) else Inr v)"

record prune_result =
  pu_payload :: parsed_state_payload
  pu_dropped :: "unspent_note list"
  pu_checkedThroughBlock :: int

definition pruneSpentNotes ::
  "parsed_state_payload \<Rightarrow> (int \<Rightarrow> int \<Rightarrow> string set) \<Rightarrow> int \<Rightarrow> int \<Rightarrow> prune_result result" where
  "pruneSpentNotes payload oracle fromBlock toBlock =
     ebind (assertBlock fromBlock ''fromBlock'') (\<lambda>_.
     ebind (assertBlock toBlock ''toBlock'') (\<lambda>_.
     if toBlock < fromBlock then Inl (PssStateError ''spent sweep range is inverted'')
     else
       let checkpoint = nc_block (sp_nullifierCheckedAt (known payload))
       in if fromBlock > checkpoint then Inl (PssStateError ''spent sweep would skip blocks'')
          else
            let spent = oracle fromBlock toBlock;
                isSpent = (\<lambda>note. to_lower (un_nullifier note) \<in> spent);
                kept = filter (\<lambda>note. \<not> isSpent note) (sp_unspentNotes (known payload));
                dropped = filter isSpent (sp_unspentNotes (known payload));
                checkedThroughBlock = max checkpoint toBlock
            in Inr \<lparr>pu_payload = \<lparr>known = (known payload)\<lparr>sp_unspentNotes := kept,
                        sp_nullifierCheckedAt := \<lparr>nc_block = checkedThroughBlock\<rparr>\<rparr>,
                      extra = extra payload\<rparr>,
                    pu_dropped = dropped, pu_checkedThroughBlock = checkedThroughBlock\<rparr>))"

definition spendableNote :: "unspent_note \<Rightarrow> int \<Rightarrow> int \<Rightarrow> unspent_note result" where
  "spendableNote note leafBlock checkedThroughBlock =
     (if leafBlock > checkedThroughBlock then Inl (PssStateError ''note is not spendable'')
      else Inr note)"

section \<open>Reference definitions\<close>

text \<open>A log source over a fixed chain: the logs whose block lies in the asked range.\<close>

definition chain_source :: "nullifier_log list \<Rightarrow> log_source" where
  "chain_source logs a b = filter (\<lambda>l. a \<le> nl_blockNumber l \<and> nl_blockNumber l \<le> b) logs"

definition spent_in :: "nullifier_log list \<Rightarrow> int \<Rightarrow> int \<Rightarrow> string set" where
  "spent_in logs a b = {to_lower (nl_nullifier l) | l. l \<in> set logs \<and> a \<le> nl_blockNumber l \<and> nl_blockNumber l \<le> b}"

text \<open>The ranges the sweep asks for, in order.\<close>

function chunks :: "int \<Rightarrow> int \<Rightarrow> int \<Rightarrow> (int \<times> int) list" where
  "chunks chunk start toBlock =
     (if start \<le> toBlock \<and> chunk \<ge> 1
      then (start, min (start + chunk - 1) toBlock) # chunks chunk (start + chunk) toBlock else [])"
  by auto
termination by (relation "measure (\<lambda>(chunk, start, toBlock). nat (toBlock - start + 1))") auto

declare chunks.simps [simp del]

section \<open>Lemmas\<close>

lemma sweep_chunks:
  "sweep source chunk start toBlock spent =
     spent \<union> (\<Union>(a, b)\<in>set (chunks chunk start toBlock). (\<lambda>l. to_lower (nl_nullifier l)) ` set (source a b))"
proof (induction source chunk start toBlock spent rule: sweep.induct)
  case (1 source chunk start toBlock spent)
  show ?case
  proof (cases "start \<le> toBlock \<and> chunk \<ge> 1")
    case True
    then show ?thesis
      using 1 by (subst sweep.simps, subst chunks.simps) (auto simp: Let_def)
  next
    case False
    then show ?thesis by (auto simp: sweep.simps [of source chunk start] chunks.simps [of chunk start])
  qed
qed

text \<open>Every block of the range lies in exactly one chunk.\<close>

lemma chunks_cover:
  "1 \<le> chunk \<Longrightarrow> (\<exists>(a, b)\<in>set (chunks chunk start toBlock). a \<le> x \<and> x \<le> b) \<longleftrightarrow> start \<le> x \<and> x \<le> toBlock"
proof (induction chunk start toBlock rule: chunks.induct)
  case (1 chunk start toBlock)
  show ?case
  proof (cases "start \<le> toBlock")
    case True
    have "(\<exists>(a, b)\<in>set (chunks chunk start toBlock). a \<le> x \<and> x \<le> b) \<longleftrightarrow>
        (start \<le> x \<and> x \<le> min (start + chunk - 1) toBlock) \<or> (start + chunk \<le> x \<and> x \<le> toBlock)"
      using 1 True by (subst chunks.simps) auto
    also have "\<dots> \<longleftrightarrow> start \<le> x \<and> x \<le> toBlock" using True "1.prems" by auto
    finally show ?thesis .
  next
    case False
    then show ?thesis by (subst chunks.simps) auto
  qed
qed

lemma chunks_lower: "(a, b) \<in> set (chunks chunk start toBlock) \<Longrightarrow> start \<le> a"
proof (induction chunk start toBlock rule: chunks.induct)
  case (1 chunk start toBlock)
  then show ?case
    by (subst (asm) (2) chunks.simps) (fastforce split: if_splits)
qed

lemma chunks_disjoint:
  "sorted_wrt (\<lambda>(a, b) (c, d). b < c) (chunks chunk start toBlock)"
proof (induction chunk start toBlock rule: chunks.induct)
  case (1 chunk start toBlock)
  show ?case
  proof (cases "start \<le> toBlock \<and> 1 \<le> chunk")
    case True
    then show ?thesis
      using 1 by (subst chunks.simps) (auto dest!: chunks_lower)
  next
    case False
    then show ?thesis by (subst chunks.simps) auto
  qed
qed

lemma sweep_chain:
  assumes "1 \<le> chunk"
  shows "sweep (chain_source logs) chunk start toBlock {} = spent_in logs start toBlock"
proof -
  have "s \<in> sweep (chain_source logs) chunk start toBlock {} \<longleftrightarrow> s \<in> spent_in logs start toBlock" for s
  proof -
    have "s \<in> sweep (chain_source logs) chunk start toBlock {} \<longleftrightarrow>
        (\<exists>l \<in> set logs. s = to_lower (nl_nullifier l) \<and>
           (\<exists>(a, b)\<in>set (chunks chunk start toBlock). a \<le> nl_blockNumber l \<and> nl_blockNumber l \<le> b))"
      by (auto simp: sweep_chunks chain_source_def)
    also have "\<dots> \<longleftrightarrow> s \<in> spent_in logs start toBlock"
      unfolding chunks_cover [OF assms] by (auto simp: spent_in_def)
    finally show ?thesis .
  qed
  then show ?thesis by blast
qed

lemma pruneSpentNotes_Inr:
  assumes "pruneSpentNotes p oracle a b = Inr r"
  shows "0 \<le> a" and "a \<le> b" and "a \<le> nc_block (sp_nullifierCheckedAt (known p))"
    and "sp_unspentNotes (known (pu_payload r)) =
           filter (\<lambda>n. to_lower (un_nullifier n) \<notin> oracle a b) (sp_unspentNotes (known p))"
    and "pu_dropped r = filter (\<lambda>n. to_lower (un_nullifier n) \<in> oracle a b) (sp_unspentNotes (known p))"
    and "nc_block (sp_nullifierCheckedAt (known (pu_payload r))) = max (nc_block (sp_nullifierCheckedAt (known p))) b"
    and "pu_checkedThroughBlock r = max (nc_block (sp_nullifierCheckedAt (known p))) b"
    and "sp_ephemeralCounters (known (pu_payload r)) = sp_ephemeralCounters (known p)"
    and "extra (pu_payload r) = extra p"
  using assms by (auto simp: pruneSpentNotes_def assertBlock_def Let_def split: if_splits)

lemma list_all_filter: "list_all P xs \<Longrightarrow> list_all P (filter Q xs)"
  by (auto simp: list_all_iff)

lemma pruneSpentNotes_wf:
  assumes "pruneSpentNotes p oracle a b = Inr r" and "payload_wf p" and "isSafeInteger b"
  shows "payload_wf (pu_payload r)"
proof -
  have "0 \<le> b" using pruneSpentNotes_Inr(1,2) [OF assms(1)] by simp
  then have "is_count (max (nc_block (sp_nullifierCheckedAt (known p))) b)"
    using assms(2,3) by (simp add: payload_wf_def known_wf_def is_count_def max_def)
  moreover have "pu_payload r = \<lparr>known = (known p)\<lparr>
      sp_unspentNotes := filter (\<lambda>n. to_lower (un_nullifier n) \<notin> oracle a b) (sp_unspentNotes (known p)),
      sp_nullifierCheckedAt := \<lparr>nc_block = max (nc_block (sp_nullifierCheckedAt (known p))) b\<rparr>\<rparr>, extra = extra p\<rparr>"
    using assms(1) by (auto simp: pruneSpentNotes_def Let_def split: if_splits)
  ultimately show ?thesis
    using assms(2) by (simp add: payload_wf_def known_wf_def list_all_filter)
qed

end
