(* ===== verification/State_Sync.thy ===== *)
theory State_Sync
  imports Crypto Merge Takeover Spent_Oracle
begin

text \<open>
  The sync engine (\<^verbatim>\<open>sync/stateSync.ts\<close>, \<^verbatim>\<open>sync/transport.ts\<close>): one store, one floor, one guard, one transport.
  Every method is an action on the object's fields paired with a world that answers requests, tells the
  time and draws randomness; a throw keeps the fields it had already written. The promise queues
  (\<^verbatim>\<open>#mutationTail\<close>, \<^verbatim>\<open>#inFlight\<close>) are the sequencing of actions; the points at which a queued turn may
  run between two halves of a method are where the methods are split (\<open>pull_begin\<close> and \<open>pull_apply\<close>,
  the turn and the push of \<open>mutateAsWriterDurably\<close>).
\<close>

section \<open>Text decoding\<close>

text \<open>\<^verbatim>\<open>new TextDecoder().decode\<close> onto code units below 256; a byte sequence that is not the encoding of such a
  code unit becomes the substitute character, which no JSON text contains.\<close>

fun utf8_decode :: "bytes \<Rightarrow> string" where
  "utf8_decode [] = []"
| "utf8_decode (b # rest) =
     (if unat b < 128 then char_of (unat b) # utf8_decode rest
      else case rest of
             [] \<Rightarrow> [char_of (26 :: nat)]
           | c # rest' \<Rightarrow>
               if (unat b = 194 \<or> unat b = 195) \<and> 128 \<le> unat c \<and> unat c < 192
               then char_of ((unat b - 192) * 64 + (unat c - 128)) # utf8_decode rest'
               else char_of (26 :: nat) # utf8_decode rest)"

section \<open>The HTTP transport\<close>

datatype http_outcome =
    HttpFailed
  | HttpAnswer nat "jsval option"

definition failureFor :: "nat \<Rightarrow> nat \<Rightarrow> pss_failure" where
  "failureFor status limit =
     (if status = statusOf unauthorized then unauthorized
      else if status = statusOf version_conflict then version_conflict
      else if status = statusOf rate_limited then rate_limited
      else if status = statusOf (payload_too_large limit) then payload_too_large limit
      else bad_request ''status'')"

definition http_send :: "http_outcome \<Rightarrow> (nat \<times> jsval option) result" where
  "http_send outcome =
     (case outcome of
        HttpFailed \<Rightarrow> Inl (PssError (bad_request ''transport''))
      | HttpAnswer status body \<Rightarrow> Inr (status, body))"

definition http_getBlob :: "http_outcome \<Rightarrow> get_blob_response option result" where
  "http_getBlob outcome =
     ebind (http_send outcome) (\<lambda>(status, body).
       if status = statusOf not_found then Inr None
       else if status \<noteq> PSS_STATUS_ok then Inl (PssError (failureFor status 0))
       else case body of
              None \<Rightarrow> Inl (PlainError ''response is not JSON'')
            | Some v \<Rightarrow> ebind (parseGetBlobResponse v) (\<lambda>r. Inr (Some r)))"

definition http_putBlob :: "http_outcome \<Rightarrow> unit result" where
  "http_putBlob outcome =
     ebind (http_send outcome) (\<lambda>(status, body).
       if status \<noteq> PSS_STATUS_ok then Inl (PssError (failureFor status 0)) else Inr ())"

definition http_deleteAccount :: "http_outcome \<Rightarrow> unit result" where
  "http_deleteAccount outcome =
     ebind (http_send outcome) (\<lambda>(status, body).
       if status \<noteq> PSS_STATUS_ok then Inl (PssError (failureFor status 0)) else Inr ())"

definition blobPath :: "string \<Rightarrow> collection \<Rightarrow> string" where
  "blobPath accountPath c = ''/v1/blob/'' @ accountPath @ ''/'' @ collection_name c"

section \<open>State\<close>

record sync_state =
  ss_mode :: write_mode
  ss_heldBy :: "install_identity option"
  ss_degraded :: "(string \<times> pss_error) option"
  ss_blobMissing :: bool
  ss_pendingWrite :: bool

datatype pull_outcome = absent | missing int | present parsed_state_payload

record sync_deps =
  sd_backend :: crypto_backend
  sd_keys :: pss_keys
  sd_conflictRetries :: int
  sd_platform :: string
  sd_invite :: "string option"

record sync =
  sy_store :: pss_store
  sy_guard :: install_guard
  sy_local :: parsed_state_payload
  sy_remote :: "parsed_state_payload option"
  sy_storedVersion :: int
  sy_syncState :: sync_state
  sy_localRevision :: int
  sy_pullSequence :: int
  sy_appliedPullSequence :: int
  sy_lastPullOutcome :: pull_outcome
  sy_createEligible :: bool
  sy_debounceTimer :: bool
  sy_flushTimer :: bool

text \<open>The world: the transport, the clock in milliseconds, the CSPRNG and the spent-note oracle.\<close>

record 'w env =
  ev_getBlob :: "string \<Rightarrow> collection \<Rightarrow> ('w, pss_error, get_blob_response option) action"
  ev_putBlob :: "string \<Rightarrow> collection \<Rightarrow> put_blob_request \<Rightarrow> ('w, pss_error, unit) action"
  ev_now :: "'w \<Rightarrow> int \<times> 'w"
  ev_randomBytes :: "nat \<Rightarrow> 'w \<Rightarrow> bytes \<times> 'w"
  ev_spentBetween :: "int \<Rightarrow> int \<Rightarrow> ('w, pss_error, string set) action"

type_synonym ('w, 'a) sync_action = "(sync \<times> 'w, pss_error, 'a) action"

definition rd :: "(sync \<Rightarrow> 'a) \<Rightarrow> ('w, 'a) sync_action" where
  "rd f sw = (Inr (f (fst sw)), sw)"

definition wr :: "(sync \<Rightarrow> sync) \<Rightarrow> ('w, unit) sync_action" where
  "wr f sw = (Inr (), (f (fst sw), snd sw))"

definition io :: "('w, pss_error, 'a) action \<Rightarrow> ('w, 'a) sync_action" where
  "io m sw = (case m (snd sw) of (r, w) \<Rightarrow> (r, (fst sw, w)))"

definition io_total :: "('w \<Rightarrow> 'a \<times> 'w) \<Rightarrow> ('w, 'a) sync_action" where
  "io_total m sw = (case m (snd sw) of (x, w) \<Rightarrow> (Inr x, (fst sw, w)))"

definition on_store :: "(pss_store, pss_error, 'a) action \<Rightarrow> ('w, 'a) sync_action" where
  "on_store m sw = (case m (sy_store (fst sw)) of (r, st) \<Rightarrow> (r, ((fst sw)\<lparr>sy_store := st\<rparr>, snd sw)))"

definition account :: "sync_deps \<Rightarrow> string" where
  "account D = toHexRaw (k_accountId (sd_keys D))"

definition isConflict :: "pss_error \<Rightarrow> bool" where
  "isConflict e \<longleftrightarrow> e = PssError version_conflict"

definition snapshotPayload :: "parsed_state_payload \<Rightarrow> parsed_state_payload result" where
  "snapshotPayload payload = decodeStatePayload (serializeStatePayload payload)"

definition snapshotPullOutcome :: "pull_outcome \<Rightarrow> pull_outcome result" where
  "snapshotPullOutcome out =
     (case out of present p \<Rightarrow> ebind (snapshotPayload p) (\<lambda>q. Inr (present q)) | _ \<Rightarrow> Inr out)"

section \<open>Opening\<close>

definition MS_PER_SECOND :: int where "MS_PER_SECOND = 1000"

definition initial_sync ::
  "pss_store \<Rightarrow> install_guard \<Rightarrow> parsed_state_payload \<Rightarrow> write_mode \<Rightarrow> install_identity option \<Rightarrow> sync" where
  "initial_sync st g local initialMode heldBy =
     \<lparr>sy_store = st, sy_guard = g, sy_local = local, sy_remote = None, sy_storedVersion = 0,
      sy_syncState = \<lparr>ss_mode = initialMode, ss_heldBy = heldBy, ss_degraded = None,
                      ss_blobMissing = False, ss_pendingWrite = False\<rparr>,
      sy_localRevision = 0, sy_pullSequence = 0, sy_appliedPullSequence = 0,
      sy_lastPullOutcome = absent, sy_createEligible = False, sy_debounceTimer = False,
      sy_flushTimer = False\<rparr>"

text \<open>\<^verbatim>\<open>StateSync.open\<close> on the store, with the drawn install id bytes and the clock reading it would use.\<close>

definition sync_open :: "sync_deps \<Rightarrow> bytes \<Rightarrow> int \<Rightarrow> pss_store \<Rightarrow> sync result \<times> pss_store" where
  "sync_open D randomId nowMs st =
     (let storedInstall = st (installKey (account D));
          installId = (case storedInstall of Some i \<Rightarrow> i | None \<Rightarrow> newInstallId randomId);
          st' = (if storedInstall = None then store_set (installKey (account D)) installId st else st)
      in (ebind (new_InstallGuard \<lparr>id_installId = installId, id_platform = sd_platform D\<rparr>) (\<lambda>guard.
          let cached = st' (payloadKey (account D) State)
          in ebind (case cached of
                      None \<Rightarrow> emptyStatePayload installId (sd_platform D) (nowMs div MS_PER_SECOND)
                    | Some json \<Rightarrow> decodeStatePayload json) (\<lambda>local.
             let ownsCachedPayload = (cached \<noteq> None \<and> sp_installId (known local) = installId);
                 initialMode = (if ownsCachedPayload then writer else readonly);
                 heldBy = (if cached \<noteq> None \<and> \<not> ownsCachedPayload
                           then Some \<lparr>id_installId = sp_installId (known local), id_platform = sp_platform (known local)\<rparr>
                           else None)
             in Inr (initial_sync st' guard local initialMode heldBy))), st'))"

section \<open>Building blocks\<close>

definition applyTakeoverDecision :: "('w, unit) sync_action" where
  "applyTakeoverDecision = wr (\<lambda>s.
     let (decision, g) = evaluate (map_option known (sy_remote s)) (sy_guard s)
     in s\<lparr>sy_guard := g,
          sy_syncState := (sy_syncState s)\<lparr>ss_mode := td_mode decision, ss_heldBy := td_heldBy decision\<rparr>\<rparr>)"

definition persistLocal :: "sync_deps \<Rightarrow> ('w, unit) sync_action" where
  "persistLocal D = wr (\<lambda>s. s\<lparr>sy_store :=
     store_set (payloadKey (account D) State) (serializeStatePayload (sy_local s)) (sy_store s)\<rparr>)"

definition schedule :: "('w, unit) sync_action" where
  "schedule = wr (\<lambda>s. s\<lparr>sy_debounceTimer := True\<rparr>)"

definition clearDebounce :: "('w, unit) sync_action" where
  "clearDebounce = wr (\<lambda>s. s\<lparr>sy_debounceTimer := False\<rparr>)"

definition set_state :: "(sync_state \<Rightarrow> sync_state) \<Rightarrow> ('w, unit) sync_action" where
  "set_state f = wr (\<lambda>s. s\<lparr>sy_syncState := f (sy_syncState s)\<rparr>)"

definition assertWriter :: "('w, unit) sync_action" where
  "assertWriter =
     sbind (rd (\<lambda>s. ss_mode (sy_syncState s))) (\<lambda>mode.
       if mode \<noteq> writer then sthrow (PssStateError ''this install is read-only'') else sret ())"

definition assertWriterOrCreate :: "('w, unit) sync_action" where
  "assertWriterOrCreate =
     sbind (rd (\<lambda>s. ss_mode (sy_syncState s) = writer \<or> sy_createEligible s)) (\<lambda>ok.
       if ok then sret () else assertWriter)"

definition mergeWithRemote :: "parsed_state_payload \<Rightarrow> parsed_state_payload \<Rightarrow> parsed_state_payload result" where
  "mergeWithRemote local remote =
     mergeStatePayloads [\<lparr>mi_payload = local, mi_noteListComplete = True\<rparr>,
                         \<lparr>mi_payload = remote, mi_noteListComplete = True\<rparr>]"

definition applyLocalChange ::
  "sync_deps \<Rightarrow> (parsed_state_payload \<Rightarrow> parsed_state_payload result) \<Rightarrow> ('w, unit) sync_action" where
  "applyLocalChange D change =
     sbind (rd (\<lambda>s. sp_ephemeralCounters (known (sy_local s)))) (\<lambda>currentCounters.
     sbind (rd sy_local) (\<lambda>local.
     sbind (slift (snapshotPayload local)) (\<lambda>snap.
     sbind (slift (change snap)) (\<lambda>changed.
     sbind (slift (decodeStatePayload (serializeStatePayload changed))) (\<lambda>proposed.
     sbind (wr (\<lambda>s. s\<lparr>sy_local := \<lparr>known = (known proposed)\<lparr>sp_ephemeralCounters :=
                  mergeEphemeralCounterSnapshots [currentCounters, sp_ephemeralCounters (known proposed)]\<rparr>,
                extra = extra proposed\<rparr>,
              sy_localRevision := sy_localRevision s + 1\<rparr>)) (\<lambda>_.
     sbind (persistLocal D) (\<lambda>_.
     sbind (set_state (\<lambda>t. t\<lparr>ss_pendingWrite := True\<rparr>)) (\<lambda>_. schedule))))))))"

section \<open>Pulling\<close>

definition pullAndMerge :: "sync_deps \<Rightarrow> get_blob_response option \<Rightarrow> ('w, pull_outcome) sync_action" where
  "pullAndMerge D remote =
     (case remote of
        None \<Rightarrow>
          sbind (on_store (fl_current (account D) State)) (\<lambda>floor.
          if floor = 0 then
            sbind (wr (\<lambda>s. s\<lparr>sy_remote := None, sy_storedVersion := 0,
                     sy_createEligible := (sd_invite D \<noteq> None)\<rparr>)) (\<lambda>_.
            sbind (set_state (\<lambda>t. t\<lparr>ss_mode := readonly, ss_heldBy := None, ss_blobMissing := False\<rparr>)) (\<lambda>_.
            sret absent))
          else
            sbind (wr (\<lambda>s. s\<lparr>sy_createEligible := (sd_invite D \<noteq> None)\<rparr>)) (\<lambda>_.
            sbind (set_state (\<lambda>t. t\<lparr>ss_blobMissing := True\<rparr>)) (\<lambda>_.
            sret (missing floor))))
      | Some r \<Rightarrow>
          sbind (slift (fromBase64 (gr_nonce r) ''nonce'')) (\<lambda>nonce.
          sbind (slift (fromBase64 (gr_ciphertext r) ''ciphertext'')) (\<lambda>ciphertext.
          sbind (slift (openCell (sd_backend D) (k_cellKey (sd_keys D) State)
                   \<lparr>cc_collection = State, cc_version = gr_version r\<rparr>
                   \<lparr>cell_nonce = nonce, cell_ciphertext = ciphertext\<rparr>)) (\<lambda>plaintext.
          sbind (on_store (fl_accept (account D) State (gr_version r))) (\<lambda>_.
          sbind (slift (decodeStatePayload (utf8_decode plaintext))) (\<lambda>payload.
          sbind (wr (\<lambda>s. s\<lparr>sy_createEligible := False\<rparr>)) (\<lambda>_.
          sbind (slift (snapshotPayload payload)) (\<lambda>remotePayload.
          sbind (wr (\<lambda>s. s\<lparr>sy_remote := Some remotePayload, sy_storedVersion := gr_version r\<rparr>)) (\<lambda>_.
          sbind (rd sy_local) (\<lambda>local.
          sbind (slift (mergeWithRemote local remotePayload)) (\<lambda>merged.
          sbind (wr (\<lambda>s. s\<lparr>sy_local := merged\<rparr>)) (\<lambda>_.
          sbind (persistLocal D) (\<lambda>_.
          sbind (set_state (\<lambda>t. t\<lparr>ss_blobMissing := False\<rparr>)) (\<lambda>_.
          sbind applyTakeoverDecision (\<lambda>_.
          sbind (slift (snapshotPayload payload)) (\<lambda>snap. sret (present snap)))))))))))))))))"

definition pull_begin :: "('w, int) sync_action" where
  "pull_begin = sbind (wr (\<lambda>s. s\<lparr>sy_pullSequence := sy_pullSequence s + 1\<rparr>)) (\<lambda>_. rd sy_pullSequence)"

definition pull_fetch :: "'w env \<Rightarrow> sync_deps \<Rightarrow> ('w, get_blob_response option) sync_action" where
  "pull_fetch E D =
     sbind (io (ev_getBlob E (account D) State)) (\<lambda>answer.
       case answer of
         None \<Rightarrow> sret None
       | Some a \<Rightarrow> slift (ebind (parseGetBlobResponse (get_response_json a)) (\<lambda>r. Inr (Some r))))"

definition pull_apply :: "sync_deps \<Rightarrow> int \<Rightarrow> get_blob_response option \<Rightarrow> ('w, pull_outcome) sync_action" where
  "pull_apply D sequence remote =
     sbind (rd sy_appliedPullSequence) (\<lambda>applied.
     if sequence < applied then sbind (rd sy_lastPullOutcome) (\<lambda>out. slift (snapshotPullOutcome out))
     else
       sbind (pullAndMerge D remote) (\<lambda>outcome.
       sbind (wr (\<lambda>s. s\<lparr>sy_appliedPullSequence := sequence\<rparr>)) (\<lambda>_.
       sbind (slift (snapshotPullOutcome outcome)) (\<lambda>snap.
       sbind (wr (\<lambda>s. s\<lparr>sy_lastPullOutcome := snap\<rparr>)) (\<lambda>_.
       slift (snapshotPullOutcome outcome))))))"

definition pull :: "'w env \<Rightarrow> sync_deps \<Rightarrow> ('w, pull_outcome) sync_action" where
  "pull E D =
     sbind pull_begin (\<lambda>sequence.
     sbind (pull_fetch E D) (\<lambda>remote. pull_apply D sequence remote))"

section \<open>Pushing\<close>

definition nextWrite :: "pull_outcome \<Rightarrow> sync \<Rightarrow> int \<times> int" where
  "nextWrite out s =
     (case out of
        missing floor \<Rightarrow> (floor + 1, 0)
      | absent \<Rightarrow> (1, 0)
      | present _ \<Rightarrow> (sy_storedVersion s + 1, sy_storedVersion s))"

definition now_seconds :: "'w env \<Rightarrow> ('w, int) sync_action" where
  "now_seconds E = sbind (io_total (ev_now E)) (\<lambda>ms. sret (ms div MS_PER_SECOND))"

definition stampCurrent :: "'w env \<Rightarrow> ('w, parsed_state_payload) sync_action" where
  "stampCurrent E =
     sbind (now_seconds E) (\<lambda>updatedAt.
     sbind (rd (\<lambda>s. stamp (sy_local s) (map_option known (sy_remote s)) updatedAt (sy_guard s))) (\<lambda>(r, g).
     sbind (wr (\<lambda>s. s\<lparr>sy_guard := g\<rparr>)) (\<lambda>_. slift r)))"

definition seal_and_sign ::
  "'w env \<Rightarrow> sync_deps \<Rightarrow> parsed_state_payload \<Rightarrow> int \<Rightarrow> int \<Rightarrow> ('w, put_blob_request) sync_action" where
  "seal_and_sign E D payload version prevVersion =
     (let bytes = utf8 (serializeStatePayload payload)
      in sbind (io_total (ev_randomBytes E GCM_NONCE_BYTES)) (\<lambda>nonce.
         sbind (slift (sealCell (sd_backend D) (k_cellKey (sd_keys D) State)
                  \<lparr>cc_collection = State, cc_version = version\<rparr> bytes nonce)) (\<lambda>sealed.
         sbind (now_seconds E) (\<lambda>timestamp.
         slift (buildPutRequest (sd_backend D) (sd_keys D)
           \<lparr>pq_collection = State, pq_version = version, pq_prevVersion = prevVersion,
            pq_nonce = cell_nonce sealed, pq_ciphertext = cell_ciphertext sealed,
            pq_timestamp = timestamp,
            pq_invite = (if sd_invite D = None \<or> prevVersion \<noteq> 0 then None else sd_invite D)\<rparr>)))))"

definition writeOnce ::
  "'w env \<Rightarrow> sync_deps \<Rightarrow> parsed_state_payload \<Rightarrow> int \<Rightarrow> int \<Rightarrow> ('w, unit) sync_action" where
  "writeOnce E D payload version prevVersion =
     sbind (seal_and_sign E D payload version prevVersion) (\<lambda>body.
     io (ev_putBlob E (account D) State body))"

definition acceptOwnWrite :: "sync_deps \<Rightarrow> int \<Rightarrow> ('w, unit) sync_action" where
  "acceptOwnWrite D version = sbind (on_store (fl_bootstrap (account D) State version)) (\<lambda>_. sret ())"

definition acceptRemoteWrite :: "parsed_state_payload \<Rightarrow> ('w, unit) sync_action" where
  "acceptRemoteWrite stamped =
     sbind (slift (snapshotPayload stamped)) (\<lambda>snap.
     sbind (wr (\<lambda>s. s\<lparr>sy_remote := Some snap, sy_createEligible := False\<rparr>)) (\<lambda>_.
     applyTakeoverDecision))"

text \<open>The tail both write paths share: stamp, seal, sign, send, then record the accepted version.\<close>

definition write_next :: "'w env \<Rightarrow> sync_deps \<Rightarrow> int \<times> int \<Rightarrow> ('w, unit) sync_action" where
  "write_next E D next1 =
     sbind (stampCurrent E) (\<lambda>stamped.
     sbind (writeOnce E D stamped (fst next1) (snd next1)) (\<lambda>_.
     sbind (wr (\<lambda>s. s\<lparr>sy_storedVersion := fst next1\<rparr>)) (\<lambda>_.
     sbind (acceptOwnWrite D (fst next1)) (\<lambda>_.
     acceptRemoteWrite stamped))))"

definition pushOnce :: "'w env \<Rightarrow> sync_deps \<Rightarrow> ('w, unit) sync_action" where
  "pushOnce E D =
     sbind assertWriterOrCreate (\<lambda>_.
     sbind (rd (\<lambda>s. case sy_lastPullOutcome s of
                      missing f \<Rightarrow> nextWrite (missing f) s
                    | _ \<Rightarrow> (sy_storedVersion s + 1, sy_storedVersion s))) (\<lambda>next1.
     write_next E D next1))"

definition push :: "'w env \<Rightarrow> sync_deps \<Rightarrow> ('w, unit) sync_action" where
  "push E D =
     sbind assertWriterOrCreate (\<lambda>_.
     scatch (pushOnce E D) (\<lambda>e.
       if \<not> isConflict e \<or> sd_conflictRetries D < 1 then sthrow e
       else
         sbind (pull E D) (\<lambda>outcome.
         sbind assertWriterOrCreate (\<lambda>_.
         sbind (rd (nextWrite outcome)) (\<lambda>next1. write_next E D next1)))))"

definition pushGuarded :: "'w env \<Rightarrow> sync_deps \<Rightarrow> ('w, unit) sync_action" where
  "pushGuarded E D =
     scatch (sbind (push E D) (\<lambda>_.
               set_state (\<lambda>t. t\<lparr>ss_degraded := None, ss_pendingWrite := False\<rparr>)))
       (\<lambda>e. set_state (\<lambda>t. t\<lparr>ss_degraded := Some (''push'', e)\<rparr>))"

section \<open>Public operations\<close>

definition sync_current :: "('w, parsed_state_payload) sync_action" where
  "sync_current = sbind (rd sy_local) (\<lambda>p. slift (snapshotPayload p))"

definition sync_start :: "('w, unit) sync_action" where
  "sync_start = wr (\<lambda>s. if sy_flushTimer s then s else s\<lparr>sy_flushTimer := True\<rparr>)"

definition sync_stop :: "('w, unit) sync_action" where
  "sync_stop = wr (\<lambda>s. s\<lparr>sy_flushTimer := False, sy_debounceTimer := False\<rparr>)"

definition sync_update ::
  "sync_deps \<Rightarrow> (parsed_state_payload \<Rightarrow> parsed_state_payload result) \<Rightarrow> ('w, unit) sync_action" where
  "sync_update D change = applyLocalChange D change"

definition updateAsWriter ::
  "sync_deps \<Rightarrow> (parsed_state_payload \<Rightarrow> parsed_state_payload result) \<Rightarrow> ('w, unit) sync_action" where
  "updateAsWriter D change =
     sbind (rd (\<lambda>s. ss_mode (sy_syncState s))) (\<lambda>mode.
     if mode \<noteq> writer then sthrow (PssStateError ''this install is read-only'')
     else applyLocalChange D change)"

text \<open>The queue turn of a durable mutation: authority check, change, durable local write.\<close>

definition durable_turn ::
  "sync_deps \<Rightarrow> (parsed_state_payload \<Rightarrow> (parsed_state_payload \<times> 'v) result) \<Rightarrow> ('w, 'v) sync_action" where
  "durable_turn D change =
     sbind assertWriterOrCreate (\<lambda>_.
     sbind (rd sy_local) (\<lambda>local.
     sbind (slift (snapshotPayload local)) (\<lambda>snap.
     sbind (slift (change snap)) (\<lambda>(payload, v).
     sbind (applyLocalChange D (\<lambda>_. Inr payload)) (\<lambda>_. sret v)))))"

fun durable_attempts ::
  "'w env \<Rightarrow> sync_deps \<Rightarrow> (parsed_state_payload \<Rightarrow> (parsed_state_payload \<times> 'v) result) \<Rightarrow> nat \<Rightarrow> ('w, 'v) sync_action" where
  "durable_attempts E D change 0 = sthrow (PssStateError ''writer mutation lost its compare-and-swap attempts'')"
| "durable_attempts E D change (Suc k) =
     sbind (pull E D) (\<lambda>_.
     sbind (durable_turn D change) (\<lambda>committed.
     sbind (rd sy_localRevision) (\<lambda>writtenRevision.
     scatch
       (sbind (pushOnce E D) (\<lambda>_.
        sbind (rd (\<lambda>s. writtenRevision = sy_localRevision s)) (\<lambda>noNewer.
        sbind (set_state (\<lambda>t. t\<lparr>ss_degraded := None,
                 ss_pendingWrite := (if noNewer then False else ss_pendingWrite t)\<rparr>)) (\<lambda>_.
        sbind (if noNewer then clearDebounce else sret ()) (\<lambda>_. sret committed)))))
       (\<lambda>e. if \<not> isConflict e
            then sbind (set_state (\<lambda>t. t\<lparr>ss_degraded := Some (''writer mutation'', e)\<rparr>)) (\<lambda>_. sthrow e)
            else durable_attempts E D change k))))"

definition mutateAsWriterDurably ::
  "'w env \<Rightarrow> sync_deps \<Rightarrow> (parsed_state_payload \<Rightarrow> (parsed_state_payload \<times> 'v) result) \<Rightarrow> ('w, 'v) sync_action" where
  "mutateAsWriterDurably E D change =
     durable_attempts E D change (if sd_conflictRetries D < 1 then 1 else 2)"

definition flushNow :: "'w env \<Rightarrow> sync_deps \<Rightarrow> ('w, unit) sync_action" where
  "flushNow E D = sbind clearDebounce (\<lambda>_. pushGuarded E D)"

definition debounce_fires :: "'w env \<Rightarrow> sync_deps \<Rightarrow> ('w, unit) sync_action" where
  "debounce_fires E D = sbind clearDebounce (\<lambda>_. pushGuarded E D)"

definition sync_confirmTakeover :: "sync_deps \<Rightarrow> (collection \<Rightarrow> int) \<Rightarrow> ('w, unit) sync_action" where
  "sync_confirmTakeover D chainFloors =
     sbind (rd sy_remote) (\<lambda>remote.
     case remote of
       None \<Rightarrow> sthrow (PssStateError ''takeover needs a remote payload'')
     | Some r \<Rightarrow>
         sbind (\<lambda>sw. case guard_confirmTakeover (account D) (known r) chainFloors
                         (sy_guard (fst sw)) (sy_store (fst sw)) of
                  (res, g, st) \<Rightarrow> (res, ((fst sw)\<lparr>sy_guard := g, sy_store := st\<rparr>, snd sw))) (\<lambda>_.
         applyTakeoverDecision))"

text \<open>The range checks run before the oracle is asked; its answer is then used on the same notes.\<close>

definition pruneSpent :: "'w env \<Rightarrow> sync_deps \<Rightarrow> int \<Rightarrow> int \<Rightarrow> ('w, nat) sync_action" where
  "pruneSpent E D fromBlock toBlock =
     sbind (rd sy_local) (\<lambda>local.
     sbind (slift (pruneSpentNotes local (\<lambda>_ _. {}) fromBlock toBlock)) (\<lambda>_.
     sbind (io (ev_spentBetween E fromBlock toBlock)) (\<lambda>spent.
     sbind (slift (pruneSpentNotes local (\<lambda>_ _. spent) fromBlock toBlock)) (\<lambda>r.
     sbind (wr (\<lambda>s. s\<lparr>sy_local := pu_payload r\<rparr>)) (\<lambda>_.
     sbind (persistLocal D) (\<lambda>_. sret (length (pu_dropped r))))))))"

section \<open>Runs\<close>

text \<open>The public operations as values, with the two halves of a pull as operations of their own, so that a
  run interleaves them in any order and with any answers.\<close>

datatype sync_op =
    OpPull
  | OpPullBegin
  | OpPullApply int "get_blob_response option"
  | OpUpdate "parsed_state_payload \<Rightarrow> parsed_state_payload result"
  | OpUpdateAsWriter "parsed_state_payload \<Rightarrow> parsed_state_payload result"
  | OpMutate "parsed_state_payload \<Rightarrow> (parsed_state_payload \<times> int) result"
  | OpFlush
  | OpConfirmTakeover "collection \<Rightarrow> int"
  | OpPruneSpent int int

text \<open>What the operation leaves behind, whether it returned or threw.\<close>

definition run_sync_op :: "'w env \<Rightarrow> sync_deps \<Rightarrow> sync_op \<Rightarrow> sync \<times> 'w \<Rightarrow> sync \<times> 'w" where
  "run_sync_op E D p sw =
     (case p of
        OpPull \<Rightarrow> snd (pull E D sw)
      | OpPullBegin \<Rightarrow> snd (pull_begin sw)
      | OpPullApply n remote \<Rightarrow> snd (pull_apply D n remote sw)
      | OpUpdate change \<Rightarrow> snd (sync_update D change sw)
      | OpUpdateAsWriter change \<Rightarrow> snd (updateAsWriter D change sw)
      | OpMutate change \<Rightarrow> snd (mutateAsWriterDurably E D change sw)
      | OpFlush \<Rightarrow> snd (flushNow E D sw)
      | OpConfirmTakeover floors \<Rightarrow> snd (sync_confirmTakeover D floors sw)
      | OpPruneSpent a b \<Rightarrow> snd (pruneSpent E D a b sw))"

definition run_sync_ops :: "'w env \<Rightarrow> sync_deps \<Rightarrow> sync_op list \<Rightarrow> sync \<times> 'w \<Rightarrow> sync \<times> 'w" where
  "run_sync_ops E D ops sw = fold (run_sync_op E D) ops sw"

end
