(* ===== verification/Sync_Lemmas.thy ===== *)
theory Sync_Lemmas
  imports State_Sync
begin

text \<open>
  What the sync engine's operations do to the object's fields: the effect of each turn in closed form,
  and a contract for relations between an object before and after. A relation that the few primitive
  updates keep is kept by every operation; the rollback floor and the ephemeral counters are two such
  relations.
\<close>

lemmas run_defs =
  sbind_def slift_def sret_def sthrow_def scatch_def rd_def wr_def io_def io_total_def on_store_def

section \<open>Text round trip\<close>

lemma utf8_decode_ascii: "unat b < 128 \<Longrightarrow> utf8_decode (b # rest) = char_of (unat b) # utf8_decode rest"
  by simp

lemma utf8_decode_char: "utf8_decode (utf8_char c @ rest) = c # utf8_decode rest"
proof (cases "(of_char c :: nat) < 128")
  case True
  then have "unat (word_of_nat (of_char c) :: byte) = of_char c"
    by (simp add: unat_of_nat take_bit_eq_mod)
  with True show ?thesis by (simp add: utf8_char_def Let_def)
next
  case False
  define n where "n = (of_char c :: nat)"
  have n: "128 \<le> n" "n < 256" using False nat_of_char_less_256 [of c] by (simp_all add: n_def)
  then have d: "n div 64 = 2 \<or> n div 64 = 3" by auto
  have b: "unat (word_of_nat (192 + n div 64) :: byte) = 192 + n div 64"
    using d by (subst unat_of_nat) (auto simp: take_bit_eq_mod)
  have c: "unat (word_of_nat (128 + n mod 64) :: byte) = 128 + n mod 64"
    by (subst unat_of_nat) (simp add: take_bit_eq_mod)
  have "char_of (n div 64 * 64 + n mod 64) = c" by (simp add: n_def)
  moreover have "utf8_char c = [word_of_nat (192 + n div 64), word_of_nat (128 + n mod 64)]"
    using False by (simp add: utf8_char_def n_def Let_def)
  ultimately show ?thesis using b c d by auto
qed

lemma utf8_decode_utf8: "utf8_decode (utf8 t) = t"
  by (induction t) (simp_all add: utf8_def utf8_decode_char del: utf8_decode.simps(2))

lemma utf8_length: "length (utf8 t) \<le> 2 * length t"
proof (induction t)
  case (Cons a t)
  have "length (utf8_char a) \<le> 2" by (simp add: utf8_char_def Let_def)
  with Cons show ?case by (simp add: utf8_def)
qed (simp add: utf8_def)

section \<open>Effects of a turn\<close>

lemma snapshotPayload_wf: "payload_wf p \<Longrightarrow> snapshotPayload p = Inr p"
  by (simp add: snapshotPayload_def decode_serialize)

definition changed :: "sync_deps \<Rightarrow> parsed_state_payload \<Rightarrow> sync \<Rightarrow> sync" where
  "changed D p s =
     (let local = \<lparr>known = (known p)\<lparr>sp_ephemeralCounters :=
                    mergeEphemeralCounterSnapshots [sp_ephemeralCounters (known (sy_local s)), sp_ephemeralCounters (known p)]\<rparr>,
                   extra = extra p\<rparr>
      in s\<lparr>sy_local := local, sy_localRevision := sy_localRevision s + 1,
           sy_store := store_set (payloadKey (account D) State) (serializeStatePayload local) (sy_store s),
           sy_syncState := (sy_syncState s)\<lparr>ss_pendingWrite := True\<rparr>, sy_debounceTimer := True\<rparr>)"

lemma applyLocalChange_run:
  "applyLocalChange D change (s, w) =
     (case ebind (snapshotPayload (sy_local s)) (\<lambda>snap.
           ebind (change snap) (\<lambda>c. decodeStatePayload (serializeStatePayload c))) of
        Inl e \<Rightarrow> (Inl e, (s, w))
      | Inr p \<Rightarrow> (Inr (), (changed D p s, w)))"
proof (cases "snapshotPayload (sy_local s)")
  case (Inl e)
  then show ?thesis by (simp add: applyLocalChange_def run_defs)
next
  case (Inr snap)
  show ?thesis
  proof (cases "change snap")
    case (Inl e)
    with Inr show ?thesis by (simp add: applyLocalChange_def run_defs)
  next
    case (Inr c)
    with \<open>snapshotPayload (sy_local s) = Inr snap\<close> show ?thesis
      by (cases "decodeStatePayload (serializeStatePayload c)")
        (simp_all add: applyLocalChange_def run_defs persistLocal_def set_state_def schedule_def changed_def Let_def)
  qed
qed

definition open_answer :: "sync_deps \<Rightarrow> get_blob_response \<Rightarrow> bytes result" where
  "open_answer D r =
     ebind (fromBase64 (gr_nonce r) ''nonce'') (\<lambda>nonce.
     ebind (fromBase64 (gr_ciphertext r) ''ciphertext'') (\<lambda>ciphertext.
     openCell (sd_backend D) (k_cellKey (sd_keys D) State)
       \<lparr>cc_collection = State, cc_version = gr_version r\<rparr>
       \<lparr>cell_nonce = nonce, cell_ciphertext = ciphertext\<rparr>))"

text \<open>The object after a remote payload \<open>p\<close> at version \<open>v\<close> was decoded, and after it was merged into \<open>m\<close>.\<close>

definition seen :: "int \<Rightarrow> parsed_state_payload \<Rightarrow> sync \<Rightarrow> sync" where
  "seen v p s = s\<lparr>sy_createEligible := False, sy_remote := Some p, sy_storedVersion := v\<rparr>"

definition merged_in :: "sync_deps \<Rightarrow> parsed_state_payload \<Rightarrow> sync \<Rightarrow> sync" where
  "merged_in D m s =
     (let (decision, g) = evaluate (map_option known (sy_remote s)) (sy_guard s)
      in s\<lparr>sy_local := m,
           sy_store := store_set (payloadKey (account D) State) (serializeStatePayload m) (sy_store s),
           sy_guard := g,
           sy_syncState := (sy_syncState s)\<lparr>ss_blobMissing := False, ss_mode := td_mode decision,
                            ss_heldBy := td_heldBy decision\<rparr>\<rparr>)"

lemma pullAndMerge_refused:
  "open_answer D r = Inl e \<Longrightarrow> pullAndMerge D (Some r) (s, w) = (Inl e, (s, w))"
  by (cases "fromBase64 (gr_nonce r) ''nonce''"; cases "fromBase64 (gr_ciphertext r) ''ciphertext''")
    (simp_all add: open_answer_def pullAndMerge_def run_defs del: fromBase64_Inr)

lemma pullAndMerge_opened:
  assumes "open_answer D r = Inr plaintext"
  shows "pullAndMerge D (Some r) (s, w) =
     (case fl_accept (account D) State (gr_version r) (sy_store s) of
        (Inl e, st) \<Rightarrow> (Inl e, (s\<lparr>sy_store := st\<rparr>, w))
      | (Inr _, st) \<Rightarrow>
          case decodeStatePayload (utf8_decode plaintext) of
            Inl e \<Rightarrow> (Inl e, (s\<lparr>sy_store := st\<rparr>, w))
          | Inr payload \<Rightarrow>
              case snapshotPayload payload of
                Inl e \<Rightarrow> (Inl e, (s\<lparr>sy_store := st, sy_createEligible := False\<rparr>, w))
              | Inr p \<Rightarrow>
                  case mergeWithRemote (sy_local s) p of
                    Inl e \<Rightarrow> (Inl e, (seen (gr_version r) p (s\<lparr>sy_store := st\<rparr>), w))
                  | Inr m \<Rightarrow>
                      (Inr (present p), (merged_in D m (seen (gr_version r) p (s\<lparr>sy_store := st\<rparr>)), w)))"
proof -
  from assms obtain nonce ct where
    n: "fromBase64 (gr_nonce r) ''nonce'' = Inr nonce" and c: "fromBase64 (gr_ciphertext r) ''ciphertext'' = Inr ct"
    and o: "openCell (sd_backend D) (k_cellKey (sd_keys D) State) \<lparr>cc_collection = State, cc_version = gr_version r\<rparr>
       \<lparr>cell_nonce = nonce, cell_ciphertext = ct\<rparr> = Inr plaintext"
    by (auto simp: open_answer_def simp del: fromBase64_Inr)
  obtain ra st where a: "fl_accept (account D) State (gr_version r) (sy_store s) = (ra, st)" by fastforce
  show ?thesis
  proof (cases ra)
    case (Inl e)
    then show ?thesis using n c o a by (simp add: pullAndMerge_def run_defs del: fromBase64_Inr)
  next
    case (Inr v)
    note acc = a [unfolded Inr]
    show ?thesis
    proof (cases "decodeStatePayload (utf8_decode plaintext)")
      case (Inl e)
      then show ?thesis using n c o acc by (simp add: pullAndMerge_def run_defs del: fromBase64_Inr)
    next
      case (Inr payload)
      note dec = this
      show ?thesis
      proof (cases "snapshotPayload payload")
        case (Inl e)
        then show ?thesis using n c o acc dec by (simp add: pullAndMerge_def run_defs del: fromBase64_Inr)
      next
        case (Inr p)
        then show ?thesis
          using n c o acc dec
          by (cases "mergeWithRemote (sy_local s) p")
            (simp_all add: pullAndMerge_def run_defs seen_def merged_in_def persistLocal_def set_state_def
              applyTakeoverDecision_def Let_def del: fromBase64_Inr split: prod.split)
      qed
    qed
  qed
qed

lemma pruneSpent_run:
  "pruneSpent E D a b (s, w) =
     (case pruneSpentNotes (sy_local s) (\<lambda>_ _. {}) a b of
        Inl e \<Rightarrow> (Inl e, (s, w))
      | Inr _ \<Rightarrow>
          case ev_spentBetween E a b w of
            (Inl e, w') \<Rightarrow> (Inl e, (s, w'))
          | (Inr spent, w') \<Rightarrow>
              case pruneSpentNotes (sy_local s) (\<lambda>_ _. spent) a b of
                Inl e \<Rightarrow> (Inl e, (s, w'))
              | Inr r \<Rightarrow> (Inr (length (pu_dropped r)),
                  (s\<lparr>sy_local := pu_payload r, sy_store :=
                     store_set (payloadKey (account D) State) (serializeStatePayload (pu_payload r)) (sy_store s)\<rparr>, w')))"
proof (cases "pruneSpentNotes (sy_local s) (\<lambda>_ _. {}) a b")
  case (Inl e)
  then show ?thesis by (simp add: pruneSpent_def run_defs)
next
  case (Inr r0)
  obtain q w' where sp: "ev_spentBetween E a b w = (q, w')" by fastforce
  show ?thesis
  proof (cases q)
    case (Inl e)
    with Inr sp show ?thesis by (simp add: pruneSpent_def run_defs)
  next
    case spent: (Inr spent)
    with Inr sp show ?thesis
      by (cases "pruneSpentNotes (sy_local s) (\<lambda>_ _. spent) a b")
        (simp_all add: pruneSpent_def run_defs persistLocal_def)
  qed
qed

section \<open>Relations every operation keeps\<close>

definition on_sync :: "(sync \<Rightarrow> sync \<Rightarrow> bool) \<Rightarrow> sync \<times> 'w \<Rightarrow> sync \<times> 'w \<Rightarrow> bool" where
  "on_sync R sw sw' = R (fst sw) (fst sw')"

locale sync_core =
  fixes D :: sync_deps and R :: "sync \<Rightarrow> sync \<Rightarrow> bool"
  assumes R_frame: "sy_store t = sy_store s \<Longrightarrow> sy_local t = sy_local s \<Longrightarrow> R s t"
    and R_trans: "R s t \<Longrightarrow> R t u \<Longrightarrow> R s u"
    and R_accept: "R s (s\<lparr>sy_store := snd (fl_accept (account D) c v (sy_store s))\<rparr>)"
    and R_bootstrap: "R s (s\<lparr>sy_store := snd (fl_bootstrap (account D) c v (sy_store s))\<rparr>)"
    and R_persist: "R s (s\<lparr>sy_store := store_set (payloadKey (account D) State) j (sy_store s)\<rparr>)"
    and R_merge: "decodeStatePayload j = Inr p \<Longrightarrow> mergeWithRemote (sy_local s) p = Inr m \<Longrightarrow>
          R s (s\<lparr>sy_local := m\<rparr>)"
    and R_change: "decodeStatePayload j = Inr p \<Longrightarrow>
          R s (s\<lparr>sy_local := \<lparr>known = (known p)\<lparr>sp_ephemeralCounters := mergeEphemeralCounterSnapshots
                 [sp_ephemeralCounters (known (sy_local s)), sp_ephemeralCounters (known p)]\<rparr>, extra = extra p\<rparr>\<rparr>)"
begin

lemma R_refl: "R s s"
  by (rule R_frame) simp_all

lemma on_refl: "reflp (on_sync R)"
  by (simp add: reflp_def on_sync_def R_refl)

lemma on_trans: "transp (on_sync R)"
  by (auto simp: transp_def on_sync_def intro: R_trans)

lemma k_rd: "keeps (on_sync R) (rd f)"
  by (rule keepsI) (simp add: on_sync_def rd_def R_refl)

lemma k_wr: "(\<And>s. R s (f s)) \<Longrightarrow> keeps (on_sync R) (wr f)"
  by (rule keepsI) (simp add: on_sync_def wr_def)

lemma k_io: "keeps (on_sync R) (io m)"
  by (rule keepsI) (simp add: on_sync_def io_def R_refl split: prod.split)

lemma k_io_total: "keeps (on_sync R) (io_total m)"
  by (rule keepsI) (simp add: on_sync_def io_total_def R_refl split: prod.split)

lemma k_store: "(\<And>s. R s (s\<lparr>sy_store := snd (m (sy_store s))\<rparr>)) \<Longrightarrow> keeps (on_sync R) (on_store m)"
proof (rule keepsI)
  fix sw :: "sync \<times> 'w"
  assume "\<And>s. R s (s\<lparr>sy_store := snd (m (sy_store s))\<rparr>)"
  from this [of "fst sw"] show "on_sync R sw (snd (on_store m sw))"
    by (cases "m (sy_store (fst sw))") (simp add: on_sync_def on_store_def)
qed

lemma fl_current_state: "snd (fl_current acct c st) = st"
  by (simp add: fl_current_def sbind_def sget_def slift_def split: sum.split)

lemmas k_basic = keeps_sbind [OF on_trans] keeps_scatch [OF on_trans] keeps_sret [OF on_refl]
  keeps_sthrow [OF on_refl] keeps_slift [OF on_refl] k_rd k_io k_io_total

lemma k_set_state: "keeps (on_sync R) (set_state f)"
  unfolding set_state_def by (rule k_wr) (rule R_frame, simp_all)

lemma k_takeover: "keeps (on_sync R) applyTakeoverDecision"
  unfolding applyTakeoverDecision_def by (rule k_wr) (rule R_frame, simp_all add: Let_def split: prod.split)

lemma k_persist: "keeps (on_sync R) (persistLocal D)"
  unfolding persistLocal_def by (rule k_wr) (rule R_persist)

lemma R_changed: "decodeStatePayload j = Inr p \<Longrightarrow> R s (changed D p s)"
proof -
  assume p: "decodeStatePayload j = Inr p"
  let ?l = "\<lparr>known = (known p)\<lparr>sp_ephemeralCounters := mergeEphemeralCounterSnapshots
      [sp_ephemeralCounters (known (sy_local s)), sp_ephemeralCounters (known p)]\<rparr>, extra = extra p\<rparr>"
  let ?s1 = "s\<lparr>sy_local := ?l\<rparr>"
  let ?s2 = "?s1\<lparr>sy_store := store_set (payloadKey (account D) State) (serializeStatePayload ?l) (sy_store ?s1)\<rparr>"
  have "R s ?s2" using R_trans [OF R_change [OF p] R_persist] .
  moreover have "R ?s2 (changed D p s)" by (rule R_frame) (simp_all add: changed_def Let_def)
  ultimately show ?thesis by (rule R_trans)
qed

lemma k_change: "keeps (on_sync R) (applyLocalChange D change)"
proof (rule keepsI)
  fix sw :: "sync \<times> 'w"
  obtain s w where sw: "sw = (s, w)" by (cases sw)
  show "on_sync R sw (snd (applyLocalChange D change sw))"
    unfolding sw applyLocalChange_run on_sync_def
    by (auto simp: R_refl split: sum.split intro: R_changed)
qed

lemma R_merged: 
  assumes "decodeStatePayload j = Inr p" and "mergeWithRemote (sy_local s) p = Inr m"
  shows "R s (merged_in D m (seen v p s))"
proof -
  let ?s0 = "seen v p s"
  let ?s1 = "?s0\<lparr>sy_local := m\<rparr>"
  let ?s2 = "?s1\<lparr>sy_store := store_set (payloadKey (account D) State) (serializeStatePayload m) (sy_store ?s1)\<rparr>"
  have "R s ?s0" by (rule R_frame) (simp_all add: seen_def)
  moreover have "R ?s0 ?s1" by (rule R_merge [OF assms(1)]) (simp add: seen_def assms(2))
  moreover have "R ?s1 ?s2" by (rule R_persist)
  moreover have "R ?s2 (merged_in D m ?s0)"
    by (rule R_frame) (simp_all add: merged_in_def Let_def split: prod.split)
  ultimately show ?thesis using R_trans by blast
qed

lemma k_pull_some: "keeps (on_sync R) (pullAndMerge D (Some r))"
proof (rule keepsI)
  fix sw :: "sync \<times> 'w"
  obtain s w where sw: "sw = (s, w)" by (cases sw)
  show "on_sync R sw (snd (pullAndMerge D (Some r) sw))"
  proof (cases "open_answer D r")
    case (Inl e)
    then show ?thesis by (simp add: sw pullAndMerge_refused on_sync_def R_refl)
  next
    case (Inr plaintext)
    obtain ra st where a: "fl_accept (account D) State (gr_version r) (sy_store s) = (ra, st)" by fastforce
    have acc: "R s (s\<lparr>sy_store := st\<rparr>)" using R_accept [of s State "gr_version r"] by (simp add: a)
    have acc': "R s (s\<lparr>sy_store := st, sy_createEligible := False\<rparr>)"
      by (rule R_trans [OF acc]) (rule R_frame, simp_all)
    have seen: "R s (seen v p (s\<lparr>sy_store := st\<rparr>))" for v p
      by (rule R_trans [OF acc]) (rule R_frame, simp_all add: seen_def)
    have merged: "R s (merged_in D m (seen v p (s\<lparr>sy_store := st\<rparr>)))"
      if "decodeStatePayload j = Inr p" "mergeWithRemote (sy_local s) p = Inr m" for j p m v
      by (rule R_trans [OF acc R_merged]) (use that in simp_all)
    show ?thesis
      unfolding sw pullAndMerge_opened [OF Inr] on_sync_def a
      by (auto simp: acc acc' seen snapshotPayload_def split: sum.split intro: merged)
  qed
qed

lemma k_pullAndMerge: "keeps (on_sync R) (pullAndMerge D remote)"
proof (cases remote)
  case None
  have "keeps (on_sync R) (on_store (fl_current (account D) State))"
    by (rule k_store) (rule R_frame, simp_all add: fl_current_state)
  then show ?thesis
    unfolding None pullAndMerge_def option.case
    by (intro k_basic keeps_if k_set_state k_wr R_frame) simp_all
next
  case (Some r)
  then show ?thesis by (simp add: k_pull_some)
qed

lemma k_pull_begin: "keeps (on_sync R) pull_begin"
  unfolding pull_begin_def by (intro k_basic k_wr R_frame) simp_all

lemma k_pull_fetch: "keeps (on_sync R) (pull_fetch E D)"
  unfolding pull_fetch_def by (intro k_basic) (auto intro: k_basic split: option.split)

lemma k_pull_apply: "keeps (on_sync R) (pull_apply D n remote)"
  unfolding pull_apply_def by (intro k_basic keeps_if k_wr k_pullAndMerge R_frame) simp_all

lemma k_pull: "keeps (on_sync R) (pull E D)"
  unfolding pull_def by (intro k_basic k_pull_begin k_pull_fetch k_pull_apply)

lemma k_assert: "keeps (on_sync R) assertWriterOrCreate"
  unfolding assertWriterOrCreate_def assertWriter_def by (intro k_basic keeps_if)

lemma k_now: "keeps (on_sync R) (now_seconds E)"
  unfolding now_seconds_def by (intro k_basic)

lemma k_stamp: "keeps (on_sync R) (stampCurrent E)"
  unfolding stampCurrent_def
  by (intro k_basic k_now) (auto intro!: k_basic k_wr R_frame split: prod.split)

lemma k_seal: "keeps (on_sync R) (seal_and_sign E D payload v pv)"
  unfolding seal_and_sign_def Let_def by (intro k_basic k_now)

lemma k_write: "keeps (on_sync R) (write_next E D next1)"
proof -
  have "keeps (on_sync R) (on_store (fl_bootstrap (account D) State v))" for v
    by (rule k_store) (rule R_bootstrap)
  then show ?thesis
    unfolding write_next_def writeOnce_def acceptOwnWrite_def acceptRemoteWrite_def
    by (intro k_basic k_stamp k_seal k_takeover k_wr R_frame) simp_all
qed

lemma k_pushOnce: "keeps (on_sync R) (pushOnce E D)"
  unfolding pushOnce_def by (intro k_basic k_assert k_write)

lemma k_push: "keeps (on_sync R) (push E D)"
  unfolding push_def by (intro k_basic k_assert k_pushOnce keeps_if k_pull k_write)

lemma k_pushGuarded: "keeps (on_sync R) (pushGuarded E D)"
  unfolding pushGuarded_def by (intro k_basic k_push k_set_state)

lemma k_clear: "keeps (on_sync R) clearDebounce"
  unfolding clearDebounce_def by (rule k_wr) (rule R_frame, simp_all)

lemma k_flush: "keeps (on_sync R) (flushNow E D)"
  unfolding flushNow_def by (intro k_basic k_clear k_pushGuarded)

lemma k_turn: "keeps (on_sync R) (durable_turn D change)"
  unfolding durable_turn_def by (intro k_basic k_assert) (auto intro: k_basic k_change split: prod.split)

lemma k_durable: "keeps (on_sync R) (durable_attempts E D change k)"
proof (induction k)
  case 0
  show ?case unfolding durable_attempts.simps by (intro k_basic)
next
  case (Suc k)
  show ?case
    unfolding durable_attempts.simps
    by (intro k_basic k_pull k_turn k_pushOnce k_set_state keeps_if k_clear Suc)
qed

lemma k_mutate: "keeps (on_sync R) (mutateAsWriterDurably E D change)"
  unfolding mutateAsWriterDurably_def by (rule k_durable)

lemma k_updateAsWriter: "keeps (on_sync R) (updateAsWriter D change)"
  unfolding updateAsWriter_def by (intro k_basic keeps_if k_change)

lemma R_bootstrap_all: "R s (s\<lparr>sy_store := snd (bootstrap_all (account D) cs floors (sy_store s))\<rparr>)"
proof (induction cs arbitrary: s)
  case Nil
  show ?case by (rule R_frame) (simp_all add: sret_def)
next
  case (Cons c cs)
  obtain r st where b: "fl_bootstrap (account D) c (floors c) (sy_store s) = (r, st)" by fastforce
  have one: "R s (s\<lparr>sy_store := st\<rparr>)" using R_bootstrap [of s c "floors c"] by (simp add: b)
  show ?case
  proof (cases r)
    case (Inl e)
    then show ?thesis using one by (simp add: sbind_def b)
  next
    case (Inr v)
    have "R (s\<lparr>sy_store := st\<rparr>) (s\<lparr>sy_store := snd (bootstrap_all (account D) cs floors st)\<rparr>)"
      using Cons.IH [of "s\<lparr>sy_store := st\<rparr>"] by simp
    with one have "R s (s\<lparr>sy_store := snd (bootstrap_all (account D) cs floors st)\<rparr>)" by (rule R_trans)
    then show ?thesis by (simp add: sbind_def b Inr)
  qed
qed

lemma k_confirm: "keeps (on_sync R) (sync_confirmTakeover D floors)"
proof -
  have "keeps (on_sync R) (\<lambda>sw. case guard_confirmTakeover (account D) p floors (sy_guard (fst sw)) (sy_store (fst sw)) of
          (res, g, st) \<Rightarrow> (res, ((fst sw)\<lparr>sy_guard := g, sy_store := st\<rparr>, snd sw)))" for p
  proof (rule keepsI)
    fix sw :: "sync \<times> 'w"
    let ?st = "snd (bootstrap_all (account D) COLLECTIONS floors (sy_store (fst sw)))"
    have "R (fst sw) ((fst sw)\<lparr>sy_store := ?st\<rparr>)" by (rule R_bootstrap_all)
    moreover have "R ((fst sw)\<lparr>sy_store := ?st\<rparr>) ((fst sw)\<lparr>sy_guard := g, sy_store := ?st\<rparr>)" for g
      by (rule R_frame) simp_all
    ultimately have "R (fst sw) ((fst sw)\<lparr>sy_guard := g, sy_store := ?st\<rparr>)" for g by (rule R_trans)
    from \<open>R (fst sw) ((fst sw)\<lparr>sy_store := ?st\<rparr>)\<close> this show "on_sync R sw (snd (case guard_confirmTakeover (account D) p floors (sy_guard (fst sw)) (sy_store (fst sw)) of
          (res, g, st) \<Rightarrow> (res, ((fst sw)\<lparr>sy_guard := g, sy_store := st\<rparr>, snd sw))))"
      by (auto simp: on_sync_def guard_confirmTakeover_def split: prod.split sum.split)
  qed
  then show ?thesis
    unfolding sync_confirmTakeover_def
    by (intro k_basic) (auto intro!: k_basic k_takeover split: option.split)
qed

end

text \<open>A relation that a prune keeps too is kept by whole runs.\<close>

locale sync_relation = sync_core D R for D :: sync_deps and R :: "sync \<Rightarrow> sync \<Rightarrow> bool" +
  assumes R_prune: "pruneSpentNotes (sy_local s) oracle a b = Inr r \<Longrightarrow> R s (s\<lparr>sy_local := pu_payload r\<rparr>)"
begin

lemma k_prune:
  fixes E :: "'w env"
  shows "keeps (on_sync R) (pruneSpent E D a b)"
proof (rule keepsI)
  fix sw :: "sync \<times> 'w"
  obtain s w where sw: "sw = (s, w)" by (cases sw)
  have pruned: "R s (s\<lparr>sy_local := pu_payload r, sy_store :=
      store_set (payloadKey (account D) State) (serializeStatePayload (pu_payload r)) (sy_store s)\<rparr>)"
    if "pruneSpentNotes (sy_local s) orc a b = Inr r" for orc r
    using R_trans [OF R_prune [OF that] R_persist [of "s\<lparr>sy_local := pu_payload r\<rparr>"]] by simp
  show "on_sync R sw (snd (pruneSpent E D a b sw))"
    unfolding sw pruneSpent_run on_sync_def
    by (auto simp: R_refl split: sum.split prod.split intro: pruned)
qed

lemma k_run_op: "on_sync R sw (run_sync_op E D p sw)"
  unfolding run_sync_op_def sync_update_def
  by (cases p) (simp_all add: keepsD k_pull k_pull_begin k_pull_apply k_change k_updateAsWriter k_mutate k_flush
      k_confirm k_prune)

lemma k_run_ops: "on_sync R sw (run_sync_ops E D ops sw)"
proof (induction ops arbitrary: sw)
  case Nil
  show ?case by (simp add: run_sync_ops_def on_sync_def R_refl)
next
  case (Cons p ops)
  have "on_sync R sw (run_sync_ops E D ops (run_sync_op E D p sw))"
    by (rule transpD [OF on_trans k_run_op Cons.IH])
  then show ?case by (simp add: run_sync_ops_def)
qed

end

section \<open>The floor is such a relation\<close>

definition floor_le :: "sync_deps \<Rightarrow> sync \<Rightarrow> sync \<Rightarrow> bool" where
  "floor_le D s t \<longleftrightarrow> (\<forall>c f. fl_read (account D) c (sy_store s) = Inr f \<longrightarrow>
     (\<exists>f'. fl_read (account D) c (sy_store t) = Inr f' \<and> f \<le> f'))"

lemma floorKey_payloadKey: "floorKey a c \<noteq> payloadKey a d"
  by (simp add: floorKey_def payloadKey_def)

lemma fl_read_payload: "fl_read a c (store_set (payloadKey a d) j st) = fl_read a c st"
  by (simp add: fl_read_def store_set_def floorKey_payloadKey)

interpretation floor_rel: sync_relation D "floor_le D" for D
proof unfold_locales
  fix s t u :: sync and c :: collection and v :: int
  show "floor_le D s t" if "sy_store t = sy_store s" using that by (auto simp: floor_le_def)
  show "floor_le D s u" if "floor_le D s t" "floor_le D t u"
    using that unfolding floor_le_def by (meson order_trans)
  show "floor_le D s (s\<lparr>sy_store := snd (fl_accept (account D) c v (sy_store s))\<rparr>)"
    using vf.acc_mono by (simp add: floor_le_def)
  show "floor_le D s (s\<lparr>sy_store := snd (fl_bootstrap (account D) c v (sy_store s))\<rparr>)"
    using vf.boot_mono by (simp add: floor_le_def)
qed (auto simp: floor_le_def fl_read_payload)

section \<open>The counters are such a relation\<close>

abbreviation local_counters :: "sync \<Rightarrow> (string \<times> int) list" where
  "local_counters s \<equiv> sp_ephemeralCounters (known (sy_local s))"

definition counters_le :: "sync \<Rightarrow> sync \<Rightarrow> bool" where
  "counters_le s t \<longleftrightarrow> (counters_ok (local_counters s) \<longrightarrow>
     counters_ok (local_counters t) \<and> (\<forall>k. counter_of (local_counters s) k \<le> counter_of (local_counters t) k))"

lemma decode_counters_ok: "decodeStatePayload j = Inr p \<Longrightarrow> counters_ok (sp_ephemeralCounters (known p))"
  by (auto simp: decodeStatePayload_def known_wf_def counters_wf_ok split: option.splits
      dest!: parseStatePayload_wf)

lemma mergeWithRemote_counters:
  "mergeWithRemote a b = Inr m \<Longrightarrow> sp_ephemeralCounters (known m) =
     mergeEphemeralCounterSnapshots [sp_ephemeralCounters (known a), sp_ephemeralCounters (known b)]"
  unfolding mergeWithRemote_def by (drule mergeStatePayloads_Inr(3)) simp

lemma merge_two:
  assumes "counters_ok a" and "counters_ok b"
  shows "counters_ok (mergeEphemeralCounterSnapshots [a, b])"
    and "counter_of (mergeEphemeralCounterSnapshots [a, b]) k = max (counter_of a k) (counter_of b k)"
proof -
  have ok: "list_all counters_ok [a, b]" using assms by simp
  show "counters_ok (mergeEphemeralCounterSnapshots [a, b])" by (rule mergeCounters_ok [OF ok])
  show "counter_of (mergeEphemeralCounterSnapshots [a, b]) k = max (counter_of a k) (counter_of b k)"
    using mergeCounters_ge [OF ok, of a k] mergeCounters_ge [OF ok, of b k] mergeCounters_attained [OF ok, of k]
    by (auto simp: max_def)
qed

interpretation counter_rel: sync_relation D counters_le for D
proof unfold_locales
  fix s t u :: sync and p m :: parsed_state_payload and j :: string and r :: prune_result
    and orc :: "int \<Rightarrow> int \<Rightarrow> string set" and a b :: int
  show "counters_le s t" if "sy_local t = sy_local s" using that by (simp add: counters_le_def)
  show "counters_le s u" if "counters_le s t" "counters_le t u"
    using that unfolding counters_le_def by (meson order_trans)
  show "counters_le s (s\<lparr>sy_local := m\<rparr>)"
    if "decodeStatePayload j = Inr p" "mergeWithRemote (sy_local s) p = Inr m"
    using decode_counters_ok [OF that(1)] by (simp add: counters_le_def mergeWithRemote_counters [OF that(2)] merge_two)
  show "counters_le s (s\<lparr>sy_local := \<lparr>known = (known p)\<lparr>sp_ephemeralCounters := mergeEphemeralCounterSnapshots
            [local_counters s, sp_ephemeralCounters (known p)]\<rparr>, extra = extra p\<rparr>\<rparr>)"
    if "decodeStatePayload j = Inr p"
    using decode_counters_ok [OF that] by (simp add: counters_le_def merge_two)
  show "counters_le s (s\<lparr>sy_local := pu_payload r\<rparr>)" if "pruneSpentNotes (sy_local s) orc a b = Inr r"
    using pruneSpentNotes_Inr(8) [OF that] by (simp add: counters_le_def)
qed (simp_all add: counters_le_def)

section \<open>Sealing, sending and reading back\<close>

lemma open_answer_sealed:
  assumes "aead_ok (sd_backend D)" and "length (k_cellKey (sd_keys D) State) = 32"
    and "sealCell (sd_backend D) (k_cellKey (sd_keys D) State) \<lparr>cc_collection = State, cc_version = v\<rparr> p nonce = Inr cell"
    and "gr_version r = v" and "gr_nonce r = toBase64 (cell_nonce cell)" and "gr_ciphertext r = toBase64 (cell_ciphertext cell)"
  shows "open_answer D r = Inr p"
proof -
  let ?ctx = "\<lparr>cc_collection = State, cc_version = v\<rparr>"
  from assms(3) obtain aad padded where
    n: "length nonce = 12" and aad: "cellAad State v = Inr aad" and pd: "pad p = Inr padded"
    by (auto simp: sealCell_def GCM_NONCE_BYTES_def split: if_splits)
  from aad have "is_count v" by (auto simp: cellAad_unfold u64be_Inr)
  moreover from pd have "length p \<le> maxPayloadBytes" using pad_too_long [of p] by (metis Inl_Inr_False not_le)
  ultimately obtain c where "sealCell (sd_backend D) (k_cellKey (sd_keys D) State) ?ctx p nonce = Inr c"
    and "openCell (sd_backend D) (k_cellKey (sd_keys D) State) ?ctx c = Inr p"
    using sealCell_total [OF assms(1,2) n, of ?ctx p] by auto
  with assms(3) have "openCell (sd_backend D) (k_cellKey (sd_keys D) State) ?ctx cell = Inr p" by simp
  then show ?thesis using assms(4-6) by (cases cell) (simp add: open_answer_def fromBase64_toBase64)
qed

lemma seal_and_sign_Inr:
  assumes "seal_and_sign E D p v pv (s, w) = (Inr body, sw)"
  shows "\<exists>nonce cell. sealCell (sd_backend D) (k_cellKey (sd_keys D) State) \<lparr>cc_collection = State, cc_version = v\<rparr>
            (utf8 (serializeStatePayload p)) nonce = Inr cell \<and>
         pr_version body = v \<and> pr_prevVersion body = pv \<and> pr_nonce body = toBase64 (cell_nonce cell) \<and>
         pr_ciphertext body = toBase64 (cell_ciphertext cell) \<and> fst sw = s"
proof -
  from assms obtain nonce cell i where
    c: "sealCell (sd_backend D) (k_cellKey (sd_keys D) State) \<lparr>cc_collection = State, cc_version = v\<rparr>
          (utf8 (serializeStatePayload p)) nonce = Inr cell" and s: "fst sw = s"
    and b: "buildPutRequest (sd_backend D) (sd_keys D) i = Inr body" "pq_version i = v" "pq_prevVersion i = pv"
      "pq_nonce i = cell_nonce cell" "pq_ciphertext i = cell_ciphertext cell"
    by (force simp: seal_and_sign_def Let_def sbind_Inr_iff io_total_def now_seconds_def slift_def sret_def
        split: prod.splits)
  from b have "pr_version body = v \<and> pr_prevVersion body = pv \<and> pr_nonce body = toBase64 (cell_nonce cell) \<and>
      pr_ciphertext body = toBase64 (cell_ciphertext cell)"
    by (auto simp: buildPutRequest_Inr)
  with c s show ?thesis by blast
qed

lemma pull_apply_present:
  assumes "open_answer D r = Inr (utf8 (serializeStatePayload p))" and "payload_wf p"
    and "fl_read (account D) State (sy_store s) = Inr f" and "f \<le> gr_version r" and "is_count (gr_version r)"
    and "mergeWithRemote (sy_local s) p = Inr m" and "\<not> n < sy_appliedPullSequence s"
  shows "\<exists>s'. pull_apply D n (Some r) (s, w) = (Inr (present p), (s', w)) \<and> sy_local s' = m \<and>
     sy_remote s' = Some p \<and> sy_storedVersion s' = gr_version r \<and> sy_lastPullOutcome s' = present p \<and>
     fl_read (account D) State (sy_store s') = Inr (gr_version r)"
proof -
  obtain st where acc: "fl_accept (account D) State (gr_version r) (sy_store s) = (Inr (gr_version r), st)"
    and fl: "fl_read (account D) State st = Inr (gr_version r)"
    using vf.acc_effect [OF assms(3,5,4)] by (metis prod.collapse)
  have dec: "decodeStatePayload (utf8_decode (utf8 (serializeStatePayload p))) = Inr p"
    by (simp add: utf8_decode_utf8 decode_serialize [OF assms(2)])
  have pm: "pullAndMerge D (Some r) (s, w) =
      (Inr (present p), (merged_in D m (seen (gr_version r) p (s\<lparr>sy_store := st\<rparr>)), w))"
    using acc assms(6) by (simp add: pullAndMerge_opened [OF assms(1)] dec snapshotPayload_wf [OF assms(2)])
  have snap: "snapshotPullOutcome (present p) = Inr (present p)"
    by (simp add: snapshotPullOutcome_def snapshotPayload_wf [OF assms(2)])
  let ?t = "(merged_in D m (seen (gr_version r) p (s\<lparr>sy_store := st\<rparr>)))\<lparr>sy_appliedPullSequence := n,
      sy_lastPullOutcome := present p\<rparr>"
  have "pull_apply D n (Some r) (s, w) = (Inr (present p), (?t, w))"
    using assms(7) pm snap by (simp add: pull_apply_def run_defs)
  moreover have "fl_read (account D) State (sy_store ?t) = Inr (gr_version r)"
    by (simp add: merged_in_def seen_def Let_def fl_read_payload fl split: prod.split)
  ultimately show ?thesis
    by (intro exI [of _ ?t]) (simp add: merged_in_def seen_def Let_def split: prod.split)
qed

section \<open>The durable mutation\<close>

lemma scatch_Inr_iff:
  "scatch m h s = (Inr y, t) \<longleftrightarrow> m s = (Inr y, t) \<or> (\<exists>e u. m s = (Inl e, u) \<and> h e u = (Inr y, t))"
  by (auto simp: scatch_def split: prod.splits sum.splits)

lemma durable_turn_Inr:
  assumes "durable_turn D change (s, w) = (Inr v, (s', w'))"
  shows "\<exists>snap p q. snapshotPayload (sy_local s) = Inr snap \<and> change snap = Inr (p, v) \<and>
     decodeStatePayload (serializeStatePayload p) = Inr q \<and> s' = changed D q s \<and> w' = w \<and>
     (ss_mode (sy_syncState s) = writer \<or> sy_createEligible s)"
proof -
  from assms have ok: "ss_mode (sy_syncState s) = writer \<or> sy_createEligible s"
    by (auto simp: durable_turn_def sbind_Inr_iff assertWriterOrCreate_def assertWriter_def rd_def sthrow_def
        split: if_splits)
  with assms obtain snap p where sp: "snapshotPayload (sy_local s) = Inr snap" "change snap = Inr (p, v)"
    and ch: "applyLocalChange D (\<lambda>_. Inr p) (s, w) = (Inr (), (s', w'))"
    by (auto simp: durable_turn_def sbind_Inr_iff assertWriterOrCreate_def assertWriter_def rd_def slift_def
        sret_def split: if_splits)
  from ch sp(1) obtain q where "decodeStatePayload (serializeStatePayload p) = Inr q" "s' = changed D q s" "w' = w"
    by (auto simp: applyLocalChange_run split: sum.splits)
  with sp ok show ?thesis by blast
qed

lemma stampCurrent_Inr:
  assumes "stampCurrent E (s, w) = (Inr p, (s', w'))"
  shows "sp_ephemeralCounters (known p) = local_counters s \<and>
     sp_installId (known p) = id_installId (ig_identity (sy_guard s)) \<and>
     s' = s\<lparr>sy_guard := sy_guard s'\<rparr>"
  using assms
  by (auto simp: stampCurrent_def sbind_Inr_iff now_seconds_def io_total_def sret_def rd_def wr_def slift_def
      stamp_def Let_def split: prod.splits if_splits)

lemma pushOnce_Inr:
  assumes "pushOnce E D (s, w) = (Inr (), (s', w'))"
  shows "\<exists>stamped body t w1 w2 w3. sp_ephemeralCounters (known stamped) = local_counters s \<and>
     sp_installId (known stamped) = id_installId (ig_identity (sy_guard s)) \<and>
     seal_and_sign E D stamped
       (case sy_lastPullOutcome s of missing f \<Rightarrow> f + 1 | _ \<Rightarrow> sy_storedVersion s + 1)
       (case sy_lastPullOutcome s of missing f \<Rightarrow> 0 | _ \<Rightarrow> sy_storedVersion s) (t, w1) = (Inr body, (t, w2)) \<and>
     ev_putBlob E (account D) State body w2 = (Inr (), w3)"
proof -
  let ?next = "case sy_lastPullOutcome s of missing f \<Rightarrow> nextWrite (missing f) s
                 | _ \<Rightarrow> (sy_storedVersion s + 1, sy_storedVersion s)"
  from assms have "write_next E D ?next (s, w) = (Inr (), (s', w'))"
    by (cases "sy_lastPullOutcome s")
      (auto simp: pushOnce_def sbind_Inr_iff assertWriterOrCreate_def assertWriter_def rd_def sthrow_def sret_def
        split: if_splits)
  then obtain stamped t w1 sw where st: "stampCurrent E (s, w) = (Inr stamped, (t, w1))"
    and wo: "writeOnce E D stamped (fst ?next) (snd ?next) (t, w1) = (Inr (), sw)"
    by (auto simp: write_next_def sbind_Inr_iff)
  from wo obtain body sw1 where seal: "seal_and_sign E D stamped (fst ?next) (snd ?next) (t, w1) = (Inr body, sw1)"
    and put: "io (ev_putBlob E (account D) State body) sw1 = (Inr (), sw)"
    by (auto simp: writeOnce_def sbind_Inr_iff)
  obtain w2 where sw1: "sw1 = (t, w2)" using seal_and_sign_Inr [OF seal] by (cases sw1) auto
  from put sw1 obtain w3 where "ev_putBlob E (account D) State body w2 = (Inr (), w3)"
    by (auto simp: io_def split: prod.splits)
  moreover have "fst ?next = (case sy_lastPullOutcome s of missing f \<Rightarrow> f + 1 | _ \<Rightarrow> sy_storedVersion s + 1)"
    "snd ?next = (case sy_lastPullOutcome s of missing f \<Rightarrow> 0 | _ \<Rightarrow> sy_storedVersion s)"
    by (simp_all add: nextWrite_def split: pull_outcome.split)
  ultimately show ?thesis using stampCurrent_Inr [OF st] seal sw1 by metis
qed

text \<open>A durable mutation returns only through an attempt that pulled, ran its turn, and had its own push
  accepted.\<close>

lemma durable_attempts_Inr:
  "durable_attempts E D change k (s, w) = (Inr v, sw) \<Longrightarrow>
   \<exists>s0 w0 out s1 w1 s2 w2 s3 w3. pull E D (s0, w0) = (Inr out, (s1, w1)) \<and>
     durable_turn D change (s1, w1) = (Inr v, (s2, w2)) \<and> pushOnce E D (s2, w2) = (Inr (), (s3, w3))"
proof (induction k arbitrary: s w)
  case 0
  then show ?case by (simp add: sthrow_def)
next
  case (Suc k)
  define A where "A v' n = sbind (pushOnce E D) (\<lambda>_. sbind (rd (\<lambda>s. n = sy_localRevision s)) (\<lambda>noNewer.
      sbind (set_state (\<lambda>t. t\<lparr>ss_degraded := None, ss_pendingWrite := (if noNewer then False else ss_pendingWrite t)\<rparr>))
        (\<lambda>_. sbind (if noNewer then clearDebounce else sret ()) (\<lambda>_. sret v'))))" for v' :: 'a and n
  define H where "H e = (if \<not> isConflict e
      then sbind (set_state (\<lambda>t. t\<lparr>ss_degraded := Some (''writer mutation'', e)\<rparr>)) (\<lambda>_. sthrow e)
      else durable_attempts E D change k)" for e
  from Suc.prems obtain out s1 w1 v' s2 w2 where
    p: "pull E D (s, w) = (Inr out, (s1, w1))" and t: "durable_turn D change (s1, w1) = (Inr v', (s2, w2))"
    and sc: "scatch (A v' (sy_localRevision s2)) H (s2, w2) = (Inr v, sw)"
    unfolding durable_attempts.simps A_def [symmetric] H_def [symmetric] by (auto simp: sbind_Inr_iff rd_def)
  have A: "\<exists>s3 w3. pushOnce E D (s2, w2) = (Inr (), (s3, w3)) \<and> v' = v"
    if "A v' (sy_localRevision s2) (s2, w2) = (Inr v, sw)"
    using that by (auto simp: A_def sbind_Inr_iff sret_def rd_def set_state_def wr_def)
  have H: "\<exists>s3 w3. durable_attempts E D change k (s3, w3) = (Inr v, sw)" if "H e u = (Inr v, sw)" for e u
    using that by (cases u) (auto simp: H_def sbind_Inr_iff sthrow_def split: if_splits)
  from sc A H have rest: "(\<exists>s3 w3. pushOnce E D (s2, w2) = (Inr (), (s3, w3)) \<and> v' = v) \<or>
      (\<exists>s3 w3. durable_attempts E D change k (s3, w3) = (Inr v, sw))"
    unfolding scatch_Inr_iff by blast
  from rest show ?case
  proof
    assume "\<exists>s3 w3. pushOnce E D (s2, w2) = (Inr (), (s3, w3)) \<and> v' = v"
    with p t show ?thesis by blast
  next
    assume "\<exists>s3 w3. durable_attempts E D change k (s3, w3) = (Inr v, sw)"
    with Suc.IH show ?thesis by blast
  qed
qed

end
