(* ===== verification/Client_Properties.thy ===== *)
theory Client_Properties
  imports Sync_Lemmas
begin

text \<open>
  The properties of the PSS client: the wire encodings, the payload, the cryptographic framing, the
  merge, the takeover guard, and the sync engine running against a server that may answer anything.
\<close>

section \<open>Concrete objects for the instances\<close>

definition sample_id :: string where
  "sample_id = ''0x00112233445566778899aabbccddeeff''"

definition other_id :: string where
  "other_id = ''0xffeeddccbbaa99887766554433221100''"

definition sample_payload :: parsed_state_payload where
  "sample_payload =
     \<lparr>known = \<lparr>sp_schema = 2, sp_installId = sample_id, sp_platform = ''web'', sp_updatedAt = 7,
        sp_selfEphHighwater = 3, sp_incomingIssueHighwater = 1, sp_issuedAddresses = [\<lparr>ia_index = 0\<rparr>],
        sp_unspentNotes = [], sp_syncCursor = \<lparr>sc_block = 9, sc_logIndex = 1\<rparr>,
        sp_nullifierCheckedAt = \<lparr>nc_block = 9\<rparr>, sp_ephemeralCounters = [(''self'', 5)]\<rparr>,
      extra = [(''theme'', JStr ''dark'')]\<rparr>"

definition other_payload :: parsed_state_payload where
  "other_payload = sample_payload\<lparr>known := (known sample_payload)\<lparr>sp_installId := other_id,
     sp_updatedAt := 8, sp_ephemeralCounters := [(''self'', 4)]\<rparr>\<rparr>"

definition sample_keys :: pss_keys where
  "sample_keys = \<lparr>k_authSeed = replicate 32 1, k_authPublicKey = replicate 32 1, k_accountId = replicate 32 1,
     k_cellKey = (\<lambda>_. replicate 32 2)\<rparr>"

definition sample_deps :: sync_deps where
  "sample_deps = \<lparr>sd_backend = clear_backend, sd_keys = sample_keys, sd_conflictRetries = 1,
     sd_platform = ''web'', sd_invite = None\<rparr>"

definition sample_sync :: sync where
  "sample_sync = initial_sync (\<lambda>_. None)
     \<lparr>ig_identity = \<lparr>id_installId = sample_id, id_platform = ''web''\<rparr>, ig_confirmedAgainst = None\<rparr>
     sample_payload writer None"

definition sample_env :: "unit env" where
  "sample_env = \<lparr>ev_getBlob = (\<lambda>_ _ w. (Inr None, w)), ev_putBlob = (\<lambda>_ _ _ w. (Inr (), w)),
     ev_now = (\<lambda>w. (7000, w)), ev_randomBytes = (\<lambda>n w. (replicate n 7, w)),
     ev_spentBetween = (\<lambda>_ _ w. (Inr {}, w))\<rparr>"

definition junk_answer :: get_blob_response where
  "junk_answer = \<lparr>gr_version = 12, gr_prevVersion = 11, gr_nonce = toBase64 (replicate 12 0),
     gr_ciphertext = toBase64 (replicate 17 255), gr_serverTime = 0\<rparr>"

lemmas sample_defs = sample_payload_def other_payload_def sample_id_def other_id_def

lemma sample_payload_wf: "payload_wf sample_payload" "payload_wf other_payload"
  by (simp_all add: sample_defs payload_wf_def known_wf_def extra_wf_def counters_wf_def is_count_def
      isSafeInteger_def MAX_SAFE_INTEGER_def PSS_SCHEMA_VERSION_def INSTALL_ID_SHAPE_def hex_shape_def
      is_lower_hex_def PLATFORM_MAX_CHARS_def COUNTER_SCOPE_SHAPE_def MAX_COUNTER_SCOPES_def
      STATE_PAYLOAD_KNOWN_KEYS_def)

lemma sample_counters_ok: "counters_ok (local_counters sample_sync)"
  by (simp add: sample_sync_def initial_sync_def sample_payload_def counters_ok_def COUNTER_SCOPE_SHAPE_def
      is_count_def isSafeInteger_def MAX_SAFE_INTEGER_def)

lemma sample_floor: "fl_read (account sample_deps) c (sy_store sample_sync) = Inr 0"
  by (simp add: sample_sync_def initial_sync_def fl_read_def)

section \<open>The sync engine against any server\<close>

text \<open>C1: whatever the server answers and in whatever order pulls, updates, durable mutations, flushes,
  takeovers and prunes run, returning or throwing, no ephemeral counter of the local state ever moves
  down and no scope is lost: a counter that moved down would hand out an index twice.\<close>

theorem counters_never_regress:
  assumes "counters_ok (sp_ephemeralCounters (known (sy_local s)))"
    and "run_sync_ops E D ops (s, w) = (s', w')"
  shows "counters_ok (sp_ephemeralCounters (known (sy_local s'))) \<and>
     counter_of (sp_ephemeralCounters (known (sy_local s))) scope
       \<le> counter_of (sp_ephemeralCounters (known (sy_local s'))) scope"
proof -
  have "counters_le s s'" using counter_rel.k_run_ops [of "(s, w)" E D ops] assms(2) by (simp add: on_sync_def)
  with assms(1) show ?thesis by (simp add: counters_le_def)
qed

theorem counters_never_regress_witness:
  "5 \<le> counter_of (local_counters (fst (run_sync_ops sample_env sample_deps
     [OpPullApply 1 (Some junk_answer), OpFlush] (sample_sync, ())))) ''self''"
proof -
  have "counter_of (local_counters sample_sync) ''self'' = 5"
    by (simp add: sample_sync_def initial_sync_def sample_payload_def counter_of_def)
  with counters_never_regress [OF sample_counters_ok surjective_pairing,
      where scope = "''self''" and E = sample_env and D = sample_deps
        and ops = "[OpPullApply 1 (Some junk_answer), OpFlush]" and w = "()"]
  show ?thesis by simp
qed

text \<open>C2: under the same arbitrary runs, the highest accepted version of a collection, once readable,
  stays readable and is never lowered, so a version this install has seen superseded stays refused.\<close>

theorem rollback_floor_never_lowered:
  assumes "fl_read (account D) c (sy_store s) = Inr f"
    and "run_sync_ops E D ops (s, w) = (s', w')"
  shows "\<exists>f'. fl_read (account D) c (sy_store s') = Inr f' \<and> f \<le> f'"
proof -
  have "floor_le D s s'" using floor_rel.k_run_ops [of D "(s, w)" E ops] assms(2) by (simp add: on_sync_def)
  with assms(1) show ?thesis by (simp add: floor_le_def)
qed

theorem rollback_floor_never_lowered_witness:
  "\<exists>f'. fl_read (account sample_deps) State (sy_store (fst (run_sync_ops sample_env sample_deps
     [OpPullApply 1 (Some junk_answer), OpConfirmTakeover (\<lambda>_. 4), OpFlush] (sample_sync, ())))) = Inr f' \<and> 0 \<le> f'"
  by (rule rollback_floor_never_lowered [OF sample_floor surjective_pairing])

text \<open>C3: an answer whose ciphertext does not open at the version it claims changes nothing: not the
  floor, not the stored version, not the local state, not the writer role. The claimed version is
  believed only after the cell opened under it.\<close>

theorem unauthenticated_answer_changes_nothing:
  assumes "gr_nonce r = toBase64 nonce" and "gr_ciphertext r = toBase64 ct"
    and "openCell (sd_backend D) (k_cellKey (sd_keys D) State)
           \<lparr>cc_collection = State, cc_version = gr_version r\<rparr>
           \<lparr>cell_nonce = nonce, cell_ciphertext = ct\<rparr> = Inl e"
    and "\<not> n < sy_appliedPullSequence s"
  shows "pull_apply D n (Some r) (s, w) = (Inl e, (s, w))"
proof -
  have "open_answer D r = Inl e" using assms(1-3) by (simp add: open_answer_def fromBase64_toBase64)
  then have "pullAndMerge D (Some r) (s, w) = (Inl e, (s, w))" by (rule pullAndMerge_refused)
  with assms(4) show ?thesis by (simp add: pull_apply_def run_defs)
qed

lemma junk_refused:
  "openCell clear_backend (replicate 32 2) \<lparr>cc_collection = State, cc_version = 12\<rparr>
     \<lparr>cell_nonce = replicate 12 0, cell_ciphertext = replicate 17 255\<rparr> =
   Inl (PssCryptoError ''AES-GCM authentication failed'')"
proof -
  obtain v where v: "u64be 12 ''version'' = Inr v" "length v = 8"
    using u64be_length [of 12 "''version''"]
    by (auto simp: u64be_Inr is_count_def isSafeInteger_def MAX_SAFE_INTEGER_def)
  then have aad: "cellAad State 12 = Inr ([5, 115, 116, 97, 116, 101] @ v)"
    by (simp add: cellAad_unfold lengthPrefixedAscii_collection del: collection_name.simps)
  have "fit 16 (rev ([5, 115, 116, 97, 116, 101] @ v)) ! 15 = 0"
    using v(2) by (simp add: fit_def nth_append)
  then have "fit 16 (rev ([5, 115, 116, 97, 116, 101] @ v)) \<noteq> replicate 16 255"
    by (rule contrapos_pn) simp
  moreover have "drop 1 (replicate 17 (255 :: byte)) = replicate 16 255" by simp
  ultimately show ?thesis
    by (simp add: openCell_def aad clear_backend_def GCM_NONCE_BYTES_def GCM_TAG_BYTES_def)
qed

theorem unauthenticated_answer_changes_nothing_witness:
  "pull_apply sample_deps 1 (Some junk_answer) (sample_sync, ()) =
     (Inl (PssCryptoError ''AES-GCM authentication failed''), (sample_sync, ()))"
  by (rule unauthenticated_answer_changes_nothing [where nonce = "replicate 12 0" and ct = "replicate 17 255"])
    (simp_all add: junk_answer_def sample_deps_def sample_keys_def junk_refused sample_sync_def initial_sync_def)

text \<open>an answer that opens, but at a version below the floor, is refused as a rollback and changes
  nothing.\<close>

theorem rollback_refused:
  assumes "gr_nonce r = toBase64 nonce" and "gr_ciphertext r = toBase64 ct"
    and "openCell (sd_backend D) (k_cellKey (sd_keys D) State)
           \<lparr>cc_collection = State, cc_version = gr_version r\<rparr>
           \<lparr>cell_nonce = nonce, cell_ciphertext = ct\<rparr> = Inr plaintext"
    and "fl_read (account D) State (sy_store s) = Inr f" and "gr_version r < f"
    and "\<not> n < sy_appliedPullSequence s"
  shows "pull_apply D n (Some r) (s, w) = (Inl (PssRollbackError ''state'' f (gr_version r)), (s, w))"
proof -
  have o: "open_answer D r = Inr plaintext" using assms(1-3) by (simp add: open_answer_def fromBase64_toBase64)
  have "pullAndMerge D (Some r) (s, w) = (Inl (PssRollbackError ''state'' f (gr_version r)), (s, w))"
    by (simp add: pullAndMerge_opened [OF o] vf.acc_stale [OF assms(4,5)])
  with assms(6) show ?thesis by (simp add: pull_apply_def run_defs)
qed

text \<open>A floor of 9 and a genuine cell at version 3.\<close>

definition floored_sync :: sync where
  "floored_sync = sample_sync\<lparr>sy_store := store_set (floorKey (account sample_deps) State) ''9'' (\<lambda>_. None)\<rparr>"

lemma floored_floor: "fl_read (account sample_deps) State (sy_store floored_sync) = Inr 9"
  by (simp add: floored_sync_def store_set_def fl_read_def CANONICAL_DECIMAL_def canonical_decimal_def is_digit_def
      decimal_value_def char_digit_def isSafeInteger_def MAX_SAFE_INTEGER_def)

lemma sample_cell:
  "\<exists>cell. sealCell clear_backend (replicate 32 2) \<lparr>cc_collection = State, cc_version = 3\<rparr> [] (replicate 12 7) = Inr cell \<and>
     openCell clear_backend (replicate 32 2) \<lparr>cc_collection = State, cc_version = 3\<rparr> cell = Inr []"
  using sealCell_total [OF clear_backend_laws(1), of "replicate 32 2" "replicate 12 7"
      "\<lparr>cc_collection = State, cc_version = 3\<rparr>" "[]"]
  by (auto simp: is_count_def isSafeInteger_def MAX_SAFE_INTEGER_def)

theorem rollback_refused_witness:
  "\<exists>r. gr_version r = 3 \<and> pull_apply sample_deps 1 (Some r) (floored_sync, ()) =
     (Inl (PssRollbackError ''state'' 9 3), (floored_sync, ()))"
proof -
  obtain cell where c: "openCell clear_backend (replicate 32 2) \<lparr>cc_collection = State, cc_version = 3\<rparr> cell = Inr []"
    using sample_cell by blast
  let ?r = "\<lparr>gr_version = 3, gr_prevVersion = 2, gr_nonce = toBase64 (cell_nonce cell),
      gr_ciphertext = toBase64 (cell_ciphertext cell), gr_serverTime = 0\<rparr>"
  have "pull_apply sample_deps 1 (Some ?r) (floored_sync, ()) =
      (Inl (PssRollbackError ''state'' 9 (gr_version ?r)), (floored_sync, ()))"
    by (rule rollback_refused [OF _ _ _ floored_floor, where nonce = "cell_nonce cell" and ct = "cell_ciphertext cell"
          and plaintext = "[]"])
      (use c in \<open>cases cell; simp add: sample_deps_def sample_keys_def floored_sync_def sample_sync_def initial_sync_def\<close>)+
  then show ?thesis by (intro exI [of _ ?r]) simp
qed

text \<open>C4: what one device seals, signs and uploads is what any device of the account reads back: the pull
  returns exactly the uploaded payload, stores the merge with its own state, and records the version
  as stored and as floor.\<close>

theorem push_pull_roundtrip:
  assumes "seal_and_sign E D p v pv (s, w) = (Inr body, sw)" and "payload_wf p"
    and "sd_backend D' = sd_backend D" and "sd_keys D' = sd_keys D"
    and "aead_ok (sd_backend D)" and "length (k_cellKey (sd_keys D) State) = 32"
    and "gr_version r = pr_version body" and "gr_nonce r = pr_nonce body" and "gr_ciphertext r = pr_ciphertext body"
    and "fl_read (account D') State (sy_store t) = Inr f" and "f \<le> v"
    and "mergeWithRemote (sy_local t) p = Inr m" and "\<not> n < sy_appliedPullSequence t"
  shows "\<exists>t'. pull_apply D' n (Some r) (t, w') = (Inr (present p), (t', w')) \<and> sy_local t' = m \<and>
     sy_remote t' = Some p \<and> sy_storedVersion t' = v \<and> fl_read (account D') State (sy_store t') = Inr v"
proof -
  obtain nonce cell where cell: "sealCell (sd_backend D) (k_cellKey (sd_keys D) State)
        \<lparr>cc_collection = State, cc_version = v\<rparr> (utf8 (serializeStatePayload p)) nonce = Inr cell"
    and body: "pr_version body = v" "pr_nonce body = toBase64 (cell_nonce cell)"
      "pr_ciphertext body = toBase64 (cell_ciphertext cell)"
    using seal_and_sign_Inr [OF assms(1)] by blast
  have op: "open_answer D' r = Inr (utf8 (serializeStatePayload p))"
    by (rule open_answer_sealed) (use cell body assms(3-9) in simp_all)
  from cell have "is_count v" by (auto simp: sealCell_def cellAad_unfold u64be_Inr split: if_splits)
  then show ?thesis
    using pull_apply_present [OF op assms(2,10) _ _ assms(12,13), of w'] assms(7,11) body by auto
qed

lemma sample_merge: "\<exists>m. mergeWithRemote sample_payload other_payload = Inr m"
  by (simp add: mergeWithRemote_def mergeStatePayloads_def mergeUnspentNotes_def sample_defs Let_def)

text \<open>The text of a payload is short enough to be sealed when it fits the largest tier.\<close>

lemma sample_bytes: "length (utf8 (serializeStatePayload other_payload)) \<le> maxPayloadBytes"
proof -
  have "length (serializeStatePayload other_payload) \<le> 1000"
    by (simp add: serializeStatePayload_def payload_json_def js_spread_def known_json_def num_def sample_defs
        address_json_def cursor_json_def checkpoint_json_def counters_json_def json_string_def esc_char_def
        int_to_string_def nat_to_string.simps)
  then show ?thesis using utf8_length [of "serializeStatePayload other_payload"] by (simp add: maxPayloadBytes_eq)
qed

lemma sample_push: "\<exists>body sw. seal_and_sign sample_env sample_deps other_payload 4 3 (sample_sync, ()) = (Inr body, sw)"
proof -
  let ?ctx = "\<lparr>cc_collection = State, cc_version = 4\<rparr>"
  obtain cell where c: "sealCell clear_backend (replicate 32 2) ?ctx (utf8 (serializeStatePayload other_payload))
        (replicate 12 7) = Inr cell" and l: "16 < length (cell_ciphertext cell)"
      "length (cell_ciphertext cell) \<le> MAX_CIPHERTEXT_BYTES" "cell_nonce cell = replicate 12 7"
    using sealCell_total [OF clear_backend_laws(1) _ _ _ sample_bytes, of "replicate 32 2" "replicate 12 7" ?ctx]
    by (auto simp: is_count_def isSafeInteger_def MAX_SAFE_INTEGER_def)
  let ?i = "\<lparr>pi_accountId = replicate 32 1, pi_collection = State, pi_version = 4, pi_prevVersion = 3,
      pi_ciphertextDigest = be_sha256 clear_backend (cell_ciphertext cell), pi_timestamp = 7\<rparr>"
  obtain pre where "putPreimage ?i = Inr pre"
    using putPreimage_total [of ?i] clear_backend_laws(2)
    by (auto simp: hash_ok_def SHA256_BYTES_def is_count_def isSafeInteger_def MAX_SAFE_INTEGER_def)
  moreover obtain sg where "be_ed25519Sign clear_backend (replicate 32 1) pre = Inr sg"
    by (simp add: clear_backend_def)
  moreover have "cell_ciphertext cell \<noteq> []" using l(1) by auto
  ultimately show ?thesis
    using c l
    by (simp add: seal_and_sign_def sample_env_def sample_deps_def sample_keys_def run_defs now_seconds_def
        GCM_NONCE_BYTES_def MS_PER_SECOND_def buildPutRequest_def)
qed

theorem push_pull_roundtrip_witness:
  "\<exists>r t' m. pull_apply sample_deps 1 (Some r) (sample_sync, ()) = (Inr (present other_payload), (t', ())) \<and>
     sy_local t' = m \<and> mergeWithRemote sample_payload other_payload = Inr m \<and> sy_storedVersion t' = 4"
proof -
  obtain m where m: "mergeWithRemote sample_payload other_payload = Inr m" using sample_merge by blast
  obtain body sw where b: "seal_and_sign sample_env sample_deps other_payload 4 3 (sample_sync, ()) = (Inr body, sw)"
    using sample_push by blast
  let ?r = "\<lparr>gr_version = pr_version body, gr_prevVersion = 3, gr_nonce = pr_nonce body,
      gr_ciphertext = pr_ciphertext body, gr_serverTime = 0\<rparr>"
  have "\<exists>t'. pull_apply sample_deps 1 (Some ?r) (sample_sync, ()) = (Inr (present other_payload), (t', ())) \<and>
      sy_local t' = m \<and> sy_remote t' = Some other_payload \<and> sy_storedVersion t' = 4 \<and>
      fl_read (account sample_deps) State (sy_store t') = Inr 4"
    by (rule push_pull_roundtrip [OF b sample_payload_wf(2) refl refl _ _ _ _ _ sample_floor])
      (simp_all add: m clear_backend_laws sample_deps_def sample_keys_def sample_sync_def initial_sync_def)
  with m show ?thesis by blast
qed

end
