(* ===== verification/Format_Properties.thy ===== *)
theory Format_Properties
  imports Client_Properties
begin

text \<open>
  The properties of the client's data: signing preimages, sealed cells, key derivation, the payload
  and its merge, the takeover guard and the spent-note sweep; and the two places where the engine's
  own steps defeat each other.
\<close>

section \<open>What a signature and a seal bind\<close>

text \<open>C34: the bytes a PUT signature covers determine every field of the request: no other account,
  collection, version, predecessor, ciphertext digest or timestamp has the same preimage, and no
  DELETE does.\<close>

theorem put_signature_binds_request:
  assumes "putPreimage i = Inr bs"
  shows "(putPreimage j = Inr bs \<longleftrightarrow> j = i) \<and> deletePreimage d \<noteq> Inr bs"
  using assms putPreimage_inject put_delete_separate by blast

definition sample_preimage :: put_preimage_input where
  "sample_preimage = \<lparr>pi_accountId = replicate 32 1, pi_collection = Labels, pi_version = 2, pi_prevVersion = 1,
     pi_ciphertextDigest = replicate 32 3, pi_timestamp = 9\<rparr>"

theorem put_signature_binds_request_witness:
  "\<exists>bs. putPreimage sample_preimage = Inr bs \<and> putPreimage (sample_preimage\<lparr>pi_collection := State\<rparr>) \<noteq> Inr bs"
proof -
  obtain bs where bs: "putPreimage sample_preimage = Inr bs"
    using putPreimage_total [of sample_preimage]
    by (auto simp: sample_preimage_def is_count_def isSafeInteger_def MAX_SAFE_INTEGER_def)
  from put_signature_binds_request [OF bs, of "sample_preimage\<lparr>pi_collection := State\<rparr>"] bs show ?thesis
    by (auto simp: sample_preimage_def)
qed

text \<open>sealing any payload that fits the largest tier succeeds, opening the cell in the same context
  returns the payload, and the ciphertext's length reveals only the smallest tier the payload fits.\<close>

theorem seal_open_roundtrip:
  assumes "aead_ok B" and "length key = 32" and "length nonce = 12"
    and "is_count (cc_version ctx)" and "length payload \<le> maxPayloadBytes"
  shows "\<exists>cell tier. sealCell B key ctx payload nonce = Inr cell \<and> openCell B key ctx cell = Inr payload \<and>
     tier \<in> set PAD_TIERS \<and> length payload + 4 \<le> tier \<and> length (cell_ciphertext cell) = tier + 16 \<and>
     (\<forall>t \<in> set PAD_TIERS. length payload + 4 \<le> t \<longrightarrow> tier \<le> t)"
proof -
  obtain cell where c: "sealCell B key ctx payload nonce = Inr cell" "openCell B key ctx cell = Inr payload"
    and t: "tierFor (length payload) = Inr (length (cell_ciphertext cell) - 16)" "16 < length (cell_ciphertext cell)"
    using sealCell_total [OF assms] by blast
  with tierFor_in_tiers [OF t(1)] tierFor_least [OF t(1)] show ?thesis
    by (intro exI [of _ cell] exI [of _ "length (cell_ciphertext cell) - 16"]) auto
qed

theorem seal_open_roundtrip_witness:
  "\<exists>cell tier. sealCell clear_backend (replicate 32 5) \<lparr>cc_collection = Labels, cc_version = 1\<rparr> [1, 2, 3] (replicate 12 9) = Inr cell \<and>
     openCell clear_backend (replicate 32 5) \<lparr>cc_collection = Labels, cc_version = 1\<rparr> cell = Inr [1, 2, 3] \<and>
     tier \<in> set PAD_TIERS \<and> length [1 :: byte, 2, 3] + 4 \<le> tier \<and> length (cell_ciphertext cell) = tier + 16 \<and>
     (\<forall>t \<in> set PAD_TIERS. length [1 :: byte, 2, 3] + 4 \<le> t \<longrightarrow> tier \<le> t)"
  by (rule seal_open_roundtrip [OF clear_backend_laws(1)])
    (simp_all add: is_count_def isSafeInteger_def MAX_SAFE_INTEGER_def maxPayloadBytes_eq)

text \<open>the buffer-filling HKDF loop computes the Expand step of RFC 5869 for every output length it
  accepts.\<close>

theorem hkdfExpand_is_rfc5869:
  assumes "hash_ok B" and "0 < len" and "len \<le> 255 * 32"
  shows "hkdfExpand B prk info len = Inr (hkdf_okm B prk info len)"
  using assms by (rule hkdfExpand_rfc5869)

theorem hkdfExpand_is_rfc5869_witness:
  "hkdfExpand clear_backend [7] [8] 40 = Inr (hkdf_okm clear_backend [7] [8] 40)"
  by (rule hkdfExpand_is_rfc5869 [OF clear_backend_laws(2)]) simp_all

section \<open>The payload\<close>

text \<open>C35: what is serialised decodes to the very same payload, unknown fields included.\<close>

theorem payload_roundtrip:
  assumes "payload_wf p"
  shows "decodeStatePayload (serializeStatePayload p) = Inr p"
  using assms by (rule decode_serialize)

theorem payload_roundtrip_witness:
  "decodeStatePayload (serializeStatePayload sample_payload) = Inr sample_payload"
  by (rule payload_roundtrip [OF sample_payload_wf(1)])

text \<open>C36: whatever text the server makes the client decode, a payload that comes out has every known field
  validated (counts in the safe range, shaped identifiers, amounts within 128 bits, at most 64 well-shaped
  counter scopes) and no unknown field that shadows a known one.\<close>

theorem decoded_payload_validated:
  assumes "decodeStatePayload json = Inr p"
  shows "known_wf (known p) \<and> extra_wf (extra p)"
  using assms by (auto simp: decodeStatePayload_def split: option.splits dest: parseStatePayload_wf)

theorem decoded_payload_validated_witness: "known_wf (known sample_payload) \<and> extra_wf (extra sample_payload)"
  by (rule decoded_payload_validated [OF decode_serialize [OF sample_payload_wf(1)]])

section \<open>Merging\<close>

text \<open>the merged mark of every counter scope is the greatest mark any input carries, and the scopes
  are the union of the inputs' scopes.\<close>

theorem merge_counters_union_max:
  assumes "mergeStatePayloads inputs = Inr p"
    and "\<And>i. i \<in> set inputs \<Longrightarrow> counters_ok (sp_ephemeralCounters (known (mi_payload i)))"
  shows "counter_of (sp_ephemeralCounters (known p)) k =
       Max ((\<lambda>i. counter_of (sp_ephemeralCounters (known (mi_payload i))) k) ` set inputs) \<and>
     fst ` set (sp_ephemeralCounters (known p)) =
       (\<Union>i\<in>set inputs. fst ` set (sp_ephemeralCounters (known (mi_payload i))))"
proof -
  note D = mergeStatePayloads_Inr [OF assms(1)]
  let ?cs = "map (\<lambda>i. sp_ephemeralCounters (mi_known i)) inputs"
  have ok: "list_all counters_ok ?cs" using assms(2) by (simp add: list_all_iff)
  let ?m = "counter_of (sp_ephemeralCounters (known p)) k"
  let ?S = "(\<lambda>i. counter_of (sp_ephemeralCounters (mi_known i)) k) ` set inputs"
  have "?m = Max ?S"
  proof (rule Max_eqI [symmetric])
    show "y \<le> ?m" if "y \<in> ?S" for y
      using that mergeCounters_ge [OF ok, of _ k] D(3) by auto
    show "?m \<in> ?S" using mergeCounters_attained [OF ok, of k] D(1,3) by auto
  qed simp
  moreover have "fst ` set (sp_ephemeralCounters (known p)) =
      (\<Union>i\<in>set inputs. fst ` set (sp_ephemeralCounters (mi_known i)))"
    using mergeCounters_keys(1) [OF ok] D(3) by simp
  ultimately show ?thesis by simp
qed

abbreviation sample_inputs :: "merge_input list" where
  "sample_inputs \<equiv> [\<lparr>mi_payload = sample_payload, mi_noteListComplete = True\<rparr>,
                    \<lparr>mi_payload = other_payload, mi_noteListComplete = True\<rparr>]"

lemma sample_inputs_merge: "\<exists>p. mergeStatePayloads sample_inputs = Inr p"
  using sample_merge by (simp add: mergeWithRemote_def)

lemma sample_inputs_ok: "i \<in> set sample_inputs \<Longrightarrow> payload_wf (mi_payload i)"
  using sample_payload_wf by auto

lemma sample_inputs_counters: "i \<in> set sample_inputs \<Longrightarrow> counters_ok (sp_ephemeralCounters (known (mi_payload i)))"
  using sample_inputs_ok [of i] by (auto simp: payload_wf_def known_wf_def intro: counters_wf_ok)

theorem merge_counters_union_max_witness:
  "\<exists>p. mergeStatePayloads sample_inputs = Inr p \<and> counter_of (sp_ephemeralCounters (known p)) ''self'' = 5"
proof -
  obtain p where p: "mergeStatePayloads sample_inputs = Inr p" using sample_inputs_merge by blast
  from merge_counters_union_max [OF p sample_inputs_counters, of "''self''"]
  have "counter_of (sp_ephemeralCounters (known p)) ''self'' = 5"
    by (simp add: sample_payload_def other_payload_def counter_of_def)
  with p show ?thesis by blast
qed

text \<open>Merging succeeds exactly when no two inputs disagree about a leaf; the merged notes are then the
  union of the inputs' notes, once per leaf and in leaf order.\<close>

theorem merge_notes_union:
  assumes "inputs \<noteq> []"
  shows "((\<exists>p. mergeStatePayloads inputs = Inr p) \<longleftrightarrow>
       (\<forall>a b. (\<exists>i \<in> set inputs. a \<in> set (sp_unspentNotes (known (mi_payload i)))) \<longrightarrow>
              (\<exists>i \<in> set inputs. b \<in> set (sp_unspentNotes (known (mi_payload i)))) \<longrightarrow>
              un_leafIndex a = un_leafIndex b \<longrightarrow> a = b)) \<and>
     (\<forall>p. mergeStatePayloads inputs = Inr p \<longrightarrow>
        set (sp_unspentNotes (known p)) = (\<Union>i\<in>set inputs. set (sp_unspentNotes (known (mi_payload i)))) \<and>
        distinct (map un_leafIndex (sp_unspentNotes (known p))) \<and>
        sorted (map un_leafIndex (sp_unspentNotes (known p))))"
proof -
  have "(\<exists>p. mergeStatePayloads inputs = Inr p) \<longleftrightarrow> (\<exists>ns. mergeUnspentNotes inputs = Inr ns)"
    using assms by (auto simp: mergeStatePayloads_def Let_def)
  moreover note mergeUnspentNotes_total [of inputs]
  moreover have "clash_free (all_notes inputs) \<longleftrightarrow>
      (\<forall>a b. (\<exists>i \<in> set inputs. a \<in> set (sp_unspentNotes (known (mi_payload i)))) \<longrightarrow>
             (\<exists>i \<in> set inputs. b \<in> set (sp_unspentNotes (known (mi_payload i)))) \<longrightarrow>
             un_leafIndex a = un_leafIndex b \<longrightarrow> a = b)"
    unfolding clash_free_def by blast
  moreover have "set (sp_unspentNotes (known p)) = all_notes inputs \<and>
      distinct (map un_leafIndex (sp_unspentNotes (known p))) \<and> sorted (map un_leafIndex (sp_unspentNotes (known p)))"
    if "mergeStatePayloads inputs = Inr p" for p
    using mergeUnspentNotes_Inr [OF mergeStatePayloads_Inr(2) [OF that]] by simp
  ultimately show ?thesis by blast
qed

theorem merge_notes_union_witness: "\<exists>p. mergeStatePayloads sample_inputs = Inr p \<and> sp_unspentNotes (known p) = []"
proof -
  obtain p where p: "mergeStatePayloads sample_inputs = Inr p" using sample_inputs_merge by blast
  have "set (sp_unspentNotes (known p)) = {}"
    using merge_notes_union [of sample_inputs] p by (simp add: sample_payload_def other_payload_def)
  with p show ?thesis by simp
qed

text \<open>the order in which payloads reach the merge matters to no field that guards against reuse: the
  notes, every counter mark and both high-water marks come out the same.\<close>

theorem merge_order_independent:
  assumes "mset inputs' = mset inputs" and "mergeStatePayloads inputs = Inr p"
    and "\<And>i. i \<in> set inputs \<Longrightarrow> counters_ok (sp_ephemeralCounters (known (mi_payload i)))"
  shows "\<exists>p'. mergeStatePayloads inputs' = Inr p' \<and>
     sp_unspentNotes (known p') = sp_unspentNotes (known p) \<and>
     (\<forall>k. counter_of (sp_ephemeralCounters (known p')) k = counter_of (sp_ephemeralCounters (known p)) k) \<and>
     sp_selfEphHighwater (known p') = sp_selfEphHighwater (known p) \<and>
     sp_incomingIssueHighwater (known p') = sp_incomingIssueHighwater (known p)"
proof -
  have set: "set inputs' = set inputs" using assms(1) by (metis set_mset_mset)
  note D = mergeStatePayloads_Inr [OF assms(2)]
  have ne: "inputs' \<noteq> []" using D(1) set by auto
  have ns: "mergeUnspentNotes inputs' = Inr (sp_unspentNotes (known p))"
    using mergeUnspentNotes_perm [OF assms(1)] D(2) by auto
  then obtain p' where p': "mergeStatePayloads inputs' = Inr p'"
    using ne by (auto simp: mergeStatePayloads_def Let_def)
  note D' = mergeStatePayloads_Inr [OF p']
  have js: "js_max (map f inputs') = js_max (map f inputs)" for f :: "merge_input \<Rightarrow> int"
    using ne D(1) set by (simp add: js_max_eq)
  have "counter_of (sp_ephemeralCounters (known p')) k = counter_of (sp_ephemeralCounters (known p)) k" for k
  proof -
    let ?c = "\<lambda>is. map (\<lambda>i. sp_ephemeralCounters (mi_known i)) is"
    have ok: "list_all counters_ok (?c inputs)" "list_all counters_ok (?c inputs')"
      using assms(3) set by (simp_all add: list_all_iff)
    have "counter_of (mergeEphemeralCounterSnapshots (?c xs)) k \<le> counter_of (mergeEphemeralCounterSnapshots (?c ys)) k"
      if "set xs = set ys" "xs \<noteq> []" "list_all counters_ok (?c xs)" "list_all counters_ok (?c ys)" for xs ys
      using mergeCounters_attained [OF that(3), of k] mergeCounters_ge [OF that(4), of _ k] that(1,2) by fastforce
    from this [of inputs' inputs] this [of inputs inputs'] show ?thesis
      using D(1,3) D'(3) ne ok set by simp
  qed
  then show ?thesis using p' ns D'(2) D(4,5) D'(4,5) js by auto
qed

theorem merge_order_independent_witness:
  "\<exists>p p'. mergeStatePayloads sample_inputs = Inr p \<and> mergeStatePayloads (rev sample_inputs) = Inr p' \<and>
     counter_of (sp_ephemeralCounters (known p')) ''self'' = counter_of (sp_ephemeralCounters (known p)) ''self''"
proof -
  obtain p where p: "mergeStatePayloads sample_inputs = Inr p" using sample_inputs_merge by blast
  from merge_order_independent [OF _ p sample_inputs_counters, of "rev sample_inputs"] p show ?thesis by auto
qed

end
