(* ===== verification/Guard_Properties.thy ===== *)
theory Guard_Properties
  imports Format_Properties
begin

text \<open>
  The properties of the takeover guard and the spent-note sweep, and the sequences of steps in which
  the engine's own operations defeat each other: a merge no client can read again, a takeover floor
  above the version the next write will carry, and a pull that fails after it recorded the version.
\<close>

section \<open>Takeover\<close>

text \<open>C37: however a guard was used since its construction (shown payloads, asked to stamp them, asked to take
  over, the takeover failing half way or not), it stamps a payload for upload over a remote one exactly when the
  remote names this install, or the last takeover that \<open>guard_confirmTakeover\<close> carried out was against the very
  holder the remote names and no other install's payload, its own included, has been seen since. A takeover that
  failed grants nothing.\<close>

theorem takeover_only_by_confirmation:
  assumes "guard_reach acct identity history g st"
  shows "(\<exists>q. fst (stamp p (Some remote) t g) = Inr q) \<longleftrightarrow>
    sp_installId remote = id_installId identity \<or> granted (sp_installId remote) history"
proof -
  have "(\<exists>q. fst (stamp p (Some remote) t g) = Inr q) \<longleftrightarrow> td_mode (fst (evaluate (Some remote) g)) = writer"
    by (cases "evaluate (Some remote) g") (simp add: stamp_def)
  then show ?thesis
    using guard_reach_grant [OF assms, of "sp_installId remote"] guard_reach_identity [OF assms]
    by (auto simp: evaluate_writer_iff)
qed

lemma takeover_sample:
  "\<exists>g st. guard_reach ''a'' \<lparr>id_installId = sample_id, id_platform = ''web''\<rparr>
      [Confirmed (known other_payload), Shown (Some (known other_payload))] g st"
  "\<exists>g st. guard_reach ''a'' \<lparr>id_installId = sample_id, id_platform = ''web''\<rparr>
      [Failed (known other_payload), Shown (Some (known other_payload))] g st"
proof -
  let ?id = "\<lparr>id_installId = sample_id, id_platform = ''web''\<rparr>"
  have new: "new_InstallGuard ?id = Inr \<lparr>ig_identity = ?id, ig_confirmedAgainst = None\<rparr>"
    by (simp add: new_InstallGuard_def sample_id_def INSTALL_ID_SHAPE_def hex_shape_def is_lower_hex_def PLATFORM_MAX_CHARS_def)
  obtain d g1 where "evaluate (Some (known other_payload)) \<lparr>ig_identity = ?id, ig_confirmedAgainst = None\<rparr> = (d, g1)"
    by fastforce
  note shown = guard_reach.evaluated [OF guard_reach.start [OF new] this, of "''a''" Map.empty]
  have c: "is_count 9" by (simp add: is_count_def isSafeInteger_def MAX_SAFE_INTEGER_def)
  have key: "floorKey b Labels \<noteq> floorKey b State" for b by (simp add: floorKey_def)
  have "\<exists>st. bootstrap_all ''a'' COLLECTIONS (\<lambda>_. 9) Map.empty = (Inr (), st)"
    by (simp add: COLLECTIONS_def sbind_def fl_bootstrap_run fl_read_def fl_validate_count [OF c] store_set_def key sret_def)
  then obtain g2 st2 where "guard_confirmTakeover ''a'' (known other_payload) (\<lambda>_. 9) g1 Map.empty = (Inr (), g2, st2)"
    by (auto simp: guard_confirmTakeover_def)
  with shown show "\<exists>g st. guard_reach ''a'' ?id [Confirmed (known other_payload), Shown (Some (known other_payload))] g st"
    using guard_reach.confirmed by blast
  have "\<exists>e st. bootstrap_all ''a'' COLLECTIONS (\<lambda>_. -1) Map.empty = (Inl e, st)"
    by (simp add: COLLECTIONS_def sbind_def fl_bootstrap_run fl_read_def fl_validate_def)
  then obtain e g3 st3 where "guard_confirmTakeover ''a'' (known other_payload) (\<lambda>_. -1) g1 Map.empty = (Inl e, g3, st3)"
    by (auto simp: guard_confirmTakeover_def)
  with shown show "\<exists>g st. guard_reach ''a'' ?id [Failed (known other_payload), Shown (Some (known other_payload))] g st"
    using guard_reach.failed by blast
qed

theorem takeover_only_by_confirmation_witness:
  "\<exists>g g' st st'. guard_reach ''a'' \<lparr>id_installId = sample_id, id_platform = ''web''\<rparr>
      [Confirmed (known other_payload), Shown (Some (known other_payload))] g st \<and>
    (\<exists>q. fst (stamp sample_payload (Some (known other_payload)) 7 g) = Inr q) \<and>
    guard_reach ''a'' \<lparr>id_installId = sample_id, id_platform = ''web''\<rparr>
      [Failed (known other_payload), Shown (Some (known other_payload))] g' st' \<and>
    \<not> (\<exists>q. fst (stamp sample_payload (Some (known other_payload)) 7 g') = Inr q)"
proof -
  have "sp_installId (known other_payload) \<noteq> sample_id" by (simp add: sample_defs)
  moreover obtain g st where "guard_reach ''a'' \<lparr>id_installId = sample_id, id_platform = ''web''\<rparr>
      [Confirmed (known other_payload), Shown (Some (known other_payload))] g st" using takeover_sample(1) by blast
  moreover obtain g' st' where "guard_reach ''a'' \<lparr>id_installId = sample_id, id_platform = ''web''\<rparr>
      [Failed (known other_payload), Shown (Some (known other_payload))] g' st'" using takeover_sample(2) by blast
  ultimately show ?thesis
    using takeover_only_by_confirmation [of "''a''" "\<lparr>id_installId = sample_id, id_platform = ''web''\<rparr>" _ g st sample_payload "known other_payload" 7]
      takeover_only_by_confirmation [of "''a''" "\<lparr>id_installId = sample_id, id_platform = ''web''\<rparr>" _ g' st' sample_payload "known other_payload" 7]
    by (intro exI [of _ g] exI [of _ g'] exI [of _ st] exI [of _ st']) simp
qed

text \<open>While another install holds the account unconfirmed nothing is stamped for upload; what is
  stamped carries this install's identity and leaves counters and notes as they were.\<close>

theorem stamp_only_as_writer:
  "(td_mode (fst (evaluate remote g)) = readonly \<and>
      fst (stamp p remote t g) = Inl (PssStateError ''this install is read-only'')) \<or>
   (td_mode (fst (evaluate remote g)) = writer \<and>
      (\<exists>q. fst (stamp p remote t g) = Inr q \<and> sp_installId (known q) = id_installId (ig_identity g) \<and>
           sp_ephemeralCounters (known q) = sp_ephemeralCounters (known p) \<and>
           sp_unspentNotes (known q) = sp_unspentNotes (known p) \<and> extra q = extra p))"
proof (cases "td_mode (fst (evaluate remote g))")
  case writer
  then show ?thesis by (cases "evaluate remote g") (simp add: stamp_def)
next
  case readonly
  then show ?thesis by (simp add: stamp_Inl)
qed

section \<open>Spent notes\<close>

text \<open>over a fixed chain the chunked sweep returns the lower-cased nullifiers of the whole range,
  whatever the chunk size; so a successful prune keeps exactly the notes not spent in the range, drops
  the rest, and moves the checkpoint up to the end of the range, never down.\<close>

theorem prune_exact:
  assumes "createLogSweepOracle (chain_source logs) chunkBlocks = Inr orc"
    and "pruneSpentNotes p orc fromBlock toBlock = Inr r"
  shows "(\<forall>n. n \<in> set (sp_unspentNotes (known (pu_payload r))) \<longleftrightarrow>
        n \<in> set (sp_unspentNotes (known p)) \<and>
        \<not> (\<exists>l \<in> set logs. fromBlock \<le> nl_blockNumber l \<and> nl_blockNumber l \<le> toBlock \<and>
             to_lower (nl_nullifier l) = to_lower (un_nullifier n))) \<and>
     set (pu_dropped r) = set (sp_unspentNotes (known p)) - set (sp_unspentNotes (known (pu_payload r))) \<and>
     fromBlock \<le> nc_block (sp_nullifierCheckedAt (known p)) \<and>
     nc_block (sp_nullifierCheckedAt (known (pu_payload r))) = max (nc_block (sp_nullifierCheckedAt (known p))) toBlock"
proof -
  from assms(1) have orc: "orc fromBlock toBlock = spent_in logs fromBlock toBlock"
    by (auto simp: createLogSweepOracle_def sweep_chain split: if_splits)
  note P = pruneSpentNotes_Inr [OF assms(2), unfolded orc]
  show ?thesis
    unfolding P(4-6) using P(3) by (auto simp: spent_in_def)
qed

theorem prune_exact_witness:
  "\<exists>orc r. createLogSweepOracle (chain_source [\<lparr>nl_nullifier = ''0xAB'', nl_blockNumber = 5\<rparr>]) 2 = Inr orc \<and>
     pruneSpentNotes sample_payload orc 0 12 = Inr r \<and>
     nc_block (sp_nullifierCheckedAt (known (pu_payload r))) = 12"
proof -
  obtain orc where o: "createLogSweepOracle (chain_source [\<lparr>nl_nullifier = ''0xAB'', nl_blockNumber = 5\<rparr>]) 2 = Inr orc"
    by (simp add: createLogSweepOracle_def)
  obtain r where r: "pruneSpentNotes sample_payload orc 0 12 = Inr r"
    by (simp add: pruneSpentNotes_def assertBlock_def sample_payload_def Let_def)
  from prune_exact [OF o r] have "nc_block (sp_nullifierCheckedAt (known (pu_payload r))) = 12"
    by (simp add: sample_payload_def)
  with o r show ?thesis by blast
qed

section \<open>Steps that defeat each other\<close>

text \<open>A family of distinct multisig scopes.\<close>

definition ms_scope :: "nat \<Rightarrow> string" where
  "ms_scope i = ''msSelf:0x'' @ replicate 64 (CHR ''0'') @ '':'' @ nat_to_string i"

definition scoped_payload :: "nat \<Rightarrow> nat \<Rightarrow> parsed_state_payload" where
  "scoped_payload a b = sample_payload\<lparr>known := (known sample_payload)\<lparr>
     sp_ephemeralCounters := map (\<lambda>i. (ms_scope i, 1)) [a..<b]\<rparr>\<rparr>"

lemma ms_scope_inject [simp]: "ms_scope i = ms_scope j \<longleftrightarrow> i = j"
  unfolding ms_scope_def by (simp del: append.simps) (metis decimal_value_nat_to_string)

lemma ms_scope_shape: "COUNTER_SCOPE_SHAPE (ms_scope i)"
proof -
  have "drop 7 (ms_scope i) = ''0x'' @ replicate 64 (CHR ''0'') @ '':'' @ nat_to_string i"
    by (simp add: ms_scope_def)
  moreover have "drop 73 (ms_scope i) = '':'' @ nat_to_string i" "drop 74 (ms_scope i) = nat_to_string i"
    by (simp_all add: ms_scope_def)
  moreover have "take 7 (ms_scope i) = ''msSelf:''" by (simp add: ms_scope_def)
  ultimately show ?thesis
    by (simp add: COUNTER_SCOPE_SHAPE_def hex_shape_def canonical_decimal_nat_to_string list_all_iff is_lower_hex_def)
qed

lemma scoped_payload_wf: "b - a \<le> 64 \<Longrightarrow> payload_wf (scoped_payload a b)"
  using sample_payload_wf(1)
  by (auto simp: scoped_payload_def payload_wf_def known_wf_def counters_wf_def comp_def distinct_map inj_on_def
      list_all_iff ms_scope_shape MAX_COUNTER_SCOPES_def is_count_def isSafeInteger_def MAX_SAFE_INTEGER_def)

text \<open>Two payloads that each decode can merge into one that does not: a payload may carry 64 counter
  scopes and the merge takes the union without that bound. After such a pull the client's own snapshot
  of its local state throws, and so does the next start from the cached text.\<close>

theorem merge_can_exceed_scope_cap:
  "\<exists>a b m. payload_wf a \<and> payload_wf b \<and> mergeWithRemote a b = Inr m \<and>
     (\<exists>e. snapshotPayload m = Inl e)"
proof -
  let ?a = "scoped_payload 0 40" and ?b = "scoped_payload 40 80"
  have wf: "payload_wf ?a" "payload_wf ?b" by (simp_all add: scoped_payload_wf)
  let ?is = "[\<lparr>mi_payload = ?a, mi_noteListComplete = True\<rparr>, \<lparr>mi_payload = ?b, mi_noteListComplete = True\<rparr>]"
  obtain m where m: "mergeStatePayloads ?is = Inr m"
    by (simp add: mergeStatePayloads_def mergeUnspentNotes_def scoped_payload_def sample_payload_def Let_def)
  have rest: "payload_wf (without_counters m)" by (rule mergeStatePayloads_rest [OF _ m]) (use wf payload_wf_without in auto)
  have ok: "list_all counters_ok (map (\<lambda>i. sp_ephemeralCounters (mi_known i)) ?is)"
    using wf by (auto simp: payload_wf_def known_wf_def intro: counters_wf_ok)
  note keys = mergeCounters_keys [OF ok, folded mergeStatePayloads_Inr(3) [OF m]]
  have img: "fst ` set (sp_ephemeralCounters (known (scoped_payload a b))) = ms_scope ` {a..<b}" for a b
    by (auto simp: scoped_payload_def image_image)
  have "fst ` set (sp_ephemeralCounters (known m)) = ms_scope ` {0..<80}"
    using keys(1) ivl_disj_un_two(3) [of "0 :: nat" 40 80] by (simp add: img flip: image_Un)
  moreover have "card (ms_scope ` {0..<80}) = 80" by (subst card_image) (auto simp: inj_on_def)
  ultimately have "length (sp_ephemeralCounters (known m)) > MAX_COUNTER_SCOPES"
    using keys distinct_card [of "map fst (sp_ephemeralCounters (known m))"] by (simp add: MAX_COUNTER_SCOPES_def)
  then have "\<exists>e. snapshotPayload m = Inl e"
    unfolding snapshotPayload_def
    using decode_overflow [OF rest] mergeCounters_ok [OF ok] mergeStatePayloads_Inr(3) [OF m] by simp
  with wf m show ?thesis by (auto simp: mergeWithRemote_def)
qed

text \<open>a takeover confirmed with a chain floor above the next version wedges the account for this
  install. The next write still carries the stored version plus one, and from then on every cell at
  that version, the install's own upload included, is refused as a rollback.\<close>

theorem takeover_floor_wedges_next_version:
  assumes "sync_confirmTakeover D floors (s, w) = (Inr (), (s', w'))"
    and "fl_read (account D) State (sy_store s) = Inr f" and "sy_storedVersion s + 1 < floors State"
    and "run_sync_ops E D ops (s', w') = (t, w'')"
    and "gr_version r = fst (nextWrite (present q) s')"
    and "gr_nonce r = toBase64 nonce" and "gr_ciphertext r = toBase64 ct"
    and "openCell (sd_backend D) (k_cellKey (sd_keys D) State)
           \<lparr>cc_collection = State, cc_version = gr_version r\<rparr>
           \<lparr>cell_nonce = nonce, cell_ciphertext = ct\<rparr> = Inr plaintext"
    and "\<not> n < sy_appliedPullSequence t"
  shows "gr_version r = sy_storedVersion s + 1 \<and>
     (\<exists>g. floors State \<le> g \<and>
        pull_apply D n (Some r) (t, w'') = (Inl (PssRollbackError ''state'' g (gr_version r)), (t, w'')))"
proof -
  from assms(1) obtain p where p: "sy_remote s = Some p"
    by (cases "sy_remote s") (auto simp: sync_confirmTakeover_def sbind_Inr_iff rd_def sthrow_def)
  obtain res g st where c0:
    "guard_confirmTakeover (account D) (known p) floors (sy_guard s) (sy_store s) = (res, g, st)"
    by (rule prod_cases3)
  from assms(1) p c0 have "res = Inr ()" and st: "sy_store s' = st" and s': "sy_storedVersion s' = sy_storedVersion s"
    by (auto simp: sync_confirmTakeover_def sbind_Inr_iff rd_def applyTakeoverDecision_def wr_def Let_def
        split: prod.splits)
  with c0 have c: "guard_confirmTakeover (account D) (known p) floors (sy_guard s) (sy_store s) = (Inr (), g, sy_store s')"
    by simp
  have v: "gr_version r = sy_storedVersion s + 1" using assms(5) s' by (simp add: nextWrite_def)
  have "fl_read (account D) State (sy_store s') = Inr (max f (floors State))"
    by (rule confirmTakeover_floors(1) [OF c assms(2)])
  moreover have "floor_le D s' t" using floor_rel.k_run_ops [of D "(s', w')" E ops] assms(4) by (simp add: on_sync_def)
  ultimately obtain h where h: "fl_read (account D) State (sy_store t) = Inr h" "max f (floors State) \<le> h"
    unfolding floor_le_def by blast
  then have stale: "gr_version r < h" using v assms(3) by simp
  have o: "open_answer D r = Inr plaintext" using assms(6-8) by (simp add: open_answer_def fromBase64_toBase64)
  have "pullAndMerge D (Some r) (t, w'') = (Inl (PssRollbackError ''state'' h (gr_version r)), (t, w''))"
    by (simp add: pullAndMerge_opened [OF o] vf.acc_stale [OF h(1) stale])
  then show ?thesis using v h(2) assms(9) by (auto simp: pull_apply_def run_defs)
qed

text \<open>A device that saw the other install's payload at version 2 and is told a chain floor of 9.\<close>

definition held_sync :: sync where
  "held_sync = sample_sync\<lparr>sy_remote := Some other_payload, sy_storedVersion := 2\<rparr>"

lemma held_takeover: "\<exists>s'. sync_confirmTakeover sample_deps (\<lambda>_. 9) (held_sync, ()) = (Inr (), (s', ()))"
proof -
  have key: "floorKey a Labels \<noteq> floorKey a State" for a by (simp add: floorKey_def)
  have c: "is_count 9" by (simp add: is_count_def isSafeInteger_def MAX_SAFE_INTEGER_def)
  have "\<exists>st. bootstrap_all (account sample_deps) COLLECTIONS (\<lambda>_. 9) (sy_store held_sync) = (Inr (), st)"
    by (simp add: COLLECTIONS_def sbind_def fl_bootstrap_run fl_read_def held_sync_def sample_sync_def initial_sync_def
        fl_validate_count [OF c] store_set_def key sret_def)
  then show ?thesis
    by (auto simp: sync_confirmTakeover_def run_defs guard_confirmTakeover_def applyTakeoverDecision_def held_sync_def)
qed

lemma held_confirm_stored:
  "sync_confirmTakeover sample_deps (\<lambda>_. 9) (held_sync, ()) = (Inr (), (s', w')) \<Longrightarrow>
   sy_storedVersion s' = 2 \<and> sy_appliedPullSequence s' = 0"
  by (auto simp: sync_confirmTakeover_def sbind_Inr_iff rd_def applyTakeoverDecision_def wr_def Let_def held_sync_def
      sample_sync_def initial_sync_def split: prod.splits)

theorem takeover_floor_wedges_next_version_witness:
  "\<exists>s' r g. sync_confirmTakeover sample_deps (\<lambda>_. 9) (held_sync, ()) = (Inr (), (s', ())) \<and> gr_version r = 3 \<and>
     pull_apply sample_deps 1 (Some r) (s', ()) = (Inl (PssRollbackError ''state'' g 3), (s', ()))"
proof -
  obtain s' where s': "sync_confirmTakeover sample_deps (\<lambda>_. 9) (held_sync, ()) = (Inr (), (s', ()))"
    using held_takeover by blast
  note st = held_confirm_stored [OF s']
  obtain cell where c: "openCell clear_backend (replicate 32 2) \<lparr>cc_collection = State, cc_version = 3\<rparr> cell = Inr []"
    using sample_cell by blast
  let ?r = "\<lparr>gr_version = 3, gr_prevVersion = 2, gr_nonce = toBase64 (cell_nonce cell),
      gr_ciphertext = toBase64 (cell_ciphertext cell), gr_serverTime = 0\<rparr>"
  have "gr_version ?r = sy_storedVersion held_sync + 1 \<and> (\<exists>g. (9 :: int) \<le> g \<and>
      pull_apply sample_deps 1 (Some ?r) (s', ()) = (Inl (PssRollbackError ''state'' g (gr_version ?r)), (s', ())))"
    by (rule takeover_floor_wedges_next_version [OF s', where ops = "[]" and E = sample_env and f = 0 and
          q = sample_payload and nonce = "cell_nonce cell" and ct = "cell_ciphertext cell" and plaintext = "[]"])
      (use c st in \<open>cases cell; simp add: run_sync_ops_def nextWrite_def held_sync_def sample_sync_def initial_sync_def
          fl_read_def sample_deps_def sample_keys_def\<close>)+
  with s' show ?thesis by (intro exI [of _ s'] exI [of _ ?r]) auto
qed

text \<open>A pull whose merge fails (two payloads disagreeing about a leaf) has already recorded the
  remote's version. The local state is left unmerged, yet the next write goes out as that version's
  successor, so it can replace the remote state without carrying its counters.\<close>

theorem failed_merge_records_version:
  assumes "gr_nonce r = toBase64 nonce" and "gr_ciphertext r = toBase64 ct"
    and "openCell (sd_backend D) (k_cellKey (sd_keys D) State)
           \<lparr>cc_collection = State, cc_version = gr_version r\<rparr>
           \<lparr>cell_nonce = nonce, cell_ciphertext = ct\<rparr> = Inr (utf8 (serializeStatePayload p))"
    and "payload_wf p" and "is_count (gr_version r)"
    and "fl_read (account D) State (sy_store s) = Inr f" and "f \<le> gr_version r"
    and "mergeWithRemote (sy_local s) p = Inl e" and "\<not> n < sy_appliedPullSequence s"
  shows "\<exists>s'. pull_apply D n (Some r) (s, w) = (Inl e, (s', w)) \<and> sy_local s' = sy_local s \<and>
     ss_mode (sy_syncState s') = ss_mode (sy_syncState s) \<and>
     nextWrite (present p) s' = (gr_version r + 1, gr_version r)"
proof -
  have o: "open_answer D r = Inr (utf8 (serializeStatePayload p))"
    using assms(1-3) by (simp add: open_answer_def fromBase64_toBase64)
  obtain st where acc: "fl_accept (account D) State (gr_version r) (sy_store s) = (Inr (gr_version r), st)"
    using vf.acc_effect [OF assms(6,5,7)] by (metis prod.collapse)
  have "pullAndMerge D (Some r) (s, w) = (Inl e, (seen (gr_version r) p (s\<lparr>sy_store := st\<rparr>), w))"
    using acc assms(8)
    by (simp add: pullAndMerge_opened [OF o] utf8_decode_utf8 decode_serialize [OF assms(4)] snapshotPayload_wf [OF assms(4)])
  then have "pull_apply D n (Some r) (s, w) = (Inl e, (seen (gr_version r) p (s\<lparr>sy_store := st\<rparr>), w))"
    using assms(9) by (simp add: pull_apply_def run_defs)
  then show ?thesis by (auto simp: seen_def nextWrite_def)
qed

text \<open>Two payloads that disagree about the amount at leaf 3.\<close>

definition note_payload :: "string \<Rightarrow> parsed_state_payload" where
  "note_payload amount = other_payload\<lparr>known := (known other_payload)\<lparr>sp_unspentNotes :=
     [\<lparr>un_leafIndex = 3, un_assetId = ''0x'' @ replicate 40 (CHR ''0''), un_amount = amount,
       un_nullifier = ''0x'' @ replicate 64 (CHR ''0'')\<rparr>]\<rparr>\<rparr>"

lemma note_payload_wf: "payload_wf (note_payload ''2'')"
proof -
  have "list_all note_wf (sp_unspentNotes (known (note_payload ''2'')))"
    by (simp add: note_payload_def note_wf_def ASSET_ID_SHAPE_def AMOUNT_SHAPE_def NULLIFIER_SHAPE_def hex_shape_def
        canonical_decimal_def is_digit_def is_lower_hex_def decimal_value_def char_digit_def MAX_NOTE_AMOUNT_def
        list_all_iff is_count_def isSafeInteger_def MAX_SAFE_INTEGER_def)
  then show ?thesis
    using sample_payload_wf(2) by (simp add: note_payload_def payload_wf_def known_wf_def)
qed

lemma note_payload_clash: "mergeWithRemote (note_payload ''1'') (note_payload ''2'') =
    Inl (PssStateError ''two payloads disagree about a leaf'')"
  by (simp add: mergeWithRemote_def mergeStatePayloads_def mergeUnspentNotes_def note_payload_def Let_def)

lemma note_payload_bytes: "length (utf8 (serializeStatePayload (note_payload ''2''))) \<le> maxPayloadBytes"
proof -
  have esc: "length (concat (map esc_char (replicate n (CHR ''0'')))) = n" for n
    by (induction n) (simp_all add: esc_char_def)
  have "length (serializeStatePayload (note_payload ''2'')) \<le> 1000"
    by (simp add: serializeStatePayload_def payload_json_def js_spread_def known_json_def num_def note_payload_def
        sample_defs note_json_def address_json_def cursor_json_def checkpoint_json_def counters_json_def
        json_string_def esc esc_char_def int_to_string_def nat_to_string.simps)
  then show ?thesis using utf8_length [of "serializeStatePayload (note_payload ''2'')"] by (simp add: maxPayloadBytes_eq)
qed

definition clash_sync :: sync where
  "clash_sync = sample_sync\<lparr>sy_local := note_payload ''1''\<rparr>"

theorem failed_merge_records_version_witness:
  "\<exists>r s'. gr_version r = 3 \<and> pull_apply sample_deps 1 (Some r) (clash_sync, ()) =
      (Inl (PssStateError ''two payloads disagree about a leaf''), (s', ())) \<and>
     sy_local s' = note_payload ''1'' \<and> nextWrite (present (note_payload ''2'')) s' = (4, 3)"
proof -
  let ?ctx = "\<lparr>cc_collection = State, cc_version = 3\<rparr>"
  obtain cell where c: "openCell clear_backend (replicate 32 2) ?ctx cell = Inr (utf8 (serializeStatePayload (note_payload ''2'')))"
    using sealCell_total [OF clear_backend_laws(1) _ _ _ note_payload_bytes, of "replicate 32 2" "replicate 12 7" ?ctx]
    by (auto simp: is_count_def isSafeInteger_def MAX_SAFE_INTEGER_def)
  let ?r = "\<lparr>gr_version = 3, gr_prevVersion = 2, gr_nonce = toBase64 (cell_nonce cell),
      gr_ciphertext = toBase64 (cell_ciphertext cell), gr_serverTime = 0\<rparr>"
  have "\<exists>s'. pull_apply sample_deps 1 (Some ?r) (clash_sync, ()) =
        (Inl (PssStateError ''two payloads disagree about a leaf''), (s', ())) \<and> sy_local s' = sy_local clash_sync \<and>
      ss_mode (sy_syncState s') = ss_mode (sy_syncState clash_sync) \<and>
      nextWrite (present (note_payload ''2'')) s' = (gr_version ?r + 1, gr_version ?r)"
    by (rule failed_merge_records_version [where nonce = "cell_nonce cell" and ct = "cell_ciphertext cell" and f = 0])
      (use c note_payload_wf note_payload_clash in \<open>cases cell; simp add: clash_sync_def sample_sync_def initial_sync_def
          fl_read_def sample_deps_def sample_keys_def is_count_def isSafeInteger_def MAX_SAFE_INTEGER_def\<close>)+
  then show ?thesis by (intro exI [of _ ?r]) (auto simp: clash_sync_def)
qed

end
