(* ===== verification/Http_Request.thy ===== *)
theory Http_Request
  imports Crypto
begin

text \<open>
  What the server does with a request before it looks at its state (\<^verbatim>\<open>packages/pss-server/src\<close>): the
  configuration (\<^verbatim>\<open>config.ts\<close>), reading a capped body and decoding it (\<^verbatim>\<open>http/body.ts\<close>), the size limits
  (\<^verbatim>\<open>http/limits.ts\<close>) and the checks of identity, signature and freshness (\<^verbatim>\<open>auth.ts\<close>). The hash and the
  signature check of node:crypto are a parameter, \<open>node_crypto\<close>. The caps are shown to admit every request
  a client can legally build.
\<close>

section \<open>Conversion of text to a number\<close>

text \<open>\<^verbatim>\<open>Number(text)\<close>: surrounding white space is dropped, the empty text is 0, a radix prefix takes no sign.\<close>

definition js_space :: "char \<Rightarrow> bool" where
  "js_space c \<longleftrightarrow> (of_char c :: nat) \<in> {9, 10, 11, 12, 13, 32, 160}"

definition js_trim :: "string \<Rightarrow> string" where
  "js_trim t = rev (dropWhile js_space (rev (dropWhile js_space t)))"

definition radix_number :: "nat \<Rightarrow> string \<Rightarrow> jnum" where
  "radix_number base ds =
     (if ds \<noteq> [] \<and> list_all (\<lambda>c. case hex_digit c of Some d \<Rightarrow> d < base | None \<Rightarrow> False) ds
      then int_double False (foldl (\<lambda>n c. n * base + the (hex_digit c)) 0 ds)
      else NNaN)"

definition unsigned_number :: "bool \<Rightarrow> string \<Rightarrow> jnum" where
  "unsigned_number neg s =
     (if s = ''Infinity'' then NInf neg
      else
        let ds = takeWhile is_digit s;
            r1 = dropWhile is_digit s;
            point = starts (CHR ''.'') r1;
            fs = (if point then takeWhile is_digit (tl r1) else []);
            r2 = (if point then dropWhile is_digit (tl r1) else r1)
        in if ds = [] \<and> fs = [] then NNaN
           else case p_exponent r2 of
                  Some (ex, []) \<Rightarrow> literal_double neg (decimal_value (ds @ fs)) (ex - int (length fs))
                | _ \<Rightarrow> NNaN)"

definition js_Number :: "string \<Rightarrow> jnum" where
  "js_Number t =
     (let s = js_trim t in
      if s = [] then NInt 0
      else if take 2 s = ''0x'' \<or> take 2 s = ''0X'' then radix_number 16 (drop 2 s)
      else if take 2 s = ''0o'' \<or> take 2 s = ''0O'' then radix_number 8 (drop 2 s)
      else if take 2 s = ''0b'' \<or> take 2 s = ''0B'' then radix_number 2 (drop 2 s)
      else if starts (CHR ''-'') s then unsigned_number True (tl s)
      else if starts (CHR ''+'') s then unsigned_number False (tl s)
      else unsigned_number False s)"

text \<open>\<^verbatim>\<open>Number.isInteger\<close>, giving the integer.\<close>

fun as_integer :: "jnum \<Rightarrow> int option" where
  "as_integer (NInt n) = Some n"
| "as_integer NNegZero = Some 0"
| "as_integer (NFrac _ _) = None"
| "as_integer (NInf _) = None"
| "as_integer NNaN = None"

section \<open>Configuration\<close>

definition WRITES_PER_HOUR :: int where "WRITES_PER_HOUR = 60"

definition WRITE_BURST :: int where "WRITE_BURST = 10"

definition DEFAULT_PORT :: int where "DEFAULT_PORT = 8787"

definition MAX_PORT :: int where "MAX_PORT = 65535"

record server_config =
  cf_host :: string
  cf_port :: int
  cf_databasePath :: string
  cf_migrationsDir :: string
  cf_timestampSkewSeconds :: int
  cf_maxCiphertextBytes :: nat
  cf_bodyHeadroomBytes :: nat
  cf_writesPerHour :: int
  cf_writeBurst :: int
  cf_maxTrackedAccounts :: nat
  cf_maxTrackedReplays :: nat
  cf_requestTimeoutMs :: int
  cf_headersTimeoutMs :: int
  cf_maxConnections :: int
  cf_inviteRequired :: bool

text \<open>\<^verbatim>\<open>packageDir()\<close> is where the module was installed: an argument.\<close>

definition defaultMigrationsDir :: "string \<Rightarrow> string" where
  "defaultMigrationsDir packageDir = packageDir @ ''/migrations''"

definition defaultDatabasePath :: "string \<Rightarrow> string" where
  "defaultDatabasePath packageDir = packageDir @ ''/data/pss.db''"

definition readPort :: "string option \<Rightarrow> int result" where
  "readPort raw =
     (case raw of
        None \<Rightarrow> Inr DEFAULT_PORT
      | Some text \<Rightarrow>
          if text = '''' then Inr DEFAULT_PORT
          else case as_integer (js_Number text) of
                 None \<Rightarrow> Inl (PlainError ''PSS_PORT'')
               | Some port \<Rightarrow>
                   if port < 1 \<or> port > MAX_PORT then Inl (PlainError ''PSS_PORT'') else Inr port)"

definition loadConfig :: "string \<Rightarrow> (string \<Rightarrow> string option) \<Rightarrow> server_config result" where
  "loadConfig packageDir env =
     ebind (readPort (env ''PSS_PORT'')) (\<lambda>port.
       Inr \<lparr>cf_host = (case env ''PSS_HOST'' of None \<Rightarrow> ''127.0.0.1'' | Some h \<Rightarrow> h),
            cf_port = port,
            cf_databasePath = (case env ''PSS_DATABASE_PATH'' of
                                 None \<Rightarrow> defaultDatabasePath packageDir | Some p \<Rightarrow> p),
            cf_migrationsDir = defaultMigrationsDir packageDir,
            cf_timestampSkewSeconds = TIMESTAMP_SKEW_SECONDS,
            cf_maxCiphertextBytes = MAX_CIPHERTEXT_BYTES,
            cf_bodyHeadroomBytes = BODY_HEADROOM_BYTES,
            cf_writesPerHour = WRITES_PER_HOUR,
            cf_writeBurst = WRITE_BURST,
            cf_maxTrackedAccounts = 100000,
            cf_maxTrackedReplays = 100000,
            cf_requestTimeoutMs = 30000,
            cf_headersTimeoutMs = 10000,
            cf_maxConnections = 512,
            cf_inviteRequired = True\<rparr>)"

section \<open>Size limits\<close>

definition base64Chars :: "nat \<Rightarrow> nat" where
  "base64Chars bytes = ((bytes + 2) div 3) * 4"

definition base64Bytes :: "string \<Rightarrow> nat option" where
  "base64Bytes text =
     (if length text mod 4 \<noteq> 0 then None
      else
        let padding = (if ends_with text ''=='' then 2 else if ends_with text ''='' then 1 else 0)
        in Some ((length text div 4) * 3 - padding))"

definition envelopeChars :: "jsval \<Rightarrow> nat" where
  "envelopeChars skeleton = length (json_stringify skeleton)"

definition PUT_ENVELOPE_CHARS :: nat where
  "PUT_ENVELOPE_CHARS = envelopeChars (JObj [
     (''version'', JNum (NInt MAX_SAFE_INTEGER)), (''prevVersion'', JNum (NInt MAX_SAFE_INTEGER)),
     (''timestamp'', JNum (NInt MAX_SAFE_INTEGER)), (''nonce'', JStr ''''), (''ciphertext'', JStr ''''),
     (''authPk'', JStr ''''), (''sig'', JStr ''''), (''invite'', JStr '''')])"

definition DELETE_ENVELOPE_CHARS :: nat where
  "DELETE_ENVELOPE_CHARS = envelopeChars (JObj [
     (''timestamp'', JNum (NInt MAX_SAFE_INTEGER)), (''nonce'', JStr ''''),
     (''authPk'', JStr ''''), (''sig'', JStr '''')])"

definition DELETE_HEADROOM_CHARS :: nat where "DELETE_HEADROOM_CHARS = 256"

definition CREDENTIAL_CHARS :: nat where
  "CREDENTIAL_CHARS = base64Chars GCM_NONCE_BYTES + base64Chars ED25519_PUBLIC_KEY_BYTES +
     base64Chars ED25519_SIGNATURE_BYTES"

definition MAX_DELETE_BODY_BYTES :: nat where
  "MAX_DELETE_BODY_BYTES = DELETE_ENVELOPE_CHARS + CREDENTIAL_CHARS + DELETE_HEADROOM_CHARS"

definition maxPutBodyBytes :: "nat \<Rightarrow> nat \<Rightarrow> nat" where
  "maxPutBodyBytes maxCiphertextBytes headroomBytes =
     PUT_ENVELOPE_CHARS + CREDENTIAL_CHARS + INVITE_CODE_MAX_CHARS + base64Chars maxCiphertextBytes +
     headroomBytes"

section \<open>Reading a body\<close>

datatype body_read = BodyOk bytes | BodyTooLarge | BodyUnreadable

text \<open>What the stream emits, in order.\<close>

datatype body_event = EvData bytes | EvEnd | EvError | EvAborted

record body_reader =
  br_chunks :: "bytes list"
  br_total :: nat
  br_settled :: "body_read option"

definition settle :: "body_read \<Rightarrow> body_reader \<Rightarrow> body_reader" where
  "settle result r = (if br_settled r \<noteq> None then r else r\<lparr>br_settled := Some result\<rparr>)"

fun on_body_event :: "nat \<Rightarrow> body_event \<Rightarrow> body_reader \<Rightarrow> body_reader" where
  "on_body_event cap (EvData chunk) r =
     (if br_settled r \<noteq> None then r
      else
        let r = r\<lparr>br_total := br_total r + length chunk\<rparr>
        in if br_total r > cap then settle BodyTooLarge r
           else r\<lparr>br_chunks := br_chunks r @ [chunk]\<rparr>)"
| "on_body_event cap EvEnd r = settle (BodyOk (concat (br_chunks r))) r"
| "on_body_event cap EvError r = settle BodyUnreadable r"
| "on_body_event cap EvAborted r = settle BodyUnreadable r"

definition stream_body :: "nat \<Rightarrow> body_event list \<Rightarrow> body_read option" where
  "stream_body cap events =
     br_settled (fold (on_body_event cap) events \<lparr>br_chunks = [], br_total = 0, br_settled = None\<rparr>)"

text \<open>The promise of \<^verbatim>\<open>readBody\<close>: \<^const>\<open>None\<close> while it is pending.\<close>

definition readBody :: "string option \<Rightarrow> body_event list \<Rightarrow> nat \<Rightarrow> body_read option" where
  "readBody declared events cap =
     (case declared of
        None \<Rightarrow> stream_body cap events
      | Some text \<Rightarrow>
          case as_integer (js_Number text) of
            None \<Rightarrow> Some BodyUnreadable
          | Some len \<Rightarrow>
              if \<not> isSafeInteger len \<or> len < 0 then Some BodyUnreadable
              else if len > int cap then Some BodyTooLarge
              else stream_body cap events)"

text \<open>\<^verbatim>\<open>TextDecoder("utf-8", { fatal: true })\<close>: ill-formed input throws, a leading byte order mark is dropped,
  and a code unit above 255, which no legal body contains, is read as a question mark.\<close>

definition cont_byte :: "byte \<Rightarrow> bool" where
  "cont_byte b \<longleftrightarrow> 128 \<le> unat b \<and> unat b < 192"

fun utf8_strict :: "bytes \<Rightarrow> string option" where
  "utf8_strict [] = Some []"
| "utf8_strict (b # rest) =
     (let n = unat b in
      if n < 128 then map_option (Cons (char_of n)) (utf8_strict rest)
      else if 194 \<le> n \<and> n \<le> 223 then
        (case rest of
           c # r \<Rightarrow>
             if cont_byte c then
               map_option (Cons (if n \<le> 195 then char_of ((n - 192) * 64 + (unat c - 128)) else CHR ''?''))
                 (utf8_strict r)
             else None
         | _ \<Rightarrow> None)
      else if 224 \<le> n \<and> n \<le> 239 then
        (case rest of
           c # d # r \<Rightarrow>
             if cont_byte c \<and> cont_byte d \<and> (n = 224 \<longrightarrow> 160 \<le> unat c) \<and> (n = 237 \<longrightarrow> unat c < 160)
             then map_option (Cons (CHR ''?'')) (utf8_strict r)
             else None
         | _ \<Rightarrow> None)
      else if 240 \<le> n \<and> n \<le> 244 then
        (case rest of
           c # d # e # r \<Rightarrow>
             if cont_byte c \<and> cont_byte d \<and> cont_byte e \<and> (n = 240 \<longrightarrow> 144 \<le> unat c) \<and> (n = 244 \<longrightarrow> unat c < 144)
             then map_option (\<lambda>t. CHR ''?'' # CHR ''?'' # t) (utf8_strict r)
             else None
         | _ \<Rightarrow> None)
      else None)"

definition utf8_decode_fatal :: "bytes \<Rightarrow> string option" where
  "utf8_decode_fatal bs = utf8_strict (if take 3 bs = [0xEF, 0xBB, 0xBF] then drop 3 bs else bs)"

definition decodeJson :: "bytes \<Rightarrow> jsval result" where
  "decodeJson bs =
     (case utf8_decode_fatal bs of
        None \<Rightarrow> Inl (PlainError ''body is not UTF-8'')
      | Some text \<Rightarrow> (case json_parse text of None \<Rightarrow> Inl (PlainError ''body is not JSON'') | Some v \<Rightarrow> Inr v))"

section \<open>Identity, signature and freshness\<close>

text \<open>node:crypto: \<open>nc_verify\<close> imports the DER key and checks the signature, throwing on a key it cannot
  import.\<close>

record node_crypto =
  nc_sha256 :: "bytes \<Rightarrow> bytes"
  nc_verify :: "bytes \<Rightarrow> bytes \<Rightarrow> bytes \<Rightarrow> bool result"

definition ED25519_SPKI_PREFIX :: bytes where
  "ED25519_SPKI_PREFIX = [0x30, 0x2a, 0x30, 0x05, 0x06, 0x03, 0x2b, 0x65, 0x70, 0x03, 0x21, 0x00]"

definition accountIdOf :: "node_crypto \<Rightarrow> bytes \<Rightarrow> bytes" where
  "accountIdOf N authPk = nc_sha256 N authPk"

definition ownsAccount :: "node_crypto \<Rightarrow> bytes \<Rightarrow> bytes \<Rightarrow> bool" where
  "ownsAccount N authPk accountId \<longleftrightarrow>
     length accountId = ACCOUNT_ID_BYTES \<and> bytesEqual (accountIdOf N authPk) accountId"

definition verifyEd25519 :: "node_crypto \<Rightarrow> bytes \<Rightarrow> bytes \<Rightarrow> bytes \<Rightarrow> bool" where
  "verifyEd25519 N message signature authPk =
     (case nc_verify N message (ED25519_SPKI_PREFIX @ authPk) signature of Inl _ \<Rightarrow> False | Inr ok \<Rightarrow> ok)"

definition withinSkew :: "int \<Rightarrow> int \<Rightarrow> int \<Rightarrow> bool" where
  "withinSkew timestamp nowSeconds skewSeconds \<longleftrightarrow> \<bar>timestamp - nowSeconds\<bar> < skewSeconds"

text \<open>The server's primitives compute what the client's do.\<close>

definition node_agrees :: "node_crypto \<Rightarrow> crypto_backend \<Rightarrow> bool" where
  "node_agrees N B \<longleftrightarrow> nc_sha256 N = be_sha256 B \<and>
     (\<forall>pk m s. nc_verify N m (ED25519_SPKI_PREFIX @ pk) s = be_ed25519Verify B pk m s)"

definition clear_node :: node_crypto where
  "clear_node = \<lparr>nc_sha256 = fit 32, nc_verify = (\<lambda>m spki s. Inr (s = drop 12 spki @ fit 32 (rev m)))\<rparr>"

lemma clear_node_agrees: "node_agrees clear_node clear_backend"
  by (simp add: node_agrees_def clear_node_def clear_backend_def ED25519_SPKI_PREFIX_def)

section \<open>Lemmas: bodies\<close>

lemma utf8_strict_char: "utf8_strict (utf8_char c @ rest) = map_option (Cons c) (utf8_strict rest)"
proof (cases "(of_char c :: nat) < 128")
  case True
  then have "unat (word_of_nat (of_char c) :: byte) = of_char c"
    by (simp add: unat_of_nat take_bit_eq_mod)
  with True show ?thesis by (simp add: utf8_char_def Let_def)
next
  case False
  define n where "n = (of_char c :: nat)"
  have n: "128 \<le> n" "n < 256" using False nat_of_char_less_256 [of c] by (simp_all add: n_def)
  then have d: "n div 64 = 2 \<or> n div 64 = 3" by auto
  have b: "unat (word_of_nat (192 + n div 64) :: byte) = 192 + n div 64"
    using d by (subst unat_of_nat) (auto simp: take_bit_eq_mod)
  have c: "unat (word_of_nat (128 + n mod 64) :: byte) = 128 + n mod 64"
    by (subst unat_of_nat) (simp add: take_bit_eq_mod)
  have k: "cont_byte (word_of_nat (128 + n mod 64))" using c by (simp add: cont_byte_def)
  have "char_of (n div 64 * 64 + n mod 64) = c" by (simp add: n_def)
  moreover have "utf8_char c = [word_of_nat (192 + n div 64), word_of_nat (128 + n mod 64)]"
    using False by (simp add: utf8_char_def n_def Let_def)
  ultimately show ?thesis using b c d k by (auto simp: Let_def)
qed

lemma utf8_strict_utf8: "utf8_strict (utf8 t) = Some t"
  by (induction t) (simp_all add: utf8_def utf8_strict_char del: utf8_strict.simps(2))

lemma utf8_ascii: "list_all (\<lambda>c. (of_char c :: nat) < 128) t \<Longrightarrow> length (utf8 t) = length t"
  by (induction t) (simp_all add: utf8_def utf8_char_def Let_def)

lemma utf8_first_byte:
  assumes "(of_char c :: nat) < 128"
  shows "\<exists>b. utf8 (c # t) = b # utf8 t \<and> unat b < 128"
proof -
  have "unat (word_of_nat (of_char c) :: byte) = of_char c"
    using assms by (simp add: unat_of_nat take_bit_eq_mod)
  with assms show ?thesis by (simp add: utf8_def utf8_char_def Let_def)
qed

lemma json_object_text: "\<exists>t. json_stringify (JObj kvs) = CHR ''{'' # t"
  by simp

lemma decodeJson_object:
  assumes "json_plain (JObj kvs)"
  shows "decodeJson (utf8 (json_stringify (JObj kvs))) = Inr (JObj kvs)"
proof -
  obtain t where t: "json_stringify (JObj kvs) = CHR ''{'' # t" using json_object_text by blast
  obtain b where "utf8 (CHR ''{'' # t) = b # utf8 t" "unat b < 128" using utf8_first_byte [of "CHR ''{''" t] by auto
  then have "take 3 (utf8 (CHR ''{'' # t)) \<noteq> [0xEF, 0xBB, 0xBF]" by auto
  then have "utf8_decode_fatal (utf8 (json_stringify (JObj kvs))) = Some (json_stringify (JObj kvs))"
    by (simp only: t utf8_decode_fatal_def utf8_strict_utf8 if_False)
  then show ?thesis by (simp only: decodeJson_def option.case json_parse_stringify [OF assms])
qed

lemma settled_stays: "br_settled r = Some x \<Longrightarrow> br_settled (fold (on_body_event cap) evs r) = Some x"
proof (induction evs arbitrary: r)
  case Nil
  then show ?case by simp
next
  case (Cons ev evs)
  have "br_settled (on_body_event cap ev r) = Some x" using Cons.prems by (cases ev) (simp_all add: settle_def)
  with Cons.IH show ?case by simp
qed

lemma stream_data:
  "br_settled r = None \<Longrightarrow> br_total r = length (concat (br_chunks r)) \<Longrightarrow> br_total r \<le> cap \<Longrightarrow>
   br_settled (fold (on_body_event cap) (map EvData chunks @ [EvEnd]) r) =
     Some (if length (concat (br_chunks r @ chunks)) \<le> cap then BodyOk (concat (br_chunks r @ chunks)) else BodyTooLarge)"
proof (induction chunks arbitrary: r)
  case Nil
  then show ?case by (simp add: settle_def)
next
  case (Cons c chunks)
  show ?case
  proof (cases "br_total r + length c \<le> cap")
    case True
    define r' where "r' = r\<lparr>br_total := br_total r + length c, br_chunks := br_chunks r @ [c]\<rparr>"
    have "on_body_event cap (EvData c) r = r'" using Cons.prems True by (simp add: Let_def r'_def)
    moreover have "br_settled r' = None" "br_total r' = length (concat (br_chunks r'))" "br_total r' \<le> cap"
      using Cons.prems True by (simp_all add: r'_def)
    ultimately show ?thesis using Cons.IH [of r'] by (simp add: r'_def)
  next
    case False
    then have "br_settled (on_body_event cap (EvData c) r) = Some BodyTooLarge"
      using Cons.prems by (simp add: Let_def settle_def)
    then have "br_settled (fold (on_body_event cap) (map EvData chunks @ [EvEnd]) (on_body_event cap (EvData c) r)) =
        Some BodyTooLarge" by (rule settled_stays)
    moreover have "\<not> length (concat (br_chunks r @ c # chunks)) \<le> cap" using False Cons.prems by simp
    ultimately show ?thesis by (simp only: list.map append_Cons fold_simps if_False)
  qed
qed

text \<open>However the body is cut into chunks, the whole of it arrives if and only if it is within the cap.\<close>

lemma stream_body_chunks:
  "stream_body cap (map EvData chunks @ [EvEnd]) =
     Some (if length (concat chunks) \<le> cap then BodyOk (concat chunks) else BodyTooLarge)"
  unfolding stream_body_def by (subst stream_data) simp_all

lemma stream_total_bound:
  "br_settled r = None \<or> (\<forall>bs. br_settled r = Some (BodyOk bs) \<longrightarrow> length bs \<le> cap) \<Longrightarrow>
   br_settled r = None \<longrightarrow> br_total r = length (concat (br_chunks r)) \<and> br_total r \<le> cap \<Longrightarrow>
   br_settled (fold (on_body_event cap) evs r) = Some (BodyOk bs) \<Longrightarrow> length bs \<le> cap"
proof (induction evs arbitrary: r)
  case Nil
  then show ?case by auto
next
  case (Cons ev evs)
  let ?r = "on_body_event cap ev r"
  have "br_settled ?r = None \<or> (\<forall>bs. br_settled ?r = Some (BodyOk bs) \<longrightarrow> length bs \<le> cap)"
    using Cons.prems(1,2) by (cases ev) (auto simp: settle_def Let_def)
  moreover have "br_settled ?r = None \<longrightarrow> br_total ?r = length (concat (br_chunks ?r)) \<and> br_total ?r \<le> cap"
    using Cons.prems(1,2) by (cases ev) (auto simp: settle_def Let_def)
  moreover have "br_settled (fold (on_body_event cap) evs ?r) = Some (BodyOk bs)"
    using Cons.prems(3) by simp
  ultimately show ?case by (rule Cons.IH)
qed

text \<open>Whatever the declared length and the stream, no body longer than the cap is handed on.\<close>

lemma readBody_bounded: "readBody declared events cap = Some (BodyOk bs) \<Longrightarrow> length bs \<le> cap"
  by (auto simp: readBody_def stream_body_def split: option.splits if_splits intro: stream_total_bound
      [where r = "\<lparr>br_chunks = [], br_total = 0, br_settled = None\<rparr>"])

section \<open>Lemmas: limits\<close>

lemma base64Chars_toBase64: "length (toBase64 bs) = base64Chars (length bs)"
  by (simp add: length_toBase64 base64Chars_def)

lemma base64Bytes_toBase64: "base64Bytes (toBase64 bs) = Some (length bs)"
  using b64_outlen [of bs] ends_with_toBase64 [of bs]
  by (auto simp: base64Bytes_def length_toBase64 Let_def)

text \<open>Characters that JSON prints as they are and UTF-8 encodes in one byte.\<close>

definition bare_char :: "char \<Rightarrow> bool" where
  "bare_char c \<longleftrightarrow> 32 \<le> (of_char c :: nat) \<and> (of_char c :: nat) < 128 \<and> (of_char c :: nat) \<noteq> 34 \<and> (of_char c :: nat) \<noteq> 92"

lemma json_string_bare: "list_all bare_char s \<Longrightarrow> json_string s = CHR 0x22 # s @ [CHR 0x22]"
proof -
  assume s: "list_all bare_char s"
  then have "concat (map esc_char s) = s"
    by (induction s) (simp_all add: bare_char_def esc_char_def)
  then show ?thesis by (simp add: json_string_def)
qed

lemma nat_to_string_length: "n < 10 ^ k \<Longrightarrow> 0 < k \<Longrightarrow> length (nat_to_string n) \<le> k"
proof (induction k arbitrary: n)
  case 0
  then show ?case by simp
next
  case (Suc k)
  show ?case
  proof (cases "n < 10")
    case True
    then show ?thesis by (simp add: nat_to_string.simps [of n])
  next
    case False
    then have k: "0 < k" using Suc.prems(1) by (cases k) auto
    have "n div 10 < 10 ^ k" using Suc.prems(1) by (simp add: less_mult_imp_div_less mult.commute)
    with Suc.IH k have "length (nat_to_string (n div 10)) \<le> k" by blast
    with False show ?thesis by (simp add: nat_to_string.simps [of n])
  qed
qed

lemma count_text:
  assumes "is_count n"
  shows "length (int_to_string n) \<le> 16" and "list_all (\<lambda>c. (of_char c :: nat) < 128) (int_to_string n)"
proof -
  have n: "0 \<le> n" "nat n < 10 ^ 16"
    using assms by (auto simp: is_count_def isSafeInteger_def MAX_SAFE_INTEGER_def nat_less_iff)
  then show "length (int_to_string n) \<le> 16" by (simp add: int_to_string_def nat_to_string_length)
  have "list_all is_digit (int_to_string n)" using n by (simp add: int_to_string_def nat_to_string_digits)
  then show "list_all (\<lambda>c. (of_char c :: nat) < 128) (int_to_string n)"
    by (rule list.pred_mono_strong) (auto simp: is_digit_def)
qed

lemma bare_base64: "list_all bare_char (toBase64 bs)"
proof -
  have "\<forall>c \<in> set (BASE64_ALPHABET @ ''=''). bare_char c" by (simp add: BASE64_ALPHABET_def bare_char_def)
  moreover have "set (toBase64 bs) \<subseteq> set (BASE64_ALPHABET @ ''='')"
    by (induction bs rule: toBase64.induct) (auto simp: Let_def intro: b64_char_in)
  ultimately show ?thesis by (auto simp: list_all_iff)
qed

lemma bare_invite: "INVITE_SHAPE t \<Longrightarrow> list_all bare_char t"
proof -
  have "\<forall>c \<in> set ''ABCDEFGHIJKLMNOPQRSTUVWXYZabcdefghijklmnopqrstuvwxyz0123456789_-''. bare_char c"
    by (simp add: bare_char_def)
  then show "INVITE_SHAPE t \<Longrightarrow> list_all bare_char t" unfolding INVITE_SHAPE_def list_all_iff by blast
qed

lemma max_count_text: "length (int_to_string MAX_SAFE_INTEGER) = 16"
  by (simp add: int_to_string_def MAX_SAFE_INTEGER_def nat_to_string.simps)

lemma length_json_string: "length (json_string s) = sum_list (map (\<lambda>c. length (esc_char c)) s) + 2"
  by (simp add: json_string_def length_concat comp_def)

lemma envelope_chars: "PUT_ENVELOPE_CHARS = 148" "DELETE_ENVELOPE_CHARS = 62"
  by (simp_all add: PUT_ENVELOPE_CHARS_def DELETE_ENVELOPE_CHARS_def envelopeChars_def length_json_string
      max_count_text esc_char_def)

abbreviation ascii_text :: "string \<Rightarrow> bool" where
  "ascii_text \<equiv> list_all (\<lambda>c. (of_char c :: nat) < 128)"

lemma bare_ascii: "list_all bare_char s \<Longrightarrow> ascii_text s"
  by (simp add: list_all_iff bare_char_def)

lemma bare_json_string:
  assumes "list_all bare_char s"
  shows "length (json_string s) = length s + 2" and "ascii_text (json_string s)"
  using bare_ascii [OF assms] by (simp_all add: json_string_bare [OF assms])

lemma CREDENTIAL_CHARS_eq: "CREDENTIAL_CHARS = 148"
  by (simp add: CREDENTIAL_CHARS_def base64Chars_def GCM_NONCE_BYTES_def ED25519_PUBLIC_KEY_BYTES_def
      ED25519_SIGNATURE_BYTES_def)

lemma base64Chars_mono: "m \<le> n \<Longrightarrow> base64Chars m \<le> base64Chars n"
  by (simp add: base64Chars_def div_le_mono)

lemma put_request_text:
  assumes "decoded_put_wf d"
  shows "length (json_stringify (put_request_json (put_request_of d))) \<le> maxPutBodyBytes MAX_CIPHERTEXT_BYTES 0"
    and "ascii_text (json_stringify (put_request_json (put_request_of d)))"
    and "json_plain (put_request_json (put_request_of d))"
proof -
  note wf = assms [unfolded decoded_put_wf_def]
  have c: "length (int_to_string (dp_version d)) \<le> 16" "length (int_to_string (dp_prevVersion d)) \<le> 16"
    "length (int_to_string (dp_timestamp d)) \<le> 16"
    using wf by (simp_all add: count_text)
  have b: "length (json_string (toBase64 bs)) = base64Chars (length bs) + 2" for bs
    by (simp add: bare_json_string [OF bare_base64] base64Chars_toBase64)
  have cr: "base64Chars (length (dp_nonce d)) + base64Chars (length (dp_authPk d)) + base64Chars (length (dp_sig d)) = 148"
    using wf CREDENTIAL_CHARS_eq by (simp add: CREDENTIAL_CHARS_def)
  have ct: "base64Chars (length (dp_ciphertext d)) \<le> base64Chars MAX_CIPHERTEXT_BYTES"
    using wf by (simp add: base64Chars_mono)
  have k: "length (json_string ''version'') = 9" "length (json_string ''prevVersion'') = 13"
    "length (json_string ''timestamp'') = 11" "length (json_string ''nonce'') = 7"
    "length (json_string ''ciphertext'') = 12" "length (json_string ''authPk'') = 8"
    "length (json_string ''sig'') = 5" "length (json_string ''invite'') = 8"
    by (simp_all add: length_json_string esc_char_def)
  have ka: "ascii_text (json_string ''version'')" "ascii_text (json_string ''prevVersion'')"
    "ascii_text (json_string ''timestamp'')" "ascii_text (json_string ''nonce'')"
    "ascii_text (json_string ''ciphertext'')" "ascii_text (json_string ''authPk'')"
    "ascii_text (json_string ''sig'')" "ascii_text (json_string ''invite'')"
    by (simp_all add: json_string_def esc_char_def)
  have i: "length (json_string code) \<le> 130" if "dp_invite d = Some code" for code
    using wf that by (simp add: invite_wf_def bare_json_string [OF bare_invite] INVITE_CODE_MAX_CHARS_def)
  show "length (json_stringify (put_request_json (put_request_of d))) \<le> maxPutBodyBytes MAX_CIPHERTEXT_BYTES 0"
    using c cr ct i
    by (cases "dp_invite d")
      (simp_all add: put_request_json_def put_request_of_def b k maxPutBodyBytes_def envelope_chars CREDENTIAL_CHARS_eq
        INVITE_CODE_MAX_CHARS_def)
  have "ascii_text (json_string code)" if "dp_invite d = Some code" for code
    using wf that by (simp add: invite_wf_def bare_json_string [OF bare_invite])
  then show "ascii_text (json_stringify (put_request_json (put_request_of d)))"
    using wf
    by (cases "dp_invite d")
      (simp_all add: put_request_json_def put_request_of_def ka count_text bare_json_string [OF bare_base64])
  show "json_plain (put_request_json (put_request_of d))"
    using wf by (cases "dp_invite d") (simp_all add: put_request_json_def put_request_of_def is_count_def)
qed

section \<open>Lemmas: identity\<close>

lemma ownsAccount_iff: "ownsAccount N pk a \<longleftrightarrow> length a = ACCOUNT_ID_BYTES \<and> nc_sha256 N pk = a"
  by (auto simp: ownsAccount_def accountIdOf_def bytesEqual_iff)

end
