(* ===== verification/Slot_Store.thy ===== *)
theory Slot_Store
  imports Http_Request
begin

text \<open>
  The server's durable state (\<^verbatim>\<open>packages/pss-server/src/db/slotStore.ts\<close>, \<^verbatim>\<open>sqliteSlotStore.ts\<close>): the table of
  slots keyed by account and collection, and the table of invite hashes. SQLite is modelled by what each
  prepared statement does to the rows; a transaction whose body throws leaves the tables as they were. The
  contract the server relies on is the locale \<open>slot_store\<close>: a write lands only on the predecessor it
  names, and nothing but a delete of the account takes a version away.
\<close>

record stored_slot =
  sl_version :: int
  sl_prevVersion :: int
  sl_nonce :: bytes
  sl_ciphertext :: bytes

record slot_write =
  sw_accountId :: bytes
  sw_collection :: collection
  sw_version :: int
  sw_prevVersion :: int
  sw_nonce :: bytes
  sw_ciphertext :: bytes

datatype invite_gate = GateOpen | GateRequired "string option"

datatype write_outcome = written | conflict | invite_rejected

text \<open>An invite row is its code's hash and whether it is spent; the table may have been dropped.\<close>

record database =
  db_slots :: "((bytes \<times> collection) \<times> stored_slot) list"
  db_invites :: "(bytes \<times> bool) list option"

definition slot_of :: "slot_write \<Rightarrow> stored_slot" where
  "slot_of w = \<lparr>sl_version = sw_version w, sl_prevVersion = sw_prevVersion w,
     sl_nonce = sw_nonce w, sl_ciphertext = sw_ciphertext w\<rparr>"

definition slot_key :: "slot_write \<Rightarrow> bytes \<times> collection" where
  "slot_key w = (sw_accountId w, sw_collection w)"

text \<open>\<^verbatim>\<open>SELECT_SLOT\<close> and \<^verbatim>\<open>SELECT_ACCOUNT_ROW\<close>\<close>

definition st_get :: "bytes \<Rightarrow> collection \<Rightarrow> database \<Rightarrow> stored_slot option" where
  "st_get accountId c db = map_of (db_slots db) (accountId, c)"

definition hasAccountRow :: "bytes \<Rightarrow> database \<Rightarrow> bool" where
  "hasAccountRow accountId db \<longleftrightarrow> list_ex (\<lambda>((a, c), row). a = accountId) (db_slots db)"

text \<open>\<^verbatim>\<open>UPSERT_SLOT\<close>: insert the first row, or update the row whose version precedes the written one and is the
  predecessor it names. The result is the number of changed rows.\<close>

definition upsert_slot :: "slot_write \<Rightarrow> database \<Rightarrow> nat \<times> database" where
  "upsert_slot w db =
     (case map_of (db_slots db) (slot_key w) of
        None \<Rightarrow> (1, db\<lparr>db_slots := db_slots db @ [(slot_key w, slot_of w)]\<rparr>)
      | Some row \<Rightarrow>
          if sl_version row < sw_version w \<and> sl_version row = sw_prevVersion w
          then (1, db\<lparr>db_slots := AList.update (slot_key w) (slot_of w) (db_slots db)\<rparr>)
          else (0, db))"

definition st_cas :: "slot_write \<Rightarrow> database \<Rightarrow> bool \<times> database" where
  "st_cas w db = (case upsert_slot w db of (changes, db') \<Rightarrow> (changes = 1, db'))"

definition codeHash :: "node_crypto \<Rightarrow> string \<Rightarrow> bytes" where
  "codeHash N code = nc_sha256 N (utf8 code)"

text \<open>\<^verbatim>\<open>SPEND_INVITE\<close>, after the check that the table exists.\<close>

definition st_spend :: "node_crypto \<Rightarrow> string \<Rightarrow> database \<Rightarrow> bool \<times> database" where
  "st_spend N code db =
     (case db_invites db of
        None \<Rightarrow> (False, db)
      | Some rows \<Rightarrow>
          if map_of rows (codeHash N code) = Some False
          then (True, db\<lparr>db_invites := Some (AList.update (codeHash N code) True rows)\<rparr>)
          else (False, db))"

definition InviteRejected :: pss_error where
  "InviteRejected = PlainError ''PSS create carried no unspent invite code''"

definition gatedWrite :: "node_crypto \<Rightarrow> slot_write \<Rightarrow> string option \<Rightarrow> database \<Rightarrow> write_outcome result \<times> database" where
  "gatedWrite N w code db =
     (if hasAccountRow (sw_accountId w) db
      then (case st_cas w db of (ok, db') \<Rightarrow> (Inr (if ok then written else conflict), db'))
      else
        case st_cas w db of
          (False, db') \<Rightarrow> (Inr conflict, db')
        | (True, db') \<Rightarrow>
            (case code of
               None \<Rightarrow> (Inl InviteRejected, db')
             | Some c \<Rightarrow>
                 (case st_spend N c db' of
                    (False, db'') \<Rightarrow> (Inl InviteRejected, db'')
                  | (True, db'') \<Rightarrow> (Inr written, db''))))"

definition st_upsert :: "node_crypto \<Rightarrow> slot_write \<Rightarrow> invite_gate \<Rightarrow> database \<Rightarrow> write_outcome \<times> database" where
  "st_upsert N w gate db =
     (case gate of
        GateOpen \<Rightarrow> (case st_cas w db of (ok, db') \<Rightarrow> (if ok then written else conflict, db'))
      | GateRequired code \<Rightarrow>
          (case gatedWrite N w code db of
             (Inr outcome, db') \<Rightarrow> (outcome, db')
           | (Inl _, _) \<Rightarrow> (invite_rejected, db)))"

definition st_deleteAccount :: "bytes \<Rightarrow> database \<Rightarrow> nat \<times> database" where
  "st_deleteAccount accountId db =
     (length (filter (\<lambda>((a, c), row). a = accountId) (db_slots db)),
      db\<lparr>db_slots := filter (\<lambda>((a, c), row). a \<noteq> accountId) (db_slots db)\<rparr>)"

section \<open>The contract of a slot store\<close>

datatype store_op = SUpsert slot_write invite_gate | SDelete bytes

locale slot_store =
  fixes s_get :: "bytes \<Rightarrow> collection \<Rightarrow> 's \<Rightarrow> stored_slot option"
    and s_upsert :: "slot_write \<Rightarrow> invite_gate \<Rightarrow> 's \<Rightarrow> write_outcome \<times> 's"
    and s_delete :: "bytes \<Rightarrow> 's \<Rightarrow> nat \<times> 's"
    and s_ok :: "'s \<Rightarrow> bool"
  assumes ok_upsert: "s_ok s \<Longrightarrow> s_ok (snd (s_upsert w g s))"
    and ok_delete: "s_ok s \<Longrightarrow> s_ok (snd (s_delete a s))"
    and upsert_pre: "s_ok s \<Longrightarrow> fst (s_upsert w g s) = written \<Longrightarrow>
          s_get (sw_accountId w) (sw_collection w) s = Some st \<Longrightarrow>
          sl_version st = sw_prevVersion w \<and> sw_prevVersion w < sw_version w"
    and upsert_get: "s_ok s \<Longrightarrow> s_get a c (snd (s_upsert w g s)) =
          (if fst (s_upsert w g s) = written \<and> a = sw_accountId w \<and> c = sw_collection w
           then Some (slot_of w) else s_get a c s)"
    and delete_get: "s_ok s \<Longrightarrow> s_get a' c (snd (s_delete a s)) = (if a' = a then None else s_get a' c s)"
    and delete_count: "s_ok s \<Longrightarrow> fst (s_delete a s) > 0 \<longleftrightarrow> (\<exists>c. s_get a c s \<noteq> None)"
begin

definition s_step :: "store_op \<Rightarrow> 's \<Rightarrow> 's" where
  "s_step p s = (case p of SUpsert w g \<Rightarrow> snd (s_upsert w g s) | SDelete a \<Rightarrow> snd (s_delete a s))"

lemma ok_run: "s_ok s \<Longrightarrow> s_ok (fold s_step ops s)"
  by (induction ops arbitrary: s) (auto simp: s_step_def ok_upsert ok_delete split: store_op.splits)

lemma step_version:
  assumes "s_ok s" and "s_get a c s = Some st" and "p \<noteq> SDelete a"
  shows "\<exists>st'. s_get a c (s_step p s) = Some st' \<and> sl_version st \<le> sl_version st'"
proof (cases p)
  case (SUpsert w g)
  then show ?thesis
    using assms(1,2) upsert_pre [OF assms(1), of w g st]
    by (auto simp: s_step_def upsert_get slot_of_def)
next
  case (SDelete a')
  with assms show ?thesis by (simp add: s_step_def delete_get)
qed

lemma run_version:
  "s_ok s \<Longrightarrow> s_get a c s = Some st \<Longrightarrow> SDelete a \<notin> set ops \<Longrightarrow>
   \<exists>st'. s_get a c (fold s_step ops s) = Some st' \<and> sl_version st \<le> sl_version st'"
proof (induction ops arbitrary: s st)
  case Nil
  then show ?case by simp
next
  case (Cons p ops)
  have ok: "s_ok (s_step p s)" using ok_run [OF Cons.prems(1), of "[p]"] by simp
  from Cons.prems obtain st1 where st1: "s_get a c (s_step p s) = Some st1" "sl_version st \<le> sl_version st1"
    using step_version [of s a c st p] by auto
  from Cons.IH [OF ok st1(1)] Cons.prems(3) obtain st2 where
    "s_get a c (fold s_step ops (s_step p s)) = Some st2" "sl_version st1 \<le> sl_version st2" by auto
  with st1(2) show ?case by (intro exI [of _ st2]) simp
qed

text \<open>Of two writes that name the same predecessor of a slot, at most one lands.\<close>

lemma cas_exclusive:
  assumes "s_ok s" and "s_upsert w g s = (written, s1)" and "sw_prevVersion w < sw_version w"
    and "SDelete (sw_accountId w) \<notin> set ops"
    and "sw_accountId w' = sw_accountId w" and "sw_collection w' = sw_collection w"
    and "sw_prevVersion w' = sw_prevVersion w"
  shows "fst (s_upsert w' g' (fold s_step ops s1)) \<noteq> written"
proof
  assume wr: "fst (s_upsert w' g' (fold s_step ops s1)) = written"
  have ok1: "s_ok s1" using ok_upsert [OF assms(1), of w g] assms(2) by simp
  have "s_get (sw_accountId w) (sw_collection w) s1 = Some (slot_of w)"
    using upsert_get [OF assms(1), of _ _ w g] assms(2) by simp
  from run_version [OF ok1 this assms(4)] obtain st where
    st: "s_get (sw_accountId w) (sw_collection w) (fold s_step ops s1) = Some st" "sw_version w \<le> sl_version st"
    by (auto simp: slot_of_def)
  from upsert_pre [OF ok_run [OF ok1] wr] st(1) assms(5-7) have "sl_version st = sw_prevVersion w" by simp
  with st(2) assms(3) show False by simp
qed

end

section \<open>Lemmas: the database keeps the contract\<close>

definition db_ok :: "database \<Rightarrow> bool" where
  "db_ok db \<longleftrightarrow> distinct (map fst (db_slots db)) \<and>
     (\<forall>rows. db_invites db = Some rows \<longrightarrow> distinct (map fst rows))"

lemma hasAccountRow_get: "hasAccountRow a db \<longleftrightarrow> (\<exists>c. st_get a c db \<noteq> None)"
  by (auto simp: hasAccountRow_def st_get_def list_ex_iff map_of_eq_None_iff image_iff) force+

lemma st_cas_eq:
  "st_cas w db =
     (if (\<forall>row. st_get (sw_accountId w) (sw_collection w) db = Some row \<longrightarrow>
            sl_version row < sw_version w \<and> sl_version row = sw_prevVersion w)
      then (True, db\<lparr>db_slots := AList.update (slot_key w) (slot_of w) (db_slots db)\<rparr>)
      else (False, db))"
proof (cases "map_of (db_slots db) (slot_key w)")
  case None
  then have "slot_key w \<notin> fst ` set (db_slots db)" by (simp add: map_of_eq_None_iff)
  with None show ?thesis
    by (simp add: st_cas_def upsert_slot_def st_get_def slot_key_def [symmetric] update_fresh)
next
  case (Some row)
  then show ?thesis by (auto simp: st_cas_def upsert_slot_def st_get_def slot_key_def [symmetric])
qed

lemma st_get_invites [simp]: "st_get a c (db\<lparr>db_invites := i\<rparr>) = st_get a c db"
  by (simp add: st_get_def)

lemma st_get_update: "st_get a c (db\<lparr>db_slots := AList.update (slot_key w) r (db_slots db)\<rparr>) =
   (if a = sw_accountId w \<and> c = sw_collection w then Some r else st_get a c db)"
  by (simp add: st_get_def slot_key_def)

lemma st_cas_get: "st_get a c (snd (st_cas w db)) =
   (if fst (st_cas w db) \<and> a = sw_accountId w \<and> c = sw_collection w then Some (slot_of w) else st_get a c db)"
  by (simp add: st_cas_eq st_get_update)

lemma st_cas_ok: "db_ok db \<Longrightarrow> db_ok (snd (st_cas w db))"
  by (simp add: st_cas_eq db_ok_def distinct_update)

lemma st_cas_pre: "fst (st_cas w db) \<Longrightarrow> st_get (sw_accountId w) (sw_collection w) db = Some row \<Longrightarrow>
   sl_version row = sw_prevVersion w \<and> sw_prevVersion w < sw_version w"
  by (auto simp: st_cas_eq split: if_splits)

lemma st_cas_failed: "\<not> fst (st_cas w db) \<Longrightarrow> snd (st_cas w db) = db"
  by (auto simp: st_cas_eq split: if_splits)

lemma st_cas_invites [simp]: "db_invites (snd (st_cas w db)) = db_invites db"
  by (simp add: st_cas_eq)

lemma st_spend_get [simp]: "st_get a c (snd (st_spend N code db)) = st_get a c db"
  by (simp add: st_spend_def split: option.split)

lemma st_spend_ok: "db_ok db \<Longrightarrow> db_ok (snd (st_spend N code db))"
  by (auto simp: st_spend_def db_ok_def distinct_update split: option.split)

text \<open>The outcome of an upsert in one place: refused with nothing changed, or the compare-and-swap, with the
  invite spent when the account is new.\<close>

lemma st_upsert_cases:
  obtains (refused) "st_upsert N w g db = (conflict, db)" "\<not> fst (st_cas w db)"
  | (uninvited) "st_upsert N w g db = (invite_rejected, db)" "\<not> hasAccountRow (sw_accountId w) db" "g \<noteq> GateOpen"
  | (existing) "st_upsert N w g db = (written, snd (st_cas w db))" "fst (st_cas w db)"
      "hasAccountRow (sw_accountId w) db \<or> g = GateOpen"
  | (created) code where "st_upsert N w g db = (written, snd (st_spend N code (snd (st_cas w db))))" "fst (st_cas w db)"
      "\<not> hasAccountRow (sw_accountId w) db" "g = GateRequired (Some code)" "fst (st_spend N code (snd (st_cas w db)))"
proof (cases g)
  case GateOpen
  show ?thesis
  proof (cases "fst (st_cas w db)")
    case True
    with GateOpen have "st_upsert N w g db = (written, snd (st_cas w db))"
      by (cases "st_cas w db") (simp add: st_upsert_def)
    with True GateOpen show ?thesis by (rule_tac existing) auto
  next
    case False
    with GateOpen have "st_upsert N w g db = (conflict, db)"
      using st_cas_failed [OF False] by (cases "st_cas w db") (simp add: st_upsert_def)
    with False show ?thesis by (rule_tac refused)
  qed
next
  case (GateRequired code)
  obtain ok d where cas: "st_cas w db = (ok, d)" by (cases "st_cas w db")
  show ?thesis
  proof (cases ok)
    case False
    then have "d = db" using st_cas_failed [of w db] cas by simp
    then have "st_upsert N w g db = (conflict, db)" using cas False GateRequired
      by (simp add: st_upsert_def gatedWrite_def)
    with cas False show ?thesis by (rule_tac refused) auto
  next
    case True
    show ?thesis
    proof (cases "hasAccountRow (sw_accountId w) db")
      case row: True
      with cas True GateRequired have "st_upsert N w g db = (written, snd (st_cas w db))"
        by (simp add: st_upsert_def gatedWrite_def)
      with row cas True show ?thesis by (rule_tac existing) auto
    next
      case row: False
      show ?thesis
      proof (cases code)
        case None
        with row cas True GateRequired have "st_upsert N w g db = (invite_rejected, db)"
          by (simp add: st_upsert_def gatedWrite_def)
        with row GateRequired show ?thesis by (rule_tac uninvited) auto
      next
        case (Some c)
        obtain sp d' where spend: "st_spend N c d = (sp, d')" by (cases "st_spend N c d")
        show ?thesis
        proof (cases sp)
          case sp: True
          with row cas True GateRequired Some spend have
            "st_upsert N w g db = (written, snd (st_spend N c (snd (st_cas w db))))"
            by (simp add: st_upsert_def gatedWrite_def)
          with row cas True GateRequired Some spend sp show ?thesis by (rule_tac created) auto
        next
          case sp: False
          with row cas True GateRequired Some spend have "st_upsert N w g db = (invite_rejected, db)"
            by (simp add: st_upsert_def gatedWrite_def)
          with row GateRequired show ?thesis by (rule_tac uninvited) auto
        qed
      qed
    qed
  qed
qed

lemma st_delete_get: "st_get a' c (snd (st_deleteAccount a db)) = (if a' = a then None else st_get a' c db)"
proof -
  have "map_of (filter (\<lambda>((x, y), row). x \<noteq> a) m) (a', c) = (if a' = a then None else map_of m (a', c))" for m :: "((bytes \<times> collection) \<times> stored_slot) list"
    by (induction m) auto
  then show ?thesis by (simp add: st_get_def st_deleteAccount_def)
qed

interpretation sqlite: slot_store st_get "st_upsert N" st_deleteAccount db_ok for N
proof unfold_locales
  fix db :: database and w :: slot_write and g :: invite_gate and a a' :: bytes and c :: collection and st :: stored_slot
  assume ok: "db_ok db"
  show "db_ok (snd (st_upsert N w g db))"
    by (cases rule: st_upsert_cases [of N w g db]) (simp_all add: ok st_cas_ok st_spend_ok)
  show "db_ok (snd (st_deleteAccount a db))"
    using ok by (simp add: db_ok_def st_deleteAccount_def distinct_map_filter)
  show "sl_version st = sw_prevVersion w \<and> sw_prevVersion w < sw_version w"
    if "fst (st_upsert N w g db) = written" "st_get (sw_accountId w) (sw_collection w) db = Some st"
    using that st_cas_pre by (cases rule: st_upsert_cases [of N w g db]) auto
  show "st_get a c (snd (st_upsert N w g db)) =
      (if fst (st_upsert N w g db) = written \<and> a = sw_accountId w \<and> c = sw_collection w then Some (slot_of w) else st_get a c db)"
    by (cases rule: st_upsert_cases [of N w g db]) (simp_all add: st_cas_get)
  show "st_get a' c (snd (st_deleteAccount a db)) = (if a' = a then None else st_get a' c db)"
    by (rule st_delete_get)
  show "0 < fst (st_deleteAccount a db) \<longleftrightarrow> (\<exists>c. st_get a c db \<noteq> None)"
    unfolding hasAccountRow_get [symmetric]
    by (auto simp: st_deleteAccount_def hasAccountRow_def list_ex_iff filter_empty_conv)
qed

section \<open>Lemmas: invites\<close>

definition unspent :: "database \<Rightarrow> nat" where
  "unspent db = (case db_invites db of None \<Rightarrow> 0 | Some rows \<Rightarrow> length (filter (\<lambda>(h, sp). \<not> sp) rows))"

lemma unspent_update:
  "distinct (map fst rows) \<Longrightarrow> map_of rows h = Some False \<Longrightarrow>
   Suc (length (filter (\<lambda>(h, sp). \<not> sp) (AList.update h True rows))) = length (filter (\<lambda>(h, sp). \<not> sp) rows)"
proof (induction rows)
  case Nil
  then show ?case by simp
next
  case (Cons p rows)
  then show ?case by (cases p) (auto split: if_splits)
qed

lemma st_spend_unspent:
  assumes "db_ok db" and "fst (st_spend N code db)"
  shows "Suc (unspent (snd (st_spend N code db))) = unspent db"
proof -
  from assms(2) obtain rows where rows: "db_invites db = Some rows" "map_of rows (codeHash N code) = Some False"
    by (auto simp: st_spend_def split: option.splits if_splits)
  moreover have "distinct (map fst rows)" using assms(1) rows(1) by (simp add: db_ok_def)
  ultimately show ?thesis using unspent_update [of rows "codeHash N code"] by (simp add: st_spend_def unspent_def)
qed

text \<open>Whether an operation creates an account: a write that lands although the account had no row.\<close>

definition creates :: "node_crypto \<Rightarrow> store_op \<Rightarrow> database \<Rightarrow> nat" where
  "creates N p db = (case p of
     SUpsert w g \<Rightarrow> (if fst (st_upsert N w g db) = written \<and> \<not> hasAccountRow (sw_accountId w) db then 1 else 0)
   | SDelete a \<Rightarrow> 0)"

fun created_by :: "node_crypto \<Rightarrow> store_op list \<Rightarrow> database \<Rightarrow> nat" where
  "created_by N [] db = 0"
| "created_by N (p # ops) db = creates N p db + created_by N ops (sqlite.s_step N p db)"

definition gated :: "store_op \<Rightarrow> bool" where
  "gated p = (case p of SUpsert w g \<Rightarrow> g \<noteq> GateOpen | SDelete a \<Rightarrow> True)"

lemma step_unspent:
  assumes "db_ok db" and "gated p"
  shows "creates N p db + unspent (sqlite.s_step N p db) = unspent db"
proof (cases p)
  case (SDelete a)
  then show ?thesis by (simp add: creates_def sqlite.s_step_def st_deleteAccount_def unspent_def)
next
  case (SUpsert w g)
  have cas: "unspent (snd (st_cas w db)) = unspent db" by (simp add: unspent_def)
  show ?thesis
    using assms SUpsert st_spend_unspent [OF st_cas_ok [OF assms(1)], of N _ w] cas
    by (cases rule: st_upsert_cases [of N w g db]) (auto simp: creates_def sqlite.s_step_def gated_def)
qed

lemma run_unspent:
  "db_ok db \<Longrightarrow> list_all gated ops \<Longrightarrow>
   created_by N ops db + unspent (fold (sqlite.s_step N) ops db) = unspent db"
proof (induction ops arbitrary: db)
  case Nil
  then show ?case by simp
next
  case (Cons p ops)
  have "db_ok (sqlite.s_step N p db)" using sqlite.ok_run [OF Cons.prems(1), of N "[p]"] by simp
  with Cons.IH [of "sqlite.s_step N p db"] Cons.prems step_unspent [of db p N] show ?case by simp
qed

end
