(* ===== verification/Replay_Guard.thy ===== *)
theory Replay_Guard
  imports Prelude
begin

text \<open>
  The replay guard (\<^verbatim>\<open>packages/pss-server/src/replayGuard.ts\<close>): an insertion-ordered map from signatures to
  the second they were recorded in, bounded in size, whose entries expire with the window. The clock
  reading in milliseconds is an argument of every operation that reads it. The contract a server needs
  of it is the locale \<open>replay_memory\<close>: a recorded signature stays known until its window ends, however
  other signatures are looked up and recorded, as long as fewer than the capacity are recorded.
\<close>

record replay_options =
  ro_windowSeconds :: int
  ro_capacity :: nat

type_synonym replay_map = "(string \<times> int) list"

definition rg_expired :: "replay_options \<Rightarrow> int \<Rightarrow> int \<Rightarrow> bool" where
  "rg_expired opts now at1 \<longleftrightarrow> now div 1000 - at1 > ro_windowSeconds opts"

definition rg_seen :: "replay_options \<Rightarrow> int \<Rightarrow> string \<Rightarrow> replay_map \<Rightarrow> bool \<times> replay_map" where
  "rg_seen opts now signature m =
     (case map_of m signature of
        None \<Rightarrow> (False, m)
      | Some at1 \<Rightarrow>
          if rg_expired opts now at1 then (False, AList.delete signature m) else (True, m))"

text \<open>The iteration of \<^verbatim>\<open>#prune\<close>, from the oldest entry to the first that has not expired.\<close>

fun rg_prune :: "replay_options \<Rightarrow> int \<Rightarrow> replay_map \<Rightarrow> replay_map" where
  "rg_prune opts now [] = []"
| "rg_prune opts now ((signature, at1) # m) =
     (if \<not> rg_expired opts now at1 then (signature, at1) # m else rg_prune opts now m)"

fun rg_evict :: "nat \<Rightarrow> (string \<times> 'v) list \<Rightarrow> (string \<times> 'v) list" where
  "rg_evict capacity m = (if length m > capacity then rg_evict capacity (tl m) else m)"

declare rg_evict.simps [simp del]

definition rg_record :: "replay_options \<Rightarrow> int \<Rightarrow> string \<Rightarrow> int \<Rightarrow> replay_map \<Rightarrow> replay_map" where
  "rg_record opts now signature nowSeconds m =
     rg_evict (ro_capacity opts) (AList.update signature nowSeconds (rg_prune opts now m))"

definition rg_size :: "replay_map \<Rightarrow> nat" where
  "rg_size m = length m"

section \<open>A memory that is bounded after every operation\<close>

locale bounded_memory =
  fixes mem_step :: "'op \<Rightarrow> 's \<Rightarrow> 's" and mem_size :: "'s \<Rightarrow> nat" and bound :: "'s \<Rightarrow> nat"
  assumes step_bound: "bound (mem_step p s) = bound s"
    and step_bounded: "mem_size s \<le> bound s \<Longrightarrow> mem_size (mem_step p s) \<le> bound s"
begin

lemma run_bounded: "mem_size s \<le> bound s \<Longrightarrow> mem_size (fold mem_step ops s) \<le> bound s"
proof (induction ops arbitrary: s)
  case Nil
  then show ?case by simp
next
  case (Cons p ops)
  from Cons.IH [of "mem_step p s"] step_bounded [OF Cons.prems] show ?case by (simp add: step_bound)
qed

end

section \<open>The contract of a replay guard\<close>

datatype replay_op = RSeen int string | RRecord int string int

locale replay_memory =
  fixes g_seen :: "int \<Rightarrow> string \<Rightarrow> 's \<Rightarrow> bool \<times> 's"
    and g_record :: "int \<Rightarrow> string \<Rightarrow> int \<Rightarrow> 's \<Rightarrow> 's"
    and holds :: "string \<Rightarrow> int \<Rightarrow> nat \<Rightarrow> 's \<Rightarrow> bool"
    and window :: int and capacity :: nat
  assumes seen_known: "holds sg at1 k s \<Longrightarrow> now div 1000 - at1 \<le> window \<Longrightarrow> g_seen now sg s = (True, s)"
    and seen_keeps: "holds sg at1 k s \<Longrightarrow> now div 1000 - at1 \<le> window \<Longrightarrow> holds sg at1 k (snd (g_seen now sg' s))"
    and record_keeps: "holds sg at1 k s \<Longrightarrow> now div 1000 - at1 \<le> window \<Longrightarrow> sg' \<noteq> sg \<Longrightarrow> Suc k < capacity \<Longrightarrow>
           holds sg at1 (Suc k) (g_record now sg' at' s)"
    and record_known: "0 < capacity \<Longrightarrow> \<not> fst (g_seen now sg s) \<Longrightarrow>
           holds sg at1 0 (g_record now sg at1 (snd (g_seen now sg s)))"
begin

definition g_step :: "replay_op \<Rightarrow> 's \<Rightarrow> 's" where
  "g_step p s = (case p of RSeen now sg \<Rightarrow> snd (g_seen now sg s) | RRecord now sg at1 \<Rightarrow> g_record now sg at1 s)"

definition g_quiet :: "string \<Rightarrow> int \<Rightarrow> replay_op \<Rightarrow> bool" where
  "g_quiet sg at1 p = (case p of RSeen now _ \<Rightarrow> now div 1000 - at1 \<le> window
     | RRecord now sg' _ \<Rightarrow> now div 1000 - at1 \<le> window \<and> sg' \<noteq> sg)"

definition g_records :: "replay_op \<Rightarrow> nat" where
  "g_records p = (case p of RSeen _ _ \<Rightarrow> 0 | RRecord _ _ _ \<Rightarrow> 1)"

lemma run_holds:
  "holds sg at1 k s \<Longrightarrow> list_all (g_quiet sg at1) ops \<Longrightarrow> k + sum_list (map g_records ops) < capacity \<Longrightarrow>
   holds sg at1 (k + sum_list (map g_records ops)) (fold g_step ops s)"
proof (induction ops arbitrary: s k)
  case Nil
  then show ?case by simp
next
  case (Cons p ops)
  have "holds sg at1 (k + g_records p) (g_step p s)"
    using Cons.prems
    by (cases p) (auto simp: g_step_def g_records_def g_quiet_def seen_keeps record_keeps)
  from Cons.IH [OF this] Cons.prems show ?case by (simp add: add.assoc)
qed

lemma run_known:
  assumes "holds sg at1 0 s" and "list_all (g_quiet sg at1) ops" and "sum_list (map g_records ops) < capacity"
    and "now div 1000 - at1 \<le> window"
  shows "fst (g_seen now sg (fold g_step ops s))"
  using seen_known [OF run_holds [OF assms(1,2)] assms(4)] assms(3) by simp

end

section \<open>Lemmas: the guard keeps the contract\<close>

lemma rg_evict_eq: "rg_evict capacity m = drop (length m - capacity) m"
proof (induction capacity m rule: rg_evict.induct)
  case (1 capacity m)
  show ?case
  proof (cases "length m > capacity")
    case True
    then have "rg_evict capacity m = drop (length (tl m) - capacity) (tl m)"
      using 1 by (simp add: rg_evict.simps [of capacity m])
    also have "\<dots> = drop (Suc (length (tl m) - capacity)) m" by (simp add: drop_Suc)
    also have "Suc (length (tl m) - capacity) = length m - capacity" using True by simp
    finally show ?thesis .
  next
    case False
    then show ?thesis by (simp add: rg_evict.simps [of capacity m])
  qed
qed

lemma rg_prune_eq: "rg_prune opts now m = dropWhile (\<lambda>p. rg_expired opts now (snd p)) m"
  by (induction opts now m rule: rg_prune.induct) simp_all

text \<open>The entry is in the map, under its key only once, and at most \<open>k\<close> entries are newer.\<close>

definition rg_holds :: "string \<Rightarrow> int \<Rightarrow> nat \<Rightarrow> replay_map \<Rightarrow> bool" where
  "rg_holds sg at1 k m \<longleftrightarrow> (\<exists>xs ys. m = xs @ (sg, at1) # ys \<and> length ys \<le> k \<and>
     sg \<notin> fst ` set xs \<and> sg \<notin> fst ` set ys)"

lemma rg_holds_lookup: "rg_holds sg at1 k m \<Longrightarrow> map_of m sg = Some at1"
  by (auto simp: rg_holds_def map_add_def dom_map_of_conv_image_fst domIff split: option.split)
    (metis domI dom_map_of_conv_image_fst)

lemma delete_append: "AList.delete k (xs @ ys) = AList.delete k xs @ AList.delete k ys"
  by (simp add: AList.delete_eq)

lemma rg_holds_delete:
  assumes "rg_holds sg at1 k m" and "sg' \<noteq> sg"
  shows "rg_holds sg at1 k (AList.delete sg' m)"
proof -
  from assms(1) obtain xs ys where m: "m = xs @ (sg, at1) # ys" "length ys \<le> k" "sg \<notin> fst ` set xs" "sg \<notin> fst ` set ys"
    by (auto simp: rg_holds_def)
  have "AList.delete sg' m = AList.delete sg' xs @ (sg, at1) # AList.delete sg' ys"
    using assms(2) by (simp add: m(1) delete_append)
  moreover have "length (AList.delete sg' ys) \<le> k" using m(2) length_delete_le [of sg' ys] by linarith
  moreover have "sg \<notin> fst ` set (AList.delete sg' xs)" "sg \<notin> fst ` set (AList.delete sg' ys)"
    using m(3,4) by (auto simp: AList.delete_eq)
  ultimately show ?thesis unfolding rg_holds_def by blast
qed

lemma update_split:
  "k \<noteq> k0 \<Longrightarrow> \<exists>xs' ys'. AList.update k v (xs @ (k0, v0) # ys) = xs' @ (k0, v0) # ys' \<and>
     fst ` set xs' \<subseteq> fst ` set xs \<and> fst ` set ys' \<subseteq> insert k (fst ` set ys) \<and> length ys' \<le> Suc (length ys)"
proof (induction xs)
  case Nil
  have "length (AList.update k v ys) \<le> Suc (length ys)" by (induction ys) auto
  with Nil show ?case by (intro exI [of _ "[]"] exI [of _ "AList.update k v ys"]) (auto simp: update_keys set_update_distinct dom_update)
next
  case (Cons p xs)
  show ?case
  proof (cases "fst p = k")
    case True
    then show ?thesis by (cases p) (intro exI [of _ "(k, v) # xs"] exI [of _ ys], auto)
  next
    case False
    from Cons obtain xs' ys' where "AList.update k v (xs @ (k0, v0) # ys) = xs' @ (k0, v0) # ys'"
      "fst ` set xs' \<subseteq> fst ` set xs" "fst ` set ys' \<subseteq> insert k (fst ` set ys)" "length ys' \<le> Suc (length ys)" by blast
    with False show ?thesis by (cases p) (intro exI [of _ "p # xs'"] exI [of _ ys'], auto)
  qed
qed

lemma rg_holds_update:
  assumes "rg_holds sg at1 k m" and "sg' \<noteq> sg"
  shows "rg_holds sg at1 (Suc k) (AList.update sg' at' m)"
proof -
  from assms(1) obtain xs ys where m: "m = xs @ (sg, at1) # ys" "length ys \<le> k" "sg \<notin> fst ` set xs" "sg \<notin> fst ` set ys"
    by (auto simp: rg_holds_def)
  from update_split [OF assms(2), of at' xs at1 ys] obtain xs' ys' where
    "AList.update sg' at' m = xs' @ (sg, at1) # ys'" "fst ` set xs' \<subseteq> fst ` set xs"
    "fst ` set ys' \<subseteq> insert sg' (fst ` set ys)" "length ys' \<le> Suc (length ys)"
    unfolding m(1) by blast
  with m(2-4) assms(2) show ?thesis unfolding rg_holds_def by (intro exI [of _ xs'] exI [of _ ys']) auto
qed

lemma rg_holds_suffix:
  assumes "rg_holds sg at1 k m" and "n + Suc k \<le> length m"
  shows "rg_holds sg at1 k (drop n m)"
proof -
  from assms(1) obtain xs ys where m: "m = xs @ (sg, at1) # ys" "length ys \<le> k" "sg \<notin> fst ` set xs" "sg \<notin> fst ` set ys"
    by (auto simp: rg_holds_def)
  have "n \<le> length xs" using assms(2) m(1,2) by simp
  then have "drop n m = drop n xs @ (sg, at1) # ys" by (simp add: m(1))
  moreover have "sg \<notin> fst ` set (drop n xs)" using m(3) set_drop_subset [of n xs] by blast
  ultimately show ?thesis using m unfolding rg_holds_def by blast
qed

lemma rg_holds_evict:
  assumes "rg_holds sg at1 k m" and "k < capacity"
  shows "rg_holds sg at1 k (rg_evict capacity m)"
proof (cases "capacity \<le> length m")
  case True
  with assms show ?thesis by (simp add: rg_evict_eq rg_holds_suffix)
next
  case False
  with assms(1) show ?thesis by (simp add: rg_evict_eq)
qed

lemma rg_holds_prune:
  assumes "rg_holds sg at1 k m" and "\<not> rg_expired opts now at1"
  shows "rg_holds sg at1 k (rg_prune opts now m)"
proof -
  from assms(1) obtain xs ys where m: "m = xs @ (sg, at1) # ys" "length ys \<le> k" "sg \<notin> fst ` set xs" "sg \<notin> fst ` set ys"
    by (auto simp: rg_holds_def)
  have "rg_prune opts now m = dropWhile (\<lambda>p. rg_expired opts now (snd p)) xs @ (sg, at1) # ys"
    using assms(2) unfolding rg_prune_eq m(1) by (induction xs) simp_all
  moreover have "sg \<notin> fst ` set (dropWhile (\<lambda>p. rg_expired opts now (snd p)) xs)"
    using m(3) set_dropWhileD by fastforce
  ultimately show ?thesis using m unfolding rg_holds_def by blast
qed

lemma rg_seen_absent: "\<not> fst (rg_seen opts now sg m) \<Longrightarrow> sg \<notin> fst ` set (snd (rg_seen opts now sg m))"
  by (auto simp: rg_seen_def AList.delete_eq map_of_eq_None_iff split: option.splits if_splits)

lemma rg_prune_subset: "set (rg_prune opts now m) \<subseteq> set m"
  unfolding rg_prune_eq using set_dropWhileD by fastforce

interpretation rg: replay_memory "rg_seen opts" "rg_record opts" rg_holds "ro_windowSeconds opts" "ro_capacity opts" for opts
proof unfold_locales
  fix sg sg' :: string and at1 at' now :: int and k :: nat and s :: replay_map
  assume h: "rg_holds sg at1 k s" and w: "now div 1000 - at1 \<le> ro_windowSeconds opts"
  from w have ne: "\<not> rg_expired opts now at1" by (simp add: rg_expired_def)
  with rg_holds_lookup [OF h] show known: "rg_seen opts now sg s = (True, s)" by (simp add: rg_seen_def)
  show "rg_holds sg at1 k (snd (rg_seen opts now sg' s))"
  proof (cases "sg' = sg")
    case True
    with known h show ?thesis by simp
  next
    case False
    with h rg_holds_delete show ?thesis by (simp add: rg_seen_def split: option.split)
  qed
  assume "sg' \<noteq> sg" and "Suc k < ro_capacity opts"
  then show "rg_holds sg at1 (Suc k) (rg_record opts now sg' at' s)"
    unfolding rg_record_def by (intro rg_holds_evict rg_holds_update rg_holds_prune h ne)
next
  fix sg :: string and at1 now :: int and s :: replay_map
  assume c: "0 < ro_capacity opts" and "\<not> fst (rg_seen opts now sg s)"
  from rg_seen_absent [OF this(2)] rg_prune_subset
  have fresh: "sg \<notin> fst ` set (rg_prune opts now (snd (rg_seen opts now sg s)))" by blast
  then have "rg_holds sg at1 0 (AList.update sg at1 (rg_prune opts now (snd (rg_seen opts now sg s))))"
    by (auto simp: update_fresh rg_holds_def)
  with c show "rg_holds sg at1 0 (rg_record opts now sg at1 (snd (rg_seen opts now sg s)))"
    unfolding rg_record_def by (intro rg_holds_evict)
qed

lemma rg_record_size: "rg_size (rg_record opts now sg at1 m) \<le> ro_capacity opts"
  by (simp add: rg_size_def rg_record_def rg_evict_eq)

lemma rg_seen_size: "rg_size (snd (rg_seen opts now sg m)) \<le> rg_size m"
  by (auto simp: rg_seen_def rg_size_def length_delete_le split: option.split)

interpretation rg_bound: bounded_memory "replay_memory.g_step (rg_seen opts) (rg_record opts)" rg_size "\<lambda>_. ro_capacity opts" for opts
  by unfold_locales (auto simp: rg.g_step_def rg_record_size intro: order_trans [OF rg_seen_size] split: replay_op.split)

end
