(* ===== verification/Rate_Limit.thy ===== *)
theory Rate_Limit
  imports Complex_Main Replay_Guard
begin

text \<open>
  The write limiter (\<^verbatim>\<open>packages/pss-server/src/rateLimit.ts\<close>): one token bucket per account in an
  insertion-ordered map, least recently used first, evicting above a capacity. Token counts are rational
  numbers, the exact values of the code's floating-point quotients. The clock reading in milliseconds is an
  argument. Over any run in which the clock does not go back and no bucket is evicted, an account's
  granted writes are at most its burst plus the refill of the elapsed time.
\<close>

definition MS_PER_HOUR :: int where "MS_PER_HOUR = 3600000"

record limiter_options =
  lo_writesPerHour :: int
  lo_burst :: int
  lo_maxTrackedAccounts :: int

record bucket =
  bk_tokens :: rat
  bk_at :: int

record limiter =
  li_buckets :: "(string \<times> bucket) list"
  li_refillPerMs :: rat
  li_burst :: rat
  li_capacity :: nat

definition createRateLimiter :: "limiter_options \<Rightarrow> limiter result" where
  "createRateLimiter opts =
     (if lo_maxTrackedAccounts opts < 1 then Inl (PlainError ''maxTrackedAccounts must be a positive integer'')
      else Inr \<lparr>li_buckets = [], li_refillPerMs = of_int (lo_writesPerHour opts) / of_int MS_PER_HOUR,
                li_burst = of_int (lo_burst opts), li_capacity = nat (lo_maxTrackedAccounts opts)\<rparr>)"

definition rl_refill :: "limiter \<Rightarrow> int \<Rightarrow> bucket \<Rightarrow> bucket" where
  "rl_refill L at1 b =
     (let elapsed = max 0 (at1 - bk_at b)
      in b\<lparr>bk_tokens := min (li_burst L) (bk_tokens b + of_int elapsed * li_refillPerMs L), bk_at := at1\<rparr>)"

definition rl_evictOverflow :: "limiter \<Rightarrow> limiter" where
  "rl_evictOverflow L = L\<lparr>li_buckets := rg_evict (li_capacity L) (li_buckets L)\<rparr>"

definition rl_take :: "int \<Rightarrow> string \<Rightarrow> limiter \<Rightarrow> bool \<times> limiter" where
  "rl_take at1 key L =
     (let existing = map_of (li_buckets L) key;
          bucket = (case existing of None \<Rightarrow> \<lparr>bk_tokens = li_burst L, bk_at = at1\<rparr> | Some b \<Rightarrow> b);
          bucket = rl_refill L at1 bucket;
          allowed = (bk_tokens bucket \<ge> 1);
          bucket = (if allowed then bucket\<lparr>bk_tokens := bk_tokens bucket - 1\<rparr> else bucket);
          buckets = (if existing \<noteq> None then AList.delete key (li_buckets L) else li_buckets L)
      in (allowed, rl_evictOverflow (L\<lparr>li_buckets := AList.update key bucket buckets\<rparr>)))"

text \<open>The loop of \<^verbatim>\<open>sweepIdle\<close> over the entries in order: each is refilled in place, a full one is deleted.\<close>

fun rl_sweep :: "limiter \<Rightarrow> int \<Rightarrow> (string \<times> bucket) list \<Rightarrow> nat \<times> (string \<times> bucket) list" where
  "rl_sweep L at1 [] = (0, [])"
| "rl_sweep L at1 ((key, b) # rest) =
     (let b = rl_refill L at1 b;
          (dropped, kept) = rl_sweep L at1 rest
      in if bk_tokens b \<ge> li_burst L then (dropped + 1, kept) else (dropped, (key, b) # kept))"

definition rl_sweepIdle :: "int \<Rightarrow> limiter \<Rightarrow> nat \<times> limiter" where
  "rl_sweepIdle at1 L =
     (case rl_sweep L at1 (li_buckets L) of (dropped, kept) \<Rightarrow> (dropped, L\<lparr>li_buckets := kept\<rparr>))"

definition rl_size :: "limiter \<Rightarrow> nat" where
  "rl_size L = length (li_buckets L)"

section \<open>Runs\<close>

datatype limiter_op = LTake int string | LSweep int

fun op_time :: "limiter_op \<Rightarrow> int" where
  "op_time (LTake t _) = t"
| "op_time (LSweep t) = t"

fun op_keys :: "limiter_op \<Rightarrow> string set" where
  "op_keys (LTake _ k) = {k}"
| "op_keys (LSweep _) = {}"

fun rl_step :: "limiter_op \<Rightarrow> limiter \<Rightarrow> limiter" where
  "rl_step (LTake t k) L = snd (rl_take t k L)"
| "rl_step (LSweep t) L = snd (rl_sweepIdle t L)"

fun rl_grant :: "string \<Rightarrow> limiter_op \<Rightarrow> limiter \<Rightarrow> nat" where
  "rl_grant key (LTake t k) L = (if k = key \<and> fst (rl_take t k L) then 1 else 0)"
| "rl_grant key (LSweep t) L = 0"

text \<open>How many takes of the key a run grants.\<close>

fun rl_granted :: "string \<Rightarrow> limiter_op list \<Rightarrow> limiter \<Rightarrow> nat" where
  "rl_granted key [] L = 0"
| "rl_granted key (p # ops) L = rl_grant key p L + rl_granted key ops (rl_step p L)"

section \<open>Lemmas\<close>

definition limiter_wf :: "string set \<Rightarrow> int \<Rightarrow> limiter \<Rightarrow> bool" where
  "limiter_wf K t L \<longleftrightarrow> distinct (map fst (li_buckets L)) \<and> fst ` set (li_buckets L) \<subseteq> K \<and>
     finite K \<and> card K \<le> li_capacity L \<and> 0 \<le> li_refillPerMs L \<and> 0 \<le> li_burst L \<and>
     (\<forall>(k, b) \<in> set (li_buckets L). bk_at b \<le> t \<and> 0 \<le> bk_tokens b \<and> bk_tokens b \<le> li_burst L)"

text \<open>The tokens the key would find at the given time; an account without a bucket has the full burst.\<close>

definition tokens_at :: "limiter \<Rightarrow> string \<Rightarrow> int \<Rightarrow> rat" where
  "tokens_at L key t =
     (case map_of (li_buckets L) key of
        None \<Rightarrow> li_burst L
      | Some b \<Rightarrow> min (li_burst L) (bk_tokens b + of_int (t - bk_at b) * li_refillPerMs L))"

lemma wf_size:
  assumes "distinct (map fst m)" and "fst ` set m \<subseteq> K" and "finite K"
  shows "length m \<le> card K"
proof -
  have "length m = card (fst ` set m)" using distinct_card [OF assms(1)] by simp
  also have "\<dots> \<le> card K" by (rule card_mono [OF assms(3,2)])
  finally show ?thesis .
qed

lemma no_evict: "length m \<le> c \<Longrightarrow> rg_evict c m = m"
  by (simp add: rg_evict.simps)

text \<open>The bucket a take works on holds exactly the tokens available at its time.\<close>

lemma refill_tokens:
  assumes "limiter_wf K t0 L" and "t0 \<le> t"
  shows "bk_tokens (rl_refill L t (case map_of (li_buckets L) key of
           None \<Rightarrow> \<lparr>bk_tokens = li_burst L, bk_at = t\<rparr> | Some b \<Rightarrow> b)) = tokens_at L key t"
proof (cases "map_of (li_buckets L) key")
  case None
  then show ?thesis by (simp add: rl_refill_def Let_def tokens_at_def)
next
  case (Some b)
  then have "bk_at b \<le> t" using assms by (force simp: limiter_wf_def dest: map_of_SomeD)
  with Some show ?thesis by (simp add: rl_refill_def Let_def tokens_at_def)
qed

lemma tokens_at_range: "limiter_wf K t0 L \<Longrightarrow> t0 \<le> t \<Longrightarrow> 0 \<le> tokens_at L key t \<and> tokens_at L key t \<le> li_burst L"
  by (force simp: tokens_at_def limiter_wf_def split: option.split dest: map_of_SomeD)

lemma tokens_at_later:
  assumes "limiter_wf K t0 L" and "t \<le> t'"
  shows "tokens_at L key t' \<le> tokens_at L key t + of_int (t' - t) * li_refillPerMs L"
proof -
  have r: "0 \<le> of_int (t' - t) * li_refillPerMs L"
    using assms by (simp add: limiter_wf_def)
  show ?thesis
  proof (cases "map_of (li_buckets L) key")
    case None
    with r show ?thesis by (simp add: tokens_at_def)
  next
    case (Some b)
    have "of_int (t' - bk_at b) * li_refillPerMs L =
        of_int (t - bk_at b) * li_refillPerMs L + of_int (t' - t) * li_refillPerMs L"
      by (simp add: algebra_simps)
    with Some r show ?thesis by (simp add: tokens_at_def min_def)
  qed
qed

lemma rl_take_eq:
  assumes "limiter_wf K t0 L" and "t0 \<le> t" and "key \<in> K"
  shows "rl_take t key L = (1 \<le> tokens_at L key t,
     L\<lparr>li_buckets := AList.delete key (li_buckets L) @
        [(key, \<lparr>bk_tokens = tokens_at L key t - (if 1 \<le> tokens_at L key t then 1 else 0), bk_at = t\<rparr>)]\<rparr>)"
proof -
  let ?del = "AList.delete key (li_buckets L)"
  have same: "(if map_of (li_buckets L) key \<noteq> None then ?del else li_buckets L) = ?del"
    by (auto simp: map_of_eq_None_iff AList.delete_idem)
  have fresh: "AList.update key b ?del = ?del @ [(key, b)]" for b
    by (rule update_fresh) (auto simp: AList.delete_eq)
  have "distinct (map fst ?del)" using assms(1) by (simp add: limiter_wf_def distinct_delete)
  moreover have "key \<notin> fst ` set ?del" by (auto simp: AList.delete_eq)
  ultimately have d: "distinct (map fst (?del @ [(key, b)]))" for b by simp
  have s: "fst ` set (?del @ [(key, b)]) \<subseteq> K" for b
    using assms(1,3) by (auto simp: limiter_wf_def AList.delete_eq)
  have "length (?del @ [(key, b)]) \<le> li_capacity L" for b
    using wf_size [OF d s] assms(1) by (force simp: limiter_wf_def)
  then have ev: "rg_evict (li_capacity L) (?del @ [(key, b)]) = ?del @ [(key, b)]" for b by (rule no_evict)
  have at: "bk_at (rl_refill L t b) = t" for b by (simp add: rl_refill_def Let_def)
  have buck: "b\<lparr>bk_tokens := x\<rparr> = \<lparr>bk_tokens = x, bk_at = t\<rparr>" "b = \<lparr>bk_tokens = bk_tokens b, bk_at = t\<rparr>"
    if "bk_at b = t" for b x using that by (cases b; simp)+
  show ?thesis
    unfolding rl_take_def Let_def same rl_evictOverflow_def fresh
    using refill_tokens [OF assms(1,2), of key] by (simp add: ev buck(1) [OF at]) (metis at buck(2))
qed

lemma rl_take_wf:
  assumes "limiter_wf K t0 L" and "t0 \<le> t" and "key \<in> K"
  shows "limiter_wf K t (snd (rl_take t key L))"
proof -
  let ?del = "AList.delete key (li_buckets L)"
  have sub: "set ?del \<subseteq> set (li_buckets L)" by (auto simp: AList.delete_eq)
  have "key \<notin> fst ` set ?del" by (auto simp: AList.delete_eq)
  moreover have "distinct (map fst ?del)" using assms(1) by (simp add: limiter_wf_def distinct_delete)
  moreover have "fst ` set ?del \<subseteq> K" using image_mono [OF sub, of fst] assms(1) by (auto simp: limiter_wf_def)
  moreover have "bk_at b \<le> t \<and> 0 \<le> bk_tokens b \<and> bk_tokens b \<le> li_burst L" if "(k, b) \<in> set ?del" for k b
    using that sub assms(1,2) unfolding limiter_wf_def by fastforce
  moreover note tokens_at_range [OF assms(1,2), of key]
  ultimately show ?thesis
    using assms(1,3) unfolding rl_take_eq [OF assms] limiter_wf_def by auto
qed

lemma rl_take_tokens:
  assumes "limiter_wf K t0 L" and "t0 \<le> t" and "k \<in> K"
  shows "of_nat (rl_grant key (LTake t k) L) + tokens_at (snd (rl_take t k L)) key t = tokens_at L key t"
proof -
  let ?m = "AList.delete k (li_buckets L)"
  have lookup: "map_of ?m k' = (if k' = k then None else map_of (li_buckets L) k')" for k'
    by (simp add: delete_conv')
  have range: "tokens_at L k t \<le> li_burst L" using tokens_at_range [OF assms(1,2)] by blast
  define x where "x = tokens_at L k t"
  have take: "rl_take t k L = (1 \<le> x, L\<lparr>li_buckets := ?m @ [(k, \<lparr>bk_tokens = x - (if 1 \<le> x then 1 else 0), bk_at = t\<rparr>)]\<rparr>)"
    unfolding x_def by (rule rl_take_eq [OF assms])
  show ?thesis
  proof (cases "k = key")
    case True
    have "tokens_at (snd (rl_take t k L)) key t = x - (if 1 \<le> x then 1 else 0)"
      using range [folded x_def] unfolding take snd_conv True [symmetric] tokens_at_def by (simp add: map_add_def min_def lookup)
    moreover have "fst (rl_take t k L) \<longleftrightarrow> 1 \<le> x" by (simp only: take fst_conv)
    ultimately show ?thesis using True by (simp add: x_def)
  next
    case False
    then show ?thesis
      by (simp add: take) (simp add: tokens_at_def lookup map_add_def split: option.split)
  qed
qed

lemma rl_sweep_eq:
  "rl_sweep L t m = (length (filter (\<lambda>(k, b). li_burst L \<le> bk_tokens (rl_refill L t b)) m),
     filter (\<lambda>(k, b). \<not> li_burst L \<le> bk_tokens b) (map (\<lambda>(k, b). (k, rl_refill L t b)) m))"
  by (induction L t m rule: rl_sweep.induct) (simp_all add: Let_def)

lemma rl_sweepIdle_eq:
  "snd (rl_sweepIdle t L) = L\<lparr>li_buckets :=
     filter (\<lambda>(k, b). \<not> li_burst L \<le> bk_tokens b) (map (\<lambda>(k, b). (k, rl_refill L t b)) (li_buckets L))\<rparr>"
  by (simp add: rl_sweepIdle_def rl_sweep_eq)

lemma map_of_filter_distinct:
  "distinct (map fst m) \<Longrightarrow>
   map_of (filter (\<lambda>(k, b). P b) m) key = (case map_of m key of None \<Rightarrow> None | Some b \<Rightarrow> if P b then Some b else None)"
proof (induction m)
  case Nil
  then show ?case by simp
next
  case (Cons p m)
  obtain k b where p: "p = (k, b)" by (cases p)
  have "map_of m k = None" using Cons.prems p by (simp add: map_of_eq_None_iff)
  with Cons show ?case by (auto simp: p split: option.split)
qed

lemma rl_sweep_tokens:
  assumes "limiter_wf K t0 L" and "t0 \<le> t"
  shows "tokens_at (snd (rl_sweepIdle t L)) key t = tokens_at L key t"
proof -
  let ?m = "map (\<lambda>(k, b). (k, rl_refill L t b)) (li_buckets L)"
  have m: "map_of ?m key = map_option (rl_refill L t) (map_of (li_buckets L) key)" by (simp add: map_of_map)
  have d: "distinct (map fst ?m)" using assms(1) by (simp add: limiter_wf_def comp_def case_prod_unfold)
  show ?thesis
  proof (cases "map_of (li_buckets L) key")
    case None
    then show ?thesis by (simp add: rl_sweepIdle_eq tokens_at_def map_of_filter_distinct [OF d] m)
  next
    case (Some b)
    then have "bk_at b \<le> t" using assms by (force simp: limiter_wf_def dest: map_of_SomeD)
    then have "bk_tokens (rl_refill L t b) = tokens_at L key t" "bk_at (rl_refill L t b) = t"
      using Some by (simp_all add: rl_refill_def Let_def tokens_at_def)
    moreover have "tokens_at L key t \<le> li_burst L" using tokens_at_range [OF assms] by blast
    ultimately show ?thesis
      using Some by (auto simp: rl_sweepIdle_eq tokens_at_def [of "L\<lparr>li_buckets := _\<rparr>"] map_of_filter_distinct [OF d] m)
  qed
qed

lemma rl_sweep_wf:
  assumes "limiter_wf K t0 L" and "t0 \<le> t"
  shows "limiter_wf K t (snd (rl_sweepIdle t L))"
proof -
  have "distinct (map fst (filter (\<lambda>(k, b). \<not> li_burst L \<le> bk_tokens b) (map (\<lambda>(k, b). (k, rl_refill L t b)) (li_buckets L))))"
    using assms(1) by (intro distinct_map_filter) (simp add: limiter_wf_def comp_def case_prod_unfold)
  then show ?thesis
    using assms unfolding rl_sweepIdle_eq limiter_wf_def
    by (fastforce simp: rl_refill_def Let_def)
qed

lemma rl_step_wf: "limiter_wf K t0 L \<Longrightarrow> t0 \<le> op_time p \<Longrightarrow> op_keys p \<subseteq> K \<Longrightarrow> limiter_wf K (op_time p) (rl_step p L)"
  by (cases p) (simp_all add: rl_take_wf rl_sweep_wf)

lemma rl_step_tokens:
  "limiter_wf K t0 L \<Longrightarrow> t0 \<le> op_time p \<Longrightarrow> op_keys p \<subseteq> K \<Longrightarrow>
   of_nat (rl_grant key p L) + tokens_at (rl_step p L) key (op_time p) = tokens_at L key (op_time p)"
  by (cases p) (simp_all add: rl_take_tokens [simplified] rl_sweep_tokens)

lemma rl_step_options [simp]: "li_refillPerMs (rl_step p L) = li_refillPerMs L" "li_burst (rl_step p L) = li_burst L"
  "li_capacity (rl_step p L) = li_capacity L"
  by (cases p; simp add: rl_take_def Let_def rl_evictOverflow_def rl_sweepIdle_eq)+

lemma rl_granted_bound:
  assumes "limiter_wf K t0 L" and "sorted (t0 # map op_time ops @ [t1])" and "\<Union> (op_keys ` set ops) \<subseteq> K"
  shows "of_nat (rl_granted key ops L) \<le> tokens_at L key t0 + of_int (t1 - t0) * li_refillPerMs L"
  using assms
proof (induction ops arbitrary: L t0)
  case Nil
  have "0 \<le> tokens_at L key t0" "0 \<le> of_int (t1 - t0) * li_refillPerMs L"
    using tokens_at_range [OF Nil(1) order_refl] Nil by (simp_all add: limiter_wf_def)
  then show ?case by simp
next
  case (Cons p ops)
  let ?t = "op_time p"
  have t: "t0 \<le> ?t" and k: "op_keys p \<subseteq> K" using Cons.prems by auto
  have "of_nat (rl_granted key ops (rl_step p L)) \<le>
      tokens_at (rl_step p L) key ?t + of_int (t1 - ?t) * li_refillPerMs L"
    using Cons.IH [OF rl_step_wf [OF Cons.prems(1) t k]] Cons.prems(2,3) by simp
  moreover have "tokens_at L key ?t \<le> tokens_at L key t0 + of_int (?t - t0) * li_refillPerMs L"
    by (rule tokens_at_later [OF Cons.prems(1) t])
  moreover have "of_int (t1 - t0) * li_refillPerMs L =
      of_int (?t - t0) * li_refillPerMs L + of_int (t1 - ?t) * li_refillPerMs L"
    by (simp add: algebra_simps)
  ultimately show ?case using rl_step_tokens [OF Cons.prems(1) t k, of key] by simp
qed

lemma rl_take_size: "rl_size (snd (rl_take t k L)) \<le> li_capacity L"
  by (simp add: rl_size_def rl_take_def Let_def rl_evictOverflow_def rg_evict_eq)

lemma rl_sweep_size: "rl_size (snd (rl_sweepIdle t L)) \<le> rl_size L"
  unfolding rl_size_def rl_sweepIdle_eq by (simp add: order_trans [OF length_filter_le])

lemma rl_step_size: "rl_size L \<le> li_capacity L \<Longrightarrow> rl_size (rl_step p L) \<le> li_capacity L"
  by (cases p) (auto simp: rl_take_size intro: order_trans [OF rl_sweep_size])

interpretation rl_bound: bounded_memory rl_step rl_size li_capacity
  by unfold_locales (simp_all add: rl_step_size)

end
