(* ===== verification/Pss_Server.thy ===== *)
theory Pss_Server
  imports Slot_Store Rate_Limit
begin

text \<open>
  The HTTP server (\<^verbatim>\<open>packages/pss-server/src/http/server.ts\<close>, with \<^verbatim>\<open>metrics.ts\<close> and the wiring of \<^verbatim>\<open>main.ts\<close>). A
  handler waits only for its body; from there it runs to completion in one turn of the event loop, so a
  request is one step of the server, taken when its body has settled, at one reading of the clock. A run
  is a sequence of such steps and of the maintenance sweeps.
\<close>

section \<open>Metrics\<close>

datatype route_name = blob_get | blob_put | account_delete | other_route

fun route_label :: "route_name \<Rightarrow> string" where
  "route_label blob_get = ''blob_get''"
| "route_label blob_put = ''blob_put''"
| "route_label account_delete = ''account_delete''"
| "route_label other_route = ''other''"

definition counters_record :: "route_name \<Rightarrow> nat \<Rightarrow> (string \<times> nat) list \<Rightarrow> (string \<times> nat) list" where
  "counters_record r status counts =
     (let bucket = route_label r @ ''.'' @ nat_to_string (status div 100) @ ''xx''
      in AList.update bucket ((case map_of counts bucket of None \<Rightarrow> 0 | Some n \<Rightarrow> n) + 1) counts)"

section \<open>State and replies\<close>

record server_deps =
  de_config :: server_config
  de_crypto :: node_crypto

record server_state =
  srv_db :: database
  srv_limiter :: limiter
  srv_replay :: replay_map
  srv_counters :: "(string \<times> nat) list"

text \<open>The replay guard as \<^verbatim>\<open>startServer\<close> configures it: twice the skew.\<close>

definition replay_of :: "server_deps \<Rightarrow> replay_options" where
  "replay_of D = \<lparr>ro_windowSeconds = cf_timestampSkewSeconds (de_config D) * 2,
     ro_capacity = cf_maxTrackedReplays (de_config D)\<rparr>"

definition startServer :: "server_deps \<Rightarrow> database \<Rightarrow> server_state result" where
  "startServer D db =
     ebind (createRateLimiter \<lparr>lo_writesPerHour = cf_writesPerHour (de_config D),
              lo_burst = cf_writeBurst (de_config D),
              lo_maxTrackedAccounts = int (cf_maxTrackedAccounts (de_config D))\<rparr>) (\<lambda>limiter.
       Inr \<lparr>srv_db = db, srv_limiter = limiter, srv_replay = [], srv_counters = []\<rparr>)"

datatype route = RBlob bytes collection | RAccount bytes | RNone

record reply =
  re_status :: nat
  re_body :: "get_blob_response option"
  re_allow :: "string option"

record http_request =
  rq_method :: "string option"
  rq_url :: "string option"
  rq_contentLength :: "string option"
  rq_events :: "body_event list"

definition bare :: "nat \<Rightarrow> reply" where
  "bare status = \<lparr>re_status = status, re_body = None, re_allow = None\<rparr>"

definition METHOD_NOT_ALLOWED :: nat where "METHOD_NOT_ALLOWED = 405"

definition INTERNAL_ERROR :: nat where "INTERNAL_ERROR = 500"

definition notAllowed :: "string \<Rightarrow> reply" where
  "notAllowed allow = \<lparr>re_status = METHOD_NOT_ALLOWED, re_body = None, re_allow = Some allow\<rparr>"

section \<open>Routing\<close>

text \<open>\<^verbatim>\<open>text.split(c)\<close>\<close>

fun split_on :: "char \<Rightarrow> string \<Rightarrow> string list" where
  "split_on c [] = [[]]"
| "split_on c (x # xs) =
     (if x = c then [] # split_on c xs
      else case split_on c xs of [] \<Rightarrow> [[x]] | s # ss \<Rightarrow> (x # s) # ss)"

definition parseRoute :: "string \<Rightarrow> route result" where
  "parseRoute target =
     (let path = takeWhile (\<lambda>c. c \<noteq> CHR ''?'') target;
          segments = filter (\<lambda>s. length s > 0) (split_on (CHR ''/'') path)
      in case segments of
           s0 # s1 # rest \<Rightarrow>
             if s0 \<noteq> ''v1'' \<or> s1 \<noteq> ''blob'' then Inr RNone
             else (case rest of
                     [a] \<Rightarrow> ebind (decodeAccountIdPath a) (\<lambda>accountId. Inr (RAccount accountId))
                   | [a, c] \<Rightarrow>
                       ebind (decodeAccountIdPath a) (\<lambda>accountId.
                       ebind (decodeCollectionPath c) (\<lambda>coll. Inr (RBlob accountId coll)))
                   | _ \<Rightarrow> Inr RNone)
         | _ \<Rightarrow> Inr RNone)"

fun routeName :: "route \<Rightarrow> string option \<Rightarrow> route_name" where
  "routeName (RBlob _ _) m =
     (if m = Some ''GET'' then blob_get else if m = Some ''PUT'' then blob_put else other_route)"
| "routeName (RAccount _) m = (if m = Some ''DELETE'' then account_delete else other_route)"
| "routeName RNone m = other_route"

section \<open>Handlers\<close>

definition seconds :: "int \<Rightarrow> int" where
  "seconds now = now div 1000"

definition inviteGate :: "server_config \<Rightarrow> string option \<Rightarrow> invite_gate" where
  "inviteGate config code = (if cf_inviteRequired config then GateRequired code else GateOpen)"

definition oversizedCiphertext :: "jsval \<Rightarrow> nat \<Rightarrow> bool" where
  "oversizedCiphertext payload cap =
     (case payload of
        JObj kvs \<Rightarrow>
          (case get_prop ''ciphertext'' kvs of
             JStr t \<Rightarrow> (case base64Bytes t of None \<Rightarrow> False | Some n \<Rightarrow> n > cap)
           | _ \<Rightarrow> False)
      | _ \<Rightarrow> False)"

definition handleGet :: "bytes \<Rightarrow> collection \<Rightarrow> int \<Rightarrow> server_state \<Rightarrow> reply" where
  "handleGet accountId coll now s =
     (case st_get accountId coll (srv_db s) of
        None \<Rightarrow> bare (statusOf not_found)
      | Some slot \<Rightarrow>
          \<lparr>re_status = PSS_STATUS_ok,
           re_body = Some (encodeGetBlobResponse \<lparr>sv_version = sl_version slot, sv_prevVersion = sl_prevVersion slot,
              sv_nonce = sl_nonce slot, sv_ciphertext = sl_ciphertext slot, sv_serverTime = seconds now\<rparr>),
           re_allow = None\<rparr>)"

text \<open>\<^verbatim>\<open>handlePut\<close> from the parsed body on. Each early return is a branch; the state is what the calls before
  it left.\<close>

definition put_checked ::
  "server_deps \<Rightarrow> int \<Rightarrow> bytes \<Rightarrow> collection \<Rightarrow> decoded_put \<Rightarrow> server_state \<Rightarrow> reply \<times> server_state" where
  "put_checked D now accountId coll p s =
     (let storedVersion = (case st_get accountId coll (srv_db s) of None \<Rightarrow> 0 | Some st \<Rightarrow> sl_version st) in
      if dp_prevVersion p \<noteq> storedVersion \<or> dp_version p \<le> storedVersion
      then (bare (statusOf version_conflict), s)
      else
        let putSignature = toHexRaw (dp_sig p);
            (known_sig, rep) = rg_seen (replay_of D) now putSignature (srv_replay s);
            s = s\<lparr>srv_replay := rep\<rparr>
        in if known_sig then (bare (statusOf version_conflict), s)
           else
             let (allowed, lim) = rl_take now (toHexRaw accountId) (srv_limiter s);
                 s = s\<lparr>srv_limiter := lim\<rparr>
             in if \<not> allowed then (bare (statusOf rate_limited), s)
                else
                  let (outcome, db) = st_upsert (de_crypto D)
                        \<lparr>sw_accountId = accountId, sw_collection = coll, sw_version = dp_version p,
                         sw_prevVersion = dp_prevVersion p, sw_nonce = dp_nonce p, sw_ciphertext = dp_ciphertext p\<rparr>
                        (inviteGate (de_config D) (dp_invite p)) (srv_db s);
                      s = s\<lparr>srv_db := db\<rparr>
                  in case outcome of
                       invite_rejected \<Rightarrow> (bare (statusOf unauthorized), s)
                     | conflict \<Rightarrow> (bare (statusOf version_conflict), s)
                     | written \<Rightarrow>
                         (bare PSS_STATUS_ok,
                          s\<lparr>srv_replay := rg_record (replay_of D) now putSignature (seconds now) (srv_replay s)\<rparr>))"

definition put_authenticated ::
  "server_deps \<Rightarrow> int \<Rightarrow> bytes \<Rightarrow> collection \<Rightarrow> decoded_put \<Rightarrow> bool result" where
  "put_authenticated D now accountId coll p =
     (if \<not> ownsAccount (de_crypto D) (dp_authPk p) accountId then Inr False
      else
        ebind (putPreimage \<lparr>pi_accountId = accountId, pi_collection = coll, pi_version = dp_version p,
                 pi_prevVersion = dp_prevVersion p, pi_ciphertextDigest = nc_sha256 (de_crypto D) (dp_ciphertext p),
                 pi_timestamp = dp_timestamp p\<rparr>) (\<lambda>preimage.
          Inr (verifyEd25519 (de_crypto D) preimage (dp_sig p) (dp_authPk p) \<and>
               withinSkew (dp_timestamp p) (seconds now) (cf_timestampSkewSeconds (de_config D)))))"

text \<open>The two reasons a body does not arrive.\<close>

fun body_refused :: "body_read \<Rightarrow> reply option" where
  "body_refused (BodyOk _) = None"
| "body_refused BodyTooLarge = Some (bare (statusOf (payload_too_large 0)))"
| "body_refused BodyUnreadable = Some (bare (statusOf (bad_request [])))"

definition put_after_body ::
  "server_deps \<Rightarrow> int \<Rightarrow> bytes \<Rightarrow> collection \<Rightarrow> body_read \<Rightarrow> (server_state, pss_error, reply) action" where
  "put_after_body D now accountId coll read s =
     (case read of
        BodyOk bs \<Rightarrow>
          (case decodeJson bs of
             Inl _ \<Rightarrow> (Inr (bare (statusOf (bad_request []))), s)
           | Inr payload \<Rightarrow>
               if oversizedCiphertext payload (cf_maxCiphertextBytes (de_config D))
               then (Inr (bare (statusOf (payload_too_large 0))), s)
               else
                 (case parsePutBlobRequest payload of
                    Inl e \<Rightarrow> (Inl e, s)
                  | Inr p \<Rightarrow>
                      (case put_authenticated D now accountId coll p of
                         Inl e \<Rightarrow> (Inl e, s)
                       | Inr False \<Rightarrow> (Inr (bare (statusOf unauthorized)), s)
                       | Inr True \<Rightarrow> (case put_checked D now accountId coll p s of (r, s') \<Rightarrow> (Inr r, s')))))
      | _ \<Rightarrow> (Inr (the (body_refused read)), s))"

definition delete_authenticated :: "server_deps \<Rightarrow> int \<Rightarrow> bytes \<Rightarrow> decoded_delete \<Rightarrow> bool result" where
  "delete_authenticated D now accountId d =
     (if \<not> ownsAccount (de_crypto D) (dd_authPk d) accountId then Inr False
      else
        ebind (deletePreimage \<lparr>di_accountId = accountId, di_nonce = dd_nonce d, di_timestamp = dd_timestamp d\<rparr>) (\<lambda>preimage.
          Inr (verifyEd25519 (de_crypto D) preimage (dd_sig d) (dd_authPk d) \<and>
               withinSkew (dd_timestamp d) (seconds now) (cf_timestampSkewSeconds (de_config D)))))"

definition delete_checked ::
  "server_deps \<Rightarrow> int \<Rightarrow> bytes \<Rightarrow> decoded_delete \<Rightarrow> server_state \<Rightarrow> reply \<times> server_state" where
  "delete_checked D now accountId d s =
     (let deleteSignature = toHexRaw (dd_sig d);
          (known_sig, rep) = rg_seen (replay_of D) now deleteSignature (srv_replay s);
          s = s\<lparr>srv_replay := rep\<rparr>
      in if known_sig then (bare (statusOf unauthorized), s)
         else
           let (allowed, lim) = rl_take now (toHexRaw accountId) (srv_limiter s);
               s = s\<lparr>srv_limiter := lim\<rparr>
           in if \<not> allowed then (bare (statusOf rate_limited), s)
              else
                let (rows, db) = st_deleteAccount accountId (srv_db s);
                    s = s\<lparr>srv_db := db\<rparr>
                in (bare PSS_STATUS_ok,
                    if rows > 0
                    then s\<lparr>srv_replay := rg_record (replay_of D) now deleteSignature (seconds now) (srv_replay s)\<rparr>
                    else s))"

definition delete_after_body ::
  "server_deps \<Rightarrow> int \<Rightarrow> bytes \<Rightarrow> body_read \<Rightarrow> (server_state, pss_error, reply) action" where
  "delete_after_body D now accountId read s =
     (case read of
        BodyOk bs \<Rightarrow>
          (case decodeJson bs of
             Inl _ \<Rightarrow> (Inr (bare (statusOf (bad_request []))), s)
           | Inr payload \<Rightarrow>
               (case parseDeleteAccountRequest payload of
                  Inl e \<Rightarrow> (Inl e, s)
                | Inr d \<Rightarrow>
                    (case delete_authenticated D now accountId d of
                       Inl e \<Rightarrow> (Inl e, s)
                     | Inr False \<Rightarrow> (Inr (bare (statusOf unauthorized)), s)
                     | Inr True \<Rightarrow> (case delete_checked D now accountId d s of (r, s') \<Rightarrow> (Inr r, s')))))
      | _ \<Rightarrow> (Inr (the (body_refused read)), s))"

text \<open>A handler that is still waiting for its body has no result yet.\<close>

definition handlePut ::
  "server_deps \<Rightarrow> int \<Rightarrow> http_request \<Rightarrow> bytes \<Rightarrow> collection \<Rightarrow> server_state \<Rightarrow> (reply result \<times> server_state) option" where
  "handlePut D now req accountId coll s =
     (case readBody (rq_contentLength req) (rq_events req)
             (maxPutBodyBytes (cf_maxCiphertextBytes (de_config D)) (cf_bodyHeadroomBytes (de_config D))) of
        None \<Rightarrow> None
      | Some read \<Rightarrow> Some (put_after_body D now accountId coll read s))"

definition handleDelete ::
  "server_deps \<Rightarrow> int \<Rightarrow> http_request \<Rightarrow> bytes \<Rightarrow> server_state \<Rightarrow> (reply result \<times> server_state) option" where
  "handleDelete D now req accountId s =
     (case readBody (rq_contentLength req) (rq_events req) MAX_DELETE_BODY_BYTES of
        None \<Rightarrow> None
      | Some read \<Rightarrow> Some (delete_after_body D now accountId read s))"

fun route_request ::
  "server_deps \<Rightarrow> int \<Rightarrow> http_request \<Rightarrow> route \<Rightarrow> server_state \<Rightarrow> (reply result \<times> server_state) option" where
  "route_request D now req (RBlob accountId coll) s =
     (if rq_method req = Some ''GET'' then Some (Inr (handleGet accountId coll now s), s)
      else if rq_method req = Some ''PUT'' then handlePut D now req accountId coll s
      else Some (Inr (notAllowed ''GET, PUT''), s))"
| "route_request D now req (RAccount accountId) s =
     (if rq_method req = Some ''DELETE'' then handleDelete D now req accountId s
      else Some (Inr (notAllowed ''DELETE''), s))"
| "route_request D now req RNone s = Some (Inr (bare (statusOf not_found)), s)"

definition reply_to_error :: "pss_error \<Rightarrow> reply" where
  "reply_to_error e = bare (case e of PssProtocolError _ \<Rightarrow> statusOf (bad_request []) | _ \<Rightarrow> INTERNAL_ERROR)"

definition dispatch :: "server_deps \<Rightarrow> int \<Rightarrow> http_request \<Rightarrow> server_state \<Rightarrow> (reply \<times> server_state) option" where
  "dispatch D now req s =
     (let counted = (\<lambda>target r s. (r, s\<lparr>srv_counters :=
            counters_record (routeName target (rq_method req)) (re_status r) (srv_counters s)\<rparr>))
      in case parseRoute (case rq_url req of None \<Rightarrow> '''' | Some u \<Rightarrow> u) of
           Inl e \<Rightarrow> Some (counted RNone (reply_to_error e) s)
         | Inr target \<Rightarrow>
             (case route_request D now req target s of
                None \<Rightarrow> None
              | Some (Inl e, s') \<Rightarrow> Some (counted target (reply_to_error e) s')
              | Some (Inr r, s') \<Rightarrow> Some (counted target r s')))"

text \<open>What \<^verbatim>\<open>send\<close> writes: the headers, the payload, and whether the socket is closed after it.\<close>

definition send_reply :: "reply \<Rightarrow> nat \<times> (string \<times> string) list \<times> string \<times> bool" where
  "send_reply r =
     (let payload = (case re_body r of None \<Rightarrow> '''' | Some b \<Rightarrow> json_stringify (get_response_json b));
          closing = (re_status r = statusOf (payload_too_large 0))
      in (re_status r,
          [(''content-length'', nat_to_string (length (utf8 payload))), (''cache-control'', ''no-store'')] @
            (if re_body r = None then [] else [(''content-type'', ''application/json'')]) @
            (if closing then [(''connection'', ''close'')] else []) @
            (case re_allow r of None \<Rightarrow> [] | Some a \<Rightarrow> [(''allow'', a)]),
          payload, closing))"

section \<open>Runs\<close>

datatype server_event = SvRequest int http_request | SvMaintenance int

fun server_step :: "server_deps \<Rightarrow> server_event \<Rightarrow> server_state \<Rightarrow> server_state" where
  "server_step D (SvRequest now req) s = (case dispatch D now req s of None \<Rightarrow> s | Some (r, s') \<Rightarrow> s')"
| "server_step D (SvMaintenance now) s = s\<lparr>srv_limiter := snd (rl_sweepIdle now (srv_limiter s))\<rparr>"

definition server_run :: "server_deps \<Rightarrow> server_event list \<Rightarrow> server_state \<Rightarrow> server_state" where
  "server_run D evs s = fold (server_step D) evs s"

end
