(* ===== verification/Server_Lemmas.thy ===== *)
theory Server_Lemmas
  imports Pss_Server
begin

text \<open>
  What a step of the server does, in closed form: which requests change the slots and how, what happens to
  the replay guard and to the limiter, and that a step is a step of each component's contract, so that the
  contracts' lemmas carry over to runs of the whole server.
\<close>

section \<open>Which requests reach the store\<close>

text \<open>A settled PUT whose body is a request signed for the account it names, fresh at the reading of the
  clock.\<close>

definition signed_put :: "server_deps \<Rightarrow> int \<Rightarrow> http_request \<Rightarrow> bytes \<Rightarrow> collection \<Rightarrow> decoded_put \<Rightarrow> bool" where
  "signed_put D now req a c p \<longleftrightarrow>
     rq_method req = Some ''PUT'' \<and> parseRoute (case rq_url req of None \<Rightarrow> '''' | Some u \<Rightarrow> u) = Inr (RBlob a c) \<and>
     (\<exists>bs payload. readBody (rq_contentLength req) (rq_events req)
          (maxPutBodyBytes (cf_maxCiphertextBytes (de_config D)) (cf_bodyHeadroomBytes (de_config D))) = Some (BodyOk bs) \<and>
        decodeJson bs = Inr payload \<and> \<not> oversizedCiphertext payload (cf_maxCiphertextBytes (de_config D)) \<and>
        parsePutBlobRequest payload = Inr p) \<and>
     put_authenticated D now a c p = Inr True"

definition signed_delete :: "server_deps \<Rightarrow> int \<Rightarrow> http_request \<Rightarrow> bytes \<Rightarrow> decoded_delete \<Rightarrow> bool" where
  "signed_delete D now req a d \<longleftrightarrow>
     rq_method req = Some ''DELETE'' \<and> parseRoute (case rq_url req of None \<Rightarrow> '''' | Some u \<Rightarrow> u) = Inr (RAccount a) \<and>
     (\<exists>bs payload. readBody (rq_contentLength req) (rq_events req) MAX_DELETE_BODY_BYTES = Some (BodyOk bs) \<and>
        decodeJson bs = Inr payload \<and> parseDeleteAccountRequest payload = Inr d) \<and>
     delete_authenticated D now a d = Inr True"

text \<open>The state without the metrics, which nothing reads.\<close>

definition same_state :: "server_state \<Rightarrow> server_state \<Rightarrow> bool" where
  "same_state s t \<longleftrightarrow> srv_db t = srv_db s \<and> srv_limiter t = srv_limiter s \<and> srv_replay t = srv_replay s"

lemma same_state_counters [simp]: "same_state s (t\<lparr>srv_counters := x\<rparr>) \<longleftrightarrow> same_state s t"
  by (simp add: same_state_def)

lemma same_state_refl [simp]: "same_state s s"
  by (simp add: same_state_def)

lemma put_after_body_cases:
  assumes "put_after_body D now a c read s = (r, s')"
  shows "s' = s \<or> (\<exists>bs payload p. read = BodyOk bs \<and> decodeJson bs = Inr payload \<and>
     \<not> oversizedCiphertext payload (cf_maxCiphertextBytes (de_config D)) \<and> parsePutBlobRequest payload = Inr p \<and>
     put_authenticated D now a c p = Inr True \<and> r = Inr (fst (put_checked D now a c p s)) \<and>
     s' = snd (put_checked D now a c p s))"
  using assms
  by (cases read) (auto simp: put_after_body_def split: sum.splits if_splits bool.splits prod.splits)

lemma delete_after_body_cases:
  assumes "delete_after_body D now a read s = (r, s')"
  shows "s' = s \<or> (\<exists>bs payload d. read = BodyOk bs \<and> decodeJson bs = Inr payload \<and>
     parseDeleteAccountRequest payload = Inr d \<and>
     delete_authenticated D now a d = Inr True \<and> r = Inr (fst (delete_checked D now a d s)) \<and>
     s' = snd (delete_checked D now a d s))"
  using assms
  by (cases read) (auto simp: delete_after_body_def split: sum.splits if_splits bool.splits prod.splits)

text \<open>Every step is one of three: nothing but the metrics changed, a signed PUT was checked, or a signed
  DELETE was.\<close>

lemma dispatch_cases:
  assumes "dispatch D now req s = Some (r, s')"
  obtains (idle) "same_state s s'"
  | (put) a c p where "signed_put D now req a c p" "r = fst (put_checked D now a c p s)"
      "same_state (snd (put_checked D now a c p s)) s'"
  | (delete) a d where "signed_delete D now req a d" "r = fst (delete_checked D now a d s)"
      "same_state (snd (delete_checked D now a d s)) s'"
proof (cases "parseRoute (case rq_url req of None \<Rightarrow> '''' | Some u \<Rightarrow> u)")
  case (Inl e)
  with assms have "same_state s s'" by (auto simp: dispatch_def Let_def)
  then show ?thesis by (rule idle)
next
  case (Inr target)
  with assms obtain res t where rr: "route_request D now req target s = Some (res, t)" and st: "same_state t s'"
    and r: "res = Inr r \<or> (\<exists>e. res = Inl e)"
    by (auto simp: dispatch_def Let_def split: option.splits sum.splits)
  show ?thesis
  proof (cases "t = s")
    case True
    with st show ?thesis by (simp add: idle)
  next
    case False
    show ?thesis
    proof (cases target)
      case (RBlob a c)
      with rr False have m: "rq_method req = Some ''PUT''" and h: "handlePut D now req a c s = Some (res, t)"
        by (auto split: if_splits)
      from h obtain read where read: "readBody (rq_contentLength req) (rq_events req)
          (maxPutBodyBytes (cf_maxCiphertextBytes (de_config D)) (cf_bodyHeadroomBytes (de_config D))) = Some read"
        and after: "put_after_body D now a c read s = (res, t)"
        by (auto simp: handlePut_def split: option.splits)
      from put_after_body_cases [OF after] False obtain bs payload p where
        b: "read = BodyOk bs" "decodeJson bs = Inr payload"
        "\<not> oversizedCiphertext payload (cf_maxCiphertextBytes (de_config D))" "parsePutBlobRequest payload = Inr p"
        "put_authenticated D now a c p = Inr True" and res: "res = Inr (fst (put_checked D now a c p s))"
        and t: "t = snd (put_checked D now a c p s)" by auto
      have "signed_put D now req a c p" using m Inr RBlob read b by (auto simp: signed_put_def)
      moreover have "r = fst (put_checked D now a c p s)" using r res by auto
      ultimately show ?thesis using st t by (intro put) auto
    next
      case (RAccount a)
      with rr False have m: "rq_method req = Some ''DELETE''" and h: "handleDelete D now req a s = Some (res, t)"
        by (auto split: if_splits)
      from h obtain read where read: "readBody (rq_contentLength req) (rq_events req) MAX_DELETE_BODY_BYTES = Some read"
        and after: "delete_after_body D now a read s = (res, t)"
        by (auto simp: handleDelete_def split: option.splits)
      from delete_after_body_cases [OF after] False obtain bs payload d where
        b: "read = BodyOk bs" "decodeJson bs = Inr payload" "parseDeleteAccountRequest payload = Inr d"
        "delete_authenticated D now a d = Inr True" and res: "res = Inr (fst (delete_checked D now a d s))"
        and t: "t = snd (delete_checked D now a d s)" by auto
      have "signed_delete D now req a d" using m Inr RAccount read b by (auto simp: signed_delete_def)
      moreover have "r = fst (delete_checked D now a d s)" using r res by auto
      ultimately show ?thesis using st t by (intro delete) auto
    next
      case RNone
      with rr False show ?thesis by simp
    qed
  qed
qed

section \<open>What a checked request does to each component\<close>

definition put_write :: "bytes \<Rightarrow> collection \<Rightarrow> decoded_put \<Rightarrow> slot_write" where
  "put_write a c p = \<lparr>sw_accountId = a, sw_collection = c, sw_version = dp_version p,
     sw_prevVersion = dp_prevVersion p, sw_nonce = dp_nonce p, sw_ciphertext = dp_ciphertext p\<rparr>"

definition stored_version :: "bytes \<Rightarrow> collection \<Rightarrow> database \<Rightarrow> int" where
  "stored_version a c db = (case st_get a c db of None \<Rightarrow> 0 | Some st \<Rightarrow> sl_version st)"

lemma bare_inject [simp]: "bare x = bare y \<longleftrightarrow> x = y"
  by (simp add: bare_def)

lemma bare_status [simp]: "re_status (bare x) = x"
  by (simp add: bare_def)

lemma upsert_not_written: "fst (st_upsert N w g db) \<noteq> written \<Longrightarrow> snd (st_upsert N w g db) = db"
  by (cases rule: st_upsert_cases [of N w g db]) auto

lemma put_checked_ok:
  assumes "put_checked D now a c p s = (r, s')" and "re_status r = PSS_STATUS_ok"
  shows "dp_prevVersion p = stored_version a c (srv_db s) \<and> dp_prevVersion p < dp_version p \<and>
     \<not> fst (rg_seen (replay_of D) now (toHexRaw (dp_sig p)) (srv_replay s)) \<and>
     fst (rl_take now (toHexRaw a) (srv_limiter s)) \<and>
     st_upsert (de_crypto D) (put_write a c p) (inviteGate (de_config D) (dp_invite p)) (srv_db s) = (written, srv_db s') \<and>
     srv_replay s' = rg_record (replay_of D) now (toHexRaw (dp_sig p)) (seconds now)
       (snd (rg_seen (replay_of D) now (toHexRaw (dp_sig p)) (srv_replay s))) \<and>
     srv_limiter s' = snd (rl_take now (toHexRaw a) (srv_limiter s))"
  using assms
  by (auto simp: put_checked_def Let_def stored_version_def put_write_def PSS_STATUS_ok_def
      split: if_splits prod.splits write_outcome.splits)

lemma put_checked_other:
  assumes "put_checked D now a c p s = (r, s')" and "re_status r \<noteq> PSS_STATUS_ok"
  shows "srv_db s' = srv_db s \<and>
     (srv_replay s' = srv_replay s \<or> srv_replay s' = snd (rg_seen (replay_of D) now (toHexRaw (dp_sig p)) (srv_replay s))) \<and>
     (srv_limiter s' = srv_limiter s \<or> srv_limiter s' = snd (rl_take now (toHexRaw a) (srv_limiter s)))"
  using assms upsert_not_written [of "de_crypto D" "put_write a c p" "inviteGate (de_config D) (dp_invite p)" "srv_db s"]
  by (auto simp: put_checked_def Let_def put_write_def split: if_splits prod.splits write_outcome.splits)

lemma delete_checked_ok:
  assumes "delete_checked D now a d s = (r, s')" and "re_status r = PSS_STATUS_ok"
  shows "\<not> fst (rg_seen (replay_of D) now (toHexRaw (dd_sig d)) (srv_replay s)) \<and>
     srv_db s' = snd (st_deleteAccount a (srv_db s)) \<and>
     srv_replay s' = (if fst (st_deleteAccount a (srv_db s)) > 0
       then rg_record (replay_of D) now (toHexRaw (dd_sig d)) (seconds now)
         (snd (rg_seen (replay_of D) now (toHexRaw (dd_sig d)) (srv_replay s)))
       else snd (rg_seen (replay_of D) now (toHexRaw (dd_sig d)) (srv_replay s))) \<and>
     srv_limiter s' = snd (rl_take now (toHexRaw a) (srv_limiter s))"
  using assms by (auto simp: delete_checked_def Let_def PSS_STATUS_ok_def split: if_splits prod.splits)

lemma delete_checked_other:
  assumes "delete_checked D now a d s = (r, s')" and "re_status r \<noteq> PSS_STATUS_ok"
  shows "srv_db s' = srv_db s \<and>
     (srv_replay s' = srv_replay s \<or> srv_replay s' = snd (rg_seen (replay_of D) now (toHexRaw (dd_sig d)) (srv_replay s))) \<and>
     (srv_limiter s' = srv_limiter s \<or> srv_limiter s' = snd (rl_take now (toHexRaw a) (srv_limiter s)))"
  using assms by (auto simp: delete_checked_def Let_def split: if_splits prod.splits)

text \<open>The store operation a request asks for: the upsert of a signed PUT, or the deletion a signed DELETE
  names.\<close>

fun asked_by :: "server_deps \<Rightarrow> server_event \<Rightarrow> store_op \<Rightarrow> bool" where
  "asked_by D (SvRequest now req) (SUpsert w g) \<longleftrightarrow> (\<exists>p. signed_put D now req (sw_accountId w) (sw_collection w) p \<and>
     w = put_write (sw_accountId w) (sw_collection w) p \<and> g = inviteGate (de_config D) (dp_invite p))"
| "asked_by D (SvRequest now req) (SDelete a) \<longleftrightarrow> (\<exists>d. signed_delete D now req a d)"
| "asked_by D (SvMaintenance now) op1 \<longleftrightarrow> False"

text \<open>A step of the server is at most one step of the store, and one that was asked for.\<close>

lemma server_step_store:
  "\<exists>ops. srv_db (server_step D ev s) = fold (sqlite.s_step (de_crypto D)) ops (srv_db s) \<and>
     list_all (asked_by D ev) ops \<and> length ops \<le> 1"
proof (cases ev)
  case (SvMaintenance now)
  then show ?thesis by (intro exI [of _ "[]"]) simp
next
  case (SvRequest now req)
  show ?thesis
  proof (cases "dispatch D now req s")
    case None
    with SvRequest show ?thesis by (intro exI [of _ "[]"]) simp
  next
    case (Some rs)
    obtain r s' where rs: "rs = (r, s')" by (cases rs)
    with Some SvRequest have step: "server_step D ev s = s'" by simp
    from Some rs have "dispatch D now req s = Some (r, s')" by simp
    then show ?thesis
    proof (cases rule: dispatch_cases)
      case idle
      with step show ?thesis by (intro exI [of _ "[]"]) (simp add: same_state_def)
    next
      case (put a c p)
      obtain r' t where pc: "put_checked D now a c p s = (r', t)" by (cases "put_checked D now a c p s")
      let ?op = "SUpsert (put_write a c p) (inviteGate (de_config D) (dp_invite p))"
      have db: "srv_db s' = srv_db t" using put(3) pc by (simp add: same_state_def)
      show ?thesis
      proof (cases "re_status r' = PSS_STATUS_ok")
        case True
        from put_checked_ok [OF pc True] have "srv_db t = sqlite.s_step (de_crypto D) ?op (srv_db s)"
          by (simp add: sqlite.s_step_def)
        moreover have "asked_by D ev ?op" using put(1) SvRequest by (auto simp: put_write_def)
        ultimately show ?thesis using step db by (intro exI [of _ "[?op]"]) simp
      next
        case False
        from put_checked_other [OF pc False] step db show ?thesis by (intro exI [of _ "[]"]) simp
      qed
    next
      case (delete a d)
      obtain r' t where pc: "delete_checked D now a d s = (r', t)" by (cases "delete_checked D now a d s")
      have db: "srv_db s' = srv_db t" using delete(3) pc by (simp add: same_state_def)
      show ?thesis
      proof (cases "re_status r' = PSS_STATUS_ok")
        case True
        from delete_checked_ok [OF pc True] have "srv_db t = sqlite.s_step (de_crypto D) (SDelete a) (srv_db s)"
          by (simp add: sqlite.s_step_def)
        moreover have "asked_by D ev (SDelete a)" using delete(1) SvRequest by auto
        ultimately show ?thesis using step db by (intro exI [of _ "[SDelete a]"]) simp
      next
        case False
        from delete_checked_other [OF pc False] step db show ?thesis by (intro exI [of _ "[]"]) simp
      qed
    qed
  qed
qed

lemma server_run_store:
  "\<exists>ops. srv_db (server_run D evs s) = fold (sqlite.s_step (de_crypto D)) ops (srv_db s) \<and>
     list_all (\<lambda>op1. list_ex (\<lambda>ev. asked_by D ev op1) evs) ops"
proof (induction evs arbitrary: s)
  case Nil
  show ?case by (intro exI [of _ "[]"]) (simp add: server_run_def)
next
  case (Cons ev evs)
  obtain o1 where o1: "srv_db (server_step D ev s) = fold (sqlite.s_step (de_crypto D)) o1 (srv_db s)"
    "list_all (asked_by D ev) o1" using server_step_store by blast
  obtain o2 where o2: "srv_db (server_run D evs (server_step D ev s)) =
      fold (sqlite.s_step (de_crypto D)) o2 (srv_db (server_step D ev s))"
    "list_all (\<lambda>op1. list_ex (\<lambda>ev. asked_by D ev op1) evs) o2" using Cons.IH by blast
  have "srv_db (server_run D (ev # evs) s) = fold (sqlite.s_step (de_crypto D)) (o1 @ o2) (srv_db s)"
    using o1(1) o2(1) by (simp add: server_run_def)
  moreover have "list_all (\<lambda>op1. list_ex (\<lambda>ev. asked_by D ev op1) (ev # evs)) (o1 @ o2)"
    using o1(2) o2(2) by (auto simp: list_all_iff)
  ultimately show ?case by blast
qed

text \<open>In the same way a step acts on the limiter through the limiter's own operations.\<close>

lemma limiter_one:
  "l' = l \<or> l' = snd (rl_take now k l) \<Longrightarrow> \<exists>ops. l' = fold rl_step ops l \<and> length ops \<le> 1"
  by (elim disjE) (rule exI [of _ "[]"], simp, rule exI [of _ "[LTake now k]"], simp)

lemma server_step_limiter:
  "\<exists>ops. srv_limiter (server_step D ev s) = fold rl_step ops (srv_limiter s) \<and> length ops \<le> 1"
proof (cases ev)
  case (SvMaintenance now)
  then show ?thesis by (intro exI [of _ "[LSweep now]"]) simp
next
  case (SvRequest now req)
  show ?thesis
  proof (cases "dispatch D now req s")
    case None
    with SvRequest show ?thesis by (intro exI [of _ "[]"]) simp
  next
    case (Some rs)
    obtain r s' where rs: "rs = (r, s')" by (cases rs)
    with Some SvRequest have step: "server_step D ev s = s'" by simp
    from Some rs have "dispatch D now req s = Some (r, s')" by simp
    then show ?thesis
    proof (cases rule: dispatch_cases)
      case idle
      with step show ?thesis by (intro exI [of _ "[]"]) (simp add: same_state_def)
    next
      case (put a c p)
      obtain r' t where pc: "put_checked D now a c p s = (r', t)" by (cases "put_checked D now a c p s")
      have "srv_limiter s' = srv_limiter t" using put(3) pc by (simp add: same_state_def)
      moreover have "srv_limiter t = srv_limiter s \<or> srv_limiter t = snd (rl_take now (toHexRaw a) (srv_limiter s))"
        using put_checked_ok [OF pc] put_checked_other [OF pc] by blast
      ultimately show ?thesis using step limiter_one by simp
    next
      case (delete a d)
      obtain r' t where pc: "delete_checked D now a d s = (r', t)" by (cases "delete_checked D now a d s")
      have "srv_limiter s' = srv_limiter t" using delete(3) pc by (simp add: same_state_def)
      moreover have "srv_limiter t = srv_limiter s \<or> srv_limiter t = snd (rl_take now (toHexRaw a) (srv_limiter s))"
        using delete_checked_ok [OF pc] delete_checked_other [OF pc] by blast
      ultimately show ?thesis using step limiter_one by simp
    qed
  qed
qed

text \<open>And on the replay guard: a signature is looked up, and recorded only if it was not known.\<close>

lemma server_step_replay:
  "\<exists>ops. srv_replay (server_step D ev s) = fold (rg.g_step (replay_of D)) ops (srv_replay s) \<and>
     (ops = [] \<or> (\<exists>now req sg. ev = SvRequest now req \<and>
        (ops = [RSeen now sg] \<or>
         (ops = [RSeen now sg, RRecord now sg (seconds now)] \<and> \<not> fst (rg_seen (replay_of D) now sg (srv_replay s))))))"
proof (cases ev)
  case (SvMaintenance now)
  then show ?thesis by (intro exI [of _ "[]"]) simp
next
  case (SvRequest now req)
  have none: ?thesis if "srv_replay (server_step D ev s) = srv_replay s"
    using that by (intro exI [of _ "[]"]) simp
  have seen: ?thesis if "srv_replay (server_step D ev s) = snd (rg_seen (replay_of D) now sg (srv_replay s))" for sg
    using that SvRequest by (intro exI [of _ "[RSeen now sg]"]) (simp add: rg.g_step_def)
  have recd: ?thesis if "srv_replay (server_step D ev s) = rg_record (replay_of D) now sg (seconds now)
        (snd (rg_seen (replay_of D) now sg (srv_replay s)))" "\<not> fst (rg_seen (replay_of D) now sg (srv_replay s))" for sg
    using that SvRequest by (intro exI [of _ "[RSeen now sg, RRecord now sg (seconds now)]"]) (simp add: rg.g_step_def)
  show ?thesis
  proof (cases "dispatch D now req s")
    case None
    with SvRequest show ?thesis by (intro none) simp
  next
    case (Some rs)
    obtain r s' where rs: "rs = (r, s')" by (cases rs)
    with Some SvRequest have step: "server_step D ev s = s'" by simp
    from Some rs have "dispatch D now req s = Some (r, s')" by simp
    then show ?thesis
    proof (cases rule: dispatch_cases)
      case idle
      with step show ?thesis by (intro none) (simp add: same_state_def)
    next
      case (put a c p)
      obtain r' t where pc: "put_checked D now a c p s = (r', t)" by (cases "put_checked D now a c p s")
      have "srv_replay s' = srv_replay t" using put(3) pc by (simp add: same_state_def)
      with step put_checked_ok [OF pc] put_checked_other [OF pc] none seen recd show ?thesis by metis
    next
      case (delete a d)
      obtain r' t where pc: "delete_checked D now a d s = (r', t)" by (cases "delete_checked D now a d s")
      have "srv_replay s' = srv_replay t" using delete(3) pc by (simp add: same_state_def)
      with step delete_checked_ok [OF pc] delete_checked_other [OF pc] none seen recd show ?thesis by metis
    qed
  qed
qed

section \<open>Runs and the replay guard\<close>

fun event_time :: "server_event \<Rightarrow> int" where
  "event_time (SvRequest now req) = now"
| "event_time (SvMaintenance now) = now"

lemma rg_holds_mono:
  assumes "rg_holds sg at1 k m" and "k \<le> k'"
  shows "rg_holds sg at1 k' m"
proof -
  from assms obtain xs ys where "m = xs @ (sg, at1) # ys" "length ys \<le> k'" "sg \<notin> fst ` set xs" "sg \<notin> fst ` set ys"
    by (auto simp: rg_holds_def)
  then show ?thesis unfolding rg_holds_def by blast
qed

lemma seconds_mono: "now \<le> now' \<Longrightarrow> seconds now \<le> seconds now'"
  by (simp add: seconds_def zdiv_mono1)

lemma server_step_holds:
  assumes "rg_holds sg at1 k (srv_replay s)" and "seconds (event_time ev) - at1 \<le> ro_windowSeconds (replay_of D)"
    and "Suc k < ro_capacity (replay_of D)"
  shows "rg_holds sg at1 (Suc k) (srv_replay (server_step D ev s))"
proof -
  obtain ops where ops: "srv_replay (server_step D ev s) = fold (rg.g_step (replay_of D)) ops (srv_replay s)"
    "ops = [] \<or> (\<exists>now req sg. ev = SvRequest now req \<and> (ops = [RSeen now sg] \<or>
         (ops = [RSeen now sg, RRecord now sg (seconds now)] \<and> \<not> fst (rg_seen (replay_of D) now sg (srv_replay s)))))"
    using server_step_replay by blast
  from ops(2) consider "ops = []" | now req sg' where "ev = SvRequest now req" "ops = [RSeen now sg']"
    | now req sg' where "ev = SvRequest now req" "ops = [RSeen now sg', RRecord now sg' (seconds now)]"
        "\<not> fst (rg_seen (replay_of D) now sg' (srv_replay s))" by blast
  then show ?thesis
  proof cases
    case 1
    with ops(1) assms(1) show ?thesis by (simp add: rg_holds_mono)
  next
    case (2 now req sg')
    then have "now div 1000 - at1 \<le> ro_windowSeconds (replay_of D)" using assms(2) by (simp add: seconds_def)
    from rg_holds_mono [OF rg.seen_keeps [OF assms(1) this], of "Suc k"] ops(1) 2 show ?thesis by (simp add: rg.g_step_def)
  next
    case (3 now req sg')
    then have w: "now div 1000 - at1 \<le> ro_windowSeconds (replay_of D)" using assms(2) by (simp add: seconds_def)
    have "sg' \<noteq> sg" using rg.seen_known [OF assms(1) w] 3(3) by auto
    from rg.record_keeps [OF rg.seen_keeps [OF assms(1) w] w this assms(3)] ops(1) 3 show ?thesis
      by (simp add: rg.g_step_def)
  qed
qed

lemma server_run_holds:
  "rg_holds sg at1 k (srv_replay s) \<Longrightarrow>
   (\<And>ev. ev \<in> set evs \<Longrightarrow> seconds (event_time ev) - at1 \<le> ro_windowSeconds (replay_of D)) \<Longrightarrow>
   k + length evs < ro_capacity (replay_of D) \<Longrightarrow>
   rg_holds sg at1 (k + length evs) (srv_replay (server_run D evs s))"
proof (induction evs arbitrary: s k)
  case Nil
  then show ?case by (simp add: server_run_def)
next
  case (Cons ev evs)
  have "rg_holds sg at1 (Suc k) (srv_replay (server_step D ev s))"
    using Cons.prems by (intro server_step_holds) auto
  from Cons.IH [OF this] Cons.prems show ?case by (simp add: server_run_def)
qed

lemma signed_put_det: "signed_put D now req a c p \<Longrightarrow> signed_put D now' req a' c' p' \<Longrightarrow> a' = a \<and> c' = c \<and> p' = p"
  by (auto simp: signed_put_def)

lemma signed_delete_det: "signed_delete D now req a d \<Longrightarrow> signed_delete D now' req a' d' \<Longrightarrow> a' = a \<and> d' = d"
  by (auto simp: signed_delete_def)

lemma put_authenticated_True:
  "put_authenticated D now a c p = Inr True \<longleftrightarrow>
     ownsAccount (de_crypto D) (dp_authPk p) a \<and>
     (\<exists>preimage. putPreimage \<lparr>pi_accountId = a, pi_collection = c, pi_version = dp_version p,
          pi_prevVersion = dp_prevVersion p, pi_ciphertextDigest = nc_sha256 (de_crypto D) (dp_ciphertext p),
          pi_timestamp = dp_timestamp p\<rparr> = Inr preimage \<and>
        verifyEd25519 (de_crypto D) preimage (dp_sig p) (dp_authPk p)) \<and>
     withinSkew (dp_timestamp p) (seconds now) (cf_timestampSkewSeconds (de_config D))"
  by (auto simp: put_authenticated_def)

lemma delete_authenticated_True:
  "delete_authenticated D now a d = Inr True \<longleftrightarrow>
     ownsAccount (de_crypto D) (dd_authPk d) a \<and>
     (\<exists>preimage. deletePreimage \<lparr>di_accountId = a, di_nonce = dd_nonce d, di_timestamp = dd_timestamp d\<rparr> = Inr preimage \<and>
        verifyEd25519 (de_crypto D) preimage (dd_sig d) (dd_authPk d)) \<and>
     withinSkew (dd_timestamp d) (seconds now) (cf_timestampSkewSeconds (de_config D))"
  by (auto simp: delete_authenticated_def)

lemma signed_put_skew: "signed_put D now req a c p \<Longrightarrow>
   withinSkew (dp_timestamp p) (seconds now) (cf_timestampSkewSeconds (de_config D))"
  by (simp add: signed_put_def put_authenticated_True)

lemma signed_delete_skew: "signed_delete D now req a d \<Longrightarrow>
   withinSkew (dd_timestamp d) (seconds now) (cf_timestampSkewSeconds (de_config D))"
  by (simp add: signed_delete_def delete_authenticated_True)

text \<open>Two readings at which one timestamp is fresh are within the guard's window of each other.\<close>

lemma skew_window:
  "withinSkew ts (seconds t1) k \<Longrightarrow> withinSkew ts (seconds t2) k \<Longrightarrow> seconds t2 - seconds t1 \<le> k * 2"
  by (simp add: withinSkew_def)

text \<open>A signed request is answered by its check.\<close>

lemma dispatch_signed_put:
  assumes "signed_put D now req a c p"
  shows "\<exists>s'. dispatch D now req s = Some (fst (put_checked D now a c p s), s') \<and>
     same_state (snd (put_checked D now a c p s)) s'"
proof -
  obtain r t where pc: "put_checked D now a c p s = (r, t)" by (cases "put_checked D now a c p s")
  from assms obtain bs payload where
    m: "rq_method req = Some ''PUT''" and route: "parseRoute (case rq_url req of None \<Rightarrow> '''' | Some u \<Rightarrow> u) = Inr (RBlob a c)"
    and b: "readBody (rq_contentLength req) (rq_events req)
          (maxPutBodyBytes (cf_maxCiphertextBytes (de_config D)) (cf_bodyHeadroomBytes (de_config D))) = Some (BodyOk bs)"
      "decodeJson bs = Inr payload" "\<not> oversizedCiphertext payload (cf_maxCiphertextBytes (de_config D))"
      "parsePutBlobRequest payload = Inr p" and auth: "put_authenticated D now a c p = Inr True"
    by (auto simp: signed_put_def)
  have "put_after_body D now a c (BodyOk bs) s = (Inr r, t)" using b auth pc by (simp add: put_after_body_def)
  then show ?thesis using m route b(1) pc by (simp add: dispatch_def Let_def handlePut_def)
qed

lemma dispatch_signed_delete:
  assumes "signed_delete D now req a d"
  shows "\<exists>s'. dispatch D now req s = Some (fst (delete_checked D now a d s), s') \<and>
     same_state (snd (delete_checked D now a d s)) s'"
proof -
  obtain r t where pc: "delete_checked D now a d s = (r, t)" by (cases "delete_checked D now a d s")
  from assms obtain bs payload where
    m: "rq_method req = Some ''DELETE''" and route: "parseRoute (case rq_url req of None \<Rightarrow> '''' | Some u \<Rightarrow> u) = Inr (RAccount a)"
    and b: "readBody (rq_contentLength req) (rq_events req) MAX_DELETE_BODY_BYTES = Some (BodyOk bs)"
      "decodeJson bs = Inr payload" "parseDeleteAccountRequest payload = Inr d"
    and auth: "delete_authenticated D now a d = Inr True"
    by (auto simp: signed_delete_def)
  have "delete_after_body D now a (BodyOk bs) s = (Inr r, t)" using b auth pc by (simp add: delete_after_body_def)
  then show ?thesis using m route b(1) pc by (simp add: dispatch_def Let_def handleDelete_def)
qed

text \<open>The row a write names, after it was accepted.\<close>

lemma put_accepted_row:
  assumes "db_ok (srv_db s)" and "put_checked D now a c p s = (r, t)" and "re_status r = PSS_STATUS_ok"
  shows "db_ok (srv_db t) \<and> st_get a' c' (srv_db t) =
     (if a' = a \<and> c' = c then Some (slot_of (put_write a c p)) else st_get a' c' (srv_db s))"
proof -
  have up: "st_upsert (de_crypto D) (put_write a c p) (inviteGate (de_config D) (dp_invite p)) (srv_db s) = (written, srv_db t)"
    using put_checked_ok [OF assms(2,3)] by simp
  have "sw_accountId (put_write a c p) = a" "sw_collection (put_write a c p) = c" by (simp_all add: put_write_def)
  with sqlite.upsert_get [OF assms(1), of a' c' "de_crypto D" "put_write a c p" "inviteGate (de_config D) (dp_invite p)"]
    sqlite.ok_upsert [OF assms(1), of "de_crypto D" "put_write a c p" "inviteGate (de_config D) (dp_invite p)"]
  show ?thesis unfolding up by simp
qed

lemma slot_versions_grow:
  assumes "db_ok (srv_db s)" and "st_get a c (srv_db s) = Some st"
    and "\<And>now req d. SvRequest now req \<in> set evs \<Longrightarrow> \<not> signed_delete D now req a d"
  shows "\<exists>st'. st_get a c (srv_db (server_run D evs s)) = Some st' \<and> sl_version st \<le> sl_version st'"
proof -
  obtain ops where ops: "srv_db (server_run D evs s) = fold (sqlite.s_step (de_crypto D)) ops (srv_db s)"
    "list_all (\<lambda>op1. list_ex (\<lambda>ev. asked_by D ev op1) evs) ops" using server_run_store by blast
  have "SDelete a \<notin> set ops"
  proof
    assume "SDelete a \<in> set ops"
    with ops(2) obtain ev where "ev \<in> set evs" "asked_by D ev (SDelete a)" by (auto simp: list_all_iff list_ex_iff)
    with assms(3) show False by (cases ev) auto
  qed
  with sqlite.run_version [OF assms(1,2)] ops(1) show ?thesis by simp
qed

section \<open>Lemmas: stale requests\<close>

lemma dispatch_stale_put:
  assumes "signed_put D t1 req a c p"
    and "\<not> withinSkew (dp_timestamp p) (seconds t2) (cf_timestampSkewSeconds (de_config D))"
  shows "\<exists>s'. dispatch D t2 req s = Some (bare 401, s') \<and> same_state s s'"
proof -
  from assms(1) obtain bs payload where
    m: "rq_method req = Some ''PUT''" and route: "parseRoute (case rq_url req of None \<Rightarrow> '''' | Some u \<Rightarrow> u) = Inr (RBlob a c)"
    and b: "readBody (rq_contentLength req) (rq_events req)
          (maxPutBodyBytes (cf_maxCiphertextBytes (de_config D)) (cf_bodyHeadroomBytes (de_config D))) = Some (BodyOk bs)"
      "decodeJson bs = Inr payload" "\<not> oversizedCiphertext payload (cf_maxCiphertextBytes (de_config D))"
      "parsePutBlobRequest payload = Inr p" and auth: "put_authenticated D t1 a c p = Inr True"
    by (auto simp: signed_put_def)
  have "put_authenticated D t2 a c p = Inr False"
    using auth assms(2) by (auto simp: put_authenticated_def split: if_splits)
  with b have "put_after_body D t2 a c (BodyOk bs) s = (Inr (bare 401), s)" by (simp add: put_after_body_def)
  then show ?thesis using m route b(1) by (simp add: dispatch_def Let_def handlePut_def)
qed

lemma dispatch_stale_delete:
  assumes "signed_delete D t1 req a d"
    and "\<not> withinSkew (dd_timestamp d) (seconds t2) (cf_timestampSkewSeconds (de_config D))"
  shows "\<exists>s'. dispatch D t2 req s = Some (bare 401, s') \<and> same_state s s'"
proof -
  from assms(1) obtain bs payload where
    m: "rq_method req = Some ''DELETE''" and route: "parseRoute (case rq_url req of None \<Rightarrow> '''' | Some u \<Rightarrow> u) = Inr (RAccount a)"
    and b: "readBody (rq_contentLength req) (rq_events req) MAX_DELETE_BODY_BYTES = Some (BodyOk bs)"
      "decodeJson bs = Inr payload" "parseDeleteAccountRequest payload = Inr d"
    and auth: "delete_authenticated D t1 a d = Inr True"
    by (auto simp: signed_delete_def)
  have "delete_authenticated D t2 a d = Inr False"
    using auth assms(2) by (auto simp: delete_authenticated_def split: if_splits)
  with b have "delete_after_body D t2 a (BodyOk bs) s = (Inr (bare 401), s)" by (simp add: delete_after_body_def)
  then show ?thesis using m route b(1) by (simp add: dispatch_def Let_def handleDelete_def)
qed

text \<open>A signature recorded at one time is still known at any later time its request would be fresh.\<close>

lemma recorded_still_known:
  assumes "rg_holds sg (seconds t1) 0 (srv_replay s)"
    and "withinSkew ts (seconds t1) (cf_timestampSkewSeconds (de_config D))"
    and "withinSkew ts (seconds t2) (cf_timestampSkewSeconds (de_config D))"
    and "\<And>ev. ev \<in> set evs \<Longrightarrow> event_time ev \<le> t2" and "length evs < cf_maxTrackedReplays (de_config D)"
  shows "fst (rg_seen (replay_of D) t2 sg (srv_replay (server_run D evs s)))"
proof -
  have w: "seconds t2 - seconds t1 \<le> ro_windowSeconds (replay_of D)"
    using skew_window [OF assms(2,3)] by (simp add: replay_of_def)
  have "seconds (event_time ev) - seconds t1 \<le> ro_windowSeconds (replay_of D)" if "ev \<in> set evs" for ev
    using seconds_mono [OF assms(4) [OF that]] w by linarith
  from server_run_holds [OF assms(1) this] assms(5)
  have "rg_holds sg (seconds t1) (length evs) (srv_replay (server_run D evs s))" by (simp add: replay_of_def)
  from rg.seen_known [OF this, of t2 "replay_of D"] w show ?thesis by (simp add: seconds_def)
qed

section \<open>Lemmas: what parsers throw\<close>

definition protocol_only :: "'a result \<Rightarrow> bool" where
  "protocol_only r \<longleftrightarrow> (\<forall>e. r = Inl e \<longrightarrow> (\<exists>m. e = PssProtocolError m))"

lemma protocol_only_Inr [simp]: "protocol_only (Inr x)"
  by (simp add: protocol_only_def)

lemma protocol_only_Inl [simp]: "protocol_only (Inl (PssProtocolError m))"
  by (simp add: protocol_only_def)

lemma protocol_only_ebind [intro!]: "protocol_only m \<Longrightarrow> (\<And>x. protocol_only (f x)) \<Longrightarrow> protocol_only (ebind m f)"
  by (cases m) (auto simp: protocol_only_def)

lemma protocol_only_fields [simp]:
  "protocol_only (wt_record v l)" "protocol_only (wt_text v l)" "protocol_only (fromBase64 t l)"
  "protocol_only (assertLength b n l)" "protocol_only (assertCount v l)" "protocol_only (checkCiphertextSize b)"
  "protocol_only (fromHexRaw t l)" "protocol_only (lengthPrefixedAscii t)"
  by (auto simp: protocol_only_def wt_record_def wt_text_def fromBase64_def assertLength_def assertCount_def
      checkCiphertextSize_def require_def fromHexRaw_def lengthPrefixedAscii_def Let_def
      simp del: fromBase64_Inr split: jsval.splits jnum.splits if_splits option.splits)

lemma protocol_only_composite [simp]:
  "protocol_only (u64be k l)" "protocol_only (bytesField v n l)" "protocol_only (inviteField v)"
  "protocol_only (decodeAccountIdPath t)" "protocol_only (decodeCollectionPath t)"
  unfolding u64be_def bytesField_def inviteField_def decodeAccountIdPath_def decodeCollectionPath_def
  by (auto split: option.split)

lemma protocol_only_parsers:
  "protocol_only (parsePutBlobRequest v)" "protocol_only (parseDeleteAccountRequest v)" "protocol_only (parseRoute t)"
  "protocol_only (putPreimage i)" "protocol_only (deletePreimage j)"
  unfolding parsePutBlobRequest_def parseDeleteAccountRequest_def parseRoute_def putPreimage_def deletePreimage_def Let_def
  by (auto split: list.split)

lemma protocol_only_authenticated:
  "protocol_only (put_authenticated D now a c p)" "protocol_only (delete_authenticated D now a d)"
  unfolding put_authenticated_def delete_authenticated_def by (auto intro: protocol_only_parsers)

definition reply_statuses :: "nat set" where
  "reply_statuses = {200, 400, 401, 404, 405, 409, 413, 429}"

lemma put_checked_status: "re_status (fst (put_checked D now a c p s)) \<in> reply_statuses"
  by (auto simp: put_checked_def Let_def reply_statuses_def PSS_STATUS_ok_def split: prod.split write_outcome.split)

lemma delete_checked_status: "re_status (fst (delete_checked D now a d s)) \<in> reply_statuses"
  by (auto simp: delete_checked_def Let_def reply_statuses_def PSS_STATUS_ok_def split: prod.split)

definition answer_ok :: "reply result \<Rightarrow> bool" where
  "answer_ok r \<longleftrightarrow> (case r of Inl e \<Rightarrow> \<exists>m. e = PssProtocolError m | Inr rep \<Rightarrow> re_status rep \<in> reply_statuses)"

lemma put_after_body_status: "answer_ok (fst (put_after_body D now a c read s))"
proof (cases read)
  case (BodyOk bs)
  show ?thesis
  proof (cases "decodeJson bs")
    case (Inl e)
    then show ?thesis by (simp add: BodyOk put_after_body_def answer_ok_def reply_statuses_def)
  next
    case (Inr payload)
    show ?thesis
      using protocol_only_parsers(1) [of payload] protocol_only_authenticated(1) [of D now a c] put_checked_status [of D now a c _ s]
      by (auto simp: BodyOk Inr put_after_body_def answer_ok_def protocol_only_def reply_statuses_def
          split: sum.split bool.split prod.split) (metis fst_conv)+
  qed
qed (simp_all add: put_after_body_def answer_ok_def reply_statuses_def)

lemma delete_after_body_status: "answer_ok (fst (delete_after_body D now a read s))"
proof (cases read)
  case (BodyOk bs)
  show ?thesis
  proof (cases "decodeJson bs")
    case (Inl e)
    then show ?thesis by (simp add: BodyOk delete_after_body_def answer_ok_def reply_statuses_def)
  next
    case (Inr payload)
    show ?thesis
      using protocol_only_parsers(2) [of payload] protocol_only_authenticated(2) [of D now a] delete_checked_status [of D now a _ s]
      by (auto simp: BodyOk Inr delete_after_body_def answer_ok_def protocol_only_def reply_statuses_def
          split: sum.split bool.split prod.split) (metis fst_conv)+
  qed
qed (simp_all add: delete_after_body_def answer_ok_def reply_statuses_def)

lemma route_request_status:
  "route_request D now req target s = Some (r, s') \<Longrightarrow> answer_ok r"
proof -
  have get: "re_status (handleGet a c now s) \<in> reply_statuses" for a c and s :: server_state
    by (simp add: handleGet_def PSS_STATUS_ok_def reply_statuses_def split: option.split)
  have plain: "re_status (notAllowed x) \<in> reply_statuses" "re_status (bare (statusOf not_found)) \<in> reply_statuses" for x
    by (simp_all add: notAllowed_def METHOD_NOT_ALLOWED_def reply_statuses_def)
  have put: "answer_ok r" if "put_after_body D now a c read s = (r, s')" for a c read
    using put_after_body_status [of D now a c read s] that by simp
  have del: "answer_ok r" if "delete_after_body D now a read s = (r, s')" for a read
    using delete_after_body_status [of D now a read s] that by simp
  have ok: "answer_ok (Inr rep)" if "re_status rep \<in> reply_statuses" for rep
    using that by (simp add: answer_ok_def)
  show "route_request D now req target s = Some (r, s') \<Longrightarrow> answer_ok r"
    by (cases target) (auto simp: handlePut_def handleDelete_def simp del: statusOf.simps split: if_splits option.splits
        intro: ok get plain put del)
qed

lemma stream_settles:
  assumes "ev \<in> set evs" and "ev \<in> {EvEnd, EvError, EvAborted}"
  shows "br_settled (fold (on_body_event cap) evs r) \<noteq> None"
  using assms(1)
proof (induction evs arbitrary: r)
  case Nil
  then show ?case by simp
next
  case (Cons e evs)
  show ?case
  proof (cases "ev \<in> set evs")
    case True
    with Cons.IH show ?thesis by simp
  next
    case False
    with Cons.prems have "e = ev" by simp
    then have "br_settled (on_body_event cap e r) \<noteq> None" using assms(2) by (auto simp: settle_def)
    with settled_stays [of "on_body_event cap e r" _ cap evs] show ?thesis by auto
  qed
qed

lemma readBody_settles:
  assumes "ev \<in> set evs" and "ev \<in> {EvEnd, EvError, EvAborted}"
  shows "readBody declared evs cap \<noteq> None"
  using stream_settles [OF assms]
  by (auto simp: readBody_def stream_body_def split: option.split)

end
