(* ===== verification/Client_Server.thy ===== *)
theory Client_Server
  imports Server_Lemmas Sync_Lemmas
begin

text \<open>
  The client's requests at the server. The request object the client's transport sends
  (\<^verbatim>\<open>sync/transport.ts\<close>: method, path, the compact JSON of the body, cut into chunks by the network) is read,
  decoded, parsed and authenticated by the server back into the very fields the client signed.
\<close>

section \<open>The requests the transport sends\<close>

definition put_http :: "bytes \<Rightarrow> collection \<Rightarrow> put_blob_request \<Rightarrow> bytes list \<Rightarrow> http_request" where
  "put_http accountId c body parts =
     \<lparr>rq_method = Some ''PUT'', rq_url = Some (blobPath (toHexRaw accountId) c),
      rq_contentLength = Some (nat_to_string (length (utf8 (json_stringify (put_request_json body))))),
      rq_events = map EvData parts @ [EvEnd]\<rparr>"

definition get_http :: "bytes \<Rightarrow> collection \<Rightarrow> http_request" where
  "get_http accountId c =
     \<lparr>rq_method = Some ''GET'', rq_url = Some (blobPath (toHexRaw accountId) c),
      rq_contentLength = None, rq_events = [EvEnd]\<rparr>"

section \<open>Lemmas: the route\<close>

lemma split_on_plain: "c \<notin> set xs \<Longrightarrow> split_on c xs = [xs]"
  by (induction xs) auto

lemma split_on_sep: "c \<notin> set xs \<Longrightarrow> split_on c (xs @ c # ys) = xs # split_on c ys"
  by (induction xs) auto

lemma hex_plain: "set (toHexRaw a) \<subseteq> set ''0123456789abcdef''"
  using toHexRaw_lower [of a] unfolding list_all_iff is_lower_hex_def by blast

lemma parseRoute_blobPath:
  assumes "length a = ACCOUNT_ID_BYTES"
  shows "parseRoute (blobPath (toHexRaw a) c) = Inr (RBlob a c)"
proof -
  have "CHR ''/'' \<notin> set ''0123456789abcdef''" "CHR ''?'' \<notin> set ''0123456789abcdef''" by simp_all
  then have slash: "CHR ''/'' \<notin> set (toHexRaw a)" and q: "CHR ''?'' \<notin> set (toHexRaw a)"
    using hex_plain [of a] by blast+
  have cn: "CHR ''/'' \<notin> set (collection_name c)" "CHR ''?'' \<notin> set (collection_name c)" "collection_name c \<noteq> []"
    by (cases c; simp)+
  have ne: "toHexRaw a \<noteq> []" using assms by (cases a) (simp_all add: toHexRaw_def hex_byte_def ACCOUNT_ID_BYTES_def)
  have "\<forall>x \<in> set (blobPath (toHexRaw a) c). x \<noteq> CHR ''?''" using q cn(2) by (auto simp: blobPath_def)
  then have path: "takeWhile (\<lambda>x. x \<noteq> CHR ''?'') (blobPath (toHexRaw a) c) = blobPath (toHexRaw a) c"
    by (rule takeWhile_eq_all_conv [THEN iffD2])
  have "split_on (CHR ''/'') (blobPath (toHexRaw a) c) = ['''', ''v1'', ''blob'', toHexRaw a, collection_name c]"
    using split_on_sep [OF slash, of "collection_name c"] split_on_plain [OF cn(1)] by (simp add: blobPath_def)
  moreover have "decodeAccountIdPath (toHexRaw a) = Inr a" using assms by (simp add: decodeAccountIdPath_Inr)
  moreover have "decodeCollectionPath (collection_name c) = Inr c" by (simp add: decodeCollectionPath_Inr)
  ultimately show ?thesis using ne cn(3) by (simp add: parseRoute_def path)
qed

section \<open>Lemmas: the body\<close>

lemma js_Number_nat:
  assumes "n \<le> 2 ^ 53"
  shows "js_Number (nat_to_string n) = NInt (int n)"
proof -
  let ?t = "nat_to_string n"
  have digits: "list_all is_digit ?t" by (rule nat_to_string_digits)
  have ne: "?t \<noteq> []" by (rule nat_to_string_nonempty)
  have not_space: "\<not> js_space c" and not_sign: "c \<noteq> CHR ''-''" "c \<noteq> CHR ''+''" "c \<notin> set ''xXoObB''" "c \<noteq> CHR ''I''"
    if "is_digit c" for c
    using that by (auto simp: is_digit_def js_space_def)
  have trim: "js_trim ?t = ?t"
  proof -
    have "dropWhile js_space xs = xs" if "list_all is_digit xs" for xs
      using that not_space by (cases xs) auto
    from this [OF digits] this [of "rev ?t"] digits show ?thesis
      by (simp add: js_trim_def list_all_iff)
  qed
  have radix: "take 2 ?t \<noteq> [CHR ''0'', x]" if "x \<in> set ''xXoObB''" for x
  proof
    assume "take 2 ?t = [CHR ''0'', x]"
    then have "x \<in> set ?t" by (metis in_set_takeD list.set_intros(1,2))
    with digits not_sign(3) that show False by (auto simp: list_all_iff)
  qed
  obtain c r where cr: "?t = c # r" using ne by (cases ?t) auto
  with digits have c: "is_digit c" by simp
  have tw: "takeWhile is_digit ?t = ?t" "dropWhile is_digit ?t = []"
    using digits by (simp_all add: list_all_iff)
  have "decimal_value (c # r) = n" using decimal_value_nat_to_string [of n] cr by simp
  then have "unsigned_number False ?t = int_double False n"
    using tw ne not_sign(4) [OF c] cr
    by (simp add: unsigned_number_def starts_def p_exponent_def literal_double_def decimal_value_nat_to_string Let_def)
  moreover have "int_double False n = NInt (int n)" using assms by (simp add: int_double_def signed_def)
  moreover have "js_Number ?t = unsigned_number False ?t"
    using trim ne radix [of "CHR ''x''"] radix [of "CHR ''X''"] radix [of "CHR ''o''"] radix [of "CHR ''O''"]
      radix [of "CHR ''b''"] radix [of "CHR ''B''"] not_sign(1,2) [OF c] cr
    unfolding js_Number_def Let_def by (auto simp: starts_def)
  ultimately show ?thesis by simp
qed

lemma readBody_sent:
  assumes "concat parts = bs" and "length bs \<le> cap" and "cap \<le> 2 ^ 52"
  shows "readBody (Some (nat_to_string (length bs))) (map EvData parts @ [EvEnd]) cap = Some (BodyOk bs)"
proof -
  have "js_Number (nat_to_string (length bs)) = NInt (int (length bs))"
    using assms(2,3) by (intro js_Number_nat) simp
  moreover have "isSafeInteger (int (length bs))"
    using assms(2,3) by (simp add: isSafeInteger_def MAX_SAFE_INTEGER_def)
  ultimately show ?thesis using assms by (simp add: readBody_def stream_body_chunks)
qed

section \<open>Lemmas: a built request at the server\<close>

text \<open>What the server decodes from a request the client built.\<close>

definition decoded_of :: "pss_keys \<Rightarrow> put_request_input \<Rightarrow> bytes \<Rightarrow> decoded_put" where
  "decoded_of keys i signature =
     \<lparr>dp_version = pq_version i, dp_prevVersion = pq_prevVersion i, dp_nonce = pq_nonce i,
      dp_ciphertext = pq_ciphertext i, dp_authPk = k_authPublicKey keys, dp_sig = signature,
      dp_timestamp = pq_timestamp i, dp_invite = pq_invite i\<rparr>"

lemma built_request:
  assumes "node_agrees (de_crypto D) B" and "sign_ok B" and "keys_ok B keys"
    and "buildPutRequest B keys i = Inr body" and "invite_wf (pq_invite i)"
    and "cf_maxCiphertextBytes (de_config D) = MAX_CIPHERTEXT_BYTES" and "cf_bodyHeadroomBytes (de_config D) = BODY_HEADROOM_BYTES"
    and "withinSkew (pq_timestamp i) (seconds now) (cf_timestampSkewSeconds (de_config D))"
    and "concat parts = utf8 (json_stringify (put_request_json body))"
  shows "\<exists>signature. pr_sig body = toBase64 signature \<and>
     signed_put D now (put_http (k_accountId keys) (pq_collection i) body parts) (k_accountId keys) (pq_collection i)
       (decoded_of keys i signature)"
proof -
  let ?pre = "\<lparr>pi_accountId = k_accountId keys, pi_collection = pq_collection i, pi_version = pq_version i,
      pi_prevVersion = pq_prevVersion i, pi_ciphertextDigest = be_sha256 B (pq_ciphertext i),
      pi_timestamp = pq_timestamp i\<rparr>"
  from assms(4) obtain preimage signature where
    i: "pq_prevVersion i < pq_version i" "length (pq_nonce i) = 12" "0 < length (pq_ciphertext i)"
      "length (pq_ciphertext i) \<le> MAX_CIPHERTEXT_BYTES"
    and pre: "putPreimage ?pre = Inr preimage" and sg: "be_ed25519Sign B (k_authSeed keys) preimage = Inr signature"
    and body: "body = put_request_of (decoded_of keys i signature)"
    by (auto simp: buildPutRequest_Inr put_request_of_def decoded_of_def)
  note K = assms(3) [unfolded keys_ok_def]
  from assms(2) K obtain s where s: "be_ed25519Sign B (k_authSeed keys) preimage = Inr s" "length s = ED25519_SIGNATURE_BYTES"
    "be_ed25519Verify B (k_authPublicKey keys) preimage s = Inr True"
    unfolding sign_ok_def by (metis Inr_inject)
  with sg have sig: "length signature = ED25519_SIGNATURE_BYTES" "be_ed25519Verify B (k_authPublicKey keys) preimage signature = Inr True"
    by simp_all
  have counts: "is_count (pq_version i)" "is_count (pq_prevVersion i)" "is_count (pq_timestamp i)"
    using pre by (auto simp: putPreimage_Inr u64be_Inr)
  have wf: "decoded_put_wf (decoded_of keys i signature)"
    using i sig counts K assms(5)
    by (simp add: decoded_put_wf_def decoded_of_def GCM_NONCE_BYTES_def ED25519_PUBLIC_KEY_BYTES_def)
  define json where "json = json_stringify (put_request_json body)"
  note T = put_request_text [OF wf, folded body, folded json_def]
  have len: "length (utf8 json) \<le> maxPutBodyBytes MAX_CIPHERTEXT_BYTES BODY_HEADROOM_BYTES"
    using T(1) utf8_ascii [OF T(2)] by (simp add: maxPutBodyBytes_def)
  have cap: "maxPutBodyBytes MAX_CIPHERTEXT_BYTES BODY_HEADROOM_BYTES \<le> 2 ^ 52"
    by (simp add: maxPutBodyBytes_def envelope_chars CREDENTIAL_CHARS_eq INVITE_CODE_MAX_CHARS_def base64Chars_def
        MAX_CIPHERTEXT_BYTES_def MAX_PLAINTEXT_BYTES_def BODY_HEADROOM_BYTES_def)
  obtain kvs where obj: "put_request_json body = JObj kvs" by (simp add: put_request_json_def)
  have read: "readBody (Some (nat_to_string (length (utf8 json)))) (map EvData parts @ [EvEnd])
      (maxPutBodyBytes MAX_CIPHERTEXT_BYTES BODY_HEADROOM_BYTES) = Some (BodyOk (utf8 json))"
    by (rule readBody_sent [OF _ len cap]) (use assms(9) in \<open>simp add: json_def\<close>)
  have dec: "decodeJson (utf8 json) = Inr (put_request_json body)"
    using decodeJson_object [of kvs] T(3) by (simp add: json_def obj)
  have small: "\<not> oversizedCiphertext (put_request_json body) MAX_CIPHERTEXT_BYTES"
    using i(4) by (simp add: oversizedCiphertext_def put_request_json_def get_prop_def body put_request_of_def
        decoded_of_def base64Bytes_toBase64)
  have parse: "parsePutBlobRequest (put_request_json body) = Inr (decoded_of keys i signature)"
    unfolding body by (rule parsePut_roundtrip [OF wf])
  have named: "k_accountId keys = be_sha256 B (k_authPublicKey keys)" and "length (k_accountId keys) = 32"
    using K by blast+
  from this(2) have account: "length (be_sha256 B (k_authPublicKey keys)) = 32" unfolding named .
  have auth: "put_authenticated D now (k_accountId keys) (pq_collection i) (decoded_of keys i signature) = Inr True"
    using assms(1,8) K pre sig account
    by (simp add: put_authenticated_True ownsAccount_iff node_agrees_def decoded_of_def ACCOUNT_ID_BYTES_def verifyEd25519_def)
  have "length (k_accountId keys) = ACCOUNT_ID_BYTES" unfolding named ACCOUNT_ID_BYTES_def by (rule account)
  from parseRoute_blobPath [OF this] read dec small parse auth assms(6,7)
  have "signed_put D now (put_http (k_accountId keys) (pq_collection i) body parts) (k_accountId keys) (pq_collection i)
       (decoded_of keys i signature)"
    by (simp add: signed_put_def put_http_def json_def)
  moreover have "pr_sig body = toBase64 signature" by (simp add: body put_request_of_def decoded_of_def)
  ultimately show ?thesis by blast
qed

text \<open>When the write it asks for goes through.\<close>

definition invite_good :: "server_deps \<Rightarrow> bytes \<Rightarrow> string option \<Rightarrow> database \<Rightarrow> bool" where
  "invite_good D a invite db \<longleftrightarrow> \<not> cf_inviteRequired (de_config D) \<or> hasAccountRow a db \<or>
     (\<exists>code rows. invite = Some code \<and> db_invites db = Some rows \<and>
        map_of rows (codeHash (de_crypto D) code) = Some False)"

lemma upsert_succeeds:
  assumes "stored_version (sw_accountId w) (sw_collection w) db = sw_prevVersion w" and "sw_prevVersion w < sw_version w"
    and "invite_good D (sw_accountId w) invite db"
  shows "fst (st_upsert (de_crypto D) w (inviteGate (de_config D) invite) db) = written"
proof -
  have cas: "st_cas w db = (True, snd (st_cas w db))"
    using assms(1,2) by (auto simp: st_cas_eq stored_version_def split: option.splits)
  have spend: "fst (st_spend (de_crypto D) code (snd (st_cas w db)))"
    if "db_invites db = Some rows" "map_of rows (codeHash (de_crypto D) code) = Some False" for code rows
    using that by (simp add: st_spend_def)
  show ?thesis
  proof (cases "\<not> cf_inviteRequired (de_config D) \<or> hasAccountRow (sw_accountId w) db")
    case True
    then show ?thesis using cas
      by (cases "st_cas w db") (auto simp: inviteGate_def st_upsert_def gatedWrite_def)
  next
    case False
    with assms(3) obtain code rows where c: "invite = Some code" "db_invites db = Some rows"
      "map_of rows (codeHash (de_crypto D) code) = Some False" by (auto simp: invite_good_def)
    obtain d where d: "st_cas w db = (True, d)" using cas by blast
    obtain d' where "st_spend (de_crypto D) code d = (True, d')" using spend [OF c(2,3)] d by (cases "st_spend (de_crypto D) code d") auto
    with False c(1) d show ?thesis by (simp add: inviteGate_def st_upsert_def gatedWrite_def)
  qed
qed

lemma put_checked_succeeds:
  assumes "stored_version a c (srv_db s) = dp_prevVersion p" and "dp_prevVersion p < dp_version p"
    and "\<not> fst (rg_seen (replay_of D) now (toHexRaw (dp_sig p)) (srv_replay s))"
    and "fst (rl_take now (toHexRaw a) (srv_limiter s))" and "invite_good D a (dp_invite p) (srv_db s)"
  shows "re_status (fst (put_checked D now a c p s)) = PSS_STATUS_ok"
proof -
  have "fst (st_upsert (de_crypto D) (put_write a c p) (inviteGate (de_config D) (dp_invite p)) (srv_db s)) = written"
    using upsert_succeeds [of "put_write a c p" "srv_db s" D "dp_invite p"] assms by (simp add: put_write_def)
  then show ?thesis
    using assms(1-4)
    by (auto simp: put_checked_def stored_version_def put_write_def Let_def split: prod.split option.splits)
qed

section \<open>Lemmas: a built deletion at the server\<close>

definition delete_http :: "bytes \<Rightarrow> delete_account_request \<Rightarrow> bytes list \<Rightarrow> http_request" where
  "delete_http accountId body parts =
     \<lparr>rq_method = Some ''DELETE'', rq_url = Some (''/v1/blob/'' @ toHexRaw accountId),
      rq_contentLength = Some (nat_to_string (length (utf8 (json_stringify (delete_request_json body))))),
      rq_events = map EvData parts @ [EvEnd]\<rparr>"

lemma parseRoute_account:
  assumes "length a = ACCOUNT_ID_BYTES"
  shows "parseRoute (''/v1/blob/'' @ toHexRaw a) = Inr (RAccount a)"
proof -
  have "CHR ''/'' \<notin> set ''0123456789abcdef''" "CHR ''?'' \<notin> set ''0123456789abcdef''" by simp_all
  then have slash: "CHR ''/'' \<notin> set (toHexRaw a)" and q: "CHR ''?'' \<notin> set (toHexRaw a)"
    using hex_plain [of a] by blast+
  have ne: "toHexRaw a \<noteq> []" using assms by (cases a) (simp_all add: toHexRaw_def hex_byte_def ACCOUNT_ID_BYTES_def)
  have "\<forall>x \<in> set (''/v1/blob/'' @ toHexRaw a). x \<noteq> CHR ''?''" using q by auto
  then have path: "takeWhile (\<lambda>x. x \<noteq> CHR ''?'') (''/v1/blob/'' @ toHexRaw a) = ''/v1/blob/'' @ toHexRaw a"
    by (rule takeWhile_eq_all_conv [THEN iffD2])
  have "split_on (CHR ''/'') (''/v1/blob/'' @ toHexRaw a) = ['''', ''v1'', ''blob'', toHexRaw a]"
    using split_on_plain [OF slash] by simp
  moreover have "decodeAccountIdPath (toHexRaw a) = Inr a" using assms by (simp add: decodeAccountIdPath_Inr)
  ultimately show ?thesis using ne unfolding parseRoute_def path by simp
qed

lemma delete_request_text:
  assumes "length (dd_authPk d) = 32" and "length (dd_sig d) = 64" and "is_count (dd_timestamp d)" and "length (dd_nonce d) = 12"
    and "body = \<lparr>dr_authPk = toBase64 (dd_authPk d), dr_sig = toBase64 (dd_sig d), dr_timestamp = dd_timestamp d,
            dr_nonce = toBase64 (dd_nonce d)\<rparr>"
  shows "length (json_stringify (delete_request_json body)) \<le> MAX_DELETE_BODY_BYTES"
    and "ascii_text (json_stringify (delete_request_json body))" and "json_plain (delete_request_json body)"
    and "parseDeleteAccountRequest (delete_request_json body) = Inr d"
proof -
  have b: "length (json_string (toBase64 bs)) = base64Chars (length bs) + 2" for bs
    by (simp add: bare_json_string [OF bare_base64] base64Chars_toBase64)
  have k: "length (json_string ''timestamp'') = 11" "length (json_string ''nonce'') = 7"
    "length (json_string ''authPk'') = 8" "length (json_string ''sig'') = 5"
    by (simp_all add: length_json_string esc_char_def)
  have ka: "ascii_text (json_string ''timestamp'')" "ascii_text (json_string ''nonce'')"
    "ascii_text (json_string ''authPk'')" "ascii_text (json_string ''sig'')"
    by (simp_all add: json_string_def esc_char_def)
  show "length (json_stringify (delete_request_json body)) \<le> MAX_DELETE_BODY_BYTES"
    using count_text(1) [OF assms(3)] assms(1,2,4)
    by (simp add: assms(5) delete_request_json_def b k MAX_DELETE_BODY_BYTES_def envelope_chars CREDENTIAL_CHARS_eq
        DELETE_HEADROOM_CHARS_def base64Chars_def)
  show "ascii_text (json_stringify (delete_request_json body))"
    using assms(3) by (simp add: assms(5) delete_request_json_def ka count_text bare_json_string [OF bare_base64])
  show "json_plain (delete_request_json body)"
    using assms(3) by (simp add: assms(5) delete_request_json_def is_count_def)
  show "parseDeleteAccountRequest (delete_request_json body) = Inr d"
    using assms by (simp add: parseDeleteAccountRequest_Inr delete_request_json_def get_prop_def
        ED25519_PUBLIC_KEY_BYTES_def ED25519_SIGNATURE_BYTES_def GCM_NONCE_BYTES_def)
qed

lemma built_deletion:
  assumes "node_agrees (de_crypto D) B" and "sign_ok B" and "keys_ok B keys"
    and "buildDeleteRequest B keys nonce ts = Inr body"
    and "withinSkew ts (seconds now) (cf_timestampSkewSeconds (de_config D))"
    and "concat parts = utf8 (json_stringify (delete_request_json body))"
  shows "\<exists>signature. signed_delete D now (delete_http (k_accountId keys) body parts) (k_accountId keys)
     \<lparr>dd_authPk = k_authPublicKey keys, dd_sig = signature, dd_timestamp = ts, dd_nonce = nonce\<rparr>"
proof -
  from assms(4) obtain preimage signature where n: "length nonce = 12"
    and pre: "deletePreimage \<lparr>di_accountId = k_accountId keys, di_nonce = nonce, di_timestamp = ts\<rparr> = Inr preimage"
    and sg: "be_ed25519Sign B (k_authSeed keys) preimage = Inr signature"
    and body: "body = \<lparr>dr_authPk = toBase64 (k_authPublicKey keys), dr_sig = toBase64 signature, dr_timestamp = ts,
            dr_nonce = toBase64 nonce\<rparr>"
    by (auto simp: buildDeleteRequest_def GCM_NONCE_BYTES_def split: if_splits)
  note K = assms(3) [unfolded keys_ok_def]
  have named: "k_accountId keys = be_sha256 B (k_authPublicKey keys)" and len: "length (k_accountId keys) = 32"
    using K by blast+
  from assms(2) K obtain s where s: "be_ed25519Sign B (k_authSeed keys) preimage = Inr s" "length s = ED25519_SIGNATURE_BYTES"
    "be_ed25519Verify B (k_authPublicKey keys) preimage s = Inr True"
    unfolding sign_ok_def by (metis Inr_inject)
  with sg have sig: "length signature = 64" "be_ed25519Verify B (k_authPublicKey keys) preimage signature = Inr True"
    by (simp_all add: ED25519_SIGNATURE_BYTES_def)
  have count: "is_count ts" using pre by (auto simp: deletePreimage_def u64be_Inr)
  let ?d = "\<lparr>dd_authPk = k_authPublicKey keys, dd_sig = signature, dd_timestamp = ts, dd_nonce = nonce\<rparr>"
  have "length (dd_authPk ?d) = 32" "length (dd_sig ?d) = 64" "is_count (dd_timestamp ?d)" "length (dd_nonce ?d) = 12"
    "body = \<lparr>dr_authPk = toBase64 (dd_authPk ?d), dr_sig = toBase64 (dd_sig ?d), dr_timestamp = dd_timestamp ?d,
            dr_nonce = toBase64 (dd_nonce ?d)\<rparr>"
    using K sig count n body by simp_all
  note T = delete_request_text [OF this]
  define json where "json = json_stringify (delete_request_json body)"
  have small: "length (utf8 json) \<le> MAX_DELETE_BODY_BYTES" using T(1) utf8_ascii [OF T(2)] by (simp add: json_def)
  have cap: "MAX_DELETE_BODY_BYTES \<le> 2 ^ 52"
    by (simp add: MAX_DELETE_BODY_BYTES_def envelope_chars CREDENTIAL_CHARS_eq DELETE_HEADROOM_CHARS_def)
  have read: "readBody (Some (nat_to_string (length (utf8 json)))) (map EvData parts @ [EvEnd]) MAX_DELETE_BODY_BYTES =
      Some (BodyOk (utf8 json))"
    by (rule readBody_sent [OF _ small cap]) (use assms(6) in \<open>simp add: json_def\<close>)
  obtain kvs where obj: "delete_request_json body = JObj kvs" by (simp add: delete_request_json_def)
  have dec: "decodeJson (utf8 json) = Inr (delete_request_json body)"
    using decodeJson_object [of kvs] T(3) by (simp add: json_def obj)
  have account: "length (be_sha256 B (k_authPublicKey keys)) = 32" using len unfolding named .
  have auth: "delete_authenticated D now (k_accountId keys) ?d = Inr True"
    using assms(1,5) pre sig account
    by (simp add: delete_authenticated_True ownsAccount_iff node_agrees_def ACCOUNT_ID_BYTES_def verifyEd25519_def named)
  have "length (k_accountId keys) = ACCOUNT_ID_BYTES" unfolding named ACCOUNT_ID_BYTES_def by (rule account)
  from parseRoute_account [OF this] read dec T(4) auth
  have "signed_delete D now (delete_http (k_accountId keys) body parts) (k_accountId keys) ?d"
    unfolding signed_delete_def delete_http_def json_def by simp
  then show ?thesis by blast
qed

end
