(* ===== verification/Server_Properties.thy ===== *)
theory Server_Properties
  imports Client_Server
begin

text \<open>
  The properties of the PSS server: which requests may change the state, how versions move, that replays
  and second writers are refused, what an invite buys, how much an account may write and what the server
  may hold in memory.
\<close>

section \<open>Concrete objects for the instances\<close>

definition sample_config :: server_config where
  "sample_config = \<lparr>cf_host = ''127.0.0.1'', cf_port = 8787, cf_databasePath = ''/p/data/pss.db'',
     cf_migrationsDir = ''/p/migrations'', cf_timestampSkewSeconds = 300, cf_maxCiphertextBytes = MAX_CIPHERTEXT_BYTES,
     cf_bodyHeadroomBytes = 4096, cf_writesPerHour = 60, cf_writeBurst = 10, cf_maxTrackedAccounts = 100000,
     cf_maxTrackedReplays = 100000, cf_requestTimeoutMs = 30000, cf_headersTimeoutMs = 10000,
     cf_maxConnections = 512, cf_inviteRequired = True\<rparr>"

definition server1 :: server_deps where
  "server1 = \<lparr>de_config = sample_config, de_crypto = clear_node\<rparr>"

definition server_keys :: pss_keys where
  "server_keys = \<lparr>k_authSeed = replicate 32 1, k_authPublicKey = replicate 32 1, k_accountId = replicate 32 1,
     k_cellKey = (\<lambda>_. replicate 32 2)\<rparr>"

definition first_input :: put_request_input where
  "first_input = \<lparr>pq_collection = State, pq_version = 1, pq_prevVersion = 0, pq_nonce = replicate 12 7,
     pq_ciphertext = [1, 2, 3], pq_timestamp = 1000, pq_invite = Some ''abc''\<rparr>"

definition server_start :: server_state where
  "server_start = \<lparr>srv_db = \<lparr>db_slots = [], db_invites = Some [(fit 32 (utf8 ''abc''), False)]\<rparr>,
     srv_limiter = \<lparr>li_buckets = [], li_refillPerMs = 60 / 3600000, li_burst = 10, li_capacity = 100000\<rparr>,
     srv_replay = [], srv_counters = []\<rparr>"

text \<open>The first upload of an invited account, the state it leaves, and the account's deletion after it.\<close>

definition first_body :: put_blob_request where
  "first_body = (case buildPutRequest clear_backend server_keys first_input of Inr b \<Rightarrow> b)"

definition first_http :: http_request where
  "first_http = put_http (k_accountId server_keys) State first_body [utf8 (json_stringify (put_request_json first_body))]"

definition after_first :: server_state where
  "after_first = snd (the (dispatch server1 1000000 first_http server_start))"



lemma server_keys_ok: "keys_ok clear_backend server_keys"
  by (simp add: keys_ok_def server_keys_def clear_backend_def)

lemma first_built: "buildPutRequest clear_backend server_keys first_input = Inr first_body"
proof -
  let ?i = "\<lparr>pi_accountId = k_accountId server_keys, pi_collection = State, pi_version = 1, pi_prevVersion = 0,
      pi_ciphertextDigest = be_sha256 clear_backend [1, 2, 3], pi_timestamp = 1000\<rparr>"
  obtain bs where "putPreimage ?i = Inr bs"
    using putPreimage_total [of ?i]
    by (auto simp: server_keys_def clear_backend_def is_count_def isSafeInteger_def MAX_SAFE_INTEGER_def)
  then have "\<exists>b. buildPutRequest clear_backend server_keys first_input = Inr b"
    by (simp add: buildPutRequest_Inr first_input_def MAX_CIPHERTEXT_BYTES_def MAX_PLAINTEXT_BYTES_def) (simp add: clear_backend_def)
  then show ?thesis by (auto simp: first_body_def)
qed

lemma first_fresh: "withinSkew 1000 (seconds 1000000) (cf_timestampSkewSeconds (de_config server1))"
  by (simp add: withinSkew_def seconds_def server1_def sample_config_def)

lemma first_signed:
  "\<exists>sg. signed_put server1 1000000 first_http (k_accountId server_keys) State (decoded_of server_keys first_input sg)"
  using built_request [OF _ clear_backend_laws(3) server_keys_ok first_built, of server1 1000000
      "[utf8 (json_stringify (put_request_json first_body))]"] clear_node_agrees first_fresh
  by (auto simp: first_http_def first_input_def server1_def sample_config_def BODY_HEADROOM_BYTES_def invite_wf_def
      INVITE_CODE_MAX_CHARS_def INVITE_SHAPE_def)

lemma first_accepted:
  "\<exists>r. dispatch server1 1000000 first_http server_start = Some (r, after_first) \<and> re_status r = 200 \<and>
     db_ok (srv_db server_start) \<and> db_ok (srv_db after_first) \<and> srv_db after_first \<noteq> srv_db server_start \<and>
     (\<exists>st. st_get (k_accountId server_keys) State (srv_db after_first) = Some st) \<and>
     fst (rl_take 1001000 (toHexRaw (k_accountId server_keys)) (srv_limiter after_first))"
proof -
  let ?a = "k_accountId server_keys"
  obtain sg where signed: "signed_put server1 1000000 first_http ?a State (decoded_of server_keys first_input sg)"
    using first_signed by blast
  let ?p = "decoded_of server_keys first_input sg"
  obtain r t where pc: "put_checked server1 1000000 ?a State ?p server_start = (r, t)"
    by (cases "put_checked server1 1000000 ?a State ?p server_start")
  have db: "db_ok (srv_db server_start)" by (simp add: db_ok_def server_start_def)
  have seen: "\<not> fst (rg_seen (replay_of server1) 1000000 (toHexRaw (dp_sig ?p)) (srv_replay server_start))"
    by (simp add: rg_seen_def server_start_def)
  have wf: "limiter_wf {toHexRaw ?a} 0 (srv_limiter server_start)" by (simp add: limiter_wf_def server_start_def)
  have take: "fst (rl_take 1000000 (toHexRaw ?a) (srv_limiter server_start))"
    using rl_take_eq [OF wf, of 1000000 "toHexRaw ?a"] by (simp add: tokens_at_def server_start_def)
  have good: "invite_good server1 ?a (dp_invite ?p) (srv_db server_start)"
    by (simp add: invite_good_def decoded_of_def first_input_def server_start_def codeHash_def server1_def clear_node_def)
  have ok: "re_status r = PSS_STATUS_ok"
    using put_checked_succeeds [OF _ _ seen take good, of State] pc
    by (simp add: stored_version_def st_get_def server_start_def decoded_of_def first_input_def)
  obtain s' where d: "dispatch server1 1000000 first_http server_start = Some (r, s')" and s': "same_state t s'"
    using dispatch_signed_put [OF signed, of server_start] pc by auto
  have after: "after_first = s'" by (simp add: after_first_def d)
  have row: "db_ok (srv_db s')" "st_get ?a State (srv_db s') = Some (slot_of (put_write ?a State ?p))"
    using put_accepted_row [OF db pc ok, of ?a State] s' by (simp_all add: same_state_def)
  have "srv_limiter s' = snd (rl_take 1000000 (toHexRaw ?a) (srv_limiter server_start))"
    using put_checked_ok [OF pc ok] s' by (simp add: same_state_def)
  then have lim: "srv_limiter s' = (srv_limiter server_start)\<lparr>li_buckets := [(toHexRaw ?a, \<lparr>bk_tokens = 9, bk_at = 1000000\<rparr>)]\<rparr>"
    using rl_take_eq [OF wf, of 1000000 "toHexRaw ?a"] by (simp add: tokens_at_def server_start_def)
  have "limiter_wf {toHexRaw ?a} 1000000 (srv_limiter s')" using rl_take_wf [OF wf, of 1000000 "toHexRaw ?a"] lim
    by (simp add: limiter_wf_def server_start_def)
  from rl_take_eq [OF this, of 1001000 "toHexRaw ?a"]
  have "fst (rl_take 1001000 (toHexRaw ?a) (srv_limiter s'))" by (simp add: tokens_at_def lim server_start_def)
  moreover have "srv_db s' \<noteq> srv_db server_start" using row(2) by (auto simp: server_start_def st_get_def)
  ultimately show ?thesis using d ok db row unfolding after by (simp add: PSS_STATUS_ok_def)
qed

lemma not_a_delete: "\<not> signed_delete D now first_http a d"
  by (simp add: signed_delete_def first_http_def put_http_def)

section \<open>Authority\<close>

text \<open>C25: a request changes the slots only if it is a fresh PUT or DELETE whose signature verifies, over the
  preimage of exactly that request, under a key whose hash is the account's name; and then it changes
  nothing but the one slot the PUT names, or the slots of the deleted account.\<close>

theorem only_signed_requests_change_slots:
  assumes "db_ok (srv_db s)" and "dispatch D now req s = Some (r, s')" and "srv_db s' \<noteq> srv_db s"
  shows "(\<exists>a c (p :: decoded_put) preimage. rq_method req = Some ''PUT'' \<and> nc_sha256 (de_crypto D) (dp_authPk p) = a \<and>
       putPreimage \<lparr>pi_accountId = a, pi_collection = c, pi_version = dp_version p, pi_prevVersion = dp_prevVersion p,
          pi_ciphertextDigest = nc_sha256 (de_crypto D) (dp_ciphertext p), pi_timestamp = dp_timestamp p\<rparr> = Inr preimage \<and>
       verifyEd25519 (de_crypto D) preimage (dp_sig p) (dp_authPk p) \<and>
       withinSkew (dp_timestamp p) (seconds now) (cf_timestampSkewSeconds (de_config D)) \<and>
       (\<forall>a' c'. st_get a' c' (srv_db s') = (if a' = a \<and> c' = c
          then Some \<lparr>sl_version = dp_version p, sl_prevVersion = dp_prevVersion p, sl_nonce = dp_nonce p,
                     sl_ciphertext = dp_ciphertext p\<rparr>
          else st_get a' c' (srv_db s)))) \<or>
     (\<exists>a (d :: decoded_delete) preimage. rq_method req = Some ''DELETE'' \<and> nc_sha256 (de_crypto D) (dd_authPk d) = a \<and>
       deletePreimage \<lparr>di_accountId = a, di_nonce = dd_nonce d, di_timestamp = dd_timestamp d\<rparr> = Inr preimage \<and>
       verifyEd25519 (de_crypto D) preimage (dd_sig d) (dd_authPk d) \<and>
       withinSkew (dd_timestamp d) (seconds now) (cf_timestampSkewSeconds (de_config D)) \<and>
       (\<forall>a' c'. st_get a' c' (srv_db s') = (if a' = a then None else st_get a' c' (srv_db s))))"
  using assms(2)
proof (cases rule: dispatch_cases)
  case idle
  with assms(3) show ?thesis by (simp add: same_state_def)
next
  case (put a c p)
  obtain r' t where pc: "put_checked D now a c p s = (r', t)" by (cases "put_checked D now a c p s")
  have db: "srv_db s' = srv_db t" using put(3) pc by (simp add: same_state_def)
  with assms(3) put_checked_other [OF pc] have ok: "re_status r' = PSS_STATUS_ok" by auto
  have "st_get a' c' (srv_db s') = (if a' = a \<and> c' = c then Some (slot_of (put_write a c p)) else st_get a' c' (srv_db s))" for a' c'
    using put_accepted_row [OF assms(1) pc ok] db by simp
  moreover from put(1) obtain preimage where "rq_method req = Some ''PUT''" "nc_sha256 (de_crypto D) (dp_authPk p) = a"
    "putPreimage \<lparr>pi_accountId = a, pi_collection = c, pi_version = dp_version p, pi_prevVersion = dp_prevVersion p,
          pi_ciphertextDigest = nc_sha256 (de_crypto D) (dp_ciphertext p), pi_timestamp = dp_timestamp p\<rparr> = Inr preimage"
    "verifyEd25519 (de_crypto D) preimage (dp_sig p) (dp_authPk p)"
    "withinSkew (dp_timestamp p) (seconds now) (cf_timestampSkewSeconds (de_config D))"
    unfolding signed_put_def put_authenticated_True ownsAccount_iff by blast
  ultimately show ?thesis
    by (intro disjI1 exI [of _ a] exI [of _ c] exI [of _ p] exI [of _ preimage]) (simp add: slot_of_def put_write_def)
next
  case (delete a d)
  obtain r' t where pc: "delete_checked D now a d s = (r', t)" by (cases "delete_checked D now a d s")
  have db: "srv_db s' = srv_db t" using delete(3) pc by (simp add: same_state_def)
  with assms(3) delete_checked_other [OF pc] have ok: "re_status r' = PSS_STATUS_ok" by auto
  have "st_get a' c' (srv_db s') = (if a' = a then None else st_get a' c' (srv_db s))" for a' c'
    using delete_checked_ok [OF pc ok] db by (simp add: st_delete_get)
  moreover from delete(1) obtain preimage where "rq_method req = Some ''DELETE''" "nc_sha256 (de_crypto D) (dd_authPk d) = a"
    "deletePreimage \<lparr>di_accountId = a, di_nonce = dd_nonce d, di_timestamp = dd_timestamp d\<rparr> = Inr preimage"
    "verifyEd25519 (de_crypto D) preimage (dd_sig d) (dd_authPk d)"
    "withinSkew (dd_timestamp d) (seconds now) (cf_timestampSkewSeconds (de_config D))"
    unfolding signed_delete_def delete_authenticated_True ownsAccount_iff by blast
  ultimately show ?thesis
    by (intro disjI2 exI [of _ a] exI [of _ d] exI [of _ preimage]) simp
qed

theorem only_signed_requests_change_slots_witness:
  "\<exists>a c (p :: decoded_put) preimage. nc_sha256 clear_node (dp_authPk p) = a \<and>
     verifyEd25519 clear_node preimage (dp_sig p) (dp_authPk p) \<and>
     st_get a c (srv_db after_first) = Some \<lparr>sl_version = dp_version p, sl_prevVersion = dp_prevVersion p,
       sl_nonce = dp_nonce p, sl_ciphertext = dp_ciphertext p\<rparr>"
proof -
  obtain r where "dispatch server1 1000000 first_http server_start = Some (r, after_first)"
    "db_ok (srv_db server_start)" "srv_db after_first \<noteq> srv_db server_start" using first_accepted by blast
  moreover have "rq_method first_http \<noteq> Some ''DELETE''" by (simp add: first_http_def put_http_def)
  moreover have "de_crypto server1 = clear_node" by (simp add: server1_def)
  ultimately show ?thesis
    using only_signed_requests_change_slots [of server_start server1 1000000 first_http r after_first] by metis
qed

section \<open>Versions\<close>

text \<open>C26: over any run of requests and maintenance in which no signed DELETE names the account, a stored slot
  stays stored and its version never decreases.\<close>

theorem slot_versions_never_decrease:
  assumes "db_ok (srv_db s)" and "st_get a c (srv_db s) = Some st"
    and "\<And>now req d. SvRequest now req \<in> set evs \<Longrightarrow> \<not> signed_delete D now req a d"
  shows "\<exists>st'. st_get a c (srv_db (server_run D evs s)) = Some st' \<and> sl_version st \<le> sl_version st'"
  using assms by (rule slot_versions_grow)

theorem slot_versions_never_decrease_witness:
  "\<exists>st. st_get (k_accountId server_keys) State
     (srv_db (server_run server1 [SvRequest 1002000 first_http, SvMaintenance 1003000] after_first)) = Some st"
proof -
  obtain st where "db_ok (srv_db after_first)" "st_get (k_accountId server_keys) State (srv_db after_first) = Some st"
    using first_accepted by blast
  from slot_versions_never_decrease [OF this, of "[SvRequest 1002000 first_http, SvMaintenance 1003000]" server1]
  show ?thesis using not_a_delete by auto
qed

text \<open>once a PUT was accepted, no later PUT naming the same predecessor of the same slot is, whatever
  happened in between short of a signed DELETE of the account: it is answered 409.\<close>

theorem one_successor_per_version:
  assumes "db_ok (srv_db s)" and "dispatch D now req s = Some (r, s1)" and "re_status r = 200"
    and "signed_put D now req a c p"
    and "\<And>now req d. SvRequest now req \<in> set evs \<Longrightarrow> \<not> signed_delete D now req a d"
    and "signed_put D now' req' a c p'" and "dp_prevVersion p' = dp_prevVersion p"
    and "dispatch D now' req' (server_run D evs s1) = Some (r', s2)"
  shows "re_status r' = 409 \<and> srv_db s2 = srv_db (server_run D evs s1)"
proof -
  obtain r0 t where pc: "put_checked D now a c p s = (r0, t)" by (cases "put_checked D now a c p s")
  from dispatch_signed_put [OF assms(4), of s] assms(2) pc have r: "r = r0" and db: "srv_db s1 = srv_db t"
    by (auto simp: same_state_def)
  with assms(3) have ok: "re_status r0 = PSS_STATUS_ok" by (simp add: PSS_STATUS_ok_def)
  have row: "db_ok (srv_db s1)" "st_get a c (srv_db s1) = Some (slot_of (put_write a c p))"
    using put_accepted_row [OF assms(1) pc ok, of a c] db by simp_all
  from slot_versions_grow [OF row assms(5)] obtain st where
    st: "st_get a c (srv_db (server_run D evs s1)) = Some st" "dp_version p \<le> sl_version st"
    by (auto simp: slot_of_def put_write_def)
  have "dp_prevVersion p < dp_version p" using put_checked_ok [OF pc ok] by blast
  with st assms(7) have "put_checked D now' a c p' (server_run D evs s1) = (bare (statusOf version_conflict), server_run D evs s1)"
    by (simp add: put_checked_def)
  with dispatch_signed_put [OF assms(6), of "server_run D evs s1"] assms(8) show ?thesis
    by (auto simp: same_state_def)
qed

theorem one_successor_per_version_witness:
  "\<exists>r s. dispatch server1 1000000 first_http after_first = Some (r, s) \<and> re_status r = 409"
proof -
  obtain sg where signed: "signed_put server1 1000000 first_http (k_accountId server_keys) State (decoded_of server_keys first_input sg)"
    using first_signed by blast
  obtain r where r: "dispatch server1 1000000 first_http server_start = Some (r, after_first)" "re_status r = 200"
    and db: "db_ok (srv_db server_start)" using first_accepted by blast
  obtain r' s' where d: "dispatch server1 1000000 first_http (server_run server1 [] after_first) = Some (r', s')"
    using dispatch_signed_put [OF signed, of after_first] by (auto simp: server_run_def)
  from one_successor_per_version [OF db r signed _ signed refl d] d show ?thesis by (auto simp: server_run_def)
qed

section \<open>Replays\<close>





text \<open>Nor can a PUT that was accepted, not even after the account was deleted and the version it started
  from is current again.\<close>

theorem replayed_put_refused:
  assumes "signed_put D t1 req a c p" and "dispatch D t1 req s = Some (r1, s1)" and "re_status r1 = 200"
    and "\<And>ev. ev \<in> set evs \<Longrightarrow> event_time ev \<le> t2" and "length evs < cf_maxTrackedReplays (de_config D)"
    and "dispatch D t2 req (server_run D evs s1) = Some (r2, s2)"
  shows "re_status r2 \<in> {401, 409} \<and> srv_db s2 = srv_db (server_run D evs s1)"
proof -
  let ?sg = "toHexRaw (dp_sig p)" and ?s = "server_run D evs s1"
  obtain r0 t where pc: "put_checked D t1 a c p s = (r0, t)" by (cases "put_checked D t1 a c p s")
  from dispatch_signed_put [OF assms(1), of s] assms(2) pc have
    st: "r0 = r1" "srv_replay s1 = srv_replay t" by (auto simp: same_state_def)
  have ok: "re_status r0 = PSS_STATUS_ok" using assms(3) st by (simp add: PSS_STATUS_ok_def)
  have cap: "0 < ro_capacity (replay_of D)" using assms(5) by (simp add: replay_of_def)
  have "rg_holds ?sg (seconds t1) 0 (srv_replay s1)"
    using rg.record_known [OF cap] put_checked_ok [OF pc ok] st by simp
  note known = recorded_still_known [OF this signed_put_skew [OF assms(1)] _ assms(4,5)]
  show ?thesis
  proof (cases "withinSkew (dp_timestamp p) (seconds t2) (cf_timestampSkewSeconds (de_config D))")
    case False
    from dispatch_stale_put [OF assms(1) this, of ?s] assms(6) show ?thesis by (auto simp: same_state_def)
  next
    case True
    then have "signed_put D t2 req a c p" using assms(1) by (simp add: signed_put_def put_authenticated_True)
    moreover have "fst (put_checked D t2 a c p ?s) = bare 409 \<and> srv_db (snd (put_checked D t2 a c p ?s)) = srv_db ?s"
      using known [OF True] by (cases "rg_seen (replay_of D) t2 ?sg (srv_replay ?s)") (simp add: put_checked_def Let_def)
    ultimately show ?thesis using dispatch_signed_put [of D t2 req a c p ?s] assms(6) by (auto simp: same_state_def)
  qed
qed

theorem replayed_put_refused_witness:
  "\<exists>r s. dispatch server1 1000000 first_http after_first = Some (r, s) \<and> re_status r \<in> {401, 409}"
proof -
  obtain sg where signed: "signed_put server1 1000000 first_http (k_accountId server_keys) State (decoded_of server_keys first_input sg)"
    using first_signed by blast
  obtain r where r: "dispatch server1 1000000 first_http server_start = Some (r, after_first)" "re_status r = 200"
    using first_accepted by blast
  obtain r' s' where d: "dispatch server1 1000000 first_http (server_run server1 [] after_first) = Some (r', s')"
    using dispatch_signed_put [OF signed, of after_first] by (auto simp: server_run_def)
  have "re_status r' \<in> {401, 409} \<and> srv_db s' = srv_db (server_run server1 [] after_first)"
    by (rule replayed_put_refused [OF signed r _ _ d]) (simp_all add: server1_def sample_config_def)
  with d show ?thesis by (auto simp: server_run_def)
qed

section \<open>Invites\<close>

definition account_rows :: "database \<Rightarrow> bytes set" where
  "account_rows db = fst ` fst ` set (db_slots db)"

text \<open>How many accounts the steps of a run bring into being.\<close>

fun accounts_created :: "server_deps \<Rightarrow> server_event list \<Rightarrow> server_state \<Rightarrow> nat" where
  "accounts_created D [] s = 0"
| "accounts_created D (ev # evs) s =
     card (account_rows (srv_db (server_step D ev s)) - account_rows (srv_db s)) +
     accounts_created D evs (server_step D ev s)"

lemma account_rows_iff: "a \<in> account_rows db \<longleftrightarrow> hasAccountRow a db"
  unfolding account_rows_def hasAccountRow_def list_ex_iff by force

lemma step_creates:
  assumes "db_ok db"
  shows "card (account_rows (sqlite.s_step N op1 db) - account_rows db) = creates N op1 db"
proof -
  have rows: "account_rows db' = {a. \<exists>c. st_get a c db' \<noteq> None}" for db'
    using account_rows_iff hasAccountRow_get by blast
  show ?thesis
  proof (cases op1)
    case (SDelete a)
    have "account_rows (sqlite.s_step N op1 db) \<subseteq> account_rows db"
      by (auto simp: rows SDelete sqlite.s_step_def st_delete_get)
    then show ?thesis by (simp add: SDelete creates_def Diff_eq_empty_iff [THEN iffD2])
  next
    case (SUpsert w g)
    have "account_rows (sqlite.s_step N op1 db) =
        (if fst (st_upsert N w g db) = written then insert (sw_accountId w) (account_rows db) else account_rows db)"
      by (auto simp: rows SUpsert sqlite.s_step_def sqlite.upsert_get [OF assms])
    then show ?thesis by (simp add: SUpsert creates_def account_rows_iff insert_Diff_if)
  qed
qed

text \<open>C28: with the invite gate on, every account a run brings into being spends exactly one unspent invite, and
  nothing else spends one; so an invite code admits one account once.\<close>

theorem accounts_spend_invites:
  assumes "db_ok (srv_db s)" and "cf_inviteRequired (de_config D)"
  shows "accounts_created D evs s + unspent (srv_db (server_run D evs s)) = unspent (srv_db s)"
  using assms(1)
proof (induction evs arbitrary: s)
  case Nil
  show ?case by (simp add: server_run_def)
next
  case (Cons ev evs)
  obtain ops where ops: "srv_db (server_step D ev s) = fold (sqlite.s_step (de_crypto D)) ops (srv_db s)"
    "list_all (asked_by D ev) ops" "length ops \<le> 1" using server_step_store by blast
  have g: "gated op1" if "asked_by D ev op1" for op1
    using that assms(2) by (cases ev; cases op1) (auto simp: gated_def inviteGate_def)
  have step: "card (account_rows (srv_db (server_step D ev s)) - account_rows (srv_db s)) +
      unspent (srv_db (server_step D ev s)) = unspent (srv_db s)"
  proof (cases ops)
    case Nil
    with ops(1) show ?thesis by simp
  next
    case (Cons op1 rest)
    with ops(3) have "ops = [op1]" by simp
    with ops(1,2) g step_creates [OF Cons.prems] step_unspent [OF Cons.prems] show ?thesis by simp
  qed
  have "db_ok (srv_db (server_step D ev s))" unfolding ops(1) by (rule sqlite.ok_run [OF Cons.prems])
  from Cons.IH [OF this] step show ?case by (simp add: server_run_def)
qed

theorem accounts_spend_invites_witness:
  "accounts_created server1 [SvRequest 1000000 first_http] server_start +
     unspent (srv_db (server_run server1 [SvRequest 1000000 first_http] server_start)) = 1"
  using accounts_spend_invites [of server_start server1 "[SvRequest 1000000 first_http]"]
  by (simp add: db_ok_def unspent_def server_start_def server1_def sample_config_def)

section \<open>The client at the server\<close>

text \<open>C5: a write the client builds with its keys, sent as the transport sends it and cut into any chunks, is
  accepted by a server that has the predecessor it names (when it is fresh, not a replay, within the rate
  and, for a new account, invited); a GET then returns exactly the uploaded cell at the new version, in a
  body the client's parser accepts.\<close>

theorem client_write_is_served:
  assumes "db_ok (srv_db s)" and "node_agrees (de_crypto D) B" and "sign_ok B" and "keys_ok B keys"
    and "buildPutRequest B keys i = Inr body" and "invite_wf (pq_invite i)"
    and "cf_maxCiphertextBytes (de_config D) = MAX_CIPHERTEXT_BYTES" and "cf_bodyHeadroomBytes (de_config D) = BODY_HEADROOM_BYTES"
    and "withinSkew (pq_timestamp i) (seconds now) (cf_timestampSkewSeconds (de_config D))"
    and "concat parts = utf8 (json_stringify (put_request_json body))"
    and "stored_version (k_accountId keys) (pq_collection i) (srv_db s) = pq_prevVersion i"
    and "\<And>sg. pr_sig body = toBase64 sg \<Longrightarrow> \<not> fst (rg_seen (replay_of D) now (toHexRaw sg) (srv_replay s))"
    and "fst (rl_take now (toHexRaw (k_accountId keys)) (srv_limiter s))"
    and "invite_good D (k_accountId keys) (pq_invite i) (srv_db s)"
    and "is_count (seconds now')"
  shows "\<exists>r s' b s''. dispatch D now (put_http (k_accountId keys) (pq_collection i) body parts) s = Some (r, s') \<and>
     re_status r = 200 \<and>
     dispatch D now' (get_http (k_accountId keys) (pq_collection i)) s' =
       Some (\<lparr>re_status = 200, re_body = Some b, re_allow = None\<rparr>, s'') \<and>
     parseGetBlobResponse (get_response_json b) = Inr b \<and>
     gr_version b = pr_version body \<and> gr_nonce b = pr_nonce body \<and> gr_ciphertext b = pr_ciphertext body"
proof -
  let ?a = "k_accountId keys" and ?c = "pq_collection i"
  obtain sg where sg: "pr_sig body = toBase64 sg"
    and signed: "signed_put D now (put_http ?a ?c body parts) ?a ?c (decoded_of keys i sg)"
    using built_request [OF assms(2-10)] by blast
  let ?p = "decoded_of keys i sg"
  have built: "pq_prevVersion i < pq_version i" "length (pq_nonce i) = 12" "pq_ciphertext i \<noteq> []"
    "length (pq_ciphertext i) \<le> MAX_CIPHERTEXT_BYTES" "pr_version body = pq_version i"
    "pr_nonce body = toBase64 (pq_nonce i)" "pr_ciphertext body = toBase64 (pq_ciphertext i)"
    "is_count (pq_version i)" "is_count (pq_prevVersion i)"
    using assms(5) by (auto simp: buildPutRequest_Inr putPreimage_Inr u64be_Inr)
  obtain r t where pc: "put_checked D now ?a ?c ?p s = (r, t)" by (cases "put_checked D now ?a ?c ?p s")
  have ok: "re_status r = PSS_STATUS_ok"
    using put_checked_succeeds [of ?a ?c s ?p D now] assms(11-14) sg built(1) pc by (simp add: decoded_of_def)
  obtain s' where put: "dispatch D now (put_http ?a ?c body parts) s = Some (r, s')" and st: "srv_db s' = srv_db t"
    using dispatch_signed_put [OF signed, of s] pc by (auto simp: same_state_def)
  have row: "st_get ?a ?c (srv_db s') = Some (slot_of (put_write ?a ?c ?p))"
    using put_accepted_row [OF assms(1) pc ok, of ?a ?c] st by simp
  let ?v = "\<lparr>sv_version = pq_version i, sv_prevVersion = pq_prevVersion i, sv_nonce = pq_nonce i,
      sv_ciphertext = pq_ciphertext i, sv_serverTime = seconds now'\<rparr>"
  have "slot_view_wf ?v" using built assms(15) by (simp add: slot_view_wf_def GCM_NONCE_BYTES_def)
  note parsed = parseGetBlobResponse_encode [OF this]
  have "length ?a = ACCOUNT_ID_BYTES" using assms(4) unfolding keys_ok_def ACCOUNT_ID_BYTES_def by blast
  from parseRoute_blobPath [OF this] row obtain s'' where
    "dispatch D now' (get_http ?a ?c) s' =
       Some (\<lparr>re_status = 200, re_body = Some (encodeGetBlobResponse ?v), re_allow = None\<rparr>, s'')"
    by (auto simp: dispatch_def Let_def get_http_def handleGet_def slot_of_def put_write_def decoded_of_def PSS_STATUS_ok_def)
  with put ok parsed built show ?thesis
    by (intro exI [of _ r] exI [of _ s'] exI [of _ "encodeGetBlobResponse ?v"] exI [of _ s''])
      (simp add: PSS_STATUS_ok_def encodeGetBlobResponse_def)
qed

theorem client_write_is_served_witness:
  "\<exists>s' b s''. dispatch server1 2000000 (get_http (k_accountId server_keys) State) s' =
       Some (\<lparr>re_status = 200, re_body = Some b, re_allow = None\<rparr>, s'') \<and> gr_version b = 1"
proof -
  let ?parts = "[utf8 (json_stringify (put_request_json first_body))]"
  have wf: "limiter_wf {toHexRaw (k_accountId server_keys)} 0 (srv_limiter server_start)"
    by (simp add: limiter_wf_def server_start_def)
  have take: "fst (rl_take 1000000 (toHexRaw (k_accountId server_keys)) (srv_limiter server_start))"
    using rl_take_eq [OF wf, of 1000000 "toHexRaw (k_accountId server_keys)"] by (simp add: tokens_at_def server_start_def)
  have good: "invite_good server1 (k_accountId server_keys) (pq_invite first_input) (srv_db server_start)"
    by (simp add: invite_good_def first_input_def server_start_def codeHash_def server1_def clear_node_def)
  have "pr_version b = pq_version i" if "buildPutRequest B k i = Inr b" for B k i b
    using that by (auto simp: buildPutRequest_Inr)
  from this [OF first_built] have "pr_version first_body = 1" by (simp add: first_input_def)
  moreover have "\<exists>r s' b s''. dispatch server1 1000000 (put_http (k_accountId server_keys) (pq_collection first_input) first_body ?parts) server_start = Some (r, s') \<and>
     re_status r = 200 \<and>
     dispatch server1 2000000 (get_http (k_accountId server_keys) (pq_collection first_input)) s' =
       Some (\<lparr>re_status = 200, re_body = Some b, re_allow = None\<rparr>, s'') \<and>
     parseGetBlobResponse (get_response_json b) = Inr b \<and>
     gr_version b = pr_version first_body \<and> gr_nonce b = pr_nonce first_body \<and> gr_ciphertext b = pr_ciphertext first_body"
    by (rule client_write_is_served [OF _ _ clear_backend_laws(3) server_keys_ok first_built _ _ _ _ _ _ _ take good])
      (simp_all add: server1_def sample_config_def clear_node_agrees server_start_def db_ok_def first_input_def invite_wf_def
        INVITE_CODE_MAX_CHARS_def INVITE_SHAPE_def BODY_HEADROOM_BYTES_def withinSkew_def seconds_def stored_version_def
        st_get_def rg_seen_def is_count_def isSafeInteger_def MAX_SAFE_INTEGER_def)
  ultimately show ?thesis by (auto simp: first_input_def)
qed

section \<open>Bounds\<close>



text \<open>whatever is sent to a started server, its two in-process maps never hold more entries than the
  configuration allows.\<close>

theorem server_memory_bounded:
  assumes "startServer D db = Inr s"
  shows "rg_size (srv_replay (server_run D evs s)) \<le> cf_maxTrackedReplays (de_config D) \<and>
     rl_size (srv_limiter (server_run D evs s)) \<le> cf_maxTrackedAccounts (de_config D)"
proof -
  let ?ok = "\<lambda>s. rg_size (srv_replay s) \<le> ro_capacity (replay_of D) \<and> rl_size (srv_limiter s) \<le> li_capacity (srv_limiter s) \<and>
     li_capacity (srv_limiter s) = cf_maxTrackedAccounts (de_config D)"
  have step: "?ok (server_step D ev s)" if ok: "?ok s" for s ev
  proof -
    obtain ops where ops: "srv_limiter (server_step D ev s) = fold rl_step ops (srv_limiter s)"
      using server_step_limiter by blast
    have cap: "li_capacity (fold rl_step os l) = li_capacity l" for os l by (induction os arbitrary: l) simp_all
    obtain os where os: "srv_replay (server_step D ev s) = fold (rg.g_step (replay_of D)) os (srv_replay s)"
      using server_step_replay by blast
    show ?thesis
      using rl_bound.run_bounded [of "srv_limiter s" ops] rg_bound.run_bounded [of "srv_replay s" "replay_of D" os] ok
      by (simp add: ops os cap)
  qed
  have "?ok (server_run D evs s)" if "?ok s" for s
    using that unfolding server_run_def
  proof (induction evs arbitrary: s)
    case Nil
    then show ?case by simp
  next
    case (Cons ev evs)
    from Cons.IH [OF step [OF Cons.prems, of ev]] show ?case unfolding fold_simps by blast
  qed
  moreover have "?ok s"
    using assms by (auto simp: startServer_def createRateLimiter_def rg_size_def rl_size_def split: if_splits)
  ultimately have "?ok (server_run D evs s)" by blast
  then show ?thesis by (simp add: replay_of_def)
qed

theorem server_memory_bounded_witness:
  "rg_size (srv_replay (server_run server1 [SvRequest 1000000 first_http, SvMaintenance 2000000] server_start)) \<le> 100000"
  using server_memory_bounded [of server1 "srv_db server_start" server_start "[SvRequest 1000000 first_http, SvMaintenance 2000000]"]
  by (simp add: startServer_def createRateLimiter_def MS_PER_HOUR_def server_start_def server1_def sample_config_def)

section \<open>Answers\<close>

text \<open>C39: every request whose body stream ends, fails or is aborted is answered, with one of eight statuses; no
  input makes the handler fail with an internal error.\<close>

theorem every_request_answered:
  assumes "ev \<in> set (rq_events req)" and "ev \<in> {EvEnd, EvError, EvAborted}"
  shows "\<exists>r s'. dispatch D now req s = Some (r, s') \<and> re_status r \<in> {200, 400, 401, 404, 405, 409, 413, 429}"
proof (cases "parseRoute (case rq_url req of None \<Rightarrow> '''' | Some u \<Rightarrow> u)")
  case (Inl e)
  with protocol_only_parsers(3) [of "case rq_url req of None \<Rightarrow> '''' | Some u \<Rightarrow> u"] obtain m where "e = PssProtocolError m"
    by (auto simp: protocol_only_def)
  with Inl show ?thesis by (simp add: dispatch_def reply_to_error_def)
next
  case (Inr target)
  have settled: "(readBody (rq_contentLength req) (rq_events req) cap = None) = False" for cap
    using readBody_settles [OF assms] by blast
  have "route_request D now req target s \<noteq> None"
    by (cases target) (auto simp: handlePut_def handleDelete_def settled split: option.split)
  then obtain r s' where rr: "route_request D now req target s = Some (r, s')" by auto
  note ok = route_request_status [OF rr]
  show ?thesis
  proof (cases r)
    case (Inl e)
    with ok obtain m where "e = PssProtocolError m" by (auto simp: answer_ok_def)
    with Inl Inr rr show ?thesis by (simp add: dispatch_def reply_to_error_def)
  next
    case (Inr rep)
    with ok have "re_status rep \<in> {200, 400, 401, 404, 405, 409, 413, 429}" by (simp add: answer_ok_def reply_statuses_def)
    with \<open>parseRoute _ = _\<close> Inr rr show ?thesis by (simp add: dispatch_def)
  qed
qed

theorem every_request_answered_witness:
  "\<exists>r s'. dispatch server1 0 \<lparr>rq_method = Some ''PUT'', rq_url = Some ''/v1/blob/x/y'', rq_contentLength = None,
       rq_events = [EvData [1, 2], EvAborted]\<rparr> server_start = Some (r, s') \<and>
     re_status r \<in> {200, 400, 401, 404, 405, 409, 413, 429}"
  by (rule every_request_answered [of EvAborted]) simp_all

text \<open>What a DELETE is answered does not depend on the stored accounts: whether the account exists, or ever
  existed, cannot be read off the reply.\<close>

theorem delete_hides_existence:
  "map_option fst (dispatch D now (req\<lparr>rq_method := Some ''DELETE''\<rparr>) (s\<lparr>srv_db := db\<rparr>)) =
   map_option fst (dispatch D now (req\<lparr>rq_method := Some ''DELETE''\<rparr>) s)"
proof -
  have checked: "fst (delete_checked D now a d (s\<lparr>srv_db := db\<rparr>)) = fst (delete_checked D now a d s)" for a d
    by (simp add: delete_checked_def Let_def split: prod.split)
  have after: "fst (delete_after_body D now a read (s\<lparr>srv_db := db\<rparr>)) = fst (delete_after_body D now a read s)" for a read
    unfolding delete_after_body_def using checked
    by (auto split: body_read.split sum.split bool.split prod.split) (metis fst_conv)+
  have same: "map_option fst (route_request D now (req\<lparr>rq_method := Some ''DELETE''\<rparr>) target (s\<lparr>srv_db := db\<rparr>)) =
      map_option fst (route_request D now (req\<lparr>rq_method := Some ''DELETE''\<rparr>) target s)" for target
    using after by (cases target) (simp_all add: handleDelete_def split: option.split)
  have lift: "map_option fst (dispatch D now req' t) =
      (case parseRoute (case rq_url req' of None \<Rightarrow> '''' | Some u \<Rightarrow> u) of Inl e \<Rightarrow> Some (reply_to_error e)
       | Inr target \<Rightarrow> map_option (\<lambda>r. case r of Inl e \<Rightarrow> reply_to_error e | Inr rep \<Rightarrow> rep)
           (map_option fst (route_request D now req' target t)))" for req' t
    by (auto simp: dispatch_def Let_def split: sum.split option.split)
  show ?thesis unfolding lift same by (rule refl)
qed

end
