(* ===== verification/Spend_Plan.thy ===== *)
theory Spend_Plan
  imports Json_Text "HOL-Library.Multiset" "HOL-Library.Product_Lexorder"
begin

text \<open>
  The transaction planner of the wallet, \<^verbatim>\<open>src/packages/wallets/src/tx/plan.ts\<close>: the notes of one asset
  are sorted by value, the smallest note that covers the target is taken when there is one, and otherwise
  the fewest notes that can cover it are joined before the spend, because every circuit has a fixed arity.

  \<^verbatim>\<open>bigint\<close> values are \<^typ>\<open>int\<close>; a leaf index is an \<^typ>\<open>int\<close> because the planner uses \<open>-1\<close> for the output of
  the previous step. \<open>exec_plan\<close> is not code: it is the meaning of a plan on a pool of notes, which the
  lemmas compare the planner with.
\<close>

section \<open>Data\<close>

record PlannableNote =
  leafIndex :: int
  assetId :: string
  val :: int

datatype PlanOp = JOIN | WITHDRAW | TRANSFER | SPLIT

record PlanStep =
  op :: PlanOp
  inputs :: "int list"
  outgoing :: int
  change :: int

record ActionPlan =
  steps :: "PlanStep list"
  joinsRequired :: nat
  totalSelected :: int

record PlanPolicy =
  dustFloor :: int
  maxSteps :: int

definition DEFAULT_PLAN_POLICY :: PlanPolicy where
  "DEFAULT_PLAN_POLICY = \<lparr>dustFloor = 0, maxSteps = 8\<rparr>"

datatype PlanFailureReason = NO_NOTES_FOR_ASSET | INSUFFICIENT_TOTAL | EXCEEDS_MAX_STEPS | NON_POSITIVE_TARGET

datatype PlanError = PlanError PlanFailureReason "(string \<times> string) list"

text \<open>The intent of a spend; \<^verbatim>\<open>op\<close> is \<^verbatim>\<open>WITHDRAW\<close> or \<^verbatim>\<open>TRANSFER\<close>.\<close>

record SpendIntent =
  intent_op :: PlanOp
  intent_asset :: string
  target :: int

section \<open>Operations\<close>

text \<open>\<^verbatim>\<open>Array.prototype.sort\<close> is stable, and the comparator orders by value and then by leaf index.\<close>

definition forAsset :: "PlannableNote list \<Rightarrow> string \<Rightarrow> PlannableNote list" where
  "forAsset ns asset =
     sort_key (\<lambda>n. (val n, leafIndex n)) (filter (\<lambda>n. assetId n = asset \<and> val n > 0) ns)"

definition joinStep :: "PlannableNote \<Rightarrow> PlannableNote \<Rightarrow> PlanStep" where
  "joinStep a b = (let (lo, hi) = (if leafIndex a < leafIndex b then (a, b) else (b, a)) in
     \<lparr>op = JOIN, inputs = [leafIndex lo, leafIndex hi], outgoing = 0, change = val lo + val hi\<rparr>)"

text \<open>The loop of \<^verbatim>\<open>bestFit\<close>; \<open>dusty\<close> is the first covering note whose change would be dust.\<close>

fun bestFit_loop :: "int \<Rightarrow> PlanPolicy \<Rightarrow> PlannableNote option \<Rightarrow> PlannableNote list \<Rightarrow> PlannableNote option" where
  "bestFit_loop t policy dusty [] = dusty"
| "bestFit_loop t policy dusty (n # ns) =
     (if val n < t then bestFit_loop t policy dusty ns
      else let c = val n - t in
        if c > 0 \<and> c < dustFloor policy
        then bestFit_loop t policy (case dusty of None \<Rightarrow> Some n | Some d \<Rightarrow> Some d) ns
        else Some n)"

definition bestFit :: "PlannableNote list \<Rightarrow> int \<Rightarrow> PlanPolicy \<Rightarrow> PlannableNote option" where
  "bestFit ns t policy = bestFit_loop t policy None ns"

definition total_value :: "PlannableNote list \<Rightarrow> int" where
  "total_value ns = foldl (\<lambda>acc n. acc + val n) 0 ns"

text \<open>The \<^verbatim>\<open>while\<close> loop of \<^verbatim>\<open>minimalCover\<close>, on the notes not yet counted.\<close>

fun cover_count :: "int \<Rightarrow> nat \<Rightarrow> int \<Rightarrow> PlannableNote list \<Rightarrow> nat \<times> int" where
  "cover_count t k s [] = (k, s)"
| "cover_count t k s (n # ns) = (if s < t then cover_count t (k + 1) (s + val n) ns else (k, s))"

text \<open>One turn of its \<^verbatim>\<open>for\<close> loop over the windows; the state is \<^verbatim>\<open>best\<close> with \<^verbatim>\<open>bestSum\<close>.\<close>

definition window_step ::
  "PlannableNote list \<Rightarrow> int \<Rightarrow> nat \<Rightarrow> nat \<Rightarrow> (PlannableNote list \<times> int) option \<Rightarrow> (PlannableNote list \<times> int) option"
where
  "window_step ns t k start best = (let w = take k (drop start ns); wsum = total_value w in
     if wsum \<ge> t \<and> (case best of None \<Rightarrow> True | Some (_, bestSum) \<Rightarrow> wsum < bestSum)
     then Some (w, wsum) else best)"

definition minimalCover :: "PlannableNote list \<Rightarrow> int \<Rightarrow> PlannableNote list option" where
  "minimalCover ns t = (let desc = rev ns; (k, s) = cover_count t 0 0 desc in
     if s < t then None
     else case fold (window_step ns t k) [0..<length ns + 1 - k] None of
       Some (w, _) \<Rightarrow> Some w
     | None \<Rightarrow> Some (take k desc))"

text \<open>The joins of a plan, folding left; the merged note is a new leaf, referred to as \<open>-1\<close>.\<close>

fun join_all :: "string \<Rightarrow> PlannableNote \<Rightarrow> PlannableNote list \<Rightarrow> PlanStep list \<times> PlannableNote" where
  "join_all asset merged [] = ([], merged)"
| "join_all asset merged (n # ns) = (let st = joinStep merged n;
     (rest, last) = join_all asset \<lparr>leafIndex = -1, assetId = asset, val = change st\<rparr> ns in
     (st # rest, last))"

definition single_plan :: "SpendIntent \<Rightarrow> PlannableNote \<Rightarrow> ActionPlan" where
  "single_plan intent n =
     \<lparr>steps = [\<lparr>op = intent_op intent, inputs = [leafIndex n], outgoing = target intent,
                change = val n - target intent\<rparr>],
      joinsRequired = 0, totalSelected = val n\<rparr>"

definition joined_plan :: "SpendIntent \<Rightarrow> PlannableNote list \<Rightarrow> ActionPlan" where
  "joined_plan intent cover =
     (let ordered = sort_key leafIndex cover;
          (joins, merged) = join_all (intent_asset intent) (hd ordered) (tl ordered);
          total = total_value cover in
      \<lparr>steps = joins @ [\<lparr>op = intent_op intent, inputs = [leafIndex merged], outgoing = target intent,
                         change = total - target intent\<rparr>],
       joinsRequired = length cover - 1, totalSelected = total\<rparr>)"

definition planSpend :: "PlannableNote list \<Rightarrow> SpendIntent \<Rightarrow> PlanPolicy \<Rightarrow> PlanError + ActionPlan" where
  "planSpend ns intent policy =
     (if target intent \<le> 0
      then Inl (PlanError NON_POSITIVE_TARGET [(''target'', int_to_string (target intent))])
      else let candidates = forAsset ns (intent_asset intent) in
        if candidates = [] then Inl (PlanError NO_NOTES_FOR_ASSET [(''assetId'', intent_asset intent)])
        else case bestFit candidates (target intent) policy of
          Some single \<Rightarrow> Inr (single_plan intent single)
        | None \<Rightarrow> (case minimalCover candidates (target intent) of
            None \<Rightarrow> Inl (PlanError INSUFFICIENT_TOTAL
              [(''held'', int_to_string (total_value candidates)), (''needed'', int_to_string (target intent))])
          | Some cover \<Rightarrow> (let plan = joined_plan intent cover in
              if int (length (steps plan)) > maxSteps policy
              then Inl (PlanError EXCEEDS_MAX_STEPS
                [(''steps'', nat_to_string (length (steps plan))), (''limit'', int_to_string (maxSteps policy))])
              else Inr plan)))"

record SpendableBalance =
  total :: int
  inOneTx :: int
  withPlan :: int

definition spendableBalance :: "PlannableNote list \<Rightarrow> string \<Rightarrow> PlanPolicy \<Rightarrow> SpendableBalance" where
  "spendableBalance ns asset policy = (let candidates = forAsset ns asset in
     \<lparr>total = total_value candidates,
      inOneTx = foldl (\<lambda>a n. if val n > a then val n else a) 0 candidates,
      withPlan = total_value (take (nat (max 1 (maxSteps policy))) (rev candidates))\<rparr>)"

section \<open>The meaning of a plan\<close>

text \<open>Taking one input of a step: \<open>-1\<close> takes the previous step's output, any other index takes the
  note of the pool at that leaf. What is taken is gone.\<close>

fun take_input :: "int \<Rightarrow> (int \<rightharpoonup> int) \<times> int option \<Rightarrow> (int \<times> (int \<rightharpoonup> int) \<times> int option) option" where
  "take_input i (pool, prev) =
     (if i = -1 then map_option (\<lambda>v. (v, pool, None)) prev
      else map_option (\<lambda>v. (v, pool(i := None), prev)) (pool i))"

fun take_inputs :: "int list \<Rightarrow> (int \<rightharpoonup> int) \<times> int option \<Rightarrow> (int \<times> (int \<rightharpoonup> int) \<times> int option) option" where
  "take_inputs [] st = Some (0, st)"
| "take_inputs (i # is) st = Option.bind (take_input i st) (\<lambda>(v, st').
     map_option (\<lambda>(w, st''). (v + w, st'')) (take_inputs is st'))"

text \<open>The circuits: a join consumes two notes and pays nothing out, a spend consumes one, and what goes
  in is what goes out.\<close>

definition step_legal :: "PlanStep \<Rightarrow> int \<Rightarrow> bool" where
  "step_legal st v \<longleftrightarrow> v = outgoing st + change st \<and> 0 \<le> change st \<and>
     (case op st of JOIN \<Rightarrow> length (inputs st) = 2 \<and> outgoing st = 0
                  | SPLIT \<Rightarrow> length (inputs st) = 1 \<and> outgoing st = 0
                  | _ \<Rightarrow> length (inputs st) = 1 \<and> 0 < outgoing st)"

text \<open>The result is the pool left, what the steps paid out and the note the last step returned.\<close>

fun exec_plan :: "PlanStep list \<Rightarrow> (int \<rightharpoonup> int) \<times> int option \<Rightarrow> int \<Rightarrow> ((int \<rightharpoonup> int) \<times> int \<times> int option) option" where
  "exec_plan [] (pool, prev) paid = Some (pool, paid, prev)"
| "exec_plan (st # sts) (pool, prev) paid =
     Option.bind (take_inputs (inputs st) (pool, prev)) (\<lambda>(v, pool', prev').
       if step_legal st v \<and> prev' = None
       then exec_plan sts (pool', Some (change st)) (paid + outgoing st) else None)"

definition pool_of :: "PlannableNote list \<Rightarrow> string \<Rightarrow> int \<rightharpoonup> int" where
  "pool_of ns asset = map_of (map (\<lambda>n. (leafIndex n, val n)) (filter (\<lambda>n. assetId n = asset) ns))"

definition without :: "(int \<rightharpoonup> int) \<Rightarrow> int set \<Rightarrow> int \<rightharpoonup> int" where
  "without pool spent = (\<lambda>i. if i \<in> spent then None else pool i)"

section \<open>Lemmas\<close>

lemma total_value_sum: "total_value ns = sum_list (map val ns)"
proof -
  have "foldl (\<lambda>acc n. acc + val n) a ns = a + sum_list (map val ns)" for a
    by (induction ns arbitrary: a) auto
  then show ?thesis by (simp add: total_value_def)
qed

lemma set_forAsset: "set (forAsset ns asset) = {n \<in> set ns. assetId n = asset \<and> val n > 0}"
  by (auto simp: forAsset_def)

lemma forAsset_sorted: "sorted (map val (forAsset ns asset))"
proof -
  have "sorted_wrt (\<lambda>x y. (val x, leafIndex x) \<le> (val y, leafIndex y)) (forAsset ns asset)"
    using sorted_sort_key[of "\<lambda>n. (val n, leafIndex n)" "filter (\<lambda>n. assetId n = asset \<and> val n > 0) ns"]
    by (simp add: forAsset_def sorted_wrt_map)
  then have "sorted_wrt (\<lambda>x y. val x \<le> val y) (forAsset ns asset)"
    by (rule sorted_wrt_mono_rel[rotated]) (auto simp: less_eq_prod_def)
  then show ?thesis by (simp add: sorted_wrt_map)
qed

lemma distinct_forAsset: "distinct (map leafIndex ns) \<Longrightarrow> distinct (map leafIndex (forAsset ns asset))"
proof -
  assume d: "distinct (map leafIndex ns)"
  have "distinct (map leafIndex (filter P ns))" for P
    using d by (induction ns) auto
  moreover have "mset (map leafIndex (sort_key f xs)) = mset (map leafIndex xs)" for f :: "PlannableNote \<Rightarrow> int \<times> int" and xs
    by simp
  ultimately show ?thesis unfolding forAsset_def using mset_eq_imp_distinct_iff by blast
qed

subsection \<open>Sums of the largest notes\<close>

lemma sum_subset_le_take:
  assumes "sorted_wrt (\<lambda>x y. f y \<le> f x) xs" "\<And>x. x \<in> set xs \<Longrightarrow> 0 \<le> f x"
    and "M \<subseteq># mset xs" "size M \<le> j"
  shows "(\<Sum>x\<in>#M. f x) \<le> (sum_list (map f (take j xs)) :: int)"
  using assms
proof (induction xs arbitrary: M j)
  case Nil
  then show ?case by simp
next
  case (Cons x xs)
  show ?case
  proof (cases "M = {#}")
    case True
    have "0 \<le> sum_list (map f (take j (x # xs)))"
      by (rule sum_list_nonneg) (use Cons.prems(2) in \<open>auto dest: in_set_takeD\<close>)
    then show ?thesis by (simp add: True)
  next
    case False
    then have j: "j = Suc (j - 1)"
      using Cons.prems(4) by (cases j) auto
    obtain y N where y: "M = add_mset y N" "f y \<le> f x" "N \<subseteq># mset xs"
    proof (cases "x \<in># M")
      case True
      then obtain N where "M = add_mset x N" by (metis multi_member_split)
      with Cons.prems(3) that show ?thesis by simp
    next
      case nx: False
      from False obtain y N where yN: "M = add_mset y N" by (cases M) auto
      have "M \<subseteq># mset xs"
        using Cons.prems(3) nx subset_eq_diff_conv[of M "{#x#}" "mset xs"] by simp
      then have "y \<in> set xs" "N \<subseteq># mset xs"
        using yN by (auto simp: insert_subset_eq_iff dest: subset_mset.order_trans[OF _ diff_subset_eq_self])
      with Cons.prems(1) yN that show ?thesis by simp
    qed
    have "(\<Sum>x\<in>#N. f x) \<le> sum_list (map f (take (j - 1) xs))"
      using Cons.prems y by (intro Cons.IH) (auto simp: size_add_mset)
    with y(1,2) show ?thesis by (subst j) simp
  qed
qed

lemma cover_count_spec:
  assumes "cover_count t k s ns = (k', s')"
  shows "\<exists>j \<le> length ns. k' = k + j \<and> s' = s + sum_list (map val (take j ns)) \<and>
    (\<forall>i<j. s + sum_list (map val (take i ns)) < t) \<and> (t \<le> s' \<or> j = length ns)"
  using assms
proof (induction ns arbitrary: k s)
  case Nil
  then show ?case by auto
next
  case (Cons n ns)
  show ?case
  proof (cases "s < t")
    case True
    with Cons.prems have "cover_count t (k + 1) (s + val n) ns = (k', s')" by simp
    from Cons.IH[OF this] obtain j where j: "j \<le> length ns" "k' = k + 1 + j"
      "s' = s + val n + sum_list (map val (take j ns))"
      "\<forall>i<j. s + val n + sum_list (map val (take i ns)) < t" "t \<le> s' \<or> j = length ns" by auto
    have "s + sum_list (map val (take i (n # ns))) < t" if "i < Suc j" for i
      using that True j(4) by (cases i) (auto simp: add.assoc)
    with j show ?thesis by (intro exI[of _ "Suc j"]) auto
  qed (use Cons.prems in auto)
qed

lemma window_step_cases:
  "window_step ns t k i best = best \<and> (best = None \<longrightarrow> total_value (take k (drop i ns)) < t) \<or>
   window_step ns t k i best = Some (take k (drop i ns), total_value (take k (drop i ns))) \<and>
     t \<le> total_value (take k (drop i ns))"
  by (auto simp: window_step_def Let_def split: option.splits)

lemma window_fold_spec:
  assumes "fold (window_step ns t k) is None = r"
  shows "case r of None \<Rightarrow> \<forall>i\<in>set is. total_value (take k (drop i ns)) < t
    | Some (w, s) \<Rightarrow> \<exists>i\<in>set is. w = take k (drop i ns) \<and> s = total_value w \<and> t \<le> s"
  using assms
proof (induction "is" arbitrary: r rule: rev_induct)
  case (snoc i "is")
  have r: "r = window_step ns t k i (fold (window_step ns t k) is None)"
    using snoc.prems by simp
  show ?case
    using snoc.IH[OF refl] window_step_cases[of ns t k i "fold (window_step ns t k) is None"]
    unfolding r[symmetric] by (cases r) (auto simp: less_Suc_eq split: option.splits)
qed auto

text \<open>What \<^verbatim>\<open>minimalCover\<close> returns: as many notes as the shortest prefix of the largest ones that
  reaches the target, taken from the candidates, reaching it too.\<close>

lemma minimalCover_Some:
  assumes "minimalCover ns t = Some cover"
  obtains start where "cover = take (length cover) (drop start ns)" "start + length cover \<le> length ns"
    "t \<le> total_value cover"
    "\<And>i. i < length cover \<Longrightarrow> sum_list (map val (take i (rev ns))) < t"
proof -
  obtain k s where ks: "cover_count t 0 0 (rev ns) = (k, s)" by fastforce
  from cover_count_spec[OF this] have k: "k \<le> length ns" "s = sum_list (map val (take k (rev ns)))"
    "\<forall>i<k. sum_list (map val (take i (rev ns))) < t" by auto
  have s: "t \<le> s" using assms ks by (auto simp: minimalCover_def Let_def split: if_splits)
  have last: "total_value (take k (drop (length ns - k) ns)) = s"
    using k by (simp add: total_value_sum take_rev rev_map sum_list_rev flip: rev_map)
  let ?r = "fold (window_step ns t k) [0..<length ns + 1 - k] None"
  have "length ns - k \<in> set [0..<length ns + 1 - k]" using k(1) by auto
  then obtain w ws where w: "?r = Some (w, ws)"
    using window_fold_spec[of ns t k "[0..<length ns + 1 - k]" ?r] last s by (cases ?r) force+
  then have "cover = w" using assms ks s by (simp add: minimalCover_def Let_def)
  moreover from w window_fold_spec[of ns t k "[0..<length ns + 1 - k]" ?r]
  obtain i where "i < length ns + 1 - k" "w = take k (drop i ns)" "t \<le> total_value w" by auto
  ultimately show ?thesis using that[of i] k by auto
qed

lemma minimalCover_None:
  assumes "\<And>n. n \<in> set ns \<Longrightarrow> 0 \<le> val n"
  shows "minimalCover ns t = None \<longleftrightarrow> total_value ns < t"
proof -
  obtain k s where ks: "cover_count t 0 0 (rev ns) = (k, s)" by fastforce
  from cover_count_spec[OF this] have k: "k \<le> length ns" "s = sum_list (map val (take k (rev ns)))"
    "\<forall>i<k. sum_list (map val (take i (rev ns))) < t" "t \<le> s \<or> k = length ns" by auto
  have all: "sum_list (map val (take (length ns) (rev ns))) = total_value ns"
    by (simp add: total_value_sum sum_list_rev flip: rev_map)
  have "s + sum_list (map val (drop k (rev ns))) = total_value ns"
    using all k(2) sum_list_append[of "map val (take k (rev ns))" "map val (drop k (rev ns))"]
    by (simp flip: map_append)
  moreover have "0 \<le> sum_list (map val (drop k (rev ns)))"
    by (rule sum_list_nonneg) (use assms in \<open>auto dest: in_set_dropD\<close>)
  ultimately have "s < t \<longleftrightarrow> total_value ns < t"
    using k(4) all k(2) by auto
  then show ?thesis
    using ks by (auto simp: minimalCover_def Let_def split: option.splits)
qed

subsection \<open>The best single note\<close>

lemma bestFit_loop_Some:
  "bestFit_loop t policy (Some d) ns = Some n \<Longrightarrow> n = d \<or>
     n \<in> set ns \<and> t \<le> val n \<and> \<not> (0 < val n - t \<and> val n - t < dustFloor policy)"
  by (induction ns) (auto simp: Let_def split: if_splits)

lemma bestFit_loop_total: "bestFit_loop t policy (Some d) ns \<noteq> None"
  by (induction ns) (auto simp: Let_def)

text \<open>Change that is worth no note of its own.\<close>

definition is_dust :: "PlanPolicy \<Rightarrow> int \<Rightarrow> bool" where
  "is_dust policy c \<longleftrightarrow> 0 < c \<and> c < dustFloor policy"

lemma bestFit_loop_dusty:
  assumes "sorted (map val ns)" "bestFit_loop t policy (Some d) ns = Some n" "is_dust policy (val d - t)"
    "\<forall>x\<in>set ns. val d \<le> val x"
  shows "n = d \<and> (\<forall>x\<in>set ns. t \<le> val x \<longrightarrow> is_dust policy (val x - t)) \<or>
    n \<in> set ns \<and> t \<le> val n \<and> \<not> is_dust policy (val n - t) \<and>
      (\<forall>x\<in>set ns. t \<le> val x \<and> \<not> is_dust policy (val x - t) \<longrightarrow> val n \<le> val x)"
  using assms by (induction ns) (auto simp: Let_def is_dust_def split: if_splits)

lemma bestFit_Some:
  assumes "sorted (map val ns)" "bestFit ns t policy = Some n"
  shows "n \<in> set ns \<and> t \<le> val n \<and>
    (if is_dust policy (val n - t)
     then \<forall>x\<in>set ns. t \<le> val x \<longrightarrow> is_dust policy (val x - t) \<and> val n \<le> val x
     else \<forall>x\<in>set ns. t \<le> val x \<and> \<not> is_dust policy (val x - t) \<longrightarrow> val n \<le> val x)"
  using assms unfolding bestFit_def
proof (induction ns)
  case (Cons a ns)
  have s: "sorted (map val ns)" "\<forall>x\<in>set ns. val a \<le> val x" using Cons.prems(1) by auto
  consider "val a < t" | "t \<le> val a" "is_dust policy (val a - t)" | "t \<le> val a" "\<not> is_dust policy (val a - t)"
    by linarith
  then show ?case
  proof cases
    case 1
    with Cons s show ?thesis by auto
  next
    case 2
    then have "bestFit_loop t policy (Some a) ns = Some n"
      using Cons.prems(2) by (simp add: is_dust_def)
    from bestFit_loop_dusty[OF s(1) this 2(2) s(2)] s(2) 2 show ?thesis by auto
  next
    case 3
    then have "n = a" using Cons.prems(2) by (simp add: is_dust_def Let_def split: if_splits)
    with 3 s(2) show ?thesis by auto
  qed
qed simp

lemma bestFit_None: "bestFit ns t policy = None \<longleftrightarrow> (\<forall>n\<in>set ns. val n < t)"
  unfolding bestFit_def
  by (induction ns) (auto simp: Let_def bestFit_loop_total[THEN not_None_eq[THEN iffD1]])

subsection \<open>The two shapes of a plan\<close>

lemma join_all_Cons:
  "join_all asset m (n # ns) =
     (joinStep m n # fst (join_all asset \<lparr>leafIndex = -1, assetId = asset, val = val m + val n\<rparr> ns),
      snd (join_all asset \<lparr>leafIndex = -1, assetId = asset, val = val m + val n\<rparr> ns))"
  by (simp add: Let_def joinStep_def case_prod_beta add.commute)

declare join_all.simps(2) [simp del]

lemma length_join_all: "length (fst (join_all asset m ns)) = length ns"
  by (induction ns arbitrary: m) (auto simp: join_all_Cons)

lemma joined_plan_fields:
  assumes "cover \<noteq> []"
  shows "length (steps (joined_plan intent cover)) = length cover"
    "joinsRequired (joined_plan intent cover) = length cover - 1"
    "totalSelected (joined_plan intent cover) = total_value cover"
  using assms by (simp_all add: joined_plan_def Let_def length_join_all case_prod_beta)

lemma planSpend_cases:
  assumes "planSpend ns intent policy = Inr plan"
  obtains (single) n where "0 < target intent"
      "bestFit (forAsset ns (intent_asset intent)) (target intent) policy = Some n" "plan = single_plan intent n"
    | (joined) cover where "0 < target intent"
      "bestFit (forAsset ns (intent_asset intent)) (target intent) policy = None"
      "minimalCover (forAsset ns (intent_asset intent)) (target intent) = Some cover"
      "plan = joined_plan intent cover" "int (length (steps plan)) \<le> maxSteps policy"
  using assms by (auto simp: planSpend_def Let_def split: if_splits option.splits)

lemma forAsset_pos: "n \<in> set (forAsset ns asset) \<Longrightarrow> 0 < val n"
  by (simp add: set_forAsset)

lemma sum_le_largest:
  assumes "M \<subseteq># mset (forAsset ns asset)" "size M \<le> j"
  shows "(\<Sum>n\<in>#M. val n) \<le> total_value (take j (rev (forAsset ns asset)))"
  unfolding total_value_sum
proof (rule sum_subset_le_take)
  show "sorted_wrt (\<lambda>x y. val y \<le> val x) (rev (forAsset ns asset))"
    using forAsset_sorted[of ns asset] by (simp add: sorted_wrt_rev sorted_wrt_map)
qed (use assms in \<open>auto dest: forAsset_pos simp: order_less_imp_le\<close>)

lemma cover_subset:
  assumes "minimalCover ns t = Some cover"
  shows "mset cover \<subseteq># mset ns" "t \<le> total_value cover"
proof -
  from minimalCover_Some[OF assms] obtain i where i: "cover = take (length cover) (drop i ns)" "t \<le> total_value cover"
    by metis
  have "mset ns = mset (take i ns) + (mset cover + mset (drop (length cover) (drop i ns)))"
    using i(1) append_take_drop_id[of i ns] append_take_drop_id[of "length cover" "drop i ns"]
    by (metis mset_append)
  then show "mset cover \<subseteq># mset ns" by (metis mset_subset_eq_add_left mset_subset_eq_add_right subset_mset.trans)
  show "t \<le> total_value cover" by (rule i)
qed

subsection \<open>Running the joins\<close>

lemma without_remove [simp]: "without (p(i := None)) S = without p (insert i S)"
  by (rule ext) (simp add: without_def)

lemma without_one: "without p {i} = p(i := None)"
  by (rule ext) (simp add: without_def)

lemma without_empty [simp]: "without p {} = p"
  by (rule ext) (simp add: without_def)

lemma exec_joins:
  assumes "leafIndex m = -1" "0 \<le> val m" "distinct (map leafIndex ns)"
    "\<forall>n\<in>set ns. 0 \<le> leafIndex n \<and> 0 < val n \<and> pool (leafIndex n) = Some (val n)"
  shows "exec_plan (fst (join_all asset m ns) @ rest) (pool, Some (val m)) paid =
      exec_plan rest (without pool (leafIndex ` set ns), Some (val m + total_value ns)) paid \<and>
    leafIndex (snd (join_all asset m ns)) = -1"
  using assms
proof (induction ns arbitrary: m pool)
  case Nil
  then show ?case by (simp add: total_value_def)
next
  case (Cons n ns)
  let ?m = "\<lparr>leafIndex = -1, assetId = asset, val = val m + val n\<rparr>"
  have n: "0 \<le> leafIndex n" "0 < val n" "pool (leafIndex n) = Some (val n)" "leafIndex n \<notin> leafIndex ` set ns"
    using Cons.prems by auto
  have IH: "exec_plan (fst (join_all asset ?m ns) @ rest) (pool(leafIndex n := None), Some (val ?m)) paid =
      exec_plan rest (without (pool(leafIndex n := None)) (leafIndex ` set ns), Some (val ?m + total_value ns)) paid \<and>
    leafIndex (snd (join_all asset ?m ns)) = -1"
    using Cons.prems n by (intro Cons.IH) (auto simp: image_iff)
  have "joinStep m n = \<lparr>op = JOIN, inputs = [-1, leafIndex n], outgoing = 0, change = val m + val n\<rparr>"
    using n Cons.prems(1) by (simp add: joinStep_def)
  then show ?case
    using IH n Cons.prems(2)
    by (simp add: join_all_Cons step_legal_def total_value_sum add.assoc)
qed

lemma exec_joined:
  assumes "cover \<noteq> []" "distinct (map leafIndex cover)" "0 < target intent" "target intent \<le> total_value cover"
    "\<forall>n\<in>set cover. 0 \<le> leafIndex n \<and> 0 < val n \<and> pool (leafIndex n) = Some (val n)"
    "intent_op intent = WITHDRAW \<or> intent_op intent = TRANSFER"
  shows "exec_plan (steps (joined_plan intent cover)) (pool, None) 0 =
    Some (without pool (leafIndex ` set cover), target intent, Some (total_value cover - target intent))"
proof -
  obtain n ns where o: "sort_key leafIndex cover = n # ns"
    using assms(1) by (metis length_greater_0_conv length_sort list.exhaust)
  have st: "set cover = insert n (set ns)" using o by (metis list.simps(15) set_sort)
  have mn: "mset cover = mset (n # ns)" using o by (metis mset_sort)
  then have tot: "total_value cover = val n + total_value ns"
    by (metis list.simps(9) mset_map sum_list.Cons sum_mset_sum_list total_value_sum)
  have "mset (map leafIndex cover) = mset (map leafIndex (n # ns))" using mn by simp
  then have d: "distinct (map leafIndex (n # ns))" using assms(2) mset_eq_imp_distinct_iff by metis
  show ?thesis
  proof (cases ns)
    case Nil
    then show ?thesis
      using assms(3-6) tot st o
      by (auto simp: joined_plan_def Let_def step_legal_def total_value_def without_one)
  next
    case (Cons k ks)
    let ?m = "\<lparr>leafIndex = -1, assetId = intent_asset intent, val = val n + val k\<rparr>"
    let ?p = "pool(leafIndex n := None, leafIndex k := None)"
    have js: "exec_plan (fst (join_all (intent_asset intent) ?m ks) @ rest) (?p, Some (val ?m)) paid =
      exec_plan rest (without ?p (leafIndex ` set ks), Some (val ?m + total_value ks)) paid \<and>
      leafIndex (snd (join_all (intent_asset intent) ?m ks)) = -1" for rest paid
      using assms(5) st d Cons by (intro exec_joins) (auto simp: image_iff)
    have p: "leafIndex ` set cover = insert (leafIndex n) (insert (leafIndex k) (leafIndex ` set ks))"
      using st Cons by auto
    have "exec_plan (steps (joined_plan intent cover)) (pool, None) 0 =
      exec_plan (fst (join_all (intent_asset intent) ?m ks) @
        [\<lparr>op = intent_op intent, inputs = [-1], outgoing = target intent, change = total_value cover - target intent\<rparr>])
        (?p, Some (val ?m)) 0"
      using assms(5) st d Cons js[of "[]" 0]
      by (auto simp: joined_plan_def Let_def o join_all_Cons joinStep_def step_legal_def case_prod_beta fun_upd_twist add.commute[of "val k"])
    also have "\<dots> = Some (without pool (leafIndex ` set cover), target intent, Some (total_value cover - target intent))"
      using js assms(3,4,6) tot Cons by (auto simp: p step_legal_def total_value_sum)
    finally show ?thesis .
  qed
qed

lemma pool_of_note:
  assumes "n \<in> set ns" "assetId n = asset" "distinct (map leafIndex ns)"
  shows "pool_of ns asset (leafIndex n) = Some (val n)"
proof -
  have "distinct (map leafIndex (filter P ns))" for P
    using assms(3) by (induction ns) auto
  with assms(1,2) show ?thesis
    unfolding pool_of_def by (intro map_of_is_SomeI) (auto simp: comp_def)
qed

lemma total_take_le:
  assumes "\<And>n. n \<in> set xs \<Longrightarrow> 0 \<le> val n"
  shows "total_value (take m xs) \<le> total_value xs"
proof -
  have "0 \<le> sum_list (map val (drop m xs))"
    by (rule sum_list_nonneg) (use assms in \<open>auto dest: in_set_dropD\<close>)
  moreover have "sum_list (map val (take m xs)) + sum_list (map val (drop m xs)) = sum_list (map val xs)"
    by (metis append_take_drop_id map_append sum_list_append)
  ultimately show ?thesis by (simp add: total_value_sum)
qed

lemma total_rev: "total_value (rev xs) = total_value xs"
  by (simp add: total_value_sum sum_list_rev flip: rev_map)

subsection \<open>What can be spent\<close>

lemma planSpend_within:
  assumes "planSpend ns intent policy = Inr plan"
  shows "0 < target intent \<and> target intent \<le> withPlan (spendableBalance ns (intent_asset intent) policy)"
  using assms
proof (cases rule: planSpend_cases)
  case (single n)
  from bestFit_Some[OF forAsset_sorted single(2)]
  have "n \<in> set (forAsset ns (intent_asset intent))" "target intent \<le> val n" by auto
  then show ?thesis
    using sum_le_largest[of "{#n#}" ns "intent_asset intent" "nat (max 1 (maxSteps policy))"] single(1)
    by (auto simp: spendableBalance_def Let_def le_nat_iff)
next
  case (joined cover)
  note cov = cover_subset[OF joined(3)]
  have "cover \<noteq> []" using cov(2) joined(1) by (auto simp: total_value_def)
  then have "length cover \<le> nat (max 1 (maxSteps policy))"
    using joined(4,5) joined_plan_fields(1)[of cover intent] by (simp add: le_nat_iff)
  then have "(\<Sum>n\<in>#mset cover. val n) \<le> withPlan (spendableBalance ns (intent_asset intent) policy)"
    unfolding spendableBalance_def Let_def using sum_le_largest[OF cov(1)] by simp
  then show ?thesis
    using joined(1) cov(2) by (simp add: total_value_sum sum_mset_sum_list flip: mset_map)
qed

lemma planSpend_reaches:
  assumes "0 < target intent" "target intent \<le> withPlan (spendableBalance ns (intent_asset intent) policy)"
  shows "\<exists>plan. planSpend ns intent policy = Inr plan"
proof -
  let ?c = "forAsset ns (intent_asset intent)" and ?m = "nat (max 1 (maxSteps policy))"
  have w: "target intent \<le> total_value (take ?m (rev ?c))"
    using assms(2) by (simp add: spendableBalance_def Let_def)
  then have ne: "?c \<noteq> []" using assms(1) by (auto simp: total_value_def)
  show ?thesis
  proof (cases "bestFit ?c (target intent) policy")
    case (Some n)
    with assms(1) ne show ?thesis by (simp add: planSpend_def)
  next
    case None
    have pos: "\<And>n. n \<in> set ?c \<Longrightarrow> 0 \<le> val n" by (simp add: forAsset_pos order_less_imp_le)
    have "total_value (take ?m (rev ?c)) \<le> total_value ?c"
      using total_take_le[of "rev ?c"] pos by (simp add: total_rev)
    then obtain cover where cover: "minimalCover ?c (target intent) = Some cover"
      using w minimalCover_None[OF pos, where t = "target intent"]
      by (cases "minimalCover ?c (target intent)") auto
    note cov = cover_subset[OF cover]
    have "cover \<noteq> []" using cov(2) assms(1) by (auto simp: total_value_def)
    moreover have "length cover \<le> ?m"
      using minimalCover_Some[OF cover] w by (metis not_le total_value_sum)
    moreover have "1 \<le> maxSteps policy"
    proof (rule ccontr)
      assume "\<not> 1 \<le> maxSteps policy"
      then have "total_value (take ?m (rev ?c)) = val (last ?c)"
        using ne by (simp add: total_value_def take_Suc hd_rev)
      with w None last_in_set[OF ne] show False by (simp add: bestFit_None) (metis linorder_not_le)
    qed
    ultimately show ?thesis
      using None assms(1) ne cover joined_plan_fields(1)[of cover intent]
      by (simp add: planSpend_def Let_def le_nat_iff)
  qed
qed

end
