(* ===== verification/Lean_Tree.thy ===== *)
theory Lean_Tree
  imports Prelude
begin

text \<open>
  The incremental Merkle tree of the wallet, \<^verbatim>\<open>src/packages/wallets/src/merkle/LeanIMT.ts\<close>, and the
  membership witnesses taken from it, \<^verbatim>\<open>src/packages/wallets/src/tx/witnessSources.ts\<close>.

  A field element is its canonical residue, a \<^typ>\<open>nat\<close>. The hash (\<^verbatim>\<open>poseidon2Hash\<close> of
  \<^verbatim>\<open>@aztec/foundation\<close>, called by \<^verbatim>\<open>crypto/Poseidon.ts\<close>) is a parameter \<open>H\<close> on lists of field elements.
  \<open>lean_node\<close> is not code: it is the tree the incremental algorithm is meant to keep, computed from the
  list of leaves, and \<open>tree_of\<close> relates the object's fields to it.
\<close>

type_synonym fr = nat
type_synonym poseidon = "fr list \<Rightarrow> fr"

datatype witness_reason = LEAF_NOT_FOUND | MALFORMED_RESPONSE | ROOT_MISMATCH | TRANSPORT

datatype tree_error = WitnessSourceError witness_reason | TreeError string

section \<open>The tree\<close>

record LeanIMT =
  depth :: nat
  levels :: "fr list list"
  nextLeafIndex :: nat
  currentRoot :: fr

definition newLeanIMT :: "int \<Rightarrow> tree_error + LeanIMT" where
  "newLeanIMT d = (if d < 1 \<or> d > 32 then Inl (TreeError ''Invalid depth'')
     else Inr \<lparr>depth = nat d, levels = replicate (nat d) [], nextLeafIndex = 0, currentRoot = 0\<rparr>)"

text \<open>The four-way choice of the loop body: an absent child is passed over.\<close>

definition hash_children :: "poseidon \<Rightarrow> nat \<Rightarrow> fr \<Rightarrow> fr \<Rightarrow> fr" where
  "hash_children H level left right =
     (if left = 0 \<and> right = 0 then 0
      else if right = 0 then left
      else if left = 0 then right
      else H [left, right, level])"

definition sibling_index :: "nat \<Rightarrow> nat" where
  "sibling_index i = (if even i then i + 1 else i - 1)"

definition node_or_zero :: "fr list \<Rightarrow> nat \<Rightarrow> fr" where
  "node_or_zero lv i = (if i < length lv then lv ! i else 0)"

text \<open>One turn of the loop of \<^verbatim>\<open>insert\<close>, on \<open>levels\<close>, \<^verbatim>\<open>currentComputedNode\<close> and \<^verbatim>\<open>currentIndexInLevel\<close>.\<close>

definition insert_level ::
  "poseidon \<Rightarrow> nat \<Rightarrow> nat \<Rightarrow> fr list list \<times> fr \<times> nat \<Rightarrow> fr list list \<times> fr \<times> nat"
where
  "insert_level H d level st = (case st of (lvs, node, i) \<Rightarrow>
     let sibling = node_or_zero (lvs ! level) (sibling_index i);
         left = (if even i then node else sibling);
         right = (if even i then sibling else node);
         node' = hash_children H level left right;
         parent = i div 2;
         up = lvs ! (level + 1);
         lvs' = (if level < d - 1
                 then (if parent \<ge> length up then lvs[level + 1 := up @ [node']]
                       else lvs[level + 1 := up[parent := node']])
                 else lvs)
     in (lvs', node', parent))"

definition insert_leaf :: "poseidon \<Rightarrow> fr \<Rightarrow> LeanIMT \<Rightarrow> (tree_error + fr) \<times> LeanIMT" where
  "insert_leaf H leaf t =
     (if leaf = 0 then (Inl (TreeError ''leaf must be non-zero''), t)
      else if nextLeafIndex t \<ge> 2 ^ depth t then (Inl (TreeError ''Tree is full''), t)
      else (case fold (insert_level H (depth t)) [0..<depth t]
              ((levels t)[0 := levels t ! 0 @ [leaf]], leaf, nextLeafIndex t) of
        (lvs, root, _) \<Rightarrow> (Inr root,
          t\<lparr>levels := lvs, nextLeafIndex := nextLeafIndex t + 1, currentRoot := root\<rparr>)))"

definition getRoot :: "LeanIMT \<Rightarrow> fr" where
  "getRoot t = currentRoot t"

text \<open>The loop of \<^verbatim>\<open>getMerklePath\<close>, from the lowest level up.\<close>

fun path_loop :: "fr list list \<Rightarrow> nat \<Rightarrow> fr list" where
  "path_loop [] i = []"
| "path_loop (lv # lvs) i = node_or_zero lv (sibling_index i) # path_loop lvs (i div 2)"

definition getMerklePath :: "LeanIMT \<Rightarrow> nat \<Rightarrow> tree_error + fr list" where
  "getMerklePath t i =
     (if i \<ge> nextLeafIndex t then Inl (TreeError ''Index out of bounds'')
      else Inr (path_loop (take (depth t) (levels t)) i))"

section \<open>Witnesses\<close>

text \<open>\<^verbatim>\<open>foldPath\<close>: the loop, at level \<open>k\<close>.\<close>

fun foldPath_loop :: "poseidon \<Rightarrow> nat \<Rightarrow> nat \<Rightarrow> fr \<Rightarrow> fr list \<Rightarrow> tree_error + fr" where
  "foldPath_loop H i k cur [] = Inr cur"
| "foldPath_loop H i k cur (s # ss) = (let b = (i div 2 ^ k) mod 2 in
     if s \<noteq> 0 then
       let left = (if b = 1 then s else cur); right = (if b = 1 then cur else s) in
       foldPath_loop H i (k + 1) (H [left, right, k]) ss
     else if b = 1 then Inl (WitnessSourceError MALFORMED_RESPONSE)
     else foldPath_loop H i (k + 1) cur ss)"

definition foldPath :: "poseidon \<Rightarrow> fr \<Rightarrow> nat \<Rightarrow> fr list \<Rightarrow> tree_error + fr" where
  "foldPath H leaf i siblings = foldPath_loop H i 0 leaf siblings"

record MerkleWitness =
  w_leafIndex :: nat
  w_siblings :: "fr list"
  w_root :: fr

fun findIndex :: "fr \<Rightarrow> fr list \<Rightarrow> nat \<Rightarrow> nat option" where
  "findIndex x [] k = None"
| "findIndex x (y # ys) k = (if y = x then Some k else findIndex x ys (k + 1))"

definition localWitnessFor :: "LeanIMT \<Rightarrow> fr \<Rightarrow> tree_error + MerkleWitness" where
  "localWitnessFor t leaf = (case findIndex leaf (levels t ! 0) 0 of
     None \<Rightarrow> Inl (WitnessSourceError LEAF_NOT_FOUND)
   | Some i \<Rightarrow> ebind (getMerklePath t i) (\<lambda>path.
       Inr \<lparr>w_leafIndex = i, w_siblings = path, w_root = getRoot t\<rparr>))"

text \<open>What an indexer answers, before any check. \<^verbatim>\<open>Fr.fromString\<close> is library code that throws on text it
  cannot read: a parameter.\<close>

record raw_witness =
  raw_leafIndex :: jsval
  raw_siblings :: jsval
  raw_root :: jsval

definition fr_parse :: "(jsval \<Rightarrow> fr option) \<Rightarrow> jsval \<Rightarrow> tree_error + fr" where
  "fr_parse fromString v = (case fromString v of None \<Rightarrow> Inl (TreeError ''Fr.fromString'') | Some x \<Rightarrow> Inr x)"

definition indexerWitnessFor ::
  "poseidon \<Rightarrow> (jsval \<Rightarrow> fr option) \<Rightarrow> nat \<Rightarrow> (fr \<Rightarrow> raw_witness option) \<Rightarrow> fr \<Rightarrow> tree_error + MerkleWitness"
where
  "indexerWitnessFor H fromString d transport leaf = (case transport leaf of
     None \<Rightarrow> Inl (WitnessSourceError TRANSPORT)
   | Some raw \<Rightarrow> (case (raw_leafIndex raw, raw_siblings raw, raw_root raw) of
       (JNum (NInt i), JArr ss, JStr rt) \<Rightarrow>
         if i < 0 \<or> length ss \<noteq> d then Inl (WitnessSourceError MALFORMED_RESPONSE)
         else ebind (emap (fr_parse fromString) ss) (\<lambda>siblings.
           ebind (fr_parse fromString (JStr rt)) (\<lambda>root.
             ebind (foldPath H leaf (nat i) siblings) (\<lambda>recomputed.
               if recomputed \<noteq> root then Inl (WitnessSourceError ROOT_MISMATCH)
               else Inr \<lparr>w_leafIndex = nat i, w_siblings = siblings, w_root = root\<rparr>)))
     | _ \<Rightarrow> Inl (WitnessSourceError MALFORMED_RESPONSE)))"

section \<open>The tree that is meant\<close>

fun lean_node :: "poseidon \<Rightarrow> fr list \<Rightarrow> nat \<Rightarrow> nat \<Rightarrow> fr" where
  "lean_node H xs 0 i = (if i < length xs then xs ! i else 0)"
| "lean_node H xs (Suc l) i = hash_children H l (lean_node H xs l (2 * i)) (lean_node H xs l (2 * i + 1))"

definition width :: "nat \<Rightarrow> nat \<Rightarrow> nat" where
  "width n l = (if n = 0 then 0 else (n - 1) div 2 ^ l + 1)"

definition level_nodes :: "poseidon \<Rightarrow> fr list \<Rightarrow> nat \<Rightarrow> fr list" where
  "level_nodes H xs l = map (lean_node H xs l) [0..<width (length xs) l]"

definition tree_of :: "poseidon \<Rightarrow> LeanIMT \<Rightarrow> fr list \<Rightarrow> bool" where
  "tree_of H t xs \<longleftrightarrow> levels t = map (level_nodes H xs) [0..<depth t] \<and> nextLeafIndex t = length xs \<and>
     currentRoot t = lean_node H xs (depth t) 0 \<and> 0 < depth t \<and> length xs \<le> 2 ^ depth t"

section \<open>Lemmas\<close>

lemma lean_node_zero: "length xs \<le> i * 2 ^ l \<Longrightarrow> lean_node H xs l i = 0"
proof (induction l arbitrary: i)
  case (Suc l)
  have "length xs \<le> (2 * i) * 2 ^ l" "length xs \<le> (2 * i + 1) * 2 ^ l"
    using Suc.prems by (simp_all add: algebra_simps)
  with Suc.IH show ?case by (simp add: hash_children_def)
qed simp

lemma lean_node_append: "i < length xs div 2 ^ l \<Longrightarrow> lean_node H (xs @ [x]) l i = lean_node H xs l i"
proof (induction l arbitrary: i)
  case 0
  then show ?case by (simp add: nth_append)
next
  case (Suc l)
  have "2 * i + 1 < length xs div 2 ^ l"
    using Suc.prems by (simp add: div_mult2_eq mult.commute[of 2])
  with Suc.IH[of "2 * i"] Suc.IH[of "2 * i + 1"] show ?case by simp
qed

lemma width_Suc: "width (Suc n) l = n div 2 ^ l + 1"
  by (simp add: width_def)

lemma width_le: "s \<ge> width n l \<Longrightarrow> n \<le> s * 2 ^ l"
proof -
  assume s: "s \<ge> width n l"
  show ?thesis
  proof (cases "n = 0")
    case False
    have "n - 1 < ((n - 1) div 2 ^ l + 1) * 2 ^ l"
      using dividend_less_div_times[of "2 ^ l" "n - 1"] by (simp add: mult.commute)
    moreover have "((n - 1) div 2 ^ l + 1) * 2 ^ l \<le> s * 2 ^ l"
      using s False by (intro mult_right_mono) (simp_all add: width_def)
    ultimately show ?thesis by linarith
  qed simp
qed

lemma node_or_zero_level: "node_or_zero (level_nodes H xs l) s = lean_node H xs l s"
  by (simp add: node_or_zero_def level_nodes_def lean_node_zero width_le)

lemma level_nodes_snoc:
  "level_nodes H (xs @ [x]) l =
     map (lean_node H xs l) [0..<length xs div 2 ^ l] @ [lean_node H (xs @ [x]) l (length xs div 2 ^ l)]"
  by (simp add: level_nodes_def width_Suc lean_node_append)

lemma width_cases: "width n l = n div 2 ^ l \<or> width n l = n div 2 ^ l + 1"
proof (cases n)
  case (Suc m)
  have "Suc m div 2 ^ l = m div 2 ^ l \<or> Suc m div 2 ^ l = m div 2 ^ l + 1"
    by (simp add: Suc_div_eq_add3_div_numeral div_Suc)
  with Suc show ?thesis by (auto simp: width_def)
qed (simp add: width_def)

text \<open>Updating or appending the node above the inserted leaf gives the level of the longer list.\<close>

lemma level_nodes_insert:
  assumes "p = length xs div 2 ^ l" "v = lean_node H (xs @ [x]) l p"
  shows "(if p \<ge> length (level_nodes H xs l) then level_nodes H xs l @ [v] else (level_nodes H xs l)[p := v]) =
    level_nodes H (xs @ [x]) l"
proof -
  consider "width (length xs) l = p" | "width (length xs) l = p + 1"
    using width_cases[of "length xs" l] assms(1) by auto
  then show ?thesis
  proof cases
    case 1
    then show ?thesis unfolding level_nodes_snoc assms(2) by (simp add: level_nodes_def assms(1))
  next
    case 2
    then have "level_nodes H xs l = map (lean_node H xs l) [0..<p] @ [lean_node H xs l p]"
      by (simp add: level_nodes_def)
    then show ?thesis unfolding level_nodes_snoc assms by (simp add: list_update_append)
  qed
qed

text \<open>The state of the loop after \<open>k\<close> turns: the first levels are those of the longer list.\<close>

definition mixed_levels :: "poseidon \<Rightarrow> fr list \<Rightarrow> fr \<Rightarrow> nat \<Rightarrow> nat \<Rightarrow> fr list list" where
  "mixed_levels H xs x d k = map (\<lambda>l. level_nodes H (if l \<le> k then xs @ [x] else xs) l) [0..<d]"

lemma insert_level_step:
  assumes "k < d" "n = length xs"
  shows "insert_level H d k (mixed_levels H xs x d k, lean_node H (xs @ [x]) k (n div 2 ^ k), n div 2 ^ k) =
    (mixed_levels H xs x d (Suc k), lean_node H (xs @ [x]) (Suc k) (n div 2 ^ Suc k), n div 2 ^ Suc k)"
proof -
  let ?i = "n div 2 ^ k" and ?ys = "xs @ [x]" and ?p = "n div 2 ^ Suc k"
  have p: "?i div 2 = ?p" by (simp add: div_mult2_eq mult.commute[of 2])
  have "mixed_levels H xs x d k ! k = level_nodes H ?ys k"
    using assms(1) by (simp add: mixed_levels_def)
  then have sib: "node_or_zero (mixed_levels H xs x d k ! k) (sibling_index ?i) = lean_node H ?ys k (sibling_index ?i)"
    by (simp add: node_or_zero_level)
  have node: "hash_children H k
      (if even ?i then lean_node H ?ys k ?i else lean_node H ?ys k (sibling_index ?i))
      (if even ?i then lean_node H ?ys k (sibling_index ?i) else lean_node H ?ys k ?i) = lean_node H ?ys (Suc k) ?p"
  proof (cases "even ?i")
    case True
    then have "?i = 2 * ?p" unfolding p[symmetric] by simp
    with True show ?thesis by (simp add: sibling_index_def)
  next
    case False
    then have "?i = 2 * ?p + 1" using p by (metis odd_two_times_div_two_succ)
    with False show ?thesis by (simp add: sibling_index_def)
  qed
  let ?up = "mixed_levels H xs x d k ! (k + 1)" and ?v = "lean_node H ?ys (Suc k) ?p"
  have lv: "(if k < d - 1 then if ?p \<ge> length ?up
      then (mixed_levels H xs x d k)[k + 1 := ?up @ [?v]] else (mixed_levels H xs x d k)[k + 1 := ?up[?p := ?v]]
     else mixed_levels H xs x d k) = mixed_levels H xs x d (Suc k)"
  proof (cases "k < d - 1")
    case True
    then have up: "?up = level_nodes H xs (Suc k)" by (simp add: mixed_levels_def)
    have new: "(if ?p \<ge> length ?up then ?up @ [?v] else ?up[?p := ?v]) = level_nodes H ?ys (Suc k)"
      unfolding up using assms(2) by (intro level_nodes_insert) simp_all
    have "(mixed_levels H xs x d k)[k + 1 := level_nodes H ?ys (Suc k)] = mixed_levels H xs x d (Suc k)"
      by (rule nth_equalityI) (auto simp: mixed_levels_def nth_list_update le_Suc_eq)
    with new True show ?thesis by (auto split: if_splits)
  next
    case False
    with assms(1) show ?thesis by (auto simp: mixed_levels_def)
  qed
  show ?thesis
    unfolding insert_level_def Let_def prod.case sib p using node lv by (simp only: prod.inject simp_thms)
qed

lemma insert_loop:
  assumes "k \<le> d" "n = length xs"
  shows "fold (insert_level H d) [0..<k] (mixed_levels H xs x d 0, x, n) =
    (mixed_levels H xs x d k, lean_node H (xs @ [x]) k (n div 2 ^ k), n div 2 ^ k)"
  using assms
proof (induction k)
  case (Suc k)
  then show ?case using insert_level_step[of k d n xs H x] by simp
qed simp

lemma insert_leaf_tree_of:
  assumes "tree_of H t xs" "x \<noteq> 0" "length xs < 2 ^ depth t"
  shows "fst (insert_leaf H x t) = Inr (lean_node H (xs @ [x]) (depth t) 0)"
    "tree_of H (snd (insert_leaf H x t)) (xs @ [x])" "depth (snd (insert_leaf H x t)) = depth t"
proof -
  have d: "0 < depth t" and lv: "levels t = map (level_nodes H xs) [0..<depth t]" and n: "nextLeafIndex t = length xs"
    using assms(1) by (auto simp: tree_of_def)
  have "level_nodes H xs 0 @ [x] = level_nodes H (xs @ [x]) 0"
    by (auto simp: level_nodes_def width_def nth_append intro!: nth_equalityI)
  then have "(levels t)[0 := levels t ! 0 @ [x]] = mixed_levels H xs x (depth t) 0"
    unfolding lv mixed_levels_def using d by (intro nth_equalityI) (auto simp: nth_list_update)
  then have f: "fold (insert_level H (depth t)) [0..<depth t] ((levels t)[0 := levels t ! 0 @ [x]], x, nextLeafIndex t) =
      (mixed_levels H xs x (depth t) (depth t), lean_node H (xs @ [x]) (depth t) 0, 0)"
    using insert_loop[of "depth t" "depth t" "nextLeafIndex t" xs H x] n assms(3) by simp
  have m: "mixed_levels H xs x (depth t) (depth t) = map (level_nodes H (xs @ [x])) [0..<depth t]"
    by (auto simp: mixed_levels_def)
  show "fst (insert_leaf H x t) = Inr (lean_node H (xs @ [x]) (depth t) 0)"
    "tree_of H (snd (insert_leaf H x t)) (xs @ [x])" "depth (snd (insert_leaf H x t)) = depth t"
    using f m d n assms(2,3) by (auto simp: insert_leaf_def tree_of_def)
qed

lemma newLeanIMT_tree_of: "newLeanIMT d = Inr t \<Longrightarrow> tree_of H t [] \<and> depth t = nat d \<and> 1 \<le> d \<and> d \<le> 32"
  by (auto simp: newLeanIMT_def tree_of_def level_nodes_def width_def lean_node_zero
      intro!: nth_equalityI split: if_splits)

subsection \<open>Paths\<close>

lemma path_loop_nodes:
  "path_loop (map (level_nodes H xs) [k..<d]) (i div 2 ^ k) =
     map (\<lambda>l. lean_node H xs l (sibling_index (i div 2 ^ l))) [k..<d]"
proof (induction "d - k" arbitrary: k)
  case (Suc m)
  have "[k..<d] = k # [Suc k..<d]" using Suc.hyps(2) by (simp add: upt_conv_Cons)
  moreover have "i div 2 ^ k div 2 = i div 2 ^ Suc k" by (simp add: div_mult2_eq mult.commute[of 2])
  ultimately show ?case
    using Suc.hyps(1)[of "Suc k"] Suc.hyps(2) by (simp add: node_or_zero_level del: power_Suc)
qed simp

lemma getMerklePath_nodes:
  assumes "tree_of H t xs" "i < length xs"
  shows "getMerklePath t i = Inr (map (\<lambda>l. lean_node H xs l (sibling_index (i div 2 ^ l))) [0..<depth t])"
  using assms path_loop_nodes[of H xs 0 "depth t" i] by (simp add: getMerklePath_def tree_of_def)

text \<open>What the lemmas ask of the hash is asked only of a set of triples, in the theorems those that
  building the tree and folding the path really hash: no two of them collide, none hashes to zero.\<close>

type_synonym triples = "(fr \<times> fr \<times> nat) set"

definition hash_nonzero :: "poseidon \<Rightarrow> triples \<Rightarrow> bool" where
  "hash_nonzero H T \<longleftrightarrow> (\<forall>(a, b, l) \<in> T. H [a, b, l] \<noteq> 0)"

definition collision_free :: "poseidon \<Rightarrow> triples \<Rightarrow> bool" where
  "collision_free H T \<longleftrightarrow> inj_on (\<lambda>(a, b, l). H [a, b, l]) T"

definition inner_hash :: "poseidon \<Rightarrow> triples \<Rightarrow> fr \<Rightarrow> bool" where
  "inner_hash H T x \<longleftrightarrow> (\<exists>(a, b, l) \<in> T. x = H [a, b, l])"

text \<open>The triples hashed for a tree of depth \<open>d\<close> over \<open>xs\<close>, and by \<^verbatim>\<open>foldPath\<close>.\<close>

definition tree_triples :: "poseidon \<Rightarrow> fr list \<Rightarrow> nat \<Rightarrow> triples" where
  "tree_triples H xs d = {(a, b, l). l < d \<and> a \<noteq> 0 \<and> b \<noteq> 0 \<and>
     (\<exists>p. a = lean_node H xs l (2 * p) \<and> b = lean_node H xs l (Suc (2 * p)))}"

fun path_triples :: "poseidon \<Rightarrow> nat \<Rightarrow> nat \<Rightarrow> fr \<Rightarrow> fr list \<Rightarrow> triples" where
  "path_triples H i k cur [] = {}"
| "path_triples H i k cur (s # ss) = (let b = (i div 2 ^ k) mod 2;
     left = (if b = 1 then s else cur); right = (if b = 1 then cur else s) in
     if s \<noteq> 0 then insert (left, right, k) (path_triples H i (k + 1) (H [left, right, k]) ss)
     else path_triples H i (k + 1) cur ss)"

lemma hash_nonzeroD: "hash_nonzero H T \<Longrightarrow> (a, b, l) \<in> T \<Longrightarrow> H [a, b, l] \<noteq> 0"
  unfolding hash_nonzero_def by blast

lemma collision_freeD:
  "collision_free H T \<Longrightarrow> (a, b, l) \<in> T \<Longrightarrow> (a', b', l') \<in> T \<Longrightarrow> H [a, b, l] = H [a', b', l'] \<Longrightarrow>
    a = a' \<and> b = b' \<and> l = l'"
  using inj_onD[of "\<lambda>(a, b, l). H [a, b, l]" T "(a, b, l)" "(a', b', l')"] by (simp add: collision_free_def)

lemma hash_laws_mono:
  "hash_nonzero H T \<Longrightarrow> S \<subseteq> T \<Longrightarrow> hash_nonzero H S" "collision_free H T \<Longrightarrow> S \<subseteq> T \<Longrightarrow> collision_free H S"
  "inner_hash H S x \<Longrightarrow> S \<subseteq> T \<Longrightarrow> inner_hash H T x"
  unfolding hash_nonzero_def collision_free_def inner_hash_def by (blast intro: inj_on_subset)+

text \<open>A pair of siblings both present is hashed.\<close>

lemma hash_children_tree:
  assumes "tree_triples H xs d \<subseteq> T" "l < d"
  shows "lean_node H xs l (2 * p) = 0 \<or> lean_node H xs l (Suc (2 * p)) = 0 \<or>
    (lean_node H xs l (2 * p), lean_node H xs l (Suc (2 * p)), l) \<in> T"
proof -
  have "(lean_node H xs l (2 * p), lean_node H xs l (Suc (2 * p)), l) \<in> tree_triples H xs d"
    if "lean_node H xs l (2 * p) \<noteq> 0" "lean_node H xs l (Suc (2 * p)) \<noteq> 0"
    using that assms(2) unfolding tree_triples_def by blast
  with assms(1) show ?thesis by blast
qed

lemma lean_node_nonzero:
  assumes "hash_nonzero H T" "tree_triples H xs d \<subseteq> T" "0 \<notin> set xs" "l \<le> d" "i * 2 ^ l < length xs"
  shows "lean_node H xs l i \<noteq> 0"
  using assms(4,5)
proof (induction l arbitrary: i)
  case 0
  with assms(3) show ?case by (auto simp: in_set_conv_nth)
next
  case (Suc l)
  have a: "lean_node H xs l (2 * i) \<noteq> 0"
    using Suc by (simp add: algebra_simps)
  show ?case
  proof (cases "lean_node H xs l (Suc (2 * i)) = 0")
    case False
    with a hash_children_tree[OF assms(2), of l i] Suc.prems(1)
    have "(lean_node H xs l (2 * i), lean_node H xs l (Suc (2 * i)), l) \<in> T" by auto
    from hash_nonzeroD[OF assms(1) this] a False show ?thesis by (simp add: hash_children_def)
  qed (use a in \<open>simp add: hash_children_def\<close>)
qed

lemma bit_parent: "(i::nat) div 2 ^ k = 2 * (i div 2 ^ Suc k) + (i div 2 ^ k) mod 2"
proof -
  have "i div 2 ^ Suc k = i div 2 ^ k div 2" by (simp add: div_mult2_eq mult.commute[of 2])
  then show ?thesis by simp
qed

lemma sibling_index_double [simp]: "sibling_index (2 * p) = Suc (2 * p)" "sibling_index (Suc (2 * p)) = 2 * p"
  by (simp_all add: sibling_index_def)

lemma foldPath_loop_complete:
  assumes "hash_nonzero H T" "tree_triples H xs d \<subseteq> T" "0 \<notin> set xs" "i < length xs" "k + m \<le> d"
  shows "foldPath_loop H i k (lean_node H xs k (i div 2 ^ k))
      (map (\<lambda>l. lean_node H xs l (sibling_index (i div 2 ^ l))) [k..<k + m]) =
    Inr (lean_node H xs (k + m) (i div 2 ^ (k + m)))"
  using assms(5)
proof (induction m arbitrary: k)
  case (Suc m)
  let ?p = "i div 2 ^ Suc k" and ?b = "(i div 2 ^ k) mod 2"
  have up: "[k..<k + Suc m] = k # [Suc k..<Suc k + m]" by (simp add: upt_conv_Cons)
  have i: "i div 2 ^ k = 2 * ?p + ?b" by (rule bit_parent)
  note IH = Suc.IH[of "Suc k"]
  show ?case
  proof (cases "?b = 1")
    case True
    then have ip: "i div 2 ^ k = 2 * ?p + 1"
      using i by auto
    have "(2 * ?p + 1) * 2 ^ k \<le> i" using ip by (metis div_times_less_eq_dividend)
    then have nz: "lean_node H xs k (2 * ?p) \<noteq> 0" "lean_node H xs k (2 * ?p + 1) \<noteq> 0"
      using assms(4) Suc.prems by (intro lean_node_nonzero[OF assms(1-3)]; simp add: algebra_simps)+
    then have "lean_node H xs (Suc k) ?p = H [lean_node H xs k (2 * ?p), lean_node H xs k (2 * ?p + 1), k]"
      by (simp add: hash_children_def del: power_Suc)
    with nz True IH Suc.prems show ?thesis unfolding up by (simp add: ip Let_def del: power_Suc upt_Suc)
  next
    case False
    then have ip: "i div 2 ^ k = 2 * ?p" and b: "?b \<noteq> 1"
      using i by auto
    have "2 * ?p * 2 ^ k \<le> i" using ip by (metis div_times_less_eq_dividend)
    then have nz: "lean_node H xs k (2 * ?p) \<noteq> 0"
      using assms(4) Suc.prems by (intro lean_node_nonzero[OF assms(1-3)]) simp_all
    then have "lean_node H xs (Suc k) ?p = (if lean_node H xs k (2 * ?p + 1) = 0 then lean_node H xs k (2 * ?p)
        else H [lean_node H xs k (2 * ?p), lean_node H xs k (2 * ?p + 1), k])"
      by (simp add: hash_children_def del: power_Suc)
    with b IH Suc.prems show ?thesis unfolding up by (simp add: ip Let_def del: power_Suc upt_Suc split: if_splits)
  qed
qed simp

lemma path_complete:
  assumes "tree_of H t xs" "hash_nonzero H (tree_triples H xs (depth t))" "0 \<notin> set xs" "i < length xs"
  obtains path where "getMerklePath t i = Inr path" "length path = depth t"
    "foldPath H (xs ! i) i path = Inr (getRoot t)"
proof -
  have "i div 2 ^ depth t = 0" using assms(1,4) by (simp add: tree_of_def)
  then show ?thesis
    using that getMerklePath_nodes[OF assms(1,4)] foldPath_loop_complete[OF assms(2) order.refl assms(3,4), of 0 "depth t"] assms(1,4)
    by (simp add: foldPath_def getRoot_def tree_of_def)
qed

subsection \<open>A path opens nothing else\<close>

lemma lean_node_left_first:
  assumes "hash_nonzero H T" "tree_triples H xs d \<subseteq> T" "0 \<notin> set xs" "l \<le> d" "lean_node H xs l (Suc (2 * p)) \<noteq> 0"
  shows "lean_node H xs l (2 * p) \<noteq> 0"
proof -
  have "Suc (2 * p) * 2 ^ l < length xs"
    using assms(5) lean_node_zero[of xs "Suc (2 * p)" l H] by linarith
  then have "2 * p * 2 ^ l < length xs" by (simp add: algebra_simps)
  then show ?thesis by (rule lean_node_nonzero[OF assms(1-4)])
qed

text \<open>A node is empty, a leaf, or the hash of a lower level.\<close>

lemma lean_node_shape:
  assumes "tree_triples H xs d \<subseteq> T"
  shows "l \<le> d \<Longrightarrow> lean_node H xs l i = 0 \<or> lean_node H xs l i \<in> set xs \<or>
    (\<exists>(a, b, l') \<in> T. l' < l \<and> lean_node H xs l i = H [a, b, l'])"
proof (induction l arbitrary: i)
  case (Suc l)
  let ?A = "lean_node H xs l (2 * i)" and ?B = "lean_node H xs l (Suc (2 * i))"
  have up: "lean_node H xs (Suc l) i = hash_children H l ?A ?B" by simp
  have IH: "lean_node H xs l j = 0 \<or> lean_node H xs l j \<in> set xs \<or>
    (\<exists>(a, b, l') \<in> T. l' < Suc l \<and> lean_node H xs l j = H [a, b, l'])" for j
    using Suc.IH[of j] Suc.prems by (auto intro: less_SucI)
  have tr: "?A = 0 \<or> ?B = 0 \<or> (?A, ?B, l) \<in> T"
    using hash_children_tree[OF assms] Suc.prems by simp
  consider "hash_children H l ?A ?B = ?A" | "hash_children H l ?A ?B = ?B" |
    "hash_children H l ?A ?B = H [?A, ?B, l]" "?A \<noteq> 0" "?B \<noteq> 0"
    unfolding hash_children_def by presburger
  then show ?case
  proof cases
    case 3
    with tr show ?thesis unfolding up by auto
  qed (unfold up, use IH[of "2 * i"] IH[of "Suc (2 * i)"] in simp_all)
qed simp

lemma hash_not_lower_node:
  assumes "hash_nonzero H T" "collision_free H T" "tree_triples H xs d \<subseteq> T" "\<forall>x\<in>set xs. \<not> inner_hash H T x"
    and "(a, b, k) \<in> T" "k \<le> d"
  shows "H [a, b, k] \<noteq> lean_node H xs k j"
proof
  assume e: "H [a, b, k] = lean_node H xs k j"
  from lean_node_shape[OF assms(3,6), of j] show False
  proof (elim disjE bexE)
    assume "lean_node H xs k j = 0"
    with e hash_nonzeroD[OF assms(1,5)] show False by simp
  next
    assume "lean_node H xs k j \<in> set xs"
    with e assms(4,5) show False unfolding inner_hash_def by auto
  next
    fix t assume t: "t \<in> T" "case t of (a', b', l') \<Rightarrow> l' < k \<and> lean_node H xs k j = H [a', b', l']"
    obtain a' b' l' where abl: "t = (a', b', l')" by (cases t)
    with t e collision_freeD[OF assms(2,5), of a' b' l'] show False by simp
  qed
qed

lemma foldPath_loop_sound:
  assumes "hash_nonzero H T" "collision_free H T" "tree_triples H xs d \<subseteq> T"
    and "0 \<notin> set xs" "\<forall>x\<in>set xs. \<not> inner_hash H T x"
    and "path_triples H i k cur ss \<subseteq> T" "k + length ss = d"
    and "foldPath_loop H i k cur ss = Inr (lean_node H xs d (i div 2 ^ d))"
  shows "cur = lean_node H xs k (i div 2 ^ k) \<or> (\<exists>(a, b, l) \<in> T. k \<le> l \<and> cur = H [a, b, l])"
  using assms(6-8)
proof (induction ss arbitrary: k cur)
  case (Cons s ss)
  let ?p = "i div 2 ^ Suc k" and ?b = "(i div 2 ^ k) mod 2"
  let ?A = "lean_node H xs k (2 * ?p)" and ?B = "lean_node H xs k (Suc (2 * ?p))"
  have b: "?b = 0 \<and> i div 2 ^ k = 2 * ?p \<or> ?b = 1 \<and> i div 2 ^ k = Suc (2 * ?p)"
    using bit_parent[of i k] by linarith
  have kd: "k < d" using Cons.prems(2) by simp
  have up: "lean_node H xs (Suc k) ?p = hash_children H k ?A ?B" by (simp del: power_Suc)
  have tr: "?A = 0 \<or> ?B = 0 \<or> (?A, ?B, k) \<in> T" by (rule hash_children_tree[OF assms(3) kd])
  show ?case
  proof (cases "s = 0")
    case False
    define L R where LR: "L = (if ?b = 1 then s else cur)" "R = (if ?b = 1 then cur else s)"
    have T: "(L, R, k) \<in> T" "path_triples H i (Suc k) (H [L, R, k]) ss \<subseteq> T"
      using Cons.prems(1) False unfolding LR by (simp_all add: Let_def)
    have "H [L, R, k] = lean_node H xs (Suc k) ?p \<or> (\<exists>(a, b, l) \<in> T. Suc k \<le> l \<and> H [L, R, k] = H [a, b, l])"
      using Cons.prems(2,3) False T(2) by (intro Cons.IH) (simp_all add: Let_def LR split: if_splits)
    moreover have "\<not> (\<exists>(a, b, l) \<in> T. Suc k \<le> l \<and> H [L, R, k] = H [a, b, l])"
      using collision_freeD[OF assms(2) T(1)] by fastforce
    ultimately have h: "H [L, R, k] = hash_children H k ?A ?B" using up by simp
    have "H [L, R, k] \<noteq> 0" by (rule hash_nonzeroD[OF assms(1) T(1)])
    moreover have "H [L, R, k] \<noteq> lean_node H xs k j" for j
      using hash_not_lower_node[OF assms(1-3,5) T(1)] kd by simp
    ultimately have e: "H [L, R, k] = H [?A, ?B, k]" "?A \<noteq> 0" "?B \<noteq> 0"
      using h unfolding hash_children_def by presburger+
    then have "L = ?A \<and> R = ?B" using collision_freeD[OF assms(2) T(1) _ e(1)] tr by simp
    then have lr: "L = ?A" "R = ?B" by simp_all
    from b show ?thesis
    proof (elim disjE conjE)
      assume "?b = 0" "i div 2 ^ k = 2 * ?p"
      with lr(1) LR(1) show ?thesis by (metis zero_neq_one)
    next
      assume "?b = 1" "i div 2 ^ k = Suc (2 * ?p)"
      with lr(2) LR(2) show ?thesis by metis
    qed
  next
    case True
    then have z: "?b = 0" "i div 2 ^ k = 2 * ?p" using Cons.prems b by (auto simp: Let_def simp del: power_Suc)
    then have "cur = hash_children H k ?A ?B \<or> (\<exists>(a, b, l) \<in> T. Suc k \<le> l \<and> cur = H [a, b, l])"
      using Cons.prems True Cons.IH[of "Suc k" cur] up z(1) by (simp add: Let_def del: power_Suc)
    then show ?thesis
    proof (elim disjE)
      assume c: "cur = hash_children H k ?A ?B"
      show ?thesis
      proof (cases "?B = 0")
        case True
        with c z(2) show ?thesis by (auto simp: hash_children_def simp del: power_Suc)
      next
        case False
        with lean_node_left_first[OF assms(1,3,4) _ False] kd have A: "?A \<noteq> 0" by simp
        with c False have "cur = H [?A, ?B, k]" by (simp add: hash_children_def)
        moreover from A False tr have "(?A, ?B, k) \<in> T" by simp
        ultimately show ?thesis by (intro disjI2 bexI[of _ "(?A, ?B, k)"]) simp_all
      qed
    next
      assume "\<exists>(a, b, l) \<in> T. Suc k \<le> l \<and> cur = H [a, b, l]"
      then show ?thesis by (blast dest: Suc_leD)
    qed
  qed
qed simp

lemma bit_below_mod: "k < d \<Longrightarrow> i mod 2 ^ d div 2 ^ k mod 2 = (i :: nat) div 2 ^ k mod 2"
  using bit_take_bit_iff[of d i k] unfolding mod2_eq_if take_bit_eq_mod[symmetric] by (simp add: bit_iff_odd)

lemma foldPath_loop_mod:
  "k + length ss \<le> d \<Longrightarrow> foldPath_loop H (i mod 2 ^ d) k cur ss = foldPath_loop H i k cur ss"
proof (induction ss arbitrary: k cur)
  case (Cons s ss)
  have "i mod 2 ^ d div 2 ^ k mod 2 = i div 2 ^ k mod 2"
    using Cons.prems by (simp add: bit_below_mod)
  with Cons show ?case by (simp add: Let_def)
qed simp

lemma path_triples_mod:
  "k + length ss \<le> d \<Longrightarrow> path_triples H (i mod 2 ^ d) k cur ss = path_triples H i k cur ss"
proof (induction ss arbitrary: k cur)
  case (Cons s ss)
  have "i mod 2 ^ d div 2 ^ k mod 2 = i div 2 ^ k mod 2"
    using Cons.prems by (simp add: bit_below_mod)
  with Cons show ?case by (simp add: Let_def)
qed simp

text \<open>Everything hashed when a path is checked against a tree.\<close>

definition hashed :: "poseidon \<Rightarrow> fr list \<Rightarrow> nat \<Rightarrow> fr \<Rightarrow> nat \<Rightarrow> fr list \<Rightarrow> triples" where
  "hashed H xs d leaf i path = tree_triples H xs d \<union> path_triples H i 0 leaf path"

lemma path_sound:
  assumes "tree_of H t xs" "T = hashed H xs (depth t) x i path"
    and "hash_nonzero H T" "collision_free H T" "0 \<notin> set xs" "\<forall>y \<in> insert x (set xs). \<not> inner_hash H T y"
    and "x \<noteq> 0" "length path = depth t" "foldPath H x i path = Inr (getRoot t)"
  shows "i mod 2 ^ depth t < length xs \<and> xs ! (i mod 2 ^ depth t) = x"
proof -
  let ?i = "i mod 2 ^ depth t"
  have "foldPath_loop H ?i 0 x path = Inr (lean_node H xs (depth t) 0)"
    using assms(1,8,9) foldPath_loop_mod[of 0 path "depth t" H i x] by (simp add: foldPath_def getRoot_def tree_of_def)
  moreover have "path_triples H ?i 0 x path = path_triples H i 0 x path"
    using assms(8) by (simp add: path_triples_mod)
  ultimately have "x = lean_node H xs 0 ?i \<or> inner_hash H T x"
    using foldPath_loop_sound[OF assms(3,4) _ assms(5), of "depth t" ?i 0 x path] assms(2,6,8)
    by (auto simp: inner_hash_def hashed_def)
  with assms(6,7) show ?thesis by (auto split: if_splits)
qed

subsection \<open>The sources\<close>

lemma findIndex_Some: "findIndex x ys k = Some i \<Longrightarrow> k \<le> i \<and> i - k < length ys \<and> ys ! (i - k) = x"
proof (induction ys arbitrary: k)
  case (Cons y ys)
  show ?case
  proof (cases "y = x")
    case False
    then have "k + 1 \<le> i \<and> i - (k + 1) < length ys \<and> ys ! (i - (k + 1)) = x"
      using Cons.prems by (intro Cons.IH) simp
    moreover from this have "i - k = Suc (i - (k + 1))" by linarith
    ultimately show ?thesis by (simp add: nth_Cons_Suc)
  qed (use Cons.prems in simp)
qed simp

lemma findIndex_None: "findIndex x ys k = None \<longleftrightarrow> x \<notin> set ys"
  by (induction ys arbitrary: k) auto

lemma level_0: "level_nodes H xs 0 = xs"
  by (auto simp: level_nodes_def width_def intro!: nth_equalityI)

lemma localWitness_cases:
  assumes "tree_of H t xs"
  shows "localWitnessFor t leaf = Inl e \<longleftrightarrow> leaf \<notin> set xs \<and> e = WitnessSourceError LEAF_NOT_FOUND"
proof -
  have l0: "levels t ! 0 = xs" using assms by (simp add: tree_of_def level_0)
  show ?thesis
  proof (cases "findIndex leaf xs 0")
    case None
    then have "leaf \<notin> set xs" by (simp add: findIndex_None)
    with None l0 show ?thesis by (auto simp: localWitnessFor_def)
  next
    case (Some i)
    then have "i < length xs" "leaf \<in> set xs" using findIndex_Some[OF Some] findIndex_None[of leaf xs 0] by auto
    then show ?thesis using l0 Some getMerklePath_nodes[OF assms] by (simp add: localWitnessFor_def)
  qed
qed

lemma indexerWitness_verified:
  assumes "indexerWitnessFor H fs d transport leaf = Inr w"
  shows "length (w_siblings w) = d \<and> foldPath H leaf (w_leafIndex w) (w_siblings w) = Inr (w_root w)"
proof -
  obtain raw where raw: "transport leaf = Some raw"
    using assms by (cases "transport leaf") (auto simp: indexerWitnessFor_def)
  obtain j where j: "raw_leafIndex raw = JNum j"
    using assms raw by (cases "raw_leafIndex raw") (auto simp: indexerWitnessFor_def)
  obtain i where i: "j = NInt i"
    using assms raw j by (cases j) (auto simp: indexerWitnessFor_def)
  obtain ss where ss: "raw_siblings raw = JArr ss"
    using assms raw j i by (cases "raw_siblings raw") (auto simp: indexerWitnessFor_def)
  obtain rt where rt: "raw_root raw = JStr rt"
    using assms raw j i ss by (cases "raw_root raw") (auto simp: indexerWitnessFor_def)
  show ?thesis
    using assms by (auto simp: indexerWitnessFor_def raw j i ss rt split: if_splits dest: emap_length)
qed

subsection \<open>Building a tree\<close>

definition insert_all :: "poseidon \<Rightarrow> fr list \<Rightarrow> LeanIMT \<Rightarrow> LeanIMT" where
  "insert_all H xs t = fold (\<lambda>x t. snd (insert_leaf H x t)) xs t"

lemma insert_all_tree_of:
  assumes "newLeanIMT d = Inr t" "0 \<notin> set xs" "length xs \<le> 2 ^ nat d"
  shows "tree_of H (insert_all H xs t) xs \<and> depth (insert_all H xs t) = nat d"
  using assms(2,3)
proof (induction xs rule: rev_induct)
  case Nil
  then show ?case using newLeanIMT_tree_of[OF assms(1)] by (simp add: insert_all_def)
next
  case (snoc x xs)
  then have "tree_of H (insert_all H xs t) xs" "depth (insert_all H xs t) = nat d" by auto
  with snoc.prems insert_leaf_tree_of[of H "insert_all H xs t" xs x] show ?case
    by (simp add: insert_all_def)
qed

end
