(* ===== verification/Wallet_Properties.thy ===== *)
theory Wallet_Properties
  imports Spend_Plan Lean_Tree "HOL-Library.Countable"
begin

text \<open>
  What the wallet core guarantees: the planner proposes spends that can be carried out exactly when it
  says it can, and with as few notes as possible.
\<close>

section \<open>Planning a spend\<close>

text \<open>C29: a plan can be carried out and pays exactly the target. When the planner returns a plan, there
  are notes of the asset, all different, such that running the steps one after the other on the wallet's
  notes (each circuit consuming what it names, \<open>-1\<close> being the previous output, and what goes in being what
  comes out) consumes exactly those notes, pays out exactly the target and returns the rest of the total
  as one note; the plan has one step per note and announces one join fewer than that.\<close>

theorem plan_pays_target:
  assumes "planSpend ns intent policy = Inr plan"
    and "distinct (map leafIndex ns)" "\<forall>n\<in>set ns. 0 \<le> leafIndex n"
    and "intent_op intent = WITHDRAW \<or> intent_op intent = TRANSFER"
  shows "\<exists>sel. distinct sel \<and> set sel \<subseteq> {n \<in> set ns. assetId n = intent_asset intent} \<and>
    exec_plan (steps plan) (pool_of ns (intent_asset intent), None) 0 =
      Some (without (pool_of ns (intent_asset intent)) (leafIndex ` set sel), target intent,
            Some (totalSelected plan - target intent)) \<and>
    totalSelected plan = total_value sel \<and> target intent \<le> totalSelected plan \<and>
    length (steps plan) = length sel \<and> joinsRequired plan = length sel - 1"
  using assms(1)
proof (cases rule: planSpend_cases)
  case (single n)
  from bestFit_Some[OF forAsset_sorted single(2)] have n: "n \<in> set ns" "assetId n = intent_asset intent"
    "target intent \<le> val n" by (auto simp: set_forAsset)
  have "pool_of ns (intent_asset intent) (leafIndex n) = Some (val n)"
    using n(1,2) assms(2) by (rule pool_of_note)
  with n single(1,3) assms(3,4) show ?thesis
    by (intro exI[of _ "[n]"]) (auto simp: single_plan_def step_legal_def total_value_def without_one)
next
  case (joined cover)
  note cov = cover_subset[OF joined(3)]
  have sub: "set cover \<subseteq> {n \<in> set ns. assetId n = intent_asset intent \<and> 0 < val n}"
    using set_mset_mono[OF cov(1)] by (auto simp: set_forAsset)
  have "distinct (map leafIndex cover)"
    by (rule distinct_submset[OF cov(1) distinct_forAsset[OF assms(2)]])
  moreover have ne: "cover \<noteq> []" using cov(2) joined(1) by (auto simp: total_value_def)
  ultimately have "exec_plan (steps plan) (pool_of ns (intent_asset intent), None) 0 =
    Some (without (pool_of ns (intent_asset intent)) (leafIndex ` set cover), target intent,
          Some (total_value cover - target intent))"
    unfolding joined(4) using sub cov(2) joined(1) assms(2-4) by (intro exec_joined) (auto simp: pool_of_note)
  with sub cov(2) joined(4) \<open>distinct (map leafIndex cover)\<close> ne show ?thesis
    by (intro exI[of _ cover]) (auto simp: joined_plan_fields distinct_map)
qed

definition held_notes :: "PlannableNote list" where
  "held_notes = [\<lparr>leafIndex = 4, assetId = ''usdc'', val = 7\<rparr>, \<lparr>leafIndex = 1, assetId = ''usdc'', val = 5\<rparr>,
     \<lparr>leafIndex = 9, assetId = ''weth'', val = 90\<rparr>]"

definition withdraw_ten :: SpendIntent where
  "withdraw_ten = \<lparr>intent_op = WITHDRAW, intent_asset = ''usdc'', target = 10\<rparr>"

lemma ten_planned: "planSpend held_notes withdraw_ten DEFAULT_PLAN_POLICY = Inr
  \<lparr>steps = [\<lparr>op = JOIN, inputs = [1, 4], outgoing = 0, change = 12\<rparr>,
            \<lparr>op = WITHDRAW, inputs = [-1], outgoing = 10, change = 2\<rparr>],
   joinsRequired = 1, totalSelected = 12\<rparr>"
  by code_simp

theorem plan_pays_target_witness:
  "\<exists>sel. distinct sel \<and> set sel \<subseteq> {n \<in> set held_notes. assetId n = ''usdc''} \<and> total_value sel = 12 \<and> length sel = 2"
  using plan_pays_target[OF ten_planned] by (auto simp: held_notes_def withdraw_ten_def)

text \<open>C32: the advertised limit is exact. \<^verbatim>\<open>planSpend\<close> succeeds for exactly the positive targets up to the
  \<^verbatim>\<open>withPlan\<close> figure that \<^verbatim>\<open>spendableBalance\<close> computes independently for the same notes, asset and policy.\<close>

theorem spend_limit_exact:
  "(\<exists>plan. planSpend ns intent policy = Inr plan) \<longleftrightarrow>
    0 < target intent \<and> target intent \<le> withPlan (spendableBalance ns (intent_asset intent) policy)"
  by (blast dest: planSpend_within intro: planSpend_reaches)

text \<open>C33: no plan uses more notes than it has to. Whatever notes of the asset together cover the target,
  there are at least as many of them as the plan has steps; and a spend from one note takes the smallest
  note that covers the target without leaving dust, or the smallest that covers it at all when every
  covering note would leave dust.\<close>

theorem plan_uses_fewest_notes:
  assumes "planSpend ns intent policy = Inr plan"
  shows "(\<forall>M. M \<subseteq># mset (forAsset ns (intent_asset intent)) \<and> target intent \<le> (\<Sum>n\<in>#M. val n) \<longrightarrow>
      length (steps plan) \<le> size M) \<and>
    (length (steps plan) = 1 \<longrightarrow> (\<exists>n \<in> set (forAsset ns (intent_asset intent)).
      plan = single_plan intent n \<and> target intent \<le> val n \<and>
      (\<forall>x \<in> set (forAsset ns (intent_asset intent)). target intent \<le> val x \<longrightarrow>
        (if is_dust policy (val n - target intent) then is_dust policy (val x - target intent) \<and> val n \<le> val x
         else is_dust policy (val x - target intent) \<or> val n \<le> val x))))"
  using assms
proof (cases rule: planSpend_cases)
  case (single n)
  have "M \<noteq> {#}" if "target intent \<le> (\<Sum>n\<in>#M. val n)" for M
    using that single(1) by auto
  then have "\<forall>M. target intent \<le> (\<Sum>n\<in>#M. val n) \<longrightarrow> 1 \<le> size M"
    by (metis One_nat_def Suc_leI nonempty_has_size)
  with single(3) bestFit_Some[OF forAsset_sorted single(2)] show ?thesis
    by (intro conjI impI bexI[of _ n]) (auto simp: single_plan_def split: if_splits)
next
  case (joined cover)
  note cov = cover_subset[OF joined(3)]
  have ne: "cover \<noteq> []" using cov(2) joined(1) by (auto simp: total_value_def)
  have min: "length cover \<le> size M"
    if "M \<subseteq># mset (forAsset ns (intent_asset intent))" "target intent \<le> (\<Sum>n\<in>#M. val n)" for M
    using sum_le_largest[OF that(1) order.refl] that(2) minimalCover_Some[OF joined(3)]
    by (metis linorder_not_less order.strict_trans2 total_value_sum)
  have "length cover \<noteq> 1"
    using joined(2) cov(2) set_mset_mono[OF cov(1)]
    by (auto simp: length_Suc_conv total_value_def bestFit_None not_le[symmetric])
  with min joined(4) joined_plan_fields(1)[OF ne, of intent] show ?thesis by auto
qed

theorem plan_uses_fewest_notes_witness: "\<not> (\<exists>M. M \<subseteq># mset (forAsset held_notes ''usdc'') \<and> 10 \<le> (\<Sum>n\<in>#M. val n) \<and> size M < 2)"
  using plan_uses_fewest_notes[OF ten_planned] by (auto simp: withdraw_ten_def not_less)

definition three_notes :: "PlannableNote list" where
  "three_notes = [\<lparr>leafIndex = 0, assetId = ''a'', val = 1\<rparr>, \<lparr>leafIndex = 1, assetId = ''a'', val = 10\<rparr>,
     \<lparr>leafIndex = 2, assetId = ''a'', val = 11\<rparr>]"

text \<open>The notes that are joined are not always the smallest sum that covers the target with that many
  notes, although \<^verbatim>\<open>minimalCover\<close> says they are: it only tries runs of neighbours in the sorted list. With
  notes of 1, 10 and 11 and a target of 12, it joins 10 and 11, while 1 and 11 reach 12 exactly.\<close>

theorem cover_not_smallest:
  "\<exists>cover other. minimalCover (forAsset three_notes ''a'') 12 = Some cover \<and>
     set other \<subseteq> set three_notes \<and> distinct other \<and> length other = length cover \<and>
     12 \<le> total_value other \<and> total_value other < total_value cover"
proof -
  have "minimalCover (forAsset three_notes ''a'') 12 = Some (tl three_notes)" by code_simp
  then show ?thesis
    by (intro exI[of _ "tl three_notes"] exI[of _ "[hd three_notes, three_notes ! 2]"])
      (simp add: three_notes_def total_value_def)
qed

section \<open>The note tree\<close>

text \<open>C30: the incremental tree is the tree it stands for, and every leaf can be opened. After any list of
  non-zero leaves that fits is inserted into a new tree, and none of the pairs hashed on the way hashes to
  zero, the root is that of the reference tree over those
  leaves, and for every leaf \<^verbatim>\<open>getMerklePath\<close> returns one sibling per level with which \<^verbatim>\<open>foldPath\<close>
  recomputes exactly that root.\<close>

theorem every_leaf_opens:
  assumes "newLeanIMT d = Inr t" "0 \<notin> set xs" "length xs \<le> 2 ^ nat d"
    and "hash_nonzero H (tree_triples H xs (nat d))"
  shows "getRoot (insert_all H xs t) = lean_node H xs (nat d) 0 \<and>
    (\<forall>i < length xs. \<exists>path. getMerklePath (insert_all H xs t) i = Inr path \<and> length path = nat d \<and>
      foldPath H (xs ! i) i path = Inr (getRoot (insert_all H xs t)))"
proof (intro conjI allI impI)
  note tree = insert_all_tree_of[OF assms(1-3), of H]
  then show "getRoot (insert_all H xs t) = lean_node H xs (nat d) 0"
    by (simp add: getRoot_def tree_of_def)
  fix i assume "i < length xs"
  with tree show "\<exists>path. getMerklePath (insert_all H xs t) i = Inr path \<and> length path = nat d \<and>
      foldPath H (xs ! i) i path = Inr (getRoot (insert_all H xs t))"
    using path_complete[of H "insert_all H xs t" xs i] assms(2,4) by metis
qed

definition sample_hash :: poseidon where
  "sample_hash xs = 2 * list_encode xs + 1"

lemma sample_hash_ok:
  "hash_nonzero sample_hash T" "collision_free sample_hash T" "even x \<Longrightarrow> \<not> inner_hash sample_hash T x"
  by (auto simp: hash_nonzero_def collision_free_def inner_hash_def sample_hash_def list_encode_eq inj_on_def)

definition tree_1 :: LeanIMT where
  "tree_1 = \<lparr>depth = 1, levels = [[]], nextLeafIndex = 0, currentRoot = 0\<rparr>"

lemma tree_1_new: "newLeanIMT 1 = Inr tree_1"
  by (simp add: newLeanIMT_def tree_1_def)

lemma tree_1_root: "getRoot (insert_all sample_hash [2, 4] tree_1) = sample_hash [2, 4, 0]"
  by (simp add: insert_all_def insert_leaf_def tree_1_def insert_level_def hash_children_def node_or_zero_def
      sibling_index_def getRoot_def)

theorem every_leaf_opens_witness:
  "\<exists>path. getMerklePath (insert_all sample_hash [2, 4] tree_1) 1 = Inr path \<and>
     foldPath sample_hash 4 1 path = Inr (sample_hash [2, 4, 0])"
  using every_leaf_opens[OF tree_1_new, of "[2, 4]" sample_hash] sample_hash_ok by (auto simp: tree_1_root)

text \<open>C31: no witness an indexer sends opens a leaf that is not in the tree. Suppose a witness that
  \<^verbatim>\<open>IndexerWitnessSource\<close> accepts for a leaf claims the root of a tree built from some leaves, that
  among the triples hashed to build the tree and to fold the witness no two collide and none gives zero,
  and that no leaf is itself the hash of one of these triples. Then the index it names, modulo the size of
  the tree, is one at which that leaf really is.\<close>

theorem no_false_membership:
  assumes "newLeanIMT d = Inr t" "0 \<notin> set xs" "length xs \<le> 2 ^ nat d"
    and "indexerWitnessFor H fromString (nat d) transport leaf = Inr w"
    and "w_root w = getRoot (insert_all H xs t)" "leaf \<noteq> 0"
    and "T = hashed H xs (nat d) leaf (w_leafIndex w) (w_siblings w)"
    and "hash_nonzero H T" "collision_free H T" "\<forall>x \<in> insert leaf (set xs). \<not> inner_hash H T x"
  shows "w_leafIndex w mod 2 ^ nat d < length xs \<and> xs ! (w_leafIndex w mod 2 ^ nat d) = leaf"
proof -
  note tree = insert_all_tree_of[OF assms(1-3), of H]
  from indexerWitness_verified[OF assms(4)] assms(5)
  have "foldPath H leaf (w_leafIndex w) (w_siblings w) = Inr (getRoot (insert_all H xs t))"
    "length (w_siblings w) = nat d" by auto
  with path_sound[of H "insert_all H xs t" xs T leaf "w_leafIndex w" "w_siblings w"] tree assms(2,6-10)
  show ?thesis by auto
qed

definition sample_text :: "jsval \<Rightarrow> fr option" where
  "sample_text v = (if v = JStr ''0x04'' then Some 4 else Some (sample_hash [2, 4, 0]))"

definition sample_answer :: "int \<Rightarrow> fr \<Rightarrow> raw_witness option" where
  "sample_answer i leaf = Some \<lparr>raw_leafIndex = JNum (NInt i), raw_siblings = JArr [JStr ''0x04''], raw_root = JStr ''0xroot''\<rparr>"

lemma sample_answer_accepted:
  "indexerWitnessFor sample_hash sample_text (nat 1) (sample_answer 0) 2 =
     Inr \<lparr>w_leafIndex = 0, w_siblings = [4], w_root = sample_hash [2, 4, 0]\<rparr>"
  by (simp add: indexerWitnessFor_def sample_answer_def sample_text_def fr_parse_def foldPath_def)

theorem no_false_membership_witness: "[2, 4] ! (0 mod 2 ^ nat 1) = (2 :: fr)"
  using no_false_membership[OF tree_1_new, where xs = "[2, 4]" and leaf = 2, OF _ _ sample_answer_accepted]
    sample_hash_ok by (simp add: tree_1_root)

text \<open>The index of a witness is only checked modulo the size of the tree. \<^verbatim>\<open>witnessSources.ts\<close> says the
  index is uniquely determined by the leaf and the root and that a bad answer is caught before it is
  returned, but \<^verbatim>\<open>foldPath\<close> reads only as many bits of the index as there are siblings: from an accepted
  answer the indexer can make another accepted one by adding \<open>2 ^ depth\<close> to the index.\<close>

theorem indexer_index_aliases:
  assumes "indexerWitnessFor H fromString d (\<lambda>_. Some \<lparr>raw_leafIndex = JNum (NInt i), raw_siblings = ss, raw_root = rt\<rparr>) leaf = Inr w"
  shows "indexerWitnessFor H fromString d
      (\<lambda>_. Some \<lparr>raw_leafIndex = JNum (NInt (i + 2 ^ d)), raw_siblings = ss, raw_root = rt\<rparr>) leaf =
    Inr (w\<lparr>w_leafIndex := w_leafIndex w + 2 ^ d\<rparr>)"
proof -
  obtain sl where sl: "ss = JArr sl" using assms by (cases ss) (auto simp: indexerWitnessFor_def)
  obtain r where r: "rt = JStr r" using assms sl by (cases rt) (auto simp: indexerWitnessFor_def)
  have i: "0 \<le> i" "length sl = d" using assms sl r by (auto simp: indexerWitnessFor_def split: if_splits)
  then have n: "nat (i + 2 ^ d) = nat i + 2 ^ d" by (simp add: nat_add_distrib nat_power_eq)
  have "foldPath H leaf (nat i + 2 ^ d) path = foldPath H leaf (nat i) path" if "length path = d" for path
    using foldPath_loop_mod[of 0 path d H "nat i + 2 ^ d" leaf] foldPath_loop_mod[of 0 path d H "nat i" leaf] that
    by (simp add: foldPath_def)
  moreover have "\<not> i + 2 ^ length sl < 0" using i by (simp add: not_less)
  ultimately show ?thesis
    using assms sl r i by (auto simp: indexerWitnessFor_def n split: if_splits dest!: emap_length)
qed

theorem indexer_index_aliases_witness:
  "indexerWitnessFor sample_hash sample_text 1 (sample_answer (0 + 2 ^ 1)) 2 =
     Inr \<lparr>w_leafIndex = 2, w_siblings = [4], w_root = sample_hash [2, 4, 0]\<rparr>"
  using indexer_index_aliases[of sample_hash sample_text 1 0 "JArr [JStr ''0x04'']" "JStr ''0xroot''" 2]
    sample_answer_accepted unfolding sample_answer_def[abs_def] by simp

end
