(* ===== verification/Counter_Store.thy ===== *)
theory Counter_Store
  imports Sync_Lemmas
begin

text \<open>
  The durable ephemeral counter of the wallet: the interface and the in-memory and sealed stores of
  \<^verbatim>\<open>src/packages/wallets/src/state/EphemeralCounterStore.ts\<close>, the store over any durable medium of
  \<^verbatim>\<open>src/packages/wallets/src/state/PersistentEphemeralCounterStore.ts\<close>, its binding to the synchronised
  state payload, \<^verbatim>\<open>src/packages/pss-integration/src/pssEphemeralCounterStore.ts\<close>, and the reconciliation
  with the chain of \<^verbatim>\<open>src/packages/wallets/src/discovery/reconcile.ts\<close>.

  A store is two functions, \<^verbatim>\<open>reserve\<close> and \<^verbatim>\<open>highWater\<close>, over a state; the lock of the source makes each
  of them one step. The locale \<open>counter_store\<close> is the contract the source states in prose above the
  interface: on return the high-water mark is already above the block, and it never comes down.
\<close>

section \<open>Reservations\<close>

record reservation =
  res_base :: int
  res_span :: int

definition commit :: "reservation \<Rightarrow> int \<Rightarrow> unit result" where
  "commit r usedThrough =
     (if usedThrough < res_base r \<or> usedThrough \<ge> res_base r + res_span r
      then Inl (PlainError ''ephemeral commit: usedThrough out of reserved span'') else Inr ())"

definition release :: "reservation \<Rightarrow> unit result" where
  "release r = Inr ()"

definition span_error :: pss_error where
  "span_error = PlainError ''ephemeral reserve: span must be a positive integer''"

section \<open>The in-memory and the sealed store\<close>

record mem_store =
  ms_highWater :: "(string \<times> int) list"
  ms_failNextWrite :: bool

definition new_mem_store :: "(string \<times> int) list \<Rightarrow> mem_store" where
  "new_mem_store snapshot = \<lparr>ms_highWater = snapshot, ms_failNextWrite = False\<rparr>"

definition mem_highWater :: "mem_store \<Rightarrow> string \<Rightarrow> int" where
  "mem_highWater s scope = counter_of (ms_highWater s) scope"

definition mem_reserve :: "string \<Rightarrow> int \<Rightarrow> (mem_store, pss_error, reservation) action" where
  "mem_reserve scope span s =
     (if span \<le> 0 then (Inl span_error, s)
      else if ms_failNextWrite s
      then (Inl (PlainError ''ephemeral reserve: durable write failed''), s\<lparr>ms_failNextWrite := False\<rparr>)
      else let base = mem_highWater s scope in
        (Inr \<lparr>res_base = base, res_span = span\<rparr>,
         s\<lparr>ms_highWater := AList.update scope (base + span) (ms_highWater s)\<rparr>))"

definition mem_failNextWrite :: "mem_store \<Rightarrow> mem_store" where
  "mem_failNextWrite s = s\<lparr>ms_failNextWrite := True\<rparr>"

definition sealed_reserve :: "string \<Rightarrow> int \<Rightarrow> (unit, pss_error, reservation) action" where
  "sealed_reserve scope span s = (Inl (PlainError ''no durable ephemeral counter configured''), s)"

definition sealed_highWater :: "unit \<Rightarrow> string \<Rightarrow> int" where
  "sealed_highWater s scope = 0"

section \<open>A store over a durable medium\<close>

text \<open>\<open>persist\<close> is \<^verbatim>\<open>CounterPersistence.reserve\<close>, \<open>read\<close> is \<^verbatim>\<open>CounterPersistence.read\<close>.\<close>

definition persistent_reserve ::
  "(string \<Rightarrow> int \<Rightarrow> ('s, pss_error, int) action) \<Rightarrow> string \<Rightarrow> int \<Rightarrow> ('s, pss_error, reservation) action"
where
  "persistent_reserve persist scope span =
     (if span \<le> 0 then sthrow span_error
      else sbind (persist scope span) (\<lambda>base.
        if \<not> isSafeInteger base \<or> base < 0 \<or> \<not> isSafeInteger (base + span)
        then sthrow (PlainError ''ephemeral reserve: persistence returned invalid base'')
        else sret \<lparr>res_base = base, res_span = span\<rparr>))"

definition persistent_highWater :: "('s \<Rightarrow> (string \<times> int) list) \<Rightarrow> 's \<Rightarrow> string \<Rightarrow> int" where
  "persistent_highWater read s scope = counter_of (read s) scope"

section \<open>The medium is the synchronised payload\<close>

definition withCounters :: "parsed_state_payload \<Rightarrow> (string \<times> int) list \<Rightarrow> parsed_state_payload" where
  "withCounters payload next1 =
     \<lparr>known = (known payload)\<lparr>sp_ephemeralCounters := next1\<rparr>, extra = extra payload\<rparr>"

definition reserve_change ::
  "string \<Rightarrow> int \<Rightarrow> parsed_state_payload \<Rightarrow> (parsed_state_payload \<times> int) result"
where
  "reserve_change scope span payload =
     (let base = counter_of (sp_ephemeralCounters (known payload)) scope; next1 = base + span in
      if \<not> isSafeInteger next1
      then Inl (PlainError ''ephemeral reserve: high-water exceeds the safe integer range'')
      else Inr (withCounters payload (js_spread (sp_ephemeralCounters (known payload)) [(scope, next1)]), base))"

definition pss_persist :: "'w env \<Rightarrow> sync_deps \<Rightarrow> string \<Rightarrow> int \<Rightarrow> ('w, int) sync_action" where
  "pss_persist E D scope span = mutateAsWriterDurably E D (reserve_change scope span)"

definition pss_read :: "sync \<times> 'w \<Rightarrow> (string \<times> int) list" where
  "pss_read sw = sp_ephemeralCounters (known (sy_local (fst sw)))"

definition pss_reserve :: "'w env \<Rightarrow> sync_deps \<Rightarrow> string \<Rightarrow> int \<Rightarrow> ('w, reservation) sync_action" where
  "pss_reserve E D = persistent_reserve (pss_persist E D)"

definition pss_highWater :: "sync \<times> 'w \<Rightarrow> string \<Rightarrow> int" where
  "pss_highWater = persistent_highWater pss_read"

section \<open>Reconciling with the chain\<close>

text \<open>\<^verbatim>\<open>ratchetCounter\<close>, over any store.\<close>

definition ratchetCounter ::
  "(string \<Rightarrow> int \<Rightarrow> ('s, pss_error, reservation) action) \<Rightarrow> ('s \<Rightarrow> string \<Rightarrow> int) \<Rightarrow>
   string \<Rightarrow> int \<Rightarrow> ('s, pss_error, int) action"
where
  "ratchetCounter reserve highWater scope toExclusive =
     (if toExclusive < 0 then sthrow (PlainError ''ratchet target is not a non-negative integer'')
      else sbind sget (\<lambda>s. let current = highWater s scope in
        if toExclusive \<le> current then sret current
        else sbind (reserve scope (toExclusive - current)) (\<lambda>_. sret toExclusive)))"

text \<open>What discovery answers for one tag; a tag is the field element it is. The record is not looked at.\<close>

record probe_entry =
  pe_tag :: nat
  pe_occurrenceCount :: int

definition occupiedTags ::
  "(nat list \<Rightarrow> probe_entry list result) \<Rightarrow> (int \<times> nat) list \<Rightarrow> int list result"
where
  "occupiedTags probeFirst tags =
     (if tags = [] then Inr []
      else ebind (probeFirst (map snd tags)) (\<lambda>probed.
        let byTag = map_of (rev (map (\<lambda>(i, t). (t, i)) tags)) in
        Inr (fold (\<lambda>entry occupied.
          if pe_occurrenceCount entry \<le> 0 then occupied
          else case byTag (pe_tag entry) of
            None \<Rightarrow> occupied | Some i \<Rightarrow> List.insert i occupied) probed [])))"

definition reconcileCounterWithChain ::
  "(nat list \<Rightarrow> probe_entry list result) \<Rightarrow> (string \<Rightarrow> int \<Rightarrow> ('s, pss_error, reservation) action) \<Rightarrow>
   ('s \<Rightarrow> string \<Rightarrow> int) \<Rightarrow> string \<Rightarrow> (int \<times> nat) list \<Rightarrow> ('s, pss_error, int \<times> int list) action"
where
  "reconcileCounterWithChain probeFirst reserve highWater scope candidates =
     sbind (slift (occupiedTags probeFirst candidates)) (\<lambda>occupied.
       let sorted1 = sort occupied; highest = (if sorted1 = [] then -1 else last sorted1) in
       sbind (ratchetCounter reserve highWater scope (highest + 1)) (\<lambda>highWater1.
         sret (highWater1, sorted1)))"

section \<open>The contract\<close>

text \<open>A reserved block of indices.\<close>

definition block :: "reservation \<Rightarrow> int set" where
  "block r = {res_base r ..< res_base r + res_span r}"

locale counter_store =
  fixes reserve :: "string \<Rightarrow> int \<Rightarrow> ('s, pss_error, reservation) action"
    and highWater :: "'s \<Rightarrow> string \<Rightarrow> int"
    and inv :: "'s \<Rightarrow> bool" and scope_ok :: "string \<Rightarrow> bool"
  assumes reserve_inv: "inv s \<Longrightarrow> inv (snd (reserve scope span s))"
    and reserve_mono: "inv s \<Longrightarrow> highWater s k \<le> highWater (snd (reserve scope span s)) k"
    and reserve_ok: "inv s \<Longrightarrow> scope_ok scope \<Longrightarrow> reserve scope span s = (Inr r, s') \<Longrightarrow>
      0 < span \<and> res_span r = span \<and> highWater s scope \<le> res_base r \<and> res_base r + span \<le> highWater s' scope"
    and highWater_nonneg: "inv s \<Longrightarrow> 0 \<le> highWater s scope"
begin

text \<open>A client that reserves again and again, each time in some scope; failed attempts leave \<open>None\<close>.\<close>

fun reserve_all :: "(string \<times> int) list \<Rightarrow> 's \<Rightarrow> (string \<times> reservation) list \<times> 's" where
  "reserve_all [] s = ([], s)"
| "reserve_all ((scope, span) # reqs) s = (case reserve scope span s of
     (Inl e, s') \<Rightarrow> reserve_all reqs s'
   | (Inr r, s') \<Rightarrow> (case reserve_all reqs s' of (rs, s'') \<Rightarrow> ((scope, r) # rs, s'')))"

lemma reserve_all_above:
  assumes "inv s" "\<forall>(sc, sp) \<in> set reqs. scope_ok sc" "(sc, r) \<in> set (fst (reserve_all reqs s))"
  shows "highWater s sc \<le> res_base r \<and> 0 < res_span r"
  using assms
proof (induction reqs arbitrary: s)
  case (Cons q reqs)
  obtain scope span where q: "q = (scope, span)" by (cases q)
  obtain v s' where v: "reserve scope span s = (v, s')" by fastforce
  have s': "inv s'" "highWater s sc \<le> highWater s' sc"
    using reserve_inv[OF Cons.prems(1), of scope span] reserve_mono[OF Cons.prems(1), of sc scope span] v by auto
  have IH: "(sc, r) \<in> set (fst (reserve_all reqs s')) \<Longrightarrow> highWater s' sc \<le> res_base r \<and> 0 < res_span r"
    using Cons.IH[OF s'(1)] Cons.prems(2) by auto
  show ?case
  proof (cases v)
    case (Inl e)
    with Cons.prems(3) v q IH s'(2) show ?thesis by auto
  next
    case (Inr r0)
    have "0 < span \<and> res_span r0 = span \<and> highWater s scope \<le> res_base r0"
      using reserve_ok[OF Cons.prems(1) _ v[unfolded Inr]] Cons.prems(2) q by auto
    with Cons.prems(3) v q Inr IH s'(2) show ?thesis by (auto split: prod.splits)
  qed
qed simp

text \<open>No index is handed out twice in a scope.\<close>

lemma reserve_all_disjoint:
  assumes "inv s" "\<forall>(sc, sp) \<in> set reqs. scope_ok sc" "fst (reserve_all reqs s) = rs"
    and "i < j" "j < length rs" "fst (rs ! i) = fst (rs ! j)"
  shows "block (snd (rs ! i)) \<inter> block (snd (rs ! j)) = {}"
  using assms
proof (induction reqs arbitrary: s rs i j)
  case (Cons q reqs)
  obtain scope span where q: "q = (scope, span)" by (cases q)
  obtain v s' where v: "reserve scope span s = (v, s')" by fastforce
  have s': "inv s'" using reserve_inv[OF Cons.prems(1), of scope span] v by simp
  have ok: "\<forall>(sc, sp) \<in> set reqs. scope_ok sc" "scope_ok scope" using Cons.prems(2) q by auto
  show ?case
  proof (cases v)
    case (Inl e)
    with Cons q v s' ok show ?thesis by auto
  next
    case (Inr r0)
    obtain rs' where rs: "rs = (scope, r0) # rs'" "fst (reserve_all reqs s') = rs'"
      using Cons.prems(3) q v Inr by (auto split: prod.splits)
    have r0: "res_base r0 + res_span r0 \<le> highWater s' scope"
      using reserve_ok[OF Cons.prems(1) ok(2) v[unfolded Inr]] by simp
    show ?thesis
    proof (cases i)
      case 0
      then have "(scope, snd (rs ! j)) \<in> set rs'"
        using Cons.prems(4-6) rs(1) by (cases j) (auto simp: in_set_conv_nth prod_eq_iff)
      with reserve_all_above[OF s' ok(1)] rs(2) have "highWater s' scope \<le> res_base (snd (rs ! j))" by auto
      with r0 show ?thesis using 0 rs(1) by (auto simp: block_def)
    next
      case (Suc i')
      then obtain j' where j: "j = Suc j'" using Cons.prems(4) by (cases j) auto
      show ?thesis
        using Cons.IH[OF s' ok(1) rs(2), of i' j'] Cons.prems(4-6) rs(1) Suc j by simp
    qed
  qed
qed simp

lemma ratchet_reaches:
  assumes "inv s" "scope_ok scope" "ratchetCounter reserve highWater scope n s = (Inr h, s')"
  shows "n \<le> highWater s' scope \<and> h \<le> highWater s' scope \<and> n \<le> h \<and> inv s'"
proof (cases "n \<le> highWater s scope")
  case True
  with assms show ?thesis by (auto simp: ratchetCounter_def sbind_def sget_def sret_def sthrow_def split: if_splits)
next
  case False
  obtain v t where v: "reserve scope (n - highWater s scope) s = (v, t)" by fastforce
  with False assms(3) obtain r where r: "v = Inr r" "h = n" "s' = t"
    by (auto simp: ratchetCounter_def sbind_def sget_def sret_def sthrow_def split: if_splits sum.splits)
  with reserve_ok[OF assms(1,2) v[unfolded r(1)]] reserve_inv[OF assms(1), of scope "n - highWater s scope"] v
  show ?thesis by simp
qed

end

section \<open>The in-memory and the sealed store keep the contract\<close>

lemma counter_of_update: "counter_of (AList.update k v cs) k' = (if k' = k then v else counter_of cs k')"
  by (simp add: counter_of_def)

interpretation mem_counter: counter_store mem_reserve mem_highWater "\<lambda>s. \<forall>k. 0 \<le> mem_highWater s k" "\<lambda>_. True"
  by unfold_locales
    (auto simp: mem_reserve_def mem_highWater_def Let_def counter_of_update split: if_splits)

interpretation sealed_counter: counter_store sealed_reserve sealed_highWater "\<lambda>_. True" "\<lambda>_. True"
  by unfold_locales (simp_all add: sealed_reserve_def sealed_highWater_def)

section \<open>The synchronised payload keeps the contract\<close>

text \<open>A payload that is well-formed but for the number of its counter scopes, which a merge may exceed.\<close>

definition local_ok :: "parsed_state_payload \<Rightarrow> bool" where
  "local_ok p \<longleftrightarrow> payload_wf (without_counters p) \<and> counters_ok (sp_ephemeralCounters (known p))"

text \<open>A snapshot of such a payload, when it succeeds, is the payload.\<close>

lemma decode_local_ok:
  assumes "local_ok p" "decodeStatePayload (serializeStatePayload p) = Inr q"
  shows "q = p"
proof (cases "length (sp_ephemeralCounters (known p)) \<le> MAX_COUNTER_SCOPES")
  case True
  with assms(1) have "payload_wf p" unfolding payload_wf_split [of p] by (simp add: local_ok_def counters_wf_iff)
  from decode_serialize [OF this] assms(2) show ?thesis by simp
next
  case False
  with assms decode_overflow [of p] show ?thesis by (auto simp: local_ok_def)
qed

lemma js_spread_one: "js_spread cs [(k, v)] = AList.update k v cs"
  by (simp add: js_spread_def)

text \<open>The turn of a reservation: the base is the local counter, and the counter ends above the block.\<close>

lemma reserve_turn:
  assumes "local_ok (sy_local s)" "COUNTER_SCOPE_SHAPE scope" "0 < span"
    and "durable_turn D (reserve_change scope span) (s, w) = (Inr base, (s', w'))"
  shows "base = counter_of (local_counters s) scope" "sy_storedVersion s' = sy_storedVersion s"
    "counter_of (local_counters s') k = (if k = scope then base + span else counter_of (local_counters s) k)"
proof -
  from durable_turn_Inr [OF assms(4)] obtain snap p q where
    t: "snapshotPayload (sy_local s) = Inr snap" "reserve_change scope span snap = Inr (p, base)"
      "decodeStatePayload (serializeStatePayload p) = Inr q" "s' = changed D q s" by blast
  have snap: "snap = sy_local s" using t(1) decode_local_ok [OF assms(1)] by (simp add: snapshotPayload_def)
  let ?cs = "local_counters s"
  have cs: "counters_ok ?cs" using assms(1) by (simp add: local_ok_def)
  show base: "base = counter_of ?cs scope" using t(2) by (auto simp: reserve_change_def Let_def snap split: if_splits)
  have safe: "isSafeInteger (base + span)" and p: "p = withCounters (sy_local s) (AList.update scope (base + span) ?cs)"
    using t(2) by (auto simp: reserve_change_def Let_def snap js_spread_one split: if_splits)
  have "0 \<le> base" using counters_ok_nonneg [OF cs] base by simp
  then have "is_count (base + span)" using safe assms(3) by (simp add: is_count_def)
  then have up: "counters_ok (AList.update scope (base + span) ?cs)"
    using cs assms(2) set_update_subset [of scope "base + span" ?cs]
    by (auto simp: counters_ok_def list_all_iff distinct_fst_update)
  then have "local_ok p"
    using assms(1) by (cases "sy_local s") (simp add: p withCounters_def local_ok_def without_counters_def)
  then have q: "q = p" by (rule decode_local_ok [OF _ t(3)])
  show "sy_storedVersion s' = sy_storedVersion s" by (simp add: t(4) changed_def Let_def)
  have "local_counters s' = mergeEphemeralCounterSnapshots [?cs, AList.update scope (base + span) ?cs]"
    by (simp add: t(4) changed_def Let_def q p withCounters_def)
  then show "counter_of (local_counters s') k = (if k = scope then base + span else counter_of ?cs k)"
    using merge_two [OF cs up] base assms(3) by (simp add: counter_of_update)
qed

end
