(* ===== verification/Counter_Protocol.thy ===== *)
theory Counter_Protocol
  imports Counter_Store
begin

text \<open>
  Several installs of one wallet reserving ephemeral indices through one server slot. Each install runs the
  pull, turn and push of \<^verbatim>\<open>mutateAsWriterDurably\<close> (\<^verbatim>\<open>pss-client/src/sync/stateSync.ts\<close>) with the change of
  \<^verbatim>\<open>pssEphemeralCounterStore.ts\<close>; the slot accepts a write only against the version it replaces. The steps
  interleave freely: reads may return any earlier version, requests may be delivered late, lost, or
  delivered with the answer lost, an install may restart with any memory or none.

  A version of the slot is the function from scopes to counters that its payload holds; versions are
  numbered from one, so \<open>hist ! (v - 1)\<close> is version \<open>v\<close>. The lemmas of the last section show that the
  source's pull, turn and push do to an install what the steps here do to a device.
\<close>

section \<open>Devices, messages and the slot\<close>

record device =
  dv_stored :: nat
  dv_high :: "string \<Rightarrow> int"
  dv_await :: "nat option"

record message =
  mg_id :: nat
  mg_dev :: nat
  mg_prev :: nat
  mg_high :: "string \<Rightarrow> int"
  mg_res :: "(string \<times> reservation) option"

record fleet =
  hist :: "(string \<Rightarrow> int) list"
  devs :: "nat \<Rightarrow> device"
  net :: "message list"
  committed :: "message list"
  issued :: "message list"

definition dv_pull :: "nat \<Rightarrow> (string \<Rightarrow> int) \<Rightarrow> device \<Rightarrow> device" where
  "dv_pull v h d = d\<lparr>dv_stored := v, dv_high := (\<lambda>k. max (dv_high d k) (h k))\<rparr>"

definition dv_reserve :: "string \<Rightarrow> int \<Rightarrow> device \<Rightarrow> device" where
  "dv_reserve scope span d = d\<lparr>dv_high := (dv_high d)(scope := dv_high d scope + span)\<rparr>"

definition reserved :: "string \<Rightarrow> int \<Rightarrow> device \<Rightarrow> reservation" where
  "reserved scope span d = \<lparr>res_base = dv_high d scope, res_span = span\<rparr>"

text \<open>The request a device sends: everything it holds, against the version it last saw.\<close>

definition request :: "nat \<Rightarrow> nat \<Rightarrow> device \<Rightarrow> (string \<times> reservation) option \<Rightarrow> message" where
  "request i d dv r = \<lparr>mg_id = i, mg_dev = d, mg_prev = dv_stored dv, mg_high = dv_high dv, mg_res = r\<rparr>"

definition set_dev :: "nat \<Rightarrow> device \<Rightarrow> fleet \<Rightarrow> fleet" where
  "set_dev d dv f = f\<lparr>devs := (devs f)(d := dv)\<rparr>"

definition send :: "nat \<Rightarrow> device \<Rightarrow> (string \<times> reservation) option \<Rightarrow> fleet \<Rightarrow> fleet" where
  "send d dv r f = (set_dev d (dv\<lparr>dv_await := Some (length (net f))\<rparr>) f)
     \<lparr>net := net f @ [request (length (net f)) d dv r]\<rparr>"

inductive fleet_step :: "fleet \<Rightarrow> fleet \<Rightarrow> bool" where
  pull: "0 < v \<Longrightarrow> v \<le> length (hist f) \<Longrightarrow>
    fleet_step f (set_dev d (dv_pull v (hist f ! (v - 1)) (devs f d)) f)"
| change: "(\<forall>k. dv_high (devs f d) k \<le> h k) \<Longrightarrow> fleet_step f (set_dev d ((devs f d)\<lparr>dv_high := h\<rparr>) f)"
| reserve: "dv_await (devs f d) = None \<Longrightarrow> 0 < span \<Longrightarrow>
    fleet_step f (send d (dv_reserve scope span (devs f d)) (Some (scope, reserved scope span (devs f d))) f)"
| flush: "dv_await (devs f d) = None \<Longrightarrow> fleet_step f (send d (devs f d) None f)"
| deliver: "m \<in> set (net f) \<Longrightarrow> mg_prev m = length (hist f) \<Longrightarrow>
    fleet_step f (f\<lparr>hist := hist f @ [mg_high m], committed := committed f @ [m]\<rparr>)"
| ack: "m \<in> set (committed f) \<Longrightarrow> mg_dev m = d \<Longrightarrow> dv_await (devs f d) = Some (mg_id m) \<Longrightarrow>
    fleet_step f ((set_dev d ((devs f d)\<lparr>dv_stored := Suc (mg_prev m), dv_await := None\<rparr>) f)
      \<lparr>issued := issued f @ [m]\<rparr>)"
| fail: "fleet_step f (set_dev d ((devs f d)\<lparr>dv_await := None\<rparr>) f)"
| restart: "fleet_step f (set_dev d \<lparr>dv_stored = 0, dv_high = h, dv_await = None\<rparr> f)"

definition fleet_init :: "fleet \<Rightarrow> bool" where
  "fleet_init f \<longleftrightarrow> hist f = [] \<and> net f = [] \<and> committed f = [] \<and> issued f = [] \<and>
     (\<forall>d. dv_stored (devs f d) = 0 \<and> dv_await (devs f d) = None)"

inductive fleet_reach :: "fleet \<Rightarrow> bool" where
  init: "fleet_init f \<Longrightarrow> fleet_reach f"
| step: "fleet_reach f \<Longrightarrow> fleet_step f g \<Longrightarrow> fleet_reach g"

inductive_cases fleet_stepE: "fleet_step f g"

section \<open>The invariant\<close>

definition covers :: "fleet \<Rightarrow> nat \<Rightarrow> (string \<Rightarrow> int) \<Rightarrow> bool" where
  "covers f v h \<longleftrightarrow> v \<le> length (hist f) \<and> (0 < v \<longrightarrow> (\<forall>k. (hist f ! (v - 1)) k \<le> h k))"

definition message_ok :: "fleet \<Rightarrow> message \<Rightarrow> bool" where
  "message_ok f m \<longleftrightarrow> covers f (mg_prev m) (mg_high m) \<and>
     (case mg_res m of None \<Rightarrow> True
      | Some (scope, r) \<Rightarrow> 0 < res_span r \<and> mg_high m scope = res_base r + res_span r \<and>
          (0 < mg_prev m \<longrightarrow> (hist f ! (mg_prev m - 1)) scope \<le> res_base r))"

definition await_ok :: "fleet \<Rightarrow> nat \<Rightarrow> bool" where
  "await_ok f d \<longleftrightarrow> (case dv_await (devs f d) of None \<Rightarrow> True
     | Some i \<Rightarrow> i < length (net f) \<and> mg_dev (net f ! i) = d \<and>
         (\<forall>k. mg_high (net f ! i) k \<le> dv_high (devs f d) k) \<and> (\<forall>m \<in> set (issued f). mg_id m \<noteq> i))"

definition fleet_inv :: "fleet \<Rightarrow> bool" where
  "fleet_inv f \<longleftrightarrow>
     (\<forall>d. covers f (dv_stored (devs f d)) (dv_high (devs f d)) \<and> await_ok f d) \<and>
     (\<forall>m \<in> set (net f). message_ok f m) \<and>
     (\<forall>i < length (net f). mg_id (net f ! i) = i) \<and>
     set (committed f) \<subseteq> set (net f) \<and> map mg_high (committed f) = hist f \<and>
     map mg_prev (committed f) = [0..<length (hist f)] \<and>
     set (issued f) \<subseteq> set (committed f) \<and> distinct (map mg_id (issued f))"

lemma covers_append: "covers f v h \<Longrightarrow> hist g = hist f @ xs \<Longrightarrow> covers g v h"
  by (auto simp: covers_def nth_append)

lemma message_ok_append: "message_ok f m \<Longrightarrow> hist g = hist f @ xs \<Longrightarrow> message_ok g m"
  by (auto simp: message_ok_def covers_def nth_append split: option.splits)

lemma set_dev_simps [simp]:
  "hist (set_dev d dv f) = hist f" "net (set_dev d dv f) = net f" "committed (set_dev d dv f) = committed f"
  "issued (set_dev d dv f) = issued f" "devs (set_dev d dv f) e = (if e = d then dv else devs f e)"
  by (simp_all add: set_dev_def)

lemma send_simps [simp]:
  "hist (send d dv r f) = hist f" "net (send d dv r f) = net f @ [request (length (net f)) d dv r]"
  "committed (send d dv r f) = committed f" "issued (send d dv r f) = issued f"
  "devs (send d dv r f) e = (if e = d then dv\<lparr>dv_await := Some (length (net f))\<rparr> else devs f e)"
  by (simp_all add: send_def)

text \<open>A step that only touches one device.\<close>

lemma inv_set_dev:
  assumes "fleet_inv f" "covers f (dv_stored dv) (dv_high dv)" "await_ok (set_dev d dv f) d"
  shows "fleet_inv (set_dev d dv f)"
proof -
  have "await_ok (set_dev d dv f) e" if "e \<noteq> d" for e
    using assms(1) that by (simp add: fleet_inv_def await_ok_def cong: option.case_cong)
  moreover have "covers (set_dev d dv f) v h \<longleftrightarrow> covers f v h" "message_ok (set_dev d dv f) m \<longleftrightarrow> message_ok f m" for v h m
    by (simp_all add: covers_def message_ok_def cong: option.case_cong)
  ultimately show ?thesis using assms by (auto simp: fleet_inv_def)
qed

lemma inv_send:
  assumes "fleet_inv f" "covers f (dv_stored dv) (dv_high dv)" "message_ok f (request (length (net f)) d dv r)"
  shows "fleet_inv (send d dv r f)"
proof -
  let ?g = "send d dv r f"
  have "await_ok ?g e" for e
  proof (cases "e = d")
    case True
    have "mg_id m \<noteq> length (net f)" if "m \<in> set (issued f)" for m
    proof -
      have "m \<in> set (net f)" using assms(1) that by (auto simp: fleet_inv_def)
      then obtain i where "i < length (net f)" "net f ! i = m" by (auto simp: in_set_conv_nth)
      then show ?thesis using assms(1) by (auto simp: fleet_inv_def)
    qed
    with True show ?thesis by (simp add: await_ok_def request_def)
  next
    case False
    then show ?thesis using assms(1) by (auto simp: fleet_inv_def await_ok_def nth_append split: option.splits)
  qed
  moreover have "covers ?g v h \<longleftrightarrow> covers f v h" "message_ok ?g m \<longleftrightarrow> message_ok f m" for v h m
    by (simp_all add: covers_def message_ok_def cong: option.case_cong)
  moreover have "mg_id (net ?g ! i) = i" if "i < length (net ?g)" for i
    using assms(1) that by (auto simp: fleet_inv_def nth_append request_def less_Suc_eq)
  ultimately show ?thesis using assms by (auto simp: fleet_inv_def)
qed

lemma inv_deliver:
  assumes "fleet_inv f" "m \<in> set (net f)" "mg_prev m = length (hist f)"
  shows "fleet_inv (f\<lparr>hist := hist f @ [mg_high m], committed := committed f @ [m]\<rparr>)"
proof -
  let ?g = "f\<lparr>hist := hist f @ [mg_high m], committed := committed f @ [m]\<rparr>"
  have "covers f v h \<Longrightarrow> covers ?g v h" "message_ok f x \<Longrightarrow> message_ok ?g x" for v h x
    by (erule covers_append message_ok_append, simp)+
  moreover have "await_ok ?g d \<longleftrightarrow> await_ok f d" for d
    by (simp add: await_ok_def cong: option.case_cong)
  ultimately show ?thesis using assms by (auto simp: fleet_inv_def)
qed

lemma inv_ack:
  assumes inv: "fleet_inv f" and m: "m \<in> set (committed f)" "mg_dev m = d" "dv_await (devs f d) = Some (mg_id m)"
  shows "fleet_inv ((set_dev d ((devs f d)\<lparr>dv_stored := Suc (mg_prev m), dv_await := None\<rparr>) f)
      \<lparr>issued := issued f @ [m]\<rparr>)"
proof -
  obtain i where i: "i < length (committed f)" "committed f ! i = m" using m(1) by (auto simp: in_set_conv_nth)
  have c: "map mg_high (committed f) = hist f" "map mg_prev (committed f) = [0..<length (hist f)]"
    using inv by (auto simp: fleet_inv_def)
  have len: "length (committed f) = length (hist f)" using c(1) by (metis length_map)
  have "mg_prev m = i" "hist f ! i = mg_high m"
    using arg_cong[OF c(2), of "\<lambda>l. l ! i"] arg_cong[OF c(1), of "\<lambda>l. l ! i"] i len by auto
  have aw: "await_ok f d" using inv by (simp add: fleet_inv_def)
  have nm: "net f ! mg_id m = m"
  proof -
    have "m \<in> set (net f)" using inv m(1) by (auto simp: fleet_inv_def)
    then obtain j where "j < length (net f)" "net f ! j = m" by (auto simp: in_set_conv_nth)
    with inv show ?thesis by (auto simp: fleet_inv_def)
  qed
  have high: "\<forall>k. mg_high m k \<le> dv_high (devs f d) k" and fresh: "\<forall>x \<in> set (issued f). mg_id x \<noteq> mg_id m"
    using aw m(3) nm by (auto simp: await_ok_def)
  have cov: "covers f (Suc (mg_prev m)) (dv_high (devs f d))"
    using high i len \<open>mg_prev m = i\<close> \<open>hist f ! i = mg_high m\<close> by (simp add: covers_def)
  have others: "mg_id x \<noteq> mg_id m" if "e \<noteq> d" "dv_await (devs f e) = Some (mg_id x)" for e x
  proof
    assume "mg_id x = mg_id m"
    moreover have "await_ok f e" using inv by (simp add: fleet_inv_def)
    ultimately have "mg_dev m = e" using that(2) nm by (simp add: await_ok_def)
    with m(2) that(1) show False by simp
  qed
  have aw': "await_ok f e" for e using inv by (simp add: fleet_inv_def)
  let ?g = "(set_dev d ((devs f d)\<lparr>dv_stored := Suc (mg_prev m), dv_await := None\<rparr>) f)\<lparr>issued := issued f @ [m]\<rparr>"
  have "await_ok ?g e" for e
    using aw'[of e] others[of e] by (auto simp: await_ok_def split: option.splits)
  moreover have "covers ?g v h \<longleftrightarrow> covers f v h" "message_ok ?g x \<longleftrightarrow> message_ok f x" for v h x
    by (simp_all add: covers_def message_ok_def cong: option.case_cong)
  ultimately show ?thesis
    using inv cov m(1) fresh by (auto simp: fleet_inv_def)
qed

lemma step_inv: "fleet_step f g \<Longrightarrow> fleet_inv f \<Longrightarrow> fleet_inv g"
proof (induction rule: fleet_step.induct)
  case (pull v f d)
  have "covers f (dv_stored (devs f d)) (dv_high (devs f d))" "await_ok f d"
    using pull.prems by (simp_all add: fleet_inv_def)
  with pull show ?case
    by (intro inv_set_dev) (auto simp: dv_pull_def covers_def await_ok_def max_def intro: order.trans split: option.splits)
next
  case (change f d h)
  have "covers f (dv_stored (devs f d)) (dv_high (devs f d))" "await_ok f d"
    using change.prems by (simp_all add: fleet_inv_def)
  with change show ?case
    by (intro inv_set_dev) (auto simp: covers_def await_ok_def intro: order.trans split: option.splits)
next
  case (reserve f d span scope)
  have c: "covers f (dv_stored (devs f d)) (dv_high (devs f d))" using reserve.prems by (simp add: fleet_inv_def)
  have le: "dv_high (devs f d) k \<le> dv_high (dv_reserve scope span (devs f d)) k" for k
    using reserve.hyps by (simp add: dv_reserve_def)
  have st: "dv_stored (dv_reserve scope span (devs f d)) = dv_stored (devs f d)" by (simp add: dv_reserve_def)
  have c': "covers f (dv_stored (devs f d)) (dv_high (dv_reserve scope span (devs f d)))"
    using c le unfolding covers_def by (meson order.trans)
  show ?case
    using reserve.prems c c' reserve.hyps
    by (intro inv_send) (auto simp: st message_ok_def request_def reserved_def covers_def dv_reserve_def)
next
  case (flush f d)
  then show ?case by (intro inv_send) (auto simp: fleet_inv_def message_ok_def request_def)
next
  case (deliver m f)
  then show ?case by (intro inv_deliver)
next
  case (ack m f d)
  then show ?case by (intro inv_ack)
next
  case (fail f d)
  then show ?case by (intro inv_set_dev) (auto simp: fleet_inv_def await_ok_def)
next
  case (restart f d h)
  then show ?case by (intro inv_set_dev) (auto simp: covers_def await_ok_def)
qed

lemma reach_inv: "fleet_reach f \<Longrightarrow> fleet_inv f"
proof (induction rule: fleet_reach.induct)
  case (init f)
  then show ?case by (simp add: fleet_init_def fleet_inv_def covers_def await_ok_def)
next
  case (step f g)
  from step_inv[OF step.hyps(2) step.IH] show ?case .
qed

section \<open>What the invariant gives\<close>

lemma hist_ascending:
  assumes "fleet_inv f" "i \<le> j" "j < length (hist f)"
  shows "(hist f ! i) k \<le> (hist f ! j) k"
  using assms(2,3)
proof (induction j)
  case (Suc j)
  have c: "map mg_high (committed f) = hist f" "map mg_prev (committed f) = [0..<length (hist f)]"
    using assms(1) by (auto simp: fleet_inv_def)
  have len: "length (committed f) = length (hist f)" using c(1) by (metis length_map)
  have m: "mg_prev (committed f ! Suc j) = Suc j" "mg_high (committed f ! Suc j) = hist f ! Suc j"
    using arg_cong[OF c(2), of "\<lambda>l. l ! Suc j"] arg_cong[OF c(1), of "\<lambda>l. l ! Suc j"] Suc.prems len by auto
  have "committed f ! Suc j \<in> set (net f)" using assms(1) Suc.prems len by (auto simp: fleet_inv_def)
  then have "message_ok f (committed f ! Suc j)" using assms(1) by (simp add: fleet_inv_def)
  then have "(hist f ! j) k \<le> (hist f ! Suc j) k" using m by (simp add: message_ok_def covers_def)
  then show ?case using Suc by (cases "i = Suc j") (auto intro: order.trans)
qed simp

lemma committed_disjoint:
  assumes inv: "fleet_inv f" and ij: "i < j" "j < length (committed f)"
    and r: "mg_res (committed f ! i) = Some (scope, a)" "mg_res (committed f ! j) = Some (scope, b)"
  shows "res_base a + res_span a \<le> res_base b"
proof -
  have c: "map mg_high (committed f) = hist f" "map mg_prev (committed f) = [0..<length (hist f)]"
    using inv by (auto simp: fleet_inv_def)
  have len: "length (committed f) = length (hist f)" using c(1) by (metis length_map)
  have nth: "mg_prev (committed f ! n) = n" "mg_high (committed f ! n) = hist f ! n" "message_ok f (committed f ! n)"
    if "n < length (committed f)" for n
  proof -
    show "mg_prev (committed f ! n) = n" "mg_high (committed f ! n) = hist f ! n"
      using arg_cong[OF c(2), of "\<lambda>l. l ! n"] arg_cong[OF c(1), of "\<lambda>l. l ! n"] that len by auto
    have "committed f ! n \<in> set (net f)" using inv that by (auto simp: fleet_inv_def)
    with inv show "message_ok f (committed f ! n)" by (simp add: fleet_inv_def)
  qed
  have "res_base a + res_span a = (hist f ! i) scope"
    using nth[of i] ij r(1) by (simp add: message_ok_def)
  also have "\<dots> \<le> (hist f ! (j - 1)) scope" using ij len by (intro hist_ascending[OF inv]) auto
  also have "\<dots> \<le> res_base b" using nth[of j] ij r(2) by (simp add: message_ok_def)
  finally show ?thesis .
qed

section \<open>The source's install is such a device\<close>

definition device_of :: "sync \<Rightarrow> device" where
  "device_of s = \<lparr>dv_stored = nat (sy_storedVersion s), dv_high = counter_of (local_counters s), dv_await = None\<rparr>"

lemma pull_refines:
  assumes "open_answer D r = Inr (utf8 (serializeStatePayload p))" and "payload_wf p"
    and "fl_read (account D) State (sy_store s) = Inr f" and "f \<le> gr_version r" and "is_count (gr_version r)"
    and "mergeWithRemote (sy_local s) p = Inr m" and "\<not> n < sy_appliedPullSequence s"
    and "counters_ok (local_counters s)"
  shows "\<exists>s'. pull_apply D n (Some r) (s, w) = (Inr (present p), (s', w)) \<and>
     device_of s' = dv_pull (nat (gr_version r)) (counter_of (sp_ephemeralCounters (known p))) (device_of s)"
proof -
  from pull_apply_present [OF assms(1-7), of w] obtain s' where
    s': "pull_apply D n (Some r) (s, w) = (Inr (present p), (s', w))" "sy_local s' = m" "sy_storedVersion s' = gr_version r"
    by blast
  have "counters_ok (sp_ephemeralCounters (known p))" using assms(2) by (simp add: payload_wf_def known_wf_def counters_wf_ok)
  with assms(8) have "counter_of (local_counters s') k =
      max (counter_of (local_counters s) k) (counter_of (sp_ephemeralCounters (known p)) k)" for k
    by (simp add: s'(2) mergeWithRemote_counters [OF assms(6)] merge_two)
  with s' show ?thesis by (auto simp: device_of_def dv_pull_def)
qed

text \<open>The turn is the reservation, and the push that follows it at once seals the counters it left, as the
  successor of the version last seen.\<close>

lemma reserve_refines:
  assumes "local_ok (sy_local s)" "COUNTER_SCOPE_SHAPE scope" "0 < span"
    and "durable_turn D (reserve_change scope span) (s, w) = (Inr base, (s1, w1))"
    and "pushOnce E D (s1, w1) = (Inr (), (s2, w2))" and "\<forall>f. sy_lastPullOutcome s1 \<noteq> missing f"
    and "0 \<le> sy_storedVersion s"
  shows "\<lparr>res_base = base, res_span = span\<rparr> = reserved scope span (device_of s) \<and>
    device_of s1 = dv_reserve scope span (device_of s) \<and>
    (\<exists>stamped body t w3 w4 w5. counter_of (sp_ephemeralCounters (known stamped)) = dv_high (device_of s1) \<and>
       seal_and_sign E D stamped (int (dv_stored (device_of s1)) + 1) (int (dv_stored (device_of s1))) (t, w3) = (Inr body, (t, w4)) \<and>
       ev_putBlob E (account D) State body w4 = (Inr (), w5))"
proof -
  note t = reserve_turn [OF assms(1-4)]
  have d: "device_of s1 = dv_reserve scope span (device_of s)"
    using t by (auto simp: device_of_def dv_reserve_def)
  have n: "int (nat (sy_storedVersion s1)) = sy_storedVersion s1" using assms(7) t(2) by simp
  from pushOnce_Inr [OF assms(5)] assms(6) obtain stamped body u w3 w4 w5 where
    "sp_ephemeralCounters (known stamped) = local_counters s1"
    "seal_and_sign E D stamped (sy_storedVersion s1 + 1) (sy_storedVersion s1) (u, w3) = (Inr body, (u, w4))"
    "ev_putBlob E (account D) State body w4 = (Inr (), w5)"
    by (cases "sy_lastPullOutcome s1") auto
  with n have "\<exists>stamped body t w3 w4 w5. counter_of (sp_ephemeralCounters (known stamped)) = dv_high (device_of s1) \<and>
       seal_and_sign E D stamped (int (dv_stored (device_of s1)) + 1) (int (dv_stored (device_of s1))) (t, w3) = (Inr body, (t, w4)) \<and>
       ev_putBlob E (account D) State body w4 = (Inr (), w5)"
    unfolding device_of_def device.simps by metis
  with d t(1) show ?thesis by (simp add: reserved_def device_of_def)
qed

end
