(* ===== verification/Note_Crypto.thy ===== *)
theory Note_Crypto
  imports Lean_Tree Wire_Codec
begin

text \<open>
  The note of the wallet: field elements and key derivation (\<^verbatim>\<open>wallets/src/crypto/fields.ts\<close>, \<^verbatim>\<open>Kdf.ts\<close>,
  \<^verbatim>\<open>constants.ts\<close>, \<^verbatim>\<open>index.ts\<close>), the content key and the cipher (\<^verbatim>\<open>kem.ts\<close>, \<^verbatim>\<open>dem.ts\<close>), the leaf and the
  nullifier (\<^verbatim>\<open>note/note.ts\<close>, \<^verbatim>\<open>note/nullifier.ts\<close>), the keys and addresses (\<^verbatim>\<open>note/keys.ts\<close>, but for the
  square root) and the minting of notes (\<^verbatim>\<open>note/mint.ts\<close>).

  The Poseidon2 hash of \<^verbatim>\<open>@aztec/foundation\<close> and the curve of \<^verbatim>\<open>@zk-kit/baby-jubjub\<close> are the record
  \<open>note_lib\<close>. \<^verbatim>\<open>Fr\<close> of \<^verbatim>\<open>@aztec/foundation\<close> is the field of residues modulo \<open>FR_MODULUS\<close>: a value is its
  canonical residue, \<^verbatim>\<open>add\<close> and \<^verbatim>\<open>sub\<close> are modular, and \<^verbatim>\<open>new Fr\<close> throws on a value that is no residue.
  \<^verbatim>\<open>Fr.fromBuffer\<close>, whose treatment of unreduced bytes the source does not rely on, is a field of the record;
  \<^verbatim>\<open>toBuffer\<close> is the 32 bytes of the residue, most significant first.
\<close>

named_theorems note_simps \<open>equations of the note layer\<close>

section \<open>Errors and the library\<close>

datatype ring_reason =
  EMPTY_RING | DUPLICATE_VERSION | INVALID_VERSION_SEQUENCE | CURRENT_KEY_MISMATCH | INCOMPLETE_HISTORY

datatype SelfMintPreflightFailure =
    INVALID_COUNT
  | DISCOVERY_UNAVAILABLE
  | DISCOVERY_PROTOCOL
  | CANDIDATE_OWNER_MISMATCH
  | CANDIDATE_PROVENANCE_MISMATCH
  | CANDIDATE_ALREADY_CLAIMED
  | CANDIDATES_EXHAUSTED

datatype SelfMintAuthorizationFailure =
  UNKNOWN_AUTHORIZATION | AUTHORIZATION_CONSUMED | DUPLICATE_AUTHORIZATION | CONTEXT_MISMATCH

datatype assembly_reason =
  MERKLE_INDEX_MISMATCH | NEGATIVE_VALUE | JOIN_SELF | JOIN_ASSET_MISMATCH | JOIN_ROOT_MISMATCH

datatype wallet_error =
    WError string
  | FieldError
  | ComplianceKeyError ring_reason
  | SelfMintPreflightError SelfMintPreflightFailure
  | SelfMintAuthorizationError SelfMintAuthorizationFailure
  | AssemblyError assembly_reason
  | MerkleError tree_error
  | CounterError pss_error

type_synonym point = "int \<times> int"

record note_lib =
  poseidon2Hash :: poseidon
  inCurve :: "point \<Rightarrow> bool"
  mulPointEscalar :: "point \<Rightarrow> int \<Rightarrow> point"
  Base8 :: point
  subOrder :: int
  fromBuffer :: "bytes \<Rightarrow> fr option"

section \<open>Field elements\<close>

definition FR_MODULUS :: nat where
  "FR_MODULUS = 21888242871839275222246405745257275088548364400416034343698204186575808495617"

definition BJJ_SUBGROUP_ORDER :: int where
  "BJJ_SUBGROUP_ORDER = 2736030358979909402780800718157159386076813972158567259200215660948447373041"

definition ENC_DOMAIN :: fr where
  "ENC_DOMAIN = 0x1a0ef2d9219ffd1fa6aaa00b33818a7f5503303777b95cfcc6bb7653189dfca3"

definition PSI_DOMAIN :: fr where
  "PSI_DOMAIN = 0x138d495e7a5c1b3f504318dd6cfcf0a7cf7bb6d69cf9eadb049cc35d6831ef5b"

text \<open>\<^verbatim>\<open>new Fr(x)\<close> of the library, then the conversions of \<^verbatim>\<open>fields.ts\<close>.\<close>

definition new_Fr :: "int \<Rightarrow> wallet_error + fr" where
  "new_Fr x = (if 0 \<le> x \<and> x < int FR_MODULUS then Inr (nat x) else Inl FieldError)"

definition toFr :: "int \<Rightarrow> wallet_error + fr" where
  "toFr value = new_Fr value"

definition toReducedFr :: "nat \<Rightarrow> fr" where
  "toReducedFr value = value mod FR_MODULUS"

definition fr_add :: "fr \<Rightarrow> fr \<Rightarrow> fr" where
  "fr_add a b = (a + b) mod FR_MODULUS"

definition fr_sub :: "fr \<Rightarrow> fr \<Rightarrow> fr" where
  "fr_sub a b = nat ((int a - int b) mod int FR_MODULUS)"

definition toBuffer :: "fr \<Rightarrow> bytes" where
  "toBuffer x = u64be_loop 32 x []"

definition stringToFr :: "note_lib \<Rightarrow> string \<Rightarrow> wallet_error + fr" where
  "stringToFr L t = (let bs = utf8 t in
     if length bs > 32 then Inl (WError ''stringToFr input string is too long, must be <= 32 bytes.'')
     else (case fromBuffer L (replicate (32 - length bs) 0 @ bs) of
         None \<Rightarrow> Inl FieldError | Some f \<Rightarrow> Inr (poseidon2Hash L [f])))"

definition toBjjScalar :: "note_lib \<Rightarrow> fr \<Rightarrow> fr" where
  "toBjjScalar L x = nat (int x mod subOrder L)"

text \<open>\<^verbatim>\<open>Kdf.derive\<close>: a zero nonce is no nonce.\<close>

definition Kdf_derive :: "note_lib \<Rightarrow> string \<Rightarrow> fr \<Rightarrow> fr option \<Rightarrow> wallet_error + fr" where
  "Kdf_derive L purpose master nonce = ebind (stringToFr L purpose) (\<lambda>purposeFr.
     Inr (poseidon2Hash L ([master, purposeFr] @
       (case nonce of None \<Rightarrow> [] | Some n \<Rightarrow> if n = 0 then [] else [n]))))"

section \<open>The content key\<close>

definition assertSubgroupScalar :: "fr \<Rightarrow> wallet_error + unit" where
  "assertSubgroupScalar s =
     (if s = 0 then Inl (WError ''KEM scalar must be non-zero'')
      else if int s \<ge> BJJ_SUBGROUP_ORDER then Inl (WError ''KEM scalar not in BabyJubJub prime-order subgroup'')
      else Inr ())"

definition assertValidPoint :: "note_lib \<Rightarrow> point \<Rightarrow> wallet_error + unit" where
  "assertValidPoint L p =
     (if \<not> inCurve L p then Inl (WError ''KEM point is not on the BabyJubJub curve'')
      else if p = (0, 1) then Inl (WError ''KEM point is the identity'')
      else if mulPointEscalar L p (subOrder L) \<noteq> (0, 1)
      then Inl (WError ''KEM point is not in the prime-order subgroup'')
      else Inr ())"

definition deriveCek :: "note_lib \<Rightarrow> fr \<Rightarrow> point \<Rightarrow> wallet_error + fr" where
  "deriveCek L eph compliancePk =
     ebind (assertSubgroupScalar eph) (\<lambda>_.
     ebind (assertValidPoint L compliancePk) (\<lambda>_.
       new_Fr (fst (mulPointEscalar L compliancePk (int eph)))))"

definition wrapCek :: "note_lib \<Rightarrow> fr \<Rightarrow> fr \<Rightarrow> point \<Rightarrow> wallet_error + fr" where
  "wrapCek L cek eph inPub =
     ebind (assertSubgroupScalar eph) (\<lambda>_.
     ebind (assertValidPoint L inPub) (\<lambda>_.
     ebind (new_Fr (fst (mulPointEscalar L inPub (int eph)))) (\<lambda>pad.
       Inr (fr_add cek (poseidon2Hash L [pad])))))"

definition unwrapCek :: "note_lib \<Rightarrow> fr \<Rightarrow> fr \<Rightarrow> point \<Rightarrow> wallet_error + fr" where
  "unwrapCek L cekWrap inKey ephPub =
     ebind (assertSubgroupScalar inKey) (\<lambda>_.
     ebind (assertValidPoint L ephPub) (\<lambda>_.
     ebind (new_Fr (fst (mulPointEscalar L ephPub (int inKey)))) (\<lambda>pad.
       Inr (fr_sub cekWrap (poseidon2Hash L [pad])))))"

section \<open>The cipher\<close>

definition DEM_FIELDS :: nat where "DEM_FIELDS = 7"

definition demKeystream :: "note_lib \<Rightarrow> fr \<Rightarrow> nat \<Rightarrow> fr" where
  "demKeystream L cek k = poseidon2Hash L [cek, ENC_DOMAIN, k]"

definition demEncrypt :: "note_lib \<Rightarrow> fr \<Rightarrow> fr list \<Rightarrow> wallet_error + fr list" where
  "demEncrypt L cek plaintext =
     (if length plaintext \<noteq> DEM_FIELDS then Inl (WError ''DEM encrypt plaintext fields'')
      else Inr (map (\<lambda>k. fr_add (plaintext ! k) (demKeystream L cek k)) [0..<DEM_FIELDS]))"

definition demDecrypt :: "note_lib \<Rightarrow> fr \<Rightarrow> fr list \<Rightarrow> wallet_error + fr list" where
  "demDecrypt L cek ciphertext =
     (if length ciphertext \<noteq> DEM_FIELDS then Inl (WError ''DEM decrypt ciphertext fields'')
      else Inr (map (\<lambda>k. fr_sub (ciphertext ! k) (demKeystream L cek k)) [0..<DEM_FIELDS]))"

section \<open>The note\<close>

record Note =
  noteVersion :: fr
  assetId :: fr
  noteType :: fr
  conditionsHash :: fr
  n_value :: int
  n_owner :: fr
  psi :: fr
  parents :: fr

definition NOTE_VERSION :: fr where "NOTE_VERSION = 1"

definition NOTE_TYPE_STANDARD :: fr where "NOTE_TYPE_STANDARD = 0"

definition NOTE_TYPE_MULTISIG :: fr where "NOTE_TYPE_MULTISIG = 1"

definition leaf :: "note_lib \<Rightarrow> Note \<Rightarrow> wallet_error + fr" where
  "leaf L note =
     (if n_value note < 0 \<or> n_value note \<ge> 2 ^ 128 then Inl (WError ''note value out of u128 range'')
      else ebind (new_Fr (n_value note)) (\<lambda>v.
        Inr (poseidon2Hash L [noteVersion note, assetId note, noteType note, conditionsHash note, v,
          n_owner note, psi note, parents note])))"

definition assertU32 :: "int \<Rightarrow> wallet_error + int" where
  "assertU32 v = (if v < 0 \<or> v > 0xffffffff then Inl (WError ''not a u32'') else Inr v)"

definition packParents :: "int \<Rightarrow> int \<Rightarrow> wallet_error + fr" where
  "packParents leafIndex0 leafIndex1 =
     ebind (assertU32 leafIndex0) (\<lambda>index0.
     ebind (assertU32 leafIndex1) (\<lambda>index1.
       new_Fr (index0 + index1 * 2 ^ 32)))"

definition PARENTS_HIDDEN :: fr where "PARENTS_HIDDEN = FR_MODULUS - 1"

definition unpackParents :: "fr \<Rightarrow> wallet_error + int \<times> int" where
  "unpackParents packed =
     (if packed \<ge> 2 ^ 64 then Inl (WError ''packed parents exceeds 2^64'')
      else Inr (int (take_bit 32 packed), int (take_bit 32 (drop_bit 32 packed))))"

definition computePsi :: "note_lib \<Rightarrow> fr \<Rightarrow> fr" where
  "computePsi L cek = poseidon2Hash L [cek, PSI_DOMAIN]"

definition computeNullifier :: "note_lib \<Rightarrow> fr \<Rightarrow> fr \<Rightarrow> fr" where
  "computeNullifier L psi1 leafIndex = poseidon2Hash L [psi1, leafIndex]"

section \<open>Keys\<close>

definition VIEW_LABEL :: string where "VIEW_LABEL = ''hisoka.view''"
definition IN_KEY_LABEL :: string where "IN_KEY_LABEL = ''hisoka.inKey''"
definition SELF_EPH_LABEL :: string where "SELF_EPH_LABEL = ''hisoka.selfEph''"
definition SELF_SPEND_LABEL :: string where "SELF_SPEND_LABEL = ''hisoka.selfSpend''"
definition PUB_IN_LABEL :: string where "PUB_IN_LABEL = ''hisoka.pubIn''"

definition MAX_INDEX_ROLL :: nat where "MAX_INDEX_ROLL = 256"

definition deriveViewKey :: "note_lib \<Rightarrow> fr \<Rightarrow> wallet_error + fr" where
  "deriveViewKey L sk_root = Kdf_derive L VIEW_LABEL sk_root None"

text \<open>The scalar family of a label: derived, then reduced below the subgroup order.\<close>

definition derive_scalar :: "note_lib \<Rightarrow> string \<Rightarrow> fr \<Rightarrow> fr option \<Rightarrow> wallet_error + fr" where
  "derive_scalar L label master nonce = ebind (Kdf_derive L label master nonce) (\<lambda>k. Inr (toBjjScalar L k))"

definition deriveIncomingKey :: "note_lib \<Rightarrow> fr \<Rightarrow> int \<Rightarrow> wallet_error + fr" where
  "deriveIncomingKey L sk_view index =
     ebind (toFr index) (\<lambda>i. derive_scalar L IN_KEY_LABEL sk_view (Some i))"

definition deriveSelfEphemeral :: "note_lib \<Rightarrow> fr \<Rightarrow> int \<Rightarrow> wallet_error + fr" where
  "deriveSelfEphemeral L sk_view index =
     ebind (toFr index) (\<lambda>i. derive_scalar L SELF_EPH_LABEL sk_view (Some i))"

definition deriveSelfSpendKey :: "note_lib \<Rightarrow> fr \<Rightarrow> wallet_error + fr" where
  "deriveSelfSpendKey L sk_view = derive_scalar L SELF_SPEND_LABEL sk_view None"

definition derivePublicIncomingKey :: "note_lib \<Rightarrow> fr \<Rightarrow> int \<Rightarrow> wallet_error + fr" where
  "derivePublicIncomingKey L sk_view index =
     ebind (toFr index) (\<lambda>i. derive_scalar L PUB_IN_LABEL sk_view (Some i))"

definition publicKey :: "note_lib \<Rightarrow> fr \<Rightarrow> point" where
  "publicKey L scalar = mulPointEscalar L (Base8 L) (int scalar)"

definition pubkeyOwner :: "note_lib \<Rightarrow> point \<Rightarrow> wallet_error + fr" where
  "pubkeyOwner L pub =
     ebind (new_Fr (fst pub)) (\<lambda>x. ebind (new_Fr (snd pub)) (\<lambda>y. Inr (poseidon2Hash L [x, y])))"

definition isEvenY :: "point \<Rightarrow> bool" where
  "isEvenY pub = even (snd pub)"

definition discoveryTag :: "point \<Rightarrow> wallet_error + fr" where
  "discoveryTag pub = new_Fr (fst pub)"

record CanonicalAddress =
  ca_index :: int
  ca_pub :: point
  ca_tag :: fr

text \<open>\<^verbatim>\<open>rollToEvenY\<close>: the loop with \<open>n\<close> attempts left.\<close>

fun rollToEvenY_loop ::
  "note_lib \<Rightarrow> (int \<Rightarrow> wallet_error + fr) \<Rightarrow> nat \<Rightarrow> int \<Rightarrow> wallet_error + CanonicalAddress"
where
  "rollToEvenY_loop L derive 0 index = Inl (WError ''even-y discovery tag not found'')"
| "rollToEvenY_loop L derive (Suc n) index =
     ebind (derive index) (\<lambda>k. let pub = publicKey L k in
       if isEvenY pub
       then ebind (discoveryTag pub) (\<lambda>tag. Inr \<lparr>ca_index = index, ca_pub = pub, ca_tag = tag\<rparr>)
       else rollToEvenY_loop L derive n (index + 1))"

definition rollToEvenY ::
  "note_lib \<Rightarrow> (int \<Rightarrow> wallet_error + fr) \<Rightarrow> int \<Rightarrow> wallet_error + CanonicalAddress"
where
  "rollToEvenY L derive startIndex = rollToEvenY_loop L derive MAX_INDEX_ROLL startIndex"

definition canonicalIncomingAddress :: "note_lib \<Rightarrow> fr \<Rightarrow> int \<Rightarrow> wallet_error + CanonicalAddress" where
  "canonicalIncomingAddress L sk_view startIndex = rollToEvenY L (deriveIncomingKey L sk_view) startIndex"

definition canonicalSelfTag :: "note_lib \<Rightarrow> fr \<Rightarrow> int \<Rightarrow> wallet_error + CanonicalAddress" where
  "canonicalSelfTag L sk_view startIndex = rollToEvenY L (deriveSelfEphemeral L sk_view) startIndex"

definition assertBjjSubgroupPoint :: "note_lib \<Rightarrow> point \<Rightarrow> string \<Rightarrow> wallet_error + unit" where
  "assertBjjSubgroupPoint L pub subject =
     (if \<not> inCurve L pub then Inl (WError (subject @ '' is not on the BabyJubJub curve.''))
      else if pub = (0, 1) then Inl (WError (subject @ '' is the identity.''))
      else if mulPointEscalar L pub (subOrder L) \<noteq> (0, 1)
      then Inl (WError (subject @ '' is not in the prime-order subgroup.''))
      else Inr ())"

definition canonicalPublicAddress :: "note_lib \<Rightarrow> fr \<Rightarrow> int \<Rightarrow> wallet_error + int \<times> point" where
  "canonicalPublicAddress L sk_view index =
     ebind (derivePublicIncomingKey L sk_view index) (\<lambda>k. let pub = publicKey L k in
     ebind (assertBjjSubgroupPoint L pub ''Public receiving key'') (\<lambda>_. Inr (index, pub)))"

section \<open>Minting\<close>

record ProverNoteInput =
  pn_noteVersion :: fr
  pn_assetId :: fr
  pn_noteType :: fr
  pn_conditionsHash :: fr
  pn_value :: fr
  pn_owner :: fr
  pn_psi :: fr
  pn_parents :: fr

record MintedNote =
  mn_note :: ProverNoteInput
  mn_commitment :: fr
  mn_eph :: fr
  mn_ephPub :: point
  mn_cek :: fr
  mn_psi :: fr
  mn_spendScalar :: fr
  mn_tag :: fr
  mn_inPub :: "point option"
  mn_cekWrap :: "fr option"

definition finish ::
  "note_lib \<Rightarrow> fr \<Rightarrow> int \<Rightarrow> fr \<Rightarrow> fr \<Rightarrow> fr \<Rightarrow> fr \<Rightarrow> point \<Rightarrow> wallet_error + MintedNote"
where
  "finish L eph v own asset spendScalar prnts compliancePk =
     ebind (deriveCek L eph compliancePk) (\<lambda>cek. let ps = computePsi L cek in
     ebind (leaf L \<lparr>noteVersion = NOTE_VERSION, assetId = asset, noteType = NOTE_TYPE_STANDARD,
       conditionsHash = 0, n_value = v, n_owner = own, psi = ps, parents = prnts\<rparr>) (\<lambda>commitment.
     let ephPub = publicKey L eph in
     ebind (toFr v) (\<lambda>fv.
     ebind (new_Fr (fst ephPub)) (\<lambda>tag.
       Inr \<lparr>mn_note = \<lparr>pn_noteVersion = NOTE_VERSION, pn_assetId = asset, pn_noteType = NOTE_TYPE_STANDARD,
              pn_conditionsHash = 0, pn_value = fv, pn_owner = own, pn_psi = ps, pn_parents = prnts\<rparr>,
            mn_commitment = commitment, mn_eph = eph, mn_ephPub = ephPub, mn_cek = cek, mn_psi = ps,
            mn_spendScalar = spendScalar, mn_tag = tag, mn_inPub = None, mn_cekWrap = None\<rparr>))))"

definition mintSelfNote ::
  "note_lib \<Rightarrow> fr \<Rightarrow> int \<Rightarrow> fr \<Rightarrow> fr \<Rightarrow> point \<Rightarrow> fr \<Rightarrow> wallet_error + MintedNote"
where
  "mintSelfNote L eph v spendScalar asset compliancePk prnts =
     ebind (pubkeyOwner L (publicKey L spendScalar)) (\<lambda>own.
       finish L eph v own asset spendScalar prnts compliancePk)"

definition mintIncomingNote ::
  "note_lib \<Rightarrow> fr \<Rightarrow> int \<Rightarrow> point \<Rightarrow> fr \<Rightarrow> fr \<Rightarrow> point \<Rightarrow> fr \<Rightarrow> wallet_error + MintedNote"
where
  "mintIncomingNote L eph v inPub inKey asset compliancePk prnts =
     ebind (pubkeyOwner L inPub) (\<lambda>own.
     ebind (finish L eph v own asset inKey prnts compliancePk) (\<lambda>built.
     ebind (wrapCek L (mn_cek built) eph inPub) (\<lambda>w.
     ebind (new_Fr (fst inPub)) (\<lambda>tag.
       Inr (built\<lparr>mn_inPub := Some inPub, mn_cekWrap := Some w, mn_tag := tag\<rparr>)))))"

section \<open>What the library promises\<close>

text \<open>Hashes and the coordinates of products are residues, scalar multiplication commutes on multiples of
  the base point, the base point generates the subgroup, and \<^verbatim>\<open>fromBuffer\<close> reads what \<^verbatim>\<open>toBuffer\<close> writes.\<close>

definition lib_ok :: "note_lib \<Rightarrow> bool" where
  "lib_ok L \<longleftrightarrow> (\<forall>xs. poseidon2Hash L xs < FR_MODULUS) \<and>
     (\<forall>p s. 0 \<le> fst (mulPointEscalar L p s) \<and> fst (mulPointEscalar L p s) < int FR_MODULUS \<and>
        0 \<le> snd (mulPointEscalar L p s) \<and> snd (mulPointEscalar L p s) < int FR_MODULUS) \<and>
     (\<forall>a b. mulPointEscalar L (mulPointEscalar L (Base8 L) a) b = mulPointEscalar L (mulPointEscalar L (Base8 L) b) a) \<and>
     subOrder L = BJJ_SUBGROUP_ORDER \<and>
     (\<forall>k. 0 < k \<longrightarrow> k < BJJ_SUBGROUP_ORDER \<longrightarrow> assertValidPoint L (mulPointEscalar L (Base8 L) k) = Inr ()) \<and>
     (\<forall>x < FR_MODULUS. fromBuffer L (toBuffer x) = Some x)"

lemma publicKey_residue:
  assumes "lib_ok L"
  shows "0 \<le> fst (publicKey L k)" "fst (publicKey L k) < int FR_MODULUS"
    "0 \<le> snd (publicKey L k)" "snd (publicKey L k) < int FR_MODULUS"
  using assms unfolding lib_ok_def publicKey_def by blast+

lemma hash_residue: "lib_ok L \<Longrightarrow> poseidon2Hash L xs < FR_MODULUS"
  by (simp add: lib_ok_def)

section \<open>Field arithmetic\<close>

lemma FR_MODULUS_bounds: "2 ^ 253 < FR_MODULUS" "FR_MODULUS < 2 ^ 254" "0 < FR_MODULUS"
  by (simp_all add: FR_MODULUS_def)

lemma new_Fr_Inr [note_simps]: "new_Fr x = Inr n \<longleftrightarrow> x = int n \<and> n < FR_MODULUS"
  by (auto simp: new_Fr_def)

lemma new_Fr_int [simp]: "n < FR_MODULUS \<Longrightarrow> new_Fr (int n) = Inr n"
  by (simp add: new_Fr_def)

lemma new_Fr_residue: "0 \<le> x \<Longrightarrow> x < int FR_MODULUS \<Longrightarrow> new_Fr x = Inr (nat x)"
  by (simp add: new_Fr_def)

lemma fr_add_less [simp]: "fr_add a b < FR_MODULUS"
  using FR_MODULUS_bounds(3) by (simp add: fr_add_def)

lemma fr_sub_less [simp]: "fr_sub a b < FR_MODULUS"
  using FR_MODULUS_bounds(3) by (simp add: fr_sub_def nat_less_iff)

lemma fr_sub_add [simp]: "a < FR_MODULUS \<Longrightarrow> fr_sub (fr_add a b) b = a"
proof -
  assume "a < FR_MODULUS"
  have "(int ((a + b) mod FR_MODULUS) - int b) mod int FR_MODULUS = int a mod int FR_MODULUS"
    by (simp add: zmod_int mod_diff_left_eq)
  with \<open>a < FR_MODULUS\<close> show ?thesis by (simp add: fr_sub_def fr_add_def)
qed

lemma fr_add_sub [simp]: "a < FR_MODULUS \<Longrightarrow> fr_add (fr_sub a b) b = a"
proof -
  assume a: "a < FR_MODULUS"
  have "int (fr_add (fr_sub a b) b) = ((int a - int b) mod int FR_MODULUS + int b) mod int FR_MODULUS"
    using FR_MODULUS_bounds(3) by (simp add: fr_sub_def fr_add_def zmod_int)
  also have "\<dots> = int a" using a by (simp add: mod_add_left_eq)
  finally show ?thesis by simp
qed

lemma length_toBuffer [simp]: "length (toBuffer x) = 32"
  by (simp add: toBuffer_def length_u64be_loop)

section \<open>The cipher and the content key\<close>

lemma demEncrypt_Inr:
  "demEncrypt L cek pt = Inr ct \<longleftrightarrow> length pt = 7 \<and> ct = map (\<lambda>k. fr_add (pt ! k) (demKeystream L cek k)) [0..<7]"
  by (auto simp: demEncrypt_def DEM_FIELDS_def)

lemma demDecrypt_Inr:
  "demDecrypt L cek ct = Inr pt \<longleftrightarrow> length ct = 7 \<and> pt = map (\<lambda>k. fr_sub (ct ! k) (demKeystream L cek k)) [0..<7]"
  by (auto simp: demDecrypt_def DEM_FIELDS_def)

lemma demDecrypt_demEncrypt:
  assumes "\<forall>x \<in> set pt. x < FR_MODULUS" "demEncrypt L cek pt = Inr ct"
  shows "demDecrypt L cek ct = Inr pt"
proof -
  have "map (\<lambda>k. fr_sub (ct ! k) (demKeystream L cek k)) [0..<7] = pt"
    using assms by (intro nth_equalityI) (auto simp: demEncrypt_Inr)
  then show ?thesis using assms(2) by (auto simp: demEncrypt_Inr demDecrypt_Inr)
qed

lemma demEncrypt_demDecrypt:
  assumes "\<forall>x \<in> set ct. x < FR_MODULUS" "demDecrypt L cek ct = Inr pt"
  shows "demEncrypt L cek pt = Inr ct"
proof -
  have "map (\<lambda>k. fr_add (pt ! k) (demKeystream L cek k)) [0..<7] = ct"
    using assms by (intro nth_equalityI) (auto simp: demDecrypt_Inr)
  then show ?thesis using assms(2) by (auto simp: demEncrypt_Inr demDecrypt_Inr)
qed

text \<open>The recipient's unwrapping undoes the sender's wrapping.\<close>

lemma unwrap_wrap:
  assumes "lib_ok L" "cek < FR_MODULUS" "wrapCek L cek eph (publicKey L inKey) = Inr w"
    and "assertSubgroupScalar inKey = Inr ()"
  shows "unwrapCek L w inKey (publicKey L eph) = Inr cek"
proof -
  have e: "assertSubgroupScalar eph = Inr ()" using assms(3) by (auto simp: wrapCek_def)
  then have "assertValidPoint L (publicKey L eph) = Inr ()"
    using assms(1) by (auto simp: lib_ok_def publicKey_def assertSubgroupScalar_def split: if_splits)
  moreover have "mulPointEscalar L (publicKey L eph) (int inKey) = mulPointEscalar L (publicKey L inKey) (int eph)"
    using assms(1) by (simp add: lib_ok_def publicKey_def)
  ultimately show ?thesis using assms by (auto simp: wrapCek_def unwrapCek_def)
qed

section \<open>Parents\<close>

lemma packParents_Inr:
  "packParents a b = Inr n \<longleftrightarrow> 0 \<le> a \<and> a < 2 ^ 32 \<and> 0 \<le> b \<and> b < 2 ^ 32 \<and> int n = a + b * 2 ^ 32"
proof -
  have "a + b * 2 ^ 32 < int FR_MODULUS" if "a < 2 ^ 32" "b < 2 ^ 32"
    using that by (simp add: FR_MODULUS_def)
  then show ?thesis by (auto simp: packParents_def assertU32_def new_Fr_def split: if_splits)
qed

lemma unpack_pack:
  assumes "packParents a b = Inr n"
  shows "unpackParents n = Inr (a, b)"
proof -
  have ab: "0 \<le> a" "a < 2 ^ 32" "0 \<le> b" "b < 2 ^ 32" "int n = a + b * 2 ^ 32"
    using assms by (simp_all add: packParents_Inr)
  then have n: "n < 2 ^ 64" by simp
  have "int (take_bit 32 n) = a" using ab by (simp add: take_bit_eq_mod zmod_int)
  moreover have "int (take_bit 32 (drop_bit 32 n)) = b"
    using ab by (simp add: drop_bit_eq_div take_bit_eq_mod zdiv_int zmod_int)
  ultimately show ?thesis
    using n by (simp add: unpackParents_def)
qed

lemma hidden_parents: "unpackParents PARENTS_HIDDEN = Inl (WError ''packed parents exceeds 2^64'')"
  by (simp add: unpackParents_def PARENTS_HIDDEN_def FR_MODULUS_def)

section \<open>Minting\<close>

lemma leaf_Inr:
  "leaf L note = Inr c \<longleftrightarrow> 0 \<le> n_value note \<and> n_value note < 2 ^ 128 \<and>
     c = poseidon2Hash L [noteVersion note, assetId note, noteType note, conditionsHash note,
       nat (n_value note), n_owner note, psi note, parents note]"
proof -
  have "n_value note < int FR_MODULUS" if "n_value note < 2 ^ 128"
    using that by (simp add: FR_MODULUS_def)
  then show ?thesis by (auto simp: leaf_def new_Fr_def split: if_splits)
qed

lemma finish_Inr:
  assumes "finish L eph v own asset sk prnts pk = Inr mn"
  shows "deriveCek L eph pk = Inr (mn_cek mn)" "0 \<le> v" "v < 2 ^ 128" "mn_psi mn = computePsi L (mn_cek mn)"
    "mn_note mn = \<lparr>pn_noteVersion = NOTE_VERSION, pn_assetId = asset, pn_noteType = NOTE_TYPE_STANDARD,
       pn_conditionsHash = 0, pn_value = nat v, pn_owner = own, pn_psi = mn_psi mn, pn_parents = prnts\<rparr>"
    "mn_commitment mn = poseidon2Hash L [NOTE_VERSION, asset, NOTE_TYPE_STANDARD, 0, nat v, own, mn_psi mn, prnts]"
    "mn_eph mn = eph" "mn_ephPub mn = publicKey L eph" "mn_spendScalar mn = sk" "int (mn_tag mn) = fst (publicKey L eph)"
  using assms by (auto simp: finish_def Let_def leaf_Inr toFr_def new_Fr_Inr)

end
