(* ===== verification/Note_Record.thy ===== *)
theory Note_Record
  imports Note_Crypto Crypto
begin

text \<open>
  The row of the discovery service: its layout (\<^verbatim>\<open>wallets/src/discovery/types.ts\<close>), its 256-byte cell
  (\<^verbatim>\<open>discovery/codec.ts\<close>) and the two ciphertext words the service leaves out and the client puts back
  (\<^verbatim>\<open>discovery/reconstruct.ts\<close>).
\<close>

section \<open>The row\<close>

definition RECORD_KIND_SELF :: int where "RECORD_KIND_SELF = 0"
definition RECORD_KIND_INCOMING :: int where "RECORD_KIND_INCOMING = 1"
definition HOWL_NOTE_LAYOUT_VERSION :: int where "HOWL_NOTE_LAYOUT_VERSION = 1"
definition HOWL_NOTE_RECORD_BYTES :: nat where "HOWL_NOTE_RECORD_BYTES = 246"
definition HOWL_NOTE_CELL_BYTES :: nat where "HOWL_NOTE_CELL_BYTES = 256"
definition COMMITMENT_PREFIX_BYTES :: nat where "COMMITMENT_PREFIX_BYTES = 16"
definition CIPHERTEXT_KEPT_INDICES :: "nat list" where "CIPHERTEXT_KEPT_INDICES = [1, 2, 3, 4, 6]"

record HowlNoteRecord =
  layoutVersion :: int
  recordKind :: int
  hr_leafIndex :: int
  commitmentPrefix :: bytes
  ephemeralPkX :: fr
  hr_cekWrap :: fr
  ciphertextKept :: "fr list"

section \<open>The cell\<close>

definition OFF_LAYOUT :: nat where "OFF_LAYOUT = 0"
definition OFF_KIND :: nat where "OFF_KIND = 1"
definition OFF_LEAF_INDEX :: nat where "OFF_LEAF_INDEX = 2"
definition OFF_COMMITMENT_PREFIX :: nat where "OFF_COMMITMENT_PREFIX = 6"
definition OFF_EPH_X :: nat where "OFF_EPH_X = 22"
definition OFF_CEK_WRAP :: nat where "OFF_CEK_WRAP = 54"
definition OFF_CIPHERTEXT :: nat where "OFF_CIPHERTEXT = 86"
definition FIELD_BYTES :: nat where "FIELD_BYTES = 32"

lemmas cell_layout [note_simps] =
  HOWL_NOTE_RECORD_BYTES_def HOWL_NOTE_CELL_BYTES_def COMMITMENT_PREFIX_BYTES_def
  HOWL_NOTE_LAYOUT_VERSION_def RECORD_KIND_SELF_def RECORD_KIND_INCOMING_def
  OFF_LAYOUT_def OFF_KIND_def OFF_LEAF_INDEX_def OFF_COMMITMENT_PREFIX_def OFF_EPH_X_def OFF_CEK_WRAP_def
  OFF_CIPHERTEXT_def FIELD_BYTES_def

lemma kept_count [note_simps]: "length CIPHERTEXT_KEPT_INDICES = 5"
  by (simp add: CIPHERTEXT_KEPT_INDICES_def)

definition putField :: "bytes \<Rightarrow> nat \<Rightarrow> fr \<Rightarrow> wallet_error + bytes" where
  "putField out off x = (let bs = toBuffer x in
     if length bs \<noteq> FIELD_BYTES then Inl (WError ''field serialises to the wrong length'')
     else Inr (buf_set out bs off))"

definition readField :: "note_lib \<Rightarrow> bytes \<Rightarrow> nat \<Rightarrow> wallet_error + fr" where
  "readField L src off = (case fromBuffer L (take FIELD_BYTES (drop off src)) of
     None \<Rightarrow> Inl FieldError | Some x \<Rightarrow> Inr x)"

text \<open>The \<^verbatim>\<open>forEach\<close> over the kept words, from word \<open>i\<close> on.\<close>

fun put_words :: "bytes \<Rightarrow> nat \<Rightarrow> fr list \<Rightarrow> wallet_error + bytes" where
  "put_words out i [] = Inr out"
| "put_words out i (w # ws) = ebind (putField out (OFF_CIPHERTEXT + i * FIELD_BYTES) w) (\<lambda>out'. put_words out' (i + 1) ws)"

definition encodeHowlNoteRecord :: "HowlNoteRecord \<Rightarrow> wallet_error + bytes" where
  "encodeHowlNoteRecord r =
     (if length (ciphertextKept r) \<noteq> length CIPHERTEXT_KEPT_INDICES then Inl (WError ''kept ciphertext words'')
      else if length (commitmentPrefix r) \<noteq> COMMITMENT_PREFIX_BYTES then Inl (WError ''commitment prefix'')
      else if hr_leafIndex r < 0 \<or> hr_leafIndex r > 0xffffffff then Inl (WError ''leafIndex is not a u32'')
      else let out = replicate HOWL_NOTE_CELL_BYTES 0;
               out1 = out[OFF_LAYOUT := word_of_int (layoutVersion r)];
               out2 = out1[OFF_KIND := word_of_int (recordKind r)];
               out3 = buf_set out2 (u64be_loop 4 (nat (hr_leafIndex r)) []) OFF_LEAF_INDEX;
               out4 = buf_set out3 (commitmentPrefix r) OFF_COMMITMENT_PREFIX
        in ebind (putField out4 OFF_EPH_X (ephemeralPkX r)) (\<lambda>out5.
           ebind (putField out5 OFF_CEK_WRAP (hr_cekWrap r)) (\<lambda>out6.
             put_words out6 0 (ciphertextKept r))))"

definition decodeHowlNoteRecord :: "note_lib \<Rightarrow> bytes \<Rightarrow> wallet_error + HowlNoteRecord" where
  "decodeHowlNoteRecord L cell =
     (if length cell \<noteq> HOWL_NOTE_CELL_BYTES then Inl (WError ''cell length'')
      else let layout1 = uint (cell ! OFF_LAYOUT); kind = uint (cell ! OFF_KIND) in
        if layout1 \<noteq> HOWL_NOTE_LAYOUT_VERSION then Inl (WError ''record layout version'')
        else if kind \<noteq> RECORD_KIND_SELF \<and> kind \<noteq> RECORD_KIND_INCOMING
        then Inl (WError ''record kind is neither self nor incoming'')
        else if \<not> list_all (\<lambda>i. cell ! i = 0) [HOWL_NOTE_RECORD_BYTES..<HOWL_NOTE_CELL_BYTES]
        then Inl (WError ''cell padding is non-zero'')
        else ebind (readField L cell OFF_EPH_X) (\<lambda>eph.
             ebind (readField L cell OFF_CEK_WRAP) (\<lambda>wrap.
             ebind (emap (\<lambda>i. readField L cell (OFF_CIPHERTEXT + i * FIELD_BYTES)) [0..<length CIPHERTEXT_KEPT_INDICES])
               (\<lambda>kept.
               Inr \<lparr>layoutVersion = layout1, recordKind = kind,
                 hr_leafIndex = int (getUint32 (drop OFF_LEAF_INDEX cell)),
                 commitmentPrefix = take COMMITMENT_PREFIX_BYTES (drop OFF_COMMITMENT_PREFIX cell),
                 ephemeralPkX = eph, hr_cekWrap = wrap, ciphertextKept = kept\<rparr>))))"

definition commitmentPrefixMatches :: "HowlNoteRecord \<Rightarrow> fr \<Rightarrow> bool" where
  "commitmentPrefixMatches r commitment = (let expected = take COMMITMENT_PREFIX_BYTES (toBuffer commitment) in
     list_all (\<lambda>i. i < length expected \<and> commitmentPrefix r ! i = expected ! i) [0..<length (commitmentPrefix r)])"

section \<open>The words that are left out\<close>

definition STRIPPED_NOTE_VERSION_INDEX :: nat where "STRIPPED_NOTE_VERSION_INDEX = 0"
definition STRIPPED_OWNER_INDEX :: nat where "STRIPPED_OWNER_INDEX = 5"

definition keystream :: "note_lib \<Rightarrow> fr \<Rightarrow> nat \<Rightarrow> fr" where
  "keystream L cek index = poseidon2Hash L [cek, ENC_DOMAIN, index]"

definition place_kept :: "fr list \<Rightarrow> fr option list" where
  "place_kept kept = fold (\<lambda>(wordIndex, w) full. full[wordIndex := Some w])
     (zip CIPHERTEXT_KEPT_INDICES kept) (replicate DEM_FIELDS None)"

definition reconstructCiphertext :: "note_lib \<Rightarrow> HowlNoteRecord \<Rightarrow> fr \<Rightarrow> fr \<Rightarrow> wallet_error + fr list" where
  "reconstructCiphertext L r cek ownerCommitment =
     (if length (ciphertextKept r) \<noteq> length CIPHERTEXT_KEPT_INDICES then Inl (WError ''kept words'')
      else let versionPad = keystream L cek STRIPPED_NOTE_VERSION_INDEX;
               ownerPad = keystream L cek STRIPPED_OWNER_INDEX in
        ebind (new_Fr ((int NOTE_VERSION + int versionPad) mod int FR_MODULUS)) (\<lambda>version.
        ebind (new_Fr ((int ownerCommitment + int ownerPad) mod int FR_MODULUS)) (\<lambda>own.
          let full = (place_kept (ciphertextKept r))
                [STRIPPED_NOTE_VERSION_INDEX := Some version, STRIPPED_OWNER_INDEX := Some own] in
          if None \<in> set full then Inl (WError ''reconstructed ciphertext is missing a word'')
          else Inr (map the full))))"

section \<open>The bytes of a cell\<close>

lemma buf_set_middle:
  "length a = off \<Longrightarrow> length b = length src \<Longrightarrow> buf_set (a @ b @ c) src off = a @ src @ c"
  by (simp add: buf_set_def)

lemma put_words_middle:
  "length a = 86 + i * 32 \<Longrightarrow>
    put_words (a @ replicate (32 * length ws) 0 @ c) i ws = Inr (a @ concat (map toBuffer ws) @ c)"
proof (induction ws arbitrary: a i)
  case (Cons w ws)
  have "replicate (32 * length (w # ws)) (0 :: byte) = replicate 32 0 @ replicate (32 * length ws) 0"
    by (simp add: replicate_add)
  then have "buf_set (a @ replicate (32 * length (w # ws)) 0 @ c) (toBuffer w) (86 + i * 32) =
      (a @ toBuffer w) @ replicate (32 * length ws) 0 @ c"
    using buf_set_middle[of a "86 + i * 32" "replicate 32 0" "toBuffer w" "replicate (32 * length ws) 0 @ c"] Cons.prems
    by simp
  with Cons.IH[of "a @ toBuffer w" "i + 1"] Cons.prems show ?case
    by (simp add: putField_def Let_def note_simps)
qed simp

text \<open>A row that can be written, and the bytes it becomes.\<close>

definition record_ok :: "HowlNoteRecord \<Rightarrow> bool" where
  "record_ok r \<longleftrightarrow> layoutVersion r = 1 \<and> (recordKind r = 0 \<or> recordKind r = 1) \<and>
     0 \<le> hr_leafIndex r \<and> hr_leafIndex r < 2 ^ 32 \<and> length (commitmentPrefix r) = 16 \<and>
     ephemeralPkX r < FR_MODULUS \<and> hr_cekWrap r < FR_MODULUS \<and>
     length (ciphertextKept r) = 5 \<and> (\<forall>w \<in> set (ciphertextKept r). w < FR_MODULUS)"

definition cell_bytes :: "HowlNoteRecord \<Rightarrow> bytes" where
  "cell_bytes r = [word_of_int (layoutVersion r), word_of_int (recordKind r)] @
     u64be_loop 4 (nat (hr_leafIndex r)) [] @ commitmentPrefix r @ toBuffer (ephemeralPkX r) @
     toBuffer (hr_cekWrap r) @ concat (map toBuffer (ciphertextKept r)) @ replicate 10 0"

lemma replicate_cell:
  "replicate 256 (0 :: byte) =
    [0, 0] @ replicate 4 0 @ replicate 16 0 @ replicate 32 0 @ replicate 32 0 @ replicate 160 0 @ replicate 10 0"
proof -
  have "[0, 0 :: byte] = replicate 2 0" by (simp add: numeral_2_eq_2)
  then show ?thesis by (simp flip: replicate_add)
qed

lemma encode_eq:
  assumes "length (ciphertextKept r) = 5" "length (commitmentPrefix r) = 16" "0 \<le> hr_leafIndex r" "hr_leafIndex r < 2 ^ 32"
  shows "encodeHowlNoteRecord r = Inr (cell_bytes r)"
proof -
  let ?h = "[word_of_int (layoutVersion r), word_of_int (recordKind r)] :: bytes"
  let ?u = "u64be_loop 4 (nat (hr_leafIndex r)) []"
  have u: "length ?u = 4" by (simp add: length_u64be_loop)
  have h: "(replicate 256 (0 :: byte))[0 := word_of_int (layoutVersion r), 1 := word_of_int (recordKind r)] =
      ?h @ replicate 4 0 @ (replicate 16 0 @ replicate 32 0 @ replicate 32 0 @ replicate 160 0 @ replicate 10 0)"
    unfolding replicate_cell by simp
  note s = buf_set_middle[where a = ?h and b = "replicate 4 0" and src = ?u]
    buf_set_middle[where a = "?h @ ?u" and b = "replicate 16 0" and src = "commitmentPrefix r"]
    buf_set_middle[where a = "?h @ ?u @ commitmentPrefix r" and b = "replicate 32 0" and src = "toBuffer (ephemeralPkX r)"]
    buf_set_middle[where a = "?h @ ?u @ commitmentPrefix r @ toBuffer (ephemeralPkX r)" and b = "replicate 32 0"
      and src = "toBuffer (hr_cekWrap r)"]
  have w: "put_words (?h @ ?u @ commitmentPrefix r @ toBuffer (ephemeralPkX r) @ toBuffer (hr_cekWrap r) @
      replicate 160 0 @ replicate 10 0) 0 (ciphertextKept r) = Inr (cell_bytes r)"
    using put_words_middle[where a = "?h @ ?u @ commitmentPrefix r @ toBuffer (ephemeralPkX r) @ toBuffer (hr_cekWrap r)"
        and i = 0 and ws = "ciphertextKept r" and c = "replicate 10 0"] u assms(1,2)
    by (simp add: cell_bytes_def)
  show ?thesis
    using assms u s w h
    by (simp add: encodeHowlNoteRecord_def Let_def note_simps putField_def)
qed

lemma concat_toBuffer_5: "length ws = 5 \<Longrightarrow> concat (map toBuffer ws) =
    toBuffer (ws ! 0) @ toBuffer (ws ! 1) @ toBuffer (ws ! 2) @ toBuffer (ws ! 3) @ toBuffer (ws ! 4)"
  by (auto simp: length_Suc_conv numeral_eq_Suc)

lemma list_5: "length ws = 5 \<Longrightarrow> [ws ! 0, ws ! 1, ws ! 2, ws ! 3, ws ! 4] = ws"
  by (auto simp: length_Suc_conv numeral_eq_Suc)

lemma upt_5: "[0..<5] = [0, 1, 2, 3, 4 :: nat]"
  by (simp add: upt_rec)

lemma upt_pad: "[246..<256] = [246, 247, 248, 249, 250, 251, 252, 253, 254, 255 :: nat]"
  by (simp add: upt_rec)

text \<open>A cell cut at its offsets.\<close>

lemma cell_slices:
  assumes "record_ok r"
  shows "length (cell_bytes r) = 256" "cell_bytes r ! 0 = word_of_int (layoutVersion r)"
    "cell_bytes r ! 1 = word_of_int (recordKind r)" "i \<in> {246..<256} \<Longrightarrow> cell_bytes r ! i = 0"
    "take 4 (drop 2 (cell_bytes r)) = u64be_loop 4 (nat (hr_leafIndex r)) []"
    "take 16 (drop 6 (cell_bytes r)) = commitmentPrefix r"
    "take 32 (drop 22 (cell_bytes r)) = toBuffer (ephemeralPkX r)"
    "take 32 (drop 54 (cell_bytes r)) = toBuffer (hr_cekWrap r)"
    "j < 5 \<Longrightarrow> take 32 (drop (86 + j * 32) (cell_bytes r)) = toBuffer (ciphertextKept r ! j)"
proof -
  have l: "length (ciphertextKept r) = 5" "length (commitmentPrefix r) = 16" using assms by (auto simp: record_ok_def)
  have u: "length (u64be_loop 4 (nat (hr_leafIndex r)) []) = 4" by (simp add: length_u64be_loop)
  note c = cell_bytes_def concat_toBuffer_5[OF l(1)]
  show "length (cell_bytes r) = 256" "cell_bytes r ! 0 = word_of_int (layoutVersion r)"
    "cell_bytes r ! 1 = word_of_int (recordKind r)"
    using l u by (simp_all add: c)
  have d: "drop 246 (cell_bytes r) = replicate 10 0" using l u by (simp add: c)
  show "cell_bytes r ! i = 0" if "i \<in> {246..<256}"
    using arg_cong[OF d, of "\<lambda>xs. xs ! (i - 246)"] that \<open>length (cell_bytes r) = 256\<close>
      nth_replicate[of "i - 246" 10 "0 :: byte"] by (simp del: nth_replicate add: less_diff_conv2)
  show "take 4 (drop 2 (cell_bytes r)) = u64be_loop 4 (nat (hr_leafIndex r)) []"
    "take 16 (drop 6 (cell_bytes r)) = commitmentPrefix r"
    "take 32 (drop 22 (cell_bytes r)) = toBuffer (ephemeralPkX r)"
    "take 32 (drop 54 (cell_bytes r)) = toBuffer (hr_cekWrap r)"
    using l u by (simp_all add: c)
  assume "j < 5"
  then have "j \<in> {0, 1, 2, 3, 4}" by auto
  then show "take 32 (drop (86 + j * 32) (cell_bytes r)) = toBuffer (ciphertextKept r ! j)"
    using l u by (auto simp: c)
qed

lemma decode_encode:
  assumes "record_ok r" "lib_ok L"
  shows "decodeHowlNoteRecord L (cell_bytes r) = Inr r"
proof -
  note s = cell_slices[OF assms(1)]
  have fb: "x < FR_MODULUS \<Longrightarrow> fromBuffer L (toBuffer x) = Some x" for x using assms(2) by (simp add: lib_ok_def)
  have r: "layoutVersion r = 1" "recordKind r = 0 \<or> recordKind r = 1" "0 \<le> hr_leafIndex r" "hr_leafIndex r < 2 ^ 32"
    "ephemeralPkX r < FR_MODULUS" "hr_cekWrap r < FR_MODULUS" "length (ciphertextKept r) = 5"
    "\<forall>w \<in> set (ciphertextKept r). w < FR_MODULUS"
    using assms(1) by (simp_all add: record_ok_def)
  have "nat (hr_leafIndex r) < 256 ^ 4" using r(3,4) by simp
  then have li: "int (be_value (u64be_loop 4 (nat (hr_leafIndex r)) [])) = hr_leafIndex r"
    using r(3) by (simp add: be_value_u64be_loop del: u64be_loop.simps)
  have rf: "readField L (cell_bytes r) (86 + j * 32) = Inr (ciphertextKept r ! j)" if "j < 5" for j
    using that r(7,8) by (simp add: readField_def note_simps s(9) fb)
  have "emap (\<lambda>i. readField L (cell_bytes r) (86 + i * 32)) [0..<5] =
      Inr [ciphertextKept r ! 0, ciphertextKept r ! 1, ciphertextKept r ! 2, ciphertextKept r ! 3, ciphertextKept r ! 4]"
    using rf[of 0] rf[of 1] rf[of 2] rf[of 3] rf[of 4] by (simp add: upt_5)
  then have kept: "emap (\<lambda>i. readField L (cell_bytes r) (86 + i * 32)) [0..<5] = Inr (ciphertextKept r)"
    using list_5[OF r(7)] by simp
  have pad: "list_all (\<lambda>i. cell_bytes r ! i = 0) [246..<256]"
    using s(4) by (auto simp: list_all_iff)
  have "uint (cell_bytes r ! 0) = 1" "uint (cell_bytes r ! 1) = recordKind r"
    using r(1,2) s(2) s(3)[unfolded One_nat_def] by auto
  moreover have "readField L (cell_bytes r) 22 = Inr (ephemeralPkX r)" "readField L (cell_bytes r) 54 = Inr (hr_cekWrap r)"
    using r(5,6) by (simp_all add: readField_def note_simps s fb)
  ultimately show ?thesis
    using kept pad r li s
    by (simp add: decodeHowlNoteRecord_def Let_def note_simps getUint32_def del: upt_rec_numeral)
qed

section \<open>Canonical cells\<close>

lemma be_value_bound: "be_value bs < 256 ^ length bs"
proof (induction bs)
  case (Cons b bs)
  have "be_value (b # bs) < unat b * 256 ^ length bs + 256 ^ length bs" using Cons by (simp add: be_value_Cons)
  also have "\<dots> = (unat b + 1) * 256 ^ length bs" by simp
  also have "\<dots> \<le> 256 * 256 ^ length bs" using unat_byte_less[of b] by (intro mult_right_mono) simp_all
  finally show ?case by simp
qed simp

lemma be_value_same:
  "length xs = length ys \<Longrightarrow> be_value xs = be_value ys \<Longrightarrow> xs = ys"
proof (induction xs ys rule: list_induct2)
  case (Cons x xs y ys)
  have xy: "unat x * 256 ^ length ys + be_value xs = unat y * 256 ^ length ys + be_value ys"
    using Cons.prems Cons.hyps by (simp add: be_value_Cons)
  have b: "be_value xs < 256 ^ length ys" "be_value ys < 256 ^ length ys"
    using be_value_bound[of xs] be_value_bound[of ys] Cons.hyps by simp_all
  have "unat x = unat y"
    using arg_cong[OF xy, of "\<lambda>n. n div 256 ^ length ys"] b by simp
  with xy have "be_value xs = be_value ys" by simp
  with Cons.IH \<open>unat x = unat y\<close> show ?case by (simp add: unsigned_word_eqI)
qed simp

lemma u64be_be_value: "u64be_loop (length bs) (be_value bs) [] = bs"
  by (rule be_value_same) (simp_all add: length_u64be_loop be_value_u64be_loop be_value_bound)

definition buffer_exact :: "note_lib \<Rightarrow> bool" where
  "buffer_exact L \<longleftrightarrow> (\<forall>bs x. length bs = 32 \<longrightarrow> fromBuffer L bs = Some x \<longrightarrow> toBuffer x = bs)"

lemma drop_take_drop: "drop n xs = take k (drop n xs) @ drop (n + k) xs"
  by (metis append_take_drop_id drop_drop add.commute)

lemma readField_Inr:
  assumes "buffer_exact L" "readField L src off = Inr x" "off + 32 \<le> length src"
  shows "toBuffer x = take 32 (drop off src)"
  using assms by (auto simp: readField_def buffer_exact_def note_simps split: option.splits)

text \<open>An accepted cell is the encoding of the row read from it.\<close>

lemma encode_decode:
  assumes "decodeHowlNoteRecord L cell = Inr r" "buffer_exact L"
  shows "encodeHowlNoteRecord r = Inr cell"
proof -
  have len: "length cell = 256" and pad: "list_all (\<lambda>i. cell ! i = 0) [246..<256]"
    and lv: "layoutVersion r = uint (cell ! 0)" "recordKind r = uint (cell ! 1)"
    and li: "hr_leafIndex r = int (be_value (take 4 (drop 2 cell)))" and cp: "commitmentPrefix r = take 16 (drop 6 cell)"
    and e: "readField L cell 22 = Inr (ephemeralPkX r)" and w: "readField L cell 54 = Inr (hr_cekWrap r)"
    and k: "emap (\<lambda>i. readField L cell (86 + i * 32)) [0..<5] = Inr (ciphertextKept r)"
    using assms(1) unfolding decodeHowlNoteRecord_def Let_def
    by (auto simp: note_simps getUint32_def simp del: upt_rec_numeral split: if_splits)
  have kl: "length (ciphertextKept r) = 5" using emap_length[OF k] by simp
  have kn: "readField L cell (86 + j * 32) = Inr (ciphertextKept r ! j)" if "j < 5" for j
    using k that by (auto simp: emap_Inr_iff list_all2_conv_all_nth simp del: upt_rec_numeral)
  note rd = readField_Inr[OF assms(2)]
  have words: "toBuffer (ciphertextKept r ! j) = take 32 (drop (86 + j * 32) cell)" if "j < 5" for j
    using that by (intro rd kn) (simp_all add: len)
  have li': "0 \<le> hr_leafIndex r" "hr_leafIndex r < 2 ^ 32"
    using be_value_bound[of "take 4 (drop 2 cell)"] len by (simp_all add: li)
  have u: "u64be_loop 4 (nat (hr_leafIndex r)) [] = take 4 (drop 2 cell)"
    using u64be_be_value[of "take 4 (drop 2 cell)"] len by (simp add: li)
  have z: "drop 246 cell = replicate 10 0"
  proof (rule nth_equalityI)
    fix i assume "i < length (drop 246 cell)"
    then have i: "i < 10" by (simp add: len)
    have "cell ! (246 + i) = 0" using pad i by (simp add: list_all_iff del: upt_rec_numeral)
    then show "drop 246 cell ! i = replicate 10 0 ! i" using i by (simp add: len)
  qed (simp add: len)
  have "cell = [cell ! 0, cell ! 1] @ drop 2 cell"
    using len by (cases cell; cases "tl cell") (auto simp: numeral_2_eq_2)
  also have "\<dots> = [cell ! 0, cell ! 1] @ take 4 (drop 2 cell) @ take 16 (drop 6 cell) @ take 32 (drop 22 cell) @
      take 32 (drop 54 cell) @ take 32 (drop 86 cell) @ take 32 (drop 118 cell) @ take 32 (drop 150 cell) @
      take 32 (drop 182 cell) @ take 32 (drop 214 cell) @ drop 246 cell"
    using drop_take_drop[of 2 cell 4] drop_take_drop[of 6 cell 16] drop_take_drop[of 22 cell 32]
      drop_take_drop[of 54 cell 32] drop_take_drop[of 86 cell 32] drop_take_drop[of 118 cell 32]
      drop_take_drop[of 150 cell 32] drop_take_drop[of 182 cell 32] drop_take_drop[of 214 cell 32]
    by simp
  also have "\<dots> = cell_bytes r"
    using rd[OF e] rd[OF w] words[of 0] words[of 1] words[of 2] words[of 3] words[of 4]
    by (simp add: cell_bytes_def concat_toBuffer_5[OF kl] lv u cp z len)
  finally have "cell_bytes r = cell" ..
  with encode_eq[OF kl _ li'] show ?thesis by (simp add: cp len)
qed

section \<open>Putting the stripped words back\<close>

definition strip :: "fr list \<Rightarrow> fr list" where
  "strip ct = map (\<lambda>i. ct ! i) CIPHERTEXT_KEPT_INDICES"

lemma length_strip [simp]: "length (strip ct) = 5"
  by (simp add: strip_def kept_count)

lemma reconstruct_strip:
  assumes "demEncrypt L cek pt = Inr ct" "pt ! 0 = NOTE_VERSION" "pt ! 5 = own" "ciphertextKept r = strip ct"
  shows "reconstructCiphertext L r cek own = Inr ct"
proof -
  have ct: "length ct = 7" "ct ! 0 = fr_add NOTE_VERSION (keystream L cek 0)" "ct ! 5 = fr_add own (keystream L cek 5)"
    using assms(1-3) by (auto simp: demEncrypt_Inr keystream_def demKeystream_def nth_map_upt simp del: upt_rec_numeral)
  have f: "new_Fr ((int a + int b) mod int FR_MODULUS) = Inr (fr_add a b)" for a b
    using FR_MODULUS_bounds(3) by (simp add: new_Fr_def fr_add_def zmod_int[symmetric] flip: of_nat_add)
  have "\<exists>c0 c1 c2 c3 c4 c5 c6. ct = [c0, c1, c2, c3, c4, c5, c6]"
    using ct(1) by (auto simp: length_Suc_conv numeral_eq_Suc)
  then obtain c0 c1 c2 c3 c4 c5 c6 where c: "ct = [c0, c1, c2, c3, c4, c5, c6]" by blast
  have "place_kept (strip ct) = [None, Some c1, Some c2, Some c3, Some c4, None, Some c6]"
    by (simp add: place_kept_def strip_def CIPHERTEXT_KEPT_INDICES_def DEM_FIELDS_def c numeral_eq_Suc)
  then show ?thesis
    using ct assms(4)
    by (simp add: reconstructCiphertext_def f Let_def kept_count c STRIPPED_NOTE_VERSION_INDEX_def
        STRIPPED_OWNER_INDEX_def numeral_eq_Suc)
qed

lemma prefix_matches: "commitmentPrefix r = take 16 (toBuffer c) \<Longrightarrow> commitmentPrefixMatches r c"
  by (simp add: commitmentPrefixMatches_def list_all_iff note_simps)

end
