(* ===== verification/Compliance_Keys.thy ===== *)
theory Compliance_Keys
  imports Note_Crypto Json_Text "HOL-Library.Multiset"
begin

text \<open>
  The history of the compliance key a note may have been minted under,
  \<^verbatim>\<open>src/packages/wallets/src/note/complianceKeys.ts\<close>, and the identity string of a history that
  \<^verbatim>\<open>discovery/preflight.ts\<close> compares.

  The set of histories \<^verbatim>\<open>completeComplianceHistory\<close> has returned (a \<^verbatim>\<open>WeakSet\<close>) is the flag
  \<open>h_complete\<close> of the history itself, which nothing else sets; the objects are frozen.
\<close>

section \<open>The ring\<close>

definition COMPLIANCE_INITIAL_VERSION :: int where "COMPLIANCE_INITIAL_VERSION = 1"

record ComplianceKeyEpoch =
  ep_version :: int
  ep_pk :: point
  ep_fromBlock :: "int option"

record ComplianceKeyRotation =
  rt_oldVersion :: int
  rt_newVersion :: int
  rt_newX :: int
  rt_newY :: int
  rt_blockNumber :: "int option"

type_synonym ring = "ComplianceKeyEpoch list"

text \<open>The constructor's loop over the versions seen so far.\<close>

fun check_versions :: "int list \<Rightarrow> ComplianceKeyEpoch list \<Rightarrow> wallet_error + unit" where
  "check_versions seen [] = Inr ()"
| "check_versions seen (e # es) =
     (if ep_version e \<in> set seen then Inl (ComplianceKeyError DUPLICATE_VERSION)
      else check_versions (ep_version e # seen) es)"

definition new_ring :: "ComplianceKeyEpoch list \<Rightarrow> wallet_error + ring" where
  "new_ring epochs =
     (if epochs = [] then Inl (ComplianceKeyError EMPTY_RING)
      else ebind (check_versions [] epochs) (\<lambda>_. Inr (sort_key ep_version epochs)))"

definition ring_of :: "point \<Rightarrow> int option \<Rightarrow> wallet_error + ring" where
  "ring_of pk fromBlock =
     new_ring [\<lparr>ep_version = COMPLIANCE_INITIAL_VERSION, ep_pk = pk, ep_fromBlock = fromBlock\<rparr>]"

definition ring_from :: "ComplianceKeyEpoch list \<Rightarrow> wallet_error + ring" where
  "ring_from epochs = new_ring epochs"

definition epoch_of :: "ComplianceKeyRotation \<Rightarrow> ComplianceKeyEpoch" where
  "epoch_of r = \<lparr>ep_version = rt_newVersion r, ep_pk = (rt_newX r, rt_newY r), ep_fromBlock = rt_blockNumber r\<rparr>"

fun rotation_epochs :: "int \<Rightarrow> ComplianceKeyRotation list \<Rightarrow> wallet_error + ComplianceKeyEpoch list" where
  "rotation_epochs expectedOld [] = Inr []"
| "rotation_epochs expectedOld (r # rs) =
     (if rt_oldVersion r \<noteq> expectedOld \<or> rt_newVersion r \<noteq> expectedOld + 1
      then Inl (ComplianceKeyError INVALID_VERSION_SEQUENCE)
      else ebind (rotation_epochs (rt_newVersion r) rs) (\<lambda>es. Inr (epoch_of r # es)))"

definition ring_fromRotations ::
  "point \<Rightarrow> ComplianceKeyRotation list \<Rightarrow> int option \<Rightarrow> wallet_error + ring"
where
  "ring_fromRotations genesis rotations genesisBlock =
     ebind (rotation_epochs COMPLIANCE_INITIAL_VERSION rotations) (\<lambda>es.
       new_ring (\<lparr>ep_version = COMPLIANCE_INITIAL_VERSION, ep_pk = genesis, ep_fromBlock = genesisBlock\<rparr> # es))"

datatype key_source = BareKey point | KeyRing ring

fun ring_coerce :: "key_source \<Rightarrow> wallet_error + ring" where
  "ring_coerce (KeyRing r) = Inr r"
| "ring_coerce (BareKey pk) = ring_of pk None"

definition ring_current :: "ring \<Rightarrow> point" where
  "ring_current r = ep_pk (last r)"

definition ring_currentVersion :: "ring \<Rightarrow> int" where
  "ring_currentVersion r = ep_version (last r)"

definition covers_block :: "int \<Rightarrow> ComplianceKeyEpoch \<Rightarrow> bool" where
  "covers_block b e \<longleftrightarrow> (case ep_fromBlock e of None \<Rightarrow> False | Some f \<Rightarrow> f \<le> b)"

definition candidatesFor :: "ring \<Rightarrow> int option \<Rightarrow> ComplianceKeyEpoch list" where
  "candidatesFor r blockNumber = (let newestFirst = rev r in
     case blockNumber of
       None \<Rightarrow> newestFirst
     | Some b \<Rightarrow> (case find (covers_block b) newestFirst of
         None \<Rightarrow> newestFirst
       | Some covering \<Rightarrow> covering # filter (\<lambda>e. e \<noteq> covering) newestFirst))"

section \<open>Complete histories\<close>

record CompleteComplianceHistory =
  h_ring :: ring
  h_currentPk :: point
  h_currentVersion :: int
  h_complete :: bool

definition assertVersion :: "int \<Rightarrow> wallet_error + unit" where
  "assertVersion v =
     (if \<not> isSafeInteger v \<or> v < COMPLIANCE_INITIAL_VERSION then Inl (ComplianceKeyError INVALID_VERSION_SEQUENCE)
      else Inr ())"

text \<open>The loop over the rotations: the epochs and the last version.\<close>

fun history_epochs ::
  "int \<Rightarrow> int \<Rightarrow> ComplianceKeyRotation list \<Rightarrow> wallet_error + ComplianceKeyEpoch list \<times> int"
where
  "history_epochs expectedOld previousBlock [] = Inr ([], expectedOld)"
| "history_epochs expectedOld previousBlock (r # rs) =
     ebind (assertVersion (rt_oldVersion r)) (\<lambda>_.
     ebind (assertVersion (rt_newVersion r)) (\<lambda>_.
       if rt_oldVersion r \<noteq> expectedOld \<or> rt_newVersion r \<noteq> expectedOld + 1
       then Inl (ComplianceKeyError INVALID_VERSION_SEQUENCE)
       else case rt_blockNumber r of
         None \<Rightarrow> ebind (history_epochs (rt_newVersion r) previousBlock rs) (\<lambda>(es, n). Inr (epoch_of r # es, n))
       | Some b \<Rightarrow>
           if \<not> isSafeInteger b \<or> b < 0 \<or> b < previousBlock
           then Inl (ComplianceKeyError INVALID_VERSION_SEQUENCE)
           else ebind (history_epochs (rt_newVersion r) b rs) (\<lambda>(es, n). Inr (epoch_of r # es, n))))"

definition completeComplianceHistory ::
  "point \<Rightarrow> ComplianceKeyRotation list \<Rightarrow> point \<Rightarrow> int \<Rightarrow> wallet_error + CompleteComplianceHistory"
where
  "completeComplianceHistory genesisPk rotations currentPk currentVersion =
     ebind (assertVersion currentVersion) (\<lambda>_.
     ebind (history_epochs COMPLIANCE_INITIAL_VERSION (-1) rotations) (\<lambda>(es, expectedOld).
       let epochs = \<lparr>ep_version = COMPLIANCE_INITIAL_VERSION, ep_pk = genesisPk, ep_fromBlock = None\<rparr> # es in
       if expectedOld \<noteq> currentVersion then Inl (ComplianceKeyError INCOMPLETE_HISTORY)
       else if ep_pk (last epochs) \<noteq> currentPk then Inl (ComplianceKeyError CURRENT_KEY_MISMATCH)
       else ebind (ring_from epochs) (\<lambda>ring.
         Inr \<lparr>h_ring = ring, h_currentPk = currentPk, h_currentVersion = currentVersion, h_complete = True\<rparr>)))"

definition assertCompleteComplianceHistory :: "CompleteComplianceHistory \<Rightarrow> wallet_error + unit" where
  "assertCompleteComplianceHistory h =
     (if h_complete h then Inr () else Inl (ComplianceKeyError INCOMPLETE_HISTORY))"

section \<open>The identity of a history\<close>

definition epoch_text :: "ComplianceKeyEpoch \<Rightarrow> string" where
  "epoch_text e = int_to_string (ep_version e) @ '':'' @ int_to_string (fst (ep_pk e)) @ '':'' @
     int_to_string (snd (ep_pk e)) @ '':'' @ (case ep_fromBlock e of None \<Rightarrow> [] | Some b \<Rightarrow> int_to_string b)"

fun join_bar :: "string list \<Rightarrow> string" where
  "join_bar [] = []"
| "join_bar [x] = x"
| "join_bar (x # y # xs) = x @ ''|'' @ join_bar (y # xs)"

definition historyIdentity :: "CompleteComplianceHistory \<Rightarrow> wallet_error + string" where
  "historyIdentity h =
     ebind (assertCompleteComplianceHistory h) (\<lambda>_. Inr (join_bar (map epoch_text (h_ring h))))"

section \<open>What a ring holds\<close>

lemma check_versions_Inr:
  "check_versions seen es = Inr () \<longleftrightarrow>
    distinct (map ep_version es) \<and> set (map ep_version es) \<inter> set seen = {}"
  by (induction es arbitrary: seen) auto

lemma new_ring_Inr:
  "new_ring es = Inr r \<longleftrightarrow> es \<noteq> [] \<and> distinct (map ep_version es) \<and> r = sort_key ep_version es"
  by (auto simp: new_ring_def check_versions_Inr)

lemma new_ring_sorted:
  assumes "new_ring es = Inr r"
  shows "sorted_wrt (<) (map ep_version r)" "set r = set es" "r \<noteq> []"
  using assms by (auto simp: new_ring_Inr strict_sorted_iff distinct_map inj_on_def simp flip: set_empty)

lemma find_in_set: "find P xs = Some x \<Longrightarrow> P x \<and> x \<in> set xs"
  by (induction xs) (auto split: if_splits)

text \<open>No version is left out, and none tried twice.\<close>

lemma candidatesFor_mset:
  assumes "distinct r"
  shows "mset (candidatesFor r b) = mset r"
proof (cases b)
  case None
  then show ?thesis by (simp add: candidatesFor_def)
next
  case (Some n)
  show ?thesis
  proof (cases "find (covers_block n) (rev r)")
    case None
    with Some show ?thesis by (simp add: candidatesFor_def)
  next
    case (Some c)
    then have "c \<in> set r" using find_in_set by fastforce
    have "filter (\<lambda>e. e \<noteq> c) (rev r) = remove1 c (rev r)"
      using assms by (simp add: distinct_remove1_removeAll removeAll_filter_not_eq) (metis (full_types))
    then have "mset (c # filter (\<lambda>e. e \<noteq> c) (rev r)) = mset r"
      using \<open>c \<in> set r\<close> by simp
    with Some \<open>b = Some n\<close> show ?thesis by (simp add: candidatesFor_def Let_def)
  qed
qed

text \<open>The first version tried is the newest that was current by then.\<close>

lemma candidatesFor_first:
  assumes "sorted_wrt (<) (map ep_version r)" "e \<in> set r" "covers_block b e"
  shows "covers_block b (hd (candidatesFor r (Some b))) \<and> ep_version e \<le> ep_version (hd (candidatesFor r (Some b)))"
proof -
  obtain c where c: "find (covers_block b) (rev r) = Some c"
    using assms(2,3) by (cases "find (covers_block b) (rev r)") (auto simp: find_None_iff)
  then obtain i where i: "i < length r" "covers_block b (rev r ! i)" "c = rev r ! i" "\<forall>j<i. \<not> covers_block b (rev r ! j)"
    by (auto simp: find_Some_iff)
  obtain j where j: "j < length r" "rev r ! j = e"
    using assms(2) by (metis in_set_conv_nth length_rev set_rev)
  have "i \<le> j" using i(4) j assms(3) by (metis not_le)
  have "sorted (map ep_version r)" using assms(1) by (simp add: strict_sorted_iff)
  moreover have "length r - Suc j \<le> length r - Suc i" "length r - Suc i < length r" using \<open>i \<le> j\<close> i(1) by auto
  ultimately have "ep_version (r ! (length r - Suc j)) \<le> ep_version (r ! (length r - Suc i))"
    by (metis (no_types, lifting) le_less_trans length_map nth_map sorted_nth_mono)
  then have "ep_version e \<le> ep_version c" using i j by (simp add: rev_nth)
  then show ?thesis using c i(2,3) by (simp add: candidatesFor_def Let_def)
qed

section \<open>What a complete history holds\<close>

lemma epoch_of_version [simp]: "ep_version (epoch_of r) = rt_newVersion r"
  by (simp add: epoch_of_def)

lemma history_epochs_Inr:
  "history_epochs k p rs = Inr (es, n) \<Longrightarrow>
    es = map epoch_of rs \<and> n = k + int (length rs) \<and> map rt_newVersion rs = [k + 1..n]"
proof (induction rs arbitrary: k p es)
  case (Cons r rs)
  have r: "rt_newVersion r = k + 1" using Cons.prems by (auto split: if_splits)
  obtain q es' where es': "history_epochs (k + 1) q rs = Inr (es', n)" "es = epoch_of r # es'"
    using Cons.prems r by (auto split: if_splits option.splits)
  note IH = Cons.IH[OF es'(1)]
  then have "[k + 1..n] = (k + 1) # [k + 1 + 1..n]" by (subst upto.simps) simp
  with IH es'(2) r show ?case by simp
qed simp

lemma completeComplianceHistory_Inr:
  assumes "completeComplianceHistory g rots pk v = Inr h"
  shows "h_complete h" "h_currentPk h = pk" "h_currentVersion h = v" "1 \<le> v" "v = 1 + int (length rots)"
    "h_ring h = \<lparr>ep_version = 1, ep_pk = g, ep_fromBlock = None\<rparr> # map epoch_of rots"
    "map ep_version (h_ring h) = [1..v]" "ring_current (h_ring h) = pk" "ring_currentVersion (h_ring h) = v"
proof -
  let ?g = "\<lparr>ep_version = 1, ep_pk = g, ep_fromBlock = None\<rparr>"
  obtain es ring where e: "history_epochs 1 (-1) rots = Inr (es, v)" "ep_pk (last (?g # es)) = pk"
    "new_ring (?g # es) = Inr ring" "assertVersion v = Inr ()"
    "h = \<lparr>h_ring = ring, h_currentPk = pk, h_currentVersion = v, h_complete = True\<rparr>"
    using assms by (auto simp: completeComplianceHistory_def COMPLIANCE_INITIAL_VERSION_def ring_from_def Let_def
        simp del: last.simps split: if_splits)
  have es: "es = map epoch_of rots" "v = 1 + int (length rots)" "map rt_newVersion rots = [1 + 1..v]"
    using history_epochs_Inr[OF e(1)] by simp_all
  have "[1..v] = 1 # [1 + 1..v]" using es(2) by (subst upto.simps) simp
  then have vs: "map ep_version (?g # es) = [1..v]" using es by (simp add: comp_def)
  then have "sorted (map ep_version (?g # es))" by (simp only: sorted_upto)
  then have "sort_key ep_version (?g # es) = ?g # es" by (rule sort_key_id_if_sorted)
  then have ring: "ring = ?g # es" using e(3) by (simp add: new_ring_Inr)
  have "ep_version (last ring) = last (map ep_version ring)" by (simp add: ring last_map)
  also have "\<dots> = v" using vs es(2) ring by (simp add: upto_rec2)
  finally show "ring_currentVersion (h_ring h) = v" by (simp add: ring_currentVersion_def e(5))
  show "h_complete h" "h_currentPk h = pk" "h_currentVersion h = v" "1 \<le> v" "v = 1 + int (length rots)"
    "h_ring h = ?g # map epoch_of rots" "map ep_version (h_ring h) = [1..v]" "ring_current (h_ring h) = pk"
    using e(2,5) es ring vs by (simp_all add: ring_current_def)
qed

section \<open>A history's identity determines its epochs\<close>

definition plain_text :: "string \<Rightarrow> bool" where
  "plain_text t \<longleftrightarrow> CHR '':'' \<notin> set t \<and> CHR ''|'' \<notin> set t"

lemma plain_int: "plain_text (int_to_string n)"
proof -
  have "\<not> is_digit (CHR '':'')" "\<not> is_digit (CHR ''|'')" by (simp_all add: is_digit_def)
  then have "plain_text (nat_to_string m)" for m
    using nat_to_string_digits[of m] by (auto simp: plain_text_def list_all_iff)
  then show ?thesis by (auto simp: int_to_string_def plain_text_def)
qed

lemma plain_from: "plain_text (case b of None \<Rightarrow> [] | Some n \<Rightarrow> int_to_string n)"
  using plain_int by (cases b) (auto simp: plain_text_def)

lemma split_at: "c \<notin> set x \<Longrightarrow> c \<notin> set y \<Longrightarrow> x @ c # r = y @ c # s \<longleftrightarrow> x = y \<and> r = s"
proof (induction x arbitrary: y)
  case Nil
  then show ?case by (cases y) auto
next
  case (Cons a x)
  then show ?case by (cases y) auto
qed

lemma int_to_string_inject [simp]: "int_to_string m = int_to_string n \<longleftrightarrow> m = n"
proof
  assume e: "int_to_string m = int_to_string n"
  have d: "hd (nat_to_string k) \<noteq> CHR ''-''" for k
    using nat_to_string_digits[of k] nat_to_string_nonempty[of k] minus_not_digit
    by (cases "nat_to_string k") auto
  have "nat \<bar>m\<bar> = nat \<bar>n\<bar> \<and> (m < 0 \<longleftrightarrow> n < 0)"
    using e d[of "nat m"] d[of "nat n"] decimal_value_nat_to_string
    unfolding int_to_string_def by (smt (verit) list.sel(1) list.inject abs_of_neg abs_of_nonneg)
  then show "m = n" by linarith
qed simp

lemma int_to_string_nonempty: "int_to_string n \<noteq> []"
  by (simp add: int_to_string_def nat_to_string_nonempty)

lemma epoch_text_inject: "epoch_text e = epoch_text e' \<longleftrightarrow> e = e'"
proof
  have p: "CHR '':'' \<notin> set (int_to_string n)" for n using plain_int by (simp add: plain_text_def)
  assume "epoch_text e = epoch_text e'"
  then have "ep_version e = ep_version e'" "ep_pk e = ep_pk e'"
    "(case ep_fromBlock e of None \<Rightarrow> [] | Some b \<Rightarrow> int_to_string b) =
     (case ep_fromBlock e' of None \<Rightarrow> [] | Some b \<Rightarrow> int_to_string b)"
    by (simp_all add: epoch_text_def split_at p prod_eq_iff)
  moreover from this(3) have "ep_fromBlock e = ep_fromBlock e'"
    using int_to_string_nonempty by (auto split: option.splits) (metis int_to_string_nonempty)+
  ultimately show "e = e'" by simp
qed simp

lemma epoch_text_no_bar: "CHR ''|'' \<notin> set (epoch_text e)"
  using plain_int plain_from[of "ep_fromBlock e"] by (auto simp: epoch_text_def plain_text_def)

lemma join_bar_inject:
  "xs \<noteq> [] \<Longrightarrow> ys \<noteq> [] \<Longrightarrow> \<forall>x \<in> set xs \<union> set ys. CHR ''|'' \<notin> set x \<Longrightarrow> join_bar xs = join_bar ys \<Longrightarrow> xs = ys"
proof (induction xs arbitrary: ys rule: join_bar.induct)
  case (2 x)
  then show ?case by (cases ys rule: join_bar.cases) auto
next
  case (3 x y xs)
  then show ?case
  proof (cases ys rule: join_bar.cases)
    case (3 a b bs)
    from "3.prems"(3) 3 have "CHR ''|'' \<notin> set x" "CHR ''|'' \<notin> set a" by auto
    with "3.prems"(4) 3 have "x = a" "join_bar (y # xs) = join_bar (b # bs)" by (simp_all add: split_at)
    with "3.IH"[of "b # bs"] "3.prems"(3) 3 show ?thesis by auto
  qed auto
qed simp

lemma join_bar_empty: "[] \<notin> set xs \<Longrightarrow> join_bar xs = [] \<longleftrightarrow> xs = []"
  by (cases xs rule: join_bar.cases) auto

lemma historyIdentity_inject:
  assumes "historyIdentity h = Inr t" "historyIdentity h' = Inr t"
  shows "h_ring h = h_ring h'"
proof -
  have j: "join_bar (map epoch_text (h_ring h)) = join_bar (map epoch_text (h_ring h'))"
    using assms by (simp add: historyIdentity_def)
  have ne: "[] \<notin> set (map epoch_text r)" for r by (auto simp: epoch_text_def)
  have "map epoch_text (h_ring h) = map epoch_text (h_ring h')"
  proof (cases "h_ring h = [] \<or> h_ring h' = []")
    case True
    with j join_bar_empty[OF ne] show ?thesis by (metis list.map(1) map_is_Nil_conv)
  next
    case False
    with j epoch_text_no_bar show ?thesis by (intro join_bar_inject) auto
  qed
  moreover have "inj epoch_text" by (simp add: inj_def epoch_text_inject)
  ultimately show ?thesis by (metis inj_map_eq_map)
qed

end
