(* ===== verification/Preflight.thy ===== *)
theory Preflight
  imports Note_Record Compliance_Keys
begin

text \<open>
  Candidates for a self mint and the one-shot authority to use them: the derivation provenance of
  \<^verbatim>\<open>wallets/src/types/ephemeral.ts\<close> and the preflight of \<^verbatim>\<open>wallets/src/discovery/preflight.ts\<close>.

  The two \<^verbatim>\<open>WeakMap\<close>s are lists in the state: a marked candidate object and an issued handle are the
  positions of their entries, and an object that is in neither map is a position past the end. What the
  allocator and the discovery service return is not typed at run time, so their values are \<open>dyn\<close>. The
  allocator and the service are functions of a world \<open>'w\<close> that they change.
\<close>

section \<open>Values of unknown type\<close>

datatype dyn = DFr fr | DBig int | DNum jnum | DArr "dyn list" | DBytes bytes | DUndef | DOther

text \<open>The integer a number is, \<^verbatim>\<open>-0\<close> being zero for \<^verbatim>\<open>===\<close>.\<close>

fun num_of :: "dyn \<Rightarrow> int option" where
  "num_of (DNum (NInt i)) = Some i"
| "num_of (DNum NNegZero) = Some 0"
| "num_of d = None"

fun is_Fr :: "dyn \<Rightarrow> bool" where
  "is_Fr (DFr x) = True"
| "is_Fr d = False"

fun is_Array :: "dyn \<Rightarrow> bool" where
  "is_Array (DArr xs) = True"
| "is_Array d = False"

text \<open>\<^verbatim>\<open>a[i]\<close>, undefined outside the array.\<close>

fun elem :: "dyn \<Rightarrow> nat \<Rightarrow> dyn" where
  "elem (DArr xs) i = (if i < length xs then xs ! i else DUndef)"
| "elem d i = DUndef"

section \<open>Provenance\<close>

record candidate_object =
  co_eph :: dyn
  co_ephPub :: dyn
  co_tag :: dyn
  co_index :: dyn
  co_memberId :: dyn
  co_j :: dyn

record DerivedSelfMintProvenance =
  pv_ownerCommitment :: fr
  pv_eph :: fr
  pv_ephPub :: point
  pv_tag :: fr
  pv_index :: int
  pv_memberId :: "int option"
  pv_j :: "int option"
  pv_claimed :: bool

fun optionalBigInt :: "dyn \<Rightarrow> wallet_error + int option" where
  "optionalBigInt DUndef = Inr None"
| "optionalBigInt (DBig n) = Inr (Some n)"
| "optionalBigInt d = Inl (WError ''self-mint candidate member must be a bigint'')"

text \<open>What a derivation hands to \<^verbatim>\<open>markDerivedSelfMintCandidate\<close>, whose fields are typed there.\<close>

record candidate =
  cd_eph :: fr
  cd_ephPub :: point
  cd_tag :: fr
  cd_index :: int

definition provenance_of ::
  "candidate \<Rightarrow> int option \<Rightarrow> int option \<Rightarrow> fr \<Rightarrow> DerivedSelfMintProvenance"
where
  "provenance_of c memberId j ownerCommitment =
     \<lparr>pv_ownerCommitment = ownerCommitment, pv_eph = cd_eph c, pv_ephPub = cd_ephPub c, pv_tag = cd_tag c,
      pv_index = cd_index c, pv_memberId = memberId, pv_j = j, pv_claimed = False\<rparr>"

definition markDerivedSelfMintCandidate ::
  "candidate \<Rightarrow> dyn \<Rightarrow> dyn \<Rightarrow> fr \<Rightarrow> DerivedSelfMintProvenance list \<Rightarrow>
   wallet_error + DerivedSelfMintProvenance list"
where
  "markDerivedSelfMintCandidate c memberId j ownerCommitment marks =
     ebind (optionalBigInt memberId) (\<lambda>m. ebind (optionalBigInt j) (\<lambda>j1.
       Inr (marks @ [provenance_of c m j1 ownerCommitment])))"

datatype DerivedSelfMintClaim = CLAIMED | UNKNOWN | OWNER_MISMATCH | PROVENANCE_MISMATCH | ALREADY_CLAIMED

definition same_fields :: "candidate_object \<Rightarrow> DerivedSelfMintProvenance \<Rightarrow> int option \<Rightarrow> int option \<Rightarrow> bool" where
  "same_fields o1 p memberId j \<longleftrightarrow> co_eph o1 = DFr (pv_eph p) \<and>
     elem (co_ephPub o1) 0 = DBig (fst (pv_ephPub p)) \<and> elem (co_ephPub o1) 1 = DBig (snd (pv_ephPub p)) \<and>
     co_tag o1 = DFr (pv_tag p) \<and> num_of (co_index o1) = Some (pv_index p) \<and>
     memberId = pv_memberId p \<and> j = pv_j p"

definition claimDerivedSelfMintCandidate ::
  "nat \<Rightarrow> candidate_object \<Rightarrow> fr \<Rightarrow> DerivedSelfMintProvenance list \<Rightarrow>
   DerivedSelfMintClaim \<times> DerivedSelfMintProvenance list"
where
  "claimDerivedSelfMintCandidate ref o1 ownerCommitment marks =
     (if ref \<ge> length marks then (UNKNOWN, marks)
      else let p = marks ! ref in
        if pv_ownerCommitment p \<noteq> ownerCommitment then (OWNER_MISMATCH, marks)
        else if \<not> is_Fr (co_eph o1) \<or> \<not> is_Fr (co_tag o1) \<or> \<not> is_Array (co_ephPub o1)
        then (PROVENANCE_MISMATCH, marks)
        else case (optionalBigInt (co_memberId o1), optionalBigInt (co_j o1)) of
          (Inr memberId, Inr j) \<Rightarrow>
            if \<not> same_fields o1 p memberId j then (PROVENANCE_MISMATCH, marks)
            else if pv_claimed p then (ALREADY_CLAIMED, marks)
            else (CLAIMED, marks[ref := p\<lparr>pv_claimed := True\<rparr>])
        | _ \<Rightarrow> (PROVENANCE_MISMATCH, marks))"

section \<open>Authorizations\<close>

definition PREFLIGHT_COLLISION_BATCH_SIZE :: nat where "PREFLIGHT_COLLISION_BATCH_SIZE = 5"
definition MAX_PREFLIGHT_CANDIDATES :: nat where "MAX_PREFLIGHT_CANDIDATES = 256"

record SelfMintContext =
  sx_ownerCommitment :: fr
  sx_compliancePk :: point
  sx_complianceVersion :: int
  sx_complianceHistory :: CompleteComplianceHistory
  sx_chainId :: int
  sx_poolAddress :: string
  sx_deploymentAnchor :: int

record certified_context =
  cx_ownerCommitment :: fr
  cx_compliancePk :: point
  cx_complianceVersion :: int
  cx_complianceHistory :: string
  cx_chainId :: int
  cx_poolAddress :: string
  cx_deploymentAnchor :: int

record AuthorizationState =
  au_candidate :: candidate
  au_context :: certified_context
  au_consumed :: bool

text \<open>\<^verbatim>\<open>&&\<close> reads the history's identity, which may throw, only when everything before it agrees.\<close>

definition sameContext :: "certified_context \<Rightarrow> SelfMintContext \<Rightarrow> wallet_error + bool" where
  "sameContext certified expected =
     (if \<not> (cx_ownerCommitment certified = sx_ownerCommitment expected \<and>
            cx_compliancePk certified = sx_compliancePk expected \<and>
            cx_complianceVersion certified = sx_complianceVersion expected) then Inr False
      else ebind (historyIdentity (sx_complianceHistory expected)) (\<lambda>identity.
        Inr (cx_complianceHistory certified = identity \<and> cx_chainId certified = sx_chainId expected \<and>
          cx_poolAddress certified = to_lower (sx_poolAddress expected) \<and>
          cx_deploymentAnchor certified = sx_deploymentAnchor expected)))"

text \<open>The state that outlives a call: both maps. \<open>ms_consumed\<close> is not in the source: it lists the
  candidates consumptions have returned.\<close>

record mint_state =
  ms_marks :: "DerivedSelfMintProvenance list"
  ms_auths :: "AuthorizationState list"
  ms_consumed :: "candidate list"

definition certify :: "SelfMintContext \<Rightarrow> wallet_error + certified_context" where
  "certify context1 = ebind (historyIdentity (sx_complianceHistory context1)) (\<lambda>identity.
     Inr \<lparr>cx_ownerCommitment = sx_ownerCommitment context1, cx_compliancePk = sx_compliancePk context1,
      cx_complianceVersion = sx_complianceVersion context1, cx_complianceHistory = identity,
      cx_chainId = sx_chainId context1, cx_poolAddress = to_lower (sx_poolAddress context1),
      cx_deploymentAnchor = sx_deploymentAnchor context1\<rparr>)"

definition issueAuthorization ::
  "candidate \<Rightarrow> SelfMintContext \<Rightarrow> mint_state \<Rightarrow> (wallet_error + nat) \<times> mint_state"
where
  "issueAuthorization c context1 s = (case certify context1 of
     Inl e \<Rightarrow> (Inl e, s)
   | Inr cx \<Rightarrow> (Inr (length (ms_auths s)),
       s\<lparr>ms_auths := ms_auths s @ [\<lparr>au_candidate = c, au_context = cx, au_consumed = False\<rparr>]\<rparr>))"

text \<open>A handle passed to an assembly is an issued one, some other object, or no object at all.\<close>

datatype handle = Handle nat | NotAHandle nat

fun find_states ::
  "AuthorizationState list \<Rightarrow> SelfMintContext \<Rightarrow> handle list \<Rightarrow> wallet_error + (nat \<times> AuthorizationState) list"
where
  "find_states auths expected [] = Inr []"
| "find_states auths expected (NotAHandle n # hs) = Inl (SelfMintAuthorizationError UNKNOWN_AUTHORIZATION)"
| "find_states auths expected (Handle i # hs) =
     (if i \<ge> length auths then Inl (SelfMintAuthorizationError UNKNOWN_AUTHORIZATION)
      else if au_consumed (auths ! i) then Inl (SelfMintAuthorizationError AUTHORIZATION_CONSUMED)
      else ebind (sameContext (au_context (auths ! i)) expected) (\<lambda>same.
        if \<not> same then Inl (SelfMintAuthorizationError CONTEXT_MISMATCH)
        else ebind (find_states auths expected hs) (\<lambda>rest. Inr ((i, auths ! i) # rest))))"

definition consume_one :: "nat \<Rightarrow> AuthorizationState list \<Rightarrow> AuthorizationState list" where
  "consume_one i auths = auths[i := (auths ! i)\<lparr>au_consumed := True\<rparr>]"

definition consumeSelfMints ::
  "handle list \<Rightarrow> SelfMintContext \<Rightarrow> mint_state \<Rightarrow> (wallet_error + candidate list) \<times> mint_state"
where
  "consumeSelfMints handles expected s =
     (if length handles \<noteq> 1 \<and> length handles \<noteq> 2
      then (Inl (SelfMintAuthorizationError UNKNOWN_AUTHORIZATION), s)
      else if \<not> distinct handles then (Inl (SelfMintAuthorizationError DUPLICATE_AUTHORIZATION), s)
      else case find_states (ms_auths s) expected handles of
        Inl e \<Rightarrow> (Inl e, s)
      | Inr states \<Rightarrow> (let cs = map (\<lambda>(i, a). au_candidate a) states in
          if length states = 2 \<and> (cd_eph (cs ! 0) = cd_eph (cs ! 1) \<or> cd_tag (cs ! 0) = cd_tag (cs ! 1))
          then (Inl (SelfMintAuthorizationError DUPLICATE_AUTHORIZATION), s)
          else (Inr cs, s\<lparr>ms_auths := fold (\<lambda>(i, a). consume_one i) states (ms_auths s),
                          ms_consumed := ms_consumed s @ cs\<rparr>)))"

section \<open>Answers of the discovery service\<close>

record raw_fields =
  rr_layoutVersion :: dyn
  rr_recordKind :: dyn
  rr_leafIndex :: dyn
  rr_commitmentPrefix :: dyn
  rr_ephemeralPkX :: dyn
  rr_cekWrap :: dyn
  rr_ciphertextKept :: dyn

datatype raw_record = RecNull | RecOther | Rec raw_fields

datatype raw_entry = EntryOther | Entry dyn raw_record dyn

datatype response = ProbeThrows | NotAnArray | Rows "raw_entry list"

fun fr_value :: "dyn \<Rightarrow> fr option" where
  "fr_value (DFr x) = Some x"
| "fr_value d = None"

fun fr_values :: "dyn list \<Rightarrow> fr list option" where
  "fr_values [] = Some []"
| "fr_values (d # ds) = (case (fr_value d, fr_values ds) of (Some x, Some xs) \<Rightarrow> Some (x # xs) | _ \<Rightarrow> None)"

definition validatedRecord :: "raw_record \<Rightarrow> wallet_error + HowlNoteRecord" where
  "validatedRecord raw = (case raw of
     Rec r \<Rightarrow>
       (case (num_of (rr_layoutVersion r), num_of (rr_recordKind r), num_of (rr_leafIndex r), rr_commitmentPrefix r,
              fr_value (rr_ephemeralPkX r), fr_value (rr_cekWrap r), rr_ciphertextKept r) of
         (Some lv, Some kind, Some i, DBytes prefix, Some x, Some wrap, DArr ws) \<Rightarrow>
           (case fr_values ws of
              Some kept \<Rightarrow>
                if lv \<noteq> HOWL_NOTE_LAYOUT_VERSION \<or> kind \<noteq> RECORD_KIND_SELF \<and> kind \<noteq> RECORD_KIND_INCOMING \<or>
                   i < 0 \<or> i > 0xffffffff \<or> length prefix \<noteq> COMMITMENT_PREFIX_BYTES \<or>
                   length ws \<noteq> length CIPHERTEXT_KEPT_INDICES
                then Inl (SelfMintPreflightError DISCOVERY_PROTOCOL)
                else Inr \<lparr>layoutVersion = lv, recordKind = kind, hr_leafIndex = i, commitmentPrefix = prefix,
                  ephemeralPkX = x, hr_cekWrap = wrap, ciphertextKept = kept\<rparr>
            | None \<Rightarrow> Inl (SelfMintPreflightError DISCOVERY_PROTOCOL))
       | _ \<Rightarrow> Inl (SelfMintPreflightError DISCOVERY_PROTOCOL))
   | _ \<Rightarrow> Inl (SelfMintPreflightError DISCOVERY_PROTOCOL))"

text \<open>The body of the loop over the versions of the compliance key, whose every throw means "next version".\<close>

definition opens_with :: "note_lib \<Rightarrow> fr \<Rightarrow> HowlNoteRecord \<Rightarrow> fr \<Rightarrow> point \<Rightarrow> wallet_error + bool" where
  "opens_with L eph r ownerCommitment pk =
     ebind (deriveCek L eph pk) (\<lambda>cek.
     ebind (reconstructCiphertext L r cek ownerCommitment) (\<lambda>ciphertext.
     ebind (demDecrypt L cek ciphertext) (\<lambda>plaintext.
     ebind (leaf L \<lparr>noteVersion = plaintext ! 0, assetId = plaintext ! 1, noteType = plaintext ! 2,
        conditionsHash = plaintext ! 3, n_value = int (plaintext ! 4), n_owner = plaintext ! 5,
        psi = computePsi L cek, parents = plaintext ! 6\<rparr>) (\<lambda>commitment.
       Inr (commitmentPrefixMatches r commitment)))))"

fun opens_any :: "note_lib \<Rightarrow> fr \<Rightarrow> HowlNoteRecord \<Rightarrow> fr \<Rightarrow> ComplianceKeyEpoch list \<Rightarrow> bool" where
  "opens_any L eph r ownerCommitment [] = False"
| "opens_any L eph r ownerCommitment (e # es) =
     (case opens_with L eph r ownerCommitment (ep_pk e) of
        Inr True \<Rightarrow> True
      | _ \<Rightarrow> opens_any L eph r ownerCommitment es)"

definition opensExistingSelfRecord ::
  "note_lib \<Rightarrow> fr \<Rightarrow> HowlNoteRecord option \<Rightarrow> CompleteComplianceHistory \<Rightarrow> fr \<Rightarrow> wallet_error + bool"
where
  "opensExistingSelfRecord L eph r history ownerCommitment =
     ebind (assertCompleteComplianceHistory history) (\<lambda>_. case r of
       None \<Rightarrow> Inr False
     | Some rec \<Rightarrow>
         if recordKind rec \<noteq> RECORD_KIND_SELF then Inr False
         else Inr (opens_any L eph rec ownerCommitment (candidatesFor (h_ring history) None)))"

section \<open>The preflight\<close>

record SelfMintDomain =
  sd_chainId :: int
  sd_poolAddress :: string
  sd_deploymentAnchor :: int

definition is_hex :: "char \<Rightarrow> bool" where
  "is_hex c \<longleftrightarrow> is_lower_hex (lower_char c)"

text \<open>\<^verbatim>\<open>/^0x[0-9a-fA-F]{40}$/\<close>\<close>

definition is_pool_address :: "string \<Rightarrow> bool" where
  "is_pool_address a \<longleftrightarrow> length a = 42 \<and> take 2 a = ''0x'' \<and> list_all is_hex (drop 2 a)"

text \<open>The constructor: the context it certifies from then on. The history is a field of it.\<close>

definition new_preflight ::
  "CompleteComplianceHistory \<Rightarrow> fr \<Rightarrow> SelfMintDomain \<Rightarrow> wallet_error + SelfMintContext"
where
  "new_preflight history ownerCommitment domain =
     ebind (assertCompleteComplianceHistory history) (\<lambda>_.
       if sd_chainId domain < 0 \<or> sd_deploymentAnchor domain < 0
       then Inl (SelfMintPreflightError DISCOVERY_PROTOCOL)
       else if \<not> is_pool_address (sd_poolAddress domain) then Inl (SelfMintPreflightError DISCOVERY_PROTOCOL)
       else Inr \<lparr>sx_ownerCommitment = ownerCommitment, sx_compliancePk = h_currentPk history,
         sx_complianceVersion = h_currentVersion history, sx_complianceHistory = history,
         sx_chainId = sd_chainId domain, sx_poolAddress = to_lower (sd_poolAddress domain),
         sx_deploymentAnchor = sd_deploymentAnchor domain\<rparr>)"

record 'w preflight_deps =
  pd_next :: "'w \<Rightarrow> (wallet_error + nat \<times> candidate_object) \<times> 'w"
  pd_probeFirst :: "fr list \<Rightarrow> 'w \<Rightarrow> response \<times> 'w"

record 'w take_state =
  tk_ready :: "candidate list"
  tk_mint :: mint_state
  tk_world :: 'w

type_synonym ('w, 'a) take_action = "('w take_state, wallet_error, 'a) action"

text \<open>What follows a successful claim: the fields must be those of a key pair and its tag.\<close>

definition checked_candidate :: "note_lib \<Rightarrow> candidate_object \<Rightarrow> wallet_error + candidate" where
  "checked_candidate L o1 = (case (co_eph o1, co_tag o1, co_ephPub o1) of
     (DFr eph, DFr tag, DArr [DBig x, DBig y]) \<Rightarrow>
       let ephPub = publicKey L eph in
       ebind (new_Fr (fst ephPub)) (\<lambda>t.
         case num_of (co_index o1) of
           None \<Rightarrow> Inl (SelfMintPreflightError DISCOVERY_PROTOCOL)
         | Some i \<Rightarrow>
             if x \<noteq> fst ephPub \<or> y \<noteq> snd ephPub \<or> tag \<noteq> t \<or> \<not> isSafeInteger i \<or> i < 0
             then Inl (SelfMintPreflightError DISCOVERY_PROTOCOL)
             else Inr \<lparr>cd_eph = eph, cd_ephPub = ephPub, cd_tag = t, cd_index = i\<rparr>)
   | _ \<Rightarrow> Inl (SelfMintPreflightError DISCOVERY_PROTOCOL))"

fun claim_error :: "DerivedSelfMintClaim \<Rightarrow> wallet_error + unit" where
  "claim_error UNKNOWN = Inl (SelfMintPreflightError DISCOVERY_PROTOCOL)"
| "claim_error OWNER_MISMATCH = Inl (SelfMintPreflightError CANDIDATE_OWNER_MISMATCH)"
| "claim_error PROVENANCE_MISMATCH = Inl (SelfMintPreflightError CANDIDATE_PROVENANCE_MISMATCH)"
| "claim_error ALREADY_CLAIMED = Inl (SelfMintPreflightError CANDIDATE_ALREADY_CLAIMED)"
| "claim_error CLAIMED = Inr ()"

definition claim_candidate ::
  "note_lib \<Rightarrow> SelfMintContext \<Rightarrow> nat \<Rightarrow> candidate_object \<Rightarrow> mint_state \<Rightarrow> (wallet_error + candidate) \<times> mint_state"
where
  "claim_candidate L context1 ref o1 s =
     (case claimDerivedSelfMintCandidate ref o1 (sx_ownerCommitment context1) (ms_marks s) of
       (claim, marks) \<Rightarrow> (ebind (claim_error claim) (\<lambda>_. checked_candidate L o1), s\<lparr>ms_marks := marks\<rparr>))"

definition allocate_one :: "note_lib \<Rightarrow> 'w preflight_deps \<Rightarrow> SelfMintContext \<Rightarrow> ('w, candidate) take_action" where
  "allocate_one L D context1 s = (case pd_next D (tk_world s) of
     (Inl e, w) \<Rightarrow> (Inl e, s\<lparr>tk_world := w\<rparr>)
   | (Inr (ref, o1), w) \<Rightarrow> (case claim_candidate L context1 ref o1 (tk_mint s) of
       (r, m) \<Rightarrow> (r, s\<lparr>tk_world := w, tk_mint := m\<rparr>)))"

fun allocate ::
  "note_lib \<Rightarrow> 'w preflight_deps \<Rightarrow> SelfMintContext \<Rightarrow> nat \<Rightarrow> candidate list \<Rightarrow> ('w, candidate list) take_action"
where
  "allocate L D context1 0 allocated = sret allocated"
| "allocate L D context1 (Suc n) allocated = sbind (allocate_one L D context1) (\<lambda>c.
     allocate L D context1 n (allocated @ [c]))"

text \<open>The loop over the rows: each must be for a requested tag that has not been answered yet.\<close>

fun read_rows ::
  "fr list \<Rightarrow> (fr \<times> HowlNoteRecord) list \<Rightarrow> raw_entry list \<Rightarrow> wallet_error + (fr \<times> HowlNoteRecord) list"
where
  "read_rows requested returned [] = Inr returned"
| "read_rows requested returned (EntryOther # rows) = Inl (SelfMintPreflightError DISCOVERY_PROTOCOL)"
| "read_rows requested returned (Entry tag rec cnt # rows) =
     (case (fr_value tag, num_of cnt) of
        (Some t, Some n) \<Rightarrow>
          if \<not> isSafeInteger n \<or> n < 0 then Inl (SelfMintPreflightError DISCOVERY_PROTOCOL)
          else if t \<notin> set requested \<or> t \<in> fst ` set returned then Inl (SelfMintPreflightError DISCOVERY_PROTOCOL)
          else ebind (validatedRecord rec) (\<lambda>r. read_rows requested (returned @ [(t, r)]) rows)
      | _ \<Rightarrow> Inl (SelfMintPreflightError DISCOVERY_PROTOCOL))"

fun keep_free ::
  "note_lib \<Rightarrow> SelfMintContext \<Rightarrow> (fr \<times> HowlNoteRecord) list \<Rightarrow> candidate list \<Rightarrow> ('w, unit) take_action"
where
  "keep_free L context1 returned [] = sret ()"
| "keep_free L context1 returned (c # cs) = (case map_of returned (cd_tag c) of
     None \<Rightarrow> sthrow (SelfMintPreflightError DISCOVERY_PROTOCOL)
   | Some r \<Rightarrow> sbind (slift (opensExistingSelfRecord L (cd_eph c) (Some r)
         (sx_complianceHistory context1) (sx_ownerCommitment context1))) (\<lambda>occupied.
       sbind (if occupied then sret () else smodify (\<lambda>s. s\<lparr>tk_ready := tk_ready s @ [c]\<rparr>)) (\<lambda>_.
         keep_free L context1 returned cs)))"

definition classify ::
  "note_lib \<Rightarrow> 'w preflight_deps \<Rightarrow> SelfMintContext \<Rightarrow> candidate list \<Rightarrow> ('w, unit) take_action"
where
  "classify L D context1 candidates s = (let tags = map cd_tag candidates in
     case pd_probeFirst D tags (tk_world s) of (raw, w) \<Rightarrow> let s1 = s\<lparr>tk_world := w\<rparr> in
       (case raw of
          ProbeThrows \<Rightarrow> sthrow (SelfMintPreflightError DISCOVERY_UNAVAILABLE)
        | NotAnArray \<Rightarrow> sthrow (SelfMintPreflightError DISCOVERY_PROTOCOL)
        | Rows rows \<Rightarrow>
            if length rows \<noteq> length candidates then sthrow (SelfMintPreflightError DISCOVERY_PROTOCOL)
            else if \<not> distinct tags then sthrow (SelfMintPreflightError DISCOVERY_PROTOCOL)
            else sbind (slift (read_rows tags [] rows)) (\<lambda>returned.
              keep_free L context1 returned candidates)) s1)"

text \<open>The \<^verbatim>\<open>while\<close> of \<^verbatim>\<open>#take\<close>. An allocation that returns has tested as many candidates as were asked for.\<close>

function take_loop ::
  "note_lib \<Rightarrow> 'w preflight_deps \<Rightarrow> SelfMintContext \<Rightarrow> nat \<Rightarrow> nat \<Rightarrow> ('w, unit) take_action"
where
  "take_loop L D context1 needed tested s =
     (if length (tk_ready s) \<ge> needed then (Inr (), s)
      else if tested \<ge> MAX_PREFLIGHT_CANDIDATES then (Inl (SelfMintPreflightError CANDIDATES_EXHAUSTED), s)
      else let n = min PREFLIGHT_COLLISION_BATCH_SIZE (MAX_PREFLIGHT_CANDIDATES - tested) in
        case allocate L D context1 n [] s of
          (Inl e, s1) \<Rightarrow> (Inl e, s1)
        | (Inr batch, s1) \<Rightarrow> (case classify L D context1 batch s1 of
            (Inl e, s2) \<Rightarrow> (Inl e, s2)
          | (Inr _, s2) \<Rightarrow> take_loop L D context1 needed (tested + n) s2))"
  by pat_completeness auto
termination
  by (relation "measure (\<lambda>(L, D, c, n, tested, s). MAX_PREFLIGHT_CANDIDATES - tested)")
    (auto simp: PREFLIGHT_COLLISION_BATCH_SIZE_def MAX_PREFLIGHT_CANDIDATES_def)

declare take_loop.simps [simp del]

fun issue_all :: "SelfMintContext \<Rightarrow> candidate list \<Rightarrow> ('w, nat list) take_action" where
  "issue_all context1 [] = sret []"
| "issue_all context1 (c # cs) = sbind (\<lambda>s. case issueAuthorization c context1 (tk_mint s) of
      (r, m) \<Rightarrow> (r, s\<lparr>tk_mint := m\<rparr>)) (\<lambda>h.
    sbind (issue_all context1 cs) (\<lambda>hs. sret (h # hs)))"

definition first_batch :: "note_lib \<Rightarrow> 'w preflight_deps \<Rightarrow> SelfMintContext \<Rightarrow> nat \<Rightarrow> ('w, nat) take_action" where
  "first_batch L D context1 needed s =
     (if length (tk_ready s) < needed
      then sbind (allocate L D context1 (needed - length (tk_ready s)) []) (\<lambda>initial.
             sbind (classify L D context1 initial) (\<lambda>_. sret (length initial))) s
      else (Inr 0, s))"

definition take_mints :: "note_lib \<Rightarrow> 'w preflight_deps \<Rightarrow> SelfMintContext \<Rightarrow> nat \<Rightarrow> ('w, nat list) take_action" where
  "take_mints L D context1 needed =
     (if needed \<noteq> 1 \<and> needed \<noteq> 2 then sthrow (SelfMintPreflightError INVALID_COUNT)
      else sbind (first_batch L D context1 needed) (\<lambda>tested.
           sbind (take_loop L D context1 needed tested) (\<lambda>_.
           sbind sget (\<lambda>s.
           sbind (smodify (\<lambda>s. s\<lparr>tk_ready := drop needed (tk_ready s)\<rparr>)) (\<lambda>_.
             issue_all context1 (take needed (tk_ready s)))))))"

section \<open>What the service would hold for a minted note\<close>

text \<open>The plaintext of a minted note in the cipher's order, and a self row of it.\<close>

definition note_plaintext :: "MintedNote \<Rightarrow> fr list" where
  "note_plaintext mn = [pn_noteVersion (mn_note mn), pn_assetId (mn_note mn), pn_noteType (mn_note mn),
     pn_conditionsHash (mn_note mn), pn_value (mn_note mn), pn_owner (mn_note mn), pn_parents (mn_note mn)]"

definition row_of :: "note_lib \<Rightarrow> MintedNote \<Rightarrow> HowlNoteRecord \<Rightarrow> bool" where
  "row_of L mn r \<longleftrightarrow> recordKind r = RECORD_KIND_SELF \<and> commitmentPrefix r = take 16 (toBuffer (mn_commitment mn)) \<and>
     (\<exists>ct. demEncrypt L (mn_cek mn) (note_plaintext mn) = Inr ct \<and> ciphertextKept r = strip ct)"

lemma length_note_plaintext [simp]: "length (note_plaintext mn) = 7"
  by (simp add: note_plaintext_def)

text \<open>The row opens under the key the note was minted with.\<close>

lemma opens_minted:
  assumes "finish L eph v own asset sk prnts pk = Inr mn" "row_of L mn r"
    and "own < FR_MODULUS" "asset < FR_MODULUS" "prnts < FR_MODULUS"
  shows "opens_with L eph r own pk = Inr True"
proof -
  note f = finish_Inr[OF assms(1)]
  obtain ct where ct: "demEncrypt L (mn_cek mn) (note_plaintext mn) = Inr ct" "ciphertextKept r = strip ct"
    using assms(2) by (auto simp: row_of_def)
  have v: "nat v < FR_MODULUS" using f(2,3) by (simp add: FR_MODULUS_def)
  have pt: "note_plaintext mn = [NOTE_VERSION, asset, NOTE_TYPE_STANDARD, 0, nat v, own, prnts]"
    by (simp add: note_plaintext_def f(5))
  have "\<forall>x \<in> set (note_plaintext mn). x < FR_MODULUS"
    using assms(3-5) v by (simp add: pt) (simp add: FR_MODULUS_def NOTE_VERSION_def NOTE_TYPE_STANDARD_def)
  then have d: "demDecrypt L (mn_cek mn) ct = Inr (note_plaintext mn)" by (rule demDecrypt_demEncrypt[OF _ ct(1)])
  have rc: "reconstructCiphertext L r (mn_cek mn) own = Inr ct"
    by (rule reconstruct_strip[OF ct(1) _ _ ct(2)]) (simp_all add: pt)
  have l: "leaf L \<lparr>noteVersion = NOTE_VERSION, assetId = asset, noteType = NOTE_TYPE_STANDARD, conditionsHash = 0,
      n_value = int (nat v), n_owner = own, psi = computePsi L (mn_cek mn), parents = prnts\<rparr> = Inr (mn_commitment mn)"
    using f(2,3) by (simp add: leaf_Inr f(4,6))
  have "commitmentPrefixMatches r (mn_commitment mn)" using assms(2) by (intro prefix_matches) (simp add: row_of_def)
  with d rc l f(1) show ?thesis by (simp add: opens_with_def pt)
qed

lemma opens_any_intro: "e \<in> set es \<Longrightarrow> opens_with L eph r own (ep_pk e) = Inr True \<Longrightarrow> opens_any L eph r own es"
  by (induction es) (auto split: sum.splits bool.splits)

lemma opensExisting_minted:
  assumes "finish L eph v own asset sk prnts pk = Inr mn" "row_of L mn r"
    and "own < FR_MODULUS" "asset < FR_MODULUS" "prnts < FR_MODULUS"
    and "h_complete h" "e \<in> set (h_ring h)" "ep_pk e = pk"
  shows "opensExistingSelfRecord L eph (Some r) h own = Inr True"
proof -
  have "e \<in> set (candidatesFor (h_ring h) None)" using assms(7) by (simp add: candidatesFor_def)
  moreover have "recordKind r = RECORD_KIND_SELF" using assms(2) by (simp add: row_of_def)
  ultimately show ?thesis
    using opens_any_intro opens_minted[OF assms(1-5)] assms(6,8)
    by (simp add: opensExistingSelfRecord_def assertCompleteComplianceHistory_def)
qed

section \<open>What classification keeps\<close>

definition occupied :: "note_lib \<Rightarrow> SelfMintContext \<Rightarrow> (fr \<times> HowlNoteRecord) list \<Rightarrow> candidate \<Rightarrow> bool" where
  "occupied L cx returned c \<longleftrightarrow> (case map_of returned (cd_tag c) of
     None \<Rightarrow> True
   | Some r \<Rightarrow> opensExistingSelfRecord L (cd_eph c) (Some r) (sx_complianceHistory cx) (sx_ownerCommitment cx) = Inr True)"

lemma keep_free_Inr:
  "keep_free L cx returned cs s = (Inr (), s') \<Longrightarrow>
    tk_ready s' = tk_ready s @ filter (\<lambda>c. \<not> occupied L cx returned c) cs"
proof (induction cs arbitrary: s)
  case Nil
  then show ?case by (simp add: sret_def)
next
  case (Cons c cs)
  then obtain r where r: "map_of returned (cd_tag c) = Some r"
    by (cases "map_of returned (cd_tag c)") (auto simp: sthrow_def)
  let ?o = "opensExistingSelfRecord L (cd_eph c) (Some r) (sx_complianceHistory cx) (sx_ownerCommitment cx)"
  obtain b where b: "?o = Inr b" using Cons.prems r by (cases ?o) (auto simp: sbind_def slift_def)
  show ?case
  proof (cases b)
    case True
    with Cons r b show ?thesis by (simp add: sbind_def slift_def sret_def occupied_def)
  next
    case False
    with Cons.prems r b have "keep_free L cx returned cs (s\<lparr>tk_ready := tk_ready s @ [c]\<rparr>) = (Inr (), s')"
      by (simp add: sbind_def slift_def smodify_def)
    from Cons.IH[OF this] False r b show ?thesis by (simp add: occupied_def)
  qed
qed

lemma read_rows_Inr:
  "read_rows tags acc rows = Inr returned \<Longrightarrow> distinct (map fst acc) \<Longrightarrow>
    distinct (map fst returned) \<and> set acc \<subseteq> set returned \<and> length returned = length acc + length rows \<and>
    (\<forall>t rec n. Entry (DFr t) rec n \<in> set rows \<longrightarrow> (\<exists>r. validatedRecord rec = Inr r \<and> (t, r) \<in> set returned))"
proof (induction tags acc rows rule: read_rows.induct)
  case (3 tags acc tag rec cnt rows)
  obtain t n r where t: "fr_value tag = Some t" "num_of cnt = Some n" "isSafeInteger n" "\<not> n < 0" "t \<in> set tags"
    "t \<notin> fst ` set acc" "validatedRecord rec = Inr r" "read_rows tags (acc @ [(t, r)]) rows = Inr returned"
    using "3.prems"(1) by (auto split: option.splits if_splits)
  have d: "distinct (map fst (acc @ [(t, r)]))" using "3.prems"(2) t(6) by simp
  have IH: "distinct (map fst returned) \<and> set (acc @ [(t, r)]) \<subseteq> set returned \<and>
      length returned = length (acc @ [(t, r)]) + length rows \<and>
      (\<forall>t rec n. Entry (DFr t) rec n \<in> set rows \<longrightarrow> (\<exists>r. validatedRecord rec = Inr r \<and> (t, r) \<in> set returned))"
    by (rule "3.IH"[OF refl t(1,2) _ _ t(8) d]) (use t in simp_all)
  have "tag = DFr t" using t(1) by (cases tag) auto
  with IH t(7) show ?case by auto
qed simp_all

text \<open>A candidate whose tag the service answers with a row of a note minted from it, under any version of the
  history, is not kept.\<close>

lemma classify_occupied:
  assumes c: "classify L D cx cs s = (Inr (), s')" "c \<in> set cs" "c \<notin> set (tk_ready s)"
    and rows: "pd_probeFirst D (map cd_tag cs) (tk_world s) = (Rows rows, w)"
    and row: "Entry (DFr (cd_tag c)) rec n \<in> set rows" "validatedRecord rec = Inr r"
    and occ: "opensExistingSelfRecord L (cd_eph c) (Some r) (sx_complianceHistory cx) (sx_ownerCommitment cx) = Inr True"
  shows "c \<notin> set (tk_ready s')"
proof -
  obtain returned where r: "read_rows (map cd_tag cs) [] rows = Inr returned"
    "keep_free L cx returned cs (s\<lparr>tk_world := w\<rparr>) = (Inr (), s')"
    using c(1) rows by (auto simp: classify_def Let_def sthrow_def sbind_def slift_def split: if_splits sum.splits)
  have d: "distinct (map fst returned)" using read_rows_Inr[OF r(1)] by simp
  have "\<exists>r. validatedRecord rec = Inr r \<and> (cd_tag c, r) \<in> set returned"
    using conjunct2[OF conjunct2[OF conjunct2[OF read_rows_Inr[OF r(1)]]]] row(1) by simp blast
  with d row(2) have "map_of returned (cd_tag c) = Some r" by auto
  then have "occupied L cx returned c" using occ by (simp add: occupied_def)
  with keep_free_Inr[OF r(2)] c(3) show ?thesis by simp
qed

end
