(* ===== verification/Mint_Protocol.thy ===== *)
theory Mint_Protocol
  imports Preflight
begin

text \<open>
  What the preflight guarantees: every candidate an assembly consumes was marked by a derivation, claimed
  by one preflight, authorised once and consumed once, however the calls of several preflights and
  assemblies interleave.

  \<open>mint_step\<close> splits a call of \<^verbatim>\<open>take\<close> at its \<^verbatim>\<open>await\<close>s. A preflight is the pair of its list \<^verbatim>\<open>#ready\<close> and
  the candidates the running call has claimed and not yet classified. The lemmas of the last section show
  that the functions of \<open>Preflight\<close> are sequences of these steps.
\<close>

section \<open>Steps\<close>

record preflight =
  pf_ready :: "candidate list"
  pf_pending :: "candidate list"

record mint_system =
  my_mint :: mint_state
  my_preflights :: "preflight list"

definition set_preflight :: "nat \<Rightarrow> preflight \<Rightarrow> mint_system \<Rightarrow> mint_system" where
  "set_preflight i p y = y\<lparr>my_preflights := (my_preflights y)[i := p]\<rparr>"

inductive mint_step :: "note_lib \<Rightarrow> mint_system \<Rightarrow> mint_system \<Rightarrow> bool" for L where
  mark: "markDerivedSelfMintCandidate c m j own (ms_marks (my_mint y)) = Inr marks \<Longrightarrow>
    mint_step L y (y\<lparr>my_mint := (my_mint y)\<lparr>ms_marks := marks\<rparr>\<rparr>)"
| preflight: "mint_step L y (y\<lparr>my_preflights := my_preflights y @ [\<lparr>pf_ready = [], pf_pending = []\<rparr>]\<rparr>)"
| claim: "i < length (my_preflights y) \<Longrightarrow> p = my_preflights y ! i \<Longrightarrow>
    claim_candidate L cx ref o1 (my_mint y) = (Inr c, m) \<Longrightarrow>
    mint_step L y (set_preflight i (p\<lparr>pf_pending := pf_pending p @ [c]\<rparr>) (y\<lparr>my_mint := m\<rparr>))"
| claim_fails: "claim_candidate L cx ref o1 (my_mint y) = (Inl e, m) \<Longrightarrow> mint_step L y (y\<lparr>my_mint := m\<rparr>)"
| drop: "i < length (my_preflights y) \<Longrightarrow> p = my_preflights y ! i \<Longrightarrow> pf_pending p = c # cs \<Longrightarrow>
    mint_step L y (set_preflight i (p\<lparr>pf_pending := cs\<rparr>) y)"
| classify: "i < length (my_preflights y) \<Longrightarrow> p = my_preflights y ! i \<Longrightarrow> pf_pending p = c # cs \<Longrightarrow>
    mint_step L y (set_preflight i (p\<lparr>pf_ready := pf_ready p @ [c], pf_pending := cs\<rparr>) y)"
| issue: "i < length (my_preflights y) \<Longrightarrow> p = my_preflights y ! i \<Longrightarrow> pf_ready p = c # cs \<Longrightarrow>
    issueAuthorization c cx (my_mint y) = (r, m) \<Longrightarrow>
    mint_step L y (set_preflight i (p\<lparr>pf_ready := cs\<rparr>) (y\<lparr>my_mint := m\<rparr>))"
| consume: "consumeSelfMints hs cx (my_mint y) = (r, m) \<Longrightarrow> mint_step L y (y\<lparr>my_mint := m\<rparr>)"

definition mint_init :: mint_system where
  "mint_init = \<lparr>my_mint = \<lparr>ms_marks = [], ms_auths = [], ms_consumed = []\<rparr>, my_preflights = []\<rparr>"

abbreviation mint_reach :: "note_lib \<Rightarrow> mint_system \<Rightarrow> bool" where
  "mint_reach L y \<equiv> (mint_step L)\<^sup>*\<^sup>* mint_init y"

section \<open>Where a candidate can be\<close>

definition candidate_of :: "DerivedSelfMintProvenance \<Rightarrow> candidate" where
  "candidate_of p = \<lparr>cd_eph = pv_eph p, cd_ephPub = pv_ephPub p, cd_tag = pv_tag p, cd_index = pv_index p\<rparr>"

definition marked :: "mint_state \<Rightarrow> candidate multiset" where
  "marked m = mset (map candidate_of (ms_marks m))"

definition claimed :: "mint_state \<Rightarrow> candidate multiset" where
  "claimed m = mset (map candidate_of (filter pv_claimed (ms_marks m)))"

definition authorised :: "mint_state \<Rightarrow> candidate multiset" where
  "authorised m = mset (map au_candidate (filter (\<lambda>a. \<not> au_consumed a) (ms_auths m)))"

definition used :: "mint_state \<Rightarrow> candidate multiset" where
  "used m = mset (ms_consumed m)"

definition held :: "preflight \<Rightarrow> candidate multiset" where
  "held p = mset (pf_ready p) + mset (pf_pending p)"

definition all_held :: "mint_system \<Rightarrow> candidate multiset" where
  "all_held y = sum_list (map held (my_preflights y))"

text \<open>Every claimed candidate is in at most one place.\<close>

definition mint_inv :: "mint_system \<Rightarrow> bool" where
  "mint_inv y \<longleftrightarrow> all_held y + authorised (my_mint y) + used (my_mint y) \<subseteq># claimed (my_mint y)"

lemma claimed_marked: "claimed m \<subseteq># marked m"
  by (simp add: claimed_def marked_def multiset_filter_subset image_mset_subseteq_mono)

section \<open>What each operation does to the places\<close>

lemma checked_candidate_of:
  assumes "checked_candidate L o1 = Inr c" "same_fields o1 p m j"
  shows "c = candidate_of p"
proof -
  obtain eph tag x y where e: "co_eph o1 = DFr eph" "co_tag o1 = DFr tag" "co_ephPub o1 = DArr [DBig x, DBig y]"
    using assms(1) by (auto simp: checked_candidate_def split: dyn.splits list.splits)
  obtain i t where i: "num_of (co_index o1) = Some i" "new_Fr (fst (publicKey L eph)) = Inr t" "tag = t"
    "x = fst (publicKey L eph)" "y = snd (publicKey L eph)"
    "c = \<lparr>cd_eph = eph, cd_ephPub = publicKey L eph, cd_tag = t, cd_index = i\<rparr>"
    using assms(1) by (auto simp: checked_candidate_def e Let_def split: option.splits if_splits)
  have "eph = pv_eph p" "publicKey L eph = pv_ephPub p" "t = pv_tag p" "i = pv_index p"
    using assms(2) i(1,3-5) e by (auto simp: same_fields_def prod_eq_iff)
  then show ?thesis by (simp add: i(6) candidate_of_def)
qed

lemma claim_mark:
  assumes "i < length ms" "\<not> pv_claimed (ms ! i)"
  shows "mset (map candidate_of (filter pv_claimed (ms[i := (ms ! i)\<lparr>pv_claimed := True\<rparr>]))) =
    mset (map candidate_of (filter pv_claimed ms)) + {#candidate_of (ms ! i)#}"
proof -
  have "ms = take i ms @ ms ! i # drop (Suc i) ms" using assms(1) by (rule id_take_nth_drop)
  then have "filter pv_claimed ms = filter pv_claimed (take i ms) @ filter pv_claimed (drop (Suc i) ms)"
    using assms(2) by (metis filter.simps(2) filter_append)
  moreover have "candidate_of ((ms ! i)\<lparr>pv_claimed := True\<rparr>) = candidate_of (ms ! i)" by (simp add: candidate_of_def)
  ultimately show ?thesis by (simp add: upd_conv_take_nth_drop[OF assms(1)])
qed

lemma claimDerived_cases:
  assumes "claimDerivedSelfMintCandidate ref o1 own ms = (r, ms')"
  shows "(r \<noteq> CLAIMED \<and> ms' = ms) \<or> (r = CLAIMED \<and> ref < length ms \<and> \<not> pv_claimed (ms ! ref) \<and>
    (\<exists>m j. same_fields o1 (ms ! ref) m j) \<and> ms' = ms[ref := (ms ! ref)\<lparr>pv_claimed := True\<rparr>])"
  using assms by (auto simp: claimDerivedSelfMintCandidate_def Let_def split: if_splits sum.splits)

lemma claim_ok:
  assumes "claim_candidate L cx ref o1 m = (Inr c, m')"
  shows "claimed m' = claimed m + {#c#}" "authorised m' = authorised m" "used m' = used m" "marked m' = marked m"
proof -
  obtain r ms where r: "claimDerivedSelfMintCandidate ref o1 (sx_ownerCommitment cx) (ms_marks m) = (r, ms)"
    by (cases "claimDerivedSelfMintCandidate ref o1 (sx_ownerCommitment cx) (ms_marks m)")
  with assms have r': "claim_error r = Inr ()" "checked_candidate L o1 = Inr c" "m' = m\<lparr>ms_marks := ms\<rparr>"
    by (auto simp: claim_candidate_def)
  then have "r = CLAIMED" by (cases r) auto
  with claimDerived_cases[OF r] obtain memberId j where s: "ref < length (ms_marks m)" "\<not> pv_claimed (ms_marks m ! ref)"
    "same_fields o1 (ms_marks m ! ref) memberId j" "ms = (ms_marks m)[ref := (ms_marks m ! ref)\<lparr>pv_claimed := True\<rparr>]"
    by blast
  note c = checked_candidate_of[OF r'(2) s(3)]
  show "claimed m' = claimed m + {#c#}" using claim_mark[OF s(1,2)] by (simp add: claimed_def r'(3) s(4) c)
  show "authorised m' = authorised m" "used m' = used m" by (simp_all add: authorised_def used_def r'(3))
  have "candidate_of ((ms_marks m ! ref)\<lparr>pv_claimed := True\<rparr>) = candidate_of (ms_marks m ! ref)"
    by (simp add: candidate_of_def)
  then have "map candidate_of ms = map candidate_of (ms_marks m)"
    using s(1) by (simp add: s(4) map_update list_update_same_conv)
  then show "marked m' = marked m" by (simp add: marked_def r'(3))
qed

lemma claim_fails:
  assumes "claim_candidate L cx ref o1 m = (Inl e, m')"
  shows "claimed m \<subseteq># claimed m'" "authorised m' = authorised m" "used m' = used m"
proof -
  obtain r ms where r: "claimDerivedSelfMintCandidate ref o1 (sx_ownerCommitment cx) (ms_marks m) = (r, ms)"
    by (cases "claimDerivedSelfMintCandidate ref o1 (sx_ownerCommitment cx) (ms_marks m)")
  with assms have r': "m' = m\<lparr>ms_marks := ms\<rparr>" by (auto simp: claim_candidate_def)
  show "authorised m' = authorised m" "used m' = used m" by (simp_all add: authorised_def used_def r')
  from claimDerived_cases[OF r] claim_mark[of ref "ms_marks m"] show "claimed m \<subseteq># claimed m'"
    by (auto simp: claimed_def r')
qed

lemma mark_places:
  assumes "markDerivedSelfMintCandidate c mem j own (ms_marks m) = Inr marks"
  shows "claimed (m\<lparr>ms_marks := marks\<rparr>) = claimed m" "marked (m\<lparr>ms_marks := marks\<rparr>) = marked m + {#c#}"
  using assms by (auto simp: markDerivedSelfMintCandidate_def claimed_def marked_def provenance_of_def candidate_of_def)

lemma issue_places:
  assumes "issueAuthorization c cx m = (r, m')"
  shows "authorised m' \<subseteq># authorised m + {#c#}" "claimed m' = claimed m" "used m' = used m" "marked m' = marked m"
  using assms by (auto simp: issueAuthorization_def authorised_def claimed_def used_def marked_def split: sum.splits)

lemma find_states_Inr:
  "find_states auths cx hs = Inr sts \<Longrightarrow>
    map (\<lambda>(i, a). Handle i) sts = hs \<and>
    (\<forall>(i, a) \<in> set sts. i < length auths \<and> a = auths ! i \<and> \<not> au_consumed a \<and> sameContext (au_context a) cx = Inr True)"
proof (induction auths cx hs arbitrary: sts rule: find_states.induct)
  case (3 auths cx i hs)
  from "3.prems" obtain rest where i: "i < length auths" "\<not> au_consumed (auths ! i)"
      "sameContext (au_context (auths ! i)) cx = Inr True"
    and rest: "find_states auths cx hs = Inr rest" "sts = (i, auths ! i) # rest"
    by (auto split: if_splits)
  from "3.IH"[OF _ _ _ rest(1), of True] i have "map (\<lambda>(i, a). Handle i) rest = hs \<and>
    (\<forall>(i, a) \<in> set rest. i < length auths \<and> a = auths ! i \<and> \<not> au_consumed a \<and> sameContext (au_context a) cx = Inr True)"
    by fastforce
  with i rest(2) show ?case by simp
qed simp_all

lemma consume_states:
  assumes "distinct (map fst sts)"
    and "\<forall>(i, a) \<in> set sts. i < length auths \<and> a = auths ! i \<and> \<not> au_consumed a"
  shows "mset (map au_candidate (filter (\<lambda>a. \<not> au_consumed a) (fold (\<lambda>(i, a). consume_one i) sts auths))) +
      mset (map (\<lambda>(i, a). au_candidate a) sts) =
    mset (map au_candidate (filter (\<lambda>a. \<not> au_consumed a) auths))"
  using assms
proof (induction sts arbitrary: auths)
  case (Cons s sts)
  obtain i a where s: "s = (i, a)" by (cases s)
  have i: "i < length auths" "a = auths ! i" "\<not> au_consumed (auths ! i)" using Cons.prems s by auto
  let ?n = "consume_one i auths"
  have split: "auths = take i auths @ auths ! i # drop (Suc i) auths" using i(1) by (rule id_take_nth_drop)
  then have "filter (\<lambda>a. \<not> au_consumed a) auths =
      filter (\<lambda>a. \<not> au_consumed a) (take i auths) @ auths ! i # filter (\<lambda>a. \<not> au_consumed a) (drop (Suc i) auths)"
    using i(3) by (metis (mono_tags, lifting) filter.simps(2) filter_append)
  moreover have "filter (\<lambda>a. \<not> au_consumed a) ?n =
      filter (\<lambda>a. \<not> au_consumed a) (take i auths) @ filter (\<lambda>a. \<not> au_consumed a) (drop (Suc i) auths)"
    by (simp add: consume_one_def upd_conv_take_nth_drop[OF i(1)])
  ultimately have one: "mset (map au_candidate (filter (\<lambda>a. \<not> au_consumed a) ?n)) + {#au_candidate (auths ! i)#} =
      mset (map au_candidate (filter (\<lambda>a. \<not> au_consumed a) auths))" by simp
  have "k < length ?n \<and> b = ?n ! k \<and> \<not> au_consumed b" if "(k, b) \<in> set sts" for k b
  proof -
    have "k \<noteq> i" using Cons.prems(1) s that by force
    moreover have "k < length auths \<and> b = auths ! k \<and> \<not> au_consumed b" using Cons.prems(2) that by auto
    ultimately show ?thesis by (auto simp: consume_one_def)
  qed
  then have "\<forall>(k, b) \<in> set sts. k < length ?n \<and> b = ?n ! k \<and> \<not> au_consumed b" by blast
  with Cons.IH[of ?n] Cons.prems(1) s one i(2) show ?case by (simp add: add.assoc)
qed simp

lemma consume_places:
  assumes "consumeSelfMints hs cx m = (r, m')"
  shows "authorised m' + used m' = authorised m + used m" "claimed m' = claimed m" "marked m' = marked m"
proof -
  have "authorised m' + used m' = authorised m + used m \<and> claimed m' = claimed m \<and> marked m' = marked m"
  proof (cases "m' = m")
    case False
    then obtain sts where f: "distinct hs" "find_states (ms_auths m) cx hs = Inr sts"
      "m' = m\<lparr>ms_auths := fold (\<lambda>(i, a). consume_one i) sts (ms_auths m),
              ms_consumed := ms_consumed m @ map (\<lambda>(i, a). au_candidate a) sts\<rparr>"
      using assms by (auto simp: consumeSelfMints_def Let_def split: if_splits sum.splits)
    from find_states_Inr[OF f(2)] have h: "map (\<lambda>(i, a). Handle i) sts = hs"
      and ok: "\<forall>(i, a) \<in> set sts. i < length (ms_auths m) \<and> a = ms_auths m ! i \<and> \<not> au_consumed a" by auto
    have "hs = map Handle (map fst sts)" by (simp add: case_prod_beta flip: h)
    with f(1) have "distinct (map fst sts)" by (metis distinct_map)
    from consume_states[OF this ok] show ?thesis
      by (simp add: f(3) authorised_def used_def claimed_def marked_def ac_simps)
  qed simp
  then show "authorised m' + used m' = authorised m + used m" "claimed m' = claimed m" "marked m' = marked m" by auto
qed

section \<open>The invariant\<close>

lemma all_held_set:
  assumes "i < length (my_preflights y)"
  shows "all_held (set_preflight i p y) + held (my_preflights y ! i) = all_held y + held p"
proof -
  let ?ps = "my_preflights y"
  have "?ps = take i ?ps @ ?ps ! i # drop (Suc i) ?ps" using assms by (rule id_take_nth_drop)
  then have "all_held y = sum_list (map held (take i ?ps)) + (held (?ps ! i) + sum_list (map held (drop (Suc i) ?ps)))"
    unfolding all_held_def by (metis list.simps(9) map_append sum_list.Cons sum_list.append)
  moreover have "all_held (set_preflight i p y) =
      sum_list (map held (take i ?ps)) + (held p + sum_list (map held (drop (Suc i) ?ps)))"
    by (simp add: all_held_def set_preflight_def upd_conv_take_nth_drop[OF assms])
  ultimately show ?thesis by (simp add: ac_simps)
qed

lemma set_preflight_mint [simp]: "my_mint (set_preflight i p y) = my_mint y"
  by (simp add: set_preflight_def)

text \<open>A preflight's step: what it newly holds came from the claims, what it gave up went to a handle or is lost.\<close>

lemma inv_set_preflight:
  assumes "mint_inv y" "i < length (my_preflights y)"
    and "held p + (authorised m + used m) + claimed (my_mint y) \<subseteq>#
      held (my_preflights y ! i) + (authorised (my_mint y) + used (my_mint y)) + claimed m"
  shows "mint_inv (set_preflight i p (y\<lparr>my_mint := m\<rparr>))"
proof -
  let ?y = "set_preflight i p (y\<lparr>my_mint := m\<rparr>)"
  have h: "all_held ?y + held (my_preflights y ! i) = all_held y + held p"
    using all_held_set[of i "y\<lparr>my_mint := m\<rparr>" p] assms(2) by (simp add: all_held_def)
  have inv: "all_held y + (authorised (my_mint y) + used (my_mint y)) \<subseteq># claimed (my_mint y)"
    using assms(1) by (simp add: mint_inv_def add.assoc)
  have "all_held ?y + (authorised m + used m) \<subseteq># claimed m"
  proof (rule mset_subset_eqI)
    fix x
    have "count (all_held ?y) x + count (held (my_preflights y ! i)) x = count (all_held y) x + count (held p) x"
      using arg_cong[OF h, of "\<lambda>M. count M x"] by simp
    with mset_subset_eq_count[OF inv, of x] mset_subset_eq_count[OF assms(3), of x]
    show "count (all_held ?y + (authorised m + used m)) x \<le> count (claimed m) x" by simp
  qed
  then show ?thesis by (simp add: mint_inv_def add.assoc)
qed

lemma inv_mint:
  assumes "mint_inv y" "authorised m + used m + claimed (my_mint y) \<subseteq># authorised (my_mint y) + used (my_mint y) + claimed m"
  shows "mint_inv (y\<lparr>my_mint := m\<rparr>)"
  unfolding mint_inv_def
proof (rule mset_subset_eqI)
  fix x
  have "all_held (y\<lparr>my_mint := m\<rparr>) = all_held y" by (simp add: all_held_def)
  moreover have "all_held y + authorised (my_mint y) + used (my_mint y) \<subseteq># claimed (my_mint y)"
    using assms(1) by (simp add: mint_inv_def)
  ultimately show "count (all_held (y\<lparr>my_mint := m\<rparr>) + authorised (my_mint (y\<lparr>my_mint := m\<rparr>)) +
      used (my_mint (y\<lparr>my_mint := m\<rparr>))) x \<le> count (claimed (my_mint (y\<lparr>my_mint := m\<rparr>))) x"
    using mset_subset_eq_count[OF assms(2), of x] mset_subset_eq_count[of _ _ x] by fastforce
qed

lemma step_mint_inv: "mint_step L y y' \<Longrightarrow> mint_inv y \<Longrightarrow> mint_inv y'"
proof (induction rule: mint_step.induct)
  case (mark c m j own y marks)
  then show ?case
    by (intro inv_mint) (simp_all add: mark_places authorised_def used_def)
next
  case (preflight y)
  then show ?case by (simp add: mint_inv_def all_held_def held_def)
next
  case (claim i y p cx ref o1 c m)
  then show ?case by (intro inv_set_preflight) (simp_all add: claim_ok[OF claim.hyps(3)] held_def)
next
  case (claim_fails cx ref o1 y e m)
  then show ?case
    by (intro inv_mint) (simp_all add: Mint_Protocol.claim_fails[OF claim_fails.hyps])
next
  case (drop i y p c cs)
  then show ?case
    using inv_set_preflight[of y i "p\<lparr>pf_pending := cs\<rparr>" "my_mint y"] by (simp add: held_def)
next
  case (classify i y p c cs)
  then show ?case
    using inv_set_preflight[of y i "p\<lparr>pf_ready := pf_ready p @ [c], pf_pending := cs\<rparr>" "my_mint y"] by (simp add: held_def)
next
  case (issue i y p c cs cx r m)
  note ip = issue_places[OF issue.hyps(4)]
  have "authorised m + (mset cs + mset (pf_pending p)) \<subseteq># authorised (my_mint y) + {#c#} + (mset cs + mset (pf_pending p))"
    using ip(1) by (rule subset_mset.add_right_mono)
  then show ?case
    using issue by (intro inv_set_preflight) (simp_all add: ip(2,3) held_def ac_simps)
next
  case (consume hs cx y r m)
  then show ?case by (intro inv_mint) (simp_all add: consume_places[OF consume.hyps])
qed

lemma reach_mint_inv: "mint_reach L y \<Longrightarrow> mint_inv y"
proof (induction rule: rtranclp_induct)
  case base
  show ?case by (simp add: mint_inv_def mint_init_def all_held_def authorised_def used_def)
next
  case (step y z)
  from step_mint_inv[OF step.hyps(2) step.IH] show ?case .
qed

lemma used_claimed: "mint_reach L y \<Longrightarrow> used (my_mint y) \<subseteq># claimed (my_mint y)"
  using reach_mint_inv[of L y] unfolding mint_inv_def
  by (metis mset_subset_eq_add_right subset_mset.order_trans)

section \<open>The functions of the preflight are runs of these steps\<close>

text \<open>A system in which one preflight has these candidates, among the others of \<open>y\<close>.\<close>

definition sys_at ::
  "preflight list \<times> preflight list \<Rightarrow> candidate list \<Rightarrow> candidate list \<Rightarrow> mint_state \<Rightarrow> mint_system"
where
  "sys_at y ready pending m = \<lparr>my_mint = m,
     my_preflights = fst y @ \<lparr>pf_ready = ready, pf_pending = pending\<rparr> # snd y\<rparr>"

abbreviation runs :: "note_lib \<Rightarrow> mint_system \<Rightarrow> mint_system \<Rightarrow> bool" where
  "runs L \<equiv> (mint_step L)\<^sup>*\<^sup>*"

lemma sys_at_sel:
  "my_mint (sys_at y r p m) = m" "length (fst y) < length (my_preflights (sys_at y r p m))"
  "my_preflights (sys_at y r p m) ! length (fst y) = \<lparr>pf_ready = r, pf_pending = p\<rparr>"
  "set_preflight (length (fst y)) \<lparr>pf_ready = r', pf_pending = p'\<rparr> ((sys_at y r p m)\<lparr>my_mint := m'\<rparr>) = sys_at y r' p' m'"
  "set_preflight (length (fst y)) \<lparr>pf_ready = r', pf_pending = p'\<rparr> (sys_at y r p m) = sys_at y r' p' m"
  "(sys_at y r p m)\<lparr>my_mint := m'\<rparr> = sys_at y r p m'"
  by (simp_all add: sys_at_def set_preflight_def)

lemma runs_claim: "claim_candidate L cx ref o1 m = (Inr c, m') \<Longrightarrow> runs L (sys_at y r p m) (sys_at y r (p @ [c]) m')"
  using mint_step.claim[of "length (fst y)" "sys_at y r p m" _ L cx ref o1 c m', OF sys_at_sel(2) refl] by (simp add: sys_at_sel)

lemma runs_claim_fails: "claim_candidate L cx ref o1 m = (Inl e, m') \<Longrightarrow> runs L (sys_at y r p m) (sys_at y r p m')"
  using mint_step.claim_fails[of L cx ref o1 "sys_at y r p m" e m'] by (simp add: sys_at_sel)

lemma runs_ready: "runs L (sys_at y r (c # p) m) (sys_at y (r @ [c]) p m)"
  using mint_step.classify[of "length (fst y)" "sys_at y r (c # p) m" _ c p L, OF sys_at_sel(2) refl] by (simp add: sys_at_sel)

lemma runs_drop: "runs L (sys_at y r (c # p) m) (sys_at y r p m)"
  using mint_step.drop[of "length (fst y)" "sys_at y r (c # p) m" _ c p L, OF sys_at_sel(2) refl] by (simp add: sys_at_sel)

lemma runs_drop_all: "runs L (sys_at y r p m) (sys_at y r [] m)"
  by (induction p) (auto intro: rtranclp_trans runs_drop)

lemma runs_issue:
  "issueAuthorization c cx m = (res, m') \<Longrightarrow> runs L (sys_at y (c # r) p m) (sys_at y r p m')"
  using mint_step.issue[of "length (fst y)" "sys_at y (c # r) p m" _ c r cx res m' L, OF sys_at_sel(2) refl] by (simp add: sys_at_sel)

lemma runs_allocate:
  assumes "allocate L D cx n acc s = (res, s')"
  shows "tk_ready s' = tk_ready s \<and>
    (\<exists>p. (\<forall>cs. res = Inr cs \<longrightarrow> p = cs) \<and> runs L (sys_at y r acc (tk_mint s)) (sys_at y r p (tk_mint s')))"
  using assms
proof (induction n arbitrary: acc s)
  case 0
  then show ?case by (auto simp: sret_def)
next
  case (Suc n)
  obtain v w where nx: "pd_next D (tk_world s) = (v, w)" by fastforce
  show ?case
  proof (cases v)
    case (Inl e)
    with Suc.prems nx show ?thesis by (auto simp: sbind_def allocate_one_def)
  next
    case (Inr ro)
    obtain ref o1 where ro: "ro = (ref, o1)" by fastforce
    obtain q m where q: "claim_candidate L cx ref o1 (tk_mint s) = (q, m)" by fastforce
    show ?thesis
    proof (cases q)
      case (Inl e)
      with Suc.prems nx Inr ro q have "res = Inl e" "s' = s\<lparr>tk_world := w, tk_mint := m\<rparr>"
        by (auto simp: sbind_def allocate_one_def)
      with runs_claim_fails[OF q[unfolded Inl], of y r acc] show ?thesis by auto
    next
      case c: (Inr c)
      have "allocate L D cx n (acc @ [c]) (s\<lparr>tk_world := w, tk_mint := m\<rparr>) = (res, s')"
        using Suc.prems nx Inr ro q c by (simp add: sbind_def allocate_one_def)
      from Suc.IH[OF this] runs_claim[OF q[unfolded c], of y r acc] show ?thesis
        by (auto intro: rtranclp_trans)
    qed
  qed
qed

lemma runs_keep_free:
  assumes "keep_free L cx returned cs s = (res, s')"
  shows "tk_mint s' = tk_mint s \<and>
    runs L (sys_at y (tk_ready s) cs m) (sys_at y (tk_ready s') [] m)"
  using assms
proof (induction cs arbitrary: s)
  case Nil
  then show ?case by (simp add: sret_def)
next
  case (Cons c cs)
  show ?case
  proof (cases "\<exists>rec b. map_of returned (cd_tag c) = Some rec \<and>
      opensExistingSelfRecord L (cd_eph c) (Some rec) (sx_complianceHistory cx) (sx_ownerCommitment cx) = Inr b")
    case True
    then obtain rec b where b: "map_of returned (cd_tag c) = Some rec"
      "opensExistingSelfRecord L (cd_eph c) (Some rec) (sx_complianceHistory cx) (sx_ownerCommitment cx) = Inr b" by blast
    show ?thesis
    proof (cases b)
      case True
      with Cons.prems b have "keep_free L cx returned cs s = (res, s')"
        by (simp add: sbind_def slift_def sret_def)
      from Cons.IH[OF this] show ?thesis by (blast intro: rtranclp_trans[OF runs_drop])
    next
      case False
      with Cons.prems b have "keep_free L cx returned cs (s\<lparr>tk_ready := tk_ready s @ [c]\<rparr>) = (res, s')"
        by (simp add: sbind_def slift_def smodify_def)
      from Cons.IH[OF this] show ?thesis by (auto intro: rtranclp_trans[OF runs_ready])
    qed
  next
    case False
    with Cons.prems have "s' = s" by (auto simp: sbind_def slift_def sthrow_def split: option.splits sum.splits)
    then show ?thesis by (simp add: runs_drop_all)
  qed
qed

lemma runs_classify:
  assumes "classify L D cx cs s = (res, s')"
  shows "tk_mint s' = tk_mint s \<and> runs L (sys_at y (tk_ready s) cs m) (sys_at y (tk_ready s') [] m)"
proof -
  obtain raw w where raw: "pd_probeFirst D (map cd_tag cs) (tk_world s) = (raw, w)" by fastforce
  let ?s = "s\<lparr>tk_world := w\<rparr>"
  consider "s' = ?s" | returned where "keep_free L cx returned cs ?s = (res, s')"
    using assms raw
    by (auto simp: classify_def Let_def sthrow_def sbind_def slift_def split: response.splits if_splits sum.splits)
  then show ?thesis
  proof cases
    case 1
    then show ?thesis by (simp add: runs_drop_all)
  next
    case 2
    from runs_keep_free[OF 2, of y m] show ?thesis by simp
  qed
qed

lemma runs_round:
  assumes "allocate L D cx n [] s = (Inr batch, s1)" "classify L D cx batch s1 = (res, s2)"
  shows "runs L (sys_at y (tk_ready s) [] (tk_mint s)) (sys_at y (tk_ready s2) [] (tk_mint s2))"
  using runs_allocate[OF assms(1), where y = y and r = "tk_ready s"] runs_classify[OF assms(2), where y = y and m = "tk_mint s1"]
  by (auto intro: rtranclp_trans)

lemma runs_allocate_fails:
  assumes "allocate L D cx n [] s = (Inl e, s1)"
  shows "runs L (sys_at y (tk_ready s) [] (tk_mint s)) (sys_at y (tk_ready s1) [] (tk_mint s1))"
proof -
  obtain p where "tk_ready s1 = tk_ready s"
    "runs L (sys_at y (tk_ready s) [] (tk_mint s)) (sys_at y (tk_ready s) p (tk_mint s1))"
    using runs_allocate[OF assms, where y = y and r = "tk_ready s"] by blast
  with rtranclp_trans[OF this(2) runs_drop_all] show ?thesis by simp
qed

lemma runs_take_loop:
  "take_loop L D cx n tested s = (res, s') \<Longrightarrow>
    runs L (sys_at y (tk_ready s) [] (tk_mint s)) (sys_at y (tk_ready s') [] (tk_mint s'))"
proof (induction "MAX_PREFLIGHT_CANDIDATES - tested" arbitrary: tested s rule: less_induct)
  case less
  show ?case
  proof (cases "length (tk_ready s) \<ge> n \<or> tested \<ge> MAX_PREFLIGHT_CANDIDATES")
    case True
    with less.prems show ?thesis by (subst (asm) take_loop.simps) (auto split: if_splits)
  next
    case False
    let ?n = "min PREFLIGHT_COLLISION_BATCH_SIZE (MAX_PREFLIGHT_CANDIDATES - tested)"
    obtain v s1 where v: "allocate L D cx ?n [] s = (v, s1)" by fastforce
    show ?thesis
    proof (cases v)
      case (Inl e)
      with less.prems False v have "s' = s1" by (subst (asm) take_loop.simps) (simp add: Let_def)
      with runs_allocate_fails[OF v[unfolded Inl], of y] show ?thesis by simp
    next
      case (Inr batch)
      obtain u s2 where u: "classify L D cx batch s1 = (u, s2)" by fastforce
      note round = runs_round[OF v[unfolded Inr] u, of y]
      show ?thesis
      proof (cases u)
        case (Inl e)
        with less.prems False v Inr u have "s' = s2" by (subst (asm) take_loop.simps) (simp add: Let_def)
        with round show ?thesis by simp
      next
        case u': (Inr x)
        have "take_loop L D cx n (tested + ?n) s2 = (res, s')"
          using less.prems False v Inr u u' by (subst (asm) take_loop.simps) (simp add: Let_def)
        moreover have "MAX_PREFLIGHT_CANDIDATES - (tested + ?n) < MAX_PREFLIGHT_CANDIDATES - tested"
          using False by (auto simp: PREFLIGHT_COLLISION_BATCH_SIZE_def)
        ultimately have "runs L (sys_at y (tk_ready s2) [] (tk_mint s2)) (sys_at y (tk_ready s') [] (tk_mint s'))"
          using less.hyps by blast
        with round show ?thesis by (rule rtranclp_trans)
      qed
    qed
  qed
qed

lemma runs_issue_all:
  "issue_all cx cs s = (res, s') \<Longrightarrow> tk_ready s' = tk_ready s \<and>
    runs L (sys_at y (cs @ r) [] (tk_mint s)) (sys_at y r [] (tk_mint s'))"
proof (induction cs arbitrary: s res)
  case Nil
  then show ?case by (simp add: sret_def)
next
  case (Cons c cs)
  obtain v m where v: "issueAuthorization c cx (tk_mint s) = (v, m)" by fastforce
  note one = runs_issue[OF v, where y = y and r = "cs @ r" and p = "[]"]
  show ?case
  proof (cases v)
    case (Inl e)
    then have s': "s' = s\<lparr>tk_mint := m\<rparr>" and m: "m = tk_mint s"
      using Cons.prems v by (auto simp: sbind_def issueAuthorization_def split: sum.splits)
    have "runs L (sys_at y (xs @ r) [] m) (sys_at y r [] m)" for xs
    proof (induction xs)
      case (Cons x xs)
      have "issueAuthorization x cx m = (Inl e, m)" using v Inl m by (auto simp: issueAuthorization_def split: sum.splits)
      from rtranclp_trans[OF runs_issue[OF this, where y = y and r = "xs @ r" and p = "[]"] Cons.IH] show ?case by simp
    qed simp
    with one s' m show ?thesis by (auto intro: rtranclp_trans)
  next
    case (Inr h)
    then obtain res' where "issue_all cx cs (s\<lparr>tk_mint := m\<rparr>) = (res', s')"
      using Cons.prems v by (auto simp: sbind_def sret_def split: sum.splits prod.splits)
    from Cons.IH[OF this] one show ?thesis by (auto intro: rtranclp_trans)
  qed
qed

text \<open>A whole call of \<^verbatim>\<open>take\<close>.\<close>

lemma runs_take:
  assumes "take_mints L D cx n s = (res, s')"
  shows "runs L (sys_at y (tk_ready s) [] (tk_mint s)) (sys_at y (tk_ready s') [] (tk_mint s'))"
proof (cases "n = 1 \<or> n = 2")
  case False
  with assms show ?thesis by (simp add: take_mints_def sthrow_def)
next
  case True
  obtain v s1 where v: "first_batch L D cx n s = (v, s1)" by fastforce
  have first: "runs L (sys_at y (tk_ready s) [] (tk_mint s)) (sys_at y (tk_ready s1) [] (tk_mint s1))"
  proof (cases "length (tk_ready s) < n")
    case False
    with v show ?thesis by (simp add: first_batch_def)
  next
    case True
    obtain u t where u: "allocate L D cx (n - length (tk_ready s)) [] s = (u, t)" by fastforce
    show ?thesis
    proof (cases u)
      case (Inl e)
      with v True u have "s1 = t" by (simp add: first_batch_def sbind_def)
      with runs_allocate_fails[OF u[unfolded Inl], of y] show ?thesis by simp
    next
      case (Inr batch)
      obtain c t' where c: "classify L D cx batch t = (c, t')" by fastforce
      with v True u Inr have "s1 = t'" by (auto simp: first_batch_def sbind_def sret_def split: sum.splits)
      with runs_round[OF u[unfolded Inr] c, of y] show ?thesis by simp
    qed
  qed
  show ?thesis
  proof (cases v)
    case (Inl e)
    with assms True v have "s' = s1" by (auto simp: take_mints_def sbind_def)
    with first show ?thesis by simp
  next
    case (Inr tested)
    obtain u s2 where u: "take_loop L D cx n tested s1 = (u, s2)" by fastforce
    note loop = rtranclp_trans[OF first runs_take_loop[OF u]]
    show ?thesis
    proof (cases u)
      case (Inl e)
      with assms True v Inr u have "s' = s2" by (auto simp: take_mints_def sbind_def)
      with loop show ?thesis by simp
    next
      case u': (Inr x)
      have "issue_all cx (take n (tk_ready s2)) (s2\<lparr>tk_ready := drop n (tk_ready s2)\<rparr>) = (res, s')"
        using assms True v Inr u u' by (auto simp: take_mints_def sbind_def sget_def smodify_def)
      from runs_issue_all[OF this, where y = y and r = "drop n (tk_ready s2)"] loop show ?thesis by (auto intro: rtranclp_trans)
    qed
  qed
qed

section \<open>What a successful call hands out\<close>

text \<open>Allocation and classification issue and consume nothing.\<close>

definition same_auths :: "'w take_state \<Rightarrow> 'w take_state \<Rightarrow> bool" where
  "same_auths s s' \<longleftrightarrow> ms_auths (tk_mint s') = ms_auths (tk_mint s) \<and> ms_consumed (tk_mint s') = ms_consumed (tk_mint s)"

lemma same_auths_order: "reflp same_auths" "transp same_auths"
  by (auto simp: same_auths_def reflp_def transp_def)

lemma allocate_auths: "keeps same_auths (allocate L D cx n acc)"
proof (induction n arbitrary: acc)
  case (Suc n)
  have "keeps same_auths (allocate_one L D cx)"
    by (rule keepsI) (auto simp: allocate_one_def claim_candidate_def same_auths_def split: prod.splits sum.splits)
  then show ?case unfolding allocate.simps by (intro keeps_sbind same_auths_order Suc.IH)
qed (simp add: keeps_sret same_auths_order)

lemma keep_free_auths: "keeps same_auths (keep_free L cx returned cs)"
proof (induction cs)
  case (Cons c cs)
  have "keeps same_auths (smodify (\<lambda>s :: 'a take_state. s\<lparr>tk_ready := tk_ready s @ [c]\<rparr>))"
    by (rule keeps_smodify) (simp add: same_auths_def)
  with Cons show ?case
    by (cases "map_of returned (cd_tag c)")
      (auto intro!: keeps_sbind keeps_slift keeps_if keeps_sret keeps_sthrow same_auths_order)
qed (simp add: keeps_sret same_auths_order)

lemma classify_auths: "keeps same_auths (classify L D cx cs)"
proof (rule keepsI)
  fix s :: "'a take_state"
  obtain raw w where r: "pd_probeFirst D (map cd_tag cs) (tk_world s) = (raw, w)" by fastforce
  have 1: "same_auths s (s\<lparr>tk_world := w\<rparr>)" by (simp add: same_auths_def)
  have "keeps same_auths (sbind (slift (read_rows tags [] rows)) (\<lambda>returned. keep_free L cx returned cs))" for tags rows
    by (intro keeps_sbind keeps_slift keep_free_auths same_auths_order)
  from keepsD[OF this, of "s\<lparr>tk_world := w\<rparr>"] transpD[OF same_auths_order(2) 1] 1 r
  show "same_auths s (snd (classify L D cx cs s))"
    by (auto simp: classify_def Let_def sthrow_def split: response.splits)
qed

lemma take_loop_Inr:
  "take_loop L D cx needed tested s = (Inr (), s') \<Longrightarrow> same_auths s s' \<and> needed \<le> length (tk_ready s')"
proof (induction L D cx needed tested s rule: take_loop.induct)
  case (1 L D cx needed tested s)
  show ?case
  proof (cases "length (tk_ready s) \<ge> needed")
    case True
    with "1.prems" show ?thesis by (simp add: take_loop.simps[of L D cx needed tested s] same_auths_def)
  next
    case F: False
    show ?thesis
    proof (cases "tested \<ge> MAX_PREFLIGHT_CANDIDATES")
      case True
      with F "1.prems" show ?thesis by (simp add: take_loop.simps[of L D cx needed tested s])
    next
      case False
      let ?n = "min PREFLIGHT_COLLISION_BATCH_SIZE (MAX_PREFLIGHT_CANDIDATES - tested)"
      obtain r s1 where a: "allocate L D cx ?n [] s = (r, s1)" by fastforce
      with F False "1.prems" obtain batch where b: "r = Inr batch"
        by (cases r) (auto simp: take_loop.simps[of L D cx needed tested s] Let_def)
      obtain u s2 where c: "classify L D cx batch s1 = (u, s2)" by fastforce
      with F False "1.prems" a b obtain x where x: "u = Inr x"
        by (cases u) (auto simp: take_loop.simps[of L D cx needed tested s] Let_def)
      have t: "take_loop L D cx needed (tested + ?n) s2 = (Inr (), s')"
        using F False "1.prems" a b c x by (simp add: take_loop.simps[of L D cx needed tested s] Let_def)
      have "same_auths s s2"
        using transpD[OF same_auths_order(2)] keepsD[OF allocate_auths, of s L D cx ?n "[]"]
          keepsD[OF classify_auths, of s1 L D cx batch] a c by fastforce
      moreover have "same_auths s2 s' \<and> needed \<le> length (tk_ready s')"
        using "1.IH"[OF F False refl a[symmetric] b c[symmetric] x t] .
      ultimately show ?thesis using transpD[OF same_auths_order(2)] by blast
    qed
  qed
qed

lemma issue_all_Inr:
  "issue_all cx cs s = (Inr hs, s') \<Longrightarrow>
    hs = [length (ms_auths (tk_mint s))..<length (ms_auths (tk_mint s)) + length cs] \<and> tk_ready s' = tk_ready s \<and>
    (\<forall>i < length cs. \<exists>x. certify cx = Inr x \<and> ms_auths (tk_mint s') ! (length (ms_auths (tk_mint s)) + i) =
       \<lparr>au_candidate = cs ! i, au_context = x, au_consumed = False\<rparr>) \<and>
    length (ms_auths (tk_mint s')) = length (ms_auths (tk_mint s)) + length cs \<and>
    take (length (ms_auths (tk_mint s))) (ms_auths (tk_mint s')) = ms_auths (tk_mint s) \<and>
    ms_consumed (tk_mint s') = ms_consumed (tk_mint s)"
proof (induction cs arbitrary: s hs)
  case Nil
  then show ?case by (simp add: sret_def)
next
  case (Cons c cs)
  obtain x where x: "certify cx = Inr x"
    using Cons.prems by (cases "certify cx") (auto simp: sbind_def issueAuthorization_def)
  let ?a = "\<lparr>au_candidate = c, au_context = x, au_consumed = False\<rparr>"
  let ?n = "length (ms_auths (tk_mint s))"
  let ?s = "s\<lparr>tk_mint := (tk_mint s)\<lparr>ms_auths := ms_auths (tk_mint s) @ [?a]\<rparr>\<rparr>"
  obtain gs where g: "issue_all cx cs ?s = (Inr gs, s')" "hs = ?n # gs"
    using Cons.prems x by (auto simp: sbind_def issueAuthorization_def sret_def split: prod.splits sum.splits)
  note IH = Cons.IH[OF g(1)]
  have t: "take (Suc ?n) (ms_auths (tk_mint s')) = ms_auths (tk_mint s) @ [?a]" using IH by simp
  then have t': "take ?n (ms_auths (tk_mint s')) = ms_auths (tk_mint s)" "ms_auths (tk_mint s') ! ?n = ?a"
    using take_take[of ?n "Suc ?n" "ms_auths (tk_mint s')"] nth_take[of ?n "Suc ?n" "ms_auths (tk_mint s')"] by simp_all
  have gs: "gs = [Suc ?n..<Suc ?n + length cs]" using IH by (simp del: upt_Suc)
  have "hs = [?n..<?n + length (c # cs)]" using g(2) by (simp add: gs upt_conv_Cons[of ?n] del: upt_Suc)
  moreover have "\<exists>x. certify cx = Inr x \<and> ms_auths (tk_mint s') ! (?n + i) =
      \<lparr>au_candidate = (c # cs) ! i, au_context = x, au_consumed = False\<rparr>" if "i < length (c # cs)" for i
    using that IH x t'(2) by (cases i) auto
  ultimately show ?case using IH t'(1) by auto
qed

section \<open>Contexts\<close>

text \<open>A certified context agrees with the expected one exactly when the expected one would be certified as it.\<close>

lemma sameContext_certify: "sameContext c e = Inr True \<longleftrightarrow> certify e = Inr c"
  by (cases c) (auto simp: sameContext_def certify_def split: if_splits)

text \<open>Contexts that agree in everything but the case of the pool's address.\<close>

definition same_domain :: "SelfMintContext \<Rightarrow> SelfMintContext \<Rightarrow> bool" where
  "same_domain e e' \<longleftrightarrow> sx_ownerCommitment e = sx_ownerCommitment e' \<and> sx_compliancePk e = sx_compliancePk e' \<and>
    sx_complianceVersion e = sx_complianceVersion e' \<and> h_ring (sx_complianceHistory e) = h_ring (sx_complianceHistory e') \<and>
    sx_chainId e = sx_chainId e' \<and> to_lower (sx_poolAddress e) = to_lower (sx_poolAddress e') \<and>
    sx_deploymentAnchor e = sx_deploymentAnchor e'"

lemma certify_same_domain: "certify e = Inr c \<Longrightarrow> certify e' = Inr c \<Longrightarrow> same_domain e e'"
  by (auto simp: certify_def same_domain_def intro: historyIdentity_inject)

lemma find_states_consumed:
  "find_states auths cx hs = Inr sts \<Longrightarrow> Handle i \<in> set hs \<Longrightarrow> i < length auths \<and> \<not> au_consumed (auths ! i)"
  using find_states_Inr[of auths cx hs sts] by fastforce

lemma fold_consume_nth:
  "i < length auths \<Longrightarrow> distinct (map fst sts) \<Longrightarrow>
    fold (\<lambda>(i, a). consume_one i) sts auths ! i =
      (if i \<in> fst ` set sts then (auths ! i)\<lparr>au_consumed := True\<rparr> else auths ! i)"
proof (induction sts arbitrary: auths)
  case (Cons s sts)
  obtain j a where s: "s = (j, a)" by fastforce
  have "fold (\<lambda>(i, a). consume_one i) sts (consume_one j auths) ! i =
      (if i \<in> fst ` set sts then (consume_one j auths ! i)\<lparr>au_consumed := True\<rparr> else consume_one j auths ! i)"
    by (rule Cons.IH) (use Cons.prems in \<open>simp_all add: consume_one_def\<close>)
  moreover have "consume_one j auths ! i = (if i = j then (auths ! i)\<lparr>au_consumed := True\<rparr> else auths ! i)"
    using Cons.prems(1) by (simp add: consume_one_def)
  ultimately show ?case using Cons.prems(2) s by auto
qed simp

lemma fold_consume_length [simp]: "length (fold (\<lambda>(i, a). consume_one i) sts auths) = length auths"
  by (induction sts arbitrary: auths) (auto simp: consume_one_def)

lemma first_batch_auths: "keeps same_auths (first_batch L D cx needed)"
proof (rule keepsI)
  fix s :: "'a take_state"
  have "keeps same_auths (sbind (allocate L D cx m []) (\<lambda>initial. sbind (classify L D cx initial) (\<lambda>_. sret (length initial))))" for m
    by (intro keeps_sbind keeps_sret allocate_auths classify_auths same_auths_order)
  from keepsD[OF this] show "same_auths s (snd (first_batch L D cx needed s))"
    by (simp add: first_batch_def same_auths_def)
qed

text \<open>The handles of a successful call are new ones, certified for this context and not consumed.\<close>

lemma take_mints_Inr:
  assumes "take_mints L D cx n s = (Inr hs, s')"
  shows "(n = 1 \<or> n = 2) \<and> hs = [length (ms_auths (tk_mint s))..<length (ms_auths (tk_mint s)) + n] \<and>
    length (ms_auths (tk_mint s')) = length (ms_auths (tk_mint s)) + n \<and>
    (\<forall>h \<in> set hs. certify cx = Inr (au_context (ms_auths (tk_mint s') ! h)) \<and> \<not> au_consumed (ms_auths (tk_mint s') ! h))"
proof -
  have n: "n = 1 \<or> n = 2" using assms by (auto simp: take_mints_def sthrow_def split: if_splits)
  obtain m s1 s2 where f: "first_batch L D cx n s = (Inr m, s1)" "take_loop L D cx n m s1 = (Inr (), s2)"
    "issue_all cx (take n (tk_ready s2)) (s2\<lparr>tk_ready := drop n (tk_ready s2)\<rparr>) = (Inr hs, s')"
    using assms n by (auto simp: take_mints_def sbind_Inr_iff sget_def smodify_def)
  note l = take_loop_Inr[OF f(2)]
  have a: "ms_auths (tk_mint s2) = ms_auths (tk_mint s)"
    using keepsD[OF first_batch_auths, of s L D cx n] f(1) l by (simp add: same_auths_def)
  have len: "length (take n (tk_ready s2)) = n" using l by simp
  note i = issue_all_Inr[OF f(3), simplified len]
  let ?N = "length (ms_auths (tk_mint s))"
  have "certify cx = Inr (au_context (ms_auths (tk_mint s') ! h)) \<and> \<not> au_consumed (ms_auths (tk_mint s') ! h)"
    if "h \<in> set hs" for h
  proof -
    have h: "h - ?N < n" "?N + (h - ?N) = h" using that i a by auto
    with i a show ?thesis by fastforce
  qed
  with n i a show ?thesis by auto
qed

end
