(* ===== verification/Key_Repository.thy ===== *)
theory Key_Repository
  imports Preflight Counter_Store
begin

text \<open>
  The wallet's keys: the account of \<^verbatim>\<open>wallets/src/keys/DarkAccount.ts\<close> and the repository of issued and
  recognised keys, \<^verbatim>\<open>wallets/src/state/KeyRepository.ts\<close>.

  An account is its root secret; the fields that remember derived keys are recomputed here. The two maps
  from tags are lists of pairs in insertion order. The durable counter is any store with the interface of
  \<open>Counter_Store\<close>; the lock of the source makes each call one step. The objects \<^verbatim>\<open>nextSelfEphemeral\<close> marks
  are appended to the list of provenances.
\<close>

section \<open>The account\<close>

definition getViewKey :: "note_lib \<Rightarrow> fr \<Rightarrow> wallet_error + fr" where
  "getViewKey L skRoot = deriveViewKey L skRoot"

definition getIncomingKey :: "note_lib \<Rightarrow> fr \<Rightarrow> int \<Rightarrow> wallet_error + fr" where
  "getIncomingKey L skRoot index = ebind (getViewKey L skRoot) (\<lambda>v. deriveIncomingKey L v index)"

definition getSelfEphemeral :: "note_lib \<Rightarrow> fr \<Rightarrow> int \<Rightarrow> wallet_error + fr" where
  "getSelfEphemeral L skRoot index = ebind (getViewKey L skRoot) (\<lambda>v. deriveSelfEphemeral L v index)"

definition getSelfSpendKey :: "note_lib \<Rightarrow> fr \<Rightarrow> wallet_error + fr" where
  "getSelfSpendKey L skRoot = ebind (getViewKey L skRoot) (deriveSelfSpendKey L)"

definition getSelfSpendPub :: "note_lib \<Rightarrow> fr \<Rightarrow> wallet_error + point" where
  "getSelfSpendPub L skRoot = ebind (getSelfSpendKey L skRoot) (\<lambda>k. Inr (publicKey L k))"

section \<open>The repository\<close>

definition DEFAULT_LOOKAHEAD_WINDOW :: int where "DEFAULT_LOOKAHEAD_WINDOW = 20"
definition MAX_KEY_INDEX :: int where "MAX_KEY_INDEX = 1000000"
definition SELF_EPH_SCOPE :: string where "SELF_EPH_SCOPE = ''self''"

text \<open>\<^verbatim>\<open>clampIndex\<close>, on any number a persisted state may hold.\<close>

fun clampIndex :: "jnum \<Rightarrow> int \<Rightarrow> int" where
  "clampIndex (NInt n) lo = min (max n lo) MAX_KEY_INDEX"
| "clampIndex NNegZero lo = min (max 0 lo) MAX_KEY_INDEX"
| "clampIndex (NFrac m e) lo = min (max (m div 2 ^ e) lo) MAX_KEY_INDEX"
| "clampIndex (NInf b) lo = lo"
| "clampIndex NNaN lo = lo"

record key_repository =
  selfMintCounter :: int
  selfScanIndex :: int
  incomingIssueCounter :: int
  incomingScanIndex :: int
  highestMatchedSelf :: int
  highestMatchedIncoming :: int
  selfMap :: "(fr \<times> fr \<times> int) list"
  incomingMap :: "(fr \<times> fr \<times> int) list"

definition new_key_repository :: key_repository where
  "new_key_repository = \<lparr>selfMintCounter = 0, selfScanIndex = 0, incomingIssueCounter = 0, incomingScanIndex = 0,
     highestMatchedSelf = -1, highestMatchedIncoming = -1, selfMap = [], incomingMap = []\<rparr>"

record KeyRepoState =
  ks_selfMintCounter :: jnum
  ks_selfScanIndex :: jnum
  ks_incomingIssueCounter :: jnum
  ks_incomingScanIndex :: jnum
  ks_highestMatchedSelf :: jnum
  ks_highestMatchedIncoming :: jnum

definition getState :: "key_repository \<Rightarrow> KeyRepoState" where
  "getState k = \<lparr>ks_selfMintCounter = NInt (selfMintCounter k), ks_selfScanIndex = NInt (selfScanIndex k),
     ks_incomingIssueCounter = NInt (incomingIssueCounter k), ks_incomingScanIndex = NInt (incomingScanIndex k),
     ks_highestMatchedSelf = NInt (highestMatchedSelf k),
     ks_highestMatchedIncoming = NInt (highestMatchedIncoming k)\<rparr>"

text \<open>\<^verbatim>\<open>new Fr(x).toString()\<close>, which tells residues apart, is the residue.\<close>

definition tagKey :: "int \<Rightarrow> wallet_error + fr" where
  "tagKey x = new_Fr x"

text \<open>One registration: an odd y is left out, a tag already present keeps its entry.\<close>

definition registerSelf :: "note_lib \<Rightarrow> fr \<Rightarrow> int \<Rightarrow> (key_repository, wallet_error, unit) action" where
  "registerSelf L skRoot index k = (case getSelfEphemeral L skRoot index of
     Inl e \<Rightarrow> (Inl e, k)
   | Inr eph \<Rightarrow> let ephPub = publicKey L eph in
       if \<not> isEvenY ephPub then (Inr (), k)
       else case tagKey (fst ephPub) of
         Inl e \<Rightarrow> (Inl e, k)
       | Inr key \<Rightarrow> if map_of (selfMap k) key \<noteq> None then (Inr (), k)
           else (Inr (), k\<lparr>selfMap := AList.update key (eph, index) (selfMap k)\<rparr>))"

definition registerIncoming :: "note_lib \<Rightarrow> fr \<Rightarrow> int \<Rightarrow> (key_repository, wallet_error, unit) action" where
  "registerIncoming L skRoot index k = (case getIncomingKey L skRoot index of
     Inl e \<Rightarrow> (Inl e, k)
   | Inr inKey \<Rightarrow> let inPub = publicKey L inKey in
       if \<not> isEvenY inPub then (Inr (), k)
       else case tagKey (fst inPub) of
         Inl e \<Rightarrow> (Inl e, k)
       | Inr key \<Rightarrow> if map_of (incomingMap k) key \<noteq> None then (Inr (), k)
           else (Inr (), k\<lparr>incomingMap := AList.update key (inKey, index) (incomingMap k)\<rparr>))"

text \<open>\<^verbatim>\<open>while (scanIndex < target) await register(scanIndex++)\<close>, \<open>n\<close> times.\<close>

fun register_self_up :: "note_lib \<Rightarrow> fr \<Rightarrow> nat \<Rightarrow> (key_repository, wallet_error, unit) action" where
  "register_self_up L skRoot 0 = sret ()"
| "register_self_up L skRoot (Suc n) = sbind sget (\<lambda>k.
     sbind (smodify (\<lambda>k. k\<lparr>selfScanIndex := selfScanIndex k + 1\<rparr>)) (\<lambda>_.
     sbind (registerSelf L skRoot (selfScanIndex k)) (\<lambda>_. register_self_up L skRoot n)))"

fun register_incoming_up :: "note_lib \<Rightarrow> fr \<Rightarrow> nat \<Rightarrow> (key_repository, wallet_error, unit) action" where
  "register_incoming_up L skRoot 0 = sret ()"
| "register_incoming_up L skRoot (Suc n) = sbind sget (\<lambda>k.
     sbind (smodify (\<lambda>k. k\<lparr>incomingScanIndex := incomingScanIndex k + 1\<rparr>)) (\<lambda>_.
     sbind (registerIncoming L skRoot (incomingScanIndex k)) (\<lambda>_. register_incoming_up L skRoot n)))"

definition ensureSelfLookahead :: "note_lib \<Rightarrow> fr \<Rightarrow> int \<Rightarrow> (key_repository, wallet_error, bool) action" where
  "ensureSelfLookahead L skRoot window k =
     (let target = max (selfScanIndex k) (highestMatchedSelf k + 1 + window); n = nat (target - selfScanIndex k) in
      sbind (register_self_up L skRoot n) (\<lambda>_. sret (n > 0)) k)"

definition ensureIncomingLookahead :: "note_lib \<Rightarrow> fr \<Rightarrow> int \<Rightarrow> (key_repository, wallet_error, bool) action" where
  "ensureIncomingLookahead L skRoot window k =
     (let target = max (incomingScanIndex k) (highestMatchedIncoming k + 1 + window);
          n = nat (target - incomingScanIndex k) in
      sbind (register_incoming_up L skRoot n) (\<lambda>_. sret (n > 0)) k)"

definition matchSelfTag :: "int \<Rightarrow> (key_repository, wallet_error, (fr \<times> int) option) action" where
  "matchSelfTag tag k = (case tagKey tag of
     Inl e \<Rightarrow> (Inl e, k)
   | Inr key \<Rightarrow> (case map_of (selfMap k) key of
       None \<Rightarrow> (Inr None, k)
     | Some (eph, index) \<Rightarrow> (Inr (Some (eph, index)),
         if index > highestMatchedSelf k then k\<lparr>highestMatchedSelf := index\<rparr> else k)))"

definition matchIncomingTag :: "int \<Rightarrow> (key_repository, wallet_error, (fr \<times> int) option) action" where
  "matchIncomingTag tag k = (case tagKey tag of
     Inl e \<Rightarrow> (Inl e, k)
   | Inr key \<Rightarrow> (case map_of (incomingMap k) key of
       None \<Rightarrow> (Inr None, k)
     | Some (inKey, index) \<Rightarrow> (Inr (Some (inKey, index)),
         if index > highestMatchedIncoming k then k\<lparr>highestMatchedIncoming := index\<rparr> else k)))"

definition recordIncomingMatch :: "int \<Rightarrow> key_repository \<Rightarrow> key_repository" where
  "recordIncomingMatch index k =
     (if index > highestMatchedIncoming k then k\<lparr>highestMatchedIncoming := index\<rparr> else k)"

section \<open>Issuing keys\<close>

record 'c key_world =
  kw_repo :: key_repository
  kw_marks :: "DerivedSelfMintProvenance list"
  kw_counter :: 'c

type_synonym 'c reserve_fun = "string \<Rightarrow> int \<Rightarrow> ('c, pss_error, reservation) action"

definition on_counter :: "('c, pss_error, 'a) action \<Rightarrow> ('c key_world, wallet_error, 'a) action" where
  "on_counter act w = (case act (kw_counter w) of
     (Inl e, c) \<Rightarrow> (Inl (CounterError e), w\<lparr>kw_counter := c\<rparr>)
   | (Inr x, c) \<Rightarrow> (Inr x, w\<lparr>kw_counter := c\<rparr>))"

definition on_repo :: "(key_repository, wallet_error, 'a) action \<Rightarrow> ('c key_world, wallet_error, 'a) action" where
  "on_repo act w = (case act (kw_repo w) of (r, k) \<Rightarrow> (r, w\<lparr>kw_repo := k\<rparr>))"

definition lift_pss :: "pss_error + 'a \<Rightarrow> wallet_error + 'a" where
  "lift_pss r = (case r of Inl e \<Rightarrow> Inl (CounterError e) | Inr x \<Rightarrow> Inr x)"

definition issue_self :: "fr \<Rightarrow> fr \<Rightarrow> int \<Rightarrow> key_repository \<Rightarrow> key_repository" where
  "issue_self key eph index k = k\<lparr>selfMap := AList.update key (eph, index) (selfMap k),
     selfScanIndex := (if selfScanIndex k < index + 1 then index + 1 else selfScanIndex k)\<rparr>"

fun next_self_loop ::
  "note_lib \<Rightarrow> fr \<Rightarrow> 'c reserve_fun \<Rightarrow> nat \<Rightarrow> ('c key_world, wallet_error, candidate \<times> nat) action"
where
  "next_self_loop L skRoot reserve 0 = sthrow (WError ''no even-y self ephemeral within reservations'')"
| "next_self_loop L skRoot reserve (Suc n) =
     sbind (on_counter (reserve SELF_EPH_SCOPE 1)) (\<lambda>res. let index = res_base res in
     sbind (slift (getSelfEphemeral L skRoot index)) (\<lambda>eph. let ephPub = publicKey L eph in
     if \<not> isEvenY ephPub then next_self_loop L skRoot reserve n
     else
       sbind (slift (lift_pss (commit res index))) (\<lambda>_.
       sbind (slift (ebind (getSelfSpendPub L skRoot) (pubkeyOwner L))) (\<lambda>ownerCommitment.
       sbind (on_repo (smodify (\<lambda>k. k\<lparr>selfMintCounter := max (selfMintCounter k) (index + 1)\<rparr>))) (\<lambda>_.
       sbind (slift (tagKey (fst ephPub))) (\<lambda>key.
       sbind (on_repo (smodify (issue_self key eph index))) (\<lambda>_ w.
         let c = \<lparr>cd_eph = eph, cd_ephPub = ephPub, cd_tag = key, cd_index = index\<rparr> in
         (case markDerivedSelfMintCandidate c DUndef DUndef ownerCommitment (kw_marks w) of
            Inl e \<Rightarrow> (Inl e, w)
          | Inr marks \<Rightarrow> (Inr (c, length (kw_marks w)), w\<lparr>kw_marks := marks\<rparr>)))))))))"

definition nextSelfEphemeral ::
  "note_lib \<Rightarrow> fr \<Rightarrow> 'c reserve_fun \<Rightarrow> ('c key_world, wallet_error, candidate \<times> nat) action"
where
  "nextSelfEphemeral L skRoot reserve = next_self_loop L skRoot reserve MAX_INDEX_ROLL"

fun next_incoming_loop ::
  "note_lib \<Rightarrow> fr \<Rightarrow> nat \<Rightarrow> int \<Rightarrow> (key_repository, wallet_error, fr \<times> point \<times> int) action"
where
  "next_incoming_loop L skRoot 0 index = sthrow (WError ''no even-y incoming address within indices'')"
| "next_incoming_loop L skRoot (Suc n) index =
     sbind (slift (getIncomingKey L skRoot index)) (\<lambda>inKey. let inPub = publicKey L inKey in
     if \<not> isEvenY inPub then next_incoming_loop L skRoot n (index + 1)
     else sbind (smodify (\<lambda>k. k\<lparr>incomingIssueCounter := index + 1\<rparr>)) (\<lambda>_.
       sbind (slift (tagKey (fst inPub))) (\<lambda>key.
       sbind (smodify (\<lambda>k. k\<lparr>incomingMap := AList.update key (inKey, index) (incomingMap k),
           incomingScanIndex := (if incomingScanIndex k < index + 1 then index + 1 else incomingScanIndex k)\<rparr>)) (\<lambda>_.
         sret (inKey, inPub, index)))))"

definition nextIncomingAddress :: "note_lib \<Rightarrow> fr \<Rightarrow> (key_repository, wallet_error, fr \<times> point \<times> int) action" where
  "nextIncomingAddress L skRoot k = next_incoming_loop L skRoot MAX_INDEX_ROLL (incomingIssueCounter k) k"

section \<open>Restoring\<close>

text \<open>The counters a restore sets, before any key is registered.\<close>

definition restore_matches :: "KeyRepoState \<Rightarrow> key_repository \<Rightarrow> key_repository" where
  "restore_matches st k = k\<lparr>incomingIssueCounter := max (incomingIssueCounter k) (clampIndex (ks_incomingIssueCounter st) 0),
     highestMatchedSelf := max (highestMatchedSelf k) (clampIndex (ks_highestMatchedSelf st) (-1)),
     highestMatchedIncoming := max (highestMatchedIncoming k) (clampIndex (ks_highestMatchedIncoming st) (-1))\<rparr>"

definition restore_self_target :: "KeyRepoState \<Rightarrow> key_repository \<Rightarrow> int" where
  "restore_self_target st k = max (clampIndex (ks_selfScanIndex st) 0)
     (clampIndex (NInt (selfMintCounter k + DEFAULT_LOOKAHEAD_WINDOW)) 0)"

definition restore_incoming_target :: "KeyRepoState \<Rightarrow> key_repository \<Rightarrow> int" where
  "restore_incoming_target st k = max (clampIndex (ks_incomingScanIndex st) 0) (incomingIssueCounter k)"

definition restore_scan :: "note_lib \<Rightarrow> fr \<Rightarrow> KeyRepoState \<Rightarrow> (key_repository, wallet_error, unit) action" where
  "restore_scan L skRoot st =
     sbind sget (\<lambda>k.
     sbind (register_self_up L skRoot (nat (restore_self_target st k - selfScanIndex k))) (\<lambda>_.
     sbind sget (\<lambda>k.
     sbind (register_incoming_up L skRoot (nat (restore_incoming_target st k - incomingScanIndex k))) (\<lambda>_.
     sbind (ensureSelfLookahead L skRoot DEFAULT_LOOKAHEAD_WINDOW) (\<lambda>_.
     sbind (ensureIncomingLookahead L skRoot DEFAULT_LOOKAHEAD_WINDOW) (\<lambda>_. sret ()))))))"

definition restore ::
  "note_lib \<Rightarrow> fr \<Rightarrow> 'c reserve_fun \<Rightarrow> ('c \<Rightarrow> string \<Rightarrow> int) \<Rightarrow> KeyRepoState \<Rightarrow> ('c key_world, wallet_error, unit) action"
where
  "restore L skRoot reserve highWater st =
     sbind sget (\<lambda>w. let selfHighWater = clampIndex (NInt (highWater (kw_counter w) SELF_EPH_SCOPE)) 0;
         minted = max (max (selfMintCounter (kw_repo w)) (clampIndex (ks_selfMintCounter st) 0)) selfHighWater in
     sbind (on_repo (smodify (\<lambda>k. k\<lparr>selfMintCounter := minted\<rparr>))) (\<lambda>_.
     sbind (if selfHighWater < minted
            then sbind (on_counter (reserve SELF_EPH_SCOPE (minted - selfHighWater))) (\<lambda>_. sret ())
            else sret ()) (\<lambda>_.
     sbind (on_repo (smodify (restore_matches st))) (\<lambda>_.
       on_repo (restore_scan L skRoot st)))))"

section \<open>Issued ephemerals\<close>

text \<open>A derived key at an index: its public point is even and \<open>key\<close> is its tag.\<close>

definition self_key :: "note_lib \<Rightarrow> fr \<Rightarrow> int \<Rightarrow> fr \<Rightarrow> fr \<Rightarrow> bool" where
  "self_key L skRoot index eph key \<longleftrightarrow> getSelfEphemeral L skRoot index = Inr eph \<and>
     isEvenY (publicKey L eph) \<and> tagKey (fst (publicKey L eph)) = Inr key"

definition incoming_key :: "note_lib \<Rightarrow> fr \<Rightarrow> int \<Rightarrow> fr \<Rightarrow> fr \<Rightarrow> bool" where
  "incoming_key L skRoot index inKey key \<longleftrightarrow> getIncomingKey L skRoot index = Inr inKey \<and>
     isEvenY (publicKey L inKey) \<and> tagKey (fst (publicKey L inKey)) = Inr key"

text \<open>What a successful turn of the loop leaves.\<close>

lemma next_self_step:
  assumes "next_self_loop L skRoot reserve (Suc n) w = (Inr (c, ref), w')"
  shows "\<exists>res cs. reserve SELF_EPH_SCOPE 1 (kw_counter w) = (Inr res, cs) \<and>
    (next_self_loop L skRoot reserve n (w\<lparr>kw_counter := cs\<rparr>) = (Inr (c, ref), w') \<and>
       (\<exists>eph. getSelfEphemeral L skRoot (res_base res) = Inr eph \<and> \<not> isEvenY (publicKey L eph)) \<or>
     cd_index c = res_base res \<and> kw_counter w' = cs \<and> self_key L skRoot (cd_index c) (cd_eph c) (cd_tag c) \<and>
       cd_ephPub c = publicKey L (cd_eph c) \<and> ref = length (kw_marks w) \<and>
       (\<exists>own. kw_marks w' = kw_marks w @ [provenance_of c None None own] \<and>
          ebind (getSelfSpendPub L skRoot) (pubkeyOwner L) = Inr own) \<and>
       kw_repo w' = issue_self (cd_tag c) (cd_eph c) (cd_index c)
         ((kw_repo w)\<lparr>selfMintCounter := max (selfMintCounter (kw_repo w)) (cd_index c + 1)\<rparr>))"
proof -
  obtain res cs where r: "reserve SELF_EPH_SCOPE 1 (kw_counter w) = (Inr res, cs)"
    using assms by (cases "reserve SELF_EPH_SCOPE 1 (kw_counter w)"; cases "fst (reserve SELF_EPH_SCOPE 1 (kw_counter w))")
      (auto simp: sbind_def on_counter_def)
  obtain eph where e: "getSelfEphemeral L skRoot (res_base res) = Inr eph"
    using assms r by (cases "getSelfEphemeral L skRoot (res_base res)") (auto simp: sbind_def on_counter_def slift_def Let_def)
  show ?thesis
  proof (cases "isEvenY (publicKey L eph)")
    case False
    with assms r e show ?thesis by (auto simp: sbind_def on_counter_def slift_def Let_def)
  next
    case True
    let ?w = "w\<lparr>kw_counter := cs\<rparr>"
    have a: "sbind (slift (lift_pss (commit res (res_base res)))) (\<lambda>_.
       sbind (slift (ebind (getSelfSpendPub L skRoot) (pubkeyOwner L))) (\<lambda>ownerCommitment.
       sbind (on_repo (smodify (\<lambda>k. k\<lparr>selfMintCounter := max (selfMintCounter k) (res_base res + 1)\<rparr>))) (\<lambda>_.
       sbind (slift (tagKey (fst (publicKey L eph)))) (\<lambda>key.
       sbind (on_repo (smodify (issue_self key eph (res_base res)))) (\<lambda>_ w.
         let c = \<lparr>cd_eph = eph, cd_ephPub = publicKey L eph, cd_tag = key, cd_index = res_base res\<rparr> in
         (case markDerivedSelfMintCandidate c DUndef DUndef ownerCommitment (kw_marks w) of
            Inl e \<Rightarrow> (Inl e, w)
          | Inr marks \<Rightarrow> (Inr (c, length (kw_marks w)), w\<lparr>kw_marks := marks\<rparr>))))))) ?w = (Inr (c, ref), w')"
      using assms r e True by (simp add: sbind_def on_counter_def slift_def Let_def)
    obtain own where own: "ebind (getSelfSpendPub L skRoot) (pubkeyOwner L) = Inr own"
      using a by (cases "ebind (getSelfSpendPub L skRoot) (pubkeyOwner L)") (auto simp: sbind_def slift_def split: sum.splits)
    obtain key where key: "tagKey (fst (publicKey L eph)) = Inr key"
      using a own by (cases "tagKey (fst (publicKey L eph))")
        (auto simp: sbind_def slift_def on_repo_def smodify_def split: sum.splits)
    have "c = \<lparr>cd_eph = eph, cd_ephPub = publicKey L eph, cd_tag = key, cd_index = res_base res\<rparr> \<and>
       ref = length (kw_marks w) \<and> kw_marks w' = kw_marks w @ [provenance_of c None None own] \<and> kw_counter w' = cs \<and>
       kw_repo w' = issue_self key eph (res_base res)
         ((kw_repo w)\<lparr>selfMintCounter := max (selfMintCounter (kw_repo w)) (res_base res + 1)\<rparr>)"
      using a own key by (cases "lift_pss (commit res (res_base res))")
        (auto simp: sbind_def slift_def on_repo_def smodify_def markDerivedSelfMintCandidate_def Let_def)
    with r e key own True show ?thesis by (auto simp: self_key_def)
  qed
qed

lemma next_self_issued:
  "next_self_loop L skRoot reserve n w = (Inr (c, ref), w') \<Longrightarrow>
    self_key L skRoot (cd_index c) (cd_eph c) (cd_tag c) \<and> cd_ephPub c = publicKey L (cd_eph c) \<and>
    ref = length (kw_marks w) \<and>
    (\<exists>own. kw_marks w' = kw_marks w @ [provenance_of c None None own] \<and>
       ebind (getSelfSpendPub L skRoot) (pubkeyOwner L) = Inr own) \<and>
    kw_repo w' = issue_self (cd_tag c) (cd_eph c) (cd_index c)
      ((kw_repo w)\<lparr>selfMintCounter := max (selfMintCounter (kw_repo w)) (cd_index c + 1)\<rparr>)"
proof (induction n arbitrary: w)
  case 0
  then show ?case by (simp add: sthrow_def)
next
  case (Suc n)
  from next_self_step[OF Suc.prems] obtain res cs where
    "next_self_loop L skRoot reserve n (w\<lparr>kw_counter := cs\<rparr>) = (Inr (c, ref), w') \<or>
     self_key L skRoot (cd_index c) (cd_eph c) (cd_tag c) \<and>
       cd_ephPub c = publicKey L (cd_eph c) \<and> ref = length (kw_marks w) \<and>
       (\<exists>own. kw_marks w' = kw_marks w @ [provenance_of c None None own] \<and>
          ebind (getSelfSpendPub L skRoot) (pubkeyOwner L) = Inr own) \<and>
       kw_repo w' = issue_self (cd_tag c) (cd_eph c) (cd_index c)
         ((kw_repo w)\<lparr>selfMintCounter := max (selfMintCounter (kw_repo w)) (cd_index c + 1)\<rparr>)" by blast
  then show ?case using Suc.IH[of "w\<lparr>kw_counter := cs\<rparr>"] by auto
qed

context counter_store
begin

text \<open>Failed attempts included, the counter keeps its invariant and never comes down.\<close>

lemma next_self_keeps:
  "next_self_loop L skRoot reserve n w = (r, w') \<Longrightarrow> inv (kw_counter w) \<Longrightarrow>
    inv (kw_counter w') \<and> highWater (kw_counter w) k \<le> highWater (kw_counter w') k"
proof (induction n arbitrary: w)
  case 0
  then show ?case by (simp add: sthrow_def)
next
  case (Suc n)
  obtain v cs where v: "reserve SELF_EPH_SCOPE 1 (kw_counter w) = (v, cs)" by fastforce
  have cs: "inv cs" "highWater (kw_counter w) k \<le> highWater cs k"
    using reserve_inv[OF Suc.prems(2), of SELF_EPH_SCOPE 1] reserve_mono[OF Suc.prems(2), of k SELF_EPH_SCOPE 1] v by auto
  show ?case
  proof (cases "kw_counter w' = cs")
    case True
    with cs show ?thesis by simp
  next
    case False
    then have "next_self_loop L skRoot reserve n (w\<lparr>kw_counter := cs\<rparr>) = (r, w')"
      using Suc.prems(1) v
      by (auto simp: sbind_def on_counter_def slift_def on_repo_def smodify_def Let_def
          split: sum.splits if_splits)
    from Suc.IH[OF this] cs show ?thesis by (auto intro: order_trans)
  qed
qed

lemma next_self_index:
  "next_self_loop L skRoot reserve n w = (Inr (c, ref), w') \<Longrightarrow> inv (kw_counter w) \<Longrightarrow> scope_ok SELF_EPH_SCOPE \<Longrightarrow>
    highWater (kw_counter w) SELF_EPH_SCOPE \<le> cd_index c \<and> cd_index c < highWater (kw_counter w') SELF_EPH_SCOPE"
proof (induction n arbitrary: w)
  case 0
  then show ?case by (simp add: sthrow_def)
next
  case (Suc n)
  from next_self_step[OF Suc.prems(1)] obtain res cs where
    r: "reserve SELF_EPH_SCOPE 1 (kw_counter w) = (Inr res, cs)" and
    d: "next_self_loop L skRoot reserve n (w\<lparr>kw_counter := cs\<rparr>) = (Inr (c, ref), w') \<or>
      cd_index c = res_base res \<and> kw_counter w' = cs" by blast
  note ok = reserve_ok[OF Suc.prems(2,3) r]
  have cs: "inv cs" "highWater (kw_counter w) SELF_EPH_SCOPE \<le> highWater cs SELF_EPH_SCOPE"
    using reserve_inv[OF Suc.prems(2), of SELF_EPH_SCOPE 1] reserve_mono[OF Suc.prems(2), of SELF_EPH_SCOPE SELF_EPH_SCOPE 1] r by auto
  from d show ?case
  proof
    assume "next_self_loop L skRoot reserve n (w\<lparr>kw_counter := cs\<rparr>) = (Inr (c, ref), w')"
    from Suc.IH[OF this] cs Suc.prems(3) show ?thesis by auto
  next
    assume "cd_index c = res_base res \<and> kw_counter w' = cs"
    with ok show ?thesis by auto
  qed
qed

end

section \<open>Runs of the repository\<close>

datatype key_op =
    OpNextSelf
  | OpNextIncoming
  | OpRestore KeyRepoState
  | OpSelfLookahead int
  | OpIncomingLookahead int
  | OpMatchSelf int
  | OpMatchIncoming int
  | OpRecordIncoming int

text \<open>What one call issues, and the state it leaves, whether it returned or threw.\<close>

fun key_step ::
  "note_lib \<Rightarrow> fr \<Rightarrow> 'c reserve_fun \<Rightarrow> ('c \<Rightarrow> string \<Rightarrow> int) \<Rightarrow> key_op \<Rightarrow> 'c key_world \<Rightarrow> candidate list \<times> 'c key_world"
where
  "key_step L skRoot reserve highWater OpNextSelf w = (case nextSelfEphemeral L skRoot reserve w of
     (Inr (c, ref), w') \<Rightarrow> ([c], w') | (Inl e, w') \<Rightarrow> ([], w'))"
| "key_step L skRoot reserve highWater OpNextIncoming w = ([], snd (on_repo (nextIncomingAddress L skRoot) w))"
| "key_step L skRoot reserve highWater (OpRestore st) w = ([], snd (restore L skRoot reserve highWater st w))"
| "key_step L skRoot reserve highWater (OpSelfLookahead n) w = ([], snd (on_repo (ensureSelfLookahead L skRoot n) w))"
| "key_step L skRoot reserve highWater (OpIncomingLookahead n) w =
     ([], snd (on_repo (ensureIncomingLookahead L skRoot n) w))"
| "key_step L skRoot reserve highWater (OpMatchSelf t) w = ([], snd (on_repo (matchSelfTag t) w))"
| "key_step L skRoot reserve highWater (OpMatchIncoming t) w = ([], snd (on_repo (matchIncomingTag t) w))"
| "key_step L skRoot reserve highWater (OpRecordIncoming i) w = ([], w\<lparr>kw_repo := recordIncomingMatch i (kw_repo w)\<rparr>)"

fun key_run ::
  "note_lib \<Rightarrow> fr \<Rightarrow> 'c reserve_fun \<Rightarrow> ('c \<Rightarrow> string \<Rightarrow> int) \<Rightarrow> key_op list \<Rightarrow> 'c key_world \<Rightarrow> candidate list \<times> 'c key_world"
where
  "key_run L skRoot reserve highWater [] w = ([], w)"
| "key_run L skRoot reserve highWater (op1 # ops) w = (case key_step L skRoot reserve highWater op1 w of
     (cs, w') \<Rightarrow> (case key_run L skRoot reserve highWater ops w' of (ds, w'') \<Rightarrow> (cs @ ds, w'')))"

lemma on_repo_counter [simp]: "kw_counter (snd (on_repo act w)) = kw_counter w"
  by (simp add: on_repo_def split: prod.splits)

lemma sbind_on_repo_counter:
  "sbind (on_repo act) f w = (r, w') \<Longrightarrow>
    kw_counter w' = kw_counter w \<or> (\<exists>x v. kw_counter v = kw_counter w \<and> f x v = (r, w'))"
proof -
  obtain q k where "act (kw_repo w) = (q, k)" by fastforce
  then show "sbind (on_repo act) f w = (r, w') \<Longrightarrow> ?thesis"
    by (cases q) (auto simp: sbind_def on_repo_def)
qed

context counter_store
begin

lemma restore_keeps:
  assumes "inv (kw_counter w)"
  shows "inv (kw_counter (snd (restore L skRoot reserve highWater st w))) \<and>
    highWater (kw_counter w) k \<le> highWater (kw_counter (snd (restore L skRoot reserve highWater st w))) k"
proof -
  let ?R = "\<lambda>(v :: 's key_world) v'. inv (kw_counter v) \<longrightarrow>
    inv (kw_counter v') \<and> highWater (kw_counter v) k \<le> highWater (kw_counter v') k"
  have t: "reflp ?R" "transp ?R" by (auto simp: reflp_def transp_def intro: order_trans)
  have repo: "keeps ?R (on_repo act)" for act :: "(key_repository, wallet_error, 'x) action"
    by (rule keepsI) simp
  have res: "keeps ?R (on_counter (reserve sc sp))" for sc sp
  proof (rule keepsI, rule impI)
    fix v :: "'s key_world" assume v: "inv (kw_counter v)"
    obtain q cs where "reserve sc sp (kw_counter v) = (q, cs)" by fastforce
    with reserve_inv[OF v, of sc sp] reserve_mono[OF v, of k sc sp]
    show "inv (kw_counter (snd (on_counter (reserve sc sp) v))) \<and>
      highWater (kw_counter v) k \<le> highWater (kw_counter (snd (on_counter (reserve sc sp) v))) k"
      by (cases q) (auto simp: on_counter_def)
  qed
  have "keeps ?R (restore L skRoot reserve highWater st)"
    unfolding restore_def Let_def
    by (intro keeps_sbind keeps_if keeps_sret keeps_sget t repo res)
  from keepsD[OF this, of w] assms show ?thesis by simp
qed

lemma key_step_keeps:
  assumes "inv (kw_counter w)"
  shows "inv (kw_counter (snd (key_step L skRoot reserve highWater op1 w))) \<and>
    highWater (kw_counter w) k \<le> highWater (kw_counter (snd (key_step L skRoot reserve highWater op1 w))) k"
proof (cases op1)
  case OpNextSelf
  obtain r w' where "nextSelfEphemeral L skRoot reserve w = (r, w')" by fastforce
  with next_self_keeps[of L skRoot MAX_INDEX_ROLL w r w' k] assms OpNextSelf show ?thesis
    by (auto simp: nextSelfEphemeral_def split: sum.splits)
next
  case (OpRestore st)
  then show ?thesis using restore_keeps[OF assms] by simp
qed (use assms in simp_all)

lemma key_step_index:
  assumes "inv (kw_counter w)" "scope_ok SELF_EPH_SCOPE" "key_step L skRoot reserve highWater op1 w = (cs, w')" "c \<in> set cs"
  shows "cs = [c] \<and> highWater (kw_counter w) SELF_EPH_SCOPE \<le> cd_index c \<and>
    cd_index c < highWater (kw_counter w') SELF_EPH_SCOPE"
proof (cases op1)
  case OpNextSelf
  obtain r v where r: "nextSelfEphemeral L skRoot reserve w = (r, v)" by fastforce
  with assms OpNextSelf obtain ref where "r = Inr (c, ref)" "v = w'" "cs = [c]" by (cases r) auto
  with next_self_index[of L skRoot MAX_INDEX_ROLL w c ref w'] r assms(1,2) show ?thesis
    by (simp add: nextSelfEphemeral_def)
qed (use assms in auto)

text \<open>The indices a run issues increase strictly.\<close>

lemma key_run_increasing:
  "inv (kw_counter w) \<Longrightarrow> scope_ok SELF_EPH_SCOPE \<Longrightarrow> key_run L skRoot reserve highWater ops w = (cs, w') \<Longrightarrow>
    sorted_wrt (<) (map cd_index cs) \<and> (\<forall>c \<in> set cs. highWater (kw_counter w) SELF_EPH_SCOPE \<le> cd_index c)"
proof (induction ops arbitrary: w cs)
  case (Cons op1 ops)
  obtain as v where v: "key_step L skRoot reserve highWater op1 w = (as, v)" by fastforce
  obtain bs where bs: "key_run L skRoot reserve highWater ops v = (bs, w')" "cs = as @ bs"
    using Cons.prems(3) v by (auto split: prod.splits)
  have k: "inv (kw_counter v)" "highWater (kw_counter w) SELF_EPH_SCOPE \<le> highWater (kw_counter v) SELF_EPH_SCOPE"
    using key_step_keeps[OF Cons.prems(1), of L skRoot op1 SELF_EPH_SCOPE] v by simp_all
  note IH = Cons.IH[OF k(1) Cons.prems(2) bs(1)]
  show ?case
  proof (cases as)
    case Nil
    with IH bs(2) k(2) show ?thesis by auto
  next
    case (Cons a as')
    from key_step_index[OF Cons.prems(1,2) v, of a] Cons have
      a: "as = [a]" "highWater (kw_counter w) SELF_EPH_SCOPE \<le> cd_index a"
      "cd_index a < highWater (kw_counter v) SELF_EPH_SCOPE" by auto
    with IH bs(2) k(2) show ?thesis by fastforce
  qed
qed simp

end

section \<open>Issued keys are recognised\<close>

lemma issued_matches:
  assumes "nextSelfEphemeral L skRoot reserve w = (Inr (c, ref), w')"
  shows "\<exists>k. matchSelfTag (fst (cd_ephPub c)) (kw_repo w') = (Inr (Some (cd_eph c, cd_index c)), k)"
  using next_self_issued[OF assms[unfolded nextSelfEphemeral_def]]
  by (auto simp: matchSelfTag_def self_key_def issue_self_def)

text \<open>Every incoming address below the scan index is registered, and no address is issued above it.\<close>

definition incoming_ok :: "note_lib \<Rightarrow> fr \<Rightarrow> key_repository \<Rightarrow> bool" where
  "incoming_ok L skRoot k \<longleftrightarrow> 0 \<le> incomingIssueCounter k \<and> incomingIssueCounter k \<le> incomingScanIndex k \<and>
     (\<forall>i inKey key. 0 \<le> i \<longrightarrow> i < incomingScanIndex k \<longrightarrow> incoming_key L skRoot i inKey key \<longrightarrow>
        map_of (incomingMap k) key \<noteq> None)"

lemma registerIncoming_covers:
  assumes "registerIncoming L skRoot index k = (r, k')"
  shows "incomingScanIndex k' = incomingScanIndex k" "incomingIssueCounter k' = incomingIssueCounter k"
    "map_of (incomingMap k) key \<noteq> None \<Longrightarrow> map_of (incomingMap k') key \<noteq> None"
    "incoming_key L skRoot index inKey key \<Longrightarrow> map_of (incomingMap k') key \<noteq> None"
  using assms
  by (auto simp: registerIncoming_def incoming_key_def Let_def split: sum.splits if_splits)

lemma register_incoming_up_ok:
  "incoming_ok L skRoot k \<Longrightarrow> register_incoming_up L skRoot n k = (r, k') \<Longrightarrow> incoming_ok L skRoot k'"
proof (induction n arbitrary: k)
  case 0
  then show ?case by (simp add: sret_def)
next
  case (Suc n)
  let ?k = "k\<lparr>incomingScanIndex := incomingScanIndex k + 1\<rparr>"
  obtain v k1 where v: "registerIncoming L skRoot (incomingScanIndex k) ?k = (v, k1)" by fastforce
  note c = registerIncoming_covers[OF v]
  have old: "map_of (incomingMap k) key \<noteq> None \<Longrightarrow> map_of (incomingMap k1) key \<noteq> None" for key
    using c(3)[of key] by simp
  have "map_of (incomingMap k1) key \<noteq> None"
    if "0 \<le> i" "i < incomingScanIndex k1" "incoming_key L skRoot i inKey key" for i inKey key
  proof (cases "i = incomingScanIndex k")
    case True
    with c(4) that(3) show ?thesis by blast
  next
    case False
    then have "i < incomingScanIndex k" using that(2) c(1) by simp
    then have "map_of (incomingMap k) key \<noteq> None" using Suc.prems(1) that(1,3) unfolding incoming_ok_def by blast
    then show ?thesis by (rule old)
  qed
  moreover have "0 \<le> incomingIssueCounter k1" "incomingIssueCounter k1 \<le> incomingScanIndex k1"
    using c(1,2) Suc.prems(1) by (simp_all add: incoming_ok_def)
  ultimately have k1: "incoming_ok L skRoot k1" unfolding incoming_ok_def by blast
  show ?case
  proof (cases v)
    case (Inl e)
    with Suc.prems(2) v have "k' = k1" by (simp add: sbind_def sget_def smodify_def)
    with k1 show ?thesis by simp
  next
    case (Inr u)
    with Suc.prems(2) v have "register_incoming_up L skRoot n k1 = (r, k')" by (simp add: sbind_def sget_def smodify_def)
    with Suc.IH[OF k1] show ?thesis by blast
  qed
qed

lemma next_incoming_loop_Inr:
  "next_incoming_loop L skRoot n index k = (r, k') \<Longrightarrow> k' = k \<or>
    (\<exists>j inKey. index \<le> j \<and> getIncomingKey L skRoot j = Inr inKey \<and> isEvenY (publicKey L inKey) \<and>
      (\<forall>i inKey key. index \<le> i \<longrightarrow> i < j \<longrightarrow> \<not> incoming_key L skRoot i inKey key) \<and>
      (case tagKey (fst (publicKey L inKey)) of
         Inl e \<Rightarrow> r = Inl e \<and> k' = k\<lparr>incomingIssueCounter := j + 1\<rparr>
       | Inr key \<Rightarrow> r = Inr (inKey, publicKey L inKey, j) \<and>
           k' = k\<lparr>incomingIssueCounter := j + 1, incomingMap := AList.update key (inKey, j) (incomingMap k),
                  incomingScanIndex := (if incomingScanIndex k < j + 1 then j + 1 else incomingScanIndex k)\<rparr>))"
proof (induction n arbitrary: index)
  case 0
  then show ?case by (simp add: sthrow_def)
next
  case (Suc n)
  show ?case
  proof (cases "getIncomingKey L skRoot index")
    case (Inl e)
    with Suc.prems show ?thesis by (simp add: sbind_def slift_def)
  next
    case (Inr inKey)
    show ?thesis
    proof (cases "isEvenY (publicKey L inKey)")
      case False
      with Suc.prems Inr have "next_incoming_loop L skRoot n (index + 1) k = (r, k')"
        by (simp add: sbind_def slift_def Let_def)
      moreover have "\<not> incoming_key L skRoot index i key" for i key using False Inr by (auto simp: incoming_key_def)
      moreover have "index \<le> i \<longleftrightarrow> i = index \<or> index + 1 \<le> i" for i by linarith
      ultimately show ?thesis using Suc.IH[of "index + 1"] by (smt (verit, best))
    next
      case True
      with Suc.prems Inr show ?thesis
        by (intro disjI2 exI[of _ index] exI[of _ inKey])
          (auto simp: sbind_def slift_def smodify_def sret_def Let_def split: sum.splits)
    qed
  qed
qed

lemma tagKey_publicKey:
  assumes "lib_ok L"
  shows "tagKey (fst (publicKey L x)) = Inr (nat (fst (publicKey L x)))"
  using publicKey_residue[OF assms, of x] by (simp add: tagKey_def new_Fr_residue)

lemma next_incoming_ok:
  assumes "lib_ok L" "incoming_ok L skRoot k" "nextIncomingAddress L skRoot k = (r, k')"
  shows "incoming_ok L skRoot k'"
proof (cases "k' = k")
  case False
  with next_incoming_loop_Inr[OF assms(3)[unfolded nextIncomingAddress_def]] obtain j inKey where
    j: "incomingIssueCounter k \<le> j" "getIncomingKey L skRoot j = Inr inKey"
      "\<forall>i inKey key. incomingIssueCounter k \<le> i \<longrightarrow> i < j \<longrightarrow> \<not> incoming_key L skRoot i inKey key"
    and c: "case tagKey (fst (publicKey L inKey)) of
         Inl e \<Rightarrow> r = Inl e \<and> k' = k\<lparr>incomingIssueCounter := j + 1\<rparr>
       | Inr key \<Rightarrow> r = Inr (inKey, publicKey L inKey, j) \<and>
           k' = k\<lparr>incomingIssueCounter := j + 1, incomingMap := AList.update key (inKey, j) (incomingMap k),
                  incomingScanIndex := (if incomingScanIndex k < j + 1 then j + 1 else incomingScanIndex k)\<rparr>"
    by blast
  let ?key = "nat (fst (publicKey L inKey))"
  have k': "k' = k\<lparr>incomingIssueCounter := j + 1, incomingMap := AList.update ?key (inKey, j) (incomingMap k),
      incomingScanIndex := (if incomingScanIndex k < j + 1 then j + 1 else incomingScanIndex k)\<rparr>"
    using c by (simp add: tagKey_publicKey[OF assms(1)])
  have "map_of (incomingMap k') key \<noteq> None"
    if i: "0 \<le> i" "i < incomingScanIndex k'" "incoming_key L skRoot i ik key" for i ik key
  proof (cases "i < incomingScanIndex k")
    case True
    then have "map_of (incomingMap k) key \<noteq> None" using assms(2) i unfolding incoming_ok_def by blast
    then show ?thesis by (simp add: k')
  next
    case False
    then have "incomingIssueCounter k \<le> i" "i \<le> j" using assms(2) i(2) by (auto simp: incoming_ok_def k' split: if_splits)
    then have "i = j" using j(3) i(3) by (metis le_less)
    with i(3) j(2) show ?thesis by (auto simp: k' incoming_key_def tagKey_publicKey[OF assms(1)])
  qed
  moreover have "0 \<le> incomingIssueCounter k'" "incomingIssueCounter k' \<le> incomingScanIndex k'"
    using assms(2) j(1) by (auto simp: incoming_ok_def k')
  ultimately show ?thesis unfolding incoming_ok_def by blast
qed (use assms(2) in simp)

text \<open>Operations that leave the incoming addresses alone.\<close>

definition same_incoming :: "key_repository \<Rightarrow> key_repository \<Rightarrow> bool" where
  "same_incoming k k' \<longleftrightarrow> incomingIssueCounter k' = incomingIssueCounter k \<and>
     incomingScanIndex k' = incomingScanIndex k \<and> incomingMap k' = incomingMap k"

lemma same_incoming_ok: "same_incoming k k' \<Longrightarrow> incoming_ok L skRoot k \<Longrightarrow> incoming_ok L skRoot k'"
  by (simp add: same_incoming_def incoming_ok_def)

lemma same_incoming_order: "reflp same_incoming" "transp same_incoming"
  by (auto simp: same_incoming_def reflp_def transp_def)

lemma registerSelf_same: "keeps same_incoming (registerSelf L skRoot index)"
  by (rule keepsI) (auto simp: registerSelf_def same_incoming_def Let_def split: sum.splits)

lemma register_self_up_same: "keeps same_incoming (register_self_up L skRoot n)"
proof (induction n)
  case (Suc n)
  show ?case unfolding register_self_up.simps
    by (intro keeps_sbind same_incoming_order keeps_sget keeps_smodify registerSelf_same Suc.IH)
      (simp add: same_incoming_def)
qed (simp add: keeps_sret same_incoming_order)

lemma next_self_same:
  "same_incoming (kw_repo w) (kw_repo (snd (next_self_loop L skRoot reserve n w)))"
proof -
  let ?R = "\<lambda>(v :: 'c key_world) v'. same_incoming (kw_repo v) (kw_repo v')"
  have t: "reflp ?R" "transp ?R" by (auto simp: reflp_def transp_def same_incoming_def)
  have rp: "keeps ?R (on_repo (smodify f))" if "\<And>k. same_incoming k (f k)" for f
    by (rule keepsI) (simp add: on_repo_def smodify_def that)
  have ct: "keeps ?R (on_counter act)" for act :: "('c, pss_error, 'x) action"
    by (rule keepsI) (auto simp: on_counter_def same_incoming_def split: prod.splits sum.splits)
  have mk: "keeps ?R (\<lambda>w. let c = g w in case markDerivedSelfMintCandidate c DUndef DUndef own (kw_marks w) of
      Inl e \<Rightarrow> (Inl e, w) | Inr marks \<Rightarrow> (Inr (c, length (kw_marks w)), w\<lparr>kw_marks := marks\<rparr>))" for g own
    by (rule keepsI) (auto simp: Let_def same_incoming_def split: sum.splits)
  have "keeps ?R (next_self_loop L skRoot reserve n)"
  proof (induction n)
    case (Suc n)
    show ?case unfolding next_self_loop.simps Let_def
      by (intro keeps_sbind keeps_if keeps_slift t rp ct Suc.IH mk[unfolded Let_def])
        (simp_all add: same_incoming_def issue_self_def)
  qed (simp add: keeps_sthrow t)
  then show ?thesis by (rule keepsD)
qed

lemma key_step_incoming_ok:
  assumes "lib_ok L" "incoming_ok L skRoot (kw_repo w)" "\<forall>st. op1 \<noteq> OpRestore st"
  shows "incoming_ok L skRoot (kw_repo (snd (key_step L skRoot reserve highWater op1 w)))"
proof (cases op1)
  case OpNextSelf
  have "snd (key_step L skRoot reserve highWater op1 w) = snd (next_self_loop L skRoot reserve MAX_INDEX_ROLL w)"
    using OpNextSelf by (auto simp: nextSelfEphemeral_def split: prod.splits sum.splits)
  with same_incoming_ok[OF next_self_same[of w L skRoot reserve MAX_INDEX_ROLL] assms(2)] show ?thesis by simp
next
  case OpNextIncoming
  then show ?thesis using next_incoming_ok[OF assms(1,2)] by (auto simp: on_repo_def split: prod.splits)
next
  case (OpSelfLookahead n)
  have "keeps same_incoming (sbind (register_self_up L skRoot m) (\<lambda>_. sret b))" for m and b :: bool
    by (intro keeps_sbind register_self_up_same keeps_sret same_incoming_order)
  then have "same_incoming k (snd (ensureSelfLookahead L skRoot n k))" for k
    unfolding ensureSelfLookahead_def Let_def by (rule keepsD)
  from same_incoming_ok[OF this assms(2)] OpSelfLookahead show ?thesis
    by (auto simp: on_repo_def split: prod.splits)
next
  case (OpIncomingLookahead n)
  then show ?thesis using register_incoming_up_ok[OF assms(2)]
    by (auto simp: on_repo_def ensureIncomingLookahead_def sbind_def sret_def Let_def split: prod.splits sum.splits)
qed (use assms in \<open>auto simp: on_repo_def matchSelfTag_def matchIncomingTag_def recordIncomingMatch_def incoming_ok_def
  split: prod.splits sum.splits option.splits if_splits\<close>)

lemma key_run_incoming_ok:
  assumes "lib_ok L"
  shows "incoming_ok L skRoot (kw_repo w) \<Longrightarrow> \<forall>op1 \<in> set ops. \<forall>st. op1 \<noteq> OpRestore st \<Longrightarrow>
    incoming_ok L skRoot (kw_repo (snd (key_run L skRoot reserve highWater ops w)))"
proof (induction ops arbitrary: w)
  case (Cons op1 ops)
  have "incoming_ok L skRoot (kw_repo (snd (key_step L skRoot reserve highWater op1 w)))"
    using key_step_incoming_ok[OF assms Cons.prems(1)] Cons.prems(2) by simp
  with Cons.IH[of "snd (key_step L skRoot reserve highWater op1 w)"] Cons.prems(2) show ?case
    by (auto split: prod.splits)
qed simp

section \<open>Self indices that are passed over\<close>

text \<open>An index another install used, between the last scanned one and the one issued, is counted as scanned
  and not registered.\<close>

lemma passed_over:
  assumes "nextSelfEphemeral L skRoot reserve w = (Inr (c, ref), w')" "selfScanIndex (kw_repo w) \<le> i" "i < cd_index c"
    and "self_key L skRoot i eph key" "map_of (selfMap (kw_repo w)) key = None" "key \<noteq> cd_tag c"
  shows "i < selfScanIndex (kw_repo w') \<and> map_of (selfMap (kw_repo w')) key = None"
  using next_self_issued[OF assms(1)[unfolded nextSelfEphemeral_def]] assms(2-6) by (auto simp: issue_self_def)

end
