(* ===== verification/Wallet_Protocol.thy ===== *)
theory Wallet_Protocol
  imports Mint_Protocol Key_Repository
begin

text \<open>
  The key repository, the preflights and the assemblies of one install together: the objects
  \<^verbatim>\<open>nextSelfEphemeral\<close> marks are the ones preflights claim and assemblies consume. A step is a call of the
  repository or a step of \<open>Mint_Protocol\<close> that marks nothing by itself.
\<close>

record 'c wallet_system =
  ws_keys :: "'c key_world"
  ws_mint :: mint_system
  ws_issued :: "candidate list"

definition mark_objects :: "mint_state \<Rightarrow> candidate list" where
  "mark_objects m = map candidate_of (ms_marks m)"

definition with_marks :: "DerivedSelfMintProvenance list \<Rightarrow> mint_system \<Rightarrow> mint_system" where
  "with_marks marks y = y\<lparr>my_mint := (my_mint y)\<lparr>ms_marks := marks\<rparr>\<rparr>"

inductive wallet_step ::
  "note_lib \<Rightarrow> fr \<Rightarrow> 'c reserve_fun \<Rightarrow> ('c \<Rightarrow> string \<Rightarrow> int) \<Rightarrow> 'c wallet_system \<Rightarrow> 'c wallet_system \<Rightarrow> bool"
  for L skRoot reserve highWater
where
  keys: "key_step L skRoot reserve highWater op1 ((ws_keys y)\<lparr>kw_marks := ms_marks (my_mint (ws_mint y))\<rparr>) = (cs, w) \<Longrightarrow>
    wallet_step L skRoot reserve highWater y
      (y\<lparr>ws_keys := w, ws_mint := with_marks (kw_marks w) (ws_mint y), ws_issued := ws_issued y @ cs\<rparr>)"
| mint: "mint_step L (ws_mint y) z \<Longrightarrow> mark_objects (my_mint z) = mark_objects (my_mint (ws_mint y)) \<Longrightarrow>
    wallet_step L skRoot reserve highWater y (y\<lparr>ws_mint := z\<rparr>)"

definition wallet_init :: "'c key_world \<Rightarrow> 'c wallet_system" where
  "wallet_init w = \<lparr>ws_keys = w, ws_mint = mint_init, ws_issued = []\<rparr>"

abbreviation wallet_reach ::
  "note_lib \<Rightarrow> fr \<Rightarrow> 'c reserve_fun \<Rightarrow> ('c \<Rightarrow> string \<Rightarrow> int) \<Rightarrow> 'c key_world \<Rightarrow> 'c wallet_system \<Rightarrow> bool"
where
  "wallet_reach L skRoot reserve highWater w y \<equiv> (wallet_step L skRoot reserve highWater)\<^sup>*\<^sup>* (wallet_init w) y"

section \<open>What a call of the repository marks\<close>

lemma candidate_of_provenance [simp]: "candidate_of (provenance_of c m j own) = c"
  by (simp add: candidate_of_def provenance_of_def)

lemma claimed_provenance [simp]: "\<not> pv_claimed (provenance_of c m j own)"
  by (simp add: provenance_of_def)

lemma next_self_fails_marks:
  "next_self_loop L skRoot reserve n w = (Inl e, w') \<Longrightarrow> kw_marks w' = kw_marks w"
proof (induction n arbitrary: w)
  case 0
  then show ?case by (simp add: sthrow_def)
next
  case (Suc n)
  obtain v cs where v: "reserve SELF_EPH_SCOPE 1 (kw_counter w) = (v, cs)" by fastforce
  show ?case
  proof (cases "\<exists>eph res. v = Inr res \<and> getSelfEphemeral L skRoot (res_base res) = Inr eph \<and> \<not> isEvenY (publicKey L eph)")
    case True
    with Suc.prems v have "next_self_loop L skRoot reserve n (w\<lparr>kw_counter := cs\<rparr>) = (Inl e, w')"
      by (auto simp: sbind_def on_counter_def slift_def Let_def)
    from Suc.IH[OF this] show ?thesis by simp
  next
    case False
    with Suc.prems v show ?thesis
      by (auto simp: sbind_def on_counter_def slift_def on_repo_def smodify_def Let_def markDerivedSelfMintCandidate_def
          split: sum.splits if_splits)
  qed
qed

lemma on_repo_marks [simp]: "kw_marks (snd (on_repo act w)) = kw_marks w"
  by (simp add: on_repo_def split: prod.splits)

lemma restore_marks: "kw_marks (snd (restore L skRoot reserve highWater st w)) = kw_marks w"
proof -
  let ?R = "\<lambda>(v :: 'a key_world) v'. kw_marks v' = kw_marks v"
  have t: "reflp ?R" "transp ?R" by (auto simp: reflp_def transp_def)
  have repo: "keeps ?R (on_repo act)" for act :: "(key_repository, wallet_error, 'x) action"
    by (rule keepsI) simp
  have res: "keeps ?R (on_counter act)" for act :: "('a, pss_error, 'x) action"
    by (rule keepsI) (auto simp: on_counter_def split: prod.splits sum.splits)
  have "keeps ?R (restore L skRoot reserve highWater st)"
    unfolding restore_def Let_def by (intro keeps_sbind keeps_if keeps_sret keeps_sget t repo res)
  from keepsD[OF this, of w] show ?thesis by simp
qed

text \<open>The objects marked are the ones issued, each derived from the account at its index.\<close>

lemma key_step_marks:
  assumes "key_step L skRoot reserve highWater op1 w = (cs, w')"
  shows "\<exists>ps. kw_marks w' = kw_marks w @ ps \<and> map candidate_of ps = cs \<and> filter pv_claimed ps = [] \<and>
    (\<forall>c \<in> set cs. self_key L skRoot (cd_index c) (cd_eph c) (cd_tag c))"
proof (cases "op1 = OpNextSelf")
  case True
  obtain r v where r: "nextSelfEphemeral L skRoot reserve w = (r, v)" by fastforce
  show ?thesis
  proof (cases r)
    case (Inl e)
    with r True assms next_self_fails_marks[of L skRoot reserve MAX_INDEX_ROLL w e w'] show ?thesis
      by (simp add: nextSelfEphemeral_def)
  next
    case (Inr cr)
    obtain c ref where cr: "cr = (c, ref)" by fastforce
    with r Inr True assms have "cs = [c]" "nextSelfEphemeral L skRoot reserve w = (Inr (c, ref), w')" by simp_all
    with next_self_issued[of L skRoot reserve MAX_INDEX_ROLL w c ref w'] show ?thesis
      by (auto simp: nextSelfEphemeral_def)
  qed
next
  case False
  with assms restore_marks[of L skRoot reserve highWater _ w] show ?thesis by (cases op1) auto
qed

section \<open>The invariant\<close>

lemma inv_with_marks:
  assumes "mint_inv y" "filter pv_claimed ps = []"
  shows "mint_inv (with_marks (ms_marks (my_mint y) @ ps) y)"
proof -
  let ?m = "(my_mint y)\<lparr>ms_marks := ms_marks (my_mint y) @ ps\<rparr>"
  have "authorised ?m + used ?m + claimed (my_mint y) \<subseteq># authorised (my_mint y) + used (my_mint y) + claimed ?m"
    by (simp add: authorised_def used_def claimed_def assms(2))
  from inv_mint[OF assms(1) this] show ?thesis by (simp add: with_marks_def)
qed

definition wallet_inv ::
  "note_lib \<Rightarrow> fr \<Rightarrow> ('c \<Rightarrow> string \<Rightarrow> int) \<Rightarrow> 'c wallet_system \<Rightarrow> bool"
where
  "wallet_inv L skRoot highWater y \<longleftrightarrow> mint_inv (ws_mint y) \<and> mark_objects (my_mint (ws_mint y)) = ws_issued y \<and>
     sorted_wrt (<) (map cd_index (ws_issued y)) \<and>
     (\<forall>c \<in> set (ws_issued y). cd_index c < highWater (kw_counter (ws_keys y)) SELF_EPH_SCOPE \<and>
        self_key L skRoot (cd_index c) (cd_eph c) (cd_tag c))"

context counter_store
begin

lemma wallet_step_inv:
  assumes "wallet_step L skRoot reserve highWater y z" "inv (kw_counter (ws_keys y))" "wallet_inv L skRoot highWater y"
    and "scope_ok SELF_EPH_SCOPE"
  shows "inv (kw_counter (ws_keys z)) \<and> wallet_inv L skRoot highWater z"
  using assms(1)
proof cases
  case (keys op1 cs w)
  let ?w = "(ws_keys y)\<lparr>kw_marks := ms_marks (my_mint (ws_mint y))\<rparr>"
  obtain ps where ps: "kw_marks w = ms_marks (my_mint (ws_mint y)) @ ps" "map candidate_of ps = cs"
    "filter pv_claimed ps = []" "\<forall>c \<in> set cs. self_key L skRoot (cd_index c) (cd_eph c) (cd_tag c)"
    using key_step_marks[OF keys(2)] by auto
  have k: "inv (kw_counter w)"
    "highWater (kw_counter (ws_keys y)) SELF_EPH_SCOPE \<le> highWater (kw_counter w) SELF_EPH_SCOPE"
    using key_step_keeps[of ?w L skRoot op1 SELF_EPH_SCOPE] assms(2) keys(2) by simp_all
  have m: "mint_inv (with_marks (kw_marks w) (ws_mint y))"
    using inv_with_marks[OF _ ps(3)] assms(3) by (simp add: ps(1) wallet_inv_def)
  have o: "mark_objects (my_mint (with_marks (kw_marks w) (ws_mint y))) = ws_issued y @ cs"
    using assms(3) by (simp add: mark_objects_def with_marks_def ps(1,2) wallet_inv_def)
  have i: "cs = [] \<or> (\<exists>c. cs = [c] \<and> highWater (kw_counter (ws_keys y)) SELF_EPH_SCOPE \<le> cd_index c \<and>
      cd_index c < highWater (kw_counter w) SELF_EPH_SCOPE)"
  proof (cases cs)
    case (Cons c cs')
    with key_step_index[OF _ assms(4) keys(2), of c] assms(2) show ?thesis by auto
  qed simp
  with m o k ps(4) assms(3) show ?thesis
    unfolding keys(1) wallet_inv_def by (fastforce simp: sorted_wrt_append)
next
  case (mint z')
  with step_mint_inv[OF mint(2)] assms(2,3) show ?thesis by (simp add: wallet_inv_def)
qed

lemma wallet_reach_inv:
  assumes "wallet_reach L skRoot reserve highWater w y" "inv (kw_counter w)" "scope_ok SELF_EPH_SCOPE"
  shows "inv (kw_counter (ws_keys y)) \<and> wallet_inv L skRoot highWater y"
  using assms(1)
proof (induction rule: rtranclp_induct)
  case base
  have "mint_inv mint_init" by (rule reach_mint_inv[of L]) simp
  then show ?case using assms(2) by (simp add: wallet_init_def wallet_inv_def mark_objects_def mint_init_def)
next
  case (step y z)
  with wallet_step_inv[OF step.hyps(2)] assms(3) show ?case by blast
qed

text \<open>Whatever is consumed was issued at an index of its own.\<close>

lemma consumed_distinct:
  assumes "wallet_reach L skRoot reserve highWater w y" "inv (kw_counter w)" "scope_ok SELF_EPH_SCOPE"
  shows "distinct (map cd_index (ms_consumed (my_mint (ws_mint y)))) \<and>
    (\<forall>c \<in> set (ms_consumed (my_mint (ws_mint y))). self_key L skRoot (cd_index c) (cd_eph c) (cd_tag c))"
proof -
  let ?m = "my_mint (ws_mint y)"
  have i: "wallet_inv L skRoot highWater y" using wallet_reach_inv[OF assms] by simp
  have "used ?m \<subseteq># claimed ?m"
    using i unfolding wallet_inv_def mint_inv_def by (metis mset_subset_eq_add_right subset_mset.order_trans)
  with claimed_marked have "mset (ms_consumed ?m) \<subseteq># mset (ws_issued y)"
    using i by (metis used_def marked_def mark_objects_def wallet_inv_def subset_mset.order_trans)
  moreover have "distinct (map cd_index (ws_issued y))"
    using i by (simp add: wallet_inv_def strict_sorted_iff)
  ultimately show ?thesis
    using i distinct_submset set_mset_mono unfolding wallet_inv_def by (metis (no_types, lifting) set_mset_mset subsetD)
qed

end

section \<open>Runs of the preflights within a run of the wallet\<close>

lemma list_update_same_image: "i < length xs \<Longrightarrow> f x = f (xs ! i) \<Longrightarrow> map f (xs[i := x]) = map f xs"
  by (simp add: map_update list_update_same_conv)

lemma claim_objects:
  assumes "claim_candidate L cx ref o1 m = (r, m')"
  shows "mark_objects m' = mark_objects m"
proof -
  obtain q ms where q: "claimDerivedSelfMintCandidate ref o1 (sx_ownerCommitment cx) (ms_marks m) = (q, ms)" by fastforce
  have "map candidate_of ms = map candidate_of (ms_marks m)"
    using claimDerived_cases[OF q] by (auto simp: list_update_same_image candidate_of_def)
  then show ?thesis using assms q by (auto simp: claim_candidate_def mark_objects_def)
qed

text \<open>Steps add marks, and only marking does.\<close>

lemma step_objects: "mint_step L y z \<Longrightarrow> \<exists>xs. mark_objects (my_mint z) = mark_objects (my_mint y) @ xs"
proof (induction rule: mint_step.induct)
  case (mark c m j own y marks)
  then show ?case by (auto simp: markDerivedSelfMintCandidate_def mark_objects_def)
next
  case (issue i y p c cs cx r m)
  then show ?case by (auto simp: issueAuthorization_def mark_objects_def split: sum.splits)
next
  case (consume hs cx y r m)
  then show ?case
    by (auto simp: consumeSelfMints_def mark_objects_def Let_def split: sum.splits if_splits)
qed (auto simp: claim_objects)

lemma runs_objects: "runs L y z \<Longrightarrow> \<exists>xs. mark_objects (my_mint z) = mark_objects (my_mint y) @ xs"
proof (induction rule: rtranclp_induct)
  case (step y' z)
  with step_objects[OF step.hyps(2)] show ?case by auto
qed simp

lemma wallet_runs:
  assumes "runs L (ws_mint y) z" "mark_objects (my_mint z) = mark_objects (my_mint (ws_mint y))"
  shows "(wallet_step L skRoot reserve highWater)\<^sup>*\<^sup>* y (y\<lparr>ws_mint := z\<rparr>)"
  using assms
proof (induction rule: rtranclp_induct)
  case base
  then show ?case by simp
next
  case (step u z)
  obtain xs where xs: "mark_objects (my_mint u) = mark_objects (my_mint (ws_mint y)) @ xs"
    using runs_objects[OF step.hyps(1)] by blast
  obtain zs where zs: "mark_objects (my_mint z) = mark_objects (my_mint u) @ zs"
    using step_objects[OF step.hyps(2)] by blast
  with xs step.prems have e: "mark_objects (my_mint u) = mark_objects (my_mint (ws_mint y))" by simp
  have "wallet_step L skRoot reserve highWater (y\<lparr>ws_mint := u\<rparr>) (y\<lparr>ws_mint := z\<rparr>)"
    using wallet_step.mint[of L "y\<lparr>ws_mint := u\<rparr>" z skRoot reserve highWater] step.hyps(2) step.prems e by simp
  with step.IH[OF e] show ?case by simp
qed

end
