(* ===== verification/Assemble.thy ===== *)
theory Assemble
  imports Mint_Protocol
begin

text \<open>
  The assembly of a transaction's witness, \<^verbatim>\<open>wallets/src/tx/assemble.ts\<close>, with the witness types of
  \<^verbatim>\<open>tx/protocol.ts\<close>. An assembly is an action on the state of the preflight, because it consumes the
  authorisations it is given; the source of Merkle witnesses is a function in the context.
\<close>

section \<open>Requests and witnesses\<close>

record SpendableNote =
  sp_note :: ProverNoteInput
  sp_leaf :: fr
  sp_leafIndex :: int
  sp_spendScalar :: fr

record AssemblyContext =
  ax_compliancePk :: point
  ax_complianceVersion :: int
  ax_complianceHistory :: CompleteComplianceHistory
  ax_chainId :: int
  ax_poolAddress :: string
  ax_deploymentAnchor :: int
  ax_witnessFor :: "fr \<Rightarrow> wallet_error + MerkleWitness"

record DepositWitness =
  dw_compliancePk :: point
  dw_note :: ProverNoteInput
  dw_eph :: fr

record WithdrawWitness =
  ww_withdrawValue :: fr
  ww_recipient :: fr
  ww_intentHash :: fr
  ww_compliancePk :: point
  ww_oldNote :: ProverNoteInput
  ww_spendScalar :: fr
  ww_oldNoteIndex :: int
  ww_oldNotePath :: "fr list"
  ww_changeNote :: ProverNoteInput
  ww_changeEph :: fr

record TransferWitness =
  tw_compliancePk :: point
  tw_recipientInPub :: point
  tw_oldNote :: ProverNoteInput
  tw_spendScalar :: fr
  tw_oldNoteIndex :: int
  tw_oldNotePath :: "fr list"
  tw_memoNote :: ProverNoteInput
  tw_memoEph :: fr
  tw_changeNote :: ProverNoteInput
  tw_changeEph :: fr

record SplitWitness =
  sw_compliancePk :: point
  sw_noteIn :: ProverNoteInput
  sw_spendScalar :: fr
  sw_indexIn :: int
  sw_pathIn :: "fr list"
  sw_noteOut1 :: ProverNoteInput
  sw_eph1 :: fr
  sw_noteOut2 :: ProverNoteInput
  sw_eph2 :: fr

record JoinWitness =
  jw_compliancePk :: point
  jw_noteA :: ProverNoteInput
  jw_spendScalarA :: fr
  jw_indexA :: int
  jw_pathA :: "fr list"
  jw_noteB :: ProverNoteInput
  jw_spendScalarB :: fr
  jw_indexB :: int
  jw_pathB :: "fr list"
  jw_noteOut :: ProverNoteInput
  jw_ephOut :: fr

section \<open>Opening a spend\<close>

record opened =
  op_index :: int
  op_path :: "fr list"
  op_root :: fr

definition openSpend :: "AssemblyContext \<Rightarrow> SpendableNote \<Rightarrow> wallet_error + opened" where
  "openSpend cx inp = ebind (ax_witnessFor cx (sp_leaf inp)) (\<lambda>w.
     if int (w_leafIndex w) \<noteq> sp_leafIndex inp then Inl (AssemblyError MERKLE_INDEX_MISMATCH)
     else Inr \<lparr>op_index = int (w_leafIndex w), op_path = w_siblings w, op_root = w_root w\<rparr>)"

definition assertPositive :: "int \<Rightarrow> wallet_error + unit" where
  "assertPositive v = (if v < 0 then Inl (AssemblyError NEGATIVE_VALUE) else Inr ())"

definition selfMintContext :: "AssemblyContext \<Rightarrow> fr \<Rightarrow> SelfMintContext" where
  "selfMintContext cx ownerCommitment = \<lparr>sx_ownerCommitment = ownerCommitment, sx_compliancePk = ax_compliancePk cx,
     sx_complianceVersion = ax_complianceVersion cx, sx_complianceHistory = ax_complianceHistory cx,
     sx_chainId = ax_chainId cx, sx_poolAddress = ax_poolAddress cx, sx_deploymentAnchor = ax_deploymentAnchor cx\<rparr>"

text \<open>The owner's commitment, then the authorisations consumed for it: what every assembly does before it mints.\<close>

definition consume_for ::
  "note_lib \<Rightarrow> AssemblyContext \<Rightarrow> fr \<Rightarrow> handle list \<Rightarrow> (mint_state, wallet_error, candidate list) action"
where
  "consume_for L cx selfSpendScalar handles =
     sbind (slift (pubkeyOwner L (publicKey L selfSpendScalar))) (\<lambda>ownerCommitment.
       consumeSelfMints handles (selfMintContext cx ownerCommitment))"

section \<open>The five assemblies\<close>

definition assembleDeposit ::
  "note_lib \<Rightarrow> AssemblyContext \<Rightarrow> int \<Rightarrow> fr \<Rightarrow> fr \<Rightarrow> handle \<Rightarrow>
   (mint_state, wallet_error, DepositWitness \<times> MintedNote) action"
where
  "assembleDeposit L cx v asset spendScalar selfMint =
     sbind (slift (assertPositive v)) (\<lambda>_.
     sbind (consume_for L cx spendScalar [selfMint]) (\<lambda>mints. let mint = mints ! 0 in
     sbind (slift (mintSelfNote L (cd_eph mint) v spendScalar asset (ax_compliancePk cx) 0)) (\<lambda>minted.
       sret (\<lparr>dw_compliancePk = ax_compliancePk cx, dw_note = mn_note minted, dw_eph = cd_eph mint\<rparr>, minted))))"

definition assembleWithdraw ::
  "note_lib \<Rightarrow> AssemblyContext \<Rightarrow> SpendableNote \<Rightarrow> int \<Rightarrow> fr \<Rightarrow> fr \<Rightarrow> handle \<Rightarrow> fr option \<Rightarrow>
   (mint_state, wallet_error, WithdrawWitness \<times> MintedNote \<times> fr) action"
where
  "assembleWithdraw L cx inp v recipient selfSpendScalar changeMint intentHash =
     sbind (slift (openSpend cx inp)) (\<lambda>spend.
     let changeValue = int (pn_value (sp_note inp)) - v in
     sbind (slift (assertPositive changeValue)) (\<lambda>_.
     sbind (consume_for L cx selfSpendScalar [changeMint]) (\<lambda>mints. let mint = mints ! 0 in
     sbind (slift (packParents (op_index spend) 0)) (\<lambda>prnts.
     sbind (slift (mintSelfNote L (cd_eph mint) changeValue selfSpendScalar (pn_assetId (sp_note inp))
       (ax_compliancePk cx) prnts)) (\<lambda>change.
     sbind (slift (toFr v)) (\<lambda>fv.
       sret (\<lparr>ww_withdrawValue = fv, ww_recipient = recipient,
         ww_intentHash = (case intentHash of None \<Rightarrow> 0 | Some h \<Rightarrow> h), ww_compliancePk = ax_compliancePk cx,
         ww_oldNote = sp_note inp, ww_spendScalar = sp_spendScalar inp, ww_oldNoteIndex = op_index spend,
         ww_oldNotePath = op_path spend, ww_changeNote = mn_note change, ww_changeEph = cd_eph mint\<rparr>,
         change, op_root spend)))))))"

definition assembleTransfer ::
  "note_lib \<Rightarrow> AssemblyContext \<Rightarrow> SpendableNote \<Rightarrow> int \<Rightarrow> point \<Rightarrow> fr \<Rightarrow> fr \<Rightarrow> fr \<Rightarrow> handle \<Rightarrow>
   (mint_state, wallet_error, TransferWitness \<times> MintedNote \<times> MintedNote \<times> fr) action"
where
  "assembleTransfer L cx inp v recipientInPub recipientInKey selfSpendScalar memoEph changeMint =
     sbind (slift (openSpend cx inp)) (\<lambda>spend.
     let changeValue = int (pn_value (sp_note inp)) - v in
     sbind (slift (assertPositive changeValue)) (\<lambda>_.
     sbind (consume_for L cx selfSpendScalar [changeMint]) (\<lambda>mints. let mint = mints ! 0 in
     sbind (slift (mintIncomingNote L memoEph v recipientInPub recipientInKey (pn_assetId (sp_note inp))
       (ax_compliancePk cx) PARENTS_HIDDEN)) (\<lambda>memo.
     sbind (slift (packParents (op_index spend) 0)) (\<lambda>prnts.
     sbind (slift (mintSelfNote L (cd_eph mint) changeValue selfSpendScalar (pn_assetId (sp_note inp))
       (ax_compliancePk cx) prnts)) (\<lambda>change.
       sret (\<lparr>tw_compliancePk = ax_compliancePk cx, tw_recipientInPub = recipientInPub, tw_oldNote = sp_note inp,
         tw_spendScalar = sp_spendScalar inp, tw_oldNoteIndex = op_index spend, tw_oldNotePath = op_path spend,
         tw_memoNote = mn_note memo, tw_memoEph = memoEph, tw_changeNote = mn_note change,
         tw_changeEph = cd_eph mint\<rparr>, memo, change, op_root spend)))))))"

definition assembleSplit ::
  "note_lib \<Rightarrow> AssemblyContext \<Rightarrow> SpendableNote \<Rightarrow> int \<Rightarrow> fr \<Rightarrow> handle \<Rightarrow> handle \<Rightarrow>
   (mint_state, wallet_error, SplitWitness \<times> MintedNote \<times> MintedNote \<times> fr) action"
where
  "assembleSplit L cx inp value1 selfSpendScalar mint1 mint2 =
     sbind (slift (openSpend cx inp)) (\<lambda>spend.
     let value2 = int (pn_value (sp_note inp)) - value1 in
     sbind (slift (assertPositive value1)) (\<lambda>_.
     sbind (slift (assertPositive value2)) (\<lambda>_.
     sbind (consume_for L cx selfSpendScalar [mint1, mint2]) (\<lambda>mints.
     sbind (slift (packParents (op_index spend) 0)) (\<lambda>prnts.
     sbind (slift (mintSelfNote L (cd_eph (mints ! 0)) value1 selfSpendScalar (pn_assetId (sp_note inp))
       (ax_compliancePk cx) prnts)) (\<lambda>out1.
     sbind (slift (mintSelfNote L (cd_eph (mints ! 1)) value2 selfSpendScalar (pn_assetId (sp_note inp))
       (ax_compliancePk cx) prnts)) (\<lambda>out2.
       sret (\<lparr>sw_compliancePk = ax_compliancePk cx, sw_noteIn = sp_note inp, sw_spendScalar = sp_spendScalar inp,
         sw_indexIn = op_index spend, sw_pathIn = op_path spend, sw_noteOut1 = mn_note out1,
         sw_eph1 = cd_eph (mints ! 0), sw_noteOut2 = mn_note out2, sw_eph2 = cd_eph (mints ! 1)\<rparr>,
         out1, out2, op_root spend))))))))"

definition assembleJoin ::
  "note_lib \<Rightarrow> AssemblyContext \<Rightarrow> SpendableNote \<Rightarrow> SpendableNote \<Rightarrow> fr \<Rightarrow> handle \<Rightarrow>
   (mint_state, wallet_error, JoinWitness \<times> MintedNote \<times> fr) action"
where
  "assembleJoin L cx inputA inputB selfSpendScalar mint =
     (if sp_leafIndex inputA = sp_leafIndex inputB then sthrow (AssemblyError JOIN_SELF)
      else let lo = (if sp_leafIndex inputA < sp_leafIndex inputB then inputA else inputB);
               hi = (if sp_leafIndex inputA < sp_leafIndex inputB then inputB else inputA) in
        if pn_assetId (sp_note lo) \<noteq> pn_assetId (sp_note hi) then sthrow (AssemblyError JOIN_ASSET_MISMATCH)
        else sbind (slift (openSpend cx lo)) (\<lambda>a.
             sbind (slift (openSpend cx hi)) (\<lambda>b.
               if op_root a \<noteq> op_root b then sthrow (AssemblyError JOIN_ROOT_MISMATCH)
               else let total = int (pn_value (sp_note lo)) + int (pn_value (sp_note hi)) in
                 sbind (consume_for L cx selfSpendScalar [mint]) (\<lambda>mints.
                 sbind (slift (packParents (op_index a) (op_index b))) (\<lambda>prnts.
                 sbind (slift (mintSelfNote L (cd_eph (mints ! 0)) total selfSpendScalar (pn_assetId (sp_note lo))
                   (ax_compliancePk cx) prnts)) (\<lambda>out.
                   sret (\<lparr>jw_compliancePk = ax_compliancePk cx, jw_noteA = sp_note lo, jw_spendScalarA = sp_spendScalar lo,
                     jw_indexA = op_index a, jw_pathA = op_path a, jw_noteB = sp_note hi,
                     jw_spendScalarB = sp_spendScalar hi, jw_indexB = op_index b, jw_pathB = op_path b,
                     jw_noteOut = mn_note out, jw_ephOut = cd_eph (mints ! 0)\<rparr>, out, op_root a)))))))"

section \<open>What a success says\<close>

lemma sbind_slift_Inr: "sbind (slift r) f s = (Inr y, s') \<longleftrightarrow> (\<exists>x. r = Inr x \<and> f x s = (Inr y, s'))"
  by (cases r) (simp_all add: sbind_def slift_def)

lemma openSpend_Inr:
  "openSpend cx inp = Inr sp \<Longrightarrow> op_index sp = sp_leafIndex inp \<and>
    (\<exists>w. ax_witnessFor cx (sp_leaf inp) = Inr w \<and> op_path sp = w_siblings w \<and> op_root sp = w_root w)"
  by (auto simp: openSpend_def split: if_splits)

text \<open>A self note an assembly returns: its value, asset, owner, parents and ephemeral.\<close>

definition self_output ::
  "note_lib \<Rightarrow> point \<Rightarrow> fr \<Rightarrow> int \<Rightarrow> fr \<Rightarrow> fr \<Rightarrow> fr \<Rightarrow> MintedNote \<Rightarrow> bool"
where
  "self_output L pk eph v asset selfSpendScalar prnts mn \<longleftrightarrow> mn_eph mn = eph \<and>
     int (pn_value (mn_note mn)) = v \<and> v < 2 ^ 128 \<and> pn_assetId (mn_note mn) = asset \<and>
     pubkeyOwner L (publicKey L selfSpendScalar) = Inr (pn_owner (mn_note mn)) \<and> pn_parents (mn_note mn) = prnts \<and>
     pn_noteType (mn_note mn) = NOTE_TYPE_STANDARD \<and> deriveCek L eph pk = Inr (mn_cek mn) \<and>
     mn_commitment mn = poseidon2Hash L [pn_noteVersion (mn_note mn), asset, pn_noteType (mn_note mn),
       pn_conditionsHash (mn_note mn), pn_value (mn_note mn), pn_owner (mn_note mn), pn_psi (mn_note mn), prnts]"

lemma mintSelfNote_Inr:
  assumes "mintSelfNote L eph v sk asset pk prnts = Inr mn"
  shows "self_output L pk eph v asset sk prnts mn"
proof -
  obtain own where "pubkeyOwner L (publicKey L sk) = Inr own" "finish L eph v own asset sk prnts pk = Inr mn"
    using assms by (auto simp: mintSelfNote_def)
  with finish_Inr[OF this(2)] show ?thesis by (simp add: self_output_def)
qed

lemma mintIncomingNote_Inr:
  assumes "mintIncomingNote L eph v inPub ik asset pk prnts = Inr mn"
  shows "int (pn_value (mn_note mn)) = v" "v < 2 ^ 128" "pn_assetId (mn_note mn) = asset" "pn_parents (mn_note mn) = prnts"
    "pubkeyOwner L inPub = Inr (pn_owner (mn_note mn))" "int (mn_tag mn) = fst inPub" "mn_inPub mn = Some inPub"
proof -
  obtain own built w tag where b: "pubkeyOwner L inPub = Inr own" "finish L eph v own asset ik prnts pk = Inr built"
    "mn = built\<lparr>mn_inPub := Some inPub, mn_cekWrap := Some w, mn_tag := tag\<rparr>" "new_Fr (fst inPub) = Inr tag"
    using assms by (auto simp: mintIncomingNote_def)
  show "int (pn_value (mn_note mn)) = v" "v < 2 ^ 128" "pn_assetId (mn_note mn) = asset" "pn_parents (mn_note mn) = prnts"
    "pubkeyOwner L inPub = Inr (pn_owner (mn_note mn))" "int (mn_tag mn) = fst inPub" "mn_inPub mn = Some inPub"
    using finish_Inr[OF b(2)] b(1,4) by (simp_all add: b(3) new_Fr_Inr)
qed

lemma consumeSelfMints_Inr:
  assumes "consumeSelfMints hs cx s = (Inr cs, s')"
  shows "length cs = length hs" "ms_consumed s' = ms_consumed s @ cs" "length hs = 2 \<Longrightarrow> cd_eph (cs ! 0) \<noteq> cd_eph (cs ! 1)"
proof -
  obtain sts where f: "find_states (ms_auths s) cx hs = Inr sts" "cs = map (\<lambda>(i, a). au_candidate a) sts"
    "ms_consumed s' = ms_consumed s @ cs" "\<not> (length sts = 2 \<and> cd_eph (cs ! 0) = cd_eph (cs ! 1))"
    using assms by (auto simp: consumeSelfMints_def Let_def split: if_splits sum.splits)
  have "length sts = length hs" using find_states_Inr[OF f(1)] by (metis length_map)
  with f show "length cs = length hs" "ms_consumed s' = ms_consumed s @ cs"
    "length hs = 2 \<Longrightarrow> cd_eph (cs ! 0) \<noteq> cd_eph (cs ! 1)" by auto
qed

lemma consume_for_Inr:
  assumes "consume_for L cx sk hs s = (Inr cs, s')"
  shows "length cs = length hs" "ms_consumed s' = ms_consumed s @ cs" "length hs = 2 \<Longrightarrow> cd_eph (cs ! 0) \<noteq> cd_eph (cs ! 1)"
proof -
  obtain own where "consumeSelfMints hs (selfMintContext cx own) s = (Inr cs, s')"
    using assms by (auto simp: consume_for_def sbind_slift_Inr)
  from consumeSelfMints_Inr[OF this] show "length cs = length hs" "ms_consumed s' = ms_consumed s @ cs"
    "length hs = 2 \<Longrightarrow> cd_eph (cs ! 0) \<noteq> cd_eph (cs ! 1)" by auto
qed

section \<open>The five as one operation\<close>

text \<open>A request, and what its witness says goes in and out: the public amounts, the notes spent with the leaf
  index they are opened at, the note paid to someone else and the self notes with their ephemerals.\<close>

datatype assembly_request =
    Deposit int fr fr handle
  | Withdraw SpendableNote int fr fr handle "fr option"
  | Transfer SpendableNote int point fr fr fr handle
  | Split SpendableNote int fr handle handle
  | Join SpendableNote SpendableNote fr handle

record transaction =
  tx_publicIn :: int
  tx_publicOut :: int
  tx_spent :: "(ProverNoteInput \<times> int) list"
  tx_memo :: "ProverNoteInput option"
  tx_outs :: "(ProverNoteInput \<times> fr) list"

fun assemble :: "note_lib \<Rightarrow> AssemblyContext \<Rightarrow> assembly_request \<Rightarrow> (mint_state, wallet_error, transaction) action" where
  "assemble L cx (Deposit v asset sk h) = sbind (assembleDeposit L cx v asset sk h) (\<lambda>(w, mn).
     sret \<lparr>tx_publicIn = v, tx_publicOut = 0, tx_spent = [], tx_memo = None, tx_outs = [(dw_note w, dw_eph w)]\<rparr>)"
| "assemble L cx (Withdraw inp v rec sk h ih) = sbind (assembleWithdraw L cx inp v rec sk h ih) (\<lambda>(w, mn, root).
     sret \<lparr>tx_publicIn = 0, tx_publicOut = int (ww_withdrawValue w), tx_spent = [(ww_oldNote w, ww_oldNoteIndex w)],
       tx_memo = None, tx_outs = [(ww_changeNote w, ww_changeEph w)]\<rparr>)"
| "assemble L cx (Transfer inp v inPub inKey sk memoEph h) =
     sbind (assembleTransfer L cx inp v inPub inKey sk memoEph h) (\<lambda>(w, memo, mn, root).
     sret \<lparr>tx_publicIn = 0, tx_publicOut = 0, tx_spent = [(tw_oldNote w, tw_oldNoteIndex w)],
       tx_memo = Some (tw_memoNote w), tx_outs = [(tw_changeNote w, tw_changeEph w)]\<rparr>)"
| "assemble L cx (Split inp v1 sk h1 h2) = sbind (assembleSplit L cx inp v1 sk h1 h2) (\<lambda>(w, mn1, mn2, root).
     sret \<lparr>tx_publicIn = 0, tx_publicOut = 0, tx_spent = [(sw_noteIn w, sw_indexIn w)],
       tx_memo = None, tx_outs = [(sw_noteOut1 w, sw_eph1 w), (sw_noteOut2 w, sw_eph2 w)]\<rparr>)"
| "assemble L cx (Join a b sk h) = sbind (assembleJoin L cx a b sk h) (\<lambda>(w, mn, root).
     sret \<lparr>tx_publicIn = 0, tx_publicOut = 0, tx_spent = [(jw_noteA w, jw_indexA w), (jw_noteB w, jw_indexB w)],
       tx_memo = None, tx_outs = [(jw_noteOut w, jw_ephOut w)]\<rparr>)"

fun request_scalar :: "assembly_request \<Rightarrow> fr" where
  "request_scalar (Deposit v asset sk h) = sk"
| "request_scalar (Withdraw inp v rec sk h ih) = sk"
| "request_scalar (Transfer inp v inPub inKey sk memoEph h) = sk"
| "request_scalar (Split inp v1 sk h1 h2) = sk"
| "request_scalar (Join a b sk h) = sk"

fun request_inputs :: "assembly_request \<Rightarrow> SpendableNote list" where
  "request_inputs (Deposit v asset sk h) = []"
| "request_inputs (Withdraw inp v rec sk h ih) = [inp]"
| "request_inputs (Transfer inp v inPub inKey sk memoEph h) = [inp]"
| "request_inputs (Split inp v1 sk h1 h2) = [inp]"
| "request_inputs (Join a b sk h) = (if sp_leafIndex a < sp_leafIndex b then [a, b] else [b, a])"

definition notes_value :: "(ProverNoteInput \<times> 'b) list \<Rightarrow> int" where
  "notes_value ns = sum_list (map (\<lambda>(n, _). int (pn_value n)) ns)"

definition balanced :: "transaction \<Rightarrow> bool" where
  "balanced tx \<longleftrightarrow> tx_publicIn tx + notes_value (tx_spent tx) =
     tx_publicOut tx + (case tx_memo tx of None \<Rightarrow> 0 | Some n \<Rightarrow> int (pn_value n)) + notes_value (tx_outs tx)"

definition one_asset :: "transaction \<Rightarrow> bool" where
  "one_asset tx \<longleftrightarrow> (\<exists>a. \<forall>n \<in> fst ` set (tx_spent tx) \<union> set_option (tx_memo tx) \<union> fst ` set (tx_outs tx). pn_assetId n = a)"

text \<open>What the parents of the self notes name: the leaves spent, the second slot being zero when there is one.\<close>

fun parents_of :: "int list \<Rightarrow> wallet_error + fr" where
  "parents_of [] = Inr 0"
| "parents_of [i] = packParents i 0"
| "parents_of (i # j # js) = packParents i j"

definition outs_ok :: "note_lib \<Rightarrow> fr \<Rightarrow> transaction \<Rightarrow> bool" where
  "outs_ok L sk tx \<longleftrightarrow> (\<forall>(n, eph) \<in> set (tx_outs tx). pubkeyOwner L (publicKey L sk) = Inr (pn_owner n) \<and>
     parents_of (map snd (tx_spent tx)) = Inr (pn_parents n) \<and> int (pn_value n) < 2 ^ 128)"

lemma length_1_nth: "length xs = Suc 0 \<Longrightarrow> [xs ! 0] = xs"
  by (cases xs) auto

lemma length_2_nth: "length xs = 2 \<Longrightarrow> [xs ! 0, xs ! Suc 0] = xs"
  by (cases xs; cases "tl xs") auto

lemma slift_Inr: "slift r s = (Inr x, s') \<longleftrightarrow> r = Inr x \<and> s' = s"
  by (auto simp: slift_def)

lemmas tx_simps = slift_Inr sbind_Inr_iff sret_def balanced_def one_asset_def outs_ok_def notes_value_def Let_def

definition recipient_of :: "assembly_request \<Rightarrow> (point \<times> int) option" where
  "recipient_of req = (case req of Transfer inp v inPub inKey sk memoEph h \<Rightarrow> Some (inPub, v) | _ \<Rightarrow> None)"

text \<open>What every successful assembly guarantees.\<close>

definition tx_ok :: "note_lib \<Rightarrow> assembly_request \<Rightarrow> mint_state \<Rightarrow> transaction \<Rightarrow> mint_state \<Rightarrow> bool" where
  "tx_ok L req s tx s' \<longleftrightarrow> balanced tx \<and> one_asset tx \<and> outs_ok L (request_scalar req) tx \<and>
     tx_spent tx = map (\<lambda>i. (sp_note i, sp_leafIndex i)) (request_inputs req) \<and>
     distinct (map snd (tx_outs tx)) \<and> 0 \<le> tx_publicIn tx \<and> 0 \<le> tx_publicOut tx \<and>
     (\<exists>cs. ms_consumed s' = ms_consumed s @ cs \<and> map cd_eph cs = map snd (tx_outs tx)) \<and>
     (case (tx_memo tx, recipient_of req) of
        (None, None) \<Rightarrow> True
      | (Some n, Some (inPub, v)) \<Rightarrow> int (pn_value n) = v \<and> pubkeyOwner L inPub = Inr (pn_owner n) \<and>
          pn_parents n = PARENTS_HIDDEN
      | _ \<Rightarrow> False)"

lemma self_output_out:
  assumes "mintSelfNote L eph v sk asset pk prnts = Inr mn"
  shows "int (pn_value (mn_note mn)) = v" "v < 2 ^ 128" "pn_assetId (mn_note mn) = asset"
    "pubkeyOwner L (publicKey L sk) = Inr (pn_owner (mn_note mn))" "pn_parents (mn_note mn) = prnts"
  using mintSelfNote_Inr[OF assms] by (simp_all add: self_output_def)

lemma consumed_one:
  assumes "consume_for L cx sk [h] s = (Inr cs, s')"
  shows "\<exists>ds. ms_consumed s' = ms_consumed s @ ds \<and> map cd_eph ds = [cd_eph (cs ! 0)]"
  using consume_for_Inr(1,2)[OF assms] length_1_nth[of cs] by (metis length_Cons list.size(3) list.simps(8,9))

lemma deposit_ok:
  assumes "assemble L cx (Deposit v asset sk h) s = (Inr tx, s')"
  shows "tx_ok L (Deposit v asset sk h) s tx s'"
proof -
  obtain cs mn where a: "consume_for L cx sk [h] s = (Inr cs, s')" "0 \<le> v"
    "mintSelfNote L (cd_eph (cs ! 0)) v sk asset (ax_compliancePk cx) 0 = Inr mn"
    "tx = \<lparr>tx_publicIn = v, tx_publicOut = 0, tx_spent = [], tx_memo = None, tx_outs = [(mn_note mn, cd_eph (cs ! 0))]\<rparr>"
    using assms by (auto simp: assembleDeposit_def tx_simps assertPositive_def split: if_splits)
  with self_output_out[OF a(3)] consumed_one[OF a(1)] show ?thesis
    by (simp add: tx_ok_def tx_simps recipient_of_def)
qed

lemma withdraw_ok:
  assumes "assemble L cx (Withdraw inp v rec sk h ih) s = (Inr tx, s')"
  shows "tx_ok L (Withdraw inp v rec sk h ih) s tx s'"
proof -
  obtain sp cs prnts mn fv where a: "openSpend cx inp = Inr sp" "consume_for L cx sk [h] s = (Inr cs, s')"
    "packParents (op_index sp) 0 = Inr prnts"
    "mintSelfNote L (cd_eph (cs ! 0)) (int (pn_value (sp_note inp)) - v) sk (pn_assetId (sp_note inp))
       (ax_compliancePk cx) prnts = Inr mn" "toFr v = Inr fv"
    "tx = \<lparr>tx_publicIn = 0, tx_publicOut = int fv, tx_spent = [(sp_note inp, op_index sp)], tx_memo = None,
       tx_outs = [(mn_note mn, cd_eph (cs ! 0))]\<rparr>"
    using assms by (auto simp: assembleWithdraw_def tx_simps)
  then have "int fv = v" "op_index sp = sp_leafIndex inp"
    using openSpend_Inr[OF a(1)] by (simp_all add: toFr_def new_Fr_Inr)
  with a self_output_out[OF a(4)] consumed_one[OF a(2)] show ?thesis
    by (simp add: tx_ok_def tx_simps recipient_of_def)
qed

lemma transfer_ok:
  assumes "assemble L cx (Transfer inp v inPub inKey sk memoEph h) s = (Inr tx, s')"
  shows "tx_ok L (Transfer inp v inPub inKey sk memoEph h) s tx s'"
proof -
  obtain sp cs memo prnts mn where a: "openSpend cx inp = Inr sp" "consume_for L cx sk [h] s = (Inr cs, s')"
    "mintIncomingNote L memoEph v inPub inKey (pn_assetId (sp_note inp)) (ax_compliancePk cx) PARENTS_HIDDEN = Inr memo"
    "packParents (op_index sp) 0 = Inr prnts"
    "mintSelfNote L (cd_eph (cs ! 0)) (int (pn_value (sp_note inp)) - v) sk (pn_assetId (sp_note inp))
       (ax_compliancePk cx) prnts = Inr mn"
    "tx = \<lparr>tx_publicIn = 0, tx_publicOut = 0, tx_spent = [(sp_note inp, op_index sp)], tx_memo = Some (mn_note memo),
       tx_outs = [(mn_note mn, cd_eph (cs ! 0))]\<rparr>"
    using assms by (auto simp: assembleTransfer_def tx_simps)
  with self_output_out[OF a(5)] mintIncomingNote_Inr[OF a(3)] consumed_one[OF a(2)] openSpend_Inr[OF a(1)]
  show ?thesis by (simp add: tx_ok_def tx_simps recipient_of_def)
qed

lemma split_ok:
  assumes "assemble L cx (Split inp v1 sk h1 h2) s = (Inr tx, s')"
  shows "tx_ok L (Split inp v1 sk h1 h2) s tx s'"
proof -
  obtain sp cs prnts mn1 mn2 where a: "openSpend cx inp = Inr sp" "consume_for L cx sk [h1, h2] s = (Inr cs, s')"
    "packParents (op_index sp) 0 = Inr prnts"
    "mintSelfNote L (cd_eph (cs ! 0)) v1 sk (pn_assetId (sp_note inp)) (ax_compliancePk cx) prnts = Inr mn1"
    "mintSelfNote L (cd_eph (cs ! 1)) (int (pn_value (sp_note inp)) - v1) sk (pn_assetId (sp_note inp))
       (ax_compliancePk cx) prnts = Inr mn2"
    "tx = \<lparr>tx_publicIn = 0, tx_publicOut = 0, tx_spent = [(sp_note inp, op_index sp)], tx_memo = None,
       tx_outs = [(mn_note mn1, cd_eph (cs ! 0)), (mn_note mn2, cd_eph (cs ! 1))]\<rparr>"
    using assms by (auto simp: assembleSplit_def tx_simps)
  note c = consume_for_Inr[OF a(2)]
  have "[cs ! 0, cs ! 1] = cs" using length_2_nth[of cs] c(1) by simp
  then have "map cd_eph cs = [cd_eph (cs ! 0), cd_eph (cs ! 1)]" by (metis list.simps(8,9))
  with a c(2,3) self_output_out[OF a(4)] self_output_out[OF a(5)] openSpend_Inr[OF a(1)] show ?thesis
    by (auto simp: tx_ok_def tx_simps recipient_of_def)
qed

lemma join_ok:
  assumes "assemble L cx (Join inA inB sk h) s = (Inr tx, s')"
  shows "tx_ok L (Join inA inB sk h) s tx s'"
proof -
  let ?lo = "if sp_leafIndex inA < sp_leafIndex inB then inA else inB"
  let ?hi = "if sp_leafIndex inA < sp_leafIndex inB then inB else inA"
  let ?total = "int (pn_value (sp_note ?lo)) + int (pn_value (sp_note ?hi))"
  have as: "pn_assetId (sp_note ?lo) = pn_assetId (sp_note ?hi)"
    using assms by (auto simp: assembleJoin_def tx_simps sthrow_def split: if_splits)
  obtain a b cs prnts mn where a: "openSpend cx ?lo = Inr a" "openSpend cx ?hi = Inr b"
    "consume_for L cx sk [h] s = (Inr cs, s')" "packParents (op_index a) (op_index b) = Inr prnts"
    "mintSelfNote L (cd_eph (cs ! 0)) ?total sk (pn_assetId (sp_note ?lo)) (ax_compliancePk cx) prnts = Inr mn"
    "tx = \<lparr>tx_publicIn = 0, tx_publicOut = 0, tx_spent = [(sp_note ?lo, op_index a), (sp_note ?hi, op_index b)],
       tx_memo = None, tx_outs = [(mn_note mn, cd_eph (cs ! 0))]\<rparr>"
    using assms unfolding assemble.simps assembleJoin_def Let_def
    by (cases "sp_leafIndex inA < sp_leafIndex inB") (auto simp: tx_simps sthrow_def split: if_split_asm)
  have "request_inputs (Join inA inB sk h) = [?lo, ?hi]" by simp
  with a as self_output_out[OF a(5)] consumed_one[OF a(3)] openSpend_Inr[OF a(1)] openSpend_Inr[OF a(2)] show ?thesis
    by (simp add: tx_ok_def tx_simps recipient_of_def del: request_inputs.simps split del: if_split)
qed

lemma assemble_ok: "assemble L cx req s = (Inr tx, s') \<Longrightarrow> tx_ok L req s tx s'"
  by (cases req) (blast intro: deposit_ok withdraw_ok transfer_ok split_ok join_ok)+

end
