(* ===== verification/Note_Demo.thy ===== *)
theory Note_Demo
  imports Note_Record
begin

text \<open>
  A concrete library for the runs of the note layer: a small hash, and the multiplicative action of the
  integers on the residues modulo the subgroup order in place of the curve, with the seventh multiple of the
  base point at a point of BabyJubJub whose y is even. It keeps every law the theorems assume of the library.
\<close>

definition demo_hash :: poseidon where
  "demo_hash xs = Suc (foldl (\<lambda>a x. take_bit 16 (a * 31 + x + 7)) 0 xs)"

definition X0 :: int where
  "X0 = 10000000000000000000000000000000000000000000000000000000000000000000000000000"

definition Y0 :: int where
  "Y0 = 15483963187526415546065883604027663626767048517779524961946229985637756648148"

definition demo_mul :: "point \<Rightarrow> int \<Rightarrow> point" where
  "demo_mul p s = (let k = ((if fst p = X0 then 7 else fst p) * s) mod BJJ_SUBGROUP_ORDER in
     if k = 7 then (X0, Y0) else (k, if k = 0 then 1 else 2))"

definition demo_lib :: note_lib where
  "demo_lib = \<lparr>poseidon2Hash = demo_hash, inCurve = (\<lambda>_. True), mulPointEscalar = demo_mul, Base8 = (1, 2),
     subOrder = BJJ_SUBGROUP_ORDER,
     fromBuffer = (\<lambda>bs. let v = be_value bs in if v < FR_MODULUS \<and> length bs = 32 then Some v else None)\<rparr>"

lemma demo_lib_sel [simp]:
  "poseidon2Hash demo_lib = demo_hash" "inCurve demo_lib p" "mulPointEscalar demo_lib = demo_mul"
  "Base8 demo_lib = (1, 2)" "subOrder demo_lib = BJJ_SUBGROUP_ORDER"
  by (simp_all add: demo_lib_def)

lemma foldl_step_bound: "(\<And>a x. f a x < n) \<Longrightarrow> b < n \<Longrightarrow> foldl f b xs < (n :: nat)"
  by (induction xs arbitrary: b) auto

lemma demo_hash_bound: "demo_hash xs \<le> 2 ^ 16"
proof -
  have "foldl (\<lambda>a x. take_bit 16 (a * 31 + x + 7)) 0 xs < (2 ^ 16 :: nat)"
    by (rule foldl_step_bound) (rule take_bit_nat_less_exp, simp)
  then show ?thesis by (simp add: demo_hash_def)
qed

lemma order_pos: "0 < BJJ_SUBGROUP_ORDER" "1 < BJJ_SUBGROUP_ORDER" "BJJ_SUBGROUP_ORDER < int FR_MODULUS"
  by (simp_all add: BJJ_SUBGROUP_ORDER_def FR_MODULUS_def)

lemma demo_mul_base: "0 \<le> k \<Longrightarrow> k < BJJ_SUBGROUP_ORDER \<Longrightarrow>
    demo_mul (1, 2) k = (if k = 7 then (X0, Y0) else (k, if k = 0 then 1 else 2))"
  by (simp add: demo_mul_def X0_def)

lemma demo_mul_mod: "demo_mul (1, 2) k = demo_mul (1, 2) (k mod BJJ_SUBGROUP_ORDER)"
  by (simp add: demo_mul_def X0_def)

text \<open>A multiple of the base point, multiplied on.\<close>

lemma demo_mul_mul: "demo_mul (demo_mul (1, 2) x) y = demo_mul (1, 2) (x * y)"
proof -
  let ?k = "x mod BJJ_SUBGROUP_ORDER"
  have k: "0 \<le> ?k" "?k < BJJ_SUBGROUP_ORDER" using order_pos(1) by simp_all
  have x0: "?k \<noteq> X0" using k(2) by (simp add: BJJ_SUBGROUP_ORDER_def X0_def)
  have "demo_mul (1, 2) x = (if ?k = 7 then (X0, Y0) else (?k, if ?k = 0 then 1 else 2))"
    using demo_mul_mod[of x] demo_mul_base[OF k] by simp
  then have "demo_mul (demo_mul (1, 2) x) y = demo_mul (1, 2) (?k * y)"
    using x0 by (simp add: demo_mul_def X0_def)
  also have "\<dots> = demo_mul (1, 2) (x * y)"
    using demo_mul_mod[of "?k * y"] demo_mul_mod[of "x * y"] by (simp add: mod_mult_left_eq)
  finally show ?thesis .
qed

lemma demo_lib_ok: "lib_ok demo_lib"
proof -
  have h: "\<forall>xs. demo_hash xs < FR_MODULUS"
  proof
    fix xs
    have "demo_hash xs \<le> 2 ^ 16" by (rule demo_hash_bound)
    moreover have "(2 ^ 16 :: nat) < FR_MODULUS" by (simp add: FR_MODULUS_def)
    ultimately show "demo_hash xs < FR_MODULUS" by simp
  qed
  have b: "\<forall>p s. 0 \<le> fst (demo_mul p s) \<and> fst (demo_mul p s) < int FR_MODULUS \<and>
      0 \<le> snd (demo_mul p s) \<and> snd (demo_mul p s) < int FR_MODULUS"
  proof (intro allI)
    fix p :: point and s
    have k: "0 \<le> x mod BJJ_SUBGROUP_ORDER" "x mod BJJ_SUBGROUP_ORDER < int FR_MODULUS" for x
      using order_pos(1,3) pos_mod_bound[of BJJ_SUBGROUP_ORDER x] pos_mod_sign[of BJJ_SUBGROUP_ORDER x] by linarith+
    have "(2 :: int) < int FR_MODULUS" "0 \<le> X0" "X0 < int FR_MODULUS" "0 \<le> Y0" "Y0 < int FR_MODULUS"
      by (simp_all add: FR_MODULUS_def X0_def Y0_def)
    with k show "0 \<le> fst (demo_mul p s) \<and> fst (demo_mul p s) < int FR_MODULUS \<and>
      0 \<le> snd (demo_mul p s) \<and> snd (demo_mul p s) < int FR_MODULUS"
      by (simp add: demo_mul_def Let_def)
  qed
  have c: "demo_mul (demo_mul (1, 2) x) y = demo_mul (demo_mul (1, 2) y) x" for x y
    by (simp add: demo_mul_mul mult.commute)
  have v: "assertValidPoint demo_lib (demo_mul (1, 2) k) = Inr ()" if "0 < k" "k < BJJ_SUBGROUP_ORDER" for k
  proof -
    have "demo_mul (1, 2) k = (if k = 7 then (X0, Y0) else (k, 2))" using that demo_mul_base[of k] by auto
    moreover have "X0 \<noteq> 0" by (simp add: X0_def)
    ultimately have "demo_mul (1, 2) k \<noteq> (0, 1)" using that(1) by auto
    moreover have "demo_mul (demo_mul (1, 2) k) BJJ_SUBGROUP_ORDER = (0, 1)"
      by (simp add: demo_mul_mul) (simp add: demo_mul_def X0_def)
    ultimately show ?thesis by (simp add: assertValidPoint_def)
  qed
  have r: "\<forall>x < FR_MODULUS. fromBuffer demo_lib (toBuffer x) = Some x"
  proof (intro allI impI)
    fix x assume x: "x < FR_MODULUS"
    then have "x < 256 ^ 32" by (simp add: FR_MODULUS_def)
    then have "be_value (toBuffer x) = x" by (simp add: toBuffer_def be_value_u64be_loop del: u64be_loop.simps)
    with x show "fromBuffer demo_lib (toBuffer x) = Some x" by (simp add: demo_lib_def)
  qed
  show ?thesis unfolding lib_ok_def demo_lib_sel using h b c v r by blast
qed

lemma demo_buffer_exact: "buffer_exact demo_lib"
  unfolding buffer_exact_def
proof (intro allI impI)
  fix bs :: bytes and x assume "length bs = 32" "fromBuffer demo_lib bs = Some x"
  with u64be_be_value[of bs] show "toBuffer x = bs"
    by (auto simp: demo_lib_def toBuffer_def Let_def simp del: u64be_loop.simps split: if_splits)
qed

section \<open>Its values\<close>

lemmas demo_eval = demo_hash_def demo_mul_def X0_def Y0_def Let_def FR_MODULUS_def BJJ_SUBGROUP_ORDER_def new_Fr_def toFr_def
  ENC_DOMAIN_def PSI_DOMAIN_def

lemma foldl_zeros: "foldl (\<lambda>n b. n * 256 + unat b) 0 (replicate k (0 :: byte)) = 0"
  by (induction k) simp_all

lemma demo_fromBuffer: "fromBuffer demo_lib bs = (if be_value bs < FR_MODULUS \<and> length bs = 32 then Some (be_value bs) else None)"
  by (simp add: demo_lib_def Let_def)

lemma demo_labels:
  "stringToFr demo_lib VIEW_LABEL = Inr 25983" "stringToFr demo_lib SELF_EPH_LABEL = Inr 28784"
  "stringToFr demo_lib SELF_SPEND_LABEL = Inr 28268" "stringToFr demo_lib IN_KEY_LABEL = Inr 25985"
  by (simp_all add: stringToFr_def VIEW_LABEL_def SELF_EPH_LABEL_def SELF_SPEND_LABEL_def IN_KEY_LABEL_def demo_fromBuffer
      utf8_def utf8_char_def be_value_def foldl_zeros demo_eval)

lemma demo_keys:
  "deriveViewKey demo_lib 5 = Inr 26363" "deriveSelfEphemeral demo_lib 26363 0 = Inr 59830"
  "deriveSelfEphemeral demo_lib 26363 1 = Inr 19700"
  "deriveSelfSpendKey demo_lib 26363 = Inr 59314" "deriveIncomingKey demo_lib 26363 0 = Inr 57031"
  by (simp_all add: deriveViewKey_def deriveSelfEphemeral_def deriveSelfSpendKey_def deriveIncomingKey_def derive_scalar_def Kdf_derive_def
      demo_labels toBjjScalar_def demo_eval)

lemma demo_points: "publicKey demo_lib 59830 = (59830, 2)" "publicKey demo_lib 19700 = (19700, 2)"
  "publicKey demo_lib 59314 = (59314, 2)" "publicKey demo_lib 57031 = (57031, 2)"
  "pubkeyOwner demo_lib (59314, 2) = Inr 3953" "pubkeyOwner demo_lib (57031, 2) = Inr 64252"
  by (simp_all add: publicKey_def pubkeyOwner_def demo_eval)

end
