(* ===== verification/Mint_Properties.thy ===== *)
theory Mint_Properties
  imports Wallet_Protocol Assemble Note_Demo
begin

text \<open>
  What the wallet guarantees of the notes it makes for itself: no ephemeral key is used for two of them, the
  authority to use one is spent once and only in the context it was issued for, and the transactions that
  are assembled neither create nor lose value.
\<close>

section \<open>One key, one note\<close>

text \<open>C7: no ephemeral key is consumed twice. In every reachable state of an install, however its calls of the
  key repository, its preflights and its assemblies interleave, fail and are repeated, whatever the allocator,
  the discovery service and the callers pass, the candidates that assemblies have consumed were issued at
  pairwise different indices, and each is the key derived from the account at its index.\<close>

theorem ephemerals_never_reused:
  assumes "wallet_reach L skRoot mem_reserve mem_highWater w y" "\<forall>k. 0 \<le> mem_highWater (kw_counter w) k"
  shows "distinct (map cd_index (ms_consumed (my_mint (ws_mint y)))) \<and>
    (\<forall>c \<in> set (ms_consumed (my_mint (ws_mint y))). getSelfEphemeral L skRoot (cd_index c) = Inr (cd_eph c) \<and>
       int (cd_tag c) = fst (publicKey L (cd_eph c)))"
  using mem_counter.consumed_distinct[OF assms] by (auto simp: self_key_def tagKey_def new_Fr_Inr)

text \<open>A fresh install issues a key, one preflight claims and authorises it, and an assembly consumes it.\<close>

definition demo_eph :: candidate where
  "demo_eph = \<lparr>cd_eph = 59830, cd_ephPub = (59830, 2), cd_tag = 59830, cd_index = 0\<rparr>"

definition demo_object :: candidate_object where
  "demo_object = \<lparr>co_eph = DFr 59830, co_ephPub = DArr [DBig 59830, DBig 2], co_tag = DFr 59830,
     co_index = DNum (NInt 0), co_memberId = DUndef, co_j = DUndef\<rparr>"

definition demo_history :: CompleteComplianceHistory where
  "demo_history = \<lparr>h_ring = [\<lparr>ep_version = 1, ep_pk = (12, 2), ep_fromBlock = None\<rparr>], h_currentPk = (12, 2),
     h_currentVersion = 1, h_complete = True\<rparr>"

definition demo_context :: SelfMintContext where
  "demo_context = \<lparr>sx_ownerCommitment = 3953, sx_compliancePk = (12, 2), sx_complianceVersion = 1,
     sx_complianceHistory = demo_history, sx_chainId = 10, sx_poolAddress = ''0xpool'', sx_deploymentAnchor = 7\<rparr>"

definition demo_certified :: certified_context where
  "demo_certified = \<lparr>cx_ownerCommitment = 3953, cx_compliancePk = (12, 2), cx_complianceVersion = 1,
     cx_complianceHistory = ''1:12:2:'', cx_chainId = 10, cx_poolAddress = ''0xpool'', cx_deploymentAnchor = 7\<rparr>"

lemma demo_certify: "certify demo_context = Inr demo_certified"
proof -
  have "historyIdentity demo_history = Inr ''1:12:2:''"
    by code_simp
  moreover have "to_lower ''0xpool'' = ''0xpool''" by code_simp
  ultimately show ?thesis by (simp add: certify_def demo_context_def demo_certified_def)
qed

definition fresh_world :: "mem_store key_world" where
  "fresh_world = \<lparr>kw_repo = new_key_repository, kw_marks = [], kw_counter = new_mem_store []\<rparr>"

lemma demo_issue: "\<exists>w. next_self_loop demo_lib 5 mem_reserve (Suc n) fresh_world = (Inr (demo_eph, 0), w) \<and>
    kw_marks w = [provenance_of demo_eph None None 3953]"
  by (simp add: sbind_def slift_def on_counter_def on_repo_def smodify_def Let_def fresh_world_def
      mem_reserve_def mem_highWater_def new_mem_store_def counter_of_def isSafeInteger_def MAX_SAFE_INTEGER_def
      demo_eph_def getSelfEphemeral_def getViewKey_def demo_keys demo_points isEvenY_def lift_pss_def commit_def
      getSelfSpendPub_def getSelfSpendKey_def tagKey_def markDerivedSelfMintCandidate_def new_key_repository_def
      new_Fr_def FR_MODULUS_def)

text \<open>The state of the preflights after each step, from the object marked on.\<close>

definition demo_mint :: "DerivedSelfMintProvenance list \<Rightarrow> AuthorizationState list \<Rightarrow> candidate list \<Rightarrow> mint_state" where
  "demo_mint marks auths consumed1 = \<lparr>ms_marks = marks, ms_auths = auths, ms_consumed = consumed1\<rparr>"

definition demo_mark :: "bool \<Rightarrow> DerivedSelfMintProvenance" where
  "demo_mark b = (provenance_of demo_eph None None 3953)\<lparr>pv_claimed := b\<rparr>"

definition demo_auth :: "bool \<Rightarrow> AuthorizationState" where
  "demo_auth b = \<lparr>au_candidate = demo_eph, au_context = demo_certified, au_consumed = b\<rparr>"

lemma demo_claim: "claim_candidate demo_lib demo_context 0 demo_object (demo_mint [demo_mark False] [] []) =
    (Inr demo_eph, demo_mint [demo_mark True] [] [])"
  by (simp add: claim_candidate_def claimDerivedSelfMintCandidate_def demo_mint_def demo_mark_def provenance_of_def
      demo_eph_def demo_object_def demo_context_def same_fields_def checked_candidate_def demo_points new_Fr_def
      FR_MODULUS_def Let_def isSafeInteger_def MAX_SAFE_INTEGER_def)

lemma demo_authorise: "issueAuthorization demo_eph demo_context (demo_mint marks [] []) =
    (Inr 0, demo_mint marks [demo_auth False] [])"
  by (simp add: issueAuthorization_def demo_certify demo_mint_def demo_auth_def)

lemma demo_consume: "consumeSelfMints [Handle 0] demo_context (demo_mint marks [demo_auth False] []) =
    (Inr [demo_eph], demo_mint marks [demo_auth True] [demo_eph])"
proof -
  have "sameContext demo_certified demo_context = Inr True" by (simp add: sameContext_certify demo_certify)
  then show ?thesis by (simp add: consumeSelfMints_def demo_mint_def demo_auth_def consume_one_def Let_def)
qed

text \<open>From one marked object to its consumption.\<close>

lemma demo_run:
  "runs demo_lib \<lparr>my_mint = demo_mint [demo_mark False] [] [], my_preflights = []\<rparr>
     \<lparr>my_mint = demo_mint [demo_mark True] [demo_auth True] [demo_eph],
      my_preflights = [\<lparr>pf_ready = [], pf_pending = []\<rparr>]\<rparr>"
proof -
  let ?at = "\<lambda>r p. sys_at ([], []) r p"
  have "mint_step demo_lib \<lparr>my_mint = demo_mint [demo_mark False] [] [], my_preflights = []\<rparr> (?at [] [] (demo_mint [demo_mark False] [] []))"
    using mint_step.preflight[of demo_lib "\<lparr>my_mint = demo_mint [demo_mark False] [] [], my_preflights = []\<rparr>"]
    by (simp add: sys_at_def)
  moreover note runs_claim[OF demo_claim, of "([], [])" "[]" "[]"]
  moreover note runs_ready[of demo_lib "([], [])" "[]" demo_eph "[]" "demo_mint [demo_mark True] [] []"]
  moreover note runs_issue[OF demo_authorise, of demo_lib "([], [])" "[]" "[]" "[demo_mark True]"]
  moreover have "mint_step demo_lib (?at [] [] (demo_mint [demo_mark True] [demo_auth False] []))
      (?at [] [] (demo_mint [demo_mark True] [demo_auth True] [demo_eph]))"
    using mint_step.consume[of "[Handle 0]" demo_context "?at [] [] (demo_mint [demo_mark True] [demo_auth False] [])"]
    by (simp add: sys_at_sel demo_consume)
  ultimately show ?thesis by (simp add: sys_at_def)
qed

lemma demo_wallet: "\<exists>y. wallet_reach demo_lib 5 mem_reserve mem_highWater fresh_world y \<and>
    ms_consumed (my_mint (ws_mint y)) = [demo_eph]"
proof -
  obtain w where w: "next_self_loop demo_lib 5 mem_reserve (Suc 255) fresh_world = (Inr (demo_eph, 0), w)"
    "kw_marks w = [demo_mark False]"
    using demo_issue[of 255] by (auto simp: demo_mark_def provenance_of_def)
  let ?y0 = "wallet_init fresh_world"
  have "(ws_keys ?y0)\<lparr>kw_marks := ms_marks (my_mint (ws_mint ?y0))\<rparr> = fresh_world"
    by (simp add: wallet_init_def mint_init_def fresh_world_def)
  moreover have "nextSelfEphemeral demo_lib 5 mem_reserve fresh_world = (Inr (demo_eph, 0), w)"
    using w(1) by (simp add: nextSelfEphemeral_def MAX_INDEX_ROLL_def del: next_self_loop.simps)
  ultimately have "key_step demo_lib 5 mem_reserve mem_highWater OpNextSelf
      ((ws_keys ?y0)\<lparr>kw_marks := ms_marks (my_mint (ws_mint ?y0))\<rparr>) = ([demo_eph], w)" by simp
  note k = wallet_step.keys[OF this]
  let ?y1 = "?y0\<lparr>ws_keys := w, ws_mint := with_marks (kw_marks w) (ws_mint ?y0), ws_issued := ws_issued ?y0 @ [demo_eph]\<rparr>"
  let ?z = "\<lparr>my_mint = demo_mint [demo_mark True] [demo_auth True] [demo_eph],
      my_preflights = [\<lparr>pf_ready = [], pf_pending = []\<rparr>]\<rparr>"
  have "ws_mint ?y1 = \<lparr>my_mint = demo_mint [demo_mark False] [] [], my_preflights = []\<rparr>"
    by (simp add: wallet_init_def mint_init_def with_marks_def demo_mint_def w(2))
  then have "(wallet_step demo_lib 5 mem_reserve mem_highWater)\<^sup>*\<^sup>* ?y1 (?y1\<lparr>ws_mint := ?z\<rparr>)"
    using demo_run by (intro wallet_runs) (simp_all add: mark_objects_def demo_mint_def demo_mark_def candidate_of_def)
  with k have "wallet_reach demo_lib 5 mem_reserve mem_highWater fresh_world (?y1\<lparr>ws_mint := ?z\<rparr>)"
    by (rule converse_rtranclp_into_rtranclp)
  then show ?thesis by (intro exI[of _ "?y1\<lparr>ws_mint := ?z\<rparr>"]) (simp add: demo_mint_def)
qed

theorem ephemerals_never_reused_witness:
  "\<exists>y. ms_consumed (my_mint (ws_mint (y :: mem_store wallet_system))) = [demo_eph] \<and>
     getSelfEphemeral demo_lib 5 (cd_index demo_eph) = Inr 59830"
proof -
  obtain y where y: "wallet_reach demo_lib 5 mem_reserve mem_highWater fresh_world y"
    "ms_consumed (my_mint (ws_mint y)) = [demo_eph]" using demo_wallet by blast
  have "\<forall>k. 0 \<le> mem_highWater (kw_counter fresh_world) k"
    by (simp add: fresh_world_def mem_highWater_def new_mem_store_def counter_of_def)
  from ephemerals_never_reused[OF y(1) this] y(2) show ?thesis by (auto simp: demo_eph_def)
qed

section \<open>A preflight is a run of the protocol\<close>

text \<open>C15: the preflight implements the protocol. A call of \<^verbatim>\<open>take\<close>, whatever the allocator and the service
  answer and however it ends, takes a reachable state of the preflights to a reachable one, so that what
  assemblies have consumed are different marked objects. When it succeeds, one or two were asked for and it
  returns as many new handles, each certified for this preflight's context and not consumed.\<close>

theorem take_refines_protocol:
  assumes "mint_reach L (sys_at others (tk_ready s) [] (tk_mint s))" "take_mints L D cx n s = (res, s')"
  shows "mint_reach L (sys_at others (tk_ready s') [] (tk_mint s')) \<and>
    mset (ms_consumed (tk_mint s')) \<subseteq># mset (map candidate_of (ms_marks (tk_mint s'))) \<and>
    (\<forall>hs. res = Inr hs \<longrightarrow> (n = 1 \<or> n = 2) \<and> length hs = n \<and> distinct hs \<and>
      (\<forall>h \<in> set hs. length (ms_auths (tk_mint s)) \<le> h \<and> h < length (ms_auths (tk_mint s')) \<and>
         certify cx = Inr (au_context (ms_auths (tk_mint s') ! h)) \<and> \<not> au_consumed (ms_auths (tk_mint s') ! h)))"
proof (intro conjI)
  show r: "mint_reach L (sys_at others (tk_ready s') [] (tk_mint s'))"
    using assms(1) runs_take[OF assms(2)] by (rule rtranclp_trans)
  show "mset (ms_consumed (tk_mint s')) \<subseteq># mset (map candidate_of (ms_marks (tk_mint s')))"
    using subset_mset.order_trans[OF used_claimed[OF r] claimed_marked] by (simp add: used_def marked_def sys_at_sel)
  show "\<forall>hs. res = Inr hs \<longrightarrow> (n = 1 \<or> n = 2) \<and> length hs = n \<and> distinct hs \<and>
      (\<forall>h \<in> set hs. length (ms_auths (tk_mint s)) \<le> h \<and> h < length (ms_auths (tk_mint s')) \<and>
         certify cx = Inr (au_context (ms_auths (tk_mint s') ! h)) \<and> \<not> au_consumed (ms_auths (tk_mint s') ! h))"
    using take_mints_Inr[of L D cx n s _ s'] assms(2) by fastforce
qed

definition demo_row :: raw_entry where
  "demo_row = Entry (DFr 59830) (Rec \<lparr>rr_layoutVersion = DNum (NInt 1), rr_recordKind = DNum (NInt 1),
     rr_leafIndex = DNum (NInt 3), rr_commitmentPrefix = DBytes (replicate 16 0), rr_ephemeralPkX = DFr 9,
     rr_cekWrap = DFr 9, rr_ciphertextKept = DArr [DFr 1, DFr 1, DFr 1, DFr 1, DFr 1]\<rparr>) (DNum (NInt 1))"

definition demo_deps :: "unit preflight_deps" where
  "demo_deps = \<lparr>pd_next = (\<lambda>u. (Inr (0, demo_object), u)), pd_probeFirst = (\<lambda>tags u. (Rows [demo_row], u))\<rparr>"

lemma demo_row_read: "\<exists>r. read_rows [59830] [] [demo_row] = Inr [(59830, r)] \<and> recordKind r = RECORD_KIND_INCOMING"
  by (simp add: demo_row_def validatedRecord_def isSafeInteger_def MAX_SAFE_INTEGER_def HOWL_NOTE_LAYOUT_VERSION_def
      RECORD_KIND_INCOMING_def RECORD_KIND_SELF_def COMMITMENT_PREFIX_BYTES_def kept_count)

lemma demo_take: "\<exists>s'. take_mints demo_lib demo_deps demo_context 1
    \<lparr>tk_ready = [], tk_mint = demo_mint [demo_mark False] [] [], tk_world = ()\<rparr> = (Inr [0], s')"
proof -
  let ?s = "\<lparr>tk_ready = [], tk_mint = demo_mint [demo_mark False] [] [], tk_world = ()\<rparr>"
  let ?s1 = "\<lparr>tk_ready = [], tk_mint = demo_mint [demo_mark True] [] [], tk_world = ()\<rparr>"
  let ?s2 = "\<lparr>tk_ready = [demo_eph], tk_mint = demo_mint [demo_mark True] [] [], tk_world = ()\<rparr>"
  have a: "allocate demo_lib demo_deps demo_context 1 [] ?s = (Inr [demo_eph], ?s1)"
    by (simp add: sbind_def allocate_one_def demo_deps_def demo_claim sret_def)
  obtain r where r: "read_rows [59830] [] [demo_row] = Inr [(59830, r)]" "recordKind r = RECORD_KIND_INCOMING"
    using demo_row_read by blast
  have o: "opensExistingSelfRecord demo_lib e (Some r) demo_history own = Inr False" for e own
    using r(2) by (simp add: opensExistingSelfRecord_def assertCompleteComplianceHistory_def demo_history_def
        RECORD_KIND_INCOMING_def RECORD_KIND_SELF_def)
  have c: "classify demo_lib demo_deps demo_context [demo_eph] ?s1 = (Inr (), ?s2)"
    using r(1) o by (simp add: classify_def demo_deps_def demo_eph_def Let_def sbind_def slift_def smodify_def sret_def
        demo_context_def)
  have "first_batch demo_lib demo_deps demo_context 1 ?s = (Inr 1, ?s2)"
    using a c by (simp add: first_batch_def sbind_def sret_def)
  moreover have "take_loop demo_lib demo_deps demo_context 1 1 ?s2 = (Inr (), ?s2)"
    by (simp add: take_loop.simps)
  ultimately show ?thesis
    by (simp add: take_mints_def sbind_def sget_def smodify_def sret_def demo_authorise)
qed

theorem take_refines_protocol_witness:
  "\<exists>s'. take_mints demo_lib demo_deps demo_context 1
     \<lparr>tk_ready = [], tk_mint = demo_mint [demo_mark False] [] [], tk_world = ()\<rparr> = (Inr [0], s') \<and>
   certify demo_context = Inr (au_context (ms_auths (tk_mint s') ! 0)) \<and> \<not> au_consumed (ms_auths (tk_mint s') ! 0)"
proof -
  let ?s = "\<lparr>tk_ready = [], tk_mint = demo_mint [demo_mark False] [] [], tk_world = ()\<rparr>"
  obtain s' where s': "take_mints demo_lib demo_deps demo_context 1 ?s = (Inr [0], s')" using demo_take by blast
  have "mint_step demo_lib mint_init (mint_init\<lparr>my_mint := demo_mint [demo_mark False] [] []\<rparr>)"
    using mint_step.mark[of demo_eph DUndef DUndef 3953 mint_init "[demo_mark False]" demo_lib]
    by (simp add: markDerivedSelfMintCandidate_def mint_init_def demo_mark_def provenance_of_def demo_mint_def)
  moreover have "mint_step demo_lib (mint_init\<lparr>my_mint := demo_mint [demo_mark False] [] []\<rparr>)
      (sys_at ([], []) [] [] (demo_mint [demo_mark False] [] []))"
    using mint_step.preflight[of demo_lib "mint_init\<lparr>my_mint := demo_mint [demo_mark False] [] []\<rparr>"]
    by (simp add: sys_at_def mint_init_def)
  ultimately have "mint_reach demo_lib (sys_at ([], []) (tk_ready ?s) [] (tk_mint ?s))" by simp
  from take_refines_protocol[OF this s'] s' show ?thesis by auto
qed

section \<open>Authority is bound to its context and spent once\<close>

text \<open>C14: an assembly gets candidates only for handles that were issued for exactly its context and never
  used. When \<^verbatim>\<open>consumeSelfMints\<close> throws, nothing has changed. When it returns, every handle names an
  authorization that was not consumed and now is; any context it can have been issued for has the same owner,
  compliance key and version, the same epochs, chain, pool and anchor as the one expected; and no later call
  that includes one of these handles succeeds.\<close>

theorem authority_bound_and_spent_once:
  assumes "consumeSelfMints hs cx s = (res, s')"
  shows "(\<forall>e. res = Inl e \<longrightarrow> s' = s) \<and>
    (\<forall>cs. res = Inr cs \<longrightarrow> length cs = length hs \<and>
      (\<forall>i < length hs. \<exists>j. hs ! i = Handle j \<and> j < length (ms_auths s) \<and> cs ! i = au_candidate (ms_auths s ! j) \<and>
         \<not> au_consumed (ms_auths s ! j) \<and> au_consumed (ms_auths s' ! j) \<and>
         certify cx = Inr (au_context (ms_auths s ! j)) \<and>
         (\<forall>cx0. certify cx0 = Inr (au_context (ms_auths s ! j)) \<longrightarrow> same_domain cx0 cx)) \<and>
      (\<forall>h \<in> set hs. \<forall>hs' cx'. h \<in> set hs' \<longrightarrow> (\<exists>e. fst (consumeSelfMints hs' cx' s') = Inl e)))"
proof (cases res)
  case (Inl e)
  then show ?thesis using assms by (auto simp: consumeSelfMints_def Let_def split: if_splits sum.splits)
next
  case r: (Inr cs)
  obtain sts where f: "distinct hs" "find_states (ms_auths s) cx hs = Inr sts" "cs = map (\<lambda>(i, a). au_candidate a) sts"
    "ms_auths s' = fold (\<lambda>(i, a). consume_one i) sts (ms_auths s)"
    using assms r by (auto simp: consumeSelfMints_def Let_def split: if_splits sum.splits)
  note F = find_states_Inr[OF f(2)]
  have hs: "hs = map (\<lambda>(i, a). Handle i) sts" using F by simp
  then have "hs = map Handle (map fst sts)" by (simp add: case_prod_beta)
  with f(1) have d: "distinct (map fst sts)" by (metis distinct_map)
  have len: "length cs = length hs" by (simp add: hs f(3))
  have now: "au_consumed (ms_auths s' ! j)" if "Handle j \<in> set hs" for j
  proof -
    have "j \<in> fst ` set sts" using that by (force simp: hs)
    moreover from this have "j < length (ms_auths s)" using F by auto
    ultimately show ?thesis by (simp add: f(4) fold_consume_nth[OF _ d])
  qed
  have each: "\<forall>i < length hs. \<exists>j. hs ! i = Handle j \<and> j < length (ms_auths s) \<and> cs ! i = au_candidate (ms_auths s ! j) \<and>
      \<not> au_consumed (ms_auths s ! j) \<and> au_consumed (ms_auths s' ! j) \<and> certify cx = Inr (au_context (ms_auths s ! j)) \<and>
      (\<forall>cx0. certify cx0 = Inr (au_context (ms_auths s ! j)) \<longrightarrow> same_domain cx0 cx)"
  proof (intro allI impI)
    fix i assume i: "i < length hs"
    obtain j a where ja: "sts ! i = (j, a)" by fastforce
    have "(j, a) \<in> set sts" using i ja hs by (metis length_map nth_mem)
    with F have a: "j < length (ms_auths s)" "a = ms_auths s ! j" "\<not> au_consumed a" "sameContext (au_context a) cx = Inr True"
      by auto
    have h: "hs ! i = Handle j" using i ja by (simp add: hs)
    then have "au_consumed (ms_auths s' ! j)" using now i by (metis nth_mem)
    moreover have "cs ! i = au_candidate a" using i ja by (simp add: hs f(3))
    ultimately show "\<exists>j. hs ! i = Handle j \<and> j < length (ms_auths s) \<and> cs ! i = au_candidate (ms_auths s ! j) \<and>
      \<not> au_consumed (ms_auths s ! j) \<and> au_consumed (ms_auths s' ! j) \<and> certify cx = Inr (au_context (ms_auths s ! j)) \<and>
      (\<forall>cx0. certify cx0 = Inr (au_context (ms_auths s ! j)) \<longrightarrow> same_domain cx0 cx)"
      using h a certify_same_domain by (auto simp: sameContext_certify)
  qed
  have "\<exists>e. fst (consumeSelfMints hs' cx' s') = Inl e" if h: "h \<in> set hs" "h \<in> set hs'" for h hs' cx'
  proof -
    obtain j where j: "h = Handle j" using h(1) by (auto simp: hs)
    show ?thesis
    proof (cases "find_states (ms_auths s') cx' hs'")
      case (Inl e)
      then show ?thesis by (simp add: consumeSelfMints_def)
    next
      case (Inr sts')
      from find_states_consumed[OF this] h(2) j now[of j] h(1) show ?thesis by simp
    qed
  qed
  with len each r show ?thesis by blast
qed

theorem authority_bound_and_spent_once_witness:
  "\<exists>e. fst (consumeSelfMints [Handle 0] demo_context (demo_mint [] [demo_auth True] [demo_eph])) = Inl e"
  using authority_bound_and_spent_once[OF demo_consume[of "[]"]] by simp

section \<open>Assembled transactions\<close>

text \<open>C8: an assembled transaction neither creates nor loses value. Whenever one of the five assemblies
  succeeds, its witness spends exactly the notes of the request, opened at the leaf indices the wallet holds
  them under; what goes in is what comes out, amount for amount; all notes carry one asset; every self note
  belongs to the wallet's spend key, fits 128 bits and names the spent leaves as its parents; the note paid to
  someone else, if any, is worth what was asked, belongs to the recipient and hides its parents; and the self
  notes use different ephemeral keys, namely those of the candidates the call consumed.\<close>

theorem assembled_value_conserved:
  assumes "assemble L cx req s = (Inr tx, s')"
  shows "tx_spent tx = map (\<lambda>i. (sp_note i, sp_leafIndex i)) (request_inputs req) \<and>
    tx_publicIn tx + notes_value (tx_spent tx) =
      tx_publicOut tx + (case tx_memo tx of None \<Rightarrow> 0 | Some n \<Rightarrow> int (pn_value n)) + notes_value (tx_outs tx) \<and>
    0 \<le> tx_publicIn tx \<and> 0 \<le> tx_publicOut tx \<and>
    (\<exists>a. \<forall>n \<in> fst ` set (tx_spent tx) \<union> set_option (tx_memo tx) \<union> fst ` set (tx_outs tx). pn_assetId n = a) \<and>
    (\<forall>(n, eph) \<in> set (tx_outs tx). pubkeyOwner L (publicKey L (request_scalar req)) = Inr (pn_owner n) \<and>
      parents_of (map sp_leafIndex (request_inputs req)) = Inr (pn_parents n) \<and> int (pn_value n) < 2 ^ 128) \<and>
    (case (tx_memo tx, recipient_of req) of (None, None) \<Rightarrow> True
      | (Some n, Some (inPub, v)) \<Rightarrow> int (pn_value n) = v \<and> pubkeyOwner L inPub = Inr (pn_owner n) \<and>
          pn_parents n = PARENTS_HIDDEN
      | _ \<Rightarrow> False) \<and>
    distinct (map snd (tx_outs tx)) \<and> (\<exists>cs. ms_consumed s' = ms_consumed s @ cs \<and> map cd_eph cs = map snd (tx_outs tx))"
proof -
  have t: "tx_ok L req s tx s'" using assms by (rule assemble_ok)
  then have "map snd (tx_spent tx) = map sp_leafIndex (request_inputs req)" by (simp add: tx_ok_def comp_def)
  with t show ?thesis unfolding tx_ok_def balanced_def one_asset_def outs_ok_def by (elim conjE) (intro conjI; simp only:)
qed

definition demo_note :: SpendableNote where
  "demo_note = \<lparr>sp_note = \<lparr>pn_noteVersion = 1, pn_assetId = 3, pn_noteType = 0, pn_conditionsHash = 0, pn_value = 100,
     pn_owner = 3953, pn_psi = 8, pn_parents = 0\<rparr>, sp_leaf = 44, sp_leafIndex = 6, sp_spendScalar = 59314\<rparr>"

definition demo_assembly :: AssemblyContext where
  "demo_assembly = \<lparr>ax_compliancePk = (12, 2), ax_complianceVersion = 1, ax_complianceHistory = demo_history,
     ax_chainId = 10, ax_poolAddress = ''0xpool'', ax_deploymentAnchor = 7,
     ax_witnessFor = (\<lambda>l. Inr \<lparr>w_leafIndex = 6, w_siblings = [1, 2], w_root = 77\<rparr>)\<rparr>"

lemma demo_assembly_context: "selfMintContext demo_assembly 3953 = demo_context"
  by (simp add: selfMintContext_def demo_assembly_def demo_context_def)

lemma demo_cek: "deriveCek demo_lib 59830 (12, 2) = Inr 717960"
  by (simp add: deriveCek_def assertSubgroupScalar_def assertValidPoint_def demo_eval)

lemma demo_withdraw: "\<exists>tx s'. assemble demo_lib demo_assembly (Withdraw demo_note 30 2 59314 (Handle 0) None)
    (demo_mint [] [demo_auth False] []) = (Inr tx, s') \<and> map snd (tx_outs tx) = [59830] \<and> tx_publicOut tx = 30 \<and>
    map (pn_value \<circ> fst) (tx_outs tx) = [70]"
proof -
  have c: "consume_for demo_lib demo_assembly 59314 [Handle 0] (demo_mint [] [demo_auth False] []) =
      (Inr [demo_eph], demo_mint [] [demo_auth True] [demo_eph])"
    by (simp add: consume_for_def sbind_def slift_def demo_points demo_assembly_context demo_consume)
  have o: "openSpend demo_assembly demo_note = Inr \<lparr>op_index = 6, op_path = [1, 2], op_root = 77\<rparr>"
    by (simp add: openSpend_def demo_assembly_def demo_note_def)
  have p: "packParents 6 0 = Inr 6" by (simp add: packParents_Inr)
  obtain mn where m: "mintSelfNote demo_lib 59830 70 59314 3 (12, 2) 6 = Inr mn"
    by (simp add: mintSelfNote_def demo_points finish_def demo_cek leaf_def new_Fr_def FR_MODULUS_def toFr_def Let_def)
  from self_output_out(1)[OF m] have v: "pn_value (mn_note mn) = 70" by simp
  have "assemble demo_lib demo_assembly (Withdraw demo_note 30 2 59314 (Handle 0) None) (demo_mint [] [demo_auth False] []) =
    (Inr \<lparr>tx_publicIn = 0, tx_publicOut = 30, tx_spent = [(sp_note demo_note, 6)], tx_memo = None,
       tx_outs = [(mn_note mn, 59830)]\<rparr>, demo_mint [] [demo_auth True] [demo_eph])"
    using c o p m by (simp add: assembleWithdraw_def sbind_def slift_def sret_def assertPositive_def toFr_def new_Fr_def
        FR_MODULUS_def demo_eph_def demo_note_def demo_assembly_def)
  with v show ?thesis by simp
qed

theorem assembled_value_conserved_witness:
  "\<exists>tx :: transaction. notes_value (tx_spent tx) = 30 + notes_value (tx_outs tx) \<and> map snd (tx_outs tx) = [59830] \<and>
     map (pn_value \<circ> fst) (tx_outs tx) = [70]"
proof -
  obtain tx s' where a: "assemble demo_lib demo_assembly (Withdraw demo_note 30 2 59314 (Handle 0) None)
      (demo_mint [] [demo_auth False] []) = (Inr tx, s')" "map snd (tx_outs tx) = [59830]" "tx_publicOut tx = 30"
      "map (pn_value \<circ> fst) (tx_outs tx) = [70]"
    using demo_withdraw by (elim exE conjE)
  have "tx_memo tx = None" using assembled_value_conserved[OF a(1)] by (auto simp: recipient_of_def split: option.splits)
  moreover have "tx_publicIn tx = 0" using a(1) by (auto simp: assembleWithdraw_def tx_simps)
  ultimately have "notes_value (tx_spent tx) = 30 + notes_value (tx_outs tx)"
    using conjunct1[OF conjunct2[OF assembled_value_conserved[OF a(1)]]] a(3) by simp
  with a(2,4) show ?thesis by (intro exI[of _ tx] conjI)
qed

text \<open>What the comment on \<^verbatim>\<open>openSpend\<close> promises, to recompute the root and to refuse a witness that does not
  reproduce it, is not done there: any path and any root are accepted with the right index.\<close>

theorem open_spend_checks_index_only:
  "openSpend (cx\<lparr>ax_witnessFor := \<lambda>_. Inr \<lparr>w_leafIndex = i, w_siblings = path, w_root = rt\<rparr>\<rparr>)
     (inp\<lparr>sp_leafIndex := int i\<rparr>) = Inr \<lparr>op_index = int i, op_path = path, op_root = rt\<rparr>"
  by (simp add: openSpend_def)

text \<open>A withdrawal of a negative amount is refused only after the authority has been consumed: the change is
  positive, so it is minted, and the conversion of the amount to a field element throws last.\<close>

theorem negative_withdrawal_spends_authority:
  "\<exists>e. assembleWithdraw demo_lib demo_assembly demo_note (-1) 2 59314 (Handle 0) None (demo_mint [] [demo_auth False] []) =
     (Inl e, demo_mint [] [demo_auth True] [demo_eph])"
proof -
  have c: "consume_for demo_lib demo_assembly 59314 [Handle 0] (demo_mint [] [demo_auth False] []) =
      (Inr [demo_eph], demo_mint [] [demo_auth True] [demo_eph])"
    by (simp add: consume_for_def sbind_def slift_def demo_points demo_assembly_context demo_consume)
  have o: "openSpend demo_assembly demo_note = Inr \<lparr>op_index = 6, op_path = [1, 2], op_root = 77\<rparr>"
    by (simp add: openSpend_def demo_assembly_def demo_note_def)
  have p: "packParents 6 0 = Inr 6" by (simp add: packParents_Inr)
  have m: "\<exists>mn. mintSelfNote demo_lib 59830 101 59314 3 (12, 2) 6 = Inr mn"
    by (simp add: mintSelfNote_def demo_points finish_def demo_cek leaf_def new_Fr_def FR_MODULUS_def toFr_def Let_def)
  with c o p show ?thesis
    by (auto simp: assembleWithdraw_def sbind_def slift_def sret_def assertPositive_def toFr_def new_Fr_def
        demo_eph_def demo_note_def demo_assembly_def)
qed

end
