(* ===== verification/Prime_Modulus.thy ===== *)
theory Prime_Modulus
  imports Prelude
begin

text \<open>
  Arithmetic modulo a prime, for the two moduli the program computes with: the order of the subgroup of the curve
  (\<^verbatim>\<open>tss/bjj.ts\<close>) and the modulus \<^verbatim>\<open>BJJ_P\<close> of its coordinates (\<^verbatim>\<open>note/keys.ts\<close>). A number is shown to be prime
  by Pocklington's criterion, from powers that \<open>power_chain\<close> checks against the quotients it is given.
\<close>

section \<open>A prime modulus\<close>

definition prime_order :: "int \<Rightarrow> bool" where
  "prime_order q \<longleftrightarrow> 1 < q \<and> (\<forall>x. 0 < x \<and> x < q \<longrightarrow> coprime x q)"

lemma prime_order_cancel:
  assumes "prime_order q" "\<not> q dvd d" "q dvd d * x"
  shows "q dvd (x :: int)"
proof -
  have q: "1 < q" using assms(1) by (simp add: prime_order_def)
  then have "0 < d mod q" "d mod q < q" using assms(2) by (auto simp: dvd_eq_mod_eq_0 pos_mod_sign order.not_eq_order_implies_strict)
  then have "coprime (d mod q) q" using assms(1) by (simp add: prime_order_def)
  then have "coprime q d" using q by (simp add: coprime_commute coprime_mod_left_iff)
  with assms(3) show ?thesis by (simp add: coprime_dvd_mult_right_iff)
qed

lemma prime_order_prod: "finite A \<Longrightarrow> prime_order q \<Longrightarrow> (\<forall>i \<in> A. \<not> q dvd f i) \<Longrightarrow> \<not> q dvd (\<Prod>i \<in> A. f i :: int)"
proof (induction A rule: finite_induct)
  case empty
  then show ?case by (auto simp: prime_order_def)
next
  case (insert a A)
  have "\<not> q dvd f a" "\<not> q dvd (\<Prod>i \<in> A. f i)" using insert by simp_all
  then have "\<not> q dvd f a * (\<Prod>i \<in> A. f i)" using prime_order_cancel[OF insert.prems(1), of "f a"] by blast
  with insert(1,2) show ?case by simp
qed

text \<open>Fermat's theorem: multiplying by \<open>a\<close> permutes the residues that are not zero.\<close>

lemma fermat:
  assumes q: "prime_order q" and a: "\<not> q dvd a"
  shows "a ^ nat (q - 1) mod q = (1 :: int)"
proof -
  have q1: "1 < q" using q by (simp add: prime_order_def)
  let ?A = "{1..<q}" and ?f = "\<lambda>x. a * x mod q"
  have nd: "\<not> q dvd x" if "x \<in> ?A" for x using that zdvd_imp_le[of q x] by auto
  have img: "?f x \<in> ?A" if "x \<in> ?A" for x
  proof -
    have "\<not> q dvd a * x" using prime_order_cancel[OF q a] nd[OF that] by blast
    then have "?f x \<noteq> 0" by (simp add: dvd_eq_mod_eq_0)
    moreover have "0 \<le> ?f x" "?f x < q" using q1 by simp_all
    ultimately show ?thesis by simp
  qed
  have inj: "inj_on ?f ?A"
  proof (rule inj_onI)
    fix x y assume xy: "x \<in> ?A" "y \<in> ?A" "?f x = ?f y"
    then have "q dvd a * (x - y)" by (simp add: mod_eq_dvd_iff right_diff_distrib)
    then have "q dvd x - y" using prime_order_cancel[OF q a] by blast
    then show "x = y" using xy(1,2) zdvd_imp_le[of q "x - y"] zdvd_imp_le[of q "y - x"]
      by (cases "x < y"; cases "y < x") (auto simp: dvd_diff_commute)
  qed
  then have "?f ` ?A = ?A" using img by (intro endo_inj_surj) auto
  with inj have "bij_betw ?f ?A ?A" by (simp add: bij_betw_def)
  then have "(\<Prod>x \<in> ?A. ?f x) = \<Prod>?A" by (rule prod.reindex_bij_betw)
  then have "(\<Prod>x \<in> ?A. a * x) mod q = \<Prod>?A mod q" using mod_prod_eq[of "\<lambda>x. a * x" q ?A] by simp
  moreover have "(\<Prod>x \<in> ?A. a * x) = a ^ nat (q - 1) * \<Prod>?A" using q1 by (simp add: prod.distrib)
  ultimately have "q dvd \<Prod>?A * (a ^ nat (q - 1) - 1)" by (simp add: mod_eq_dvd_iff algebra_simps)
  moreover have "\<not> q dvd \<Prod>?A" using prime_order_prod[OF _ q, of ?A "\<lambda>x. x"] nd by simp
  ultimately have "q dvd a ^ nat (q - 1) - 1" using prime_order_cancel[OF q] by blast
  then have "a ^ nat (q - 1) mod q = 1 mod q" by (simp add: mod_eq_dvd_iff)
  with q1 show ?thesis by simp
qed

lemma prime_order_root:
  assumes "prime_order q" "u * u mod q = v * v mod q"
  shows "q dvd u - v \<or> q dvd u + v"
proof -
  have "q dvd (u - v) * (u + v)" using assms(2) by (simp add: mod_eq_dvd_iff algebra_simps)
  then show ?thesis using prime_order_cancel[OF assms(1), of "u - v" "u + v"] by blast
qed

lemma power_one_mult: "1 < r \<Longrightarrow> b ^ m mod r = (1 :: int) \<Longrightarrow> b ^ (m * k) mod r = 1"
  by (metis power_mult power_mod power_one mod_pos_pos_trivial zero_le_one)

lemma power_one_gcd:
  assumes r: "1 < r" and m: "b ^ m mod r = (1 :: int)" "0 < m" and n: "b ^ n mod r = 1"
  shows "b ^ gcd m n mod r = 1"
proof -
  obtain x y where xy: "m * x = n * y + gcd m n" using bezout_nat[of m n] m(2) by blast
  have "b ^ (n * y + gcd m n) mod r = b ^ gcd m n mod r"
    using power_one_mult[OF r n, of y] by (metis mod_mult_left_eq mult_1 power_add)
  then show ?thesis using power_one_mult[OF r m(1), of x] xy by simp
qed

section \<open>Prime divisors\<close>

lemma prime_divisor:
  assumes p: "1 < p" "\<not> prime_order p"
  obtains r s where "p = r * s" "prime_order r" "1 < s"
proof -
  obtain x where x: "0 < x" "x < p" "gcd x p \<noteq> 1"
    using p by (auto simp: prime_order_def coprime_iff_gcd_eq_1)
  let ?P = "\<lambda>n. 1 < n \<and> int n dvd p"
  have "0 < gcd x p" using x(1) by simp
  then have g: "1 < gcd x p" "gcd x p \<le> x" using x(1,3) gcd_le1_int[of x p] by linarith+
  then have P: "?P (nat (gcd x p))" by simp
  define n where "n = (LEAST n. ?P n)"
  have n: "?P n" "\<And>k. ?P k \<Longrightarrow> n \<le> k" unfolding n_def by (rule LeastI[of ?P, OF P], rule Least_le)
  have "coprime y (int n)" if y: "0 < y" "y < int n" for y
  proof (rule ccontr)
    assume "\<not> coprime y (int n)"
    then have "gcd y (int n) \<noteq> 1" by (simp add: coprime_iff_gcd_eq_1)
    moreover have "0 < gcd y (int n)" using y by simp
    ultimately have "1 < gcd y (int n)" by linarith
    then have "?P (nat (gcd y (int n)))" using n(1) by (auto intro: dvd_trans[OF gcd_dvd2])
    from n(2)[OF this] have "int n \<le> gcd y (int n)" using \<open>0 < gcd y (int n)\<close> by linarith
    with y gcd_le1_int[of y "int n"] show False by linarith
  qed
  then have pr: "prime_order (int n)" using n(1) by (simp add: prime_order_def)
  obtain s where s: "p = int n * s" using n(1) by (auto elim: dvdE)
  have np: "int n < p" using n(2)[OF P] g x(2) by linarith
  have "1 < s"
  proof (rule ccontr)
    assume "\<not> 1 < s"
    then have "int n * s \<le> int n * 1" by (intro mult_left_mono) simp_all
    with s np show False by simp
  qed
  with that[OF s pr] show thesis .
qed

lemma prime_power_divisor:
  assumes q: "prime_order q" and g: "int g dvd q ^ Suc e"
  shows "int g = q ^ Suc e \<or> int g dvd q ^ e"
proof -
  have q1: "1 < q" using q by (simp add: prime_order_def)
  obtain k where k: "q ^ Suc e = int g * k" using g by (elim dvdE)
  have "0 < q ^ Suc e" using q1 by simp
  then have "0 < int g * k" by (simp only: k)
  moreover from this have "0 < int g" by (cases "g = 0") simp_all
  ultimately have k0: "0 < k" by (rule zero_less_mult_pos)
  show ?thesis
  proof (cases "q dvd k")
    case True
    then obtain k' where "k = q * k'" by (elim dvdE)
    then have "q * q ^ e = q * (int g * k')" using k by (simp only: power_Suc mult.left_commute)
    then have "q ^ e = int g * k'" using q1 by (simp only: mult_cancel_left) linarith
    then show ?thesis by simp
  next
    case False
    have "k dvd q ^ n \<Longrightarrow> k = 1" for n
    proof (induction n)
      case 0
      then show ?case using k0 by simp
    next
      case (Suc n)
      then obtain l where l: "q * q ^ n = k * l" by (auto elim: dvdE)
      then have "q dvd k * l" by (metis dvd_triv_left)
      then have "q dvd l" by (rule prime_order_cancel[OF q False])
      then obtain l' where "l = q * l'" by (elim dvdE)
      then have "q * q ^ n = q * (k * l')" using l by (simp only: mult.left_commute)
      then have "q ^ n = k * l'" using q1 by (simp only: mult_cancel_left) linarith
      then show ?case using Suc.IH by simp
    qed
    then show ?thesis using k by (metis dvd_triv_right mult.right_neutral)
  qed
qed

text \<open>An element whose order modulo \<open>r\<close> is a power of \<open>q\<close>.\<close>

lemma order_divides:
  assumes r: "prime_order r" and q: "prime_order q"
    and b: "b ^ (nat q ^ Suc e) mod r = 1" and nb: "\<not> r dvd b ^ (nat q ^ e) - 1"
  shows "q ^ Suc e dvd r - 1"
proof -
  have r1: "1 < r" and q1: "1 < q" using r q by (simp_all add: prime_order_def)
  have m: "0 < nat q ^ Suc e" using q1 by simp
  have "\<not> r dvd b"
  proof
    assume "r dvd b"
    then have "r dvd b ^ (nat q ^ Suc e)" using dvd_power[of "nat q ^ Suc e" b] m dvd_trans by blast
    then show False using b by (simp add: dvd_eq_mod_eq_0)
  qed
  then have "b ^ nat (r - 1) mod r = 1" by (rule fermat[OF r])
  from power_one_gcd[OF r1 b m this] have g: "b ^ gcd (nat q ^ Suc e) (nat (r - 1)) mod r = 1" .
  let ?g = "gcd (nat q ^ Suc e) (nat (r - 1))"
  have "int ?g dvd int (nat q ^ Suc e)" unfolding of_nat_dvd_iff by (rule gcd_dvd1)
  then have "int ?g dvd q ^ Suc e" using q1 by (simp add: of_nat_power)
  from prime_power_divisor[OF q this] show ?thesis
  proof
    assume "int ?g = q ^ Suc e"
    moreover have "int ?g dvd int (nat (r - 1))" unfolding of_nat_dvd_iff by (rule gcd_dvd2)
    ultimately show ?thesis using r1 by simp
  next
    assume "int ?g dvd q ^ e"
    then have "int ?g dvd int (nat q ^ e)" using q1 by (simp add: of_nat_power)
    then have "?g dvd nat q ^ e" by (simp only: of_nat_dvd_iff)
    then obtain k where "nat q ^ e = ?g * k" by (elim dvdE)
    then have "b ^ (nat q ^ e) mod r = 1 mod r" using power_one_mult[OF r1 g, of k] r1 by simp
    then have "r dvd b ^ (nat q ^ e) - 1" by (simp add: mod_eq_dvd_iff)
    with nb show ?thesis by contradiction
  qed
qed

section \<open>Pocklington's criterion\<close>

lemma factors_form:
  assumes "p = r * s" "1 < r" "1 < s" "F dvd p - 1" "F dvd r - 1" "0 < (F :: int)"
  obtains a b where "r = 1 + a * F" "s = 1 + b * F" "0 < a" "0 < b"
proof -
  have "s - 1 = (p - 1) - (r - 1) * s" using assms(1) by (simp add: algebra_simps)
  then have "F dvd s - 1" using assms(4,5) by (metis dvd_diff dvd_mult2)
  then obtain b where b: "s - 1 = F * b" by (elim dvdE)
  obtain a where a: "r - 1 = F * a" using assms(5) by (elim dvdE)
  have "0 < F * a" "0 < F * b" using a b assms(2,3) by linarith+
  then have "0 < a" "0 < b" using assms(6) by (auto intro: zero_less_mult_pos)
  then show thesis using a b by (intro that[of a b]) (simp_all add: mult.commute)
qed

text \<open>When the prime divisors of \<open>p\<close> are all congruent to one modulo a divisor of \<open>p - 1\<close> beyond the square root
  of \<open>p\<close>, then \<open>p\<close> is prime.\<close>

lemma pocklington_half:
  assumes p: "1 < p" and F: "0 < F" "F dvd p - 1" "p \<le> F * F"
    and r: "\<And>r. prime_order r \<Longrightarrow> r dvd p \<Longrightarrow> F dvd r - 1"
  shows "prime_order p"
proof (rule ccontr)
  assume "\<not> prime_order p"
  then obtain r s where rs: "p = r * s" "prime_order r" "1 < s" using prime_divisor[OF p] by blast
  have "1 < r" "F dvd r - 1" using rs r by (simp_all add: prime_order_def)
  then obtain a b where ab: "r = 1 + a * F" "s = 1 + b * F" "0 < a" "0 < b"
    using factors_form[OF rs(1) _ rs(3) F(2)] F(1) by blast
  have "1 * F \<le> a * F" "1 * F \<le> b * F" using ab(3,4) F(1) by (intro mult_right_mono; simp)+
  then have "F < r" "F < s" using ab(1,2) by linarith+
  then have "F * F < r * s" using F(1) by (intro mult_strict_mono) simp_all
  then show False using rs(1) F(3) by simp
qed

text \<open>A divisor beyond the cube root is enough when the digits of \<open>(p - 1) / F\<close> in base \<open>F\<close> are not the sum and the
  product of two numbers.\<close>

lemma pocklington_third:
  assumes p: "1 < p" and F: "0 < F" "p - 1 = F * R" "p \<le> F * F * F"
    and digits: "R div F + 1 < R mod F" "R \<noteq> F * F"
    and r: "\<And>r. prime_order r \<Longrightarrow> r dvd p \<Longrightarrow> F dvd r - 1"
  shows "prime_order p"
proof (rule ccontr)
  assume "\<not> prime_order p"
  then obtain r s where rs: "p = r * s" "prime_order r" "1 < s" using prime_divisor[OF p] by blast
  have "1 < r" "F dvd r - 1" "F dvd p - 1" using rs r F(2) by (simp_all add: prime_order_def)
  then obtain a b where ab: "r = 1 + a * F" "s = 1 + b * F" "0 < a" "0 < b"
    using factors_form[OF rs(1) _ rs(3)] F(1) by blast
  have "F * R = F * (a * b * F + (a + b))" using F(2) rs(1) ab(1,2) by (simp add: algebra_simps)
  then have R: "R = a * b * F + (a + b)" using F(1) by (simp only: mult_cancel_left) linarith
  have "0 \<le> (a - 1) * (b - 1)" using ab(3,4) by simp
  then have sum: "a + b \<le> a * b + 1" by (simp add: algebra_simps)
  have "a * b * (F * F) < r * s" using ab F(1) by (simp add: algebra_simps) (simp add: add_pos_pos)
  then have "a * b * (F * F) < F * (F * F)" using rs(1) F(3) by (simp add: mult.assoc)
  then have less: "a * b < F" using F(1) by (simp add: mult_less_cancel_right)
  show False
  proof (cases "a + b < F")
    case True
    have "R mod F = a + b" "R div F = a * b" using True ab(3,4) by (simp_all add: R)
    then show False using digits(1) sum by linarith
  next
    case False
    then have "a + b = F" "a * b = F - 1" using sum less by linarith+
    then have "R = (F - 1) * F + F" by (simp add: R)
    then have "R = F * F" by (simp add: left_diff_distrib)
    with digits(2) show False by contradiction
  qed
qed

text \<open>Small primes by trial.\<close>

lemma prime_trial:
  assumes p: "1 < p" "p < int m * int m" and t: "list_all (\<lambda>k. p mod int k \<noteq> 0) [2..<m]"
  shows "prime_order p"
proof (rule ccontr)
  assume "\<not> prime_order p"
  then obtain r s where rs: "p = r * s" "prime_order r" "1 < s" using prime_divisor[OF p(1)] by blast
  have r: "1 < r" using rs(2) by (simp add: prime_order_def)
  have "\<not> (int m \<le> r \<and> int m \<le> s)"
  proof
    assume "int m \<le> r \<and> int m \<le> s"
    then have "int m * int m \<le> r * s" by (intro mult_mono) simp_all
    with p(2) rs(1) show False by simp
  qed
  then obtain k where k: "1 < k" "k < int m" "k dvd p" using rs(1,3) r by (metis dvd_triv_left dvd_triv_right not_less)
  then have "nat k \<in> set [2..<m]" by auto
  with t have "p mod int (nat k) \<noteq> 0" unfolding list_all_iff by (rule bspec)
  moreover have "int (nat k) = k" using k(1) by simp
  ultimately show False using k(3) by (simp only: dvd_eq_mod_eq_0)
qed

section \<open>Checked powers\<close>

text \<open>A computation of a power: each step squares, or multiplies by the base, and comes with the quotient of the
  division by the modulus and the remainder it leaves.\<close>

datatype chain_step = Squared int int | Times int int

definition int_square :: "int \<Rightarrow> int" where
  "int_square x = x * x"

fun power_chain :: "int \<Rightarrow> int \<Rightarrow> nat \<Rightarrow> int \<Rightarrow> chain_step list \<Rightarrow> nat \<Rightarrow> int \<Rightarrow> bool" where
  "power_chain p b n x [] m y \<longleftrightarrow> n = m \<and> x = y"
| "power_chain p b n x (Squared k x' # cs) m y \<longleftrightarrow> int_square x = p * k + x' \<and> power_chain p b (2 * n) x' cs m y"
| "power_chain p b n x (Times k x' # cs) m y \<longleftrightarrow> x * b = p * k + x' \<and> power_chain p b (n + 1) x' cs m y"

lemma power_chain_sound: "power_chain p b n x cs m y \<Longrightarrow> b ^ n mod p = x mod p \<Longrightarrow> b ^ m mod p = y mod p"
proof (induction p b n x cs m y rule: power_chain.induct)
  case (2 p b n x k x' cs m y)
  have "b ^ (2 * n) mod p = (b ^ n mod p) * (b ^ n mod p) mod p"
    by (simp only: mult_2 power_add mod_mult_eq)
  also have "\<dots> = int_square x mod p" unfolding 2(3) int_square_def by (rule mod_mult_eq)
  also have "\<dots> = x' mod p" using 2(2) by simp
  finally show ?case using 2 by simp
next
  case (3 p b n x k x' cs m y)
  have "b ^ (n + 1) mod p = (b ^ n mod p) * b mod p"
    by (simp only: Suc_eq_plus1[symmetric] power_Suc2 mod_mult_left_eq)
  also have "\<dots> = x * b mod p" unfolding 3(3) by (rule mod_mult_left_eq)
  also have "\<dots> = x' mod p" using 3(2) by simp
  finally show ?case using 3 by simp
qed simp

lemma power_chain_result: "power_chain p b 1 b cs m y \<Longrightarrow> b ^ m mod p = y mod p"
  by (erule power_chain_sound) simp

text \<open>The prime power \<open>q ^ Suc e\<close> divides \<open>r - 1\<close> for every prime divisor \<open>r\<close> of \<open>p\<close>, by an element of that order.\<close>

lemma order_certificate:
  assumes q: "prime_order q" and p: "1 < p" and b: "b ^ (nat q ^ Suc e) mod p = 1"
    and inverse: "(b ^ (nat q ^ e) - 1) * u mod p = 1" and r: "prime_order r" "r dvd p"
  shows "q ^ Suc e dvd r - 1"
proof (rule order_divides[OF r(1) q])
  have r1: "1 < r" using r(1) by (simp add: prime_order_def)
  have m: "x mod r = 1" if "x mod p = 1" for x
    using that r(2) r1 by (metis mod_mod_cancel mod_pos_pos_trivial zero_le_one)
  show "b ^ (nat q ^ Suc e) mod r = 1" using b by (rule m)
  show "\<not> r dvd b ^ (nat q ^ e) - 1"
  proof
    assume "r dvd b ^ (nat q ^ e) - 1"
    then have "(b ^ (nat q ^ e) - 1) * u mod r = 0" by simp
    with m[OF inverse] show False by simp
  qed
qed

lemma chain_order:
  assumes c: "power_chain p b 1 b cs m 1" and m: "m = nat q" and q: "prime_order q" and p: "1 < p"
    and u: "(b - 1) * u mod p = 1" and r: "prime_order r" "r dvd p"
  shows "q dvd r - 1"
proof -
  have "b ^ (nat q ^ Suc 0) mod p = 1" using power_chain_result[OF c] m p by simp
  moreover have "(b ^ (nat q ^ 0) - 1) * u mod p = 1" using u by simp
  ultimately have "q ^ Suc 0 dvd r - 1" by (rule order_certificate[OF q p _ _ r])
  then show ?thesis by simp
qed

lemma chain_order_two:
  assumes c: "power_chain p b 1 b cs m (p - 1)" and m: "m = 2 ^ e" and p: "1 < p" "odd p" and two: "prime_order 2"
    and r: "prime_order r" "r dvd p"
  shows "2 ^ Suc e dvd r - 1"
proof -
  have b: "b ^ (2 ^ e) mod p = (- 1) mod p"
    using power_chain_result[OF c] mod_diff_left_eq[of p p 1] by (simp add: m)
  have "b ^ (2 ^ Suc e) = b ^ (2 ^ e) * b ^ (2 ^ e)" by (simp only: power_Suc mult_2 power_add)
  then have "b ^ (2 ^ Suc e) mod p = (- 1) * (- 1) mod p" using mod_mult_cong[OF b b] by simp
  then have 1: "b ^ (nat 2 ^ Suc e) mod p = 1" using p(1) by simp
  obtain h where h: "p = 2 * h + 1" using p(2) by (elim oddE)
  have "(b ^ (2 ^ e) - 1) * h mod p = (- 1 - 1) * h mod p"
    by (rule mod_mult_cong[OF mod_diff_cong[OF b refl] refl])
  also have "(- 1 - 1) * h = 1 + p * (- 1)" using h by simp
  also have "\<dots> mod p = 1" using p(1) by (simp only: mod_mult_self2) simp
  finally have 2: "(b ^ (nat 2 ^ e) - 1) * h mod p = 1" by simp
  show ?thesis by (rule order_certificate[OF two p(1) 1 2 r])
qed

text \<open>An element whose power is minus one has no square root, and neither has the power to an odd multiple.\<close>

lemma chain_minus_one:
  assumes c: "power_chain p b 1 b cs m (p - 1)" and p: "1 < p" and h: "h = m * k" "odd k"
  shows "b ^ h mod p = p - 1"
proof -
  have b: "b ^ m mod p = (- 1) mod p"
    using power_chain_result[OF c] mod_diff_left_eq[of p p 1] by simp
  have "b ^ h mod p = (- 1) ^ k mod p" unfolding h(1) power_mult using b by (metis power_mod)
  also have "\<dots> = p - 1" using h(2) p by (simp add: zmod_minus1)
  finally show ?thesis .
qed

section \<open>Evaluation\<close>

text \<open>Addition of binary numbers in one pass, with a carry.\<close>

definition add_carry :: "num \<Rightarrow> num \<Rightarrow> num" where
  "add_carry m n = m + n + num.One"

lemma num_add:
  "num.Bit0 m + num.Bit0 n = num.Bit0 (m + n)" "num.Bit0 m + num.Bit1 n = num.Bit1 (m + n)"
  "num.Bit1 m + num.Bit0 n = num.Bit1 (m + n)" "num.Bit1 m + num.Bit1 n = num.Bit0 (add_carry m n)"
  "num.One + num.One = num.Bit0 num.One" "num.One + num.Bit0 n = num.Bit1 n" "num.One + num.Bit1 n = num.Bit0 (n + num.One)"
  "num.Bit0 n + num.One = num.Bit1 n" "num.Bit1 n + num.One = num.Bit0 (n + num.One)"
  by (simp_all add: add_carry_def num_eq_iff nat_of_num_add)

lemma num_add_carry:
  "add_carry (num.Bit0 m) (num.Bit0 n) = num.Bit1 (m + n)" "add_carry (num.Bit0 m) (num.Bit1 n) = num.Bit0 (add_carry m n)"
  "add_carry (num.Bit1 m) (num.Bit0 n) = num.Bit0 (add_carry m n)" "add_carry (num.Bit1 m) (num.Bit1 n) = num.Bit1 (add_carry m n)"
  "add_carry num.One num.One = num.Bit1 num.One" "add_carry num.One (num.Bit0 n) = num.Bit0 (n + num.One)"
  "add_carry num.One (num.Bit1 n) = num.Bit1 (n + num.One)" "add_carry (num.Bit0 n) num.One = num.Bit0 (n + num.One)"
  "add_carry (num.Bit1 n) num.One = num.Bit1 (n + num.One)"
  by (simp_all add: add_carry_def num_eq_iff nat_of_num_add)

lemma num_mult:
  "num.One * n = n" "num.Bit0 m * n = num.Bit0 (m * n)" "num.Bit1 m * n = n + num.Bit0 (m * n)" for m n :: num
  by (simp_all add: num_eq_iff nat_of_num_add nat_of_num_mult distrib_right)

lemma int_square_numeral: "int_square (numeral n) = numeral (Num.sqr n)"
  by (simp only: int_square_def Num.sqr_conv_mult numeral_mult)

lemmas chain_eval = power_chain.simps int_square_numeral Num.sqr.simps numeral_times_numeral numeral_plus_numeral
  numeral_One[symmetric] numeral_eq_iff num.inject num.distinct num_add num_add_carry num_mult simp_thms

end
