(* ===== verification/Even_Y.thy ===== *)
theory Even_Y
  imports Note_Crypto Curve_Modulus
begin

text \<open>
  The square root of \<^verbatim>\<open>wallets/src/note/keys.ts\<close>: a memo's event carries only the x coordinate of its
  ephemeral key, and \<^verbatim>\<open>recoverEvenY\<close> finds the even y of the curve point above it, by the algorithm of
  Tonelli and Shanks modulo \<open>BJJ_P\<close>.

  The loops over the exponent, the twos of \<open>BJJ_P - 1\<close> and the order of \<open>t\<close> end by their measures. The
  search for a non-residue, which in the source has no bound, takes \<open>BJJ_P\<close> as fuel, which is enough:
  \<open>nonresidue_found\<close> below shows that the search ends. The modulus is prime (\<open>prime_curve_modulus\<close>), and with
  that the recovery is shown to return the point itself for every point of the curve whose y is even.
\<close>

definition BJJ_P :: int where
  "BJJ_P = 21888242871839275222246405745257275088548364400416034343698204186575808495617"

definition BJJ_A :: int where "BJJ_A = 168700"
definition BJJ_D :: int where "BJJ_D = 168696"

definition modP :: "int \<Rightarrow> int" where
  "modP x = x mod BJJ_P"

text \<open>The loop of \<^verbatim>\<open>powP\<close>.\<close>

fun powP_loop :: "int \<Rightarrow> int \<Rightarrow> nat \<Rightarrow> int" where
  "powP_loop r b e =
     (if e = 0 then r
      else powP_loop (if odd e then (r * b) mod BJJ_P else r) ((b * b) mod BJJ_P) (e div 2))"

declare powP_loop.simps [simp del]

definition powP :: "int \<Rightarrow> nat \<Rightarrow> int" where
  "powP base exp1 = powP_loop 1 (modP base) exp1"

definition invP :: "int \<Rightarrow> wallet_error + int" where
  "invP x = (let r = modP x in
     if r = 0 then Inl (WError ''recoverEvenY: division by zero'')
     else Inr (powP r (nat (BJJ_P - 2))))"

text \<open>\<^verbatim>\<open>while ((q & 1n) === 0n) { q >>= 1n; s += 1n }\<close>\<close>

function split_twos :: "nat \<Rightarrow> nat \<Rightarrow> nat \<times> nat" where
  "split_twos q s = (if q \<noteq> 0 \<and> even q then split_twos (q div 2) (s + 1) else (q, s))"
  by pat_completeness auto
termination by (relation "measure fst") auto

declare split_twos.simps [simp del]

fun nonresidue :: "nat \<Rightarrow> int \<Rightarrow> int option" where
  "nonresidue 0 z = None"
| "nonresidue (Suc n) z =
     (if powP z (nat ((BJJ_P - 1) div 2)) \<noteq> BJJ_P - 1 then nonresidue n (z + 1) else Some z)"

text \<open>The inner loop: the least \<open>i\<close> with \<open>t2\<close> squared \<open>i\<close> times equal to one, or none below \<open>m\<close>.\<close>

function order_log :: "nat \<Rightarrow> int \<Rightarrow> nat \<Rightarrow> nat option" where
  "order_log m t2 i =
     (if t2 = 1 then Some i
      else if i + 1 \<ge> m then None
      else order_log m ((t2 * t2) mod BJJ_P) (i + 1))"
  by pat_completeness auto
termination by (relation "measure (\<lambda>(m, t2, i). m - i)") auto

declare order_log.simps [simp del]

lemma order_log_bounds: "order_log m t2 i = Some j \<Longrightarrow> i \<le> j \<and> (j < m \<or> j = i)"
proof (induction m t2 i rule: order_log.induct)
  case (1 m t2 i)
  then show ?case by (subst (asm) (2) order_log.simps) (auto split: if_splits)
qed

lemma order_log_less: "order_log m t 0 = Some i \<Longrightarrow> t \<noteq> 1 \<Longrightarrow> i < m"
  using order_log_bounds[of m "(t * t) mod BJJ_P" 1 i] by (subst (asm) order_log.simps) (auto split: if_splits)

function sqrt_loop :: "nat \<Rightarrow> int \<Rightarrow> int \<Rightarrow> int \<Rightarrow> wallet_error + int" where
  "sqrt_loop m c t r =
     (if t = 1 then Inr r
      else case order_log m t 0 of
        None \<Rightarrow> Inl (WError ''recoverEvenY: Tonelli-Shanks failed'')
      | Some i \<Rightarrow> let b = powP c (2 ^ (m - i - 1)); c' = (b * b) mod BJJ_P in
          sqrt_loop i c' ((t * c') mod BJJ_P) ((r * b) mod BJJ_P))"
  by pat_completeness auto
termination by (relation "measure (\<lambda>(m, c, t, r). m)") (auto dest: order_log_less)

declare sqrt_loop.simps [simp del]

definition sqrtP :: "int \<Rightarrow> wallet_error + int" where
  "sqrtP n = (let a = modP n in
     if a = 0 then Inr 0
     else if powP a (nat ((BJJ_P - 1) div 2)) \<noteq> 1
     then Inl (WError ''recoverEvenY: x has no y on the curve (non-residue)'')
     else (case split_twos (nat (BJJ_P - 1)) 0 of (q, s) \<Rightarrow>
       case nonresidue (nat BJJ_P) 2 of
         None \<Rightarrow> Inl (WError ''out of fuel'')
       | Some z \<Rightarrow> sqrt_loop s (powP z q) (powP a q) (powP a ((q + 1) div 2))))"

definition recoverEvenY :: "int \<Rightarrow> wallet_error + point" where
  "recoverEvenY x =
     (let x2 = modP (x * x);
          num = modP (1 - modP (BJJ_A * x2));
          den = modP (1 - modP (BJJ_D * x2))
      in ebind (invP den) (\<lambda>i.
         ebind (sqrtP (modP (num * i))) (\<lambda>y.
           Inr (modP x, if odd y then modP (BJJ_P - y) else y))))"

section \<open>What comes out\<close>

lemma BJJ_P_pos: "0 < BJJ_P" "odd BJJ_P" "1 < BJJ_P"
  by (simp_all add: BJJ_P_def)

lemma BJJ_P_FR: "BJJ_P = int FR_MODULUS"
  by (simp add: BJJ_P_def FR_MODULUS_def)

lemma modP_bounds: "0 \<le> modP x" "modP x < BJJ_P"
  using BJJ_P_pos by (simp_all add: modP_def)

lemma powP_loop_eq: "powP_loop r b e mod BJJ_P = r * b ^ e mod BJJ_P"
proof (induction r b e rule: powP_loop.induct)
  case (1 r b e)
  show ?case
  proof (cases "e = 0")
    case False
    let ?r = "if odd e then (r * b) mod BJJ_P else r"
    have "powP_loop r b e mod BJJ_P = ?r * ((b * b) mod BJJ_P) ^ (e div 2) mod BJJ_P"
      using 1 False by (subst powP_loop.simps) simp
    also have "\<dots> = (?r mod BJJ_P) * ((b * b) ^ (e div 2)) mod BJJ_P"
      by (rule mod_mult_cong) (simp_all add: power_mod)
    also have "\<dots> = (if odd e then r * b else r) * (b * b) ^ (e div 2) mod BJJ_P"
      by (simp add: mod_mult_left_eq)
    also have "(if odd e then r * b else r) * (b * b) ^ (e div 2) = r * b ^ e"
    proof -
      have "b ^ e = b ^ (2 * (e div 2) + e mod 2)" by simp
      also have "\<dots> = (b * b) ^ (e div 2) * b ^ (e mod 2)"
        by (simp only: power_add power_mult power2_eq_square)
      finally show ?thesis by (cases "odd e") (simp_all add: ac_simps odd_iff_mod_2_eq_one)
    qed
    finally show ?thesis .
  qed (simp add: powP_loop.simps)
qed

lemma powP_eq: "powP b e mod BJJ_P = b ^ e mod BJJ_P"
  by (simp add: powP_def powP_loop_eq modP_def power_mod)

text \<open>The invariant of the loop: the square of \<open>r\<close> is \<open>a\<close> times \<open>t\<close>.\<close>

lemma sqrt_loop_square:
  "sqrt_loop m c t r = Inr y \<Longrightarrow> r * r mod BJJ_P = a * t mod BJJ_P \<Longrightarrow> y * y mod BJJ_P = a mod BJJ_P"
proof (induction m c t r rule: sqrt_loop.induct)
  case (1 m c t r)
  show ?case
  proof (cases "t = 1")
    case True
    with "1.prems" show ?thesis by (subst (asm) sqrt_loop.simps) simp
  next
    case False
    then obtain i where i: "order_log m t 0 = Some i"
      using "1.prems"(1) by (subst (asm) sqrt_loop.simps) (auto split: option.splits)
    let ?b = "powP c (2 ^ (m - i - 1))" let ?c = "(?b * ?b) mod BJJ_P"
    have rec: "sqrt_loop i ?c ((t * ?c) mod BJJ_P) ((r * ?b) mod BJJ_P) = Inr y"
      using "1.prems"(1) i False by (subst (asm) sqrt_loop.simps) (simp add: Let_def)
    have "((r * ?b) mod BJJ_P) * ((r * ?b) mod BJJ_P) mod BJJ_P = (r * r) * (?b * ?b) mod BJJ_P"
      by (simp add: mod_mult_eq ac_simps)
    also have "\<dots> = (a * t) * (?b * ?b) mod BJJ_P" using "1.prems"(2) by (metis mod_mult_left_eq)
    also have "\<dots> = a * ((t * ?c) mod BJJ_P) mod BJJ_P" by (simp add: mod_mult_right_eq ac_simps)
    finally show ?thesis using "1.IH"[OF False i refl refl rec] by blast
  qed
qed

lemma split_twos_odd: "0 < q \<Longrightarrow> split_twos q s = (q', s') \<Longrightarrow> odd q'"
proof (induction q s rule: split_twos.induct)
  case (1 q s)
  then show ?case by (subst (asm) (2) split_twos.simps) (auto split: if_splits)
qed

lemma sqrtP_square:
  assumes "sqrtP n = Inr y"
  shows "y * y mod BJJ_P = n mod BJJ_P"
proof (cases "modP n = 0")
  case True
  with assms show ?thesis by (simp add: sqrtP_def modP_def)
next
  case False
  obtain q s where q: "split_twos (nat (BJJ_P - 1)) 0 = (q, s)" by fastforce
  have "odd q" using split_twos_odd[OF _ q] BJJ_P_pos by simp
  let ?a = "modP n"
  from assms False q obtain z where z: "sqrt_loop s (powP z q) (powP ?a q) (powP ?a ((q + 1) div 2)) = Inr y"
    by (auto simp: sqrtP_def Let_def split: if_splits option.splits)
  have "powP ?a ((q + 1) div 2) * powP ?a ((q + 1) div 2) mod BJJ_P = ?a ^ ((q + 1) div 2) * ?a ^ ((q + 1) div 2) mod BJJ_P"
    by (rule mod_mult_cong) (rule powP_eq)+
  also have "?a ^ ((q + 1) div 2) * ?a ^ ((q + 1) div 2) = ?a * ?a ^ q"
  proof -
    have "(q + 1) div 2 + (q + 1) div 2 = Suc q" using \<open>odd q\<close> by presburger
    then show ?thesis by (metis power_Suc power_add)
  qed
  also have "?a * ?a ^ q mod BJJ_P = ?a * powP ?a q mod BJJ_P"
    by (rule mod_mult_cong) (simp_all add: powP_eq)
  finally show ?thesis using sqrt_loop_square[OF z, of ?a] by (simp add: modP_def)
qed

lemma powP_range: "0 \<le> powP b e \<and> powP b e < BJJ_P"
proof -
  have "0 \<le> r \<Longrightarrow> r < BJJ_P \<Longrightarrow> 0 \<le> powP_loop r c e \<and> powP_loop r c e < BJJ_P" for r c e
  proof (induction r c e rule: powP_loop.induct)
    case (1 r b e)
    then show ?case using BJJ_P_pos by (subst (1 2) powP_loop.simps) auto
  qed
  then show ?thesis using BJJ_P_pos by (simp add: powP_def)
qed

lemma sqrt_loop_range: "sqrt_loop m c t r = Inr y \<Longrightarrow> 0 \<le> r \<Longrightarrow> r < BJJ_P \<Longrightarrow> 0 \<le> y \<and> y < BJJ_P"
proof (induction m c t r rule: sqrt_loop.induct)
  case (1 m c t r)
  show ?case
  proof (cases "t = 1")
    case True
    with "1.prems" show ?thesis by (subst (asm) sqrt_loop.simps) simp
  next
    case False
    then obtain i where i: "order_log m t 0 = Some i"
      using "1.prems"(1) by (subst (asm) sqrt_loop.simps) (auto split: option.splits)
    let ?b = "powP c (2 ^ (m - i - 1))" let ?c = "(?b * ?b) mod BJJ_P"
    have "sqrt_loop i ?c ((t * ?c) mod BJJ_P) ((r * ?b) mod BJJ_P) = Inr y"
      using "1.prems"(1) i False by (subst (asm) sqrt_loop.simps) (simp add: Let_def)
    with "1.IH"[OF False i refl refl this] BJJ_P_pos show ?thesis by simp
  qed
qed

lemma sqrtP_range: "sqrtP n = Inr y \<Longrightarrow> 0 \<le> y \<and> y < BJJ_P"
  using BJJ_P_pos powP_range sqrt_loop_range
  by (auto simp: sqrtP_def Let_def split: if_splits option.splits prod.splits; blast)

text \<open>The recovered point is on the curve, and its y is even, wherever the denominator has the inverse that
  \<^verbatim>\<open>invP\<close> computes.\<close>

lemma recoverEvenY_on_curve:
  assumes "recoverEvenY x = Inr (x', y)" and "modP (1 - BJJ_D * (x * x)) ^ nat (BJJ_P - 1) mod BJJ_P = 1"
  shows "x' = modP x" "0 \<le> y" "y < BJJ_P" "even y"
    "(BJJ_A * (x * x) + y * y) mod BJJ_P = (1 + BJJ_D * (x * x) * (y * y)) mod BJJ_P"
proof -
  let ?num = "modP (1 - modP (BJJ_A * modP (x * x)))" and ?den = "modP (1 - modP (BJJ_D * modP (x * x)))"
  have nd: "?num = modP (1 - BJJ_A * (x * x))" "?den = modP (1 - BJJ_D * (x * x))"
    by (simp_all add: modP_def mod_diff_right_eq mod_mult_right_eq)
  obtain i s where i: "invP ?den = Inr i" and s: "sqrtP (modP (?num * i)) = Inr s"
    and y: "x' = modP x" "y = (if odd s then modP (BJJ_P - s) else s)"
    using assms(1) by (auto simp: recoverEvenY_def Let_def)
  have sr: "0 \<le> s" "s < BJJ_P" using sqrtP_range[OF s] by auto
  show "x' = modP x" by (rule y(1))
  have ys: "y = (if odd s then BJJ_P - s else s)"
  proof (cases "odd s")
    case True
    then have "0 < s" using sr(1) by (cases "s = 0") auto
    then have "(BJJ_P - s) mod BJJ_P = BJJ_P - s" using sr(2) by (intro mod_pos_pos_trivial) auto
    then show ?thesis using True y(2) by (simp only: modP_def if_True)
  qed (simp add: y(2))
  then show "0 \<le> y" "even y" using sr BJJ_P_pos by auto
  show "y < BJJ_P" using y(2) sr modP_bounds by auto
  have "(BJJ_P - s) * (BJJ_P - s) mod BJJ_P = s * s mod BJJ_P"
  proof -
    have "(BJJ_P - s) * (BJJ_P - s) = s * s + BJJ_P * (BJJ_P - 2 * s)" by (simp add: algebra_simps)
    then show ?thesis by (metis mod_mult_self2)
  qed
  then have y2: "y * y mod BJJ_P = ?num * i mod BJJ_P"
    using sqrtP_square[OF s] by (simp add: ys modP_def)
  have "i = powP (modP ?den) (nat (BJJ_P - 2))" using i by (auto simp: invP_def Let_def split: if_splits)
  then have "i mod BJJ_P = ?den ^ nat (BJJ_P - 2) mod BJJ_P" by (simp add: powP_eq modP_def)
  then have "?den * i mod BJJ_P = ?den * ?den ^ nat (BJJ_P - 2) mod BJJ_P" by (metis mod_mult_right_eq)
  also have "?den * ?den ^ nat (BJJ_P - 2) = ?den ^ nat (BJJ_P - 1)"
  proof -
    have "nat (BJJ_P - 1) = Suc (nat (BJJ_P - 2))" using BJJ_P_pos(3) by simp
    then show ?thesis by (simp only: power_Suc)
  qed
  finally have di: "?den * i mod BJJ_P = 1" using assms(2) by (simp add: nd)
  have "?den * (y * y) mod BJJ_P = ?den * (?num * i) mod BJJ_P" by (rule mod_mult_cong) (simp_all add: y2)
  also have "\<dots> = ?num * (?den * i) mod BJJ_P" by (simp add: ac_simps)
  also have "\<dots> = ?num * 1 mod BJJ_P" using BJJ_P_pos(3) by (intro mod_mult_cong) (simp_all add: di)
  finally have "(1 - BJJ_D * (x * x)) * (y * y) mod BJJ_P = (1 - BJJ_A * (x * x)) mod BJJ_P"
    unfolding nd by (simp add: modP_def mod_mult_left_eq)
  then have "((1 - BJJ_D * (x * x)) * (y * y) + (BJJ_A * (x * x) + BJJ_D * (x * x) * (y * y))) mod BJJ_P =
      ((1 - BJJ_A * (x * x)) + (BJJ_A * (x * x) + BJJ_D * (x * x) * (y * y))) mod BJJ_P"
    by (rule mod_add_cong) simp
  moreover have "(1 - BJJ_D * (x * x)) * (y * y) + (BJJ_A * (x * x) + BJJ_D * (x * x) * (y * y)) = BJJ_A * (x * x) + y * y"
    "(1 - BJJ_A * (x * x)) + (BJJ_A * (x * x) + BJJ_D * (x * x) * (y * y)) = 1 + BJJ_D * (x * x) * (y * y)"
    by (simp_all add: algebra_simps)
  ultimately show "(BJJ_A * (x * x) + y * y) mod BJJ_P = (1 + BJJ_D * (x * x) * (y * y)) mod BJJ_P" by simp
qed

section \<open>What goes in comes out\<close>

lemma BJJ_P_curve: "BJJ_P = curve_modulus"
  by (simp add: BJJ_P_def)

lemma prime_BJJ_P: "prime_order BJJ_P"
  unfolding BJJ_P_curve by (rule prime_curve_modulus)

lemma mod_BJJ_P_zero: "x mod BJJ_P = 0 \<longleftrightarrow> BJJ_P dvd x"
  by (simp only: dvd_eq_mod_eq_0)

lemma small_not_dvd: "0 < x \<Longrightarrow> x < BJJ_P \<Longrightarrow> \<not> BJJ_P dvd x"
  using zdvd_not_zless by blast

text \<open>The search for a non-residue ends.\<close>

lemma nonresidue_some:
  "nonresidue n z = Some z' \<Longrightarrow> powP z' (nat ((BJJ_P - 1) div 2)) = BJJ_P - 1"
  by (induction n arbitrary: z) (auto split: if_splits)

lemma nonresidue_reaches:
  "z \<le> w \<Longrightarrow> w < z + int n \<Longrightarrow> powP w (nat ((BJJ_P - 1) div 2)) = BJJ_P - 1 \<Longrightarrow> \<exists>z'. nonresidue n z = Some z'"
proof (induction n arbitrary: z)
  case (Suc n)
  show ?case
  proof (cases "powP z (nat ((BJJ_P - 1) div 2)) = BJJ_P - 1")
    case False
    then have "w \<noteq> z" using Suc.prems(3) by blast
    then have "\<exists>z'. nonresidue n (z + 1) = Some z'" using Suc.prems by (intro Suc.IH) simp_all
    with False show ?thesis by simp
  qed simp
qed simp

lemma powP_value: "b ^ e mod BJJ_P = v \<Longrightarrow> powP b e = v"
  using powP_eq[of b e] powP_range[of b e] by simp

lemma nonresidue_found:
  "\<exists>z. nonresidue (nat BJJ_P) 2 = Some z \<and> z ^ nat ((BJJ_P - 1) div 2) mod BJJ_P = BJJ_P - 1"
proof -
  note h = curve_nonresidue[folded BJJ_P_curve, THEN powP_value]
  have "\<exists>z. nonresidue (nat BJJ_P) 2 = Some z"
    by (rule nonresidue_reaches[OF _ _ h]) (simp_all add: BJJ_P_def)
  then obtain z where z: "nonresidue (nat BJJ_P) 2 = Some z" by blast
  have "z ^ nat ((BJJ_P - 1) div 2) mod BJJ_P = powP z (nat ((BJJ_P - 1) div 2)) mod BJJ_P" by (rule powP_eq[symmetric])
  also have "\<dots> = BJJ_P - 1" unfolding nonresidue_some[OF z] using BJJ_P_pos(3) by (intro mod_pos_pos_trivial) simp_all
  finally show ?thesis using z by blast
qed

text \<open>The least exponent is found when there is one below the bound.\<close>

lemma power_square: "((t * t) mod p) ^ (2 ^ k) mod p = t ^ (2 ^ Suc k) mod (p :: int)"
proof -
  have "((t * t) mod p) ^ (2 ^ k) mod p = (t ^ 2) ^ (2 ^ k) mod p" by (simp only: power_mod power2_eq_square)
  also have "(t ^ 2) ^ (2 ^ k) = t ^ (2 ^ Suc k)" by (simp only: power_mult[symmetric] power_Suc)
  finally show ?thesis .
qed

lemma order_log_exists:
  "t mod BJJ_P = t \<Longrightarrow> t ^ (2 ^ k) mod BJJ_P = 1 \<Longrightarrow> i + k < m \<Longrightarrow> \<exists>j. order_log m t i = Some j"
proof (induction k arbitrary: t i)
  case 0
  then have "t = 1" by simp
  then show ?case by (subst order_log.simps) simp
next
  case (Suc k)
  have "\<exists>j. order_log m ((t * t) mod BJJ_P) (i + 1) = Some j"
    using Suc.prems by (intro Suc.IH) (simp_all only: power_square, simp_all)
  then show ?case using Suc.prems(3) by (subst order_log.simps) simp
qed

lemma order_log_least:
  "order_log m t i = Some j \<Longrightarrow> t mod BJJ_P = t \<Longrightarrow> t ^ (2 ^ (j - i)) mod BJJ_P = 1 \<and>
    (\<forall>k < j - i. t ^ (2 ^ k) mod BJJ_P \<noteq> 1)"
proof (induction m t i rule: order_log.induct)
  case (1 m t i)
  show ?case
  proof (cases "t = 1")
    case True
    then show ?thesis using "1.prems" BJJ_P_pos(3) by (subst (asm) order_log.simps) simp
  next
    case False
    then have m: "\<not> i + 1 \<ge> m" and r: "order_log m ((t * t) mod BJJ_P) (i + 1) = Some j"
      using "1.prems"(1) by (subst (asm) order_log.simps; simp split: if_splits)+
    have ij: "i + 1 \<le> j" using order_log_bounds[OF r] by simp
    then have s: "j - i = Suc (j - (i + 1))" by simp
    have IH: "((t * t) mod BJJ_P) ^ (2 ^ (j - (i + 1))) mod BJJ_P = 1"
      "\<forall>k < j - (i + 1). ((t * t) mod BJJ_P) ^ (2 ^ k) mod BJJ_P \<noteq> 1"
      using "1.IH"[OF False m r] by simp_all
    show ?thesis
    proof (intro conjI allI impI)
      show "t ^ (2 ^ (j - i)) mod BJJ_P = 1" using IH(1) unfolding s power_square .
      fix k assume k: "k < j - i"
      show "t ^ (2 ^ k) mod BJJ_P \<noteq> 1"
      proof (cases k)
        case 0
        then show ?thesis using False "1.prems"(2) by simp
      next
        case (Suc l)
        then have "l < j - (i + 1)" using k by simp
        with IH(2) show ?thesis unfolding Suc power_square by blast
      qed
    qed
  qed
qed

text \<open>The loop keeps a power of \<open>c\<close> at minus one and that of \<open>t\<close> at one, so the order of \<open>t\<close> is always found.\<close>

lemma minus_one_cong: "x mod BJJ_P = BJJ_P - 1 \<longleftrightarrow> x mod BJJ_P = (- 1) mod BJJ_P"
proof -
  have "(- 1) mod BJJ_P = BJJ_P - 1" by (simp add: BJJ_P_def)
  then show ?thesis by simp
qed

lemma half_order:
  assumes "t ^ (2 ^ Suc k) mod BJJ_P = 1" "t ^ (2 ^ k) mod BJJ_P \<noteq> 1"
  shows "t ^ (2 ^ k) mod BJJ_P = (- 1) mod BJJ_P"
proof -
  let ?w = "t ^ (2 ^ k)"
  have "?w * ?w = t ^ (2 ^ Suc k)" by (simp only: power_add[symmetric] power_Suc mult_2)
  then have "?w * ?w mod BJJ_P = 1 * 1 mod BJJ_P" using assms(1) BJJ_P_pos(3) by simp
  from prime_order_root[OF prime_BJJ_P this] show ?thesis
  proof
    assume "BJJ_P dvd ?w - 1"
    then have "?w mod BJJ_P = 1 mod BJJ_P" by (simp only: mod_eq_dvd_iff)
    with assms(2) BJJ_P_pos(3) show ?thesis by simp
  next
    assume "BJJ_P dvd ?w + 1"
    then show ?thesis by (simp add: mod_eq_dvd_iff)
  qed
qed

lemma sqrt_loop_step:
  assumes i: "0 < i" "i < m" and c: "c ^ (2 ^ (m - 1)) mod BJJ_P = (- 1) mod BJJ_P"
    and t: "t ^ (2 ^ (i - 1)) mod BJJ_P = (- 1) mod BJJ_P"
    and c': "c' = (powP c (2 ^ (m - i - 1)) * powP c (2 ^ (m - i - 1))) mod BJJ_P"
  shows "c' ^ (2 ^ (i - 1)) mod BJJ_P = (- 1) mod BJJ_P" "((t * c') mod BJJ_P) ^ (2 ^ (i - 1)) mod BJJ_P = 1"
proof -
  let ?e = "2 ^ (m - i - 1) :: nat"
  have "c' mod BJJ_P = c ^ ?e * c ^ ?e mod BJJ_P"
    unfolding c' mod_mod_trivial by (rule mod_mult_cong) (rule powP_eq)+
  then have "c' ^ (2 ^ (i - 1)) mod BJJ_P = (c ^ ?e * c ^ ?e) ^ (2 ^ (i - 1)) mod BJJ_P" by (metis power_mod)
  also have "(c ^ ?e * c ^ ?e) ^ (2 ^ (i - 1)) = c ^ (2 ^ (m - 1))"
  proof -
    have "(?e + ?e) * 2 ^ (i - 1) = 2 ^ (Suc (m - i - 1) + (i - 1))" by (simp only: power_add power_Suc mult_2)
    also have "Suc (m - i - 1) + (i - 1) = m - 1" using i by simp
    finally show ?thesis by (simp only: power_add[symmetric] power_mult[symmetric])
  qed
  finally show 1: "c' ^ (2 ^ (i - 1)) mod BJJ_P = (- 1) mod BJJ_P" using c by simp
  have "((t * c') mod BJJ_P) ^ (2 ^ (i - 1)) mod BJJ_P = t ^ (2 ^ (i - 1)) * c' ^ (2 ^ (i - 1)) mod BJJ_P"
    by (simp only: power_mod power_mult_distrib)
  also have "\<dots> = (- 1) * (- 1) mod BJJ_P" by (rule mod_mult_cong[OF t 1])
  finally show "((t * c') mod BJJ_P) ^ (2 ^ (i - 1)) mod BJJ_P = 1" using BJJ_P_pos(3) by simp
qed

lemma sqrt_loop_total:
  "0 < m \<Longrightarrow> c ^ (2 ^ (m - 1)) mod BJJ_P = (- 1) mod BJJ_P \<Longrightarrow> t ^ (2 ^ (m - 1)) mod BJJ_P = 1 \<Longrightarrow>
    t mod BJJ_P = t \<Longrightarrow> \<exists>y. sqrt_loop m c t r = Inr y"
proof (induction m c t r rule: sqrt_loop.induct)
  case (1 m c t r)
  show ?case
  proof (cases "t = 1")
    case True
    then show ?thesis by (subst sqrt_loop.simps) simp
  next
    case False
    obtain i where i: "order_log m t 0 = Some i"
      using order_log_exists[OF "1.prems"(4,3), of 0 m] "1.prems"(1) by auto
    note L = order_log_least[OF i "1.prems"(4), unfolded diff_zero]
    have im: "i < m" by (rule order_log_less[OF i False])
    have i0: "0 < i"
    proof (rule ccontr)
      assume "\<not> 0 < i"
      then show False using L False "1.prems"(4) by simp
    qed
    then obtain k where k: "i = Suc k" by (cases i) simp_all
    have w: "t ^ (2 ^ (i - 1)) mod BJJ_P = (- 1) mod BJJ_P"
      using half_order[of t k] L unfolding k by simp
    let ?b = "powP c (2 ^ (m - i - 1))" let ?c = "(?b * ?b) mod BJJ_P"
    note S = sqrt_loop_step[OF i0 im "1.prems"(2) w refl]
    have "\<exists>y. sqrt_loop i ?c ((t * ?c) mod BJJ_P) ((r * ?b) mod BJJ_P) = Inr y"
      by (rule "1.IH"[OF False i refl refl i0 S(1) S(2) mod_mod_trivial])
    with i False show ?thesis by (subst sqrt_loop.simps) (simp add: Let_def)
  qed
qed

lemma split_twos_product: "split_twos q s = (q', s') \<Longrightarrow> q * 2 ^ s = q' * 2 ^ s' "
proof (induction q s rule: split_twos.induct)
  case (1 q s)
  show ?case
  proof (cases "q \<noteq> 0 \<and> even q")
    case True
    then have "split_twos (q div 2) (s + 1) = (q', s')" using "1.prems" by (subst (asm) split_twos.simps) simp
    with "1.IH"[OF True] True show ?thesis by (auto elim: evenE)
  next
    case False
    then show ?thesis using "1.prems" by (subst (asm) split_twos.simps) auto
  qed
qed

text \<open>A square has the root that \<^verbatim>\<open>sqrtP\<close> returns.\<close>

lemma sqrtP_total:
  assumes n: "n mod BJJ_P = v * v mod BJJ_P"
  shows "\<exists>y. sqrtP n = Inr y"
proof (cases "modP n = 0")
  case True
  then show ?thesis by (simp add: sqrtP_def)
next
  case False
  let ?a = "modP n" and ?h = "nat ((BJJ_P - 1) div 2)"
  have v: "\<not> BJJ_P dvd v" using False n by (auto simp: modP_def mod_BJJ_P_zero)
  have H: "nat (BJJ_P - 1) = ?h + ?h" by (simp add: BJJ_P_def)
  have "?a ^ ?h mod BJJ_P = (v * v) ^ ?h mod BJJ_P" unfolding modP_def n by (rule power_mod)
  also have "(v * v) ^ ?h = v ^ nat (BJJ_P - 1)" by (simp only: H power_add power_mult_distrib)
  also have "\<dots> mod BJJ_P = 1" by (rule fermat[OF prime_BJJ_P v])
  finally have a: "?a ^ ?h mod BJJ_P = 1" .
  obtain q s where q: "split_twos (nat (BJJ_P - 1)) 0 = (q, s)" by fastforce
  have odd: "odd q" using split_twos_odd[OF _ q] BJJ_P_pos by simp
  have qs: "nat (BJJ_P - 1) = q * 2 ^ s" using split_twos_product[OF q] by simp
  have "even (nat (BJJ_P - 1))" by (simp add: BJJ_P_def)
  then have "s \<noteq> 0" using odd qs by (metis power_0 mult.right_neutral)
  then obtain k where k: "s = Suc k" by (cases s) simp_all
  have h: "?h = q * 2 ^ k" using qs H by (simp add: k)
  obtain z where z: "nonresidue (nat BJJ_P) 2 = Some z" "z ^ ?h mod BJJ_P = BJJ_P - 1" using nonresidue_found by blast
  have pw: "powP b q ^ (2 ^ (s - 1)) mod BJJ_P = b ^ ?h mod BJJ_P" for b
  proof -
    have "powP b q ^ (2 ^ (s - 1)) mod BJJ_P = (b ^ q) ^ (2 ^ (s - 1)) mod BJJ_P" by (metis power_mod powP_eq)
    then show ?thesis by (simp add: power_mult[symmetric] h k)
  qed
  have "\<exists>y. sqrt_loop s (powP z q) (powP ?a q) (powP ?a ((q + 1) div 2)) = Inr y"
  proof (rule sqrt_loop_total)
    show "powP z q ^ (2 ^ (s - 1)) mod BJJ_P = (- 1) mod BJJ_P" using pw z(2) minus_one_cong by metis
    show "powP ?a q ^ (2 ^ (s - 1)) mod BJJ_P = 1" using pw a by metis
    show "powP ?a q mod BJJ_P = powP ?a q" using powP_range[of ?a q] by (intro mod_pos_pos_trivial) simp_all
    show "0 < s" by (simp add: k)
  qed
  then show ?thesis using False q z(1) powP_value[OF a] by (simp add: sqrtP_def Let_def)
qed

text \<open>For a point of the curve the denominator has an inverse.\<close>

definition on_curve :: "point \<Rightarrow> bool" where
  "on_curve P \<longleftrightarrow> (case P of (x, y) \<Rightarrow> 0 \<le> x \<and> x < BJJ_P \<and> 0 \<le> y \<and> y < BJJ_P \<and>
     (BJJ_A * (x * x) + y * y) mod BJJ_P = (1 + BJJ_D * (x * x) * (y * y)) mod BJJ_P)"

lemma denominator_nonzero:
  assumes e: "(BJJ_A * (x * x) + y * y) mod BJJ_P = (1 + BJJ_D * (x * x) * (y * y)) mod BJJ_P"
  shows "\<not> BJJ_P dvd 1 - BJJ_D * (x * x)"
proof
  let ?u = "x * x" and ?v = "y * y"
  assume d: "BJJ_P dvd 1 - BJJ_D * ?u"
  have "BJJ_P dvd (BJJ_A * ?u + ?v) - (1 + BJJ_D * ?u * ?v)" using e by (simp only: mod_eq_dvd_iff)
  from dvd_diff[OF this dvd_mult2[OF d, of ?v]]
  have "BJJ_P dvd (BJJ_A * ?u + ?v) - (1 + BJJ_D * ?u * ?v) - (1 - BJJ_D * ?u) * ?v" .
  then have "BJJ_P dvd BJJ_A * ?u - 1" by (simp add: algebra_simps)
  then have "BJJ_P dvd (BJJ_A * ?u - 1) + (1 - BJJ_D * ?u)" using d by (rule dvd_add)
  moreover have "(BJJ_A * ?u - 1) + (1 - BJJ_D * ?u) = 4 * ?u" by (simp add: BJJ_A_def BJJ_D_def)
  moreover have "\<not> BJJ_P dvd 4" by (rule small_not_dvd) (simp_all add: BJJ_P_def)
  ultimately have "BJJ_P dvd ?u" using prime_order_cancel[OF prime_BJJ_P] by metis
  then have "BJJ_P dvd BJJ_D * ?u" by (rule dvd_mult)
  from dvd_add[OF d this] have "BJJ_P dvd 1" by simp
  then show False using BJJ_P_pos(3) by simp
qed

lemma curve_quotient:
  assumes e: "(BJJ_A * (x * x) + y * y) mod BJJ_P = (1 + BJJ_D * (x * x) * (y * y)) mod BJJ_P"
    and i: "(1 - BJJ_D * (x * x)) * i mod BJJ_P = 1"
  shows "(1 - BJJ_A * (x * x)) * i mod BJJ_P = y * y mod BJJ_P"
proof -
  let ?u = "x * x" and ?v = "y * y"
  have "BJJ_P dvd ((BJJ_A * ?u + ?v) - (1 + BJJ_D * ?u * ?v)) * i" using e by (intro dvd_mult2) (simp only: mod_eq_dvd_iff)
  moreover have "BJJ_P dvd (1 - (1 - BJJ_D * ?u) * i) * ?v"
    using i BJJ_P_pos(3) by (intro dvd_mult2) (metis mod_eq_dvd_iff mod_pos_pos_trivial zero_le_one)
  ultimately have "BJJ_P dvd ((BJJ_A * ?u + ?v) - (1 + BJJ_D * ?u * ?v)) * i + (1 - (1 - BJJ_D * ?u) * i) * ?v" by (rule dvd_add)
  then have "BJJ_P dvd ?v - (1 - BJJ_A * ?u) * i" by (simp add: algebra_simps)
  then show ?thesis by (simp only: mod_eq_dvd_iff dvd_diff_commute)
qed

lemma invP_inverse:
  assumes "\<not> BJJ_P dvd x"
  obtains i where "invP x = Inr i" "x * i mod BJJ_P = 1"
proof -
  let ?i = "powP (modP x) (nat (BJJ_P - 2))"
  have "modP x \<noteq> 0" using assms by (simp add: modP_def mod_BJJ_P_zero)
  then have "invP x = Inr ?i" by (simp add: invP_def Let_def)
  moreover have "x * ?i mod BJJ_P = x * x ^ nat (BJJ_P - 2) mod BJJ_P"
    by (rule mod_mult_cong[OF refl]) (simp add: powP_eq modP_def power_mod)
  moreover have "x * x ^ nat (BJJ_P - 2) = x ^ nat (BJJ_P - 1)"
  proof -
    have "nat (BJJ_P - 1) = Suc (nat (BJJ_P - 2))" by (simp add: BJJ_P_def)
    then show ?thesis by (simp only: power_Suc)
  qed
  ultimately show thesis using that fermat[OF prime_BJJ_P assms] by simp
qed

text \<open>The even root is the y of the point.\<close>

lemma even_root:
  assumes y: "0 \<le> y" "y < BJJ_P" "even y" and s: "0 \<le> s" "s < BJJ_P" "s * s mod BJJ_P = y * y mod BJJ_P"
  shows "(if odd s then modP (BJJ_P - s) else s) = y"
proof -
  have "s = y \<or> s + y = BJJ_P \<or> s + y = 0"
  proof -
    from prime_order_root[OF prime_BJJ_P s(3)] consider k where "s - y = BJJ_P * k" | k where "s + y = BJJ_P * k"
      unfolding dvd_def by blast
    then show ?thesis
    proof cases
      case 1
      have "- 1 < k" "k < 1"
        using 1 y s BJJ_P_pos(1) mult_less_cancel_left_pos[of BJJ_P "- 1" k] mult_less_cancel_left_pos[of BJJ_P k 1] by linarith+
      then have "k = 0" by linarith
      then show ?thesis using 1 by simp
    next
      case 2
      have "k < 2" "- 1 < k"
        using 2 y s BJJ_P_pos(1) mult_less_cancel_left_pos[of BJJ_P k 2] mult_less_cancel_left_pos[of BJJ_P "- 1" k] by linarith+
      then have "k = 0 \<or> k = 1" by auto
      then show ?thesis using 2 by auto
    qed
  qed
  then show ?thesis
  proof (elim disjE)
    assume e: "s + y = BJJ_P"
    then have "odd s" using y(3) BJJ_P_pos(2) by presburger
    moreover have "BJJ_P - s = y" using e by simp
    ultimately show ?thesis using y(1,2) by (simp add: modP_def)
  next
    assume "s + y = 0"
    then have "s = 0" "y = 0" using y(1) s(1) by linarith+
    then show ?thesis by simp
  qed (use y s in auto)
qed

lemma recoverEvenY_point:
  assumes P: "on_curve (x, y)" and ev: "even y"
  shows "recoverEvenY x = Inr (x, y)"
proof -
  have r: "0 \<le> x" "x < BJJ_P" "0 \<le> y" "y < BJJ_P" and
    e: "(BJJ_A * (x * x) + y * y) mod BJJ_P = (1 + BJJ_D * (x * x) * (y * y)) mod BJJ_P"
    using P by (simp_all add: on_curve_def)
  let ?num = "modP (1 - modP (BJJ_A * modP (x * x)))" and ?den = "modP (1 - modP (BJJ_D * modP (x * x)))"
  have nd: "?num = modP (1 - BJJ_A * (x * x))" "?den = modP (1 - BJJ_D * (x * x))"
    by (simp_all add: modP_def mod_diff_right_eq mod_mult_right_eq)
  have "\<not> BJJ_P dvd ?den" using denominator_nonzero[OF e] unfolding nd(2) unfolding modP_def by (simp add: dvd_mod_iff)
  then obtain i where i: "invP ?den = Inr i" "?den * i mod BJJ_P = 1" by (rule invP_inverse)
  have "(1 - BJJ_D * (x * x)) * i mod BJJ_P = 1" using i(2) unfolding nd(2) unfolding modP_def by (simp only: mod_mult_left_eq)
  from curve_quotient[OF e this] have q: "modP (?num * i) mod BJJ_P = y * y mod BJJ_P"
    unfolding nd by (simp add: modP_def mod_mult_left_eq)
  obtain s where s: "sqrtP (modP (?num * i)) = Inr s" using sqrtP_total[OF q] by blast
  have "s * s mod BJJ_P = y * y mod BJJ_P" using sqrtP_square[OF s] q by simp
  from even_root[OF r(3,4) ev _ _ this] sqrtP_range[OF s]
  have "(if odd s then modP (BJJ_P - s) else s) = y" by simp
  moreover have "modP x = x" using r(1,2) by (simp add: modP_def)
  ultimately show ?thesis using i(1) s by (simp add: recoverEvenY_def Let_def)
qed

lemma recoverEvenY_iff:
  assumes x: "0 \<le> x" "x < BJJ_P"
  shows "recoverEvenY x = Inr (x', y) \<longleftrightarrow> on_curve (x', y) \<and> x' = x \<and> even y"
proof
  assume r: "recoverEvenY x = Inr (x', y)"
  have "modP (1 - BJJ_D * (x * x)) \<noteq> 0"
  proof
    assume "modP (1 - BJJ_D * (x * x)) = 0"
    then have "modP (1 - modP (BJJ_D * modP (x * x))) = 0"
      by (simp add: modP_def mod_diff_right_eq mod_mult_right_eq)
    then have "invP (modP (1 - modP (BJJ_D * modP (x * x)))) = Inl (WError ''recoverEvenY: division by zero'')"
      by (simp add: invP_def Let_def modP_def)
    with r show False by (simp add: recoverEvenY_def Let_def)
  qed
  then have "\<not> BJJ_P dvd modP (1 - BJJ_D * (x * x))" by (simp add: modP_def dvd_mod_iff mod_BJJ_P_zero)
  note p = recoverEvenY_on_curve[OF r fermat[OF prime_BJJ_P this]]
  have "x' = x" using p(1) x by (simp add: modP_def)
  then show "on_curve (x', y) \<and> x' = x \<and> even y" using p(2-5) x by (simp add: on_curve_def)
next
  assume "on_curve (x', y) \<and> x' = x \<and> even y"
  then show "recoverEvenY x = Inr (x', y)" using recoverEvenY_point by blast
qed

end
