(* ===== verification/Note_Scan.thy ===== *)
theory Note_Scan
  imports Key_Repository Even_Y "HOL-Library.Product_Lexorder"
begin

text \<open>
  Finding the wallet's notes on chain: the note processor (\<^verbatim>\<open>wallets/src/sync/NoteProcessor.ts\<close>), the
  repository of notes (\<^verbatim>\<open>state/UtxoRepository.ts\<close>) and the scan engine (\<^verbatim>\<open>sync/ScanEngine.ts\<close>) with its
  mirror of the note tree.

  The contract behind \<^verbatim>\<open>queryFilter\<close> and its provider are functions of a world \<open>'w\<close>; a query that throws
  answers \<open>None\<close>. A log's arguments are the decoded integers; a log that carries none is \<open>None\<close>.
\<close>

section \<open>Notes and events\<close>

record WalletNote =
  wn_note :: Note
  wn_commitment :: fr
  wn_leafIndex :: int
  wn_nullifier :: fr
  wn_spendScalar :: fr
  wn_isIncoming :: bool
  wn_derivationIndex :: int
  wn_spent :: bool

datatype event_type = NEW_NOTE | NEW_MEMO

record UnprocessedEvent =
  ev_type :: event_type
  ev_blockNumber :: int
  ev_leafIndex :: int
  ev_commitment :: int
  ev_ephemeralX :: int
  ev_packedCiphertext :: "int list"
  ev_tag :: "int option"
  ev_cekWrap :: "int option"

section \<open>The processor\<close>

definition ASSET_MODULUS :: nat where "ASSET_MODULUS = 2 ^ 160"

datatype RecoverOutcome = Recovered WalletNote | LeafMismatch | Rejected

definition recover ::
  "note_lib \<Rightarrow> fr \<Rightarrow> int list \<Rightarrow> fr \<Rightarrow> int \<Rightarrow> fr \<Rightarrow> bool \<Rightarrow> int \<Rightarrow> wallet_error + RecoverOutcome"
where
  "recover L cek packedCiphertext commitment leafIndex spendScalar isIncoming derivationIndex =
     ebind (emap toFr packedCiphertext) (\<lambda>ciphertext.
     ebind (demDecrypt L cek ciphertext) (\<lambda>plaintext.
     let ps = computePsi L cek;
         note1 = \<lparr>noteVersion = plaintext ! 0, assetId = plaintext ! 1, noteType = plaintext ! 2,
           conditionsHash = plaintext ! 3, n_value = int (plaintext ! 4), n_owner = plaintext ! 5,
           psi = ps, parents = plaintext ! 6\<rparr> in
     ebind (leaf L note1) (\<lambda>rebuilt.
       if rebuilt \<noteq> commitment then Inr LeafMismatch
       else if noteType note1 \<noteq> NOTE_TYPE_STANDARD then Inr Rejected
       else if n_owner note1 = 0 then Inr Rejected
       else if assetId note1 \<ge> ASSET_MODULUS then Inr Rejected
       else ebind (pubkeyOwner L (publicKey L spendScalar)) (\<lambda>selfOwner.
         if n_owner note1 \<noteq> selfOwner then Inr Rejected
         else ebind (new_Fr leafIndex) (\<lambda>li.
           Inr (Recovered \<lparr>wn_note = note1, wn_commitment = commitment, wn_leafIndex = leafIndex,
             wn_nullifier = computeNullifier L ps li, wn_spendScalar = spendScalar, wn_isIncoming = isIncoming,
             wn_derivationIndex = derivationIndex, wn_spent = False\<rparr>))))))"

text \<open>The loop over the key versions: found, refused for another reason, or no version opens it. A throw of
  \<^verbatim>\<open>deriveCek\<close> leaves the loop, a throw of \<open>recover\<close> means the next version.\<close>

datatype version_result = Found WalletNote | Refused | Unopenable

fun try_versions ::
  "note_lib \<Rightarrow> fr \<Rightarrow> int list \<Rightarrow> fr \<Rightarrow> int \<Rightarrow> fr \<Rightarrow> int \<Rightarrow> ComplianceKeyEpoch list \<Rightarrow> wallet_error + version_result"
where
  "try_versions L eph packed commitment leafIndex spendScalar index [] = Inr Unopenable"
| "try_versions L eph packed commitment leafIndex spendScalar index (e # es) =
     ebind (deriveCek L eph (ep_pk e)) (\<lambda>cek.
       case recover L cek packed commitment leafIndex spendScalar False index of
         Inr (Recovered note1) \<Rightarrow> Inr (Found note1)
       | Inr Rejected \<Rightarrow> Inr Refused
       | _ \<Rightarrow> try_versions L eph packed commitment leafIndex spendScalar index es)"

record processor =
  np_repo :: key_repository
  np_unopenable :: nat

definition processNewNote ::
  "note_lib \<Rightarrow> fr \<Rightarrow> ring \<Rightarrow> UnprocessedEvent \<Rightarrow> processor \<Rightarrow> WalletNote option \<times> processor"
where
  "processNewNote L skRoot ring ev p = (case matchSelfTag (ev_ephemeralX ev) (np_repo p) of
     (Inl e, k) \<Rightarrow> (None, p\<lparr>np_repo := k\<rparr>)
   | (Inr None, k) \<Rightarrow> (None, p\<lparr>np_repo := k\<rparr>)
   | (Inr (Some (eph, index)), k) \<Rightarrow> let p1 = p\<lparr>np_repo := k\<rparr> in
       (case ebind (toFr (ev_commitment ev)) (\<lambda>commitment.
             ebind (getSelfSpendKey L skRoot) (\<lambda>spendScalar.
               try_versions L eph (ev_packedCiphertext ev) commitment (ev_leafIndex ev) spendScalar index
                 (candidatesFor ring (Some (ev_blockNumber ev))))) of
          Inl e \<Rightarrow> (None, p1)
        | Inr (Found note1) \<Rightarrow> (Some note1, p1)
        | Inr Refused \<Rightarrow> (None, p1)
        | Inr Unopenable \<Rightarrow> (None, p1\<lparr>np_unopenable := np_unopenable p1 + 1\<rparr>)))"

definition processMemo ::
  "note_lib \<Rightarrow> UnprocessedEvent \<Rightarrow> processor \<Rightarrow> WalletNote option \<times> processor"
where
  "processMemo L ev p = (case (ev_tag ev, ev_cekWrap ev) of
     (Some tag, Some cekWrap) \<Rightarrow>
       (case matchIncomingTag tag (np_repo p) of
          (Inl e, k) \<Rightarrow> (None, p\<lparr>np_repo := k\<rparr>)
        | (Inr None, k) \<Rightarrow> (None, p\<lparr>np_repo := k\<rparr>)
        | (Inr (Some (inKey, index)), k) \<Rightarrow> let p1 = p\<lparr>np_repo := k\<rparr> in
            (case ebind (recoverEvenY (ev_ephemeralX ev)) (\<lambda>ephPub.
                  ebind (new_Fr cekWrap) (\<lambda>w.
                  ebind (unwrapCek L w inKey ephPub) (\<lambda>cek.
                  ebind (toFr (ev_commitment ev)) (\<lambda>commitment.
                    recover L cek (ev_packedCiphertext ev) commitment (ev_leafIndex ev) inKey True index)))) of
               Inr (Recovered note1) \<Rightarrow> (Some note1, p1\<lparr>np_repo := recordIncomingMatch index (np_repo p1)\<rparr>)
             | _ \<Rightarrow> (None, p1)))
   | _ \<Rightarrow> (None, p))"

definition process ::
  "note_lib \<Rightarrow> fr \<Rightarrow> ring \<Rightarrow> UnprocessedEvent \<Rightarrow> processor \<Rightarrow> WalletNote option \<times> processor"
where
  "process L skRoot ring ev p = (case ev_type ev of
     NEW_NOTE \<Rightarrow> processNewNote L skRoot ring ev p
   | NEW_MEMO \<Rightarrow> processMemo L ev p)"

section \<open>The notes held\<close>

type_synonym utxos = "(fr \<times> WalletNote) list"

definition addNote :: "WalletNote \<Rightarrow> utxos \<Rightarrow> utxos" where
  "addNote note1 us = (case map_of us (wn_nullifier note1) of
     Some existing \<Rightarrow> AList.update (wn_nullifier note1) (note1\<lparr>wn_spent := wn_spent existing \<or> wn_spent note1\<rparr>) us
   | None \<Rightarrow> AList.update (wn_nullifier note1) note1 us)"

definition markSpent :: "fr \<Rightarrow> utxos \<Rightarrow> bool \<times> utxos" where
  "markSpent nullifier us = (case map_of us nullifier of
     Some note1 \<Rightarrow> if \<not> wn_spent note1 then (True, AList.update nullifier (note1\<lparr>wn_spent := True\<rparr>) us) else (False, us)
   | None \<Rightarrow> (False, us))"

definition getAllNotes :: "utxos \<Rightarrow> WalletNote list" where
  "getAllNotes us = map snd us"

definition getUnspentNotes :: "utxos \<Rightarrow> WalletNote list" where
  "getUnspentNotes us = filter (\<lambda>n. \<not> wn_spent n) (map snd us)"

definition getBalance :: "fr option \<Rightarrow> utxos \<Rightarrow> int" where
  "getBalance want us = fold (\<lambda>n total.
     case want of Some a \<Rightarrow> if assetId (wn_note n) \<noteq> a then total else total + n_value (wn_note n)
     | None \<Rightarrow> total + n_value (wn_note n)) (getUnspentNotes us) 0"

section \<open>The scan engine\<close>

datatype log_name = NewNote | NewPrivateMemo | OtherLog

record log_args =
  la_leafIndex :: int
  la_commitment :: int
  la_ephemeralX :: int
  la_packedCiphertext :: "int list"
  la_tag :: int
  la_cekWrap :: int

record scan_log =
  sl_name :: log_name
  sl_blockNumber :: int
  sl_index :: int
  sl_args :: "log_args option"

record null_log =
  nl_blockNumber :: int
  nl_nullifierHash :: "fr option"

text \<open>The indices of a filter, or all of them; the first block; the answer.\<close>

record 'w contract =
  ct_notes :: "int list option \<Rightarrow> int \<Rightarrow> 'w \<Rightarrow> scan_log list option \<times> 'w"
  ct_memos :: "int list option \<Rightarrow> int \<Rightarrow> 'w \<Rightarrow> scan_log list option \<times> 'w"
  ct_nullifiers :: "int \<Rightarrow> 'w \<Rightarrow> null_log list option \<times> 'w"
  ct_head :: "('w \<Rightarrow> int option \<times> 'w) option"

record 'w engine =
  en_lib :: note_lib
  en_contract :: "'w contract"
  en_skRoot :: fr
  en_ring :: ring
  en_lookaheadWindow :: int
  en_deploymentBlock :: int
  en_finalityDepth :: int

record 'w scan_state =
  ss_processor :: processor
  ss_utxos :: utxos
  ss_tree :: "LeanIMT option"
  ss_world :: 'w

type_synonym ('w, 'a) scan_action = "('w scan_state, wallet_error, 'a) action"

definition query :: "('w \<Rightarrow> 'x option \<times> 'w) \<Rightarrow> ('w, 'x) scan_action" where
  "query q s = (case q (ss_world s) of
     (None, w) \<Rightarrow> (Inl (WError ''rpc''), s\<lparr>ss_world := w\<rparr>)
   | (Some x, w) \<Rightarrow> (Inr x, s\<lparr>ss_world := w\<rparr>))"

definition finalizedBlock :: "'w engine \<Rightarrow> ('w, int) scan_action" where
  "finalizedBlock E =
     (if en_finalityDepth E \<le> 0 then sret MAX_SAFE_INTEGER
      else case ct_head (en_contract E) of
        None \<Rightarrow> sret MAX_SAFE_INTEGER
      | Some head \<Rightarrow> sbind (query head) (\<lambda>h. sret (h - en_finalityDepth E)))"

definition scanFloor :: "'w engine \<Rightarrow> int \<Rightarrow> int" where
  "scanFloor E fromBlock = min fromBlock (en_deploymentBlock E)"

definition event_of :: "event_type \<Rightarrow> scan_log \<Rightarrow> log_args \<Rightarrow> UnprocessedEvent" where
  "event_of t log a = \<lparr>ev_type = t, ev_blockNumber = sl_blockNumber log, ev_leafIndex = la_leafIndex a,
     ev_commitment = la_commitment a, ev_ephemeralX = la_ephemeralX a, ev_packedCiphertext = la_packedCiphertext a,
     ev_tag = (if t = NEW_MEMO then Some (la_tag a) else None),
     ev_cekWrap = (if t = NEW_MEMO then Some (la_cekWrap a) else None)\<rparr>"

definition process_event :: "'w engine \<Rightarrow> UnprocessedEvent \<Rightarrow> 'w scan_state \<Rightarrow> 'w scan_state" where
  "process_event E ev s = (case process (en_lib E) (en_skRoot E) (en_ring E) ev (ss_processor s) of
     (None, p) \<Rightarrow> s\<lparr>ss_processor := p\<rparr>
   | (Some note1, p) \<Rightarrow> s\<lparr>ss_processor := p, ss_utxos := addNote note1 (ss_utxos s)\<rparr>)"

definition processLog :: "'w engine \<Rightarrow> scan_log \<Rightarrow> log_args \<Rightarrow> 'w scan_state \<Rightarrow> 'w scan_state" where
  "processLog E log a s = (case sl_name log of
     NewNote \<Rightarrow> process_event E (event_of NEW_NOTE log a) s
   | NewPrivateMemo \<Rightarrow> process_event E (event_of NEW_MEMO log a) s
   | OtherLog \<Rightarrow> s)"

definition tree_insert :: "'w engine \<Rightarrow> int \<Rightarrow> ('w, unit) scan_action" where
  "tree_insert E commitment s = (case ss_tree s of
     None \<Rightarrow> (Inr (), s)
   | Some t \<Rightarrow> (case toFr commitment of
       Inl e \<Rightarrow> (Inl e, s)
     | Inr c \<Rightarrow> (case insert_leaf (poseidon2Hash (en_lib E)) c t of
         (Inl e, t') \<Rightarrow> (Inl (MerkleError e), s\<lparr>ss_tree := Some t'\<rparr>)
       | (Inr _, t') \<Rightarrow> (Inr (), s\<lparr>ss_tree := Some t'\<rparr>))))"

definition next_index :: "'w scan_state \<Rightarrow> int" where
  "next_index s = (case ss_tree s of None \<Rightarrow> 0 | Some t \<Rightarrow> int (nextLeafIndex t))"

text \<open>\<^verbatim>\<open>fetchLeafEvents\<close>: a later log with the same leaf index replaces an earlier one.\<close>

definition fetchLeafEvents :: "'w engine \<Rightarrow> int list \<Rightarrow> ('w, (int \<times> scan_log \<times> log_args) list) scan_action" where
  "fetchLeafEvents E indices =
     sbind (query (ct_notes (en_contract E) (Some indices) (en_deploymentBlock E))) (\<lambda>notes.
     sbind (query (ct_memos (en_contract E) (Some indices) (en_deploymentBlock E))) (\<lambda>memos.
       sret (fold (\<lambda>log byIndex. case sl_args log of
           None \<Rightarrow> byIndex
         | Some a \<Rightarrow> AList.update (la_leafIndex a) (log, a) byIndex) (notes @ memos) [])))"

text \<open>\<^verbatim>\<open>while (nextLeafIndex <= endIndex)\<close>: every turn inserts the next leaf, so there are at most as many as
  leaves are missing.\<close>

fun fill_gap :: "'w engine \<Rightarrow> (int \<times> scan_log \<times> log_args) list \<Rightarrow> nat \<Rightarrow> ('w, unit) scan_action" where
  "fill_gap E byIndex 0 s = (Inr (), s)"
| "fill_gap E byIndex (Suc n) s = (case map_of byIndex (next_index s) of
     None \<Rightarrow> (Inr (), s)
   | Some (log, a) \<Rightarrow> (case tree_insert E (la_commitment a) s of
       (Inl e, s1) \<Rightarrow> (Inl e, s1)
     | (Inr _, s1) \<Rightarrow> fill_gap E byIndex n (processLog E log a s1)))"

fun repair_loop :: "'w engine \<Rightarrow> nat \<Rightarrow> int \<Rightarrow> ('w, unit) scan_action" where
  "repair_loop E 0 endIndex s = (Inl (WError ''repairTreeGap: could not fetch all leaves''), s)"
| "repair_loop E (Suc n) endIndex s =
     (if endIndex < next_index s then (Inr (), s)
      else sbind (fetchLeafEvents E [next_index s..endIndex]) (\<lambda>byIndex.
           sbind (fill_gap E byIndex (nat (endIndex + 1 - next_index s))) (\<lambda>_ s1.
             if endIndex < next_index s1 then (Inr (), s1) else repair_loop E n endIndex s1)) s)"

definition repairTreeGap :: "'w engine \<Rightarrow> int \<Rightarrow> ('w, unit) scan_action" where
  "repairTreeGap E endIndex s = (if ss_tree s = None then (Inr (), s) else repair_loop E 8 endIndex s)"

definition scan_leaf_log :: "'w engine \<Rightarrow> scan_log \<Rightarrow> ('w, unit) scan_action" where
  "scan_leaf_log E log = (case sl_args log of
     None \<Rightarrow> sret ()
   | Some a \<Rightarrow>
       sbind sget (\<lambda>s.
       sbind (if ss_tree s = None then sret ()
              else sbind (if la_leafIndex a > next_index s then repairTreeGap E (la_leafIndex a - 1) else sret ()) (\<lambda>_.
                   sbind sget (\<lambda>s1. if la_leafIndex a = next_index s1 then tree_insert E (la_commitment a) else sret ())))
         (\<lambda>_. smodify (processLog E log a))))"

fun scan_leaf_logs :: "'w engine \<Rightarrow> scan_log list \<Rightarrow> ('w, unit) scan_action" where
  "scan_leaf_logs E [] = sret ()"
| "scan_leaf_logs E (log # logs) = sbind (scan_leaf_log E log) (\<lambda>_. scan_leaf_logs E logs)"

definition scan_null_log :: "null_log \<Rightarrow> 'w scan_state \<Rightarrow> 'w scan_state" where
  "scan_null_log log s = (case nl_nullifierHash log of
     None \<Rightarrow> s | Some n \<Rightarrow> s\<lparr>ss_utxos := snd (markSpent n (ss_utxos s))\<rparr>)"

definition scanOnce :: "'w engine \<Rightarrow> scan_log list \<Rightarrow> null_log list \<Rightarrow> ('w, unit) scan_action" where
  "scanOnce E allLogs nullLogs =
     sbind (scan_leaf_logs E allLogs) (\<lambda>_. smodify (fold scan_null_log nullLogs))"

definition fetchScanLogs :: "'w engine \<Rightarrow> int \<Rightarrow> ('w, scan_log list \<times> null_log list) scan_action" where
  "fetchScanLogs E fromBlock = (let lo = scanFloor E fromBlock in
     sbind (query (ct_notes (en_contract E) None lo)) (\<lambda>noteLogs.
     sbind (query (ct_memos (en_contract E) None lo)) (\<lambda>memoLogs.
     sbind (query (ct_nullifiers (en_contract E) lo)) (\<lambda>nullLogs.
     sbind (finalizedBlock E) (\<lambda>finalized.
       sret (sort_key (\<lambda>l. (sl_blockNumber l, sl_index l))
               (filter (\<lambda>l. sl_blockNumber l \<le> finalized) (noteLogs @ memoLogs)),
             filter (\<lambda>l. nl_blockNumber l \<le> finalized) nullLogs))))))"

definition on_keys :: "(key_repository, wallet_error, 'a) action \<Rightarrow> ('w, 'a) scan_action" where
  "on_keys act s = (case act (np_repo (ss_processor s)) of
     (r, k) \<Rightarrow> (r, s\<lparr>ss_processor := (ss_processor s)\<lparr>np_repo := k\<rparr>\<rparr>))"

fun scan_loop :: "'w engine \<Rightarrow> int \<Rightarrow> scan_log list \<Rightarrow> null_log list \<Rightarrow> nat \<Rightarrow> ('w, unit) scan_action" where
  "scan_loop E window leafLogs nullLogs 0 = sret ()"
| "scan_loop E window leafLogs nullLogs (Suc n) =
     sbind (scanOnce E leafLogs nullLogs) (\<lambda>_.
     sbind (on_keys (ensureSelfLookahead (en_lib E) (en_skRoot E) window)) (\<lambda>ext1.
     sbind (on_keys (ensureIncomingLookahead (en_lib E) (en_skRoot E) window)) (\<lambda>ext2.
       if \<not> ext1 \<and> \<not> ext2 then sret () else scan_loop E window leafLogs nullLogs n)))"

definition scanPasses :: "'w engine \<Rightarrow> int \<Rightarrow> int \<Rightarrow> ('w, unit) scan_action" where
  "scanPasses E fromBlock window =
     sbind (on_keys (ensureSelfLookahead (en_lib E) (en_skRoot E) window)) (\<lambda>_.
     sbind (on_keys (ensureIncomingLookahead (en_lib E) (en_skRoot E) window)) (\<lambda>_.
     sbind (fetchScanLogs E fromBlock) (\<lambda>(leafLogs, nullLogs).
       scan_loop E window leafLogs nullLogs 64)))"

definition engine_sync :: "'w engine \<Rightarrow> int \<Rightarrow> ('w, unit) scan_action" where
  "engine_sync E fromBlock = scanPasses E fromBlock (en_lookaheadWindow E)"

definition engine_probe :: "'w engine \<Rightarrow> int \<Rightarrow> int \<Rightarrow> ('w, bool) scan_action" where
  "engine_probe E fromBlock extraWindow =
     sbind sget (\<lambda>s. sbind (scanPasses E fromBlock (en_lookaheadWindow E + extraWindow)) (\<lambda>_.
     sbind sget (\<lambda>s'. sret (length (getAllNotes (ss_utxos s')) > length (getAllNotes (ss_utxos s))))))"

section \<open>What a decryption recovers\<close>

lemma emap_toFr: "\<forall>x \<in> set xs. x < FR_MODULUS \<Longrightarrow> emap toFr (map int xs) = Inr xs"
  by (induction xs) (simp_all add: toFr_def)

text \<open>The event of a minted note: its arguments are what the pool logs of it.\<close>

definition event_carries :: "note_lib \<Rightarrow> MintedNote \<Rightarrow> UnprocessedEvent \<Rightarrow> bool" where
  "event_carries L mn ev \<longleftrightarrow> ev_commitment ev = int (mn_commitment mn) \<and> ev_ephemeralX ev = fst (mn_ephPub mn) \<and>
     0 \<le> ev_leafIndex ev \<and> ev_leafIndex ev < 2 ^ 32 \<and>
     (\<exists>ct. demEncrypt L (mn_cek mn) (note_plaintext mn) = Inr ct \<and> ev_packedCiphertext ev = map int ct)"

text \<open>The note a wallet keeps for it.\<close>

definition wallet_note :: "note_lib \<Rightarrow> MintedNote \<Rightarrow> int \<Rightarrow> fr \<Rightarrow> bool \<Rightarrow> int \<Rightarrow> WalletNote" where
  "wallet_note L mn leafIndex spendScalar isIncoming index =
     \<lparr>wn_note = \<lparr>noteVersion = pn_noteVersion (mn_note mn), assetId = pn_assetId (mn_note mn),
        noteType = pn_noteType (mn_note mn), conditionsHash = pn_conditionsHash (mn_note mn),
        n_value = int (pn_value (mn_note mn)), n_owner = pn_owner (mn_note mn), psi = mn_psi mn,
        parents = pn_parents (mn_note mn)\<rparr>,
      wn_commitment = mn_commitment mn, wn_leafIndex = leafIndex,
      wn_nullifier = computeNullifier L (mn_psi mn) (nat leafIndex), wn_spendScalar = spendScalar,
      wn_isIncoming = isIncoming, wn_derivationIndex = index, wn_spent = False\<rparr>"

lemma recover_minted:
  assumes f: "finish L eph v own asset sk prnts pk = Inr mn" and ev: "event_carries L mn ev"
    and r: "own < FR_MODULUS" "own \<noteq> 0" "asset < 2 ^ 160" "prnts < FR_MODULUS"
    and o: "pubkeyOwner L (publicKey L spend) = Inr own"
  shows "recover L (mn_cek mn) (ev_packedCiphertext ev) (mn_commitment mn) (ev_leafIndex ev) spend isIn index =
    Inr (Recovered (wallet_note L mn (ev_leafIndex ev) spend isIn index))"
proof -
  note fi = finish_Inr[OF f]
  obtain ct where ct: "demEncrypt L (mn_cek mn) (note_plaintext mn) = Inr ct" "ev_packedCiphertext ev = map int ct"
    using ev by (auto simp: event_carries_def)
  have "\<forall>x \<in> set ct. x < FR_MODULUS" using ct(1) by (auto simp: demEncrypt_Inr)
  then have c: "emap toFr (ev_packedCiphertext ev) = Inr ct" by (simp add: ct(2) emap_toFr)
  have v: "nat v < FR_MODULUS" and a: "asset < FR_MODULUS" using fi(2,3) r(3) by (simp_all add: FR_MODULUS_def)
  have pt: "note_plaintext mn = [NOTE_VERSION, asset, NOTE_TYPE_STANDARD, 0, nat v, own, prnts]"
    by (simp add: note_plaintext_def fi(5))
  have "\<forall>x \<in> set (note_plaintext mn). x < FR_MODULUS"
    using r(1,4) v a by (simp add: pt) (simp add: FR_MODULUS_def NOTE_VERSION_def NOTE_TYPE_STANDARD_def)
  then have d: "demDecrypt L (mn_cek mn) ct = Inr (note_plaintext mn)" by (rule demDecrypt_demEncrypt[OF _ ct(1)])
  have l: "leaf L \<lparr>noteVersion = NOTE_VERSION, assetId = asset, noteType = NOTE_TYPE_STANDARD, conditionsHash = 0,
      n_value = int (nat v), n_owner = own, psi = computePsi L (mn_cek mn), parents = prnts\<rparr> = Inr (mn_commitment mn)"
    using fi(2,3) by (simp add: leaf_Inr fi(4,6))
  have li: "new_Fr (ev_leafIndex ev) = Inr (nat (ev_leafIndex ev))"
    using ev by (intro new_Fr_residue) (simp_all add: event_carries_def FR_MODULUS_def)
  show ?thesis
    using l r(2,3) o li
    by (simp add: recover_def c d Let_def pt wallet_note_def fi(4,5) ASSET_MODULUS_def)
qed

text \<open>Under a version the note was not minted with, the cipher opens to a note of another leaf. This is what the
  loop relies on when it goes on after a mismatch: it speaks of the leaves that this event's ciphertext
  opens to under this ring, and of nothing else.\<close>

definition no_false_open :: "note_lib \<Rightarrow> fr \<Rightarrow> MintedNote \<Rightarrow> UnprocessedEvent \<Rightarrow> ring \<Rightarrow> bool" where
  "no_false_open L eph mn ev ring \<longleftrightarrow> (\<forall>e \<in> set ring. case deriveCek L eph (ep_pk e) of
     Inl _ \<Rightarrow> False
   | Inr cek \<Rightarrow> cek = mn_cek mn \<or>
       (case ebind (emap toFr (ev_packedCiphertext ev)) (demDecrypt L cek) of
          Inl _ \<Rightarrow> True
        | Inr pt \<Rightarrow> leaf L \<lparr>noteVersion = pt ! 0, assetId = pt ! 1, noteType = pt ! 2, conditionsHash = pt ! 3,
            n_value = int (pt ! 4), n_owner = pt ! 5, psi = computePsi L cek, parents = pt ! 6\<rparr> \<noteq>
            Inr (mn_commitment mn)))"

lemma recover_mismatch:
  assumes "case ebind (emap toFr packed) (demDecrypt L cek) of
       Inl _ \<Rightarrow> True
     | Inr pt \<Rightarrow> leaf L \<lparr>noteVersion = pt ! 0, assetId = pt ! 1, noteType = pt ! 2, conditionsHash = pt ! 3,
         n_value = int (pt ! 4), n_owner = pt ! 5, psi = computePsi L cek, parents = pt ! 6\<rparr> \<noteq> Inr c"
  shows "(\<exists>e. recover L cek packed c li sk b i = Inl e) \<or> recover L cek packed c li sk b i = Inr LeafMismatch"
proof (cases "ebind (emap toFr packed) (demDecrypt L cek)")
  case (Inl e)
  then have "recover L cek packed c li sk b i = Inl e"
    by (cases "emap toFr packed") (auto simp: recover_def)
  then show ?thesis by blast
next
  case (Inr pt)
  then obtain ct where ct: "emap toFr packed = Inr ct" "demDecrypt L cek ct = Inr pt" by auto
  let ?l = "leaf L \<lparr>noteVersion = pt ! 0, assetId = pt ! 1, noteType = pt ! 2, conditionsHash = pt ! 3,
         n_value = int (pt ! 4), n_owner = pt ! 5, psi = computePsi L cek, parents = pt ! 6\<rparr>"
  have "?l \<noteq> Inr c" using assms Inr by simp
  then show ?thesis using ct by (cases ?l) (auto simp: recover_def Let_def)
qed

lemma try_versions_minted:
  assumes f: "finish L eph v own asset sk prnts pk = Inr mn" and ev: "event_carries L mn ev"
    and r: "own < FR_MODULUS" "own \<noteq> 0" "asset < 2 ^ 160" "prnts < FR_MODULUS"
    and o: "pubkeyOwner L (publicKey L spend) = Inr own"
    and es: "no_false_open L eph mn ev es" "\<exists>e \<in> set es. ep_pk e = pk"
  shows "try_versions L eph (ev_packedCiphertext ev) (mn_commitment mn) (ev_leafIndex ev) spend index es =
    Inr (Found (wallet_note L mn (ev_leafIndex ev) spend False index))"
  using es
proof (induction es)
  case (Cons e es)
  note R = recover_minted[OF f ev r o, of False index]
  obtain cek where cek: "deriveCek L eph (ep_pk e) = Inr cek"
    using Cons.prems(1) by (auto simp: no_false_open_def split: sum.splits)
  show ?case
  proof (cases "cek = mn_cek mn")
    case True
    with R cek show ?thesis by simp
  next
    case False
    then have "ep_pk e \<noteq> pk" using cek finish_Inr(1)[OF f] by auto
    then have "no_false_open L eph mn ev es" "\<exists>e \<in> set es. ep_pk e = pk"
      using Cons.prems by (auto simp: no_false_open_def)
    moreover have "(\<exists>x. recover L cek (ev_packedCiphertext ev) (mn_commitment mn) (ev_leafIndex ev) spend False index = Inl x) \<or>
        recover L cek (ev_packedCiphertext ev) (mn_commitment mn) (ev_leafIndex ev) spend False index = Inr LeafMismatch"
      using Cons.prems(1) cek False by (intro recover_mismatch) (simp add: no_false_open_def)
    ultimately show ?thesis using Cons.IH cek by auto
  qed
qed simp

lemma candidatesFor_set: "set (candidatesFor r b) = set r"
proof (cases b)
  case (Some n)
  show ?thesis
  proof (cases "find (covers_block n) (rev r)")
    case (Some c)
    with find_in_set[OF Some] \<open>b = Some n\<close> show ?thesis by (auto simp: candidatesFor_def)
  qed (simp add: candidatesFor_def \<open>b = Some n\<close>)
qed (simp add: candidatesFor_def)

text \<open>A note the wallet minted for itself is found again.\<close>

lemma self_note_found:
  assumes m: "mintSelfNote L eph v spend asset pk prnts = Inr mn" and ev: "event_carries L mn ev" "ev_type ev = NEW_NOTE"
    and s: "getSelfSpendKey L skRoot = Inr spend" and t: "matchSelfTag (ev_ephemeralX ev) (np_repo p) = (Inr (Some (eph, index)), k)"
    and r: "asset < 2 ^ 160" "prnts < FR_MODULUS" "pubkeyOwner L (publicKey L spend) \<noteq> Inr 0"
    and ring: "no_false_open L eph mn ev ring" "\<exists>e \<in> set ring. ep_pk e = pk" and L: "lib_ok L"
  shows "process L skRoot ring ev p =
    (Some (wallet_note L mn (ev_leafIndex ev) spend False index), p\<lparr>np_repo := k\<rparr>)"
proof -
  obtain own where own: "pubkeyOwner L (publicKey L spend) = Inr own" "finish L eph v own asset spend prnts pk = Inr mn"
    using m by (auto simp: mintSelfNote_def)
  then have o: "own < FR_MODULUS" "own \<noteq> 0" using r(3) hash_residue[OF L] by (auto simp: pubkeyOwner_def)
  have "mn_commitment mn < FR_MODULUS" using hash_residue[OF L] by (simp add: finish_Inr(6)[OF own(2)])
  then have c: "toFr (ev_commitment ev) = Inr (mn_commitment mn)" using ev(1) by (simp add: event_carries_def toFr_def)
  have "no_false_open L eph mn ev (candidatesFor ring (Some (ev_blockNumber ev)))"
    "\<exists>e \<in> set (candidatesFor ring (Some (ev_blockNumber ev))). ep_pk e = pk"
    using ring by (simp_all add: no_false_open_def candidatesFor_set)
  from try_versions_minted[OF own(2) ev(1) o(1,2) r(1,2) own(1) this] c s t ev(2) show ?thesis
    by (simp add: process_def processNewNote_def)
qed

text \<open>A note someone else paid to one of the wallet's addresses is found too.\<close>

lemma incoming_note_found:
  assumes m: "mintIncomingNote L eph v (publicKey L inKey) ik asset pk prnts = Inr mn"
    and ev: "event_carries L mn ev" "ev_type ev = NEW_MEMO" "ev_tag ev = Some (int (mn_tag mn))"
      "ev_cekWrap ev = map_option int (mn_cekWrap mn)"
    and t: "matchIncomingTag (int (mn_tag mn)) (np_repo p) = (Inr (Some (inKey, index)), k)"
    and r: "asset < 2 ^ 160" "prnts < FR_MODULUS" "pubkeyOwner L (publicKey L inKey) \<noteq> Inr 0"
      "assertSubgroupScalar inKey = Inr ()"
    and y: "recoverEvenY (fst (publicKey L eph)) = Inr (publicKey L eph)" and L: "lib_ok L"
  shows "process L skRoot ring ev p =
    (Some (wallet_note L mn (ev_leafIndex ev) inKey True index), p\<lparr>np_repo := recordIncomingMatch index k\<rparr>)"
proof -
  obtain own built w tag where own: "pubkeyOwner L (publicKey L inKey) = Inr own"
    "finish L eph v own asset ik prnts pk = Inr built"
    "wrapCek L (mn_cek built) eph (publicKey L inKey) = Inr w"
    "mn = built\<lparr>mn_inPub := Some (publicKey L inKey), mn_cekWrap := Some w, mn_tag := tag\<rparr>"
    using m by (auto simp: mintIncomingNote_def)
  then have o: "own < FR_MODULUS" "own \<noteq> 0" using r(3) hash_residue[OF L] by (auto simp: pubkeyOwner_def)
  note fi = finish_Inr[OF own(2)]
  have evb: "event_carries L built ev" using ev(1) by (simp add: event_carries_def own(4) note_plaintext_def)
  have wn: "wallet_note L mn = wallet_note L built" by (intro ext) (simp add: wallet_note_def own(4))
  have "mn_commitment mn < FR_MODULUS" using hash_residue[OF L] by (simp add: fi(6) own(4))
  then have c: "toFr (ev_commitment ev) = Inr (mn_commitment built)"
    using ev(1) by (simp add: event_carries_def toFr_def own(4))
  have w: "w < FR_MODULUS" using own(3) by (auto simp: wrapCek_def)
  have cek: "mn_cek built < FR_MODULUS" using fi(1) by (auto simp: deriveCek_def new_Fr_Inr)
  have x: "ev_ephemeralX ev = fst (publicKey L eph)" using evb fi(8) by (simp add: event_carries_def)
  from unwrap_wrap[OF L cek own(3) r(4)] recover_minted[OF own(2) evb o(1,2) r(1,2) own(1), of True index] c t ev w y x wn
  show ?thesis by (simp add: process_def processMemo_def own(4))
qed

section \<open>The notes held\<close>

text \<open>A note seen spent stays so, and no entry is lost.\<close>

definition spent_stays :: "utxos \<Rightarrow> utxos \<Rightarrow> bool" where
  "spent_stays us us' \<longleftrightarrow> (\<forall>k n. map_of us k = Some n \<longrightarrow>
     (\<exists>n'. map_of us' k = Some n' \<and> (wn_spent n \<longrightarrow> wn_spent n')))"

lemma spent_stays_refl: "spent_stays us us"
  by (simp add: spent_stays_def)

lemma spent_stays_trans: "spent_stays a b \<Longrightarrow> spent_stays b c \<Longrightarrow> spent_stays a c"
  unfolding spent_stays_def by blast

lemma addNote_spent: "spent_stays us (addNote n us)"
  by (auto simp: spent_stays_def addNote_def split: option.splits)

lemma markSpent_spent: "spent_stays us (snd (markSpent k us))"
  by (auto simp: spent_stays_def markSpent_def split: option.splits)

text \<open>One entry per nullifier, filed under it.\<close>

definition utxos_ok :: "utxos \<Rightarrow> bool" where
  "utxos_ok us \<longleftrightarrow> distinct (map fst us) \<and> (\<forall>(k, n) \<in> set us. wn_nullifier n = k)"

lemma utxos_ok_update: "utxos_ok us \<Longrightarrow> wn_nullifier n = k \<Longrightarrow> utxos_ok (AList.update k n us)"
  using set_update_subset[of k n us] by (auto simp: utxos_ok_def distinct_fst_update)

lemma addNote_ok: "utxos_ok us \<Longrightarrow> utxos_ok (addNote n us)"
  by (auto simp: addNote_def split: option.splits intro!: utxos_ok_update)

lemma markSpent_ok: "utxos_ok us \<Longrightarrow> utxos_ok (snd (markSpent k us))"
  by (auto simp: markSpent_def split: option.splits intro!: utxos_ok_update)
    (auto simp: utxos_ok_def dest: map_of_SomeD)

lemma getBalance_eq:
  "getBalance want us = sum_list (map (\<lambda>n. n_value (wn_note n))
     (filter (\<lambda>n. \<not> wn_spent n \<and> (case want of None \<Rightarrow> True | Some a \<Rightarrow> assetId (wn_note n) = a)) (map snd us)))"
proof -
  let ?f = "\<lambda>n total. case want of Some a \<Rightarrow> if assetId (wn_note n) \<noteq> a then total else total + n_value (wn_note n)
     | None \<Rightarrow> total + n_value (wn_note n)"
  have "fold ?f ns t = t + sum_list (map (\<lambda>n. n_value (wn_note n))
      (filter (\<lambda>n. case want of None \<Rightarrow> True | Some a \<Rightarrow> assetId (wn_note n) = a) ns))" for ns t
    by (induction ns arbitrary: t) (auto split: option.splits)
  from this[of "filter (\<lambda>n. \<not> wn_spent n) (map snd us)" 0] show ?thesis
    unfolding getBalance_def getUnspentNotes_def filter_filter add_0 .
qed

section \<open>What every scan keeps\<close>

text \<open>A relation between the state before and after that the processing of a log and of a nullifier keep, and
  that does not look at the world and the mirror: every part of a pass keeps it.\<close>

locale scan_relation =
  fixes E :: "'w engine" and R :: "'w scan_state \<Rightarrow> 'w scan_state \<Rightarrow> bool"
  assumes order: "reflp R" "transp R"
    and log_kept: "R s (processLog E log a s)"
    and null_kept: "R s (scan_null_log nl s)"
    and same_kept: "ss_processor s' = ss_processor s \<Longrightarrow> ss_utxos s' = ss_utxos s \<Longrightarrow> R s s'"
begin

lemma query_keeps: "keeps R (query q)"
  by (rule keepsI) (auto simp: query_def intro!: same_kept split: prod.splits option.splits)

lemma tree_insert_keeps: "keeps R (tree_insert E c)"
  by (rule keepsI) (auto simp: tree_insert_def intro!: same_kept split: prod.splits option.splits sum.splits)

lemma fetchLeafEvents_keeps: "keeps R (fetchLeafEvents E is)"
  unfolding fetchLeafEvents_def by (intro keeps_sbind keeps_sret query_keeps order)

lemma fill_gap_keeps: "keeps R (fill_gap E byIndex n)"
proof (induction n)
  case 0
  then show ?case by (intro keepsI) (simp add: same_kept)
next
  case (Suc n)
  show ?case
  proof (rule keepsI)
    fix s :: "'w scan_state"
    show "R s (snd (fill_gap E byIndex (Suc n) s))"
    proof (cases "map_of byIndex (next_index s)")
      case None
      then show ?thesis by (simp add: same_kept)
    next
      case (Some la)
      obtain log a where la: "la = (log, a)" by fastforce
      obtain r s1 where s1: "tree_insert E (la_commitment a) s = (r, s1)" by fastforce
      have 1: "R s s1" using keepsD[OF tree_insert_keeps, of s "la_commitment a"] s1 by simp
      have 2: "R s1 (snd (fill_gap E byIndex n (processLog E log a s1)))"
        using transpD[OF order(2) log_kept keepsD[OF Suc.IH]] .
      show ?thesis using 1 transpD[OF order(2) 1 2] Some la s1 by (cases r) auto
    qed
  qed
qed

lemma repair_loop_keeps: "keeps R (repair_loop E n endIndex)"
proof (induction n)
  case 0
  then show ?case by (intro keepsI) (simp add: same_kept)
next
  case (Suc n)
  show ?case
  proof (rule keepsI)
    fix s :: "'w scan_state"
    have c: "keeps R (\<lambda>s1. if endIndex < next_index s1 then (Inr (), s1) else repair_loop E n endIndex s1)"
      by (rule keepsI) (simp add: same_kept keepsD[OF Suc.IH])
    have "keeps R (sbind (fetchLeafEvents E is) (\<lambda>byIndex. sbind (fill_gap E byIndex m)
        (\<lambda>_ s1. if endIndex < next_index s1 then (Inr (), s1) else repair_loop E n endIndex s1)))" for "is" m
      by (intro keeps_sbind fetchLeafEvents_keeps fill_gap_keeps c order)
    from keepsD[OF this] show "R s (snd (repair_loop E (Suc n) endIndex s))" by (simp add: same_kept)
  qed
qed

lemma repairTreeGap_keeps: "keeps R (repairTreeGap E endIndex)"
  by (rule keepsI) (simp add: repairTreeGap_def same_kept keepsD[OF repair_loop_keeps])

lemma scan_leaf_log_keeps: "keeps R (scan_leaf_log E log)"
proof (cases "sl_args log")
  case (Some a)
  then show ?thesis unfolding scan_leaf_log_def
    by (auto intro!: keeps_sbind keeps_sret keeps_if keeps_sget keeps_smodify order repairTreeGap_keeps tree_insert_keeps
        log_kept)
qed (simp add: scan_leaf_log_def keeps_sret order)

lemma scan_leaf_logs_keeps: "keeps R (scan_leaf_logs E logs)"
  by (induction logs) (simp_all add: keeps_sret keeps_sbind order scan_leaf_log_keeps)

lemma null_logs_kept: "R s (fold scan_null_log logs s)"
proof (induction logs arbitrary: s)
  case (Cons log logs)
  from transpD[OF order(2) null_kept Cons.IH] show ?case by simp
qed (simp add: same_kept)

lemma scanOnce_keeps: "keeps R (scanOnce E ls ns)"
  unfolding scanOnce_def by (intro keeps_sbind keeps_smodify order scan_leaf_logs_keeps null_logs_kept)

lemma finalizedBlock_keeps: "keeps R (finalizedBlock E)"
  by (cases "ct_head (en_contract E)")
    (simp_all add: finalizedBlock_def keeps_if keeps_sret keeps_sbind query_keeps order)

lemma fetchScanLogs_keeps: "keeps R (fetchScanLogs E from)"
  unfolding fetchScanLogs_def Let_def by (intro keeps_sbind keeps_sret order query_keeps finalizedBlock_keeps)

end

text \<open>A relation that whatever happens to the keys keeps as well.\<close>

locale scan_relation_keys = scan_relation E R for E :: "'w engine" and R :: "'w scan_state \<Rightarrow> 'w scan_state \<Rightarrow> bool" +
  assumes keys_kept: "R s (s\<lparr>ss_processor := (ss_processor s)\<lparr>np_repo := k\<rparr>\<rparr>)"
begin

lemma on_keys_keeps: "keeps R (on_keys act)"
  by (rule keepsI) (auto simp: on_keys_def intro!: keys_kept split: prod.splits)

lemma scan_loop_keeps: "keeps R (scan_loop E window ls ns n)"
proof (induction n)
  case (Suc n)
  show ?case unfolding scan_loop.simps
    by (intro keeps_sbind keeps_if keeps_sret order scanOnce_keeps on_keys_keeps Suc.IH)
qed (simp add: keeps_sret order)

lemma scanPasses_keeps: "keeps R (scanPasses E from window)"
  unfolding scanPasses_def
  by (intro keeps_sbind order on_keys_keeps fetchScanLogs_keeps) (auto intro: scan_loop_keeps)

end

definition scan_rel :: "'w scan_state \<Rightarrow> 'w scan_state \<Rightarrow> bool" where
  "scan_rel s s' \<longleftrightarrow> spent_stays (ss_utxos s) (ss_utxos s') \<and> (utxos_ok (ss_utxos s) \<longrightarrow> utxos_ok (ss_utxos s'))"

lemma scan_rel_order: "reflp scan_rel" "transp scan_rel"
  by (auto simp: scan_rel_def reflp_def transp_def spent_stays_refl intro: spent_stays_trans)

lemma scan_rel_same: "ss_utxos s' = ss_utxos s \<Longrightarrow> scan_rel s s'"
  by (simp add: scan_rel_def spent_stays_refl)

lemma processLog_rel: "scan_rel s (processLog E log a s)"
  by (auto simp: scan_rel_def processLog_def process_event_def addNote_spent addNote_ok spent_stays_refl
      split: log_name.splits prod.splits option.splits)

lemma null_log_rel: "scan_rel s (scan_null_log log s)"
  by (auto simp: scan_rel_def scan_null_log_def markSpent_spent markSpent_ok spent_stays_refl split: option.splits)

interpretation spent_rel: scan_relation_keys E scan_rel for E
  by unfold_locales (simp_all add: scan_rel_order processLog_rel null_log_rel scan_rel_same)

section \<open>The mirror of the tree\<close>

text \<open>A log tells the truth about the chain's leaves, and the tree holds the first of them in order.\<close>

definition honest_log :: "fr list \<Rightarrow> scan_log \<Rightarrow> bool" where
  "honest_log chain log \<longleftrightarrow> (case sl_args log of None \<Rightarrow> True
     | Some a \<Rightarrow> 0 \<le> la_leafIndex a \<and> la_leafIndex a < int (length chain) \<and>
         la_commitment a = int (chain ! nat (la_leafIndex a)))"

definition honest_contract :: "fr list \<Rightarrow> 'w contract \<Rightarrow> bool" where
  "honest_contract chain C \<longleftrightarrow>
     (\<forall>is from w logs w'. ct_notes C is from w = (Some logs, w') \<longrightarrow> list_all (honest_log chain) logs) \<and>
     (\<forall>is from w logs w'. ct_memos C is from w = (Some logs, w') \<longrightarrow> list_all (honest_log chain) logs)"

definition mirrors :: "poseidon \<Rightarrow> fr list \<Rightarrow> 'w scan_state \<Rightarrow> bool" where
  "mirrors H chain s \<longleftrightarrow> (case ss_tree s of None \<Rightarrow> True
     | Some t \<Rightarrow> nextLeafIndex t \<le> length chain \<and> tree_of H t (take (nextLeafIndex t) chain))"

definition mirror_rel :: "poseidon \<Rightarrow> fr list \<Rightarrow> 'w scan_state \<Rightarrow> 'w scan_state \<Rightarrow> bool" where
  "mirror_rel H chain s s' \<longleftrightarrow> (mirrors H chain s \<longrightarrow> mirrors H chain s') \<and> (ss_tree s = None \<longleftrightarrow> ss_tree s' = None) \<and>
     next_index s \<le> next_index s'"

lemma mirror_rel_order: "reflp (mirror_rel H chain)" "transp (mirror_rel H chain)"
  by (auto simp: mirror_rel_def reflp_def transp_def)

lemma mirror_rel_same: "ss_tree s' = ss_tree s \<Longrightarrow> mirror_rel H chain s s'"
  by (simp add: mirror_rel_def mirrors_def next_index_def)

lemma insert_leaf_error: "insert_leaf H x t = (Inl e, t') \<Longrightarrow> t' = t"
  by (auto simp: insert_leaf_def split: if_splits prod.splits)

lemma insert_leaf_ok: "insert_leaf H x t = (Inr r, t') \<Longrightarrow> x \<noteq> 0 \<and> nextLeafIndex t < 2 ^ depth t \<and> nextLeafIndex t' = nextLeafIndex t + 1"
  by (auto simp: insert_leaf_def split: if_splits prod.splits)

lemma tree_insert_mirror:
  assumes "H = poseidon2Hash (en_lib E)" "next_index s < int (length chain)" "c = int (chain ! nat (next_index s))"
  shows "mirror_rel H chain s (snd (tree_insert E c s))"
proof (cases "ss_tree s")
  case None
  then show ?thesis by (simp add: tree_insert_def mirror_rel_same)
next
  case (Some t)
  show ?thesis
  proof (cases "toFr c")
    case (Inl e)
    with Some show ?thesis by (simp add: tree_insert_def mirror_rel_same)
  next
    case (Inr x)
    then have x: "x = chain ! nextLeafIndex t"
      using assms(3) Some by (auto simp: toFr_def new_Fr_Inr next_index_def)
    obtain r t' where i: "insert_leaf H x t = (r, t')" by fastforce
    show ?thesis
    proof (cases r)
      case (Inl e)
      with i Inr Some assms(1) show ?thesis
        using insert_leaf_error[of H x t e t'] by (simp add: tree_insert_def mirror_rel_same)
    next
      case r: (Inr root)
      note ok = insert_leaf_ok[OF i[unfolded r]]
      have "nextLeafIndex t' \<le> length chain \<and> tree_of H t' (take (nextLeafIndex t') chain)"
        if "nextLeafIndex t \<le> length chain" "tree_of H t (take (nextLeafIndex t) chain)"
      proof -
        have n: "nextLeafIndex t < length chain" using assms(2) Some by (simp add: next_index_def)
        have "length (take (nextLeafIndex t) chain) < 2 ^ depth t" using ok n by simp
        from insert_leaf_tree_of(2)[OF that(2) _ this, of x] ok i
        have "tree_of H t' (take (nextLeafIndex t) chain @ [x])" by simp
        with n ok show ?thesis by (simp add: x take_Suc_conv_app_nth)
      qed
      with i r Inr Some assms(1) ok show ?thesis
        by (simp add: tree_insert_def mirror_rel_def mirrors_def next_index_def)
    qed
  qed
qed

lemma processLog_tree [simp]: "ss_tree (processLog E log a s) = ss_tree s"
  by (simp add: processLog_def process_event_def split: log_name.splits prod.splits option.splits)

lemma query_tree: "ss_tree (snd (query q s)) = ss_tree s"
  by (auto simp: query_def split: prod.splits option.splits)

lemma query_Inr: "query q s = (Inr x, s') \<Longrightarrow> \<exists>w. q (ss_world s) = (Some x, w)"
  by (auto simp: query_def split: prod.splits option.splits)

definition honest_index :: "fr list \<Rightarrow> (int \<times> scan_log \<times> log_args) list \<Rightarrow> bool" where
  "honest_index chain byIndex \<longleftrightarrow> (\<forall>(i, log, a) \<in> set byIndex. la_leafIndex a = i \<and> sl_args log = Some a \<and> honest_log chain log)"

lemma honest_index_fold:
  "list_all (honest_log chain) logs \<Longrightarrow> honest_index chain m \<Longrightarrow>
    honest_index chain (fold (\<lambda>log byIndex. case sl_args log of None \<Rightarrow> byIndex
      | Some a \<Rightarrow> AList.update (la_leafIndex a) (log, a) byIndex) logs m)"
proof (induction logs arbitrary: m)
  case (Cons log logs)
  have "honest_index chain (case sl_args log of None \<Rightarrow> m | Some a \<Rightarrow> AList.update (la_leafIndex a) (log, a) m)"
  proof (cases "sl_args log")
    case (Some a)
    with Cons.prems set_update_subset[of "la_leafIndex a" "(log, a)" m] show ?thesis
      by (auto simp: honest_index_def)
  qed (use Cons.prems in simp)
  with Cons show ?case by simp
qed simp

lemma fetchLeafEvents_honest:
  assumes "honest_contract chain (en_contract E)" "fetchLeafEvents E is s = (r, s')"
  shows "ss_tree s' = ss_tree s" "r = Inr m \<Longrightarrow> honest_index chain m"
proof -
  obtain v s1 where v: "query (ct_notes (en_contract E) (Some is) (en_deploymentBlock E)) s = (v, s1)" by fastforce
  obtain u s2 where u: "query (ct_memos (en_contract E) (Some is) (en_deploymentBlock E)) s1 = (u, s2)" by fastforce
  have t: "ss_tree s1 = ss_tree s" "ss_tree s2 = ss_tree s1" using query_tree v u by (metis snd_conv)+
  then show "ss_tree s' = ss_tree s"
    using assms(2) v u by (auto simp: fetchLeafEvents_def sbind_def sret_def split: sum.splits)
  assume "r = Inr m"
  then obtain ls1 ls2 where nm: "v = Inr ls1" "u = Inr ls2" "m = fold (\<lambda>log byIndex. case sl_args log of
      None \<Rightarrow> byIndex | Some a \<Rightarrow> AList.update (la_leafIndex a) (log, a) byIndex) (ls1 @ ls2) []"
    using assms(2) v u by (auto simp: fetchLeafEvents_def sbind_def sret_def split: sum.splits)
  have "list_all (honest_log chain) (ls1 @ ls2)"
    using assms(1) query_Inr[OF v[unfolded nm]] query_Inr[OF u[unfolded nm]] by (auto simp: honest_contract_def)
  then show "honest_index chain m" unfolding nm(3) by (rule honest_index_fold) (simp add: honest_index_def)
qed

lemma fill_gap_mirror:
  assumes "H = poseidon2Hash (en_lib E)" "honest_index chain byIndex"
  shows "mirror_rel H chain s (snd (fill_gap E byIndex n s))"
proof (induction n arbitrary: s)
  case 0
  then show ?case by (simp add: mirror_rel_same)
next
  case (Suc n)
  show ?case
  proof (cases "map_of byIndex (next_index s)")
    case None
    then show ?thesis by (simp add: mirror_rel_same)
  next
    case (Some la)
    obtain log a where la: "la = (log, a)" by fastforce
    have "(next_index s, log, a) \<in> set byIndex" using Some la by (simp add: map_of_SomeD)
    then have h: "la_leafIndex a = next_index s" "sl_args log = Some a" "honest_log chain log"
      using assms(2) by (auto simp: honest_index_def)
    then have "next_index s < int (length chain)" "la_commitment a = int (chain ! nat (next_index s))"
      by (auto simp: honest_log_def)
    note ins = tree_insert_mirror[OF assms(1) this]
    obtain r s1 where s1: "tree_insert E (la_commitment a) s = (r, s1)" by fastforce
    have "mirror_rel H chain s1 (processLog E log a s1)" by (simp add: mirror_rel_same)
    from transpD[OF mirror_rel_order(2) this Suc.IH] have
      "mirror_rel H chain s1 (snd (fill_gap E byIndex n (processLog E log a s1)))" .
    with ins show ?thesis using transpD[OF mirror_rel_order(2)] Some la s1 by (cases r) fastforce+
  qed
qed

lemma repair_loop_mirror:
  assumes H: "H = poseidon2Hash (en_lib E)" and C: "honest_contract chain (en_contract E)"
  shows "mirror_rel H chain s (snd (repair_loop E n endIndex s))"
proof (induction n arbitrary: s)
  case 0
  then show ?case by (simp add: mirror_rel_same)
next
  case (Suc n)
  show ?case
  proof (cases "endIndex < next_index s")
    case True
    then show ?thesis by (simp add: mirror_rel_same)
  next
    case False
    obtain r s1 where r: "fetchLeafEvents E [next_index s..endIndex] s = (r, s1)" by fastforce
    note f = fetchLeafEvents_honest[OF C r]
    have 1: "mirror_rel H chain s s1" using f(1) by (rule mirror_rel_same)
    show ?thesis
    proof (cases r)
      case (Inl e)
      with 1 False r show ?thesis by (simp add: sbind_def)
    next
      case (Inr m)
      let ?n = "nat (endIndex + 1 - next_index s)"
      obtain u s2 where u: "fill_gap E m ?n s1 = (u, s2)" by fastforce
      have 2: "mirror_rel H chain s s2"
        using transpD[OF mirror_rel_order(2) 1 fill_gap_mirror[OF H f(2)[OF Inr]], of ?n] u by simp
      show ?thesis
      proof (cases u)
        case (Inl e)
        with 2 False r Inr u show ?thesis by (simp add: sbind_def)
      next
        case u': (Inr x)
        with 2 False r Inr u transpD[OF mirror_rel_order(2) 2 Suc.IH[of s2]] show ?thesis by (simp add: sbind_def)
      qed
    qed
  qed
qed

lemma repairTreeGap_mirror:
  assumes "H = poseidon2Hash (en_lib E)" "honest_contract chain (en_contract E)"
  shows "keeps (mirror_rel H chain) (repairTreeGap E endIndex)"
  by (rule keepsI) (simp add: repairTreeGap_def mirror_rel_same repair_loop_mirror[OF assms])

lemma scan_leaf_log_mirror:
  assumes H: "H = poseidon2Hash (en_lib E)" and C: "honest_contract chain (en_contract E)" and l: "honest_log chain log"
  shows "keeps (mirror_rel H chain) (scan_leaf_log E log)"
proof (cases "sl_args log")
  case (Some a)
  then have a: "0 \<le> la_leafIndex a" "la_leafIndex a < int (length chain)" "la_commitment a = int (chain ! nat (la_leafIndex a))"
    using l by (auto simp: honest_log_def)
  have ins: "keeps (mirror_rel H chain) (sbind sget (\<lambda>s1. if la_leafIndex a = next_index s1 then tree_insert E (la_commitment a) else sret ()))"
  proof (rule keepsI)
    fix s1 :: "'a scan_state"
    show "mirror_rel H chain s1 (snd (sbind sget (\<lambda>s1. if la_leafIndex a = next_index s1
        then tree_insert E (la_commitment a) else sret ()) s1))"
      using tree_insert_mirror[OF H, of s1 chain "la_commitment a"] a by (simp add: sbind_def sget_def sret_def mirror_rel_same)
  qed
  have pl: "keeps (mirror_rel H chain) (smodify (processLog E log a))"
    by (rule keeps_smodify) (simp add: mirror_rel_same)
  show ?thesis unfolding scan_leaf_log_def Some option.case
    by (intro keeps_sbind keeps_sret keeps_if keeps_sget mirror_rel_order repairTreeGap_mirror[OF H C] ins pl)
qed (simp add: scan_leaf_log_def keeps_sret mirror_rel_order)

lemma scan_leaf_logs_mirror:
  assumes "H = poseidon2Hash (en_lib E)" "honest_contract chain (en_contract E)"
  shows "list_all (honest_log chain) logs \<Longrightarrow> keeps (mirror_rel H chain) (scan_leaf_logs E logs)"
  by (induction logs) (simp_all add: keeps_sret keeps_sbind mirror_rel_order scan_leaf_log_mirror[OF assms])

lemma fold_null_tree: "ss_tree (fold scan_null_log ns s) = ss_tree s"
  by (induction ns arbitrary: s) (simp_all add: scan_null_log_def split: option.splits)

lemma on_keys_mirror: "keeps (mirror_rel H chain) (on_keys act)"
  by (rule keepsI) (auto simp: on_keys_def intro!: mirror_rel_same split: prod.splits)

lemma query_mirror: "keeps (mirror_rel H chain) (query q)"
  by (rule keepsI) (simp add: mirror_rel_same query_tree)

lemma scan_loop_mirror:
  assumes "H = poseidon2Hash (en_lib E)" "honest_contract chain (en_contract E)" "list_all (honest_log chain) ls"
  shows "keeps (mirror_rel H chain) (scan_loop E window ls ns n)"
proof (induction n)
  case (Suc n)
  show ?case unfolding scan_loop.simps scanOnce_def
    by (intro keeps_sbind keeps_if keeps_sret keeps_smodify mirror_rel_order scan_leaf_logs_mirror[OF assms] on_keys_mirror
        mirror_rel_same fold_null_tree Suc.IH)
qed (simp add: keeps_sret mirror_rel_order)

lemma fetchScanLogs_mirror:
  assumes "honest_contract chain (en_contract E)" "fetchScanLogs E from s = (r, s')"
  shows "ss_tree s' = ss_tree s" "r = Inr (ls, ns) \<Longrightarrow> list_all (honest_log chain) ls"
proof -
  obtain v1 s1 where q1: "query (ct_notes (en_contract E) None (scanFloor E from)) s = (v1, s1)" by fastforce
  obtain v2 s2 where q2: "query (ct_memos (en_contract E) None (scanFloor E from)) s1 = (v2, s2)" by fastforce
  obtain v3 s3 where q3: "query (ct_nullifiers (en_contract E) (scanFloor E from)) s2 = (v3, s3)" by fastforce
  obtain v4 s4 where q4: "finalizedBlock E s3 = (v4, s4)" by fastforce
  have t: "ss_tree s1 = ss_tree s" "ss_tree s2 = ss_tree s1" "ss_tree s3 = ss_tree s2"
    using query_tree q1 q2 q3 by (metis snd_conv)+
  have t4: "ss_tree s4 = ss_tree s3"
  proof (cases "ct_head (en_contract E)")
    case (Some hd)
    obtain v5 s5 where "query hd s3 = (v5, s5)" by fastforce
    then show ?thesis using q4 Some query_tree[of hd s3]
      by (cases v5) (auto simp: finalizedBlock_def sret_def sbind_def split: if_splits)
  qed (use q4 in \<open>auto simp: finalizedBlock_def sret_def split: if_splits\<close>)
  show "ss_tree s' = ss_tree s"
    using assms(2) q1 q2 q3 q4 t t4 by (auto simp: fetchScanLogs_def Let_def sbind_def sret_def split: sum.splits)
  assume r: "r = Inr (ls, ns)"
  then obtain ls1 ls2 fin where nm: "v1 = Inr ls1" "v2 = Inr ls2"
    "ls = sort_key (\<lambda>l. (sl_blockNumber l, sl_index l)) (filter (\<lambda>l. sl_blockNumber l \<le> fin) (ls1 @ ls2))"
    using assms(2) q1 q2 q3 q4 by (auto simp: fetchScanLogs_def Let_def sbind_def sret_def split: sum.splits)
  have "list_all (honest_log chain) ls1" "list_all (honest_log chain) ls2"
    using assms(1) query_Inr[OF q1[unfolded nm]] query_Inr[OF q2[unfolded nm]] by (auto simp: honest_contract_def)
  then show "list_all (honest_log chain) ls" by (auto simp: nm(3) list_all_iff)
qed

lemma scanPasses_mirror:
  assumes "H = poseidon2Hash (en_lib E)" "honest_contract chain (en_contract E)"
  shows "keeps (mirror_rel H chain) (scanPasses E from window)"
proof -
  have f: "keeps (mirror_rel H chain) (sbind (fetchScanLogs E from) (\<lambda>(ls, ns). scan_loop E window ls ns 64))"
  proof (rule keepsI)
    fix s :: "'a scan_state"
    obtain r s1 where r: "fetchScanLogs E from s = (r, s1)" by fastforce
    note fm = fetchScanLogs_mirror[OF assms(2) r]
    have 1: "mirror_rel H chain s s1" using fm(1) by (rule mirror_rel_same)
    show "mirror_rel H chain s (snd (sbind (fetchScanLogs E from) (\<lambda>(ls, ns). scan_loop E window ls ns 64) s))"
    proof (cases r)
      case (Inl e)
      with 1 r show ?thesis by (simp add: sbind_def)
    next
      case (Inr lsns)
      obtain ls ns where ln: "lsns = (ls, ns)" by fastforce
      have "mirror_rel H chain s1 (snd (scan_loop E window ls ns 64 s1))"
        using keepsD[OF scan_loop_mirror[OF assms fm(2)]] Inr ln by blast
      from transpD[OF mirror_rel_order(2) 1 this] r Inr ln show ?thesis by (simp add: sbind_def)
    qed
  qed
  show ?thesis unfolding scanPasses_def
    by (intro keeps_sbind mirror_rel_order on_keys_mirror f)
qed

end
