(* ===== verification/Scan_Progress.thy ===== *)
theory Scan_Progress
  imports Note_Scan
begin

text \<open>
  That a scan returns: against a contract that answers truthfully and completely, a pass over any logs, in
  any order and with any gaps, ends, repairs the gaps and leaves no leaf it has heard of out of the mirror.
\<close>

section \<open>Contracts that answer\<close>

text \<open>A query for some leaf indices is answered, with a log for each of them that is on the chain.\<close>

definition answers :: "fr list \<Rightarrow> 'w contract \<Rightarrow> bool" where
  "answers chain C \<longleftrightarrow> (\<forall>is from w. \<exists>ns w1 ms w2. ct_notes C (Some is) from w = (Some ns, w1) \<and>
     ct_memos C (Some is) from w1 = (Some ms, w2) \<and>
     (\<forall>i \<in> set is. 0 \<le> i \<longrightarrow> i < int (length chain) \<longrightarrow>
        (\<exists>log \<in> set (ns @ ms). \<exists>a. sl_args log = Some a \<and> la_leafIndex a = i)))"

text \<open>The mirror has room for the chain, whose leaves are non-zero field elements.\<close>

definition fits :: "fr list \<Rightarrow> 'w scan_state \<Rightarrow> bool" where
  "fits chain s \<longleftrightarrow> (\<forall>x \<in> set chain. x \<noteq> 0 \<and> x < FR_MODULUS) \<and>
     (case ss_tree s of None \<Rightarrow> False | Some t \<Rightarrow> length chain \<le> 2 ^ depth t)"

lemma fits_Some: "fits chain s \<Longrightarrow> \<exists>t. ss_tree s = Some t"
  by (auto simp: fits_def split: option.splits)

lemma fits_tree: "ss_tree s' = ss_tree s \<Longrightarrow> fits chain s' = fits chain s"
  by (simp add: fits_def)

lemma next_index_tree: "ss_tree s' = ss_tree s \<Longrightarrow> next_index s' = next_index s"
  by (simp add: next_index_def)

lemma processLog_progress [simp]:
  "fits chain (processLog E log a s) = fits chain s" "next_index (processLog E log a s) = next_index s"
  by (simp_all add: fits_def next_index_def)

lemma next_index_nonneg [simp]: "0 \<le> next_index s"
  by (simp add: next_index_def split: option.split)

lemma tree_insert_progress:
  assumes "fits chain s" "next_index s < int (length chain)" "c = int (chain ! nat (next_index s))"
  shows "\<exists>s'. tree_insert E c s = (Inr (), s') \<and> fits chain s' \<and> next_index s' = next_index s + 1"
proof -
  obtain t where t: "ss_tree s = Some t" "length chain \<le> 2 ^ depth t"
    using assms(1) by (auto simp: fits_def split: option.splits)
  then have n: "next_index s = int (nextLeafIndex t)" "nextLeafIndex t < length chain"
    using assms(2) by (simp_all add: next_index_def)
  let ?x = "chain ! nextLeafIndex t"
  have x: "?x \<noteq> 0" "?x < FR_MODULUS" using assms(1) n(2) by (simp_all add: fits_def)
  have "\<exists>root t'. insert_leaf (poseidon2Hash (en_lib E)) ?x t = (Inr root, t') \<and> depth t' = depth t \<and>
      nextLeafIndex t' = nextLeafIndex t + 1"
    using x(1) n(2) t(2) by (auto simp: insert_leaf_def split: prod.splits)
  then obtain root t' where i: "insert_leaf (poseidon2Hash (en_lib E)) ?x t = (Inr root, t')" "depth t' = depth t"
    "nextLeafIndex t' = nextLeafIndex t + 1" by blast
  have "toFr c = Inr ?x" using assms(3) n x(2) by (simp add: toFr_def)
  with i t assms(1) show ?thesis
    by (intro exI[of _ "s\<lparr>ss_tree := Some t'\<rparr>"]) (simp add: tree_insert_def fits_def next_index_def)
qed

lemma fill_gap_progress:
  assumes "honest_index chain byIndex"
  shows "fits chain s \<Longrightarrow> \<forall>i. next_index s \<le> i \<longrightarrow> i < next_index s + int n \<longrightarrow> map_of byIndex i \<noteq> None \<Longrightarrow>
    \<exists>s'. fill_gap E byIndex n s = (Inr (), s') \<and> fits chain s' \<and> next_index s' = next_index s + int n"
proof (induction n arbitrary: s)
  case (Suc n)
  obtain log a where la: "map_of byIndex (next_index s) = Some (log, a)"
    using Suc.prems(2)[rule_format, of "next_index s"] by auto
  then have "(next_index s, log, a) \<in> set byIndex" by (rule map_of_SomeD)
  then have "la_leafIndex a = next_index s" "sl_args log = Some a" "honest_log chain log"
    using assms by (auto simp: honest_index_def)
  then have "next_index s < int (length chain)" "la_commitment a = int (chain ! nat (next_index s))"
    by (auto simp: honest_log_def)
  from tree_insert_progress[OF Suc.prems(1) this] obtain s1 where
    s1: "tree_insert E (la_commitment a) s = (Inr (), s1)" "fits chain s1" "next_index s1 = next_index s + 1" by blast
  let ?s = "processLog E log a s1"
  have "fits chain ?s" "next_index ?s = next_index s + 1" using s1 by simp_all
  moreover have "\<forall>i. next_index ?s \<le> i \<longrightarrow> i < next_index ?s + int n \<longrightarrow> map_of byIndex i \<noteq> None"
    using Suc.prems(2) calculation(2) by simp
  ultimately obtain s2 where "fill_gap E byIndex n ?s = (Inr (), s2)" "fits chain s2"
    "next_index s2 = next_index s + 1 + int n" using Suc.IH[of ?s] by metis
  with la s1(1) show ?case by (intro exI[of _ s2]) simp
qed simp

section \<open>Gaps are repaired\<close>

lemma indexed_fold:
  "(log :: scan_log) \<in> set logs \<Longrightarrow> sl_args log = Some a \<Longrightarrow> map_of (fold (\<lambda>log byIndex. case sl_args log of None \<Rightarrow> byIndex
      | Some a \<Rightarrow> AList.update (la_leafIndex a) (log, a) byIndex) logs m) (la_leafIndex a) \<noteq> None"
proof (induction logs arbitrary: m)
  case (Cons l logs)
  let ?f = "\<lambda>(log :: scan_log) byIndex. case sl_args log of None \<Rightarrow> byIndex | Some a \<Rightarrow> AList.update (la_leafIndex a) (log, a) byIndex"
  have keep: "map_of m i \<noteq> None \<Longrightarrow> map_of (fold ?f logs m) i \<noteq> None" for i and m :: "(int \<times> scan_log \<times> log_args) list"
    by (induction logs arbitrary: m) (auto split: option.splits)
  show ?case
  proof (cases "l = log")
    case True
    with Cons.prems(2) keep[of "?f log m" "la_leafIndex a"] show ?thesis by simp
  next
    case False
    with Cons show ?thesis by simp
  qed
qed simp

lemma fetchLeafEvents_progress:
  assumes "honest_contract chain (en_contract E)" "answers chain (en_contract E)"
  shows "\<exists>m s'. fetchLeafEvents E is s = (Inr m, s') \<and> ss_tree s' = ss_tree s \<and> honest_index chain m \<and>
    (\<forall>i \<in> set is. 0 \<le> i \<longrightarrow> i < int (length chain) \<longrightarrow> map_of m i \<noteq> None)"
proof -
  obtain ns w1 ms w2 where q: "ct_notes (en_contract E) (Some is) (en_deploymentBlock E) (ss_world s) = (Some ns, w1)"
    "ct_memos (en_contract E) (Some is) (en_deploymentBlock E) w1 = (Some ms, w2)"
    "\<forall>i \<in> set is. 0 \<le> i \<longrightarrow> i < int (length chain) \<longrightarrow> (\<exists>log \<in> set (ns @ ms). \<exists>a. sl_args log = Some a \<and> la_leafIndex a = i)"
    using assms(2) unfolding answers_def by blast
  let ?m = "fold (\<lambda>log byIndex. case sl_args log of None \<Rightarrow> byIndex
      | Some a \<Rightarrow> AList.update (la_leafIndex a) (log, a) byIndex) (ns @ ms) []"
  have f: "fetchLeafEvents E is s = (Inr ?m, s\<lparr>ss_world := w1, ss_world := w2\<rparr>)"
    using q(1,2) by (simp add: fetchLeafEvents_def sbind_def query_def sret_def)
  note h = fetchLeafEvents_honest[OF assms(1) f]
  have "map_of ?m i \<noteq> None" if i: "i \<in> set is" "0 \<le> i" "i < int (length chain)" for i
  proof -
    obtain log a where "log \<in> set (ns @ ms)" "sl_args log = Some a" "la_leafIndex a = i" using q(3) i by blast
    with indexed_fold[of log "ns @ ms" a "[]"] show ?thesis by blast
  qed
  with f h show ?thesis by blast
qed

lemma repairTreeGap_progress:
  assumes "honest_contract chain (en_contract E)" "answers chain (en_contract E)"
    and "fits chain s" "endIndex < int (length chain)"
  shows "\<exists>s'. repairTreeGap E endIndex s = (Inr (), s') \<and> fits chain s' \<and> next_index s' = max (next_index s) (endIndex + 1)"
proof (cases "endIndex < next_index s")
  case True
  have "repair_loop E (Suc n) endIndex s = (Inr (), s)" for n using True by simp
  from this[of 7] have "repairTreeGap E endIndex s = (Inr (), s)" by (simp add: repairTreeGap_def del: repair_loop.simps)
  with True assms(3) show ?thesis by simp
next
  case False
  let ?is = "[next_index s..endIndex]"
  let ?n = "nat (endIndex + 1 - next_index s)"
  obtain m s1 where f: "fetchLeafEvents E ?is s = (Inr m, s1)" "ss_tree s1 = ss_tree s" "honest_index chain m"
    "\<forall>i \<in> set ?is. 0 \<le> i \<longrightarrow> i < int (length chain) \<longrightarrow> map_of m i \<noteq> None"
    using fetchLeafEvents_progress[OF assms(1,2)] by blast
  have n1: "next_index s1 = next_index s" "fits chain s1" using next_index_tree[OF f(2)] fits_tree[OF f(2)] assms(3) by simp_all
  have "map_of m i \<noteq> None" if "next_index s1 \<le> i" "i < next_index s1 + int ?n" for i
  proof -
    have "0 \<le> i" using that(1) n1(1) next_index_nonneg[of s] by linarith
    moreover have "i \<in> set ?is" "i < int (length chain)" using that n1(1) False assms(4) by auto
    ultimately show ?thesis using f(4) by blast
  qed
  with fill_gap_progress[OF f(3) n1(2), of ?n E] obtain s2 where
    s2: "fill_gap E m ?n s1 = (Inr (), s2)" "fits chain s2" "next_index s2 = endIndex + 1"
    using n1(1) False by auto
  have "repair_loop E (Suc n) endIndex s = (Inr (), s2)" for n
    using False f(1) s2 by (simp add: sbind_def)
  from this[of 7] have "repairTreeGap E endIndex s = (Inr (), s2)"
    using fits_Some[OF assms(3)] by (auto simp: repairTreeGap_def simp del: repair_loop.simps)
  with s2 False show ?thesis by (simp add: max_def)
qed

section \<open>A pass over the logs\<close>

lemma scan_leaf_log_progress:
  assumes "honest_contract chain (en_contract E)" "answers chain (en_contract E)" "honest_log chain log" "fits chain s"
  shows "\<exists>s'. scan_leaf_log E log s = (Inr (), s') \<and> fits chain s' \<and> next_index s \<le> next_index s' \<and>
    (\<forall>a. sl_args log = Some a \<longrightarrow> la_leafIndex a < next_index s')"
proof (cases "sl_args log")
  case None
  with assms(4) show ?thesis by (simp add: scan_leaf_log_def sret_def)
next
  case (Some a)
  then have a: "0 \<le> la_leafIndex a" "la_leafIndex a < int (length chain)" "la_commitment a = int (chain ! nat (la_leafIndex a))"
    using assms(3) by (auto simp: honest_log_def)
  obtain t where tr: "ss_tree s = Some t" using fits_Some[OF assms(4)] by blast
  let ?r = "if la_leafIndex a > next_index s then repairTreeGap E (la_leafIndex a - 1) else sret ()"
  have "\<exists>s1. ?r s = (Inr (), s1) \<and> fits chain s1 \<and> next_index s1 = max (next_index s) (la_leafIndex a)"
    using repairTreeGap_progress[OF assms(1,2,4), of "la_leafIndex a - 1"] a(2) assms(4) by (auto simp: sret_def max_def)
  then obtain s1 where s1: "?r s = (Inr (), s1)" "fits chain s1" "next_index s1 = max (next_index s) (la_leafIndex a)" by blast
  let ?i = "\<lambda>s1. (if la_leafIndex a = next_index s1 then tree_insert E (la_commitment a) else sret ()) s1"
  have "\<exists>s2. ?i s1 = (Inr (), s2) \<and> fits chain s2 \<and> next_index s1 \<le> next_index s2 \<and> la_leafIndex a < next_index s2"
  proof (cases "la_leafIndex a = next_index s1")
    case True
    with a tree_insert_progress[OF s1(2), of "la_commitment a" E] obtain s2 where
      "tree_insert E (la_commitment a) s1 = (Inr (), s2)" "fits chain s2" "next_index s2 = next_index s1 + 1" by auto
    with True show ?thesis by (intro exI[of _ s2]) simp
  next
    case False
    then have "la_leafIndex a < next_index s1" using s1(3) by linarith
    with False s1(2) show ?thesis by (intro exI[of _ s1]) (simp add: sret_def)
  qed
  then obtain s2 where s2: "?i s1 = (Inr (), s2)" "fits chain s2" "next_index s1 \<le> next_index s2"
    "la_leafIndex a < next_index s2" by blast
  have "scan_leaf_log E log s = (Inr (), processLog E log a s2)"
    using Some s1(1) s2(1) tr by (simp add: scan_leaf_log_def sbind_def sget_def smodify_def)
  with s1(3) s2 Some show ?thesis by auto
qed

lemma scan_leaf_logs_progress:
  assumes "honest_contract chain (en_contract E)" "answers chain (en_contract E)"
  shows "list_all (honest_log chain) logs \<Longrightarrow> fits chain s \<Longrightarrow>
    \<exists>s'. scan_leaf_logs E logs s = (Inr (), s') \<and> fits chain s' \<and> next_index s \<le> next_index s' \<and>
      (\<forall>log \<in> set logs. \<forall>a. sl_args log = Some a \<longrightarrow> la_leafIndex a < next_index s')"
proof (induction logs arbitrary: s)
  case Nil
  then show ?case by (simp add: sret_def)
next
  case (Cons log logs)
  obtain s1 where s1: "scan_leaf_log E log s = (Inr (), s1)" "fits chain s1" "next_index s \<le> next_index s1"
    "\<forall>a. sl_args log = Some a \<longrightarrow> la_leafIndex a < next_index s1"
    using scan_leaf_log_progress[OF assms _ Cons.prems(2)] Cons.prems(1) by fastforce
  obtain s2 where s2: "scan_leaf_logs E logs s1 = (Inr (), s2)" "fits chain s2" "next_index s1 \<le> next_index s2"
    "\<forall>log \<in> set logs. \<forall>a. sl_args log = Some a \<longrightarrow> la_leafIndex a < next_index s2"
    using Cons.IH[OF _ s1(2)] Cons.prems(1) by auto
  with s1 show ?case by (auto simp: sbind_def intro: less_le_trans)
qed

section \<open>Keys are always derivable\<close>

lemma label_ok:
  assumes "lib_ok L" "length (utf8 t) \<le> 31"
  shows "\<exists>f. stringToFr L t = Inr f"
proof -
  let ?bs = "replicate (32 - length (utf8 t)) 0 @ utf8 t"
  have z: "be_value (replicate k (0 :: byte) @ xs) = be_value xs" for k xs
    by (induction k) (simp_all add: be_value_Cons)
  have "be_value (utf8 t) < 256 ^ length (utf8 t)" by (rule be_value_bound)
  also have "\<dots> \<le> 256 ^ 31" using assms(2) by (intro power_increasing) simp_all
  also have "\<dots> < FR_MODULUS" by (simp add: FR_MODULUS_def)
  finally have "be_value ?bs < FR_MODULUS" by (simp add: z)
  then have "fromBuffer L (toBuffer (be_value ?bs)) = Some (be_value ?bs)" using assms(1) by (simp add: lib_ok_def)
  moreover have "toBuffer (be_value ?bs) = ?bs"
    using u64be_be_value[of ?bs] assms(2) by (simp add: toBuffer_def del: u64be_loop.simps)
  ultimately show ?thesis using assms(2) by (simp add: stringToFr_def Let_def)
qed

lemma key_labels: "length (utf8 VIEW_LABEL) \<le> 31" "length (utf8 SELF_EPH_LABEL) \<le> 31" "length (utf8 IN_KEY_LABEL) \<le> 31"
  by (simp_all add: VIEW_LABEL_def SELF_EPH_LABEL_def IN_KEY_LABEL_def utf8_def utf8_char_def)

lemma keys_derivable:
  assumes "lib_ok L" "0 \<le> i" "i < int FR_MODULUS"
  shows "\<exists>e. getSelfEphemeral L skRoot i = Inr e" "\<exists>e. getIncomingKey L skRoot i = Inr e"
proof -
  obtain v where v: "getViewKey L skRoot = Inr v"
    using label_ok[OF assms(1) key_labels(1)] by (auto simp: getViewKey_def deriveViewKey_def Kdf_derive_def)
  have i: "toFr i = Inr (nat i)" using assms(2,3) by (simp add: toFr_def new_Fr_residue)
  show "\<exists>e. getSelfEphemeral L skRoot i = Inr e" "\<exists>e. getIncomingKey L skRoot i = Inr e"
    using label_ok[OF assms(1) key_labels(2)] label_ok[OF assms(1) key_labels(3)]
    by (auto simp: getSelfEphemeral_def getIncomingKey_def v deriveSelfEphemeral_def deriveIncomingKey_def i derive_scalar_def
        Kdf_derive_def)
qed

text \<open>Every registered and every matched index lies below the scan index of its family.\<close>

definition indices_ok :: "key_repository \<Rightarrow> bool" where
  "indices_ok k \<longleftrightarrow> 0 \<le> selfScanIndex k \<and> 0 \<le> incomingScanIndex k \<and>
     highestMatchedSelf k < selfScanIndex k \<and> highestMatchedIncoming k < incomingScanIndex k \<and>
     (\<forall>(key, e, i) \<in> set (selfMap k). i < selfScanIndex k) \<and>
     (\<forall>(key, e, i) \<in> set (incomingMap k). i < incomingScanIndex k)"

lemma indices_ok_new: "indices_ok new_key_repository"
  by (simp add: indices_ok_def new_key_repository_def)

lemma set_update_cases: "x \<in> set (AList.update k v al) \<Longrightarrow> x = (k, v) \<or> x \<in> set al"
  using set_update_subset[of k v al] by auto

lemma register_self_up_progress:
  assumes "lib_ok L"
  shows "indices_ok k \<Longrightarrow> selfScanIndex k + int n \<le> int FR_MODULUS \<Longrightarrow>
    \<exists>k'. register_self_up L skRoot n k = (Inr (), k') \<and> indices_ok k' \<and> selfScanIndex k' = selfScanIndex k + int n \<and>
      incomingScanIndex k' = incomingScanIndex k"
proof (induction n arbitrary: k)
  case 0
  then show ?case by (simp add: sret_def)
next
  case (Suc n)
  let ?i = "selfScanIndex k" and ?k = "k\<lparr>selfScanIndex := selfScanIndex k + 1\<rparr>"
  have ok: "indices_ok ?k" using Suc.prems(1) by (auto simp: indices_ok_def)
  have "0 \<le> ?i" "?i < int FR_MODULUS" using Suc.prems by (simp_all add: indices_ok_def)
  from keys_derivable(1)[OF assms this] obtain e where e: "getSelfEphemeral L skRoot ?i = Inr e" by blast
  have "\<exists>k1. registerSelf L skRoot ?i ?k = (Inr (), k1) \<and> indices_ok k1 \<and> selfScanIndex k1 = ?i + 1 \<and>
      incomingScanIndex k1 = incomingScanIndex k"
    using e ok tagKey_publicKey[OF assms, of e]
    by (auto simp: registerSelf_def Let_def indices_ok_def dest!: set_update_cases)
  then obtain k1 where k1: "registerSelf L skRoot ?i ?k = (Inr (), k1)" "indices_ok k1" "selfScanIndex k1 = ?i + 1"
    "incomingScanIndex k1 = incomingScanIndex k" by blast
  from Suc.IH[OF k1(2)] k1(3) Suc.prems(2) obtain k2 where "register_self_up L skRoot n k1 = (Inr (), k2)" "indices_ok k2"
    "selfScanIndex k2 = ?i + 1 + int n" "incomingScanIndex k2 = incomingScanIndex k1" by auto
  with k1 show ?case by (auto simp: sbind_def sget_def smodify_def)
qed

lemma register_incoming_up_progress:
  assumes "lib_ok L"
  shows "indices_ok k \<Longrightarrow> incomingScanIndex k + int n \<le> int FR_MODULUS \<Longrightarrow>
    \<exists>k'. register_incoming_up L skRoot n k = (Inr (), k') \<and> indices_ok k' \<and>
      incomingScanIndex k' = incomingScanIndex k + int n \<and> selfScanIndex k' = selfScanIndex k"
proof (induction n arbitrary: k)
  case 0
  then show ?case by (simp add: sret_def)
next
  case (Suc n)
  let ?i = "incomingScanIndex k" and ?k = "k\<lparr>incomingScanIndex := incomingScanIndex k + 1\<rparr>"
  have ok: "indices_ok ?k" using Suc.prems(1) by (auto simp: indices_ok_def)
  have "0 \<le> ?i" "?i < int FR_MODULUS" using Suc.prems by (simp_all add: indices_ok_def)
  from keys_derivable(2)[OF assms this] obtain e where e: "getIncomingKey L skRoot ?i = Inr e" by blast
  have "\<exists>k1. registerIncoming L skRoot ?i ?k = (Inr (), k1) \<and> indices_ok k1 \<and> incomingScanIndex k1 = ?i + 1 \<and>
      selfScanIndex k1 = selfScanIndex k"
    using e ok tagKey_publicKey[OF assms, of e]
    by (auto simp: registerIncoming_def Let_def indices_ok_def dest!: set_update_cases)
  then obtain k1 where k1: "registerIncoming L skRoot ?i ?k = (Inr (), k1)" "indices_ok k1" "incomingScanIndex k1 = ?i + 1"
    "selfScanIndex k1 = selfScanIndex k" by blast
  from Suc.IH[OF k1(2)] k1(3) Suc.prems(2) obtain k2 where "register_incoming_up L skRoot n k1 = (Inr (), k2)" "indices_ok k2"
    "incomingScanIndex k2 = ?i + 1 + int n" "selfScanIndex k2 = selfScanIndex k1" by auto
  with k1 show ?case by (auto simp: sbind_def sget_def smodify_def)
qed

text \<open>Room for \<open>n\<close> more extensions of both windows.\<close>

definition key_room :: "int \<Rightarrow> nat \<Rightarrow> key_repository \<Rightarrow> bool" where
  "key_room window n k \<longleftrightarrow> indices_ok k \<and> selfScanIndex k + int n * window \<le> int FR_MODULUS \<and>
     incomingScanIndex k + int n * window \<le> int FR_MODULUS"

lemma lookahead_progress:
  assumes "lib_ok L" "0 \<le> window" "key_room window (Suc n) k"
  shows "\<exists>b1 k1 b2 k2. ensureSelfLookahead L skRoot window k = (Inr b1, k1) \<and>
    ensureIncomingLookahead L skRoot window k1 = (Inr b2, k2) \<and> key_room window n k2"
proof -
  let ?n = "nat (max (selfScanIndex k) (highestMatchedSelf k + 1 + window) - selfScanIndex k)"
  have w: "int (Suc n) * window = int n * window + window" by (simp add: algebra_simps)
  have p: "0 \<le> int n * window" using assms(2) by simp
  have k: "indices_ok k" using assms(3) by (simp add: key_room_def)
  have n: "int ?n \<le> window" using k assms(2) by (auto simp: indices_ok_def)
  then have "selfScanIndex k + int ?n \<le> int FR_MODULUS" using assms(3) w p unfolding key_room_def by linarith
  from register_self_up_progress[OF assms(1) k this, of skRoot] obtain k1 where
    k1: "register_self_up L skRoot ?n k = (Inr (), k1)" "indices_ok k1"
    "selfScanIndex k1 = selfScanIndex k + int ?n" "incomingScanIndex k1 = incomingScanIndex k" by blast
  let ?m = "nat (max (incomingScanIndex k1) (highestMatchedIncoming k1 + 1 + window) - incomingScanIndex k1)"
  have m: "int ?m \<le> window" using k1(2) assms(2) by (auto simp: indices_ok_def)
  then have "incomingScanIndex k1 + int ?m \<le> int FR_MODULUS"
    using assms(3) k1(4) w p unfolding key_room_def by linarith
  from register_incoming_up_progress[OF assms(1) k1(2) this, of skRoot] obtain k2 where
    k2: "register_incoming_up L skRoot ?m k1 = (Inr (), k2)" "indices_ok k2"
    "incomingScanIndex k2 = incomingScanIndex k1 + int ?m" "selfScanIndex k2 = selfScanIndex k1" by blast
  have "ensureSelfLookahead L skRoot window k = (Inr (?n > 0), k1)"
    using k1(1) by (simp add: ensureSelfLookahead_def Let_def sbind_def sret_def)
  moreover have "ensureIncomingLookahead L skRoot window k1 = (Inr (?m > 0), k2)"
    using k2(1) by (simp add: ensureIncomingLookahead_def Let_def sbind_def sret_def)
  moreover have "key_room window n k2"
    using k2 k1(3,4) n m assms(3) w unfolding key_room_def by linarith
  ultimately show ?thesis by blast
qed

section \<open>Scanning moves no scan index\<close>

definition keys_of :: "'w scan_state \<Rightarrow> key_repository" where
  "keys_of s = np_repo (ss_processor s)"

definition key_rel :: "'w scan_state \<Rightarrow> 'w scan_state \<Rightarrow> bool" where
  "key_rel s s' \<longleftrightarrow> selfScanIndex (keys_of s') = selfScanIndex (keys_of s) \<and>
     incomingScanIndex (keys_of s') = incomingScanIndex (keys_of s) \<and> (indices_ok (keys_of s) \<longrightarrow> indices_ok (keys_of s'))"

lemma key_rel_order: "reflp key_rel" "transp key_rel"
  by (auto simp: key_rel_def reflp_def transp_def)

definition repo_rel :: "key_repository \<Rightarrow> key_repository \<Rightarrow> bool" where
  "repo_rel k k' \<longleftrightarrow> selfScanIndex k' = selfScanIndex k \<and> incomingScanIndex k' = incomingScanIndex k \<and>
     selfMap k' = selfMap k \<and> incomingMap k' = incomingMap k \<and> (indices_ok k \<longrightarrow> indices_ok k')"

lemma matchSelfTag_rel: "matchSelfTag tag k = (r, k') \<Longrightarrow> repo_rel k k'"
  by (auto simp: matchSelfTag_def repo_rel_def indices_ok_def dest!: map_of_SomeD split: sum.splits option.splits if_splits)

lemma matchIncomingTag_rel:
  "matchIncomingTag tag k = (r, k') \<Longrightarrow> repo_rel k k' \<and>
    (\<forall>inKey index. r = Inr (Some (inKey, index)) \<longrightarrow> repo_rel k' (recordIncomingMatch index k'))"
  by (auto simp: matchIncomingTag_def recordIncomingMatch_def repo_rel_def indices_ok_def dest!: map_of_SomeD
      split: sum.splits option.splits if_splits)

lemma repo_rel_trans: "repo_rel a b \<Longrightarrow> repo_rel b c \<Longrightarrow> repo_rel a c"
  by (simp add: repo_rel_def)

lemma process_repo: "process L skRoot ring ev p = (r, p') \<Longrightarrow> repo_rel (np_repo p) (np_repo p')"
proof (cases "ev_type ev")
  case NEW_NOTE
  obtain q k where "matchSelfTag (ev_ephemeralX ev) (np_repo p) = (q, k)" by fastforce
  with matchSelfTag_rel[OF this] NEW_NOTE show "process L skRoot ring ev p = (r, p') \<Longrightarrow> ?thesis"
    by (auto simp: process_def processNewNote_def Let_def
        split: sum.splits option.splits prod.splits version_result.splits)
next
  case NEW_MEMO
  assume p: "process L skRoot ring ev p = (r, p')"
  show ?thesis
  proof (cases "\<exists>t w. ev_tag ev = Some t \<and> ev_cekWrap ev = Some w")
    case False
    with p NEW_MEMO show ?thesis
      by (auto simp: process_def processMemo_def repo_rel_def split: option.splits)
  next
    case True
    then obtain t w where tw: "ev_tag ev = Some t" "ev_cekWrap ev = Some w" by blast
    obtain q k where q: "matchIncomingTag t (np_repo p) = (q, k)" by fastforce
    note m = matchIncomingTag_rel[OF q]
    have "np_repo p' = k \<or> (\<exists>inKey index. q = Inr (Some (inKey, index)) \<and> np_repo p' = recordIncomingMatch index k)"
      using p NEW_MEMO tw q
      by (auto simp: process_def processMemo_def Let_def
          split: sum.splits option.splits prod.splits RecoverOutcome.splits)
    with m repo_rel_trans show ?thesis by metis
  qed
qed

lemma processLog_key: "key_rel s (processLog E log a s)"
proof -
  have "key_rel s (process_event E ev s)" for ev
  proof -
    obtain r p where p: "process (en_lib E) (en_skRoot E) (en_ring E) ev (ss_processor s) = (r, p)" by fastforce
    from process_repo[OF p] p show ?thesis
      by (cases r) (simp_all add: process_event_def key_rel_def keys_of_def repo_rel_def)
  qed
  then show ?thesis by (cases "sl_name log") (simp_all add: processLog_def key_rel_def)
qed

interpretation key_scan: scan_relation E key_rel for E
proof unfold_locales
  show "key_rel s (scan_null_log nl s)" for s :: "'a scan_state" and nl
    by (simp add: key_rel_def keys_of_def scan_null_log_def split: option.split)
qed (rule key_rel_order processLog_key | simp add: key_rel_def keys_of_def)+

section \<open>A scan returns\<close>

lemma key_room_rel: "key_rel s s' \<Longrightarrow> key_room window n (keys_of s) \<Longrightarrow> key_room window n (keys_of s')"
  by (simp add: key_rel_def key_room_def)

lemma on_keys_Inr:
  "act (keys_of s) = (Inr x, k) \<Longrightarrow> \<exists>s'. on_keys act s = (Inr x, s') \<and> keys_of s' = k \<and> ss_tree s' = ss_tree s \<and>
     ss_world s' = ss_world s"
  by (simp add: on_keys_def keys_of_def)

lemma both_lookaheads:
  assumes "lib_ok (en_lib E)" "0 \<le> window" "key_room window (Suc n) (keys_of s)"
  shows "\<exists>b1 s1 b2 s2. on_keys (ensureSelfLookahead (en_lib E) (en_skRoot E) window) s = (Inr b1, s1) \<and>
    on_keys (ensureIncomingLookahead (en_lib E) (en_skRoot E) window) s1 = (Inr b2, s2) \<and>
    key_room window n (keys_of s2) \<and> ss_tree s2 = ss_tree s \<and> ss_world s2 = ss_world s"
proof -
  obtain b1 k1 b2 k2 where k: "ensureSelfLookahead (en_lib E) (en_skRoot E) window (keys_of s) = (Inr b1, k1)"
    "ensureIncomingLookahead (en_lib E) (en_skRoot E) window k1 = (Inr b2, k2)" "key_room window n k2"
    using lookahead_progress[OF assms] by blast
  obtain s1 where s1: "on_keys (ensureSelfLookahead (en_lib E) (en_skRoot E) window) s = (Inr b1, s1)" "keys_of s1 = k1"
    "ss_tree s1 = ss_tree s" "ss_world s1 = ss_world s" using on_keys_Inr[of "ensureSelfLookahead (en_lib E) (en_skRoot E) window" s b1 k1] k(1) by auto
  obtain s2 where "on_keys (ensureIncomingLookahead (en_lib E) (en_skRoot E) window) s1 = (Inr b2, s2)" "keys_of s2 = k2"
    "ss_tree s2 = ss_tree s1" "ss_world s2 = ss_world s1"
    using on_keys_Inr[of "ensureIncomingLookahead (en_lib E) (en_skRoot E) window" s1 b2 k2] k(2) s1(2) by auto
  with s1 k(3) show ?thesis by auto
qed

lemma scanOnce_progress:
  assumes "honest_contract chain (en_contract E)" "answers chain (en_contract E)" "list_all (honest_log chain) ls" "fits chain s"
  shows "\<exists>s'. scanOnce E ls ns s = (Inr (), s') \<and> fits chain s' \<and> next_index s \<le> next_index s' \<and> key_rel s s' \<and>
    (\<forall>log \<in> set ls. \<forall>a. sl_args log = Some a \<longrightarrow> la_leafIndex a < next_index s')"
proof -
  obtain s1 where s1: "scan_leaf_logs E ls s = (Inr (), s1)" "fits chain s1" "next_index s \<le> next_index s1"
    "\<forall>log \<in> set ls. \<forall>a. sl_args log = Some a \<longrightarrow> la_leafIndex a < next_index s1"
    using scan_leaf_logs_progress[OF assms] by blast
  let ?s = "fold scan_null_log ns s1"
  have o: "scanOnce E ls ns s = (Inr (), ?s)" using s1(1) by (simp add: scanOnce_def sbind_def smodify_def)
  have "key_rel s ?s" using keepsD[OF key_scan.scanOnce_keeps, of s E ls ns] o by simp
  with o s1 fits_tree[OF fold_null_tree, of chain ns s1] next_index_tree[OF fold_null_tree, of ns s1] show ?thesis by auto
qed

lemma scan_loop_progress:
  assumes L: "lib_ok (en_lib E)" "0 \<le> window"
    and C: "honest_contract chain (en_contract E)" "answers chain (en_contract E)" "list_all (honest_log chain) ls"
  shows "fits chain s \<Longrightarrow> key_room window n (keys_of s) \<Longrightarrow>
    \<exists>s'. scan_loop E window ls ns n s = (Inr (), s') \<and> fits chain s' \<and> next_index s \<le> next_index s' \<and>
      (0 < n \<longrightarrow> (\<forall>log \<in> set ls. \<forall>a. sl_args log = Some a \<longrightarrow> la_leafIndex a < next_index s'))"
proof (induction n arbitrary: s)
  case 0
  then show ?case by (simp add: sret_def)
next
  case (Suc n)
  obtain s1 where s1: "scanOnce E ls ns s = (Inr (), s1)" "fits chain s1" "next_index s \<le> next_index s1" "key_rel s s1"
    "\<forall>log \<in> set ls. \<forall>a. sl_args log = Some a \<longrightarrow> la_leafIndex a < next_index s1"
    using scanOnce_progress[OF C Suc.prems(1)] by blast
  obtain b1 s2 b2 s3 where s3: "on_keys (ensureSelfLookahead (en_lib E) (en_skRoot E) window) s1 = (Inr b1, s2)"
    "on_keys (ensureIncomingLookahead (en_lib E) (en_skRoot E) window) s2 = (Inr b2, s3)"
    "key_room window n (keys_of s3)" "ss_tree s3 = ss_tree s1"
    using both_lookaheads[OF L key_room_rel[OF s1(4) Suc.prems(2)]] by blast
  have f: "fits chain s3" "next_index s3 = next_index s1" using s1(2) fits_tree[OF s3(4)] next_index_tree[OF s3(4)] by simp_all
  show ?case
  proof (cases "\<not> b1 \<and> \<not> b2")
    case True
    with s1 s3 f show ?thesis by (simp add: sbind_def sret_def)
  next
    case False
    obtain s4 where s4: "scan_loop E window ls ns n s3 = (Inr (), s4)" "fits chain s4" "next_index s3 \<le> next_index s4"
      using Suc.IH[OF f(1) s3(3)] by blast
    from s1(1) s3(1,2) s4(1) False have "scan_loop E window ls ns (Suc n) s = (Inr (), s4)" by (auto simp: sbind_def)
    with s1(3,5) s4(2,3) f(2) show ?thesis by (auto intro: less_le_trans)
  qed
qed

text \<open>The contract answers a scan, and one of the logs within the finalised range is that of the last leaf.\<close>

definition publishes :: "fr list \<Rightarrow> 'w engine \<Rightarrow> bool" where
  "publishes chain E \<longleftrightarrow> (\<forall>from w. \<exists>ns w1 ms w2 ks w3 fin. ct_notes (en_contract E) None from w = (Some ns, w1) \<and>
     ct_memos (en_contract E) None from w1 = (Some ms, w2) \<and> ct_nullifiers (en_contract E) from w2 = (Some ks, w3) \<and>
     (\<forall>s. ss_world s = w3 \<longrightarrow> fst (finalizedBlock E s) = Inr fin) \<and>
     (\<exists>log \<in> set (ns @ ms). \<exists>a. sl_args log = Some a \<and> la_leafIndex a = int (length chain) - 1 \<and> sl_blockNumber log \<le> fin))"

lemma fetchScanLogs_progress:
  assumes "publishes chain E"
  shows "\<exists>ls ks s'. fetchScanLogs E from s = (Inr (ls, ks), s') \<and>
    (\<exists>log \<in> set ls. \<exists>a. sl_args log = Some a \<and> la_leafIndex a = int (length chain) - 1)"
proof -
  obtain ns w1 ms w2 ks w3 fin where q: "ct_notes (en_contract E) None (scanFloor E from) (ss_world s) = (Some ns, w1)"
    "ct_memos (en_contract E) None (scanFloor E from) w1 = (Some ms, w2)"
    "ct_nullifiers (en_contract E) (scanFloor E from) w2 = (Some ks, w3)"
    "\<forall>s. ss_world s = w3 \<longrightarrow> fst (finalizedBlock E s) = Inr fin"
    "\<exists>log \<in> set (ns @ ms). \<exists>a. sl_args log = Some a \<and> la_leafIndex a = int (length chain) - 1 \<and> sl_blockNumber log \<le> fin"
    using assms[unfolded publishes_def, rule_format, of "scanFloor E from" "ss_world s"] by (elim exE conjE) (rule that)
  let ?s = "s\<lparr>ss_world := w1, ss_world := w2, ss_world := w3\<rparr>"
  obtain u where u: "finalizedBlock E ?s = (Inr fin, u)"
    using q(4) by (cases "finalizedBlock E ?s") (auto dest!: spec[of _ ?s])
  let ?ls = "sort_key (\<lambda>l. (sl_blockNumber l, sl_index l)) (filter (\<lambda>l. sl_blockNumber l \<le> fin) (ns @ ms))"
  have "fetchScanLogs E from s = (Inr (?ls, filter (\<lambda>l. nl_blockNumber l \<le> fin) ks), u)"
    using q(1-3) u by (simp add: fetchScanLogs_def Let_def sbind_def query_def sret_def)
  moreover have "\<exists>log \<in> set ?ls. \<exists>a. sl_args log = Some a \<and> la_leafIndex a = int (length chain) - 1" using q(5) by auto
  ultimately show ?thesis by blast
qed

lemma scanPasses_progress:
  assumes L: "lib_ok (en_lib E)" "0 \<le> window" "key_room window 65 (keys_of s)"
    and C: "honest_contract chain (en_contract E)" "answers chain (en_contract E)" "publishes chain E"
    and M: "fits chain s"
  shows "\<exists>s'. scanPasses E from window s = (Inr (), s') \<and> int (length chain) \<le> next_index s'"
proof -
  have "key_room window (Suc 64) (keys_of s)" using L(3) by simp
  from both_lookaheads[OF L(1,2) this] obtain b1 s1 b2 s2 where
    s2: "on_keys (ensureSelfLookahead (en_lib E) (en_skRoot E) window) s = (Inr b1, s1)"
    "on_keys (ensureIncomingLookahead (en_lib E) (en_skRoot E) window) s1 = (Inr b2, s2)"
    "key_room window 64 (keys_of s2)" "ss_tree s2 = ss_tree s" by blast
  obtain ls ks s3 where s3: "fetchScanLogs E from s2 = (Inr (ls, ks), s3)"
    "\<exists>log \<in> set ls. \<exists>a. sl_args log = Some a \<and> la_leafIndex a = int (length chain) - 1"
    using fetchScanLogs_progress[OF C(3)] by blast
  note h = fetchScanLogs_mirror[OF C(1) s3(1)]
  have k: "key_room window 64 (keys_of s3)"
    using key_room_rel[OF _ s2(3)] keepsD[OF key_scan.fetchScanLogs_keeps, of s2 E "from"] s3(1) by simp
  have "ss_tree s3 = ss_tree s" using h(1) s2(4) by simp
  then have f: "fits chain s3" using fits_tree M by blast
  obtain s4 where s4: "scan_loop E window ls ks 64 s3 = (Inr (), s4)"
    "\<forall>log \<in> set ls. \<forall>a. sl_args log = Some a \<longrightarrow> la_leafIndex a < next_index s4"
    using scan_loop_progress[OF L(1,2) C(1,2) h(2)[OF refl] f k, of ks] by auto
  have "scanPasses E from window s = (Inr (), s4)"
    using s2(1,2) s3(1) s4(1) by (simp add: scanPasses_def sbind_def)
  with s3(2) s4(2) show ?thesis by force
qed

end
