(* ===== verification/Scan_Properties.thy ===== *)
theory Scan_Properties
  imports Scan_Progress Mint_Properties
begin

text \<open>
  What the wallet guarantees of the notes it finds: a note made for itself or paid to one of its addresses is
  recognised and decrypted to exactly what was minted, a spent note is never counted again, the mirror of the
  note tree is the chain's tree, and a scan returns.
\<close>

section \<open>Cells of the discovery service\<close>

text \<open>a row and its cell determine each other. Every well-formed row is encoded, and decoding the cell
  gives it back; and every cell that is accepted is the encoding of the row it was read as, so no two cells
  stand for one row.\<close>

theorem cell_codec_canonical:
  assumes "lib_ok L" "buffer_exact L"
  shows "(record_ok r \<longrightarrow> encodeHowlNoteRecord r = Inr (cell_bytes r) \<and> decodeHowlNoteRecord L (cell_bytes r) = Inr r) \<and>
    (\<forall>cell. decodeHowlNoteRecord L cell = Inr r \<longrightarrow> encodeHowlNoteRecord r = Inr cell)"
proof (intro conjI impI allI)
  assume r: "record_ok r"
  then show "encodeHowlNoteRecord r = Inr (cell_bytes r)"
    by (intro encode_eq) (simp_all add: record_ok_def)
  from r assms(1) show "decodeHowlNoteRecord L (cell_bytes r) = Inr r" by (rule decode_encode)
next
  fix cell assume "decodeHowlNoteRecord L cell = Inr r"
  from encode_decode[OF this assms(2)] show "encodeHowlNoteRecord r = Inr cell" .
qed

definition demo_record :: HowlNoteRecord where
  "demo_record = \<lparr>layoutVersion = 1, recordKind = 1, hr_leafIndex = 70000, commitmentPrefix = replicate 16 9,
     ephemeralPkX = 11, hr_cekWrap = 12, ciphertextKept = [1, 2, 3, 4, 5]\<rparr>"

lemma demo_record_ok: "record_ok demo_record"
  by (simp add: record_ok_def demo_record_def FR_MODULUS_def)

theorem cell_codec_canonical_witness:
  "decodeHowlNoteRecord demo_lib (cell_bytes demo_record) = Inr demo_record \<and>
   encodeHowlNoteRecord demo_record = Inr (cell_bytes demo_record)"
  using cell_codec_canonical[OF demo_lib_ok demo_buffer_exact, of demo_record] demo_record_ok by simp

section \<open>Notes are found\<close>

lemma balance_added:
  assumes "map_of us (wn_nullifier n) = None" "\<not> wn_spent n"
  shows "getBalance (Some (assetId (wn_note n))) (addNote n us) =
    getBalance (Some (assetId (wn_note n))) us + n_value (wn_note n)"
proof -
  have "wn_nullifier n \<notin> fst ` set us" using assms(1) by (simp add: map_of_eq_None_iff)
  then have "addNote n us = us @ [(wn_nullifier n, n)]" using assms(1) by (simp add: addNote_def update_fresh)
  with assms(2) show ?thesis by (simp add: getBalance_eq)
qed

text \<open>C9: a note the wallet makes for itself with a key it has issued is recognised when it appears on chain,
  by the event alone: the processor returns the note as minted, with its value, its nullifier at the leaf it
  landed at and the index of the key, and adding it raises the balance of the asset by exactly its value.\<close>

theorem own_note_recovered:
  assumes "nextSelfEphemeral L skRoot reserve w = (Inr (c, ref), w')" "np_repo p = kw_repo w'"
    and "getSelfSpendKey L skRoot = Inr spend" "pubkeyOwner L (publicKey L spend) \<noteq> Inr 0"
    and "mintSelfNote L (cd_eph c) v spend asset pk prnts = Inr mn" "asset < 2 ^ 160" "prnts < FR_MODULUS"
    and "event_carries L mn ev" "ev_type ev = NEW_NOTE"
    and "no_false_open L (cd_eph c) mn ev ring" "\<exists>e \<in> set ring. ep_pk e = pk" "lib_ok L"
  shows "\<exists>p'. process L skRoot ring ev p = (Some (wallet_note L mn (ev_leafIndex ev) spend False (cd_index c)), p') \<and>
    (\<forall>us. map_of us (computeNullifier L (mn_psi mn) (nat (ev_leafIndex ev))) = None \<longrightarrow>
       getBalance (Some asset) (addNote (wallet_note L mn (ev_leafIndex ev) spend False (cd_index c)) us) =
       getBalance (Some asset) us + v)"
proof -
  obtain k where k: "matchSelfTag (fst (cd_ephPub c)) (kw_repo w') = (Inr (Some (cd_eph c, cd_index c)), k)"
    using issued_matches[OF assms(1)] by blast
  obtain own where own: "finish L (cd_eph c) v own asset spend prnts pk = Inr mn"
    using assms(5) by (auto simp: mintSelfNote_def)
  note f = finish_Inr[OF own]
  have "cd_ephPub c = publicKey L (cd_eph c)"
    using next_self_issued[OF assms(1)[unfolded nextSelfEphemeral_def]] by blast
  then have "ev_ephemeralX ev = fst (cd_ephPub c)" using assms(8) f(8) by (simp add: event_carries_def)
  with k assms(2) have t: "matchSelfTag (ev_ephemeralX ev) (np_repo p) = (Inr (Some (cd_eph c, cd_index c)), k)" by simp
  let ?n = "wallet_note L mn (ev_leafIndex ev) spend False (cd_index c)"
  have n: "wn_nullifier ?n = computeNullifier L (mn_psi mn) (nat (ev_leafIndex ev))" "\<not> wn_spent ?n"
    "assetId (wn_note ?n) = asset" "n_value (wn_note ?n) = v"
    using f(2,5) by (simp_all add: wallet_note_def)
  from self_note_found[OF assms(5,8,9,3) t assms(6,7,4,10,11,12)] balance_added[of _ ?n] n show ?thesis by auto
qed

text \<open>The event the pool logs for a minted note.\<close>

definition event_for :: "event_type \<Rightarrow> MintedNote \<Rightarrow> fr list \<Rightarrow> UnprocessedEvent" where
  "event_for t mn ct = \<lparr>ev_type = t, ev_blockNumber = 20, ev_leafIndex = 6, ev_commitment = int (mn_commitment mn),
     ev_ephemeralX = fst (mn_ephPub mn), ev_packedCiphertext = map int ct,
     ev_tag = (if t = NEW_MEMO then Some (int (mn_tag mn)) else None),
     ev_cekWrap = (if t = NEW_MEMO then map_option int (mn_cekWrap mn) else None)\<rparr>"

lemma event_for_carries:
  "demEncrypt L (mn_cek mn) (note_plaintext mn) = Inr ct \<Longrightarrow> event_carries L mn (event_for t mn ct)"
  by (simp add: event_carries_def event_for_def)

lemma encryptable: "\<exists>ct. demEncrypt L (mn_cek mn) (note_plaintext mn) = Inr ct"
  by (simp add: demEncrypt_def DEM_FIELDS_def)

lemma demo_self_mint: "\<exists>mn. mintSelfNote demo_lib 59830 70 59314 3 (12, 2) 6 = Inr mn"
  by (simp add: mintSelfNote_def demo_points finish_def demo_cek leaf_def new_Fr_def FR_MODULUS_def toFr_def Let_def)

theorem own_note_recovered_witness:
  "\<exists>w' mn ct n p'. nextSelfEphemeral demo_lib 5 mem_reserve fresh_world = (Inr (demo_eph, 0), w') \<and>
     mintSelfNote demo_lib 59830 70 59314 3 (12, 2) 6 = Inr mn \<and>
     process demo_lib 5 (h_ring demo_history) (event_for NEW_NOTE mn ct) \<lparr>np_repo = kw_repo w', np_unopenable = 0\<rparr> =
       (Some n, p') \<and> getBalance (Some 3) (addNote n []) = 70"
proof -
  obtain w where "next_self_loop demo_lib 5 mem_reserve (Suc 255) fresh_world = (Inr (demo_eph, 0), w)"
    using demo_issue[of 255] by blast
  then have w: "nextSelfEphemeral demo_lib 5 mem_reserve fresh_world = (Inr (demo_eph, 0), w)"
    by (simp add: nextSelfEphemeral_def MAX_INDEX_ROLL_def del: next_self_loop.simps)
  obtain mn where mn: "mintSelfNote demo_lib (cd_eph demo_eph) 70 59314 3 (12, 2) 6 = Inr mn"
    using demo_self_mint by (auto simp: demo_eph_def)
  obtain ct where ct: "demEncrypt demo_lib (mn_cek mn) (note_plaintext mn) = Inr ct" using encryptable by blast
  let ?ev = "event_for NEW_NOTE mn ct" and ?p = "\<lparr>np_repo = kw_repo w, np_unopenable = 0\<rparr>"
  have s: "getSelfSpendKey demo_lib 5 = Inr 59314" by (simp add: getSelfSpendKey_def getViewKey_def demo_keys)
  have "deriveCek demo_lib 59830 (12, 2) = Inr (mn_cek mn)"
    using mintSelfNote_Inr[OF mn] by (simp add: self_output_def demo_eph_def)
  then have o: "no_false_open demo_lib (cd_eph demo_eph) mn ?ev (h_ring demo_history)"
    by (simp add: no_false_open_def demo_history_def demo_eph_def)
  have r: "\<exists>e \<in> set (h_ring demo_history). ep_pk e = (12, 2)" by (simp add: demo_history_def)
  have "(3 :: nat) < 2 ^ 160" "(6 :: nat) < FR_MODULUS" by (simp_all add: FR_MODULUS_def)
  moreover have e: "ev_type ?ev = NEW_NOTE" "ev_leafIndex ?ev = 6" by (simp_all add: event_for_def)
  moreover have "pubkeyOwner demo_lib (publicKey demo_lib 59314) \<noteq> Inr 0" "np_repo ?p = kw_repo w" by (simp_all add: demo_points)
  ultimately have "\<exists>p'. process demo_lib 5 (h_ring demo_history) ?ev ?p =
      (Some (wallet_note demo_lib mn (ev_leafIndex ?ev) 59314 False (cd_index demo_eph)), p') \<and>
    (\<forall>us. map_of us (computeNullifier demo_lib (mn_psi mn) (nat (ev_leafIndex ?ev))) = None \<longrightarrow>
       getBalance (Some 3) (addNote (wallet_note demo_lib mn (ev_leafIndex ?ev) 59314 False (cd_index demo_eph)) us) =
       getBalance (Some 3) us + 70)"
    using own_note_recovered[OF w _ s _ mn _ _ event_for_carries[OF ct] _ o r demo_lib_ok, of ?p] by blast
  then obtain p' where p': "process demo_lib 5 (h_ring demo_history) ?ev ?p =
      (Some (wallet_note demo_lib mn 6 59314 False (cd_index demo_eph)), p')"
    "getBalance (Some 3) (addNote (wallet_note demo_lib mn 6 59314 False (cd_index demo_eph)) []) = getBalance (Some 3) [] + 70"
    unfolding e(2) by auto
  have "getBalance (Some 3) ([] :: utxos) = 0" by (simp add: getBalance_eq)
  with w mn p' show ?thesis by (auto simp: demo_eph_def)
qed

lemma incoming_issued:
  "next_incoming_loop L skRoot n i k = (Inr (inKey, inPub, index), k') \<Longrightarrow> inPub = publicKey L inKey \<and>
    (\<exists>key. tagKey (fst inPub) = Inr key \<and> map_of (incomingMap k') key = Some (inKey, index))"
proof (induction n arbitrary: i)
  case (Suc n)
  obtain ik where ik: "getIncomingKey L skRoot i = Inr ik"
    using Suc.prems by (cases "getIncomingKey L skRoot i") (auto simp: sbind_def slift_def)
  show ?case
  proof (cases "isEvenY (publicKey L ik)")
    case True
    with Suc.prems ik show ?thesis
      by (cases "tagKey (fst (publicKey L ik))")
        (auto simp: sbind_def slift_def smodify_def sret_def Let_def update_conv)
  next
    case False
    with Suc ik show ?thesis by (simp add: sbind_def slift_def Let_def)
  qed
qed (simp add: sthrow_def)

lemma demo_on_curve: "on_curve (X0, Y0)"
proof -
  have "(1 :: int) + 168696 * (10000000000000000000000000000000000000000000000000000000000000000000000000000 * 10000000000000000000000000000000000000000000000000000000000000000000000000000) * (15483963187526415546065883604027663626767048517779524961946229985637756648148 * 15483963187526415546065883604027663626767048517779524961946229985637756648148) =
      168700 * (10000000000000000000000000000000000000000000000000000000000000000000000000000 * 10000000000000000000000000000000000000000000000000000000000000000000000000000) + 15483963187526415546065883604027663626767048517779524961946229985637756648148 * 15483963187526415546065883604027663626767048517779524961946229985637756648148 +
      21888242871839275222246405745257275088548364400416034343698204186575808495617 * 184781354503041292360970509192937132831292623749524300690830734791314229400467318940781722498775790479692989182504000742611852469721815832486606997322982203036163827281901499510514808685689510374039790142511259449507671071535410659441"
    by (simp only: numeral_times_numeral numeral_plus_numeral one_plus_numeral numeral_eq_iff num.inject num.distinct
        num_add num_add_carry num_mult simp_thms)
  then have "(1 + BJJ_D * (X0 * X0) * (Y0 * Y0)) mod BJJ_P = (BJJ_A * (X0 * X0) + Y0 * Y0) mod BJJ_P"
    unfolding X0_def Y0_def BJJ_P_def BJJ_A_def BJJ_D_def by (simp only: mod_mult_self2)
  moreover have "0 \<le> X0" "X0 < BJJ_P" "0 \<le> Y0" "Y0 < BJJ_P" by (simp_all add: X0_def Y0_def BJJ_P_def)
  ultimately show ?thesis by (simp only: on_curve_def prod.case simp_thms)
qed

text \<open>\<^verbatim>\<open>recoverEvenY\<close> is a function to the points with even y and nothing else: of an x it returns exactly the
  point of the curve above it whose y is even, and it throws when there is none.\<close>

theorem recoverEvenY_exact:
  assumes "0 \<le> x" "x < BJJ_P"
  shows "recoverEvenY x = Inr P \<longleftrightarrow> on_curve P \<and> fst P = x \<and> isEvenY P"
  using recoverEvenY_iff[OF assms, of "fst P" "snd P"] by (simp add: isEvenY_def)

theorem recoverEvenY_exact_witness: "recoverEvenY X0 = Inr (X0, Y0) \<and> recoverEvenY 1 \<noteq> Inr (1, 1)"
proof -
  have "\<not> on_curve (1, 1)" by (simp add: on_curve_def BJJ_P_def BJJ_A_def BJJ_D_def)
  then show ?thesis
    using recoverEvenY_exact[of X0 "(X0, Y0)"] recoverEvenY_exact[of 1 "(1, 1)"] demo_on_curve
    by (simp add: isEvenY_def Y0_def X0_def BJJ_P_def)
qed

text \<open>C10: a note someone else pays to an address the wallet has issued is recognised too, from the event alone,
  with its content key unwrapped from what the sender published; the sender knows nothing of the wallet but
  the address. The event carries only the x of the ephemeral key; the sender's ephemeral key is required to be a
  point of the curve with an even y, the convention of the memo, and the recovery of that point is proved.\<close>

theorem incoming_note_recovered:
  assumes "nextIncomingAddress L skRoot k = (Inr (inKey, inPub, index), k')" "np_repo p = k'"
    and "pubkeyOwner L inPub \<noteq> Inr 0" "assertSubgroupScalar inKey = Inr ()"
    and "mintIncomingNote L eph v inPub ik asset pk prnts = Inr mn" "asset < 2 ^ 160" "prnts < FR_MODULUS"
    and "event_carries L mn ev" "ev_type ev = NEW_MEMO" "ev_tag ev = Some (int (mn_tag mn))"
    and "ev_cekWrap ev = map_option int (mn_cekWrap mn)"
    and "on_curve (publicKey L eph)" "isEvenY (publicKey L eph)" "lib_ok L"
  shows "\<exists>p'. process L skRoot ring ev p = (Some (wallet_note L mn (ev_leafIndex ev) inKey True index), p') \<and>
    (\<forall>us. map_of us (computeNullifier L (mn_psi mn) (nat (ev_leafIndex ev))) = None \<longrightarrow>
       getBalance (Some asset) (addNote (wallet_note L mn (ev_leafIndex ev) inKey True index) us) =
       getBalance (Some asset) us + v)"
proof -
  have i: "inPub = publicKey L inKey" "map_of (incomingMap k') (nat (fst inPub)) = Some (inKey, index)"
    using incoming_issued[OF assms(1)[unfolded nextIncomingAddress_def]] tagKey_publicKey[OF assms(14), of inKey] by auto
  note m = mintIncomingNote_Inr[OF assms(5)]
  have "tagKey (int (mn_tag mn)) = Inr (nat (fst inPub))"
    using m(6) tagKey_publicKey[OF assms(14), of inKey] i(1) by simp
  then have t: "\<exists>k1. matchIncomingTag (int (mn_tag mn)) (np_repo p) = (Inr (Some (inKey, index)), k1)"
    using i(2) assms(2) by (simp add: matchIncomingTag_def)
  then obtain k1 where t: "matchIncomingTag (int (mn_tag mn)) (np_repo p) = (Inr (Some (inKey, index)), k1)" by blast
  have y: "recoverEvenY (fst (publicKey L eph)) = Inr (publicKey L eph)"
    using recoverEvenY_point[of "fst (publicKey L eph)" "snd (publicKey L eph)"] assms(12,13) by (simp add: isEvenY_def)
  let ?n = "wallet_note L mn (ev_leafIndex ev) inKey True index"
  have n: "wn_nullifier ?n = computeNullifier L (mn_psi mn) (nat (ev_leafIndex ev))" "\<not> wn_spent ?n"
    "assetId (wn_note ?n) = asset" "n_value (wn_note ?n) = v"
    using m(1,3) by (simp_all add: wallet_note_def)
  from incoming_note_found[OF assms(5)[unfolded i(1)] assms(8-11) t assms(6,7) assms(3)[unfolded i(1)] assms(4) y assms(14)]
    balance_added[of _ ?n] n show ?thesis by auto
qed

text \<open>Someone who draws the ephemeral 7 pays the first address of a fresh repository.\<close>

lemma demo_incoming_issue: "\<exists>k. nextIncomingAddress demo_lib 5 new_key_repository = (Inr (57031, (57031, 2), 0), k)"
proof -
  have "\<exists>k. next_incoming_loop demo_lib 5 (Suc 255) 0 new_key_repository = (Inr (57031, (57031, 2), 0), k)"
    unfolding next_incoming_loop.simps
    by (simp add: sbind_def slift_def smodify_def sret_def Let_def getIncomingKey_def getViewKey_def demo_keys demo_points
        isEvenY_def tagKey_def new_Fr_def FR_MODULUS_def)
  then show ?thesis by (simp add: nextIncomingAddress_def MAX_INDEX_ROLL_def new_key_repository_def)
qed

lemma demo_incoming_mint: "\<exists>mn. mintIncomingNote demo_lib 7 70 (57031, 2) 0 3 (12, 2) PARENTS_HIDDEN = Inr mn"
proof -
  have c: "deriveCek demo_lib 7 (12, 2) = Inr 84"
    by (simp add: deriveCek_def assertSubgroupScalar_def assertValidPoint_def demo_eval)
  have w: "\<exists>x. wrapCek demo_lib cek 7 (57031, 2) = Inr x" for cek
    by (simp add: wrapCek_def assertSubgroupScalar_def assertValidPoint_def demo_eval)
  have t: "\<exists>x. new_Fr (fst (publicKey demo_lib 7)) = Inr x"
    by (simp add: publicKey_def demo_eval)
  have "\<exists>mn. finish demo_lib 7 70 64252 3 0 PARENTS_HIDDEN (12, 2) = Inr mn"
    using t by (auto simp: finish_def c leaf_def new_Fr_def FR_MODULUS_def toFr_def Let_def split: if_splits)
  with w show ?thesis by (auto simp: mintIncomingNote_def demo_points new_Fr_def FR_MODULUS_def)
qed

theorem incoming_note_recovered_witness:
  "\<exists>k mn ct n p'. nextIncomingAddress demo_lib 5 new_key_repository = (Inr (57031, (57031, 2), 0), k) \<and>
     mintIncomingNote demo_lib 7 70 (57031, 2) 0 3 (12, 2) PARENTS_HIDDEN = Inr mn \<and>
     process demo_lib 5 [] (event_for NEW_MEMO mn ct) \<lparr>np_repo = k, np_unopenable = 0\<rparr> = (Some n, p') \<and>
     getBalance (Some 3) (addNote n []) = 70"
proof -
  obtain k where k: "nextIncomingAddress demo_lib 5 new_key_repository = (Inr (57031, (57031, 2), 0), k)"
    using demo_incoming_issue by blast
  obtain mn where mn: "mintIncomingNote demo_lib 7 70 (57031, 2) 0 3 (12, 2) PARENTS_HIDDEN = Inr mn"
    using demo_incoming_mint by blast
  obtain ct where ct: "demEncrypt demo_lib (mn_cek mn) (note_plaintext mn) = Inr ct" using encryptable by blast
  let ?ev = "event_for NEW_MEMO mn ct" and ?p = "\<lparr>np_repo = k, np_unopenable = 0\<rparr>"
  have a: "(3 :: nat) < 2 ^ 160" "PARENTS_HIDDEN < FR_MODULUS" by (simp_all add: PARENTS_HIDDEN_def FR_MODULUS_def)
  have s: "assertSubgroupScalar 57031 = Inr ()" by (simp add: assertSubgroupScalar_def BJJ_SUBGROUP_ORDER_def)
  have "publicKey demo_lib 7 = (X0, Y0)" by (simp add: publicKey_def demo_mul_def X0_def BJJ_SUBGROUP_ORDER_def)
  then have y: "on_curve (publicKey demo_lib 7)" "isEvenY (publicKey demo_lib 7)"
    using demo_on_curve by (simp_all add: isEvenY_def Y0_def)
  have e: "ev_type ?ev = NEW_MEMO" "ev_tag ?ev = Some (int (mn_tag mn))" "ev_cekWrap ?ev = map_option int (mn_cekWrap mn)"
    "ev_leafIndex ?ev = 6" by (simp_all add: event_for_def)
  have "pubkeyOwner demo_lib (57031, 2) \<noteq> Inr 0" "np_repo ?p = k" by (simp_all add: demo_points)
  from incoming_note_recovered[OF k this(2,1) s mn a event_for_carries[OF ct] e(1-3) y demo_lib_ok, where ring = "[]"]
  obtain p' where p': "process demo_lib 5 [] ?ev ?p = (Some (wallet_note demo_lib mn 6 57031 True 0), p')"
    "getBalance (Some 3) (addNote (wallet_note demo_lib mn 6 57031 True 0) []) = getBalance (Some 3) [] + 70"
    unfolding e(4) by auto
  have "getBalance (Some 3) ([] :: utxos) = 0" by (simp add: getBalance_eq)
  with k mn p' show ?thesis by auto
qed

section \<open>Spent notes\<close>

text \<open>Reading a nullifier leaves the note of that nullifier spent, and no later one makes it unspent.\<close>

definition none_unspent :: "fr \<Rightarrow> 'w scan_state \<Rightarrow> bool" where
  "none_unspent nf s \<longleftrightarrow> (\<forall>n. map_of (ss_utxos s) nf = Some n \<longrightarrow> wn_spent n)"

lemma null_log_spends: "nl_nullifierHash log = Some nf \<Longrightarrow> none_unspent nf (scan_null_log log s)"
  by (auto simp: none_unspent_def scan_null_log_def markSpent_def split: option.splits)

lemma null_log_spent: "none_unspent nf s \<Longrightarrow> none_unspent nf (scan_null_log log s)"
  by (auto simp: none_unspent_def scan_null_log_def markSpent_def split: option.splits)

lemma null_logs_spent: "none_unspent nf s \<Longrightarrow> none_unspent nf (fold scan_null_log logs s)"
  by (induction logs arbitrary: s) (simp_all add: null_log_spent)

lemma null_logs_spend:
  "log \<in> set logs \<Longrightarrow> nl_nullifierHash log = Some nf \<Longrightarrow> none_unspent nf (fold scan_null_log logs s)"
proof (induction logs arbitrary: s)
  case (Cons l logs)
  show ?case
  proof (cases "log = l")
    case True
    then show ?thesis using null_logs_spent[OF null_log_spends[OF Cons.prems(2), of s], of logs] by simp
  qed (use Cons in simp)
qed simp

lemma on_keys_utxos: "ss_utxos (snd (on_keys act s)) = ss_utxos s"
  by (simp add: on_keys_def split: prod.split)

lemma scan_loop_spends:
  assumes "log \<in> set ns" "nl_nullifierHash log = Some nf"
  shows "scan_loop E window ls ns n s = (Inr (), s') \<Longrightarrow> 0 < n \<or> none_unspent nf s \<Longrightarrow> none_unspent nf s'"
proof (induction n arbitrary: s)
  case 0
  then show ?case by (simp add: sret_def)
next
  case (Suc n)
  obtain s1 where s1: "scanOnce E ls ns s = (Inr (), s1)"
    using Suc.prems(1) by (cases "scanOnce E ls ns s") (auto simp: sbind_def split: sum.splits)
  then obtain s0 where "s1 = fold scan_null_log ns s0"
    by (auto simp: scanOnce_def sbind_def smodify_def split: sum.splits prod.splits)
  then have 1: "none_unspent nf s1" using null_logs_spend[OF assms] by simp
  obtain b1 s2 where s2: "on_keys (ensureSelfLookahead (en_lib E) (en_skRoot E) window) s1 = (Inr b1, s2)"
    using Suc.prems(1) s1
    by (cases "on_keys (ensureSelfLookahead (en_lib E) (en_skRoot E) window) s1") (auto simp: sbind_def split: sum.splits)
  obtain b2 s3 where s3: "on_keys (ensureIncomingLookahead (en_lib E) (en_skRoot E) window) s2 = (Inr b2, s3)"
    using Suc.prems(1) s1 s2
    by (cases "on_keys (ensureIncomingLookahead (en_lib E) (en_skRoot E) window) s2") (auto simp: sbind_def split: sum.splits)
  have 3: "none_unspent nf s3"
    using 1 on_keys_utxos[of _ s1] on_keys_utxos[of _ s2] s2 s3 by (metis none_unspent_def snd_conv)
  show ?case
  proof (cases "b1 \<or> b2")
    case True
    then have "scan_loop E window ls ns n s3 = (Inr (), s')" using Suc.prems(1) s1 s2 s3 by (auto simp: sbind_def)
    from Suc.IH[OF this] 3 show ?thesis by simp
  next
    case False
    then show ?thesis using Suc.prems(1) s1 s2 s3 3 by (auto simp: sbind_def sret_def)
  qed
qed

text \<open>Every answer of the contract has a log of the nullifier in a finalised block.\<close>

definition reports_spent :: "'w engine \<Rightarrow> fr \<Rightarrow> bool" where
  "reports_spent E nf \<longleftrightarrow> (\<forall>from w ks w'. ct_nullifiers (en_contract E) from w = (Some ks, w') \<longrightarrow>
     (\<exists>log \<in> set ks. nl_nullifierHash log = Some nf \<and>
        (\<forall>s fin s'. finalizedBlock E s = (Inr fin, s') \<longrightarrow> nl_blockNumber log \<le> fin)))"

lemma fetchScanLogs_spent:
  assumes "fetchScanLogs E from s = (Inr (ls, ns), s')" "reports_spent E nf"
  shows "\<exists>log \<in> set ns. nl_nullifierHash log = Some nf"
proof -
  obtain s2 ks s3 fin s4 where q: "query (ct_nullifiers (en_contract E) (scanFloor E from)) s2 = (Inr ks, s3)"
    "finalizedBlock E s3 = (Inr fin, s4)" "ns = filter (\<lambda>l. nl_blockNumber l \<le> fin) ks"
    using assms(1) by (auto simp: fetchScanLogs_def Let_def sbind_def sret_def split: sum.splits prod.splits)
  obtain w where "ct_nullifiers (en_contract E) (scanFloor E from) (ss_world s2) = (Some ks, w)"
    using query_Inr[OF q(1)] by blast
  with assms(2) q(2,3) show ?thesis unfolding reports_spent_def by fastforce
qed

lemma utxos_distinct: "utxos_ok us \<Longrightarrow> distinct (map snd us)"
proof -
  assume ok: "utxos_ok us"
  then have "map fst us = map wn_nullifier (map snd us)" by (auto simp: utxos_ok_def)
  with ok show "distinct (map snd us)" by (metis distinct_map utxos_ok_def)
qed

text \<open>C11: money is never counted twice. Whatever the contract answers, and whether the scan returns or throws
  in the middle, a note that was held is still held afterwards, a note that was spent is still spent, there
  is one entry per nullifier, and the balance of an asset is the sum over the different unspent notes of
  it; and when the scan returns, a note whose nullifier the contract reports in a finalised block is spent.\<close>

theorem spent_never_counted:
  assumes "engine_sync E from s = (r, s')" "utxos_ok (ss_utxos s)"
  shows "(\<forall>k n. map_of (ss_utxos s) k = Some n \<longrightarrow>
      (\<exists>n'. map_of (ss_utxos s') k = Some n' \<and> (wn_spent n \<longrightarrow> wn_spent n'))) \<and>
    utxos_ok (ss_utxos s') \<and>
    (\<forall>asset. getBalance (Some asset) (ss_utxos s') =
      (\<Sum>n \<in> {n \<in> snd ` set (ss_utxos s'). \<not> wn_spent n \<and> assetId (wn_note n) = asset}. n_value (wn_note n))) \<and>
    (\<forall>nf n. r = Inr () \<longrightarrow> reports_spent E nf \<longrightarrow> map_of (ss_utxos s') nf = Some n \<longrightarrow> wn_spent n)"
proof (intro conjI)
  have "scan_rel s s'" using keepsD[OF spent_rel.scanPasses_keeps, of s E "from" "en_lookaheadWindow E"] assms(1)
    by (simp add: engine_sync_def)
  then show "\<forall>k n. map_of (ss_utxos s) k = Some n \<longrightarrow>
      (\<exists>n'. map_of (ss_utxos s') k = Some n' \<and> (wn_spent n \<longrightarrow> wn_spent n'))"
    and ok: "utxos_ok (ss_utxos s')" using assms(2) by (auto simp: scan_rel_def spent_stays_def)
  have "distinct (map snd (ss_utxos s'))" using utxos_distinct[OF ok] .
  then show "\<forall>asset. getBalance (Some asset) (ss_utxos s') =
      (\<Sum>n \<in> {n \<in> snd ` set (ss_utxos s'). \<not> wn_spent n \<and> assetId (wn_note n) = asset}. n_value (wn_note n))"
    by (simp add: getBalance_eq sum_list_distinct_conv_sum_set Collect_conj_eq2)
  show "\<forall>nf n. r = Inr () \<longrightarrow> reports_spent E nf \<longrightarrow> map_of (ss_utxos s') nf = Some n \<longrightarrow> wn_spent n"
  proof (intro allI impI)
    fix nf n assume a: "r = Inr ()" "reports_spent E nf" "map_of (ss_utxos s') nf = Some n"
    obtain ls ns s3 s4 where f: "fetchScanLogs E from s3 = (Inr (ls, ns), s4)"
      "scan_loop E (en_lookaheadWindow E) ls ns 64 s4 = (Inr (), s')"
      using assms(1) a(1) by (auto simp: engine_sync_def scanPasses_def sbind_def split: sum.splits prod.splits)
    obtain log where "log \<in> set ns" "nl_nullifierHash log = Some nf" using fetchScanLogs_spent[OF f(1) a(2)] by blast
    from scan_loop_spends[OF this f(2)] a(3) show "wn_spent n" by (simp add: none_unspent_def)
  qed
qed

text \<open>A wallet holding one note of 100, and a contract that reports its nullifier.\<close>

definition held_note :: WalletNote where
  "held_note = \<lparr>wn_note = \<lparr>noteVersion = 1, assetId = 3, noteType = 0, conditionsHash = 0, n_value = 100,
     n_owner = 3953, psi = 8, parents = 0\<rparr>, wn_commitment = 44, wn_leafIndex = 6, wn_nullifier = 9,
     wn_spendScalar = 59314, wn_isIncoming = False, wn_derivationIndex = 0, wn_spent = False\<rparr>"

definition quiet_contract :: "unit contract" where
  "quiet_contract = \<lparr>ct_notes = (\<lambda>is from w. (Some [], w)), ct_memos = (\<lambda>is from w. (Some [], w)),
     ct_nullifiers = (\<lambda>from w. (Some [\<lparr>nl_blockNumber = 12, nl_nullifierHash = Some 9\<rparr>], w)), ct_head = None\<rparr>"

definition demo_engine :: "'w contract \<Rightarrow> 'w engine" where
  "demo_engine C = \<lparr>en_lib = demo_lib, en_contract = C, en_skRoot = 5, en_ring = h_ring demo_history,
     en_lookaheadWindow = 0, en_deploymentBlock = 7, en_finalityDepth = 0\<rparr>"

definition demo_state :: "utxos \<Rightarrow> LeanIMT option \<Rightarrow> unit scan_state" where
  "demo_state us t = \<lparr>ss_processor = \<lparr>np_repo = new_key_repository, np_unopenable = 0\<rparr>, ss_utxos = us, ss_tree = t,
     ss_world = ()\<rparr>"

lemma quiet_sync: "\<exists>s'. engine_sync (demo_engine quiet_contract) 0 (demo_state [(9, held_note)] None) = (Inr (), s') \<and>
    ss_utxos s' = [(9, held_note\<lparr>wn_spent := True\<rparr>)]"
proof -
  let ?E = "demo_engine quiet_contract" and ?s = "demo_state [(9, held_note)] None"
  let ?ns = "[\<lparr>nl_blockNumber = 12, nl_nullifierHash = Some 9\<rparr>]"
  have k: "on_keys (ensureSelfLookahead demo_lib 5 0) (demo_state us None) = (Inr False, demo_state us None)"
    "on_keys (ensureIncomingLookahead demo_lib 5 0) (demo_state us None) = (Inr False, demo_state us None)" for us
    by (simp_all add: on_keys_def demo_state_def new_key_repository_def ensureSelfLookahead_def ensureIncomingLookahead_def
        Let_def sbind_def sret_def)
  have f: "fetchScanLogs ?E 0 ?s = (Inr ([], ?ns), ?s)"
    by (simp add: fetchScanLogs_def Let_def demo_engine_def quiet_contract_def demo_state_def query_def sbind_def sret_def
        finalizedBlock_def MAX_SAFE_INTEGER_def)
  have o: "scanOnce ?E [] ?ns ?s = (Inr (), demo_state [(9, held_note\<lparr>wn_spent := True\<rparr>)] None)"
    by (simp add: scanOnce_def sbind_def sret_def smodify_def scan_null_log_def markSpent_def demo_state_def held_note_def)
  have e: "en_lib ?E = demo_lib" "en_skRoot ?E = 5" "en_lookaheadWindow ?E = 0" by (simp_all add: demo_engine_def)
  have "scan_loop ?E 0 [] ?ns (Suc 63) ?s = (Inr (), demo_state [(9, held_note\<lparr>wn_spent := True\<rparr>)] None)"
    unfolding scan_loop.simps using o k e by (simp add: sbind_def sret_def)
  then have l: "scan_loop ?E 0 [] ?ns 64 ?s = (Inr (), demo_state [(9, held_note\<lparr>wn_spent := True\<rparr>)] None)" by simp
  show ?thesis using f l k by (simp add: engine_sync_def scanPasses_def sbind_def e) (simp add: demo_state_def)
qed

theorem spent_never_counted_witness:
  "\<exists>s'. engine_sync (demo_engine quiet_contract) 0 (demo_state [(9, held_note)] None) = (Inr (), s') \<and>
     getBalance (Some 3) [(9, held_note)] = 100 \<and> getBalance (Some 3) (ss_utxos s') = 0"
proof -
  obtain s' where s: "engine_sync (demo_engine quiet_contract) 0 (demo_state [(9, held_note)] None) = (Inr (), s')"
    "ss_utxos s' = [(9, held_note\<lparr>wn_spent := True\<rparr>)]" using quiet_sync by blast
  have "utxos_ok (ss_utxos (demo_state [(9, held_note)] None))" by (simp add: utxos_ok_def demo_state_def held_note_def)
  moreover have "reports_spent (demo_engine quiet_contract) 9"
    by (auto simp: reports_spent_def demo_engine_def quiet_contract_def finalizedBlock_def MAX_SAFE_INTEGER_def sret_def)
  ultimately have "getBalance (Some 3) (ss_utxos s') = 0"
    using spent_never_counted[OF s(1)] s(2) by (auto intro!: sum.neutral)
  with s(1) show ?thesis by (auto simp: getBalance_eq held_note_def)
qed

section \<open>The mirror is the chain\<close>

text \<open>C13: the wallet's tree is never anything but the tree of the first leaves of the chain, whatever order the
  logs arrive in, however many are missing from an answer and wherever a scan breaks off: only leaves that
  follow on are inserted, and the root is the root of the reference tree of exactly these.\<close>

theorem sync_mirrors_chain:
  assumes "engine_sync E start s = (r, s')" "honest_contract chain (en_contract E)"
    and "mirrors (poseidon2Hash (en_lib E)) chain s" "ss_tree s = Some t"
  shows "mirrors (poseidon2Hash (en_lib E)) chain s' \<and>
    (\<exists>t'. ss_tree s' = Some t' \<and> nextLeafIndex t \<le> nextLeafIndex t' \<and> nextLeafIndex t' \<le> length chain \<and>
       getRoot t' = lean_node (poseidon2Hash (en_lib E)) (take (nextLeafIndex t') chain) (depth t') 0)"
proof -
  let ?H = "poseidon2Hash (en_lib E)"
  have m: "mirror_rel ?H chain s s'"
    using keepsD[OF scanPasses_mirror[OF refl assms(2)], of s start "en_lookaheadWindow E"] assms(1)
    by (simp add: engine_sync_def)
  then obtain t' where t': "ss_tree s' = Some t'" using assms(4) by (auto simp: mirror_rel_def)
  from m assms(3) have "mirrors ?H chain s'" "next_index s \<le> next_index s'" by (auto simp: mirror_rel_def)
  with t' assms(4) show ?thesis by (auto simp: mirrors_def next_index_def tree_of_def getRoot_def)
qed

text \<open>A chain of two leaves, and a contract that logs them in the wrong order.\<close>

definition chain_log :: "int \<Rightarrow> int \<Rightarrow> scan_log" where
  "chain_log i c = \<lparr>sl_name = NewNote, sl_blockNumber = 20 - i, sl_index = 0, sl_args = Some \<lparr>la_leafIndex = i,
     la_commitment = c, la_ephemeralX = 1, la_packedCiphertext = [], la_tag = 0, la_cekWrap = 0\<rparr>\<rparr>"

definition chain_logs :: "scan_log list" where
  "chain_logs = [chain_log 1 7, chain_log 0 5]"

definition chain_contract :: "unit contract" where
  "chain_contract = \<lparr>ct_notes = (\<lambda>is from w. (Some (case is of None \<Rightarrow> chain_logs
       | Some xs \<Rightarrow> filter (\<lambda>l. la_leafIndex (the (sl_args l)) \<in> set xs) chain_logs), w)),
     ct_memos = (\<lambda>is from w. (Some [], w)), ct_nullifiers = (\<lambda>from w. (Some [], w)), ct_head = None\<rparr>"

definition empty_tree :: LeanIMT where
  "empty_tree = \<lparr>depth = 1, levels = [[]], nextLeafIndex = 0, currentRoot = 0\<rparr>"

lemma chain_contract_honest: "honest_contract [5, 7] chain_contract"
  by (auto simp: honest_contract_def chain_contract_def chain_logs_def chain_log_def honest_log_def split: option.splits)

lemma chain_contract_answers: "answers [5, 7] chain_contract"
proof -
  have "i = 0 \<or> i = 1" if "0 \<le> i" "i < 2" for i :: int using that by linarith
  then show ?thesis by (auto simp: answers_def chain_contract_def chain_logs_def chain_log_def)
qed

lemma chain_contract_publishes: "publishes [5, 7] (demo_engine chain_contract)"
  by (simp add: publishes_def demo_engine_def chain_contract_def chain_logs_def chain_log_def finalizedBlock_def
      MAX_SAFE_INTEGER_def sret_def)

lemma empty_tree_mirrors: "mirrors H chain (demo_state [] (Some empty_tree))"
proof -
  have "newLeanIMT 1 = Inr empty_tree" by (simp add: newLeanIMT_def empty_tree_def)
  from newLeanIMT_tree_of[OF this] show ?thesis by (simp add: mirrors_def demo_state_def empty_tree_def)
qed

lemma demo_engine_sel [simp]: "en_lib (demo_engine C) = demo_lib" "en_contract (demo_engine C) = C"
  "en_lookaheadWindow (demo_engine C) = 0"
  by (simp_all add: demo_engine_def)

theorem sync_mirrors_chain_witness:
  "\<exists>t'. ss_tree (snd (engine_sync (demo_engine chain_contract) 0 (demo_state [] (Some empty_tree)))) = Some t' \<and>
     getRoot t' = lean_node demo_hash (take (nextLeafIndex t') [5, 7]) (depth t') 0"
proof -
  have "ss_tree (demo_state [] (Some empty_tree)) = Some empty_tree" by (simp add: demo_state_def)
  from sync_mirrors_chain[where E = "demo_engine chain_contract" and chain = "[5, 7]" and start = 0, OF prod.collapse[symmetric] _ _ this]
  show ?thesis using chain_contract_honest empty_tree_mirrors by auto
qed

text \<open>C12: a scan against a contract that answers reaches the end of the chain. If every query is answered, with
  the last leaf among the finalised logs and every leaf that is asked for by its index, then whatever other
  logs are missing, duplicated or out of order, the scan returns, the wallet's tree is the tree of the whole
  chain, and every leaf of the chain has a path that folds to its root.\<close>

theorem sync_reaches_chain:
  assumes "lib_ok (en_lib E)" "0 \<le> en_lookaheadWindow E" "key_room (en_lookaheadWindow E) 65 (keys_of s)"
    and "honest_contract chain (en_contract E)" "answers chain (en_contract E)" "publishes chain E" "fits chain s"
    and "H = poseidon2Hash (en_lib E)" "mirrors H chain s" "\<forall>d. hash_nonzero H (tree_triples H chain d)"
  shows "\<exists>s' t. engine_sync E from s = (Inr (), s') \<and> ss_tree s' = Some t \<and> nextLeafIndex t = length chain \<and>
    getRoot t = lean_node H chain (depth t) 0 \<and>
    (\<forall>i < length chain. \<exists>path. getMerklePath t i = Inr path \<and> foldPath H (chain ! i) i path = Inr (getRoot t))"
proof -
  obtain s' where s': "engine_sync E from s = (Inr (), s')" "int (length chain) \<le> next_index s'"
    using scanPasses_progress[OF assms(1-7), of "from"] by (auto simp: engine_sync_def)
  obtain t0 where t0: "ss_tree s = Some t0" using fits_Some[OF assms(7)] by blast
  have m: "mirror_rel H chain s s'"
    using keepsD[OF scanPasses_mirror[OF assms(8,4)], of s "from" "en_lookaheadWindow E"] s'(1) by (simp add: engine_sync_def)
  then obtain t where t: "ss_tree s' = Some t" using t0 by (auto simp: mirror_rel_def)
  have "mirrors H chain s'" using m assms(9) by (simp add: mirror_rel_def)
  with t s'(2) have n: "nextLeafIndex t = length chain" "tree_of H t chain"
    by (auto simp: mirrors_def next_index_def)
  have z: "0 \<notin> set chain" using assms(7) by (auto simp: fits_def)
  have "\<exists>path. getMerklePath t i = Inr path \<and> foldPath H (chain ! i) i path = Inr (getRoot t)" if "i < length chain" for i
    using path_complete[OF n(2) _ z that] assms(10) by metis
  with s'(1) t n show ?thesis by (auto simp: tree_of_def getRoot_def)
qed

theorem sync_reaches_chain_witness:
  "\<exists>s' t. engine_sync (demo_engine chain_contract) 0 (demo_state [] (Some empty_tree)) = (Inr (), s') \<and>
     ss_tree s' = Some t \<and> nextLeafIndex t = 2"
proof -
  let ?s = "demo_state [] (Some empty_tree)"
  have k: "key_room (en_lookaheadWindow (demo_engine chain_contract)) 65 (keys_of ?s)"
    using indices_ok_new by (simp add: key_room_def keys_of_def demo_state_def) (simp add: new_key_repository_def)
  have f: "fits [5, 7] ?s" by (simp add: fits_def demo_state_def empty_tree_def FR_MODULUS_def)
  have h: "\<forall>d. hash_nonzero demo_hash (tree_triples demo_hash [5, 7] d)" by (simp add: hash_nonzero_def demo_hash_def)
  have e: "en_lib (demo_engine chain_contract) = demo_lib" "en_contract (demo_engine chain_contract) = chain_contract" by simp_all
  from sync_reaches_chain[of "demo_engine chain_contract" ?s "[5, 7]" demo_hash 0] k f h
    demo_lib_ok chain_contract_honest chain_contract_answers chain_contract_publishes empty_tree_mirrors[of demo_hash "[5, 7]"]
  show ?thesis by auto
qed

end
