(* ===== verification/Threshold_Scalars.thy ===== *)
theory Threshold_Scalars
  imports Note_Crypto Prime_Modulus Complex_Main
begin

text \<open>
  The arithmetic of \<^verbatim>\<open>tss/bjj.ts\<close>: scalars modulo the subgroup order and points of the curve. The addition of
  points and the decompression of a point are two more functions of the curve library. The algebra that the
  threshold protocols rest on is proved in the locale \<open>scalar_group\<close>, which the scalars themselves interpret;
  the subgroup of the curve is another model of it under \<open>tss_ok\<close>.
\<close>

unbundle bit_operations_syntax

section \<open>Scalars and points\<close>

record tss_lib = note_lib +
  addPoint :: "point \<Rightarrow> point \<Rightarrow> point"
  unpackPoint :: "fr \<Rightarrow> point option"

definition IDENTITY :: point where "IDENTITY = (0, 1)"

definition modSub :: "('a note_lib_scheme) \<Rightarrow> int \<Rightarrow> int" where
  "modSub L x = x mod subOrder L"

function powSub_loop :: "int \<Rightarrow> int \<Rightarrow> int \<Rightarrow> nat \<Rightarrow> int" where
  "powSub_loop q result b e =
     (if e > 0 then powSub_loop q (if odd e then (result * b) mod q else result) ((b * b) mod q) (e div 2) else result)"
  by pat_completeness auto
termination by (relation "measure (\<lambda>(q, result, b, e). e)") auto

declare powSub_loop.simps [simp del]

definition powSub :: "('a note_lib_scheme) \<Rightarrow> int \<Rightarrow> nat \<Rightarrow> int" where
  "powSub L base exp1 = powSub_loop (subOrder L) 1 (modSub L base) exp1"

definition invSub :: "('a note_lib_scheme) \<Rightarrow> int \<Rightarrow> wallet_error + int" where
  "invSub L x = (let r = modSub L x in
     if r = 0 then Inl (WError ''tss: inverse of zero mod SUBORDER'')
     else Inr (powSub L r (nat (subOrder L - 2))))"

definition scalarMul :: "('a note_lib_scheme) \<Rightarrow> int \<Rightarrow> point \<Rightarrow> point" where
  "scalarMul L k p = mulPointEscalar L p (modSub L k)"

definition scalarBaseMul :: "('a note_lib_scheme) \<Rightarrow> int \<Rightarrow> point" where
  "scalarBaseMul L k = scalarMul L k (Base8 L)"

definition pointAdd :: "('a tss_lib_scheme) \<Rightarrow> point \<Rightarrow> point \<Rightarrow> point" where
  "pointAdd L a b = addPoint L a b"

definition pointNeg :: "point \<Rightarrow> point" where
  "pointNeg p = (- fst p mod int FR_MODULUS, snd p)"

definition pointEq :: "point \<Rightarrow> point \<Rightarrow> bool" where
  "pointEq a b \<longleftrightarrow> fst a = fst b \<and> snd a = snd b"

definition isIdentity :: "point \<Rightarrow> bool" where
  "isIdentity p \<longleftrightarrow> fst p = 0 \<and> snd p = 1"

definition inSubgroup :: "('a note_lib_scheme) \<Rightarrow> point \<Rightarrow> bool" where
  "inSubgroup L p = (if \<not> inCurve L p then False else mulPointEscalar L p (subOrder L) = (0, 1))"

definition inSubgroupNonId :: "('a note_lib_scheme) \<Rightarrow> point \<Rightarrow> bool" where
  "inSubgroupNonId L p \<longleftrightarrow> inSubgroup L p \<and> \<not> isIdentity p"

definition assertInSubgroup :: "('a note_lib_scheme) \<Rightarrow> point \<Rightarrow> string \<Rightarrow> wallet_error + unit" where
  "assertInSubgroup L p label =
     (if \<not> inCurve L p then Inl (WError (''tss: '' @ label @ '' is not on the BabyJubJub curve''))
      else if isIdentity p then Inl (WError (''tss: '' @ label @ '' is the identity''))
      else if \<not> inSubgroup L p then Inl (WError (''tss: '' @ label @ '' is not in the prime-order subgroup''))
      else Inr ())"

text \<open>\<^verbatim>\<open>randScalar\<close>, from the 48 bytes the random source returns.\<close>

definition randScalar :: "('a note_lib_scheme) \<Rightarrow> bytes \<Rightarrow> int" where
  "randScalar L bs = foldl (\<lambda>acc b. push_bit 8 acc OR uint b) 0 bs mod (subOrder L - 1) + 1"

section \<open>Powers and inverses\<close>

lemma powSub_loop_eq: "1 < q \<Longrightarrow> powSub_loop q r b e mod q = r * b ^ e mod q"
proof (induction q r b e rule: powSub_loop.induct)
  case (1 q r b e)
  show ?case
  proof (cases "e = 0")
    case True
    then show ?thesis by (subst powSub_loop.simps) simp
  next
    case False
    let ?r = "if odd e then (r * b) mod q else r"
    have "b ^ e = (if odd e then b else 1) * (b * b) ^ (e div 2)"
    proof (cases "even e")
      case True
      then obtain k where "e = 2 * k" by (elim evenE)
      then show ?thesis by (simp add: power_mult power2_eq_square)
    next
      case False
      then obtain k where "e = 2 * k + 1" by (elim oddE)
      then show ?thesis by (simp add: power_mult power2_eq_square)
    qed
    then have e: "r * b ^ e = (if odd e then r * b else r) * (b * b) ^ (e div 2)" by (simp add: mult.assoc)
    have "powSub_loop q r b e mod q = ?r * ((b * b) mod q) ^ (e div 2) mod q"
      using 1 False by (subst powSub_loop.simps) simp
    also have "\<dots> = ?r * (b * b) ^ (e div 2) mod q"
      by (subst mod_mult_right_eq[symmetric]) (simp only: power_mod mod_mult_right_eq)
    also have "\<dots> = (if odd e then r * b else r) * (b * b) ^ (e div 2) mod q"
      by (cases "odd e") (simp_all only: mod_mult_left_eq if_True if_False not_False_eq_True)
    finally show ?thesis by (simp only: e)
  qed
qed

lemma powSub_loop_range: "1 < q \<Longrightarrow> 0 \<le> r \<Longrightarrow> r < q \<Longrightarrow> 0 \<le> powSub_loop q r b e \<and> powSub_loop q r b e < q"
proof (induction q r b e rule: powSub_loop.induct)
  case (1 q r b e)
  then show ?case by (subst (1 2) powSub_loop.simps) simp
qed

text \<open>The inverse is one.\<close>

lemma invSub_Inr:
  assumes "prime_order (subOrder L)" "invSub L x = Inr y"
  shows "x * y mod subOrder L = 1" "0 \<le> y" "y < subOrder L"
proof -
  let ?q = "subOrder L"
  have q: "1 < ?q" using assms(1) by (simp add: prime_order_def)
  have y: "y = powSub_loop ?q 1 (x mod ?q mod ?q) (nat (?q - 2))" "x mod ?q \<noteq> 0"
    using assms(2) by (auto simp: invSub_def Let_def modSub_def powSub_def split: if_splits)
  show "0 \<le> y" "y < ?q" using powSub_loop_range[of ?q 1] q y(1) by simp_all
  have "y mod ?q = x ^ nat (?q - 2) mod ?q" using powSub_loop_eq[OF q] by (simp add: y(1) power_mod)
  then have "x * y mod ?q = x * x ^ nat (?q - 2) mod ?q" by (metis mod_mult_right_eq)
  also have "x * x ^ nat (?q - 2) = x ^ nat (?q - 1)"
    using q by (simp add: power_Suc[symmetric] Suc_nat_eq_nat_zadd1 del: power_Suc)
  also have "\<dots> mod ?q = 1" using fermat[OF assms(1)] y(2) by (simp add: dvd_eq_mod_eq_0)
  finally show "x * y mod ?q = 1" .
qed

lemma invSub_total: "\<not> subOrder L dvd x \<Longrightarrow> \<exists>y. invSub L x = Inr y"
  by (simp add: invSub_def Let_def modSub_def dvd_eq_mod_eq_0)

section \<open>Interpolation\<close>

text \<open>The weights of Lagrange at zero for a set of points, as fractions, and their moments.\<close>

definition lagr :: "int set \<Rightarrow> int \<Rightarrow> real" where
  "lagr R i = (\<Prod>j \<in> R - {i}. of_int j / of_int (j - i))"

lemma lagr_insert:
  assumes "finite S" "a \<notin> S"
  shows "i \<in> S \<Longrightarrow> lagr (insert a S) i = lagr S i * (of_int a / of_int (a - i))"
    "lagr (insert a S) a = (\<Prod>j \<in> S. of_int j / of_int (j - a))"
proof -
  assume i: "i \<in> S"
  with assms have "insert a S - {i} = insert a (S - {i})" by blast
  with assms show "lagr (insert a S) i = lagr S i * (of_int a / of_int (a - i))" by (simp add: lagr_def)
next
  from assms have "insert a S - {a} = S" by blast
  then show "lagr (insert a S) a = (\<Prod>j \<in> S. of_int j / of_int (j - a))" by (simp add: lagr_def)
qed

lemma lagr_neville:
  fixes a b i :: int
  assumes "a \<noteq> b" "a \<noteq> i" "b \<noteq> i"
  shows "(of_int a / of_int (a - i)) * (of_int b / of_int (b - i)) =
    of_int b / of_int (b - a) * (of_int a / of_int (a - i)) + of_int a / of_int (a - b) * (of_int b / of_int (b - i) :: real)"
proof -
  define x y z :: real where "x = of_int a" and "y = of_int b" and "z = of_int i"
  have "x \<noteq> y" "x \<noteq> z" "y \<noteq> z" using assms by (simp_all add: x_def y_def z_def)
  then have d: "x - z \<noteq> 0" "y - z \<noteq> 0" "y - x \<noteq> 0" "x - y \<noteq> 0" by simp_all
  have "x / (x - y) = - (x / (y - x))" using d by (simp add: field_simps)
  then have "y / (y - x) * (x / (x - z)) + x / (x - y) * (y / (y - z)) =
      (x * y / (y - x)) * (1 / (x - z) - 1 / (y - z))" by (simp add: algebra_simps)
  also have "1 / (x - z) - 1 / (y - z) = (y - x) / ((x - z) * (y - z))" using d by (simp add: diff_frac_eq)
  also have "(x * y / (y - x)) * \<dots> = (x / (x - z)) * (y / (y - z))" using d by simp
  finally show ?thesis by (simp add: x_def y_def z_def)
qed

lemma lagr_sum: "finite R \<Longrightarrow> R \<noteq> {} \<Longrightarrow> (\<Sum>i \<in> R. lagr R i) = 1"
proof (induction "card R" arbitrary: R rule: less_induct)
  case less
  from less.prems obtain a S where a: "R = insert a S" "a \<notin> S" by (meson ex_in_conv mk_disjoint_insert)
  show ?case
  proof (cases "S = {}")
    case True
    then show ?thesis by (simp add: a lagr_def)
  next
    case False
    then obtain b T where b: "S = insert b T" "b \<notin> T" by (meson ex_in_conv mk_disjoint_insert)
    have fin: "finite T" "a \<notin> T" "a \<noteq> b" using less.prems(1) a b by auto
    let ?A = "insert a T" and ?B = "insert b T" and ?u = "of_int b / of_int (b - a) :: real"
      and ?v = "of_int a / of_int (a - b) :: real"
    have R: "R = insert a ?B" "R = insert b ?A" using a b by auto
    have cd: "card ?A < card R" "card ?B < card R" using fin a b by simp_all
    have IH: "(\<Sum>i \<in> ?A. lagr ?A i) = 1" "(\<Sum>i \<in> ?B. lagr ?B i) = 1"
      using less.hyps[OF cd(1)] less.hyps[OF cd(2)] fin(1) by blast+
    have T: "lagr R i = ?u * lagr ?A i + ?v * lagr ?B i" if "i \<in> T" for i
    proof -
      have i: "a \<noteq> i" "b \<noteq> i" using that fin b by auto
      have "lagr R i = lagr T i * (of_int a / of_int (a - i)) * (of_int b / of_int (b - i))"
        using lagr_insert(1)[of ?A b i] lagr_insert(1)[of T a i] that fin b by (simp add: R(2))
      also have "\<dots> = lagr T i * ((of_int a / of_int (a - i)) * (of_int b / of_int (b - i)))" by (simp only: mult.assoc)
      also have "\<dots> = lagr T i * (?u * (of_int a / of_int (a - i)) + ?v * (of_int b / of_int (b - i)))"
        by (simp only: lagr_neville[OF fin(3) i])
      also have "\<dots> = ?u * (lagr T i * (of_int a / of_int (a - i))) + ?v * (lagr T i * (of_int b / of_int (b - i)))"
        by (simp add: algebra_simps)
      finally show ?thesis using lagr_insert(1)[of T a i] lagr_insert(1)[of T b i] that fin b by simp
    qed
    have A: "lagr R a = ?u * lagr ?A a" using lagr_insert(1)[of ?A b a] fin b by (simp add: R(2))
    have B: "lagr R b = ?v * lagr ?B b" using lagr_insert(1)[of ?B a b] fin b by (simp add: R(1))
    have "(\<Sum>i \<in> R. lagr R i) = lagr R a + (lagr R b + (\<Sum>i \<in> T. lagr R i))" using fin a b by simp
    also have "(\<Sum>i \<in> T. lagr R i) = ?u * (\<Sum>i \<in> T. lagr ?A i) + ?v * (\<Sum>i \<in> T. lagr ?B i)"
      by (simp add: T sum.distrib sum_distrib_left)
    also have "lagr R a + (lagr R b + \<dots>) = ?u * (\<Sum>i \<in> ?A. lagr ?A i) + ?v * (\<Sum>i \<in> ?B. lagr ?B i)"
      using fin b by (simp add: A B algebra_simps)
    also have "\<dots> = ?u + ?v" by (simp only: IH mult_1_right)
    also have "\<dots> = 1"
    proof -
      have "?v = - (of_int a / of_int (b - a))" by (metis minus_diff_eq minus_divide_right of_int_minus)
      then have "?u + ?v = of_int b / of_int (b - a) - of_int a / of_int (b - a)" by (simp only: add_uminus_conv_diff)
      also have "\<dots> = of_int (b - a) / of_int (b - a)" by (simp only: diff_divide_distrib of_int_diff)
      also have "\<dots> = 1" using fin(3) by simp
      finally show ?thesis .
    qed
    finally show ?thesis .
  qed
qed

lemma lagr_moment: "finite R \<Longrightarrow> k < card R \<Longrightarrow> (\<Sum>i \<in> R. lagr R i * of_int i ^ k) = 0 ^ k"
proof (induction k arbitrary: R)
  case 0
  then have "R \<noteq> {}" by auto
  with 0(1) show ?case by (simp add: lagr_sum)
next
  case (Suc k)
  then obtain a S where a: "R = insert a S" "a \<notin> S" by (metis card.empty ex_in_conv mk_disjoint_insert not_less0)
  have fin: "finite S" "k < card S" using Suc.prems a by simp_all
  have step: "lagr R i * of_int i ^ Suc k = of_int a * (lagr R i * of_int i ^ k) - of_int a * (lagr S i * of_int i ^ k)"
    if "i \<in> S" for i
  proof -
    have "real_of_int a - real_of_int i \<noteq> 0" using that a by auto
    moreover have "lagr R i = lagr S i * (of_int a / of_int (a - i))" using lagr_insert(1)[OF fin(1) a(2) that] a(1) by simp
    ultimately have "lagr R i * (of_int a - of_int i) = lagr S i * of_int a" by simp
    then have "of_int i * lagr R i = of_int a * lagr R i - of_int a * lagr S i" by (simp add: algebra_simps)
    then have "(of_int i * lagr R i) * of_int i ^ k = (of_int a * lagr R i - of_int a * lagr S i) * of_int i ^ k" by simp
    then show ?thesis by (simp add: algebra_simps)
  qed
  have "(\<Sum>i \<in> R. lagr R i * of_int i ^ Suc k) =
      of_int a * (\<Sum>i \<in> R. lagr R i * of_int i ^ k) - of_int a * (\<Sum>i \<in> S. lagr S i * of_int i ^ k)"
  proof -
    have "(\<Sum>i \<in> S. lagr R i * of_int i ^ Suc k) =
        (\<Sum>i \<in> S. of_int a * (lagr R i * of_int i ^ k) - of_int a * (lagr S i * of_int i ^ k))"
      by (rule sum.cong) (simp_all only: step)
    also have "\<dots> = of_int a * (\<Sum>i \<in> S. lagr R i * of_int i ^ k) - of_int a * (\<Sum>i \<in> S. lagr S i * of_int i ^ k)"
      by (simp only: sum_subtractf sum_distrib_left)
    finally show ?thesis using fin(1) a by (simp add: algebra_simps)
  qed
  moreover have "k < card R" using Suc.prems by simp
  ultimately show ?case using Suc.IH[OF Suc.prems(1)] Suc.IH[OF fin] by simp
qed

text \<open>The same modulo a prime: the weights may be any residues that satisfy the defining equation.\<close>

definition lag_weight :: "int \<Rightarrow> int set \<Rightarrow> int \<Rightarrow> int \<Rightarrow> bool" where
  "lag_weight q R i w \<longleftrightarrow> w * (\<Prod>j \<in> R - {i}. j - i) mod q = (\<Prod>j \<in> R - {i}. j) mod q"

lemma lag_weight_moment:
  fixes w :: "int \<Rightarrow> int"
  assumes q: "prime_order q" and R: "finite R" "\<forall>i \<in> R. \<forall>j \<in> R. i \<noteq> j \<longrightarrow> \<not> q dvd j - i"
    and w: "\<forall>i \<in> R. lag_weight q R i (w i)" and k: "k < card R"
  shows "q dvd (\<Sum>i \<in> R. w i * i ^ k) - 0 ^ k"
proof -
  let ?d = "\<lambda>i. \<Prod>j \<in> R - {i}. j - i" and ?n = "\<lambda>i. \<Prod>j \<in> R - {i}. j"
  let ?m = "\<lambda>i. \<Prod>l \<in> R - {i}. ?d l" and ?M = "\<Prod>l \<in> R. ?d l"
  have M: "?M = ?d i * ?m i" if "i \<in> R" for i using R(1) that by (rule prod.remove)
  have d: "\<not> q dvd ?d i" if "i \<in> R" for i using R that by (intro prime_order_prod[OF _ q]) auto
  then have d0: "?d i \<noteq> 0" if "i \<in> R" for i using that by (metis dvd_0_right)
  have l: "lagr R i * of_int ?M = of_int (?n i * ?m i)" if "i \<in> R" for i
  proof -
    have "lagr R i = of_int (?n i) / of_int (?d i)" by (simp only: lagr_def prod_dividef of_int_prod)
    then have "lagr R i * of_int ?M = of_int (?n i) / of_int (?d i) * (of_int (?d i) * of_int (?m i))"
      by (simp only: M[OF that] of_int_mult)
    also have "\<dots> = of_int (?n i) * of_int (?m i)" using d0[OF that] by (simp del: of_int_prod of_int_diff)
    finally show ?thesis by (simp only: of_int_mult)
  qed
  have "of_int (\<Sum>i \<in> R. ?n i * ?m i * i ^ k) = (\<Sum>i \<in> R. lagr R i * of_int ?M * of_int i ^ k)"
    by (simp only: of_int_sum of_int_mult of_int_power l cong: sum.cong)
  also have "\<dots> = of_int ?M * (\<Sum>i \<in> R. lagr R i * of_int i ^ k)"
    by (simp only: sum_distrib_left) (rule sum.cong, simp_all only: ac_simps)
  also have "\<dots> = of_int (?M * 0 ^ k)" by (simp add: lagr_moment[OF R(1) k])
  finally have int_eq: "(\<Sum>i \<in> R. ?n i * ?m i * i ^ k) = ?M * 0 ^ k" by (simp only: of_int_eq_iff)
  have "q dvd ?M * (w i * i ^ k) - ?n i * ?m i * i ^ k" if "i \<in> R" for i
  proof -
    have "q dvd w i * ?d i - ?n i" using w that by (simp add: lag_weight_def mod_eq_dvd_iff)
    then have "q dvd (w i * ?d i - ?n i) * (?m i * i ^ k)" by simp
    then show ?thesis by (simp add: M[OF that] algebra_simps)
  qed
  then have "q dvd (\<Sum>i \<in> R. ?M * (w i * i ^ k) - ?n i * ?m i * i ^ k)" by (rule dvd_sum)
  then have "q dvd ?M * ((\<Sum>i \<in> R. w i * i ^ k) - 0 ^ k)"
    using int_eq by (simp add: sum_subtractf sum_distrib_left right_diff_distrib)
  moreover have "\<not> q dvd ?M" using d by (intro prime_order_prod[OF R(1) q]) blast
  ultimately show ?thesis using prime_order_cancel[OF q] by blast
qed

end
