(* ===== verification/Scalar_Group.thy ===== *)
theory Scalar_Group
  imports Threshold_Scalars
begin

text \<open>
  The interface between the threshold protocols and the group they run in: the locale \<open>scalar_group\<close>, a
  commutative group on which the integers act with period \<open>q\<close>. Sums over participants, the evaluation of a
  committed polynomial and the recovery of its constant term are proved once there. The scalars of
  \<^verbatim>\<open>tss/bjj.ts\<close> interpret it; under the laws \<open>tss_ok\<close> of the curve library so does the subgroup of the curve.
\<close>

named_theorems tss_simps \<open>equations of the threshold layer\<close>

section \<open>Groups with an action of the integers\<close>

text \<open>A polynomial with coefficients in the group, evaluated by Horner's rule.\<close>

primrec horner :: "('g \<Rightarrow> 'g \<Rightarrow> 'g) \<Rightarrow> (int \<Rightarrow> 'g \<Rightarrow> 'g) \<Rightarrow> 'g \<Rightarrow> int \<Rightarrow> 'g list \<Rightarrow> 'g" where
  "horner add mul idn i [] = idn"
| "horner add mul idn i (c # cs) = add c (mul i (horner add mul idn i cs))"

text \<open>The sum of two polynomials, which may have different lengths.\<close>

fun padd :: "('g \<Rightarrow> 'g \<Rightarrow> 'g) \<Rightarrow> 'g list \<Rightarrow> 'g list \<Rightarrow> 'g list" where
  "padd add [] ys = ys"
| "padd add (x # xs) [] = x # xs"
| "padd add (x # xs) (y # ys) = add x y # padd add xs ys"

lemma length_padd: "length (padd add xs ys) = max (length xs) (length ys)"
  by (induction add xs ys rule: padd.induct) auto

lemma hd_padd: "xs \<noteq> [] \<Longrightarrow> ys \<noteq> [] \<Longrightarrow> hd (padd add xs ys) = add (hd xs) (hd ys)"
  by (cases xs; cases ys) auto

lemma padd_Nil: "padd add xs ys = [] \<longleftrightarrow> xs = [] \<and> ys = []"
  by (cases xs; cases ys) auto

locale scalar_group =
  fixes q :: int and G :: "'g set" and add :: "'g \<Rightarrow> 'g \<Rightarrow> 'g" and mul :: "int \<Rightarrow> 'g \<Rightarrow> 'g" and idn :: 'g
  assumes idn_in [simp, intro]: "idn \<in> G"
    and add_in [simp, intro]: "a \<in> G \<Longrightarrow> b \<in> G \<Longrightarrow> add a b \<in> G"
    and mul_in [simp, intro]: "a \<in> G \<Longrightarrow> mul k a \<in> G"
    and assoc: "a \<in> G \<Longrightarrow> b \<in> G \<Longrightarrow> c \<in> G \<Longrightarrow> add (add a b) c = add a (add b c)"
    and comm: "a \<in> G \<Longrightarrow> b \<in> G \<Longrightarrow> add a b = add b a"
    and idn_add [simp]: "a \<in> G \<Longrightarrow> add idn a = a"
    and mul_0 [simp]: "a \<in> G \<Longrightarrow> mul 0 a = idn"
    and mul_1 [simp]: "a \<in> G \<Longrightarrow> mul 1 a = a"
    and mul_add: "a \<in> G \<Longrightarrow> mul (j + k) a = add (mul j a) (mul k a)"
    and mul_dist: "a \<in> G \<Longrightarrow> b \<in> G \<Longrightarrow> mul k (add a b) = add (mul k a) (mul k b)"
    and mul_mul: "a \<in> G \<Longrightarrow> mul j (mul k a) = mul (j * k) a"
    and mul_mod [simp]: "a \<in> G \<Longrightarrow> mul (k mod q) a = mul k a"
begin

lemma add_idn [simp]: "a \<in> G \<Longrightarrow> add a idn = a"
  using comm[of a idn] by simp

lemma left_commute: "a \<in> G \<Longrightarrow> b \<in> G \<Longrightarrow> c \<in> G \<Longrightarrow> add a (add b c) = add b (add a c)"
  using assoc[of a b c] assoc[of b a c] comm[of a b] by simp

lemma mul_idn [simp]: "mul k idn = idn"
  using mul_mul[of idn k 0] by simp

lemma add_inverse: "a \<in> G \<Longrightarrow> add (mul (- 1) a) a = idn"
  using mul_add[of a "- 1" 1] by simp

lemma cancel:
  assumes "a \<in> G" "b \<in> G" "c \<in> G" "add a b = add a c"
  shows "b = c"
proof -
  have "add (add (mul (- 1) a) a) b = add (add (mul (- 1) a) a) c"
    using assms by (simp only: assoc mul_in)
  then show ?thesis using assms by (simp add: add_inverse)
qed

lemma cancel_iff: "a \<in> G \<Longrightarrow> b \<in> G \<Longrightarrow> c \<in> G \<Longrightarrow> add a b = add a c \<longleftrightarrow> b = c"
  using cancel by blast

lemma mul_cong: "a \<in> G \<Longrightarrow> q dvd j - k \<Longrightarrow> mul j a = mul k a"
  using mul_mod[of a j] mul_mod[of a k] by (simp add: mod_eq_dvd_iff[symmetric])

lemma mul_prime_inj:
  assumes q: "prime_order q" and a: "a \<in> G" "a \<noteq> idn" and eq: "mul j a = mul k a"
  shows "q dvd j - k"
proof (rule ccontr)
  assume nd: "\<not> q dvd j - k"
  have q1: "1 < q" using q by (simp add: prime_order_def)
  have "add (mul (- 1 * k) a) (mul j a) = add (mul (- 1 * k) a) (mul k a)" using eq by simp
  then have z: "mul (j - k) a = idn" using a(1) by (simp add: mul_add[symmetric])
  have "(j - k) ^ nat (q - 1) mod q = 1" by (rule fermat[OF q nd])
  then have "mul ((j - k) ^ nat (q - 1)) a = a" using mul_mod[OF a(1), of "(j - k) ^ nat (q - 1)"] a(1) by simp
  moreover have "(j - k) ^ nat (q - 1) = (j - k) ^ nat (q - 2) * (j - k)"
    using q1 by (simp add: power_Suc2[symmetric] Suc_nat_eq_nat_zadd1 del: power_Suc2 power_Suc)
  ultimately have "mul ((j - k) ^ nat (q - 2)) (mul (j - k) a) = a" using a(1) by (simp add: mul_mul)
  with z a(2) show False by simp
qed

text \<open>Sums over a list, as the loops of the code form them.\<close>

lemma fold_in [simp, intro]: "s \<in> G \<Longrightarrow> \<forall>x \<in> set xs. f x \<in> G \<Longrightarrow> foldl (\<lambda>a x. add a (f x)) s xs \<in> G"
  by (induction xs arbitrary: s) auto

lemma fold_shift: "s \<in> G \<Longrightarrow> \<forall>x \<in> set xs. f x \<in> G \<Longrightarrow>
    foldl (\<lambda>a x. add a (f x)) s xs = add s (foldl (\<lambda>a x. add a (f x)) idn xs)"
proof (induction xs arbitrary: s)
  case (Cons x xs)
  have "foldl (\<lambda>a x. add a (f x)) (add s (f x)) xs = add (add s (f x)) (foldl (\<lambda>a x. add a (f x)) idn xs)"
    using Cons by (intro Cons.IH) auto
  moreover have "foldl (\<lambda>a x. add a (f x)) (add idn (f x)) xs = add (add idn (f x)) (foldl (\<lambda>a x. add a (f x)) idn xs)"
    using Cons by (intro Cons.IH) auto
  ultimately show ?case using Cons.prems by (simp add: assoc)
qed simp

lemma fold_Cons: "\<forall>x \<in> set (y # xs). f x \<in> G \<Longrightarrow>
    foldl (\<lambda>a x. add a (f x)) idn (y # xs) = add (f y) (foldl (\<lambda>a x. add a (f x)) idn xs)"
  using fold_shift[of "f y" xs f] by simp

lemma fold_add: "\<forall>x \<in> set xs. f x \<in> G \<and> h x \<in> G \<Longrightarrow> foldl (\<lambda>a x. add a (add (f x) (h x))) idn xs =
    add (foldl (\<lambda>a x. add a (f x)) idn xs) (foldl (\<lambda>a x. add a (h x)) idn xs)"
proof (induction xs)
  case (Cons x xs)
  let ?F = "foldl (\<lambda>a x. add a (f x)) idn xs" and ?H = "foldl (\<lambda>a x. add a (h x)) idn xs"
  have "?F \<in> G" "?H \<in> G" using Cons.prems by auto
  moreover have "foldl (\<lambda>a x. add a (add (f x) (h x))) idn (x # xs) = add (add (f x) (h x)) (add ?F ?H)"
    using fold_Cons[of x xs "\<lambda>x. add (f x) (h x)"] Cons by auto
  moreover have "foldl (\<lambda>a x. add a (f x)) idn (x # xs) = add (f x) ?F"
    "foldl (\<lambda>a x. add a (h x)) idn (x # xs) = add (h x) ?H"
    using fold_Cons[of x xs f] fold_Cons[of x xs h] Cons.prems by auto
  ultimately show ?case using Cons.prems by (simp add: assoc left_commute)
qed simp

lemma fold_mul: "\<forall>x \<in> set xs. f x \<in> G \<Longrightarrow>
    foldl (\<lambda>a x. add a (mul k (f x))) idn xs = mul k (foldl (\<lambda>a x. add a (f x)) idn xs)"
proof (induction xs)
  case (Cons x xs)
  then show ?case
    using fold_Cons[of x xs "\<lambda>x. mul k (f x)"] fold_Cons[of x xs f] by (simp add: mul_dist)
qed simp

lemma fold_scalars: "P \<in> G \<Longrightarrow> foldl (\<lambda>a x. add a (mul (c x) P)) idn xs = mul (\<Sum>x \<leftarrow> xs. c x) P"
proof (induction xs)
  case (Cons x xs)
  then show ?case using fold_Cons[of x xs "\<lambda>x. mul (c x) P"] by (simp add: mul_add)
qed simp

lemma fold_eq: "(\<And>x. x \<in> set xs \<Longrightarrow> f x = h x) \<Longrightarrow>
    foldl (\<lambda>a x. add a (f x)) s xs = foldl (\<lambda>a x. add a (h x)) s xs"
  by (induction xs arbitrary: s) auto

lemma fold_idn: "\<forall>x \<in> set xs. f x = idn \<Longrightarrow> foldl (\<lambda>a x. add a (f x)) idn xs = idn"
  by (induction xs) auto

lemma fold_mset: "\<forall>x \<in> set xs. f x \<in> G \<Longrightarrow> mset xs = mset ys \<Longrightarrow>
    foldl (\<lambda>a x. add a (f x)) idn xs = foldl (\<lambda>a x. add a (f x)) idn ys"
proof (induction xs arbitrary: ys)
  case (Cons x xs)
  then have "x \<in> set ys" by (metis list.set_intros(1) mset_eq_setD)
  then obtain u v where ys: "ys = u @ x # v" by (meson split_list)
  have fin: "\<forall>y \<in> set ys. f y \<in> G" using Cons.prems by (metis mset_eq_setD)
  have "foldl (\<lambda>a x. add a (f x)) idn ys = add (foldl (\<lambda>a x. add a (f x)) idn u)
      (add (f x) (foldl (\<lambda>a x. add a (f x)) idn v))"
    using fin ys fold_shift[of "foldl (\<lambda>a x. add a (f x)) idn u" "x # v" f] fold_Cons[of x v f] by (simp del: foldl_Cons)
  also have "\<dots> = add (f x) (add (foldl (\<lambda>a x. add a (f x)) idn u) (foldl (\<lambda>a x. add a (f x)) idn v))"
    using fin ys by (intro left_commute) auto
  also have "\<dots> = add (f x) (foldl (\<lambda>a x. add a (f x)) idn (u @ v))"
    using fin ys fold_shift[of "foldl (\<lambda>a x. add a (f x)) idn u" v f] by simp
  also have "foldl (\<lambda>a x. add a (f x)) idn (u @ v) = foldl (\<lambda>a x. add a (f x)) idn xs"
    using Cons.IH[of "u @ v"] Cons.prems ys by simp
  finally show ?case using fold_Cons[of x xs f] Cons.prems by simp
qed simp

text \<open>The evaluation of a polynomial, and its constant term from enough values.\<close>

lemma horner_in [simp, intro]: "set cs \<subseteq> G \<Longrightarrow> horner add mul idn i cs \<in> G"
  by (induction cs) auto

lemma horner_mod: "set cs \<subseteq> G \<Longrightarrow> horner add mul idn (i mod q) cs = horner add mul idn i cs"
  by (induction cs) simp_all

lemma horner_map_mul: "set cs \<subseteq> G \<Longrightarrow>
    horner add mul idn i (map (mul k) cs) = mul k (horner add mul idn i cs)"
proof (induction cs)
  case (Cons c cs)
  then have h: "horner add mul idn i cs \<in> G" by auto
  with Cons show ?case by (simp add: mul_dist mul_mul mult.commute)
qed simp

lemma horner_add: "length as = length bs \<Longrightarrow> set as \<subseteq> G \<Longrightarrow> set bs \<subseteq> G \<Longrightarrow>
    horner add mul idn i (map2 add as bs) = add (horner add mul idn i as) (horner add mul idn i bs)"
proof (induction as bs rule: list_induct2)
  case (Cons a as b bs)
  then have "horner add mul idn i as \<in> G" "horner add mul idn i bs \<in> G" by auto
  with Cons show ?case by (simp add: mul_dist assoc left_commute)
qed simp

lemma padd_in: "set as \<subseteq> G \<Longrightarrow> set bs \<subseteq> G \<Longrightarrow> set (padd add as bs) \<subseteq> G"
proof (induction as arbitrary: bs)
  case (Cons a as)
  then show ?case by (cases bs) auto
qed simp

lemma horner_padd: "set as \<subseteq> G \<Longrightarrow> set bs \<subseteq> G \<Longrightarrow>
    horner add mul idn i (padd add as bs) = add (horner add mul idn i as) (horner add mul idn i bs)"
proof (induction as arbitrary: bs)
  case Nil
  then show ?case using horner_in[of bs i] by simp
next
  case (Cons a as)
  note IH = Cons.IH and prems = Cons.prems
  show ?case
  proof (cases bs)
    case Nil
    then show ?thesis using prems horner_in[of "a # as" i] by simp
  next
    case (Cons b cs)
    have h: "horner add mul idn i as \<in> G" "horner add mul idn i cs \<in> G" using prems Cons by auto
    then show ?thesis using IH prems Cons by (simp add: mul_dist assoc left_commute)
  qed
qed

lemma sum_polynomials:
  "\<forall>cs \<in> set css. set cs \<subseteq> G \<Longrightarrow> set (foldr (padd add) css []) \<subseteq> G \<and>
    horner add mul idn i (foldr (padd add) css []) = foldl (\<lambda>a cs. add a (horner add mul idn i cs)) idn css"
proof (induction css)
  case (Cons cs css)
  let ?S = "foldr (padd add) css []"
  have S: "set ?S \<subseteq> G" "horner add mul idn i ?S = foldl (\<lambda>a cs. add a (horner add mul idn i cs)) idn css"
    using Cons by simp_all
  have c: "set cs \<subseteq> G" using Cons.prems by simp
  have "foldl (\<lambda>a cs. add a (horner add mul idn i cs)) idn (cs # css) =
      add (horner add mul idn i cs) (foldl (\<lambda>a cs. add a (horner add mul idn i cs)) idn css)"
    using Cons.prems by (intro fold_Cons) auto
  then show ?case using S c padd_in horner_padd[OF c S(1)] by simp
qed simp

lemma sum_heads:
  "\<forall>cs \<in> set css. set cs \<subseteq> G \<and> cs \<noteq> [] \<Longrightarrow> css \<noteq> [] \<Longrightarrow>
    foldr (padd add) css [] \<noteq> [] \<and> hd (foldr (padd add) css []) = foldl (\<lambda>a cs. add a (hd cs)) idn css"
proof (induction css)
  case (Cons cs css)
  have hG: "\<forall>c \<in> set (cs # css). hd c \<in> G" using Cons.prems by (metis hd_in_set subset_iff)
  have f: "foldl (\<lambda>a cs. add a (hd cs)) idn (cs # css) = add (hd cs) (foldl (\<lambda>a cs. add a (hd cs)) idn css)"
    using hG by (intro fold_Cons) auto
  show ?case
  proof (cases "css = []")
    case True
    then show ?thesis using f Cons.prems hG by (cases cs) simp_all
  next
    case False
    then show ?thesis using f Cons hd_padd[of cs "foldr (padd add) css []" add] by (simp add: padd_Nil)
  qed
qed simp

lemma interpolate_moment:
  assumes w: "\<forall>k < n. q dvd (\<Sum>i \<leftarrow> xs. w i * i ^ k) - 0 ^ k"
  shows "set cs \<subseteq> G \<Longrightarrow> k + length cs \<le> n \<Longrightarrow>
    foldl (\<lambda>a i. add a (mul (w i * i ^ k) (horner add mul idn i cs))) idn xs =
      (if k = 0 \<and> cs \<noteq> [] then hd cs else idn)"
proof (induction cs arbitrary: k)
  case Nil
  then show ?case using fold_idn[of xs "\<lambda>i. mul (w i * i ^ k) idn"] by simp
next
  case (Cons c cs)
  have h: "horner add mul idn i cs \<in> G" for i using Cons.prems by auto
  have c: "c \<in> G" using Cons.prems by simp
  have "foldl (\<lambda>a i. add a (mul (w i * i ^ k) (horner add mul idn i (c # cs)))) idn xs =
      foldl (\<lambda>a i. add a (add (mul (w i * i ^ k) c) (mul (w i * i ^ Suc k) (horner add mul idn i cs)))) idn xs"
    using c h by (intro fold_eq) (simp add: mul_dist mul_mul ac_simps)
  also have "\<dots> = add (mul (\<Sum>i \<leftarrow> xs. w i * i ^ k) c)
      (foldl (\<lambda>a i. add a (mul (w i * i ^ Suc k) (horner add mul idn i cs))) idn xs)"
    using fold_add[of xs "\<lambda>i. mul (w i * i ^ k) c" "\<lambda>i. mul (w i * i ^ Suc k) (horner add mul idn i cs)"]
      fold_scalars[OF c, of "\<lambda>i. w i * i ^ k" xs] c h by simp
  also have "foldl (\<lambda>a i. add a (mul (w i * i ^ Suc k) (horner add mul idn i cs))) idn xs = idn"
    using Cons.IH[of "Suc k"] Cons.prems by simp
  also have "mul (\<Sum>i \<leftarrow> xs. w i * i ^ k) c = mul (0 ^ k) c"
    using w Cons.prems c by (intro mul_cong) auto
  finally show ?case using c by (cases k) simp_all
qed

lemma interpolate:
  assumes q: "prime_order q" and xs: "distinct xs" "\<forall>i \<in> set xs. \<forall>j \<in> set xs. i \<noteq> j \<longrightarrow> \<not> q dvd j - i"
    and w: "\<forall>i \<in> set xs. lag_weight q (set xs) i (w i)"
    and cs: "set cs \<subseteq> G" "length cs \<le> length xs" "cs \<noteq> []"
  shows "foldl (\<lambda>a i. add a (mul (w i) (horner add mul idn i cs))) idn xs = hd cs"
proof -
  have "q dvd (\<Sum>i \<leftarrow> xs. w i * i ^ k) - 0 ^ k" if "k < length xs" for k
    using lag_weight_moment[OF q _ xs(2) w, of k] that xs(1)
    by (simp add: sum_list_distinct_conv_sum_set distinct_card)
  then show ?thesis using interpolate_moment[where n = "length xs" and xs = xs and w = w and cs = cs and k = 0] cs by simp
qed

end

section \<open>The scalars\<close>

interpretation zq: scalar_group "subOrder L" "{x. modSub L x = x}" "\<lambda>a b. modSub L (a + b)" "\<lambda>k a. modSub L (k * a)" 0
  for L :: "'a note_lib_scheme"
  by unfold_locales
    (simp_all add: modSub_def algebra_simps mod_simps)

section \<open>The curve\<close>

definition curve_point :: "'a tss_lib_scheme \<Rightarrow> point \<Rightarrow> bool" where
  "curve_point L P \<longleftrightarrow> inCurve L P \<and> 0 \<le> fst P \<and> fst P < int FR_MODULUS \<and> 0 \<le> snd P \<and> snd P < int FR_MODULUS"

text \<open>
  What the protocols rely on of the library: on points of the curve with reduced coordinates, \<^verbatim>\<open>addPoint\<close> is the
  addition of a commutative group with identity (0, 1), \<^verbatim>\<open>mulPointEscalar\<close> is repeated addition, the base point
  has the order \<^verbatim>\<open>subOrder\<close>, which is prime.
\<close>

definition tss_ok :: "'a tss_lib_scheme \<Rightarrow> bool" where
  "tss_ok L \<longleftrightarrow>
     prime_order (subOrder L) \<and> curve_point L (0, 1) \<and> curve_point L (Base8 L) \<and> Base8 L \<noteq> (0, 1) \<and>
     mulPointEscalar L (Base8 L) (subOrder L) = (0, 1) \<and>
     (\<forall>P. curve_point L P \<longrightarrow> addPoint L (0, 1) P = P \<and> mulPointEscalar L P 0 = (0, 1) \<and>
        (\<forall>k \<ge> 0. mulPointEscalar L P (k + 1) = addPoint L P (mulPointEscalar L P k))) \<and>
     (\<forall>P Q. curve_point L P \<and> curve_point L Q \<longrightarrow>
        curve_point L (addPoint L P Q) \<and> addPoint L P Q = addPoint L Q P) \<and>
     (\<forall>P Q R. curve_point L P \<and> curve_point L Q \<and> curve_point L R \<longrightarrow>
        addPoint L (addPoint L P Q) R = addPoint L P (addPoint L Q R))"

definition subgroup_points :: "'a tss_lib_scheme \<Rightarrow> point set" where
  "subgroup_points L = {P. curve_point L P \<and> inSubgroup L P}"

lemma tss_ok_laws:
  assumes "tss_ok L"
  shows "prime_order (subOrder L)" "curve_point L (0, 1)" "curve_point L (Base8 L)" "Base8 L \<noteq> (0, 1)"
    "mulPointEscalar L (Base8 L) (subOrder L) = (0, 1)"
    "\<forall>P. curve_point L P \<longrightarrow> addPoint L (0, 1) P = P \<and> mulPointEscalar L P 0 = (0, 1) \<and>
        (\<forall>k \<ge> 0. mulPointEscalar L P (k + 1) = addPoint L P (mulPointEscalar L P k))"
    "\<forall>P Q. curve_point L P \<and> curve_point L Q \<longrightarrow>
        curve_point L (addPoint L P Q) \<and> addPoint L P Q = addPoint L Q P"
    "\<forall>P Q R. curve_point L P \<and> curve_point L Q \<and> curve_point L R \<longrightarrow>
        addPoint L (addPoint L P Q) R = addPoint L P (addPoint L Q R)"
  by (insert assms, unfold tss_ok_def) (elim conjE, assumption)+

lemmas tss_ok_prime = tss_ok_laws(1)

lemma tss_ok_order: "tss_ok L \<Longrightarrow> 1 < subOrder L"
  using tss_ok_prime[of L] by (simp add: prime_order_def)

lemma curve_add: "tss_ok L \<Longrightarrow> curve_point L P \<Longrightarrow> curve_point L Q \<Longrightarrow> curve_point L (addPoint L P Q)"
  by (rule tss_ok_laws(7)[rule_format, THEN conjunct1]) (assumption | intro conjI)+

lemma curve_comm: "tss_ok L \<Longrightarrow> curve_point L P \<Longrightarrow> curve_point L Q \<Longrightarrow> addPoint L P Q = addPoint L Q P"
  by (rule tss_ok_laws(7)[rule_format, THEN conjunct2]) (assumption | intro conjI)+

lemma curve_assoc: "tss_ok L \<Longrightarrow> curve_point L P \<Longrightarrow> curve_point L Q \<Longrightarrow> curve_point L R \<Longrightarrow>
    addPoint L (addPoint L P Q) R = addPoint L P (addPoint L Q R)"
  by (rule tss_ok_laws(8)[rule_format]) (assumption | intro conjI)+

lemmas curve_point_laws = tss_ok_laws(6)[rule_format]

lemma curve_id: "tss_ok L \<Longrightarrow> curve_point L (0, 1)" "tss_ok L \<Longrightarrow> curve_point L P \<Longrightarrow> addPoint L (0, 1) P = P"
  by (rule tss_ok_laws(2), assumption) (rule curve_point_laws[THEN conjunct1], assumption+)

lemma mul_nat:
  assumes "tss_ok L" "curve_point L P"
  shows "mulPointEscalar L P 0 = (0, 1)" "mulPointEscalar L P (int (Suc n)) = addPoint L P (mulPointEscalar L P (int n))"
proof -
  note P = curve_point_laws[OF assms]
  show "mulPointEscalar L P 0 = (0, 1)" using P by (elim conjE)
  have "\<forall>k \<ge> 0. mulPointEscalar L P (k + 1) = addPoint L P (mulPointEscalar L P k)" using P by (elim conjE)
  from this[rule_format, of "int n"] show "mulPointEscalar L P (int (Suc n)) = addPoint L P (mulPointEscalar L P (int n))"
    by (simp only: of_nat_Suc add.commute of_nat_0_le_iff)
qed

lemma curve_mul_nat: "tss_ok L \<Longrightarrow> curve_point L P \<Longrightarrow> curve_point L (mulPointEscalar L P (int n))"
proof (induction n)
  case 0
  then show ?case using mul_nat(1)[of L P] curve_id(1)[of L] by simp
next
  case (Suc n)
  then show ?case using mul_nat(2)[of L P n] curve_add[of L P] by simp
qed

lemma mul_nat_add:
  assumes "tss_ok L" "curve_point L P"
  shows "mulPointEscalar L P (int (m + n)) = addPoint L (mulPointEscalar L P (int m)) (mulPointEscalar L P (int n))"
proof (induction m)
  case 0
  then show ?case using mul_nat(1)[OF assms] curve_id(2)[OF assms(1) curve_mul_nat[OF assms]] by simp
next
  case (Suc m)
  then show ?case using mul_nat(2)[OF assms, of "m + n"] mul_nat(2)[OF assms, of m] assms
    by (simp add: curve_assoc curve_mul_nat del: of_nat_Suc)
qed

lemma mul_nat_dist:
  assumes "tss_ok L" "curve_point L P" "curve_point L Q"
  shows "mulPointEscalar L (addPoint L P Q) (int n) = addPoint L (mulPointEscalar L P (int n)) (mulPointEscalar L Q (int n))"
proof (induction n)
  case 0
  then show ?case using mul_nat(1)[OF assms(1)] curve_add[OF assms] assms curve_id[OF assms(1)] by simp
next
  case (Suc n)
  let ?p = "mulPointEscalar L P (int n)" and ?q = "mulPointEscalar L Q (int n)"
  have c: "curve_point L ?p" "curve_point L ?q" using assms curve_mul_nat by blast+
  have "addPoint L (addPoint L P Q) (addPoint L ?p ?q) = addPoint L (addPoint L P ?p) (addPoint L Q ?q)"
    using assms c by (metis curve_add curve_assoc curve_comm)
  then show ?case using Suc mul_nat(2)[OF assms(1)] assms curve_add[OF assms] by (simp del: of_nat_Suc)
qed

lemma mul_nat_mul:
  assumes "tss_ok L" "curve_point L P"
  shows "mulPointEscalar L (mulPointEscalar L P (int m)) (int n) = mulPointEscalar L P (int (n * m))"
proof (induction n)
  case 0
  then show ?case using mul_nat(1)[OF assms(1)] curve_mul_nat[OF assms, of m] assms(2) by simp
next
  case (Suc n)
  then show ?case using mul_nat(2)[OF assms(1) curve_mul_nat[OF assms, of m], of n] mul_nat_add[OF assms, of m "n * m"]
    by (simp del: of_nat_Suc of_nat_add of_nat_mult)
qed

lemma mul_nat_id: "tss_ok L \<Longrightarrow> mulPointEscalar L (0, 1) (int n) = (0, 1)"
proof (induction n)
  case 0
  then show ?case using mul_nat(1)[OF _ curve_id(1)] by simp
next
  case (Suc n)
  note c = curve_id(1)[OF Suc.prems]
  show ?case using mul_nat(2)[OF Suc.prems c, of n] curve_id(2)[OF Suc.prems c] Suc by (simp only:)
qed

lemma subgroup_pointsD:
  "P \<in> subgroup_points L \<Longrightarrow> curve_point L P"
  "P \<in> subgroup_points L \<Longrightarrow> mulPointEscalar L P (subOrder L) = (0, 1)"
  by (auto simp: subgroup_points_def inSubgroup_def split: if_splits)

lemma subgroup_pointsI:
  "curve_point L P \<Longrightarrow> mulPointEscalar L P (subOrder L) = (0, 1) \<Longrightarrow> P \<in> subgroup_points L"
  by (auto simp: subgroup_points_def inSubgroup_def curve_point_def)

lemma mul_nat_mod:
  assumes "tss_ok L" "P \<in> subgroup_points L"
  shows "mulPointEscalar L P (int (n mod nat (subOrder L))) = mulPointEscalar L P (int n)"
proof -
  let ?q = "nat (subOrder L)"
  have P: "curve_point L P" and o: "mulPointEscalar L P (int ?q) = (0, 1)"
    using subgroup_pointsD[OF assms(2)] tss_ok_order[OF assms(1)] by simp_all
  have "mulPointEscalar L P (int (n div ?q * ?q + n mod ?q)) =
      addPoint L (mulPointEscalar L (mulPointEscalar L P (int ?q)) (int (n div ?q))) (mulPointEscalar L P (int (n mod ?q)))"
    using mul_nat_add[OF assms(1) P, of "n div ?q * ?q" "n mod ?q"] mul_nat_mul[OF assms(1) P, of ?q "n div ?q"]
    by (simp only:)
  then show ?thesis using o mul_nat_id[OF assms(1)] curve_id(2)[OF assms(1)] curve_mul_nat[OF assms(1) P] by simp
qed

lemma scalarMul_nat:
  assumes "tss_ok L" "P \<in> subgroup_points L" "int n mod subOrder L = k mod subOrder L"
  shows "scalarMul L k P = mulPointEscalar L P (int n)"
proof -
  have "k mod subOrder L = int (n mod nat (subOrder L))"
    using assms(3) tss_ok_order[OF assms(1)] by (simp add: zmod_int)
  then show ?thesis using mul_nat_mod[OF assms(1,2), of n] by (simp add: scalarMul_def modSub_def)
qed

lemma scalar_rep:
  assumes "tss_ok L"
  obtains n where "int n mod subOrder L = k mod subOrder L"
  using that[of "nat (k mod subOrder L)"] tss_ok_order[OF assms] by simp

text \<open>The subgroup of the curve is a model of the interface.\<close>

lemma subgroup_add:
  assumes ok: "tss_ok L" and P: "P \<in> subgroup_points L" and Q: "Q \<in> subgroup_points L"
  shows "addPoint L P Q \<in> subgroup_points L"
proof (rule subgroup_pointsI)
  note c = subgroup_pointsD(1)[OF P] subgroup_pointsD(1)[OF Q]
  show "curve_point L (addPoint L P Q)" by (rule curve_add[OF ok c])
  have "int (nat (subOrder L)) = subOrder L" using tss_ok_order[OF ok] by simp
  then show "mulPointEscalar L (addPoint L P Q) (subOrder L) = (0, 1)"
    using mul_nat_dist[OF ok c, of "nat (subOrder L)"] subgroup_pointsD(2)[OF P] subgroup_pointsD(2)[OF Q]
      curve_id[OF ok] by simp
qed

lemma subgroup_mul:
  assumes ok: "tss_ok L" and P: "P \<in> subgroup_points L"
  shows "mulPointEscalar L P (int n) \<in> subgroup_points L"
proof (rule subgroup_pointsI)
  note c = subgroup_pointsD(1)[OF P]
  show "curve_point L (mulPointEscalar L P (int n))" by (rule curve_mul_nat[OF ok c])
  have q: "int (nat (subOrder L)) = subOrder L" using tss_ok_order[OF ok] by simp
  show "mulPointEscalar L (mulPointEscalar L P (int n)) (subOrder L) = (0, 1)"
    using mul_nat_mul[OF ok c, of n "nat (subOrder L)"] mul_nat_mul[OF ok c, of "nat (subOrder L)" n]
      subgroup_pointsD(2)[OF P] mul_nat_id[OF ok] q by (simp add: mult.commute)
qed

lemma subgroup_id: "tss_ok L \<Longrightarrow> (0, 1) \<in> subgroup_points L"
  using mul_nat_id[of L "nat (subOrder L)"] curve_id(1)[of L] tss_ok_order[of L] by (intro subgroup_pointsI) simp_all

lemma subgroup_base: "tss_ok L \<Longrightarrow> Base8 L \<in> subgroup_points L"
  by (rule subgroup_pointsI) (simp_all add: tss_ok_def)

lemma points_group:
  assumes ok: "tss_ok L"
  shows "scalar_group (subOrder L) (subgroup_points L) (pointAdd L) (scalarMul L) IDENTITY"
proof
  note D = subgroup_pointsD(1)
  show "IDENTITY \<in> subgroup_points L" using subgroup_id[OF ok] by (simp add: IDENTITY_def)
  fix a b c :: point and j k :: int
  assume a: "a \<in> subgroup_points L"
  obtain m where m: "int m mod subOrder L = j mod subOrder L" by (rule scalar_rep[OF ok])
  obtain n where n: "int n mod subOrder L = k mod subOrder L" by (rule scalar_rep[OF ok])
  note J = scalarMul_nat[OF ok _ m] and K = scalarMul_nat[OF ok _ n]
  show "scalarMul L k a \<in> subgroup_points L" using K[OF a] subgroup_mul[OF ok a] by simp
  show "pointAdd L IDENTITY a = a" using curve_id(2)[OF ok D[OF a]] by (simp add: pointAdd_def IDENTITY_def)
  show "scalarMul L 0 a = IDENTITY" using scalarMul_nat[OF ok a, of 0 0] mul_nat(1)[OF ok D[OF a]] by (simp add: IDENTITY_def)
  have "mulPointEscalar L a (int (Suc 0)) = a"
    using mul_nat(1)[OF ok D[OF a]] mul_nat(2)[OF ok D[OF a], of 0] curve_comm[OF ok D[OF a] curve_id(1)[OF ok]] curve_id(2)[OF ok D[OF a]] by simp
  then show "scalarMul L 1 a = a" using scalarMul_nat[OF ok a, of "Suc 0" 1] by simp
  have "int (m + n) mod subOrder L = (j + k) mod subOrder L" using mod_add_cong[OF m n] by simp
  then show "scalarMul L (j + k) a = pointAdd L (scalarMul L j a) (scalarMul L k a)"
    using scalarMul_nat[OF ok a, of "m + n" "j + k"] J[OF a] K[OF a] mul_nat_add[OF ok D[OF a], of m n]
    by (simp only: pointAdd_def)
  have "int (m * n) mod subOrder L = (j * k) mod subOrder L" using mod_mult_cong[OF m n] by simp
  then show "scalarMul L j (scalarMul L k a) = scalarMul L (j * k) a"
    using scalarMul_nat[OF ok a, of "m * n" "j * k"] J[OF subgroup_mul[OF ok a, of n]] K[OF a]
      mul_nat_mul[OF ok D[OF a], of n m] by simp
  show "scalarMul L (k mod subOrder L) a = scalarMul L k a" by (simp add: scalarMul_def modSub_def)
  assume b: "b \<in> subgroup_points L"
  show "pointAdd L a b \<in> subgroup_points L" using subgroup_add[OF ok a b] by (simp add: pointAdd_def)
  show "pointAdd L a b = pointAdd L b a" using curve_comm[OF ok D[OF a] D[OF b]] by (simp add: pointAdd_def)
  show "scalarMul L k (pointAdd L a b) = pointAdd L (scalarMul L k a) (scalarMul L k b)"
    using K[OF a] K[OF b] K[OF subgroup_add[OF ok a b]] mul_nat_dist[OF ok D[OF a] D[OF b]]
    by (simp add: pointAdd_def)
  assume c: "c \<in> subgroup_points L"
  show "pointAdd L (pointAdd L a b) c = pointAdd L a (pointAdd L b c)"
    using curve_assoc[OF ok D[OF a] D[OF b] D[OF c]] by (simp add: pointAdd_def)
qed

end
