(* ===== verification/Shamir.thy ===== *)
theory Shamir
  imports Scalar_Group
begin

text \<open>
  Secret sharing: \<^verbatim>\<open>tss/shamir.ts\<close> (evaluation of a polynomial, the Lagrange coefficient at zero, the
  interpolation) and \<^verbatim>\<open>tss/vss.ts\<close> (Feldman's commitments). A map of shares is a map, a coefficient list is a
  list with the constant term first.
\<close>

section \<open>Sharing and reconstruction\<close>

definition polyEval :: "'a note_lib_scheme \<Rightarrow> int list \<Rightarrow> int \<Rightarrow> int" where
  "polyEval L coeffs x = (let xr = modSub L x in
     foldl (\<lambda>acc k. modSub L (acc * xr + coeffs ! k)) 0 (rev [0..<length coeffs]))"

definition lagrange_step :: "'a note_lib_scheme \<Rightarrow> int \<Rightarrow> int \<times> int \<Rightarrow> int \<Rightarrow> int \<times> int" where
  "lagrange_step L ir = (\<lambda>(num, den) j. let jr = modSub L j in
     if jr = ir then (num, den)
     else (modSub L (num * jr), modSub L (den * modSub L (jr - ir))))"

definition lagrangeAtZero :: "'a note_lib_scheme \<Rightarrow> int \<Rightarrow> int list \<Rightarrow> wallet_error + int" where
  "lagrangeAtZero L i xs = (case foldl (lagrange_step L (modSub L i)) (1, 1) xs of (num, den) \<Rightarrow>
     if den = 0 then Inl (WError ''tss: duplicate identifier in interpolation set'')
     else ebind (invSub L den) (\<lambda>inv. Inr (modSub L (num * inv))))"

fun interpolate_loop :: "'a note_lib_scheme \<Rightarrow> (int \<rightharpoonup> int) \<Rightarrow> int list \<Rightarrow> int \<Rightarrow> int list \<Rightarrow> wallet_error + int" where
  "interpolate_loop L shares quorum acc [] = Inr acc"
| "interpolate_loop L shares quorum acc (i # is) = (case shares i of
     None \<Rightarrow> Inl (WError ''tss: missing share for identifier'')
   | Some s \<Rightarrow> ebind (lagrangeAtZero L i quorum) (\<lambda>l.
       interpolate_loop L shares quorum (modSub L (acc + l * s)) is))"

definition interpolateAtZero :: "'a note_lib_scheme \<Rightarrow> (int \<rightharpoonup> int) \<Rightarrow> int list \<Rightarrow> wallet_error + int" where
  "interpolateAtZero L shares quorum = interpolate_loop L shares quorum 0 quorum"

section \<open>Feldman's commitments\<close>

definition feldmanCommit :: "'a note_lib_scheme \<Rightarrow> int list \<Rightarrow> point list" where
  "feldmanCommit L coeffs = map (scalarBaseMul L) coeffs"

definition feldman_step :: "'a tss_lib_scheme \<Rightarrow> int \<Rightarrow> point \<times> int \<Rightarrow> point \<Rightarrow> point \<times> int" where
  "feldman_step L i = (\<lambda>(rhs, ipow) com. (pointAdd L rhs (scalarMul L ipow com), modSub L (ipow * i)))"

definition feldmanVerifyShare :: "'a tss_lib_scheme \<Rightarrow> int \<Rightarrow> int \<Rightarrow> point list \<Rightarrow> bool" where
  "feldmanVerifyShare L i share commitments =
     (let lhs = scalarBaseMul L share;
          rhs = fst (foldl (feldman_step L i) (IDENTITY, 1) commitments)
      in pointEq lhs rhs)"

section \<open>The polynomial\<close>

abbreviation zq_eval :: "'a note_lib_scheme \<Rightarrow> int \<Rightarrow> int list \<Rightarrow> int" where
  "zq_eval L i cs \<equiv> horner (\<lambda>a b. modSub L (a + b)) (\<lambda>k a. modSub L (k * a)) 0 i cs"

lemma pointEq_eq [simp]: "pointEq a b \<longleftrightarrow> a = b"
  by (cases a; cases b) (simp add: pointEq_def)

lemma modSub_idem [simp]: "modSub L (modSub L x) = modSub L x"
  by (simp add: modSub_def)

lemma scalarMul_modSub [simp]: "scalarMul L (modSub L k) P = scalarMul L k P"
  by (simp add: scalarMul_def)

lemma foldl_rev_upt: "foldl (\<lambda>acc k. f acc (xs ! k)) a (rev [0..<length xs]) = foldl f a (rev xs)"
proof -
  have "rev xs = map ((!) xs) (rev [0..<length xs])" by (simp add: rev_map[symmetric] map_nth)
  then show ?thesis by (simp add: foldl_map)
qed

lemma polyEval_Nil: "polyEval L [] x = 0"
  by (simp add: polyEval_def)

lemma polyEval_Cons: "polyEval L (c # cs) x = modSub L (c + x * polyEval L cs x)"
proof -
  have "polyEval L bs x = foldl (\<lambda>acc c. modSub L (acc * modSub L x + c)) 0 (rev bs)" for bs
    using foldl_rev_upt[of "\<lambda>acc c. modSub L (acc * modSub L x + c)" bs 0] by (simp add: polyEval_def)
  then have "polyEval L (c # cs) x = modSub L (c + modSub L x * polyEval L cs x)" by (simp add: algebra_simps)
  also have "\<dots> = modSub L (c + x * polyEval L cs x)"
    unfolding modSub_def by (rule mod_add_cong[OF refl mod_mult_left_eq])
  finally show ?thesis .
qed

lemma polyEval_horner: "polyEval L cs x = zq_eval L x (map (modSub L) cs)"
proof (induction cs)
  case Nil
  then show ?case by (simp add: polyEval_Nil)
next
  case (Cons c cs)
  then show ?case by (simp add: polyEval_Cons modSub_def mod_simps)
qed

lemma polyEval_reduced: "modSub L (polyEval L cs x) = polyEval L cs x"
  by (cases cs) (simp_all add: polyEval_Nil polyEval_Cons, simp add: modSub_def)

lemma polyEval_poly: "polyEval L cs x mod subOrder L = (\<Sum>k < length cs. cs ! k * x ^ k) mod subOrder L"
proof (induction cs)
  case (Cons c cs)
  let ?q = "subOrder L"
  have "polyEval L (c # cs) x mod ?q = (c + x * polyEval L cs x) mod ?q"
    by (simp add: polyEval_Cons modSub_def)
  also have "\<dots> = (c + x * (\<Sum>k < length cs. cs ! k * x ^ k)) mod ?q"
    by (rule mod_add_cong[OF refl mod_mult_cong[OF refl Cons.IH]])
  also have "c + x * (\<Sum>k < length cs. cs ! k * x ^ k) = (\<Sum>k < length (c # cs). (c # cs) ! k * x ^ k)"
    by (simp only: list.size(4) add_Suc_right add_0_right sum.lessThan_Suc_shift)
      (simp add: sum_distrib_left algebra_simps)
  finally show ?case .
qed (simp add: polyEval_Nil)

section \<open>The Lagrange coefficient\<close>

text \<open>A set of identifiers that stay different modulo the order.\<close>

definition residues_distinct :: "int \<Rightarrow> int list \<Rightarrow> bool" where
  "residues_distinct q xs \<longleftrightarrow> distinct (map (\<lambda>x. x mod q) xs)"

lemma residues_distinctD:
  assumes "residues_distinct q xs"
  shows "distinct xs" "\<forall>i \<in> set xs. \<forall>j \<in> set xs. i \<noteq> j \<longrightarrow> \<not> q dvd j - i"
  using assms by (auto simp: residues_distinct_def distinct_map inj_on_def mod_eq_dvd_iff)

lemma residues_distinct_small:
  "distinct xs \<Longrightarrow> \<forall>x \<in> set xs. 0 \<le> x \<and> x < q \<Longrightarrow> residues_distinct q xs"
  by (simp add: residues_distinct_def distinct_map inj_on_def)

text \<open>Both loops over the identifiers multiply the numerators and the denominators modulo the order.\<close>

lemma weight_fold:
  assumes "distinct xs"
    and step: "\<And>n d j. j \<in> set xs \<Longrightarrow> case f (n, d) j of (n', d') \<Rightarrow>
      if j = i then n' = n \<and> d' = d else n' mod q = n * j mod q \<and> d' mod q = d * (j - i) mod q"
  shows "case foldl f (num, den) xs of (n, d) \<Rightarrow>
    n mod q = num * (\<Prod>j \<in> set xs - {i}. j) mod q \<and> d mod q = den * (\<Prod>j \<in> set xs - {i}. j - i) mod (q :: int)"
  using assms
proof (induction xs arbitrary: num den)
  case (Cons x xs)
  obtain n d where nd: "f (num, den) x = (n, d)" by fastforce
  have IH: "case foldl f (n, d) xs of (n', d') \<Rightarrow>
      n' mod q = n * (\<Prod>j \<in> set xs - {i}. j) mod q \<and> d' mod q = d * (\<Prod>j \<in> set xs - {i}. j - i) mod q"
    using Cons.prems by (intro Cons.IH) simp_all
  show ?case
  proof (cases "x = i")
    case True
    then have "set (x # xs) - {i} = set xs - {i}" by auto
    moreover have "n = num" "d = den" using Cons.prems(2)[of x num den] nd True by simp_all
    ultimately show ?thesis using IH nd by (simp del: list.set)
  next
    case False
    have "set (x # xs) - {i} = insert x (set xs - {i})" "x \<notin> set xs - {i}" using False Cons.prems(1) by auto
    then have p: "(\<Prod>j \<in> set (x # xs) - {i}. h j) = h x * (\<Prod>j \<in> set xs - {i}. h j)" for h :: "int \<Rightarrow> int" by simp
    have n: "n mod q = num * x mod q" and d: "d mod q = den * (x - i) mod q"
      using Cons.prems(2)[of x num den] nd False by simp_all
    have "n * (\<Prod>j \<in> set xs - {i}. j) mod q = num * (\<Prod>j \<in> set (x # xs) - {i}. j) mod q"
      using mod_mult_cong[OF n refl] by (simp only: p mult.assoc)
    moreover have "d * (\<Prod>j \<in> set xs - {i}. j - i) mod q = den * (\<Prod>j \<in> set (x # xs) - {i}. j - i) mod q"
      using mod_mult_cong[OF d refl] by (simp only: p mult.assoc)
    ultimately show ?thesis using IH nd by (simp split: prod.splits del: list.set)
  qed
qed simp

lemma weight_from_fold:
  assumes q: "prime_order q" and xs: "residues_distinct q xs" and i: "i \<in> set xs"
    and step: "\<And>n d j. j \<in> set xs \<Longrightarrow> case f (n, d) j of (n', d') \<Rightarrow>
      if j = i then n' = n \<and> d' = d else n' mod q = n * j mod q \<and> d' mod q = d * (j - i) mod q"
    and nd: "foldl f (1, 1) xs = (n, d)"
  shows "\<not> q dvd d" "d * v mod q = 1 \<Longrightarrow> lag_weight q (set xs) i (n * v mod q)"
proof -
  note D = residues_distinctD[OF xs]
  have n: "n mod q = (\<Prod>j \<in> set xs - {i}. j) mod q" and d: "d mod q = (\<Prod>j \<in> set xs - {i}. j - i) mod q"
    using weight_fold[OF D(1) step, where num = 1 and den = 1] nd by simp_all
  have "\<not> q dvd (\<Prod>j \<in> set xs - {i}. j - i)" using D(2) i by (intro prime_order_prod[OF _ q]) auto
  then show "\<not> q dvd d" using d by (simp add: dvd_eq_mod_eq_0)
  assume v: "d * v mod q = 1"
  have "n * v mod q * (\<Prod>j \<in> set xs - {i}. j - i) mod q = n * v * d mod q"
    using mod_mult_cong[OF _ d[symmetric], of "n * v mod q" "n * v"] by simp
  also have "\<dots> = n * (d * v) mod q" by (simp only: ac_simps)
  also have "\<dots> = n * 1 mod q" using v by (metis mod_mult_right_eq)
  finally show "lag_weight q (set xs) i (n * v mod q)" using n by (simp add: lag_weight_def)
qed

lemma lagrangeAtZero_weight:
  assumes q: "prime_order (subOrder L)" and xs: "residues_distinct (subOrder L) xs" and i: "i \<in> set xs"
  shows "\<exists>w. lagrangeAtZero L i xs = Inr w \<and> lag_weight (subOrder L) (set xs) i w \<and> modSub L w = w"
proof -
  let ?q = "subOrder L"
  obtain n d where nd: "foldl (lagrange_step L (modSub L i)) (1, 1) xs = (n, d)" by fastforce
  have step: "case lagrange_step L (modSub L i) (n, d) j of (n', d') \<Rightarrow>
      if j = i then n' = n \<and> d' = d else n' mod ?q = n * j mod ?q \<and> d' mod ?q = d * (j - i) mod ?q"
    if "j \<in> set xs" for n d j
    using residues_distinctD(2)[OF xs] i that
    by (auto simp: lagrange_step_def Let_def modSub_def mod_simps mod_eq_dvd_iff)
  note W = weight_from_fold[OF q xs i step nd]
  obtain v where v: "invSub L d = Inr v" using invSub_total W(1) by blast
  have "d * v mod ?q = 1" using invSub_Inr(1)[OF q v] .
  moreover have "lagrangeAtZero L i xs = Inr (n * v mod ?q)" using nd W(1) v by (auto simp: lagrangeAtZero_def modSub_def)
  ultimately show ?thesis using W(2) by (simp add: modSub_def)
qed

text \<open>
  The error for a duplicate identifier is never raised: equal residues are skipped, so the denominator is a
  product of residues that are not zero.
\<close>

lemma lagrangeAtZero_total:
  assumes q: "prime_order (subOrder L)"
  shows "\<exists>w. lagrangeAtZero L i xs = Inr w"
proof -
  have "case foldl (lagrange_step L ir) (num, den) xs of (n, d) \<Rightarrow> \<not> subOrder L dvd d"
    if "\<not> subOrder L dvd den" "modSub L ir = ir" for ir num den
    using that(1)
  proof (induction xs arbitrary: num den)
    case (Cons x xs)
    show ?case
    proof (cases "modSub L x = ir")
      case True
      then show ?thesis using Cons by (simp add: lagrange_step_def Let_def)
    next
      case False
      have "\<not> subOrder L dvd x - ir" using False that(2) by (auto simp: modSub_def mod_eq_dvd_iff[symmetric])
      then have "\<not> subOrder L dvd den * (x - ir)" using prime_order_cancel[OF q Cons.prems] by blast
      moreover have "modSub L (den * modSub L (modSub L x - ir)) mod subOrder L = den * (x - ir) mod subOrder L"
        by (simp add: modSub_def mod_simps)
      ultimately have "\<not> subOrder L dvd modSub L (den * modSub L (modSub L x - ir))"
        by (simp add: dvd_eq_mod_eq_0)
      then show ?thesis using Cons.IH False by (simp add: lagrange_step_def Let_def)
    qed
  qed simp
  moreover have "\<not> subOrder L dvd 1" using q by (auto simp: prime_order_def)
  moreover obtain n d where nd: "foldl (lagrange_step L (modSub L i)) (1, 1) xs = (n, d)" by fastforce
  ultimately have "\<not> subOrder L dvd d" by (metis (no_types, lifting) case_prod_conv modSub_idem)
  then show ?thesis using nd invSub_total[of L d] by (auto simp: lagrangeAtZero_def)
qed

section \<open>Reconstruction\<close>

lemma interpolate_loop_eq:
  assumes "\<forall>i \<in> set is. \<exists>s. shares i = Some s" "\<forall>i \<in> set is. lagrangeAtZero L i quorum = Inr (w i)" "modSub L acc = acc"
  shows "interpolate_loop L shares quorum acc is =
    Inr (foldl (\<lambda>a i. modSub L (a + modSub L (w i * the (shares i)))) acc is)"
  using assms by (induction "is" arbitrary: acc) (auto simp: modSub_def mod_simps)

text \<open>Any set of identifiers as large as the polynomial is long reconstructs its constant term.\<close>

lemma interpolate_polyEval:
  assumes q: "prime_order (subOrder L)" and xs: "residues_distinct (subOrder L) quorum"
    and sh: "\<forall>i \<in> set quorum. shares i = Some (polyEval L coeffs i)"
    and len: "coeffs \<noteq> []" "length coeffs \<le> length quorum"
  shows "interpolateAtZero L shares quorum = Inr (modSub L (hd coeffs))"
proof -
  let ?cs = "map (modSub L) coeffs"
  obtain w where w: "\<forall>i \<in> set quorum. lagrangeAtZero L i quorum = Inr (w i) \<and> lag_weight (subOrder L) (set quorum) i (w i)"
    using lagrangeAtZero_weight[OF q xs] by (metis bchoice)
  have "interpolateAtZero L shares quorum =
      Inr (foldl (\<lambda>a i. modSub L (a + modSub L (w i * the (shares i)))) 0 quorum)"
    unfolding interpolateAtZero_def using sh w by (intro interpolate_loop_eq) (auto simp: modSub_def)
  also have "foldl (\<lambda>a i. modSub L (a + modSub L (w i * the (shares i)))) 0 quorum =
      foldl (\<lambda>a i. modSub L (a + modSub L (w i * zq_eval L i ?cs))) 0 quorum"
    using sh by (intro foldl_cong) (auto simp: polyEval_horner)
  also have "\<dots> = hd ?cs"
    using len w residues_distinctD[OF xs] by (intro zq.interpolate[OF q]) auto
  finally show ?thesis using len(1) by (simp add: hd_map)
qed

section \<open>Commitments\<close>

abbreviation pt_eval :: "'a tss_lib_scheme \<Rightarrow> int \<Rightarrow> point list \<Rightarrow> point" where
  "pt_eval L i coms \<equiv> horner (pointAdd L) (scalarMul L) IDENTITY i coms"

lemma feldman_fold:
  assumes ok: "tss_ok L"
  shows "set coms \<subseteq> subgroup_points L \<Longrightarrow> rhs \<in> subgroup_points L \<Longrightarrow>
    fst (foldl (feldman_step L i) (rhs, ipow) coms) = pointAdd L rhs (scalarMul L ipow (pt_eval L i coms))"
proof (induction coms arbitrary: rhs ipow)
  case Nil
  then show ?case using scalar_group.mul_idn[OF points_group[OF ok]] scalar_group.add_idn[OF points_group[OF ok]]
    by simp
next
  case (Cons c coms)
  note G = points_group[OF ok]
  have c: "c \<in> subgroup_points L" "pt_eval L i coms \<in> subgroup_points L"
    using Cons.prems(1) scalar_group.horner_in[OF G, of coms i] by auto
  note S = scalar_group.mul_in[OF G]
  have "fst (foldl (feldman_step L i) (rhs, ipow) (c # coms)) =
      pointAdd L (pointAdd L rhs (scalarMul L ipow c)) (scalarMul L (ipow * i) (pt_eval L i coms))"
    using Cons c S scalar_group.add_in[OF G] by (simp add: feldman_step_def)
  then show ?case using c S scalar_group.mul_dist[OF G c(1) S[OF c(2)]] scalar_group.mul_mul[OF G c(2)]
      scalar_group.assoc[OF G Cons.prems(2) S[OF c(1)] S[OF c(2)]] by simp
qed

lemma feldmanVerifyShare_iff:
  assumes ok: "tss_ok L" and coms: "set coms \<subseteq> subgroup_points L"
  shows "feldmanVerifyShare L i share coms \<longleftrightarrow> scalarBaseMul L share = pt_eval L i coms"
proof -
  note G = points_group[OF ok]
  have "pt_eval L i coms \<in> subgroup_points L" using coms scalar_group.horner_in[OF G] by blast
  then show ?thesis
    using feldman_fold[OF ok coms scalar_group.idn_in[OF G], of i 1] scalar_group.mul_1[OF G] scalar_group.idn_add[OF G]
    by (simp add: feldmanVerifyShare_def)
qed

text \<open>Multiplying the base point carries the polynomial to its commitment.\<close>

lemma scalarBaseMul_in: "tss_ok L \<Longrightarrow> scalarBaseMul L k \<in> subgroup_points L"
  unfolding scalarBaseMul_def by (rule scalar_group.mul_in[OF points_group subgroup_base])

lemma pt_eval_zq:
  assumes ok: "tss_ok L" and P: "P \<in> subgroup_points L"
  shows "pt_eval L i (map (\<lambda>a. scalarMul L a P) cs) = scalarMul L (polyEval L cs i) P"
proof (induction cs)
  case Nil
  then show ?case using scalar_group.mul_0[OF points_group[OF ok] P] by (simp add: polyEval_Nil)
next
  case (Cons c cs)
  note G = points_group[OF ok]
  then show ?case
    using Cons scalar_group.mul_mul[OF G P] scalar_group.mul_add[OF G P] by (simp add: polyEval_Cons)
qed

lemma feldman_pt_eval:
  assumes ok: "tss_ok L"
  shows "pt_eval L i (feldmanCommit L cs) = scalarBaseMul L (polyEval L cs i)"
  using pt_eval_zq[OF ok subgroup_base[OF ok], of i cs] by (simp add: feldmanCommit_def scalarBaseMul_def[abs_def])

lemma feldmanCommit_in: "tss_ok L \<Longrightarrow> set (feldmanCommit L cs) \<subseteq> subgroup_points L"
  using scalarBaseMul_in by (auto simp: feldmanCommit_def)

lemma scalarBaseMul_inj:
  assumes ok: "tss_ok L"
  shows "scalarBaseMul L j = scalarBaseMul L k \<longleftrightarrow> modSub L j = modSub L k"
proof
  assume "scalarBaseMul L j = scalarBaseMul L k"
  then have "subOrder L dvd j - k"
    using scalar_group.mul_prime_inj[OF points_group[OF ok] tss_ok_prime[OF ok] subgroup_base[OF ok]] tss_ok_laws(4)[OF ok]
    by (simp add: scalarBaseMul_def IDENTITY_def)
  then show "modSub L j = modSub L k" by (simp add: modSub_def mod_eq_dvd_iff)
next
  assume "modSub L j = modSub L k"
  then show "scalarBaseMul L j = scalarBaseMul L k" by (simp add: scalarBaseMul_def scalarMul_def)
qed

text \<open>A share passes exactly when it is the value of the committed polynomial.\<close>

lemma feldman_exact:
  assumes ok: "tss_ok L"
  shows "feldmanVerifyShare L i share (feldmanCommit L coeffs) \<longleftrightarrow> modSub L share = polyEval L coeffs i"
  using feldmanVerifyShare_iff[OF ok feldmanCommit_in[OF ok]] scalarBaseMul_inj[OF ok]
  by (simp add: feldman_pt_eval[OF ok] polyEval_reduced)

end
