(* ===== verification/Frost.thy ===== *)
theory Frost
  imports Shamir
begin

text \<open>
  Threshold signing: \<^verbatim>\<open>frost/frost.ts\<close>, generic in the \<^verbatim>\<open>Ciphersuite\<close> of \<^verbatim>\<open>frost/ciphersuite.ts\<close>, which is a
  record here. The hashes of a ciphersuite may fail, since those of BabyJubJub build field elements. A
  \<^verbatim>\<open>NonceHandle\<close> is state: \<^verbatim>\<open>signShare\<close> returns it marked.
\<close>

section \<open>Ciphersuites\<close>

record 'g Commitment =
  c_id :: int
  c_D :: 'g
  c_E :: 'g

record 'g Ciphersuite =
  cs_generator :: 'g
  cs_identity :: 'g
  cs_add :: "'g \<Rightarrow> 'g \<Rightarrow> 'g"
  cs_scalarMul :: "int \<Rightarrow> 'g \<Rightarrow> 'g"
  cs_negate :: "'g \<Rightarrow> 'g"
  cs_eq :: "'g \<Rightarrow> 'g \<Rightarrow> bool"
  cs_order :: int
  nonceScalar :: "bytes \<Rightarrow> int \<Rightarrow> wallet_error + int"
  bindingFactor :: "'g \<Rightarrow> bytes \<Rightarrow> 'g Commitment list \<Rightarrow> int \<Rightarrow> wallet_error + int"
  challenge :: "'g \<Rightarrow> 'g \<Rightarrow> bytes \<Rightarrow> wallet_error + int"

record Nonces =
  n_d :: int
  n_e :: int

record NonceHandle = Nonces +
  consumed :: bool

definition markConsumed :: "NonceHandle \<Rightarrow> wallet_error + NonceHandle" where
  "markConsumed h = (if consumed h
     then Inl (WError ''frost: one-time nonce reused (round-1 handle already consumed)'')
     else Inr (h\<lparr>consumed := True\<rparr>))"

record 'g Signature =
  sig_R :: 'g
  sig_z :: int

section \<open>Scalars of the ciphersuite\<close>

definition fmod :: "int \<Rightarrow> int \<Rightarrow> int" where
  "fmod x m = x mod m"

text \<open>The extended Euclid of \<^verbatim>\<open>modInverse\<close>; its operands are never negative, so the division rounds down.\<close>

function inverse_loop :: "int \<Rightarrow> int \<Rightarrow> int \<Rightarrow> int \<Rightarrow> int \<times> int" where
  "inverse_loop old_r r old_s s =
     (if r \<noteq> 0 then (let q = old_r div r in inverse_loop r (old_r - q * r) s (old_s - q * s)) else (old_r, old_s))"
  by pat_completeness auto
termination
proof (relation "measure (\<lambda>(old_r, r, old_s, s). nat \<bar>r\<bar>)", simp, clarsimp)
  fix old_r r :: int
  assume "r \<noteq> 0"
  then have "\<bar>old_r mod r\<bar> < \<bar>r\<bar>" by (rule abs_mod_less)
  then show "\<bar>old_r - old_r div r * r\<bar> < \<bar>r\<bar>" by (simp add: minus_div_mult_eq_mod)
qed

declare inverse_loop.simps [simp del]

definition modInverse :: "int \<Rightarrow> int \<Rightarrow> wallet_error + int" where
  "modInverse x m = (case inverse_loop (fmod x m) m 1 0 of (old_r, old_s) \<Rightarrow>
     if old_r \<noteq> 1 then Inl (WError ''frost: scalar has no inverse mod order'') else Inr (fmod old_s m))"

definition sortById :: "'g Commitment list \<Rightarrow> 'g Commitment list" where
  "sortById commitments = sort_key c_id commitments"

section \<open>Signing\<close>

definition frost_commit :: "'g Ciphersuite \<Rightarrow> int \<Rightarrow> int \<Rightarrow> bytes \<Rightarrow> bytes \<Rightarrow> wallet_error + NonceHandle \<times> 'g Commitment" where
  "frost_commit cs id1 secret hidingRandom bindingRandom =
     ebind (nonceScalar cs hidingRandom secret) (\<lambda>d.
     ebind (nonceScalar cs bindingRandom secret) (\<lambda>e.
       Inr (\<lparr>n_d = d, n_e = e, consumed = False\<rparr>,
         \<lparr>c_id = id1, c_D = cs_scalarMul cs d (cs_generator cs), c_E = cs_scalarMul cs e (cs_generator cs)\<rparr>)))"

fun binding_loop :: "'g Ciphersuite \<Rightarrow> 'g \<Rightarrow> bytes \<Rightarrow> 'g Commitment list \<Rightarrow> (int \<rightharpoonup> int) \<Rightarrow> 'g Commitment list \<Rightarrow>
    wallet_error + (int \<rightharpoonup> int)" where
  "binding_loop cs gpk msg sorted1 out [] = Inr out"
| "binding_loop cs gpk msg sorted1 out (c # rest) =
     ebind (bindingFactor cs gpk msg sorted1 (c_id c)) (\<lambda>rho.
       binding_loop cs gpk msg sorted1 (out(c_id c \<mapsto> rho)) rest)"

definition bindingFactors :: "'g Ciphersuite \<Rightarrow> 'g \<Rightarrow> bytes \<Rightarrow> 'g Commitment list \<Rightarrow> wallet_error + (int \<rightharpoonup> int)" where
  "bindingFactors cs gpk msg commitments = (let sorted1 = sortById commitments in
     binding_loop cs gpk msg sorted1 Map.empty sorted1)"

fun commitment_loop :: "'g Ciphersuite \<Rightarrow> (int \<rightharpoonup> int) \<Rightarrow> 'g \<Rightarrow> 'g Commitment list \<Rightarrow> wallet_error + 'g" where
  "commitment_loop cs rhos R [] = Inr R"
| "commitment_loop cs rhos R (c # rest) = (case rhos (c_id c) of
     None \<Rightarrow> Inl (WError ''frost: missing binding factor'')
   | Some rho \<Rightarrow> commitment_loop cs rhos (cs_add cs R (cs_add cs (c_D c) (cs_scalarMul cs rho (c_E c)))) rest)"

definition groupCommitment :: "'g Ciphersuite \<Rightarrow> 'g Commitment list \<Rightarrow> (int \<rightharpoonup> int) \<Rightarrow> wallet_error + 'g" where
  "groupCommitment cs commitments rhos = commitment_loop cs rhos (cs_identity cs) (sortById commitments)"

definition coefficient_step :: "int \<Rightarrow> int \<Rightarrow> int \<times> int \<Rightarrow> int \<Rightarrow> int \<times> int" where
  "coefficient_step m id1 = (\<lambda>(num, den) j. if j = id1 then (num, den)
     else (fmod (num * fmod j m) m, fmod (den * fmod (j - id1) m) m))"

definition lagrangeCoefficient :: "'g Ciphersuite \<Rightarrow> int \<Rightarrow> int list \<Rightarrow> wallet_error + int" where
  "lagrangeCoefficient cs id1 signerSet = (let m = cs_order cs in
     case foldl (coefficient_step m id1) (1, 1) signerSet of (num, den) \<Rightarrow>
       ebind (modInverse den m) (\<lambda>inv. Inr (fmod (num * inv) m)))"

definition signShareUnchecked :: "'g Ciphersuite \<Rightarrow> int \<Rightarrow> ('n Nonces_scheme) \<Rightarrow> int \<Rightarrow> 'g \<Rightarrow> bytes \<Rightarrow>
    'g Commitment list \<Rightarrow> wallet_error + int" where
  "signShareUnchecked cs id1 nonces secretShare gpk msg commitments = (let m = cs_order cs; signerSet = map c_id commitments in
     ebind (bindingFactors cs gpk msg commitments) (\<lambda>rhos.
     ebind (groupCommitment cs commitments rhos) (\<lambda>R.
     ebind (challenge cs R gpk msg) (\<lambda>c.
     ebind (lagrangeCoefficient cs id1 signerSet) (\<lambda>lambda.
     case rhos id1 of None \<Rightarrow> Inl (WError ''frost: signer not in commitment list'')
     | Some rho \<Rightarrow> Inr (fmod (n_d nonces + fmod (n_e nonces * rho) m + fmod (fmod (lambda * secretShare) m * c) m) m))))))"

definition signShare :: "'g Ciphersuite \<Rightarrow> int \<Rightarrow> NonceHandle \<Rightarrow> int \<Rightarrow> 'g \<Rightarrow> bytes \<Rightarrow> 'g Commitment list \<Rightarrow>
    NonceHandle \<times> (wallet_error + int)" where
  "signShare cs id1 nonces secretShare gpk msg commitments = (case markConsumed nonces of
     Inl err \<Rightarrow> (nonces, Inl err)
   | Inr marked \<Rightarrow> (marked, signShareUnchecked cs id1 marked secretShare gpk msg commitments))"

definition verifySignatureShare :: "'g Ciphersuite \<Rightarrow> int \<Rightarrow> int \<Rightarrow> 'g \<Rightarrow> 'g \<Rightarrow> bytes \<Rightarrow> 'g Commitment list \<Rightarrow>
    wallet_error + bool" where
  "verifySignatureShare cs id1 zShare publicShare gpk msg commitments =
    (let m = cs_order cs; signerSet = map c_id commitments in
     ebind (bindingFactors cs gpk msg commitments) (\<lambda>rhos.
     ebind (groupCommitment cs commitments rhos) (\<lambda>R.
     ebind (challenge cs R gpk msg) (\<lambda>c.
     case List.find (\<lambda>k. c_id k = id1) commitments of None \<Rightarrow> Inr False
     | Some commitment \<Rightarrow> (let rho = the (rhos id1) in
        ebind (lagrangeCoefficient cs id1 signerSet) (\<lambda>lambda.
          let lhs = cs_scalarMul cs zShare (cs_generator cs);
              commShare = cs_add cs (c_D commitment) (cs_scalarMul cs rho (c_E commitment));
              rhs = cs_add cs commShare (cs_scalarMul cs (fmod (c * lambda) m) publicShare)
          in Inr (cs_eq cs lhs rhs)))))))"

definition frost_aggregate :: "'g Ciphersuite \<Rightarrow> 'g \<Rightarrow> int list \<Rightarrow> 'g Signature" where
  "frost_aggregate cs R zShares =
     \<lparr>sig_R = R, sig_z = foldl (\<lambda>z zi. fmod (z + zi) (cs_order cs)) 0 zShares\<rparr>"

record 'g PartialSig =
  ps_id :: int
  ps_z :: int
  publicShare :: 'g

fun seen_loop :: "int set \<Rightarrow> 'g PartialSig list \<Rightarrow> wallet_error + int set" where
  "seen_loop seen [] = Inr seen"
| "seen_loop seen (s # rest) = (if ps_id s \<in> seen
     then Inl (WError ''frost: duplicate signature share (replay rejected)'')
     else seen_loop (insert (ps_id s) seen) rest)"

fun verify_loop :: "'g Ciphersuite \<Rightarrow> 'g \<Rightarrow> bytes \<Rightarrow> 'g Commitment list \<Rightarrow> 'g PartialSig list \<Rightarrow> wallet_error + unit" where
  "verify_loop cs gpk msg commitments [] = Inr ()"
| "verify_loop cs gpk msg commitments (s # rest) =
     ebind (verifySignatureShare cs (ps_id s) (ps_z s) (publicShare s) gpk msg commitments) (\<lambda>ok.
       if \<not> ok then Inl (WError ''frost: signature share failed verification (identifiable abort)'')
       else verify_loop cs gpk msg commitments rest)"

definition coordinatorAggregate :: "'g Ciphersuite \<Rightarrow> 'g \<Rightarrow> 'g \<Rightarrow> bytes \<Rightarrow> 'g Commitment list \<Rightarrow> 'g PartialSig list \<Rightarrow>
    nat \<Rightarrow> wallet_error + 'g Signature" where
  "coordinatorAggregate cs R gpk msg commitments partials threshold =
     ebind (seen_loop {} partials) (\<lambda>seen.
       if card seen < threshold then Inl (WError ''frost: distinct shares below threshold'')
       else ebind (verify_loop cs gpk msg commitments partials) (\<lambda>_.
         Inr (frost_aggregate cs R (map ps_z partials))))"

definition frost_verify :: "'g Ciphersuite \<Rightarrow> 'g \<Rightarrow> bytes \<Rightarrow> 'g Signature \<Rightarrow> wallet_error + bool" where
  "frost_verify cs gpk msg sg = ebind (challenge cs (sig_R sg) gpk msg) (\<lambda>c.
     let lhs = cs_scalarMul cs (sig_z sg) (cs_generator cs);
         rhs = cs_add cs (sig_R sg) (cs_scalarMul cs c gpk)
     in Inr (cs_eq cs lhs rhs))"

section \<open>The inverse\<close>

lemma inverse_loop_inv:
  "0 \<le> old_r \<Longrightarrow> 0 \<le> r \<Longrightarrow> m dvd old_s * x - old_r \<Longrightarrow> m dvd s * x - r \<Longrightarrow>
    case inverse_loop old_r r old_s s of (g, u) \<Rightarrow> g = gcd old_r r \<and> m dvd u * x - g"
proof (induction old_r r old_s s rule: inverse_loop.induct)
  case (1 old_r r old_s s)
  show ?case
  proof (cases "r = 0")
    case True
    then show ?thesis using 1(2,4) by (subst inverse_loop.simps) simp
  next
    case False
    let ?k = "old_r div r"
    have r: "old_r - ?k * r = old_r mod r" by (simp add: minus_div_mult_eq_mod)
    have "m dvd (old_s * x - old_r) - ?k * (s * x - r)" using 1(4,5) by simp
    then have d: "m dvd (old_s - ?k * s) * x - (old_r - ?k * r)" by (simp add: algebra_simps)
    have "0 \<le> old_r - ?k * r" using False 1(3) by (simp add: r)
    from 1(1)[OF False refl 1(3) this 1(5) d] have IH: "case inverse_loop r (old_r - ?k * r) s (old_s - ?k * s) of
        (g, u) \<Rightarrow> g = gcd r (old_r - ?k * r) \<and> m dvd u * x - g" .
    have "gcd r (old_r - ?k * r) = gcd old_r r" by (simp only: r gcd.commute gcd_red_int[symmetric])
    with IH show ?thesis using False by (subst inverse_loop.simps) (simp add: Let_def)
  qed
qed

lemma modInverse_Inr:
  assumes q: "prime_order m" and x: "\<not> m dvd x"
  shows "\<exists>v. modInverse x m = Inr v \<and> x * v mod m = 1"
proof -
  have m: "1 < m" using q by (simp add: prime_order_def)
  obtain g u where gu: "inverse_loop (fmod x m) m 1 0 = (g, u)" by fastforce
  have "m dvd 1 * x - fmod x m" by (simp add: fmod_def minus_mod_eq_div_mult)
  then have "case inverse_loop (fmod x m) m 1 0 of (g, u) \<Rightarrow> g = gcd (fmod x m) m \<and> m dvd u * x - g"
    using m by (intro inverse_loop_inv) (simp_all add: fmod_def)
  then have "g = gcd (fmod x m) m \<and> m dvd u * x - g" unfolding gu case_prod_conv .
  then have "g = gcd (fmod x m) m" "m dvd u * x - g" by blast+
  moreover have "coprime (x mod m) m"
    using q x m by (auto simp: prime_order_def dvd_eq_mod_eq_0 pos_mod_sign order.not_eq_order_implies_strict)
  ultimately have "g = 1" "m dvd u * x - 1" by (simp_all add: fmod_def coprime_iff_gcd_eq_1)
  moreover have "u * x mod m = 1 mod m" using calculation(2) by (simp only: mod_eq_dvd_iff)
  then have "x * (u mod m) mod m = 1" using m by (simp add: mod_simps mult.commute)
  ultimately show ?thesis using gu by (simp add: modInverse_def fmod_def)
qed

lemma lagrangeCoefficient_weight:
  assumes q: "prime_order (cs_order cs)" and xs: "residues_distinct (cs_order cs) xs" and i: "i \<in> set xs"
  shows "\<exists>w. lagrangeCoefficient cs i xs = Inr w \<and> lag_weight (cs_order cs) (set xs) i w"
proof -
  let ?m = "cs_order cs"
  obtain n d where nd: "foldl (coefficient_step ?m i) (1, 1) xs = (n, d)" by fastforce
  have step: "case coefficient_step ?m i (n, d) j of (n', d') \<Rightarrow>
      if j = i then n' = n \<and> d' = d else n' mod ?m = n * j mod ?m \<and> d' mod ?m = d * (j - i) mod ?m" for n d j
    by (simp add: coefficient_step_def fmod_def mod_simps)
  note W = weight_from_fold[OF q xs i step nd]
  obtain v where "modInverse d ?m = Inr v" "d * v mod ?m = 1" using modInverse_Inr[OF q W(1)] by blast
  then show ?thesis using W(2) nd by (simp add: lagrangeCoefficient_def Let_def fmod_def)
qed

section \<open>Binding factors and the group commitment\<close>

lemma sortById_mset: "mset (sortById xs) = mset xs" "set (sortById xs) = set xs"
  by (simp_all add: sortById_def)

lemma binding_loop_Inr:
  "binding_loop cs gpk msg srt out xs = Inr rhos \<Longrightarrow>
    (\<forall>c \<in> set xs. \<exists>r. bindingFactor cs gpk msg srt (c_id c) = Inr r \<and> rhos (c_id c) = Some r) \<and>
    (\<forall>x. x \<notin> c_id ` set xs \<longrightarrow> rhos x = out x)"
proof (induction xs arbitrary: out)
  case (Cons c xs)
  then obtain r where r: "bindingFactor cs gpk msg srt (c_id c) = Inr r"
    "binding_loop cs gpk msg srt (out(c_id c \<mapsto> r)) xs = Inr rhos" by auto
  note IH = Cons.IH[OF r(2)]
  have "\<exists>r. bindingFactor cs gpk msg srt (c_id c) = Inr r \<and> rhos (c_id c) = Some r"
  proof (cases "c_id c \<in> c_id ` set xs")
    case True
    then show ?thesis using IH by (metis (no_types, lifting) image_iff)
  next
    case False
    then show ?thesis using IH r(1) by simp
  qed
  with IH show ?case by auto
qed simp

lemma bindingFactors_Inr:
  assumes "bindingFactors cs gpk msg coms = Inr rhos"
  shows "dom rhos = c_id ` set coms"
    "c \<in> set coms \<Longrightarrow> bindingFactor cs gpk msg (sortById coms) (c_id c) = Inr (the (rhos (c_id c)))"
proof -
  have B: "(\<forall>c \<in> set coms. \<exists>r. bindingFactor cs gpk msg (sortById coms) (c_id c) = Inr r \<and> rhos (c_id c) = Some r) \<and>
      (\<forall>x. x \<notin> c_id ` set coms \<longrightarrow> rhos x = None)"
    using binding_loop_Inr[of cs gpk msg "sortById coms" Map.empty "sortById coms" rhos] assms
    by (simp add: bindingFactors_def sortById_mset Let_def)
  then show "dom rhos = c_id ` set coms" by (auto simp: dom_def)
  show "c \<in> set coms \<Longrightarrow> bindingFactor cs gpk msg (sortById coms) (c_id c) = Inr (the (rhos (c_id c)))" using B by auto
qed

definition commitment_of :: "'g Ciphersuite \<Rightarrow> (int \<rightharpoonup> int) \<Rightarrow> 'g Commitment \<Rightarrow> 'g" where
  "commitment_of cs rhos c = cs_add cs (c_D c) (cs_scalarMul cs (the (rhos (c_id c))) (c_E c))"

lemma commitment_loop_Inr: "\<forall>c \<in> set xs. c_id c \<in> dom rhos \<Longrightarrow>
    commitment_loop cs rhos R xs = Inr (foldl (\<lambda>R c. cs_add cs R (commitment_of cs rhos c)) R xs)"
  by (induction xs arbitrary: R) (auto simp: commitment_of_def)

text \<open>What the protocol relies on of a ciphersuite: a group of prime order and an exact equality.\<close>

definition cs_ok :: "'g Ciphersuite \<Rightarrow> 'g set \<Rightarrow> bool" where
  "cs_ok cs G \<longleftrightarrow> scalar_group (cs_order cs) G (cs_add cs) (cs_scalarMul cs) (cs_identity cs) \<and>
     prime_order (cs_order cs) \<and> cs_generator cs \<in> G \<and> cs_generator cs \<noteq> cs_identity cs \<and>
     (\<forall>a \<in> G. \<forall>b \<in> G. cs_eq cs a b \<longleftrightarrow> a = b)"

lemma cs_okD:
  assumes "cs_ok cs G"
  shows "scalar_group (cs_order cs) G (cs_add cs) (cs_scalarMul cs) (cs_identity cs)" "prime_order (cs_order cs)"
    "cs_generator cs \<in> G" "cs_generator cs \<noteq> cs_identity cs" "a \<in> G \<Longrightarrow> b \<in> G \<Longrightarrow> cs_eq cs a b \<longleftrightarrow> a = b"
  using assms by (simp_all add: cs_ok_def)

definition commitments_in :: "'g set \<Rightarrow> 'g Commitment list \<Rightarrow> bool" where
  "commitments_in G coms \<longleftrightarrow> (\<forall>c \<in> set coms. c_D c \<in> G \<and> c_E c \<in> G)"

lemma commitment_of_in: "cs_ok cs G \<Longrightarrow> commitments_in G coms \<Longrightarrow> c \<in> set coms \<Longrightarrow> commitment_of cs rhos c \<in> G"
  by (simp add: commitment_of_def commitments_in_def scalar_group.add_in[OF cs_okD(1)] scalar_group.mul_in[OF cs_okD(1)])

lemma groupCommitment_Inr:
  assumes ok: "cs_ok cs G" and coms: "commitments_in G coms" and rhos: "bindingFactors cs gpk msg coms = Inr rhos"
  shows "groupCommitment cs coms rhos = Inr (foldl (\<lambda>R c. cs_add cs R (commitment_of cs rhos c)) (cs_identity cs) coms)"
proof -
  have "groupCommitment cs coms rhos =
      Inr (foldl (\<lambda>R c. cs_add cs R (commitment_of cs rhos c)) (cs_identity cs) (sortById coms))"
    unfolding groupCommitment_def using bindingFactors_Inr(1)[OF rhos]
    by (intro commitment_loop_Inr) (auto simp: sortById_mset)
  also have "foldl (\<lambda>R c. cs_add cs R (commitment_of cs rhos c)) (cs_identity cs) (sortById coms) =
      foldl (\<lambda>R c. cs_add cs R (commitment_of cs rhos c)) (cs_identity cs) coms"
    using commitment_of_in[OF ok coms] by (intro scalar_group.fold_mset[OF cs_okD(1)[OF ok]]) (auto simp: sortById_mset)
  finally show ?thesis .
qed

section \<open>Shares\<close>

lemma find_id: "distinct (map c_id coms) \<Longrightarrow> c \<in> set coms \<Longrightarrow> List.find (\<lambda>k. c_id k = c_id c) coms = Some c"
  by (induction coms) (auto simp: image_iff)

text \<open>The equation a verified share satisfies.\<close>

lemma verifySignatureShare_Inr:
  assumes ok: "cs_ok cs G" and coms: "commitments_in G coms" and ids: "residues_distinct (cs_order cs) (map c_id coms)"
    and rhos: "bindingFactors cs gpk msg coms = Inr rhos" and R: "groupCommitment cs coms rhos = Inr R"
    and c: "challenge cs R gpk msg = Inr ch" and com: "com \<in> set coms" and Y: "Y \<in> G"
    and w: "lagrangeCoefficient cs (c_id com) (map c_id coms) = Inr w"
  shows "verifySignatureShare cs (c_id com) z Y gpk msg coms =
    Inr (cs_scalarMul cs z (cs_generator cs) = cs_add cs (commitment_of cs rhos com) (cs_scalarMul cs (ch * w) Y))"
proof -
  note G = cs_okD(1)[OF ok]
  have "distinct (map c_id coms)" using residues_distinctD(1)[OF ids] .
  then have f: "List.find (\<lambda>k. c_id k = c_id com) coms = Some com" by (rule find_id[OF _ com])
  have "cs_scalarMul cs (fmod (ch * w) (cs_order cs)) Y = cs_scalarMul cs (ch * w) Y"
    using scalar_group.mul_mod[OF G Y] by (simp add: fmod_def)
  moreover have "cs_scalarMul cs z (cs_generator cs) \<in> G" "cs_add cs (commitment_of cs rhos com) (cs_scalarMul cs (ch * w) Y) \<in> G"
    using scalar_group.mul_in[OF G] scalar_group.add_in[OF G] cs_okD(3)[OF ok] commitment_of_in[OF ok coms com] Y by simp_all
  ultimately show ?thesis
    by (simp add: verifySignatureShare_def Let_def rhos R c f w cs_okD(5)[OF ok] commitment_of_def[symmetric])
qed

end
