(* ===== verification/Frost_Sound.thy ===== *)
theory Frost_Sound
  imports Frost
begin

text \<open>
  What threshold signing achieves: a share that passes is the one its signer owes, shares that pass add up to
  a signature of the group key, and a handle signs at most once.
\<close>

section \<open>One share\<close>

lemma mod_add_mid: "(a + b mod m + c) mod m = (a + b + c) mod (m :: int)"
  using mod_add_right_eq[of "a + c" b m] by (simp add: algebra_simps)

lemma signShareUnchecked_Inr:
  assumes "signShareUnchecked cs i h s gpk msg coms = Inr z"
  obtains rhos R ch w where "bindingFactors cs gpk msg coms = Inr rhos" "groupCommitment cs coms rhos = Inr R"
    "challenge cs R gpk msg = Inr ch" "lagrangeCoefficient cs i (map c_id coms) = Inr w" "i \<in> c_id ` set coms"
    "z mod cs_order cs = (n_d h + n_e h * the (rhos i) + w * s * ch) mod cs_order cs" "z mod cs_order cs = z"
proof -
  obtain rhos R ch w rho where o: "bindingFactors cs gpk msg coms = Inr rhos" "groupCommitment cs coms rhos = Inr R"
    "challenge cs R gpk msg = Inr ch" "lagrangeCoefficient cs i (map c_id coms) = Inr w" "rhos i = Some rho"
    "z = fmod (n_d h + fmod (n_e h * rho) (cs_order cs) + fmod (fmod (w * s) (cs_order cs) * ch) (cs_order cs)) (cs_order cs)"
    using assms by (auto simp: signShareUnchecked_def Let_def split: option.splits)
  have "i \<in> c_id ` set coms" using bindingFactors_Inr(1)[OF o(1)] o(5) by blast
  moreover have "z mod cs_order cs = (n_d h + n_e h * the (rhos i) + w * s * ch) mod cs_order cs"
    using o(5,6) by (simp add: fmod_def mod_simps mod_add_mid)
  moreover have "z mod cs_order cs = z" using o(6) by (simp add: fmod_def)
  ultimately show thesis using that o(1-4) by blast
qed

text \<open>The share of a signer passes, and no other residue does.\<close>

lemma verifySignatureShare_exact:
  assumes ok: "cs_ok cs G" and coms: "commitments_in G coms" and ids: "residues_distinct (cs_order cs) (map c_id coms)"
    and com: "com \<in> set coms" "c_D com = cs_scalarMul cs (n_d h) (cs_generator cs)"
      "c_E com = cs_scalarMul cs (n_e h) (cs_generator cs)"
    and sign: "signShareUnchecked cs (c_id com) h s gpk msg coms = Inr z"
  shows "verifySignatureShare cs (c_id com) z' (cs_scalarMul cs s (cs_generator cs)) gpk msg coms =
    Inr (z' mod cs_order cs = z)"
proof -
  note G = cs_okD(1)[OF ok]
  let ?g = "cs_generator cs" and ?m = "cs_order cs"
  have g: "?g \<in> G" by (rule cs_okD(3)[OF ok])
  obtain rhos R ch w where o: "bindingFactors cs gpk msg coms = Inr rhos" "groupCommitment cs coms rhos = Inr R"
    "challenge cs R gpk msg = Inr ch" "lagrangeCoefficient cs (c_id com) (map c_id coms) = Inr w"
    "z mod ?m = (n_d h + n_e h * the (rhos (c_id com)) + w * s * ch) mod ?m" "z mod ?m = z"
    using signShareUnchecked_Inr[OF sign] by metis
  let ?v = "n_d h + n_e h * the (rhos (c_id com)) + w * s * ch"
  have "cs_add cs (commitment_of cs rhos com) (cs_scalarMul cs (ch * w) (cs_scalarMul cs s ?g)) = cs_scalarMul cs ?v ?g"
    using g by (simp add: commitment_of_def com(2,3) scalar_group.mul_mul[OF G] scalar_group.mul_add[OF G, symmetric] ac_simps)
  moreover have "cs_scalarMul cs z' ?g = cs_scalarMul cs ?v ?g \<longleftrightarrow> z' mod ?m = ?v mod ?m"
    using scalar_group.mul_prime_inj[OF G cs_okD(2)[OF ok] g cs_okD(4)[OF ok], of z' ?v]
      scalar_group.mul_cong[OF G g, of z' ?v] by (auto simp: mod_eq_dvd_iff)
  ultimately show ?thesis
    using verifySignatureShare_Inr[OF ok coms ids o(1,2,3) com(1) scalar_group.mul_in[OF G g] o(4), of z' s] o(5,6) by simp
qed

section \<open>The sum\<close>

lemma seen_loop_Inr: "seen_loop seen ps = Inr out \<Longrightarrow>
    distinct (map ps_id ps) \<and> (\<forall>p \<in> set ps. ps_id p \<notin> seen) \<and> out = seen \<union> ps_id ` set ps"
proof (induction ps arbitrary: seen)
  case (Cons p ps)
  then show ?case by (fastforce split: if_splits)
qed simp

lemma seen_loop_distinct: "distinct (map ps_id ps) \<Longrightarrow> (\<forall>p \<in> set ps. ps_id p \<notin> seen) \<Longrightarrow>
    seen_loop seen ps = Inr (seen \<union> ps_id ` set ps)"
proof (induction ps arbitrary: seen)
  case (Cons p ps)
  have "seen_loop (insert (ps_id p) seen) ps = Inr (insert (ps_id p) seen \<union> ps_id ` set ps)"
    using Cons.prems by (intro Cons.IH) (auto simp: image_iff)
  with Cons.prems show ?case by simp
qed simp

lemma verify_loop_Inr: "verify_loop cs gpk msg coms ps = Inr () \<longleftrightarrow>
    (\<forall>p \<in> set ps. verifySignatureShare cs (ps_id p) (ps_z p) (publicShare p) gpk msg coms = Inr True)"
  by (induction ps) (auto split: if_splits)

lemma aggregate_z:
  assumes "cs_ok cs G"
  shows "cs_scalarMul cs (sig_z (frost_aggregate cs R zs)) (cs_generator cs) =
    foldl (\<lambda>a z. cs_add cs a (cs_scalarMul cs z (cs_generator cs))) (cs_identity cs) zs"
proof -
  note G = cs_okD(1)[OF assms] and g = cs_okD(3)[OF assms]
  have "foldl (\<lambda>z zi. fmod (z + zi) (cs_order cs)) a zs mod cs_order cs = (a + sum_list zs) mod cs_order cs" for a
    by (induction zs arbitrary: a) (simp_all add: fmod_def mod_simps add.assoc)
  from this[of 0] have "cs_order cs dvd foldl (\<lambda>z zi. fmod (z + zi) (cs_order cs)) 0 zs - sum_list zs"
    by (simp add: mod_eq_dvd_iff)
  then show ?thesis
    using scalar_group.fold_scalars[OF G g, of "\<lambda>z. z" zs] scalar_group.mul_cong[OF G g]
    by (simp add: frost_aggregate_def)
qed

text \<open>
  Shares that pass, one from each signer, under keys that lie on the polynomial of the group key: their sum
  signs for the group key.
\<close>

lemma aggregate_signs:
  assumes ok: "cs_ok cs G" and coms: "commitments_in G coms" and ids: "residues_distinct (cs_order cs) (map c_id coms)"
    and rhos: "bindingFactors cs gpk msg coms = Inr rhos" and R: "groupCommitment cs coms rhos = Inr R"
    and ch: "challenge cs R gpk msg = Inr ch"
    and ps: "mset (map ps_id ps) = mset (map c_id coms)"
    and pass: "\<forall>p \<in> set ps. verifySignatureShare cs (ps_id p) (ps_z p) (publicShare p) gpk msg coms = Inr True"
    and poly: "set Cs \<subseteq> G" "Cs \<noteq> []" "hd Cs = gpk" "length Cs \<le> length coms"
    and keys: "\<forall>p \<in> set ps. publicShare p = horner (cs_add cs) (cs_scalarMul cs) (cs_identity cs) (ps_id p) Cs"
  shows "frost_verify cs gpk msg (frost_aggregate cs R (map ps_z ps)) = Inr True"
proof -
  note G = cs_okD(1)[OF ok]
  let ?g = "cs_generator cs" and ?add = "cs_add cs" and ?mul = "cs_scalarMul cs" and ?O = "cs_identity cs"
  let ?H = "\<lambda>i. horner ?add ?mul ?O i Cs"
  let ?com = "\<lambda>i. the (List.find (\<lambda>k. c_id k = i) coms)"
  have g: "?g \<in> G" by (rule cs_okD(3)[OF ok])
  have H: "?H i \<in> G" for i using scalar_group.horner_in[OF G poly(1)] .
  have dist: "distinct (map c_id coms)" by (rule residues_distinctD(1)[OF ids])
  have set_ids: "ps_id ` set ps = c_id ` set coms" using mset_eq_setD[OF ps] by simp
  have "\<exists>w. \<forall>i \<in> set (map c_id coms). lagrangeCoefficient cs i (map c_id coms) = Inr (w i) \<and>
      lag_weight (cs_order cs) (set (map c_id coms)) i (w i)"
    using lagrangeCoefficient_weight[OF cs_okD(2)[OF ok] ids] by (intro bchoice) blast
  then obtain w where w: "\<And>i. i \<in> set (map c_id coms) \<Longrightarrow> lagrangeCoefficient cs i (map c_id coms) = Inr (w i)"
    "\<And>i. i \<in> set (map c_id coms) \<Longrightarrow> lag_weight (cs_order cs) (set (map c_id coms)) i (w i)" by blast
  have com: "?com (c_id c) = c" if "c \<in> set coms" for c using find_id[OF dist that] by simp
  let ?F = "\<lambda>i. commitment_of cs rhos (?com i)"
  have F: "?F i \<in> G" if "i \<in> set (map c_id coms)" for i
    using that com commitment_of_in[OF ok coms] by auto
  have eq: "?mul (ps_z p) ?g = ?add (?F (ps_id p)) (?mul ch (?mul (w (ps_id p)) (?H (ps_id p))))" if p: "p \<in> set ps" for p
  proof -
    obtain c where c: "c \<in> set coms" "ps_id p = c_id c" using p set_ids by (metis imageE imageI)
    then have "?mul (ps_z p) ?g = ?add (commitment_of cs rhos c) (?mul (ch * w (c_id c)) (publicShare p))"
      using verifySignatureShare_Inr[OF ok coms ids rhos R ch c(1) _ w(1)[of "c_id c"], of "publicShare p" "ps_z p"]
        bspec[OF pass p] bspec[OF keys p] H by simp
    then show ?thesis using com[OF c(1)] c(2) bspec[OF keys p] H by (simp add: scalar_group.mul_mul[OF G])
  qed
  have ids_in: "ps_id p \<in> set (map c_id coms)" if "p \<in> set ps" for p using that set_ids by auto
  let ?ids = "map ps_id ps"
  have W: "?mul ch (?mul (w i) (?H i)) \<in> G" for i using scalar_group.mul_in[OF G] H by simp
  have "foldl (\<lambda>a z. ?add a (?mul z ?g)) ?O (map ps_z ps) = foldl (\<lambda>a p. ?add a (?mul (ps_z p) ?g)) ?O ps"
    by (simp add: foldl_map)
  also have "\<dots> = foldl (\<lambda>a p. ?add a (?add (?F (ps_id p)) (?mul ch (?mul (w (ps_id p)) (?H (ps_id p)))))) ?O ps"
    using eq by (intro foldl_cong) simp_all
  also have "\<dots> = foldl (\<lambda>a i. ?add a (?add (?F i) (?mul ch (?mul (w i) (?H i))))) ?O ?ids" by (simp add: foldl_map)
  also have "\<dots> = ?add (foldl (\<lambda>a i. ?add a (?F i)) ?O ?ids) (foldl (\<lambda>a i. ?add a (?mul ch (?mul (w i) (?H i)))) ?O ?ids)"
    using F ids_in W by (intro scalar_group.fold_add[OF G]) auto
  also have "foldl (\<lambda>a i. ?add a (?mul ch (?mul (w i) (?H i)))) ?O ?ids =
      ?mul ch (foldl (\<lambda>a i. ?add a (?mul (w i) (?H i))) ?O ?ids)"
    using scalar_group.mul_in[OF G H] by (intro scalar_group.fold_mul[OF G]) simp
  also have "foldl (\<lambda>a i. ?add a (?mul (w i) (?H i))) ?O ?ids = hd Cs"
  proof (rule scalar_group.interpolate[OF G cs_okD(2)[OF ok]])
    show "distinct ?ids" using ps dist by (metis mset_eq_imp_distinct_iff)
    show "\<forall>i \<in> set ?ids. \<forall>j \<in> set ?ids. i \<noteq> j \<longrightarrow> \<not> cs_order cs dvd j - i"
      using residues_distinctD(2)[OF ids] set_ids by (simp only: set_map)
    show "\<forall>i \<in> set ?ids. lag_weight (cs_order cs) (set ?ids) i (w i)" using w(2) set_ids by (simp only: set_map) blast
    show "length Cs \<le> length ?ids" using poly(4) ps by (metis size_mset length_map)
  qed (use poly in blast)+
  also have "foldl (\<lambda>a i. ?add a (?F i)) ?O ?ids = foldl (\<lambda>a i. ?add a (?F i)) ?O (map c_id coms)"
    using F ids_in ps by (intro scalar_group.fold_mset[OF G]) auto
  also have "\<dots> = foldl (\<lambda>a c. ?add a (commitment_of cs rhos c)) ?O coms"
    using com by (simp add: foldl_map cong: foldl_cong)
  also have "\<dots> = R" using groupCommitment_Inr[OF ok coms rhos] R by simp
  finally have z: "?mul (sig_z (frost_aggregate cs R (map ps_z ps))) ?g = ?add R (?mul ch gpk)"
    using aggregate_z[OF ok, of R "map ps_z ps"] poly(3) by simp
  have "R \<in> G" using groupCommitment_Inr[OF ok coms rhos] R commitment_of_in[OF ok coms]
      scalar_group.fold_in[OF G scalar_group.idn_in[OF G]] by fastforce
  moreover have "gpk \<in> G" using poly by (metis hd_in_set subset_iff)
  ultimately have "cs_eq cs (?add R (?mul ch gpk)) (?add R (?mul ch gpk))"
    using cs_okD(5)[OF ok] scalar_group.add_in[OF G] scalar_group.mul_in[OF G] by blast
  moreover have "sig_R (frost_aggregate cs R (map ps_z ps)) = R" by (simp add: frost_aggregate_def)
  ultimately show ?thesis using z ch by (simp add: frost_verify_def)
qed

lemma coordinatorAggregate_Inr:
  assumes "coordinatorAggregate cs R gpk msg coms ps thr = Inr sg"
  shows "distinct (map ps_id ps)" "thr \<le> length ps"
    "\<forall>p \<in> set ps. verifySignatureShare cs (ps_id p) (ps_z p) (publicShare p) gpk msg coms = Inr True"
    "sg = frost_aggregate cs R (map ps_z ps)"
proof -
  obtain seen where s: "seen_loop {} ps = Inr seen" "\<not> card seen < thr" "verify_loop cs gpk msg coms ps = Inr ()"
    "sg = frost_aggregate cs R (map ps_z ps)"
    using assms by (auto simp: coordinatorAggregate_def split: if_splits)
  note S = seen_loop_Inr[OF s(1)]
  show "distinct (map ps_id ps)" using S by blast
  have "card seen = length ps" using S by (metis distinct_card image_set length_map sup_bot_left)
  then show "thr \<le> length ps" using s(2) by simp
  show "\<forall>p \<in> set ps. verifySignatureShare cs (ps_id p) (ps_z p) (publicShare p) gpk msg coms = Inr True"
    using s(3) by (simp only: verify_loop_Inr)
  show "sg = frost_aggregate cs R (map ps_z ps)" by (rule s(4))
qed

lemma coordinatorAggregate_intro:
  assumes "distinct (map ps_id ps)" "thr \<le> length ps"
    "\<forall>p \<in> set ps. verifySignatureShare cs (ps_id p) (ps_z p) (publicShare p) gpk msg coms = Inr True"
  shows "coordinatorAggregate cs R gpk msg coms ps thr = Inr (frost_aggregate cs R (map ps_z ps))"
proof -
  have "seen_loop {} ps = Inr ({} \<union> ps_id ` set ps)" by (rule seen_loop_distinct[OF assms(1)]) simp
  moreover have "card (ps_id ` set ps) = length ps" using assms(1) by (metis distinct_card image_set length_map)
  moreover have "verify_loop cs gpk msg coms ps = Inr ()" using assms(3) by (simp only: verify_loop_Inr)
  ultimately show ?thesis using assms(2) by (simp add: coordinatorAggregate_def)
qed

text \<open>What the coordinator accepts from all of the committed signers is a signature.\<close>

lemma coordinator_signs:
  assumes ok: "cs_ok cs G" and coms: "commitments_in G coms" and ids: "residues_distinct (cs_order cs) (map c_id coms)"
    and rhos: "bindingFactors cs gpk msg coms = Inr rhos" and R: "groupCommitment cs coms rhos = Inr R"
    and agg: "coordinatorAggregate cs R gpk msg coms ps thr = Inr sg"
    and all: "ps_id ` set ps = c_id ` set coms"
    and poly: "set Cs \<subseteq> G" "Cs \<noteq> []" "hd Cs = gpk" "length Cs \<le> length coms"
    and keys: "\<forall>p \<in> set ps. publicShare p = horner (cs_add cs) (cs_scalarMul cs) (cs_identity cs) (ps_id p) Cs"
  shows "frost_verify cs gpk msg sg = Inr True"
proof -
  note A = coordinatorAggregate_Inr[OF agg]
  have "set (map ps_id ps) = set (map c_id coms)" using all by simp
  then have m: "mset (map ps_id ps) = mset (map c_id coms)"
    using A(1) residues_distinctD(1)[OF ids] by (simp only: set_eq_iff_mset_eq_distinct)
  have "coms \<noteq> []" using poly(2,4) by auto
  then obtain p where "p \<in> set ps" using all by (metis image_is_empty set_empty ex_in_conv)
  with A(3) have "verifySignatureShare cs (ps_id p) (ps_z p) (publicShare p) gpk msg coms = Inr True" by blast
  then obtain ch where "challenge cs R gpk msg = Inr ch"
    by (auto simp: verifySignatureShare_def Let_def rhos R split: option.splits)
  from aggregate_signs[OF ok coms ids rhos R this m A(3) poly keys] show ?thesis by (simp only: A(4))
qed

section \<open>Honest signers\<close>

text \<open>Round one of the signers \<open>ids\<close> with the handles \<open>h\<close>, and the shares they send in round two.\<close>

definition round1 :: "'g Ciphersuite \<Rightarrow> (int \<Rightarrow> NonceHandle) \<Rightarrow> int list \<Rightarrow> 'g Commitment list" where
  "round1 cs h ids = map (\<lambda>i. \<lparr>c_id = i, c_D = cs_scalarMul cs (n_d (h i)) (cs_generator cs),
     c_E = cs_scalarMul cs (n_e (h i)) (cs_generator cs)\<rparr>) ids"

definition round2 :: "'g Ciphersuite \<Rightarrow> (int \<Rightarrow> int) \<Rightarrow> (int \<Rightarrow> int) \<Rightarrow> int list \<Rightarrow> 'g PartialSig list" where
  "round2 cs s z ids = map (\<lambda>i. \<lparr>ps_id = i, ps_z = z i, publicShare = cs_scalarMul cs (s i) (cs_generator cs)\<rparr>) ids"

lemma round1_simps [simp]: "map c_id (round1 cs h ids) = ids" "length (round1 cs h ids) = length ids"
  "c_id ` set (round1 cs h ids) = set ids" "round1 cs h ids = [] \<longleftrightarrow> ids = []"
  by (auto simp: round1_def comp_def image_image)

lemma round2_simps [simp]: "map ps_id (round2 cs s z ids) = ids" "length (round2 cs s z ids) = length ids"
  "ps_id ` set (round2 cs s z ids) = set ids"
  by (auto simp: round2_def comp_def image_image)

lemma round1_in: "cs_ok cs G \<Longrightarrow> commitments_in G (round1 cs h ids)"
  by (auto simp: commitments_in_def round1_def intro: scalar_group.mul_in[OF cs_okD(1)] cs_okD(3))

lemma honest_shares_pass:
  assumes ok: "cs_ok cs G" and ids: "residues_distinct (cs_order cs) ids"
    and sign: "\<forall>i \<in> set ids. signShareUnchecked cs i (h i) (s i) gpk msg (round1 cs h ids) = Inr (z i)"
  shows "\<forall>p \<in> set (round2 cs s z ids).
    verifySignatureShare cs (ps_id p) (ps_z p) (publicShare p) gpk msg (round1 cs h ids) = Inr True"
proof
  fix p assume "p \<in> set (round2 cs s z ids)"
  then obtain i where i: "i \<in> set ids" "p = \<lparr>ps_id = i, ps_z = z i, publicShare = cs_scalarMul cs (s i) (cs_generator cs)\<rparr>"
    by (auto simp: round2_def)
  let ?c = "\<lparr>c_id = i, c_D = cs_scalarMul cs (n_d (h i)) (cs_generator cs), c_E = cs_scalarMul cs (n_e (h i)) (cs_generator cs)\<rparr>"
  have c: "?c \<in> set (round1 cs h ids)" using i(1) by (simp add: round1_def)
  have sg: "signShareUnchecked cs (c_id ?c) (h i) (s i) gpk msg (round1 cs h ids) = Inr (z i)" using sign i(1) by simp
  have "z i mod cs_order cs = z i" by (rule signShareUnchecked_Inr[OF sg]) blast
  then show "verifySignatureShare cs (ps_id p) (ps_z p) (publicShare p) gpk msg (round1 cs h ids) = Inr True"
    using verifySignatureShare_exact[OF ok round1_in[OF ok] _ c _ _ sg, of "z i"] ids i(2) by simp
qed

lemma honest_quorum_signs:
  assumes ok: "cs_ok cs G" and ids: "residues_distinct (cs_order cs) ids"
    and sign: "\<forall>i \<in> set ids. signShareUnchecked cs i (h i) (s i) gpk msg (round1 cs h ids) = Inr (z i)"
    and R: "bindingFactors cs gpk msg (round1 cs h ids) = Inr rhos" "groupCommitment cs (round1 cs h ids) rhos = Inr R"
    and poly: "set Cs \<subseteq> G" "Cs \<noteq> []" "hd Cs = gpk" "length Cs \<le> length ids"
    and keys: "\<forall>i \<in> set ids. cs_scalarMul cs (s i) (cs_generator cs) =
      horner (cs_add cs) (cs_scalarMul cs) (cs_identity cs) i Cs"
    and thr: "thr \<le> length ids"
  shows "\<exists>sg. coordinatorAggregate cs R gpk msg (round1 cs h ids) (round2 cs s z ids) thr = Inr sg \<and>
    frost_verify cs gpk msg sg = Inr True"
proof -
  let ?ps = "round2 cs s z ids"
  have d: "distinct (map ps_id ?ps)" using residues_distinctD(1)[OF ids] by simp
  have l: "thr \<le> length ?ps" using thr by simp
  note A = coordinatorAggregate_intro[OF d l honest_shares_pass[OF ok ids sign], of R]
  have k: "\<forall>p \<in> set ?ps. publicShare p = horner (cs_add cs) (cs_scalarMul cs) (cs_identity cs) (ps_id p) Cs"
    using keys by (auto simp: round2_def)
  have "frost_verify cs gpk msg (frost_aggregate cs R (map ps_z ?ps)) = Inr True"
    using poly ids by (intro coordinator_signs[OF ok round1_in[OF ok] _ R A _ _ _ _ _ k]) simp_all
  with A show ?thesis by blast
qed

text \<open>
  The coordinator counts distinct shares against the threshold, not against the commitments: the shares of some of
  the committed signers are accepted, and what it then returns is a signature only if the missing shares add up to
  nothing.
\<close>

lemma subset_signature:
  assumes ok: "cs_ok cs G" and ids: "residues_distinct (cs_order cs) (keep @ miss)"
    and sign: "\<forall>i \<in> set (keep @ miss). signShareUnchecked cs i (h i) (s i) gpk msg (round1 cs h (keep @ miss)) = Inr (z i)"
    and R: "bindingFactors cs gpk msg (round1 cs h (keep @ miss)) = Inr rhos"
      "groupCommitment cs (round1 cs h (keep @ miss)) rhos = Inr R"
    and poly: "set Cs \<subseteq> G" "Cs \<noteq> []" "hd Cs = gpk" "length Cs \<le> length (keep @ miss)"
    and keys: "\<forall>i \<in> set (keep @ miss). cs_scalarMul cs (s i) (cs_generator cs) =
      horner (cs_add cs) (cs_scalarMul cs) (cs_identity cs) i Cs"
    and thr: "thr \<le> length keep"
  shows "\<exists>sg. coordinatorAggregate cs R gpk msg (round1 cs h (keep @ miss)) (round2 cs s z keep) thr = Inr sg \<and>
    frost_verify cs gpk msg sg = Inr (cs_order cs dvd (\<Sum>i \<leftarrow> miss. z i))"
proof -
  note G = cs_okD(1)[OF ok] and g = cs_okD(3)[OF ok]
  let ?ids = "keep @ miss" and ?ps = "round2 cs s z keep" and ?all = "round2 cs s z (keep @ miss)"
  let ?mul = "\<lambda>k. cs_scalarMul cs k (cs_generator cs)"
  have d: "distinct (map ps_id ?ps)" using residues_distinctD(1)[OF ids] by simp
  have l: "thr \<le> length ?ps" using thr by simp
  have "set ?ps \<subseteq> set ?all" by (auto simp: round2_def)
  then have pass: "\<forall>p \<in> set ?ps. verifySignatureShare cs (ps_id p) (ps_z p) (publicShare p) gpk msg (round1 cs h ?ids) = Inr True"
    using honest_shares_pass[OF ok ids sign] by blast
  let ?sg = "frost_aggregate cs R (map ps_z ?ps)" and ?full = "frost_aggregate cs R (map ps_z ?all)"
  have agg: "coordinatorAggregate cs R gpk msg (round1 cs h ?ids) ?ps thr = Inr ?sg"
    by (rule coordinatorAggregate_intro[OF d l pass])
  obtain full where "coordinatorAggregate cs R gpk msg (round1 cs h ?ids) ?all 0 = Inr full" "frost_verify cs gpk msg full = Inr True"
    using honest_quorum_signs[OF ok ids sign R poly keys, of 0] by blast
  then have full: "frost_verify cs gpk msg ?full = Inr True" using coordinatorAggregate_Inr(4) by metis
  then obtain ch where ch: "challenge cs R gpk msg = Inr ch" by (auto simp: frost_verify_def frost_aggregate_def)
  let ?rhs = "cs_add cs R (cs_scalarMul cs ch gpk)"
  have z: "?mul (sig_z (frost_aggregate cs R (map ps_z (round2 cs s z xs)))) = ?mul (\<Sum>i \<leftarrow> xs. z i)" for xs
    using aggregate_z[OF ok, of R "map z xs"] scalar_group.fold_scalars[OF G g, of z xs]
    by (simp add: round2_def comp_def foldl_map)
  have sigR: "sig_R (frost_aggregate cs R zs) = R" for zs by (simp add: frost_aggregate_def)
  have "R \<in> G" using groupCommitment_Inr[OF ok round1_in[OF ok] R(1)] R(2) commitment_of_in[OF ok round1_in[OF ok]]
      scalar_group.fold_in[OF G scalar_group.idn_in[OF G]] by fastforce
  moreover have "gpk \<in> G" using poly by (metis hd_in_set subset_iff)
  ultimately have rG: "?rhs \<in> G" using scalar_group.add_in[OF G] scalar_group.mul_in[OF G] by blast
  note mG = scalar_group.mul_in[OF G g]
  have e: "cs_eq cs (?mul a) ?rhs \<longleftrightarrow> ?mul a = ?rhs" for a by (rule cs_okD(5)[OF ok mG rG])
  have "?mul (\<Sum>i \<leftarrow> ?ids. z i) = ?rhs" using full ch e by (simp add: frost_verify_def sigR z Let_def)
  moreover have "?mul (\<Sum>i \<leftarrow> keep. z i) = ?mul (\<Sum>i \<leftarrow> ?ids. z i) \<longleftrightarrow> cs_order cs dvd (\<Sum>i \<leftarrow> miss. z i)"
    using scalar_group.mul_prime_inj[OF G cs_okD(2)[OF ok] g cs_okD(4)[OF ok], of "\<Sum>i \<leftarrow> ?ids. z i" "\<Sum>i \<leftarrow> keep. z i"]
      scalar_group.mul_cong[OF G g, of "\<Sum>i \<leftarrow> ?ids. z i" "\<Sum>i \<leftarrow> keep. z i"] by auto
  ultimately have "frost_verify cs gpk msg ?sg = Inr (cs_order cs dvd (\<Sum>i \<leftarrow> miss. z i))"
    using ch e by (simp add: frost_verify_def sigR z Let_def)
  with agg show ?thesis by blast
qed

section \<open>One-time nonces\<close>

text \<open>A sequence of requests to sign with one handle.\<close>

fun sign_all :: "'g Ciphersuite \<Rightarrow> NonceHandle \<Rightarrow> (int \<times> int \<times> 'g \<times> bytes \<times> 'g Commitment list) list \<Rightarrow>
    NonceHandle \<times> (wallet_error + int) list" where
  "sign_all cs h [] = (h, [])"
| "sign_all cs h ((i, s, gpk, msg, coms) # reqs) = (case signShare cs i h s gpk msg coms of (h', r) \<Rightarrow>
     (case sign_all cs h' reqs of (h'', rs) \<Rightarrow> (h'', r # rs)))"

lemma sign_all_consumed: "consumed h \<Longrightarrow> sign_all cs h reqs =
    (h, replicate (length reqs) (Inl (WError ''frost: one-time nonce reused (round-1 handle already consumed)'')))"
proof (induction reqs)
  case (Cons r reqs)
  then show ?case by (cases r) (simp add: signShare_def markConsumed_def)
qed simp

lemma sign_all_fresh:
  assumes "\<not> consumed h"
  shows "sign_all cs h ((i, s, gpk, msg, coms) # reqs) = (h\<lparr>consumed := True\<rparr>,
    signShareUnchecked cs i (h\<lparr>consumed := True\<rparr>) s gpk msg coms #
    replicate (length reqs) (Inl (WError ''frost: one-time nonce reused (round-1 handle already consumed)'')))"
proof -
  have "signShare cs i h s gpk msg coms = (h\<lparr>consumed := True\<rparr>, signShareUnchecked cs i (h\<lparr>consumed := True\<rparr>) s gpk msg coms)"
    using assms by (simp add: signShare_def markConsumed_def)
  then show ?thesis using sign_all_consumed[of "h\<lparr>consumed := True\<rparr>" cs reqs] by simp
qed

lemma signShare_unmarked: "signShareUnchecked cs i (h\<lparr>consumed := b\<rparr>) s gpk msg coms =
    signShareUnchecked cs i (h :: NonceHandle) s gpk msg coms"
  by (cases h) (simp add: signShareUnchecked_def Let_def cong: option.case_cong)

end
