(* ===== verification/Frost_Bjj.thy ===== *)
theory Frost_Bjj
  imports Frost_Sound
begin

text \<open>
  The production ciphersuite \<^verbatim>\<open>frost/ciphersuites/bjj.ts\<close> over BabyJubJub and Poseidon2, with the hashes of
  \<^verbatim>\<open>tss/hashToScalar.ts\<close>, the domains of \<^verbatim>\<open>tss/domains.ts\<close>, the messages of \<^verbatim>\<open>frost/message.ts\<close> and the group
  view key of \<^verbatim>\<open>frost/groupViewKey.ts\<close>.
\<close>

unbundle bit_operations_syntax

section \<open>Domains\<close>

definition SCHNORR_DOMAIN :: int where
  "SCHNORR_DOMAIN = 0x2107179dff41b3dd7a3f1dafc51478ba9cf2daee14867e12f614e781f5aeba85"
definition FROST_RHO_DOMAIN :: int where
  "FROST_RHO_DOMAIN = 0x0d165433f845e27e4b30d0d9097fde347a6fd27804b4e389df364c1075646cba"
definition FROST_NONCE_DOMAIN :: int where
  "FROST_NONCE_DOMAIN = 0x2a1ecc8a540d78f36e1f3de459fcea07f1275548922c2d41beec0a880eb0251d"
definition FROST_MSG_DOMAIN :: int where
  "FROST_MSG_DOMAIN = 0x239107747b96e6644d2f852367e078cc61864912ff638afd5efc0c65b943f5dc"
definition FROST_COM_DOMAIN :: int where
  "FROST_COM_DOMAIN = 0x1b3a889f80a6fdbbbfc54e00ae8c37bb92a4272459993cb546f912cec7017c1f"
definition FROST_POP_DOMAIN :: int where
  "FROST_POP_DOMAIN = 0x2be00580ace52d222adfc972534e93b8039645dc99ee9551792ac1fee8dcb3e1"
definition CP_DOMAIN :: int where
  "CP_DOMAIN = 0x28d8e60be83dbb247f779aa54f139872474d3205293b0ef0298ad0cbc2d54e5e"
definition ACTION_WITHDRAW :: int where
  "ACTION_WITHDRAW = 0x10bdf6418845f80562b4936e9fc0f64de27bc95b7c96f2c0898fd9511d751d47"
definition ACTION_TRANSFER :: int where
  "ACTION_TRANSFER = 0x2ff0294e5ed0c2a9655cc6709bc96e34b62c677397e3dd0416c299b945c63314"
definition ACTION_SPLIT :: int where
  "ACTION_SPLIT = 0x10ab6394a1de647bbaa0f2e7b6316e2a73e63b8afa79018783d2a22202083d08"
definition ACTION_JOIN :: int where
  "ACTION_JOIN = 0x1bc4c29e7730275b30fd38d913559fc7f15eb4fabc3e1aed2295e2d0ef006617"

lemmas tss_domains = SCHNORR_DOMAIN_def FROST_RHO_DOMAIN_def FROST_NONCE_DOMAIN_def FROST_MSG_DOMAIN_def
  FROST_COM_DOMAIN_def FROST_POP_DOMAIN_def CP_DOMAIN_def
  ACTION_WITHDRAW_def ACTION_TRANSFER_def ACTION_SPLIT_def ACTION_JOIN_def

section \<open>Hashes\<close>

definition poseidon2 :: "'a note_lib_scheme \<Rightarrow> int list \<Rightarrow> wallet_error + int" where
  "poseidon2 L inputs = ebind (emap new_Fr inputs) (\<lambda>fs.
     if fs = [] then Inl (WError ''Poseidon hash requires at least one input.'')
     else Inr (int (poseidon2Hash L fs)))"

definition challengeScalar :: "'a note_lib_scheme \<Rightarrow> int list \<Rightarrow> wallet_error + int" where
  "challengeScalar L inputs = poseidon2 L inputs"

definition HIGH_SHIFT :: int where "HIGH_SHIFT = push_bit 254 1"

definition hashToScalar :: "'a note_lib_scheme \<Rightarrow> int \<Rightarrow> int list \<Rightarrow> wallet_error + int" where
  "hashToScalar L domain1 inputs =
     ebind (poseidon2 L ([domain1] @ inputs @ [0])) (\<lambda>high.
     ebind (poseidon2 L ([domain1] @ inputs @ [1])) (\<lambda>low.
       Inr ((high * HIGH_SHIFT + low) mod subOrder L)))"

section \<open>The ciphersuite\<close>

fun encode_loop :: "nat \<Rightarrow> int \<Rightarrow> bytes \<Rightarrow> bytes" where
  "encode_loop 0 v out = out"
| "encode_loop (Suc n) v out = encode_loop n (drop_bit 8 v) (word_of_int (v AND 0xff) # out)"

definition encodeMessage :: "int \<Rightarrow> bytes" where
  "encodeMessage m = encode_loop 32 m []"

definition bytesToField :: "bytes \<Rightarrow> int" where
  "bytesToField bs = foldl (\<lambda>v b. push_bit 8 v OR uint b) 0 bs mod int FR_MODULUS"

definition decodeMessage :: "bytes \<Rightarrow> int" where
  "decodeMessage msg = foldl (\<lambda>v b. push_bit 8 v OR uint b) 0 msg mod int FR_MODULUS"

definition hashMessage :: "'a note_lib_scheme \<Rightarrow> bytes \<Rightarrow> wallet_error + int" where
  "hashMessage L msg = poseidon2 L [FROST_MSG_DOMAIN, decodeMessage msg]"

definition hashCommitmentList :: "'a note_lib_scheme \<Rightarrow> point Commitment list \<Rightarrow> wallet_error + int" where
  "hashCommitmentList L commitments = poseidon2 L ([FROST_COM_DOMAIN] @
     concat (map (\<lambda>c. [c_id c, fst (c_D c), snd (c_D c), fst (c_E c), snd (c_E c)]) (sort_key c_id commitments)))"

definition bjjCiphersuite :: "'a tss_lib_scheme \<Rightarrow> point Ciphersuite" where
  "bjjCiphersuite L = \<lparr>
     cs_generator = Base8 L,
     cs_identity = IDENTITY,
     cs_add = pointAdd L,
     cs_scalarMul = scalarMul L,
     cs_negate = pointNeg,
     cs_eq = pointEq,
     cs_order = subOrder L,
     nonceScalar = (\<lambda>random32 secret. hashToScalar L FROST_NONCE_DOMAIN [bytesToField random32, secret]),
     bindingFactor = (\<lambda>gpk msg commitments id1.
       ebind (hashMessage L msg) (\<lambda>h4. ebind (hashCommitmentList L commitments) (\<lambda>h5.
         hashToScalar L FROST_RHO_DOMAIN [fst gpk, snd gpk, h4, h5, id1]))),
     challenge = (\<lambda>R gpk msg.
       ebind (challengeScalar L [SCHNORR_DOMAIN, fst R, snd R, fst gpk, snd gpk, decodeMessage msg]) (\<lambda>full.
         Inr (full mod push_bit 248 1)))\<rparr>"

lemma bjj_sel [simp]:
  "cs_generator (bjjCiphersuite L) = Base8 L" "cs_identity (bjjCiphersuite L) = IDENTITY"
  "cs_add (bjjCiphersuite L) = pointAdd L" "cs_scalarMul (bjjCiphersuite L) = scalarMul L"
  "cs_eq (bjjCiphersuite L) = pointEq" "cs_order (bjjCiphersuite L) = subOrder L"
  by (simp_all add: bjjCiphersuite_def)

section \<open>Messages of a spend\<close>

definition poseidonFields :: "'a note_lib_scheme \<Rightarrow> int list \<Rightarrow> wallet_error + int" where
  "poseidonFields L fs = poseidon2 L fs"

definition multisigOwner :: "'a note_lib_scheme \<Rightarrow> point \<Rightarrow> wallet_error + int" where
  "multisigOwner L gpk = poseidonFields L [fst gpk, snd gpk]"

record WithdrawArgs =
  wa_root :: int
  wa_nullifier :: int
  wa_changeLeaf :: int
  wa_publicOut :: int
  wa_asset :: int
  wa_recipient :: int
  wa_intentHash :: int

definition msgWithdraw :: "'a note_lib_scheme \<Rightarrow> WithdrawArgs \<Rightarrow> wallet_error + int" where
  "msgWithdraw L args = poseidonFields L [ACTION_WITHDRAW, wa_root args, wa_nullifier args, wa_changeLeaf args,
     wa_publicOut args, wa_asset args, wa_recipient args, wa_intentHash args]"

record TransferArgs =
  ta_root :: int
  ta_nullifier :: int
  ta_memoLeaf :: int
  ta_memoTag :: int
  ta_changeLeaf :: int
  ta_asset :: int

definition msgTransfer :: "'a note_lib_scheme \<Rightarrow> TransferArgs \<Rightarrow> wallet_error + int" where
  "msgTransfer L args = poseidonFields L [ACTION_TRANSFER, ta_root args, ta_nullifier args, ta_memoLeaf args,
     ta_memoTag args, ta_changeLeaf args, ta_asset args]"

record SplitArgs =
  sa_root :: int
  sa_nullifier :: int
  sa_out1Leaf :: int
  sa_out2Leaf :: int
  sa_asset :: int

definition msgSplit :: "'a note_lib_scheme \<Rightarrow> SplitArgs \<Rightarrow> wallet_error + int" where
  "msgSplit L args = poseidonFields L [ACTION_SPLIT, sa_root args, sa_nullifier args, sa_out1Leaf args,
     sa_out2Leaf args, sa_asset args]"

record JoinArgs =
  ja_root :: int
  ja_nullifierA :: int
  ja_nullifierB :: int
  ja_outLeaf :: int
  ja_asset :: int

definition msgJoin :: "'a note_lib_scheme \<Rightarrow> JoinArgs \<Rightarrow> wallet_error + int" where
  "msgJoin L args = poseidonFields L [ACTION_JOIN, ja_root args, ja_nullifierA args, ja_nullifierB args,
     ja_outLeaf args, ja_asset args]"

section \<open>The view key of a group\<close>

definition MS_VIEW_LABEL :: string where "MS_VIEW_LABEL = ''hisoka.msView''"
definition MAX_VIEW_ROLL :: nat where "MAX_VIEW_ROLL = 256"

record GroupViewKey =
  gv_v :: fr
  gv_V :: point
  gv_roll :: int

text \<open>The loop with \<open>n\<close> rolls left; \<open>skView\<close> is what \<^verbatim>\<open>account.getViewKey()\<close> returned.\<close>

fun viewKey_loop :: "note_lib \<Rightarrow> fr \<Rightarrow> point \<Rightarrow> nat \<Rightarrow> int \<Rightarrow> wallet_error + GroupViewKey" where
  "viewKey_loop L skView gpk 0 roll = Inl (WError ''group view key: no even-y V within rolls for this group'')"
| "viewKey_loop L skView gpk (Suc n) roll =
     ebind (emap new_Fr [fst gpk, snd gpk, roll]) (\<lambda>fs. let salt = poseidon2Hash L fs in
     ebind (Kdf_derive L MS_VIEW_LABEL skView (Some salt)) (\<lambda>k. let v = toBjjScalar L k; V = publicKey L v in
       if isEvenY V then Inr \<lparr>gv_v = v, gv_V = V, gv_roll = roll\<rparr>
       else viewKey_loop L skView gpk n (roll + 1)))"

definition deriveGroupViewKey :: "note_lib \<Rightarrow> fr \<Rightarrow> point \<Rightarrow> wallet_error + GroupViewKey" where
  "deriveGroupViewKey L skRoot gpk = ebind (deriveViewKey L skRoot) (\<lambda>skView.
     viewKey_loop L skView gpk MAX_VIEW_ROLL 0)"

section \<open>The ciphersuite is one\<close>

lemma bjj_ok: "tss_ok L \<Longrightarrow> cs_ok (bjjCiphersuite L) (subgroup_points L)"
  using points_group[of L] tss_ok_prime[of L] subgroup_base[of L] tss_ok_laws(4)[of L]
  by (simp add: cs_ok_def IDENTITY_def)

text \<open>On canonical points every hash of the ciphersuite returns.\<close>

definition field_int :: "int \<Rightarrow> bool" where
  "field_int x \<longleftrightarrow> 0 \<le> x \<and> x < int FR_MODULUS"

definition poseidon_ok :: "'a note_lib_scheme \<Rightarrow> bool" where
  "poseidon_ok L \<longleftrightarrow> (\<forall>xs. poseidon2Hash L xs < FR_MODULUS)"

lemma emap_new_Fr: "\<forall>x \<in> set xs. field_int x \<Longrightarrow> emap new_Fr xs = Inr (map nat xs)"
  by (induction xs) (auto simp: field_int_def new_Fr_def)

lemma poseidon2_Inr: "xs \<noteq> [] \<Longrightarrow> \<forall>x \<in> set xs. field_int x \<Longrightarrow> poseidon2 L xs = Inr (int (poseidon2Hash L (map nat xs)))"
  by (simp add: poseidon2_def emap_new_Fr)

lemma poseidon2_field: "poseidon_ok L \<Longrightarrow> poseidon2 L xs = Inr h \<Longrightarrow> field_int h"
  by (auto simp: poseidon2_def poseidon_ok_def field_int_def split: if_splits)

lemma field_int_0_1 [simp]: "field_int 0" "field_int 1"
  by (simp_all add: field_int_def FR_MODULUS_def)

lemma domains_field [simp]: "field_int SCHNORR_DOMAIN" "field_int FROST_RHO_DOMAIN" "field_int FROST_NONCE_DOMAIN"
  "field_int FROST_MSG_DOMAIN" "field_int FROST_COM_DOMAIN" "field_int FROST_POP_DOMAIN" "field_int CP_DOMAIN"
  by (simp_all add: field_int_def tss_domains FR_MODULUS_def)

lemma hashToScalar_Inr:
  assumes "\<forall>x \<in> set (d # xs). field_int x"
  shows "\<exists>h. hashToScalar L d xs = Inr h"
proof -
  have "poseidon2 L ([d] @ xs @ [b]) = Inr (int (poseidon2Hash L (map nat ([d] @ xs @ [b]))))" if "b = 0 \<or> b = 1" for b
    using assms that by (intro poseidon2_Inr) auto
  then show ?thesis by (simp add: hashToScalar_def)
qed

lemma curve_field: "curve_point L P \<Longrightarrow> field_int (fst P) \<and> field_int (snd P)"
  by (simp add: curve_point_def field_int_def)

lemma subgroup_field: "P \<in> subgroup_points L \<Longrightarrow> field_int (fst P) \<and> field_int (snd P)"
  using subgroup_pointsD(1) curve_field by blast

lemma decodeMessage_field [simp]: "field_int (decodeMessage msg)"
  using FR_MODULUS_bounds(3) by (simp add: decodeMessage_def field_int_def)

lemma bytesToField_field [simp]: "field_int (bytesToField bs)"
  using FR_MODULUS_bounds(3) by (simp add: bytesToField_def field_int_def)

lemma bjj_challenge: "R \<in> subgroup_points L \<Longrightarrow> gpk \<in> subgroup_points L \<Longrightarrow>
    \<exists>c. challenge (bjjCiphersuite L) R gpk msg = Inr c"
  using poseidon2_Inr[of "[SCHNORR_DOMAIN, fst R, snd R, fst gpk, snd gpk, decodeMessage msg]" L]
    subgroup_field[of R L] subgroup_field[of gpk L]
  by (simp add: bjjCiphersuite_def challengeScalar_def)

lemma bjj_nonce: "field_int secret \<Longrightarrow> \<exists>d. nonceScalar (bjjCiphersuite L) rnd secret = Inr d"
  using hashToScalar_Inr[of FROST_NONCE_DOMAIN "[bytesToField rnd, secret]" L] by (simp add: bjjCiphersuite_def)

lemma bjj_bindingFactor:
  assumes h: "poseidon_ok L" and gpk: "gpk \<in> subgroup_points L" and coms: "commitments_in (subgroup_points L) coms"
    and ids: "\<forall>c \<in> set coms. field_int (c_id c)" and i: "field_int i"
  shows "\<exists>r. bindingFactor (bjjCiphersuite L) gpk msg coms i = Inr r"
proof -
  obtain h4 where h4: "hashMessage L msg = Inr h4" "field_int h4"
    using poseidon2_Inr[of "[FROST_MSG_DOMAIN, decodeMessage msg]" L] poseidon2_field[OF h, of "[FROST_MSG_DOMAIN, decodeMessage msg]"]
    by (simp add: hashMessage_def)
  let ?xs = "[FROST_COM_DOMAIN] @
     concat (map (\<lambda>c. [c_id c, fst (c_D c), snd (c_D c), fst (c_E c), snd (c_E c)]) (sort_key c_id coms))"
  have "\<forall>x \<in> set ?xs. field_int x"
    using ids coms by (auto simp: commitments_in_def dest: subgroup_field)
  then obtain h5 where h5: "hashCommitmentList L coms = Inr h5" "field_int h5"
    using poseidon2_Inr[of ?xs L] poseidon2_field[OF h, of ?xs] by (simp add: hashCommitmentList_def)
  have "\<exists>r. hashToScalar L FROST_RHO_DOMAIN [fst gpk, snd gpk, h4, h5, i] = Inr r"
    using h4(2) h5(2) i subgroup_field[OF gpk] by (intro hashToScalar_Inr) simp
  then show ?thesis by (simp add: bjjCiphersuite_def h4(1) h5(1))
qed

section \<open>Messages come back\<close>

lemma encode_loop_value: "length out = k \<Longrightarrow>
    foldl (\<lambda>v b. push_bit 8 v OR uint b) 0 (encode_loop n v out) =
    foldl (\<lambda>v b. push_bit 8 v OR uint b) (take_bit (8 * n) v) out"
proof (induction n arbitrary: v out k)
  case (Suc n)
  have "uint (word_of_int (v AND 0xff) :: byte) = take_bit 8 v"
    by (simp add: uint_word_of_int take_bit_eq_mask mask_eq_exp_minus_1 take_bit_and)
  moreover have "push_bit 8 (take_bit (8 * n) (drop_bit 8 v)) OR take_bit 8 v = take_bit (8 * Suc n) v"
    by (rule bit_eqI) (auto simp: bit_simps)
  ultimately show ?case using Suc.IH[OF refl] by simp
qed simp

lemma decode_encodeMessage: "field_int m \<Longrightarrow> decodeMessage (encodeMessage m) = m"
proof -
  assume m: "field_int m"
  then have "take_bit 256 m = m" by (simp add: field_int_def FR_MODULUS_def take_bit_int_eq_self_iff)
  then show ?thesis
    using m encode_loop_value[of "[]" 0 32 m] by (simp add: decodeMessage_def encodeMessage_def field_int_def del: encode_loop.simps)
qed

section \<open>A quorum of the production ciphersuite\<close>

lemma binding_loop_total:
  "\<forall>c \<in> set xs. \<exists>r. bindingFactor cs gpk msg srt (c_id c) = Inr r \<Longrightarrow> \<exists>rhos. binding_loop cs gpk msg srt out xs = Inr rhos"
  by (induction xs arbitrary: out) auto

lemma bjj_round1_total:
  assumes ok: "tss_ok L" and h: "poseidon_ok L" and gpk: "gpk \<in> subgroup_points L"
    and coms: "commitments_in (subgroup_points L) coms" and ids: "\<forall>c \<in> set coms. field_int (c_id c)"
  shows "\<exists>rhos R ch. bindingFactors (bjjCiphersuite L) gpk msg coms = Inr rhos \<and>
    groupCommitment (bjjCiphersuite L) coms rhos = Inr R \<and> challenge (bjjCiphersuite L) R gpk msg = Inr ch"
proof -
  let ?cs = "bjjCiphersuite L"
  have c: "commitments_in (subgroup_points L) (sortById coms)" using coms by (simp add: commitments_in_def sortById_mset)
  have f: "\<exists>r. bindingFactor ?cs gpk msg (sortById coms) (c_id com) = Inr r" if "com \<in> set (sortById coms)" for com
    using ids that by (intro bjj_bindingFactor[OF h gpk c]) (auto simp: sortById_mset)
  then obtain rhos where rhos: "bindingFactors ?cs gpk msg coms = Inr rhos"
    using binding_loop_total[of "sortById coms" ?cs gpk msg "sortById coms" Map.empty] by (auto simp: bindingFactors_def Let_def)
  note R = groupCommitment_Inr[OF bjj_ok[OF ok] coms rhos]
  have "foldl (\<lambda>R c. pointAdd L R (commitment_of ?cs rhos c)) IDENTITY coms \<in> subgroup_points L"
    by (rule scalar_group.fold_in[OF points_group[OF ok] scalar_group.idn_in[OF points_group[OF ok]]])
      (use commitment_of_in[OF bjj_ok[OF ok] coms] in blast)
  from bjj_challenge[OF this gpk] obtain ch
    where "challenge ?cs (foldl (\<lambda>R c. pointAdd L R (commitment_of ?cs rhos c)) IDENTITY coms) gpk msg = Inr ch" by blast
  then show ?thesis using rhos R unfolding bjj_sel by (intro exI conjI)
qed

lemma bjj_sign_total:
  assumes ok: "tss_ok L" and h: "poseidon_ok L" and gpk: "gpk \<in> subgroup_points L"
    and coms: "commitments_in (subgroup_points L) coms" "residues_distinct (subOrder L) (map c_id coms)"
      "\<forall>c \<in> set coms. field_int (c_id c)" and i: "i \<in> c_id ` set coms"
  shows "\<exists>z. signShareUnchecked (bjjCiphersuite L) i n s gpk msg coms = Inr z"
proof -
  let ?cs = "bjjCiphersuite L"
  obtain rhos R ch where o: "bindingFactors ?cs gpk msg coms = Inr rhos" "groupCommitment ?cs coms rhos = Inr R"
    "challenge ?cs R gpk msg = Inr ch"
    using bjj_round1_total[OF ok h gpk coms(1,3)] by blast
  obtain w where "lagrangeCoefficient ?cs i (map c_id coms) = Inr w"
    using lagrangeCoefficient_weight[of ?cs "map c_id coms" i] tss_ok_prime[OF ok] coms(2) i by auto
  moreover obtain rho where "rhos i = Some rho" using bindingFactors_Inr(1)[OF o(1)] i by blast
  ultimately show ?thesis by (simp add: signShareUnchecked_def o Let_def)
qed

lemma bjj_quorum_signs:
  assumes ok: "tss_ok L" and h: "poseidon_ok L" and ids: "residues_distinct (subOrder L) ids" "\<forall>i \<in> set ids. field_int i"
    and fresh: "\<forall>i \<in> set ids. \<not> consumed (hs i)"
    and poly: "set Cs \<subseteq> subgroup_points L" "Cs \<noteq> []" "hd Cs = gpk" "length Cs \<le> length ids"
    and keys: "\<forall>i \<in> set ids. scalarBaseMul L (s i) = pt_eval L i Cs" and thr: "thr \<le> length ids"
  shows "\<exists>z rhos R sg.
    (\<forall>i \<in> set ids. snd (signShare (bjjCiphersuite L) i (hs i) (s i) gpk msg (round1 (bjjCiphersuite L) hs ids)) = Inr (z i)) \<and>
    bindingFactors (bjjCiphersuite L) gpk msg (round1 (bjjCiphersuite L) hs ids) = Inr rhos \<and>
    groupCommitment (bjjCiphersuite L) (round1 (bjjCiphersuite L) hs ids) rhos = Inr R \<and>
    coordinatorAggregate (bjjCiphersuite L) R gpk msg (round1 (bjjCiphersuite L) hs ids)
      (round2 (bjjCiphersuite L) s z ids) thr = Inr sg \<and>
    frost_verify (bjjCiphersuite L) gpk msg sg = Inr True"
proof -
  let ?cs = "bjjCiphersuite L"
  let ?coms = "round1 ?cs hs ids"
  note cs = bjj_ok[OF ok]
  have gpk: "gpk \<in> subgroup_points L" using poly by (metis hd_in_set subset_iff)
  have c: "commitments_in (subgroup_points L) ?coms" by (rule round1_in[OF cs])
  have f: "\<forall>c \<in> set ?coms. field_int (c_id c)" using ids(2) by (auto simp: round1_def)
  have "\<exists>z. \<forall>i \<in> set ids. signShareUnchecked ?cs i (hs i) (s i) gpk msg ?coms = Inr (z i)"
    using ids(1) by (intro bchoice ballI bjj_sign_total[OF ok h gpk c _ f]) simp_all
  then obtain z where z: "\<forall>i \<in> set ids. signShareUnchecked ?cs i (hs i) (s i) gpk msg ?coms = Inr (z i)" by blast
  obtain rhos R where R: "bindingFactors ?cs gpk msg ?coms = Inr rhos" "groupCommitment ?cs ?coms rhos = Inr R"
    using bjj_round1_total[OF ok h gpk c f] by blast
  have k: "\<forall>i \<in> set ids. cs_scalarMul ?cs (s i) (cs_generator ?cs) =
      horner (cs_add ?cs) (cs_scalarMul ?cs) (cs_identity ?cs) i Cs"
    using keys by (simp add: scalarBaseMul_def)
  have ids': "residues_distinct (cs_order ?cs) ids" using ids(1) by simp
  obtain sg where sg: "coordinatorAggregate ?cs R gpk msg ?coms (round2 ?cs s z ids) thr = Inr sg"
    "frost_verify ?cs gpk msg sg = Inr True"
    using honest_quorum_signs[OF cs ids' z R poly k thr] by blast
  have "\<forall>i \<in> set ids. snd (signShare ?cs i (hs i) (s i) gpk msg ?coms) = Inr (z i)"
    using z fresh by (simp add: signShare_def markConsumed_def signShare_unmarked)
  with R sg show ?thesis by blast
qed

end
