(* ===== verification/Dkg.thy ===== *)
theory Dkg
  imports Frost_Bjj
begin

text \<open>
  Key generation without a dealer: \<^verbatim>\<open>tss/dkg.ts\<close> and \<^verbatim>\<open>tss/gjkr.ts\<close>. What \<^verbatim>\<open>randScalar\<close> draws is an argument:
  \<open>rnd k\<close> is the \<open>k\<close>-th block of 48 random bytes of a dealer. Reading the first commitment of an empty list
  raises, as indexing \<^verbatim>\<open>undefined\<close> does.
\<close>

section \<open>Proof of possession\<close>

record SchnorrPoP =
  pop_R :: point
  pop_z :: int

record DealerContribution =
  dc_id :: int
  dc_commitments :: "point list"
  dc_pop :: SchnorrPoP
  dc_shares :: "int \<rightharpoonup> int"

definition popChallenge :: "'a note_lib_scheme \<Rightarrow> int \<Rightarrow> int \<Rightarrow> point \<Rightarrow> point \<Rightarrow> wallet_error + int" where
  "popChallenge L id1 context1 com0 R =
     hashToScalar L FROST_POP_DOMAIN [id1, context1, fst com0, snd com0, fst R, snd R]"

definition provePoP :: "'a tss_lib_scheme \<Rightarrow> int \<Rightarrow> int \<Rightarrow> int \<Rightarrow> point \<Rightarrow> bytes \<Rightarrow> wallet_error + SchnorrPoP" where
  "provePoP L id1 context1 secret commitment rnd =
     (let k = randScalar L rnd; R = scalarBaseMul L k in
     ebind (popChallenge L id1 context1 commitment R) (\<lambda>e.
       Inr \<lparr>pop_R = R, pop_z = modSub L (k + e * secret)\<rparr>))"

definition first_commitment :: "point list \<Rightarrow> wallet_error + point" where
  "first_commitment coms = (case coms of [] \<Rightarrow> Inl (WError ''TypeError'') | c # _ \<Rightarrow> Inr c)"

definition verifyPoP :: "'a tss_lib_scheme \<Rightarrow> int \<Rightarrow> int \<Rightarrow> point list \<Rightarrow> SchnorrPoP \<Rightarrow> wallet_error + bool" where
  "verifyPoP L id1 context1 commitments pop =
     ebind (first_commitment commitments) (\<lambda>com0.
     ebind (popChallenge L id1 context1 com0 (pop_R pop)) (\<lambda>e.
       let lhs = scalarBaseMul L (pop_z pop);
           rhs = pointAdd L (pop_R pop) (scalarMul L e com0)
       in Inr (pointEq lhs rhs)))"

section \<open>Contributions\<close>

definition dealerContribute :: "'a tss_lib_scheme \<Rightarrow> int \<Rightarrow> int list \<Rightarrow> nat \<Rightarrow> int \<Rightarrow> (nat \<Rightarrow> bytes) \<Rightarrow>
    wallet_error + DealerContribution \<times> int" where
  "dealerContribute L id1 participants t context1 rnd =
     (let coeffs = map (\<lambda>k. randScalar L (rnd k)) [0..<t];
          commitments = feldmanCommit L coeffs;
          shares = map_of (map (\<lambda>j. (j, polyEval L coeffs j)) participants)
      in case coeffs of [] \<Rightarrow> Inl (WError ''TypeError'')
       | c0 # _ \<Rightarrow> ebind (first_commitment commitments) (\<lambda>com0.
           ebind (provePoP L id1 context1 c0 com0 (rnd t)) (\<lambda>pop.
             Inr (\<lparr>dc_id = id1, dc_commitments = commitments, dc_pop = pop, dc_shares = shares\<rparr>, c0))))"

definition verifyContribution :: "'a tss_lib_scheme \<Rightarrow> int \<Rightarrow> DealerContribution \<Rightarrow> int \<Rightarrow> wallet_error + bool" where
  "verifyContribution L recipientId contribution context1 =
     (if dc_commitments contribution = [] then Inr False
      else case dc_shares contribution recipientId of None \<Rightarrow> Inr False
      | Some share \<Rightarrow>
          if \<not> feldmanVerifyShare L recipientId share (dc_commitments contribution) then Inr False
          else verifyPoP L (dc_id contribution) context1 (dc_commitments contribution) (dc_pop contribution))"

record DkgResult =
  dk_C :: point
  dk_shares :: "int \<rightharpoonup> int"
  dk_V :: "int \<rightharpoonup> point"
  dk_qual :: "int list"

fun key_loop :: "'a tss_lib_scheme \<Rightarrow> point \<Rightarrow> DealerContribution list \<Rightarrow> wallet_error + point" where
  "key_loop L C [] = Inr C"
| "key_loop L C (c # rest) = ebind (first_commitment (dc_commitments c)) (\<lambda>com0. key_loop L (pointAdd L C com0) rest)"

fun share_loop :: "'a note_lib_scheme \<Rightarrow> int \<Rightarrow> int \<Rightarrow> DealerContribution list \<Rightarrow> wallet_error + int" where
  "share_loop L i ci [] = Inr ci"
| "share_loop L i ci (c # rest) = (case dc_shares c i of
     None \<Rightarrow> Inl (WError ''dkg: QUAL dealer missing share'')
   | Some s \<Rightarrow> share_loop L i (modSub L (ci + s)) rest)"

fun aggregate_loop :: "'a tss_lib_scheme \<Rightarrow> DealerContribution list \<Rightarrow> (int \<rightharpoonup> int) \<Rightarrow> (int \<rightharpoonup> point) \<Rightarrow> int list \<Rightarrow>
    wallet_error + (int \<rightharpoonup> int) \<times> (int \<rightharpoonup> point)" where
  "aggregate_loop L qual shares V [] = Inr (shares, V)"
| "aggregate_loop L qual shares V (i # rest) = ebind (share_loop L i 0 qual) (\<lambda>ci.
     aggregate_loop L qual (shares(i \<mapsto> ci)) (V(i \<mapsto> scalarBaseMul L ci)) rest)"

definition dkg_aggregate :: "'a tss_lib_scheme \<Rightarrow> int list \<Rightarrow> DealerContribution list \<Rightarrow> wallet_error + DkgResult" where
  "dkg_aggregate L participants qualContributions =
     ebind (key_loop L IDENTITY qualContributions) (\<lambda>C.
     ebind (aggregate_loop L qualContributions Map.empty Map.empty participants) (\<lambda>(shares, V).
       Inr \<lparr>dk_C = C, dk_shares = shares, dk_V = V, dk_qual = map dc_id qualContributions\<rparr>))"

section \<open>The second generator\<close>

definition COFACTOR :: int where "COFACTOR = 8"
definition H_SEED_DOMAIN :: string where "H_SEED_DOMAIN = ''hisoka.tss.pedersen.h''"
definition H_MAX_TRIES :: nat where "H_MAX_TRIES = 256"

fun deriveH_loop :: "'a tss_lib_scheme \<Rightarrow> int \<Rightarrow> nat \<Rightarrow> int \<Rightarrow> wallet_error + point" where
  "deriveH_loop L seed 0 ctr = Inl (WError ''gjkr: failed to derive H within the try-and-increment bound'')"
| "deriveH_loop L seed (Suc n) ctr =
     ebind (poseidon2 L [seed, ctr]) (\<lambda>candidate.
     case unpackPoint L (nat candidate) of None \<Rightarrow> deriveH_loop L seed n (ctr + 1)
     | Some unpacked \<Rightarrow> (let h = scalarMul L COFACTOR unpacked in
         if isIdentity h then deriveH_loop L seed n (ctr + 1)
         else if pointEq h (Base8 L) then deriveH_loop L seed n (ctr + 1)
         else ebind (assertInSubgroup L h ''H'') (\<lambda>_. Inr h)))"

definition deriveH :: "'a tss_lib_scheme \<Rightarrow> wallet_error + point" where
  "deriveH L = ebind (stringToFr (note_lib.truncate L) H_SEED_DOMAIN) (\<lambda>seed. deriveH_loop L (int seed) H_MAX_TRIES 0)"

text \<open>The cached promise always holds what \<^verbatim>\<open>deriveH\<close> returns.\<close>

definition getH :: "'a tss_lib_scheme \<Rightarrow> wallet_error + point" where
  "getH L = deriveH L"

section \<open>Pedersen commitments\<close>

definition pedersenCommit :: "'a tss_lib_scheme \<Rightarrow> int list \<Rightarrow> int list \<Rightarrow> wallet_error + point list" where
  "pedersenCommit L aCoeffs bCoeffs =
     (if length aCoeffs \<noteq> length bCoeffs then Inl (WError ''gjkr: Pedersen coefficient length mismatch'')
      else ebind (getH L) (\<lambda>h.
        Inr (map2 (\<lambda>a b. pointAdd L (scalarBaseMul L a) (scalarMul L b h)) aCoeffs bCoeffs)))"

definition pedersenVerifyShare :: "'a tss_lib_scheme \<Rightarrow> int \<Rightarrow> int \<Rightarrow> int \<Rightarrow> point list \<Rightarrow> wallet_error + bool" where
  "pedersenVerifyShare L id1 fShare fPrimeShare commitments = ebind (getH L) (\<lambda>h.
     let lhs = pointAdd L (scalarBaseMul L fShare) (scalarMul L fPrimeShare h);
         rhs = fst (foldl (feldman_step L id1) (IDENTITY, 1) commitments)
     in Inr (pointEq lhs rhs))"

record PedersenDealer =
  pd_id :: int
  aCoeffs :: "int list"
  bCoeffs :: "int list"
  pd_commitments :: "point list"
  aShares :: "int \<rightharpoonup> int"
  fPrimeShares :: "int \<rightharpoonup> int"

definition contribute :: "'a tss_lib_scheme \<Rightarrow> int \<Rightarrow> int list \<Rightarrow> nat \<Rightarrow> (nat \<Rightarrow> bytes) \<Rightarrow> wallet_error + PedersenDealer" where
  "contribute L id1 participants t rnd =
     (let as = map (\<lambda>k. randScalar L (rnd (2 * k))) [0..<t];
          bs = map (\<lambda>k. randScalar L (rnd (2 * k + 1))) [0..<t]
      in ebind (pedersenCommit L as bs) (\<lambda>commitments.
        Inr \<lparr>pd_id = id1, aCoeffs = as, bCoeffs = bs, pd_commitments = commitments,
          aShares = map_of (map (\<lambda>j. (j, polyEval L as j)) participants),
          fPrimeShares = map_of (map (\<lambda>j. (j, polyEval L bs j)) participants)\<rparr>))"

section \<open>The protocol\<close>

definition corrupt :: "'a note_lib_scheme \<Rightarrow> int list \<Rightarrow> PedersenDealer \<Rightarrow> PedersenDealer" where
  "corrupt L participants dealer =
     (let victim = (case List.find (\<lambda>p. p \<noteq> pd_id dealer) participants of Some p \<Rightarrow> p | None \<Rightarrow> pd_id dealer);
          corrupted = (case aShares dealer victim of Some s \<Rightarrow> s | None \<Rightarrow> 0) + 1
      in dealer\<lparr>aShares := (aShares dealer)(victim \<mapsto> modSub L corrupted)\<rparr>)"

fun dealers_loop :: "'a tss_lib_scheme \<Rightarrow> int list \<Rightarrow> nat \<Rightarrow> int set \<Rightarrow> (int \<Rightarrow> nat \<Rightarrow> bytes) \<Rightarrow> int list \<Rightarrow>
    wallet_error + PedersenDealer list" where
  "dealers_loop L participants t faults rnd [] = Inr []"
| "dealers_loop L participants t faults rnd (id1 # rest) =
     ebind (contribute L id1 participants t (rnd id1)) (\<lambda>dealer.
     ebind (dealers_loop L participants t faults rnd rest) (\<lambda>ds.
       Inr ((if id1 \<in> faults then corrupt L participants dealer else dealer) # ds)))"

fun shares_ok :: "'a tss_lib_scheme \<Rightarrow> PedersenDealer \<Rightarrow> int list \<Rightarrow> wallet_error + bool" where
  "shares_ok L dealer [] = Inr True"
| "shares_ok L dealer (j # rest) = (case (aShares dealer j, fPrimeShares dealer j) of
     (Some f, Some fPrime) \<Rightarrow> ebind (pedersenVerifyShare L j f fPrime (pd_commitments dealer)) (\<lambda>ok.
        if \<not> ok then Inr False else shares_ok L dealer rest)
   | _ \<Rightarrow> Inr False)"

fun qual_loop :: "'a tss_lib_scheme \<Rightarrow> int list \<Rightarrow> PedersenDealer list \<Rightarrow> wallet_error + PedersenDealer list" where
  "qual_loop L participants [] = Inr []"
| "qual_loop L participants (dealer # rest) =
     ebind (shares_ok L dealer participants) (\<lambda>ok.
     ebind (qual_loop L participants rest) (\<lambda>qs. Inr (if ok then dealer # qs else qs)))"

definition reveal :: "'a tss_lib_scheme \<Rightarrow> int list \<Rightarrow> int \<Rightarrow> (int \<Rightarrow> nat \<Rightarrow> bytes) \<Rightarrow> PedersenDealer \<Rightarrow>
    wallet_error + DealerContribution" where
  "reveal L participants context1 rnd dealer =
     (let commitments = feldmanCommit L (aCoeffs dealer) in
      case aCoeffs dealer of [] \<Rightarrow> Inl (WError ''TypeError'') | c0 # _ \<Rightarrow>
      ebind (first_commitment commitments) (\<lambda>com0.
      ebind (provePoP L (pd_id dealer) context1 c0 com0 (rnd (pd_id dealer) (2 * length (aCoeffs dealer)))) (\<lambda>pop.
        if \<not> (\<forall>j \<in> set participants. case aShares dealer j of None \<Rightarrow> False
             | Some f \<Rightarrow> feldmanVerifyShare L j f commitments)
        then Inl (WError ''gjkr: Feldman reveal inconsistent for dealer'')
        else ebind (verifyPoP L (pd_id dealer) context1 commitments pop) (\<lambda>ok.
          if \<not> ok then Inl (WError ''gjkr: PoP failed for QUAL dealer'')
          else Inr \<lparr>dc_id = pd_id dealer, dc_commitments = commitments, dc_pop = pop, dc_shares = aShares dealer\<rparr>))))"

definition runGjkrDkg :: "'a tss_lib_scheme \<Rightarrow> nat \<Rightarrow> nat \<Rightarrow> int \<Rightarrow> int set \<Rightarrow> (int \<Rightarrow> nat \<Rightarrow> bytes) \<Rightarrow>
    wallet_error + DkgResult" where
  "runGjkrDkg L n t context1 faults rnd =
     (let participants = map int [1..<Suc n] in
      ebind (dealers_loop L participants t faults rnd participants) (\<lambda>dealers.
      ebind (qual_loop L participants dealers) (\<lambda>qual.
        if qual = [] then Inl (WError ''gjkr: no qualified dealers'')
        else ebind (emap (reveal L participants context1 rnd) qual) (\<lambda>qualContributions.
          dkg_aggregate L participants qualContributions))))"

end
