(* ===== verification/Dkg_Sound.thy ===== *)
theory Dkg_Sound
  imports Dkg
begin

text \<open>
  What key generation achieves: honest contributions pass, contributions that pass give every participant a
  share on the polynomial of the group key, and the faulty dealers of a run are exactly the ones left out.
\<close>

section \<open>Honest contributions\<close>

lemma randScalar_range: "1 < subOrder L - 1 \<Longrightarrow> 0 < randScalar L bs \<and> randScalar L bs < subOrder L"
  using pos_mod_sign[of "subOrder L - 1"] pos_mod_bound[of "subOrder L - 1"]
  by (simp add: randScalar_def add_pos_nonneg less_diff_eq[symmetric])

lemma first_commitment_feldman: "coeffs = c0 # cs \<Longrightarrow> first_commitment (feldmanCommit L coeffs) = Inr (scalarBaseMul L c0)"
  by (simp add: first_commitment_def feldmanCommit_def)

lemma pop_total:
  assumes "tss_ok L" "field_int i" "field_int ctx" "C \<in> subgroup_points L" "R \<in> subgroup_points L"
  shows "\<exists>e. popChallenge L i ctx C R = Inr e"
  using subgroup_field[OF assms(4)] subgroup_field[OF assms(5)] assms(2,3)
    hashToScalar_Inr[of FROST_POP_DOMAIN "[i, ctx, fst C, snd C, fst R, snd R]" L]
  by (simp add: popChallenge_def)

lemma pop_complete:
  assumes ok: "tss_ok L" and f: "field_int i" "field_int ctx"
  shows "\<exists>pop. provePoP L i ctx s (scalarBaseMul L s) rnd = Inr pop \<and>
    (\<forall>rest. verifyPoP L i ctx (scalarBaseMul L s # rest) pop = Inr True)"
proof -
  note G = points_group[OF ok] and b = subgroup_base[OF ok]
  let ?k = "randScalar L rnd"
  obtain e where e: "popChallenge L i ctx (scalarBaseMul L s) (scalarBaseMul L ?k) = Inr e"
    using pop_total[OF ok f scalarBaseMul_in[OF ok] scalarBaseMul_in[OF ok]] by blast
  let ?pop = "\<lparr>pop_R = scalarBaseMul L ?k, pop_z = modSub L (?k + e * s)\<rparr>"
  have "scalarBaseMul L (modSub L (?k + e * s)) = pointAdd L (scalarBaseMul L ?k) (scalarMul L e (scalarBaseMul L s))"
    using scalar_group.mul_add[OF G b] scalar_group.mul_mul[OF G b] by (simp add: scalarBaseMul_def)
  then have "verifyPoP L i ctx (scalarBaseMul L s # rest) ?pop = Inr True" for rest
    by (simp add: verifyPoP_def first_commitment_def e)
  moreover have "provePoP L i ctx s (scalarBaseMul L s) rnd = Inr ?pop" by (simp add: provePoP_def Let_def e)
  ultimately show ?thesis by blast
qed

lemma map_of_graph: "map_of (map (\<lambda>j. (j, f j)) xs) i = (if i \<in> set xs then Some (f i) else None)"
  by (induction xs) auto

lemma dealerContribute_Inr:
  assumes ok: "tss_ok L" and f: "field_int i" "field_int ctx" and t: "0 < t"
  shows "\<exists>c. dealerContribute L i participants t ctx rnd = Inr (c, randScalar L (rnd 0)) \<and>
    dc_commitments c = feldmanCommit L (map (\<lambda>k. randScalar L (rnd k)) [0..<t]) \<and> dc_id c = i \<and>
    (\<forall>j. dc_shares c j = (if j \<in> set participants then Some (polyEval L (map (\<lambda>k. randScalar L (rnd k)) [0..<t]) j) else None)) \<and>
    verifyPoP L i ctx (dc_commitments c) (dc_pop c) = Inr True"
proof -
  obtain u where u: "t = Suc u" using t by (cases t) auto
  let ?r = "\<lambda>k. randScalar L (rnd k)"
  have cs: "map ?r [0..<t] = ?r 0 # map ?r [1..<t]" using t by (simp add: upt_conv_Cons)
  obtain pop where pop: "provePoP L i ctx (?r 0) (scalarBaseMul L (?r 0)) (rnd t) = Inr pop"
    "\<And>rest. verifyPoP L i ctx (scalarBaseMul L (?r 0) # rest) pop = Inr True"
    using pop_complete[OF ok f] by metis
  have fc: "feldmanCommit L (map ?r [0..<t]) = scalarBaseMul L (?r 0) # feldmanCommit L (map ?r [1..<t])"
    using cs by (simp add: feldmanCommit_def)
  let ?c = "\<lparr>dc_id = i, dc_commitments = feldmanCommit L (map ?r [0..<t]), dc_pop = pop,
    dc_shares = map_of (map (\<lambda>j. (j, polyEval L (map ?r [0..<t]) j)) participants)\<rparr>"
  have "dealerContribute L i participants t ctx rnd = Inr (?c, ?r 0)"
    using pop(1) fc by (simp add: dealerContribute_def Let_def cs first_commitment_def split: list.split)
  moreover have "verifyPoP L i ctx (dc_commitments ?c) (dc_pop ?c) = Inr True" using pop(2) fc by simp
  ultimately show ?thesis
    by (intro exI[of _ ?c]) (simp add: map_of_graph)
qed

lemma verifyContribution_honest:
  assumes ok: "tss_ok L" and f: "field_int i" "field_int ctx" and t: "0 < t" and j: "j \<in> set participants"
    and c: "dealerContribute L i participants t ctx rnd = Inr (c, s)"
  shows "verifyContribution L j c ctx = Inr True"
proof -
  obtain c' where c': "dealerContribute L i participants t ctx rnd = Inr (c', randScalar L (rnd 0))"
    "dc_commitments c' = feldmanCommit L (map (\<lambda>k. randScalar L (rnd k)) [0..<t])" "dc_id c' = i"
    "\<forall>j. dc_shares c' j = (if j \<in> set participants then Some (polyEval L (map (\<lambda>k. randScalar L (rnd k)) [0..<t]) j) else None)"
    "verifyPoP L i ctx (dc_commitments c') (dc_pop c') = Inr True"
    using dealerContribute_Inr[OF ok f t] by metis
  have "c = c'" using c c'(1) by simp
  moreover have "dc_commitments c' \<noteq> []" using c'(2) t by (simp add: feldmanCommit_def)
  ultimately show ?thesis
    using c' j feldman_exact[OF ok] by (simp add: verifyContribution_def polyEval_reduced)
qed

section \<open>Verified contributions\<close>

lemma key_loop_eq: "\<forall>c \<in> set cs. dc_commitments c \<noteq> [] \<Longrightarrow>
    key_loop L C cs = Inr (foldl (\<lambda>a c. pointAdd L a (hd (dc_commitments c))) C cs)"
proof (induction cs arbitrary: C)
  case (Cons c cs)
  then have "first_commitment (dc_commitments c) = Inr (hd (dc_commitments c))"
    by (cases "dc_commitments c") (simp_all add: first_commitment_def)
  with Cons show ?case by simp
qed simp

lemma share_loop_eq: "\<forall>c \<in> set cs. dc_shares c i \<noteq> None \<Longrightarrow>
    share_loop L i ci cs = Inr (foldl (\<lambda>a c. modSub L (a + the (dc_shares c i))) ci cs)"
  by (induction cs arbitrary: ci) auto

lemma aggregate_loop_eq: "\<forall>i \<in> set ps. share_loop L i 0 qual = Inr (f i) \<Longrightarrow>
    aggregate_loop L qual shares V ps =
      Inr (\<lambda>i. if i \<in> set ps then Some (f i) else shares i, \<lambda>i. if i \<in> set ps then Some (scalarBaseMul L (f i)) else V i)"
  by (induction ps arbitrary: shares V) (auto simp: fun_eq_iff)

text \<open>Every participant verified the contribution. Verification does not look at the group of the commitments
  nor at their number, so the lemmas below ask for both beside it.\<close>

definition contribution_ok :: "'a tss_lib_scheme \<Rightarrow> int list \<Rightarrow> int \<Rightarrow> DealerContribution \<Rightarrow> bool" where
  "contribution_ok L participants ctx c \<longleftrightarrow> (\<forall>j \<in> set participants. verifyContribution L j c ctx = Inr True)"

lemma verifyContribution_share:
  assumes ok: "tss_ok L" and c: "set (dc_commitments c) \<subseteq> subgroup_points L" and v: "verifyContribution L j c ctx = Inr True"
  shows "dc_commitments c \<noteq> [] \<and> (\<exists>s. dc_shares c j = Some s \<and> scalarBaseMul L s = pt_eval L j (dc_commitments c))"
  using v feldmanVerifyShare_iff[OF ok c] by (auto simp: verifyContribution_def split: if_splits option.splits)

abbreviation group_polynomial :: "'a tss_lib_scheme \<Rightarrow> DealerContribution list \<Rightarrow> point list" where
  "group_polynomial L cs \<equiv> foldr (padd (pointAdd L)) (map dc_commitments cs) []"

lemma length_group_polynomial: "\<forall>c \<in> set cs. length (dc_commitments c) \<le> t \<Longrightarrow> length (group_polynomial L cs) \<le> t"
  by (induction cs) (auto simp: length_padd)

lemma fold_base_in: "tss_ok L \<Longrightarrow> foldl (\<lambda>P c. pointAdd L P (scalarBaseMul L (f c))) IDENTITY cs \<in> subgroup_points L"
  by (rule scalar_group.fold_in[OF points_group scalar_group.idn_in[OF points_group]]) (simp_all add: scalarBaseMul_in)

lemma scalarBaseMul_sum:
  assumes ok: "tss_ok L"
  shows "scalarBaseMul L (foldl (\<lambda>a c. modSub L (a + f c)) a cs) =
    pointAdd L (scalarBaseMul L a) (foldl (\<lambda>P c. pointAdd L P (scalarBaseMul L (f c))) IDENTITY cs)"
proof (induction cs arbitrary: a)
  case Nil
  then show ?case using scalar_group.add_idn[OF points_group[OF ok] scalarBaseMul_in[OF ok]] by simp
next
  case (Cons c cs)
  note G = points_group[OF ok] and b = subgroup_base[OF ok]
  have m: "scalarBaseMul L (modSub L (a + f c)) = pointAdd L (scalarBaseMul L a) (scalarBaseMul L (f c))"
    using scalar_group.mul_add[OF G b] by (simp add: scalarBaseMul_def)
  have "foldl (\<lambda>P c. pointAdd L P (scalarBaseMul L (f c))) IDENTITY (c # cs) =
      pointAdd L (scalarBaseMul L (f c)) (foldl (\<lambda>P c. pointAdd L P (scalarBaseMul L (f c))) IDENTITY cs)"
    using scalarBaseMul_in[OF ok] by (intro scalar_group.fold_Cons[OF G]) blast
  then show ?case
    using Cons m scalarBaseMul_in[OF ok] fold_base_in[OF ok, of f cs]
    by (simp add: scalar_group.assoc[OF G])
qed

lemma dkg_aggregate_sound:
  assumes ok: "tss_ok L" and cs: "\<forall>c \<in> set cs. contribution_ok L participants ctx c"
    and sub: "\<forall>c \<in> set cs. set (dc_commitments c) \<subseteq> subgroup_points L" and ne: "cs \<noteq> []" "participants \<noteq> []"
  shows "\<exists>res. dkg_aggregate L participants cs = Inr res \<and> dk_C res = hd (group_polynomial L cs) \<and>
    group_polynomial L cs \<noteq> [] \<and> set (group_polynomial L cs) \<subseteq> subgroup_points L \<and> dk_qual res = map dc_id cs \<and>
    (\<forall>i \<in> set participants. \<exists>s. dk_shares res i = Some s \<and> dk_V res i = Some (scalarBaseMul L s) \<and>
      scalarBaseMul L s = pt_eval L i (group_polynomial L cs))"
proof -
  note G = points_group[OF ok]
  have V: "dc_commitments c \<noteq> [] \<and> (\<exists>s. dc_shares c j = Some s \<and> scalarBaseMul L s = pt_eval L j (dc_commitments c))"
    if "c \<in> set cs" "j \<in> set participants" for c j
  proof (rule verifyContribution_share[OF ok])
    show "set (dc_commitments c) \<subseteq> subgroup_points L" "verifyContribution L j c ctx = Inr True"
      using cs sub that by (simp_all add: contribution_ok_def)
  qed
  have in_G: "set (dc_commitments c) \<subseteq> subgroup_points L" if "c \<in> set cs" for c using sub that by blast
  have nonempty: "dc_commitments c \<noteq> []" if "c \<in> set cs" for c using V[OF that] ne(2) by (meson hd_in_set)
  let ?f = "\<lambda>i. foldl (\<lambda>a c. modSub L (a + the (dc_shares c i))) 0 cs"
  have sh: "\<forall>i \<in> set participants. share_loop L i 0 cs = Inr (?f i)"
    using V by (intro ballI share_loop_eq) fastforce
  have C: "foldl (\<lambda>a c. pointAdd L a (hd (dc_commitments c))) IDENTITY cs = hd (group_polynomial L cs)"
    and P: "group_polynomial L cs \<noteq> []"
    using scalar_group.sum_heads[OF G, of "map dc_commitments cs"] in_G nonempty ne(1) by (simp_all add: foldl_map)
  have S: "set (group_polynomial L cs) \<subseteq> subgroup_points L"
    "pt_eval L i (group_polynomial L cs) = foldl (\<lambda>a c. pointAdd L a (pt_eval L i (dc_commitments c))) IDENTITY cs" for i
    using scalar_group.sum_polynomials[OF G, of "map dc_commitments cs" i] in_G by (simp_all add: foldl_map)
  have val: "scalarBaseMul L (?f i) = pt_eval L i (group_polynomial L cs)" if i: "i \<in> set participants" for i
  proof -
    have "foldl (\<lambda>P c. pointAdd L P (scalarBaseMul L (the (dc_shares c i)))) IDENTITY cs =
        foldl (\<lambda>a c. pointAdd L a (pt_eval L i (dc_commitments c))) IDENTITY cs"
      using V[OF _ i] by (intro foldl_cong) fastforce+
    moreover have "scalarBaseMul L 0 = IDENTITY"
      using scalar_group.mul_0[OF G subgroup_base[OF ok]] by (simp add: scalarBaseMul_def)
    moreover have "foldl (\<lambda>P c. pointAdd L P (scalarBaseMul L (the (dc_shares c i)))) IDENTITY cs \<in> subgroup_points L"
      by (rule fold_base_in[OF ok])
    ultimately show ?thesis using scalarBaseMul_sum[OF ok, of "\<lambda>c. the (dc_shares c i)" 0 cs] S(2)[of i]
        scalar_group.idn_add[OF G] by simp
  qed
  let ?res = "\<lparr>dk_C = hd (group_polynomial L cs), dk_shares = (\<lambda>i. if i \<in> set participants then Some (?f i) else None),
     dk_V = (\<lambda>i. if i \<in> set participants then Some (scalarBaseMul L (?f i)) else None), dk_qual = map dc_id cs\<rparr>"
  have "dkg_aggregate L participants cs = Inr ?res"
    using key_loop_eq[of cs L IDENTITY] nonempty C aggregate_loop_eq[OF sh, of Map.empty Map.empty]
    by (simp add: dkg_aggregate_def)
  then show ?thesis using P S(1) val by (intro exI[of _ ?res]) simp
qed

text \<open>Enough shares reconstruct the secret of the group key.\<close>

lemma reconstruct_key:
  assumes ok: "tss_ok L" and q: "residues_distinct (subOrder L) quorum"
    and P: "set Cs \<subseteq> subgroup_points L" "Cs \<noteq> []" "length Cs \<le> length quorum"
    and sh: "\<forall>i \<in> set quorum. \<exists>s. shares i = Some s \<and> scalarBaseMul L s = pt_eval L i Cs"
  shows "\<exists>c. interpolateAtZero L shares quorum = Inr c \<and> scalarBaseMul L c = hd Cs"
proof -
  note G = points_group[OF ok] and b = subgroup_base[OF ok]
  obtain w where w: "\<forall>i \<in> set quorum. lagrangeAtZero L i quorum = Inr (w i) \<and> lag_weight (subOrder L) (set quorum) i (w i)"
    using lagrangeAtZero_weight[OF tss_ok_prime[OF ok] q] by (metis bchoice)
  let ?c = "foldl (\<lambda>a i. modSub L (a + modSub L (w i * the (shares i)))) 0 quorum"
  have c: "interpolateAtZero L shares quorum = Inr ?c"
    unfolding interpolateAtZero_def using sh w by (intro interpolate_loop_eq) (auto simp: modSub_def)
  have step: "scalarBaseMul L (modSub L (w i * the (shares i))) = scalarMul L (w i) (pt_eval L i Cs)" if i: "i \<in> set quorum" for i
  proof -
    obtain s where "shares i = Some s" "scalarBaseMul L s = pt_eval L i Cs" using bspec[OF sh i] by (elim exE conjE)
    then show ?thesis using scalar_group.mul_mul[OF G b, of "w i" s] by (simp add: scalarBaseMul_def)
  qed
  have "scalarBaseMul L ?c = pointAdd L IDENTITY (foldl (\<lambda>P i. pointAdd L P (scalarBaseMul L (modSub L (w i * the (shares i))))) IDENTITY quorum)"
    using scalarBaseMul_sum[OF ok, of "\<lambda>i. modSub L (w i * the (shares i))" 0 quorum] scalar_group.mul_0[OF G b]
    by (simp add: scalarBaseMul_def)
  also have "\<dots> = foldl (\<lambda>P i. pointAdd L P (scalarBaseMul L (modSub L (w i * the (shares i))))) IDENTITY quorum"
    by (rule scalar_group.idn_add[OF G fold_base_in[OF ok]])
  also have "\<dots> = foldl (\<lambda>P i. pointAdd L P (scalarMul L (w i) (pt_eval L i Cs))) IDENTITY quorum"
    using step by (intro foldl_cong) simp_all
  also have "\<dots> = hd Cs"
    using P w residues_distinctD[OF q] by (intro scalar_group.interpolate[OF G tss_ok_prime[OF ok]]) auto
  finally show ?thesis using c by blast
qed

end
