(* ===== verification/Gjkr_Run.thy ===== *)
theory Gjkr_Run
  imports Dkg_Sound
begin

text \<open>
  A run of \<^verbatim>\<open>runGjkrDkg\<close> with faulty dealers, from the draws of the dealers to the shares and the group key.
\<close>

section \<open>The second generator\<close>

definition unpack_ok :: "'a tss_lib_scheme \<Rightarrow> bool" where
  "unpack_ok L \<longleftrightarrow> (\<forall>x P. unpackPoint L x = Some P \<longrightarrow> curve_point L P)"

lemma deriveH_loop_in:
  assumes ok: "tss_ok L" and u: "unpack_ok L"
  shows "deriveH_loop L seed n ctr = Inr h \<Longrightarrow> h \<in> subgroup_points L \<and> h \<noteq> IDENTITY \<and> h \<noteq> Base8 L"
proof (induction n arbitrary: ctr)
  case (Suc n)
  obtain cand where cand: "poseidon2 L [seed, ctr] = Inr cand"
    using Suc.prems by auto
  show ?case
  proof (cases "unpackPoint L (nat cand)")
    case None
    then show ?thesis using Suc cand by simp
  next
    case (Some P)
    let ?h = "scalarMul L COFACTOR P"
    have P: "curve_point L P" using u Some unfolding unpack_ok_def by blast
    have h: "curve_point L ?h"
    proof -
      have "int (nat (modSub L COFACTOR)) = modSub L COFACTOR"
        using tss_ok_order[OF ok] by (simp add: modSub_def)
      then show ?thesis using curve_mul_nat[OF ok P, of "nat (modSub L COFACTOR)"] by (simp add: scalarMul_def)
    qed
    have step: "deriveH_loop L seed (Suc n) ctr = (if isIdentity ?h \<or> ?h = Base8 L
        then deriveH_loop L seed n (ctr + 1) else ebind (assertInSubgroup L ?h ''H'') (\<lambda>_. Inr ?h))"
      using cand Some by (simp add: Let_def)
    show ?thesis
    proof (cases "isIdentity ?h \<or> ?h = Base8 L")
      case True
      then have "deriveH_loop L seed n (ctr + 1) = Inr h" using Suc.prems step by (simp only: if_True)
      then show ?thesis by (rule Suc.IH)
    next
      case False
      then have "ebind (assertInSubgroup L ?h ''H'') (\<lambda>_. Inr ?h) = Inr h" using Suc.prems step by (simp only: if_False)
      then have e: "h = ?h" "assertInSubgroup L ?h ''H'' = Inr ()" by (cases "assertInSubgroup L ?h ''H''"; simp)+
      then have "inSubgroup L ?h" by (simp add: assertInSubgroup_def split: if_splits)
      moreover have "?h \<noteq> IDENTITY" using False by (auto simp: isIdentity_def IDENTITY_def)
      ultimately show ?thesis using e(1) h False by (simp add: subgroup_points_def)
    qed
  qed
qed simp

lemma getH_in: "tss_ok L \<Longrightarrow> unpack_ok L \<Longrightarrow> getH L = Inr h \<Longrightarrow> h \<in> subgroup_points L"
  unfolding getH_def deriveH_def by (elim ebind_Inr_iff[THEN iffD1, elim_format] exE conjE) (blast dest: deriveH_loop_in)

section \<open>Pedersen shares\<close>

lemma pedersen_exact:
  assumes ok: "tss_ok L" and h: "getH L = Inr h" "h \<in> subgroup_points L"
    and len: "length as = length bs"
    and coms: "pedersenCommit L as bs = Inr coms"
  shows "pedersenVerifyShare L j f (polyEval L bs j) coms = Inr (modSub L f = polyEval L as j)"
proof -
  note G = points_group[OF ok] and b = subgroup_base[OF ok]
  note in_G = scalar_group.mul_in[OF G]
  let ?A = "map (scalarBaseMul L) as" and ?B = "map (\<lambda>b. scalarMul L b h) bs"
  have coms': "coms = map2 (pointAdd L) ?A ?B"
    using coms len h(1) by (auto simp: pedersenCommit_def zip_map_map comp_def case_prod_beta)
  have A: "set ?A \<subseteq> subgroup_points L" "set ?B \<subseteq> subgroup_points L" using scalarBaseMul_in[OF ok] in_G[OF h(2)] by auto
  have C: "set coms \<subseteq> subgroup_points L"
  proof
    fix P assume "P \<in> set coms"
    then obtain z where z: "z \<in> set (zip ?A ?B)" "P = (case z of (x, y) \<Rightarrow> pointAdd L x y)"
      unfolding coms' set_map by (elim imageE)
    obtain a b where ab: "z = (a, b)" by (cases z)
    have "P = pointAdd L a b" "a \<in> set ?A" "b \<in> set ?B"
      using z ab set_zip_leftD[of a b ?A ?B] set_zip_rightD[of a b ?A ?B] by (simp_all only: prod.case)
    then show "P \<in> subgroup_points L" using A scalar_group.add_in[OF G, of a b] by blast
  qed
  have "pt_eval L j coms = pointAdd L (pt_eval L j ?A) (pt_eval L j ?B)"
    unfolding coms' by (rule scalar_group.horner_add[OF G _ A]) (simp add: len)
  also have "pt_eval L j ?A = scalarBaseMul L (polyEval L as j)"
    using feldman_pt_eval[OF ok, of j as] by (simp add: feldmanCommit_def)
  also have "pt_eval L j ?B = scalarMul L (polyEval L bs j) h" by (rule pt_eval_zq[OF ok h(2)])
  finally have e: "pt_eval L j coms = pointAdd L (scalarBaseMul L (polyEval L as j)) (scalarMul L (polyEval L bs j) h)" .
  have "fst (foldl (feldman_step L j) (IDENTITY, 1) coms) = pt_eval L j coms"
    using feldman_fold[OF ok C scalar_group.idn_in[OF G], of j 1] scalar_group.horner_in[OF G C, of j]
      scalar_group.idn_add[OF G] scalar_group.mul_1[OF G] by simp
  moreover have "pointAdd L (scalarBaseMul L f) (scalarMul L (polyEval L bs j) h) =
      pointAdd L (scalarBaseMul L (polyEval L as j)) (scalarMul L (polyEval L bs j) h) \<longleftrightarrow>
      scalarBaseMul L f = scalarBaseMul L (polyEval L as j)"
    using scalar_group.cancel_iff[OF G in_G[OF h(2)] scalarBaseMul_in[OF ok] scalarBaseMul_in[OF ok]]
      scalar_group.comm[OF G scalarBaseMul_in[OF ok] in_G[OF h(2)]] by simp
  ultimately show ?thesis
    using h(1) by (simp add: pedersenVerifyShare_def e scalarBaseMul_inj[OF ok] polyEval_reduced)
qed

section \<open>Dealers\<close>

definition drawn :: "'a note_lib_scheme \<Rightarrow> (nat \<Rightarrow> bytes) \<Rightarrow> nat \<Rightarrow> nat \<Rightarrow> int list" where
  "drawn L rnd off t = map (\<lambda>k. randScalar L (rnd (2 * k + off))) [0..<t]"

definition honest_dealer :: "'a tss_lib_scheme \<Rightarrow> int list \<Rightarrow> nat \<Rightarrow> (int \<Rightarrow> nat \<Rightarrow> bytes) \<Rightarrow> PedersenDealer \<Rightarrow> bool" where
  "honest_dealer L ps t rnd d \<longleftrightarrow> aCoeffs d = drawn L (rnd (pd_id d)) 0 t \<and> bCoeffs d = drawn L (rnd (pd_id d)) 1 t \<and>
     pedersenCommit L (aCoeffs d) (bCoeffs d) = Inr (pd_commitments d) \<and>
     (\<forall>j. aShares d j = (if j \<in> set ps then Some (polyEval L (aCoeffs d) j) else None)) \<and>
     (\<forall>j. fPrimeShares d j = (if j \<in> set ps then Some (polyEval L (bCoeffs d) j) else None))"

lemma honest_dealerD:
  assumes "honest_dealer L ps t rnd d"
  shows "length (aCoeffs d) = t" "length (aCoeffs d) = length (bCoeffs d)"
    "pedersenCommit L (aCoeffs d) (bCoeffs d) = Inr (pd_commitments d)"
    "j \<in> set ps \<Longrightarrow> aShares d j = Some (polyEval L (aCoeffs d) j)"
    "j \<in> set ps \<Longrightarrow> fPrimeShares d j = Some (polyEval L (bCoeffs d) j)"
proof -
  have a: "aCoeffs d = drawn L (rnd (pd_id d)) 0 t" and b: "bCoeffs d = drawn L (rnd (pd_id d)) 1 t"
    and c: "pedersenCommit L (aCoeffs d) (bCoeffs d) = Inr (pd_commitments d)"
    and s: "\<forall>j. aShares d j = (if j \<in> set ps then Some (polyEval L (aCoeffs d) j) else None)"
      "\<forall>j. fPrimeShares d j = (if j \<in> set ps then Some (polyEval L (bCoeffs d) j) else None)"
    using assms unfolding honest_dealer_def by blast+
  show "length (aCoeffs d) = t" unfolding a by (simp add: drawn_def)
  show "length (aCoeffs d) = length (bCoeffs d)" unfolding a b by (simp add: drawn_def)
  show "pedersenCommit L (aCoeffs d) (bCoeffs d) = Inr (pd_commitments d)" by (rule c)
  show "j \<in> set ps \<Longrightarrow> aShares d j = Some (polyEval L (aCoeffs d) j)"
    "j \<in> set ps \<Longrightarrow> fPrimeShares d j = Some (polyEval L (bCoeffs d) j)" using s by simp_all
qed

lemma contribute_Inr:
  assumes h: "getH L = Inr h"
  shows "\<exists>d. contribute L i ps t (rnd i) = Inr d \<and> pd_id d = i \<and> honest_dealer L ps t rnd d"
proof -
  let ?as = "drawn L (rnd i) 0 t" and ?bs = "drawn L (rnd i) 1 t"
  obtain coms where c: "pedersenCommit L ?as ?bs = Inr coms" by (simp add: pedersenCommit_def h drawn_def)
  let ?d = "\<lparr>pd_id = i, aCoeffs = ?as, bCoeffs = ?bs, pd_commitments = coms,
    aShares = map_of (map (\<lambda>j. (j, polyEval L ?as j)) ps), fPrimeShares = map_of (map (\<lambda>j. (j, polyEval L ?bs j)) ps)\<rparr>"
  have "contribute L i ps t (rnd i) = Inr ?d" using c by (simp add: contribute_def Let_def drawn_def)
  moreover have "honest_dealer L ps t rnd ?d" using c by (simp add: honest_dealer_def map_of_graph)
  ultimately show ?thesis by (intro exI[of _ ?d]) simp
qed

lemma dealers_loop_Inr:
  assumes h: "getH L = Inr h"
  shows "\<exists>ds. dealers_loop L ps t faults rnd ids =
      Inr (map (\<lambda>d. if pd_id d \<in> faults then corrupt L ps d else d) ds) \<and>
    map pd_id ds = ids \<and> (\<forall>d \<in> set ds. honest_dealer L ps t rnd d)"
proof (induction ids)
  case (Cons i ids)
  then obtain ds where ds: "dealers_loop L ps t faults rnd ids =
      Inr (map (\<lambda>d. if pd_id d \<in> faults then corrupt L ps d else d) ds)" "map pd_id ds = ids"
    "\<forall>d \<in> set ds. honest_dealer L ps t rnd d" by blast
  obtain d where d: "contribute L i ps t (rnd i) = Inr d" "pd_id d = i" "honest_dealer L ps t rnd d"
    using contribute_Inr[OF h] by metis
  show ?case using ds d by (intro exI[of _ "d # ds"]) simp
qed simp

lemma shares_ok_honest:
  assumes ok: "tss_ok L" and h: "getH L = Inr h" "h \<in> subgroup_points L" and d: "honest_dealer L ps t rnd d"
  shows "set js \<subseteq> set ps \<Longrightarrow> shares_ok L d js = Inr True"
proof (induction js)
  case (Cons j js)
  note D = honest_dealerD[OF d]
  have "pedersenVerifyShare L j (polyEval L (aCoeffs d) j) (polyEval L (bCoeffs d) j) (pd_commitments d) = Inr True"
    using pedersen_exact[OF ok h D(2,3)] by (simp add: polyEval_reduced)
  then show ?case using Cons D(4,5)[of j] by simp
qed simp

lemma corrupt_victim:
  assumes d: "honest_dealer L ps t rnd d" and i: "pd_id d \<in> set ps"
  obtains v where "v \<in> set ps"
    "corrupt L ps d = d\<lparr>aShares := (aShares d)(v \<mapsto> modSub L (polyEval L (aCoeffs d) v + 1))\<rparr>"
proof -
  let ?v = "case List.find (\<lambda>p. p \<noteq> pd_id d) ps of Some p \<Rightarrow> p | None \<Rightarrow> pd_id d"
  have v: "?v \<in> set ps" using i by (auto split: option.split simp: find_Some_iff)
  then have "aShares d ?v = Some (polyEval L (aCoeffs d) ?v)" by (rule honest_dealerD(4)[OF d])
  with v that show thesis by (simp add: corrupt_def Let_def)
qed

lemma shares_ok_corrupt:
  assumes ok: "tss_ok L" and h: "getH L = Inr h" "h \<in> subgroup_points L" and d: "honest_dealer L ps t rnd d"
    and i: "pd_id d \<in> set ps"
  shows "shares_ok L (corrupt L ps d) ps = Inr False"
proof -
  obtain v where v: "v \<in> set ps"
    "corrupt L ps d = d\<lparr>aShares := (aShares d)(v \<mapsto> modSub L (polyEval L (aCoeffs d) v + 1))\<rparr>"
    using corrupt_victim[OF d i] by blast
  note D = honest_dealerD[OF d]
  have one: "modSub L (polyEval L (aCoeffs d) v + 1) \<noteq> polyEval L (aCoeffs d) v"
  proof
    assume "modSub L (polyEval L (aCoeffs d) v + 1) = polyEval L (aCoeffs d) v"
    then have "(polyEval L (aCoeffs d) v + 1) mod subOrder L = polyEval L (aCoeffs d) v mod subOrder L"
      using polyEval_reduced[of L "aCoeffs d" v] by (simp add: modSub_def)
    then have "subOrder L dvd 1" by (simp add: mod_eq_dvd_iff)
    then show False using tss_ok_order[OF ok] by (simp add: zdvd1_eq)
  qed
  have "set js \<subseteq> set ps \<Longrightarrow> shares_ok L (corrupt L ps d) js = Inr (v \<notin> set js)" for js
  proof (induction js)
    case (Cons j js)
    let ?f = "if j = v then modSub L (polyEval L (aCoeffs d) v + 1) else polyEval L (aCoeffs d) j"
    have "pedersenVerifyShare L j ?f (polyEval L (bCoeffs d) j) (pd_commitments d) = Inr (j \<noteq> v)"
      using pedersen_exact[OF ok h D(2,3), of j ?f] one by (auto simp: polyEval_reduced)
    moreover have "aShares (corrupt L ps d) j = Some ?f" "fPrimeShares (corrupt L ps d) j = Some (polyEval L (bCoeffs d) j)"
      "pd_commitments (corrupt L ps d) = pd_commitments d"
      using v(2) D(4,5)[of j] Cons.prems by auto
    ultimately show ?case using Cons by auto
  qed simp
  from this[of ps] v(1) show ?thesis by simp
qed

text \<open>The dealers left out are exactly the faulty ones.\<close>

lemma qual_loop_eq:
  assumes ok: "tss_ok L" and h: "getH L = Inr h" "h \<in> subgroup_points L"
  shows "\<forall>d \<in> set ds. honest_dealer L ps t rnd d \<and> pd_id d \<in> set ps \<Longrightarrow>
    qual_loop L ps (map (\<lambda>d. if pd_id d \<in> faults then corrupt L ps d else d) ds) = Inr (filter (\<lambda>d. pd_id d \<notin> faults) ds)"
proof (induction ds)
  case (Cons d ds)
  then have "shares_ok L (if pd_id d \<in> faults then corrupt L ps d else d) ps = Inr (pd_id d \<notin> faults)"
    using shares_ok_honest[OF ok h, of ps t rnd d ps] shares_ok_corrupt[OF ok h, of ps t rnd d] by simp
  with Cons show ?case by simp
qed simp

section \<open>The reveal\<close>

lemma reveal_Inr:
  assumes ok: "tss_ok L" and d: "honest_dealer L ps t rnd d" and t: "0 < t" and f: "field_int (pd_id d)" "field_int ctx"
  shows "\<exists>c. reveal L ps ctx rnd d = Inr c \<and> dc_id c = pd_id d \<and> dc_commitments c = feldmanCommit L (aCoeffs d) \<and>
    contribution_ok L ps ctx c"
proof -
  have len: "length (aCoeffs d) = t" by (rule honest_dealerD(1)[OF d])
  then obtain c0 as where as: "aCoeffs d = c0 # as" using t by (cases "aCoeffs d") auto
  have fc: "feldmanCommit L (aCoeffs d) = scalarBaseMul L c0 # feldmanCommit L as" by (simp add: as feldmanCommit_def)
  obtain pop where pop: "provePoP L (pd_id d) ctx c0 (scalarBaseMul L c0) (rnd (pd_id d) (2 * length (aCoeffs d))) = Inr pop"
    "\<And>rest. verifyPoP L (pd_id d) ctx (scalarBaseMul L c0 # rest) pop = Inr True"
    using pop_complete[OF ok f] by metis
  have sh: "\<And>j. j \<in> set ps \<Longrightarrow> aShares d j = Some (polyEval L (aCoeffs d) j)" by (rule honest_dealerD(4)[OF d])
  have fv: "feldmanVerifyShare L j (polyEval L (aCoeffs d) j) (feldmanCommit L (aCoeffs d))" for j
    using feldman_exact[OF ok] by (simp add: polyEval_reduced)
  have all: "\<forall>j \<in> set ps. case aShares d j of None \<Rightarrow> False | Some f \<Rightarrow> feldmanVerifyShare L j f (feldmanCommit L (aCoeffs d))"
    using sh fv by simp
  let ?c = "\<lparr>dc_id = pd_id d, dc_commitments = feldmanCommit L (aCoeffs d), dc_pop = pop, dc_shares = aShares d\<rparr>"
  have vp: "verifyPoP L (pd_id d) ctx (feldmanCommit L (aCoeffs d)) pop = Inr True" using pop(2) fc by simp
  have fc': "first_commitment (feldmanCommit L (aCoeffs d)) = Inr (scalarBaseMul L c0)" by (simp add: fc first_commitment_def)
  have "reveal L ps ctx rnd d = ebind (first_commitment (feldmanCommit L (aCoeffs d))) (\<lambda>com0.
      ebind (provePoP L (pd_id d) ctx c0 com0 (rnd (pd_id d) (2 * length (aCoeffs d)))) (\<lambda>pop.
        ebind (verifyPoP L (pd_id d) ctx (feldmanCommit L (aCoeffs d)) pop) (\<lambda>ok.
          if \<not> ok then Inl (WError ''gjkr: PoP failed for QUAL dealer'')
          else Inr \<lparr>dc_id = pd_id d, dc_commitments = feldmanCommit L (aCoeffs d), dc_pop = pop, dc_shares = aShares d\<rparr>)))"
    using all unfolding reveal_def Let_def as list.case by simp
  then have "reveal L ps ctx rnd d = Inr ?c" by (simp add: fc' pop(1) vp)
  moreover have "contribution_ok L ps ctx ?c"
    unfolding contribution_ok_def
  proof
    fix j assume "j \<in> set ps"
    then show "verifyContribution L j ?c ctx = Inr True"
      using sh fv vp fc by (simp add: verifyContribution_def)
  qed
  ultimately show ?thesis by (intro exI[of _ ?c]) simp
qed

lemma emap_reveal:
  assumes "\<forall>d \<in> set ds. \<exists>c. f d = Inr c \<and> P d c"
  shows "\<exists>cs. emap f ds = Inr cs \<and> list_all2 P ds cs"
  using assms
proof (induction ds)
  case (Cons d ds)
  then obtain cs c where "emap f ds = Inr cs" "list_all2 P ds cs" "f d = Inr c" "P d c" by auto
  then show ?case by (intro exI[of _ "c # cs"]) simp
qed simp

section \<open>The run\<close>

text \<open>The polynomial of the group key: the sum of those the qualified dealers drew.\<close>

definition drawn_polynomial :: "'a tss_lib_scheme \<Rightarrow> nat \<Rightarrow> nat \<Rightarrow> int set \<Rightarrow> (int \<Rightarrow> nat \<Rightarrow> bytes) \<Rightarrow> point list" where
  "drawn_polynomial L n t faults rnd = foldr (padd (pointAdd L))
     (map (\<lambda>i. feldmanCommit L (drawn L (rnd i) 0 t)) (filter (\<lambda>i. i \<notin> faults) (map int [1..<Suc n]))) []"

lemma gjkr_run:
  assumes ok: "tss_ok L" and u: "unpack_ok L" and h: "getH L = Inr h" and t: "0 < t" and ctx: "field_int ctx"
    and n: "int n < int FR_MODULUS" and good: "g \<in> set (map int [1..<Suc n])" "g \<notin> faults"
  shows "\<exists>res Cs. runGjkrDkg L n t ctx faults rnd = Inr res \<and>
    dk_qual res = filter (\<lambda>i. i \<notin> faults) (map int [1..<Suc n]) \<and> Cs = drawn_polynomial L n t faults rnd \<and>
    set Cs \<subseteq> subgroup_points L \<and> Cs \<noteq> [] \<and> length Cs \<le> t \<and> dk_C res = hd Cs \<and>
    (\<forall>i \<in> set (map int [1..<Suc n]). \<exists>s. dk_shares res i = Some s \<and> dk_V res i = Some (scalarBaseMul L s) \<and>
      scalarBaseMul L s = pt_eval L i Cs)"
proof -
  let ?ps = "map int [1..<Suc n]"
  have hG: "h \<in> subgroup_points L" by (rule getH_in[OF ok u h])
  obtain ds where ds: "dealers_loop L ?ps t faults rnd ?ps = Inr (map (\<lambda>d. if pd_id d \<in> faults then corrupt L ?ps d else d) ds)"
    "map pd_id ds = ?ps" "\<forall>d \<in> set ds. honest_dealer L ?ps t rnd d"
    using dealers_loop_Inr[OF h, where ps = ?ps and t = t and faults = faults and rnd = rnd and ids = ?ps] by blast
  have idin: "\<forall>d \<in> set ds. pd_id d \<in> set ?ps" using ds(2) by (metis imageI set_map)
  let ?qual = "filter (\<lambda>d. pd_id d \<notin> faults) ds"
  have q: "qual_loop L ?ps (map (\<lambda>d. if pd_id d \<in> faults then corrupt L ?ps d else d) ds) = Inr ?qual"
    by (rule qual_loop_eq[OF ok h hG]) (use ds(3) idin in blast)
  have ne: "?qual \<noteq> []" using good ds(2) by (metis (mono_tags, lifting) filter_empty_conv imageE set_map)
  have fid: "field_int (pd_id d)" if "d \<in> set ds" for d
    using idin that n by (auto simp: field_int_def)
  have "\<forall>d \<in> set ?qual. \<exists>c. reveal L ?ps ctx rnd d = Inr c \<and>
      (dc_id c = pd_id d \<and> dc_commitments c = feldmanCommit L (drawn L (rnd (pd_id d)) 0 t) \<and> contribution_ok L ?ps ctx c)"
  proof
    fix d assume d: "d \<in> set ?qual"
    then have "honest_dealer L ?ps t rnd d" "field_int (pd_id d)" using ds(3) fid by simp_all
    moreover from this(1) have "aCoeffs d = drawn L (rnd (pd_id d)) 0 t" unfolding honest_dealer_def by blast
    ultimately show "\<exists>c. reveal L ?ps ctx rnd d = Inr c \<and>
      (dc_id c = pd_id d \<and> dc_commitments c = feldmanCommit L (drawn L (rnd (pd_id d)) 0 t) \<and> contribution_ok L ?ps ctx c)"
      using reveal_Inr[OF ok _ t _ ctx, of ?ps rnd d] by metis
  qed
  from emap_reveal[OF this] obtain cs where cs: "emap (reveal L ?ps ctx rnd) ?qual = Inr cs"
    "list_all2 (\<lambda>d c. dc_id c = pd_id d \<and> dc_commitments c = feldmanCommit L (drawn L (rnd (pd_id d)) 0 t) \<and> contribution_ok L ?ps ctx c) ?qual cs" by blast
  have C: "\<forall>c \<in> set cs. contribution_ok L ?ps ctx c" "\<forall>c \<in> set cs. length (dc_commitments c) \<le> t"
    using cs(2) by (auto simp: list_all2_conv_all_nth in_set_conv_nth feldmanCommit_def drawn_def)
  have ids: "map dc_id cs = map pd_id ?qual"
    using cs(2) by (intro nth_equalityI) (auto simp: list_all2_conv_all_nth)
  have coms: "map dc_commitments cs = map (\<lambda>i. feldmanCommit L (drawn L (rnd i) 0 t)) (map pd_id ?qual)"
    using cs(2) by (intro nth_equalityI) (auto simp: list_all2_conv_all_nth)
  have sub: "\<forall>c \<in> set cs. set (dc_commitments c) \<subseteq> subgroup_points L"
  proof
    fix c assume "c \<in> set cs"
    then have "dc_commitments c \<in> set (map dc_commitments cs)" by simp
    then show "set (dc_commitments c) \<subseteq> subgroup_points L" unfolding coms set_map using feldmanCommit_in[OF ok] by (elim imageE) (simp only: )
  qed
  have "cs \<noteq> []" "?ps \<noteq> []" using ids ne good(1) by auto
  from dkg_aggregate_sound[OF ok C(1) sub this] obtain res where res: "dkg_aggregate L ?ps cs = Inr res"
    "dk_C res = hd (group_polynomial L cs)" "group_polynomial L cs \<noteq> []" "set (group_polynomial L cs) \<subseteq> subgroup_points L"
    "dk_qual res = map dc_id cs"
    "\<forall>i \<in> set ?ps. \<exists>s. dk_shares res i = Some s \<and> dk_V res i = Some (scalarBaseMul L s) \<and>
      scalarBaseMul L s = pt_eval L i (group_polynomial L cs)" by blast
  have run: "runGjkrDkg L n t ctx faults rnd = Inr res"
    unfolding runGjkrDkg_def Let_def ds(1) ebind.simps q using ne cs(1) res(1) by simp
  have "dk_qual res = filter (\<lambda>i. i \<notin> faults) ?ps"
    unfolding res(5) ids ds(2)[symmetric] by (simp add: filter_map comp_def)
  moreover have "group_polynomial L cs = drawn_polynomial L n t faults rnd"
    unfolding coms drawn_polynomial_def ds(2)[symmetric] by (simp add: filter_map comp_def)
  ultimately show ?thesis using run res(2-4,6) length_group_polynomial[OF C(2)]
    by (intro exI[of _ res] exI[of _ "group_polynomial L cs"]) (intro conjI)
qed

end
