(* ===== verification/Committee.thy ===== *)
theory Committee
  imports Gjkr_Run
begin

text \<open>
  The committee that opens notes: the proofs of equal logarithms of \<^verbatim>\<open>tss/chaumPedersen.ts\<close> and the threshold
  decryption of \<^verbatim>\<open>threshold/compliance.ts\<close>.
\<close>

section \<open>Equal logarithms\<close>

record DleqProof =
  dl_D :: point
  dl_A :: point
  dl_B :: point
  dl_z :: int

definition transcript :: "'a note_lib_scheme \<Rightarrow> point \<Rightarrow> point \<Rightarrow> point \<Rightarrow> point \<Rightarrow> point \<Rightarrow> int list" where
  "transcript L epk V D A B =
     [fst (Base8 L), snd (Base8 L), fst epk, snd epk, fst V, snd V, fst D, snd D, fst A, snd A, fst B, snd B]"

definition cpProve :: "'a tss_lib_scheme \<Rightarrow> int \<Rightarrow> point \<Rightarrow> bytes \<Rightarrow> wallet_error + DleqProof" where
  "cpProve L secret epk rnd =
     (let V = scalarMul L secret (Base8 L);
          D = scalarMul L secret epk;
          k = randScalar L rnd;
          A = scalarMul L k (Base8 L);
          B = scalarMul L k epk
      in ebind (hashToScalar L CP_DOMAIN (transcript L epk V D A B)) (\<lambda>e.
        Inr \<lparr>dl_D = D, dl_A = A, dl_B = B, dl_z = modSub L (k + e * secret)\<rparr>))"

definition cpVerify :: "'a tss_lib_scheme \<Rightarrow> point \<Rightarrow> point \<Rightarrow> DleqProof \<Rightarrow> wallet_error + bool" where
  "cpVerify L V epk prf =
     (if \<not> inSubgroupNonId L (dl_D prf) then Inr False
      else ebind (hashToScalar L CP_DOMAIN (transcript L epk V (dl_D prf) (dl_A prf) (dl_B prf))) (\<lambda>e.
        let lhsBase = scalarMul L (dl_z prf) (Base8 L);
            rhsBase = pointAdd L (dl_A prf) (scalarMul L e V);
            lhsEpk = scalarMul L (dl_z prf) epk;
            rhsEpk = pointAdd L (dl_B prf) (scalarMul L e (dl_D prf))
        in Inr (pointEq lhsBase rhsBase \<and> pointEq lhsEpk rhsEpk)))"

section \<open>Threshold decryption\<close>

record Partial =
  pt_id :: int
  pt_proof :: DleqProof

definition partialDecrypt :: "'a tss_lib_scheme \<Rightarrow> int \<Rightarrow> int \<Rightarrow> point \<Rightarrow> bytes \<Rightarrow> wallet_error + Partial" where
  "partialDecrypt L id1 share ephPub rnd =
     ebind (assertInSubgroup L ephPub ''eph_pub'') (\<lambda>_.
     ebind (cpProve L share ephPub rnd) (\<lambda>prf. Inr \<lparr>pt_id = id1, pt_proof = prf\<rparr>))"

fun verified_loop :: "'a tss_lib_scheme \<Rightarrow> point \<Rightarrow> (int \<rightharpoonup> point) \<Rightarrow> int set \<Rightarrow> Partial list \<Rightarrow>
    wallet_error + (int \<times> point) list" where
  "verified_loop L ephPub V seen [] = Inr []"
| "verified_loop L ephPub V seen (p # rest) =
     (if pt_id p \<in> seen then verified_loop L ephPub V seen rest
      else case V (pt_id p) of None \<Rightarrow> verified_loop L ephPub V seen rest
      | Some vi \<Rightarrow>
          if \<not> inSubgroupNonId L (dl_D (pt_proof p)) then verified_loop L ephPub V seen rest
          else ebind (cpVerify L vi ephPub (pt_proof p)) (\<lambda>ok.
            if \<not> ok then verified_loop L ephPub V seen rest
            else ebind (verified_loop L ephPub V (insert (pt_id p) seen) rest) (\<lambda>vs.
              Inr ((pt_id p, dl_D (pt_proof p)) # vs))))"

fun combine_loop :: "'a tss_lib_scheme \<Rightarrow> int list \<Rightarrow> point \<Rightarrow> (int \<times> point) list \<Rightarrow> wallet_error + point" where
  "combine_loop L quorum S [] = Inr S"
| "combine_loop L quorum S ((id1, D) # rest) = ebind (lagrangeAtZero L id1 quorum) (\<lambda>l.
     combine_loop L quorum (pointAdd L S (scalarMul L l D)) rest)"

definition combine :: "'a tss_lib_scheme \<Rightarrow> point \<Rightarrow> Partial list \<Rightarrow> (int \<rightharpoonup> point) \<Rightarrow> nat \<Rightarrow> wallet_error + point" where
  "combine L ephPub partials V threshold =
     ebind (assertInSubgroup L ephPub ''eph_pub'') (\<lambda>_.
     ebind (verified_loop L ephPub V {} partials) (\<lambda>verified.
       if length verified < threshold then Inl (WError ''compliance: valid partials below threshold'')
       else combine_loop L (map fst verified) IDENTITY verified))"

definition thresholdCek :: "'a tss_lib_scheme \<Rightarrow> point \<Rightarrow> Partial list \<Rightarrow> (int \<rightharpoonup> point) \<Rightarrow> nat \<Rightarrow> wallet_error + fr" where
  "thresholdCek L ephPub partials V threshold =
     ebind (combine L ephPub partials V threshold) (\<lambda>S. new_Fr (fst S))"

fun robust_loop :: "'a tss_lib_scheme \<Rightarrow> point \<Rightarrow> (int \<rightharpoonup> point) \<Rightarrow> nat \<Rightarrow> Partial list \<Rightarrow> int list \<Rightarrow> int set \<Rightarrow> Partial list \<Rightarrow>
    wallet_error + Partial list \<times> int list" where
  "robust_loop L ephPub V t good excluded seen [] = Inr (good, excluded)"
| "robust_loop L ephPub V t good excluded seen (p # rest) =
     (if pt_id p \<in> seen then robust_loop L ephPub V t good excluded seen rest
      else ebind (case V (pt_id p) of None \<Rightarrow> Inr False
          | Some vi \<Rightarrow> if \<not> inSubgroupNonId L (dl_D (pt_proof p)) then Inr False
              else cpVerify L vi ephPub (pt_proof p)) (\<lambda>ok.
        if ok then robust_loop L ephPub V t (if length good < t then good @ [p] else good) excluded (insert (pt_id p) seen) rest
        else robust_loop L ephPub V t good (excluded @ [pt_id p]) seen rest))"

record RobustCek =
  rc_cek :: fr
  rc_used :: "int list"
  rc_excluded :: "int list"

definition thresholdCekRobust :: "'a tss_lib_scheme \<Rightarrow> point \<Rightarrow> Partial list \<Rightarrow> (int \<rightharpoonup> point) \<Rightarrow> nat \<Rightarrow>
    wallet_error + RobustCek" where
  "thresholdCekRobust L ephPub allPartials V t =
     ebind (assertInSubgroup L ephPub ''eph_pub'') (\<lambda>_.
     ebind (robust_loop L ephPub V t [] [] {} allPartials) (\<lambda>(good, excluded).
       if length good < t then Inl (WError ''compliance: valid partials below threshold'')
       else ebind (thresholdCek L ephPub good V t) (\<lambda>cek.
         Inr \<lparr>rc_cek = cek, rc_used = map pt_id good, rc_excluded = excluded\<rparr>)))"

section \<open>Proofs of equal logarithms\<close>

lemma inSubgroupNonId_iff: "curve_point L P \<Longrightarrow> inSubgroupNonId L P \<longleftrightarrow> P \<in> subgroup_points L \<and> P \<noteq> IDENTITY"
  by (cases P) (auto simp: inSubgroupNonId_def subgroup_points_def isIdentity_def IDENTITY_def)

lemma assertInSubgroup_iff: "curve_point L P \<Longrightarrow> assertInSubgroup L P l = Inr () \<longleftrightarrow> P \<in> subgroup_points L \<and> P \<noteq> IDENTITY"
  by (cases P) (auto simp: assertInSubgroup_def subgroup_points_def isIdentity_def IDENTITY_def curve_point_def)

lemma transcript_total:
  assumes "tss_ok L" "epk \<in> subgroup_points L" "V \<in> subgroup_points L" "D \<in> subgroup_points L" "A \<in> subgroup_points L"
    "B \<in> subgroup_points L"
  shows "\<exists>e. hashToScalar L CP_DOMAIN (transcript L epk V D A B) = Inr e"
  using assms(2-6)[THEN subgroup_field] subgroup_field[OF subgroup_base[OF assms(1)]]
  by (intro hashToScalar_Inr) (simp add: transcript_def)

text \<open>The two equations of an accepted proof.\<close>

lemma cpVerify_Inr:
  assumes "cpVerify L V epk p = Inr True"
  obtains e where "inSubgroupNonId L (dl_D p)" "hashToScalar L CP_DOMAIN (transcript L epk V (dl_D p) (dl_A p) (dl_B p)) = Inr e"
    "scalarMul L (dl_z p) (Base8 L) = pointAdd L (dl_A p) (scalarMul L e V)"
    "scalarMul L (dl_z p) epk = pointAdd L (dl_B p) (scalarMul L e (dl_D p))"
  using assms by (auto simp: cpVerify_def split: if_splits)

lemma cp_complete:
  assumes ok: "tss_ok L" and e: "epk \<in> subgroup_points L" "epk \<noteq> IDENTITY" and s: "\<not> subOrder L dvd s"
  shows "\<exists>p. cpProve L s epk rnd = Inr p \<and> dl_D p = scalarMul L s epk \<and> cpVerify L (scalarBaseMul L s) epk p = Inr True"
proof -
  note G = points_group[OF ok] and b = subgroup_base[OF ok]
  note in_G = scalar_group.mul_in[OF G]
  let ?k = "randScalar L rnd" and ?V = "scalarMul L s (Base8 L)" and ?D = "scalarMul L s epk"
  let ?A = "scalarMul L ?k (Base8 L)" and ?B = "scalarMul L ?k epk"
  obtain c where c: "hashToScalar L CP_DOMAIN (transcript L epk ?V ?D ?A ?B) = Inr c"
    using transcript_total[OF ok e(1) in_G[OF b] in_G[OF e(1)] in_G[OF b] in_G[OF e(1)]] by blast
  let ?p = "\<lparr>dl_D = ?D, dl_A = ?A, dl_B = ?B, dl_z = modSub L (?k + c * s)\<rparr>"
  have "?D \<noteq> IDENTITY"
  proof
    assume "?D = IDENTITY"
    then have "scalarMul L s epk = scalarMul L 0 epk" using scalar_group.mul_0[OF G e(1)] by simp
    then have "subOrder L dvd s - 0" by (rule scalar_group.mul_prime_inj[OF G tss_ok_prime[OF ok] e])
    with s show False by simp
  qed
  then have D: "inSubgroupNonId L ?D" using in_G[OF e(1), of s] subgroup_pointsD(1) inSubgroupNonId_iff by blast
  have "scalarMul L (modSub L (?k + c * s)) P = pointAdd L (scalarMul L ?k P) (scalarMul L c (scalarMul L s P))"
    if "P \<in> subgroup_points L" for P
    using scalar_group.mul_add[OF G that] scalar_group.mul_mul[OF G that] by simp
  then have "cpVerify L (scalarBaseMul L s) epk ?p = Inr True"
    using D c b e(1) by (simp add: cpVerify_def scalarBaseMul_def Let_def)
  moreover have "cpProve L s epk rnd = Inr ?p" by (simp add: cpProve_def Let_def c)
  ultimately show ?thesis by (intro exI[of _ ?p]) simp
qed

text \<open>
  A proof of a false statement passes for at most one value of the challenge: two hashes under which the same
  commitments pass, with different challenges, make the logarithms equal.
\<close>

lemma cp_special_sound:
  assumes ok: "tss_ok L" and e: "epk \<in> subgroup_points L"
    and A: "A \<in> subgroup_points L" and B: "B \<in> subgroup_points L" and D: "D \<in> subgroup_points L"
    and eq1: "scalarMul L z1 (Base8 L) = pointAdd L A (scalarMul L e1 (scalarBaseMul L x))"
      "scalarMul L z1 epk = pointAdd L B (scalarMul L e1 D)"
    and eq2: "scalarMul L z2 (Base8 L) = pointAdd L A (scalarMul L e2 (scalarBaseMul L x))"
      "scalarMul L z2 epk = pointAdd L B (scalarMul L e2 D)"
    and diff: "\<not> subOrder L dvd e1 - e2"
  shows "D = scalarMul L x epk"
proof -
  note G = points_group[OF ok] and b = subgroup_base[OF ok]
  note in_G = scalar_group.mul_in[OF G] and add_in = scalar_group.add_in[OF G]
  note prime = tss_ok_prime[OF ok]
  have sub: "scalarMul L (z1 - z2) P = scalarMul L (e1 - e2) Q"
    if P: "P \<in> subgroup_points L" and Q: "Q \<in> subgroup_points L" and C: "C \<in> subgroup_points L"
      and q: "scalarMul L z1 P = pointAdd L C (scalarMul L e1 Q)" "scalarMul L z2 P = pointAdd L C (scalarMul L e2 Q)"
    for P Q C
  proof -
    have "pointAdd L (scalarMul L z2 P) (scalarMul L (z1 - z2) P) = scalarMul L z1 P"
      using scalar_group.mul_add[OF G P, of z2 "z1 - z2"] by simp
    also have "\<dots> = pointAdd L C (scalarMul L (e2 + (e1 - e2)) Q)" using q(1) by simp
    also have "\<dots> = pointAdd L (pointAdd L C (scalarMul L e2 Q)) (scalarMul L (e1 - e2) Q)"
      by (simp only: scalar_group.mul_add[OF G Q] scalar_group.assoc[OF G C in_G[OF Q] in_G[OF Q]])
    finally have "pointAdd L (scalarMul L z2 P) (scalarMul L (z1 - z2) P) =
        pointAdd L (scalarMul L z2 P) (scalarMul L (e1 - e2) Q)" using q(2) by simp
    then show ?thesis by (rule scalar_group.cancel[OF G in_G[OF P] in_G[OF P] in_G[OF Q]])
  qed
  have "scalarMul L (z1 - z2) (Base8 L) = scalarMul L ((e1 - e2) * x) (Base8 L)"
    using sub[OF b scalarBaseMul_in[OF ok] A eq1(1) eq2(1)] scalar_group.mul_mul[OF G b] by (simp add: scalarBaseMul_def)
  then have "subOrder L dvd (z1 - z2) - (e1 - e2) * x"
    using scalar_group.mul_prime_inj[OF G prime b] tss_ok_laws(4)[OF ok] by (simp add: IDENTITY_def)
  then have "scalarMul L (z1 - z2) epk = scalarMul L ((e1 - e2) * x) epk" by (rule scalar_group.mul_cong[OF G e])
  then have s: "scalarMul L (e1 - e2) D = scalarMul L (e1 - e2) (scalarMul L x epk)"
    using sub[OF e D B eq1(2) eq2(2)] scalar_group.mul_mul[OF G e] by simp
  obtain v where v: "invSub L (e1 - e2) = Inr v" using invSub_total[OF diff] by blast
  have "v * (e1 - e2) mod subOrder L = 1" using invSub_Inr(1)[OF prime v] by (simp add: mult.commute)
  then have "scalarMul L v (scalarMul L (e1 - e2) P) = P" if "P \<in> subgroup_points L" for P
    using scalar_group.mul_mul[OF G that, of v "e1 - e2"] scalar_group.mul_mod[OF G that, of "v * (e1 - e2)"]
      scalar_group.mul_1[OF G that] by simp
  then show ?thesis using s D in_G[OF e] by metis
qed

section \<open>Partials that pass\<close>

text \<open>A partial passes for a known member with a verified proof; the first of each member counts.\<close>

definition passes :: "'a tss_lib_scheme \<Rightarrow> point \<Rightarrow> (int \<rightharpoonup> point) \<Rightarrow> Partial \<Rightarrow> bool" where
  "passes L ephPub V p \<longleftrightarrow> (case V (pt_id p) of None \<Rightarrow> False | Some vi \<Rightarrow> cpVerify L vi ephPub (pt_proof p) = Inr True)"

fun firsts :: "'a tss_lib_scheme \<Rightarrow> point \<Rightarrow> (int \<rightharpoonup> point) \<Rightarrow> int set \<Rightarrow> Partial list \<Rightarrow> Partial list" where
  "firsts L ephPub V seen [] = []"
| "firsts L ephPub V seen (p # rest) = (if pt_id p \<in> seen \<or> \<not> passes L ephPub V p
     then firsts L ephPub V seen rest else p # firsts L ephPub V (insert (pt_id p) seen) rest)"

definition returns :: "'a tss_lib_scheme \<Rightarrow> point \<Rightarrow> (int \<rightharpoonup> point) \<Rightarrow> Partial list \<Rightarrow> bool" where
  "returns L ephPub V ps \<longleftrightarrow> (\<forall>p \<in> set ps. \<forall>vi. V (pt_id p) = Some vi \<longrightarrow> (\<exists>b. cpVerify L vi ephPub (pt_proof p) = Inr b))"

lemma returnsD: "returns L e V ps \<Longrightarrow> p \<in> set ps \<Longrightarrow> V (pt_id p) = Some vi \<Longrightarrow> \<exists>b. cpVerify L vi e (pt_proof p) = Inr b"
  unfolding returns_def by blast

lemma cpVerify_outside: "\<not> inSubgroupNonId L (dl_D prf) \<Longrightarrow> cpVerify L V epk prf = Inr False"
  by (simp add: cpVerify_def)

lemma firsts_props: "distinct (map pt_id (firsts L e V seen ps)) \<and> set (firsts L e V seen ps) \<subseteq> set ps \<and>
    (\<forall>p \<in> set (firsts L e V seen ps). pt_id p \<notin> seen \<and> passes L e V p)"
proof (induction ps arbitrary: seen)
  case (Cons p ps)
  then show ?case using Cons[of seen] Cons[of "insert (pt_id p) seen"] by auto
qed simp

lemma firsts_ids: "pt_id ` set (firsts L e V seen ps) = pt_id ` {p \<in> set ps. passes L e V p} - seen"
proof (induction ps arbitrary: seen)
  case (Cons p ps)
  show ?case
  proof (cases "pt_id p \<in> seen \<or> \<not> passes L e V p")
    case True
    then show ?thesis using Cons[of seen] by auto
  next
    case False
    then show ?thesis using Cons[of "insert (pt_id p) seen"] by auto
  qed
qed simp

lemma verified_loop_returns: "returns L e V ps \<Longrightarrow>
    verified_loop L e V seen ps = Inr (map (\<lambda>p. (pt_id p, dl_D (pt_proof p))) (firsts L e V seen ps))"
proof (induction ps arbitrary: seen)
  case (Cons p ps)
  have r: "returns L e V ps" using Cons.prems by (simp add: returns_def)
  show ?case
  proof (cases "V (pt_id p)")
    case None
    then show ?thesis using Cons.IH[OF r] by (simp add: passes_def)
  next
    case (Some vi)
    then obtain b where "cpVerify L vi e (pt_proof p) = Inr b" using returnsD[OF Cons.prems] by (meson list.set_intros(1))
    then show ?thesis using Cons.IH[OF r] Some cpVerify_outside[of L "pt_proof p" vi e] by (auto simp: passes_def)
  qed
qed simp

lemma robust_loop_returns: "returns L e V ps \<Longrightarrow> length good \<le> t \<Longrightarrow>
    \<exists>ex. robust_loop L e V t good excluded seen ps = Inr (take t (good @ firsts L e V seen ps), ex)"
proof (induction ps arbitrary: good excluded seen)
  case (Cons p ps)
  have r: "returns L e V ps" using Cons.prems by (simp add: returns_def)
  let ?ok = "case V (pt_id p) of None \<Rightarrow> Inr False | Some vi \<Rightarrow> if \<not> inSubgroupNonId L (dl_D (pt_proof p)) then Inr False
    else cpVerify L vi e (pt_proof p)"
  have ok: "?ok = Inr (passes L e V p)"
  proof (cases "V (pt_id p)")
    case (Some vi)
    then obtain b where "cpVerify L vi e (pt_proof p) = Inr b" using returnsD[OF Cons.prems(1)] by (meson list.set_intros(1))
    then show ?thesis using Some cpVerify_outside[of L "pt_proof p" vi e] by (auto simp: passes_def)
  qed (simp add: passes_def)
  show ?case
  proof (cases "pt_id p \<in> seen")
    case True
    then show ?thesis using Cons.IH[OF r Cons.prems(2)] by simp
  next
    case seen: False
    show ?thesis
    proof (cases "passes L e V p")
      case True
      let ?g = "if length good < t then good @ [p] else good"
      have "length ?g \<le> t" using Cons.prems(2) by simp
      from Cons.IH[OF r this, of excluded "insert (pt_id p) seen"] obtain ex where
        "robust_loop L e V t ?g excluded (insert (pt_id p) seen) ps =
          Inr (take t (?g @ firsts L e V (insert (pt_id p) seen) ps), ex)" by blast
      moreover have "take t (?g @ firsts L e V (insert (pt_id p) seen) ps) =
          take t (good @ p # firsts L e V (insert (pt_id p) seen) ps)" using Cons.prems(2) by (simp add: take_Cons')
      ultimately show ?thesis using seen True ok by simp
    next
      case False
      then show ?thesis using Cons.IH[OF r Cons.prems(2), of "excluded @ [pt_id p]" seen] seen ok by simp
    qed
  qed
qed simp

section \<open>The content key\<close>

lemma combine_loop_eq: "\<forall>v \<in> set vs. lagrangeAtZero L (fst v) quorum = Inr (w (fst v)) \<Longrightarrow>
    combine_loop L quorum S vs = Inr (foldl (\<lambda>S v. pointAdd L S (scalarMul L (w (fst v)) (snd v))) S vs)"
proof (induction vs arbitrary: S)
  case (Cons v vs)
  obtain i D where "v = (i, D)" by (cases v)
  then show ?case using Cons.IH[of "pointAdd L S (scalarMul L (w i) D)"] Cons.prems by simp
qed simp

text \<open>Partials of the members' own multiples, as many as the key polynomial is long: their combination is the
  multiple by the secret of the committee.\<close>

lemma combine_recovers:
  assumes ok: "tss_ok L" and e: "ephPub \<in> subgroup_points L" "ephPub \<noteq> IDENTITY"
    and C: "C = scalarBaseMul L c"
    and poly: "set Cs \<subseteq> subgroup_points L" "Cs \<noteq> []" "hd Cs = C" "length Cs \<le> thr"
    and keys: "\<forall>i \<in> dom V. V i = Some (pt_eval L i Cs)" and ids: "residues_distinct (subOrder L) xs" "dom V \<subseteq> set xs"
    and ret: "returns L ephPub V ps"
    and true: "\<forall>p \<in> set ps. passes L ephPub V p \<longrightarrow>
      (\<exists>s. V (pt_id p) = Some (scalarBaseMul L s) \<and> dl_D (pt_proof p) = scalarMul L s ephPub)"
    and thr: "thr \<le> length (firsts L ephPub V {} ps)"
  shows "combine L ephPub ps V thr = Inr (scalarMul L c ephPub)"
proof -
  note G = points_group[OF ok] and b = subgroup_base[OF ok]
  note in_G = scalar_group.mul_in[OF G]
  let ?fs = "firsts L ephPub V {} ps"
  let ?vs = "map (\<lambda>p. (pt_id p, dl_D (pt_proof p))) ?fs" and ?q = "map pt_id ?fs"
  note F = firsts_props[of L ephPub V "{}" ps]
  have V: "pt_id p \<in> dom V" if "p \<in> set ?fs" for p
    using F that by (auto simp: passes_def split: option.splits)
  have q: "residues_distinct (subOrder L) ?q"
    using F ids V by (fastforce simp: residues_distinct_def distinct_map inj_on_def subset_iff)
  have "\<exists>w. \<forall>i \<in> set ?q. lagrangeAtZero L i ?q = Inr (w i) \<and> lag_weight (subOrder L) (set ?q) i (w i)"
    using lagrangeAtZero_weight[OF tss_ok_prime[OF ok] q] by (intro bchoice) blast
  then obtain w where w: "\<forall>i \<in> set ?q. lagrangeAtZero L i ?q = Inr (w i)"
    "\<forall>i \<in> set ?q. lag_weight (subOrder L) (set ?q) i (w i)" by blast
  text \<open>In the exponent: the secrets of the members interpolate to the secret of the group.\<close>
  have "\<forall>p \<in> set ?fs. \<exists>s. V (pt_id p) = Some (scalarBaseMul L s) \<and> dl_D (pt_proof p) = scalarMul L s ephPub"
    using F true by blast
  then obtain s where s: "\<forall>p \<in> set ?fs. V (pt_id p) = Some (scalarBaseMul L (s p)) \<and> dl_D (pt_proof p) = scalarMul L (s p) ephPub"
    by (metis bchoice)
  have sb: "scalarBaseMul L (s p) = pt_eval L (pt_id p) Cs" if "p \<in> set ?fs" for p
    using bspec[OF s that] bspec[OF keys V[OF that]] by simp
  have "scalarMul L (\<Sum>p \<leftarrow> ?fs. w (pt_id p) * s p) (Base8 L) =
      foldl (\<lambda>a p. pointAdd L a (scalarMul L (w (pt_id p) * s p) (Base8 L))) IDENTITY ?fs"
    by (rule scalar_group.fold_scalars[OF G b, symmetric])
  also have "\<dots> = foldl (\<lambda>a p. pointAdd L a (scalarMul L (w (pt_id p)) (pt_eval L (pt_id p) Cs))) IDENTITY ?fs"
    by (intro foldl_cong) (simp_all only: sb[symmetric] scalarBaseMul_def scalar_group.mul_mul[OF G b])
  also have "\<dots> = foldl (\<lambda>a i. pointAdd L a (scalarMul L (w i) (pt_eval L i Cs))) IDENTITY ?q" by (simp add: foldl_map)
  also have "\<dots> = hd Cs"
  proof (rule scalar_group.interpolate[OF G tss_ok_prime[OF ok] residues_distinctD(1)[OF q] residues_distinctD(2)[OF q] w(2) poly(1)])
    show "length Cs \<le> length ?q" using poly(4) thr by simp
  qed (rule poly(2))
  finally have "scalarMul L (\<Sum>p \<leftarrow> ?fs. w (pt_id p) * s p) (Base8 L) = scalarMul L c (Base8 L)"
    using poly(3) C by (simp add: scalarBaseMul_def)
  then have d: "subOrder L dvd (\<Sum>p \<leftarrow> ?fs. w (pt_id p) * s p) - c"
    using scalar_group.mul_prime_inj[OF G tss_ok_prime[OF ok] b] tss_ok_laws(4)[OF ok] by (simp add: IDENTITY_def)
  have "foldl (\<lambda>S v. pointAdd L S (scalarMul L (w (fst v)) (snd v))) IDENTITY ?vs =
      foldl (\<lambda>S p. pointAdd L S (scalarMul L (w (pt_id p)) (dl_D (pt_proof p)))) IDENTITY ?fs" by (simp add: foldl_map)
  also have "\<dots> = foldl (\<lambda>S p. pointAdd L S (scalarMul L (w (pt_id p) * s p) ephPub)) IDENTITY ?fs"
    using s scalar_group.mul_mul[OF G e(1)] by (intro foldl_cong) simp_all
  also have "\<dots> = scalarMul L (\<Sum>p \<leftarrow> ?fs. w (pt_id p) * s p) ephPub" by (rule scalar_group.fold_scalars[OF G e(1)])
  also have "\<dots> = scalarMul L c ephPub" by (rule scalar_group.mul_cong[OF G e(1) d])
  finally have "combine_loop L ?q IDENTITY ?vs = Inr (scalarMul L c ephPub)"
    using combine_loop_eq[of ?vs L ?q w IDENTITY] w(1) by simp
  moreover have "map fst ?vs = ?q" by simp
  moreover have "assertInSubgroup L ephPub ''eph_pub'' = Inr ()"
    using assertInSubgroup_iff[OF subgroup_pointsD(1)[OF e(1)]] e by blast
  ultimately show ?thesis
    using verified_loop_returns[OF ret, of "{}"] thr by (simp add: combine_def del: map_map)
qed

lemma robust_recovers:
  assumes ok: "tss_ok L" and e: "ephPub \<in> subgroup_points L" "ephPub \<noteq> IDENTITY" and ret: "returns L ephPub V ps"
    and thr: "t \<le> length (firsts L ephPub V {} ps)" and cek: "thresholdCek L ephPub (take t (firsts L ephPub V {} ps)) V t = Inr k"
  shows "\<exists>r. thresholdCekRobust L ephPub ps V t = Inr r \<and> rc_cek r = k \<and> rc_used r = map pt_id (take t (firsts L ephPub V {} ps))"
proof -
  obtain ex where "robust_loop L ephPub V t [] [] {} ps = Inr (take t (firsts L ephPub V {} ps), ex)"
    using robust_loop_returns[OF ret, of "[]" t "[]" "{}"] by auto
  moreover have "assertInSubgroup L ephPub ''eph_pub'' = Inr ()"
    using assertInSubgroup_iff[OF subgroup_pointsD(1)[OF e(1)]] e by blast
  ultimately show ?thesis using thr cek by (simp add: thresholdCekRobust_def)
qed

lemma firsts_id: "distinct (map pt_id ps) \<Longrightarrow> \<forall>p \<in> set ps. passes L e V p \<and> pt_id p \<notin> seen \<Longrightarrow> firsts L e V seen ps = ps"
proof (induction ps arbitrary: seen)
  case (Cons p ps)
  have "firsts L e V (insert (pt_id p) seen) ps = ps" using Cons.prems by (intro Cons.IH) (auto, metis image_eqI)
  with Cons.prems show ?case by simp
qed simp

lemma length_firsts: "length (firsts L e V {} ps) = card (pt_id ` {p \<in> set ps. passes L e V p})"
proof -
  have "length (firsts L e V {} ps) = card (set (map pt_id (firsts L e V {} ps)))"
    using firsts_props[of L e V "{}" ps] distinct_card[of "map pt_id (firsts L e V {} ps)"] by simp
  then show ?thesis using firsts_ids[of L e V "{}" ps] by simp
qed

text \<open>A proof whose commitment is no field element is not rejected: the hash raises, and so does the robust
  combination.\<close>

lemma malformed_proof_raises:
  assumes "assertInSubgroup L ephPub ''eph_pub'' = Inr ()" "V (pt_id p) = Some vi" "inSubgroupNonId L (dl_D (pt_proof p))"
    and A: "\<not> field_int (fst (dl_A (pt_proof p)))"
  shows "\<exists>err. thresholdCekRobust L ephPub (p # rest) V t = Inl err"
proof -
  let ?tr = "transcript L ephPub vi (dl_D (pt_proof p)) (dl_A (pt_proof p)) (dl_B (pt_proof p))"
  have "new_Fr x = Inl FieldError" if "\<not> field_int x" for x using that by (auto simp: new_Fr_def field_int_def)
  then have raise: "\<exists>err. emap new_Fr xs = Inl err" if "x \<in> set xs" "\<not> field_int x" for x xs
    using that by (induction xs) (fastforce simp: ebind_Inl_iff new_Fr_def field_int_def)+
  have "fst (dl_A (pt_proof p)) \<in> set ([CP_DOMAIN] @ ?tr @ [0])" by (simp add: transcript_def)
  from raise[OF this A] obtain err where "hashToScalar L CP_DOMAIN ?tr = Inl err"
    by (auto simp: hashToScalar_def poseidon2_def)
  then show ?thesis using assms(1-3) by (simp add: thresholdCekRobust_def cpVerify_def)
qed

end
