(* ===== verification/Threshold_Demo.thy ===== *)
theory Threshold_Demo
  imports Committee Note_Demo
begin

text \<open>
  A concrete curve library for the runs of the threshold layer: the residues modulo 13, as points whose y
  distinguishes the identity, with the small hash of the note layer. It keeps the laws \<open>tss_ok\<close>.
\<close>

definition dpt :: "int \<Rightarrow> point" where
  "dpt k = (let r = k mod 13 in (r, if r = 0 then 1 else 2))"

definition demo_tss :: tss_lib where
  "demo_tss = \<lparr>poseidon2Hash = demo_hash, inCurve = (\<lambda>P. P = dpt (fst P)), mulPointEscalar = (\<lambda>P s. dpt (fst P * s)),
     Base8 = (1, 2), subOrder = 13,
     fromBuffer = (\<lambda>bs. let v = be_value bs in if v < FR_MODULUS \<and> length bs = 32 then Some v else None),
     addPoint = (\<lambda>P Q. dpt (fst P + fst Q)), unpackPoint = (\<lambda>x. Some (dpt (int x)))\<rparr>"

lemma demo_tss_sel [simp]:
  "poseidon2Hash demo_tss = demo_hash" "inCurve demo_tss P \<longleftrightarrow> P = dpt (fst P)" "mulPointEscalar demo_tss P s = dpt (fst P * s)"
  "Base8 demo_tss = (1, 2)" "subOrder demo_tss = 13" "addPoint demo_tss P Q = dpt (fst P + fst Q)"
  "unpackPoint demo_tss x = Some (dpt (int x))"
  by (simp_all add: demo_tss_def)

lemma fst_dpt [simp]: "fst (dpt k) = k mod 13"
  by (simp add: dpt_def Let_def)

lemma dpt_mod [simp]: "dpt (k mod 13) = dpt k"
  by (simp add: dpt_def)

lemma dpt_cong: "a mod 13 = b mod 13 \<Longrightarrow> dpt a = dpt b"
  by (simp add: dpt_def)

lemma dpt_eq_iff: "dpt a = dpt b \<longleftrightarrow> a mod 13 = b mod 13"
  by (auto simp: dpt_def Let_def)

lemma FR_big: "13 < int FR_MODULUS"
  by (simp add: FR_MODULUS_def)

lemma demo_curve: "curve_point demo_tss P \<longleftrightarrow> P = dpt (fst P)"
proof
  assume P: "P = dpt (fst P)"
  have b: "0 \<le> k mod 13" "k mod 13 < int FR_MODULUS" for k :: int
    using FR_big pos_mod_bound[of 13 k] pos_mod_sign[of 13 k] by linarith+
  have "0 \<le> fst (dpt k) \<and> fst (dpt k) < int FR_MODULUS \<and> 0 \<le> snd (dpt k) \<and> snd (dpt k) < int FR_MODULUS" for k
    using b[of k] FR_big by (simp add: dpt_def Let_def)
  with P show "curve_point demo_tss P" unfolding curve_point_def demo_tss_sel by metis
qed (simp add: curve_point_def)

lemma demo_curve_dpt [simp]: "curve_point demo_tss (dpt k)"
  by (simp add: demo_curve)

lemma prime_13: "prime_order 13"
proof -
  have "coprime x (13 :: int)" if "0 < x" "x < 13" for x
  proof -
    from that have "x = 1 \<or> x = 2 \<or> x = 3 \<or> x = 4 \<or> x = 5 \<or> x = 6 \<or> x = 7 \<or> x = 8 \<or> x = 9 \<or> x = 10 \<or> x = 11 \<or> x = 12"
      by presburger
    then show ?thesis by (auto simp: coprime_iff_gcd_eq_1 gcd_non_0_int)
  qed
  then show ?thesis by (simp add: prime_order_def)
qed

lemma demo_tss_ok: "tss_ok demo_tss"
  unfolding tss_ok_def
proof (intro conjI allI impI)
  show "prime_order (subOrder demo_tss)" using prime_13 by simp
  have id: "(0, 1) = dpt 0" "(1, 2) = dpt 1" by (simp_all add: dpt_def)
  show "curve_point demo_tss (0, 1)" "curve_point demo_tss (Base8 demo_tss)" by (simp_all add: id)
  show "Base8 demo_tss \<noteq> (0, 1)" by simp
  show "mulPointEscalar demo_tss (Base8 demo_tss) (subOrder demo_tss) = (0, 1)" by (simp add: dpt_def)
  fix P Q R :: point and k :: int
  assume "curve_point demo_tss P"
  then obtain a where P: "P = dpt a" using demo_curve by blast
  show "addPoint demo_tss (0, 1) P = P" by (simp add: P)
  show "mulPointEscalar demo_tss P 0 = (0, 1)" by (simp add: P dpt_def)
  show "mulPointEscalar demo_tss P (k + 1) = addPoint demo_tss P (mulPointEscalar demo_tss P k)"
  proof -
    have "(a + k * (a mod 13)) mod 13 = (a + k * a) mod 13" by (rule mod_add_cong[OF refl mod_mult_right_eq])
    then show ?thesis by (simp add: P dpt_eq_iff algebra_simps mod_simps)
  qed
next
  fix P Q assume "curve_point demo_tss P \<and> curve_point demo_tss Q"
  show "curve_point demo_tss (addPoint demo_tss P Q)" by simp
  show "addPoint demo_tss P Q = addPoint demo_tss Q P" by (simp add: add.commute)
next
  fix P Q R assume "curve_point demo_tss P \<and> curve_point demo_tss Q \<and> curve_point demo_tss R"
  show "addPoint demo_tss (addPoint demo_tss P Q) R = addPoint demo_tss P (addPoint demo_tss Q R)"
    by simp (rule dpt_cong, simp add: mod_simps add.assoc)
qed

lemma demo_poseidon_ok: "poseidon_ok demo_tss"
  unfolding poseidon_ok_def
proof
  fix xs
  have "demo_hash xs \<le> 2 ^ 16" by (rule demo_hash_bound)
  then show "poseidon2Hash demo_tss xs < FR_MODULUS" by (simp add: FR_MODULUS_def)
qed

lemma demo_unpack_ok: "unpack_ok demo_tss"
  by (auto simp: unpack_ok_def demo_curve)

lemma demo_subgroup: "P \<in> subgroup_points demo_tss \<longleftrightarrow> P = dpt (fst P)"
  using demo_curve[of P] by (auto simp: subgroup_points_def inSubgroup_def dpt_def)

lemma demo_base_mul: "scalarBaseMul demo_tss k = dpt k"
  by (simp add: scalarBaseMul_def scalarMul_def modSub_def)

section \<open>Its second generator\<close>

lemma demo_truncate: "note_lib.truncate demo_tss = \<lparr>poseidon2Hash = demo_hash, inCurve = (\<lambda>P. P = dpt (fst P)),
    mulPointEscalar = (\<lambda>P s. dpt (fst P * s)), Base8 = (1, 2), subOrder = 13,
    fromBuffer = (\<lambda>bs. let v = be_value bs in if v < FR_MODULUS \<and> length bs = 32 then Some v else None)\<rparr>"
  by (simp add: note_lib.defs demo_tss_def)

lemma demo_seed: "stringToFr (note_lib.truncate demo_tss) H_SEED_DOMAIN = Inr 11888"
  by (simp add: demo_truncate stringToFr_def H_SEED_DOMAIN_def utf8_def utf8_char_def be_value_def foldl_zeros demo_eval)

lemma demo_H: "getH demo_tss = Inr (9, 2)"
proof -
  have p: "poseidon2 demo_tss [11888, 0] = Inr 41073"
    by (simp add: poseidon2_def demo_eval)
  have a: "assertInSubgroup demo_tss (9, 2) l = Inr ()" for l
    by (simp add: assertInSubgroup_def inSubgroup_def isIdentity_def dpt_def)
  have "deriveH_loop demo_tss 11888 (Suc 255) 0 = Inr (9, 2)"
    unfolding deriveH_loop.simps p ebind.simps
    by (simp add: a scalarMul_def modSub_def COFACTOR_def isIdentity_def dpt_def)
  moreover have "H_MAX_TRIES = Suc 255" by (simp add: H_MAX_TRIES_def)
  ultimately show ?thesis by (simp only: getH_def deriveH_def demo_seed ebind.simps of_nat_numeral)
qed

end
