(* ===== verification/Threshold_Properties.thy ===== *)
theory Threshold_Properties
  imports Threshold_Demo
begin

text \<open>
  The properties of the threshold layer: a group that generated its key without a dealer signs with any quorum,
  an accepted share is the one owed, a nonce signs once, verified contributions give one key, and the committee
  reads the content key of every note addressed to its key.
\<close>

section \<open>The committee\<close>

lemma partialDecrypt_D: "partialDecrypt L i s ephPub rnd = Inr p \<Longrightarrow> pt_id p = i \<and> dl_D (pt_proof p) = scalarMul L s ephPub"
  by (auto simp: partialDecrypt_def cpProve_def Let_def)

lemma ephemeral_point:
  assumes ok: "tss_ok L" and r: "0 < r" "int r < subOrder L"
  shows "publicKey (note_lib.truncate L) r = scalarBaseMul L (int r)" "scalarBaseMul L (int r) \<noteq> IDENTITY"
proof -
  show "publicKey (note_lib.truncate L) r = scalarBaseMul L (int r)"
    using r by (simp add: publicKey_def scalarBaseMul_def scalarMul_def modSub_def note_lib.defs)
  have "scalarBaseMul L 0 = IDENTITY"
    using scalar_group.mul_0[OF points_group[OF ok] subgroup_base[OF ok]] by (simp add: scalarBaseMul_def)
  then show "scalarBaseMul L (int r) \<noteq> IDENTITY"
    using scalarBaseMul_inj[OF ok, of "int r" 0] r by (auto simp: modSub_def)
qed

lemma committee_opens:
  assumes ok: "tss_ok L" and poly: "set Cs \<subseteq> subgroup_points L" "Cs \<noteq> []" "length Cs \<le> t"
    and ids: "residues_distinct (subOrder L) xs" "dom V \<subseteq> set xs"
    and keys: "\<forall>i \<in> dom V. \<exists>s. shares i = Some s \<and> V i = Some (scalarBaseMul L s) \<and> scalarBaseMul L s = pt_eval L i Cs"
    and cek: "deriveCek (note_lib.truncate L) eph (hd Cs) = Inr cek" and eph: "int eph < subOrder L"
    and e: "ephPub = publicKey (note_lib.truncate L) eph"
    and ret: "returns L ephPub V ps"
    and own: "\<forall>p \<in> set ps. passes L ephPub V p \<longrightarrow>
      (\<exists>s bs. shares (pt_id p) = Some s \<and> partialDecrypt L (pt_id p) s ephPub bs = Inr p)"
    and quorum: "t \<le> card (pt_id ` {p \<in> set ps. passes L ephPub V p})"
  shows "thresholdCek L ephPub ps V t = Inr cek"
proof -
  note G = points_group[OF ok] and b = subgroup_base[OF ok]
  let ?fs = "firsts L ephPub V {} ps"
  note F = firsts_props[of L ephPub V "{}" ps]
  have eph0: "0 < eph" using cek by (auto simp: deriveCek_def assertSubgroupScalar_def split: if_splits)
  note E = ephemeral_point[OF ok eph0 eph]
  have ein: "ephPub \<in> subgroup_points L" "ephPub \<noteq> IDENTITY" using E scalarBaseMul_in[OF ok] e by simp_all
  have len: "t \<le> length ?fs" using quorum length_firsts[of L ephPub V ps] by simp
  let ?q = "map pt_id ?fs"
  have V: "pt_id p \<in> dom V" if "p \<in> set ?fs" for p
    using F that by (auto simp: passes_def split: option.splits)
  have q: "residues_distinct (subOrder L) ?q"
    using F ids V by (fastforce simp: residues_distinct_def distinct_map inj_on_def subset_iff)
  have "\<forall>i \<in> set ?q. \<exists>s. shares i = Some s \<and> scalarBaseMul L s = pt_eval L i Cs"
  proof
    fix i assume "i \<in> set ?q"
    then have "i \<in> dom V" using V by auto
    from bspec[OF keys this] show "\<exists>s. shares i = Some s \<and> scalarBaseMul L s = pt_eval L i Cs" by (elim exE conjE) (intro exI conjI)
  qed
  from reconstruct_key[OF ok q poly(1,2) _ this] obtain c where c: "scalarBaseMul L c = hd Cs"
    using poly(3) len by auto
  have k: "\<forall>i \<in> dom V. V i = Some (pt_eval L i Cs)"
  proof
    fix i assume "i \<in> dom V"
    from bspec[OF keys this] show "V i = Some (pt_eval L i Cs)" by (elim exE conjE) simp
  qed
  have own': "\<forall>p \<in> set ps. passes L ephPub V p \<longrightarrow>
      (\<exists>s. V (pt_id p) = Some (scalarBaseMul L s) \<and> dl_D (pt_proof p) = scalarMul L s ephPub)"
  proof (intro ballI impI)
    fix p assume p: "p \<in> set ps" "passes L ephPub V p"
    then obtain s bs where s: "shares (pt_id p) = Some s" "partialDecrypt L (pt_id p) s ephPub bs = Inr p" using own by blast
    have "pt_id p \<in> dom V" using p(2) by (auto simp: passes_def split: option.splits)
    from bspec[OF keys this] obtain s' where "shares (pt_id p) = Some s'" "V (pt_id p) = Some (scalarBaseMul L s')"
      by (elim exE conjE)
    then show "\<exists>s. V (pt_id p) = Some (scalarBaseMul L s) \<and> dl_D (pt_proof p) = scalarMul L s ephPub"
      using s partialDecrypt_D[OF s(2)] by auto
  qed
  have comb: "combine L ephPub ps V t = Inr (scalarMul L c ephPub)"
    by (rule combine_recovers[OF ok ein c[symmetric] poly(1,2) refl poly(3) k ids ret own' len])
  have "scalarMul L c ephPub = scalarMul L (int eph) (scalarBaseMul L c)"
    using scalar_group.mul_mul[OF G b] E(1) e by (simp add: scalarBaseMul_def mult.commute)
  also have "\<dots> = scalarMul L (int eph) (hd Cs)" by (simp only: c)
  also have "\<dots> = mulPointEscalar L (hd Cs) (int eph)"
    by (rule scalarMul_nat[OF ok _ refl]) (use poly(1,2) hd_in_set in blast)
  finally have "new_Fr (fst (scalarMul L c ephPub)) = Inr cek"
    using cek by (simp add: deriveCek_def note_lib.defs)
  then show ?thesis by (simp add: thresholdCek_def comb)
qed

lemma residues_participants: "int n < subOrder L \<Longrightarrow> residues_distinct (subOrder L) (map int [1..<Suc n])"
  by (rule residues_distinct_small) (auto simp: distinct_map)

lemma aggregate_loop_dom: "aggregate_loop L qual sh V ps = Inr (sh', V') \<Longrightarrow> dom V' \<subseteq> dom V \<union> set ps"
proof (induction ps arbitrary: sh V)
  case (Cons i ps)
  then obtain ci where "aggregate_loop L qual (sh(i \<mapsto> ci)) (V(i \<mapsto> scalarBaseMul L ci)) ps = Inr (sh', V')" by auto
  from Cons.IH[OF this] show ?case by auto
qed simp

lemma gjkr_dom: "runGjkrDkg L n t ctx faults rnd = Inr res \<Longrightarrow> dom (dk_V res) \<subseteq> set (map int [1..<Suc n])"
proof -
  assume "runGjkrDkg L n t ctx faults rnd = Inr res"
  then obtain cs where "dkg_aggregate L (map int [1..<Suc n]) cs = Inr res"
    unfolding runGjkrDkg_def Let_def by (auto simp del: upt_Suc split: if_splits)
  then obtain sh V where "aggregate_loop L cs Map.empty Map.empty (map int [1..<Suc n]) = Inr (sh, V)" "dk_V res = V"
    by (auto simp: dkg_aggregate_def simp del: upt_Suc)
  then show ?thesis using aggregate_loop_dom by fastforce
qed

lemma interpolate_reduced: "interpolateAtZero L shares quorum = Inr c \<Longrightarrow> modSub L c = c"
proof -
  have "interpolate_loop L shares quorum acc is = Inr c \<Longrightarrow> modSub L acc = acc \<Longrightarrow> modSub L c = c" for acc "is"
    by (induction "is" arbitrary: acc) (auto split: option.splits)
  from this[of 0 quorum] show "interpolateAtZero L shares quorum = Inr c \<Longrightarrow> modSub L c = c"
    by (simp add: interpolateAtZero_def) (simp add: modSub_def)
qed

text \<open>The group key of a run is the multiple of the base point by the sum of the secrets drawn.\<close>

lemma drawn_key:
  assumes ok: "tss_ok L" and t: "0 < t" and good: "g \<in> set (map int [1..<Suc n])" "g \<notin> faults"
  obtains s where "hd (drawn_polynomial L n t faults rnd) = scalarBaseMul L s" "modSub L s = s"
proof -
  note G = points_group[OF ok]
  let ?ids = "filter (\<lambda>i. i \<notin> faults) (map int [1..<Suc n])"
  let ?s = "foldl (\<lambda>a i. modSub L (a + hd (drawn L (rnd i) 0 t))) 0 ?ids"
  have f: "hd (feldmanCommit L (drawn L (rnd i) 0 t)) = scalarBaseMul L (hd (drawn L (rnd i) 0 t))"
    "feldmanCommit L (drawn L (rnd i) 0 t) \<noteq> []" for i
    using t by (cases t; simp add: feldmanCommit_def drawn_def upt_conv_Cons del: upt_Suc)+
  have "?ids \<noteq> []" using good by (auto simp: filter_empty_conv simp del: upt_Suc)
  then have "hd (drawn_polynomial L n t faults rnd) = foldl (\<lambda>P i. pointAdd L P (scalarBaseMul L (hd (drawn L (rnd i) 0 t)))) IDENTITY ?ids"
    using scalar_group.sum_heads[OF G, of "map (\<lambda>i. feldmanCommit L (drawn L (rnd i) 0 t)) ?ids"] feldmanCommit_in[OF ok] f
    by (simp add: drawn_polynomial_def foldl_map del: upt_Suc)
  also have "\<dots> = scalarBaseMul L ?s"
  proof -
    have "scalarBaseMul L 0 = IDENTITY"
      using scalar_group.mul_0[OF G subgroup_base[OF ok]] by (simp add: scalarBaseMul_def)
    then show ?thesis
      using scalarBaseMul_sum[OF ok, of "\<lambda>i. hd (drawn L (rnd i) 0 t)" 0 ?ids]
        scalar_group.idn_add[OF G fold_base_in[OF ok, of "\<lambda>i. hd (drawn L (rnd i) 0 t)" ?ids]] by (simp only:)
  qed
  also have "\<dots> = scalarBaseMul L (modSub L ?s)" using scalarBaseMul_inj[OF ok] by simp
  finally show thesis by (rule that) simp
qed

section \<open>The properties\<close>

text \<open>
  C16: Whatever the faulty dealers of a run do, once one dealer is honest the key generation finishes, and any
  quorum of its participants, at least as many as the threshold, signs any message: with fresh handles every
  signer returns a share, the coordinator accepts the shares, and the signature verifies under the group key.
\<close>
theorem group_signs:
  assumes ok: "tss_ok L" and u: "unpack_ok L" and hash: "poseidon_ok L" and h: "getH L = Inr h"
    and t: "0 < t" and ctx: "field_int ctx" and n: "int n < int FR_MODULUS" "int n < subOrder L"
    and good: "g \<in> set (map int [1..<Suc n])" "g \<notin> faults"
    and quorum: "distinct ids" "set ids \<subseteq> set (map int [1..<Suc n])" "t \<le> length ids"
    and fresh: "\<forall>i \<in> set ids. \<not> consumed (hs i)"
  shows "\<exists>res z rhos R sg. runGjkrDkg L n t ctx faults rnd = Inr res \<and>
    (\<forall>i \<in> set ids. snd (signShare (bjjCiphersuite L) i (hs i) (the (dk_shares res i)) (dk_C res) msg
       (round1 (bjjCiphersuite L) hs ids)) = Inr (z i)) \<and>
    bindingFactors (bjjCiphersuite L) (dk_C res) msg (round1 (bjjCiphersuite L) hs ids) = Inr rhos \<and>
    groupCommitment (bjjCiphersuite L) (round1 (bjjCiphersuite L) hs ids) rhos = Inr R \<and>
    coordinatorAggregate (bjjCiphersuite L) R (dk_C res) msg (round1 (bjjCiphersuite L) hs ids)
      (round2 (bjjCiphersuite L) (\<lambda>i. the (dk_shares res i)) z ids) t = Inr sg \<and>
    frost_verify (bjjCiphersuite L) (dk_C res) msg sg = Inr True"
proof -
  obtain res Cs where run: "runGjkrDkg L n t ctx faults rnd = Inr res"
    "set Cs \<subseteq> subgroup_points L" "Cs \<noteq> []" "length Cs \<le> t" "dk_C res = hd Cs"
    "\<forall>i \<in> set (map int [1..<Suc n]). \<exists>s. dk_shares res i = Some s \<and> dk_V res i = Some (scalarBaseMul L s) \<and>
      scalarBaseMul L s = pt_eval L i Cs"
    using gjkr_run[OF ok u h t ctx n(1) good] by blast
  have "residues_distinct (subOrder L) ids"
    using quorum(1,2) n(2) by (intro residues_distinct_small) (auto simp: subset_iff)
  moreover have "\<forall>i \<in> set ids. field_int i" using quorum(2) n(1) by (auto simp: field_int_def subset_iff)
  moreover have "\<forall>i \<in> set ids. scalarBaseMul L (the (dk_shares res i)) = pt_eval L i Cs"
  proof
    fix i assume "i \<in> set ids"
    then have "i \<in> set (map int [1..<Suc n])" using quorum(2) by blast
    from bspec[OF run(6) this] show "scalarBaseMul L (the (dk_shares res i)) = pt_eval L i Cs" by (elim exE conjE) simp
  qed
  ultimately show ?thesis
    using bjj_quorum_signs[OF ok hash _ _ fresh run(2,3) run(5)[symmetric] order_trans[OF run(4) quorum(3)] _ quorum(3),
        where s = "\<lambda>i. the (dk_shares res i)" and msg = msg] run(1) by blast
qed

theorem group_signs_witness:
  "\<exists>res R sg ps. runGjkrDkg demo_tss 3 2 5 {3} (\<lambda>i k. [of_int i * 5 + of_nat k]) = Inr res \<and>
    coordinatorAggregate (bjjCiphersuite demo_tss) R (dk_C res) [7]
      (round1 (bjjCiphersuite demo_tss) (\<lambda>i. \<lparr>n_d = 3 + i, n_e = 4, consumed = False\<rparr>) [1, 3]) ps 2 = Inr sg \<and>
    frost_verify (bjjCiphersuite demo_tss) (dk_C res) [7] sg = Inr True"
proof -
  have "int 3 < int FR_MODULUS" by (simp add: FR_MODULUS_def)
  from group_signs[OF demo_tss_ok demo_unpack_ok demo_poseidon_ok demo_H, of 2 5 3 1 "{3}" "[1, 3]"
      "\<lambda>i. \<lparr>n_d = 3 + i, n_e = 4, consumed = False\<rparr>" "\<lambda>i k. [of_int i * 5 + of_nat k]" "[7]"] this
  show ?thesis by (simp add: field_int_def FR_MODULUS_def) blast
qed

text \<open>
  C17: The coordinator returns only signatures: when the shares it accepts come from all of the committed signers,
  and their public shares lie on the polynomial of the group key, what it returns verifies under the group key.
\<close>
theorem accepted_shares_sign:
  assumes ok: "tss_ok L" and coms: "commitments_in (subgroup_points L) coms"
    and ids: "residues_distinct (subOrder L) (map c_id coms)"
    and rhos: "bindingFactors (bjjCiphersuite L) gpk msg coms = Inr rhos" and R: "groupCommitment (bjjCiphersuite L) coms rhos = Inr R"
    and agg: "coordinatorAggregate (bjjCiphersuite L) R gpk msg coms ps thr = Inr sg"
    and all: "ps_id ` set ps = c_id ` set coms"
    and poly: "set Cs \<subseteq> subgroup_points L" "Cs \<noteq> []" "hd Cs = gpk" "length Cs \<le> length coms"
    and keys: "\<forall>p \<in> set ps. publicShare p = pt_eval L (ps_id p) Cs"
  shows "frost_verify (bjjCiphersuite L) gpk msg sg = Inr True"
  using assms by (intro coordinator_signs[OF bjj_ok[OF ok] coms _ rhos R agg all poly]) simp_all

lemma demo_quorum:
  "\<exists>z rhos R sg. (\<forall>i \<in> {1, 2, 3}. signShareUnchecked (bjjCiphersuite demo_tss) i (\<lparr>n_d = 3 + i, n_e = 4, consumed = False\<rparr>)
      (5 + 2 * i) (dpt 5) [7]
      (round1 (bjjCiphersuite demo_tss) (\<lambda>i. \<lparr>n_d = 3 + i, n_e = 4, consumed = False\<rparr>) [1, 2, 3]) = Inr (z i)) \<and>
    bindingFactors (bjjCiphersuite demo_tss) (dpt 5) [7]
      (round1 (bjjCiphersuite demo_tss) (\<lambda>i. \<lparr>n_d = 3 + i, n_e = 4, consumed = False\<rparr>) [1, 2, 3]) = Inr rhos \<and>
    groupCommitment (bjjCiphersuite demo_tss)
      (round1 (bjjCiphersuite demo_tss) (\<lambda>i. \<lparr>n_d = 3 + i, n_e = 4, consumed = False\<rparr>) [1, 2, 3]) rhos = Inr R \<and>
    coordinatorAggregate (bjjCiphersuite demo_tss) R (dpt 5) [7]
      (round1 (bjjCiphersuite demo_tss) (\<lambda>i. \<lparr>n_d = 3 + i, n_e = 4, consumed = False\<rparr>) [1, 2, 3])
      (round2 (bjjCiphersuite demo_tss) (\<lambda>i. 5 + 2 * i) z [1, 2, 3]) 2 = Inr sg"
proof -
  have keys: "\<forall>i \<in> set [1, 2, 3]. scalarBaseMul demo_tss (5 + 2 * i) = pt_eval demo_tss i [dpt 5, dpt 2]"
    by (simp add: demo_base_mul pointAdd_def scalarMul_def modSub_def IDENTITY_def dpt_eq_iff)
  have c: "set [dpt 5, dpt 2] \<subseteq> subgroup_points demo_tss" by (simp add: demo_subgroup)
  have r: "residues_distinct (subOrder demo_tss) [1, 2, 3]" by (simp add: residues_distinct_def)
  have f: "\<forall>i \<in> set [1, 2, 3]. field_int i" by (simp add: field_int_def FR_MODULUS_def)
  let ?h = "\<lambda>i. \<lparr>n_d = 3 + i, n_e = 4, consumed = False\<rparr>"
  obtain z rhos R sg where o:
    "\<forall>i \<in> set [1, 2, 3]. snd (signShare (bjjCiphersuite demo_tss) i (?h i) (5 + 2 * i) (dpt 5) [7]
      (round1 (bjjCiphersuite demo_tss) ?h [1, 2, 3])) = Inr (z i)"
    "bindingFactors (bjjCiphersuite demo_tss) (dpt 5) [7] (round1 (bjjCiphersuite demo_tss) ?h [1, 2, 3]) = Inr rhos"
    "groupCommitment (bjjCiphersuite demo_tss) (round1 (bjjCiphersuite demo_tss) ?h [1, 2, 3]) rhos = Inr R"
    "coordinatorAggregate (bjjCiphersuite demo_tss) R (dpt 5) [7] (round1 (bjjCiphersuite demo_tss) ?h [1, 2, 3])
      (round2 (bjjCiphersuite demo_tss) (\<lambda>i. 5 + 2 * i) z [1, 2, 3]) 2 = Inr sg"
    using bjj_quorum_signs[OF demo_tss_ok demo_poseidon_ok r f _ c _ _ _ keys, where hs = ?h and gpk = "dpt 5" and thr = 2 and msg = "[7]"]
    by auto
  have "signShareUnchecked (bjjCiphersuite demo_tss) i (?h i) (5 + 2 * i) (dpt 5) [7]
      (round1 (bjjCiphersuite demo_tss) ?h [1, 2, 3]) = Inr (z i)" if "i \<in> {1, 2, 3}" for i
  proof -
    have "i \<in> set [1, 2, 3]" using that by simp
    from bspec[OF o(1) this] show ?thesis
      using signShare_unmarked[where h = "?h i" and b = True and cs = "bjjCiphersuite demo_tss" and i = i and s = "5 + 2 * i"
        and gpk = "dpt 5" and msg = "[7]" and coms = "round1 (bjjCiphersuite demo_tss) ?h [1, 2, 3]"]
      by (simp add: signShare_def markConsumed_def)
  qed
  with o(2-4) show ?thesis by blast
qed

theorem accepted_shares_sign_witness:
  "\<exists>R ps sg. coordinatorAggregate (bjjCiphersuite demo_tss) R (dpt 5) [7]
      (round1 (bjjCiphersuite demo_tss) (\<lambda>i. \<lparr>n_d = 3 + i, n_e = 4, consumed = False\<rparr>) [1, 2, 3]) ps 2 = Inr sg \<and>
    frost_verify (bjjCiphersuite demo_tss) (dpt 5) [7] sg = Inr True"
proof -
  let ?h = "\<lambda>i. \<lparr>n_d = 3 + i, n_e = 4, consumed = False\<rparr>"
  let ?coms = "round1 (bjjCiphersuite demo_tss) ?h [1, 2, 3]"
  obtain z rhos R sg where o: "bindingFactors (bjjCiphersuite demo_tss) (dpt 5) [7] ?coms = Inr rhos"
    "groupCommitment (bjjCiphersuite demo_tss) ?coms rhos = Inr R"
    "coordinatorAggregate (bjjCiphersuite demo_tss) R (dpt 5) [7] ?coms
      (round2 (bjjCiphersuite demo_tss) (\<lambda>i. 5 + 2 * i) z [1, 2, 3]) 2 = Inr sg"
    using demo_quorum by blast
  have "frost_verify (bjjCiphersuite demo_tss) (dpt 5) [7] sg = Inr True"
  proof (rule accepted_shares_sign[OF demo_tss_ok round1_in[OF bjj_ok[OF demo_tss_ok]] _ o])
    show "\<forall>p \<in> set (round2 (bjjCiphersuite demo_tss) (\<lambda>i. 5 + 2 * i) z [1, 2, 3]).
        publicShare p = pt_eval demo_tss (ps_id p) [dpt 5, dpt 2]"
      by (simp add: round2_def pointAdd_def scalarMul_def modSub_def IDENTITY_def dpt_eq_iff)
  qed (simp_all add: demo_subgroup residues_distinct_def)
  with o(3) show ?thesis by blast
qed

text \<open>
  C23: A signature share is accepted exactly when it is, modulo the order, the one its signer computes from the
  nonces it committed to and the secret share of its public share. So an honest signer is never blamed, and no
  other share passes in its name.
\<close>
theorem share_accepted_exactly:
  assumes "tss_ok L" "commitments_in (subgroup_points L) coms" "residues_distinct (subOrder L) (map c_id coms)"
    and "com \<in> set coms" "c_D com = scalarBaseMul L (n_d h)" "c_E com = scalarBaseMul L (n_e h)"
    and "signShareUnchecked (bjjCiphersuite L) (c_id com) h s gpk msg coms = Inr z"
  shows "verifySignatureShare (bjjCiphersuite L) (c_id com) z' (scalarBaseMul L s) gpk msg coms = Inr (modSub L z' = z)"
  using assms verifySignatureShare_exact[OF bjj_ok[OF assms(1)] assms(2) _ assms(4) _ _ assms(7), of z']
  by (simp add: scalarBaseMul_def modSub_def)

theorem share_accepted_exactly_witness:
  "\<exists>z. verifySignatureShare (bjjCiphersuite demo_tss) 1 z (dpt 7) (dpt 5) [7]
      (round1 (bjjCiphersuite demo_tss) (\<lambda>i. \<lparr>n_d = 3 + i, n_e = 4, consumed = False\<rparr>) [1, 2, 3]) = Inr True \<and>
    verifySignatureShare (bjjCiphersuite demo_tss) 1 (z + 1) (dpt 7) (dpt 5) [7]
      (round1 (bjjCiphersuite demo_tss) (\<lambda>i. \<lparr>n_d = 3 + i, n_e = 4, consumed = False\<rparr>) [1, 2, 3]) = Inr False"
proof -
  let ?h = "\<lambda>i. \<lparr>n_d = 3 + i, n_e = 4, consumed = False\<rparr>"
  let ?cs = "bjjCiphersuite demo_tss"
  let ?coms = "round1 ?cs ?h [1, 2, 3]"
  obtain z where z: "signShareUnchecked ?cs 1 (?h 1) 7 (dpt 5) [7] ?coms = Inr (z (1 :: int))" using demo_quorum by fastforce
  let ?c = "\<lparr>c_id = 1, c_D = dpt 4, c_E = dpt 4\<rparr>"
  have c: "?c \<in> set ?coms" by (simp add: round1_def scalarMul_def modSub_def)
  have r: "residues_distinct (subOrder demo_tss) (map c_id ?coms)" by (simp add: residues_distinct_def)
  have s: "signShareUnchecked ?cs (c_id ?c) (?h 1) 7 (dpt 5) [7] ?coms = Inr (z 1)" using z by simp
  have v: "verifySignatureShare ?cs 1 z' (dpt 7) (dpt 5) [7] ?coms = Inr (modSub demo_tss z' = z 1)" for z'
    using share_accepted_exactly[OF demo_tss_ok round1_in[OF bjj_ok[OF demo_tss_ok]] r c _ _ s, of z']
    by (simp add: demo_base_mul)
  have "z 1 mod 13 = z 1" by (rule signShareUnchecked_Inr[OF z]) simp
  moreover have "(z 1 + 1) mod 13 \<noteq> z 1"
  proof
    assume "(z 1 + 1) mod 13 = z 1"
    then have "(z 1 + 1) mod 13 = z 1 mod 13" using \<open>z 1 mod 13 = z 1\<close> by simp
    then show False by (simp add: mod_eq_dvd_iff)
  qed
  ultimately show ?thesis using v by (intro exI[of _ "z 1"]) (simp add: modSub_def)
qed

text \<open>
  One handle signs once. Of any sequence of signing requests on a handle, whatever the messages, keys and
  commitment lists, the first alone reaches the nonces; all others fail, also when the first failed.
\<close>
theorem handle_signs_once:
  "sign_all cs h reqs = (case reqs of [] \<Rightarrow> (h, []) | (i, s, gpk, msg, coms) # rest \<Rightarrow>
     (h\<lparr>consumed := True\<rparr>,
      (if consumed h then Inl (WError ''frost: one-time nonce reused (round-1 handle already consumed)'')
       else signShareUnchecked cs i h s gpk msg coms) #
      replicate (length rest) (Inl (WError ''frost: one-time nonce reused (round-1 handle already consumed)''))))"
proof (cases reqs)
  case (Cons r rest)
  obtain i s gpk msg coms where r: "r = (i, s, gpk, msg, coms)" by (cases r)
  show ?thesis
  proof (cases "consumed h")
    case True
    then have "h\<lparr>consumed := True\<rparr> = h" by (cases h) simp
    with True show ?thesis by (simp add: Cons r sign_all_consumed del: sign_all.simps)
  next
    case False
    then show ?thesis by (simp add: Cons r sign_all_fresh signShare_unmarked del: sign_all.simps)
  qed
qed simp



text \<open>
  C18: A run leaves out exactly the dealers that sent a corrupted share: the qualified set is the participants
  without them, for every choice of faulty dealers but all, and the group key is the sum of the first draws of the
  qualified dealers. Any quorum of the participants, at least as large as the threshold, interpolates its shares to the
  same logarithm of that key, and every public share is the multiple of the base point by the share.
\<close>
theorem gjkr_excludes_exactly_the_faulty:
  assumes ok: "tss_ok L" and u: "unpack_ok L" and h: "getH L = Inr h" and t: "0 < t" and ctx: "field_int ctx"
    and n: "int n < int FR_MODULUS" and good: "g \<in> set (map int [1..<Suc n])" "g \<notin> faults"
  shows "\<exists>res s. runGjkrDkg L n t ctx faults rnd = Inr res \<and>
    dk_qual res = filter (\<lambda>i. i \<notin> faults) (map int [1..<Suc n]) \<and> dk_C res = hd (drawn_polynomial L n t faults rnd) \<and>
    (\<forall>i \<in> set (map int [1..<Suc n]). dk_V res i = map_option (scalarBaseMul L) (dk_shares res i)) \<and>
    dk_C res = scalarBaseMul L s \<and>
    (\<forall>quorum. residues_distinct (subOrder L) quorum \<and> set quorum \<subseteq> set (map int [1..<Suc n]) \<and> t \<le> length quorum \<longrightarrow>
      interpolateAtZero L (dk_shares res) quorum = Inr s)"
proof -
  obtain res Cs where r: "runGjkrDkg L n t ctx faults rnd = Inr res"
    "dk_qual res = filter (\<lambda>i. i \<notin> faults) (map int [1..<Suc n])" "Cs = drawn_polynomial L n t faults rnd"
    "set Cs \<subseteq> subgroup_points L" "Cs \<noteq> []" "length Cs \<le> t" "dk_C res = hd Cs"
    "\<forall>i \<in> set (map int [1..<Suc n]). \<exists>s. dk_shares res i = Some s \<and> dk_V res i = Some (scalarBaseMul L s) \<and>
      scalarBaseMul L s = pt_eval L i Cs"
    using gjkr_run[OF ok u h t ctx n good] by blast
  have V: "\<forall>i \<in> set (map int [1..<Suc n]). dk_V res i = map_option (scalarBaseMul L) (dk_shares res i)"
  proof
    fix i assume "i \<in> set (map int [1..<Suc n])"
    from bspec[OF r(8) this] show "dk_V res i = map_option (scalarBaseMul L) (dk_shares res i)" by (elim exE conjE) simp
  qed
  have log: "\<exists>c. interpolateAtZero L (dk_shares res) quorum = Inr c \<and> scalarBaseMul L c = hd Cs \<and> modSub L c = c"
    if q: "residues_distinct (subOrder L) quorum" "set quorum \<subseteq> set (map int [1..<Suc n])" "t \<le> length quorum" for quorum
  proof -
    have "\<forall>i \<in> set quorum. \<exists>s. dk_shares res i = Some s \<and> scalarBaseMul L s = pt_eval L i Cs"
      using r(8) q(2) by (meson subsetD)
    then obtain c where c: "interpolateAtZero L (dk_shares res) quorum = Inr c" "scalarBaseMul L c = hd Cs"
      using reconstruct_key[OF ok q(1) r(4,5)] r(6) q(3) by (meson order_trans)
    then show ?thesis using interpolate_reduced[OF c(1)] by blast
  qed
  obtain s where s: "dk_C res = scalarBaseMul L s" "modSub L s = s"
    using drawn_key[OF ok t good, of rnd] r(3,7) by auto
  have "interpolateAtZero L (dk_shares res) quorum = Inr s"
    if q: "residues_distinct (subOrder L) quorum \<and> set quorum \<subseteq> set (map int [1..<Suc n]) \<and> t \<le> length quorum" for quorum
  proof -
    obtain c where c: "interpolateAtZero L (dk_shares res) quorum = Inr c" "scalarBaseMul L c = hd Cs" "modSub L c = c"
      using log q by blast
    then have "scalarBaseMul L c = scalarBaseMul L s" using s(1) r(7) by simp
    then have "c = s" using scalarBaseMul_inj[OF ok, of c s] c(3) s(2) by simp
    with c(1) show ?thesis by simp
  qed
  then show ?thesis using r(1,2,3,7) V s(1) by blast
qed

theorem gjkr_excludes_exactly_the_faulty_witness:
  "\<exists>res. runGjkrDkg demo_tss 3 2 5 {2} (\<lambda>i k. [of_nat k]) = Inr res \<and> dk_qual res = [1, 3] \<and> dk_C res = dpt 2 \<and>
    (\<exists>s. interpolateAtZero demo_tss (dk_shares res) [3, 1] = Inr s \<and> scalarBaseMul demo_tss s = dpt 2)"
proof -
  have "int 3 < int FR_MODULUS" "field_int 5" by (simp_all add: FR_MODULUS_def field_int_def)
  moreover have "hd (drawn_polynomial demo_tss 3 2 {2} (\<lambda>i k. [of_nat k])) = dpt 2"
    by (simp add: drawn_polynomial_def drawn_def feldmanCommit_def demo_base_mul randScalar_def upt_rec pointAdd_def)
  moreover have "residues_distinct (subOrder demo_tss) [3, 1]" by (simp add: residues_distinct_def)
  ultimately show ?thesis
    using gjkr_excludes_exactly_the_faulty[OF demo_tss_ok demo_unpack_ok demo_H, of 2 5 3 1 "{2}" "\<lambda>i k. [of_nat k]"]
    by (auto simp: upt_rec)
qed

text \<open>
  C19: The committee of a run reads every note addressed to its key. For an ephemeral scalar and the key of the run,
  let \<open>cek\<close> be the content key the sender derived. From partials of which those that pass were made by members, at
  least as many members as the threshold, the combination returns \<open>cek\<close>, without the secret of the committee.
\<close>
theorem committee_recovers_cek:
  assumes ok: "tss_ok L" and u: "unpack_ok L" and h: "getH L = Inr h" and t: "0 < t" and ctx: "field_int ctx"
    and n: "int n < int FR_MODULUS" "int n < subOrder L" and good: "g \<in> set (map int [1..<Suc n])" "g \<notin> faults"
    and run: "runGjkrDkg L n t ctx faults rnd = Inr res"
    and cek: "deriveCek (note_lib.truncate L) eph (dk_C res) = Inr cek" and eph: "int eph < subOrder L"
    and e: "ephPub = publicKey (note_lib.truncate L) eph"
    and ret: "returns L ephPub (dk_V res) ps"
    and own: "\<forall>p \<in> set ps. passes L ephPub (dk_V res) p \<longrightarrow>
      (\<exists>s bs. dk_shares res (pt_id p) = Some s \<and> partialDecrypt L (pt_id p) s ephPub bs = Inr p)"
    and quorum: "t \<le> card (pt_id ` {p \<in> set ps. passes L ephPub (dk_V res) p})"
  shows "thresholdCek L ephPub ps (dk_V res) t = Inr cek"
proof -
  obtain Cs where r: "set Cs \<subseteq> subgroup_points L" "Cs \<noteq> []" "length Cs \<le> t" "dk_C res = hd Cs"
    "\<forall>i \<in> set (map int [1..<Suc n]). \<exists>s. dk_shares res i = Some s \<and> dk_V res i = Some (scalarBaseMul L s) \<and>
      scalarBaseMul L s = pt_eval L i Cs"
    using gjkr_run[OF ok u h t ctx n(1) good, of rnd] run by auto
  have dom: "dom (dk_V res) \<subseteq> set (map int [1..<Suc n])" by (rule gjkr_dom[OF run])
  have keys: "\<forall>i \<in> dom (dk_V res). \<exists>s. dk_shares res i = Some s \<and> dk_V res i = Some (scalarBaseMul L s) \<and>
      scalarBaseMul L s = pt_eval L i Cs"
    using dom r(5) by (meson subsetD)
  show ?thesis
    by (rule committee_opens[OF ok r(1-3) residues_participants[OF n(2)] dom keys cek[unfolded r(4)] eph e ret own quorum])
qed

lemma demo_committee_run:
  "\<exists>res s1 s2. runGjkrDkg demo_tss 2 2 5 {} (\<lambda>i k. [of_nat k]) = Inr res \<and> dk_C res = dpt 2 \<and>
    dk_shares res 1 = Some s1 \<and> dk_V res 1 = Some (scalarBaseMul demo_tss s1) \<and> s1 mod 13 = 8 \<and>
    dk_shares res 2 = Some s2 \<and> dk_V res 2 = Some (scalarBaseMul demo_tss s2) \<and> s2 mod 13 = 1"
proof -
  have n: "int 2 < int FR_MODULUS" "field_int 5" by (simp_all add: FR_MODULUS_def field_int_def)
  have P: "drawn_polynomial demo_tss 2 2 {} (\<lambda>i k. [of_nat k]) = [dpt 2, dpt 6]"
    by (simp add: drawn_polynomial_def drawn_def feldmanCommit_def demo_base_mul randScalar_def upt_rec pointAdd_def)
  obtain res where r: "runGjkrDkg demo_tss 2 2 5 {} (\<lambda>i k. [of_nat k]) = Inr res" "dk_C res = hd [dpt 2, dpt 6]"
    "\<forall>i \<in> set (map int [1..<Suc 2]). \<exists>s. dk_shares res i = Some s \<and> dk_V res i = Some (scalarBaseMul demo_tss s) \<and>
      scalarBaseMul demo_tss s = pt_eval demo_tss i [dpt 2, dpt 6]"
    using gjkr_run[OF demo_tss_ok demo_unpack_ok demo_H _ n(2,1), of 2 1 "{}" "\<lambda>i k. [of_nat k]"] P by (auto simp: upt_rec)
  have "pt_eval demo_tss i [dpt 2, dpt 6] = dpt (2 + 6 * i)" for i
    by (simp add: pointAdd_def scalarMul_def modSub_def IDENTITY_def dpt_eq_iff)
      (metis mod_add_right_eq mod_mult_left_eq mult.commute)
  moreover have "1 \<in> set (map int [1..<Suc 2])" "2 \<in> set (map int [1..<Suc 2])" by (simp_all add: upt_rec)
  ultimately obtain s1 s2 where "dk_shares res 1 = Some s1" "dk_V res 1 = Some (scalarBaseMul demo_tss s1)" "dpt s1 = dpt 8"
    "dk_shares res 2 = Some s2" "dk_V res 2 = Some (scalarBaseMul demo_tss s2)" "dpt s2 = dpt 14"
    using bspec[OF r(3), of 1] bspec[OF r(3), of 2] by (auto simp: demo_base_mul)
  then show ?thesis using r(1,2) by (intro exI[of _ res] exI[of _ s1] exI[of _ s2]) (simp add: dpt_eq_iff)
qed

theorem committee_recovers_cek_witness:
  "\<exists>res ps. runGjkrDkg demo_tss 2 2 5 {} (\<lambda>i k. [of_nat k]) = Inr res \<and> dk_C res = dpt 2 \<and>
    thresholdCek demo_tss (dpt 3) ps (dk_V res) 2 = Inr 6"
proof -
  have n: "int 2 < int FR_MODULUS" "field_int 5" by (simp_all add: FR_MODULUS_def field_int_def)
  obtain res s1 s2 where r: "runGjkrDkg demo_tss 2 2 5 {} (\<lambda>i k. [of_nat k]) = Inr res" "dk_C res = dpt 2"
    "dk_shares res 1 = Some s1" "dk_V res 1 = Some (scalarBaseMul demo_tss s1)" "s1 mod 13 = 8"
    "dk_shares res 2 = Some s2" "dk_V res 2 = Some (scalarBaseMul demo_tss s2)" "s2 mod 13 = 1"
    using demo_committee_run by blast
  have e: "dpt 3 \<in> subgroup_points demo_tss" "dpt 3 \<noteq> IDENTITY" by (simp_all add: demo_subgroup IDENTITY_def dpt_def)
  have nz: "\<not> subOrder demo_tss dvd s1" "\<not> subOrder demo_tss dvd s2" using r(5,8) by (auto simp: dvd_eq_mod_eq_0)
  obtain p1 where p1: "cpProve demo_tss s1 (dpt 3) [] = Inr p1" "cpVerify demo_tss (scalarBaseMul demo_tss s1) (dpt 3) p1 = Inr True"
    using cp_complete[OF demo_tss_ok e nz(1)] by blast
  obtain p2 where p2: "cpProve demo_tss s2 (dpt 3) [] = Inr p2" "cpVerify demo_tss (scalarBaseMul demo_tss s2) (dpt 3) p2 = Inr True"
    using cp_complete[OF demo_tss_ok e nz(2)] by blast
  let ?ps = "[\<lparr>pt_id = 1, pt_proof = p1\<rparr>, \<lparr>pt_id = 2, pt_proof = p2\<rparr>]"
  have a: "assertInSubgroup demo_tss (dpt 3) ''eph_pub'' = Inr ()"
    using assertInSubgroup_iff[of demo_tss "dpt 3"] e by simp
  have d: "partialDecrypt demo_tss 1 s1 (dpt 3) [] = Inr (?ps ! 0)" "partialDecrypt demo_tss 2 s2 (dpt 3) [] = Inr (?ps ! 1)"
    by (simp_all add: partialDecrypt_def a p1 p2)
  have pass: "\<forall>p \<in> set ?ps. passes demo_tss (dpt 3) (dk_V res) p" using r(4,7) p1 p2 by (simp add: passes_def)
  have ret: "returns demo_tss (dpt 3) (dk_V res) ?ps"
    unfolding returns_def
  proof (intro ballI allI impI)
    fix p vi assume "p \<in> set ?ps" "dk_V res (pt_id p) = Some vi"
    then show "\<exists>b. cpVerify demo_tss vi (dpt 3) (pt_proof p) = Inr b" using r(4,7) p1 p2 by auto
  qed
  have own: "\<forall>p \<in> set ?ps. passes demo_tss (dpt 3) (dk_V res) p \<longrightarrow>
      (\<exists>s bs. dk_shares res (pt_id p) = Some s \<and> partialDecrypt demo_tss (pt_id p) s (dpt 3) bs = Inr p)"
    using r(3,6) d by auto
  have "{p \<in> set ?ps. passes demo_tss (dpt 3) (dk_V res) p} = set ?ps" using pass by blast
  then have q: "2 \<le> card (pt_id ` {p \<in> set ?ps. passes demo_tss (dpt 3) (dk_V res) p})" by simp
  have cek: "deriveCek (note_lib.truncate demo_tss) 3 (dk_C res) = Inr 6"
    by (simp add: deriveCek_def assertSubgroupScalar_def assertValidPoint_def demo_truncate r(2) dpt_def BJJ_SUBGROUP_ORDER_def
        new_Fr_def FR_MODULUS_def)
  have ep: "dpt 3 = publicKey (note_lib.truncate demo_tss) 3" by (simp add: publicKey_def demo_truncate)
  have "thresholdCek demo_tss (dpt 3) ?ps (dk_V res) 2 = Inr 6"
    by (rule committee_recovers_cek[OF demo_tss_ok demo_unpack_ok demo_H _ n(2,1) _ _ _ r(1) cek _ ep ret own q, where g = 1])
      (simp_all add: upt_rec)
  with r(1,2) show ?thesis by blast
qed

text \<open>
  C24: No proof of a false statement survives a second challenge. If the same commitments pass under two hashes that
  give different challenges, the partial is the member's own multiple of the ephemeral point. So for commitments to
  a false partial at most one challenge value passes.
\<close>
theorem false_dleq_passes_once:
  assumes ok: "tss_ok L" and epk: "epk \<in> subgroup_points L"
    and AB: "dl_A p \<in> subgroup_points L" "dl_B p \<in> subgroup_points L" and D: "dl_D p \<in> subgroup_points L"
    and v1: "cpVerify L (scalarBaseMul L x) epk p = Inr True"
    and v2: "cpVerify (L\<lparr>poseidon2Hash := g\<rparr>) (scalarBaseMul L x) epk (p\<lparr>dl_z := z\<rparr>) = Inr True"
    and e1: "hashToScalar L CP_DOMAIN (transcript L epk (scalarBaseMul L x) (dl_D p) (dl_A p) (dl_B p)) = Inr e1"
    and e2: "hashToScalar (L\<lparr>poseidon2Hash := g\<rparr>) CP_DOMAIN
      (transcript L epk (scalarBaseMul L x) (dl_D p) (dl_A p) (dl_B p)) = Inr e2"
    and diff: "modSub L e1 \<noteq> modSub L e2"
  shows "dl_D p = scalarMul L x epk"
proof -
  let ?L = "L\<lparr>poseidon2Hash := g\<rparr>"
  have same: "scalarMul ?L = scalarMul L" "pointAdd ?L = pointAdd L" "Base8 ?L = Base8 L"
    "transcript ?L = transcript L"
    by (simp_all add: fun_eq_iff scalarMul_def modSub_def pointAdd_def transcript_def)
  have nd: "\<not> subOrder L dvd e1 - e2" using diff by (simp add: modSub_def mod_eq_dvd_iff)
  obtain e where "hashToScalar L CP_DOMAIN (transcript L epk (scalarBaseMul L x) (dl_D p) (dl_A p) (dl_B p)) = Inr e"
    "scalarMul L (dl_z p) (Base8 L) = pointAdd L (dl_A p) (scalarMul L e (scalarBaseMul L x))"
    "scalarMul L (dl_z p) epk = pointAdd L (dl_B p) (scalarMul L e (dl_D p))"
    using v1 by (rule cpVerify_Inr)
  moreover obtain e' where "hashToScalar ?L CP_DOMAIN (transcript L epk (scalarBaseMul L x) (dl_D p) (dl_A p) (dl_B p)) = Inr e'"
    "scalarMul L z (Base8 L) = pointAdd L (dl_A p) (scalarMul L e' (scalarBaseMul L x))"
    "scalarMul L z epk = pointAdd L (dl_B p) (scalarMul L e' (dl_D p))"
    using v2 by (rule cpVerify_Inr) (simp add: same)
  ultimately show ?thesis using cp_special_sound[OF ok epk AB D, of "dl_z p" e1 x z e2] e1 e2 nd by simp
qed

lemma tss_ok_hash: "tss_ok (L\<lparr>poseidon2Hash := g\<rparr>) = tss_ok L"
  by (simp add: tss_ok_def curve_point_def)

lemma subgroup_points_hash: "subgroup_points (L\<lparr>poseidon2Hash := g\<rparr>) = subgroup_points L"
  by (simp add: subgroup_points_def curve_point_def inSubgroup_def)

theorem false_dleq_passes_once_witness:
  "scalarMul (demo_tss\<lparr>poseidon2Hash := (\<lambda>_. 1)\<rparr>) 3 (dpt 2) = dpt 6"
proof -
  let ?L = "demo_tss\<lparr>poseidon2Hash := (\<lambda>_. 1)\<rparr>"
  let ?tr = "transcript ?L (dpt 2) (scalarBaseMul ?L 3) (dpt 6) (dpt 4) (dpt 8)"
  have f: "\<forall>x \<in> set ([CP_DOMAIN] @ ?tr @ [b]). field_int x" if "b = 0 \<or> b = 1" for b
    using that by (auto simp: transcript_def scalarBaseMul_def scalarMul_def modSub_def dpt_def field_int_def FR_MODULUS_def
        CP_DOMAIN_def)
  have e1: "hashToScalar ?L CP_DOMAIN ?tr = Inr ((2 ^ 254 + 1) mod 13)"
    using poseidon2_Inr[OF _ f[of 0], of ?L] poseidon2_Inr[OF _ f[of 1], of ?L]
    by (simp add: hashToScalar_def HIGH_SHIFT_def push_bit_eq_mult)
  have e2: "hashToScalar (?L\<lparr>poseidon2Hash := (\<lambda>_. 0)\<rparr>) CP_DOMAIN ?tr = Inr 0"
    using poseidon2_Inr[OF _ f[of 0], of "?L\<lparr>poseidon2Hash := (\<lambda>_. 0)\<rparr>"] poseidon2_Inr[OF _ f[of 1], of "?L\<lparr>poseidon2Hash := (\<lambda>_. 0)\<rparr>"]
    by (simp add: hashToScalar_def)
  let ?p = "\<lparr>dl_D = dpt 6, dl_A = dpt 4, dl_B = dpt 8, dl_z = 4 + ((2 ^ 254 + 1) mod 13) * 3\<rparr>"
  have in_G: "P \<in> subgroup_points ?L \<longleftrightarrow> P = dpt (fst P)" for P
    using demo_subgroup[of P] by (simp only: subgroup_points_hash)
  have v1: "cpVerify ?L (scalarBaseMul ?L 3) (dpt 2) ?p = Inr True"
    using e1 by (simp add: cpVerify_def inSubgroupNonId_def inSubgroup_def isIdentity_def scalarMul_def scalarBaseMul_def
        modSub_def pointAdd_def dpt_def Let_def)
  have v2: "cpVerify (?L\<lparr>poseidon2Hash := (\<lambda>_. 0)\<rparr>) (scalarBaseMul ?L 3) (dpt 2) (?p\<lparr>dl_z := 4\<rparr>) = Inr True"
    using e2 by (simp add: cpVerify_def inSubgroupNonId_def inSubgroup_def isIdentity_def scalarMul_def scalarBaseMul_def
        modSub_def pointAdd_def dpt_def Let_def transcript_def)
  have "dl_D ?p = scalarMul ?L 3 (dpt 2)"
  proof (rule false_dleq_passes_once[OF _ _ _ _ _ v1 v2])
    show "tss_ok ?L" using demo_tss_ok by (simp only: tss_ok_hash)
    show "hashToScalar ?L CP_DOMAIN (transcript ?L (dpt 2) (scalarBaseMul ?L 3) (dl_D ?p) (dl_A ?p) (dl_B ?p)) =
        Inr ((2 ^ 254 + 1) mod 13)" using e1 by (simp only: DleqProof.simps)
    show "hashToScalar (?L\<lparr>poseidon2Hash := \<lambda>_. 0\<rparr>) CP_DOMAIN
        (transcript ?L (dpt 2) (scalarBaseMul ?L 3) (dl_D ?p) (dl_A ?p) (dl_B ?p)) = Inr 0"
      using e2 by (simp only: DleqProof.simps)
    show "modSub ?L ((2 ^ 254 + 1) mod 13) \<noteq> modSub ?L 0" by (simp add: modSub_def)
  qed (simp_all only: DleqProof.simps in_G fst_dpt dpt_mod)
  then show ?thesis by simp
qed

text \<open>
  C40: The coordinator does not ask for all of the committed signers: from honest shares of some of them, as many as
  the threshold, it returns a signature without complaint, and that signature verifies only if the shares left out
  add up to zero.
\<close>
theorem missing_signers_spoil_silently:
  assumes ok: "tss_ok L" and ids: "residues_distinct (subOrder L) (keep @ miss)"
    and sign: "\<forall>i \<in> set (keep @ miss). signShareUnchecked (bjjCiphersuite L) i (h i) (s i) gpk msg
      (round1 (bjjCiphersuite L) h (keep @ miss)) = Inr (z i)"
    and R: "bindingFactors (bjjCiphersuite L) gpk msg (round1 (bjjCiphersuite L) h (keep @ miss)) = Inr rhos"
      "groupCommitment (bjjCiphersuite L) (round1 (bjjCiphersuite L) h (keep @ miss)) rhos = Inr R"
    and poly: "set Cs \<subseteq> subgroup_points L" "Cs \<noteq> []" "hd Cs = gpk" "length Cs \<le> length (keep @ miss)"
    and keys: "\<forall>i \<in> set (keep @ miss). scalarBaseMul L (s i) = pt_eval L i Cs"
    and thr: "thr \<le> length keep"
  shows "\<exists>sg. coordinatorAggregate (bjjCiphersuite L) R gpk msg (round1 (bjjCiphersuite L) h (keep @ miss))
      (round2 (bjjCiphersuite L) s z keep) thr = Inr sg \<and>
    frost_verify (bjjCiphersuite L) gpk msg sg = Inr (subOrder L dvd (\<Sum>i \<leftarrow> miss. z i))"
  using subset_signature[OF bjj_ok[OF ok] _ sign R poly _ thr] ids keys by (simp add: scalarBaseMul_def)

theorem missing_signers_spoil_silently_witness:
  "\<exists>z R sg. coordinatorAggregate (bjjCiphersuite demo_tss) R (dpt 5) [7]
      (round1 (bjjCiphersuite demo_tss) (\<lambda>i. \<lparr>n_d = 3 + i, n_e = 4, consumed = False\<rparr>) [1, 2, 3])
      (round2 (bjjCiphersuite demo_tss) (\<lambda>i. 5 + 2 * i) z [1, 2]) 2 = Inr sg \<and>
    frost_verify (bjjCiphersuite demo_tss) (dpt 5) [7] sg = Inr (13 dvd z 3)"
proof -
  let ?h = "\<lambda>i. \<lparr>n_d = 3 + i, n_e = 4, consumed = False\<rparr>" and ?cs = "bjjCiphersuite demo_tss"
  obtain z rhos R where o: "\<forall>i \<in> {1, 2, 3}. signShareUnchecked ?cs i (?h i) (5 + 2 * i) (dpt 5) [7] (round1 ?cs ?h [1, 2, 3]) = Inr (z i)"
    "bindingFactors ?cs (dpt 5) [7] (round1 ?cs ?h [1, 2, 3]) = Inr rhos" "groupCommitment ?cs (round1 ?cs ?h [1, 2, 3]) rhos = Inr R"
    using demo_quorum by blast
  have k: "\<forall>i \<in> set ([1, 2] @ [3]). scalarBaseMul demo_tss (5 + 2 * i) = pt_eval demo_tss i [dpt 5, dpt 2]"
    by (simp add: demo_base_mul pointAdd_def scalarMul_def modSub_def IDENTITY_def dpt_eq_iff)
  have r: "residues_distinct (subOrder demo_tss) ([1, 2] @ [3])" by (simp add: residues_distinct_def)
  have "set [dpt 5, dpt 2] \<subseteq> subgroup_points demo_tss" by (simp add: demo_subgroup)
  from missing_signers_spoil_silently[OF demo_tss_ok r _ _ _ this _ _ _ k, where h = ?h and z = z and R = R and rhos = rhos and
      gpk = "dpt 5" and msg = "[7]" and thr = 2] o
  show ?thesis by (intro exI[of _ z] exI[of _ R]) simp
qed

text \<open>
  The contribution of a dealer whose polynomial is longer than the threshold is verified by every participant, and
  the threshold many shares then give a wrong secret: here the secret is 5, the polynomial has three coefficients,
  and two shares give 3.
\<close>

lemma degree_not_checked:
  "\<exists>c. dealerContribute demo_tss 1 [1, 2, 3] 3 7 (\<lambda>k. [if k = 0 then 4 else if k = 1 then 11 else 0]) = Inr (c, 5) \<and>
    (\<forall>j \<in> set [1, 2, 3]. verifyContribution demo_tss j c 7 = Inr True) \<and>
    interpolateAtZero demo_tss (dc_shares c) [1, 2] = Inr 3"
proof -
  let ?rnd = "\<lambda>k :: nat. [if k = 0 then 4 else if k = 1 then 11 else 0] :: bytes"
  have f: "field_int 1" "field_int 7" by (simp_all add: field_int_def FR_MODULUS_def)
  have r: "randScalar demo_tss (?rnd 0) = 5" "map (\<lambda>k. randScalar demo_tss (?rnd k)) [0..<3] = [5, 12, 1]"
    by (simp_all add: randScalar_def upt_rec)
  obtain c where c: "dealerContribute demo_tss 1 [1, 2, 3] 3 7 ?rnd = Inr (c, 5)"
    "\<forall>j. dc_shares c j = (if j \<in> set [1, 2, 3] then Some (polyEval demo_tss [5, 12, 1] j) else None)"
    using dealerContribute_Inr[OF demo_tss_ok f, of 3 "[1, 2, 3]" ?rnd] unfolding r by auto
  have "\<forall>j \<in> set [1, 2, 3]. verifyContribution demo_tss j c 7 = Inr True"
    using verifyContribution_honest[OF demo_tss_ok f _ _ c(1)] by simp
  moreover have "polyEval demo_tss [5, 12, 1] 1 = 5" "polyEval demo_tss [5, 12, 1] 2 = 7"
    by (simp_all add: polyEval_Cons polyEval_Nil modSub_def)
  moreover have "lagrangeAtZero demo_tss 1 [1, 2] = Inr 2" "lagrangeAtZero demo_tss 2 [1, 2] = Inr 12"
    by (simp_all add: lagrangeAtZero_def lagrange_step_def modSub_def invSub_def powSub_def powSub_loop.simps)
  ultimately show ?thesis using c by (intro exI[of _ c]) (simp add: interpolateAtZero_def modSub_def)
qed

end
