(* ===== verification/Chain_Trace.thy ===== *)
theory Chain_Trace
  imports Note_Crypto "HOL-Library.Product_Lexorder"
begin

text \<open>
  The spend graph of \<^verbatim>\<open>threshold/chainTrace.ts\<close>: opening a leaf against its commitment, one step forward and
  one step backward, and the traversal with its worklist. The chain and the decryption are parameters, as they
  are callbacks of the code. A worklist may never empty on a chain that answers with ever new leaves, so the
  traversal is a partial function; the properties show that it returns.
\<close>

section \<open>The chain\<close>

record LeafData =
  ld_ephPub :: point
  ld_ciphertext :: "fr list"
  ld_leaf :: fr

record ChainState =
  getLeaf :: "int \<Rightarrow> LeafData option"
  nextLeafIndex :: int
  isNullifierSpent :: "fr \<Rightarrow> bool"
  childrenOfSpend :: "fr \<Rightarrow> int list"

type_synonym DecryptNote = "point \<Rightarrow> fr list \<Rightarrow> wallet_error + fr list \<times> fr"

record SpendGraph =
  sg_nodes :: "int list"
  sg_edges :: "(int \<times> int) list"
  sg_truncated :: "int list"

record Expansion =
  neighbor :: int
  edge :: "int \<times> int"

record StepResult =
  expansions :: "Expansion list"
  sr_truncated :: bool

section \<open>Opening a leaf\<close>

definition PARENTS_FIELD_INDEX :: nat where "PARENTS_FIELD_INDEX = DEM_FIELDS - 1"

definition openLeaf :: "note_lib \<Rightarrow> LeafData \<Rightarrow> DecryptNote \<Rightarrow> wallet_error + (fr list \<times> fr) option" where
  "openLeaf L data decrypt = ebind (decrypt (ld_ephPub data) (ld_ciphertext data)) (\<lambda>(fs, cek).
     if length fs < DEM_FIELDS then Inr None
     else if fs ! 4 \<ge> 2 ^ 128 then Inr None
     else (let p = computePsi L cek in
       ebind (leaf L \<lparr>noteVersion = fs ! 0, assetId = fs ! 1, noteType = fs ! 2, conditionsHash = fs ! 3,
         n_value = int (fs ! 4), n_owner = fs ! 5, psi = p, parents = fs ! PARENTS_FIELD_INDEX\<rparr>) (\<lambda>rebuilt.
       Inr (if rebuilt = ld_leaf data then Some (fs, p) else None))))"

section \<open>The graph\<close>

record GraphBuilder =
  nodeSet :: "int set"
  edgeList :: "(int \<times> int) list"
  truncatedSet :: "int set"

definition addNode :: "int \<Rightarrow> GraphBuilder \<Rightarrow> GraphBuilder" where
  "addNode index g = g\<lparr>nodeSet := insert index (nodeSet g)\<rparr>"

definition addTruncated :: "int \<Rightarrow> GraphBuilder \<Rightarrow> GraphBuilder" where
  "addTruncated index g = g\<lparr>truncatedSet := insert index (truncatedSet g)\<rparr>"

definition addEdge :: "int \<times> int \<Rightarrow> GraphBuilder \<Rightarrow> GraphBuilder" where
  "addEdge e g = (if e \<in> set (edgeList g) then g else g\<lparr>edgeList := edgeList g @ [e]\<rparr>)"

definition build :: "GraphBuilder \<Rightarrow> SpendGraph" where
  "build g = \<lparr>sg_nodes = sorted_list_of_set (nodeSet g), sg_edges = sort (edgeList g),
     sg_truncated = sorted_list_of_set (truncatedSet g)\<rparr>"

section \<open>The traversal\<close>

definition assertInRange :: "int \<Rightarrow> ChainState \<Rightarrow> wallet_error + unit" where
  "assertInRange index chain = (let n = nextLeafIndex chain in
     if index < 0 \<or> index \<ge> n then Inl (WError ''chainTrace: leaf index out of range'') else Inr ())"

text \<open>One unvisited index: the node, its truncation and its edges are recorded, its unvisited neighbors are pushed.
The head of the list is the top of the worklist.\<close>

definition record_step :: "int \<Rightarrow> StepResult \<Rightarrow> GraphBuilder \<Rightarrow> GraphBuilder" where
  "record_step index r graph = foldl (\<lambda>g x. addEdge (edge x) g)
     (let graph' = addNode index graph in if sr_truncated r then addTruncated index graph' else graph') (expansions r)"

definition push_unvisited :: "int set \<Rightarrow> StepResult \<Rightarrow> int list \<Rightarrow> int list" where
  "push_unvisited visited r worklist =
     foldl (\<lambda>w x. if neighbor x \<in> visited then w else neighbor x # w) worklist (expansions r)"

partial_function (option) traverse_loop ::
  "(int \<Rightarrow> 'e + StepResult) \<Rightarrow> GraphBuilder \<Rightarrow> int set \<Rightarrow> int list \<Rightarrow> ('e + GraphBuilder) option"
where
  "traverse_loop step graph visited worklist = (case worklist of [] \<Rightarrow> Some (Inr graph)
   | index # rest \<Rightarrow>
       if index \<in> visited then traverse_loop step graph visited rest
       else (case step index of Inl err \<Rightarrow> Some (Inl err)
         | Inr r \<Rightarrow> traverse_loop step (record_step index r graph) (insert index visited)
             (push_unvisited (insert index visited) r rest)))"

definition traverse :: "int \<Rightarrow> ChainState \<Rightarrow> (int \<Rightarrow> wallet_error + StepResult) \<Rightarrow> (wallet_error + SpendGraph) option" where
  "traverse start chain step = (case assertInRange start chain of Inl err \<Rightarrow> Some (Inl err)
   | Inr _ \<Rightarrow> map_option (\<lambda>r. ebind r (\<lambda>g. Inr (build g)))
       (traverse_loop step \<lparr>nodeSet = {}, edgeList = [], truncatedSet = {}\<rparr> {} [start]))"

section \<open>Steps\<close>

definition consumedLeaves :: "fr \<Rightarrow> ChainState \<Rightarrow> wallet_error + int list option" where
  "consumedLeaves packed chain =
     (if packed \<ge> 2 ^ 64 then Inr None
      else ebind (unpackParents packed) (\<lambda>(p0, p1).
        let indexes = (if p1 = 0 then [p0] else [p0, p1]); n = nextLeafIndex chain
        in Inr (if list_all (\<lambda>i. 0 \<le> i \<and> i < n) indexes then Some indexes else None)))"

definition cut_off :: StepResult where
  "cut_off = \<lparr>expansions = [], sr_truncated = True\<rparr>"

definition forward_step :: "note_lib \<Rightarrow> ChainState \<Rightarrow> DecryptNote \<Rightarrow> int \<Rightarrow> wallet_error + StepResult" where
  "forward_step L chain decrypt index = (case getLeaf chain index of None \<Rightarrow> Inr cut_off
   | Some leafData \<Rightarrow> ebind (openLeaf L leafData decrypt) (\<lambda>opened. case opened of None \<Rightarrow> Inr cut_off
     | Some (fs, p) \<Rightarrow> ebind (new_Fr index) (\<lambda>i. let nf = computeNullifier L p i in
         if \<not> isNullifierSpent chain nf then Inr \<lparr>expansions = [], sr_truncated = False\<rparr>
         else (let children = childrenOfSpend chain nf; n = nextLeafIndex chain in
           if \<not> list_all (\<lambda>c. 0 \<le> c \<and> c < n) children then Inr cut_off
           else Inr \<lparr>expansions = map (\<lambda>child. \<lparr>neighbor = child, edge = (index, child)\<rparr>) children,
                  sr_truncated = (children = [])\<rparr>))))"

definition forwardTrace :: "note_lib \<Rightarrow> int \<Rightarrow> ChainState \<Rightarrow> DecryptNote \<Rightarrow> (wallet_error + SpendGraph) option" where
  "forwardTrace L startLeafIndex chain decrypt = traverse startLeafIndex chain (forward_step L chain decrypt)"

text \<open>The loop over the parents of a sibling: \<open>Inr False\<close> where the code returns null.\<close>

fun bridge_loop :: "note_lib \<Rightarrow> int \<Rightarrow> ChainState \<Rightarrow> DecryptNote \<Rightarrow> int list \<Rightarrow> wallet_error + bool" where
  "bridge_loop L memoIndex chain decrypt [] = Inr True"
| "bridge_loop L memoIndex chain decrypt (parent # rest) = (case getLeaf chain parent of None \<Rightarrow> Inr False
   | Some parentLeaf \<Rightarrow> ebind (openLeaf L parentLeaf decrypt) (\<lambda>opened. case opened of None \<Rightarrow> Inr False
     | Some (fs, p) \<Rightarrow> ebind (new_Fr parent) (\<lambda>i. let nf = computeNullifier L p i in
         if memoIndex \<notin> set (childrenOfSpend chain nf) then Inr False
         else bridge_loop L memoIndex chain decrypt rest)))"

definition bridgeHiddenParents :: "note_lib \<Rightarrow> int \<Rightarrow> ChainState \<Rightarrow> DecryptNote \<Rightarrow> wallet_error + fr option" where
  "bridgeHiddenParents L memoIndex chain decrypt = (case getLeaf chain (memoIndex + 1) of None \<Rightarrow> Inr None
   | Some sibling \<Rightarrow> ebind (openLeaf L sibling decrypt) (\<lambda>opened. case opened of None \<Rightarrow> Inr None
     | Some (fs, p) \<Rightarrow> (let packed = fs ! PARENTS_FIELD_INDEX in
         if packed = 0 \<or> packed = PARENTS_HIDDEN then Inr None
         else ebind (consumedLeaves packed chain) (\<lambda>ps. case ps of None \<Rightarrow> Inr None
           | Some indexes \<Rightarrow> ebind (bridge_loop L memoIndex chain decrypt indexes) (\<lambda>ok.
               Inr (if ok then Some packed else None))))))"

definition expand :: "ChainState \<Rightarrow> int \<Rightarrow> fr \<Rightarrow> wallet_error + StepResult" where
  "expand chain index packed = ebind (consumedLeaves packed chain) (\<lambda>ps. case ps of None \<Rightarrow> Inr cut_off
     | Some indexes \<Rightarrow> Inr \<lparr>expansions = map (\<lambda>parent. \<lparr>neighbor = parent, edge = (parent, index)\<rparr>) indexes,
         sr_truncated = False\<rparr>)"

definition backward_step :: "note_lib \<Rightarrow> ChainState \<Rightarrow> DecryptNote \<Rightarrow> int \<Rightarrow> wallet_error + StepResult" where
  "backward_step L chain decrypt index = (case getLeaf chain index of None \<Rightarrow> Inr cut_off
   | Some leafData \<Rightarrow> ebind (openLeaf L leafData decrypt) (\<lambda>opened. case opened of None \<Rightarrow> Inr cut_off
     | Some (fs, p) \<Rightarrow> (let packed = fs ! PARENTS_FIELD_INDEX in
         if packed = 0 then Inr \<lparr>expansions = [], sr_truncated = False\<rparr>
         else if packed = PARENTS_HIDDEN
         then ebind (bridgeHiddenParents L index chain decrypt) (\<lambda>bridged. case bridged of None \<Rightarrow> Inr cut_off
           | Some b \<Rightarrow> expand chain index b)
         else expand chain index packed)))"

definition backwardTrace :: "note_lib \<Rightarrow> int \<Rightarrow> ChainState \<Rightarrow> DecryptNote \<Rightarrow> (wallet_error + SpendGraph) option" where
  "backwardTrace L startLeafIndex chain decrypt = traverse startLeafIndex chain (backward_step L chain decrypt)"

section \<open>Depth first\<close>

definition step_rel :: "(int \<Rightarrow> StepResult) \<Rightarrow> (int \<times> int) set" where
  "step_rel f = {(i, neighbor x) | i x. x \<in> set (expansions (f i))}"

definition step_edges :: "(int \<Rightarrow> StepResult) \<Rightarrow> int set \<Rightarrow> (int \<times> int) set" where
  "step_edges f V = (\<Union>i \<in> V. edge ` set (expansions (f i)))"

lemma set_addEdge: "set (edgeList (addEdge e g)) = insert e (set (edgeList g))" "nodeSet (addEdge e g) = nodeSet g"
  "truncatedSet (addEdge e g) = truncatedSet g" "distinct (edgeList g) \<Longrightarrow> distinct (edgeList (addEdge e g))"
  by (auto simp: addEdge_def)

lemma edges_recorded:
  "set (edgeList (foldl (\<lambda>g x. addEdge (edge x) g) g xs)) = set (edgeList g) \<union> edge ` set xs"
  "nodeSet (foldl (\<lambda>g x. addEdge (edge x) g) g xs) = nodeSet g"
  "truncatedSet (foldl (\<lambda>g x. addEdge (edge x) g) g xs) = truncatedSet g"
  "distinct (edgeList g) \<Longrightarrow> distinct (edgeList (foldl (\<lambda>g x. addEdge (edge x) g) g xs))"
  by (induction xs arbitrary: g) (auto simp: set_addEdge)

lemma set_push_unvisited:
  "set (push_unvisited V r w) = set w \<union> (neighbor ` set (expansions r) - V)"
proof -
  have "set (foldl (\<lambda>w x. if neighbor x \<in> V then w else neighbor x # w) w xs) = set w \<union> (neighbor ` set xs - V)" for xs
    by (induction xs arbitrary: w) auto
  then show ?thesis by (simp add: push_unvisited_def)
qed

definition graph_of :: "(int \<Rightarrow> StepResult) \<Rightarrow> int set \<Rightarrow> GraphBuilder \<Rightarrow> bool" where
  "graph_of f V g \<longleftrightarrow> nodeSet g = V \<and> set (edgeList g) = step_edges f V \<and> distinct (edgeList g) \<and>
     truncatedSet g = {i \<in> V. sr_truncated (f i)}"

lemma traverse_loop_total:
  assumes U: "finite U" and step: "\<forall>i \<in> U. step i = Inr (f i) \<and> neighbor ` set (expansions (f i)) \<subseteq> U"
  shows "graph_of f V g \<Longrightarrow> V \<subseteq> U \<Longrightarrow> set w \<subseteq> U \<Longrightarrow> step_rel f `` V \<subseteq> V \<union> set w \<Longrightarrow>
    \<exists>V' g'. traverse_loop step g V w = Some (Inr g') \<and> graph_of f V' g' \<and> V \<union> set w \<subseteq> V' \<and> V' \<subseteq> U \<and>
      step_rel f `` V' \<subseteq> V' \<and> V' \<subseteq> V \<union> (step_rel f)\<^sup>* `` set w"
proof (induction "(U - V, length w)" arbitrary: V g w rule: wf_induct_rule[OF wf_lex_prod[OF wf_finite_psubset wf_less_than]])
  case (1 V w g)
  show ?case
  proof (cases w)
    case Nil
    then show ?thesis using 1(2,3,5) by (intro exI[of _ V] exI[of _ g]) (subst traverse_loop.simps, auto)
  next
    case (Cons i rest)
    show ?thesis
    proof (cases "i \<in> V")
      case True
      have IH: "\<exists>V' g'. traverse_loop step g V rest = Some (Inr g') \<and> graph_of f V' g' \<and> V \<union> set rest \<subseteq> V' \<and> V' \<subseteq> U \<and>
          step_rel f `` V' \<subseteq> V' \<and> V' \<subseteq> V \<union> (step_rel f)\<^sup>* `` set rest"
        using 1(2-5) Cons True by (intro 1(1)) auto
      moreover have "traverse_loop step g V w = traverse_loop step g V rest" using Cons True by (subst traverse_loop.simps) simp
      ultimately show ?thesis using Cons True by (elim exE conjE) (intro exI conjI, auto)
    next
      case False
      have i: "i \<in> U" using 1(4) Cons by simp
      let ?V = "insert i V"
      define g2 where "g2 = record_step i (f i) g"
      define w2 where "w2 = push_unvisited ?V (f i) rest"
      have E: "set w2 = set rest \<union> (neighbor ` set (expansions (f i)) - ?V)" by (simp add: w2_def set_push_unvisited)
      have si: "step i = Inr (f i)" using step i by blast
      have loop: "traverse_loop step g V w = traverse_loop step g2 ?V w2"
        using Cons False si by (subst traverse_loop.simps) (simp add: g2_def w2_def)
      have g2: "graph_of f ?V g2"
        using 1(2) by (auto simp: graph_of_def g2_def record_step_def Let_def edges_recorded addTruncated_def addNode_def step_edges_def)
      have nb: "neighbor ` set (expansions (f i)) \<subseteq> U" using step i by blast
      have w2: "set w2 \<subseteq> U" using E 1(4) Cons nb by (simp, blast)
      have closed: "step_rel f `` ?V \<subseteq> ?V \<union> set w2"
        using E 1(5) Cons by (fastforce simp: step_rel_def)
      have less: "((U - ?V, length w2), U - V, length w) \<in> finite_psubset <*lex*> less_than"
        using U i False by (auto simp: finite_psubset_def)
      obtain V' g' where IH: "traverse_loop step g2 ?V w2 = Some (Inr g')" "graph_of f V' g'" "?V \<union> set w2 \<subseteq> V'" "V' \<subseteq> U"
        "step_rel f `` V' \<subseteq> V'" "V' \<subseteq> ?V \<union> (step_rel f)\<^sup>* `` set w2"
        using 1(1)[OF less g2 _ w2 closed] i 1(3) by auto
      have "set rest \<subseteq> set w2" using E by blast
      then have "V \<union> set w \<subseteq> V'" using IH(3) Cons by auto
      moreover have "V' \<subseteq> V \<union> (step_rel f)\<^sup>* `` set w"
      proof
        fix x assume "x \<in> V'"
        with IH(6) consider "x \<in> V" | "x = i" | y where "y \<in> set w2" "(y, x) \<in> (step_rel f)\<^sup>*" by auto
        then show "x \<in> V \<union> (step_rel f)\<^sup>* `` set w"
        proof cases
          case 3
          have "y \<in> set rest \<or> (i, y) \<in> step_rel f" using 3(1) E by (fastforce simp: step_rel_def)
          then show ?thesis using 3(2) Cons by (auto intro: converse_rtrancl_into_rtrancl)
        qed (use Cons in auto)
      qed
      ultimately show ?thesis using loop IH(1,2,4,5) by (intro exI[of _ V'] exI[of _ g']) simp
    qed
  qed
qed

text \<open>The traversal returns, and what it returns is the graph of the leaves reachable from the start.\<close>

lemma traverse_reachable:
  assumes start: "assertInRange start chain = Inr ()"
    and step: "\<forall>i. 0 \<le> i \<and> i < nextLeafIndex chain \<longrightarrow> step i = Inr (f i) \<and>
      (\<forall>x \<in> set (expansions (f i)). 0 \<le> neighbor x \<and> neighbor x < nextLeafIndex chain)"
  shows "\<exists>g. traverse start chain step = Some (Inr (build g)) \<and> graph_of f ((step_rel f)\<^sup>* `` {start}) g"
proof -
  let ?U = "{0..<nextLeafIndex chain}"
  have s: "start \<in> ?U" using start by (auto simp: assertInRange_def Let_def split: if_splits)
  have st: "\<forall>i \<in> ?U. step i = Inr (f i) \<and> neighbor ` set (expansions (f i)) \<subseteq> ?U" using step by auto
  have g0: "graph_of f {} \<lparr>nodeSet = {}, edgeList = [], truncatedSet = {}\<rparr>" by (simp add: graph_of_def step_edges_def)
  obtain V' g' where r: "traverse_loop step \<lparr>nodeSet = {}, edgeList = [], truncatedSet = {}\<rparr> {} [start] = Some (Inr g')"
    "graph_of f V' g'" "{start} \<subseteq> V'" "step_rel f `` V' \<subseteq> V'" "V' \<subseteq> (step_rel f)\<^sup>* `` {start}"
    using traverse_loop_total[OF _ st g0, of "[start]"] s by auto
  have "(step_rel f)\<^sup>* `` {start} \<subseteq> V'"
    using Image_closed_trancl[OF r(4)] r(3) by (metis Image_mono subset_refl)
  then have "V' = (step_rel f)\<^sup>* `` {start}" using r(5) by blast
  then show ?thesis using r(1,2) start by (intro exI[of _ g']) (simp add: traverse_def)
qed


section \<open>What the leaves say\<close>

text \<open>Leaf \<open>i\<close> decrypts to a note whose commitment is the leaf.\<close>

definition opens :: "note_lib \<Rightarrow> ChainState \<Rightarrow> DecryptNote \<Rightarrow> int \<Rightarrow> fr list \<Rightarrow> fr \<Rightarrow> bool" where
  "opens L chain decrypt i fs p \<longleftrightarrow> (\<exists>d cek. getLeaf chain i = Some d \<and>
     decrypt (ld_ephPub d) (ld_ciphertext d) = Inr (fs, cek) \<and> p = computePsi L cek \<and> DEM_FIELDS \<le> length fs \<and>
     fs ! 4 < 2 ^ 128 \<and>
     ld_leaf d = poseidon2Hash L [fs ! 0, fs ! 1, fs ! 2, fs ! 3, fs ! 4, fs ! 5, p, fs ! PARENTS_FIELD_INDEX])"

definition in_range :: "ChainState \<Rightarrow> int \<Rightarrow> bool" where
  "in_range chain i \<longleftrightarrow> 0 \<le> i \<and> i < nextLeafIndex chain"

text \<open>The decryption answers, be it with garbage, and leaf indices are safe integers.\<close>

definition trace_ok :: "ChainState \<Rightarrow> DecryptNote \<Rightarrow> bool" where
  "trace_ok chain decrypt \<longleftrightarrow> (\<forall>E c. \<exists>fs cek. decrypt E c = Inr (fs, cek)) \<and> nextLeafIndex chain \<le> 2 ^ 53"

lemma u128_Fr: "(x :: nat) < 2 ^ 128 \<Longrightarrow> new_Fr (int x) = Inr x"
proof -
  assume "x < 2 ^ 128"
  also have "(2 ^ 128 :: nat) < FR_MODULUS" by (simp add: FR_MODULUS_def)
  finally show ?thesis by (simp add: new_Fr_def)
qed

lemma leaf_u128:
  "x < 2 ^ 128 \<Longrightarrow> leaf L \<lparr>noteVersion = a, assetId = b, noteType = c, conditionsHash = d, n_value = int x, n_owner = e,
     psi = p, parents = q\<rparr> = Inr (poseidon2Hash L [a, b, c, d, x, e, p, q])"
proof -
  assume x: "x < 2 ^ 128"
  then have "int x < 2 ^ 128" by (metis of_nat_less_iff of_nat_numeral of_nat_power)
  with u128_Fr[OF x] show ?thesis by (simp add: leaf_def)
qed

lemma openLeaf_answers:
  assumes ok: "trace_ok chain decrypt" and d: "getLeaf chain i = Some d"
  shows "\<exists>r. openLeaf L d decrypt = Inr r \<and> (\<forall>fs p. r = Some (fs, p) \<longleftrightarrow> opens L chain decrypt i fs p)"
proof -
  obtain fs cek where e: "decrypt (ld_ephPub d) (ld_ciphertext d) = Inr (fs, cek)"
    using ok unfolding trace_ok_def by blast
  let ?H = "poseidon2Hash L [fs ! 0, fs ! 1, fs ! 2, fs ! 3, fs ! 4, fs ! 5, computePsi L cek, fs ! PARENTS_FIELD_INDEX]"
  let ?r = "if DEM_FIELDS \<le> length fs \<and> fs ! 4 < 2 ^ 128 \<and> ld_leaf d = ?H then Some (fs, computePsi L cek) else None"
  have "openLeaf L d decrypt = Inr ?r"
    using e leaf_u128[of "fs ! 4" L] by (cases "DEM_FIELDS \<le> length fs"; cases "fs ! 4 < 2 ^ 128") (auto simp: openLeaf_def Let_def)
  moreover have "opens L chain decrypt i fs' p' \<longleftrightarrow>
      fs' = fs \<and> p' = computePsi L cek \<and> DEM_FIELDS \<le> length fs \<and> fs ! 4 < 2 ^ 128 \<and> ld_leaf d = ?H" for fs' p'
    unfolding opens_def d using e by auto
  ultimately show ?thesis by (intro exI[of _ ?r]) auto
qed

lemma opens_unique: "opens L chain decrypt i fs p \<Longrightarrow> opens L chain decrypt i fs' p' \<Longrightarrow> fs' = fs \<and> p' = p"
  by (auto simp: opens_def)

lemma in_range_Fr: "trace_ok chain decrypt \<Longrightarrow> in_range chain i \<Longrightarrow> new_Fr i = Inr (nat i)"
proof -
  assume "trace_ok chain decrypt" "in_range chain i"
  then have "0 \<le> i" "i < 2 ^ 53" by (auto simp: trace_ok_def in_range_def)
  moreover have "(2 ^ 53 :: int) < int FR_MODULUS" by (simp add: FR_MODULUS_def)
  ultimately show ?thesis by (simp add: new_Fr_def)
qed

text \<open>The note of leaf \<open>i\<close> is spent, and the chain names the children of the spend.\<close>

definition spend_of :: "note_lib \<Rightarrow> ChainState \<Rightarrow> DecryptNote \<Rightarrow> int \<Rightarrow> int list \<Rightarrow> bool" where
  "spend_of L chain decrypt i cs \<longleftrightarrow> (\<exists>fs p. opens L chain decrypt i fs p \<and>
     isNullifierSpent chain (computeNullifier L p (nat i)) \<and> cs = childrenOfSpend chain (computeNullifier L p (nat i)))"

definition spent_into :: "note_lib \<Rightarrow> ChainState \<Rightarrow> DecryptNote \<Rightarrow> (int \<times> int) set" where
  "spent_into L chain decrypt = {(i, c). in_range chain i \<and>
     (\<exists>cs. spend_of L chain decrypt i cs \<and> c \<in> set cs \<and> list_all (in_range chain) cs)}"

text \<open>Leaves whose spend cannot be followed.\<close>

definition forward_cut :: "note_lib \<Rightarrow> ChainState \<Rightarrow> DecryptNote \<Rightarrow> int \<Rightarrow> bool" where
  "forward_cut L chain decrypt i \<longleftrightarrow> (\<nexists>fs p. opens L chain decrypt i fs p) \<or>
     (\<exists>cs. spend_of L chain decrypt i cs \<and> (cs = [] \<or> \<not> list_all (in_range chain) cs))"


lemma forward_step_answers:
  assumes ok: "trace_ok chain decrypt" and i: "in_range chain i"
  shows "\<exists>r. forward_step L chain decrypt i = Inr r \<and>
    (\<lambda>x. (neighbor x, edge x)) ` set (expansions r) = {(c, i, c) | c. (i, c) \<in> spent_into L chain decrypt} \<and>
    (sr_truncated r \<longleftrightarrow> forward_cut L chain decrypt i)"
proof (cases "\<exists>fs p. opens L chain decrypt i fs p")
  case False
  then have no: "(i, c) \<notin> spent_into L chain decrypt" for c by (auto simp: spent_into_def spend_of_def)
  have "forward_step L chain decrypt i = Inr cut_off"
  proof (cases "getLeaf chain i")
    case (Some d)
    then obtain r where "openLeaf L d decrypt = Inr r" "\<forall>fs p. r = Some (fs, p) \<longleftrightarrow> opens L chain decrypt i fs p"
      using openLeaf_answers[OF ok] by blast
    with False Some show ?thesis by (cases r) (auto simp: forward_step_def)
  qed (simp add: forward_step_def)
  with no False show ?thesis by (simp add: cut_off_def forward_cut_def)
next
  case True
  then obtain fs p where o: "opens L chain decrypt i fs p" by blast
  then obtain d where d: "getLeaf chain i = Some d" by (auto simp: opens_def)
  with o have od: "openLeaf L d decrypt = Inr (Some (fs, p))" using openLeaf_answers[OF ok d, of L] by auto
  let ?nf = "computeNullifier L p (nat i)"
  have sp: "spend_of L chain decrypt i cs \<longleftrightarrow> isNullifierSpent chain ?nf \<and> cs = childrenOfSpend chain ?nf" for cs
    using o opens_unique[OF o] unfolding spend_of_def by blast
  have cl: "list_all (\<lambda>c. 0 \<le> c \<and> c < nextLeafIndex chain) cs = list_all (in_range chain) cs" for cs
    by (simp add: list_all_iff in_range_def)
  show ?thesis
    using d od o in_range_Fr[OF ok i] i True
    by (auto simp: forward_step_def Let_def cl cut_off_def spent_into_def sp forward_cut_def image_image)
qed

text \<open>The indexes a packed parents field names.\<close>

definition consumed_by :: "ChainState \<Rightarrow> fr \<Rightarrow> int list \<Rightarrow> bool" where
  "consumed_by chain packed ps \<longleftrightarrow> packed < 2 ^ 64 \<and> list_all (in_range chain) ps \<and>
     ps = (if packed < 2 ^ 32 then [int packed] else [int (packed mod 2 ^ 32), int (packed div 2 ^ 32)])"

lemma consumedLeaves_answers:
  "\<exists>r. consumedLeaves packed chain = Inr r \<and> (\<forall>ps. r = Some ps \<longleftrightarrow> consumed_by chain packed ps)"
proof (cases "packed < 2 ^ 64")
  case True
  then have "packed div 2 ^ 32 < 2 ^ 32" by simp
  then have u: "unpackParents packed = Inr (int (packed mod 2 ^ 32), int (packed div 2 ^ 32))"
    using True by (simp add: unpackParents_def take_bit_eq_mod drop_bit_eq_div)
  have z: "packed div 2 ^ 32 = 0 \<longleftrightarrow> packed < 2 ^ 32" by (simp add: div_eq_0_iff)
  let ?ps = "if packed < 2 ^ 32 then [int packed] else [int (packed mod 2 ^ 32), int (packed div 2 ^ 32)]"
  have "consumedLeaves packed chain = Inr (if list_all (in_range chain) ?ps then Some ?ps else None)"
    using True u z by (cases "packed < 2 ^ 32") (simp_all add: consumedLeaves_def Let_def in_range_def)
  then show ?thesis using True unfolding consumed_by_def
    by (intro exI[of _ "if list_all (in_range chain) ?ps then Some ?ps else None"]) (auto simp only: option.inject split: if_splits)
qed (simp add: consumedLeaves_def consumed_by_def)


text \<open>Leaf \<open>i\<close> hides its parents, the next leaf shows them, and the spend of each of them has \<open>i\<close> among its
children.\<close>

definition bridged :: "note_lib \<Rightarrow> ChainState \<Rightarrow> DecryptNote \<Rightarrow> int \<Rightarrow> fr \<Rightarrow> bool" where
  "bridged L chain decrypt i packed \<longleftrightarrow> (\<exists>fs p ps. opens L chain decrypt (i + 1) fs p \<and> packed = fs ! PARENTS_FIELD_INDEX \<and>
     packed \<noteq> 0 \<and> packed \<noteq> PARENTS_HIDDEN \<and> consumed_by chain packed ps \<and>
     (\<forall>q \<in> set ps. \<exists>fs' p'. opens L chain decrypt q fs' p' \<and>
        i \<in> set (childrenOfSpend chain (computeNullifier L p' (nat q)))))"

definition inherits :: "note_lib \<Rightarrow> ChainState \<Rightarrow> DecryptNote \<Rightarrow> int \<Rightarrow> fr \<Rightarrow> bool" where
  "inherits L chain decrypt i packed \<longleftrightarrow> (\<exists>fs p. opens L chain decrypt i fs p \<and> fs ! PARENTS_FIELD_INDEX \<noteq> 0 \<and>
     (if fs ! PARENTS_FIELD_INDEX = PARENTS_HIDDEN then bridged L chain decrypt i packed
      else packed = fs ! PARENTS_FIELD_INDEX))"

definition child_of :: "note_lib \<Rightarrow> ChainState \<Rightarrow> DecryptNote \<Rightarrow> (int \<times> int) set" where
  "child_of L chain decrypt = {(i, q). in_range chain i \<and>
     (\<exists>packed ps. inherits L chain decrypt i packed \<and> consumed_by chain packed ps \<and> q \<in> set ps)}"

definition backward_cut :: "note_lib \<Rightarrow> ChainState \<Rightarrow> DecryptNote \<Rightarrow> int \<Rightarrow> bool" where
  "backward_cut L chain decrypt i \<longleftrightarrow> \<not> (\<exists>fs p. opens L chain decrypt i fs p \<and> fs ! PARENTS_FIELD_INDEX = 0) \<and>
     (\<nexists>packed ps. inherits L chain decrypt i packed \<and> consumed_by chain packed ps)"

lemma consumed_range: "consumed_by chain packed ps \<Longrightarrow> list_all (in_range chain) ps"
  "consumed_by chain packed ps \<Longrightarrow> consumed_by chain packed ps' \<Longrightarrow> ps' = ps"
  unfolding consumed_by_def by blast+

lemma bridge_loop_answers:
  assumes ok: "trace_ok chain decrypt"
  shows "list_all (in_range chain) ps \<Longrightarrow> bridge_loop L i chain decrypt ps = Inr (\<forall>q \<in> set ps. \<exists>fs p.
    opens L chain decrypt q fs p \<and> i \<in> set (childrenOfSpend chain (computeNullifier L p (nat q))))"
proof (induction ps)
  case (Cons q ps)
  show ?case
  proof (cases "\<exists>fs p. opens L chain decrypt q fs p")
    case False
    have "bridge_loop L i chain decrypt (q # ps) = Inr False"
    proof (cases "getLeaf chain q")
      case (Some d)
      then obtain r where "openLeaf L d decrypt = Inr r" "\<forall>fs p. r = Some (fs, p) \<longleftrightarrow> opens L chain decrypt q fs p"
        using openLeaf_answers[OF ok] by blast
      with False Some show ?thesis by (cases r) auto
    qed simp
    with False show ?thesis by auto
  next
    case True
    then obtain fs p where o: "opens L chain decrypt q fs p" by blast
    then obtain d where d: "getLeaf chain q = Some d" by (auto simp: opens_def)
    with o have od: "openLeaf L d decrypt = Inr (Some (fs, p))" using openLeaf_answers[OF ok d, of L] by auto
    have u: "(\<exists>fs p. opens L chain decrypt q fs p \<and> i \<in> set (childrenOfSpend chain (computeNullifier L p (nat q)))) \<longleftrightarrow>
        i \<in> set (childrenOfSpend chain (computeNullifier L p (nat q)))" using o opens_unique[OF o] by blast
    show ?thesis
      using d od in_range_Fr[OF ok, of q] Cons u by (simp add: Let_def)
  qed
qed simp

lemma bridge_answers:
  assumes ok: "trace_ok chain decrypt"
  shows "\<exists>r. bridgeHiddenParents L i chain decrypt = Inr r \<and> (\<forall>x. r = Some x \<longleftrightarrow> bridged L chain decrypt i x)"
proof (cases "\<exists>fs p. opens L chain decrypt (i + 1) fs p")
  case False
  have "bridgeHiddenParents L i chain decrypt = Inr None"
  proof (cases "getLeaf chain (i + 1)")
    case (Some d)
    then obtain r where "openLeaf L d decrypt = Inr r" "\<forall>fs p. r = Some (fs, p) \<longleftrightarrow> opens L chain decrypt (i + 1) fs p"
      using openLeaf_answers[OF ok] by blast
    with False Some show ?thesis by (cases r) (auto simp: bridgeHiddenParents_def)
  qed (simp add: bridgeHiddenParents_def)
  with False show ?thesis unfolding bridged_def by auto
next
  case True
  then obtain fs p where o: "opens L chain decrypt (i + 1) fs p" by blast
  then obtain d where d: "getLeaf chain (i + 1) = Some d" by (auto simp: opens_def)
  with o have od: "openLeaf L d decrypt = Inr (Some (fs, p))" using openLeaf_answers[OF ok d, of L] by auto
  let ?x = "fs ! PARENTS_FIELD_INDEX"
  obtain r where r: "consumedLeaves ?x chain = Inr r" "\<forall>ps. r = Some ps \<longleftrightarrow> consumed_by chain ?x ps"
    using consumedLeaves_answers by blast
  let ?ok = "\<lambda>ps. \<forall>q \<in> set ps. \<exists>fs p. opens L chain decrypt q fs p \<and> i \<in> set (childrenOfSpend chain (computeNullifier L p (nat q)))"
  have br: "bridged L chain decrypt i y \<longleftrightarrow> y = ?x \<and> ?x \<noteq> 0 \<and> ?x \<noteq> PARENTS_HIDDEN \<and> (\<exists>ps. r = Some ps \<and> ?ok ps)" for y
    using o opens_unique[OF o] r(2) unfolding bridged_def by blast
  show ?thesis
  proof (cases "?x = 0 \<or> ?x = PARENTS_HIDDEN")
    case True
    then show ?thesis using d od br by (intro exI[of _ None]) (auto simp: bridgeHiddenParents_def)
  next
    case x: False
    show ?thesis
    proof (cases r)
      case None
      then show ?thesis using d od br x r by (intro exI[of _ None]) (simp add: bridgeHiddenParents_def)
    next
      case (Some ps)
      then have "bridge_loop L i chain decrypt ps = Inr (?ok ps)"
        using r(2) consumed_range(1) by (intro bridge_loop_answers[OF ok]) blast
      then have "bridgeHiddenParents L i chain decrypt = Inr (if ?ok ps then Some ?x else None)"
        using d od x r(1) Some by (simp add: bridgeHiddenParents_def)
      moreover have "bridged L chain decrypt i y \<longleftrightarrow> y = ?x \<and> ?ok ps" for y using br x Some by simp
      ultimately show ?thesis by (intro exI[of _ "if ?ok ps then Some ?x else None"]) auto
    qed
  qed
qed


lemma expand_answers:
  "\<exists>r. expand chain i x = Inr r \<and>
    (\<lambda>x. (neighbor x, edge x)) ` set (expansions r) = {(q, q, i) | q. \<exists>ps. consumed_by chain x ps \<and> q \<in> set ps} \<and>
    (sr_truncated r \<longleftrightarrow> (\<nexists>ps. consumed_by chain x ps))"
proof -
  obtain r where r: "consumedLeaves x chain = Inr r" "\<forall>ps. r = Some ps \<longleftrightarrow> consumed_by chain x ps"
    using consumedLeaves_answers by blast
  show ?thesis
  proof (cases r)
    case None
    then show ?thesis using r by (simp add: expand_def cut_off_def)
  next
    case (Some ps)
    then have "consumed_by chain x ps' \<longleftrightarrow> ps' = ps" for ps' using r(2) by (metis option.inject)
    then show ?thesis using r(1) Some by (auto simp: expand_def image_image)
  qed
qed

lemma backward_step_answers:
  assumes ok: "trace_ok chain decrypt" and i: "in_range chain i"
  shows "\<exists>r. backward_step L chain decrypt i = Inr r \<and>
    (\<lambda>x. (neighbor x, edge x)) ` set (expansions r) = {(q, q, i) | q. (i, q) \<in> child_of L chain decrypt} \<and>
    (sr_truncated r \<longleftrightarrow> backward_cut L chain decrypt i)"
proof (cases "\<exists>fs p. opens L chain decrypt i fs p")
  case False
  then have no: "\<not> inherits L chain decrypt i x" for x by (simp add: inherits_def)
  have "backward_step L chain decrypt i = Inr cut_off"
  proof (cases "getLeaf chain i")
    case (Some d)
    then obtain r where "openLeaf L d decrypt = Inr r" "\<forall>fs p. r = Some (fs, p) \<longleftrightarrow> opens L chain decrypt i fs p"
      using openLeaf_answers[OF ok] by blast
    with False Some show ?thesis by (cases r) (auto simp: backward_step_def)
  qed (simp add: backward_step_def)
  with no False show ?thesis by (auto simp: cut_off_def backward_cut_def child_of_def)
next
  case True
  then obtain fs p where o: "opens L chain decrypt i fs p" by blast
  then obtain d where d: "getLeaf chain i = Some d" by (auto simp: opens_def)
  with o have od: "openLeaf L d decrypt = Inr (Some (fs, p))" using openLeaf_answers[OF ok d, of L] by auto
  let ?x = "fs ! PARENTS_FIELD_INDEX"
  have u: "(\<exists>fs p. opens L chain decrypt i fs p \<and> P (fs ! PARENTS_FIELD_INDEX)) \<longleftrightarrow> P ?x" for P
    using o opens_unique[OF o] by blast
  have inh: "inherits L chain decrypt i y \<longleftrightarrow> ?x \<noteq> 0 \<and> (if ?x = PARENTS_HIDDEN then bridged L chain decrypt i y else y = ?x)" for y
    unfolding inherits_def by (rule u)
  obtain b where b: "bridgeHiddenParents L i chain decrypt = Inr b" "\<forall>y. b = Some y \<longleftrightarrow> bridged L chain decrypt i y"
    using bridge_answers[OF ok] by blast
  obtain y where y: "?x \<noteq> 0 \<and> (?x = PARENTS_HIDDEN \<longrightarrow> b = Some y) \<and> (?x \<noteq> PARENTS_HIDDEN \<longrightarrow> y = ?x) \<or>
      (?x = 0 \<or> ?x = PARENTS_HIDDEN \<and> b = None)" by (cases "?x = PARENTS_HIDDEN"; cases b) blast+
  then show ?thesis
  proof
    assume y: "?x \<noteq> 0 \<and> (?x = PARENTS_HIDDEN \<longrightarrow> b = Some y) \<and> (?x \<noteq> PARENTS_HIDDEN \<longrightarrow> y = ?x)"
    then have "backward_step L chain decrypt i = expand chain i y"
      using d od b(1) by (auto simp: backward_step_def Let_def)
    moreover have "inherits L chain decrypt i z \<longleftrightarrow> z = y" for z
      using y b(2)[rule_format, of z] unfolding inh by (cases "?x = PARENTS_HIDDEN") auto
    moreover have "\<not> (\<exists>fs p. opens L chain decrypt i fs p \<and> fs ! PARENTS_FIELD_INDEX = 0)" using y u[of "\<lambda>x. x = 0"] by simp
    ultimately show ?thesis using expand_answers[of chain i y] i by (simp add: child_of_def backward_cut_def)
  next
    assume y: "?x = 0 \<or> ?x = PARENTS_HIDDEN \<and> b = None"
    then have "\<not> inherits L chain decrypt i z" for z using inh b(2) by (auto split: if_splits)
    moreover have "(\<exists>fs p. opens L chain decrypt i fs p \<and> fs ! PARENTS_FIELD_INDEX = 0) \<longleftrightarrow> ?x = 0" using u[of "\<lambda>x. x = 0"] by simp
    moreover have "PARENTS_HIDDEN \<noteq> 0" by (simp add: PARENTS_HIDDEN_def FR_MODULUS_def)
    ultimately show ?thesis using y d od b(1) by (auto simp: backward_step_def Let_def child_of_def backward_cut_def cut_off_def)
  qed
qed

text \<open>The shape of a returned graph.\<close>

definition traced :: "int set \<Rightarrow> (int \<times> int) set \<Rightarrow> int set \<Rightarrow> SpendGraph \<Rightarrow> bool" where
  "traced N E C g \<longleftrightarrow> sorted_wrt (<) (sg_nodes g) \<and> set (sg_nodes g) = N \<and>
     sorted_wrt (<) (sg_edges g) \<and> set (sg_edges g) = E \<and> sorted_wrt (<) (sg_truncated g) \<and> set (sg_truncated g) = C"

lemma sort_strict: "distinct xs \<Longrightarrow> sorted_wrt (<) (sort (xs :: 'a :: linorder list))"
  by (simp add: strict_sorted_iff)

lemma reach_in_range:
  assumes "R \<subseteq> {(i, q). in_range chain q}" "in_range chain s"
  shows "R\<^sup>* `` {s} \<subseteq> {i. in_range chain i}"
proof
  fix x assume "x \<in> R\<^sup>* `` {s}"
  then have "(s, x) \<in> R\<^sup>*" by simp
  then show "x \<in> {i. in_range chain i}" by (induction rule: rtrancl_induct) (use assms in auto)
qed

lemma finite_range: "N \<subseteq> {i. in_range chain i} \<Longrightarrow> finite N"
proof -
  assume "N \<subseteq> {i. in_range chain i}"
  then have "N \<subseteq> {0..<nextLeafIndex chain}" by (auto simp: in_range_def)
  then show ?thesis by (rule finite_subset) simp
qed

lemma images: "fst ` {(q, g q) | q. P q} = {q. P q}" "snd ` {(q, g q) | q. P q} = {g q | q. P q}"
  by force+

text \<open>One traversal for both directions: \<open>R\<close> is the relation of the step, \<open>e i q\<close> the edge it records.\<close>

lemma traverse_traces:
  assumes s: "in_range chain s" and R: "R \<subseteq> {(i, q). in_range chain i \<and> in_range chain q}"
    and step: "\<And>i. in_range chain i \<Longrightarrow> \<exists>r. step i = Inr r \<and>
      (\<lambda>x. (neighbor x, edge x)) ` set (expansions r) = {(q, e i q) | q. (i, q) \<in> R} \<and> (sr_truncated r \<longleftrightarrow> C i)"
  shows "\<exists>g. traverse s chain step = Some (Inr g) \<and>
    traced (R\<^sup>* `` {s}) {e i q | i q. i \<in> R\<^sup>* `` {s} \<and> (i, q) \<in> R} {i \<in> R\<^sup>* `` {s}. C i} g"
proof -
  define f where "f i = (if in_range chain i then projr (step i) else cut_off)" for i
  let ?N = "R\<^sup>* `` {s}"
  have f: "step i = Inr (f i)" "(\<lambda>x. (neighbor x, edge x)) ` set (expansions (f i)) = {(q, e i q) | q. (i, q) \<in> R}"
    "sr_truncated (f i) \<longleftrightarrow> C i" if i: "in_range chain i" for i
  proof -
    obtain r where r: "step i = Inr r" "(\<lambda>x. (neighbor x, edge x)) ` set (expansions r) = {(q, e i q) | q. (i, q) \<in> R}"
      "sr_truncated r \<longleftrightarrow> C i" using step[OF i] by blast
    then have "f i = r" using i by (simp add: f_def)
    with r show "step i = Inr (f i)" "(\<lambda>x. (neighbor x, edge x)) ` set (expansions (f i)) = {(q, e i q) | q. (i, q) \<in> R}"
      "sr_truncated (f i) \<longleftrightarrow> C i" by simp_all
  qed
  have nb: "neighbor ` set (expansions (f i)) = {q. (i, q) \<in> R}" if "in_range chain i" for i
    using arg_cong[OF f(2)[OF that], of "image fst"] by (simp add: image_image images)
  have ed: "edge ` set (expansions (f i)) = {e i q | q. (i, q) \<in> R}" if "in_range chain i" for i
    using arg_cong[OF f(2)[OF that], of "image snd"] by (simp add: image_image images)
  have rel: "step_rel f = R"
  proof -
    have "(i, q) \<in> step_rel f \<longleftrightarrow> (i, q) \<in> R" for i q
    proof (cases "in_range chain i")
      case True
      have "(i, q) \<in> step_rel f \<longleftrightarrow> q \<in> neighbor ` set (expansions (f i))" by (auto simp: step_rel_def)
      then show ?thesis using nb[OF True] by simp
    next
      case False
      then have "(i, q) \<notin> R" using R by auto
      then show ?thesis using False by (simp add: step_rel_def f_def cut_off_def)
    qed
    then show ?thesis by auto
  qed
  have N: "?N \<subseteq> {i. in_range chain i}" using R s by (intro reach_in_range) auto
  have st: "\<forall>i. 0 \<le> i \<and> i < nextLeafIndex chain \<longrightarrow> step i = Inr (f i) \<and>
      (\<forall>x \<in> set (expansions (f i)). 0 \<le> neighbor x \<and> neighbor x < nextLeafIndex chain)"
  proof (intro allI impI conjI ballI)
    fix i assume "0 \<le> i \<and> i < nextLeafIndex chain"
    then have i: "in_range chain i" by (simp add: in_range_def)
    show "step i = Inr (f i)" using f(1)[OF i] .
    fix x assume "x \<in> set (expansions (f i))"
    then have "neighbor x \<in> {q. (i, q) \<in> R}" using nb[OF i] by blast
    then show "0 \<le> neighbor x" "neighbor x < nextLeafIndex chain" using R by (auto simp: in_range_def)
  qed
  have "assertInRange s chain = Inr ()" using s by (simp add: assertInRange_def in_range_def)
  from traverse_reachable[OF this st] obtain g where g: "traverse s chain step = Some (Inr (build g))" "graph_of f ?N g"
    unfolding rel by blast
  have "step_edges f ?N = {e i q | i q. i \<in> ?N \<and> (i, q) \<in> R}" using ed N unfolding step_edges_def by blast
  moreover have "{i \<in> ?N. sr_truncated (f i)} = {i \<in> ?N. C i}" using f(3) N by blast
  ultimately have "traced ?N {e i q | i q. i \<in> ?N \<and> (i, q) \<in> R} {i \<in> ?N. C i} (build g)"
    using g(2) finite_range[OF N] finite_subset[OF Collect_restrict[of ?N C] finite_range[OF N]]
    by (simp add: traced_def build_def graph_of_def sort_strict)
  with g(1) show ?thesis by blast
qed

end
