(* ===== verification/Trace_Properties.thy ===== *)
theory Trace_Properties
  imports Chain_Trace Note_Demo
begin

text \<open>
  What the spend graph of \<^verbatim>\<open>threshold/chainTrace.ts\<close> contains: both traces return on every chain whose leaf
  indices are safe integers, however the chain and the decryption answer, and their nodes, edges and truncated
  leaves are exactly those the opened leaves justify.
\<close>

section \<open>A small chain\<close>

text \<open>
  Leaf 1 is a deposit, spent into the memo at leaf 2, which hides its parents, and the change at leaf 3. The cipher
  is the identity.
\<close>

definition demo_fields :: "int \<Rightarrow> fr list" where
  "demo_fields i = [1, 2, 0, 0, nat (50 + i), 12, if i = 1 then 0 else if i = 2 then PARENTS_HIDDEN else 1]"

definition demo_chain :: ChainState where
  "demo_chain = \<lparr>getLeaf = (\<lambda>i. if i \<in> {1, 2, 3} then Some \<lparr>ld_ephPub = (1, 2), ld_ciphertext = demo_fields i,
       ld_leaf = demo_hash [1, 2, 0, 0, nat (50 + i), 12, computePsi demo_lib 9, demo_fields i ! 6]\<rparr> else None),
     nextLeafIndex = 4,
     isNullifierSpent = (\<lambda>nf. nf = computeNullifier demo_lib (computePsi demo_lib 9) 1),
     childrenOfSpend = (\<lambda>nf. if nf = computeNullifier demo_lib (computePsi demo_lib 9) 1 then [2, 3] else [])\<rparr>"

definition demo_decrypt :: DecryptNote where
  "demo_decrypt E c = Inr (c, 9)"

lemma demo_chain_sel [simp]:
  "getLeaf demo_chain i = (if i \<in> {1, 2, 3} then Some \<lparr>ld_ephPub = (1, 2), ld_ciphertext = demo_fields i,
     ld_leaf = demo_hash [1, 2, 0, 0, nat (50 + i), 12, computePsi demo_lib 9, demo_fields i ! 6]\<rparr> else None)"
  "nextLeafIndex demo_chain = 4"
  "isNullifierSpent demo_chain nf \<longleftrightarrow> nf = computeNullifier demo_lib (computePsi demo_lib 9) 1"
  "childrenOfSpend demo_chain nf = (if nf = computeNullifier demo_lib (computePsi demo_lib 9) 1 then [2, 3] else [])"
  by (simp_all add: demo_chain_def)

lemma demo_fields_nth:
  "demo_fields i ! 0 = 1" "demo_fields i ! Suc 0 = 2" "demo_fields i ! 2 = 0" "demo_fields i ! 3 = 0"
  "demo_fields i ! 4 = nat (50 + i)" "demo_fields i ! 5 = 12" "length (demo_fields i) = 7" "PARENTS_FIELD_INDEX = 6"
  "demo_fields i ! 6 = (if i = 1 then 0 else if i = 2 then PARENTS_HIDDEN else 1)"
  by (simp_all add: demo_fields_def PARENTS_FIELD_INDEX_def DEM_FIELDS_def)

lemma demo_opens: "opens demo_lib demo_chain demo_decrypt i fs p \<longleftrightarrow>
    (i = 1 \<or> i = 2 \<or> i = 3) \<and> fs = demo_fields i \<and> p = computePsi demo_lib 9"
  unfolding opens_def demo_decrypt_def demo_chain_sel by (auto simp: demo_fields_nth DEM_FIELDS_def)

lemma demo_nullifiers: "i \<in> {2, 3} \<Longrightarrow>
    computeNullifier demo_lib (computePsi demo_lib 9) i \<noteq> computeNullifier demo_lib (computePsi demo_lib 9) 1"
  by (auto simp: computeNullifier_def computePsi_def demo_hash_def PSI_DOMAIN_def take_bit_eq_mod)

lemma demo_trace_ok: "trace_ok demo_chain demo_decrypt"
  by (simp add: trace_ok_def demo_decrypt_def)

lemma demo_spends: "spent_into demo_lib demo_chain demo_decrypt = {(1, 2), (1, 3)}"
  using demo_nullifiers[of 2] demo_nullifiers[of 3]
  by (auto simp: spent_into_def spend_of_def demo_opens in_range_def)

lemma demo_children: "child_of demo_lib demo_chain demo_decrypt = {(2, 1), (3, 1)}"
proof -
  have c: "consumed_by demo_chain 1 ps \<longleftrightarrow> ps = [1]" for ps by (auto simp: consumed_by_def in_range_def)
  have h: "PARENTS_HIDDEN \<noteq> 0" "PARENTS_HIDDEN \<noteq> 1" "\<not> consumed_by demo_chain PARENTS_HIDDEN ps" for ps
    by (simp_all add: PARENTS_HIDDEN_def FR_MODULUS_def consumed_by_def)
  have b: "bridged demo_lib demo_chain demo_decrypt 2 x \<longleftrightarrow> x = 1" for x
    using h(1,2) by (auto simp: bridged_def demo_opens demo_fields_nth c c[unfolded One_nat_def])
  have "inherits demo_lib demo_chain demo_decrypt i x \<longleftrightarrow> (i = 2 \<or> i = 3) \<and> x = 1" for i x
    using h(1,2) by (auto simp: inherits_def demo_opens demo_fields_nth b)
  then show ?thesis by (auto simp: child_of_def c c[unfolded One_nat_def] in_range_def)
qed

lemma reach_set:
  assumes "s \<in> N" "R `` N \<subseteq> N" "\<And>x. x \<in> N \<Longrightarrow> x = s \<or> (s, x) \<in> R"
  shows "R\<^sup>* `` {s} = N"
proof
  show "R\<^sup>* `` {s} \<subseteq> N"
  proof
    fix x assume "x \<in> R\<^sup>* `` {s}"
    then have "(s, x) \<in> R\<^sup>*" by simp
    then show "x \<in> N" by (induction rule: rtrancl_induct) (use assms in auto)
  qed
qed (use assms(3) in auto)

text \<open>
  C22: The forward trace returns. Its nodes are the leaves reachable from the start by following spends: from a leaf
  whose decryption rebuilds the leaf's own commitment and whose nullifier is spent, to the children the chain names
  for that nullifier, provided all of them are leaves of the tree. Its edges are those steps, each once and in order,
  and it marks as truncated exactly the reached leaves that do not open or whose spend cannot be followed.
\<close>
theorem forward_trace_is_the_spends:
  assumes "in_range chain start" "trace_ok chain decrypt"
  shows "\<exists>g. forwardTrace L start chain decrypt = Some (Inr g) \<and>
    traced ((spent_into L chain decrypt)\<^sup>* `` {start})
      {(i, c) | i c. i \<in> (spent_into L chain decrypt)\<^sup>* `` {start} \<and> (i, c) \<in> spent_into L chain decrypt}
      {i \<in> (spent_into L chain decrypt)\<^sup>* `` {start}. forward_cut L chain decrypt i} g"
  unfolding forwardTrace_def
  using forward_step_answers[OF assms(2), of _ L] by (intro traverse_traces assms(1)) (auto simp: spent_into_def list_all_iff)

theorem forward_trace_is_the_spends_witness:
  "\<exists>g. forwardTrace demo_lib 1 demo_chain demo_decrypt = Some (Inr g) \<and>
    set (sg_nodes g) = {1, 2, 3} \<and> set (sg_edges g) = {(1, 2), (1, 3)} \<and> sg_truncated g = []"
proof -
  have r: "(spent_into demo_lib demo_chain demo_decrypt)\<^sup>* `` {1} = {1, 2, 3}"
    unfolding demo_spends by (rule reach_set) auto
  have c: "{i \<in> {1, 2, 3}. forward_cut demo_lib demo_chain demo_decrypt i} = {}"
    using demo_nullifiers by (auto simp: forward_cut_def demo_opens spend_of_def in_range_def)
  have "in_range demo_chain 1" by (simp add: in_range_def)
  from forward_trace_is_the_spends[OF this demo_trace_ok, of demo_lib] show ?thesis
    unfolding r c unfolding demo_spends traced_def by auto
qed

text \<open>
  C21: The backward trace returns. Its nodes are the leaves reachable from the start by going to the parents an opened
  leaf names; where a leaf hides its parents, to those the next leaf names, and only if each of them opens and has
  the hiding leaf among the children of its nullifier. The edges and the truncated leaves are exactly those steps
  and the reached leaves that name no parents the tree has, other than the leaves whose parents field is zero.
\<close>
theorem backward_trace_is_the_lineage:
  assumes "in_range chain start" "trace_ok chain decrypt"
  shows "\<exists>g. backwardTrace L start chain decrypt = Some (Inr g) \<and>
    traced ((child_of L chain decrypt)\<^sup>* `` {start})
      {(q, i) | i q. i \<in> (child_of L chain decrypt)\<^sup>* `` {start} \<and> (i, q) \<in> child_of L chain decrypt}
      {i \<in> (child_of L chain decrypt)\<^sup>* `` {start}. backward_cut L chain decrypt i} g"
  unfolding backwardTrace_def
  using backward_step_answers[OF assms(2), of _ L] consumed_range(1)
  by (intro traverse_traces assms(1)) (fastforce simp: child_of_def list_all_iff)+

theorem backward_trace_is_the_lineage_witness:
  "\<exists>g. backwardTrace demo_lib 2 demo_chain demo_decrypt = Some (Inr g) \<and>
    set (sg_nodes g) = {1, 2} \<and> set (sg_edges g) = {(1, 2)} \<and> sg_truncated g = []"
proof -
  have r: "(child_of demo_lib demo_chain demo_decrypt)\<^sup>* `` {2} = {1, 2}"
    unfolding demo_children by (rule reach_set) auto
  have "(2, 1) \<in> child_of demo_lib demo_chain demo_decrypt" by (simp add: demo_children)
  then have c: "{i \<in> {1, 2}. backward_cut demo_lib demo_chain demo_decrypt i} = {}"
    by (auto simp: backward_cut_def demo_opens demo_fields_nth child_of_def)
  have "in_range demo_chain 2" by (simp add: in_range_def)
  from backward_trace_is_the_lineage[OF this demo_trace_ok, of demo_lib] show ?thesis
    unfolding r c unfolding demo_children traced_def by auto
qed

end
