(* ===== verification/Spec2Isabelle.thy ===== *)
theory Spec2Isabelle
  imports Guard_Properties Server_Properties Wallet_Properties Counter_Properties Mint_Properties Scan_Properties
    Threshold_Properties Trace_Properties
begin

text \<open>
  A verification of the TypeScript core of the Hisoka darkpool client side: the private state sync (PSS),
  by which the installs of one wallet keep an encrypted copy of the wallet state on a server that learns
  nothing but sizes and times, and the wallet core: how keys and notes are made, found again on chain,
  spent in a transaction, how an index is used only once, and how a group shares a key, signs with it and
  decrypts with it.

  \<^bold>\<open>The program\<close>. \<^verbatim>\<open>src/packages/pss-client\<close> turns a state payload into a padded, sealed and signed cell,
  pulls the cell of the other installs, checks it against a rollback floor, merges it and pushes the result
  by compare-and-swap. \<^verbatim>\<open>src/packages/pss-server\<close> stores one cell per account and collection behind a
  signature check, a freshness window, a replay guard and a rate limit. \<^verbatim>\<open>src/packages/pss-integration\<close>
  keeps the wallet's ephemeral counter in that payload. \<^verbatim>\<open>src/packages/wallets\<close> derives keys, mints and
  encrypts notes, scans the chain for them, mirrors its note tree, plans spends, reserves ephemeral indices,
  authorises each one once and assembles the witness of a transaction. A group generates its key without a dealer,
  a quorum of it signs by FROST, and a committee recovers content keys and traces spends.

  \<^bold>\<open>Theories\<close>, in import order.
  \<^item> \<^verbatim>\<open>Prelude\<close>: thrown errors, results, state-passing actions, JavaScript numbers and JSON values.
  \<^item> \<^verbatim>\<open>Wire_Codec\<close>, \<^verbatim>\<open>Wire_Preimage\<close>, \<^verbatim>\<open>Json_Text\<close>, \<^verbatim>\<open>Wire_Types\<close>: \<^verbatim>\<open>pss-client/src/wire\<close>, with the JSON printer and
    parser of the language.
  \<^item> \<^verbatim>\<open>Crypto\<close>: \<^verbatim>\<open>pss-client/src/crypto\<close>; the primitives are the record \<open>crypto_backend\<close>, a parameter.
  \<^item> \<^verbatim>\<open>State_Payload\<close>, \<^verbatim>\<open>Merge\<close>, \<^verbatim>\<open>Floor\<close>, \<^verbatim>\<open>Takeover\<close>: \<^verbatim>\<open>pss-client/src/state\<close>.
  \<^item> \<^verbatim>\<open>Spent_Oracle\<close>, \<^verbatim>\<open>State_Sync\<close>, \<^verbatim>\<open>Sync_Lemmas\<close>: \<^verbatim>\<open>pss-client/src/sync\<close>. Every method of the sync engine is an
    action on the record \<open>sync\<close>; the transport, the clock and the oracle are the record \<open>env\<close>. The turns of
    the mutation queue are separate operations, so a run interleaves them in any order.
  \<^item> \<^verbatim>\<open>Http_Request\<close>, \<^verbatim>\<open>Replay_Guard\<close>, \<^verbatim>\<open>Rate_Limit\<close>, \<^verbatim>\<open>Slot_Store\<close>, \<^verbatim>\<open>Pss_Server\<close>, \<^verbatim>\<open>Server_Lemmas\<close>: \<^verbatim>\<open>pss-server/src\<close>.
    A request is its method, path and the list of events of its body stream; a handler is one step, with
    one reading of the clock, because the source does not wait between its checks and its write.
  \<^item> \<^verbatim>\<open>Client_Server\<close>: the client's transport against the server's dispatch.
  \<^item> \<^verbatim>\<open>Spend_Plan\<close>, \<^verbatim>\<open>Lean_Tree\<close>: \<^verbatim>\<open>wallets/src/tx/plan.ts\<close>, \<^verbatim>\<open>merkle/LeanIMT.ts\<close> and \<^verbatim>\<open>tx/witnessSources.ts\<close>.
  \<^item> \<^verbatim>\<open>Counter_Store\<close>, \<^verbatim>\<open>Counter_Protocol\<close>: the counter stores of \<^verbatim>\<open>wallets/src/state\<close>, their binding to the
    payload, and several installs reserving through one slot.
  \<^item> \<^verbatim>\<open>Note_Crypto\<close>, \<^verbatim>\<open>Note_Record\<close>, \<^verbatim>\<open>Compliance_Keys\<close>, \<^verbatim>\<open>Even_Y\<close>: \<^verbatim>\<open>wallets/src/crypto\<close>, \<^verbatim>\<open>note\<close> and the row format
    of \<^verbatim>\<open>discovery\<close>. The curve and the hash are the record \<open>note_lib\<close>, a parameter.
  \<^item> \<^verbatim>\<open>Preflight\<close>, \<^verbatim>\<open>Mint_Protocol\<close>: \<^verbatim>\<open>types/ephemeral.ts\<close> and \<^verbatim>\<open>discovery/preflight.ts\<close>. The weak maps of the source
    are lists of the state, and a handle is an index; \<open>mint_step\<close> is what any number of preflights and
    assemblies can do to them between their awaits, and \<open>take_mints\<close> is shown to be a run of it.
  \<^item> \<^verbatim>\<open>Key_Repository\<close>, \<^verbatim>\<open>Wallet_Protocol\<close>: \<^verbatim>\<open>state/KeyRepository.ts\<close> over any durable counter store, and an
    install's repository, preflights and assemblies as one step relation.
  \<^item> \<^verbatim>\<open>Note_Scan\<close>, \<^verbatim>\<open>Scan_Progress\<close>: \<^verbatim>\<open>sync/NoteProcessor.ts\<close>, \<^verbatim>\<open>sync/ScanEngine.ts\<close> and \<^verbatim>\<open>state/UtxoRepository.ts\<close>;
    the contract is the record \<open>contract\<close>, whose answers may depend on a state of its own.
  \<^item> \<^verbatim>\<open>Assemble\<close>: \<^verbatim>\<open>tx/assemble.ts\<close>, the five assemblies and what their witnesses spend and create.
  \<^item> \<^verbatim>\<open>Note_Demo\<close>: a concrete library that keeps the laws of \<open>lib_ok\<close>, for the runs.
  \<^item> \<^verbatim>\<open>Threshold_Scalars\<close>, \<^verbatim>\<open>Scalar_Group\<close>, \<^verbatim>\<open>Shamir\<close>: \<^verbatim>\<open>tss/bjj.ts\<close>, \<^verbatim>\<open>shamir.ts\<close>, \<^verbatim>\<open>vss.ts\<close>; the field of scalars (inverses by
    Fermat's theorem), interpolation at zero, and a group the scalars act on.
  \<^item> \<^verbatim>\<open>Frost\<close>, \<^verbatim>\<open>Frost_Sound\<close>, \<^verbatim>\<open>Frost_Bjj\<close>: \<^verbatim>\<open>wallets/src/frost\<close>. The protocol over any ciphersuite, why shares that pass
    their checks add up to a signature, and the BabyJubJub suite with its message encoding.
  \<^item> \<^verbatim>\<open>Dkg\<close>, \<^verbatim>\<open>Dkg_Sound\<close>, \<^verbatim>\<open>Gjkr_Run\<close>: \<^verbatim>\<open>tss/dkg.ts\<close> and \<^verbatim>\<open>tss/gjkr.ts\<close>. The random draws are arguments, so a run with
    faulty dealers is a function of them.
  \<^item> \<^verbatim>\<open>Committee\<close>: \<^verbatim>\<open>tss/chaumPedersen.ts\<close> and \<^verbatim>\<open>threshold/compliance.ts\<close>.
  \<^item> \<^verbatim>\<open>Chain_Trace\<close>: \<^verbatim>\<open>threshold/chainTrace.ts\<close>. The worklist loop is a partial function on any step; it is shown to
    return, and what it returns is a graph defined without the loop.
  \<^item> \<^verbatim>\<open>Threshold_Demo\<close>: the group of order 13, on which the laws of the threshold theories hold, for the runs.
  \<^item> \<^verbatim>\<open>Client_Properties\<close>, \<^verbatim>\<open>Format_Properties\<close>, \<^verbatim>\<open>Guard_Properties\<close>, \<^verbatim>\<open>Server_Properties\<close>, \<^verbatim>\<open>Wallet_Properties\<close>, \<^verbatim>\<open>Counter_Properties\<close>,
    \<^verbatim>\<open>Mint_Properties\<close>, \<^verbatim>\<open>Scan_Properties\<close>, \<^verbatim>\<open>Threshold_Properties\<close>, \<^verbatim>\<open>Trace_Properties\<close>: the properties, each with a run at a concrete input.

  \<^bold>\<open>Interfaces\<close>. The contracts between the parts are locales, interpreted on the model's own definitions:
  \<open>canonical_codec\<close> (base64 and hex), \<open>version_floor\<close> (the floor), \<open>sync_core\<close> and \<open>sync_relation\<close>
  (a relation every step of the engine keeps; the floor and the counters are such relations),
  \<open>replay_memory\<close> and \<open>bounded_memory\<close> (the replay guard, the limiter), \<open>slot_store\<close> (the SQLite store),
  \<open>counter_store\<close> (the in-memory and the sealed counter) and \<open>scan_relation\<close> with \<open>scan_relation_keys\<close> (what every
  part of a scan keeps; that spent notes stay spent and that the scan indices stand still are such relations),
  and \<open>scalar_group\<close> (a group on which the integers act through their residues modulo a prime; the scalars
  themselves, and the points of the prime-order subgroup by \<open>points_group\<close>).

  \<^bold>\<open>What is a parameter\<close>. Signatures, hashes, the AEAD, Poseidon2, the SQL engine behind the prepared
  statements, the curve, the clock, the random source, the network, the contract and the discovery service. Theorems that need one
  of them to behave say so in a hypothesis (\<open>aead_ok\<close>, \<open>hash_ok\<close>, \<open>sign_ok\<close> and the like), and their
  witnesses supply a concrete function that does. The hash of the note tree is never assumed injective:
  the hypotheses speak of the triples one tree and one path hash. Nor is the cipher assumed to be secure:
  where a scan relies on a wrong key opening to another leaf, the hypothesis \<open>no_false_open\<close> says so of the
  event and the key versions at hand. The threshold theories assume of the curve library that its points form a
  group with the named operations (\<open>tss_ok\<close>), that a decompressed point lies on it (\<open>unpack_ok\<close>), and that the
  order of the subgroup is prime; nothing of this is assumed of the hash but that it returns a residue
  (\<open>poseidon_ok\<close>).

  \<^bold>\<open>Bounds\<close>. Numbers the source types \<^verbatim>\<open>number\<close> and checks to be safe integers are integers with the same
  checks; the JSON reader keeps the doubles it must tell apart. Token counts of the rate limiter are exact
  rationals where the source has doubles. No definition needs fuel except \<open>p_value\<close>, the JSON parser, whose
  fuel is the length of its input, and \<open>nonresidue\<close>, the search for a quadratic non-residue, whose fuel is the
  modulus: every residue is tried. The square-and-multiply loop \<open>powSub_loop\<close> and the Euclidean loop
  \<open>inverse_loop\<close> recurse on the numbers themselves. The one loop that may not end, the worklist of the spend
  graph, is a \<^verbatim>\<open>partial_function\<close>. A scan has at most 64 passes and a gap repair at most 8 attempts, as in the
  source; \<open>key_room\<close> says that the key indices are far enough from the modulus for these passes. The tree depth is at most 32, as in the source.

  \<^bold>\<open>Not modelled\<close>. The concrete cryptographic back ends (\<^verbatim>\<open>noble.ts\<close>, \<^verbatim>\<open>webcrypto.ts\<close>), sockets, timers,
  signals and files; the circuits, the Solidity contracts and the provers; deployment and governance
  scripts; the adaptors and the Howl facade; public transfers; the notes of a group; and the second FROST suite, which only
  binds a library.
\<close>

end
